(* ===== verification/Prelude.thy ===== *)
theory Prelude
  imports Main "HOL-Library.AList" "HOL-Library.Word" "HOL-Library.List_Lexorder"
    "HOL-Library.Char_ord" "HOL-Library.Product_Lexorder"
begin

text \<open>
  What every component shares: the state-and-error monad in which the Go functions that
  touch a repository or the chain are written, its Hoare triples, keyed stores as
  association lists (a Go map together with the order one iteration of it happens to
  take), the three-valued parse results of \<^verbatim>\<open>big.Int.SetString\<close>, and the lemma collections.
\<close>

named_theorems triple_intros \<open>Hoare rules for the monad's combinators and the primitives\<close>
named_theorems store_simps \<open>look-ups in updated stores\<close>

section \<open>Machine integers and times\<close>

type_synonym u64 = "64 word"
type_synonym u256 = "256 word"
type_synonym byte = "8 word"
type_synonym address = "160 word"

text \<open>A \<^verbatim>\<open>time.Time\<close> or \<^verbatim>\<open>time.Duration\<close> is its count of nanoseconds.\<close>

type_synonym gotime = int

lemma unat_Suc: "x \<noteq> - 1 \<Longrightarrow> unat (x + 1 :: 'a::len word) = Suc (unat x)"
  by (metis Suc_eq_plus1 add.commute max_word_wrap unatSuc eq_neg_iff_add_eq_0)

lemma word_succ_gt: "x \<noteq> - 1 \<Longrightarrow> x < x + (1 :: 'a::len word)"
  by (simp add: word_less_nat_alt unat_Suc)

section \<open>The state and error monad\<close>

text \<open>
  A Go function with receiver state \<open>'s\<close> that returns \<open>(T, error)\<close>: it maps the state to
  an error or a value, and the state it leaves behind, also when it fails.
\<close>

type_synonym ('e, 's, 'a) act = "'s \<Rightarrow> ('e + 'a) \<times> 's"

definition ret :: "'a \<Rightarrow> ('e, 's, 'a) act" where
  "ret x = (\<lambda>s. (Inr x, s))"

definition raise :: "'e \<Rightarrow> ('e, 's, 'a) act" where
  "raise e = (\<lambda>s. (Inl e, s))"

definition bindM :: "('e, 's, 'a) act \<Rightarrow> ('a \<Rightarrow> ('e, 's, 'b) act) \<Rightarrow> ('e, 's, 'b) act" where
  "bindM m f = (\<lambda>s. case m s of (Inl e, t) \<Rightarrow> (Inl e, t) | (Inr x, t) \<Rightarrow> f x t)"

text \<open>\<open>tryM\<close> hands the error to the caller as a value (\<^verbatim>\<open>x, err := m\<close> followed by a test of
  \<^verbatim>\<open>err\<close>); \<open>finallyM\<close> is \<^verbatim>\<open>defer\<close>; \<open>forM\<close> is a \<^verbatim>\<open>for range\<close> loop that returns at the first error.\<close>

definition tryM :: "('e, 's, 'a) act \<Rightarrow> ('f, 's, 'e + 'a) act" where
  "tryM m = (\<lambda>s. case m s of (r, t) \<Rightarrow> (Inr r, t))"

definition finallyM :: "('e, 's, 'a) act \<Rightarrow> ('e, 's, unit) act \<Rightarrow> ('e, 's, 'a) act" where
  "finallyM m c = (\<lambda>s. case m s of (r, t) \<Rightarrow> (r, snd (c t)))"

definition liftE :: "'e + 'a \<Rightarrow> ('e, 's, 'a) act" where
  "liftE r = (\<lambda>s. (r, s))"

definition guardM :: "bool \<Rightarrow> 'e \<Rightarrow> ('e, 's, unit) act" where
  "guardM b e = (if b then ret () else raise e)"

definition getM :: "('s \<Rightarrow> 'a) \<Rightarrow> ('e, 's, 'a) act" where
  "getM f = (\<lambda>s. (Inr (f s), s))"

definition modifyM :: "('s \<Rightarrow> 's) \<Rightarrow> ('e, 's, unit) act" where
  "modifyM f = (\<lambda>s. (Inr (), f s))"

fun forM :: "'a list \<Rightarrow> ('a \<Rightarrow> ('e, 's, unit) act) \<Rightarrow> ('e, 's, unit) act" where
  "forM [] f = ret ()"
| "forM (x # xs) f = bindM (f x) (\<lambda>_. forM xs f)"

lemma forM_append: "forM (xs @ ys) f = bindM (forM xs f) (\<lambda>_. forM ys f)"
  by (induction xs) (auto simp: bindM_def ret_def fun_eq_iff split: prod.splits sum.splits)

lemma forM_map: "forM (map g xs) f = forM xs (\<lambda>x. f (g x))"
  by (induction xs) simp_all

lemmas monad_defs = ret_def raise_def bindM_def tryM_def finallyM_def liftE_def guardM_def
  getM_def modifyM_def

lemma bindM_InrE:
  assumes "bindM m f s = (Inr y, t)"
  obtains x u where "m s = (Inr x, u)" and "f x u = (Inr y, t)"
  using assms by (auto simp: bindM_def split: prod.splits sum.splits)

lemma ret_InrD: "ret x s = (Inr y, t) \<Longrightarrow> y = x \<and> t = s"
  by (simp add: ret_def)

text \<open>How a call to a repository or a remote service can go wrong: before or after it took effect.\<close>

datatype fault = NoFault | FaultBefore | FaultAfter

section \<open>Hoare triples\<close>

text \<open>
  \<open>triple P m Q\<close>: started in a state satisfying \<open>P\<close>, \<open>m\<close> ends in an outcome (error or
  value) and a state satisfying \<open>Q\<close>. Every action terminates, so the triple is total.
\<close>

definition triple :: "('s \<Rightarrow> bool) \<Rightarrow> ('e, 's, 'a) act \<Rightarrow> ('e + 'a \<Rightarrow> 's \<Rightarrow> bool) \<Rightarrow> bool" where
  "triple P m Q \<longleftrightarrow> (\<forall>s. P s \<longrightarrow> Q (fst (m s)) (snd (m s)))"

definition keeps :: "('s \<Rightarrow> bool) \<Rightarrow> ('e, 's, 'a) act \<Rightarrow> bool" where
  "keeps P m \<longleftrightarrow> (\<forall>s. P s \<longrightarrow> P (snd (m s)))"

lemma tripleI: "(\<And>s. P s \<Longrightarrow> Q (fst (m s)) (snd (m s))) \<Longrightarrow> triple P m Q"
  by (simp add: triple_def)

lemma tripleD: "triple P m Q \<Longrightarrow> P s \<Longrightarrow> m s = (r, t) \<Longrightarrow> Q r t"
  by (metis fst_conv snd_conv triple_def)

lemma triple_run: "triple P m Q \<Longrightarrow> P s \<Longrightarrow> \<exists>r t. m s = (r, t) \<and> Q r t"
  by (cases "m s") (auto dest: tripleD)

lemma triple_conseq:
  "triple P' m Q' \<Longrightarrow> (\<And>s. P s \<Longrightarrow> P' s) \<Longrightarrow> (\<And>r s. Q' r s \<Longrightarrow> Q r s) \<Longrightarrow> triple P m Q"
  by (simp add: triple_def)

lemma triple_ret: "(\<And>s. P s \<Longrightarrow> Q (Inr x) s) \<Longrightarrow> triple P (ret x) Q"
  by (simp add: triple_def ret_def)

lemma triple_raise: "(\<And>s. P s \<Longrightarrow> Q (Inl e) s) \<Longrightarrow> triple P (raise e) Q"
  by (simp add: triple_def raise_def)

lemma triple_bind:
  assumes "triple P m (\<lambda>r s. case r of Inl e \<Rightarrow> Q (Inl e) s | Inr x \<Rightarrow> R x s)"
    and "\<And>x. triple (R x) (f x) Q"
  shows "triple P (bindM m f) Q"
proof (rule tripleI)
  fix s assume "P s"
  obtain r t where m: "m s = (r, t)" by (cases "m s")
  from tripleD [OF assms(1) \<open>P s\<close> m] show "Q (fst (bindM m f s)) (snd (bindM m f s))"
    using assms(2) m by (cases r) (auto simp: bindM_def triple_def)
qed

lemma triple_finally:
  assumes "triple P m R" and "\<And>r. triple (R r) c (\<lambda>_ s. Q r s)"
  shows "triple P (finallyM m c) Q"
proof (rule tripleI)
  fix s assume "P s"
  obtain r t where m: "m s = (r, t)" by (cases "m s")
  from tripleD [OF assms(1) \<open>P s\<close> m] show "Q (fst (finallyM m c s)) (snd (finallyM m c s))"
    using assms(2) m by (auto simp: finallyM_def triple_def)
qed

lemma keepsI: "(\<And>s. P s \<Longrightarrow> P (snd (m s))) \<Longrightarrow> keeps P m"
  by (simp add: keeps_def)

lemma keepsD: "keeps P m \<Longrightarrow> P s \<Longrightarrow> m s = (r, t) \<Longrightarrow> P t"
  by (metis snd_conv keeps_def)

lemma keeps_triple: "keeps P m \<longleftrightarrow> triple P m (\<lambda>_. P)"
  by (simp add: keeps_def triple_def)

text \<open>A step that keeps the assertion, with a fact about the value it returns.\<close>

lemma triple_bind_keeps:
  assumes "keeps P m" and "\<And>s x t. P s \<Longrightarrow> m s = (Inr x, t) \<Longrightarrow> F x"
    and "\<And>x. F x \<Longrightarrow> triple P (f x) Q" and "\<And>e s. P s \<Longrightarrow> Q (Inl e) s"
  shows "triple P (bindM m f) Q"
proof (rule tripleI)
  fix s assume s: "P s"
  obtain r t where m: "m s = (r, t)" by (cases "m s")
  have t: "P t" using keepsD [OF assms(1) s m] .
  show "Q (fst (bindM m f s)) (snd (bindM m f s))"
    using assms(2) [OF s] assms(3,4) m t by (cases r) (auto simp: bindM_def triple_def)
qed

lemma triple_bind_keeps': 
  assumes "keeps P m" and "\<And>x. triple P (f x) Q" and "\<And>e s. P s \<Longrightarrow> Q (Inl e) s"
  shows "triple P (bindM m f) Q"
  using assms by (intro triple_bind_keeps [where F = "\<lambda>_. True"]) auto

lemma keeps_ret [triple_intros]: "keeps P (ret x)"
  by (simp add: keeps_def ret_def)

lemma keeps_raise [triple_intros]: "keeps P (raise e)"
  by (simp add: keeps_def raise_def)

lemma keeps_liftE [triple_intros]: "keeps P (liftE r)"
  by (simp add: keeps_def liftE_def)

lemma keeps_guard [triple_intros]: "keeps P (guardM b e)"
  by (simp add: keeps_def guardM_def ret_def raise_def)

lemma keeps_get [triple_intros]: "keeps P (getM f)"
  by (simp add: keeps_def getM_def)

lemma keeps_bind [triple_intros]:
  assumes "keeps P m" and "\<And>x. keeps P (f x)"
  shows "keeps P (bindM m f)"
proof (rule keepsI)
  fix s assume "P s"
  obtain r t where m: "m s = (r, t)" by (cases "m s")
  from keepsD [OF assms(1) \<open>P s\<close> m] show "P (snd (bindM m f s))"
    using assms(2) m by (cases r) (auto simp: bindM_def keeps_def)
qed

lemma keeps_try [triple_intros]: "keeps P m \<Longrightarrow> keeps P (tryM m)"
  by (simp add: keeps_def tryM_def split_beta)

lemma keeps_finally [triple_intros]: "keeps P m \<Longrightarrow> keeps P c \<Longrightarrow> keeps P (finallyM m c)"
  by (simp add: keeps_def finallyM_def split_beta)

lemma keeps_forM [triple_intros]: "(\<And>x. x \<in> set xs \<Longrightarrow> keeps P (f x)) \<Longrightarrow> keeps P (forM xs f)"
  by (induction xs) (auto intro!: triple_intros)

lemma triple_forM:
  assumes "\<And>x xs'. triple (I (x # xs')) (f x) (\<lambda>r s. case r of Inl _ \<Rightarrow> J s | Inr _ \<Rightarrow> I xs' s)"
  shows "triple (I xs) (forM xs f) (\<lambda>r s. case r of Inl _ \<Rightarrow> J s | Inr _ \<Rightarrow> I [] s)"
proof (induction xs)
  case Nil
  then show ?case by (auto intro: triple_ret)
next
  case (Cons x xs)
  show ?case
    unfolding forM.simps
    by (rule triple_bind [where R = "\<lambda>_. I xs", OF triple_conseq [OF assms] Cons]) (auto split: sum.splits)
qed

lemma keeps_if [triple_intros]: "keeps P m \<Longrightarrow> keeps P n \<Longrightarrow> keeps P (if b then m else n)"
  by simp

lemma keeps_case_option [triple_intros]:
  "keeps P m \<Longrightarrow> (\<And>x. keeps P (f x)) \<Longrightarrow> keeps P (case v of None \<Rightarrow> m | Some x \<Rightarrow> f x)"
  by (cases v) auto

lemma keeps_case_sum [triple_intros]:
  "(\<And>e. keeps P (g e)) \<Longrightarrow> (\<And>x. keeps P (f x)) \<Longrightarrow> keeps P (case v of Inl e \<Rightarrow> g e | Inr x \<Rightarrow> f x)"
  by (cases v) auto

lemma keeps_case_prod [triple_intros]: "(\<And>a b. keeps P (f a b)) \<Longrightarrow> keeps P (case p of (a, b) \<Rightarrow> f a b)"
  by (cases p) auto

lemma keeps_case_bool [triple_intros]: "keeps P m \<Longrightarrow> keeps P n \<Longrightarrow> keeps P (case b of True \<Rightarrow> m | False \<Rightarrow> n)"
  by (cases b) auto

section \<open>Keyed stores\<close>

text \<open>
  A Go \<^verbatim>\<open>map\<close> is an association list with distinct keys: looking up is \<open>map_of\<close>, storing is
  \<open>AList.update\<close>, deleting is \<open>AList.delete\<close>; the list's order is the order an iteration of
  the map takes, which Go leaves open, so a lemma about every store is one about every order.
\<close>

type_synonym ('k, 'v) store = "('k \<times> 'v) list"

abbreviation lookup :: "('k, 'v) store \<Rightarrow> 'k \<Rightarrow> 'v option" where
  "lookup \<equiv> map_of"

abbreviation put :: "'k \<Rightarrow> 'v \<Rightarrow> ('k, 'v) store \<Rightarrow> ('k, 'v) store" where
  "put \<equiv> AList.update"

abbreviation vals :: "('k, 'v) store \<Rightarrow> 'v list" where
  "vals st \<equiv> map snd st"

definition wf_store :: "('v \<Rightarrow> 'k) \<Rightarrow> ('k, 'v) store \<Rightarrow> bool" where
  "wf_store key st \<longleftrightarrow> distinct (map fst st) \<and> (\<forall>(k, v) \<in> set st. key v = k)"

lemma lookup_put [store_simps]: "lookup (put k v st) k' = (if k = k' then Some v else lookup st k')"
  by (simp add: update_conv')

lemma lookup_delete [store_simps]:
  "lookup (AList.delete k st) k' = (if k = k' then None else lookup st k')"
  by (simp add: delete_conv')

lemma wf_store_Nil [simp]: "wf_store key []"
  by (simp add: wf_store_def)

lemma wf_store_alt:
  "wf_store key st \<longleftrightarrow> distinct (map fst st) \<and> (\<forall>k v. lookup st k = Some v \<longrightarrow> key v = k)"
  unfolding wf_store_def by (auto dest: map_of_SomeD)

lemma wf_store_put: "wf_store key st \<Longrightarrow> key v = k \<Longrightarrow> wf_store key (put k v st)"
  by (auto simp: wf_store_alt distinct_update lookup_put)

lemma wf_store_lookup: "wf_store key st \<Longrightarrow> lookup st k = Some v \<Longrightarrow> key v = k"
  unfolding wf_store_def by (auto dest: map_of_SomeD)

lemma wf_store_vals: "wf_store key st \<Longrightarrow> v \<in> set (vals st) \<longleftrightarrow> lookup st (key v) = Some v"
  unfolding wf_store_def by force

lemma lookup_filter:
  "distinct (map fst st) \<Longrightarrow>
    lookup (filter (\<lambda>(k, v). P v) st) k = (case lookup st k of Some v \<Rightarrow> if P v then Some v else None | None \<Rightarrow> None)"
  by (induction st) (auto split: option.splits simp: map_of_eq_None_iff rev_image_eqI)

lemma wf_store_filter: "wf_store key st \<Longrightarrow> wf_store key (filter p st)"
  unfolding wf_store_def by (auto simp: distinct_map_filter)

end
