(* ===== verification/Keyset.thy ===== *)
theory Keyset
  imports Prelude
begin

text \<open>
  Keyset pagination, server/internal/dal/repository/keyset.go. A cursor names the last item
  of the previous page by sort value and id; the base64 JSON text that carries it to the
  client and back is left out, so a cursor here is the decoded \<^verbatim>\<open>KeysetCursor\<close>, and \<open>None\<close> is an
  empty or malformed one. Go \<^verbatim>\<open>int\<close> sizes do not overflow on slices that fit in memory.
\<close>

record keyset_cursor =
  kc_sort_value :: int
  kc_id :: string

definition keyset_past :: "bool \<Rightarrow> keyset_cursor \<Rightarrow> int \<Rightarrow> string \<Rightarrow> bool" where
  "keyset_past desc c sv iid =
     (if desc then sv < kc_sort_value c \<or> (sv = kc_sort_value c \<and> iid < kc_id c)
      else sv > kc_sort_value c \<or> (sv = kc_sort_value c \<and> iid > kc_id c))"

fun find_index :: "('a \<Rightarrow> bool) \<Rightarrow> 'a list \<Rightarrow> nat \<Rightarrow> nat option" where
  "find_index p [] i = None"
| "find_index p (x # xs) i = (if p x then Some i else find_index p xs (Suc i))"

definition keyset_page ::
  "'a list \<Rightarrow> ('a \<Rightarrow> int) \<Rightarrow> ('a \<Rightarrow> string) \<Rightarrow> keyset_cursor option \<Rightarrow> int \<Rightarrow> bool
    \<Rightarrow> 'a list \<times> keyset_cursor option" where
  "keyset_page items sort_value iden cursor limit desc =
     (let len = length items;
          start = (case cursor of None \<Rightarrow> 0
                   | Some c \<Rightarrow> (case find_index (\<lambda>it. keyset_past desc c (sort_value it) (iden it)) items 0 of
                       None \<Rightarrow> len | Some i \<Rightarrow> i));
          e0 = int start + limit;
          e = (if limit \<le> 0 \<or> e0 > int len then len else nat e0);
          page = take (e - start) (drop start items)
      in (page,
          if e < len then
            (let last_it = items ! (e - 1)
             in Some \<lparr>kc_sort_value = sort_value last_it, kc_id = iden last_it\<rparr>)
          else None))"

text \<open>A client's walk: ask for pages until the cursor comes back empty; \<open>fuel\<close> bounds the requests.\<close>

fun keyset_walk ::
  "nat \<Rightarrow> 'a list \<Rightarrow> ('a \<Rightarrow> int) \<Rightarrow> ('a \<Rightarrow> string) \<Rightarrow> keyset_cursor option \<Rightarrow> int \<Rightarrow> bool
    \<Rightarrow> 'a list list option" where
  "keyset_walk 0 items sv iden c limit desc = None"
| "keyset_walk (Suc fuel) items sv iden c limit desc =
     (case keyset_page items sv iden c limit desc of
        (page, None) \<Rightarrow> Some [page]
      | (page, Some c') \<Rightarrow> map_option ((#) page) (keyset_walk fuel items sv iden (Some c') limit desc))"

definition keyset_before :: "bool \<Rightarrow> ('a \<Rightarrow> int) \<Rightarrow> ('a \<Rightarrow> string) \<Rightarrow> 'a \<Rightarrow> 'a \<Rightarrow> bool" where
  "keyset_before desc sv iden x y =
     keyset_past desc \<lparr>kc_sort_value = sv x, kc_id = iden x\<rparr> (sv y) (iden y)"

lemma keyset_before_irrefl: "\<not> keyset_before desc sv iden x x"
  by (simp add: keyset_before_def keyset_past_def)

lemma keyset_before_asym: "keyset_before desc sv iden x y \<Longrightarrow> \<not> keyset_before desc sv iden y x"
  by (auto simp: keyset_before_def keyset_past_def split: if_splits)

lemma find_index_first:
  "\<forall>x \<in> set xs. \<not> p x \<Longrightarrow> find_index p (xs @ ys) i =
    (case ys of [] \<Rightarrow> None | y # ys' \<Rightarrow> if p y then Some (i + length xs) else find_index p ys' (Suc (i + length xs)))"
  by (induction xs arbitrary: i) (auto split: list.splits)

text \<open>In a list sorted strictly by (sort value, id), the items past the \<open>n\<close>th are those after it.\<close>

lemma find_index_past:
  assumes "sorted_wrt (keyset_before desc sv iden) items" and "0 < n" and "n < length items"
  shows "find_index (\<lambda>it. keyset_past desc \<lparr>kc_sort_value = sv (items ! (n - 1)), kc_id = iden (items ! (n - 1))\<rparr>
           (sv it) (iden it)) items 0 = Some n"
proof -
  let ?p = "keyset_before desc sv iden (items ! (n - 1))"
  have "\<not> ?p x" if "x \<in> set (take n items)" for x
  proof -
    obtain i where i: "i < n" "x = items ! i" using \<open>x \<in> _\<close> assms(3)
      by (auto simp: in_set_conv_nth)
    show ?thesis
    proof (cases "i = n - 1")
      case True
      with i show ?thesis by (simp add: keyset_before_irrefl)
    next
      case False
      with i assms have "keyset_before desc sv iden (items ! i) (items ! (n - 1))"
        by (intro sorted_wrt_nth_less [OF assms(1)]) auto
      with i show ?thesis by (simp add: keyset_before_asym)
    qed
  qed
  moreover have "?p (items ! n)"
    using assms by (intro sorted_wrt_nth_less [OF assms(1)]) auto
  moreover have "items = take n items @ items ! n # drop (Suc n) items"
    using assms(3) by (rule id_take_nth_drop)
  ultimately have "find_index ?p items 0 = Some n"
    using assms(3) find_index_first [of "take n items" ?p "items ! n # drop (Suc n) items" 0] by auto
  then show ?thesis unfolding keyset_before_def .
qed

lemma keyset_page_step:
  assumes "sorted_wrt (keyset_before desc sv iden) items" and "0 < limit"
    and "(n = 0 \<and> c = None) \<or>
      (0 < n \<and> n < length items \<and>
        c = Some \<lparr>kc_sort_value = sv (items ! (n - 1)), kc_id = iden (items ! (n - 1))\<rparr>)"
  shows "keyset_page items sv iden c limit desc =
    (take (nat limit) (drop n items),
     if n + nat limit < length items then
       Some \<lparr>kc_sort_value = sv (items ! (n + nat limit - 1)), kc_id = iden (items ! (n + nat limit - 1))\<rparr>
     else None)"
proof -
  have start: "(case c of None \<Rightarrow> 0 | Some c \<Rightarrow>
      (case find_index (\<lambda>it. keyset_past desc c (sv it) (iden it)) items 0 of None \<Rightarrow> length items | Some i \<Rightarrow> i)) = n"
    using assms(3) find_index_past [OF assms(1)] by auto
  have lim: "nat (int n + limit) = n + nat limit" "int n + limit > int (length items) \<longleftrightarrow> n + nat limit > length items"
    using assms(2) by auto
  show ?thesis
    using assms(2,3) unfolding keyset_page_def Let_def start by (auto simp: lim)
qed

lemma keyset_walk_from:
  assumes "sorted_wrt (keyset_before desc sv iden) items" and "0 < limit"
    and "(n = 0 \<and> c = None) \<or>
      (0 < n \<and> n < length items \<and>
        c = Some \<lparr>kc_sort_value = sv (items ! (n - 1)), kc_id = iden (items ! (n - 1))\<rparr>)"
    and "length items - n < fuel"
  shows "\<exists>pages. keyset_walk fuel items sv iden c limit desc = Some pages \<and> concat pages = drop n items"
  using assms(3,4)
proof (induction fuel arbitrary: n c)
  case 0
  then show ?case by simp
next
  case (Suc fuel)
  note step = keyset_page_step [OF assms(1,2) Suc.prems(1)]
  show ?case
  proof (cases "n + nat limit < length items")
    case False
    then show ?thesis by (simp add: step)
  next
    case True
    let ?m = "n + nat limit"
    obtain pages where p: "keyset_walk fuel items sv iden
        (Some \<lparr>kc_sort_value = sv (items ! (?m - 1)), kc_id = iden (items ! (?m - 1))\<rparr>) limit desc = Some pages"
        "concat pages = drop ?m items"
      using Suc.IH [of ?m] True Suc.prems(2) assms(2) by fastforce
    have "drop n items = take (nat limit) (drop n items) @ drop ?m items"
      by (metis append_take_drop_id drop_drop add.commute)
    with p True show ?thesis by (simp add: step)
  qed
qed

text \<open>
  C8: following the cursors from the first page visits every item exactly once and in
  order, and ends after at most one request per item and one more.
\<close>

theorem keyset_walk_complete:
  assumes "sorted_wrt (keyset_before desc sv iden) items" and "0 < limit"
  shows "\<exists>pages. keyset_walk (Suc (length items)) items sv iden None limit desc = Some pages
    \<and> concat pages = items"
  using keyset_walk_from [OF assms, of 0 None "Suc (length items)"] by simp

theorem keyset_walk_complete_witness:
  "\<exists>pages. keyset_walk 4 [(9, ''a''), (9, ''b''), (12, ''a'')] fst snd None 2 False = Some pages
    \<and> concat pages = [(9, ''a''), (9, ''b''), (12, ''a'')]"
proof -
  have "sorted_wrt (keyset_before False fst snd) [(9 :: int, ''a''), (9, ''b''), (12, ''a'')]"
    by (simp add: keyset_before_def keyset_past_def)
  from keyset_walk_complete [OF this, of 2] show ?thesis by (simp add: eval_nat_numeral)
qed

end
