(* ===== verification/Stores.thy ===== *)
theory Stores
  imports Prelude
begin

text \<open>
  The contracts that several repositories of server/internal/dal/repository share, as
  locales: optimistic concurrency by version (\<^verbatim>\<open>UpdateConditional\<close>), the generation-swap
  rebuild of a read model (\<^verbatim>\<open>Upsert\<close> then \<^verbatim>\<open>DeleteStaleGeneration\<close>), and reservations
  fenced by a token (nonce leases, idempotency records). Each component that provides one of
  them interprets its locale on its own operations.
\<close>

section \<open>Optimistic concurrency\<close>

text \<open>
  \<open>cas st v n\<close> writes \<open>v\<close> under its key when the stored version is \<open>n\<close>, and stamps it with
  version \<open>n + 1\<close>: \<open>None\<close> for a missing key, \<open>Some (False, st)\<close> for a lost race.
\<close>

locale versioned_store =
  fixes get :: "'st \<Rightarrow> 'k \<Rightarrow> 'v option"
    and cas :: "'st \<Rightarrow> 'v \<Rightarrow> int \<Rightarrow> (bool \<times> 'st) option"
    and key :: "'v \<Rightarrow> 'k"
    and version :: "'v \<Rightarrow> int"
    and with_version :: "int \<Rightarrow> 'v \<Rightarrow> 'v"
  assumes cas_missing: "get st (key v) = None \<Longrightarrow> cas st v n = None"
    and cas_stale: "get st (key v) = Some u \<Longrightarrow> version u \<noteq> n \<Longrightarrow> cas st v n = Some (False, st)"
    and cas_hit: "get st (key v) = Some u \<Longrightarrow> version u = n \<Longrightarrow>
      \<exists>st'. cas st v n = Some (True, st') \<and>
        (\<forall>k. get st' k = (if k = key v then Some (with_version (n + 1) v) else get st k))"
    and version_with: "version (with_version n v) = n"
    and key_with: "key (with_version n v) = key v"
begin

lemma cas_get:
  assumes "cas st v n = Some (True, st')"
  shows "get st' k = (if k = key v then Some (with_version (n + 1) v) else get st k)"
proof -
  obtain u where u: "get st (key v) = Some u"
    using assms cas_missing by (cases "get st (key v)") auto
  moreover have "version u = n" using assms u cas_stale by (cases "version u = n") auto
  ultimately show ?thesis using assms cas_hit by fastforce
qed

lemma cas_expected:
  assumes "cas st v n = Some (True, st')"
  shows "\<exists>u. get st (key v) = Some u \<and> version u = n"
  using assms cas_missing cas_stale
  by (cases "get st (key v)") (auto, metis option.inject prod.inject)

lemma cas_false_unchanged:
  assumes "cas st v n = Some (False, st')"
  shows "st' = st"
proof -
  obtain u where u: "get st (key v) = Some u"
    using assms cas_missing by (cases "get st (key v)") auto
  have "version u \<noteq> n" using assms u cas_hit [of st v u n] by auto
  then show ?thesis using assms u cas_stale by auto
qed

text \<open>Two writers that loaded the same version of a record: only the first one writes.\<close>

lemma second_writer_loses:
  assumes "cas st v n = Some (True, st')" and "key w = key v"
  shows "cas st' w n = Some (False, st')"
proof -
  have "get st' (key w) = Some (with_version (n + 1) v)"
    using cas_get [OF assms(1)] assms(2) by simp
  then show ?thesis using cas_stale [of st' w _ n] by (simp add: version_with)
qed

text \<open>A whole sequence of writers with one expected version: the store after it is the store after the first success.\<close>

fun cas_all :: "'st \<Rightarrow> 'v list \<Rightarrow> int \<Rightarrow> nat \<times> 'st" where
  "cas_all st [] n = (0, st)"
| "cas_all st (v # vs) n =
     (case cas st v n of
        Some (True, st') \<Rightarrow> (case cas_all st' vs n of (c, st'') \<Rightarrow> (Suc c, st''))
      | _ \<Rightarrow> cas_all st vs n)"

lemma cas_all_stale:
  "get st k = Some u \<Longrightarrow> version u \<noteq> n \<Longrightarrow> \<forall>v \<in> set vs. key v = k \<Longrightarrow> cas_all st vs n = (0, st)"
  by (induction vs) (auto simp: cas_stale)

lemma at_most_one_writer:
  "\<forall>v \<in> set vs. key v = k \<Longrightarrow> fst (cas_all st vs n) \<le> 1"
proof (induction vs)
  case Nil
  then show ?case by simp
next
  case (Cons v vs)
  show ?case
  proof (cases "\<exists>st'. cas st v n = Some (True, st')")
    case True
    then obtain st' where st': "cas st v n = Some (True, st')" by blast
    have "get st' k = Some (with_version (n + 1) v)"
      using cas_get [OF st'] Cons.prems by simp
    then have "cas_all st' vs n = (0, st')"
      using Cons.prems by (intro cas_all_stale) (auto simp: version_with)
    then show ?thesis using st' by simp
  next
    case False
    with Cons show ?thesis by (auto split: option.splits bool.splits)
  qed
qed

end

section \<open>Generation-swap rebuilds\<close>

text \<open>
  A read model is rebuilt by upserting every derived row under a fresh generation \<open>g\<close> and
  then deleting the rows of other generations.
\<close>

locale generation_store =
  fixes get :: "'st \<Rightarrow> 'k \<Rightarrow> 'v option"
    and upsert :: "'v \<Rightarrow> 'st \<Rightarrow> 'st"
    and prune :: "int \<Rightarrow> 'st \<Rightarrow> 'st"
    and key :: "'v \<Rightarrow> 'k"
    and gen :: "'v \<Rightarrow> int"
    and inv :: "'st \<Rightarrow> bool"
  assumes get_upsert: "inv st \<Longrightarrow> get (upsert v st) k = (if k = key v then Some v else get st k)"
    and inv_upsert: "inv st \<Longrightarrow> inv (upsert v st)"
    and get_prune: "inv st \<Longrightarrow> get (prune g st) k =
      (case get st k of None \<Rightarrow> None | Some v \<Rightarrow> if gen v = g then Some v else None)"
    and inv_prune: "inv st \<Longrightarrow> inv (prune g st)"
begin

lemma inv_upserts: "inv st \<Longrightarrow> inv (fold upsert rows st)"
  by (induction rows arbitrary: st) (auto simp: inv_upsert)

lemma get_upserts:
  "inv st \<Longrightarrow> get (fold upsert rows st) k =
    (case map_of (rev (map (\<lambda>r. (key r, r)) rows)) k of None \<Rightarrow> get st k | Some r \<Rightarrow> Some r)"
proof (induction rows arbitrary: st)
  case Nil
  then show ?case by simp
next
  case (Cons r rows)
  then show ?case
    by (auto simp: inv_upsert get_upsert map_add_def split: option.splits)
qed

text \<open>The rebuilt model holds the derived rows and nothing else.\<close>

lemma get_rebuild:
  assumes "inv st" and "\<forall>r \<in> set rows. gen r = g" and "\<And>k v. get st k = Some v \<Longrightarrow> gen v \<noteq> g"
  shows "get (prune g (fold upsert rows st)) k = map_of (rev (map (\<lambda>r. (key r, r)) rows)) k"
proof -
  have "gen r = g" if "map_of (rev (map (\<lambda>r. (key r, r)) rows)) k = Some r" for r
    using that assms(2) by (auto dest!: map_of_SomeD)
  with assms(1,3) show ?thesis
    by (auto simp: get_prune inv_upserts get_upserts split: option.splits)
qed

text \<open>No reader misses a surviving row while the rebuild runs, however far it has come.\<close>

lemma no_gap:
  assumes "inv st" and "get st k = Some v"
  shows "get (fold upsert (take n rows) st) k \<noteq> None"
  using assms by (simp add: get_upserts split: option.splits)

text \<open>Rebuilding from the same rows again, under a later generation, changes only the stamps.\<close>

lemma rebuild_dom:
  assumes "inv st" and "\<forall>r \<in> set rows. gen r = g" and "\<And>k v. get st k = Some v \<Longrightarrow> gen v \<noteq> g"
  shows "get (prune g (fold upsert rows st)) k \<noteq> None \<longleftrightarrow> k \<in> key ` set rows"
  using assms(1-2) assms(3)
  by (subst get_rebuild) (auto simp: map_of_eq_None_iff image_image dest!: map_of_SomeD
      intro: ccontr)

end

section \<open>Fenced reservations\<close>

text \<open>
  \<open>acquire now k a st\<close> claims \<open>k\<close> unless it is live; \<open>act o now k t st\<close> is an operation of the
  holder (renew, complete, release), accepted only with the token of the current owner.
\<close>

locale fenced_store =
  fixes live :: "gotime \<Rightarrow> 'st \<Rightarrow> 'k \<Rightarrow> bool"
    and owner :: "'st \<Rightarrow> 'k \<Rightarrow> 'tok option"
    and acquire :: "gotime \<Rightarrow> 'k \<Rightarrow> 'a \<Rightarrow> 'st \<Rightarrow> 'tok option \<times> 'st"
    and fresh :: "'st \<Rightarrow> 'k \<Rightarrow> 'a \<Rightarrow> bool"
    and act :: "'op \<Rightarrow> gotime \<Rightarrow> 'k \<Rightarrow> 'tok \<Rightarrow> 'st \<Rightarrow> bool \<times> 'st"
  assumes acquire_live: "live now st k \<Longrightarrow> acquire now k a st = (None, st)"
    and acquire_free: "\<not> live now st k \<Longrightarrow> fresh st k a \<Longrightarrow>
      \<exists>t st'. acquire now k a st = (Some t, st') \<and> owner st' k = Some t \<and> owner st k \<noteq> Some t"
    and act_mismatch: "owner st k \<noteq> Some t \<Longrightarrow> act p now k t st = (False, st)"
begin

lemma takeover_fences:
  assumes "fresh st k a" and "acquire now k a st = (Some t', st')" and "owner st k = Some t"
  shows "act p now' k t st' = (False, st')"
proof -
  have "\<not> live now st k" using assms(2) acquire_live by auto
  from acquire_free [OF this assms(1)] assms(2,3) have "owner st' k \<noteq> Some t" by auto
  then show ?thesis by (rule act_mismatch)
qed

lemma acquire_exclusive:
  assumes "acquire now k a st = (Some t, st')" and "live now' st' k"
  shows "acquire now' k b st' = (None, st')"
  using assms(2) by (rule acquire_live)

end

end
