(* ===== verification/Decimal.thy ===== *)
theory Decimal
  imports Prelude
begin

text \<open>
  Decimal integers as the code reads and writes them: \<^verbatim>\<open>big.Int.String\<close> and
  \<^verbatim>\<open>big.Int.SetString(s, 10)\<close> of Go's math/big, which accepts one optional sign followed by
  one or more digits and nothing else (leading zeros included).
\<close>

definition digit_char :: "nat \<Rightarrow> char" where
  "digit_char d = char_of (48 + d)"

definition char_digit :: "char \<Rightarrow> nat option" where
  "char_digit c = (let n = of_char c :: nat in if 48 \<le> n \<and> n \<le> 57 then Some (n - 48) else None)"

fun nat_digits :: "nat \<Rightarrow> string" where
  "nat_digits n = (if n < 10 then [digit_char n] else nat_digits (n div 10) @ [digit_char (n mod 10)])"

declare nat_digits.simps [simp del]

definition big_string :: "int \<Rightarrow> string" where
  "big_string i = (if i < 0 then CHR ''-'' # nat_digits (nat (- i)) else nat_digits (nat i))"

fun scan_digits :: "nat \<Rightarrow> string \<Rightarrow> nat option" where
  "scan_digits acc [] = Some acc"
| "scan_digits acc (c # cs) =
     (case char_digit c of None \<Rightarrow> None | Some d \<Rightarrow> scan_digits (10 * acc + d) cs)"

definition scan_nat :: "string \<Rightarrow> nat option" where
  "scan_nat s = (if s = [] then None else scan_digits 0 s)"

definition big_set_string :: "string \<Rightarrow> int option" where
  "big_set_string s =
     (case s of
        [] \<Rightarrow> None
      | c # cs \<Rightarrow>
          if c = CHR ''-'' then map_option (\<lambda>n. - int n) (scan_nat cs)
          else if c = CHR ''+'' then map_option int (scan_nat cs)
          else map_option int (scan_nat s))"

lemma char_digit_digit_char [simp]: "d < 10 \<Longrightarrow> char_digit (digit_char d) = Some d"
  by (simp add: char_digit_def digit_char_def Let_def)

lemma scan_digits_append: "scan_digits acc (xs @ ys) =
    (case scan_digits acc xs of None \<Rightarrow> None | Some a \<Rightarrow> scan_digits a ys)"
  by (induction xs arbitrary: acc) (auto split: option.splits)

lemma nat_digits_ne [simp]: "nat_digits n \<noteq> []"
  by (subst nat_digits.simps) simp

lemma scan_nat_digits: "scan_digits 0 (nat_digits n) = Some n"
proof (induction n rule: nat_digits.induct)
  case (1 n)
  show ?case
  proof (cases "n < 10")
    case True
    then show ?thesis by (simp add: nat_digits.simps)
  next
    case False
    with 1 show ?thesis
      by (simp add: nat_digits.simps [of n] scan_digits_append)
  qed
qed

lemma nat_digits_hd: "\<exists>c cs d. nat_digits n = c # cs \<and> char_digit c = Some d"
  using scan_nat_digits [of n] nat_digits_ne [of n]
  by (cases "nat_digits n") (auto split: option.splits)

lemma char_digit_sign: "char_digit CHR ''-'' = None" "char_digit CHR ''+'' = None"
  by (simp_all add: char_digit_def Let_def)

text \<open>What the code writes as a decimal it reads back.\<close>

lemma big_string_roundtrip [simp]: "big_set_string (big_string i) = Some i"
proof -
  obtain c cs d where c: "nat_digits (nat i) = c # cs" "char_digit c = Some d"
    using nat_digits_hd by blast
  then have "c \<noteq> CHR ''-'' \<and> c \<noteq> CHR ''+''" using char_digit_sign by auto
  with c show ?thesis
    using scan_nat_digits [of "nat i"] scan_nat_digits [of "nat (- i)"]
    by (simp add: big_string_def big_set_string_def scan_nat_def)
qed

lemma big_string_inj: "big_string i = big_string j \<longleftrightarrow> i = j"
  by (metis big_string_roundtrip option.inject)

lemma scan_digits_range: "scan_digits acc s = Some n \<Longrightarrow> acc \<le> n"
  by (induction s arbitrary: acc) (fastforce split: option.splits)+

end
