(* ===== verification/Codec.thy ===== *)
theory Codec
  imports Decimal
begin

text \<open>
  Strings and bytes as the standard library and go-ethereum's common package write them: ASCII
  case folding (\<^verbatim>\<open>strings.ToLower\<close>, \<^verbatim>\<open>strings.EqualFold\<close>; hex addresses and error texts are
  ASCII), \<^verbatim>\<open>strings.Contains\<close>, big-endian bytes, and 0x-prefixed hex.
\<close>

section \<open>ASCII case folding\<close>

definition to_lower_char :: "char \<Rightarrow> char" where
  "to_lower_char c =
     (let n = of_char c :: nat in if 65 \<le> n \<and> n \<le> 90 then char_of (n + 32) else c)"

definition to_lower :: "string \<Rightarrow> string" where
  "to_lower s = map to_lower_char s"

definition equal_fold :: "string \<Rightarrow> string \<Rightarrow> bool" where
  "equal_fold a b \<longleftrightarrow> to_lower a = to_lower b"

lemma equal_fold_refl [simp]: "equal_fold a a"
  by (simp add: equal_fold_def)

lemma equal_fold_sym: "equal_fold a b \<Longrightarrow> equal_fold b a"
  by (simp add: equal_fold_def)

lemma equal_fold_trans: "equal_fold a b \<Longrightarrow> equal_fold b c \<Longrightarrow> equal_fold a c"
  by (simp add: equal_fold_def)

fun contains_string :: "string \<Rightarrow> string \<Rightarrow> bool" where
  "contains_string [] p = (p = [])"
| "contains_string (c # s) p = (take (length p) (c # s) = p \<or> contains_string s p)"

section \<open>Big-endian bytes\<close>

text \<open>The last \<open>n\<close> bytes of \<open>v\<close>, most significant first.\<close>

fun be_bytes :: "nat \<Rightarrow> nat \<Rightarrow> byte list" where
  "be_bytes 0 v = []"
| "be_bytes (Suc n) v = be_bytes n (v div 256) @ [word_of_nat (v mod 256)]"

text \<open>\<^verbatim>\<open>big.Int.Bytes\<close>: no leading zero bytes.\<close>

fun nat_bytes :: "nat \<Rightarrow> byte list" where
  "nat_bytes v = (if v = 0 then [] else nat_bytes (v div 256) @ [word_of_nat (v mod 256)])"

declare nat_bytes.simps [simp del]

definition left_pad :: "nat \<Rightarrow> byte list \<Rightarrow> byte list" where
  "left_pad n bs = replicate (n - length bs) 0 @ bs"

definition address_bytes :: "address \<Rightarrow> byte list" where
  "address_bytes a = be_bytes 20 (unat a)"

definition hash_bytes :: "u256 \<Rightarrow> byte list" where
  "hash_bytes h = be_bytes 32 (unat h)"

lemma length_be_bytes [simp]: "length (be_bytes n v) = n"
  by (induction n arbitrary: v) simp_all

lemma be_bytes_inject:
  "v < 256 ^ n \<Longrightarrow> w < 256 ^ n \<Longrightarrow> be_bytes n v = be_bytes n w \<Longrightarrow> v = w"
proof (induction n arbitrary: v w)
  case 0
  then show ?case by simp
next
  case (Suc n)
  have "(word_of_nat (v mod 256) :: byte) = word_of_nat (w mod 256)" and high: "be_bytes n (v div 256) = be_bytes n (w div 256)"
    using Suc.prems(3) by simp_all
  then have "unat (word_of_nat (v mod 256) :: byte) = unat (word_of_nat (w mod 256) :: byte)" by simp
  then have "v mod 256 = w mod 256" by (simp add: unat_of_nat)
  moreover have "v div 256 = w div 256" using Suc.prems by (intro Suc.IH high) auto
  ultimately show ?case by (metis mult_div_mod_eq)
qed

lemma left_pad_nat_bytes: "v < 256 ^ n \<Longrightarrow> left_pad n (nat_bytes v) = be_bytes n v"
proof (induction n arbitrary: v)
  case 0
  then show ?case by (simp add: left_pad_def nat_bytes.simps)
next
  case (Suc n)
  have "v div 256 < 256 ^ n" using Suc.prems by auto
  then have IH: "left_pad n (nat_bytes (v div 256)) = be_bytes n (v div 256)" by (rule Suc.IH)
  show ?case
  proof (cases "v = 0")
    case True
    then have "be_bytes n 0 = replicate n 0" using IH by (simp add: left_pad_def nat_bytes.simps)
    then show ?thesis using True by (simp add: left_pad_def nat_bytes.simps replicate_append_same)
  next
    case False
    then have "nat_bytes v = nat_bytes (v div 256) @ [word_of_nat (v mod 256)]" by (subst nat_bytes.simps) simp
    then show ?thesis using IH by (simp add: left_pad_def)
  qed
qed

lemma hash_bytes_inject [simp]: "hash_bytes a = hash_bytes b \<longleftrightarrow> a = b"
proof
  assume "hash_bytes a = hash_bytes b"
  moreover have "unat x < 256 ^ 32" for x :: u256
  proof -
    have "unat x < 2 ^ LENGTH(256)" by (rule unsigned_less)
    then show ?thesis by simp
  qed
  ultimately have "unat a = unat b" unfolding hash_bytes_def by (blast intro: be_bytes_inject)
  then show "a = b" by (simp add: word_unat_eq_iff)
qed simp

lemma length_hash_bytes [simp]: "length (hash_bytes h) = 32"
  by (simp add: hash_bytes_def)

section \<open>Hex\<close>

definition hex_digit :: "nat \<Rightarrow> char" where
  "hex_digit d = (if d < 10 then char_of (48 + d) else char_of (87 + d))"

definition hex_bytes :: "byte list \<Rightarrow> string" where
  "hex_bytes bs = concat (map (\<lambda>b. [hex_digit (unat b div 16), hex_digit (unat b mod 16)]) bs)"

definition hash_hex :: "u256 \<Rightarrow> string" where
  "hash_hex h = ''0x'' @ hex_bytes (hash_bytes h)"

lemma to_lower_hex_digit: "d < 16 \<Longrightarrow> to_lower_char (hex_digit d) = hex_digit d"
  by (auto simp: hex_digit_def to_lower_char_def Let_def)

lemma to_lower_hex_bytes: "to_lower (hex_bytes bs) = hex_bytes bs"
proof (induction bs)
  case Nil
  then show ?case by (simp add: hex_bytes_def to_lower_def)
next
  case (Cons b bs)
  have "unat b < 256" using unsigned_less [of b] by simp
  then have "unat b div 16 < 16" "unat b mod 16 < 16" by auto
  then show ?case using Cons by (simp add: hex_bytes_def to_lower_def to_lower_hex_digit)
qed

lemma hex_digit_inject: "a < 16 \<Longrightarrow> b < 16 \<Longrightarrow> hex_digit a = hex_digit b \<Longrightarrow> a = b"
proof -
  have code: "(of_char (hex_digit d) :: nat) = (if d < 10 then 48 + d else 87 + d)" if "d < 16" for d
    using that by (simp add: hex_digit_def)
  assume "a < 16" "b < 16" "hex_digit a = hex_digit b"
  then have "(if a < 10 then 48 + a else 87 + a) = (if b < 10 then 48 + b else 87 + b)" using code by metis
  then show "a = b" by (auto split: if_splits)
qed

lemma hex_bytes_inject: "hex_bytes a = hex_bytes b \<Longrightarrow> a = b"
proof (induction a arbitrary: b)
  case Nil
  then show ?case by (cases b) (simp_all add: hex_bytes_def)
next
  case (Cons x a)
  then obtain y b' where b: "b = y # b'" by (cases b) (simp_all add: hex_bytes_def)
  have fits: "unat z div 16 < 16" "unat z mod 16 < 16" for z :: byte
  proof -
    have "unat z < 256" using unsigned_less [of z] by simp
    then show "unat z div 16 < 16" "unat z mod 16 < 16" by auto
  qed
  have "hex_digit (unat x div 16) = hex_digit (unat y div 16)" "hex_digit (unat x mod 16) = hex_digit (unat y mod 16)"
    and rest: "hex_bytes a = hex_bytes b'"
    using Cons.prems by (simp_all add: b hex_bytes_def)
  then have "unat x div 16 = unat y div 16" "unat x mod 16 = unat y mod 16" using hex_digit_inject fits by blast+
  then have "unat x = unat y" by (metis mult_div_mod_eq)
  then show ?case using Cons.IH [OF rest] by (simp add: b word_unat_eq_iff)
qed

lemma hash_hex_inject [simp]: "hash_hex a = hash_hex b \<longleftrightarrow> a = b"
  using hex_bytes_inject [of "hash_bytes a" "hash_bytes b"] by (auto simp: hash_hex_def)

lemma to_lower_hash_hex: "to_lower (hash_hex h) = hash_hex h"
  using to_lower_hex_bytes by (simp add: hash_hex_def to_lower_def to_lower_char_def)

lemma hash_hex_chars: "CHR ''|'' \<notin> set (hash_hex h)"
proof -
  have digit: "hex_digit d \<noteq> CHR ''|''" if "d < 16" for d
  proof
    assume "hex_digit d = CHR ''|''"
    then have "(of_char (hex_digit d) :: nat) = of_char CHR ''|''" by simp
    then show False using that by (simp add: hex_digit_def split: if_splits)
  qed
  have "CHR ''|'' \<notin> set (hex_bytes bs)" for bs
  proof (induction bs)
    case Nil
    then show ?case by (simp add: hex_bytes_def)
  next
    case (Cons b bs)
    have "unat b < 256" using unsigned_less [of b] by simp
    then have "unat b div 16 < 16" "unat b mod 16 < 16" by auto
    then have "hex_digit (unat b div 16) \<noteq> CHR ''|''" "hex_digit (unat b mod 16) \<noteq> CHR ''|''" by (simp_all add: digit)
    then show ?case using Cons by (auto simp: hex_bytes_def)
  qed
  then show ?thesis by (simp add: hash_hex_def)
qed

end
