(* ===== verification/TxStore.thy ===== *)
theory TxStore
  imports Stores Keyset Codec
begin

text \<open>
  Transaction records and their in-memory repository: server/internal/dal/models/transaction.go
  and server/internal/dal/memory/transaction.go. A repository is a keyed store of records;
  \<^verbatim>\<open>sort.Slice\<close> is modelled by a stable sort of the store's order, which is itself arbitrary.
\<close>

section \<open>Records\<close>

datatype tx_status = TxPending | TxMined | TxConfirmed | TxReplaced | TxReverted | TxReorged
  | TxFailed | TxBroadcastUnknown | TxNonceConsumedExternally | TxNeedsIntervention

record tx_attempt =
  at_nonce :: u64
  at_tx_hash :: string
  at_signed_raw_tx :: string
  at_status :: tx_status
  at_recorded_at :: gotime

record transaction =
  tx_id :: string
  tx_idempotency_key :: string
  tx_kind :: string
  tx_chain_id :: int
  tx_from :: string
  tx_to :: string
  tx_data :: string
  tx_value :: string
  tx_nonce :: u64
  tx_hash :: string
  tx_signed_raw :: string
  tx_stat :: tx_status
  tx_block_number :: u64
  tx_block_hash :: string
  tx_replaced_by :: string
  tx_replaces :: string
  tx_replacement_count :: int
  tx_fencing_token :: u64
  tx_allow_reorg_retry :: bool
  tx_version :: int
  tx_attempts :: "tx_attempt list"
  tx_submitted_at :: gotime
  tx_updated_at :: gotime

text \<open>Go's zero value of the struct: a composite literal leaves the fields it does not name at it.\<close>

definition tx_zero :: transaction where
  "tx_zero = \<lparr>tx_id = [], tx_idempotency_key = [], tx_kind = [], tx_chain_id = 0, tx_from = [],
     tx_to = [], tx_data = [], tx_value = [], tx_nonce = 0, tx_hash = [], tx_signed_raw = [],
     tx_stat = TxPending, tx_block_number = 0, tx_block_hash = [], tx_replaced_by = [],
     tx_replaces = [], tx_replacement_count = 0, tx_fencing_token = 0, tx_allow_reorg_retry = False,
     tx_version = 0, tx_attempts = [], tx_submitted_at = 0, tx_updated_at = 0\<rparr>"

definition event_derived_prefix :: string where
  "event_derived_prefix = ''evt:''"

definition is_event_derived :: "transaction \<Rightarrow> bool" where
  "is_event_derived t \<longleftrightarrow> take (length event_derived_prefix) (tx_id t) = event_derived_prefix"

section \<open>The repository\<close>

type_synonym tx_store = "(string, transaction) store"

datatype store_error = ErrNotFound | ErrAlreadyExists | ErrFencingTokenMismatch | ErrStoreFault

definition tx_create :: "transaction \<Rightarrow> tx_store \<Rightarrow> store_error + tx_store" where
  "tx_create tx st =
     (case lookup st (tx_id tx) of
        Some _ \<Rightarrow> Inl ErrAlreadyExists
      | None \<Rightarrow> Inr (put (tx_id tx) tx st))"

definition tx_get :: "string \<Rightarrow> tx_store \<Rightarrow> store_error + transaction" where
  "tx_get i st = (case lookup st i of None \<Rightarrow> Inl ErrNotFound | Some v \<Rightarrow> Inr v)"

definition tx_get_by_key :: "string \<Rightarrow> tx_store \<Rightarrow> store_error + transaction" where
  "tx_get_by_key k st =
     (case find (\<lambda>v. tx_idempotency_key v = k \<and> k \<noteq> []) (vals st) of
        None \<Rightarrow> Inl ErrNotFound
      | Some v \<Rightarrow> Inr v)"

fun tx_hash_match :: "int \<Rightarrow> string \<Rightarrow> transaction list \<Rightarrow> transaction option \<Rightarrow> transaction option" where
  "tx_hash_match chain h [] match = match"
| "tx_hash_match chain h (v # vs) match =
     (if tx_chain_id v \<noteq> chain \<or> tx_hash v \<noteq> h then tx_hash_match chain h vs match
      else tx_hash_match chain h vs
        (case match of
           None \<Rightarrow> Some v
         | Some m \<Rightarrow> if \<not> is_event_derived v \<and> is_event_derived m then Some v else match))"

definition tx_get_by_tx_hash :: "int \<Rightarrow> string \<Rightarrow> tx_store \<Rightarrow> store_error + transaction" where
  "tx_get_by_tx_hash chain h st =
     (if h = [] then Inl ErrNotFound
      else case tx_hash_match chain h (vals st) None of
        None \<Rightarrow> Inl ErrNotFound
      | Some v \<Rightarrow> Inr v)"

definition tx_update :: "transaction \<Rightarrow> tx_store \<Rightarrow> store_error + tx_store" where
  "tx_update tx st =
     (case lookup st (tx_id tx) of
        None \<Rightarrow> Inl ErrNotFound
      | Some _ \<Rightarrow> Inr (put (tx_id tx) tx st))"

definition tx_update_conditional ::
  "transaction \<Rightarrow> int \<Rightarrow> tx_store \<Rightarrow> store_error + bool \<times> tx_store" where
  "tx_update_conditional tx expected st =
     (case lookup st (tx_id tx) of
        None \<Rightarrow> Inl ErrNotFound
      | Some existing \<Rightarrow>
          if tx_version existing \<noteq> expected then Inr (False, st)
          else Inr (True, put (tx_id tx) (tx\<lparr>tx_version := expected + 1\<rparr>) st))"

definition tx_list :: "tx_store \<Rightarrow> transaction list" where
  "tx_list st = sort_key tx_submitted_at (vals st)"

definition tx_filter :: "(transaction \<Rightarrow> bool) \<Rightarrow> tx_store \<Rightarrow> transaction list" where
  "tx_filter keep st = filter keep (tx_list st)"

definition tx_list_by_statuses :: "tx_status list \<Rightarrow> tx_store \<Rightarrow> transaction list" where
  "tx_list_by_statuses statuses st = tx_filter (\<lambda>t. \<exists>s \<in> set statuses. tx_stat t = s) st"

definition tx_list_unfinalized :: "u64 \<Rightarrow> tx_store \<Rightarrow> transaction list" where
  "tx_list_unfinalized confirmed_from st =
     tx_filter (\<lambda>t. case tx_stat t of
         TxReplaced \<Rightarrow> False
       | TxFailed \<Rightarrow> False
       | TxConfirmed \<Rightarrow> confirmed_from \<le> tx_block_number t
       | _ \<Rightarrow> True) st"

definition tx_list_replacements :: "tx_store \<Rightarrow> transaction list" where
  "tx_list_replacements st = tx_filter (\<lambda>t. tx_replaces t \<noteq> []) st"

definition tx_list_page ::
  "string \<Rightarrow> keyset_cursor option \<Rightarrow> int \<Rightarrow> tx_store \<Rightarrow> transaction list \<times> keyset_cursor option" where
  "tx_list_page addr cursor limit st =
     (let addr_lower = to_lower addr;
          kept = filter (\<lambda>v. \<not> (addr_lower \<noteq> [] \<and> to_lower (tx_from v) \<noteq> addr_lower
                               \<and> to_lower (tx_to v) \<noteq> addr_lower)) (vals st);
          sorted_txs = sort_key (\<lambda>v. (tx_submitted_at v, tx_id v)) kept
      in keyset_page sorted_txs tx_submitted_at tx_id cursor limit False)"

section \<open>Laws\<close>

abbreviation wf_txs :: "tx_store \<Rightarrow> bool" where
  "wf_txs \<equiv> wf_store tx_id"

lemma find_SomeD: "find p xs = Some x \<Longrightarrow> x \<in> set xs \<and> p x"
  by (induction xs) (auto split: if_splits)

lemma tx_create_get:
  "tx_create tx st = Inr st' \<Longrightarrow> lookup st' i = (if i = tx_id tx then Some tx else lookup st i)"
  by (auto simp: tx_create_def lookup_put split: option.splits)

lemma tx_update_get:
  "tx_update tx st = Inr st' \<Longrightarrow> lookup st' i = (if i = tx_id tx then Some tx else lookup st i)"
  by (auto simp: tx_update_def lookup_put split: option.splits)

lemma tx_create_wf: "wf_txs st \<Longrightarrow> tx_create tx st = Inr st' \<Longrightarrow> wf_txs st'"
  by (auto simp: tx_create_def wf_store_put split: option.splits)

lemma tx_update_wf: "wf_txs st \<Longrightarrow> tx_update tx st = Inr st' \<Longrightarrow> wf_txs st'"
  by (auto simp: tx_update_def wf_store_put split: option.splits)

lemma tx_update_conditional_wf:
  "wf_txs st \<Longrightarrow> tx_update_conditional tx n st = Inr (b, st') \<Longrightarrow> wf_txs st'"
  by (auto simp: tx_update_conditional_def wf_store_put split: option.splits if_splits)

lemma set_tx_list [simp]: "set (tx_list st) = set (vals st)"
  by (simp add: tx_list_def)

lemma set_tx_filter: "set (tx_filter keep st) = {t \<in> set (vals st). keep t}"
  by (auto simp: tx_filter_def)

lemma tx_get_by_key_Some:
  "tx_get_by_key k st = Inr t \<Longrightarrow> t \<in> set (vals st) \<and> tx_idempotency_key t = k \<and> k \<noteq> []"
  by (auto simp: tx_get_by_key_def split: option.splits dest!: find_SomeD)

lemma tx_get_by_key_None:
  "tx_get_by_key k st = Inl e \<Longrightarrow> k \<noteq> [] \<Longrightarrow> t \<in> set (vals st) \<Longrightarrow> tx_idempotency_key t \<noteq> k"
  by (auto simp: tx_get_by_key_def find_None_iff split: option.splits)

text \<open>The memory repository offers optimistic concurrency as the locale states it.\<close>

definition tx_cas :: "tx_store \<Rightarrow> transaction \<Rightarrow> int \<Rightarrow> (bool \<times> tx_store) option" where
  "tx_cas st tx n = (case tx_update_conditional tx n st of Inl _ \<Rightarrow> None | Inr r \<Rightarrow> Some r)"

interpretation txv: versioned_store lookup tx_cas tx_id tx_version "\<lambda>n t. t\<lparr>tx_version := n\<rparr>"
  by unfold_locales (auto simp: tx_cas_def tx_update_conditional_def lookup_put)

definition hash_hit :: "int \<Rightarrow> string \<Rightarrow> transaction \<Rightarrow> bool" where
  "hash_hit chain h v \<longleftrightarrow> tx_chain_id v = chain \<and> tx_hash v = h"

lemma tx_hash_match_Cons:
  "tx_hash_match chain h (v # vs) m =
    (if \<not> hash_hit chain h v then tx_hash_match chain h vs m
     else tx_hash_match chain h vs
       (case m of None \<Rightarrow> Some v | Some u \<Rightarrow> if \<not> is_event_derived v \<and> is_event_derived u then Some v else m))"
  by (simp add: hash_hit_def)

declare tx_hash_match.simps(2) [simp del]

text \<open>The loop's result given its accumulator: the first event-derived hit is kept only while no other hit comes.\<close>

lemma tx_hash_match_Some:
  "tx_hash_match chain h vs (Some m) =
    (if is_event_derived m then
       (case find (\<lambda>v. hash_hit chain h v \<and> \<not> is_event_derived v) vs of None \<Rightarrow> Some m | Some v \<Rightarrow> Some v)
     else Some m)"
  by (induction vs arbitrary: m) (simp_all add: tx_hash_match_Cons)

lemma tx_hash_match_start:
  "tx_hash_match chain h vs None =
    (case find (\<lambda>v. hash_hit chain h v \<and> \<not> is_event_derived v) vs of
       Some v \<Rightarrow> Some v
     | None \<Rightarrow> find (hash_hit chain h) vs)"
  by (induction vs) (simp_all add: tx_hash_match_Cons tx_hash_match_Some split: option.split)

text \<open>
  A look-up by transaction hash finds a record exactly when the store holds one, and
  never an event-derived duplicate while a manager-submitted record of that hash exists,
  whatever order the map is iterated in.
\<close>

theorem get_by_tx_hash_prefers_submitted:
  "case tx_get_by_tx_hash chain h st of
     Inr v \<Rightarrow> v \<in> set (vals st) \<and> hash_hit chain h v \<and>
       (is_event_derived v \<longrightarrow> (\<forall>w \<in> set (vals st). hash_hit chain h w \<longrightarrow> is_event_derived w))
   | Inl e \<Rightarrow> e = ErrNotFound \<and> (h = [] \<or> (\<forall>w \<in> set (vals st). \<not> hash_hit chain h w))"
proof (cases "find (\<lambda>v. hash_hit chain h v \<and> \<not> is_event_derived v) (vals st)")
  case (Some v)
  with find_SomeD [OF Some] show ?thesis
    by (simp add: tx_get_by_tx_hash_def tx_hash_match_start)
next
  case None
  then have all: "\<forall>w \<in> set (vals st). hash_hit chain h w \<longrightarrow> is_event_derived w"
    by (auto simp: find_None_iff)
  show ?thesis
  proof (cases "find (hash_hit chain h) (vals st)")
    case (Some v)
    with find_SomeD [OF Some] None all show ?thesis
      by (simp add: tx_get_by_tx_hash_def tx_hash_match_start)
  next
    case None': None
    then have "\<forall>w \<in> set (vals st). \<not> hash_hit chain h w" by (auto simp: find_None_iff)
    with None None' show ?thesis
      by (simp add: tx_get_by_tx_hash_def tx_hash_match_start)
  qed
qed

theorem get_by_tx_hash_prefers_submitted_witness:
  "(let e = tx_zero\<lparr>tx_id := ''evt:0x1'', tx_hash := ''0x1''\<rparr>;
        m = tx_zero\<lparr>tx_id := ''m'', tx_hash := ''0x1''\<rparr>
    in tx_get_by_tx_hash 0 ''0x1'' [(''evt:0x1'', e), (''m'', m)] = Inr m \<and>
       m \<in> set (vals [(''evt:0x1'', e), (''m'', m)]) \<and> hash_hit 0 ''0x1'' m)"
  using get_by_tx_hash_prefers_submitted
    [where chain = 0 and h = "''0x1''" and
      st = "[(''evt:0x1'', tx_zero\<lparr>tx_id := ''evt:0x1'', tx_hash := ''0x1''\<rparr>),
             (''m'', tx_zero\<lparr>tx_id := ''m'', tx_hash := ''0x1''\<rparr>)]"]
  by (simp add: tx_get_by_tx_hash_def tx_hash_match_Cons hash_hit_def is_event_derived_def
      event_derived_prefix_def tx_zero_def Let_def)

end
