(* ===== verification/NonceLease.thy ===== *)
theory NonceLease
  imports TxStore
begin

text \<open>
  The distributed nonce lease of a signing key: server/internal/dal/models/nonce_lease.go and
  server/internal/dal/memory/nonce_lease.go. Every operation reads the clock once, so the time
  is an argument. Released and expired leases stay in the store, which is what keeps the
  fencing tokens increasing.
\<close>

record nonce_lease =
  nl_key :: string
  nl_holder_id :: string
  nl_token :: u64
  nl_expires_at :: gotime
  nl_updated_at :: gotime

type_synonym lease_store = "(string, nonce_lease) store"

definition lease_acquire ::
  "gotime \<Rightarrow> string \<Rightarrow> string \<Rightarrow> gotime \<Rightarrow> lease_store \<Rightarrow> (u64 \<times> bool) \<times> lease_store" where
  "lease_acquire now key holder ttl st =
     (case lookup st key of
        Some existing \<Rightarrow>
          if nl_expires_at existing > now then ((0, False), st)
          else (let token = nl_token existing + 1 in
            ((token, True),
             put key \<lparr>nl_key = key, nl_holder_id = holder, nl_token = token,
                      nl_expires_at = now + ttl, nl_updated_at = now\<rparr> st))
      | None \<Rightarrow>
          ((1, True),
           put key \<lparr>nl_key = key, nl_holder_id = holder, nl_token = 1,
                    nl_expires_at = now + ttl, nl_updated_at = now\<rparr> st))"

definition lease_renew ::
  "gotime \<Rightarrow> string \<Rightarrow> string \<Rightarrow> u64 \<Rightarrow> gotime \<Rightarrow> lease_store \<Rightarrow> bool \<times> lease_store" where
  "lease_renew now key holder token ttl st =
     (case lookup st key of
        None \<Rightarrow> (False, st)
      | Some existing \<Rightarrow>
          if nl_holder_id existing \<noteq> holder \<or> nl_token existing \<noteq> token then (False, st)
          else (True, put key (existing\<lparr>nl_expires_at := now + ttl, nl_updated_at := now\<rparr>) st))"

definition lease_release ::
  "gotime \<Rightarrow> string \<Rightarrow> string \<Rightarrow> u64 \<Rightarrow> lease_store \<Rightarrow> (store_error + unit) \<times> lease_store" where
  "lease_release now key holder token st =
     (case lookup st key of
        None \<Rightarrow> (Inl ErrFencingTokenMismatch, st)
      | Some existing \<Rightarrow>
          if nl_holder_id existing \<noteq> holder \<or> nl_token existing \<noteq> token
          then (Inl ErrFencingTokenMismatch, st)
          else (Inr (), put key (existing\<lparr>nl_expires_at := now, nl_updated_at := now\<rparr>) st))"

section \<open>The lease as a fenced store\<close>

text \<open>An owner is a holder with its token; the holder's operations are renewal for some time and release.\<close>

datatype lease_op = Renew gotime | Release

definition lease_live :: "gotime \<Rightarrow> lease_store \<Rightarrow> string \<Rightarrow> bool" where
  "lease_live now st key \<longleftrightarrow> (\<exists>l. lookup st key = Some l \<and> nl_expires_at l > now)"

definition lease_owner :: "lease_store \<Rightarrow> string \<Rightarrow> (string \<times> u64) option" where
  "lease_owner st key = map_option (\<lambda>l. (nl_holder_id l, nl_token l)) (lookup st key)"

definition lease_grab ::
  "gotime \<Rightarrow> string \<Rightarrow> string \<times> gotime \<Rightarrow> lease_store \<Rightarrow> (string \<times> u64) option \<times> lease_store" where
  "lease_grab now key a st =
     (case lease_acquire now key (fst a) (snd a) st of
        ((token, ok), st') \<Rightarrow> (if ok then Some (fst a, token) else None, st'))"

definition lease_act ::
  "lease_op \<Rightarrow> gotime \<Rightarrow> string \<Rightarrow> string \<times> u64 \<Rightarrow> lease_store \<Rightarrow> bool \<times> lease_store" where
  "lease_act p now key t st =
     (case p of
        Renew ttl \<Rightarrow> lease_renew now key (fst t) (snd t) ttl st
      | Release \<Rightarrow> (case lease_release now key (fst t) (snd t) st of (r, st') \<Rightarrow> (r = Inr (), st')))"

lemmas lease_defs = lease_acquire_def lease_renew_def lease_release_def lease_live_def
  lease_owner_def lease_grab_def lease_act_def

lemma word_plus_one_neq: "x \<noteq> x + (1 :: 'a::len word)"
  by simp

interpretation lease: fenced_store lease_live lease_owner lease_grab "\<lambda>_ _ _. True" lease_act
proof (unfold_locales, goal_cases)
  case (1 now st k a)
  then show ?case by (auto simp: lease_defs)
next
  case (2 now st k a)
  then show ?case by (auto simp: lease_defs lookup_put Let_def split: option.splits)
next
  case (3 st k t p now)
  then show ?case by (cases t) (auto simp: lease_defs split: option.splits lease_op.splits)
qed

section \<open>Runs\<close>

text \<open>Every operation any replica performs, at the time its clock read; a run is a list of them.\<close>

datatype lease_event =
    EvAcquire gotime string string gotime
  | EvRenew gotime string string u64 gotime
  | EvRelease gotime string string u64

fun lease_step :: "lease_event \<Rightarrow> lease_store \<Rightarrow> lease_store" where
  "lease_step (EvAcquire now key holder ttl) st = snd (lease_acquire now key holder ttl st)"
| "lease_step (EvRenew now key holder token ttl) st = snd (lease_renew now key holder token ttl st)"
| "lease_step (EvRelease now key holder token) st = snd (lease_release now key holder token st)"

definition lease_run :: "lease_event list \<Rightarrow> lease_store \<Rightarrow> lease_store" where
  "lease_run es st = fold lease_step es st"

definition lease_tok :: "lease_store \<Rightarrow> string \<Rightarrow> nat" where
  "lease_tok st key = (case lookup st key of None \<Rightarrow> 0 | Some l \<Rightarrow> unat (nl_token l))"

text \<open>
  One step changes the owner of a key only by an acquisition, which takes the next token; the
  64-bit counter wraps after \<open>2 ^ 64\<close> acquisitions, which the bound below excludes.
\<close>

lemma lease_tok_succ: "Suc (unat x) < 2 ^ 64 \<Longrightarrow> unat (x + 1 :: u64) = Suc (unat x)"
  by (rule unat_Suc) (auto simp: unsigned_minus_1_eq_mask mask_eq_exp_minus_1)

lemma lease_step_owner:
  assumes "Suc (lease_tok st key) < 2 ^ 64"
  shows "lease_owner (lease_step e st) key = lease_owner st key \<or>
    lease_tok (lease_step e st) key = Suc (lease_tok st key)"
  using assms
  by (cases e) (auto simp: lease_defs lease_tok_def lookup_put Let_def lease_tok_succ split: option.splits)

lemma lease_tok_owner: "lease_owner st key = lease_owner st' key \<Longrightarrow> lease_tok st key = lease_tok st' key"
  by (auto simp: lease_owner_def lease_tok_def split: option.splits)

lemma lease_run_owner:
  "lease_tok st key + length es < 2 ^ 64 \<Longrightarrow>
    (lease_owner (lease_run es st) key = lease_owner st key \<or> lease_tok st key < lease_tok (lease_run es st) key) \<and>
    lease_tok st key \<le> lease_tok (lease_run es st) key \<and>
    lease_tok (lease_run es st) key \<le> lease_tok st key + length es"
proof (induction es arbitrary: st)
  case Nil
  then show ?case by (simp add: lease_run_def)
next
  case (Cons e es)
  have run: "lease_run (e # es) st = lease_run es (lease_step e st)" by (simp add: lease_run_def)
  have "Suc (lease_tok st key) < 2 ^ 64" using Cons.prems by simp
  from lease_step_owner [OF this, of e] show ?case
  proof
    assume same: "lease_owner (lease_step e st) key = lease_owner st key"
    then have "lease_tok (lease_step e st) key = lease_tok st key" by (rule lease_tok_owner)
    with Cons.IH [of "lease_step e st"] Cons.prems same show ?thesis unfolding run by simp
  next
    assume next_tok: "lease_tok (lease_step e st) key = Suc (lease_tok st key)"
    with Cons.IH [of "lease_step e st"] Cons.prems show ?thesis unfolding run by simp
  qed
qed

lemma lease_acquire_tok:
  assumes "lease_acquire now key holder ttl st = ((token, True), st')" and "Suc (lease_tok st key) < 2 ^ 64"
  shows "lease_owner st' key = Some (holder, token)" and "lease_tok st' key = unat token"
    and "lease_tok st' key = Suc (lease_tok st key)"
  using assms
  by (auto simp: lease_defs lease_tok_def lookup_put Let_def lease_tok_succ split: option.splits if_splits)

lemma lease_acquire_unat:
  "lease_acquire now key holder ttl st = ((token, True), st') \<Longrightarrow> lease_tok st' key = unat token"
  by (auto simp: lease_defs lease_tok_def lookup_put Let_def split: option.splits if_splits)

text \<open>
  C7: once another acquisition has taken a signer's lease, the replica that held it before can
  never again renew it or release it, whatever any replica does in between and however the
  clocks run: its renewal answers no and its release is refused, both leaving the store alone.
\<close>

theorem superseded_holder_fenced:
  assumes "lease_acquire now key holder ttl st = ((token, True), st1)"
    and "lease_acquire now' key holder' ttl' (lease_run es st1) = ((token', True), st2)"
    and "lease_tok st1 key + length es + length es' + 1 < 2 ^ 64"
  shows "lease_renew now'' key holder token ttl'' (lease_run es' st2) = (False, lease_run es' st2) \<and>
    lease_release now'' key holder token (lease_run es' st2) =
      (Inl ErrFencingTokenMismatch, lease_run es' st2)"
proof -
  let ?st = "lease_run es' st2"
  have "lease_tok st1 key = unat token" using assms(1) by (rule lease_acquire_unat)
  moreover have run1: "lease_tok st1 key \<le> lease_tok (lease_run es st1) key"
      "lease_tok (lease_run es st1) key \<le> lease_tok st1 key + length es"
    using lease_run_owner [of st1 key es] assms(3) by auto
  moreover have "lease_tok st2 key = Suc (lease_tok (lease_run es st1) key)"
    using assms(2,3) run1 by (intro lease_acquire_tok) auto
  moreover have "lease_tok st2 key \<le> lease_tok ?st key"
    using lease_run_owner [of st2 key es'] calculation(3,4) assms(3) by auto
  ultimately have other: "lease_owner ?st key \<noteq> Some (holder, token)"
    by (auto simp: lease_owner_def lease_tok_def split: option.splits)
  show ?thesis
    using lease.act_mismatch [OF other, of "Renew ttl''" now''] lease.act_mismatch [OF other, of Release now'']
    by (auto simp: lease_act_def lease_release_def split: option.splits if_splits)
qed

theorem superseded_holder_fenced_witness:
  "(let st1 = snd (lease_acquire 0 ''1:0xA'' ''replica-1'' 10 []);
        st2 = snd (lease_acquire 11 ''1:0xA'' ''replica-2'' 10 st1)
    in lease_renew 12 ''1:0xA'' ''replica-1'' 1 10 st2 = (False, st2) \<and>
       lease_release 12 ''1:0xA'' ''replica-1'' 1 st2 = (Inl ErrFencingTokenMismatch, st2))"
proof -
  let ?st1 = "snd (lease_acquire 0 ''1:0xA'' ''replica-1'' 10 [])"
  let ?st2 = "snd (lease_acquire 11 ''1:0xA'' ''replica-2'' 10 ?st1)"
  have "lease_acquire 0 ''1:0xA'' ''replica-1'' 10 [] = ((1, True), ?st1)"
    by (simp add: lease_acquire_def)
  moreover have "lease_acquire 11 ''1:0xA'' ''replica-2'' 10 (lease_run [] ?st1) = ((2, True), ?st2)"
    by (simp add: lease_acquire_def lease_run_def)
  moreover have "lease_tok ?st1 ''1:0xA'' + length ([] :: lease_event list) + length ([] :: lease_event list) + 1 < 2 ^ 64"
    by (simp add: lease_acquire_def lease_tok_def)
  ultimately show ?thesis
    using superseded_holder_fenced [of 0 "''1:0xA''" "''replica-1''" 10 "[]" 1 ?st1 11 "''replica-2''" 10 "[]" 2 ?st2 "[]" 12 10]
    by (simp add: lease_run_def)
qed

end
