(* ===== verification/TxEnv.thy ===== *)
theory TxEnv
  imports NonceLease Decimal
begin

text \<open>
  The surroundings of the transaction manager (server/internal/blockchain): the RPC client and
  the go-ethereum codecs it calls, which are not part of the repository and so are functions of
  the environment record \<open>tx_env\<close>; the world it runs in; and the primitives that call out.

  Every call out (RPC or repository) is numbered by \<open>w_tick\<close>. Answers may depend on that number
  in any way, a repository call may fail before or after it took effect (\<open>te_fault\<close>), and
  before each call other goroutines and replicas may have changed the stores (\<open>te_other\<close>). A
  theorem about every environment is one about every schedule of failures and interference.
  \<open>w_sent\<close> is a history variable: what was handed to \<^verbatim>\<open>SendTransaction\<close>, with the repository
  as it was at that moment.
\<close>

section \<open>Transactions, requests, errors\<close>

datatype tx_fees = DynamicFee int int int \<comment> \<open>chain id, tip cap, fee cap\<close>
  | LegacyFee int \<comment> \<open>gas price\<close>

record eth_tx =
  et_fees :: tx_fees
  et_nonce :: u64
  et_gas :: u64
  et_to :: address
  et_value :: int
  et_data :: "byte list"

record signed_tx =
  sx_tx :: eth_tx
  sx_sig :: "byte list"

text \<open>A Go error is the chain of errors it wraps; \<^verbatim>\<open>errors.Is\<close> and \<^verbatim>\<open>errors.As\<close> look a cause up in it.\<close>

datatype send_cause = CauseAmbiguousBroadcast | CauseDeadlineExceeded | CauseCanceled | CauseEOF
  | CauseUnexpectedEOF | CauseNetError | CauseOther string

type_synonym send_error = "send_cause list"

definition is_ambiguous_broadcast :: "send_error option \<Rightarrow> bool" where
  "is_ambiguous_broadcast err =
     (case err of
        None \<Rightarrow> False
      | Some chain \<Rightarrow>
          if CauseAmbiguousBroadcast \<in> set chain then True
          else if CauseDeadlineExceeded \<in> set chain \<or> CauseCanceled \<in> set chain then True
          else if CauseEOF \<in> set chain \<or> CauseUnexpectedEOF \<in> set chain then True
          else CauseNetError \<in> set chain)"

datatype rpc_error = RpcNotFound | RpcOther

datatype tx_error =
    ErrNoSigner | ErrSignerAddress | ErrSign | ErrEncode | ErrDecode string
  | ErrLeaseStore store_error | ErrLeaseUnavailable
  | ErrBlocked string u64
  | ErrRpc string
  | ErrTipCap int | ErrFeeCap int | ErrTotalCost int
  | ErrStore store_error
  | ErrBroadcastUnknown | ErrBroadcastRejected
  | ErrBumpPercent int | ErrNotPending tx_status | ErrSignerMismatch
  | ErrExhausted string | ErrConcurrentReplace string

record signer =
  sg_address :: "nat \<Rightarrow> address option"
  sg_sign_tx :: "eth_tx \<Rightarrow> int \<Rightarrow> signed_tx option"

record submit_request =
  rq_idempotency_key :: string
  rq_kind :: string
  rq_private_key :: "byte list option"
  rq_signer :: "signer option"
  rq_to :: address
  rq_data :: "byte list"
  rq_value :: "int option"
  rq_allow_reorg_retry :: bool

record receipt =
  rc_block_hash :: "string option" \<comment> \<open>\<open>None\<close> for the zero hash\<close>
  rc_block_number :: u64
  rc_failed :: bool

section \<open>Environment and world\<close>

record tx_env =
  te_other :: "nat \<Rightarrow> tx_store \<times> lease_store \<Rightarrow> tx_store \<times> lease_store"
  te_fault :: "nat \<Rightarrow> fault"
  te_now :: "nat \<Rightarrow> gotime"
  te_uuid :: "nat \<Rightarrow> string"
  te_block_number :: "nat \<Rightarrow> u64 option"
  te_header_hash :: "nat \<Rightarrow> u64 \<Rightarrow> rpc_error + string"
  te_base_fee :: "nat \<Rightarrow> int option option"
  te_pending_nonce :: "nat \<Rightarrow> address \<Rightarrow> u64 option"
  te_nonce_at :: "nat \<Rightarrow> address \<Rightarrow> u64 option"
  te_tip_cap :: "nat \<Rightarrow> int option"
  te_gas_price :: "nat \<Rightarrow> int option"
  te_estimate_gas :: "nat \<Rightarrow> address \<Rightarrow> address \<Rightarrow> byte list \<Rightarrow> int \<Rightarrow> u64 option"
  te_send :: "nat \<Rightarrow> signed_tx \<Rightarrow> send_error option"
  te_receipt :: "nat \<Rightarrow> string \<Rightarrow> rpc_error + receipt"
  te_static_signer :: "byte list \<Rightarrow> signer"
  te_addr_hex :: "address \<Rightarrow> string"
  te_hex_addr :: "string \<Rightarrow> address"
  te_bytes_hex :: "byte list \<Rightarrow> string"
  te_hex_bytes :: "string \<Rightarrow> byte list"
  te_tx_hash :: "signed_tx \<Rightarrow> string"
  te_marshal :: "signed_tx \<Rightarrow> byte list option"
  te_unmarshal :: "byte list \<Rightarrow> signed_tx option"
  te_zero_hash_hex :: string

record tx_world =
  w_tick :: nat
  w_txs :: tx_store
  w_leases :: lease_store
  w_sent :: "(signed_tx \<times> tx_store) list"

type_synonym 'a txm = "(tx_error, tx_world, 'a) act"

definition others :: "tx_env \<Rightarrow> tx_world \<Rightarrow> tx_world" where
  "others e w =
     (case te_other e (w_tick w) (w_txs w, w_leases w) of
        (t, l) \<Rightarrow> w\<lparr>w_tick := Suc (w_tick w), w_txs := t, w_leases := l\<rparr>)"

section \<open>Primitives\<close>

text \<open>\<open>rpc\<close> asks the node; \<open>store_read\<close> and \<open>store_write\<close> call the transaction repository and
  \<open>lease_call\<close> the lease repository; \<open>send_raw\<close> is \<^verbatim>\<open>SendTransaction\<close>.\<close>

definition rpc :: "tx_env \<Rightarrow> string \<Rightarrow> (nat \<Rightarrow> 'a option) \<Rightarrow> 'a txm" where
  "rpc e name f = (\<lambda>w. (case f (w_tick w) of None \<Rightarrow> Inl (ErrRpc name) | Some x \<Rightarrow> Inr x, others e w))"

definition rpc_try :: "tx_env \<Rightarrow> (nat \<Rightarrow> rpc_error + 'a) \<Rightarrow> (rpc_error + 'a) txm" where
  "rpc_try e f = (\<lambda>w. (Inr (f (w_tick w)), others e w))"

definition store_read :: "tx_env \<Rightarrow> (tx_store \<Rightarrow> store_error + 'a) \<Rightarrow> (store_error + 'a) txm" where
  "store_read e f = (\<lambda>w. let w' = others e w in
     (Inr (if te_fault e (w_tick w) = NoFault then f (w_txs w') else Inl ErrStoreFault), w'))"

definition store_write ::
  "tx_env \<Rightarrow> (tx_store \<Rightarrow> store_error + 'a \<times> tx_store) \<Rightarrow> (store_error + 'a) txm" where
  "store_write e f = (\<lambda>w. let w' = others e w in
     case te_fault e (w_tick w) of
       FaultBefore \<Rightarrow> (Inr (Inl ErrStoreFault), w')
     | FaultAfter \<Rightarrow> (Inr (Inl ErrStoreFault),
         case f (w_txs w') of Inl _ \<Rightarrow> w' | Inr (_, t) \<Rightarrow> w'\<lparr>w_txs := t\<rparr>)
     | NoFault \<Rightarrow> (case f (w_txs w') of Inl x \<Rightarrow> (Inr (Inl x), w')
         | Inr (x, t) \<Rightarrow> (Inr (Inr x), w'\<lparr>w_txs := t\<rparr>)))"

definition lease_call :: "tx_env \<Rightarrow> (lease_store \<Rightarrow> 'a \<times> lease_store) \<Rightarrow> (store_error + 'a) txm" where
  "lease_call e f = (\<lambda>w. let w' = others e w in
     case te_fault e (w_tick w) of
       FaultBefore \<Rightarrow> (Inr (Inl ErrStoreFault), w')
     | FaultAfter \<Rightarrow> (Inr (Inl ErrStoreFault), w'\<lparr>w_leases := snd (f (w_leases w'))\<rparr>)
     | NoFault \<Rightarrow> (case f (w_leases w') of (x, l) \<Rightarrow> (Inr (Inr x), w'\<lparr>w_leases := l\<rparr>)))"

definition send_raw :: "tx_env \<Rightarrow> signed_tx \<Rightarrow> send_error option txm" where
  "send_raw e s = (\<lambda>w. let w' = others e w in
     (Inr (te_send e (w_tick w) s), w'\<lparr>w_sent := w_sent w' @ [(s, w_txs w')]\<rparr>))"

definition clock :: "tx_env \<Rightarrow> gotime txm" where
  "clock e = getM (\<lambda>w. te_now e (w_tick w))"

definition fresh_id :: "tx_env \<Rightarrow> string txm" where
  "fresh_id e = getM (\<lambda>w. te_uuid e (w_tick w))"

text \<open>A store call whose error the caller returns as it is.\<close>

definition or_fail :: "(store_error + 'a) txm \<Rightarrow> 'a txm" where
  "or_fail m = bindM m (\<lambda>r. case r of Inl x \<Rightarrow> raise (ErrStore x) | Inr x \<Rightarrow> ret x)"

definition put_tx :: "(transaction \<Rightarrow> tx_store \<Rightarrow> store_error + tx_store) \<Rightarrow> transaction \<Rightarrow> tx_store
    \<Rightarrow> store_error + unit \<times> tx_store" where
  "put_tx f t st = (case f t st of Inl x \<Rightarrow> Inl x | Inr st' \<Rightarrow> Inr ((), st'))"

definition encode_signed_tx :: "tx_env \<Rightarrow> signed_tx \<Rightarrow> tx_error + string" where
  "encode_signed_tx e s =
     (case te_marshal e s of None \<Rightarrow> Inl ErrEncode | Some b \<Rightarrow> Inr (''0x'' @ te_bytes_hex e b))"

definition decode_signed_tx :: "tx_env \<Rightarrow> string \<Rightarrow> tx_error + signed_tx" where
  "decode_signed_tx e raw =
     (let b = te_hex_bytes e raw in
      if b = [] then Inl (ErrDecode ''empty'')
      else case te_unmarshal e b of None \<Rightarrow> Inl (ErrDecode ''unmarshal'') | Some s \<Rightarrow> Inr s)"

text \<open>
  What go-ethereum documents of its codecs: \<^verbatim>\<open>FromHex\<close> reads back what \<^verbatim>\<open>Bytes2Hex\<close> wrote behind
  its prefix, \<^verbatim>\<open>UnmarshalBinary\<close> reads back a non-empty \<^verbatim>\<open>MarshalBinary\<close>, and an address is
  determined by its hex form up to letter case.
\<close>

definition codecs_ok :: "tx_env \<Rightarrow> bool" where
  "codecs_ok e \<longleftrightarrow>
     (\<forall>b. te_hex_bytes e (''0x'' @ te_bytes_hex e b) = b) \<and>
     (\<forall>s b. te_marshal e s = Some b \<longrightarrow> b \<noteq> [] \<and> te_unmarshal e b = Some s) \<and>
     (\<forall>a. te_hex_addr e (te_addr_hex e a) = a) \<and>
     (\<forall>a b. equal_fold (te_addr_hex e a) (te_addr_hex e b) \<longrightarrow> a = b)"

lemma decode_encode: "codecs_ok e \<Longrightarrow> encode_signed_tx e s = Inr raw \<Longrightarrow> decode_signed_tx e raw = Inr s"
  by (auto simp: codecs_ok_def encode_signed_tx_def decode_signed_tx_def split: option.splits)

section \<open>What the primitives leave alone\<close>

lemma others_simps [simp]:
  "w_sent (others e w) = w_sent w" "w_tick (others e w) = Suc (w_tick w)"
  by (simp_all add: others_def split: prod.split)

lemmas prim_defs = rpc_def rpc_try_def store_read_def store_write_def lease_call_def send_raw_def
  clock_def fresh_id_def or_fail_def put_tx_def

text \<open>
  A calm assertion survives what other goroutines do before a call and any change to the
  leases, so every call that only reads the transactions keeps it.
\<close>

definition calm :: "tx_env \<Rightarrow> (tx_world \<Rightarrow> bool) \<Rightarrow> bool" where
  "calm e P \<longleftrightarrow> (\<forall>w. P w \<longrightarrow> P (others e w)) \<and> (\<forall>w l. P w \<longrightarrow> P (w\<lparr>w_leases := l\<rparr>))"

lemma keeps_clock [triple_intros]: "keeps P (clock e)" "keeps P (fresh_id e)"
  unfolding clock_def fresh_id_def by (intro triple_intros)+

lemma keeps_calm [triple_intros]:
  "calm e P \<Longrightarrow> keeps P (rpc e n f)"
  "calm e P \<Longrightarrow> keeps P (rpc_try e h)"
  "calm e P \<Longrightarrow> keeps P (store_read e g)"
  "calm e P \<Longrightarrow> keeps P (lease_call e q)"
  by (simp_all add: keeps_def calm_def rpc_def rpc_try_def store_read_def lease_call_def Let_def
      split: fault.split sum.split prod.split)

lemma keeps_or_fail [triple_intros]: "keeps P m \<Longrightarrow> keeps P (or_fail m)"
  unfolding or_fail_def by (intro triple_intros)

text \<open>The three assertions used: what was sent so far; also the records, when nobody interferes; at most one more send.\<close>

definition sent_is :: "(signed_tx \<times> tx_store) list \<Rightarrow> tx_world \<Rightarrow> bool" where
  "sent_is xs w \<longleftrightarrow> w_sent w = xs"

definition same_txs :: "tx_store \<Rightarrow> (signed_tx \<times> tx_store) list \<Rightarrow> tx_world \<Rightarrow> bool" where
  "same_txs st xs w \<longleftrightarrow> w_txs w = st \<and> w_sent w = xs"

definition sends_one :: "(signed_tx \<Rightarrow> tx_store \<Rightarrow> bool) \<Rightarrow> (signed_tx \<times> tx_store) list \<Rightarrow> tx_world \<Rightarrow> bool" where
  "sends_one G xs w \<longleftrightarrow> w_sent w = xs \<or> (\<exists>s st. w_sent w = xs @ [(s, st)] \<and> G s st)"

definition quiet :: "tx_env \<Rightarrow> bool" where
  "quiet e \<longleftrightarrow> (\<forall>i x. te_other e i x = x)"

lemma calm_sent [triple_intros]: "calm e (sent_is xs)"
  by (simp add: calm_def sent_is_def)

lemma calm_sends_one [triple_intros]: "calm e (sends_one G xs)"
  by (simp add: calm_def sends_one_def)

lemma calm_same [triple_intros]: "quiet e \<Longrightarrow> calm e (same_txs st xs)"
  by (simp add: calm_def same_txs_def quiet_def others_def)

lemma sends_one_same: "sent_is xs w \<Longrightarrow> sends_one G xs w"
  by (simp add: sends_one_def sent_is_def)

lemma keeps_store_write [triple_intros]:
  "keeps (sent_is xs) (store_write e p)"
  "keeps (sends_one G xs) (store_write e p)"
  by (simp_all add: keeps_def sent_is_def sends_one_def store_write_def Let_def
      split: fault.split sum.split prod.split)

text \<open>The value a repository read returns, when nobody interferes.\<close>

lemma store_read_value:
  "same_txs st xs w \<Longrightarrow> quiet e \<Longrightarrow> store_read e f w = (Inr r, w') \<Longrightarrow> r = f st \<or> r = Inl ErrStoreFault"
  by (auto simp: store_read_def same_txs_def quiet_def others_def Let_def split: if_splits)

lemma store_read_ok_value:
  "same_txs st xs w \<Longrightarrow> quiet e \<Longrightarrow> or_fail (store_read e (\<lambda>t. Inr (f t))) w = (Inr x, w') \<Longrightarrow> x = f st"
  by (auto simp: store_read_def or_fail_def bindM_def raise_def ret_def same_txs_def quiet_def others_def Let_def
      split: if_splits sum.splits prod.splits)

end
