(* ===== verification/TxFees.thy ===== *)
theory TxFees
  imports TxEnv
begin

text \<open>
  How the transaction manager builds a transaction and bumps its fees: \<^verbatim>\<open>buildTx\<close>,
  \<^verbatim>\<open>checkFeeCaps\<close>, \<^verbatim>\<open>ceilPercent\<close>, \<^verbatim>\<open>bumpFeeField\<close> and \<^verbatim>\<open>buildBumpedTx\<close> of
  server/internal/blockchain/txmanager.go. Fees are \<^verbatim>\<open>big.Int\<close>, gas is \<^verbatim>\<open>uint64\<close> and wraps.
\<close>

datatype fee_mode = FeeModeEIP1559 | FeeModeLegacy

record fee_caps =
  fc_max_fee_per_gas :: "int option"
  fc_max_tip_per_gas :: "int option"
  fc_max_total_cost :: "int option"

record lease_config =
  lc_holder_id :: string
  lc_ttl :: gotime

record tx_manager =
  tm_chain_id :: int
  tm_fee_mode :: fee_mode
  tm_fee_caps :: fee_caps
  tm_max_replacement_attempts :: int
  tm_lease :: "lease_config option"
  tm_gas_limit_buffer_percent :: u64

definition default_max_replacement_attempts :: int where
  "default_max_replacement_attempts = 10"

definition no_fee_caps :: fee_caps where
  "no_fee_caps = \<lparr>fc_max_fee_per_gas = None, fc_max_tip_per_gas = None, fc_max_total_cost = None\<rparr>"

definition new_tx_manager_with_policy :: "int \<Rightarrow> fee_mode \<Rightarrow> fee_caps \<Rightarrow> int \<Rightarrow> tx_manager" where
  "new_tx_manager_with_policy chain mode caps attempts =
     \<lparr>tm_chain_id = chain, tm_fee_mode = mode, tm_fee_caps = caps,
      tm_max_replacement_attempts = attempts, tm_lease = None, tm_gas_limit_buffer_percent = 20\<rparr>"

definition new_tx_manager_with_fee_caps :: "int \<Rightarrow> fee_mode \<Rightarrow> fee_caps \<Rightarrow> tx_manager" where
  "new_tx_manager_with_fee_caps chain mode caps =
     new_tx_manager_with_policy chain mode caps default_max_replacement_attempts"

definition new_tx_manager :: "int \<Rightarrow> fee_mode \<Rightarrow> tx_manager" where
  "new_tx_manager chain mode = new_tx_manager_with_fee_caps chain mode no_fee_caps"

definition new_tx_manager_with_lease ::
  "int \<Rightarrow> fee_mode \<Rightarrow> fee_caps \<Rightarrow> int \<Rightarrow> string \<Rightarrow> gotime \<Rightarrow> tx_manager" where
  "new_tx_manager_with_lease chain mode caps attempts holder ttl =
     (new_tx_manager_with_policy chain mode caps attempts)
       \<lparr>tm_lease := Some \<lparr>lc_holder_id = holder, lc_ttl = ttl\<rparr>\<rparr>"

section \<open>Fee caps\<close>

definition check_fee_caps :: "tx_manager \<Rightarrow> int \<Rightarrow> u64 \<Rightarrow> int \<Rightarrow> tx_error option" where
  "check_fee_caps m per_gas_fee gas_limit value =
     (case fc_max_fee_per_gas (tm_fee_caps m) of
        Some cap \<Rightarrow> if per_gas_fee > cap then Some (ErrFeeCap per_gas_fee)
          else (case fc_max_total_cost (tm_fee_caps m) of
            Some total_cap \<Rightarrow>
              let total = per_gas_fee * uint gas_limit + value in
              if total > total_cap then Some (ErrTotalCost total) else None
          | None \<Rightarrow> None)
      | None \<Rightarrow> (case fc_max_total_cost (tm_fee_caps m) of
            Some total_cap \<Rightarrow>
              let total = per_gas_fee * uint gas_limit + value in
              if total > total_cap then Some (ErrTotalCost total) else None
          | None \<Rightarrow> None))"

definition tip_over_cap :: "tx_manager \<Rightarrow> int \<Rightarrow> bool" where
  "tip_over_cap m tip =
     (case fc_max_tip_per_gas (tm_fee_caps m) of None \<Rightarrow> False | Some cap \<Rightarrow> tip > cap)"

definition fail_if :: "tx_error option \<Rightarrow> unit txm" where
  "fail_if r = (case r of None \<Rightarrow> ret () | Some x \<Rightarrow> raise x)"

text \<open>The total the caps are about: what a transaction can cost its sender at most.\<close>

definition per_gas_fee_of :: "tx_fees \<Rightarrow> int" where
  "per_gas_fee_of f = (case f of DynamicFee _ _ cap \<Rightarrow> cap | LegacyFee p \<Rightarrow> p)"

definition max_cost :: "eth_tx \<Rightarrow> int" where
  "max_cost t = per_gas_fee_of (et_fees t) * uint (et_gas t) + et_value t"

definition within_caps :: "tx_manager \<Rightarrow> eth_tx \<Rightarrow> bool" where
  "within_caps m t \<longleftrightarrow>
     (\<forall>cap. fc_max_fee_per_gas (tm_fee_caps m) = Some cap \<longrightarrow> per_gas_fee_of (et_fees t) \<le> cap) \<and>
     (\<forall>cap. fc_max_total_cost (tm_fee_caps m) = Some cap \<longrightarrow> max_cost t \<le> cap) \<and>
     (\<forall>cap c tip f. fc_max_tip_per_gas (tm_fee_caps m) = Some cap \<longrightarrow> et_fees t = DynamicFee c tip f \<longrightarrow> tip \<le> cap)"

lemma check_fee_caps_None:
  "check_fee_caps m f g v = None \<Longrightarrow>
    (\<forall>cap. fc_max_fee_per_gas (tm_fee_caps m) = Some cap \<longrightarrow> f \<le> cap) \<and>
    (\<forall>cap. fc_max_total_cost (tm_fee_caps m) = Some cap \<longrightarrow> f * uint g + v \<le> cap)"
  by (auto simp: check_fee_caps_def Let_def split: option.splits if_splits)

section \<open>Building\<close>

definition build_tx ::
  "tx_env \<Rightarrow> tx_manager \<Rightarrow> address \<Rightarrow> address \<Rightarrow> byte list \<Rightarrow> int \<Rightarrow> u64 \<Rightarrow> eth_tx txm" where
  "build_tx e m from to data value nonce =
     bindM (rpc e ''EstimateGas'' (\<lambda>i. te_estimate_gas e i from to data value)) (\<lambda>estimate.
     let gas_limit = estimate * (100 + tm_gas_limit_buffer_percent m) div 100 in
     bindM (if tm_fee_mode m = FeeModeEIP1559 then rpc e ''HeaderByNumber'' (te_base_fee e) else ret None)
       (\<lambda>base_fee.
     case base_fee of
       Some base \<Rightarrow>
         bindM (rpc e ''SuggestGasTipCap'' (te_tip_cap e)) (\<lambda>tip.
         let fee_cap = base * 2 + tip in
         if tip_over_cap m tip then raise (ErrTipCap tip)
         else bindM (fail_if (check_fee_caps m fee_cap gas_limit value)) (\<lambda>_.
           ret \<lparr>et_fees = DynamicFee (tm_chain_id m) tip fee_cap, et_nonce = nonce, et_gas = gas_limit,
                et_to = to, et_value = value, et_data = data\<rparr>))
     | None \<Rightarrow>
         bindM (rpc e ''SuggestGasPrice'' (te_gas_price e)) (\<lambda>gas_price.
         bindM (fail_if (check_fee_caps m gas_price gas_limit value)) (\<lambda>_.
           ret \<lparr>et_fees = LegacyFee gas_price, et_nonce = nonce, et_gas = gas_limit,
                et_to = to, et_value = value, et_data = data\<rparr>))))"

section \<open>Bumping\<close>

definition replacement_min_bump_percent :: int where
  "replacement_min_bump_percent = 10"

text \<open>\<^verbatim>\<open>big.Int.Div\<close> is Euclidean division; by the positive 100 it is HOL's \<open>div\<close>.\<close>

definition ceil_percent :: "int \<Rightarrow> int \<Rightarrow> int" where
  "ceil_percent v pct = (v * (100 + pct) + 99) div 100"

definition bump_fee_field :: "int option \<Rightarrow> int option \<Rightarrow> int \<Rightarrow> int" where
  "bump_fee_field original current pct =
     (let base0 = (case current of None \<Rightarrow> 0 | Some c \<Rightarrow> c);
          base = (case original of Some orig \<Rightarrow> if orig > base0 then orig else base0 | None \<Rightarrow> base0);
          bumped = ceil_percent base pct
      in case original of
           None \<Rightarrow> bumped
         | Some orig \<Rightarrow>
             (let min_repl = ceil_percent orig replacement_min_bump_percent;
                  b1 = (if bumped < min_repl then min_repl else bumped)
              in if b1 \<le> orig then orig + 1 else b1))"

definition build_bumped_tx ::
  "tx_env \<Rightarrow> tx_manager \<Rightarrow> address \<Rightarrow> address \<Rightarrow> byte list \<Rightarrow> int \<Rightarrow> u64 \<Rightarrow> int \<Rightarrow> eth_tx option
    \<Rightarrow> eth_tx txm" where
  "build_bumped_tx e m from to data value nonce pct orig =
     bindM (build_tx e m from to data value nonce) (\<lambda>base.
     case et_fees base of
       DynamicFee c base_tip base_cap \<Rightarrow>
         (let (orig_tip, orig_cap) =
                (case orig of
                   Some t \<Rightarrow> (case et_fees t of DynamicFee _ t' f' \<Rightarrow> (Some t', Some f') | LegacyFee _ \<Rightarrow> (None, None))
                 | None \<Rightarrow> (None, None));
              tip = bump_fee_field orig_tip (Some base_tip) pct;
              cap0 = bump_fee_field orig_cap (Some base_cap) pct;
              fee_cap = (if cap0 < tip then tip else cap0)
          in if tip_over_cap m tip then raise (ErrTipCap tip)
             else bindM (fail_if (check_fee_caps m fee_cap (et_gas base) value)) (\<lambda>_.
               ret \<lparr>et_fees = DynamicFee (tm_chain_id m) tip fee_cap, et_nonce = nonce,
                    et_gas = et_gas base, et_to = to, et_value = value, et_data = data\<rparr>))
     | LegacyFee base_price \<Rightarrow>
         (let orig_price =
                (case orig of
                   Some t \<Rightarrow> (case et_fees t of LegacyFee p \<Rightarrow> Some p | DynamicFee _ _ _ \<Rightarrow> None)
                 | None \<Rightarrow> None);
              gas_price = bump_fee_field orig_price (Some base_price) pct
          in bindM (fail_if (check_fee_caps m gas_price (et_gas base) value)) (\<lambda>_.
               ret \<lparr>et_fees = LegacyFee gas_price, et_nonce = nonce,
                    et_gas = et_gas base, et_to = to, et_value = value, et_data = data\<rparr>)))"

section \<open>Lemmas\<close>

lemma keeps_fail_if [triple_intros]: "keeps P (fail_if r)"
  unfolding fail_if_def by (intro triple_intros)

lemma keeps_build_tx [triple_intros]:
  "calm e P \<Longrightarrow> keeps P (build_tx e m from to data value nonce)"
  unfolding build_tx_def Let_def by (intro triple_intros)

lemma keeps_build_bumped_tx [triple_intros]:
  "calm e P \<Longrightarrow> keeps P (build_bumped_tx e m from to data value nonce pct orig)"
  unfolding build_bumped_tx_def Let_def
  by (intro triple_intros) (auto intro!: triple_intros split: tx_fees.splits prod.splits)

lemma build_tx_ok:
  assumes "build_tx e m from to data value nonce w = (Inr t, w')"
  shows "et_nonce t = nonce \<and> et_to t = to \<and> et_value t = value \<and> et_data t = data \<and> within_caps m t"
  using assms
  by (auto simp: build_tx_def bindM_def Let_def ret_def raise_def fail_if_def within_caps_def max_cost_def
      per_gas_fee_of_def tip_over_cap_def
      split: prod.splits sum.splits option.splits if_splits
      dest!: check_fee_caps_None)

lemma build_bumped_tx_ok:
  assumes "build_bumped_tx e m from to data value nonce pct orig w = (Inr t, w')"
  shows "et_nonce t = nonce \<and> et_to t = to \<and> et_value t = value \<and> et_data t = data \<and> within_caps m t"
  using assms
  by (auto simp: build_bumped_tx_def bindM_def Let_def ret_def raise_def fail_if_def within_caps_def
      max_cost_def per_gas_fee_of_def tip_over_cap_def
      split: prod.splits sum.splits option.splits if_splits tx_fees.splits
      dest!: check_fee_caps_None)

lemma ceil_percent_ge: "0 \<le> v \<Longrightarrow> 0 \<le> pct \<Longrightarrow> v * (100 + pct) \<le> 100 * ceil_percent v pct"
  unfolding ceil_percent_def by presburger

lemma ceil_percent_less: "100 * ceil_percent v pct < v * (100 + pct) + 100"
  unfolding ceil_percent_def by presburger

text \<open>
  A bumped fee is strictly above the original one, at least the 10 percent above it that
  nodes require of a replacement, at least the caller's percentage above the larger of the
  original and the current suggestion, and less than one unit above the exact maximum of these
  (so bumping never overshoots by more than rounding up and the one-wei floor explain).
\<close>

theorem bump_fee_field_bounds:
  assumes "0 \<le> orig" and "0 \<le> cur" and "0 < pct"
  shows "let b = bump_fee_field (Some orig) (Some cur) pct in
    orig < b \<and> orig * 110 \<le> 100 * b \<and> max orig cur * (100 + pct) \<le> 100 * b \<and>
    100 * b \<le> max (max (orig * 110 + 99) (max orig cur * (100 + pct) + 99)) (100 * orig + 100)"
proof -
  define c where "c = ceil_percent (max orig cur) pct"
  define k where "k = ceil_percent orig 10"
  have b: "bump_fee_field (Some orig) (Some cur) pct = max (max c k) (orig + 1)"
    unfolding c_def k_def bump_fee_field_def replacement_min_bump_percent_def Let_def by (auto simp: max_def)
  define t where "t = max orig cur * (100 + pct)"
  have "t \<le> 100 * c" "100 * c \<le> t + 99"
    using assms ceil_percent_ge [of "max orig cur" pct] ceil_percent_less [of "max orig cur" pct]
    unfolding c_def t_def by auto
  moreover have "orig * 110 \<le> 100 * k" "100 * k \<le> orig * 110 + 99"
    using assms ceil_percent_ge [of orig 10] ceil_percent_less [of orig 10] unfolding k_def by auto
  ultimately show ?thesis
    unfolding b Let_def t_def [symmetric] by (auto simp: max_def)
qed

theorem bump_fee_field_bounds_witness:
  "bump_fee_field (Some 1000) (Some 900) 5 = 1100 \<and>
   (let b = bump_fee_field (Some 1000) (Some 900) 5 in 1000 < b \<and> 1000 * 110 \<le> 100 * b)"
  using bump_fee_field_bounds [of 1000 900 5]
  by (simp add: bump_fee_field_def ceil_percent_def replacement_min_bump_percent_def)

end
