(* ===== verification/TxManager.thy ===== *)
theory TxManager
  imports TxFees
begin

text \<open>
  \<^verbatim>\<open>Submit\<close> of server/internal/blockchain/txmanager.go: the request's signer, the optional
  distributed lease, the blocker check, idempotent retry, nonce allocation, persistence before
  broadcast and the three outcomes of a broadcast. The per-signer mutex \<^verbatim>\<open>lockFor\<close> has no state of
  its own here: what it excludes is a restriction on \<open>te_other\<close>, stated where a theorem needs it.
\<close>

section \<open>Signer and lease\<close>

definition req_signer :: "tx_env \<Rightarrow> submit_request \<Rightarrow> tx_error + signer" where
  "req_signer e req =
     (case rq_signer req of
        Some sg \<Rightarrow> Inr sg
      | None \<Rightarrow> (case rq_private_key req of
          Some k \<Rightarrow> Inr (te_static_signer e k)
        | None \<Rightarrow> Inl ErrNoSigner))"

definition signer_address :: "tx_env \<Rightarrow> signer \<Rightarrow> address txm" where
  "signer_address e sg =
     (\<lambda>w. (case sg_address sg (w_tick w) of None \<Rightarrow> Inl ErrSignerAddress | Some a \<Rightarrow> Inr a, others e w))"

definition sign_tx :: "signer \<Rightarrow> eth_tx \<Rightarrow> int \<Rightarrow> signed_tx txm" where
  "sign_tx sg t chain = liftE (case sg_sign_tx sg t chain of None \<Rightarrow> Inl ErrSign | Some s \<Rightarrow> Inr s)"

definition lease_key :: "tx_env \<Rightarrow> tx_manager \<Rightarrow> address \<Rightarrow> string" where
  "lease_key e m from = big_string (tm_chain_id m) @ '':'' @ te_addr_hex e from"

definition acquire_nonce_lease :: "tx_env \<Rightarrow> tx_manager \<Rightarrow> address \<Rightarrow> u64 txm" where
  "acquire_nonce_lease e m from =
     (case tm_lease m of
        None \<Rightarrow> ret 0
      | Some lc \<Rightarrow>
          bindM (clock e) (\<lambda>now.
          bindM (lease_call e (lease_acquire now (lease_key e m from) (lc_holder_id lc) (lc_ttl lc))) (\<lambda>r.
          case r of
            Inl x \<Rightarrow> raise (ErrLeaseStore x)
          | Inr (token, ok) \<Rightarrow> if \<not> ok then raise ErrLeaseUnavailable else ret token)))"

definition release_nonce_lease :: "tx_env \<Rightarrow> tx_manager \<Rightarrow> address \<Rightarrow> u64 \<Rightarrow> unit txm" where
  "release_nonce_lease e m from token =
     (case tm_lease m of
        None \<Rightarrow> ret ()
      | Some lc \<Rightarrow>
          bindM (clock e) (\<lambda>now.
          bindM (lease_call e (lease_release now (lease_key e m from) (lc_holder_id lc) token)) (\<lambda>_. ret ())))"

definition renew_nonce_lease :: "tx_env \<Rightarrow> tx_manager \<Rightarrow> address \<Rightarrow> u64 \<Rightarrow> unit txm" where
  "renew_nonce_lease e m from token =
     (case tm_lease m of
        None \<Rightarrow> ret ()
      | Some lc \<Rightarrow>
          bindM (clock e) (\<lambda>now.
          bindM (lease_call e (lease_renew now (lease_key e m from) (lc_holder_id lc) token (lc_ttl lc))) (\<lambda>r.
          case r of
            Inl x \<Rightarrow> raise (ErrLeaseStore x)
          | Inr ok \<Rightarrow> if \<not> ok then raise ErrLeaseUnavailable else ret ())))"

section \<open>Blockers, retries and nonces\<close>

fun is_retryable_status :: "transaction \<Rightarrow> bool" where
  "is_retryable_status t =
     (case tx_stat t of
        TxFailed \<Rightarrow> True
      | TxReorged \<Rightarrow> tx_allow_reorg_retry t
      | TxNonceConsumedExternally \<Rightarrow> tx_allow_reorg_retry t
      | _ \<Rightarrow> False)"

definition find_blocker :: "tx_env \<Rightarrow> address \<Rightarrow> transaction list \<Rightarrow> transaction option" where
  "find_blocker e from stuck =
     (case find (\<lambda>t. tx_stat t = TxNeedsIntervention \<and> equal_fold (tx_from t) (te_addr_hex e from)) stuck of
        Some t \<Rightarrow> Some t
      | None \<Rightarrow> find (\<lambda>t. (tx_stat t = TxReorged \<or> tx_stat t = TxNonceConsumedExternally)
            \<and> equal_fold (tx_from t) (te_addr_hex e from) \<and> \<not> tx_allow_reorg_retry t) stuck)"

definition needs_intervention_tx :: "tx_env \<Rightarrow> address \<Rightarrow> transaction option txm" where
  "needs_intervention_tx e from =
     bindM (or_fail (store_read e (\<lambda>st. Inr
       (tx_list_by_statuses [TxNeedsIntervention, TxReorged, TxNonceConsumedExternally] st)))) (\<lambda>stuck.
     ret (find_blocker e from stuck))"

fun holds_nonce :: "tx_status \<Rightarrow> bool" where
  "holds_nonce s =
     (case s of TxFailed \<Rightarrow> False | TxReorged \<Rightarrow> False | TxNonceConsumedExternally \<Rightarrow> False
      | TxReplaced \<Rightarrow> False | _ \<Rightarrow> True)"

fun scan_nonces :: "tx_env \<Rightarrow> address \<Rightarrow> transaction list \<Rightarrow> u64 \<Rightarrow> u64" where
  "scan_nonces e from [] next_nonce = next_nonce"
| "scan_nonces e from (t # ts) next_nonce =
     (if \<not> equal_fold (tx_from t) (te_addr_hex e from) then scan_nonces e from ts next_nonce
      else if \<not> holds_nonce (tx_stat t) then scan_nonces e from ts next_nonce
      else (let candidate = tx_nonce t + 1 in
        scan_nonces e from ts (if candidate > next_nonce then candidate else next_nonce)))"

definition allocate_nonce :: "tx_env \<Rightarrow> address \<Rightarrow> u64 txm" where
  "allocate_nonce e from =
     bindM (rpc e ''PendingNonceAt'' (\<lambda>i. te_pending_nonce e i from)) (\<lambda>pending.
     bindM (rpc e ''NonceAt'' (\<lambda>i. te_nonce_at e i from)) (\<lambda>latest.
     let next_nonce = (if latest > pending then latest else pending) in
     bindM (or_fail (store_read e (\<lambda>st. Inr (tx_list st)))) (\<lambda>all.
     ret (scan_nonces e from all next_nonce))))"

section \<open>Submit\<close>

definition submit_record ::
  "tx_env \<Rightarrow> tx_manager \<Rightarrow> submit_request \<Rightarrow> address \<Rightarrow> u64 \<Rightarrow> transaction option \<Rightarrow> int \<Rightarrow> u64
    \<Rightarrow> signed_tx \<Rightarrow> string \<Rightarrow> gotime \<Rightarrow> string \<Rightarrow> transaction" where
  "submit_record e m req from token existing value nonce stx raw now new_id =
     tx_zero\<lparr>tx_id := (case existing of None \<Rightarrow> new_id | Some x \<Rightarrow> tx_id x),
       tx_idempotency_key := rq_idempotency_key req,
       tx_kind := rq_kind req,
       tx_chain_id := tm_chain_id m,
       tx_from := te_addr_hex e from,
       tx_to := te_addr_hex e (rq_to req),
       tx_data := ''0x'' @ te_bytes_hex e (rq_data req),
       tx_value := big_string value,
       tx_nonce := nonce,
       tx_hash := te_tx_hash e stx,
       tx_signed_raw := raw,
       tx_stat := TxBroadcastUnknown,
       tx_fencing_token := token,
       tx_allow_reorg_retry := rq_allow_reorg_retry req,
       tx_attempts := (case existing of None \<Rightarrow> []
         | Some x \<Rightarrow> tx_attempts x @ [\<lparr>at_nonce = tx_nonce x, at_tx_hash = tx_hash x,
             at_signed_raw_tx = tx_signed_raw x, at_status = tx_stat x, at_recorded_at = tx_updated_at x\<rparr>]),
       tx_submitted_at := now,
       tx_updated_at := now\<rparr>"

text \<open>Persistence: \<open>Some winner\<close> when a concurrent Submit under the same key came first.\<close>

definition submit_persist ::
  "tx_env \<Rightarrow> submit_request \<Rightarrow> transaction option \<Rightarrow> transaction \<Rightarrow> transaction option txm" where
  "submit_persist e req existing record =
     (case existing of
        None \<Rightarrow>
          bindM (store_write e (put_tx tx_create record)) (\<lambda>r.
          case r of
            Inr _ \<Rightarrow> ret None
          | Inl x \<Rightarrow>
              if x = ErrAlreadyExists then
                bindM (store_read e (tx_get_by_key (rq_idempotency_key req))) (\<lambda>g.
                case g of Inr winner \<Rightarrow> ret (Some winner) | Inl _ \<Rightarrow> raise (ErrStore x))
              else raise (ErrStore x))
      | Some _ \<Rightarrow>
          bindM (or_fail (store_write e (put_tx tx_update record))) (\<lambda>_. ret None))"

definition submit_broadcast :: "tx_env \<Rightarrow> transaction \<Rightarrow> signed_tx \<Rightarrow> transaction txm" where
  "submit_broadcast e record stx =
     bindM (send_raw e stx) (\<lambda>err.
     case err of
       Some _ \<Rightarrow>
         if is_ambiguous_broadcast err then raise ErrBroadcastUnknown
         else
           bindM (clock e) (\<lambda>now.
           bindM (store_write e (put_tx tx_update (record\<lparr>tx_stat := TxFailed, tx_updated_at := now\<rparr>))) (\<lambda>_.
           raise ErrBroadcastRejected))
     | None \<Rightarrow>
         bindM (clock e) (\<lambda>now.
         let record' = record\<lparr>tx_stat := TxPending, tx_updated_at := now\<rparr> in
         bindM (or_fail (store_write e (put_tx tx_update record'))) (\<lambda>_.
         ret record')))"

definition submit_send ::
  "tx_env \<Rightarrow> tx_manager \<Rightarrow> submit_request \<Rightarrow> address \<Rightarrow> u64 \<Rightarrow> transaction option \<Rightarrow> int \<Rightarrow> u64
    \<Rightarrow> signed_tx \<Rightarrow> string \<Rightarrow> transaction txm" where
  "submit_send e m req from token existing value nonce stx raw =
     bindM (clock e) (\<lambda>now.
     bindM (fresh_id e) (\<lambda>new_id.
     let record = submit_record e m req from token existing value nonce stx raw now new_id in
     bindM (submit_persist e req existing record) (\<lambda>winner.
     case winner of
       Some t \<Rightarrow> ret t
     | None \<Rightarrow> submit_broadcast e record stx)))"

definition submit_fresh ::
  "tx_env \<Rightarrow> tx_manager \<Rightarrow> submit_request \<Rightarrow> signer \<Rightarrow> address \<Rightarrow> u64 \<Rightarrow> transaction option
    \<Rightarrow> transaction txm" where
  "submit_fresh e m req sg from token existing =
     bindM (allocate_nonce e from) (\<lambda>nonce.
     let value = (case rq_value req of None \<Rightarrow> 0 | Some v \<Rightarrow> v) in
     bindM (build_tx e m from (rq_to req) (rq_data req) value nonce) (\<lambda>utx.
     bindM (sign_tx sg utx (tm_chain_id m)) (\<lambda>stx.
     bindM (liftE (encode_signed_tx e stx)) (\<lambda>raw.
     bindM (renew_nonce_lease e m from token) (\<lambda>_.
     submit_send e m req from token existing value nonce stx raw)))))"

definition submit_locked ::
  "tx_env \<Rightarrow> tx_manager \<Rightarrow> submit_request \<Rightarrow> signer \<Rightarrow> address \<Rightarrow> u64 \<Rightarrow> transaction txm" where
  "submit_locked e m req sg from token =
     bindM (needs_intervention_tx e from) (\<lambda>blocker.
     case blocker of
       Some b \<Rightarrow> raise (ErrBlocked (tx_id b) (tx_nonce b))
     | None \<Rightarrow>
         if rq_idempotency_key req \<noteq> [] then
           bindM (store_read e (tx_get_by_key (rq_idempotency_key req))) (\<lambda>g.
           case g of
             Inl x \<Rightarrow> if x \<noteq> ErrNotFound then raise (ErrStore x)
               else submit_fresh e m req sg from token None
           | Inr existing \<Rightarrow>
               if \<not> is_retryable_status existing then ret existing
               else submit_fresh e m req sg from token (Some existing))
         else submit_fresh e m req sg from token None)"

definition submit :: "tx_env \<Rightarrow> tx_manager \<Rightarrow> submit_request \<Rightarrow> transaction txm" where
  "submit e m req =
     bindM (liftE (req_signer e req)) (\<lambda>sg.
     bindM (signer_address e sg) (\<lambda>from.
     bindM (acquire_nonce_lease e m from) (\<lambda>token.
     finallyM (submit_locked e m req sg from token) (release_nonce_lease e m from token))))"


section \<open>What Submit can hand to the node\<close>

text \<open>The signer returns the transaction it was given, signed (\<^verbatim>\<open>types.SignTx\<close>, \<^verbatim>\<open>Signer.SignTx\<close>).\<close>

definition signer_ok :: "signer \<Rightarrow> bool" where
  "signer_ok sg \<longleftrightarrow> (\<forall>t c s. sg_sign_tx sg t c = Some s \<longrightarrow> sx_tx s = t)"

definition signers_ok :: "tx_env \<Rightarrow> submit_request \<Rightarrow> bool" where
  "signers_ok e req \<longleftrightarrow> (\<forall>sg. req_signer e req = Inr sg \<longrightarrow> signer_ok sg)"

text \<open>What other goroutines may do to a record while one is being broadcast: anything but change its signed bytes.\<close>

definition others_keep_signed :: "tx_env \<Rightarrow> bool" where
  "others_keep_signed e \<longleftrightarrow> (\<forall>i t l k r. lookup t k = Some r \<longrightarrow>
     (\<exists>r'. lookup (fst (te_other e i (t, l))) k = Some r' \<and>
        tx_signed_raw r' = tx_signed_raw r \<and> tx_hash r' = tx_hash r \<and> tx_nonce r' = tx_nonce r))"

definition persisted :: "tx_env \<Rightarrow> signed_tx \<Rightarrow> tx_store \<Rightarrow> bool" where
  "persisted e s st \<longleftrightarrow> (\<exists>k r. lookup st k = Some r \<and> encode_signed_tx e s = Inr (tx_signed_raw r) \<and>
     tx_hash r = te_tx_hash e s \<and> tx_nonce r = et_nonce (sx_tx s))"

lemma keeps_signer_address [triple_intros]: "calm e P \<Longrightarrow> keeps P (signer_address e sg)"
  by (simp add: keeps_def signer_address_def calm_def)

lemma keeps_sign_tx [triple_intros]: "keeps P (sign_tx sg t c)"
  unfolding sign_tx_def by (intro triple_intros)

lemma keeps_acquire [triple_intros]: "calm e P \<Longrightarrow> keeps P (acquire_nonce_lease e m from)"
  unfolding acquire_nonce_lease_def by (intro triple_intros)

lemma keeps_renew [triple_intros]: "calm e P \<Longrightarrow> keeps P (renew_nonce_lease e m from token)"
  unfolding renew_nonce_lease_def by (intro triple_intros)

lemma keeps_release [triple_intros]: "calm e P \<Longrightarrow> keeps P (release_nonce_lease e m from token)"
  unfolding release_nonce_lease_def by (intro triple_intros)

lemma keeps_needs_intervention [triple_intros]: "calm e P \<Longrightarrow> keeps P (needs_intervention_tx e from)"
  unfolding needs_intervention_tx_def by (intro triple_intros)

lemma keeps_allocate [triple_intros]: "calm e P \<Longrightarrow> keeps P (allocate_nonce e from)"
  unfolding allocate_nonce_def Let_def by (intro triple_intros)

lemma put_tx_InrD: "put_tx f t st = Inr (u, st') \<Longrightarrow> f t st = Inr st'"
  by (auto simp: put_tx_def split: sum.splits)

lemma sign_tx_ok: "signer_ok sg \<Longrightarrow> sign_tx sg t c w = (Inr s, w') \<Longrightarrow> sx_tx s = t"
  by (auto simp: sign_tx_def liftE_def signer_ok_def split: option.splits)

lemma store_write_persists:
  assumes "store_write e (put_tx f t) w = (Inr (Inr u), w')"
    and "\<And>st st'. f t st = Inr st' \<Longrightarrow> lookup st' (tx_id t) = Some t"
  shows "lookup (w_txs w') (tx_id t) = Some t"
  using assms
  by (auto simp: store_write_def Let_def split: fault.splits sum.splits prod.splits dest!: put_tx_InrD)

lemma keeps_submit_persist: "keeps (sent_is xs) (submit_persist e req existing record)"
  unfolding submit_persist_def by (intro triple_intros)

lemma submit_persist_None:
  "submit_persist e req existing record w = (Inr None, w') \<Longrightarrow> lookup (w_txs w') (tx_id record) = Some record"
  by (auto simp: submit_persist_def bindM_def ret_def raise_def or_fail_def
      split: option.splits sum.splits prod.splits if_splits
      elim!: store_write_persists intro: tx_create_get [THEN trans] tx_update_get [THEN trans])

lemma others_keep_signedD:
  assumes "others_keep_signed e" and "lookup (w_txs w) k = Some r"
  shows "\<exists>r'. lookup (w_txs (others e w)) k = Some r' \<and>
    tx_signed_raw r' = tx_signed_raw r \<and> tx_hash r' = tx_hash r \<and> tx_nonce r' = tx_nonce r"
proof (cases "te_other e (w_tick w) (w_txs w, w_leases w)")
  case (Pair t l)
  have "\<exists>r'. lookup (fst (te_other e (w_tick w) (w_txs w, w_leases w))) k = Some r' \<and>
      tx_signed_raw r' = tx_signed_raw r \<and> tx_hash r' = tx_hash r \<and> tx_nonce r' = tx_nonce r"
    using assms unfolding others_keep_signed_def by blast
  with Pair show ?thesis by (simp add: others_def)
qed

definition ready_to_send :: "tx_env \<Rightarrow> signed_tx \<Rightarrow> transaction \<Rightarrow> bool" where
  "ready_to_send e s r \<longleftrightarrow> encode_signed_tx e s = Inr (tx_signed_raw r) \<and> tx_hash r = te_tx_hash e s \<and>
     tx_nonce r = et_nonce (sx_tx s)"

definition recorded :: "transaction \<Rightarrow> (signed_tx \<times> tx_store) list \<Rightarrow> tx_world \<Rightarrow> bool" where
  "recorded r xs w \<longleftrightarrow> sent_is xs w \<and> lookup (w_txs w) (tx_id r) = Some r"

lemma send_raw_sends:
  assumes "others_keep_signed e" and "recorded r xs w" and "ready_to_send e s r" and "G s"
  shows "sends_one (\<lambda>s st. persisted e s st \<and> G s) xs (snd (send_raw e s w))"
proof -
  have "persisted e s (w_txs (others e w))"
    using others_keep_signedD [OF assms(1)] assms(2,3)
    by (fastforce simp: persisted_def ready_to_send_def recorded_def)
  with assms(2,4) show ?thesis
    by (simp add: send_raw_def sends_one_def sent_is_def recorded_def Let_def)
qed

lemma submit_broadcast_triple:
  assumes "others_keep_signed e" and "ready_to_send e s r" and "G s"
  shows "triple (recorded r xs) (submit_broadcast e r s) (\<lambda>_. sends_one (\<lambda>s st. persisted e s st \<and> G s) xs)"
  unfolding submit_broadcast_def
proof (rule triple_bind [where R = "\<lambda>_. sends_one (\<lambda>s st. persisted e s st \<and> G s) xs"], goal_cases)
  case 1
  show ?case
    by (rule tripleI) (use send_raw_sends [where G = G and xs = xs, OF assms(1) _ assms(2) assms(3)] in \<open>simp add: send_raw_def Let_def\<close>)
next
  case (2 err)
  show ?case
    unfolding keeps_triple [symmetric] Let_def or_fail_def by (intro triple_intros)
qed

lemma submit_persist_triple:
  assumes "\<And>t. triple (sent_is xs) (f (Some t)) Q" and "triple (recorded record xs) (f None) Q"
    and "\<And>x w. sent_is xs w \<Longrightarrow> Q (Inl x) w"
  shows "triple (sent_is xs) (bindM (submit_persist e req existing record) f) Q"
proof (rule triple_bind [where R = "\<lambda>v w. case v of None \<Rightarrow> recorded record xs w | Some _ \<Rightarrow> sent_is xs w"], goal_cases)
  case 1
  show ?case
  proof (rule tripleI)
    fix w assume w: "sent_is xs w"
    obtain r t where m: "submit_persist e req existing record w = (r, t)" by (cases "submit_persist e req existing record w")
    have "sent_is xs t" by (rule keepsD [OF keeps_submit_persist w m])
    with m show "case fst (submit_persist e req existing record w) of
        Inl x \<Rightarrow> Q (Inl x) (snd (submit_persist e req existing record w))
      | Inr o' \<Rightarrow> (case o' of None \<Rightarrow> recorded record xs (snd (submit_persist e req existing record w))
         | Some _ \<Rightarrow> sent_is xs (snd (submit_persist e req existing record w)))"
      using assms(3) submit_persist_None [of e req existing "record" w t]
      by (auto simp: recorded_def split: sum.splits option.splits)
  qed
next
  case (2 x)
  with assms(1,2) show ?case by (cases x) auto
qed

text \<open>
  The path of one attempt, for any calm assertion \<open>P\<close> under which nonce allocation returns a
  nonce satisfying \<open>N\<close>: the transaction that goes out is persisted, capped and has such a nonce.
\<close>

definition sound_send :: "tx_env \<Rightarrow> tx_manager \<Rightarrow> (u64 \<Rightarrow> bool) \<Rightarrow> signed_tx \<Rightarrow> tx_store \<Rightarrow> bool" where
  "sound_send e m N s st \<longleftrightarrow>
     persisted e s st \<and> within_caps m (sx_tx s) \<and> N (et_nonce (sx_tx s))"

lemma submit_send_triple:
  assumes oth: "others_keep_signed e" and "encode_signed_tx e stx = Inr raw"
    and "nonce = et_nonce (sx_tx stx)" and G: "within_caps m (sx_tx stx)" "N nonce"
  shows "triple (sent_is xs) (submit_send e m req from token existing value nonce stx raw)
    (\<lambda>_. sends_one (sound_send e m N) xs)"
  (is "triple _ _ ?Q")
proof -
  have err: "\<And>r w. sent_is xs w \<Longrightarrow> ?Q r w" by (rule sends_one_same)
  have sound: "sound_send e m N = (\<lambda>s st. persisted e s st \<and> (within_caps m (sx_tx s) \<and> N (et_nonce (sx_tx s))))"
    by (simp add: sound_send_def [abs_def])
  have ready: "ready_to_send e stx (submit_record e m req from token existing value nonce stx raw now i)" for now i
    using assms by (simp add: ready_to_send_def submit_record_def)
  have G': "within_caps m (sx_tx stx) \<and> N (et_nonce (sx_tx stx))" using assms by simp
  show ?thesis
    unfolding submit_send_def Let_def
    apply (intro triple_bind_keeps' [OF keeps_clock(1) _ err] triple_bind_keeps' [OF keeps_clock(2) _ err]
        submit_persist_triple err)
    by (auto intro!: triple_ret err)
      (simp add: sound submit_broadcast_triple [where G = "\<lambda>s. within_caps m (sx_tx s) \<and> N (et_nonce (sx_tx s))",
          OF oth ready G'])
qed

lemma submit_fresh_triple:
  assumes oth: "others_keep_signed e" and sg: "signer_ok sg" and calm: "calm e P"
    and P: "\<And>w. P w \<Longrightarrow> sent_is xs w"
    and N: "\<And>w n w'. P w \<Longrightarrow> allocate_nonce e from w = (Inr n, w') \<Longrightarrow> N n"
  shows "triple P (submit_fresh e m req sg from token existing) (\<lambda>_. sends_one (sound_send e m N) xs)"
  (is "triple _ _ ?Q")
proof -
  have err: "\<And>r w. P w \<Longrightarrow> ?Q r w" using P by (blast intro: sends_one_same)
  have build: "et_nonce t = n \<and> within_caps m t"
    if "build_tx e m from to d v n w = (Inr t, w')" for to d v n w t w'
    using build_tx_ok [OF that] by simp
  show ?thesis
    unfolding submit_fresh_def Let_def
  proof (rule triple_bind_keeps [where F = N, OF keeps_allocate [OF calm] N _ err], assumption, assumption, goal_cases)
    case (1 nonce)
    note nonce = 1
    show ?case
    proof (rule triple_bind_keeps [where F = "\<lambda>t. et_nonce t = nonce \<and> within_caps m t",
          OF keeps_build_tx [OF calm] build _ err], assumption, goal_cases)
      case (1 utx)
      show ?case
      proof (rule triple_bind_keeps [where F = "\<lambda>s. sx_tx s = utx", OF keeps_sign_tx _ _ err], goal_cases)
        case (1 w x t)
        then show ?case by (simp add: sign_tx_ok [OF sg])
      next
        case (2 stx)
        note stx = \<open>sx_tx stx = utx\<close> \<open>et_nonce utx = nonce \<and> within_caps m utx\<close>
        show ?case
        proof (rule triple_bind_keeps [where F = "\<lambda>raw. encode_signed_tx e stx = Inr raw", OF keeps_liftE _ _ err], goal_cases)
          case (1 w x t)
          then show ?case by (simp add: liftE_def)
        next
          case (2 raw)
          show ?case
            using 2 stx nonce
            by (intro triple_bind_keeps' [OF keeps_renew [OF calm] _ err]
                triple_conseq [OF submit_send_triple [where N = N, OF oth]]) (auto dest: P)
        qed
      qed
    qed
  qed
qed

lemma submit_locked_triple:
  assumes oth: "others_keep_signed e" and sg: "signer_ok sg" and calm: "calm e P"
    and P: "\<And>w. P w \<Longrightarrow> sent_is xs w"
    and N: "\<And>w n w'. P w \<Longrightarrow> allocate_nonce e from w = (Inr n, w') \<Longrightarrow> N n"
  shows "triple P (submit_locked e m req sg from token) (\<lambda>_. sends_one (sound_send e m N) xs)"
  (is "triple _ _ ?Q")
proof -
  have err: "\<And>r w. P w \<Longrightarrow> ?Q r w" using P by (blast intro: sends_one_same)
  note fresh = submit_fresh_triple [OF oth sg calm P N]
  show ?thesis
    unfolding submit_locked_def
    apply (rule triple_bind_keeps' [OF keeps_needs_intervention [OF calm] _ err])
    apply (auto split: option.split sum.split intro!: triple_raise triple_ret err fresh
        triple_bind_keeps' [OF keeps_calm(3) [OF calm] _ err])
    done
qed

definition signs_for :: "tx_env \<Rightarrow> submit_request \<Rightarrow> address \<Rightarrow> bool" where
  "signs_for e req a \<longleftrightarrow> (\<forall>sg i b. req_signer e req = Inr sg \<longrightarrow> sg_address sg i = Some b \<longrightarrow> b = a)"

text \<open>From the signer to the release of the lease: what holds of every locked run holds of Submit.\<close>

lemma submit_triple:
  assumes calm: "calm e P" and calmQ: "\<And>r. calm e (Q r)" and err: "\<And>x w. P w \<Longrightarrow> Q (Inl x) w"
    and body: "\<And>sg from token. req_signer e req = Inr sg \<Longrightarrow> (\<exists>i. sg_address sg i = Some from) \<Longrightarrow>
      triple P (submit_locked e m req sg from token) Q"
  shows "triple P (submit e m req) Q"
  unfolding submit_def
proof (rule triple_bind_keeps [where F = "\<lambda>sg. req_signer e req = Inr sg" and Q = Q, OF keeps_liftE], goal_cases)
  case (1 s x t)
  then show ?case by (simp add: liftE_def)
next
  case 3
  then show ?case by (rule err)
next
  case (2 sg)
  note sg = 2
  show ?case
  proof (rule triple_bind_keeps [where F = "\<lambda>from. \<exists>i. sg_address sg i = Some from" and Q = Q,
        OF keeps_signer_address [OF calm]], goal_cases)
    case (1 s x t)
    then show ?case by (auto simp: signer_address_def split: option.splits)
  next
    case 3
    then show ?case by (rule err)
  next
    case (2 a)
    note addr = 2
    have release: "triple (Q r) (release_nonce_lease e m a token) (\<lambda>_. Q r)" for r token
      unfolding keeps_triple [symmetric] by (rule keeps_release [OF calmQ])
    show ?case
      by (rule triple_bind_keeps' [where Q = Q, OF keeps_acquire [OF calm]])
        (blast intro: triple_finally body [OF sg addr] release, rule err)
  qed
qed

text \<open>
  C3: however the node answers, whichever repository calls fail, and whatever other goroutines
  do short of changing signed bytes, one Submit hands at most one transaction to the node, and
  at that moment the repository already holds a record with its exact signed bytes, hash and
  nonce, so a crash right after the broadcast loses nothing; and its fees are within the
  configured caps.
\<close>

theorem submit_persists_before_broadcast:
  assumes "others_keep_signed e" and "signers_ok e req"
  shows "sends_one (\<lambda>s st. persisted e s st \<and> within_caps m (sx_tx s)) (w_sent w) (snd (submit e m req w))"
proof -
  have "triple (sent_is (w_sent w)) (submit e m req)
      (\<lambda>_. sends_one (sound_send e m (\<lambda>_. True)) (w_sent w))"
    using assms
    by (intro submit_triple submit_locked_triple calm_sent calm_sends_one sends_one_same)
      (auto simp: signers_ok_def)
  then show ?thesis by (simp add: triple_def sent_is_def sound_send_def [abs_def])
qed

section \<open>Nonces\<close>

declare holds_nonce.simps [simp del] is_retryable_status.simps [simp del]

lemma scan_nonces_ge: "n \<le> scan_nonces e from ts n"
proof (induction ts arbitrary: n)
  case Nil
  then show ?case by simp
next
  case (Cons t ts)
  have "n \<le> (if tx_nonce t + 1 > n then tx_nonce t + 1 else n)" by (simp add: less_imp_le)
  also have "\<dots> \<le> scan_nonces e from ts (if tx_nonce t + 1 > n then tx_nonce t + 1 else n)"
    by (rule Cons.IH)
  finally show ?case using Cons.IH by (simp add: Let_def)
qed

lemma scan_nonces_above:
  "t \<in> set ts \<Longrightarrow> equal_fold (tx_from t) (te_addr_hex e from) \<Longrightarrow> holds_nonce (tx_stat t) \<Longrightarrow>
    tx_nonce t + 1 \<le> scan_nonces e from ts n"
proof (induction ts arbitrary: n)
  case Nil
  then show ?case by simp
next
  case (Cons u ts)
  show ?case
  proof (cases "t = u")
    case True
    have "tx_nonce t + 1 \<le> (if tx_nonce t + 1 > n then tx_nonce t + 1 else n)" by (simp add: not_less)
    also have "\<dots> \<le> scan_nonces e from ts (if tx_nonce t + 1 > n then tx_nonce t + 1 else n)"
      by (rule scan_nonces_ge)
    finally show ?thesis using True Cons.prems by (simp add: Let_def split: if_splits)
  next
    case False
    with Cons show ?thesis by (simp add: Let_def)
  qed
qed

text \<open>A nonce that none of the signer's live records in \<open>st\<close> uses, and that is above all of them.\<close>

definition nonce_free :: "tx_env \<Rightarrow> address \<Rightarrow> tx_store \<Rightarrow> u64 \<Rightarrow> bool" where
  "nonce_free e from st n \<longleftrightarrow> (\<forall>t \<in> set (vals st).
     equal_fold (tx_from t) (te_addr_hex e from) \<longrightarrow> holds_nonce (tx_stat t) \<longrightarrow> tx_nonce t \<noteq> - 1 \<longrightarrow> tx_nonce t < n)"

lemma allocate_nonce_free:
  assumes "quiet e" and "same_txs st xs w" and "allocate_nonce e from w = (Inr n, w')"
  shows "nonce_free e from st n"
proof -
  note calm = calm_same [OF assms(1)]
  from assms(3) obtain p l ts w1 w2 w3
    where p: "rpc e ''PendingNonceAt'' (\<lambda>i. te_pending_nonce e i from) w = (Inr p, w1)"
      and l: "rpc e ''NonceAt'' (\<lambda>i. te_nonce_at e i from) w1 = (Inr l, w2)"
      and ts: "or_fail (store_read e (\<lambda>st. Inr (tx_list st))) w2 = (Inr ts, w3)"
      and n: "n = scan_nonces e from ts (if l > p then l else p)"
    unfolding allocate_nonce_def Let_def by (auto elim!: bindM_InrE dest!: ret_InrD)
  have w1: "same_txs st xs w1" by (rule keepsD [OF keeps_calm(1) [OF calm] assms(2) p])
  have w2: "same_txs st xs w2" by (rule keepsD [OF keeps_calm(1) [OF calm] w1 l])
  have "ts = tx_list st" by (rule store_read_ok_value [OF w2 assms(1) ts])
  then have above: "tx_nonce t + 1 \<le> n"
    if "t \<in> set (vals st)" "equal_fold (tx_from t) (te_addr_hex e from)" "holds_nonce (tx_stat t)" for t
    unfolding n using that by (intro scan_nonces_above) simp_all
  show ?thesis
    unfolding nonce_free_def
    by (intro ballI impI order_less_le_trans [OF word_succ_gt above])
qed

text \<open>
  C4: the nonce of the transaction a Submit sends is above the nonce of every record of the
  same signer that still holds its nonce (all statuses but Failed, Reorged, Replaced and
  NonceConsumedExternally), so a new submission never replaces a live earlier one, even when
  the node's mempool view lags; the largest \<^verbatim>\<open>uint64\<close>, whose successor wraps to zero, is excluded.
\<close>

theorem submit_nonce_fresh:
  assumes "quiet e" and "signers_ok e req" and "signs_for e req from"
  shows "sends_one (\<lambda>s st. nonce_free e from (w_txs w) (et_nonce (sx_tx s))) (w_sent w) (snd (submit e m req w))"
proof -
  have oth: "others_keep_signed e" using assms(1) by (simp add: others_keep_signed_def quiet_def)
  have "triple (same_txs (w_txs w) (w_sent w)) (submit e m req)
      (\<lambda>_. sends_one (sound_send e m (nonce_free e from (w_txs w))) (w_sent w))"
  proof (rule submit_triple [OF calm_same [OF assms(1)] calm_sends_one], goal_cases)
    case (1 x v)
    then show ?case by (simp add: same_txs_def sends_one_def)
  next
    case (2 sg a token)
    then have "a = from" "signer_ok sg" using assms(2,3) by (auto simp: signs_for_def signers_ok_def)
    then show ?case
      using allocate_nonce_free [OF assms(1)]
      by (intro submit_locked_triple [OF oth _ calm_same [OF assms(1)]]) (auto simp: same_txs_def sent_is_def)
  qed
  then show ?thesis by (auto simp: triple_def same_txs_def sound_send_def sends_one_def)
qed

section \<open>Blocked signers and repeated keys\<close>

lemma submit_same:
  assumes "quiet e"
    and body: "\<And>sg from token. req_signer e req = Inr sg \<Longrightarrow> (\<exists>i. sg_address sg i = Some from) \<Longrightarrow>
      triple (same_txs st xs) (submit_locked e m req sg from token) (\<lambda>r w. same_txs st xs w \<and> R r)"
    and "\<And>x. R (Inl x)"
  shows "triple (same_txs st xs) (submit e m req) (\<lambda>r w. same_txs st xs w \<and> R r)"
  using assms by (intro submit_triple) (auto intro: calm_same simp: calm_def same_txs_def quiet_def others_def)

definition blocks :: "tx_env \<Rightarrow> address \<Rightarrow> transaction \<Rightarrow> bool" where
  "blocks e from b \<longleftrightarrow> equal_fold (tx_from b) (te_addr_hex e from) \<and>
     (tx_stat b = TxNeedsIntervention \<or>
      (tx_stat b = TxReorged \<or> tx_stat b = TxNonceConsumedExternally) \<and> \<not> tx_allow_reorg_retry b)"

lemma find_blocker_Some:
  assumes "b \<in> set ts" and "blocks e from b"
  shows "find_blocker e from ts \<noteq> None"
proof
  assume "find_blocker e from ts = None"
  then have "\<forall>t \<in> set ts. \<not> blocks e from t"
    unfolding find_blocker_def blocks_def by (auto simp: find_None_iff split: option.splits)
  with assms show False by blast
qed

lemma needs_intervention_value:
  assumes "quiet e" and "same_txs st xs w" and "needs_intervention_tx e from w = (Inr r, w')"
    and "b \<in> set (vals st)" and "blocks e from b"
  shows "r \<noteq> None"
proof -
  obtain ts w1 where "or_fail (store_read e (\<lambda>st. Inr (tx_list_by_statuses
      [TxNeedsIntervention, TxReorged, TxNonceConsumedExternally] st))) w = (Inr ts, w1)"
    and r: "r = find_blocker e from ts"
    using assms(3) by (auto simp: needs_intervention_tx_def bindM_def ret_def split: prod.splits sum.splits)
  then have "ts = tx_list_by_statuses [TxNeedsIntervention, TxReorged, TxNonceConsumedExternally] st"
    by (intro store_read_ok_value [OF assms(2,1)])
  then have "b \<in> set ts" using assms(4,5) by (auto simp: tx_list_by_statuses_def set_tx_filter blocks_def)
  with r show ?thesis using find_blocker_Some [OF _ assms(5)] by simp
qed

text \<open>
  While a signer has a transaction that needs an operator (or a reorged or externally
  consumed one that may not be retried), every Submit of that signer fails, sends nothing and
  leaves the records as they were.
\<close>

theorem blocked_signer_submits_nothing:
  assumes "quiet e" and "signs_for e req from" and "b \<in> set (vals (w_txs w))" and "blocks e from b"
  shows "\<exists>x w'. submit e m req w = (Inl x, w') \<and> w_txs w' = w_txs w \<and> w_sent w' = w_sent w"
proof -
  have "triple (same_txs (w_txs w) (w_sent w)) (submit e m req)
      (\<lambda>r v. same_txs (w_txs w) (w_sent w) v \<and> (\<exists>x. r = Inl x))"
  proof (rule submit_same [OF assms(1)], goal_cases)
    case (1 sg a token)
    then have "a = from" using assms(2) by (auto simp: signs_for_def)
    then show ?case
      unfolding submit_locked_def
      by (intro triple_bind_keeps [where F = "\<lambda>r. r \<noteq> None",
            OF keeps_needs_intervention [OF calm_same [OF assms(1)]]]
          needs_intervention_value [OF assms(1) _ _ assms(3,4)])
        (auto intro!: triple_raise split: option.splits)
  qed simp
  from triple_run [OF this, of w] show ?thesis
    by (auto simp: same_txs_def)
qed

text \<open>
  while the record stored under an idempotency key may not be retried (it is pending,
  mined, confirmed, replaced, of unknown broadcast outcome, in need of an operator, or reorged
  without permission), Submit under that key signs and sends nothing and changes no record; if
  it succeeds it returns that very record.
\<close>

theorem submit_idempotent:
  assumes "quiet e" and "rq_idempotency_key req \<noteq> []"
    and "tx_get_by_key (rq_idempotency_key req) (w_txs w) = Inr t" and "\<not> is_retryable_status t"
  shows "\<exists>r w'. submit e m req w = (r, w') \<and> w_txs w' = w_txs w \<and> w_sent w' = w_sent w \<and>
    (\<forall>x. r = Inr x \<longrightarrow> x = t)"
proof -
  let ?P = "same_txs (w_txs w) (w_sent w)"
  note calm = calm_same [OF assms(1)]
  have "triple ?P (submit e m req) (\<lambda>r v. ?P v \<and> (\<forall>x. r = Inr x \<longrightarrow> x = t))"
  proof (rule submit_same [OF assms(1)], goal_cases)
    case (1 sg a token)
    show ?case
      unfolding submit_locked_def
    proof (rule triple_bind_keeps' [OF keeps_needs_intervention [OF calm]], goal_cases)
      case (1 blocker)
      show ?case
      proof (cases blocker)
        case None
        have "triple ?P (bindM (store_read e (tx_get_by_key (rq_idempotency_key req))) (\<lambda>g.
            case g of
              Inl x \<Rightarrow> if x \<noteq> ErrNotFound then raise (ErrStore x) else submit_fresh e m req sg a token None
            | Inr existing \<Rightarrow> if \<not> is_retryable_status existing then ret existing
                else submit_fresh e m req sg a token (Some existing)))
            (\<lambda>r v. ?P v \<and> (\<forall>x. r = Inr x \<longrightarrow> x = t))"
        proof (rule triple_bind_keeps [where F = "\<lambda>g. g = Inr t \<or> g = Inl ErrStoreFault", OF keeps_calm(3) [OF calm]], goal_cases)
          case (1 s x v)
          then show ?case using store_read_value [OF 1(1) assms(1) 1(2)] assms(3) by simp
        next
          case (2 g)
          then show ?case
            using assms(4) by (auto intro!: triple_ret triple_raise)
        qed simp
        then show ?thesis using assms(2) None by simp
      qed (auto intro!: triple_raise)
    qed auto
  qed simp
  from triple_run [OF this, of w] show ?thesis
    by (auto simp: same_txs_def)
qed

section \<open>A concrete environment\<close>

text \<open>An environment that answers every call, on which the theorems above are applied.\<close>

definition demo_signer :: signer where
  "demo_signer = \<lparr>sg_address = (\<lambda>_. Some 7), sg_sign_tx = (\<lambda>t c. Some \<lparr>sx_tx = t, sx_sig = []\<rparr>)\<rparr>"

definition demo_env :: tx_env where
  "demo_env = \<lparr>te_other = (\<lambda>_ x. x), te_fault = (\<lambda>_. NoFault), te_now = (\<lambda>i. int i),
     te_uuid = (\<lambda>i. ''id-'' @ nat_digits i), te_block_number = (\<lambda>_. Some 500),
     te_header_hash = (\<lambda>_ _. Inr ''0xb''), te_base_fee = (\<lambda>_. Some (Some 7)),
     te_pending_nonce = (\<lambda>_ _. Some 3), te_nonce_at = (\<lambda>_ _. Some 2), te_tip_cap = (\<lambda>_. Some 1),
     te_gas_price = (\<lambda>_. Some 9), te_estimate_gas = (\<lambda>_ _ _ _ _. Some 21000),
     te_send = (\<lambda>_ _. None), te_receipt = (\<lambda>_ _. Inl RpcNotFound),
     te_static_signer = (\<lambda>_. demo_signer), te_addr_hex = (\<lambda>a. big_string (uint a)),
     te_hex_addr = (\<lambda>s. case big_set_string s of None \<Rightarrow> 0 | Some i \<Rightarrow> word_of_int i),
     te_bytes_hex = map (\<lambda>b. char_of (unat b)), te_hex_bytes = (\<lambda>s. map of_char (drop 2 s)),
     te_tx_hash = (\<lambda>s. big_string (uint (et_nonce (sx_tx s)))),
     te_marshal = (\<lambda>s. Some [2, ucast (et_nonce (sx_tx s))]), te_unmarshal = (\<lambda>_. None),
     te_zero_hash_hex = ''0x0''\<rparr>"

definition demo_request :: submit_request where
  "demo_request = \<lparr>rq_idempotency_key = ''k1'', rq_kind = ''setStatus'', rq_private_key = None,
     rq_signer = Some demo_signer, rq_to = 9, rq_data = [1, 2], rq_value = None,
     rq_allow_reorg_retry = False\<rparr>"

definition demo_world :: tx_world where
  "demo_world = \<lparr>w_tick = 0, w_txs = [], w_leases = [], w_sent = []\<rparr>"

definition demo_caps :: fee_caps where
  "demo_caps = \<lparr>fc_max_fee_per_gas = Some 20, fc_max_tip_per_gas = Some 2, fc_max_total_cost = None\<rparr>"

definition demo_record :: transaction where
  "demo_record = tx_zero\<lparr>tx_id := ''r1'', tx_idempotency_key := ''k1'', tx_from := ''7'', tx_nonce := 8\<rparr>"

lemmas demo_defs = demo_env_def demo_signer_def demo_request_def demo_world_def demo_record_def

lemma demo_decimals: "big_string 7 = ''7''" "big_string 9 = ''9''"
  by code_simp+

text \<open>The definitions to evaluate a Submit by.\<close>

lemmas tx_eval = submit_def submit_locked_def submit_fresh_def submit_send_def submit_persist_def
  submit_broadcast_def submit_record_def allocate_nonce_def needs_intervention_tx_def find_blocker_def
  tx_list_by_statuses_def tx_filter_def tx_list_def acquire_nonce_lease_def renew_nonce_lease_def
  release_nonce_lease_def lease_key_def req_signer_def signer_address_def sign_tx_def build_tx_def
  check_fee_caps_def tip_over_cap_def fail_if_def encode_signed_tx_def monad_defs prim_defs others_def
  demo_defs demo_caps_def new_tx_manager_with_lease_def new_tx_manager_with_policy_def new_tx_manager_def
  new_tx_manager_with_fee_caps_def no_fee_caps_def lease_acquire_def lease_renew_def lease_release_def
  tx_create_def tx_update_def tx_get_by_key_def is_ambiguous_broadcast_def tx_zero_def Let_def
  default_max_replacement_attempts_def demo_decimals

lemma demo_ok: "quiet demo_env" "others_keep_signed demo_env" "signers_ok demo_env demo_request"
    "signs_for demo_env demo_request 7"
  by (simp_all add: demo_defs quiet_def others_keep_signed_def signers_ok_def signs_for_def
      signer_ok_def req_signer_def)

theorem submit_persists_before_broadcast_witness:
  "let m = new_tx_manager_with_lease 1 FeeModeEIP1559 demo_caps 10 ''replica'' 100;
       w' = snd (submit demo_env m demo_request demo_world)
   in length (w_sent w') = 1 \<and>
      sends_one (\<lambda>s st. persisted demo_env s st \<and> within_caps m (sx_tx s)) [] w'"
proof -
  have "length (w_sent (snd (submit demo_env (new_tx_manager_with_lease 1 FeeModeEIP1559 demo_caps 10 ''replica'' 100)
      demo_request demo_world))) = 1"
    by (simp add: tx_eval)
  with submit_persists_before_broadcast [OF demo_ok(2,3), where w = demo_world] show ?thesis
    unfolding Let_def by (simp add: demo_world_def)
qed

theorem submit_nonce_fresh_witness:
  "let w = demo_world\<lparr>w_txs := [(''r1'', demo_record\<lparr>tx_idempotency_key := ''k0''\<rparr>)]\<rparr>;
       w' = snd (submit demo_env (new_tx_manager 1 FeeModeLegacy) demo_request w)
   in map (\<lambda>(s, _). et_nonce (sx_tx s)) (w_sent w') = [9] \<and>
      sends_one (\<lambda>s st. nonce_free demo_env 7 (w_txs w) (et_nonce (sx_tx s))) [] w'"
proof -
  have "map (\<lambda>(s, _). et_nonce (sx_tx s)) (w_sent (snd (submit demo_env (new_tx_manager 1 FeeModeLegacy) demo_request
      (demo_world\<lparr>w_txs := [(''r1'', demo_record\<lparr>tx_idempotency_key := ''k0''\<rparr>)]\<rparr>)))) = [9]"
    by (simp add: tx_eval equal_fold_def holds_nonce.simps)
  with submit_nonce_fresh [OF demo_ok(1,3,4),
      where w = "demo_world\<lparr>w_txs := [(''r1'', demo_record\<lparr>tx_idempotency_key := ''k0''\<rparr>)]\<rparr>"]
  show ?thesis unfolding Let_def by (simp add: demo_world_def)
qed

theorem blocked_signer_submits_nothing_witness:
  "let w = demo_world\<lparr>w_txs := [(''r1'', demo_record\<lparr>tx_stat := TxNeedsIntervention\<rparr>)]\<rparr>
   in \<exists>x w'. submit demo_env (new_tx_manager 1 FeeModeLegacy) demo_request w = (Inl x, w') \<and>
      w_txs w' = w_txs w \<and> w_sent w' = w_sent w"
  unfolding Let_def
  by (rule blocked_signer_submits_nothing
      [OF demo_ok(1,4), where b = "demo_record\<lparr>tx_stat := TxNeedsIntervention\<rparr>"])
    (simp_all add: blocks_def demo_defs tx_zero_def equal_fold_def, code_simp)

theorem submit_idempotent_witness:
  "let w = demo_world\<lparr>w_txs := [(''r1'', demo_record)]\<rparr>
   in \<exists>r w'. submit demo_env (new_tx_manager 1 FeeModeLegacy) demo_request w = (r, w') \<and>
      w_txs w' = w_txs w \<and> w_sent w' = w_sent w \<and> (\<forall>x. r = Inr x \<longrightarrow> x = demo_record)"
  unfolding Let_def
  by (rule submit_idempotent [OF demo_ok(1)])
    (simp_all add: demo_defs tx_zero_def tx_get_by_key_def is_retryable_status.simps)

end
