(* ===== verification/TxReplace.thy ===== *)
theory TxReplace
  imports TxManager
begin

text \<open>
  \<^verbatim>\<open>Replace\<close> of server/internal/blockchain/txmanager.go: resubmitting a Pending transaction at
  its nonce with higher fees. The Go code mutates the loaded record \<^verbatim>\<open>old\<close> in place; here each
  state of it is a record of its own.
\<close>

section \<open>Definition\<close>

definition mark_needs_intervention :: "tx_env \<Rightarrow> transaction \<Rightarrow> 'a txm" where
  "mark_needs_intervention e t =
     bindM (clock e) (\<lambda>now.
     bindM (or_fail (store_write e (put_tx tx_update
       (t\<lparr>tx_stat := TxNeedsIntervention, tx_updated_at := now\<rparr>)))) (\<lambda>_.
     raise (ErrExhausted (tx_id t))))"

text \<open>The conditional write as a repository call: \<open>True\<close> when the version matched.\<close>

definition cas_tx :: "transaction \<Rightarrow> int \<Rightarrow> tx_store \<Rightarrow> store_error + bool \<times> tx_store" where
  "cas_tx t n st = tx_update_conditional t n st"

definition replace_record ::
  "tx_env \<Rightarrow> tx_manager \<Rightarrow> transaction \<Rightarrow> u64 \<Rightarrow> signed_tx \<Rightarrow> string \<Rightarrow> gotime \<Rightarrow> string \<Rightarrow> transaction" where
  "replace_record e m old token stx raw now new_id =
     tx_zero\<lparr>tx_id := new_id,
       tx_kind := tx_kind old,
       tx_chain_id := tm_chain_id m,
       tx_from := tx_from old,
       tx_to := tx_to old,
       tx_data := tx_data old,
       tx_value := tx_value old,
       tx_nonce := tx_nonce old,
       tx_hash := te_tx_hash e stx,
       tx_signed_raw := raw,
       tx_replaces := tx_id old,
       tx_replacement_count := tx_replacement_count old + 1,
       tx_stat := TxBroadcastUnknown,
       tx_fencing_token := token,
       tx_submitted_at := now,
       tx_updated_at := now\<rparr>"

definition replace_broadcast ::
  "tx_env \<Rightarrow> transaction \<Rightarrow> transaction \<Rightarrow> signed_tx \<Rightarrow> transaction txm" where
  "replace_broadcast e old' new_rec stx =
     bindM (send_raw e stx) (\<lambda>err.
     case err of
       Some _ \<Rightarrow>
         if is_ambiguous_broadcast err then raise ErrBroadcastUnknown
         else
           bindM (clock e) (\<lambda>failed_at.
           bindM (store_write e (put_tx tx_update
             (new_rec\<lparr>tx_stat := TxFailed, tx_updated_at := failed_at\<rparr>))) (\<lambda>_.
           bindM (store_write e (cas_tx
             (old'\<lparr>tx_stat := TxPending, tx_replaced_by := [],
                   tx_replacement_count := tx_replacement_count new_rec, tx_updated_at := failed_at\<rparr>)
             (tx_version old' + 1))) (\<lambda>_.
           raise ErrBroadcastRejected)))
     | None \<Rightarrow>
         bindM (clock e) (\<lambda>now.
         let rec' = new_rec\<lparr>tx_stat := TxPending, tx_updated_at := now\<rparr> in
         bindM (or_fail (store_write e (put_tx tx_update rec'))) (\<lambda>_.
         ret rec')))"

definition replace_send ::
  "tx_env \<Rightarrow> tx_manager \<Rightarrow> transaction \<Rightarrow> u64 \<Rightarrow> signed_tx \<Rightarrow> string \<Rightarrow> transaction txm" where
  "replace_send e m old token stx raw =
     bindM (clock e) (\<lambda>now.
     bindM (fresh_id e) (\<lambda>new_id.
     let new_rec = replace_record e m old token stx raw now new_id in
     bindM (or_fail (store_write e (put_tx tx_create new_rec))) (\<lambda>_.
     let old' = old\<lparr>tx_stat := TxReplaced, tx_replaced_by := new_id, tx_updated_at := now\<rparr> in
     bindM (or_fail (store_write e (cas_tx old' (tx_version old)))) (\<lambda>ok.
     if \<not> ok then
       bindM (clock e) (\<lambda>failed_at.
       bindM (store_write e (put_tx tx_update
         (new_rec\<lparr>tx_stat := TxFailed, tx_updated_at := failed_at\<rparr>))) (\<lambda>_.
       raise (ErrConcurrentReplace (tx_id old))))
     else replace_broadcast e old' new_rec stx))))"

definition replace_locked ::
  "tx_env \<Rightarrow> tx_manager \<Rightarrow> string \<Rightarrow> signer \<Rightarrow> int \<Rightarrow> address \<Rightarrow> u64 \<Rightarrow> transaction txm" where
  "replace_locked e m iden sg pct from token =
     bindM (or_fail (store_read e (tx_get iden))) (\<lambda>old.
     if tx_stat old \<noteq> TxPending then raise (ErrNotPending (tx_stat old))
     else if te_addr_hex e from \<noteq> tx_from old then raise ErrSignerMismatch
     else if tm_max_replacement_attempts m > 0 \<and>
             tx_replacement_count old + 1 > tm_max_replacement_attempts m
       then mark_needs_intervention e old
     else
       (let to = te_hex_addr e (tx_to old);
            data = te_hex_bytes e (tx_data old);
            value = (case big_set_string (tx_value old) of None \<Rightarrow> 0 | Some v \<Rightarrow> v);
            orig = (if tx_signed_raw old \<noteq> [] then
                      (case decode_signed_tx e (tx_signed_raw old) of
                         Inl _ \<Rightarrow> None | Inr s \<Rightarrow> Some (sx_tx s))
                    else None)
        in bindM (build_bumped_tx e m from to data value (tx_nonce old) pct orig) (\<lambda>utx.
           bindM (sign_tx sg utx (tm_chain_id m)) (\<lambda>stx.
           bindM (liftE (encode_signed_tx e stx)) (\<lambda>raw.
           bindM (renew_nonce_lease e m from token) (\<lambda>_.
           replace_send e m old token stx raw))))))"

definition replace ::
  "tx_env \<Rightarrow> tx_manager \<Rightarrow> string \<Rightarrow> signer option \<Rightarrow> int \<Rightarrow> transaction txm" where
  "replace e m iden sgo pct =
     (case sgo of
        None \<Rightarrow> raise ErrNoSigner
      | Some sg \<Rightarrow>
          if pct \<le> 0 then raise (ErrBumpPercent pct)
          else
            bindM (signer_address e sg) (\<lambda>from.
            bindM (acquire_nonce_lease e m from) (\<lambda>token.
            finallyM (replace_locked e m iden sg pct from token) (release_nonce_lease e m from token))))"

section \<open>The fees of a replacement\<close>

text \<open>What a node asks of a replacement of the same kind: 10 percent on the tip and on the cap.\<close>

definition outbids :: "tx_fees \<Rightarrow> tx_fees \<Rightarrow> bool" where
  "outbids new old \<longleftrightarrow>
     (case (new, old) of
        (DynamicFee _ t f, DynamicFee _ t' f') \<Rightarrow> t' < t \<and> f' < f \<and> t' * 110 \<le> 100 * t \<and> f' * 110 \<le> 100 * f
      | (LegacyFee p, LegacyFee p') \<Rightarrow> p' < p \<and> p' * 110 \<le> 100 * p
      | _ \<Rightarrow> True)"

definition fees_nonneg :: "tx_fees \<Rightarrow> bool" where
  "fees_nonneg f = (case f of DynamicFee _ t c \<Rightarrow> 0 \<le> t \<and> 0 \<le> c | LegacyFee p \<Rightarrow> 0 \<le> p)"

lemma bump_over_original:
  assumes "0 \<le> orig"
  shows "orig < bump_fee_field (Some orig) cur pct" and "orig * 110 \<le> 100 * bump_fee_field (Some orig) cur pct"
proof -
  have "orig * 110 \<le> 100 * ceil_percent orig 10" using ceil_percent_ge [of orig 10] assms by simp
  then show "orig < bump_fee_field (Some orig) cur pct"
    and "orig * 110 \<le> 100 * bump_fee_field (Some orig) cur pct"
    using assms unfolding bump_fee_field_def replacement_min_bump_percent_def Let_def by auto
qed

lemma bumped_fees:
  assumes "build_bumped_tx e m from to data value nonce pct (Some orig) w = (Inr t, w')"
  obtains (dynamic) tip fee_cap where "et_fees t = DynamicFee (tm_chain_id m) tip fee_cap"
      "\<And>c' t' f'. et_fees orig = DynamicFee c' t' f' \<Longrightarrow>
        \<exists>bt bc. tip = bump_fee_field (Some t') bt pct \<and> bump_fee_field (Some f') bc pct \<le> fee_cap"
    | (legacy) price where "et_fees t = LegacyFee price"
      "\<And>p'. et_fees orig = LegacyFee p' \<Longrightarrow> \<exists>bp. price = bump_fee_field (Some p') bp pct"
proof -
  from assms obtain base w1 where base: "build_tx e m from to data value nonce w = (Inr base, w1)"
    and rest: "(case et_fees base of
       DynamicFee c base_tip base_cap \<Rightarrow>
         (let (orig_tip, orig_cap) =
                (case Some orig of
                   Some t \<Rightarrow> (case et_fees t of DynamicFee _ t' f' \<Rightarrow> (Some t', Some f') | LegacyFee _ \<Rightarrow> (None, None))
                 | None \<Rightarrow> (None, None));
              tip = bump_fee_field orig_tip (Some base_tip) pct;
              cap0 = bump_fee_field orig_cap (Some base_cap) pct;
              fee_cap = (if cap0 < tip then tip else cap0)
          in if tip_over_cap m tip then raise (ErrTipCap tip)
             else bindM (fail_if (check_fee_caps m fee_cap (et_gas base) value)) (\<lambda>_.
               ret \<lparr>et_fees = DynamicFee (tm_chain_id m) tip fee_cap, et_nonce = nonce,
                    et_gas = et_gas base, et_to = to, et_value = value, et_data = data\<rparr>))
     | LegacyFee base_price \<Rightarrow>
         (let orig_price =
                (case Some orig of
                   Some t \<Rightarrow> (case et_fees t of LegacyFee p \<Rightarrow> Some p | DynamicFee _ _ _ \<Rightarrow> None)
                 | None \<Rightarrow> None);
              gas_price = bump_fee_field orig_price (Some base_price) pct
          in bindM (fail_if (check_fee_caps m gas_price (et_gas base) value)) (\<lambda>_.
               ret \<lparr>et_fees = LegacyFee gas_price, et_nonce = nonce,
                    et_gas = et_gas base, et_to = to, et_value = value, et_data = data\<rparr>))) w1 = (Inr t, w')"
    unfolding build_bumped_tx_def by (rule bindM_InrE)
  show thesis
  proof (cases "et_fees base")
    case (DynamicFee c bt bc)
    show ?thesis
    proof (rule dynamic)
      show "et_fees t = DynamicFee (tm_chain_id m)
          (bump_fee_field (case et_fees orig of DynamicFee _ t' f' \<Rightarrow> Some t' | LegacyFee _ \<Rightarrow> None) (Some bt) pct)
          (max (bump_fee_field (case et_fees orig of DynamicFee _ t' f' \<Rightarrow> Some f' | LegacyFee _ \<Rightarrow> None) (Some bc) pct)
            (bump_fee_field (case et_fees orig of DynamicFee _ t' f' \<Rightarrow> Some t' | LegacyFee _ \<Rightarrow> None) (Some bt) pct))"
        using rest DynamicFee
        by (cases "et_fees orig") (auto simp: Let_def raise_def max_def split: if_splits elim!: bindM_InrE dest!: ret_InrD)
    qed (auto simp: max_def)
  next
    case (LegacyFee bp)
    show ?thesis
    proof (rule legacy)
      show "et_fees t = LegacyFee
          (bump_fee_field (case et_fees orig of LegacyFee p \<Rightarrow> Some p | DynamicFee _ _ _ \<Rightarrow> None) (Some bp) pct)"
        using rest LegacyFee by (auto simp: Let_def elim!: bindM_InrE dest!: ret_InrD)
    qed auto
  qed
qed

lemma build_bumped_outbids:
  assumes "build_bumped_tx e m from to data value nonce pct (Some orig) w = (Inr t, w')"
    and "fees_nonneg (et_fees orig)"
  shows "outbids (et_fees t) (et_fees orig)"
  using assms(1)
proof (cases rule: bumped_fees)
  case (dynamic tip fee_cap)
  show ?thesis
  proof (cases "et_fees orig")
    case (DynamicFee c' t' f')
    with dynamic obtain bt bc where "tip = bump_fee_field (Some t') bt pct"
      and cap: "bump_fee_field (Some f') bc pct \<le> fee_cap" by blast
    moreover have "f' < bump_fee_field (Some f') bc pct" "f' * 110 \<le> 100 * bump_fee_field (Some f') bc pct"
      using assms(2) DynamicFee bump_over_original [of f'] by (simp_all add: fees_nonneg_def)
    ultimately show ?thesis
      using assms(2) DynamicFee dynamic(1) bump_over_original [of t' bt pct]
      by (simp add: outbids_def fees_nonneg_def)
  qed (simp add: outbids_def dynamic(1))
next
  case (legacy price)
  show ?thesis
  proof (cases "et_fees orig")
    case (LegacyFee p')
    with legacy obtain bp where "price = bump_fee_field (Some p') bp pct" by blast
    then show ?thesis
      using assms(2) LegacyFee legacy(1) bump_over_original [of p' bp pct]
      by (simp add: outbids_def fees_nonneg_def)
  qed (simp add: outbids_def legacy(1))
qed

section \<open>What Replace sends\<close>

definition replaces_soundly :: "tx_env \<Rightarrow> tx_manager \<Rightarrow> transaction \<Rightarrow> signed_tx \<Rightarrow> bool" where
  "replaces_soundly e m old s \<longleftrightarrow>
     et_nonce (sx_tx s) = tx_nonce old \<and> within_caps m (sx_tx s) \<and>
     (\<forall>s0. decode_signed_tx e (tx_signed_raw old) = Inr s0 \<longrightarrow> fees_nonneg (et_fees (sx_tx s0)) \<longrightarrow>
        tx_signed_raw old \<noteq> [] \<longrightarrow> outbids (et_fees (sx_tx s)) (et_fees (sx_tx s0)))"

lemma keeps_mark_needs_intervention [triple_intros]:
  "keeps (sent_is xs) (mark_needs_intervention e t)"
  unfolding mark_needs_intervention_def by (intro triple_intros)

text \<open>The record to be broadcast stays in the store from its creation on, whatever happens in between.\<close>

definition holds_ready ::
  "tx_env \<Rightarrow> signed_tx \<Rightarrow> string \<Rightarrow> (signed_tx \<times> tx_store) list \<Rightarrow> tx_world \<Rightarrow> bool" where
  "holds_ready e s i xs w \<longleftrightarrow> sent_is xs w \<and> (\<exists>r. lookup (w_txs w) i = Some r \<and> ready_to_send e s r)"

lemma holds_ready_others:
  assumes "others_keep_signed e" and "holds_ready e s i xs w"
  shows "holds_ready e s i xs (others e w)"
  using assms others_keep_signedD [OF assms(1)]
  by (fastforce simp: holds_ready_def sent_is_def ready_to_send_def)

lemma calm_holds_ready: "others_keep_signed e \<Longrightarrow> calm e (holds_ready e s i xs)"
  unfolding calm_def using holds_ready_others by (simp add: holds_ready_def sent_is_def)

lemma cas_tx_lookup: "cas_tx t n st = Inr (b, st') \<Longrightarrow> tx_id t \<noteq> i \<Longrightarrow> lookup st' i = lookup st i"
  by (auto simp: cas_tx_def tx_update_conditional_def lookup_put split: option.splits if_splits)

lemma keeps_cas_holds_ready:
  assumes "others_keep_signed e" and "tx_id t \<noteq> i"
  shows "keeps (holds_ready e s i xs) (store_write e (cas_tx t n))"
proof (rule keepsI)
  fix w assume "holds_ready e s i xs w"
  then have "holds_ready e s i xs (others e w)" by (rule holds_ready_others [OF assms(1)])
  moreover have "holds_ready e s i xs (w'\<lparr>w_txs := st'\<rparr>)"
    if "holds_ready e s i xs w'" "cas_tx t n (w_txs w') = Inr (b, st')" for w' b st'
    using that cas_tx_lookup [OF that(2) assms(2)] by (simp add: holds_ready_def sent_is_def)
  ultimately show "holds_ready e s i xs (snd (store_write e (cas_tx t n) w))"
    by (auto simp: store_write_def Let_def split: fault.splits sum.splits)
qed

lemma create_holds_ready:
  assumes "ready_to_send e s r" and "\<And>x w. sent_is xs w \<Longrightarrow> Q (Inl x) w"
    and "\<And>u. triple (holds_ready e s (tx_id r) xs) (f u) Q"
  shows "triple (sent_is xs) (bindM (or_fail (store_write e (put_tx tx_create r))) f) Q"
proof (rule triple_bind [OF tripleI assms(3)])
  fix w assume w: "sent_is xs w"
  obtain x t where m: "or_fail (store_write e (put_tx tx_create r)) w = (x, t)" by fastforce
  have t: "sent_is xs t"
    by (rule keepsD [OF keeps_or_fail [OF keeps_store_write(1)] w m])
  have "lookup (w_txs t) (tx_id r) = Some r" if "x = Inr u" for u
    using m that by (auto simp: or_fail_def bindM_def ret_def raise_def
        split: sum.splits prod.splits intro!: store_write_persists intro: tx_create_get [THEN trans])
  with t m assms(1,2) show "case fst (or_fail (store_write e (put_tx tx_create r)) w) of
      Inl y \<Rightarrow> Q (Inl y) (snd (or_fail (store_write e (put_tx tx_create r)) w))
    | Inr u \<Rightarrow> holds_ready e s (tx_id r) xs (snd (or_fail (store_write e (put_tx tx_create r)) w))"
    by (auto simp: holds_ready_def split: sum.split)
qed

lemma replace_broadcast_triple:
  assumes "others_keep_signed e" and "G s"
  shows "triple (holds_ready e s i xs) (replace_broadcast e old r s)
    (\<lambda>_. sends_one (\<lambda>s st. persisted e s st \<and> G s) xs)"
  unfolding replace_broadcast_def
proof (rule triple_bind [where R = "\<lambda>_. sends_one (\<lambda>s st. persisted e s st \<and> G s) xs"], goal_cases)
  case 1
  have "sends_one (\<lambda>s st. persisted e s st \<and> G s) xs (snd (send_raw e s w))"
    if "holds_ready e s i xs w" for w
    using holds_ready_others [OF assms(1) that] assms(2)
    by (auto simp: send_raw_def sends_one_def sent_is_def holds_ready_def persisted_def ready_to_send_def Let_def)
  then show ?case by (intro tripleI) (simp add: send_raw_def Let_def)
next
  case (2 err)
  show ?case
    unfolding keeps_triple [symmetric] Let_def or_fail_def by (intro triple_intros)
qed

lemma replace_send_triple:
  assumes oth: "others_keep_signed e" and raw: "encode_signed_tx e stx = Inr raw"
    and nonce: "et_nonce (sx_tx stx) = tx_nonce old" and G: "G stx"
    and ids: "\<forall>i. te_uuid e i \<noteq> tx_id old"
  shows "triple (sent_is xs) (replace_send e m old token stx raw)
    (\<lambda>_. sends_one (\<lambda>s st. persisted e s st \<and> G s) xs)"
  (is "triple _ _ ?Q")
proof -
  have err: "\<And>r w. sent_is xs w \<Longrightarrow> ?Q r w" by (rule sends_one_same)
  have err': "\<And>r w i. holds_ready e stx i xs w \<Longrightarrow> ?Q r w" by (simp add: holds_ready_def sends_one_same)
  have ready: "ready_to_send e stx (replace_record e m old token stx raw now i)" for now i
    using raw nonce by (simp add: ready_to_send_def replace_record_def)
  have lost: "triple (holds_ready e stx i xs) (bindM (clock e) (\<lambda>t. bindM (store_write e
      (put_tx tx_update (r\<lparr>tx_stat := TxFailed, tx_updated_at := t\<rparr>))) (\<lambda>_. raise x))) ?Q" for i r x
    by (rule triple_conseq [where P' = "sent_is xs" and Q' = "\<lambda>_. sent_is xs"])
      (auto simp: keeps_triple [symmetric] holds_ready_def sends_one_same intro!: triple_intros)
  show ?thesis
    unfolding replace_send_def Let_def
  proof (intro triple_bind_keeps' [OF keeps_clock(1) _ err], goal_cases)
    case (1 now)
    show ?case
    proof (rule triple_bind_keeps [where F = "\<lambda>i. i \<noteq> tx_id old", OF keeps_clock(2) _ _ err], goal_cases)
      case (1 s x t)
      then show ?case using ids by (auto simp: fresh_id_def getM_def)
    next
      case (2 i)
      have i: "tx_id (replace_record e m old token stx raw now i) = i" by (simp add: replace_record_def)
      show ?case
        by (intro create_holds_ready [OF ready err]
            triple_bind_keeps' [OF keeps_or_fail [OF keeps_cas_holds_ready [OF oth]] _ err'])
          (use 2 in \<open>auto simp: i intro!: lost replace_broadcast_triple [where G = G, OF oth G]\<close>)
    qed
  qed
qed

lemma replace_locked_triple:
  assumes oth: "others_keep_signed e" and sg: "signer_ok sg" and calm: "calm e P"
    and P: "\<And>w. P w \<Longrightarrow> sent_is xs w"
    and old: "\<And>w t w'. P w \<Longrightarrow> or_fail (store_read e (tx_get iden)) w = (Inr t, w') \<Longrightarrow> R t"
    and ids: "\<And>t i. R t \<Longrightarrow> te_uuid e i \<noteq> tx_id t"
  shows "triple P (replace_locked e m iden sg pct from token)
    (\<lambda>_. sends_one (\<lambda>s st. persisted e s st \<and> (\<exists>t. R t \<and> tx_stat t = TxPending \<and> replaces_soundly e m t s)) xs)"
  (is "triple _ _ ?Q")
proof -
  have err: "\<And>r w. P w \<Longrightarrow> ?Q r w" using P by (blast intro: sends_one_same)
  have stuck: "triple P (mark_needs_intervention e t) ?Q" for t
    by (rule triple_conseq [where P' = "sent_is xs" and Q' = "\<lambda>_. sent_is xs"])
      (auto simp: keeps_triple [symmetric] P sends_one_same intro: keeps_mark_needs_intervention)
  show ?thesis
    unfolding replace_locked_def Let_def
  proof (rule triple_bind_keeps [where F = R, OF keeps_or_fail [OF keeps_calm(3) [OF calm]] old _ err],
      assumption, assumption, goal_cases)
    case (1 t)
    note t = 1
    define orig where "orig = (if tx_signed_raw t \<noteq> [] then
      (case decode_signed_tx e (tx_signed_raw t) of Inl _ \<Rightarrow> None | Inr s \<Rightarrow> Some (sx_tx s)) else None)"
    define V where "V = (case big_set_string (tx_value t) of None \<Rightarrow> 0 | Some v \<Rightarrow> v)"
    let ?B = "build_bumped_tx e m from (te_hex_addr e (tx_to t)) (te_hex_bytes e (tx_data t)) V (tx_nonce t) pct orig"
    have sound: "replaces_soundly e m t s" if "?B w = (Inr (sx_tx s), w')" for w s w'
      using build_bumped_tx_ok [OF that] that
      by (auto simp: replaces_soundly_def orig_def intro: build_bumped_outbids)
    have "triple P (bindM ?B (\<lambda>utx. bindM (sign_tx sg utx (tm_chain_id m)) (\<lambda>stx.
        bindM (liftE (encode_signed_tx e stx)) (\<lambda>raw. bindM (renew_nonce_lease e m from token) (\<lambda>_.
        replace_send e m t token stx raw))))) ?Q" if pend: "tx_stat t = TxPending"
    proof (rule triple_bind_keeps [where F = "\<lambda>u. \<exists>w w'. ?B w = (Inr u, w')",
          OF keeps_build_bumped_tx [OF calm] _ _ err], blast, goal_cases)
      case (1 utx)
      then have utx: "\<And>s. sx_tx s = utx \<Longrightarrow> replaces_soundly e m t s" using sound by blast
      show ?case
      proof (rule triple_bind_keeps [where F = "\<lambda>s. sx_tx s = utx", OF keeps_sign_tx _ _ err], goal_cases)
        case (1 w x w')
        then show ?case by (simp add: sign_tx_ok [OF sg])
      next
        case (2 stx)
        note s = utx [OF 2]
        show ?case
        proof (rule triple_bind_keeps [where F = "\<lambda>raw. encode_signed_tx e stx = Inr raw", OF keeps_liftE _ _ err], goal_cases)
          case (1 w x w')
          then show ?case by (simp add: liftE_def)
        next
          case (2 raw)
          show ?case
            using ids [OF t] s t pend
            by (intro triple_bind_keeps' [OF keeps_renew [OF calm] _ err]
                triple_conseq [OF replace_send_triple [where xs = xs and old = t and G = "\<lambda>s. \<exists>t. R t \<and> tx_stat t = TxPending \<and> replaces_soundly e m t s", OF oth 2]])
              (auto simp: replaces_soundly_def dest: P)
        qed
      qed
    qed
    then show ?case
      by (auto simp: V_def orig_def intro!: triple_raise err stuck)
  qed
qed

text \<open>
  C5: a Replace hands at most one transaction to the node; it re-uses the nonce of the pending
  record it replaces, is persisted (bytes, hash, nonce) before it goes out, stays within the fee
  caps and, when the stored original decodes, outbids every fee of it by the 10 percent nodes
  ask for; a record that is not Pending is never replaced. Any repository call may fail.
\<close>

theorem replace_sound:
  assumes "quiet e" and "signer_ok sg" and "tx_get iden (w_txs w) = Inr old"
    and "\<forall>i. te_uuid e i \<noteq> tx_id old"
  shows "sends_one (\<lambda>s st. persisted e s st \<and> tx_stat old = TxPending \<and> replaces_soundly e m old s)
    (w_sent w) (snd (replace e m iden (Some sg) pct w))"
proof -
  let ?P = "same_txs (w_txs w) (w_sent w)"
  let ?Q = "sends_one (\<lambda>s st. persisted e s st \<and> tx_stat old = TxPending \<and> replaces_soundly e m old s) (w_sent w)"
  note calm = calm_same [OF assms(1)]
  have oth: "others_keep_signed e" using assms(1) by (simp add: others_keep_signed_def quiet_def)
  have err: "\<And>w'. ?P w' \<Longrightarrow> ?Q w'" by (simp add: same_txs_def sends_one_def)
  have read: "t = old" if "?P v" "or_fail (store_read e (tx_get iden)) v = (Inr t, v')" for v t v'
    using that assms(1,3)
    by (auto simp: store_read_def or_fail_def bindM_def raise_def ret_def same_txs_def quiet_def
        others_def Let_def split: if_splits sum.splits prod.splits)
  have locked: "triple ?P (replace_locked e m iden sg pct from token) (\<lambda>_. ?Q)" for "from" token
    using replace_locked_triple [where R = "\<lambda>t. t = old" and xs = "w_sent w", OF oth assms(2) calm _ read] assms(4)
    by (simp add: same_txs_def sent_is_def)
  have release: "triple ?Q (release_nonce_lease e m from token) (\<lambda>_. ?Q)" for "from" token
    unfolding keeps_triple [symmetric] by (rule keeps_release [OF calm_sends_one])
  have "triple ?P (replace e m iden (Some sg) pct) (\<lambda>_. ?Q)"
    unfolding replace_def option.case
    by (auto intro!: triple_raise err triple_bind_keeps' [OF keeps_signer_address [OF calm]]
        triple_bind_keeps' [OF keeps_acquire [OF calm]] triple_finally [OF locked release])
  then show ?thesis by (simp add: triple_def same_txs_def)
qed

section \<open>Concurrent replacements\<close>

text \<open>The stored version of \<open>old\<close> is no longer the one the caller loaded.\<close>

definition moved_on :: "transaction \<Rightarrow> tx_world \<Rightarrow> bool" where
  "moved_on old w \<longleftrightarrow> (\<exists>u. lookup (w_txs w) (tx_id old) = Some u \<and> tx_version old < tx_version u)"

lemma moved_on_loses:
  assumes "lookup st (tx_id old) = Some u" and "tx_version old < tx_version u" and "tx_id t = tx_id old"
  shows "cas_tx t (tx_version old) st = Inr (False, st)"
  using assms by (simp add: cas_tx_def tx_update_conditional_def)

definition sent_moved :: "transaction \<Rightarrow> (signed_tx \<times> tx_store) list \<Rightarrow> tx_world \<Rightarrow> bool" where
  "sent_moved old xs w \<longleftrightarrow> w_sent w = xs \<and> moved_on old w"

definition one_or_moved :: "transaction \<Rightarrow> (signed_tx \<times> tx_store) list \<Rightarrow> tx_world \<Rightarrow> bool" where
  "one_or_moved old xs w \<longleftrightarrow> w_sent w = xs \<or> length (w_sent w) = Suc (length xs) \<and> moved_on old w"

lemma calm_moved: "quiet e \<Longrightarrow> calm e (sent_moved old xs)" "quiet e \<Longrightarrow> calm e (one_or_moved old xs)"
  by (auto simp: calm_def sent_moved_def one_or_moved_def moved_on_def quiet_def others_def)

lemma keeps_moved_write:
  assumes q: "quiet e" and w: "\<And>st x st'. p st = Inr (x, st') \<Longrightarrow>
      \<exists>u. lookup st (tx_id old) = Some u \<and> tx_version old < tx_version u \<Longrightarrow>
      \<exists>u. lookup st' (tx_id old) = Some u \<and> tx_version old < tx_version u"
  shows "keeps (sent_moved old xs) (store_write e p)" "keeps (one_or_moved old xs) (store_write e p)"
  using assms
  by (auto simp: keeps_def sent_moved_def one_or_moved_def moved_on_def store_write_def quiet_def
      others_def Let_def split: fault.split sum.split)

lemma moved_put:
  "put_tx tx_update t st = Inr (x, st') \<Longrightarrow> tx_id t \<noteq> tx_id old \<Longrightarrow>
    \<exists>u. lookup st (tx_id old) = Some u \<and> tx_version old < tx_version u \<Longrightarrow>
    \<exists>u. lookup st' (tx_id old) = Some u \<and> tx_version old < tx_version u"
  using tx_update_get [of t st st'] by (auto dest!: put_tx_InrD)

lemma moved_create:
  "put_tx tx_create t st = Inr (x, st') \<Longrightarrow> tx_id t \<noteq> tx_id old \<Longrightarrow>
    \<exists>u. lookup st (tx_id old) = Some u \<and> tx_version old < tx_version u \<Longrightarrow>
    \<exists>u. lookup st' (tx_id old) = Some u \<and> tx_version old < tx_version u"
  using tx_create_get [of t st st'] by (auto dest!: put_tx_InrD)

lemma moved_cas:
  "cas_tx t n st = Inr (x, st') \<Longrightarrow> tx_id t = tx_id old \<Longrightarrow> tx_version old \<le> n \<Longrightarrow>
    \<exists>u. lookup st (tx_id old) = Some u \<and> tx_version old < tx_version u \<Longrightarrow>
    \<exists>u. lookup st' (tx_id old) = Some u \<and> tx_version old < tx_version u"
  by (auto simp: cas_tx_def tx_update_conditional_def lookup_put split: if_splits)

lemma keeps_moved:
  assumes "quiet e"
  shows "tx_id t \<noteq> tx_id old \<Longrightarrow> keeps (sent_moved old xs) (store_write e (put_tx tx_update t))"
    and "tx_id t \<noteq> tx_id old \<Longrightarrow> keeps (sent_moved old xs) (store_write e (put_tx tx_create t))"
    and "tx_id t = tx_id old \<Longrightarrow> tx_version old \<le> n \<Longrightarrow> keeps (sent_moved old xs) (store_write e (cas_tx t n))"
    and "tx_id t \<noteq> tx_id old \<Longrightarrow> keeps (one_or_moved old xs) (store_write e (put_tx tx_update t))"
    and "tx_id t = tx_id old \<Longrightarrow> tx_version old \<le> n \<Longrightarrow> keeps (one_or_moved old xs) (store_write e (cas_tx t n))"
  by (rule keeps_moved_write(1) [OF assms] keeps_moved_write(2) [OF assms];
      (rule moved_put moved_create moved_cas; assumption))+

lemma replace_broadcast_moved:
  assumes "quiet e" and "tx_id r \<noteq> tx_id old" and "tx_id old' = tx_id old" and "tx_version old' = tx_version old"
  shows "triple (sent_moved old xs) (replace_broadcast e old' r s) (\<lambda>_. one_or_moved old xs)"
  unfolding replace_broadcast_def
proof (rule triple_bind [where R = "\<lambda>_. one_or_moved old xs"], goal_cases)
  case 1
  show ?case
    using assms(1) by (intro tripleI)
      (auto simp: send_raw_def sent_moved_def one_or_moved_def moved_on_def quiet_def others_def Let_def)
next
  case (2 err)
  show ?case
    unfolding keeps_triple [symmetric] Let_def or_fail_def
    using assms by (intro triple_intros keeps_moved [OF assms(1)]) simp_all
qed

lemma cas_won:
  assumes "or_fail (store_write e (cas_tx t n)) w = (Inr True, w')"
  shows "\<exists>u. lookup (w_txs w') (tx_id t) = Some u \<and> tx_version u = n + 1"
  using assms
  by (auto simp: or_fail_def bindM_def ret_def raise_def store_write_def cas_tx_def tx_update_conditional_def
      lookup_put Let_def split: fault.splits sum.splits option.splits if_splits prod.splits)

lemma replace_send_second:
  assumes q: "quiet e" and ids: "\<forall>i. te_uuid e i \<noteq> tx_id old"
  shows "triple (sent_moved old xs) (replace_send e m old token stx raw) (\<lambda>_. sent_moved old xs)"
  unfolding replace_send_def Let_def
proof (intro triple_bind_keeps' [OF keeps_clock(1)], goal_cases)
  case (1 now)
  show ?case
  proof (rule triple_bind_keeps [where F = "\<lambda>i. i \<noteq> tx_id old", OF keeps_clock(2)], goal_cases)
    case (1 s x t)
    then show ?case using ids by (auto simp: fresh_id_def getM_def)
  next
    case (2 i)
    have i: "tx_id (replace_record e m old token stx raw now i) = i" by (simp add: replace_record_def)
    let ?old = "old\<lparr>tx_stat := TxReplaced, tx_replaced_by := i, tx_updated_at := now\<rparr>"
    have lost: "ok = False" if "sent_moved old xs w" "or_fail (store_write e (cas_tx ?old (tx_version old))) w = (Inr ok, w')"
      for ok w w'
      using that q moved_on_loses [of "w_txs w" old _ ?old]
      by (auto simp: or_fail_def bindM_def ret_def raise_def store_write_def sent_moved_def moved_on_def quiet_def
          others_def Let_def split: fault.splits sum.splits prod.splits)
    show ?case
      by (intro triple_bind_keeps' [OF keeps_or_fail [OF keeps_moved(2) [OF q]]]
          triple_bind_keeps [where F = "\<lambda>ok. ok = False", OF keeps_or_fail [OF keeps_moved(3) [OF q]] lost])
        (use 2 in \<open>auto simp: keeps_triple [symmetric] i intro!: triple_intros keeps_moved [OF q]\<close>)
  qed simp
qed simp

lemma replace_send_first:
  assumes q: "quiet e" and ids: "\<forall>i. te_uuid e i \<noteq> tx_id old"
  shows "triple (sent_is xs) (replace_send e m old token stx raw) (\<lambda>_. one_or_moved old xs)"
  (is "triple _ _ ?Q")
proof -
  have err: "\<And>r w. sent_is xs w \<Longrightarrow> ?Q r w" by (simp add: one_or_moved_def sent_is_def)
  show ?thesis
    unfolding replace_send_def Let_def
  proof (intro triple_bind_keeps' [OF keeps_clock(1) _ err], goal_cases)
    case (1 now)
    show ?case
    proof (rule triple_bind_keeps [where F = "\<lambda>i. i \<noteq> tx_id old", OF keeps_clock(2) _ _ err], goal_cases)
      case (1 s x t)
      then show ?case using ids by (auto simp: fresh_id_def getM_def)
    next
      case (2 i)
      let ?r = "replace_record e m old token stx raw now i"
      let ?old = "old\<lparr>tx_stat := TxReplaced, tx_replaced_by := i, tx_updated_at := now\<rparr>"
      have i: "tx_id ?r = i" by (simp add: replace_record_def)
      show ?case
      proof (rule triple_bind_keeps' [OF keeps_or_fail [OF keeps_store_write(1)] _ err], goal_cases)
        case 1
        show ?case
        proof (rule triple_bind [where R = "\<lambda>ok. if ok then sent_moved old xs else sent_is xs"], goal_cases)
          case 1
          show ?case
          proof (rule tripleI)
            fix w assume w: "sent_is xs w"
            obtain x t where m: "or_fail (store_write e (cas_tx ?old (tx_version old))) w = (x, t)" by fastforce
            have t: "sent_is xs t" by (rule keepsD [OF keeps_or_fail [OF keeps_store_write(1)] w m])
            have "sent_moved old xs t" if "x = Inr True"
              using cas_won [of e ?old "tx_version old" w t] m that t
              by (auto simp: sent_moved_def moved_on_def sent_is_def)
            with t m err show "case fst (or_fail (store_write e (cas_tx ?old (tx_version old))) w) of
                Inl y \<Rightarrow> one_or_moved old xs (snd (or_fail (store_write e (cas_tx ?old (tx_version old))) w))
              | Inr ok \<Rightarrow> (if ok then sent_moved old xs else sent_is xs)
                  (snd (or_fail (store_write e (cas_tx ?old (tx_version old))) w))"
              by (auto split: sum.split)
          qed
        next
          case (2 ok)
          have lost: "triple (sent_is xs) (bindM (clock e) (\<lambda>t. bindM (store_write e
              (put_tx tx_update (?r\<lparr>tx_stat := TxFailed, tx_updated_at := t\<rparr>))) (\<lambda>_. raise x))) ?Q" for x
            by (rule triple_conseq [where P' = "sent_is xs" and Q' = "\<lambda>_. sent_is xs"])
              (auto simp: keeps_triple [symmetric] err intro!: triple_intros)
          show ?case
            using lost replace_broadcast_moved [OF q, of ?r old ?old] \<open>i \<noteq> tx_id old\<close>
            by (cases ok) (simp_all add: i)
        qed
      qed
    qed
  qed
qed

text \<open>
  two callers (goroutines or replicas) that loaded the same version of a pending record and
  both go on to replace it send at most one replacement between them, whatever they signed and
  whichever repository calls fail: the second one's conditional write finds the version moved on.
\<close>

theorem concurrent_replacements_send_once:
  assumes "quiet e" and "\<forall>i. te_uuid e i \<noteq> tx_id old"
  shows "let w1 = snd (replace_send e m1 old token1 stx1 raw1 w);
             w2 = snd (replace_send e m2 old token2 stx2 raw2 w1)
         in length (w_sent w2) \<le> Suc (length (w_sent w))"
proof -
  define w1 where "w1 = snd (replace_send e m1 old token1 stx1 raw1 w)"
  have w1: "one_or_moved old (w_sent w) w1"
    using replace_send_first [OF assms, of "w_sent w"] unfolding w1_def by (simp add: triple_def sent_is_def)
  have "length (w_sent (snd (replace_send e m2 old token2 stx2 raw2 w1))) \<le> Suc (length (w_sent w))"
  proof (cases "moved_on old w1")
    case True
    then have "sent_moved old (w_sent w1) (snd (replace_send e m2 old token2 stx2 raw2 w1))"
      using replace_send_second [OF assms, of "w_sent w1"] by (simp add: triple_def sent_moved_def)
    with w1 show ?thesis by (auto simp: sent_moved_def one_or_moved_def)
  next
    case False
    with w1 have "w_sent w1 = w_sent w" by (simp add: one_or_moved_def)
    moreover have "one_or_moved old (w_sent w1) (snd (replace_send e m2 old token2 stx2 raw2 w1))"
      using replace_send_first [OF assms, of "w_sent w1"] by (simp add: triple_def sent_is_def)
    ultimately show ?thesis by (auto simp: one_or_moved_def)
  qed
  then show ?thesis by (simp add: w1_def Let_def)
qed

section \<open>Applied\<close>

text \<open>A pending record whose stored bytes decode to a transaction with tip 10 and fee cap 30.\<close>

definition demo_original :: signed_tx where
  "demo_original = \<lparr>sx_tx = \<lparr>et_fees = DynamicFee 1 10 30, et_nonce = 8, et_gas = 21000, et_to = 9,
     et_value = 0, et_data = []\<rparr>, sx_sig = []\<rparr>"

definition replace_env :: tx_env where
  "replace_env = demo_env\<lparr>te_unmarshal := (\<lambda>_. Some demo_original)\<rparr>"

definition demo_pending :: transaction where
  "demo_pending = demo_record\<lparr>tx_stat := TxPending, tx_signed_raw := ''0xab''\<rparr>"

lemmas replace_eval = tx_eval replace_def replace_locked_def replace_send_def replace_record_def
  replace_broadcast_def build_bumped_tx_def tx_get_def decode_signed_tx_def cas_tx_def
  tx_update_conditional_def replace_env_def demo_pending_def demo_original_def bump_fee_field_def
  ceil_percent_def replacement_min_bump_percent_def

lemma replace_env_ok: "quiet replace_env" "signer_ok demo_signer"
    "\<forall>i. te_uuid replace_env i \<noteq> tx_id demo_pending"
  by (simp_all add: replace_env_def quiet_def signer_ok_def demo_defs demo_pending_def)

theorem replace_sound_witness:
  "let w = demo_world\<lparr>w_txs := [(''r1'', demo_pending)]\<rparr>;
       w' = snd (replace replace_env (new_tx_manager 1 FeeModeEIP1559) ''r1'' (Some demo_signer) 20 w)
   in map (\<lambda>(s, _). (et_nonce (sx_tx s), et_fees (sx_tx s))) (w_sent w') = [(8, DynamicFee 1 12 36)] \<and>
      sends_one (\<lambda>s st. persisted replace_env s st \<and> tx_stat demo_pending = TxPending \<and>
        replaces_soundly replace_env (new_tx_manager 1 FeeModeEIP1559) demo_pending s) [] w'"
proof -
  have "map (\<lambda>(s, _). (et_nonce (sx_tx s), et_fees (sx_tx s))) (w_sent (snd (replace replace_env
      (new_tx_manager 1 FeeModeEIP1559) ''r1'' (Some demo_signer) 20
      (demo_world\<lparr>w_txs := [(''r1'', demo_pending)]\<rparr>)))) = [(8, DynamicFee 1 12 36)]"
    by (simp add: replace_eval)
  moreover have "tx_get ''r1'' (w_txs (demo_world\<lparr>w_txs := [(''r1'', demo_pending)]\<rparr>)) = Inr demo_pending"
    by (simp add: tx_get_def)
  from replace_sound [OF replace_env_ok(1,2) this replace_env_ok(3)]
  have "sends_one (\<lambda>s st. persisted replace_env s st \<and> tx_stat demo_pending = TxPending \<and>
        replaces_soundly replace_env (new_tx_manager 1 FeeModeEIP1559) demo_pending s) []
      (snd (replace replace_env (new_tx_manager 1 FeeModeEIP1559) ''r1'' (Some demo_signer) 20
        (demo_world\<lparr>w_txs := [(''r1'', demo_pending)]\<rparr>)))"
    by (simp add: demo_world_def)
  ultimately show ?thesis unfolding Let_def by blast
qed

theorem concurrent_replacements_send_once_witness:
  "let w = demo_world\<lparr>w_txs := [(''r1'', demo_pending)]\<rparr>; m = new_tx_manager 1 FeeModeEIP1559;
       w1 = snd (replace_send replace_env m demo_pending 0 demo_original ''0xa'' w);
       w2 = snd (replace_send replace_env m demo_pending 0 demo_original ''0xb'' w1)
   in length (w_sent w1) = 1 \<and> length (w_sent w2) \<le> 1"
proof -
  have "length (w_sent (snd (replace_send replace_env (new_tx_manager 1 FeeModeEIP1559) demo_pending 0
      demo_original ''0xa'' (demo_world\<lparr>w_txs := [(''r1'', demo_pending)]\<rparr>)))) = 1"
    by (simp add: replace_eval)
  with concurrent_replacements_send_once [OF replace_env_ok(1,3), where w = "demo_world\<lparr>w_txs := [(''r1'', demo_pending)]\<rparr>"]
  show ?thesis unfolding Let_def by (simp add: demo_world_def)
qed

end
