(* ===== verification/TxRefresh.thy ===== *)
theory TxRefresh
  imports TxReplace
begin

text \<open>
  \<^verbatim>\<open>RefreshStatuses\<close> of server/internal/blockchain/txmanager.go and everything it calls: repairing
  replacement links, and re-evaluating each non-final record against its receipt. A record the Go
  code mutates in place and then writes is here the updated record.
\<close>

section \<open>Definitions\<close>

definition post_confirmation_reorg_window :: u64 where
  "post_confirmation_reorg_window = 256"

definition is_final :: "transaction \<Rightarrow> u64 \<Rightarrow> u64 \<Rightarrow> bool" where
  "is_final t current confirmations =
     (case tx_stat t of
        TxReplaced \<Rightarrow> True
      | TxFailed \<Rightarrow> True
      | TxConfirmed \<Rightarrow> current \<ge> tx_block_number t + confirmations + post_confirmation_reorg_window
      | _ \<Rightarrow> False)"

definition nonce_consumed_externally :: "tx_env \<Rightarrow> transaction \<Rightarrow> bool txm" where
  "nonce_consumed_externally e t =
     bindM (rpc e ''NonceAt'' (\<lambda>i. te_nonce_at e i (te_hex_addr e (tx_from t)))) (\<lambda>latest.
     ret (latest > tx_nonce t))"

definition set_status :: "tx_env \<Rightarrow> transaction \<Rightarrow> tx_status \<Rightarrow> unit txm" where
  "set_status e t s =
     bindM (clock e) (\<lambda>now.
     or_fail (store_write e (put_tx tx_update (t\<lparr>tx_stat := s, tx_updated_at := now\<rparr>))))"

definition mark_nonce_consumed_externally :: "tx_env \<Rightarrow> transaction \<Rightarrow> unit txm" where
  "mark_nonce_consumed_externally e t =
     (if tx_stat t = TxNonceConsumedExternally then ret () else set_status e t TxNonceConsumedExternally)"

definition mark_reorged :: "tx_env \<Rightarrow> transaction \<Rightarrow> unit txm" where
  "mark_reorged e t = (if tx_stat t = TxReorged then ret () else set_status e t TxReorged)"

definition rebroadcast_unknown :: "tx_env \<Rightarrow> transaction \<Rightarrow> unit txm" where
  "rebroadcast_unknown e t =
     bindM (liftE (decode_signed_tx e (tx_signed_raw t))) (\<lambda>s.
     bindM (send_raw e s) (\<lambda>_. ret ()))"

definition handle_missing_receipt :: "tx_env \<Rightarrow> transaction \<Rightarrow> unit txm" where
  "handle_missing_receipt e t =
     (if tx_stat t = TxBroadcastUnknown \<or> tx_stat t = TxPending then
        bindM (nonce_consumed_externally e t) (\<lambda>consumed.
        if consumed then mark_nonce_consumed_externally e t
        else if tx_stat t = TxBroadcastUnknown then rebroadcast_unknown e t
        else ret ())
      else if tx_stat t = TxMined \<or> tx_stat t = TxConfirmed \<or> tx_stat t = TxReverted \<or> tx_stat t = TxReorged
        then mark_reorged e t
      else ret ())"

definition is_canonical_block :: "tx_env \<Rightarrow> u64 \<Rightarrow> string \<Rightarrow> bool txm" where
  "is_canonical_block e number want_hash =
     bindM (rpc_try e (\<lambda>i. te_header_hash e i number)) (\<lambda>r.
     case r of
       Inl x \<Rightarrow> if x = RpcNotFound then ret False else raise (ErrRpc ''HeaderByNumber'')
     | Inr h \<Rightarrow> ret (h = want_hash))"

definition receipt_status :: "receipt \<Rightarrow> u64 \<Rightarrow> u64 \<Rightarrow> tx_status" where
  "receipt_status rc current confirmations =
     (if rc_failed rc then TxReverted
      else if current \<ge> rc_block_number rc + confirmations then TxConfirmed
      else TxMined)"

definition apply_receipt :: "tx_env \<Rightarrow> transaction \<Rightarrow> receipt \<Rightarrow> u64 \<Rightarrow> u64 \<Rightarrow> unit txm" where
  "apply_receipt e t rc current confirmations =
     (let new_status = receipt_status rc current confirmations;
          block_hash = (case rc_block_hash rc of None \<Rightarrow> te_zero_hash_hex e | Some h \<Rightarrow> h)
      in if new_status \<noteq> tx_stat t \<or> tx_block_number t \<noteq> rc_block_number rc \<or> tx_block_hash t \<noteq> block_hash
         then bindM (clock e) (\<lambda>now.
           or_fail (store_write e (put_tx tx_update
             (t\<lparr>tx_stat := new_status, tx_block_number := rc_block_number rc, tx_block_hash := block_hash,
                tx_updated_at := now\<rparr>))))
         else ret ())"

definition handle_receipt :: "tx_env \<Rightarrow> transaction \<Rightarrow> receipt \<Rightarrow> u64 \<Rightarrow> u64 \<Rightarrow> unit txm" where
  "handle_receipt e t rc current confirmations =
     (case rc_block_hash rc of
        None \<Rightarrow> apply_receipt e t rc current confirmations
      | Some h \<Rightarrow>
          bindM (is_canonical_block e (rc_block_number rc) h) (\<lambda>canonical.
          if \<not> canonical then mark_reorged e t
          else apply_receipt e t rc current confirmations))"

definition refresh_one :: "tx_env \<Rightarrow> transaction \<Rightarrow> u64 \<Rightarrow> u64 \<Rightarrow> unit txm" where
  "refresh_one e t current confirmations =
     bindM (rpc_try e (\<lambda>i. te_receipt e i (tx_hash t))) (\<lambda>r.
     case r of
       Inl x \<Rightarrow> if x = RpcNotFound then handle_missing_receipt e t else raise (ErrRpc ''TransactionReceipt'')
     | Inr rc \<Rightarrow> handle_receipt e t rc current confirmations)"

definition reconcile_one :: "tx_env \<Rightarrow> transaction \<Rightarrow> unit txm" where
  "reconcile_one e t =
     (if tx_stat t = TxFailed then ret ()
      else
        bindM (store_read e (tx_get (tx_replaces t))) (\<lambda>g.
        case g of
          Inl x \<Rightarrow> if x = ErrNotFound then ret () else raise (ErrStore x)
        | Inr original \<Rightarrow>
            if tx_stat original = TxReplaced then ret ()
            else
              bindM (clock e) (\<lambda>now.
              or_fail (store_write e (put_tx tx_update
                (original\<lparr>tx_stat := TxReplaced, tx_replaced_by := tx_id t, tx_updated_at := now\<rparr>))))))"

definition reconcile_replacements :: "tx_env \<Rightarrow> unit txm" where
  "reconcile_replacements e =
     bindM (or_fail (store_read e (\<lambda>st. Inr (tx_list_replacements st)))) (\<lambda>all.
     forM all (reconcile_one e))"

definition refresh_listed :: "tx_env \<Rightarrow> u64 \<Rightarrow> u64 \<Rightarrow> transaction \<Rightarrow> unit txm" where
  "refresh_listed e current confirmations t =
     (if is_event_derived t then ret ()
      else if is_final t current confirmations then ret ()
      else refresh_one e t current confirmations)"

definition refresh_statuses :: "tx_env \<Rightarrow> u64 \<Rightarrow> unit txm" where
  "refresh_statuses e confirmations =
     bindM (reconcile_replacements e) (\<lambda>_.
     bindM (rpc e ''BlockNumber'' (te_block_number e)) (\<lambda>current.
     let cutoff = confirmations + post_confirmation_reorg_window;
         confirmed_from = (if current > cutoff then current - cutoff else 0)
     in bindM (or_fail (store_read e (\<lambda>st. Inr (tx_list_unfinalized confirmed_from st)))) (\<lambda>all.
     forM all (refresh_listed e current confirmations))))"

section \<open>Single steps\<close>

definition txs_is :: "tx_store \<Rightarrow> tx_world \<Rightarrow> bool" where
  "txs_is st w \<longleftrightarrow> w_txs w = st"

lemma calm_txs_is [triple_intros]: "quiet e \<Longrightarrow> calm e (txs_is st)"
  by (simp add: calm_def txs_is_def quiet_def others_def)

lemma keeps_send_txs [triple_intros]: "quiet e \<Longrightarrow> keeps (txs_is st) (send_raw e s)"
  by (simp add: keeps_def txs_is_def quiet_def others_def send_raw_def Let_def)

lemma read_txs_is:
  "txs_is st w \<Longrightarrow> quiet e \<Longrightarrow> store_read e f w = (Inr r, w') \<Longrightarrow>
    r = f st \<or> te_fault e (w_tick w) \<noteq> NoFault \<and> r = Inl ErrStoreFault"
  by (auto simp: store_read_def txs_is_def quiet_def others_def Let_def split: if_splits)

lemma update_txs_is:
  assumes "quiet e" and "\<And>r w. w_txs w = st \<Longrightarrow> \<exists>i. te_fault e i \<noteq> NoFault \<or> lookup st (tx_id t) = None \<Longrightarrow> Q r w"
    and "\<And>r w. w_txs w = put (tx_id t) t st \<Longrightarrow> (\<forall>i. te_fault e i = NoFault) \<longrightarrow> r = Inr () \<Longrightarrow> Q r w"
  shows "triple (txs_is st) (or_fail (store_write e (put_tx tx_update t))) Q"
proof (rule tripleI)
  fix w assume "txs_is st w"
  then have st: "w_txs (others e w) = st" using assms(1) by (simp add: txs_is_def quiet_def others_def)
  show "Q (fst (or_fail (store_write e (put_tx tx_update t)) w)) (snd (or_fail (store_write e (put_tx tx_update t)) w))"
    using assms(2,3) st
    by (cases "te_fault e (w_tick w)"; cases "lookup st (tx_id t)")
      (force simp: or_fail_def bindM_def ret_def raise_def store_write_def put_tx_def tx_update_def Let_def)+
qed

text \<open>The statuses one look at the chain can give a record.\<close>

inductive status_step :: "tx_status \<Rightarrow> tx_status \<Rightarrow> bool" where
  observed: "s \<noteq> TxReplaced \<Longrightarrow> s \<noteq> TxFailed \<Longrightarrow> t = TxMined \<or> t = TxReverted \<or> t = TxConfirmed \<Longrightarrow> status_step s t"
| dropped: "s \<noteq> TxReplaced \<Longrightarrow> s \<noteq> TxFailed \<Longrightarrow> status_step s TxReorged"
| consumed: "s = TxBroadcastUnknown \<or> s = TxPending \<Longrightarrow> status_step s TxNonceConsumedExternally"

inductive_simps status_step_from: "status_step s t"

definition refreshed :: "u64 \<Rightarrow> u64 \<Rightarrow> transaction \<Rightarrow> transaction \<Rightarrow> bool" where
  "refreshed current confirmations r r' \<longleftrightarrow> r' = r \<or>
     \<not> is_event_derived r \<and> \<not> is_final r current confirmations \<and> status_step (tx_stat r) (tx_stat r') \<and>
     (\<exists>s n h u. r' = r\<lparr>tx_stat := s, tx_block_number := n, tx_block_hash := h, tx_updated_at := u\<rparr>)"

definition refresh_effect :: "u64 \<Rightarrow> u64 \<Rightarrow> transaction \<Rightarrow> tx_store \<Rightarrow> tx_world \<Rightarrow> bool" where
  "refresh_effect current confirmations t st w \<longleftrightarrow>
     w_txs w = st \<or> (\<exists>t'. refreshed current confirmations t t' \<and> w_txs w = put (tx_id t) t' st)"

lemma refresh_effect_same: "txs_is st w \<Longrightarrow> refresh_effect current confirmations t st w"
  by (simp add: refresh_effect_def txs_is_def)

lemma refreshedI:
  assumes "\<not> is_event_derived r" and "\<not> is_final r current confirmations" and "status_step (tx_stat r) s"
  shows "refreshed current confirmations r
    (r\<lparr>tx_stat := s, tx_block_number := n, tx_block_hash := h, tx_updated_at := u\<rparr>)"
  unfolding refreshed_def
  by (intro disjI2 conjI exI [of _ s] exI [of _ n] exI [of _ h] exI [of _ u] refl) (simp_all add: assms)

lemma refreshed_status:
  assumes "\<not> is_event_derived r" and "\<not> is_final r current confirmations" and "status_step (tx_stat r) s"
  shows "refreshed current confirmations r (r\<lparr>tx_stat := s, tx_updated_at := u\<rparr>)"
  using refreshedI [OF assms, where n = "tx_block_number r" and h = "tx_block_hash r" and u = u] by simp

text \<open>A record under re-evaluation: not final, not event-derived.\<close>

definition refreshable :: "u64 \<Rightarrow> u64 \<Rightarrow> transaction \<Rightarrow> bool" where
  "refreshable current confirmations t \<longleftrightarrow> \<not> is_event_derived t \<and> \<not> is_final t current confirmations"

lemma refreshable_live: "refreshable current confirmations t \<Longrightarrow> tx_stat t \<noteq> TxReplaced \<and> tx_stat t \<noteq> TxFailed"
  by (auto simp: refreshable_def is_final_def)

lemma write_effect:
  assumes "quiet e" and "refreshed current confirmations t t'" and "tx_id t' = tx_id t"
  shows "triple (txs_is st) (or_fail (store_write e (put_tx tx_update t'))) (\<lambda>_. refresh_effect current confirmations t st)"
  using assms(2,3) by (intro update_txs_is [OF assms(1)]) (auto simp: refresh_effect_def)

lemma set_status_effect:
  assumes "quiet e" and "refreshable current confirmations t" and "status_step (tx_stat t) s"
  shows "triple (txs_is st) (set_status e t s) (\<lambda>_. refresh_effect current confirmations t st)"
  unfolding set_status_def
  using assms refresh_effect_same
  by (intro triple_bind_keeps' [OF keeps_clock(1)] write_effect refreshed_status) (auto simp: refreshable_def)

lemma mark_reorged_effect:
  assumes "quiet e" and "refreshable current confirmations t"
  shows "triple (txs_is st) (mark_reorged e t) (\<lambda>_. refresh_effect current confirmations t st)"
  unfolding mark_reorged_def using assms refreshable_live [OF assms(2)] refresh_effect_same
  by (auto intro!: triple_ret set_status_effect status_step.dropped)

lemma missing_receipt_effect:
  assumes "quiet e" and "refreshable current confirmations t"
  shows "triple (txs_is st) (handle_missing_receipt e t) (\<lambda>_. refresh_effect current confirmations t st)"
proof -
  have consumed: "triple (txs_is st) (bindM (nonce_consumed_externally e t) (\<lambda>consumed.
        if consumed then mark_nonce_consumed_externally e t
        else if tx_stat t = TxBroadcastUnknown then rebroadcast_unknown e t
        else ret ())) (\<lambda>_. refresh_effect current confirmations t st)"
    if live: "tx_stat t = TxBroadcastUnknown \<or> tx_stat t = TxPending"
  proof (rule triple_bind_keeps', goal_cases)
    case 1
    show ?case unfolding nonce_consumed_externally_def using assms(1) by (intro triple_intros)
  next
    case (2 c)
    have resend: "triple (txs_is st) (rebroadcast_unknown e t) (\<lambda>_. refresh_effect current confirmations t st)"
      unfolding rebroadcast_unknown_def using assms(1)
      by (intro triple_bind_keeps' triple_intros triple_ret refresh_effect_same) 
    show ?case
      unfolding mark_nonce_consumed_externally_def
      using live assms resend
      by (auto intro!: set_status_effect status_step.consumed triple_ret refresh_effect_same)
  next
    case (3 x w)
    then show ?case by (rule refresh_effect_same)
  qed
  show ?thesis
    unfolding handle_missing_receipt_def
    using mark_reorged_effect [OF assms] consumed by (auto intro!: triple_ret refresh_effect_same)
qed

lemma receipt_status_step:
  "s \<noteq> TxReplaced \<Longrightarrow> s \<noteq> TxFailed \<Longrightarrow> status_step s (receipt_status rc current confirmations)"
  by (rule status_step.observed) (simp_all add: receipt_status_def)

lemma apply_receipt_effect:
  assumes "quiet e" and "refreshable current confirmations t"
  shows "triple (txs_is st) (apply_receipt e t rc current confirmations) (\<lambda>_. refresh_effect current confirmations t st)"
  unfolding apply_receipt_def Let_def
  using assms refreshable_live [OF assms(2)]
  by (auto simp: refreshable_def intro!: triple_ret refresh_effect_same triple_bind_keeps' [OF keeps_clock(1)]
      write_effect refreshedI receipt_status_step)

lemma handle_receipt_effect:
  assumes "quiet e" and "refreshable current confirmations t"
  shows "triple (txs_is st) (handle_receipt e t rc current confirmations) (\<lambda>_. refresh_effect current confirmations t st)"
proof -
  have "keeps (txs_is st) (is_canonical_block e n h)" for n h
    unfolding is_canonical_block_def using assms(1) by (intro triple_intros)
  then show ?thesis
    unfolding handle_receipt_def
    using mark_reorged_effect [OF assms] apply_receipt_effect [OF assms]
    by (auto split: option.split intro!: triple_bind_keeps' refresh_effect_same)
qed

lemma refresh_listed_effect:
  assumes "quiet e"
  shows "triple (txs_is st) (refresh_listed e current confirmations t) (\<lambda>_. refresh_effect current confirmations t st)"
proof -
  have "triple (txs_is st) (refresh_one e t current confirmations) (\<lambda>_. refresh_effect current confirmations t st)"
    if "refreshable current confirmations t"
    unfolding refresh_one_def
    using missing_receipt_effect [OF assms that] handle_receipt_effect [OF assms that] assms
    by (auto split: sum.split intro!: triple_bind_keeps' [OF keeps_calm(2)] triple_raise refresh_effect_same triple_intros)
  then show ?thesis
    unfolding refresh_listed_def by (auto simp: refreshable_def intro!: triple_ret refresh_effect_same)
qed

section \<open>Repairing links\<close>

definition link_original :: "gotime \<Rightarrow> transaction \<Rightarrow> tx_store \<Rightarrow> tx_store" where
  "link_original now t st =
     (if tx_stat t = TxFailed then st
      else case lookup st (tx_replaces t) of
        None \<Rightarrow> st
      | Some r \<Rightarrow>
          if tx_stat r = TxReplaced then st
          else put (tx_id r) (r\<lparr>tx_stat := TxReplaced, tx_replaced_by := tx_id t, tx_updated_at := now\<rparr>) st)"

lemma reconcile_one_effect:
  assumes "quiet e" and "wf_txs st"
  shows "triple (txs_is st) (reconcile_one e t) (\<lambda>r w. (w_txs w = st \<or> (\<exists>now. w_txs w = link_original now t st)) \<and>
       ((\<forall>i. te_fault e i = NoFault) \<longrightarrow> r = Inr () \<and> (\<exists>now. w_txs w = link_original now t st)))"
  (is "triple _ _ ?Q")
proof (cases "tx_stat t = TxFailed")
  case True
  then show ?thesis by (auto simp: reconcile_one_def link_original_def txs_is_def intro!: triple_ret)
next
  case False
  note calm = calm_txs_is [OF assms(1)]
  have wr: "triple (txs_is st) (bindM (clock e) (\<lambda>now. or_fail (store_write e (put_tx tx_update
      (r\<lparr>tx_stat := TxReplaced, tx_replaced_by := tx_id t, tx_updated_at := now\<rparr>))))) ?Q"
    if r: "lookup st (tx_replaces t) = Some r" "tx_stat r \<noteq> TxReplaced" for r
  proof (rule triple_bind [where R = "\<lambda>_. txs_is st"], goal_cases)
    case 1
    show ?case by (simp add: triple_def clock_def getM_def)
  next
    case (2 now)
    have "tx_id r = tx_replaces t" using assms(2) r(1) by (rule wf_store_lookup)
    then show ?case
      using r False by (intro update_txs_is [OF assms(1)]) (auto simp: link_original_def)
  qed
  have read: "triple (txs_is st) (store_read e (tx_get (tx_replaces t)))
      (\<lambda>g w. txs_is st w \<and> (g = Inr (tx_get (tx_replaces t) st) \<or>
         g = Inr (Inl ErrStoreFault) \<and> (\<exists>i. te_fault e i \<noteq> NoFault)))"
    using assms(1) by (intro tripleI) (auto simp: store_read_def txs_is_def quiet_def others_def Let_def)
  show ?thesis
    unfolding reconcile_one_def
  proof (simp add: False, rule triple_bind [where R = "\<lambda>g w. txs_is st w \<and> (g = tx_get (tx_replaces t) st \<or>
         g = Inl ErrStoreFault \<and> (\<exists>i. te_fault e i \<noteq> NoFault))"], goal_cases)
    case 1
    show ?case by (rule triple_conseq [OF read]) (auto split: sum.split)
  next
    case (2 g)
    show ?case
    proof (cases "lookup st (tx_replaces t)")
      case None
      then show ?thesis
        using False by (cases g) (auto simp: tx_get_def link_original_def txs_is_def triple_def ret_def raise_def)
    next
      case (Some r)
      then show ?thesis
        using wr [OF Some] False
        by (cases g; cases "tx_stat r = TxReplaced")
          (auto simp: tx_get_def link_original_def txs_is_def triple_def ret_def raise_def)
    qed
  qed
qed

section \<open>Whole passes\<close>

text \<open>Pointwise relations between stores with the same keys.\<close>

definition stores_rel :: "(transaction \<Rightarrow> transaction \<Rightarrow> bool) \<Rightarrow> tx_store \<Rightarrow> tx_store \<Rightarrow> bool" where
  "stores_rel R st st' \<longleftrightarrow> wf_txs st' \<and> (\<forall>k. rel_option R (lookup st k) (lookup st' k))"

definition relinked :: "tx_store \<Rightarrow> transaction \<Rightarrow> transaction \<Rightarrow> bool" where
  "relinked st r r' \<longleftrightarrow> r' = r \<or> tx_stat r \<noteq> TxReplaced \<and>
     (\<exists>t \<in> set (vals st). tx_replaces t = tx_id r \<and> tx_stat t \<noteq> TxFailed \<and>
       (\<exists>now. r' = r\<lparr>tx_stat := TxReplaced, tx_replaced_by := tx_id t, tx_updated_at := now\<rparr>))"

lemma relinked_id: "relinked st r r' \<Longrightarrow> tx_id r' = tx_id r"
  by (auto simp: relinked_def)

lemma stores_rel_refl: "wf_txs st \<Longrightarrow> (\<And>r. R r r) \<Longrightarrow> stores_rel R st st"
  by (auto simp: stores_rel_def option.rel_refl)

lemma stores_rel_put:
  assumes "stores_rel R st st'" and "lookup st k = Some r" and "tx_id r' = k" and "R r r'"
  shows "stores_rel R st (put k r' st')"
  using assms by (auto simp: stores_rel_def lookup_put wf_store_put)

lemma stores_relD:
  "stores_rel R st st' \<Longrightarrow> lookup st' k = Some r' \<Longrightarrow> \<exists>r. lookup st k = Some r \<and> R r r'"
  unfolding stores_rel_def by (metis option.rel_cases option.distinct(1) option.inject)

lemma link_relinked:
  assumes "wf_txs st" and "t \<in> set (vals st)" and "stores_rel (relinked st) st st'"
  shows "stores_rel (relinked st) st (link_original now t st')"
proof (cases "lookup st' (tx_replaces t)")
  case None
  with assms(3) show ?thesis by (simp add: link_original_def)
next
  case (Some r')
  obtain r where r: "lookup st (tx_replaces t) = Some r" "relinked st r r'"
    using stores_relD [OF assms(3) Some] by blast
  have id: "tx_id r = tx_replaces t" using assms(1) r(1) by (rule wf_store_lookup)
  show ?thesis
  proof (cases "tx_stat t = TxFailed \<or> tx_stat r' = TxReplaced")
    case True
    with Some assms(3) show ?thesis by (auto simp: link_original_def)
  next
    case False
    then have r': "r' = r" using r(2) by (auto simp: relinked_def)
    have "relinked st r (r\<lparr>tx_stat := TxReplaced, tx_replaced_by := tx_id t, tx_updated_at := now\<rparr>)"
      unfolding relinked_def using False assms(2) id r' by (intro disjI2 conjI bexI [of _ t] exI [of _ now]) simp_all
    then have "stores_rel (relinked st) st
        (put (tx_replaces t) (r\<lparr>tx_stat := TxReplaced, tx_replaced_by := tx_id t, tx_updated_at := now\<rparr>) st')"
      by (intro stores_rel_put [OF assms(3) r(1)]) (simp_all add: id)
    with Some False r' id show ?thesis by (simp add: link_original_def)
  qed
qed

definition links_ok :: "transaction \<Rightarrow> tx_store \<Rightarrow> bool" where
  "links_ok t st \<longleftrightarrow> tx_stat t \<noteq> TxFailed \<longrightarrow>
     (\<forall>r. lookup st (tx_replaces t) = Some r \<longrightarrow> tx_stat r = TxReplaced)"

lemma link_links: "wf_txs st \<Longrightarrow> links_ok t (link_original now t st)"
  by (auto simp: links_ok_def link_original_def lookup_put split: option.splits dest: wf_store_lookup)

lemma link_keeps_links: "links_ok u st \<Longrightarrow> links_ok u (link_original now t st)"
  by (auto simp: links_ok_def link_original_def lookup_put split: option.splits if_splits)

lemma reconcile_effect:
  assumes "quiet e" and "wf_txs st"
  shows "triple (txs_is st) (reconcile_replacements e) (\<lambda>r w. stores_rel (relinked st) st (w_txs w) \<and>
    ((\<forall>i. te_fault e i = NoFault) \<longrightarrow> r = Inr () \<and> (\<forall>t \<in> set (tx_list_replacements st). links_ok t (w_txs w))))"
proof -
  define nf where "nf \<longleftrightarrow> (\<forall>i. te_fault e i = NoFault)"
  let ?all = "tx_list_replacements st"
  define I :: "transaction list \<Rightarrow> tx_world \<Rightarrow> bool" where "I rest w \<longleftrightarrow> set rest \<subseteq> set ?all \<and> stores_rel (relinked st) st (w_txs w) \<and>
    (nf \<longrightarrow> (\<forall>t \<in> set ?all - set rest. links_ok t (w_txs w)))" for rest w
  let ?J = "\<lambda>w. stores_rel (relinked st) st (w_txs w) \<and> \<not> nf"
  have body: "triple (I (t # rest)) (reconcile_one e t) (\<lambda>r w. case r of Inl _ \<Rightarrow> ?J w | Inr _ \<Rightarrow> I rest w)" for t rest
  proof (rule tripleI)
    fix w assume I: "I (t # rest) w"
    obtain r w' where run: "reconcile_one e t w = (r, w')" by fastforce
    have st: "stores_rel (relinked st) st (w_txs w)" and t: "t \<in> set ?all" and wf: "wf_txs (w_txs w)"
      using I by (auto simp: I_def stores_rel_def)
    then have t': "t \<in> set (vals st)" by (simp add: tx_list_replacements_def set_tx_filter)
    note eff = tripleD [OF reconcile_one_effect [OF assms(1) wf] _ run, unfolded txs_is_def, OF refl]
    have "stores_rel (relinked st) st (w_txs w')"
      using eff link_relinked [OF assms(2) t' st] st by auto
    moreover have "r = Inr () \<and> (\<forall>u \<in> set ?all - set rest. links_ok u (w_txs w'))" if nf: nf
    proof -
      obtain now where now: "w_txs w' = link_original now t (w_txs w)" and "r = Inr ()"
        using eff nf [unfolded nf_def] by blast
      moreover have "links_ok u (link_original now t (w_txs w))" if "u \<in> set ?all - set rest" for u
        using I nf that link_links [OF wf] link_keeps_links by (cases "u = t") (auto simp: I_def)
      ultimately show ?thesis by simp
    qed
    ultimately have "case r of Inl _ \<Rightarrow> ?J w' | Inr _ \<Rightarrow> I rest w'"
      using I by (auto simp: I_def split: sum.split)
    then show "case fst (reconcile_one e t w) of Inl _ \<Rightarrow> ?J (snd (reconcile_one e t w))
        | Inr _ \<Rightarrow> I rest (snd (reconcile_one e t w))"
      unfolding run fst_conv snd_conv .
  qed
  have start: "I ?all w" if "txs_is st w" for w
    using that assms(2) by (simp add: I_def txs_is_def stores_rel_refl relinked_def)
  have read: "triple (txs_is st) (or_fail (store_read e (\<lambda>st. Inr (tx_list_replacements st))))
      (\<lambda>r w. txs_is st w \<and> (case r of Inl _ \<Rightarrow> \<not> nf | Inr x \<Rightarrow> x = ?all))"
    using assms(1) by (intro tripleI)
      (auto simp: or_fail_def bindM_def ret_def raise_def store_read_def txs_is_def quiet_def others_def Let_def nf_def)
  have loop: "triple (txs_is st) (forM ?all (reconcile_one e)) (\<lambda>r w. stores_rel (relinked st) st (w_txs w) \<and>
    (nf \<longrightarrow> r = Inr () \<and> (\<forall>t \<in> set ?all. links_ok t (w_txs w))))"
    by (rule triple_conseq [OF triple_forM [where I = I and J = ?J, OF body] start])
      (auto simp: I_def split: sum.splits)
  show ?thesis
    unfolding reconcile_replacements_def nf_def [symmetric]
  proof (rule triple_bind [where R = "\<lambda>x w. txs_is st w \<and> x = ?all"], goal_cases)
    case 1
    show ?case
      by (rule triple_conseq [OF read]) (auto split: sum.splits simp: txs_is_def assms(2) stores_rel_refl relinked_def)
  next
    case (2 x)
    show ?case using loop by (auto simp: triple_def)
  qed
qed

lemma refreshed_id: "refreshed current confirmations r r' \<Longrightarrow> tx_id r' = tx_id r"
  by (auto simp: refreshed_def)

lemma refresh_loop_effect:
  assumes "quiet e" and "wf_txs st" and "set all \<subseteq> set (vals st)" and "distinct (map tx_id all)"
  shows "triple (txs_is st) (forM all (refresh_listed e current confirmations))
    (\<lambda>_ w. stores_rel (refreshed current confirmations) st (w_txs w))"
proof -
  let ?R = "refreshed current confirmations"
  define I :: "transaction list \<Rightarrow> tx_world \<Rightarrow> bool" where "I rest w \<longleftrightarrow> stores_rel ?R st (w_txs w) \<and>
    distinct (map tx_id rest) \<and> (\<forall>t \<in> set rest. lookup st (tx_id t) = Some t)" for rest w
  have body: "triple (I (t # rest)) (refresh_listed e current confirmations t)
      (\<lambda>r w. case r of Inl _ \<Rightarrow> stores_rel ?R st (w_txs w) | Inr _ \<Rightarrow> I rest w)" for t rest
  proof (rule tripleI)
    fix w assume I: "I (t # rest) w"
    obtain r w' where run: "refresh_listed e current confirmations t w = (r, w')" by fastforce
    have "refresh_effect current confirmations t (w_txs w) w'"
      by (rule tripleD [OF refresh_listed_effect [OF assms(1)] _ run]) (simp add: txs_is_def)
    then have "stores_rel ?R st (w_txs w')"
      using I by (auto simp: I_def refresh_effect_def
          intro!: stores_rel_put [where k = "tx_id t" and r = t] elim: refreshed_id)
    then show "case fst (refresh_listed e current confirmations t w) of
        Inl _ \<Rightarrow> stores_rel ?R st (w_txs (snd (refresh_listed e current confirmations t w)))
      | Inr _ \<Rightarrow> I rest (snd (refresh_listed e current confirmations t w))"
      using I by (simp add: run I_def split: sum.split)
  qed
  have "I all w" if "txs_is st w" for w
    using assms that
    by (auto simp: I_def txs_is_def stores_rel_refl refreshed_def wf_store_vals [OF assms(2), symmetric])
  then show ?thesis
    by (intro triple_conseq [OF triple_forM [where I = I, OF body]]) (auto simp: I_def split: sum.splits)
qed

lemma filtered_ids: "wf_txs st \<Longrightarrow> distinct (map tx_id (tx_filter p st))"
proof -
  assume wf: "wf_txs st"
  then have "map tx_id (vals st) = map fst st" by (auto simp: wf_store_def)
  then have "distinct (map tx_id (vals st))" using wf unfolding wf_store_def by metis
  then have "distinct (map tx_id (tx_list st))"
    by (simp only: tx_list_def distinct_map [of tx_id] distinct_sort set_sort)
  then show ?thesis by (simp add: tx_filter_def distinct_map_filter)
qed

text \<open>What one pass may do to a record: leave it, link it to its replacement, or refresh it.\<close>

definition pass_rel :: "tx_store \<Rightarrow> u64 \<Rightarrow> u64 \<Rightarrow> transaction \<Rightarrow> transaction \<Rightarrow> bool" where
  "pass_rel st current confirmations r r' \<longleftrightarrow> relinked st r r' \<or> refreshed current confirmations r r'"

lemma pass_rel_trans:
  assumes "relinked st r q" and "refreshed current confirmations q r'"
  shows "pass_rel st current confirmations r r'"
proof (cases "q = r")
  case True
  with assms(2) show ?thesis by (simp add: pass_rel_def)
next
  case False
  then have "tx_stat q = TxReplaced" using assms(1) by (auto simp: relinked_def)
  then have "r' = q" using assms(2) by (simp add: refreshed_def is_final_def)
  with assms(1) show ?thesis by (simp add: pass_rel_def)
qed

lemma stores_rel_trans:
  assumes "stores_rel R st st'" and "stores_rel S st' st''" and "\<And>r q r'. R r q \<Longrightarrow> S q r' \<Longrightarrow> T r r'"
  shows "stores_rel T st st''"
  unfolding stores_rel_def
proof (intro conjI allI)
  show "wf_txs st''" using assms(2) by (simp add: stores_rel_def)
  fix k
  have "rel_option R (lookup st k) (lookup st' k)" "rel_option S (lookup st' k) (lookup st'' k)"
    using assms by (auto simp: stores_rel_def)
  then show "rel_option T (lookup st k) (lookup st'' k)"
    using assms(3) by (auto simp: option_rel_Some1 option_rel_Some2 elim!: option.rel_cases)
qed

text \<open>
  C6: one pass of RefreshStatuses, whichever calls to the node or the repository fail on the
  way, neither adds nor removes records and treats each of them in one of three ways: it leaves
  it exactly as it was; it links it, as Replaced, to a stored non-failed replacement of it; or,
  when the record is neither final nor event-derived, it changes its status along one allowed
  step, together with its block and time fields and nothing else (identity, nonce, hash and
  signed bytes survive).
\<close>

theorem refresh_life_cycle:
  assumes "quiet e" and "wf_txs (w_txs w)" and "\<forall>i b. te_block_number e i = Some b \<longrightarrow> b = current"
  shows "stores_rel (pass_rel (w_txs w) current confirmations) (w_txs w) (w_txs (snd (refresh_statuses e confirmations w)))"
proof -
  let ?st = "w_txs w"
  let ?Q = "\<lambda>w'. stores_rel (pass_rel ?st current confirmations) ?st (w_txs w')"
  define P where "P w' \<longleftrightarrow> stores_rel (relinked ?st) ?st (w_txs w')" for w' :: tx_world
  have calm: "calm e P" using assms(1) by (simp add: calm_def P_def quiet_def others_def)
  have err: "\<And>w'. P w' \<Longrightarrow> ?Q w'"
    unfolding P_def stores_rel_def pass_rel_def by (auto elim!: option.rel_mono_strong)
  have loop: "triple P (bindM (or_fail (store_read e (\<lambda>st. Inr (tx_list_unfinalized from st))))
      (\<lambda>all. forM all (refresh_listed e current confirmations))) (\<lambda>_. ?Q)" for "from"
  proof (rule triple_bind [where R = "\<lambda>x w'. P w' \<and> x = tx_list_unfinalized from (w_txs w')"], goal_cases)
    case 1
    show ?case
      using assms(1) err by (intro tripleI)
        (auto simp: or_fail_def bindM_def ret_def raise_def store_read_def quiet_def others_def Let_def P_def)
  next
    case (2 all)
    show ?case
    proof (rule tripleI, elim conjE)
      fix v assume P: "P v" and all: "all = tx_list_unfinalized from (w_txs v)"
      have wf: "wf_txs (w_txs v)" using P by (simp add: P_def stores_rel_def)
      have "triple (txs_is (w_txs v)) (forM all (refresh_listed e current confirmations))
          (\<lambda>_ w'. stores_rel (refreshed current confirmations) (w_txs v) (w_txs w'))"
        using assms(1) wf unfolding all tx_list_unfinalized_def
        by (intro refresh_loop_effect filtered_ids) (auto simp: set_tx_filter)
      then have "stores_rel (refreshed current confirmations) (w_txs v)
          (w_txs (snd (forM all (refresh_listed e current confirmations) v)))"
        by (simp add: triple_def txs_is_def)
      with P show "?Q (snd (forM all (refresh_listed e current confirmations) v))"
        unfolding P_def by (rule stores_rel_trans) (rule pass_rel_trans)
    qed
  qed
  have "triple (txs_is ?st) (refresh_statuses e confirmations) (\<lambda>_. ?Q)"
    unfolding refresh_statuses_def Let_def
  proof (rule triple_bind [where R = "\<lambda>_. P"], goal_cases)
    case 1
    show ?case
      by (rule triple_conseq [OF reconcile_effect [OF assms(1,2)]])
        (use err in \<open>auto simp: P_def split: sum.split\<close>)
  next
    case 2
    show ?case
    proof (rule triple_bind_keeps [where F = "\<lambda>c. c = current", OF keeps_calm(1) [OF calm] _ _ err], goal_cases)
      case (1 v x v')
      then show ?case using assms(3) by (auto simp: rpc_def split: option.splits)
    next
      case (2 c)
      then show ?case using loop by simp
    qed
  qed
  then show ?thesis by (simp add: triple_def txs_is_def)
qed

text \<open>
  When no call fails, a pass's repair of replacement links succeeds and leaves the original
  of every stored non-failed replacement marked Replaced, even if the process died between
  creating the replacement and linking it.
\<close>

theorem reconcile_links_all:
  assumes "quiet e" and "wf_txs (w_txs w)" and "\<forall>i. te_fault e i = NoFault"
  shows "\<exists>w'. reconcile_replacements e w = (Inr (), w') \<and>
    (\<forall>t \<in> set (vals (w_txs w)). \<forall>r. tx_stat t \<noteq> TxFailed \<longrightarrow> tx_replaces t \<noteq> [] \<longrightarrow>
       lookup (w_txs w') (tx_replaces t) = Some r \<longrightarrow> tx_stat r = TxReplaced)"
proof -
  obtain r w' where run: "reconcile_replacements e w = (r, w')" by fastforce
  have "r = Inr () \<and> (\<forall>t \<in> set (tx_list_replacements (w_txs w)). links_ok t (w_txs w'))"
    using tripleD [OF reconcile_effect [OF assms(1,2)] _ run] assms(3) by (simp add: txs_is_def)
  moreover have "t \<in> set (tx_list_replacements (w_txs w))" if "t \<in> set (vals (w_txs w))" "tx_replaces t \<noteq> []" for t
    using that by (simp add: tx_list_replacements_def set_tx_filter)
  ultimately show ?thesis
    using run unfolding links_ok_def by blast
qed

section \<open>What a pass sends\<close>

definition sent_only :: "(signed_tx \<Rightarrow> bool) \<Rightarrow> (signed_tx \<times> tx_store) list \<Rightarrow> tx_world \<Rightarrow> bool" where
  "sent_only G xs w \<longleftrightarrow> (\<exists>ys. w_sent w = xs @ ys \<and> (\<forall>p \<in> set ys. G (fst p)))"

lemma calm_sent_only [triple_intros]: "calm e (sent_only G xs)"
  by (simp add: calm_def sent_only_def)

lemma keeps_write_sent_only [triple_intros]: "keeps (sent_only G xs) (store_write e p)"
  by (simp add: keeps_def sent_only_def store_write_def Let_def split: fault.split sum.split)

lemma keeps_send_sent_only: "G s \<Longrightarrow> keeps (sent_only G xs) (send_raw e s)"
  by (fastforce simp: keeps_def sent_only_def send_raw_def Let_def)

lemma keeps_set_status [triple_intros]: "keeps (sent_only G xs) (set_status e t s)"
  unfolding set_status_def by (intro triple_intros)

lemma keeps_mark_reorged [triple_intros]: "keeps (sent_only G xs) (mark_reorged e t)"
  unfolding mark_reorged_def by (intro triple_intros)

lemma keeps_refresh_listed_sent:
  assumes "\<And>s. tx_stat t = TxBroadcastUnknown \<Longrightarrow> \<not> is_event_derived t \<Longrightarrow>
      decode_signed_tx e (tx_signed_raw t) = Inr s \<Longrightarrow> G s"
  shows "keeps (sent_only G xs) (refresh_listed e current confirmations t)"
proof -
  have resend: "keeps (sent_only G xs) (rebroadcast_unknown e t)"
    if "tx_stat t = TxBroadcastUnknown" "\<not> is_event_derived t"
  proof (cases "decode_signed_tx e (tx_signed_raw t)")
    case (Inl x)
    then show ?thesis by (simp add: rebroadcast_unknown_def keeps_def bindM_def liftE_def)
  next
    case (Inr s)
    have "keeps (sent_only G xs) (bindM (send_raw e s) (\<lambda>_. ret ()))"
      by (intro triple_intros keeps_send_sent_only assms that Inr)
    then show ?thesis by (simp add: rebroadcast_unknown_def keeps_def bindM_def liftE_def Inr)
  qed
  have missing: "keeps (sent_only G xs) (handle_missing_receipt e t)" if "\<not> is_event_derived t"
  proof -
    have "keeps (sent_only G xs) (if c then mark_nonce_consumed_externally e t
        else if tx_stat t = TxBroadcastUnknown then rebroadcast_unknown e t else ret ())" for c
      using resend that by (auto simp: mark_nonce_consumed_externally_def intro!: triple_intros)
    then have "keeps (sent_only G xs) (bindM (nonce_consumed_externally e t) (\<lambda>c.
        if c then mark_nonce_consumed_externally e t
        else if tx_stat t = TxBroadcastUnknown then rebroadcast_unknown e t else ret ()))"
      by (rule keeps_bind [rotated]) (unfold nonce_consumed_externally_def, intro triple_intros)
    then show ?thesis
      unfolding handle_missing_receipt_def
      by (intro keeps_if keeps_ret keeps_mark_reorged)
  qed
  have receipt: "keeps (sent_only G xs) (handle_receipt e t rc current confirmations)" for rc
    unfolding handle_receipt_def apply_receipt_def is_canonical_block_def Let_def by (intro triple_intros)
  show ?thesis
    unfolding refresh_listed_def refresh_one_def
    using missing receipt by (auto intro!: triple_intros)
qed

text \<open>
  all a pass of RefreshStatuses sends are transactions whose bytes were already stored, in
  a record of unknown broadcast outcome that a Submit or Replace wrote: never a new signature
  or nonce. Any call may fail on the way.
\<close>

theorem refresh_resends_stored_bytes:
  assumes "quiet e" and "wf_txs (w_txs w)"
  shows "sent_only (\<lambda>s. \<exists>r \<in> set (vals (w_txs w)). tx_stat r = TxBroadcastUnknown \<and> \<not> is_event_derived r \<and>
      decode_signed_tx e (tx_signed_raw r) = Inr s) (w_sent w) (snd (refresh_statuses e confirmations w))"
proof -
  let ?st = "w_txs w"
  let ?G = "\<lambda>s. \<exists>r \<in> set (vals ?st). tx_stat r = TxBroadcastUnknown \<and> \<not> is_event_derived r \<and>
      decode_signed_tx e (tx_signed_raw r) = Inr s"
  let ?Q = "sent_only ?G (w_sent w)"
  define P where "P v \<longleftrightarrow> ?Q v \<and> stores_rel (relinked ?st) ?st (w_txs v)" for v :: tx_world
  have calm: "calm e P" using assms(1) by (auto simp: calm_def P_def sent_only_def quiet_def others_def)
  have rec: "keeps ?Q (reconcile_replacements e)"
    unfolding reconcile_replacements_def reconcile_one_def by (intro triple_intros)
  have loop: "triple P (bindM (or_fail (store_read e (\<lambda>st. Inr (tx_list_unfinalized from st))))
      (\<lambda>all. forM all (refresh_listed e c confirmations))) (\<lambda>_. ?Q)" for "from" c
  proof (rule triple_bind_keeps [where F = "\<lambda>all. \<forall>t \<in> set all. tx_stat t \<noteq> TxReplaced \<longrightarrow> t \<in> set (vals ?st)"
        and P = P, OF keeps_or_fail [OF keeps_calm(3) [OF calm]]], goal_cases)
    case (1 v all v')
    then have "all = tx_list_unfinalized from (w_txs v)"
      using assms(1) by (intro store_read_ok_value [where xs = "w_sent v", OF _ assms(1)]) (auto simp: same_txs_def)
    moreover have "t \<in> set (vals ?st)" if "t \<in> set (vals (w_txs v))" "tx_stat t \<noteq> TxReplaced" for t
    proof -
      have wf: "wf_txs (w_txs v)" using 1(1) by (simp add: P_def stores_rel_def)
      have "lookup (w_txs v) (tx_id t) = Some t" using wf_store_vals [OF wf] that(1) by simp
      then obtain r where "lookup ?st (tx_id t) = Some r" "relinked ?st r t"
        using 1(1) by (auto simp: P_def dest: stores_relD)
      then have "lookup ?st (tx_id t) = Some t" using that(2) by (auto simp: relinked_def)
      then show ?thesis using wf_store_vals [OF assms(2)] by simp
    qed
    ultimately show ?case by (auto simp: tx_list_unfinalized_def set_tx_filter)
  next
    case (2 all)
    have "keeps ?Q (forM all (refresh_listed e c confirmations))"
      using 2 by (intro keeps_forM keeps_refresh_listed_sent) auto
    from this [unfolded keeps_triple] show ?case by (rule triple_conseq) (simp_all add: P_def)
  next
    case (3 x v)
    then show ?case by (simp add: P_def)
  qed
  have "triple (\<lambda>v. v = w) (refresh_statuses e confirmations) (\<lambda>_. ?Q)"
    unfolding refresh_statuses_def Let_def
  proof (rule triple_bind [where R = "\<lambda>_. P"], goal_cases)
    case 1
    have "?Q w" by (auto simp: sent_only_def)
    then have "P (snd (reconcile_replacements e w))"
      using rec reconcile_effect [OF assms]
      by (auto simp: P_def keeps_def triple_def txs_is_def)
    then show ?case by (auto simp: triple_def P_def split: sum.split)
  next
    case 2
    show ?case
      by (rule triple_bind_keeps' [where P = P and Q = "\<lambda>_. ?Q", OF keeps_calm(1) [OF calm] loop]) (simp add: P_def)
  qed
  then show ?thesis by (simp add: triple_def)
qed

section \<open>Applied\<close>

definition stuck_world :: tx_world where
  "stuck_world = demo_world\<lparr>w_txs :=
     [(''r1'', demo_pending), (''r2'', demo_pending\<lparr>tx_id := ''r2'', tx_replaces := ''r1'', tx_stat := TxBroadcastUnknown\<rparr>)]\<rparr>"

lemma stuck_world_ok: "wf_txs (w_txs stuck_world)"
  by (simp add: stuck_world_def wf_store_def demo_defs demo_pending_def)

lemmas refresh_eval = refresh_statuses_def reconcile_replacements_def reconcile_one_def
  refresh_listed_def refresh_one_def handle_missing_receipt_def nonce_consumed_externally_def
  rebroadcast_unknown_def is_final_def tx_list_replacements_def tx_list_unfinalized_def
  is_event_derived_def event_derived_prefix_def stuck_world_def replace_eval
  post_confirmation_reorg_window_def

theorem refresh_resends_stored_bytes_witness:
  "let w' = snd (refresh_statuses replace_env 12 stuck_world)
   in map fst (w_sent w') = [demo_original] \<and>
      sent_only (\<lambda>s. \<exists>r \<in> set (vals (w_txs stuck_world)). tx_stat r = TxBroadcastUnknown \<and>
        \<not> is_event_derived r \<and> decode_signed_tx replace_env (tx_signed_raw r) = Inr s) [] w'"
proof -
  have "map fst (w_sent (snd (refresh_statuses replace_env 12 stuck_world))) = [demo_original]"
    by (simp add: refresh_eval)
  then show ?thesis
    using refresh_resends_stored_bytes [OF replace_env_ok(1) stuck_world_ok, of 12]
    unfolding Let_def by (simp add: stuck_world_def demo_world_def)
qed

theorem refresh_life_cycle_witness:
  "let w' = snd (refresh_statuses replace_env 12 stuck_world)
   in map (\<lambda>t. (tx_stat t, tx_replaced_by t)) (vals (w_txs w')) = [(TxReplaced, ''r2''), (TxBroadcastUnknown, [])] \<and>
      stores_rel (pass_rel (w_txs stuck_world) 500 12) (w_txs stuck_world) (w_txs w')"
proof -
  have "map (\<lambda>t. (tx_stat t, tx_replaced_by t)) (vals (w_txs (snd (refresh_statuses replace_env 12 stuck_world)))) =
      [(TxReplaced, ''r2''), (TxBroadcastUnknown, [])]"
    by (simp add: refresh_eval)
  moreover have "\<forall>i b. te_block_number replace_env i = Some b \<longrightarrow> b = 500"
    by (simp add: replace_env_def demo_defs)
  ultimately show ?thesis
    using refresh_life_cycle [OF replace_env_ok(1) stuck_world_ok]
    unfolding Let_def by blast
qed

theorem reconcile_links_all_witness:
  "\<exists>w'. reconcile_replacements replace_env stuck_world = (Inr (), w') \<and>
    (\<forall>r. lookup (w_txs w') ''r1'' = Some r \<longrightarrow> tx_stat r = TxReplaced)"
proof -
  have "\<forall>i. te_fault replace_env i = NoFault" by (simp add: replace_env_def demo_defs)
  from reconcile_links_all [OF replace_env_ok(1) stuck_world_ok this] show ?thesis
    by (auto simp: stuck_world_def demo_pending_def demo_defs tx_zero_def)
qed

end
