(* ===== verification/ReadModel.thy ===== *)
theory ReadModel
  imports Stores Decimal
begin

text \<open>
  What the event-sourced read models share: indexed chain events
  (server/internal/dal/models/chain_event.go), the memory repository that holds them
  (server/internal/dal/memory/chain_event.go), the order they are replayed in, and the
  generation-swap rebuild that redemption.Reconcile, sales.Reconcile and income.Reconcile use.
\<close>

section \<open>Event data\<close>

text \<open>
  A value of \<^verbatim>\<open>map[string]any\<close> as the indexer and MongoDB produce them; a \<^verbatim>\<open>float64\<close> is its
  integer part. \<^verbatim>\<open>int64\<close> values are integers kept in range by \<open>wrap64\<close>.
\<close>

datatype event_value = VString string | VInt64 int | VUint64 u64 | VInt32 int | VInt int | VFloat64 int | VUint8 byte | VNil

definition wrap64 :: "int \<Rightarrow> int" where
  "wrap64 i = (i + 2 ^ 63) mod 2 ^ 64 - 2 ^ 63"

text \<open>\<^verbatim>\<open>strconv.ParseInt(t, 10, 64)\<close> with its error dropped: 0 for bad syntax, the nearest bound out of range.\<close>

definition parse_int64 :: "string \<Rightarrow> int" where
  "parse_int64 s =
     (case big_set_string s of
        None \<Rightarrow> 0
      | Some n \<Rightarrow> if n < - (2 ^ 63) then - (2 ^ 63) else if n > 2 ^ 63 - 1 then 2 ^ 63 - 1 else n)"

definition to_int64 :: "event_value \<Rightarrow> int" where
  "to_int64 v =
     (case v of
        VInt64 n \<Rightarrow> n
      | VUint64 n \<Rightarrow> wrap64 (uint n)
      | VInt32 n \<Rightarrow> n
      | VInt n \<Rightarrow> n
      | VFloat64 n \<Rightarrow> wrap64 n
      | VString s \<Rightarrow> parse_int64 s
      | VUint8 _ \<Rightarrow> 0
      | VNil \<Rightarrow> 0)"

definition to_string :: "event_value \<Rightarrow> string" where
  "to_string v = (case v of VString s \<Rightarrow> s | _ \<Rightarrow> [])"

section \<open>Chain events\<close>

record chain_event =
  ev_chain_id :: int
  ev_address :: string
  ev_tx_hash :: string
  ev_log_index :: u64
  ev_block_number :: u64
  ev_block_hash :: string
  ev_name :: string
  ev_data :: "(string, event_value) store"
  ev_removed :: bool
  ev_indexed_at :: gotime

definition ev_field :: "chain_event \<Rightarrow> string \<Rightarrow> event_value" where
  "ev_field e k = (case lookup (ev_data e) k of None \<Rightarrow> VNil | Some v \<Rightarrow> v)"

definition str_field :: "chain_event \<Rightarrow> string \<Rightarrow> string" where
  "str_field e k = to_string (ev_field e k)"

text \<open>The replay order: block number, then log index.\<close>

definition ev_pos :: "chain_event \<Rightarrow> u64 \<times> u64" where
  "ev_pos e = (ev_block_number e, ev_log_index e)"

definition earlier :: "chain_event \<Rightarrow> chain_event \<Rightarrow> bool" where
  "earlier a b =
     (if ev_block_number a \<noteq> ev_block_number b then ev_block_number a < ev_block_number b
      else ev_log_index a < ev_log_index b)"

definition replay_order :: "chain_event list \<Rightarrow> chain_event list" where
  "replay_order es = sort_key ev_pos es"

lemma earlier_pos: "earlier a b \<longleftrightarrow> ev_pos a < ev_pos b"
  by (auto simp: earlier_def ev_pos_def less_prod_def)

text \<open>server/internal/dal/models/indexer_checkpoint.go: how far the indexer has come.\<close>

record indexer_checkpoint =
  ck_chain_id :: int
  ck_address :: string
  ck_last_block :: u64
  ck_last_block_hash :: string
  ck_updated_at :: gotime
  ck_reconciliation_required :: bool
  ck_version :: int

section \<open>The event repository\<close>

type_synonym event_key = "int \<times> string \<times> string \<times> u64"

definition ev_key :: "chain_event \<Rightarrow> event_key" where
  "ev_key e = (ev_chain_id e, ev_address e, ev_tx_hash e, ev_log_index e)"

type_synonym event_store = "(event_key, chain_event) store"

definition ce_exists :: "event_key \<Rightarrow> event_store \<Rightarrow> bool" where
  "ce_exists k st = (lookup st k \<noteq> None)"

definition ce_create :: "chain_event \<Rightarrow> event_store \<Rightarrow> event_store" where
  "ce_create e st = put (ev_key e) e st"

definition ce_delete_from_block :: "int \<Rightarrow> string \<Rightarrow> u64 \<Rightarrow> event_store \<Rightarrow> nat \<times> event_store" where
  "ce_delete_from_block chain addr from_block st =
     (let gone = (\<lambda>(k, v). ev_chain_id v = chain \<and> ev_address v = addr \<and> ev_block_number v \<ge> from_block)
      in (length (filter gone st), filter (\<lambda>p. \<not> gone p) st))"

definition ce_list_by_name :: "int \<Rightarrow> string \<Rightarrow> string \<Rightarrow> event_store \<Rightarrow> chain_event list" where
  "ce_list_by_name chain addr name st =
     sort_key ev_pos (filter (\<lambda>v. ev_chain_id v = chain \<and> ev_address v = addr \<and> ev_name v = name) (vals st))"

definition ce_list_all :: "int \<Rightarrow> string list \<Rightarrow> event_store \<Rightarrow> chain_event list" where
  "ce_list_all chain exclude st =
     sort_key (\<lambda>v. (ev_block_number v, ev_log_index v, ev_tx_hash v))
       (filter (\<lambda>v. ev_chain_id v = chain \<and> ev_name v \<notin> set exclude) (vals st))"

section \<open>Replay order\<close>

text \<open>On one chain (block, log index) identifies a log, so replaying does not depend on how the events were listed.\<close>

lemma set_replay_order [simp]: "set (replay_order es) = set es"
  by (simp add: replay_order_def)

lemma replay_order_sorted: "sorted (map ev_pos (replay_order es))"
  by (simp add: replay_order_def)

lemma replay_order_unique:
  assumes "set es = set fs" and "distinct (map ev_pos es)" and "distinct (map ev_pos fs)"
  shows "replay_order es = replay_order fs"
proof (rule map_sorted_distinct_set_unique)
  have sorted_distinct: "distinct (map ev_pos (replay_order gs))" if "distinct (map ev_pos gs)" for gs
    using that by (simp only: replay_order_def distinct_map [of ev_pos] distinct_sort set_sort)
  show "distinct (map ev_pos (replay_order es))" "distinct (map ev_pos (replay_order fs))"
    using sorted_distinct assms by blast+
  show "inj_on ev_pos (set (replay_order es) \<union> set (replay_order fs))"
    using assms(1,2) by (simp add: distinct_map)
qed (simp_all add: replay_order_sorted assms(1))

section \<open>Rebuilding a read model\<close>

text \<open>
  The loop of the three \<^verbatim>\<open>Reconcile\<close> functions: upsert every derived row stamped with the new
  generation, then delete the rows of other generations. Each call may fail before or after it
  took effect; the first failure ends the rebuild.
\<close>

record 'st read_model =
  rm_tick :: nat
  rm_rows :: 'st

datatype rm_error = ErrListEvents string | ErrUpsert | ErrPrune | ErrProject

definition rm_call :: "(nat \<Rightarrow> fault) \<Rightarrow> rm_error \<Rightarrow> ('st \<Rightarrow> 'st) \<Rightarrow> (rm_error, 'st read_model, unit) act" where
  "rm_call faults x f = (\<lambda>s.
     let next = s\<lparr>rm_tick := Suc (rm_tick s)\<rparr> in
     case faults (rm_tick s) of
       NoFault \<Rightarrow> (Inr (), next\<lparr>rm_rows := f (rm_rows s)\<rparr>)
     | FaultBefore \<Rightarrow> (Inl x, next)
     | FaultAfter \<Rightarrow> (Inl x, next\<lparr>rm_rows := f (rm_rows s)\<rparr>))"

definition rebuild ::
  "(nat \<Rightarrow> fault) \<Rightarrow> ('v \<Rightarrow> 'st \<Rightarrow> 'st) \<Rightarrow> (int \<Rightarrow> 'st \<Rightarrow> 'st) \<Rightarrow> int \<Rightarrow> 'v list
    \<Rightarrow> (rm_error, 'st read_model, unit) act" where
  "rebuild faults upsert prune gen rows =
     bindM (forM rows (\<lambda>r. rm_call faults ErrUpsert (upsert r))) (\<lambda>_.
     rm_call faults ErrPrune (prune gen))"

lemma rm_call_cases:
  "\<exists>s'. rm_call faults x f s = (Inr (), s') \<and> faults (rm_tick s) = NoFault \<and> rm_rows s' = f (rm_rows s)
    \<or> rm_call faults x f s = (Inl x, s') \<and> faults (rm_tick s) \<noteq> NoFault \<and>
      (rm_rows s' = rm_rows s \<or> rm_rows s' = f (rm_rows s))"
  by (cases "faults (rm_tick s)") (simp_all add: rm_call_def Let_def)

lemma upserts_result:
  "\<exists>r s' n. forM rows (\<lambda>r. rm_call faults ErrUpsert (upsert r)) s = (r, s') \<and>
    rm_rows s' = fold upsert (take n rows) (rm_rows s) \<and> (r = Inr () \<longrightarrow> n = length rows) \<and>
    ((\<forall>i. faults i = NoFault) \<longrightarrow> r = Inr ())"
proof (induction rows arbitrary: s)
  case Nil
  then show ?case by (simp add: ret_def)
next
  case (Cons row rows)
  obtain s1 where "rm_call faults ErrUpsert (upsert row) s = (Inr (), s1) \<and> rm_rows s1 = upsert row (rm_rows s)
    \<or> rm_call faults ErrUpsert (upsert row) s = (Inl ErrUpsert, s1) \<and> faults (rm_tick s) \<noteq> NoFault \<and>
      (rm_rows s1 = rm_rows s \<or> rm_rows s1 = upsert row (rm_rows s))"
    using rm_call_cases [of faults ErrUpsert "upsert row" s] by blast
  then consider (ok) "rm_call faults ErrUpsert (upsert row) s = (Inr (), s1)" "rm_rows s1 = upsert row (rm_rows s)"
    | (before) "rm_call faults ErrUpsert (upsert row) s = (Inl ErrUpsert, s1)" "faults (rm_tick s) \<noteq> NoFault"
        "rm_rows s1 = rm_rows s"
    | (after) "rm_call faults ErrUpsert (upsert row) s = (Inl ErrUpsert, s1)" "faults (rm_tick s) \<noteq> NoFault"
        "rm_rows s1 = upsert row (rm_rows s)"
    by blast
  then show ?case
  proof cases
    case ok
    obtain r s' n where IH: "forM rows (\<lambda>r. rm_call faults ErrUpsert (upsert r)) s1 = (r, s')"
      "rm_rows s' = fold upsert (take n rows) (rm_rows s1)" "r = Inr () \<longrightarrow> n = length rows"
      "(\<forall>i. faults i = NoFault) \<longrightarrow> r = Inr ()"
      using Cons.IH by blast
    then show ?thesis
      using ok by (intro exI [of _ r] exI [of _ s'] exI [of _ "Suc n"]) (simp add: bindM_def)
  next
    case before
    then show ?thesis
      by (intro exI [of _ "Inl ErrUpsert"] exI [of _ s1] exI [of _ 0]) (auto simp: bindM_def)
  next
    case after
    then show ?thesis
      by (intro exI [of _ "Inl ErrUpsert"] exI [of _ s1] exI [of _ 1]) (auto simp: bindM_def)
  qed
qed

lemma rebuild_result:
  "\<exists>r s' n. rebuild faults upsert prune gen rows s = (r, s') \<and>
    ((\<forall>i. faults i = NoFault) \<longrightarrow> r = Inr ()) \<and>
    (r = Inr () \<longrightarrow> rm_rows s' = prune gen (fold upsert rows (rm_rows s))) \<and>
    (rm_rows s' = fold upsert (take n rows) (rm_rows s) \<or> rm_rows s' = prune gen (fold upsert rows (rm_rows s)))"
proof -
  obtain r s1 n where up: "forM rows (\<lambda>r. rm_call faults ErrUpsert (upsert r)) s = (r, s1)"
    "rm_rows s1 = fold upsert (take n rows) (rm_rows s)" "r = Inr () \<longrightarrow> n = length rows"
    "(\<forall>i. faults i = NoFault) \<longrightarrow> r = Inr ()"
    using upserts_result by blast
  show ?thesis
  proof (cases r)
    case (Inl x)
    with up show ?thesis by (auto simp: rebuild_def bindM_def)
  next
    case (Inr u)
    obtain s2 where "rm_call faults ErrPrune (prune gen) s1 = (Inr (), s2) \<and> rm_rows s2 = prune gen (rm_rows s1)
      \<or> rm_call faults ErrPrune (prune gen) s1 = (Inl ErrPrune, s2) \<and> faults (rm_tick s1) \<noteq> NoFault \<and>
        (rm_rows s2 = rm_rows s1 \<or> rm_rows s2 = prune gen (rm_rows s1))"
      using rm_call_cases [of faults ErrPrune "prune gen" s1] by blast
    then show ?thesis
      using up Inr by (intro exI [of _ "fst (rm_call faults ErrPrune (prune gen) s1)"] exI [of _ s2] exI [of _ n])
        (auto simp: rebuild_def bindM_def)
  qed
qed

text \<open>What the rebuild leaves, in terms of the contract of the store.\<close>

context generation_store
begin

lemma rebuild_exact:
  assumes "\<forall>i. faults i = NoFault" and "inv (rm_rows s)" and "\<forall>r \<in> set rows. gen r = g"
    and "\<And>k v. get (rm_rows s) k = Some v \<Longrightarrow> gen v \<noteq> g"
  shows "\<exists>s'. rebuild faults upsert prune g rows s = (Inr (), s') \<and>
    (\<forall>k. get (rm_rows s') k = map_of (rev (map (\<lambda>r. (key r, r)) rows)) k)"
  using rebuild_result [of faults upsert prune g rows s] get_rebuild [OF assms(2-4)] assms(1) by auto

lemma rebuild_no_gap:
  assumes "inv (rm_rows s)" and "\<forall>r \<in> set rows. gen r = g"
    and "\<And>k v. get (rm_rows s) k = Some v \<Longrightarrow> gen v \<noteq> g"
    and "get (rm_rows s) k = Some v" and "k \<in> key ` set rows"
  shows "get (rm_rows (snd (rebuild faults upsert prune g rows s))) k \<noteq> None"
proof -
  obtain r s' n where "rebuild faults upsert prune g rows s = (r, s')"
    "rm_rows s' = fold upsert (take n rows) (rm_rows s) \<or> rm_rows s' = prune g (fold upsert rows (rm_rows s))"
    using rebuild_result [of faults upsert prune g rows s] by blast
  then show ?thesis
    using no_gap [OF assms(1,4), of n rows] rebuild_dom [OF assms(1-3)] assms(5) by auto
qed

end

lemma distinct_keys_filter: "distinct (map fst st) \<Longrightarrow> distinct (map fst (filter P st))"
  by (simp add: distinct_map_filter)

section \<open>Listing events\<close>

text \<open>\<^verbatim>\<open>ListByName\<close> for each name in turn; \<open>lister\<close> is the event repository as the call finds it.\<close>

fun list_events :: "(string \<Rightarrow> chain_event list option) \<Rightarrow> string list \<Rightarrow> (rm_error, 's, chain_event list) act" where
  "list_events lister [] = ret []"
| "list_events lister (n # ns) =
     (case lister n of
        None \<Rightarrow> raise (ErrListEvents n)
      | Some evs \<Rightarrow> bindM (list_events lister ns) (\<lambda>rest. ret (evs @ rest)))"

lemma list_events_memory:
  "list_events (\<lambda>n. Some (ce_list_by_name chain addr n st)) ns s =
    (Inr (concat (map (\<lambda>n. ce_list_by_name chain addr n st) ns)), s)"
  by (induction ns) (simp_all add: ret_def bindM_def)

lemma set_list_by_names:
  "set (concat (map (\<lambda>n. ce_list_by_name chain addr n st) ns)) =
    {v \<in> set (vals st). ev_chain_id v = chain \<and> ev_address v = addr \<and> ev_name v \<in> set ns}"
  by (auto simp: ce_list_by_name_def)

text \<open>Listing name by name keeps positions distinct when the stored events of the contract have distinct ones.\<close>

definition contract_events :: "int \<Rightarrow> string \<Rightarrow> string list \<Rightarrow> event_store \<Rightarrow> chain_event list" where
  "contract_events chain addr ns st =
     filter (\<lambda>v. ev_chain_id v = chain \<and> ev_address v = addr \<and> ev_name v \<in> set ns) (vals st)"

lemma listed_positions:
  assumes "distinct ns" and "distinct (map ev_pos (contract_events chain addr ns st))"
  shows "distinct (map ev_pos (concat (map (\<lambda>n. ce_list_by_name chain addr n st) ns)))"
proof -
  let ?all = "contract_events chain addr ns st"
  have inj: "inj_on ev_pos (set ?all)" and "distinct ?all" using assms(2) by (simp_all add: distinct_map)
  have "distinct (ce_list_by_name chain addr n st)" if "n \<in> set ns" for n
  proof -
    have "filter (\<lambda>v. ev_name v = n) ?all =
        filter (\<lambda>v. ev_chain_id v = chain \<and> ev_address v = addr \<and> ev_name v = n) (vals st)"
      unfolding contract_events_def filter_filter using that by (intro filter_cong) auto
    then show ?thesis using \<open>distinct ?all\<close> unfolding ce_list_by_name_def distinct_sort by (metis distinct_filter)
  qed
  then have "distinct (concat (map (\<lambda>n. ce_list_by_name chain addr n st) ns))"
    using assms(1) by (induction ns) (auto simp: ce_list_by_name_def)
  moreover have "inj_on ev_pos (set (concat (map (\<lambda>n. ce_list_by_name chain addr n st) ns)))"
    using inj unfolding set_list_by_names contract_events_def by simp
  ultimately show ?thesis by (simp add: distinct_map)
qed

lemma map_of_rev_distinct: "distinct (map fst xs) \<Longrightarrow> map_of (rev xs) = map_of xs"
proof (induction xs)
  case Nil
  then show ?case by simp
next
  case (Cons x xs)
  then have "map_of (rev xs) (fst x) = None" by (simp add: map_of_eq_None_iff)
  with Cons show ?case by (cases x) (auto simp: map_add_def split: option.split)
qed

lemma map_of_stamped:
  assumes "distinct (map fst st)" and "\<forall>(i, v) \<in> set st. key v = i" and "\<And>v. key (f v) = key v"
  shows "map_of (rev (map (\<lambda>r. (key r, r)) (map f (vals st)))) i = map_option f (lookup st i)"
proof -
  have eq: "map (\<lambda>r. (key r, r)) (map f (vals st)) = map (\<lambda>(i, v). (i, f v)) st"
    using assms(2,3) by auto
  have "distinct (map fst (map (\<lambda>(i, v). (i, f v)) st))" using assms(1) by (simp add: case_prod_beta comp_def)
  then show ?thesis unfolding eq
    using map_of_rev_distinct [of "map (\<lambda>(i, v). (i, f v)) st"] by (simp add: map_of_map)
qed

end
