(* ===== verification/Redemption.thy ===== *)
theory Redemption
  imports ReadModel Keyset TxStore
begin

text \<open>
  Redemption requests as the server derives them from RedemptionEscrow events: the replay
  \<^verbatim>\<open>BuildStates\<close> and \<^verbatim>\<open>Reconcile\<close> (server/internal/redemption/projector.go), the figures the API
  shows (server/internal/redemption/redemption.go) and the memory repository
  (server/internal/dal/memory/redemption_request.go). The contract a replay is checked against
  is the state machine of docs/spec/redemption-state-machine.md.
\<close>

section \<open>Data\<close>

datatype redemption_status = RedemptionNone | RedemptionPending | RedemptionFunded
  | RedemptionCompleted | RedemptionRejected | RedemptionCancelled

fun redemption_status_name :: "redemption_status \<Rightarrow> string" where
  "redemption_status_name RedemptionNone = ''None''"
| "redemption_status_name RedemptionPending = ''Pending''"
| "redemption_status_name RedemptionFunded = ''Funded''"
| "redemption_status_name RedemptionCompleted = ''Completed''"
| "redemption_status_name RedemptionRejected = ''Rejected''"
| "redemption_status_name RedemptionCancelled = ''Cancelled''"

record redemption_request =
  rd_id :: string
  rd_beneficiary :: string
  rd_rwa_amount :: string
  rd_quote_amount :: string
  rd_status :: redemption_status
  rd_created_at :: int
  rd_timeout_at :: int
  rd_reason_code :: string
  rd_request_tx_hash :: string
  rd_fund_tx_hash :: string
  rd_funded_at_block :: u64
  rd_funded_at :: gotime
  rd_claim_tx_hash :: string
  rd_updated_at :: gotime
  rd_generation :: int

type_synonym redemption_store = "(string, redemption_request) store"

section \<open>Replaying events\<close>

definition requested :: "gotime \<Rightarrow> int \<Rightarrow> chain_event \<Rightarrow> string \<Rightarrow> redemption_request" where
  "requested now timeout e i =
     (let created_at = to_int64 (ev_field e ''createdAt'')
      in \<lparr>rd_id = i, rd_beneficiary = str_field e ''beneficiary'', rd_rwa_amount = str_field e ''rwaAmount'',
          rd_quote_amount = str_field e ''quoteAmount'', rd_status = RedemptionPending, rd_created_at = created_at,
          rd_timeout_at = wrap64 (created_at + timeout), rd_reason_code = [], rd_request_tx_hash = ev_tx_hash e,
          rd_fund_tx_hash = [], rd_funded_at_block = 0, rd_funded_at = 0, rd_claim_tx_hash = [],
          rd_updated_at = now, rd_generation = 0\<rparr>)"

text \<open>\<open>when_status\<close>: \<^verbatim>\<open>if r, ok := states[id]; ok && r.Status == s\<close>.\<close>

definition when_status ::
  "redemption_status \<Rightarrow> string \<Rightarrow> (redemption_request \<Rightarrow> redemption_request) \<Rightarrow> redemption_store \<Rightarrow> redemption_store" where
  "when_status s i f states =
     (case lookup states i of
        None \<Rightarrow> states
      | Some r \<Rightarrow> if rd_status r = s then put i (f r) states else states)"

definition redemption_step :: "gotime \<Rightarrow> int \<Rightarrow> chain_event \<Rightarrow> redemption_store \<Rightarrow> redemption_store" where
  "redemption_step now timeout e states =
     (let i = str_field e ''id''
      in if i = [] then states
         else if ev_name e = ''RedemptionRequested'' then put i (requested now timeout e i) states
         else if ev_name e = ''RedemptionFunded'' then
           when_status RedemptionPending i (\<lambda>r. r\<lparr>rd_status := RedemptionFunded, rd_fund_tx_hash := ev_tx_hash e,
             rd_funded_at_block := ev_block_number e, rd_funded_at := ev_indexed_at e, rd_updated_at := now\<rparr>) states
         else if ev_name e = ''RedemptionCompleted'' then
           when_status RedemptionFunded i (\<lambda>r. r\<lparr>rd_status := RedemptionCompleted, rd_claim_tx_hash := ev_tx_hash e,
             rd_updated_at := now\<rparr>) states
         else if ev_name e = ''RedemptionRejected'' then
           when_status RedemptionPending i (\<lambda>r. r\<lparr>rd_status := RedemptionRejected,
             rd_reason_code := str_field e ''reasonCode'', rd_updated_at := now\<rparr>) states
         else if ev_name e = ''RedemptionCancelled'' then
           when_status RedemptionPending i (\<lambda>r. r\<lparr>rd_status := RedemptionCancelled, rd_updated_at := now\<rparr>) states
         else states)"

definition build_states :: "gotime \<Rightarrow> chain_event list \<Rightarrow> int \<Rightarrow> redemption_store" where
  "build_states now es timeout = fold (redemption_step now timeout) (replay_order es) []"

section \<open>Repository\<close>

definition rd_upsert :: "redemption_request \<Rightarrow> redemption_store \<Rightarrow> redemption_store" where
  "rd_upsert r st = put (rd_id r) r st"

definition rd_get :: "string \<Rightarrow> redemption_store \<Rightarrow> redemption_request option" where
  "rd_get i st = lookup st i"

definition rd_list :: "string \<Rightarrow> redemption_store \<Rightarrow> redemption_request list" where
  "rd_list status st = sort_key rd_created_at
     (filter (\<lambda>v. \<not> (status \<noteq> [] \<and> redemption_status_name (rd_status v) \<noteq> status)) (vals st))"

definition rd_delete_all :: "redemption_store \<Rightarrow> redemption_store" where
  "rd_delete_all st = []"

definition rd_prune :: "int \<Rightarrow> redemption_store \<Rightarrow> redemption_store" where
  "rd_prune gen st = filter (\<lambda>(i, v). rd_generation v = gen) st"

text \<open>Newest first: by (\<^verbatim>\<open>CreatedAt\<close>, \<^verbatim>\<open>ID\<close>) descending.\<close>

definition rd_list_page ::
  "string \<Rightarrow> string \<Rightarrow> keyset_cursor option \<Rightarrow> int \<Rightarrow> redemption_store
    \<Rightarrow> redemption_request list \<times> keyset_cursor option" where
  "rd_list_page status addr cursor limit st =
     (let addr_lower = to_lower addr;
          kept = filter (\<lambda>v. \<not> (status \<noteq> [] \<and> redemption_status_name (rd_status v) \<noteq> status)
                   \<and> \<not> (addr_lower \<noteq> [] \<and> to_lower (rd_beneficiary v) \<noteq> addr_lower)) (vals st);
          sorted_rows = rev (sort_key (\<lambda>v. (rd_created_at v, rd_id v)) kept)
      in keyset_page sorted_rows rd_created_at rd_id cursor limit True)"

interpretation rdm: generation_store lookup rd_upsert rd_prune rd_id rd_generation "\<lambda>st. distinct (map fst st)"
  by unfold_locales (auto simp: rd_upsert_def rd_prune_def lookup_put lookup_filter distinct_update
      distinct_keys_filter split: option.split)

section \<open>Reconcile\<close>

definition redemption_event_names :: "string list" where
  "redemption_event_names = [''RedemptionRequested'', ''RedemptionFunded'', ''RedemptionCompleted'',
     ''RedemptionRejected'', ''RedemptionCancelled'']"

definition redemption_reconcile ::
  "(nat \<Rightarrow> fault) \<Rightarrow> (string \<Rightarrow> chain_event list option) \<Rightarrow> gotime \<Rightarrow> int \<Rightarrow> int
    \<Rightarrow> (rm_error, redemption_store read_model, unit) act" where
  "redemption_reconcile faults lister now gen timeout =
     bindM (list_events lister redemption_event_names) (\<lambda>all.
     let states = build_states now all timeout in
     rebuild faults rd_upsert rd_prune gen (map (\<lambda>r. r\<lparr>rd_generation := gen\<rparr>) (vals states)))"

section \<open>Figures of the API\<close>

definition redemption_confirmations :: "redemption_request \<Rightarrow> u64 \<Rightarrow> u64" where
  "redemption_confirmations r current =
     (if rd_status r \<noteq> RedemptionFunded \<or> rd_funded_at_block r = 0 \<or> current < rd_funded_at_block r then 0
      else current - rd_funded_at_block r)"

definition claimable :: "redemption_request \<Rightarrow> u64 \<Rightarrow> u64 \<Rightarrow> bool" where
  "claimable r current finality \<longleftrightarrow>
     rd_status r = RedemptionFunded \<and> redemption_confirmations r current \<ge> finality"

section \<open>The contract's state machine\<close>

inductive contract_step :: "redemption_status \<Rightarrow> string \<Rightarrow> redemption_status \<Rightarrow> bool" where
  request: "contract_step RedemptionNone ''RedemptionRequested'' RedemptionPending"
| fund: "contract_step RedemptionPending ''RedemptionFunded'' RedemptionFunded"
| claim: "contract_step RedemptionFunded ''RedemptionCompleted'' RedemptionCompleted"
| reject: "contract_step RedemptionPending ''RedemptionRejected'' RedemptionRejected"
| cancel: "contract_step RedemptionPending ''RedemptionCancelled'' RedemptionCancelled"

inductive contract_run :: "redemption_status \<Rightarrow> string list \<Rightarrow> redemption_status \<Rightarrow> bool" where
  stop: "contract_run s [] s"
| move: "contract_step s n t \<Longrightarrow> contract_run t ns u \<Longrightarrow> contract_run s (n # ns) u"

inductive_cases contract_stepE: "contract_step s n t"

definition status_in :: "redemption_store \<Rightarrow> string \<Rightarrow> redemption_status" where
  "status_in st i = (case lookup st i of None \<Rightarrow> RedemptionNone | Some r \<Rightarrow> rd_status r)"

text \<open>The machine as a function of event names: events that do not fit the status leave it.\<close>

definition next_status :: "string \<Rightarrow> redemption_status \<Rightarrow> redemption_status" where
  "next_status n s =
     (if n = ''RedemptionRequested'' then RedemptionPending
      else if n = ''RedemptionFunded'' \<and> s = RedemptionPending then RedemptionFunded
      else if n = ''RedemptionCompleted'' \<and> s = RedemptionFunded then RedemptionCompleted
      else if n = ''RedemptionRejected'' \<and> s = RedemptionPending then RedemptionRejected
      else if n = ''RedemptionCancelled'' \<and> s = RedemptionPending then RedemptionCancelled
      else s)"

lemma contract_step_next: "contract_step s n t \<Longrightarrow> next_status n s = t"
  by (cases rule: contract_step.cases, assumption) (simp_all add: next_status_def)

lemma contract_run_fold: "contract_run s ns t \<Longrightarrow> fold next_status ns s = t"
  by (induction rule: contract_run.induct) (simp_all add: contract_step_next)

lemma lookup_when_status:
  "lookup (when_status s i f st) j =
    (if j = i then map_option (\<lambda>r. if rd_status r = s then f r else r) (lookup st i) else lookup st j)"
  by (auto simp: when_status_def lookup_put split: option.split)

lemma step_other: "str_field e ''id'' \<noteq> i \<Longrightarrow> lookup (redemption_step now timeout e st) i = lookup st i"
  by (auto simp: redemption_step_def Let_def lookup_put lookup_when_status)

lemma step_status:
  assumes "i \<noteq> []" and "str_field e ''id'' = i"
  shows "status_in (redemption_step now timeout e st) i = next_status (ev_name e) (status_in st i)"
  using assms
  by (cases "lookup st i")
    (auto simp: redemption_step_def Let_def status_in_def lookup_put lookup_when_status requested_def next_status_def)

definition events_of :: "string \<Rightarrow> chain_event list \<Rightarrow> chain_event list" where
  "events_of i es = filter (\<lambda>e. str_field e ''id'' = i) es"

lemma replay_status:
  "i \<noteq> [] \<Longrightarrow> status_in (fold (redemption_step now timeout) es st) i =
    fold next_status (map ev_name (events_of i es)) (status_in st i)"
proof (induction es arbitrary: st)
  case Nil
  then show ?case by (simp add: events_of_def)
next
  case (Cons e es)
  show ?case
  proof (cases "str_field e ''id'' = i")
    case True
    then show ?thesis using Cons step_status [OF Cons.prems True] by (simp add: events_of_def)
  next
    case False
    then have "status_in (redemption_step now timeout e st) i = status_in st i"
      by (simp add: status_in_def step_other)
    then show ?thesis using Cons False by (simp add: events_of_def)
  qed
qed

text \<open>
  C13: whenever the logs of a request, in block and log-index order, are ones the escrow contract
  can emit, the projected status is exactly the status the contract is in, whatever events of
  other requests are interleaved and in whatever order the repository lists them.
\<close>

theorem projection_follows_contract:
  assumes "i \<noteq> []" and "contract_run RedemptionNone (map ev_name (events_of i (replay_order es))) s"
  shows "status_in (build_states now es timeout) i = s"
  unfolding build_states_def replay_status [OF assms(1)]
  using contract_run_fold [OF assms(2)] by (simp add: status_in_def)

section \<open>Where a row comes from\<close>

definition row_origin :: "chain_event list \<Rightarrow> int \<Rightarrow> redemption_request \<Rightarrow> bool" where
  "row_origin es timeout r \<longleftrightarrow>
     (\<exists>e \<in> set es. ev_name e = ''RedemptionRequested'' \<and> str_field e ''id'' = rd_id r \<and>
        rd_beneficiary r = str_field e ''beneficiary'' \<and> rd_rwa_amount r = str_field e ''rwaAmount'' \<and>
        rd_quote_amount r = str_field e ''quoteAmount'' \<and> rd_request_tx_hash r = ev_tx_hash e \<and>
        rd_timeout_at r = wrap64 (rd_created_at r + timeout)) \<and>
     (rd_status r \<in> {RedemptionFunded, RedemptionCompleted} \<longrightarrow>
        (\<exists>e \<in> set es. ev_name e = ''RedemptionFunded'' \<and> str_field e ''id'' = rd_id r \<and>
           rd_fund_tx_hash r = ev_tx_hash e \<and> rd_funded_at_block r = ev_block_number e)) \<and>
     (rd_status r = RedemptionCompleted \<longrightarrow>
        (\<exists>e \<in> set es. ev_name e = ''RedemptionCompleted'' \<and> str_field e ''id'' = rd_id r \<and>
           rd_claim_tx_hash r = ev_tx_hash e))"

definition rows_ok :: "chain_event list \<Rightarrow> int \<Rightarrow> redemption_store \<Rightarrow> bool" where
  "rows_ok es timeout st \<longleftrightarrow> distinct (map fst st) \<and>
     (\<forall>i r. lookup st i = Some r \<longrightarrow> rd_id r = i \<and> rd_generation r = 0 \<and> row_origin es timeout r)"

lemma rows_ok_put:
  "rows_ok es timeout st \<Longrightarrow> rd_id r = i \<Longrightarrow> rd_generation r = 0 \<Longrightarrow> row_origin es timeout r \<Longrightarrow>
    rows_ok es timeout (put i r st)"
  by (auto simp: rows_ok_def lookup_put distinct_update)

lemma rows_ok_when:
  assumes "rows_ok es timeout st"
    and "\<And>r. lookup st i = Some r \<Longrightarrow> row_origin es timeout r \<Longrightarrow> rd_status r = s \<Longrightarrow> rd_id r = i \<Longrightarrow>
      row_origin es timeout (f r)"
    and "\<And>r. rd_id (f r) = rd_id r \<and> rd_generation (f r) = rd_generation r"
  shows "rows_ok es timeout (when_status s i f st)"
proof (cases "lookup st i")
  case None
  with assms(1) show ?thesis by (simp add: when_status_def)
next
  case (Some r)
  then have "rd_id r = i" "rd_generation r = 0" "row_origin es timeout r" using assms(1) by (auto simp: rows_ok_def)
  with Some assms show ?thesis by (auto simp: when_status_def intro!: rows_ok_put)
qed

lemma step_rows_ok:
  assumes "rows_ok es timeout st" and "e \<in> set es"
  shows "rows_ok es timeout (redemption_step now timeout e st)"
proof -
  let ?i = "str_field e ''id''"
  have request: "rows_ok es timeout (put ?i (requested now timeout e ?i) st)" if "ev_name e = ''RedemptionRequested''"
    using that assms(2) by (intro rows_ok_put [OF assms(1)]) (auto simp: requested_def row_origin_def Let_def)
  have fund: "rows_ok es timeout (when_status RedemptionPending ?i (\<lambda>r. r\<lparr>rd_status := RedemptionFunded,
      rd_fund_tx_hash := ev_tx_hash e, rd_funded_at_block := ev_block_number e, rd_funded_at := ev_indexed_at e,
      rd_updated_at := now\<rparr>) st)" if "ev_name e = ''RedemptionFunded''"
    using that assms(2) by (intro rows_ok_when [OF assms(1)]) (auto simp: row_origin_def)
  have claim: "rows_ok es timeout (when_status RedemptionFunded ?i (\<lambda>r. r\<lparr>rd_status := RedemptionCompleted,
      rd_claim_tx_hash := ev_tx_hash e, rd_updated_at := now\<rparr>) st)" if "ev_name e = ''RedemptionCompleted''"
    using that assms(2) by (intro rows_ok_when [OF assms(1)]) (auto simp: row_origin_def)
  have close: "rows_ok es timeout (when_status RedemptionPending ?i (\<lambda>r. r\<lparr>rd_status := RedemptionRejected,
      rd_reason_code := str_field e ''reasonCode'', rd_updated_at := now\<rparr>) st)"
    "rows_ok es timeout (when_status RedemptionPending ?i (\<lambda>r. r\<lparr>rd_status := RedemptionCancelled,
      rd_updated_at := now\<rparr>) st)"
    by (intro rows_ok_when [OF assms(1)]; auto simp: row_origin_def)+
  show ?thesis
    unfolding redemption_step_def Let_def using assms(1) request fund claim close by simp
qed

lemma build_states_rows_ok:
  "rows_ok es timeout (build_states now es timeout)"
proof -
  have "rows_ok es timeout (fold (redemption_step now timeout) fs st)"
    if "rows_ok es timeout st" "set fs \<subseteq> set es" for fs st
    using that by (induction fs arbitrary: st) (simp_all add: step_rows_ok)
  moreover have "rows_ok es timeout []" by (simp add: rows_ok_def)
  ultimately show ?thesis unfolding build_states_def by simp
qed

text \<open>
  Every projected request goes back to a RedemptionRequested log with its id, beneficiary,
  amounts and hash (its timeout is that log's creation time plus the configured timeout); a
  Funded or Completed one also to a RedemptionFunded log with its fund hash and block, and a
  Completed one to a RedemptionCompleted log. No row is invented.
\<close>

theorem projected_rows_have_origin:
  "rows_ok es timeout (build_states now es timeout)"
  by (rule build_states_rows_ok)

section \<open>What Reconcile leaves\<close>

lemma build_states_unique:
  "set es = set fs \<Longrightarrow> distinct (map ev_pos es) \<Longrightarrow> distinct (map ev_pos fs) \<Longrightarrow>
    build_states now es timeout = build_states now fs timeout"
  unfolding build_states_def by (drule (2) replay_order_unique) (simp only:)

lemma names_distinct: "distinct redemption_event_names"
  by (simp add: redemption_event_names_def)

lemma reconcile_unfold:
  assumes "distinct (map ev_pos (contract_events chain addr redemption_event_names ces))"
  shows "redemption_reconcile faults (\<lambda>n. Some (ce_list_by_name chain addr n ces)) now gen timeout s =
    rebuild faults rd_upsert rd_prune gen (map (\<lambda>r. r\<lparr>rd_generation := gen\<rparr>)
      (vals (build_states now (contract_events chain addr redemption_event_names ces) timeout))) s"
proof -
  have "build_states now (concat (map (\<lambda>n. ce_list_by_name chain addr n ces) redemption_event_names)) timeout =
      build_states now (contract_events chain addr redemption_event_names ces) timeout"
  proof (rule build_states_unique)
    show "set (concat (map (\<lambda>n. ce_list_by_name chain addr n ces) redemption_event_names)) =
        set (contract_events chain addr redemption_event_names ces)"
      unfolding set_list_by_names by (simp add: contract_events_def)
    show "distinct (map ev_pos (concat (map (\<lambda>n. ce_list_by_name chain addr n ces) redemption_event_names)))"
      by (rule listed_positions [OF names_distinct assms])
  qed (rule assms)
  then show ?thesis by (simp add: redemption_reconcile_def bindM_def list_events_memory Let_def)
qed

lemma derived_rows:
  assumes "rows_ok es timeout st"
  shows "map_of (rev (map (\<lambda>r. (rd_id r, r)) (map (\<lambda>r. r\<lparr>rd_generation := gen\<rparr>) (vals st)))) i =
    map_option (\<lambda>r. r\<lparr>rd_generation := gen\<rparr>) (lookup st i)"
proof (rule map_of_stamped)
  show "distinct (map fst st)" using assms by (simp add: rows_ok_def)
  then show "\<forall>(i, v) \<in> set st. rd_id v = i" using assms by (auto simp: rows_ok_def)
qed simp

text \<open>
  When no call fails, Reconcile leaves in the read model exactly the requests derived from
  the stored escrow events, stamped with its generation: rows of rolled-back events are gone,
  diverged rows are repaired, and neither the order the events are stored in nor what the model
  held before matters.
\<close>

theorem redemption_reconcile_exact:
  assumes "\<forall>i. faults i = NoFault" and "distinct (map fst (rm_rows s))"
    and "\<forall>i r. lookup (rm_rows s) i = Some r \<longrightarrow> rd_generation r \<noteq> gen"
    and "distinct (map ev_pos (contract_events chain addr redemption_event_names ces))"
  shows "\<exists>s'. redemption_reconcile faults (\<lambda>n. Some (ce_list_by_name chain addr n ces)) now gen timeout s = (Inr (), s') \<and>
    (\<forall>i. lookup (rm_rows s') i = map_option (\<lambda>r. r\<lparr>rd_generation := gen\<rparr>)
       (lookup (build_states now (contract_events chain addr redemption_event_names ces) timeout) i))"
proof -
  let ?st = "build_states now (contract_events chain addr redemption_event_names ces) timeout"
  have "\<exists>s'. rebuild faults rd_upsert rd_prune gen (map (\<lambda>r. r\<lparr>rd_generation := gen\<rparr>) (vals ?st)) s = (Inr (), s') \<and>
      (\<forall>k. lookup (rm_rows s') k =
        map_of (rev (map (\<lambda>r. (rd_id r, r)) (map (\<lambda>r. r\<lparr>rd_generation := gen\<rparr>) (vals ?st)))) k)"
    by (rule rdm.rebuild_exact) (use assms in auto)
  then show ?thesis
    unfolding reconcile_unfold [OF assms(4)] derived_rows [OF build_states_rows_ok] .
qed

text \<open>
  however far a Reconcile gets before a repository call fails, a request that was readable
  before it and is still derived from the events is readable afterwards, so no reader sees a
  surviving request disappear during a rebuild.
\<close>

theorem redemption_reconcile_no_gap:
  assumes "distinct (map fst (rm_rows s))"
    and "\<forall>i r. lookup (rm_rows s) i = Some r \<longrightarrow> rd_generation r \<noteq> gen"
    and "distinct (map ev_pos (contract_events chain addr redemption_event_names ces))"
    and "lookup (rm_rows s) i \<noteq> None"
    and "lookup (build_states now (contract_events chain addr redemption_event_names ces) timeout) i \<noteq> None"
  shows "lookup (rm_rows (snd (redemption_reconcile faults (\<lambda>n. Some (ce_list_by_name chain addr n ces))
    now gen timeout s))) i \<noteq> None"
proof -
  let ?st = "build_states now (contract_events chain addr redemption_event_names ces) timeout"
  obtain r where r: "lookup ?st i = Some r" using assms(5) by blast
  have "rd_id r = i" using build_states_rows_ok r unfolding rows_ok_def by blast
  moreover have "r \<in> set (vals ?st)" using map_of_SomeD [OF r] by force
  ultimately have key: "i \<in> rd_id ` set (map (\<lambda>r. r\<lparr>rd_generation := gen\<rparr>) (vals ?st))"
    unfolding set_map [of "\<lambda>r. r\<lparr>rd_generation := gen\<rparr>"] image_image by (simp add: image_iff) (metis)
  obtain v where v: "lookup (rm_rows s) i = Some v" using assms(4) by blast
  show ?thesis
    unfolding reconcile_unfold [OF assms(3)]
    by (rule rdm.rebuild_no_gap [OF assms(1) _ _ v key]) (use assms(2) in auto)
qed

text \<open>
  A request is shown claimable at a block exactly when it is Funded, its funding block is
  known, and at least the finality depth of blocks has followed it; and once claimable it stays
  so at every later block.
\<close>

theorem claimable_needs_depth:
  assumes "0 < finality"
  shows "(claimable r current finality \<longleftrightarrow> rd_status r = RedemptionFunded \<and> 0 < rd_funded_at_block r \<and>
      unat (rd_funded_at_block r) + unat finality \<le> unat current) \<and>
    (claimable r current finality \<longrightarrow> current \<le> later \<longrightarrow> claimable r later finality)"
proof -
  have fin: "0 < unat finality" using assms by (simp add: unat_gt_0 word_gt_0)
  have depth: "claimable r c finality \<longleftrightarrow> rd_status r = RedemptionFunded \<and> 0 < rd_funded_at_block r \<and>
      unat (rd_funded_at_block r) + unat finality \<le> unat c" for c
  proof (cases "c < rd_funded_at_block r")
    case True
    then have "unat c < unat (rd_funded_at_block r)" by (simp add: word_less_nat_alt)
    with True assms show ?thesis by (auto simp: claimable_def redemption_confirmations_def)
  next
    case False
    then have "unat (c - rd_funded_at_block r) = unat c - unat (rd_funded_at_block r)"
      and "unat (rd_funded_at_block r) \<le> unat c" by (simp_all add: unat_sub not_less word_le_nat_alt)
    with False show ?thesis
      using fin by (auto simp: claimable_def redemption_confirmations_def word_le_nat_alt word_gt_0)
  qed
  then show ?thesis by (auto simp: word_le_nat_alt)
qed

section \<open>Applied\<close>

definition demo_event :: "string \<Rightarrow> u64 \<Rightarrow> (string \<times> event_value) list \<Rightarrow> chain_event" where
  "demo_event name block fs = \<lparr>ev_chain_id = 1, ev_address = ''e'', ev_tx_hash = ''0xt'', ev_log_index = 0,
     ev_block_number = block, ev_block_hash = [], ev_name = name, ev_data = fs, ev_removed = False,
     ev_indexed_at = 0\<rparr>"

definition demo_history :: "chain_event list" where
  "demo_history = [demo_event ''RedemptionFunded'' 6 [(''id'', VString ''1'')],
     demo_event ''RedemptionRequested'' 5 [(''id'', VString ''1''), (''createdAt'', VUint64 100)]]"

definition demo_events :: event_store where
  "demo_events = map (\<lambda>e. ((1, ''e'', ''0xt'', ev_block_number e), e)) demo_history"

definition demo_rows :: "redemption_store read_model" where
  "demo_rows = \<lparr>rm_tick = 0, rm_rows = [(''1'', (requested 0 50 (demo_event ''x'' 1 []) ''1''))]\<rparr>"

lemmas demo_redemption = demo_history_def demo_event_def demo_events_def demo_rows_def contract_events_def
  redemption_event_names_def ev_pos_def replay_order_def events_of_def str_field_def ev_field_def to_string_def
  requested_def Let_def

lemma demo_rows_ok: "distinct (map fst (rm_rows demo_rows))" "lookup (rm_rows demo_rows) ''1'' \<noteq> None"
    "\<forall>i r. lookup (rm_rows demo_rows) i = Some r \<longrightarrow> rd_generation r \<noteq> 7"
  by (simp_all add: demo_rows_def requested_def Let_def)

lemma demo_replay: "replay_order demo_history = rev demo_history"
  by (simp add: demo_redemption less_eq_prod_def)

lemma demo_contract_events: "contract_events 1 ''e'' redemption_event_names demo_events = demo_history"
  by (simp add: demo_redemption)

lemma demo_positions: "distinct (map ev_pos demo_history)"
  by (simp add: demo_redemption)

lemma demo_built: "lookup (build_states 0 demo_history 50) ''1'' \<noteq> None"
  unfolding build_states_def demo_replay
  by (simp add: demo_redemption redemption_step_def when_status_def)

theorem projection_follows_contract_witness:
  "status_in (build_states 0 demo_history 50) ''1'' = RedemptionFunded"
proof (rule projection_follows_contract)
  have "map ev_name (events_of ''1'' (replay_order demo_history)) = [''RedemptionRequested'', ''RedemptionFunded'']"
    unfolding demo_replay by (simp add: demo_redemption)
  then show "contract_run RedemptionNone (map ev_name (events_of ''1'' (replay_order demo_history))) RedemptionFunded"
    by (simp only:)
      (rule contract_run.move, rule contract_step.request, rule contract_run.move, rule contract_step.fund,
        rule contract_run.stop)
qed simp

theorem redemption_reconcile_exact_witness:
  "\<exists>s'. redemption_reconcile (\<lambda>_. NoFault) (\<lambda>n. Some (ce_list_by_name 1 ''e'' n demo_events)) 0 7 50 demo_rows = (Inr (), s') \<and>
    (\<forall>i. lookup (rm_rows s') i = map_option (\<lambda>r. r\<lparr>rd_generation := 7\<rparr>) (lookup (build_states 0 demo_history 50) i))"
  using redemption_reconcile_exact [of "\<lambda>_. NoFault" demo_rows 7 1 "''e''" demo_events 0 50, OF _ demo_rows_ok(1,3)]
  by (simp add: demo_contract_events demo_positions)

theorem redemption_reconcile_no_gap_witness:
  "lookup (rm_rows (snd (redemption_reconcile (\<lambda>i. if i = 0 then FaultAfter else NoFault)
     (\<lambda>n. Some (ce_list_by_name 1 ''e'' n demo_events)) 0 7 50 demo_rows))) ''1'' \<noteq> None"
  by (rule redemption_reconcile_no_gap [OF demo_rows_ok(1,3) _ demo_rows_ok(2)])
    (use demo_built in \<open>simp_all add: demo_contract_events demo_positions\<close>)

theorem claimable_needs_depth_witness:
  "let r = (requested 0 50 (demo_event ''x'' 1 []) ''1'')\<lparr>rd_status := RedemptionFunded, rd_funded_at_block := 6\<rparr>
   in claimable r 18 12 \<and> \<not> claimable r 17 12 \<and> claimable r 20 12"
  using claimable_needs_depth [where r = "(requested 0 50 (demo_event ''x'' 1 []) ''1'')
      \<lparr>rd_status := RedemptionFunded, rd_funded_at_block := 6\<rparr>" and finality = 12]
  by (simp add: Let_def)

end
