(* ===== verification/Sales.thy ===== *)
theory Sales
  imports Redemption
begin

text \<open>
  The sales read model: purchases derived from Vault events (server/internal/sales/projector.go),
  their memory repository, a slice (server/internal/dal/memory/purchase.go), the list the API
  shows (server/internal/sales/sales.go) and the classification of the Vault's price strategy
  with its cache (server/internal/sales/oracle.go). Contract calls are a parameter.
\<close>

section \<open>Purchases\<close>

record purchase =
  pu_id :: string
  pu_buyer :: string
  pu_recipient :: string
  pu_token_amount :: string
  pu_quote_amount :: string
  pu_tx_hash :: string
  pu_block_number :: u64
  pu_created_at :: gotime
  pu_generation :: int

definition purchase_of :: "chain_event \<Rightarrow> purchase" where
  "purchase_of e =
     \<lparr>pu_id = ev_tx_hash e @ '':'' @ nat_digits (unat (ev_log_index e)), pu_buyer = str_field e ''buyer'',
      pu_recipient = str_field e ''recipient'', pu_token_amount = str_field e ''tokenAmount'',
      pu_quote_amount = str_field e ''quoteAmount'', pu_tx_hash = ev_tx_hash e,
      pu_block_number = ev_block_number e, pu_created_at = ev_indexed_at e, pu_generation = 0\<rparr>"

definition build_purchases :: "chain_event list \<Rightarrow> purchase list" where
  "build_purchases es = map purchase_of (filter (\<lambda>e. ev_name e = ''Purchased'') es)"

section \<open>Repository\<close>

definition pu_create :: "purchase \<Rightarrow> purchase list \<Rightarrow> purchase list" where
  "pu_create p l = l @ [p]"

definition pu_list :: "purchase list \<Rightarrow> purchase list" where
  "pu_list l = l"

definition pu_delete_all :: "purchase list \<Rightarrow> purchase list" where
  "pu_delete_all l = []"

fun pu_upsert :: "purchase \<Rightarrow> purchase list \<Rightarrow> purchase list" where
  "pu_upsert p [] = [p]"
| "pu_upsert p (q # l) = (if pu_id q = pu_id p then p # l else q # pu_upsert p l)"

definition pu_prune :: "int \<Rightarrow> purchase list \<Rightarrow> purchase list" where
  "pu_prune gen l = filter (\<lambda>p. pu_generation p = gen) l"

definition pu_list_page :: "keyset_cursor option \<Rightarrow> int \<Rightarrow> purchase list \<Rightarrow> purchase list \<times> keyset_cursor option" where
  "pu_list_page cursor limit l =
     keyset_page (rev (sort_key (\<lambda>p. (pu_block_number p, pu_id p)) l))
       (\<lambda>p. wrap64 (uint (pu_block_number p))) pu_id cursor limit True"

definition pu_find :: "purchase list \<Rightarrow> string \<Rightarrow> purchase option" where
  "pu_find l i = find (\<lambda>p. pu_id p = i) l"

lemma pu_find_upsert: "pu_find (pu_upsert p l) i = (if i = pu_id p then Some p else pu_find l i)"
  by (induction l) (auto simp: pu_find_def)

lemma ids_upsert: "set (map pu_id (pu_upsert p l)) = insert (pu_id p) (set (map pu_id l))"
  by (induction l) auto

lemma distinct_upsert: "distinct (map pu_id l) \<Longrightarrow> distinct (map pu_id (pu_upsert p l))"
proof (induction l)
  case Nil
  then show ?case by simp
next
  case (Cons q l)
  then show ?case using ids_upsert [of p l] by auto
qed

lemma pu_find_prune:
  "distinct (map pu_id l) \<Longrightarrow> pu_find (pu_prune g l) i =
    (case pu_find l i of None \<Rightarrow> None | Some p \<Rightarrow> if pu_generation p = g then Some p else None)"
  by (induction l) (auto simp: pu_find_def pu_prune_def find_None_iff rev_image_eqI split: option.split
      dest!: find_SomeD)

interpretation pum: generation_store pu_find pu_upsert pu_prune pu_id pu_generation "\<lambda>l. distinct (map pu_id l)"
  by unfold_locales
    (auto simp: pu_find_upsert distinct_upsert pu_find_prune, simp add: pu_prune_def distinct_map_filter)

section \<open>Reconcile and list\<close>

definition sales_event_names :: "string list" where
  "sales_event_names = [''Purchased'', ''TreasuryChanged'', ''StrategyChanged'', ''ProceedsWithdrawn'',
     ''MinPurchaseQuoteChanged'']"

definition sales_reconcile ::
  "(nat \<Rightarrow> fault) \<Rightarrow> (string \<Rightarrow> chain_event list option) \<Rightarrow> int \<Rightarrow> (rm_error, purchase list read_model, unit) act" where
  "sales_reconcile faults lister gen =
     bindM (list_events lister sales_event_names) (\<lambda>all.
     rebuild faults pu_upsert pu_prune gen (map (\<lambda>p. p\<lparr>pu_generation := gen\<rparr>) (build_purchases all)))"

definition confirmations_of :: "u64 \<Rightarrow> u64 \<Rightarrow> u64" where
  "confirmations_of current block = (if current < block then 0 else current - block)"

definition list_purchases ::
  "u64 \<Rightarrow> keyset_cursor option \<Rightarrow> int \<Rightarrow> purchase list \<Rightarrow> (purchase \<times> u64) list \<times> keyset_cursor option" where
  "list_purchases current cursor limit l =
     (case pu_list_page cursor limit l of
        (items, next_cursor) \<Rightarrow>
          (map (\<lambda>p. (p, confirmations_of current (pu_block_number p))) items, next_cursor))"

text \<open>Fills have different ids when their logs have different positions in a transaction.\<close>

lemma decimal_inject: "nat_digits m = nat_digits n \<longleftrightarrow> m = n"
  by (metis option.inject scan_nat_digits)

lemma nat_digits_no_colon: "CHR '':'' \<notin> set (nat_digits n)"
proof (induction n rule: nat_digits.induct)
  case (1 n)
  have digit: "digit_char d \<noteq> CHR '':''" if "d < 10" for d
  proof
    assume "digit_char d = CHR '':''"
    then have "char_digit (CHR '':'') = Some d" using that char_digit_digit_char by metis
    moreover have "char_digit (CHR '':'') = None" by (simp add: char_digit_def)
    ultimately show False by simp
  qed
  show ?case
  proof (cases "n < 10")
    case True
    then show ?thesis using digit [of n] by (simp add: nat_digits.simps)
  next
    case False
    then show ?thesis using 1 digit [of "n mod 10"] by (subst nat_digits.simps) auto
  qed
qed

lemma split_at_first:
  "ys @ c # xs = vs @ c # us \<Longrightarrow> c \<notin> set ys \<Longrightarrow> c \<notin> set vs \<Longrightarrow> ys = vs \<and> xs = us"
proof (induction ys arbitrary: vs)
  case Nil
  then show ?case by (cases vs) auto
next
  case (Cons y ys)
  then show ?case by (cases vs) auto
qed

lemma split_at_last:
  assumes "xs @ c # ys = us @ c # vs" and "c \<notin> set ys" and "c \<notin> set vs"
  shows "xs = us \<and> ys = vs"
proof -
  have "rev (xs @ c # ys) = rev (us @ c # vs)" using assms(1) by (rule arg_cong)
  then have "rev ys @ c # rev xs = rev vs @ c # rev us" by simp
  from split_at_first [OF this] assms(2,3) show ?thesis by simp
qed

lemma purchase_id_inject:
  "pu_id (purchase_of e) = pu_id (purchase_of f) \<longleftrightarrow> ev_tx_hash e = ev_tx_hash f \<and> ev_log_index e = ev_log_index f"
proof
  assume "pu_id (purchase_of e) = pu_id (purchase_of f)"
  then have "ev_tx_hash e @ CHR '':'' # nat_digits (unat (ev_log_index e)) =
      ev_tx_hash f @ CHR '':'' # nat_digits (unat (ev_log_index f))" by (simp add: purchase_of_def)
  from split_at_last [OF this nat_digits_no_colon nat_digits_no_colon]
  show "ev_tx_hash e = ev_tx_hash f \<and> ev_log_index e = ev_log_index f"
    by (simp add: decimal_inject word_unat_eq_iff)
qed (simp add: purchase_of_def)

lemma fills_distinct:
  assumes "wf_store ev_key ces"
  shows "inj_on (\<lambda>e. pu_id (purchase_of e)) (set (contract_events chain addr ns ces))"
proof (rule inj_onI)
  fix e f assume ef: "e \<in> set (contract_events chain addr ns ces)" "f \<in> set (contract_events chain addr ns ces)"
    and "pu_id (purchase_of e) = pu_id (purchase_of f)"
  then have key: "ev_key e = ev_key f" by (auto simp: purchase_id_inject contract_events_def ev_key_def)
  have "e \<in> set (vals ces)" "f \<in> set (vals ces)" using ef unfolding contract_events_def by simp_all
  then have "lookup ces (ev_key e) = Some e" "lookup ces (ev_key f) = Some f"
    unfolding wf_store_vals [OF assms] .
  then show "e = f" unfolding key by simp
qed

text \<open>
  When no call fails, Reconcile leaves exactly one row per Purchased log stored for the
  Vault, with that log's parties, amounts and block, under the id made of its transaction hash
  and log index, and no other row: look-ups for any other id find nothing.
\<close>

theorem sales_reconcile_exact:
  assumes "\<forall>i. faults i = NoFault" and "distinct (map pu_id (rm_rows s))"
    and "\<forall>p \<in> set (rm_rows s). pu_generation p \<noteq> gen" and "wf_store ev_key ces"
  shows "\<exists>s'. sales_reconcile faults (\<lambda>n. Some (ce_list_by_name chain addr n ces)) gen s = (Inr (), s') \<and>
    (\<forall>i p. pu_find (rm_rows s') i = Some p \<longleftrightarrow>
      (\<exists>e \<in> set (contract_events chain addr [''Purchased''] ces). pu_id (purchase_of e) = i \<and>
         p = (purchase_of e)\<lparr>pu_generation := gen\<rparr>))"
proof -
  define all where "all = concat (map (\<lambda>n. ce_list_by_name chain addr n ces) sales_event_names)"
  define rows where "rows = map (\<lambda>p. p\<lparr>pu_generation := gen\<rparr>) (build_purchases all)"
  have run: "sales_reconcile faults (\<lambda>n. Some (ce_list_by_name chain addr n ces)) gen s =
      rebuild faults pu_upsert pu_prune gen rows s"
    by (simp add: sales_reconcile_def bindM_def list_events_memory all_def rows_def)
  have set_all: "set all = set (contract_events chain addr sales_event_names ces)"
    unfolding all_def set_list_by_names by (simp add: contract_events_def)
  have old: "pu_generation v \<noteq> gen" if "pu_find (rm_rows s) k = Some v" for k v
    using that assms(3) by (auto simp: pu_find_def dest: find_SomeD)
  have stamped: "\<forall>r \<in> set rows. pu_generation r = gen" by (simp add: rows_def)
  have "\<exists>s'. rebuild faults pu_upsert pu_prune gen rows s = (Inr (), s') \<and>
      (\<forall>k. pu_find (rm_rows s') k = map_of (rev (map (\<lambda>r. (pu_id r, r)) rows)) k)"
    by (rule pum.rebuild_exact [OF assms(1,2) stamped], erule old)
  then obtain s'
    where s': "rebuild faults pu_upsert pu_prune gen rows s = (Inr (), s')"
      and get: "\<And>k. pu_find (rm_rows s') k = map_of (rev (map (\<lambda>r. (pu_id r, r)) rows)) k" by blast
  have set_fills: "{e \<in> set all. ev_name e = ''Purchased''} = set (contract_events chain addr [''Purchased''] ces)"
    unfolding set_all by (auto simp: contract_events_def sales_event_names_def)
  have mem: "(k, p) \<in> set (rev (map (\<lambda>r. (pu_id r, r)) rows)) \<longleftrightarrow>
      (\<exists>e \<in> set (contract_events chain addr [''Purchased''] ces). pu_id (purchase_of e) = k \<and>
        p = (purchase_of e)\<lparr>pu_generation := gen\<rparr>)" for k p
    unfolding set_fills [symmetric] rows_def build_purchases_def by auto
  have unique: "p = q" if "(k, p) \<in> set (rev (map (\<lambda>r. (pu_id r, r)) rows))"
      "(k, q) \<in> set (rev (map (\<lambda>r. (pu_id r, r)) rows))" for k p q
  proof -
    from that obtain e f where e: "e \<in> set (contract_events chain addr [''Purchased''] ces)"
        "pu_id (purchase_of e) = k" "p = (purchase_of e)\<lparr>pu_generation := gen\<rparr>"
      and f: "f \<in> set (contract_events chain addr [''Purchased''] ces)"
        "pu_id (purchase_of f) = k" "q = (purchase_of f)\<lparr>pu_generation := gen\<rparr>"
      unfolding mem by blast
    have "e = f"
      by (rule inj_onD [OF fills_distinct [OF assms(4)] _ e(1) f(1)]) (simp add: e f)
    with e f show ?thesis by simp
  qed
  have "pu_find (rm_rows s') k = Some p \<longleftrightarrow> (k, p) \<in> set (rev (map (\<lambda>r. (pu_id r, r)) rows))" for k p
  proof
    assume "pu_find (rm_rows s') k = Some p"
    then show "(k, p) \<in> set (rev (map (\<lambda>r. (pu_id r, r)) rows))" unfolding get by (rule map_of_SomeD)
  next
    assume kp: "(k, p) \<in> set (rev (map (\<lambda>r. (pu_id r, r)) rows))"
    then obtain q where q: "map_of (rev (map (\<lambda>r. (pu_id r, r)) rows)) k = Some q" by (meson weak_map_of_SomeI)
    then show "pu_find (rm_rows s') k = Some p" using unique [OF kp map_of_SomeD [OF q]] get by simp
  qed
  with s' run mem show ?thesis by simp
qed

section \<open>The kind of the price strategy\<close>

datatype strategy_kind = KindFixed | KindOracle | KindUnknown

text \<open>A failed \<^verbatim>\<open>eth_call\<close>: whether it carries \<^verbatim>\<open>ErrorData\<close>, its \<^verbatim>\<open>ErrorCode\<close>, and its lower-cased text.\<close>

record call_error =
  cl_has_data :: bool
  cl_code :: "int option"
  cl_text :: string

definition is_revert :: "call_error \<Rightarrow> bool" where
  "is_revert x =
     (if \<not> cl_has_data x then False
      else if cl_code x = Some 3 then True
      else contains_string (to_lower (cl_text x)) ''execution reverted'')"

text \<open>One call per number: \<open>calls i strategy method\<close> is \<open>None\<close> for success. The state is the cache.\<close>

record kind_state =
  ks_tick :: nat
  ks_kinds :: "(address, strategy_kind) store"

definition probe :: "(nat \<Rightarrow> address \<Rightarrow> string \<Rightarrow> call_error option) \<Rightarrow> address \<Rightarrow> string
    \<Rightarrow> kind_state \<Rightarrow> call_error option \<times> kind_state" where
  "probe calls strategy m s = (calls (ks_tick s) strategy m, s\<lparr>ks_tick := Suc (ks_tick s)\<rparr>)"

definition strategy_kind_of ::
  "(nat \<Rightarrow> address \<Rightarrow> string \<Rightarrow> call_error option) \<Rightarrow> address \<Rightarrow> kind_state \<Rightarrow> strategy_kind \<times> kind_state" where
  "strategy_kind_of calls strategy s =
     (case lookup (ks_kinds s) strategy of
        Some k \<Rightarrow> (k, s)
      | None \<Rightarrow>
          (let (kind, s') =
             (case probe calls strategy ''feed'' s of
                (None, s1) \<Rightarrow> (KindOracle, s1)
              | (Some x, s1) \<Rightarrow>
                  if is_revert x then
                    (case probe calls strategy ''purchasePricePerWholeToken'' s1 of
                       (None, s2) \<Rightarrow> (KindFixed, s2)
                     | (Some _, s2) \<Rightarrow> (KindUnknown, s2))
                  else (KindUnknown, s1))
           in if kind \<noteq> KindUnknown then (kind, s'\<lparr>ks_kinds := put strategy kind (ks_kinds s')\<rparr>) else (kind, s')))"

text \<open>
  What makes a strategy's kind certain: an oracle answers \<^verbatim>\<open>feed()\<close> or fails to without a revert; a
  fixed-price strategy reverts on it.
\<close>

definition strategy_truth :: "(nat \<Rightarrow> address \<Rightarrow> string \<Rightarrow> call_error option) \<Rightarrow> (address \<Rightarrow> strategy_kind) \<Rightarrow> bool" where
  "strategy_truth calls kind \<longleftrightarrow> (\<forall>i a.
     (calls i a ''feed'' = None \<longrightarrow> kind a = KindOracle) \<and>
     (\<forall>x. calls i a ''feed'' = Some x \<longrightarrow> is_revert x \<longrightarrow> kind a \<noteq> KindOracle) \<and>
     (calls i a ''purchasePricePerWholeToken'' = None \<longrightarrow> kind a \<noteq> KindUnknown))"

definition kinds_true :: "(address \<Rightarrow> strategy_kind) \<Rightarrow> kind_state \<Rightarrow> bool" where
  "kinds_true kind s \<longleftrightarrow> (\<forall>a k. lookup (ks_kinds s) a = Some k \<longrightarrow> k = kind a \<and> k \<noteq> KindUnknown)"

text \<open>
  however transport failures and rate limits interleave with the probes, the reported kind is
  the true one or Unknown, only true kinds are ever cached, and a cached kind is answered without
  another call; a failing node can never make an oracle vault look like a fixed-price one.
\<close>

theorem strategy_kind_sound:
  assumes "strategy_truth calls kind" and "kinds_true kind s"
    and "strategy_kind_of calls a s = (k, s')"
  shows "(k = kind a \<or> k = KindUnknown) \<and> kinds_true kind s' \<and>
    (\<forall>c. lookup (ks_kinds s) a = Some c \<longrightarrow> k = c \<and> s' = s)"
proof (cases "lookup (ks_kinds s) a")
  case (Some c)
  with assms(2,3) show ?thesis by (auto simp: strategy_kind_of_def kinds_true_def)
next
  case None
  have truth: "calls i a ''feed'' = None \<Longrightarrow> kind a = KindOracle"
    "calls i a ''feed'' = Some x \<Longrightarrow> is_revert x \<Longrightarrow> kind a \<noteq> KindOracle"
    "calls i a ''purchasePricePerWholeToken'' = None \<Longrightarrow> kind a \<noteq> KindUnknown" for i x
    using assms(1) unfolding strategy_truth_def by blast+
  have keep: "kinds_true kind (s1\<lparr>ks_kinds := put a (kind a) (ks_kinds s)\<rparr>)" if "kind a \<noteq> KindUnknown" for s1
    using assms(2) that by (auto simp: kinds_true_def lookup_put)
  show ?thesis
  proof (cases "calls (ks_tick s) a ''feed''")
    case None': None
    then have "kind a = KindOracle" by (rule truth(1))
    with None None' assms(3) keep show ?thesis
      by (auto simp: strategy_kind_of_def probe_def Let_def)
  next
    case (Some x)
    show ?thesis
    proof (cases "is_revert x \<and> calls (Suc (ks_tick s)) a ''purchasePricePerWholeToken'' = None")
      case True
      then have "kind a = KindFixed"
        using truth(2) [OF Some] truth(3) [of "Suc (ks_tick s)"] by (cases "kind a") auto
      with True None Some assms(3) keep show ?thesis
        by (auto simp: strategy_kind_of_def probe_def Let_def)
    next
      case False
      then have "k = KindUnknown \<and> ks_kinds s' = ks_kinds s"
        using None Some assms(3)
        by (cases "is_revert x") (auto simp: strategy_kind_of_def probe_def Let_def split: option.splits)
      with None assms(2) show ?thesis by (simp add: kinds_true_def)
    qed
  qed
qed

section \<open>Applied\<close>

definition demo_fills :: event_store where
  "demo_fills = [((1, ''e'', ''0xt'', 0), demo_event ''Purchased'' 9 [(''buyer'', VString ''b'')])]"

lemma demo_fills_ok: "wf_store ev_key demo_fills"
    "contract_events 1 ''e'' [''Purchased''] demo_fills = [demo_event ''Purchased'' 9 [(''buyer'', VString ''b'')]]"
  by (simp_all add: demo_fills_def demo_event_def wf_store_def ev_key_def contract_events_def)

theorem sales_reconcile_exact_witness:
  "\<exists>s'. sales_reconcile (\<lambda>_. NoFault) (\<lambda>n. Some (ce_list_by_name 1 ''e'' n demo_fills)) 7 \<lparr>rm_tick = 0, rm_rows = []\<rparr> =
      (Inr (), s') \<and> (\<exists>p. pu_find (rm_rows s') ''0xt:0'' = Some p \<and> pu_buyer p = ''b'' \<and> pu_block_number p = 9)"
proof -
  let ?e = "demo_event ''Purchased'' 9 [(''buyer'', VString ''b'')]"
  obtain s' where run: "sales_reconcile (\<lambda>_. NoFault) (\<lambda>n. Some (ce_list_by_name 1 ''e'' n demo_fills)) 7
      \<lparr>rm_tick = 0, rm_rows = []\<rparr> = (Inr (), s')"
    and rows: "\<And>i p. pu_find (rm_rows s') i = Some p \<longleftrightarrow>
      pu_id (purchase_of ?e) = i \<and> p = (purchase_of ?e)\<lparr>pu_generation := 7\<rparr>"
    using sales_reconcile_exact [where faults = "\<lambda>_. NoFault" and s = "\<lparr>rm_tick = 0, rm_rows = []\<rparr>" and gen = 7
        and chain = 1 and addr = "''e''" and ces = demo_fills]
    by (auto simp: demo_fills_ok)
  have "pu_id (purchase_of ?e) = ''0xt:0''"
  proof -
    have "nat_digits 0 = ''0''" by code_simp
    then show ?thesis by (simp add: purchase_of_def demo_event_def)
  qed
  moreover have "pu_buyer (purchase_of ?e) = ''b''" "pu_block_number (purchase_of ?e) = 9"
    by (simp_all add: purchase_of_def demo_event_def str_field_def ev_field_def to_string_def)
  ultimately have "pu_find (rm_rows s') ''0xt:0'' = Some ((purchase_of ?e)\<lparr>pu_generation := 7\<rparr>)"
    unfolding rows by simp
  with run \<open>pu_buyer (purchase_of ?e) = ''b''\<close> \<open>pu_block_number (purchase_of ?e) = 9\<close> show ?thesis by simp
qed

definition demo_calls :: "nat \<Rightarrow> address \<Rightarrow> string \<Rightarrow> call_error option" where
  "demo_calls i a m = (if i = 0 then Some \<lparr>cl_has_data = False, cl_code = None, cl_text = ''timeout''\<rparr>
     else if m = ''feed'' then Some \<lparr>cl_has_data = True, cl_code = Some 3, cl_text = []\<rparr> else None)"

theorem strategy_kind_sound_witness:
  "let s0 = \<lparr>ks_tick = 0, ks_kinds = []\<rparr>; (k1, s1) = strategy_kind_of demo_calls 5 s0;
       (k2, s2) = strategy_kind_of demo_calls 5 s1
   in k1 = KindUnknown \<and> k2 = KindFixed \<and> kinds_true (\<lambda>_. KindFixed) s2"
proof -
  have truth: "strategy_truth demo_calls (\<lambda>_. KindFixed)"
    by (simp add: strategy_truth_def demo_calls_def is_revert_def)
  have start: "kinds_true (\<lambda>_. KindFixed) \<lparr>ks_tick = 0, ks_kinds = []\<rparr>" by (simp add: kinds_true_def)
  let ?s1 = "\<lparr>ks_tick = 1, ks_kinds = []\<rparr>" and ?s2 = "\<lparr>ks_tick = 3, ks_kinds = [(5, KindFixed)]\<rparr>"
  have one: "strategy_kind_of demo_calls 5 \<lparr>ks_tick = 0, ks_kinds = []\<rparr> = (KindUnknown, ?s1)"
    by (simp add: strategy_kind_of_def probe_def demo_calls_def is_revert_def Let_def)
  have two: "strategy_kind_of demo_calls 5 ?s1 = (KindFixed, ?s2)"
    by (simp add: strategy_kind_of_def probe_def demo_calls_def is_revert_def Let_def)
  have "kinds_true (\<lambda>_. KindFixed) ?s1" using strategy_kind_sound [OF truth start one] by blast
  from strategy_kind_sound [OF truth this two] show ?thesis unfolding Let_def one two prod.case by simp
qed

end
