(* ===== verification/Merkle.thy ===== *)
theory Merkle
  imports Codec
begin

text \<open>
  The income Merkle tree of server/internal/income/merkle.go. Keccak-256 (go-ethereum's
  \<^verbatim>\<open>crypto.Keccak256\<close>) is the parameter \<open>k\<close> of every definition; nothing is assumed of it. A hash
  is a 256-bit word: comparing two 32-byte arrays bytewise is comparing the words they spell.
\<close>

type_synonym keccak = "byte list \<Rightarrow> u256"

datatype merkle_error = ErrNoLeaves | ErrLeafAmount nat | ErrDuplicateLeaf | ErrLeafNotInTree

record leaf =
  lf_account :: address
  lf_amount :: "int option"

section \<open>Bytes\<close>

section \<open>The tree\<close>

definition leaf_hash :: "keccak \<Rightarrow> address \<Rightarrow> int \<Rightarrow> u256" where
  "leaf_hash k account amount =
     (let inner = k (left_pad 32 (address_bytes account) @ left_pad 32 (nat_bytes (nat \<bar>amount\<bar>)))
      in k (hash_bytes inner))"

definition hash_pair :: "keccak \<Rightarrow> u256 \<Rightarrow> u256 \<Rightarrow> u256" where
  "hash_pair k a b =
     (if a > b then k (hash_bytes b @ hash_bytes a) else k (hash_bytes a @ hash_bytes b))"

record tree =
  tr_nodes :: "u256 list"
  tr_by_hash :: "(u256, nat) store"

fun leaf_hashes :: "keccak \<Rightarrow> nat \<Rightarrow> leaf list \<Rightarrow> merkle_error + u256 list" where
  "leaf_hashes k i [] = Inr []"
| "leaf_hashes k i (l # ls) =
     (case lf_amount l of
        None \<Rightarrow> Inl (ErrLeafAmount i)
      | Some n \<Rightarrow>
          if n < 0 \<or> n \<ge> 2 ^ 256 then Inl (ErrLeafAmount i)
          else (case leaf_hashes k (Suc i) ls of
            Inl x \<Rightarrow> Inl x
          | Inr hs \<Rightarrow> Inr (leaf_hash k (lf_account l) n # hs)))"

fun has_adjacent_duplicate :: "u256 list \<Rightarrow> bool" where
  "has_adjacent_duplicate (x # y # ys) = (y = x \<or> has_adjacent_duplicate (y # ys))"
| "has_adjacent_duplicate _ = False"

text \<open>The loop \<^verbatim>\<open>for i := len(nodes)-1-n; i >= 0; i--\<close>: \<open>fill_nodes k i\<close> has indices below \<open>i\<close> left.\<close>

fun fill_nodes :: "keccak \<Rightarrow> nat \<Rightarrow> u256 list \<Rightarrow> u256 list" where
  "fill_nodes k 0 nodes = nodes"
| "fill_nodes k (Suc i) nodes =
     fill_nodes k i (nodes[i := hash_pair k (nodes ! (2 * i + 1)) (nodes ! (2 * i + 2))])"

fun index_leaves :: "nat \<Rightarrow> u256 list \<Rightarrow> (u256, nat) store \<Rightarrow> (u256, nat) store" where
  "index_leaves idx [] m = m"
| "index_leaves idx (h # hs) m = index_leaves (idx - 1) hs (put h idx m)"

definition build_tree :: "keccak \<Rightarrow> leaf list \<Rightarrow> merkle_error + tree" where
  "build_tree k leaves =
     (if leaves = [] then Inl ErrNoLeaves
      else case leaf_hashes k 0 leaves of
        Inl x \<Rightarrow> Inl x
      | Inr unsorted \<Rightarrow>
          (let hashes = sort unsorted; n = length hashes
           in if has_adjacent_duplicate hashes then Inl ErrDuplicateLeaf
              else Inr \<lparr>tr_nodes = fill_nodes k (n - 1) (replicate (n - 1) 0 @ rev hashes),
                        tr_by_hash = index_leaves (2 * n - 2) hashes []\<rparr>))"

definition tree_root :: "tree \<Rightarrow> u256" where
  "tree_root t = tr_nodes t ! 0"

fun proof_path :: "u256 list \<Rightarrow> nat \<Rightarrow> u256 list" where
  "proof_path nodes idx =
     (if idx = 0 then []
      else nodes ! (if idx mod 2 = 0 then idx - 1 else idx + 1) # proof_path nodes ((idx - 1) div 2))"

declare proof_path.simps [simp del]

definition tree_proof :: "keccak \<Rightarrow> tree \<Rightarrow> address \<Rightarrow> int \<Rightarrow> merkle_error + u256 list" where
  "tree_proof k t account amount =
     (case lookup (tr_by_hash t) (leaf_hash k account amount) of
        None \<Rightarrow> Inl ErrLeafNotInTree
      | Some idx \<Rightarrow> Inr (proof_path (tr_nodes t) idx))"

definition verify_proof :: "keccak \<Rightarrow> u256 \<Rightarrow> u256 \<Rightarrow> u256 list \<Rightarrow> bool" where
  "verify_proof k root leaf path \<longleftrightarrow> foldl (hash_pair k) leaf path = root"

section \<open>The heap invariant\<close>

definition heap_ok :: "keccak \<Rightarrow> nat \<Rightarrow> u256 list \<Rightarrow> bool" where
  "heap_ok k i nodes \<longleftrightarrow> (\<forall>j. i \<le> j \<longrightarrow> 2 * j + 2 < length nodes \<longrightarrow>
     nodes ! j = hash_pair k (nodes ! (2 * j + 1)) (nodes ! (2 * j + 2)))"

lemma length_fill_nodes [simp]: "length (fill_nodes k i nodes) = length nodes"
  by (induction i arbitrary: nodes) simp_all

lemma fill_nodes_above: "i \<le> j \<Longrightarrow> fill_nodes k i nodes ! j = nodes ! j"
  by (induction i arbitrary: nodes) simp_all

lemma fill_nodes_heap: "2 * i + 1 \<le> length nodes \<Longrightarrow> heap_ok k i nodes \<Longrightarrow> heap_ok k 0 (fill_nodes k i nodes)"
proof (induction i arbitrary: nodes)
  case 0
  then show ?case by simp
next
  case (Suc i)
  have "heap_ok k i (nodes[i := hash_pair k (nodes ! (2 * i + 1)) (nodes ! (2 * i + 2))])"
    unfolding heap_ok_def
  proof (intro allI impI)
    fix j assume j: "i \<le> j" "2 * j + 2 < length (nodes[i := hash_pair k (nodes ! (2 * i + 1)) (nodes ! (2 * i + 2))])"
    show "nodes[i := hash_pair k (nodes ! (2 * i + 1)) (nodes ! (2 * i + 2))] ! j =
        hash_pair k (nodes[i := hash_pair k (nodes ! (2 * i + 1)) (nodes ! (2 * i + 2))] ! (2 * j + 1))
          (nodes[i := hash_pair k (nodes ! (2 * i + 1)) (nodes ! (2 * i + 2))] ! (2 * j + 2))"
      using j Suc.prems by (cases "j = i") (auto simp: heap_ok_def nth_list_update)
  qed
  then show ?case using Suc by simp
qed

lemma hash_pair_commute: "hash_pair k a b = hash_pair k b a"
  by (auto simp: hash_pair_def)

lemma path_folds:
  assumes "heap_ok k 0 nodes" and "odd (length nodes)"
  shows "idx < length nodes \<Longrightarrow> foldl (hash_pair k) (nodes ! idx) (proof_path nodes idx) = nodes ! 0"
proof (induction idx rule: less_induct)
  case (less idx)
  show ?case
  proof (cases "idx = 0")
    case True
    then show ?thesis by (simp add: proof_path.simps)
  next
    case False
    define j where "j = (idx - 1) div 2"
    have j: "j < idx" "j < length nodes" using False less.prems by (auto simp: j_def)
    have children: "hash_pair k (nodes ! idx) (nodes ! (if idx mod 2 = 0 then idx - 1 else idx + 1)) = nodes ! j"
    proof (cases "even idx")
      case True
      then have "idx = 2 * j + 2" using False by (auto simp: j_def elim!: evenE)
      then show ?thesis using assms(1) less.prems by (simp add: heap_ok_def hash_pair_commute)
    next
      case odd: False
      then have idx: "idx = 2 * j + 1" by (auto simp: j_def elim!: oddE)
      moreover have "2 * j + 2 < length nodes" using assms(2) less.prems idx by presburger
      ultimately show ?thesis using assms(1) by (simp add: heap_ok_def)
    qed
    show ?thesis
      using less.IH [OF j] children False by (subst proof_path.simps) (simp add: j_def)
  qed
qed

section \<open>Every leaf has a verifying proof\<close>

lemma leaf_hashes_ok:
  "leaf_hashes k i ls = Inr hs \<Longrightarrow> hs = map (\<lambda>l. leaf_hash k (lf_account l) (the (lf_amount l))) ls \<and>
    (\<forall>l \<in> set ls. \<exists>n. lf_amount l = Some n \<and> 0 \<le> n \<and> n < 2 ^ 256)"
  by (induction ls arbitrary: i hs) (auto split: option.splits if_splits sum.splits)

lemma no_adjacent_duplicate: "sorted hs \<Longrightarrow> \<not> has_adjacent_duplicate hs \<Longrightarrow> distinct hs"
  by (induction hs rule: has_adjacent_duplicate.induct) auto

lemma index_leaves_other: "h \<notin> set hs \<Longrightarrow> lookup (index_leaves idx hs m) h = lookup m h"
  by (induction hs arbitrary: idx m) (auto simp: lookup_put)

lemma index_leaves_nth:
  "distinct hs \<Longrightarrow> i < length hs \<Longrightarrow> lookup (index_leaves idx hs m) (hs ! i) = Some (idx - i)"
proof (induction hs arbitrary: idx m i)
  case Nil
  then show ?case by simp
next
  case (Cons h hs)
  then show ?case by (cases i) (auto simp: index_leaves_other lookup_put)
qed

lemma build_tree_ok:
  assumes "build_tree k leaves = Inr t"
  defines "hs \<equiv> sort (map (\<lambda>l. leaf_hash k (lf_account l) (the (lf_amount l))) leaves)"
  shows "distinct hs" and "leaves \<noteq> []" and "\<forall>l \<in> set leaves. \<exists>n. lf_amount l = Some n \<and> 0 \<le> n \<and> n < 2 ^ 256"
    and "length (tr_nodes t) = 2 * length hs - 1" and "heap_ok k 0 (tr_nodes t)"
    and "\<And>i. i < length hs \<Longrightarrow> tr_nodes t ! (2 * length hs - 2 - i) = hs ! i"
    and "\<And>h. lookup (tr_by_hash t) h = lookup (index_leaves (2 * length hs - 2) hs []) h"
proof -
  from assms have leaves: "leaves \<noteq> []" by (auto simp: build_tree_def)
  from assms leaves obtain us where us: "leaf_hashes k 0 leaves = Inr us"
    by (auto simp: build_tree_def split: sum.splits)
  note ok = leaf_hashes_ok [OF us]
  have hs: "sort us = hs" using ok by (simp add: hs_def)
  have t: "\<not> has_adjacent_duplicate hs"
      "tr_nodes t = fill_nodes k (length hs - 1) (replicate (length hs - 1) 0 @ rev hs)"
      "tr_by_hash t = index_leaves (2 * length hs - 2) hs []"
    using assms leaves us hs by (auto simp: build_tree_def Let_def split: if_splits)
  have n: "length hs > 0" using leaves by (simp add: hs_def)
  show "leaves \<noteq> []" by (rule leaves)
  show "distinct hs" by (rule no_adjacent_duplicate [OF _ t(1)]) (simp add: hs_def)
  show "\<forall>l \<in> set leaves. \<exists>n. lf_amount l = Some n \<and> 0 \<le> n \<and> n < 2 ^ 256" using ok by simp
  show "length (tr_nodes t) = 2 * length hs - 1" using n by (simp add: t(2))
  show "heap_ok k 0 (tr_nodes t)"
    unfolding t(2) using n by (intro fill_nodes_heap) (auto simp: heap_ok_def)
  show "\<And>h. lookup (tr_by_hash t) h = lookup (index_leaves (2 * length hs - 2) hs []) h" by (simp add: t(3))
  fix i assume i: "i < length hs"
  have "tr_nodes t ! (2 * length hs - 2 - i) = (replicate (length hs - 1) 0 @ rev hs) ! (2 * length hs - 2 - i)"
    unfolding t(2) using i by (intro fill_nodes_above) simp
  also have "\<dots> = rev hs ! (length hs - 1 - i)"
  proof -
    have "\<not> 2 * length hs - 2 - i < length hs - 1" "2 * length hs - 2 - i - (length hs - 1) = length hs - 1 - i"
      using i by arith+
    then show ?thesis by (simp only: nth_append length_replicate if_False)
  qed
  also have "\<dots> = hs ! i" using i by (simp add: rev_nth)
  finally show "tr_nodes t ! (2 * length hs - 2 - i) = hs ! i" .
qed

lemma tree_proof_verifies:
  assumes "build_tree k leaves = Inr t" and "\<lparr>lf_account = a, lf_amount = Some n\<rparr> \<in> set leaves"
  shows "\<exists>path. tree_proof k t a n = Inr path \<and> verify_proof k (tree_root t) (leaf_hash k a n) path"
proof -
  define hs where "hs = sort (map (\<lambda>l. leaf_hash k (lf_account l) (the (lf_amount l))) leaves)"
  note ok = build_tree_ok [OF assms(1), folded hs_def]
  have "leaf_hash k a n \<in> set hs" using assms(2) by (force simp: hs_def)
  then obtain i where i: "i < length hs" "hs ! i = leaf_hash k a n" by (auto simp: in_set_conv_nth)
  let ?idx = "2 * length hs - 2 - i"
  have "lookup (tr_by_hash t) (leaf_hash k a n) = Some ?idx"
    using index_leaves_nth [OF ok(1) i(1)] by (simp add: ok(7) i(2))
  moreover have "foldl (hash_pair k) (tr_nodes t ! ?idx) (proof_path (tr_nodes t) ?idx) = tree_root t"
    unfolding tree_root_def using i by (intro path_folds ok(5)) (auto simp: ok(4))
  ultimately show ?thesis
    using ok(6) [OF i(1)] i(2) by (simp add: tree_proof_def verify_proof_def)
qed

text \<open>
  C9: whatever the hash function, for every leaf of a built tree \<^verbatim>\<open>Proof\<close> succeeds and the path it
  returns verifies against the root, which is what the distributor contract checks on a claim.
\<close>

theorem merkle_proof_verifies:
  assumes "build_tree k leaves = Inr t" and "\<lparr>lf_account = a, lf_amount = Some n\<rparr> \<in> set leaves"
  shows "\<exists>path. tree_proof k t a n = Inr path \<and> verify_proof k (tree_root t) (leaf_hash k a n) path"
  by (rule tree_proof_verifies [OF assms])

section \<open>Nothing but leaves verifies\<close>

text \<open>
  The inputs on which the tree and a verification call the hash function. A statement that two
  of them collide names the two byte strings, so it is not the mere existence of collisions.
\<close>

definition pair_input :: "u256 \<Rightarrow> u256 \<Rightarrow> byte list" where
  "pair_input a b = (if a > b then hash_bytes b @ hash_bytes a else hash_bytes a @ hash_bytes b)"

definition leaf_input :: "address \<Rightarrow> int \<Rightarrow> byte list" where
  "leaf_input a n = left_pad 32 (address_bytes a) @ left_pad 32 (nat_bytes (nat \<bar>n\<bar>))"

definition leaf_inputs :: "keccak \<Rightarrow> address \<Rightarrow> int \<Rightarrow> byte list list" where
  "leaf_inputs k a n = [leaf_input a n, hash_bytes (k (leaf_input a n))]"

definition tree_inputs :: "keccak \<Rightarrow> leaf list \<Rightarrow> tree \<Rightarrow> byte list list" where
  "tree_inputs k leaves t =
     concat (map (\<lambda>l. leaf_inputs k (lf_account l) (the (lf_amount l))) leaves) @
     map (\<lambda>j. pair_input (tr_nodes t ! (2 * j + 1)) (tr_nodes t ! (2 * j + 2))) [0..<length leaves - 1]"

fun fold_inputs :: "keccak \<Rightarrow> u256 \<Rightarrow> u256 list \<Rightarrow> byte list list" where
  "fold_inputs k h [] = []"
| "fold_inputs k h (p # ps) = pair_input h p # fold_inputs k (hash_pair k h p) ps"

definition claim_inputs :: "keccak \<Rightarrow> address \<Rightarrow> int \<Rightarrow> u256 list \<Rightarrow> byte list list" where
  "claim_inputs k a n path = leaf_inputs k a n @ fold_inputs k (leaf_hash k a n) path"

definition collides :: "keccak \<Rightarrow> byte list list \<Rightarrow> byte list list \<Rightarrow> bool" where
  "collides k X Y \<longleftrightarrow> (\<exists>x \<in> set X. \<exists>y \<in> set Y. x \<noteq> y \<and> k x = k y)"

lemma collidesI: "k x = k y \<Longrightarrow> x \<in> set X \<Longrightarrow> y \<in> set Y \<Longrightarrow> x = y \<or> collides k X Y"
  by (auto simp: collides_def)

lemma hash_pair_input: "hash_pair k a b = k (pair_input a b)"
  by (simp add: hash_pair_def pair_input_def)

lemma leaf_hash_input: "leaf_hash k a n = k (hash_bytes (k (leaf_input a n)))"
  by (simp add: leaf_hash_def leaf_input_def Let_def)

lemma length_pair_input [simp]: "length (pair_input a b) = 64"
  by (simp add: pair_input_def)

lemma pair_input_inject: "pair_input a b = pair_input c d \<Longrightarrow> a = c \<or> a = d"
  by (auto simp: pair_input_def split: if_splits)

lemma leaf_input_inject:
  assumes "leaf_input a m = leaf_input b n" and "0 \<le> m" "m < 2 ^ 256" "0 \<le> n" "n < 2 ^ 256"
  shows "a = b \<and> m = n"
proof -
  have fits: "nat \<bar>x\<bar> < 256 ^ 32" if "0 \<le> x" "x < 2 ^ 256" for x :: int
    using that by (simp add: nat_less_iff)
  have "length (left_pad 32 (address_bytes a)) = length (left_pad 32 (address_bytes b))"
    by (simp add: left_pad_def address_bytes_def)
  with assms(1) have "left_pad 32 (address_bytes a) = left_pad 32 (address_bytes b)"
    and "left_pad 32 (nat_bytes (nat \<bar>m\<bar>)) = left_pad 32 (nat_bytes (nat \<bar>n\<bar>))"
    unfolding leaf_input_def by simp_all
  then have "left_pad 32 (address_bytes a) = left_pad 32 (address_bytes b)"
    and "be_bytes 32 (nat \<bar>m\<bar>) = be_bytes 32 (nat \<bar>n\<bar>)"
    using fits [OF assms(2,3)] fits [OF assms(4,5)] by (simp_all add: left_pad_nat_bytes)
  moreover from this(2) have "nat \<bar>m\<bar> = nat \<bar>n\<bar>"
    using fits [OF assms(2,3)] fits [OF assms(4,5)] by (blast intro: be_bytes_inject)
  moreover have "unat x < 256 ^ 20" for x :: address
  proof -
    have "unat x < 2 ^ LENGTH(160)" by (rule unsigned_less)
    then show ?thesis by simp
  qed
  ultimately show ?thesis
    using assms(2,4) be_bytes_inject [of "unat a" 20 "unat b"]
    by (auto simp: left_pad_def address_bytes_def word_unat_eq_iff)
qed

text \<open>A node is an inner one, hashed from its children, or the hash of a leaf.\<close>

lemma node_cases:
  assumes "build_tree k leaves = Inr t" and "h \<in> set (tr_nodes t)"
  obtains (inner) a b where "a \<in> set (tr_nodes t)" "b \<in> set (tr_nodes t)" "h = hash_pair k a b"
      "pair_input a b \<in> set (tree_inputs k leaves t)"
    | (leaf) l where "l \<in> set leaves" "h = leaf_hash k (lf_account l) (the (lf_amount l))"
      "hash_bytes (k (leaf_input (lf_account l) (the (lf_amount l)))) \<in> set (tree_inputs k leaves t)"
proof -
  define hs where "hs = sort (map (\<lambda>l. leaf_hash k (lf_account l) (the (lf_amount l))) leaves)"
  note ok = build_tree_ok [OF assms(1), folded hs_def]
  have n: "length hs = length leaves" by (simp add: hs_def)
  obtain j where j: "j < length (tr_nodes t)" "h = tr_nodes t ! j"
    using assms(2) by (auto simp: in_set_conv_nth)
  show thesis
  proof (cases "2 * j + 2 < length (tr_nodes t)")
    case True
    have "pair_input (tr_nodes t ! (2 * j + 1)) (tr_nodes t ! (2 * j + 2)) \<in> set (tree_inputs k leaves t)"
      using True n by (auto simp: tree_inputs_def ok(4))
    then show ?thesis
      using True ok(5) j by (intro inner [of "tr_nodes t ! (2 * j + 1)" "tr_nodes t ! (2 * j + 2)"])
        (auto simp: heap_ok_def)
  next
    case False
    define i where "i = 2 * length hs - 2 - j"
    have i: "i < length hs" "j = 2 * length hs - 2 - i" using False j(1) ok(2,4) n by (auto simp: i_def)
    then have "h = hs ! i" using ok(6) j(2) by simp
    then have "h \<in> set hs" using i(1) by simp
    then obtain l where l: "l \<in> set leaves" "h = leaf_hash k (lf_account l) (the (lf_amount l))"
      by (auto simp: hs_def)
    then show ?thesis by (intro leaf [of l]) (auto simp: tree_inputs_def leaf_inputs_def)
  qed
qed

lemma fold_hits_node:
  assumes "build_tree k leaves = Inr t"
  shows "foldl (hash_pair k) h path \<in> set (tr_nodes t) \<Longrightarrow>
    h \<in> set (tr_nodes t) \<or> collides k (tree_inputs k leaves t) (fold_inputs k h path)"
proof (induction path arbitrary: h)
  case Nil
  then show ?case by simp
next
  case (Cons p path)
  let ?T = "tree_inputs k leaves t" and ?F = "fold_inputs k h (p # path)"
  from Cons consider "hash_pair k h p \<in> set (tr_nodes t)" | "collides k ?T (fold_inputs k (hash_pair k h p) path)"
    by auto
  then show ?case
  proof cases
    case 1
    show ?thesis
    proof (cases rule: node_cases [OF assms 1])
      case (1 a b)
      have "pair_input a b = pair_input h p \<or> collides k ?T ?F"
        using 1 by (intro collidesI) (simp_all add: hash_pair_input)
      then show ?thesis using pair_input_inject [of h p a b] 1 by auto
    next
      case (2 l)
      have "hash_bytes (k (leaf_input (lf_account l) (the (lf_amount l)))) = pair_input h p \<or> collides k ?T ?F"
        using 2 by (intro collidesI) (simp_all add: hash_pair_input leaf_hash_input)
      moreover have "hash_bytes x \<noteq> pair_input h p" for x
        by (metis length_hash_bytes length_pair_input numeral_eq_iff semiring_norm(85,87))
      ultimately show ?thesis by blast
    qed
  next
    case 2
    then show ?thesis by (auto simp: collides_def)
  qed
qed

text \<open>
  C10: a claim (account, amount) that verifies against the root of a built tree is one of its
  leaves, unless verifying it and building the tree called the hash function on two different
  inputs with the same hash: neither an inner node passed off as a leaf nor any other path helps.
\<close>

theorem merkle_claim_sound:
  assumes "build_tree k leaves = Inr t" and "0 \<le> n" and "n < 2 ^ 256"
    and "verify_proof k (tree_root t) (leaf_hash k a n) path"
  shows "\<lparr>lf_account = a, lf_amount = Some n\<rparr> \<in> set leaves \<or>
    collides k (tree_inputs k leaves t) (claim_inputs k a n path)"
proof -
  let ?T = "tree_inputs k leaves t" and ?C = "claim_inputs k a n path"
  define hs where "hs = sort (map (\<lambda>l. leaf_hash k (lf_account l) (the (lf_amount l))) leaves)"
  note ok = build_tree_ok [OF assms(1), folded hs_def]
  have "tr_nodes t \<noteq> []" using ok(2,4) by (cases "tr_nodes t"; cases leaves) (auto simp: hs_def)
  then have "foldl (hash_pair k) (leaf_hash k a n) path \<in> set (tr_nodes t)"
    using assms(4) by (simp add: verify_proof_def tree_root_def)
  from fold_hits_node [OF assms(1) this] consider "leaf_hash k a n \<in> set (tr_nodes t)"
    | "collides k ?T (fold_inputs k (leaf_hash k a n) path)" by blast
  then show ?thesis
  proof cases
    case 1
    show ?thesis
    proof (cases rule: node_cases [OF assms(1) 1])
      case (1 x y)
      have "pair_input x y = hash_bytes (k (leaf_input a n)) \<or> collides k ?T ?C"
        using 1 by (intro collidesI) (simp_all add: hash_pair_input leaf_hash_input claim_inputs_def leaf_inputs_def)
      moreover have "pair_input x y \<noteq> hash_bytes h" for h
        by (metis length_hash_bytes length_pair_input numeral_eq_iff semiring_norm(85,87))
      ultimately show ?thesis by blast
    next
      case (2 l)
      let ?l = "leaf_input (lf_account l) (the (lf_amount l))"
      obtain v where v: "lf_amount l = Some v" "0 \<le> v" "v < 2 ^ 256" using ok(3) 2(1) by blast
      have "hash_bytes (k ?l) = hash_bytes (k (leaf_input a n)) \<or> collides k ?T ?C"
        using 2 by (intro collidesI) (simp_all add: leaf_hash_input claim_inputs_def leaf_inputs_def)
      moreover have "?l = leaf_input a n \<or> collides k ?T ?C" if "k ?l = k (leaf_input a n)"
        using that 2(1) by (intro collidesI) (auto simp: tree_inputs_def claim_inputs_def leaf_inputs_def)
      moreover have "lf_account l = a \<and> v = n" if "?l = leaf_input a n"
        using that v assms(2,3) by (intro leaf_input_inject) simp_all
      ultimately show ?thesis using 2(1) v(1) by (cases l) auto
    qed
  next
    case 2
    then show ?thesis by (auto simp: collides_def claim_inputs_def)
  qed
qed

section \<open>Applied\<close>

text \<open>A toy hash, the last byte, on three leaves.\<close>

definition demo_keccak :: keccak where
  "demo_keccak bs = (if bs = [] then 0 else ucast (last bs))"

definition demo_leaves :: "leaf list" where
  "demo_leaves = [\<lparr>lf_account = 1, lf_amount = Some 5\<rparr>, \<lparr>lf_account = 2, lf_amount = Some 3\<rparr>,
     \<lparr>lf_account = 3, lf_amount = Some 9\<rparr>]"

lemma demo_keccak_hash: "demo_keccak (xs @ hash_bytes h) = ucast (word_of_nat (unat h mod 256) :: byte)"
proof -
  have "last (be_bytes n v) = word_of_nat (v mod 256) \<and> be_bytes n v \<noteq> []" if "0 < n" for n v
    using that by (cases n) simp_all
  then show ?thesis by (simp add: demo_keccak_def hash_bytes_def)
qed

lemma demo_keccak_leaf: "demo_keccak (leaf_input a (int (Suc n))) = ucast (word_of_nat (Suc n mod 256) :: byte)"
proof -
  have "nat_bytes (nat \<bar>int (Suc n)\<bar>) = nat_bytes (Suc n div 256) @ [word_of_nat (Suc n mod 256)]"
    by (subst nat_bytes.simps) (simp del: of_nat_Suc)
  then show ?thesis unfolding demo_keccak_def leaf_input_def left_pad_def by simp
qed

lemma demo_leaf_hash: "leaf_hash demo_keccak a (int (Suc n)) =
    ucast (word_of_nat (unat (ucast (word_of_nat (Suc n mod 256) :: byte) :: u256) mod 256) :: byte)"
  unfolding leaf_hash_input demo_keccak_leaf using demo_keccak_hash [of "[]"] by simp

lemma demo_leaf_hashes: "leaf_hash demo_keccak a 5 = 5" "leaf_hash demo_keccak a 3 = 3" "leaf_hash demo_keccak a 9 = 9"
  using demo_leaf_hash [of a 4] demo_leaf_hash [of a 2] demo_leaf_hash [of a 8] by simp_all

lemma demo_hash_pair: "hash_pair demo_keccak 3 5 = 5" "hash_pair demo_keccak 5 9 = 9" "hash_pair demo_keccak 9 5 = 9"
    "hash_pair demo_keccak 5 3 = 5"
  by (simp_all add: hash_pair_def demo_keccak_hash)

lemma fill_three: "fill_nodes k 2 [x, y, a, b, c] = [hash_pair k (hash_pair k b c) a, hash_pair k b c, a, b, c]"
  unfolding numeral_2_eq_2 fill_nodes.simps by simp

lemma demo_sort: "sort [5, 3, 9 :: u256] = [3, 5, 9]"
  by simp

lemma demo_tree: "build_tree demo_keccak demo_leaves =
    Inr \<lparr>tr_nodes = [9, 5, 9, 5, 3], tr_by_hash = index_leaves 4 [3, 5, 9] []\<rparr>"
proof -
  have "leaf_hashes demo_keccak 0 demo_leaves = Inr [5, 3, 9]"
    by (simp add: demo_leaves_def demo_leaf_hashes)
  moreover have "replicate 2 (0::u256) @ rev [3, 5, 9] = [0, 0, 9, 5, 3]" by (simp add: numeral_2_eq_2)
  ultimately show ?thesis
    by (simp add: build_tree_def demo_sort fill_three demo_hash_pair Let_def del: sort_key_simps) (simp add: demo_leaves_def)
qed

theorem merkle_proof_verifies_witness:
  "\<exists>t path. build_tree demo_keccak demo_leaves = Inr t \<and> tree_proof demo_keccak t 2 3 = Inr path \<and>
     verify_proof demo_keccak (tree_root t) (leaf_hash demo_keccak 2 3) path"
  using merkle_proof_verifies [OF demo_tree, of 2 3] demo_tree by (simp add: demo_leaves_def)

theorem merkle_claim_sound_witness:
  "\<exists>t. build_tree demo_keccak demo_leaves = Inr t \<and>
     verify_proof demo_keccak (tree_root t) (leaf_hash demo_keccak 2 3) [5, 9] \<and>
     (\<lparr>lf_account = 2, lf_amount = Some 3\<rparr> \<in> set demo_leaves \<or>
      collides demo_keccak (tree_inputs demo_keccak demo_leaves t) (claim_inputs demo_keccak 2 3 [5, 9]))"
proof -
  have "verify_proof demo_keccak (tree_root \<lparr>tr_nodes = [9, 5, 9, 5, 3], tr_by_hash = index_leaves 4 [3, 5, 9] []\<rparr>)
      (leaf_hash demo_keccak 2 3) [5, 9]"
    by (simp add: verify_proof_def tree_root_def demo_leaf_hashes demo_hash_pair)
  with merkle_claim_sound [OF demo_tree _ _ this] demo_tree show ?thesis by auto
qed

end
