(* ===== verification/Income.thy ===== *)
theory Income
  imports Redemption Merkle
begin

text \<open>
  Income entitlements and snapshots, server/internal/income/snapshot.go: replaying Transfer logs
  up to the record block, attributing escrowed tokens to redemption beneficiaries, splitting the
  total pro rata, and building and re-reading the snapshot document with its Merkle tree. The
  address codec of go-ethereum, JSON, RFC 8785 canonicalization, SHA-256 and the CID are
  parameters.
\<close>

section \<open>Parameters and data\<close>

text \<open>\<^verbatim>\<open>common.IsHexAddress\<close>, \<^verbatim>\<open>common.HexToAddress\<close> and \<^verbatim>\<open>Address.Hex\<close>.\<close>

record addr_codec =
  ac_is_hex :: "string \<Rightarrow> bool"
  ac_addr :: "string \<Rightarrow> address"
  ac_hex :: "address \<Rightarrow> string"

datatype income_error = ErrNoEligibleHolders | ErrIncompleteHistory | ErrBadTransfer | ErrNoAmount string
  | ErrBadRedemption string | ErrTree merkle_error | ErrMarshal | ErrCanonicalize | ErrCid
  | ErrParseSnapshot | ErrSnapshotEntry nat | ErrRootMismatch

record entitlement =
  en_account :: address
  en_balance :: int
  en_amount :: int

record entitlements =
  es_eligible_supply :: int
  es_distributed :: int
  es_entries :: "entitlement list"

record entitlement_input =
  ei_vault :: address
  ei_escrow :: address
  ei_record_block :: u64
  ei_total :: int
  ei_transfers :: "chain_event list"
  ei_redemption_events :: "chain_event list"
  ei_redemption_timeout :: int
  ei_minted :: "chain_event list"
  ei_burned :: "chain_event list"
  ei_check_supply :: bool

type_synonym balances = "(address, int) store"

section \<open>Replaying transfers\<close>

definition survivors :: "chain_event list \<Rightarrow> u64 \<Rightarrow> chain_event list" where
  "survivors es block = sort_key ev_pos (filter (\<lambda>e. \<not> ev_removed e \<and> ev_block_number e \<le> block) es)"

definition parse_transfer :: "addr_codec \<Rightarrow> chain_event \<Rightarrow> income_error + address \<times> address \<times> int" where
  "parse_transfer c e =
     (let f = str_field e ''from''; t = str_field e ''to''; v = str_field e ''value''
      in case big_set_string v of
           None \<Rightarrow> Inl ErrBadTransfer
         | Some n \<Rightarrow>
             if \<not> ac_is_hex c f \<or> \<not> ac_is_hex c t \<or> n < 0 then Inl ErrBadTransfer
             else Inr (ac_addr c f, ac_addr c t, n))"

definition debit :: "address \<Rightarrow> int \<Rightarrow> balances \<times> int \<Rightarrow> income_error + balances \<times> int" where
  "debit src v bs =
     (case bs of (balances, supply) \<Rightarrow>
        if src = 0 then Inr (balances, supply + v)
        else (case lookup balances src of
          None \<Rightarrow> Inl ErrIncompleteHistory
        | Some b \<Rightarrow> if b < v then Inl ErrIncompleteHistory else Inr (put src (b - v) balances, supply)))"

definition credit :: "address \<Rightarrow> int \<Rightarrow> balances \<Rightarrow> balances" where
  "credit dst v balances =
     (let b = (case lookup balances dst of None \<Rightarrow> 0 | Some b \<Rightarrow> b) in put dst (b + v) balances)"

definition transfer_step ::
  "addr_codec \<Rightarrow> chain_event \<Rightarrow> balances \<times> int \<Rightarrow> income_error + balances \<times> int" where
  "transfer_step c e bs =
     (case parse_transfer c e of
        Inl x \<Rightarrow> Inl x
      | Inr (src, dst, v) \<Rightarrow>
          if v = 0 then Inr bs
          else (case debit src v bs of
            Inl x \<Rightarrow> Inl x
          | Inr (balances, supply) \<Rightarrow>
              if dst = 0 then Inr (balances, supply - v)
              else Inr (credit dst v balances, supply)))"

fun replay_transfers ::
  "addr_codec \<Rightarrow> chain_event list \<Rightarrow> balances \<times> int \<Rightarrow> income_error + balances \<times> int" where
  "replay_transfers c [] bs = Inr bs"
| "replay_transfers c (e # es) bs =
     (case transfer_step c e bs of Inl x \<Rightarrow> Inl x | Inr bs' \<Rightarrow> replay_transfers c es bs')"

fun sum_amounts :: "string \<Rightarrow> chain_event list \<Rightarrow> int \<Rightarrow> income_error + int" where
  "sum_amounts name [] acc = Inr acc"
| "sum_amounts name (e # es) acc =
     (case big_set_string (str_field e ''amount'') of
        None \<Rightarrow> Inl (ErrNoAmount name)
      | Some n \<Rightarrow> sum_amounts name es (acc + n))"

definition check_supply :: "entitlement_input \<Rightarrow> int \<Rightarrow> income_error + unit" where
  "check_supply inp supply =
     (if \<not> ei_check_supply inp then Inr ()
      else (case sum_amounts ''Minted'' (survivors (ei_minted inp) (ei_record_block inp)) 0 of
        Inl x \<Rightarrow> Inl x
      | Inr minted \<Rightarrow>
          (case sum_amounts ''Burned'' (survivors (ei_burned inp) (ei_record_block inp)) 0 of
             Inl x \<Rightarrow> Inl x
           | Inr burned \<Rightarrow> if minted - burned \<noteq> supply then Inl ErrIncompleteHistory else Inr ())))"

section \<open>Redemptions and shares\<close>

definition redemption_step_credit ::
  "addr_codec \<Rightarrow> entitlement_input \<Rightarrow> redemption_request \<Rightarrow> balances \<Rightarrow> income_error + balances" where
  "redemption_step_credit c inp r balances =
     (if rd_status r \<noteq> RedemptionPending \<and> rd_status r \<noteq> RedemptionFunded then Inr balances
      else (case big_set_string (rd_rwa_amount r) of
        None \<Rightarrow> Inl (ErrBadRedemption (rd_id r))
      | Some amount \<Rightarrow>
          if \<not> ac_is_hex c (rd_beneficiary r) then Inl (ErrBadRedemption (rd_id r))
          else (let b = ac_addr c (rd_beneficiary r)
                in if b = 0 \<or> b = ei_vault inp \<or> b = ei_escrow inp then Inr balances
                   else Inr (credit b amount balances))))"

fun credit_redemptions ::
  "addr_codec \<Rightarrow> entitlement_input \<Rightarrow> redemption_request list \<Rightarrow> balances \<Rightarrow> income_error + balances" where
  "credit_redemptions c inp [] balances = Inr balances"
| "credit_redemptions c inp (r # rs) balances =
     (case redemption_step_credit c inp r balances of
        Inl x \<Rightarrow> Inl x
      | Inr balances' \<Rightarrow> credit_redemptions c inp rs balances')"

text \<open>\<^verbatim>\<open>big.Int.Quo\<close> truncates towards zero.\<close>

definition big_quo :: "int \<Rightarrow> int \<Rightarrow> int" where
  "big_quo a b = (if (a < 0) = (b < 0) then \<bar>a\<bar> div \<bar>b\<bar> else - (\<bar>a\<bar> div \<bar>b\<bar>))"

definition share_entries :: "int \<Rightarrow> int \<Rightarrow> balances \<Rightarrow> entitlement list" where
  "share_entries tot eligible balances =
     filter (\<lambda>e. en_amount e \<noteq> 0)
       (map (\<lambda>(a, b). \<lparr>en_account = a, en_balance = b, en_amount = big_quo (tot * b) eligible\<rparr>) balances)"

definition split_total :: "addr_codec \<Rightarrow> int \<Rightarrow> balances \<Rightarrow> income_error + entitlements" where
  "split_total c tot balances =
     (let positive = filter (\<lambda>(a, b). b \<noteq> 0) balances;
          eligible = sum_list (map snd positive)
      in if eligible = 0 then Inl ErrNoEligibleHolders
         else (let entries = share_entries tot eligible positive
               in if entries = [] then Inl ErrNoEligibleHolders
                  else Inr \<lparr>es_eligible_supply = eligible, es_distributed = sum_list (map en_amount entries),
                            es_entries = sort_key (\<lambda>e. to_lower (ac_hex c (en_account e))) entries\<rparr>))"

definition attributed_balances ::
  "addr_codec \<Rightarrow> gotime \<Rightarrow> entitlement_input \<Rightarrow> income_error + balances" where
  "attributed_balances c now inp =
     (case replay_transfers c (survivors (ei_transfers inp) (ei_record_block inp)) ([], 0) of
        Inl x \<Rightarrow> Inl x
      | Inr (balances, supply) \<Rightarrow>
          (case check_supply inp supply of
             Inl x \<Rightarrow> Inl x
           | Inr _ \<Rightarrow>
               credit_redemptions c inp
                 (vals (build_states now (survivors (ei_redemption_events inp) (ei_record_block inp))
                    (ei_redemption_timeout inp)))
                 (AList.delete 0 (AList.delete (ei_escrow inp) (AList.delete (ei_vault inp) balances)))))"

definition compute_entitlements ::
  "addr_codec \<Rightarrow> gotime \<Rightarrow> entitlement_input \<Rightarrow> income_error + entitlements" where
  "compute_entitlements c now inp =
     (case attributed_balances c now inp of
        Inl x \<Rightarrow> Inl x
      | Inr balances \<Rightarrow> split_total c (ei_total inp) balances)"

section \<open>The replay conserves tokens\<close>

definition balances_ok :: "balances \<Rightarrow> bool" where
  "balances_ok bs \<longleftrightarrow> distinct (map fst bs) \<and> (\<forall>b \<in> set (map snd bs). 0 \<le> b)"

definition total_of :: "balances \<Rightarrow> int" where
  "total_of bs = sum_list (map snd bs)"

lemma total_put:
  "distinct (map fst bs) \<Longrightarrow> total_of (put a v bs) =
    total_of bs + v - (case lookup bs a of None \<Rightarrow> 0 | Some b \<Rightarrow> b)"
  by (induction bs) (auto simp: total_of_def map_of_eq_None_iff split: option.splits)

lemma vals_put: "set (map snd (put a v bs)) \<subseteq> insert v (set (map snd bs))"
  by (induction bs) auto

lemma balances_ok_put: "balances_ok bs \<Longrightarrow> 0 \<le> v \<Longrightarrow> balances_ok (put a v bs)"
  using vals_put [of a v bs] by (fastforce simp: balances_ok_def distinct_update)

lemma balances_ok_lookup: "balances_ok bs \<Longrightarrow> lookup bs a = Some b \<Longrightarrow> 0 \<le> b"
  by (force simp: balances_ok_def dest: map_of_SomeD)

lemma balances_ok_delete: "balances_ok bs \<Longrightarrow> balances_ok (AList.delete a bs)"
  by (auto simp: balances_ok_def AList.delete_eq distinct_map_filter case_prod_beta)

lemma balances_ok_credit: "balances_ok bs \<Longrightarrow> 0 \<le> v \<Longrightarrow> balances_ok (credit a v bs)"
  by (auto simp: credit_def Let_def intro!: balances_ok_put dest: balances_ok_lookup split: option.split)

lemma total_credit: "balances_ok bs \<Longrightarrow> total_of (credit a v bs) = total_of bs + v"
  by (auto simp: credit_def Let_def total_put balances_ok_def split: option.split)

lemma debit_ok:
  assumes "debit src v (bs, n) = Inr (bs', n')" and "balances_ok bs" and "0 \<le> v"
  shows "balances_ok bs' \<and> total_of bs' - n' = total_of bs - n - v"
  using assms
proof (cases "src = 0")
  case True
  with assms show ?thesis by (auto simp: debit_def)
next
  case False
  with assms(1) obtain b where b: "lookup bs src = Some b" "v \<le> b" "bs' = put src (b - v) bs" "n' = n"
    by (auto simp: debit_def split: option.splits if_splits)
  with assms(2) show ?thesis
    using balances_ok_put [OF assms(2), of "b - v" src] by (simp add: total_put balances_ok_def)
qed

lemma transfer_step_ok:
  assumes "transfer_step c e (bs, n) = Inr (bs', n')" and "balances_ok bs"
  shows "balances_ok bs' \<and> total_of bs' - n' = total_of bs - n"
proof -
  from assms(1) obtain src dst v where p: "parse_transfer c e = Inr (src, dst, v)"
    by (auto simp: transfer_step_def split: sum.splits)
  then have v: "0 \<le> v" by (auto simp: parse_transfer_def Let_def split: option.splits if_splits)
  show ?thesis
  proof (cases "v = 0")
    case True
    with assms p show ?thesis by (simp add: transfer_step_def)
  next
    case False
    then obtain b1 s1 where d: "debit src v (bs, n) = Inr (b1, s1)"
      and rest: "(if dst = 0 then (b1, s1 - v) else (credit dst v b1, s1)) = (bs', n')"
      using assms(1) p by (auto simp: transfer_step_def split: sum.splits if_splits)
    note d' = debit_ok [OF d assms(2) v]
    show ?thesis
      using rest d' balances_ok_credit [OF _ v] total_credit [of b1 dst v] by (auto split: if_splits)
  qed
qed

text \<open>Every account has one balance, none is negative, and they add up to the replayed supply.\<close>

lemma replay_ok:
  assumes "replay_transfers c es ([], 0) = Inr (bs, n)"
  shows "balances_ok bs \<and> total_of bs = n"
proof -
  have "balances_ok bs' \<and> total_of bs' - n' = total_of bs - n"
    if "replay_transfers c es (bs, n) = Inr (bs', n')" "balances_ok bs" for bs n bs' n'
    using that
  proof (induction es arbitrary: bs n)
    case Nil
    then show ?case by simp
  next
    case (Cons e es)
    then obtain b1 s1 where "transfer_step c e (bs, n) = Inr (b1, s1)"
      and "replay_transfers c es (b1, s1) = Inr (bs', n')" by (auto split: sum.splits)
    then show ?case using Cons transfer_step_ok by fastforce
  qed
  from this [OF assms] show ?thesis by (simp add: balances_ok_def total_of_def)
qed

section \<open>The split\<close>

lemma big_quo_nonneg: "0 \<le> a \<Longrightarrow> 0 < b \<Longrightarrow> big_quo a b = a div b"
  by (simp add: big_quo_def)

lemma floor_shares:
  fixes T E :: int
  assumes "0 < E"
  shows "E * sum_list (map (\<lambda>b. T * b div E) bs) \<le> T * sum_list bs"
    and "T * sum_list bs \<le> E * sum_list (map (\<lambda>b. T * b div E) bs) + (E - 1) * int (length bs)"
proof (induction bs)
  case (Cons b bs)
  have "E * (T * b div E) \<le> T * b" "T * b \<le> E * (T * b div E) + (E - 1)"
    using assms pos_mod_bound [of E "T * b"] pos_mod_sign [of E "T * b"] mult_div_mod_eq [of E "T * b"]
    by linarith+
  moreover
  { case 1 with Cons(1) calculation(1) show ?case by (simp add: algebra_simps) }
  { case 2 with Cons(2) calculation(2) show ?case by (simp add: algebra_simps) }
qed simp_all

lemma sum_nonzero_amounts:
  "sum_list (map en_amount (filter (\<lambda>e. en_amount e \<noteq> 0) es)) = sum_list (map en_amount es)"
  by (induction es) simp_all

lemma sum_sort_key: "sum_list (map f (sort_key k xs)) = (sum_list (map f xs) :: int)"
proof -
  have ins: "sum_list (map f (insort_key k x ys)) = f x + (sum_list (map f ys) :: int)" for x ys
    by (induction ys) auto
  show ?thesis by (induction xs) (simp_all add: ins)
qed

definition split_ok :: "int \<Rightarrow> balances \<Rightarrow> entitlements \<Rightarrow> bool" where
  "split_ok tot bs out \<longleftrightarrow>
     es_eligible_supply out = total_of bs \<and> 0 < es_eligible_supply out \<and>
     es_distributed out = sum_list (map en_amount (es_entries out)) \<and>
     es_distributed out \<le> tot \<and> tot - es_distributed out < int (length (filter (\<lambda>(a, b). b \<noteq> 0) bs)) \<and>
     distinct (map en_account (es_entries out)) \<and>
     (\<forall>e \<in> set (es_entries out). lookup bs (en_account e) = Some (en_balance e) \<and> 0 < en_amount e \<and>
        en_amount e * es_eligible_supply out \<le> tot * en_balance e \<and>
        tot * en_balance e < (en_amount e + 1) * es_eligible_supply out)"

lemma split_total_ok:
  assumes "split_total c tot bs = Inr out" and "balances_ok bs" and "0 \<le> tot"
  shows "split_ok tot bs out"
proof -
  define ps where "ps = filter (\<lambda>(a, b). b \<noteq> 0) bs"
  define E where "E = sum_list (map snd ps)"
  define es where "es = share_entries tot E ps"
  have out: "out = \<lparr>es_eligible_supply = E, es_distributed = sum_list (map en_amount es),
      es_entries = sort_key (\<lambda>e. to_lower (ac_hex c (en_account e))) es\<rparr>" and E0: "E \<noteq> 0"
    using assms(1) by (auto simp: split_total_def Let_def ps_def E_def es_def split: if_splits)
  have pos: "0 < b" if "(a, b) \<in> set ps" for a b using that assms(2) by (force simp: ps_def balances_ok_def)
  have "0 \<le> E" unfolding E_def using pos by (intro sum_list_nonneg) (auto intro: less_imp_le)
  then have E: "0 < E" using E0 by simp
  have ET: "E = total_of bs" unfolding E_def ps_def total_of_def by (induction bs) auto
  have amounts: "map en_amount (map (\<lambda>(a, b). \<lparr>en_account = a, en_balance = b, en_amount = big_quo (tot * b) E\<rparr>) ps) =
      map (\<lambda>b. tot * b div E) (map snd ps)"
  proof -
    have "big_quo (tot * b) E = tot * b div E" if "(a, b) \<in> set ps" for a b
      using pos [OF that] E assms(3) by (intro big_quo_nonneg) simp_all
    then show ?thesis by auto
  qed
  have sum_es: "sum_list (map en_amount es) = sum_list (map (\<lambda>b. tot * b div E) (map snd ps))"
    unfolding es_def share_entries_def sum_nonzero_amounts amounts ..
  let ?S = "sum_list (map en_amount es)" and ?n = "int (length ps)"
  have "E * ?S \<le> E * tot" and upper: "tot * E \<le> E * ?S + (E - 1) * ?n"
    unfolding sum_es using floor_shares [OF E, of tot "map snd ps"] by (simp_all add: E_def mult.commute)
  moreover have "E * (tot - ?S) < E * ?n"
  proof -
    have "0 < ?n" using E0 unfolding E_def by (cases ps) auto
    then have "(E - 1) * ?n < E * ?n" by simp
    moreover have "E * (tot - ?S) \<le> (E - 1) * ?n" using upper by (simp add: algebra_simps)
    ultimately show ?thesis by simp
  qed
  ultimately have dist: "?S \<le> tot" "tot - ?S < ?n" using E by simp_all
  have entry: "lookup bs (en_account e) = Some (en_balance e) \<and> 0 < en_amount e \<and>
      en_amount e * E \<le> tot * en_balance e \<and> tot * en_balance e < (en_amount e + 1) * E" if "e \<in> set es" for e
  proof -
    from that obtain a b where ab: "(a, b) \<in> set ps" "e = \<lparr>en_account = a, en_balance = b, en_amount = big_quo (tot * b) E\<rparr>"
      and ne: "en_amount e \<noteq> 0" by (auto simp: es_def share_entries_def)
    have b: "0 < b" using pos ab(1) .
    then have q: "en_amount e = tot * b div E" using ab(2) assms(3) E by (simp add: big_quo_nonneg)
    have "0 \<le> tot * b div E" using b assms(3) E by (simp add: pos_imp_zdiv_nonneg_iff)
    then have "0 < en_amount e" using q ne by simp
    moreover have "E * (tot * b div E) \<le> tot * b" "tot * b < E * (tot * b div E) + E"
      using E pos_mod_bound [of E "tot * b"] pos_mod_sign [of E "tot * b"] mult_div_mod_eq [of E "tot * b"]
      by linarith+
    then have "tot * b div E * E \<le> tot * b" "tot * b < (tot * b div E + 1) * E"
      by (simp_all only: distrib_left mult.commute [of _ E] mult_1_right)
    moreover have "lookup bs a = Some b"
      using ab(1) assms(2) by (auto simp: ps_def balances_ok_def intro: map_of_is_SomeI)
    ultimately show ?thesis using ab(2) q by simp
  qed
  have "distinct (map fst ps)" using assms(2) by (simp add: ps_def balances_ok_def distinct_map_filter)
  then have "distinct (map en_account (map (\<lambda>(a, b). \<lparr>en_account = a, en_balance = b, en_amount = big_quo (tot * b) E\<rparr>) ps))"
    by (simp add: comp_def case_prod_beta)
  then have "distinct (map en_account es)" unfolding es_def share_entries_def by (rule distinct_map_filter)
  then have "distinct (map en_account (es_entries out))"
    unfolding out by (simp only: entitlements.select_convs distinct_map [of en_account] distinct_sort set_sort)
  moreover have "sum_list (map en_amount (es_entries out)) = sum_list (map en_amount es)"
    unfolding out by (simp add: sum_sort_key)
  ultimately show ?thesis
    using dist entry E ET by (auto simp: split_ok_def out ps_def)
qed

section \<open>Attribution\<close>

text \<open>Redeemed amounts come from \<^verbatim>\<open>uint256\<close> log fields, so they are not negative.\<close>

definition redemptions_ok :: "entitlement_input \<Rightarrow> bool" where
  "redemptions_ok inp \<longleftrightarrow> (\<forall>e \<in> set (ei_redemption_events inp). \<forall>n.
     big_set_string (str_field e ''rwaAmount'') = Some n \<longrightarrow> 0 \<le> n)"

definition excluded :: "entitlement_input \<Rightarrow> address set" where
  "excluded inp = {0, ei_vault inp, ei_escrow inp}"

lemma keys_put: "fst ` set (put a v bs) = insert a (fst ` set bs)"
  using dom_update [of a v bs] by (simp add: dom_map_of_conv_image_fst)

lemma keys_credit: "fst ` set (credit a v bs) = insert a (fst ` set bs)"
  by (simp add: credit_def Let_def keys_put)

lemma credit_redemptions_ok:
  assumes "credit_redemptions c inp rs bs = Inr bs'" and "balances_ok bs" and "fst ` set bs \<inter> excluded inp = {}"
    and "\<forall>r \<in> set rs. \<forall>n. big_set_string (rd_rwa_amount r) = Some n \<longrightarrow> 0 \<le> n"
  shows "balances_ok bs' \<and> fst ` set bs' \<inter> excluded inp = {}"
  using assms
proof (induction rs arbitrary: bs)
  case Nil
  then show ?case by simp
next
  case (Cons r rs)
  then obtain b1 where b1: "redemption_step_credit c inp r bs = Inr b1" and rest: "credit_redemptions c inp rs b1 = Inr bs'"
    by (auto split: sum.splits)
  have "b1 = bs \<or> (\<exists>n a. 0 \<le> n \<and> a \<notin> excluded inp \<and> b1 = credit a n bs)"
    using b1 Cons.prems(4)
    by (auto simp: redemption_step_credit_def Let_def excluded_def split: if_splits option.splits)
  then have "balances_ok b1 \<and> fst ` set b1 \<inter> excluded inp = {}"
    using Cons.prems(2,3) by (elim disjE exE conjE) (simp_all add: keys_credit balances_ok_credit)
  then show ?case using Cons.IH [OF rest] Cons.prems(4) by simp
qed

lemma attributed_ok:
  assumes "attributed_balances c now inp = Inr bs" and "redemptions_ok inp"
  shows "balances_ok bs \<and> fst ` set bs \<inter> excluded inp = {}"
proof -
  let ?rs = "vals (build_states now (survivors (ei_redemption_events inp) (ei_record_block inp))
    (ei_redemption_timeout inp))"
  from assms(1) obtain tb n
    where replay: "replay_transfers c (survivors (ei_transfers inp) (ei_record_block inp)) ([], 0) = Inr (tb, n)"
      and credits: "credit_redemptions c inp ?rs
        (AList.delete 0 (AList.delete (ei_escrow inp) (AList.delete (ei_vault inp) tb))) = Inr bs"
    by (auto simp: attributed_balances_def split: sum.splits prod.splits)
  show ?thesis
  proof (rule credit_redemptions_ok [OF credits])
    show "balances_ok (AList.delete 0 (AList.delete (ei_escrow inp) (AList.delete (ei_vault inp) tb)))"
      using replay_ok [OF replay] by (intro balances_ok_delete) blast
    show "fst ` set (AList.delete 0 (AList.delete (ei_escrow inp) (AList.delete (ei_vault inp) tb))) \<inter> excluded inp = {}"
      by (auto simp: excluded_def AList.delete_eq)
    show "\<forall>r \<in> set ?rs. \<forall>n. big_set_string (rd_rwa_amount r) = Some n \<longrightarrow> 0 \<le> n"
    proof
      fix r assume "r \<in> set ?rs"
      then obtain i where "(i, r) \<in> set (build_states now (survivors (ei_redemption_events inp) (ei_record_block inp))
          (ei_redemption_timeout inp))" by auto
      then have "lookup (build_states now (survivors (ei_redemption_events inp) (ei_record_block inp))
          (ei_redemption_timeout inp)) i = Some r"
        using build_states_rows_ok by (simp add: rows_ok_def)
      then have "row_origin (survivors (ei_redemption_events inp) (ei_record_block inp)) (ei_redemption_timeout inp) r"
        using build_states_rows_ok unfolding rows_ok_def by blast
      then obtain e where "e \<in> set (survivors (ei_redemption_events inp) (ei_record_block inp))"
        and "rd_rwa_amount r = str_field e ''rwaAmount''" by (auto simp: row_origin_def)
      then show "\<forall>n. big_set_string (rd_rwa_amount r) = Some n \<longrightarrow> 0 \<le> n"
        using assms(2) by (auto simp: redemptions_ok_def survivors_def)
    qed
  qed
qed

lemma computed_split_ok:
  assumes "compute_entitlements c now inp = Inr out" and "0 \<le> ei_total inp" and "redemptions_ok inp"
  shows "\<exists>bs. attributed_balances c now inp = Inr bs \<and> split_ok (ei_total inp) bs out \<and>
    fst ` set bs \<inter> excluded inp = {}"
proof -
  from assms(1) obtain bs where bs: "attributed_balances c now inp = Inr bs"
    and split: "split_total c (ei_total inp) bs = Inr out"
    by (auto simp: compute_entitlements_def split: sum.splits)
  then show ?thesis using attributed_ok [OF bs assms(3)] split_total_ok [OF split] assms(2) by blast
qed

text \<open>
  C11: a computed split never promises more than the total: the amounts add up to the
  distributed figure, which is at most the total and short of it by less than one unit per
  holder; every entry is positive and is the rounded-down pro-rata share of that holder's
  attributed balance; each holder appears once, and the vault, the escrow and the zero address
  never do.
\<close>

theorem entitlements_within_total:
  assumes "compute_entitlements c now inp = Inr out" and "0 \<le> ei_total inp" and "redemptions_ok inp"
  shows "\<exists>bs. attributed_balances c now inp = Inr bs \<and> split_ok (ei_total inp) bs out \<and>
    en_account ` set (es_entries out) \<inter> excluded inp = {}"
proof -
  obtain bs where bs: "attributed_balances c now inp = Inr bs" and so: "split_ok (ei_total inp) bs out"
    and ok: "fst ` set bs \<inter> excluded inp = {}" using computed_split_ok [OF assms] by blast
  have "en_account e \<notin> excluded inp" if "e \<in> set (es_entries out)" for e
  proof -
    have "lookup bs (en_account e) = Some (en_balance e)" using so that by (simp add: split_ok_def)
    then have "en_account e \<in> fst ` set bs" by (force dest: map_of_SomeD)
    then show ?thesis using ok by blast
  qed
  with bs so show ?thesis by blast
qed

text \<open>
  entitlements are computed only over a history that adds up: when the project has a supply
  controller, the replayed token supply equals the surviving Minted minus Burned amounts;
  otherwise the computation stops with the incomplete-history error and no snapshot is built.
\<close>

theorem entitlements_need_complete_history:
  assumes "compute_entitlements c now inp = Inr out" and "ei_check_supply inp"
  shows "\<exists>bs minted burned. sum_amounts ''Minted'' (survivors (ei_minted inp) (ei_record_block inp)) 0 = Inr minted \<and>
    sum_amounts ''Burned'' (survivors (ei_burned inp) (ei_record_block inp)) 0 = Inr burned \<and>
    replay_transfers c (survivors (ei_transfers inp) (ei_record_block inp)) ([], 0) = Inr (bs, minted - burned) \<and>
    total_of bs = minted - burned"
proof -
  from assms obtain bs n where r: "replay_transfers c (survivors (ei_transfers inp) (ei_record_block inp)) ([], 0) = Inr (bs, n)"
    and chk: "check_supply inp n = Inr ()"
    by (auto simp: compute_entitlements_def attributed_balances_def split: sum.splits prod.splits)
  from chk assms(2) obtain minted burned
    where "sum_amounts ''Minted'' (survivors (ei_minted inp) (ei_record_block inp)) 0 = Inr minted"
      "sum_amounts ''Burned'' (survivors (ei_burned inp) (ei_record_block inp)) 0 = Inr burned" "minted - burned = n"
    by (auto simp: check_supply_def split: sum.splits if_splits)
  then show ?thesis
    using r replay_ok [OF r] by (intro exI [of _ bs] exI [of _ minted] exI [of _ burned]) simp
qed

section \<open>Snapshots\<close>

record snapshot_entry =
  se_account :: string
  se_balance :: string
  se_amount :: string

record snapshot_doc =
  sd_format_version :: string
  sd_chain_id :: string
  sd_token :: string
  sd_income_distributor :: string
  sd_quote_token :: string
  sd_record_block :: string
  sd_total :: string
  sd_eligible_supply :: string
  sd_distributed :: string
  sd_merkle_root :: string
  sd_leaf_encoding :: "string list"
  sd_entries :: "snapshot_entry list"

record snapshot =
  sn_doc :: snapshot_doc
  sn_canonical :: "byte list"
  sn_sha256 :: u256
  sn_cid :: string
  sn_merkle_root :: u256

text \<open>JSON, RFC 8785, SHA-256 and CIDs, with the address codec and Keccak-256.\<close>

record snap_codec =
  sc_addr :: addr_codec
  sc_keccak :: keccak
  sc_marshal :: "snapshot_doc \<Rightarrow> byte list option"
  sc_jcs :: "byte list \<Rightarrow> byte list option"
  sc_sha256 :: "byte list \<Rightarrow> u256"
  sc_cid :: "byte list \<Rightarrow> string option"
  sc_unmarshal :: "byte list \<Rightarrow> snapshot_doc option"

record snapshot_params =
  sp_chain_id :: int
  sp_token :: address
  sp_income_distributor :: address
  sp_quote :: address
  sp_record_block :: u64
  sp_total :: int
  sp_entitlements :: entitlements

definition entry_leaf :: "entitlement \<Rightarrow> leaf" where
  "entry_leaf e = \<lparr>lf_account = en_account e, lf_amount = Some (en_amount e)\<rparr>"

definition entry_doc :: "addr_codec \<Rightarrow> entitlement \<Rightarrow> snapshot_entry" where
  "entry_doc c e = \<lparr>se_account = ac_hex c (en_account e), se_balance = big_string (en_balance e),
     se_amount = big_string (en_amount e)\<rparr>"

definition build_snapshot :: "snap_codec \<Rightarrow> snapshot_params \<Rightarrow> income_error + snapshot" where
  "build_snapshot sc p =
     (let c = sc_addr sc; ents = sp_entitlements p
      in case build_tree (sc_keccak sc) (map entry_leaf (es_entries ents)) of
           Inl x \<Rightarrow> Inl (ErrTree x)
         | Inr t \<Rightarrow>
             (let root = tree_root t;
                  doc = \<lparr>sd_format_version = ''1'', sd_chain_id = big_string (sp_chain_id p),
                    sd_token = ac_hex c (sp_token p), sd_income_distributor = ac_hex c (sp_income_distributor p),
                    sd_quote_token = ac_hex c (sp_quote p), sd_record_block = big_string (uint (sp_record_block p)),
                    sd_total = big_string (sp_total p), sd_eligible_supply = big_string (es_eligible_supply ents),
                    sd_distributed = big_string (es_distributed ents), sd_merkle_root = hash_hex root,
                    sd_leaf_encoding = [''address'', ''uint256''], sd_entries = map (entry_doc c) (es_entries ents)\<rparr>
              in case sc_marshal sc doc of
                   None \<Rightarrow> Inl ErrMarshal
                 | Some raw \<Rightarrow>
                     (case sc_jcs sc raw of
                        None \<Rightarrow> Inl ErrCanonicalize
                      | Some canonical \<Rightarrow>
                          (case sc_cid sc canonical of
                             None \<Rightarrow> Inl ErrCid
                           | Some cid \<Rightarrow> Inr \<lparr>sn_doc = doc, sn_canonical = canonical,
                               sn_sha256 = sc_sha256 sc canonical, sn_cid = cid, sn_merkle_root = root\<rparr>))))"

record parsed_snapshot =
  ps_tree :: tree
  ps_entries :: "(string, address \<times> int) store"

fun parse_entries ::
  "addr_codec \<Rightarrow> nat \<Rightarrow> snapshot_entry list \<Rightarrow> leaf list \<Rightarrow> (string, address \<times> int) store
    \<Rightarrow> income_error + leaf list \<times> (string, address \<times> int) store" where
  "parse_entries c i [] leaves entries = Inr (leaves, entries)"
| "parse_entries c i (e # es) leaves entries =
     (case big_set_string (se_amount e) of
        None \<Rightarrow> Inl (ErrSnapshotEntry i)
      | Some amount \<Rightarrow>
          if \<not> ac_is_hex c (se_account e) then Inl (ErrSnapshotEntry i)
          else (let a = ac_addr c (se_account e)
                in parse_entries c (Suc i) es (leaves @ [\<lparr>lf_account = a, lf_amount = Some amount\<rparr>])
                     (put (to_lower (ac_hex c a)) (a, amount) entries)))"

definition parse_snapshot :: "snap_codec \<Rightarrow> byte list \<Rightarrow> income_error + parsed_snapshot" where
  "parse_snapshot sc canonical =
     (case sc_unmarshal sc canonical of
        None \<Rightarrow> Inl ErrParseSnapshot
      | Some doc \<Rightarrow>
          (case parse_entries (sc_addr sc) 0 (sd_entries doc) [] [] of
             Inl x \<Rightarrow> Inl x
           | Inr (leaves, entries) \<Rightarrow>
               (case build_tree (sc_keccak sc) leaves of
                  Inl x \<Rightarrow> Inl (ErrTree x)
                | Inr t \<Rightarrow>
                    if hash_hex (tree_root t) \<noteq> to_lower (sd_merkle_root doc) then Inl ErrRootMismatch
                    else Inr \<lparr>ps_tree = t, ps_entries = entries\<rparr>)))"

text \<open>
  What the libraries document: the hex form of an address is one, reads back as the address and
  does not depend on letter case; canonicalizing JSON does not change its value.
\<close>

definition addr_codec_ok :: "addr_codec \<Rightarrow> bool" where
  "addr_codec_ok c \<longleftrightarrow> (\<forall>a. ac_is_hex c (ac_hex c a) \<and> ac_addr c (ac_hex c a) = a) \<and>
     (\<forall>a b. to_lower (ac_hex c a) = to_lower (ac_hex c b) \<longrightarrow> a = b)"

definition json_ok :: "snap_codec \<Rightarrow> bool" where
  "json_ok sc \<longleftrightarrow> (\<forall>doc raw canonical. sc_marshal sc doc = Some raw \<longrightarrow> sc_jcs sc raw = Some canonical \<longrightarrow>
     sc_unmarshal sc canonical = Some doc)"

text \<open>Re-reading the entries gives the leaves the tree was built from and one lookup entry each.\<close>

lemma parse_entries_ok:
  assumes "addr_codec_ok c" and "distinct (map en_account es)"
    and "\<forall>e \<in> set es. lookup store (to_lower (ac_hex c (en_account e))) = None"
  shows "\<exists>store'. parse_entries c i (map (entry_doc c) es) leaves store = Inr (leaves @ map entry_leaf es, store') \<and>
    (\<forall>e \<in> set es. lookup store' (to_lower (ac_hex c (en_account e))) = Some (en_account e, en_amount e)) \<and>
    (\<forall>key. key \<notin> (\<lambda>e. to_lower (ac_hex c (en_account e))) ` set es \<longrightarrow> lookup store' key = lookup store key)"
  using assms(2,3)
proof (induction es arbitrary: i leaves store)
  case Nil
  then show ?case by simp
next
  case (Cons e es)
  let ?key = "\<lambda>e. to_lower (ac_hex c (en_account e))"
  let ?store = "put (?key e) (en_account e, en_amount e) store"
  have new: "?key e \<notin> ?key ` set es" using Cons.prems(1) assms(1) by (force simp: addr_codec_ok_def)
  have "\<forall>e' \<in> set es. lookup ?store (?key e') = None"
    using Cons.prems(2) new by (force simp: lookup_put)
  from Cons.IH [OF _ this, of "Suc i" "leaves @ [entry_leaf e]"] Cons.prems(1)
  obtain store' where s: "parse_entries c (Suc i) (map (entry_doc c) es) (leaves @ [entry_leaf e]) ?store =
        Inr ((leaves @ [entry_leaf e]) @ map entry_leaf es, store')"
      "\<forall>e \<in> set es. lookup store' (?key e) = Some (en_account e, en_amount e)"
      "\<forall>key. key \<notin> ?key ` set es \<longrightarrow> lookup store' key = lookup ?store key"
    by auto
  moreover have "parse_entries c i (map (entry_doc c) (e # es)) leaves store =
      parse_entries c (Suc i) (map (entry_doc c) es) (leaves @ [entry_leaf e]) ?store"
    using assms(1) by (simp add: entry_doc_def entry_leaf_def addr_codec_ok_def Let_def)
  ultimately show ?case using new by (intro exI [of _ store']) (auto simp: lookup_put)
qed

text \<open>
  C12: a snapshot built from computed entitlements serves every holder: its canonical bytes parse
  back, every entry is found under its lower-case account with its account and amount, and the
  proof taken from the rebuilt tree verifies that leaf against the root the document publishes.
  The codec hypotheses say what the address and JSON libraries document.
\<close>

theorem snapshot_proofs_verify:
  assumes "compute_entitlements (sc_addr sc) now inp = Inr (sp_entitlements p)" and "0 \<le> ei_total inp"
    and "redemptions_ok inp" and "build_snapshot sc p = Inr s" and "addr_codec_ok (sc_addr sc)" and "json_ok sc"
  shows "\<exists>ps. parse_snapshot sc (sn_canonical s) = Inr ps \<and>
    sd_merkle_root (sn_doc s) = hash_hex (sn_merkle_root s) \<and>
    (\<forall>e \<in> set (es_entries (sp_entitlements p)).
       lookup (ps_entries ps) (to_lower (ac_hex (sc_addr sc) (en_account e))) = Some (en_account e, en_amount e) \<and>
       (\<exists>path. tree_proof (sc_keccak sc) (ps_tree ps) (en_account e) (en_amount e) = Inr path \<and>
          verify_proof (sc_keccak sc) (sn_merkle_root s) (leaf_hash (sc_keccak sc) (en_account e) (en_amount e)) path))"
proof -
  let ?es = "es_entries (sp_entitlements p)"
  have dist: "distinct (map en_account ?es)"
    using computed_split_ok [OF assms(1,2,3)] by (auto simp: split_ok_def)
  from assms(4) obtain t raw where t: "build_tree (sc_keccak sc) (map entry_leaf ?es) = Inr t"
    and raw: "sc_marshal sc (sn_doc s) = Some raw" "sc_jcs sc raw = Some (sn_canonical s)"
    and root: "sn_merkle_root s = tree_root t"
    and doc: "sd_merkle_root (sn_doc s) = hash_hex (tree_root t)" "sd_entries (sn_doc s) = map (entry_doc (sc_addr sc)) ?es"
    by (auto simp: build_snapshot_def Let_def split: sum.splits option.splits)
  obtain store where store: "parse_entries (sc_addr sc) 0 (map (entry_doc (sc_addr sc)) ?es) [] [] = Inr (map entry_leaf ?es, store)"
    and found: "\<forall>e \<in> set ?es. lookup store (to_lower (ac_hex (sc_addr sc) (en_account e))) = Some (en_account e, en_amount e)"
    using parse_entries_ok [OF assms(5) dist, of "[]" 0 "[]"] by auto
  have "sc_unmarshal sc (sn_canonical s) = Some (sn_doc s)" using assms(6) raw by (auto simp: json_ok_def)
  then have "parse_snapshot sc (sn_canonical s) = Inr \<lparr>ps_tree = t, ps_entries = store\<rparr>"
    using doc store t by (simp add: parse_snapshot_def to_lower_hash_hex)
  moreover have "\<exists>path. tree_proof (sc_keccak sc) t (en_account e) (en_amount e) = Inr path \<and>
      verify_proof (sc_keccak sc) (tree_root t) (leaf_hash (sc_keccak sc) (en_account e) (en_amount e)) path"
    if "e \<in> set ?es" for e
    using that by (intro tree_proof_verifies [OF t]) (force simp: entry_leaf_def)
  ultimately show ?thesis using found doc root by auto
qed

section \<open>Witnesses\<close>

definition demo_addr_codec :: addr_codec where
  "demo_addr_codec = \<lparr>ac_is_hex = (\<lambda>_. True), ac_addr = (\<lambda>s. of_nat (length s)), ac_hex = (\<lambda>a. replicate (unat a) CHR ''a'')\<rparr>"

lemma demo_hex: "ac_hex demo_addr_codec 2 = ''aa''"
proof -
  have "unat (2 :: address) = Suc (Suc 0)" by simp
  then show ?thesis by (simp only: demo_addr_codec_def addr_codec.select_convs replicate.simps)
qed

definition demo_income :: entitlement_input where
  "demo_income = \<lparr>ei_vault = 9, ei_escrow = 8, ei_record_block = 10, ei_total = 100,
     ei_transfers = [demo_event ''Transfer'' 5 [(''from'', VString []), (''to'', VString ''aa''), (''value'', VString ''7'')]],
     ei_redemption_events = [], ei_redemption_timeout = 50,
     ei_minted = [demo_event ''Minted'' 5 [(''amount'', VString ''7'')]], ei_burned = [], ei_check_supply = True\<rparr>"

definition demo_entitlements :: entitlements where
  "demo_entitlements = \<lparr>es_eligible_supply = 7, es_distributed = 100,
     es_entries = [\<lparr>en_account = 2, en_balance = 7, en_amount = 100\<rparr>]\<rparr>"

lemma demo_survivors:
  "survivors (ei_transfers demo_income) 10 = ei_transfers demo_income"
  "survivors (ei_minted demo_income) 10 = ei_minted demo_income"
  "survivors [] 10 = []"
  by (simp_all add: survivors_def demo_income_def demo_event_def word_le_nat_alt)

lemma demo_seven: "big_set_string ''7'' = Some 7"
  by (simp add: big_set_string_def scan_nat_def char_digit_def)

lemma demo_attributed: "attributed_balances demo_addr_codec 0 demo_income = Inr [(2, 7)]"
proof -
  have "replay_transfers demo_addr_codec (ei_transfers demo_income) ([], 0) = Inr ([(2, 7)], 7)"
    by (simp add: demo_income_def demo_event_def transfer_step_def parse_transfer_def str_field_def ev_field_def
        to_string_def demo_addr_codec_def debit_def credit_def demo_seven Let_def)
  moreover have "check_supply demo_income 7 = Inr ()"
    unfolding check_supply_def using demo_survivors
    by (simp add: demo_income_def demo_event_def str_field_def ev_field_def to_string_def demo_seven)
  ultimately show ?thesis
    using demo_survivors by (simp add: attributed_balances_def demo_income_def build_states_def replay_order_def)
qed

lemma demo_computed: "compute_entitlements demo_addr_codec 0 demo_income = Inr demo_entitlements"
  unfolding compute_entitlements_def demo_attributed
  by (simp add: demo_income_def demo_entitlements_def split_total_def share_entries_def big_quo_def Let_def)

lemma demo_income_ok: "0 \<le> ei_total demo_income" "redemptions_ok demo_income" "ei_check_supply demo_income"
  by (simp_all add: demo_income_def redemptions_ok_def)

theorem entitlements_within_total_witness:
  "\<exists>out bs. compute_entitlements demo_addr_codec 0 demo_income = Inr out \<and>
     attributed_balances demo_addr_codec 0 demo_income = Inr bs \<and> split_ok (ei_total demo_income) bs out \<and>
     en_account ` set (es_entries out) \<inter> excluded demo_income = {}"
  using entitlements_within_total [OF demo_computed demo_income_ok(1,2)] demo_computed by blast

theorem entitlements_need_complete_history_witness:
  "\<exists>bs minted burned.
    sum_amounts ''Minted'' (survivors (ei_minted demo_income) (ei_record_block demo_income)) 0 = Inr minted \<and>
    sum_amounts ''Burned'' (survivors (ei_burned demo_income) (ei_record_block demo_income)) 0 = Inr burned \<and>
    replay_transfers demo_addr_codec (survivors (ei_transfers demo_income) (ei_record_block demo_income)) ([], 0)
      = Inr (bs, minted - burned) \<and> total_of bs = minted - burned"
  by (rule entitlements_need_complete_history [OF demo_computed demo_income_ok(3)])

definition demo_params :: snapshot_params where
  "demo_params = \<lparr>sp_chain_id = 1, sp_token = 5, sp_income_distributor = 6, sp_quote = 7, sp_record_block = 10,
     sp_total = 100, sp_entitlements = demo_entitlements\<rparr>"

definition demo_doc :: snapshot_doc where
  "demo_doc = \<lparr>sd_format_version = ''1'', sd_chain_id = big_string 1, sd_token = replicate 5 CHR ''a'',
     sd_income_distributor = replicate 6 CHR ''a'', sd_quote_token = replicate 7 CHR ''a'',
     sd_record_block = big_string 10, sd_total = big_string 100, sd_eligible_supply = big_string 7,
     sd_distributed = big_string 100, sd_merkle_root = hash_hex (leaf_hash demo_keccak 2 100),
     sd_leaf_encoding = [''address'', ''uint256''],
     sd_entries = [\<lparr>se_account = ''aa'', se_balance = big_string 7, se_amount = big_string 100\<rparr>]\<rparr>"

definition demo_snap_codec :: snap_codec where
  "demo_snap_codec = \<lparr>sc_addr = demo_addr_codec, sc_keccak = demo_keccak,
     sc_marshal = (\<lambda>doc. if doc = demo_doc then Some [123] else None), sc_jcs = Some, sc_sha256 = demo_keccak,
     sc_cid = (\<lambda>bs. Some ''cid''), sc_unmarshal = (\<lambda>bs. if bs = [123] then Some demo_doc else None)\<rparr>"

lemma demo_snapshot: "\<exists>s. build_snapshot demo_snap_codec demo_params = Inr s"
proof -
  have "build_tree demo_keccak [\<lparr>lf_account = 2, lf_amount = Some 100\<rparr>] =
      Inr \<lparr>tr_nodes = [leaf_hash demo_keccak 2 100], tr_by_hash = [(leaf_hash demo_keccak 2 100, 0)]\<rparr>"
    by (simp add: build_tree_def Let_def)
  moreover have "entry_doc demo_addr_codec \<lparr>en_account = 2, en_balance = 7, en_amount = 100\<rparr> =
      \<lparr>se_account = ''aa'', se_balance = big_string 7, se_amount = big_string 100\<rparr>"
    by (simp add: entry_doc_def demo_hex)
  ultimately show ?thesis
    by (simp add: build_snapshot_def demo_snap_codec_def demo_params_def demo_entitlements_def entry_leaf_def
        demo_doc_def tree_root_def Let_def) (simp add: demo_addr_codec_def)
qed

lemma demo_codecs_ok: "addr_codec_ok (sc_addr demo_snap_codec)" "json_ok demo_snap_codec"
proof -
  have "to_lower (replicate n CHR ''a'') = replicate n CHR ''a''" for n
    by (simp add: to_lower_def to_lower_char_def)
  then show "addr_codec_ok (sc_addr demo_snap_codec)"
    by (simp add: addr_codec_ok_def demo_snap_codec_def demo_addr_codec_def word_unat_eq_iff)
  show "json_ok demo_snap_codec" by (auto simp: json_ok_def demo_snap_codec_def split: if_splits)
qed

theorem snapshot_proofs_verify_witness:
  "\<exists>s ps path. build_snapshot demo_snap_codec demo_params = Inr s \<and>
     parse_snapshot demo_snap_codec (sn_canonical s) = Inr ps \<and>
     lookup (ps_entries ps) ''aa'' = Some (2, 100) \<and>
     tree_proof demo_keccak (ps_tree ps) 2 100 = Inr path \<and>
     verify_proof demo_keccak (sn_merkle_root s) (leaf_hash demo_keccak 2 100) path"
proof -
  obtain s where s: "build_snapshot demo_snap_codec demo_params = Inr s" using demo_snapshot by blast
  have c: "compute_entitlements (sc_addr demo_snap_codec) 0 demo_income = Inr (sp_entitlements demo_params)"
    using demo_computed by (simp add: demo_snap_codec_def demo_params_def)
  have "to_lower (ac_hex demo_addr_codec 2) = ''aa''"
    by (simp add: demo_hex to_lower_def to_lower_char_def)
  then show ?thesis
    using snapshot_proofs_verify [OF c demo_income_ok(1,2) s demo_codecs_ok] s
    by (auto simp: demo_params_def demo_entitlements_def demo_snap_codec_def)
qed

end
