(* ===== verification/Project.thy ===== *)
theory Project
  imports ReadModel
begin

text \<open>
  The project document, server/internal/dal/models/project.go, and its memory repository: one
  deployment, its contract addresses, its deploy-time roles and prices, and the governance
  projection kept beside them.
\<close>

record addresses =
  ad_token :: string
  ad_compliance :: string
  ad_supply_controller :: string
  ad_vault :: string
  ad_redemption_escrow :: string
  ad_strategy :: string
  ad_quote_token :: string
  ad_income_distributor :: string

record oracle_config =
  oc_feed :: string
  oc_max_age :: u64
  oc_purchase_spread_bps :: "16 word"
  oc_redemption_spread_bps :: "16 word"
  oc_sequencer_uptime_feed :: string
  oc_grace_period :: u64

datatype project_status = ProjectUndeployed | ProjectDeploying | ProjectVerifying | ProjectActive | ProjectFailed

record forced_transfer_state =
  ft_from :: string
  ft_to :: string
  ft_amount :: string
  ft_tx_hash :: string
  ft_block_number :: u64
  ft_log_index :: u64

record security_state =
  ss_paused :: bool
  ss_auditor :: string
  ss_treasury :: string
  ss_redemption_manager :: string
  ss_admin :: string
  ss_compliance_operator :: string
  ss_pricer :: string
  ss_pending_admin :: string
  ss_treasurer :: string
  ss_strategy :: string
  ss_min_purchase_quote :: string
  ss_purchase_price :: string
  ss_redemption_price :: string
  ss_roles :: "(string, string list) store"
  ss_roles_by_contract :: "(string, (string, string list) store) store"
  ss_frozen_balances :: "(string, string) store"
  ss_last_forced_transfer :: "forced_transfer_state option"
  ss_as_of_block :: u64
  ss_as_of_time :: gotime

record project =
  pj_project_id :: string
  pj_version :: string
  pj_chain_id :: int
  pj_profile_digest :: string
  pj_addresses :: addresses
  pj_paused :: bool
  pj_auditor :: string
  pj_treasury :: string
  pj_redemption_manager :: string
  pj_admin :: string
  pj_compliance_operator :: string
  pj_pricer :: string
  pj_treasurer :: string
  pj_income_manager :: string
  pj_min_purchase_quote :: string
  pj_strategy_kind :: string
  pj_oracle :: "oracle_config option"
  pj_quote_token :: string
  pj_token_unit :: string
  pj_purchase_price :: string
  pj_redemption_price :: string
  pj_redemption_timeout :: int
  pj_token_decimals :: byte
  pj_quote_decimals :: byte
  pj_finality_confirmations :: u64
  pj_bytecode_verified :: bool
  pj_roles :: "(string, string list) store"
  pj_status :: project_status
  pj_created_at :: gotime
  pj_updated_at :: gotime
  pj_deploy_tx_hash :: string
  pj_verification_note :: string
  pj_security :: "security_state option"

text \<open>What a \<^verbatim>\<open>Get\<close> of a repository returns: a document, \<^verbatim>\<open>ErrNotFound\<close> or another error.\<close>

datatype 'a read = Found 'a | Missing | ReadFailed

definition project_get :: "project option \<Rightarrow> project read" where
  "project_get p = (case p of None \<Rightarrow> Missing | Some q \<Rightarrow> Found q)"

definition project_upsert :: "project \<Rightarrow> project option \<Rightarrow> project option" where
  "project_upsert q p = Some q"

definition factory_version_v3 :: string where
  "factory_version_v3 = ''rwa-v3''"

section \<open>A sample document, for the witnesses\<close>

definition demo_project :: project where
  "demo_project = \<lparr>pj_project_id = ''p'', pj_version = factory_version_v3, pj_chain_id = 1, pj_profile_digest = ''d'',
     pj_addresses = \<lparr>ad_token = ''aaaaa'', ad_compliance = ''aaa'', ad_supply_controller = ''aaaa'', ad_vault = ''aaaaaaaaa'',
       ad_redemption_escrow = ''aaaaaaaa'', ad_strategy = ''aaaaaaaaaaa'', ad_quote_token = ''aaaaaaa'',
       ad_income_distributor = ''aaaaaa''\<rparr>,
     pj_paused = False, pj_auditor = [], pj_treasury = [], pj_redemption_manager = [], pj_admin = [],
     pj_compliance_operator = [], pj_pricer = [], pj_treasurer = [], pj_income_manager = [],
     pj_min_purchase_quote = ''0'', pj_strategy_kind = ''Fixed'', pj_oracle = None, pj_quote_token = ''aaaaaaa'',
     pj_token_unit = ''kg'', pj_purchase_price = ''1'', pj_redemption_price = ''1'', pj_redemption_timeout = 50,
     pj_token_decimals = 18, pj_quote_decimals = 6, pj_finality_confirmations = 3, pj_bytecode_verified = True,
     pj_roles = [], pj_status = ProjectActive, pj_created_at = 0, pj_updated_at = 0, pj_deploy_tx_hash = [],
     pj_verification_note = [], pj_security = None\<rparr>"

end
