(* ===== verification/IncomeModel.thy ===== *)
theory IncomeModel
  imports Income Project
begin

text \<open>
  The income read model: distributions and claims derived from IncomeDistributor events
  (BuildDistributions and Reconcile of server/internal/income/service.go), and the memory
  repositories that hold them (server/internal/dal/memory/income.go).
\<close>

section \<open>Rows\<close>

record income_distribution =
  di_id :: string
  di_merkle_root :: string
  di_total :: string
  di_record_block :: u64
  di_claim_deadline :: int
  di_snapshot_uri :: string
  di_snapshot_sha256 :: string
  di_claimed :: string
  di_reclaimed :: bool
  di_reclaimed_amount :: string
  di_create_tx_hash :: string
  di_created_block :: u64
  di_created_log_index :: u64
  di_generation :: int

record income_claim =
  ic_id :: string
  ic_distribution_id :: string
  ic_account :: string
  ic_amount :: string
  ic_tx_hash :: string
  ic_block_number :: u64
  ic_generation :: int

type_synonym distribution_store = "(string, income_distribution) store"
type_synonym claim_store = "(string, income_claim) store"

definition di_upsert :: "income_distribution \<Rightarrow> distribution_store \<Rightarrow> distribution_store" where
  "di_upsert d st = put (di_id d) d st"

definition di_list :: "distribution_store \<Rightarrow> income_distribution list" where
  "di_list st = sort_key (\<lambda>d. (di_created_block d, di_created_log_index d)) (vals st)"

definition di_prune :: "int \<Rightarrow> distribution_store \<Rightarrow> distribution_store" where
  "di_prune gen st = filter (\<lambda>(i, v). di_generation v = gen) st"

definition ic_upsert :: "income_claim \<Rightarrow> claim_store \<Rightarrow> claim_store" where
  "ic_upsert c st = put (ic_id c) c st"

definition ic_list_by_account :: "string \<Rightarrow> claim_store \<Rightarrow> income_claim list" where
  "ic_list_by_account account st = sort_key ic_id (filter (\<lambda>c. ic_account c = to_lower account) (vals st))"

definition ic_prune :: "int \<Rightarrow> claim_store \<Rightarrow> claim_store" where
  "ic_prune gen st = filter (\<lambda>(i, v). ic_generation v = gen) st"

interpretation dim: generation_store lookup di_upsert di_prune di_id di_generation "\<lambda>st. distinct (map fst st)"
  by unfold_locales (auto simp: di_upsert_def di_prune_def lookup_put lookup_filter distinct_update
      distinct_keys_filter split: option.split)

interpretation icm: generation_store lookup ic_upsert ic_prune ic_id ic_generation "\<lambda>st. distinct (map fst st)"
  by unfold_locales (auto simp: ic_upsert_def ic_prune_def lookup_put lookup_filter distinct_update
      distinct_keys_filter split: option.split)

section \<open>Projection\<close>

text \<open>\<^verbatim>\<open>big.Int.IsInt64\<close> and the cap at \<^verbatim>\<open>math.MaxInt64\<close>.\<close>

definition unix_seconds :: "int \<Rightarrow> int" where
  "unix_seconds n = (if - (2 ^ 63) \<le> n \<and> n \<le> 2 ^ 63 - 1 then n else 2 ^ 63 - 1)"

text \<open>The three variables of the loop: \<^verbatim>\<open>dists\<close>, \<^verbatim>\<open>claimedSum\<close> and \<^verbatim>\<open>claims\<close>.\<close>

record build_state =
  bd_dists :: distribution_store
  bd_sums :: "(string, int) store"
  bd_claims :: "income_claim list"

definition created :: "chain_event \<Rightarrow> string \<Rightarrow> build_state \<Rightarrow> build_state" where
  "created e i b =
     (case (big_set_string (str_field e ''claimDeadline''), big_set_string (str_field e ''recordBlock'')) of
        (Some deadline, Some block) \<Rightarrow>
          b\<lparr>bd_dists := put i
              \<lparr>di_id = i, di_merkle_root = str_field e ''merkleRoot'', di_total = str_field e ''total'',
               di_record_block = of_int \<bar>block\<bar>, di_claim_deadline = unix_seconds deadline,
               di_snapshot_uri = str_field e ''snapshotURI'', di_snapshot_sha256 = str_field e ''snapshotSha256'',
               di_claimed = ''0'', di_reclaimed = False, di_reclaimed_amount = [],
               di_create_tx_hash = ev_tx_hash e, di_created_block = ev_block_number e,
               di_created_log_index = ev_log_index e, di_generation = 0\<rparr> (bd_dists b),
            bd_sums := put i 0 (bd_sums b)\<rparr>
      | _ \<Rightarrow> b)"

definition claimed :: "addr_codec \<Rightarrow> chain_event \<Rightarrow> string \<Rightarrow> build_state \<Rightarrow> build_state" where
  "claimed c e i b =
     (case (lookup (bd_dists b) i, big_set_string (str_field e ''amount'')) of
        (Some d, Some amount) \<Rightarrow>
          if \<not> ac_is_hex c (str_field e ''account'') then b
          else (let total = (case lookup (bd_sums b) i of None \<Rightarrow> 0 | Some n \<Rightarrow> n) + amount;
                    lower = to_lower (ac_hex c (ac_addr c (str_field e ''account'')))
                in b\<lparr>bd_dists := put i (d\<lparr>di_claimed := big_string total\<rparr>) (bd_dists b),
                     bd_sums := put i total (bd_sums b),
                     bd_claims := bd_claims b @
                       [\<lparr>ic_id = i @ '':'' @ lower, ic_distribution_id = i, ic_account = lower,
                         ic_amount = big_string amount, ic_tx_hash = ev_tx_hash e,
                         ic_block_number = ev_block_number e, ic_generation = 0\<rparr>]\<rparr>)
      | _ \<Rightarrow> b)"

definition reclaimed :: "chain_event \<Rightarrow> string \<Rightarrow> build_state \<Rightarrow> build_state" where
  "reclaimed e i b =
     (case lookup (bd_dists b) i of
        None \<Rightarrow> b
      | Some d \<Rightarrow> b\<lparr>bd_dists := put i (d\<lparr>di_reclaimed := True, di_reclaimed_amount := str_field e ''amount''\<rparr>) (bd_dists b)\<rparr>)"

definition extended :: "chain_event \<Rightarrow> string \<Rightarrow> build_state \<Rightarrow> build_state" where
  "extended e i b =
     (case (lookup (bd_dists b) i, big_set_string (str_field e ''newDeadline'')) of
        (Some d, Some n) \<Rightarrow> b\<lparr>bd_dists := put i (d\<lparr>di_claim_deadline := unix_seconds n\<rparr>) (bd_dists b)\<rparr>
      | _ \<Rightarrow> b)"

definition build_step :: "addr_codec \<Rightarrow> chain_event \<Rightarrow> build_state \<Rightarrow> build_state" where
  "build_step c e b =
     (let i = str_field e ''id''
      in if i = [] then b
         else if ev_name e = ''DistributionCreated'' then created e i b
         else if ev_name e = ''IncomeClaimed'' then claimed c e i b
         else if ev_name e = ''UnclaimedReclaimed'' then reclaimed e i b
         else if ev_name e = ''ClaimDeadlineExtended'' then extended e i b
         else b)"

definition build_distributions :: "addr_codec \<Rightarrow> chain_event list \<Rightarrow> distribution_store \<times> income_claim list" where
  "build_distributions c es =
     (let b = fold (build_step c) (replay_order (filter (\<lambda>e. \<not> ev_removed e) es))
                \<lparr>bd_dists = [], bd_sums = [], bd_claims = []\<rparr>
      in (bd_dists b, bd_claims b))"

section \<open>Reconcile\<close>

definition income_event_names :: "string list" where
  "income_event_names = [''DistributionCreated'', ''IncomeClaimed'', ''UnclaimedReclaimed'', ''ClaimDeadlineExtended'']"

text \<open>\<open>lister addr name\<close> is \<^verbatim>\<open>ListByName\<close> as the call finds it; the rows are both tables.\<close>

definition derive_income ::
  "addr_codec \<Rightarrow> project read \<Rightarrow> (string \<Rightarrow> string \<Rightarrow> chain_event list option)
    \<Rightarrow> (rm_error, 's, distribution_store \<times> income_claim list) act" where
  "derive_income c prj lister =
     (case prj of
        ReadFailed \<Rightarrow> raise ErrProject
      | Missing \<Rightarrow> ret ([], [])
      | Found p \<Rightarrow>
          if pj_status p = ProjectActive \<and> ad_income_distributor (pj_addresses p) \<noteq> [] then
            (let addr = ac_hex c (ac_addr c (ad_income_distributor (pj_addresses p)))
             in bindM (list_events (lister addr) income_event_names) (\<lambda>evs. ret (build_distributions c evs)))
          else ret ([], []))"

definition income_reconcile ::
  "(nat \<Rightarrow> fault) \<Rightarrow> addr_codec \<Rightarrow> project read \<Rightarrow> (string \<Rightarrow> string \<Rightarrow> chain_event list option) \<Rightarrow> int
    \<Rightarrow> (rm_error, (distribution_store \<times> claim_store) read_model, unit) act" where
  "income_reconcile faults c prj lister gen =
     bindM (derive_income c prj lister) (\<lambda>(dists, claims).
     bindM (forM (vals dists) (\<lambda>d. rm_call faults ErrUpsert (apfst (di_upsert (d\<lparr>di_generation := gen\<rparr>))))) (\<lambda>_.
     bindM (forM claims (\<lambda>cl. rm_call faults ErrUpsert (apsnd (ic_upsert (cl\<lparr>ic_generation := gen\<rparr>))))) (\<lambda>_.
     bindM (rm_call faults ErrPrune (apfst (di_prune gen))) (\<lambda>_.
     rm_call faults ErrPrune (apsnd (ic_prune gen))))))"

section \<open>What the projection promises\<close>

definition creates :: "chain_event \<Rightarrow> bool" where
  "creates e \<longleftrightarrow> ev_name e = ''DistributionCreated'' \<and> str_field e ''id'' \<noteq> []"

definition creations :: "chain_event list \<Rightarrow> string list" where
  "creations es = map (\<lambda>e. str_field e ''id'') (filter creates es)"

definition amount_of :: "income_claim \<Rightarrow> int" where
  "amount_of cl = (case big_set_string (ic_amount cl) of None \<Rightarrow> 0 | Some n \<Rightarrow> n)"

definition claims_of :: "string \<Rightarrow> income_claim list \<Rightarrow> income_claim list" where
  "claims_of i cs = filter (\<lambda>cl. ic_distribution_id cl = i) cs"

definition claim_origin :: "chain_event list \<Rightarrow> income_claim \<Rightarrow> bool" where
  "claim_origin es cl \<longleftrightarrow> (\<exists>e \<in> set es. \<not> ev_removed e \<and> ev_name e = ''IncomeClaimed'' \<and>
     str_field e ''id'' = ic_distribution_id cl \<and> big_set_string (str_field e ''amount'') = Some (amount_of cl) \<and>
     ic_tx_hash cl = ev_tx_hash e \<and> ic_block_number cl = ev_block_number e)"

definition sums_ok :: "build_state \<Rightarrow> bool" where
  "sums_ok b \<longleftrightarrow> (\<forall>i. case lookup (bd_dists b) i of
       None \<Rightarrow> claims_of i (bd_claims b) = []
     | Some d \<Rightarrow> di_id d = i \<and> lookup (bd_sums b) i = Some (sum_list (map amount_of (claims_of i (bd_claims b)))) \<and>
         di_claimed d = big_string (sum_list (map amount_of (claims_of i (bd_claims b)))))"

lemma big_string_0: "big_string 0 = ''0''"
  by code_simp

lemma sums_okD:
  assumes "sums_ok b"
  shows "lookup (bd_dists b) i = None \<Longrightarrow> claims_of i (bd_claims b) = []"
    and "lookup (bd_dists b) i = Some d \<Longrightarrow> di_id d = i \<and>
      lookup (bd_sums b) i = Some (sum_list (map amount_of (claims_of i (bd_claims b)))) \<and>
      di_claimed d = big_string (sum_list (map amount_of (claims_of i (bd_claims b))))"
  using assms [unfolded sums_ok_def, rule_format, of i] by auto

text \<open>One step is one of the four operations, or skips the event.\<close>

lemma build_step_cases:
  "build_step c e b = b \<or>
    (creates e \<and> build_step c e b = created e (str_field e ''id'') b) \<or>
    (ev_name e = ''IncomeClaimed'' \<and> build_step c e b = claimed c e (str_field e ''id'') b) \<or>
    build_step c e b = reclaimed e (str_field e ''id'') b \<or> build_step c e b = extended e (str_field e ''id'') b"
  by (cases "str_field e ''id'' = []", simp add: build_step_def creates_def Let_def)
    (cases "ev_name e = ''DistributionCreated''", simp add: build_step_def,
     cases "ev_name e = ''IncomeClaimed''", simp add: build_step_def,
     cases "ev_name e = ''UnclaimedReclaimed''", simp add: build_step_def,
     cases "ev_name e = ''ClaimDeadlineExtended''", simp_all add: build_step_def creates_def Let_def)

lemma op_dom:
  "lookup (bd_dists (created e i b)) j \<noteq> None \<Longrightarrow> lookup (bd_dists b) j = None \<Longrightarrow> i = j"
  "lookup (bd_dists b) j = None \<Longrightarrow> lookup (bd_dists (claimed c e i b)) j = None"
  "lookup (bd_dists b) j = None \<Longrightarrow> lookup (bd_dists (reclaimed e i b)) j = None"
  "lookup (bd_dists b) j = None \<Longrightarrow> lookup (bd_dists (extended e i b)) j = None"
  by (auto simp: created_def claimed_def reclaimed_def extended_def Let_def lookup_put split: if_splits option.splits)

lemma op_claims:
  "bd_claims (created e i b) = bd_claims b"
  "bd_claims (reclaimed e i b) = bd_claims b"
  "bd_claims (extended e i b) = bd_claims b"
  by (simp_all add: created_def reclaimed_def extended_def split: option.split)

lemma claimed_claims:
  "cl \<in> set (bd_claims (claimed c e i b)) \<Longrightarrow> cl \<in> set (bd_claims b) \<or>
    ic_distribution_id cl = i \<and> big_set_string (str_field e ''amount'') = Some (amount_of cl) \<and>
    ic_tx_hash cl = ev_tx_hash e \<and> ic_block_number cl = ev_block_number e"
  by (auto simp: claimed_def Let_def amount_of_def split: option.splits if_splits)

lemma build_step_sums_ok:
  assumes "sums_ok b" and "creates e \<Longrightarrow> lookup (bd_dists b) (str_field e ''id'') = None"
  shows "sums_ok (build_step c e b)"
proof -
  let ?i = "str_field e ''id''"
  note D = sums_okD [OF assms(1)]
  have "sums_ok (created e ?i b)" if "lookup (bd_dists b) ?i = None"
    unfolding sums_ok_def created_def
    using that D by (auto simp: lookup_put big_string_0 split: option.splits)
  moreover have "sums_ok (claimed c e ?i b)"
    unfolding sums_ok_def claimed_def Let_def
    using D by (auto simp: lookup_put claims_of_def amount_of_def add.commute split: option.splits)
  moreover have "sums_ok (reclaimed e ?i b)"
    unfolding sums_ok_def reclaimed_def using D by (auto simp: lookup_put split: option.splits)
  moreover have "sums_ok (extended e ?i b)"
    unfolding sums_ok_def extended_def using D by (auto simp: lookup_put split: option.splits)
  ultimately show ?thesis
    using build_step_cases [of c e b] assms by (elim disjE conjE) simp_all
qed

lemma build_step_dom:
  assumes "lookup (bd_dists (build_step c e b)) j \<noteq> None" and "lookup (bd_dists b) j = None"
  shows "creates e \<and> str_field e ''id'' = j"
  using build_step_cases [of c e b] assms by (metis op_dom)

lemma build_fold_sums_ok:
  "sums_ok b \<Longrightarrow> distinct (creations es) \<Longrightarrow> \<forall>i \<in> set (creations es). lookup (bd_dists b) i = None \<Longrightarrow>
    sums_ok (fold (build_step c) es b)"
proof (induction es arbitrary: b)
  case Nil
  then show ?case by simp
next
  case (Cons e es)
  have "sums_ok (build_step c e b)"
    using Cons.prems by (intro build_step_sums_ok) (auto simp: creations_def)
  moreover have "distinct (creations es)" using Cons.prems(2) by (auto simp: creations_def split: if_splits)
  moreover have "\<forall>i \<in> set (creations es). lookup (bd_dists (build_step c e b)) i = None"
    using Cons.prems build_step_dom [of c e b] by (fastforce simp: creations_def)
  ultimately show ?case using Cons.IH by simp
qed

lemma build_step_origin:
  assumes "\<forall>cl \<in> set (bd_claims b). claim_origin es cl" and "e \<in> set es" and "\<not> ev_removed e"
  shows "\<forall>cl \<in> set (bd_claims (build_step c e b)). claim_origin es cl"
proof -
  have "\<forall>cl \<in> set (bd_claims (claimed c e (str_field e ''id'') b)). claim_origin es cl"
    if "ev_name e = ''IncomeClaimed''"
  proof
    fix cl assume "cl \<in> set (bd_claims (claimed c e (str_field e ''id'') b))"
    from claimed_claims [OF this] show "claim_origin es cl"
    proof
      assume "cl \<in> set (bd_claims b)"
      with assms(1) show ?thesis ..
    next
      assume "ic_distribution_id cl = str_field e ''id'' \<and> big_set_string (str_field e ''amount'') = Some (amount_of cl) \<and>
        ic_tx_hash cl = ev_tx_hash e \<and> ic_block_number cl = ev_block_number e"
      then show ?thesis unfolding claim_origin_def using that assms(2,3) by (intro bexI [of _ e]) simp_all
    qed
  qed
  then show ?thesis
    using build_step_cases [of c e b] assms(1) by (elim disjE conjE) (simp_all add: op_claims)
qed

lemma build_fold_origin:
  "\<forall>cl \<in> set (bd_claims b). claim_origin es cl \<Longrightarrow> \<forall>e \<in> set fs. e \<in> set es \<and> \<not> ev_removed e \<Longrightarrow>
    \<forall>cl \<in> set (bd_claims (fold (build_step c) fs b)). claim_origin es cl"
proof (induction fs arbitrary: b)
  case Nil
  then show ?case by simp
next
  case (Cons f fs)
  have "\<forall>cl \<in> set (bd_claims (build_step c f b)). claim_origin es cl"
    using Cons.prems by (intro build_step_origin) simp_all
  then show ?case unfolding fold.simps comp_apply by (rule Cons.IH) (use Cons.prems in simp)
qed

lemma distinct_creations_sorted:
  assumes "distinct (creations es)"
  shows "distinct (creations (replay_order (filter (\<lambda>e. \<not> ev_removed e) es)))"
proof -
  have "creations (replay_order fs) = map (\<lambda>e. str_field e ''id'') (sort_key ev_pos (filter creates fs))" for fs
    by (simp add: creations_def replay_order_def filter_sort)
  moreover have "distinct (map (\<lambda>e. str_field e ''id'') (filter creates (filter (\<lambda>e. \<not> ev_removed e) es)))"
  proof -
    have "filter creates (filter (\<lambda>e. \<not> ev_removed e) es) = filter (\<lambda>e. \<not> ev_removed e) (filter creates es)"
      by (simp add: conj_commute)
    then show ?thesis using assms unfolding creations_def by (metis distinct_map_filter)
  qed
  ultimately show ?thesis
    by (simp only: distinct_map [of "\<lambda>e. str_field e ''id''"] distinct_sort set_sort)
qed

text \<open>
  C16: the income read model adds up: when no distribution id is created twice, the claimed figure
  of every distribution is the sum of the claims listed for it, every claim belongs to a known
  distribution, and every claim goes back to a surviving IncomeClaimed log with its id, amount,
  transaction and block.
\<close>

theorem distributions_add_up:
  assumes "distinct (creations es)" and "build_distributions c es = (ds, cs)"
  shows "(\<forall>i d. lookup ds i = Some d \<longrightarrow> di_id d = i \<and>
      big_set_string (di_claimed d) = Some (sum_list (map amount_of (claims_of i cs)))) \<and>
    (\<forall>cl \<in> set cs. lookup ds (ic_distribution_id cl) \<noteq> None \<and> claim_origin es cl)"
proof -
  let ?es = "replay_order (filter (\<lambda>e. \<not> ev_removed e) es)"
  let ?b0 = "\<lparr>bd_dists = [], bd_sums = [], bd_claims = []\<rparr>"
  define b where "b = fold (build_step c) ?es ?b0"
  have ds: "ds = bd_dists b" "cs = bd_claims b" using assms(2) by (simp_all add: build_distributions_def b_def Let_def)
  have "sums_ok b" unfolding b_def
    by (rule build_fold_sums_ok) (simp_all add: sums_ok_def claims_of_def distinct_creations_sorted [OF assms(1)])
  note D = sums_okD [OF this]
  have "claim_origin es cl" if "cl \<in> set cs" for cl
    using build_fold_origin [of ?b0 es ?es c] that unfolding ds b_def by simp
  moreover have "lookup ds (ic_distribution_id cl) \<noteq> None" if "cl \<in> set cs" for cl
  proof
    assume "lookup ds (ic_distribution_id cl) = None"
    then have "claims_of (ic_distribution_id cl) cs = []" using D(1) ds by simp
    with that show False by (auto simp: claims_of_def filter_empty_conv)
  qed
  moreover have "di_id d = i \<and> big_set_string (di_claimed d) = Some (sum_list (map amount_of (claims_of i cs)))"
    if "lookup ds i = Some d" for i d
    using D(2) [of i d] that ds by simp
  ultimately show ?thesis by blast
qed

section \<open>What Reconcile leaves\<close>

lemma build_step_wf: "wf_store di_id (bd_dists b) \<Longrightarrow> wf_store di_id (bd_dists (build_step c e b))"
proof -
  assume wf: "wf_store di_id (bd_dists b)"
  have put: "wf_store di_id (put i v (bd_dists b))" if "di_id v = i" for i v
    using wf_store_put [OF wf that] .
  have "wf_store di_id (bd_dists (created e i b))" for i
    by (simp add: created_def wf put split: option.split)
  moreover have "wf_store di_id (bd_dists (claimed c e i b))" "wf_store di_id (bd_dists (reclaimed e i b))"
    "wf_store di_id (bd_dists (extended e i b))" for i
    using wf_store_lookup [OF wf]
    by (simp_all add: claimed_def reclaimed_def extended_def Let_def wf put split: option.split)
  ultimately show ?thesis using build_step_cases [of c e b] wf by metis
qed

lemma derived_wf:
  assumes "derive_income c prj lister s = (Inr (ds, cs), t)"
  shows "wf_store di_id ds" and "t = s"
proof -
  have "wf_store di_id (bd_dists (fold (build_step c) es b))" if "wf_store di_id (bd_dists b)" for es b
    using that by (induction es arbitrary: b) (simp_all add: build_step_wf)
  then have wf: "wf_store di_id (fst (build_distributions c es))" for es
    by (simp add: build_distributions_def Let_def)
  have "list_events l ns s = (r, u) \<Longrightarrow> u = s" for l :: "string \<Rightarrow> chain_event list option" and ns r u
  proof (induction ns arbitrary: r u)
    case Nil
    then show ?case by (simp add: ret_def)
  next
    case (Cons n ns)
    then show ?case
      by (auto simp: ret_def raise_def bindM_def split: option.splits prod.splits sum.splits)
  qed
  with assms wf show "wf_store di_id ds" "t = s"
    by (auto simp: derive_income_def ret_def raise_def Let_def elim!: bindM_InrE
        split: read.splits if_splits) (metis fst_conv wf)+
qed

lemma upserts_fst:
  "(\<forall>i. faults i = NoFault) \<Longrightarrow> \<exists>s'. forM rows (\<lambda>r. rm_call faults ErrUpsert (apfst (f r))) s = (Inr (), s') \<and>
    rm_rows s' = (fold f rows (fst (rm_rows s)), snd (rm_rows s))"
proof (induction rows arbitrary: s)
  case Nil
  then show ?case by (simp add: ret_def)
next
  case (Cons r rows)
  then show ?case by (fastforce simp: bindM_def rm_call_def Let_def)
qed

lemma upserts_snd:
  "(\<forall>i. faults i = NoFault) \<Longrightarrow> \<exists>s'. forM rows (\<lambda>r. rm_call faults ErrUpsert (apsnd (f r))) s = (Inr (), s') \<and>
    rm_rows s' = (fst (rm_rows s), fold f rows (snd (rm_rows s)))"
proof (induction rows arbitrary: s)
  case Nil
  then show ?case by (simp add: ret_def)
next
  case (Cons r rows)
  then show ?case by (fastforce simp: bindM_def rm_call_def Let_def)
qed

text \<open>
  A fault-free rebuild leaves exactly the derived rows, under the new generation: the
  distributions of the projection, and for each claim id the last claim listed under it. Without
  an active project or an income distributor nothing is derived, so both tables end up empty.
\<close>

theorem income_reconcile_exact:
  assumes "\<forall>i. faults i = NoFault" and "derive_income c prj lister s = (Inr (ds, cs), s)"
    and "distinct (map fst (fst (rm_rows s)))" and "distinct (map fst (snd (rm_rows s)))"
    and "\<forall>i d. lookup (fst (rm_rows s)) i = Some d \<longrightarrow> di_generation d \<noteq> gen"
    and "\<forall>i cl. lookup (snd (rm_rows s)) i = Some cl \<longrightarrow> ic_generation cl \<noteq> gen"
  shows "\<exists>s'. income_reconcile faults c prj lister gen s = (Inr (), s') \<and>
    (\<forall>i. lookup (fst (rm_rows s')) i = map_option (\<lambda>d. d\<lparr>di_generation := gen\<rparr>) (lookup ds i)) \<and>
    (\<forall>i. lookup (snd (rm_rows s')) i =
       map_of (rev (map (\<lambda>cl. (ic_id cl, cl\<lparr>ic_generation := gen\<rparr>)) cs)) i)"
proof -
  let ?d = "\<lambda>d. d\<lparr>di_generation := gen\<rparr>" and ?c = "\<lambda>cl. cl\<lparr>ic_generation := gen\<rparr>"
  obtain s1 where s1: "forM (vals ds) (\<lambda>d. rm_call faults ErrUpsert (apfst (di_upsert (?d d)))) s = (Inr (), s1)"
    "rm_rows s1 = (fold (\<lambda>d. di_upsert (?d d)) (vals ds) (fst (rm_rows s)), snd (rm_rows s))"
    using upserts_fst [OF assms(1), of "vals ds" "\<lambda>d. di_upsert (?d d)" s] by blast
  obtain s2 where s2: "forM cs (\<lambda>cl. rm_call faults ErrUpsert (apsnd (ic_upsert (?c cl)))) s1 = (Inr (), s2)"
    "rm_rows s2 = (fst (rm_rows s1), fold (\<lambda>cl. ic_upsert (?c cl)) cs (snd (rm_rows s1)))"
    using upserts_snd [OF assms(1), of cs "\<lambda>cl. ic_upsert (?c cl)" s1] by blast
  obtain s3 where s3: "rm_call faults ErrPrune (apfst (di_prune gen)) s2 = (Inr (), s3)"
    "rm_rows s3 = apfst (di_prune gen) (rm_rows s2)" using assms(1) by (simp add: rm_call_def Let_def)
  obtain s4 where s4: "rm_call faults ErrPrune (apsnd (ic_prune gen)) s3 = (Inr (), s4)"
    "rm_rows s4 = apsnd (ic_prune gen) (rm_rows s3)" using assms(1) by (simp add: rm_call_def Let_def)
  have run: "income_reconcile faults c prj lister gen s = (Inr (), s4)"
    unfolding income_reconcile_def by (simp add: bindM_def assms(2) s1 s2 s3 s4)
  have f: "fst (rm_rows s4) = di_prune gen (fold di_upsert (map ?d (vals ds)) (fst (rm_rows s)))"
    "snd (rm_rows s4) = ic_prune gen (fold ic_upsert (map ?c cs) (snd (rm_rows s)))"
    by (simp_all add: s1 s2 s3 s4 fold_map comp_def)
  have "lookup (fst (rm_rows s4)) i = map_option ?d (lookup ds i)" for i
  proof -
    have "lookup (fst (rm_rows s4)) i = map_of (rev (map (\<lambda>r. (di_id r, r)) (map ?d (vals ds)))) i"
      unfolding f(1) using assms(3,5) by (intro dim.get_rebuild) auto
    also have "\<dots> = map_option ?d (lookup ds i)"
      using derived_wf(1) [OF assms(2)] by (intro map_of_stamped) (auto simp: wf_store_def)
    finally show ?thesis .
  qed
  moreover have "lookup (snd (rm_rows s4)) i = map_of (rev (map (\<lambda>cl. (ic_id cl, ?c cl)) cs)) i" for i
  proof -
    have "lookup (snd (rm_rows s4)) i = map_of (rev (map (\<lambda>r. (ic_id r, r)) (map ?c cs))) i"
      unfolding f(2) using assms(4,6) by (intro icm.get_rebuild) auto
    then show ?thesis by (simp add: comp_def)
  qed
  ultimately show ?thesis using run by blast
qed

section \<open>Witnesses\<close>

definition demo_payouts :: "chain_event list" where
  "demo_payouts = [
     demo_event ''DistributionCreated'' 5 [(''id'', VString ''1''), (''claimDeadline'', VString ''7''),
       (''recordBlock'', VString ''7''), (''merkleRoot'', VString ''0xr''), (''snapshotSha256'', VString ''0xs'')],
     demo_event ''IncomeClaimed'' 6 [(''id'', VString ''1''), (''account'', VString ''aa''), (''amount'', VString ''7'')]]"

lemma demo_payouts_replay: "replay_order (filter (\<lambda>e. \<not> ev_removed e) demo_payouts) = demo_payouts"
  by (simp add: demo_payouts_def replay_order_def demo_event_def ev_pos_def less_eq_prod_def)

lemma demo_payouts_distinct: "distinct (creations demo_payouts)"
  by (simp add: demo_payouts_def creations_def creates_def demo_event_def str_field_def ev_field_def to_string_def)

lemma demo_payouts_built:
  "lookup (fst (build_distributions demo_addr_codec demo_payouts)) ''1'' \<noteq> None"
  unfolding build_distributions_def demo_payouts_replay
  by (simp add: demo_payouts_def build_step_def created_def claimed_def demo_event_def str_field_def ev_field_def
      to_string_def demo_seven demo_addr_codec_def Let_def lookup_put)

theorem distributions_add_up_witness:
  "\<exists>ds cs d. build_distributions demo_addr_codec demo_payouts = (ds, cs) \<and> lookup ds ''1'' = Some d \<and>
     big_set_string (di_claimed d) = Some (sum_list (map amount_of (claims_of ''1'' cs)))"
proof -
  obtain ds cs where b: "build_distributions demo_addr_codec demo_payouts = (ds, cs)"
    by (cases "build_distributions demo_addr_codec demo_payouts")
  then obtain d where "lookup ds ''1'' = Some d" using demo_payouts_built by auto
  with distributions_add_up [OF demo_payouts_distinct b] b show ?thesis by blast
qed

definition demo_lister :: "string \<Rightarrow> string \<Rightarrow> chain_event list option" where
  "demo_lister addr n = Some (filter (\<lambda>e. ev_name e = n) demo_payouts)"

definition demo_income_rows :: "(distribution_store \<times> claim_store) read_model" where
  "demo_income_rows = \<lparr>rm_tick = 0, rm_rows = ([], [])\<rparr>"

theorem income_reconcile_exact_witness:
  "\<exists>ds cs s'. income_reconcile (\<lambda>_. NoFault) demo_addr_codec (Found demo_project) demo_lister 7 demo_income_rows = (Inr (), s') \<and>
     derive_income demo_addr_codec (Found demo_project) demo_lister demo_income_rows = (Inr (ds, cs), demo_income_rows) \<and>
     (\<forall>i. lookup (fst (rm_rows s')) i = map_option (\<lambda>d. d\<lparr>di_generation := 7\<rparr>) (lookup ds i))"
proof -
  have "\<exists>ds cs. derive_income demo_addr_codec (Found demo_project) demo_lister demo_income_rows = (Inr (ds, cs), demo_income_rows)"
    by (simp add: derive_income_def demo_project_def demo_lister_def income_event_names_def bindM_def ret_def Let_def)
  then obtain ds cs where d: "derive_income demo_addr_codec (Found demo_project) demo_lister demo_income_rows =
      (Inr (ds, cs), demo_income_rows)" by blast
  show ?thesis
    using income_reconcile_exact [OF _ d, of "\<lambda>_. NoFault" 7] d by (auto simp: demo_income_rows_def)
qed

end
