(* ===== verification/IncomeService.thy ===== *)
theory IncomeService
  imports IncomeModel
begin

text \<open>
  The income service, server/internal/income/service.go: preparing a snapshot (Prepare), listing
  distributions (List) and a wallet's claims with their proofs (ClaimsFor), over the preparation
  repository of server/internal/dal/memory/income.go. Other requests may act on the repositories
  before every call.
\<close>

section \<open>Preparations\<close>

record income_preparation =
  ip_id :: string
  ip_merkle_root :: string
  ip_total :: string
  ip_record_block :: u64
  ip_claim_deadline :: int
  ip_snapshot_uri :: string
  ip_cid :: string
  ip_snapshot_sha256 :: string
  ip_eligible_supply :: string
  ip_distributed :: string
  ip_holder_count :: nat
  ip_snapshot_raw :: "byte list"
  ip_created_at :: gotime

type_synonym preparation_store = "(string, income_preparation) store"

definition ip_create :: "income_preparation \<Rightarrow> preparation_store \<Rightarrow> (store_error + unit) \<times> preparation_store" where
  "ip_create p st =
     (if lookup st (ip_id p) \<noteq> None then (Inl ErrAlreadyExists, st)
      else if \<exists>v \<in> set (vals st). ip_merkle_root v = ip_merkle_root p \<and> ip_snapshot_sha256 v = ip_snapshot_sha256 p
        then (Inl ErrAlreadyExists, st)
      else (Inr (), put (ip_id p) p st))"

definition ip_get :: "string \<Rightarrow> preparation_store \<Rightarrow> store_error + income_preparation" where
  "ip_get i st = (case lookup st i of None \<Rightarrow> Inl ErrNotFound | Some p \<Rightarrow> Inr p)"

definition ip_set_claim_deadline :: "string \<Rightarrow> int \<Rightarrow> preparation_store \<Rightarrow> (store_error + unit) \<times> preparation_store" where
  "ip_set_claim_deadline i deadline st =
     (case lookup st i of
        None \<Rightarrow> (Inl ErrNotFound, st)
      | Some p \<Rightarrow> (Inr (), put i (p\<lparr>ip_claim_deadline := deadline\<rparr>) st))"

definition ip_list :: "preparation_store \<Rightarrow> income_preparation list" where
  "ip_list st = sort_key (\<lambda>p. (ip_created_at p, ip_id p)) (map (\<lambda>p. p\<lparr>ip_snapshot_raw := []\<rparr>) (vals st))"

section \<open>The state of the service\<close>

datatype service_error = ErrInvalidRequest | ErrClaimWindowTooShort | ErrIncomeUnsupported | ErrRecordBlockNotFinal
  | ErrAlreadyDistributed | ErrIPFSUnavailable | ErrSnapshotTooLarge | ErrRepository | ErrStore store_error
  | ErrIncome income_error | ErrRootDiffers

record income_state =
  is_tick :: nat
  is_preps :: preparation_store
  is_dists :: distribution_store
  is_claims :: claim_store
  is_parsed :: "(string, parsed_snapshot) store"

text \<open>What other requests and the projector do to the repositories, by the same operations.\<close>

datatype other_op = OtherCreate income_preparation | OtherDeadline string int | OtherReconcile distribution_store claim_store

fun run_other :: "other_op \<Rightarrow> income_state \<Rightarrow> income_state" where
  "run_other (OtherCreate p) s = s\<lparr>is_preps := snd (ip_create p (is_preps s))\<rparr>"
| "run_other (OtherDeadline i d) s = s\<lparr>is_preps := snd (ip_set_claim_deadline i d (is_preps s))\<rparr>"
| "run_other (OtherReconcile ds cs) s = s\<lparr>is_dists := ds, is_claims := cs\<rparr>"

text \<open>
  What a call of the service meets: faults and other requests per repository call, the project
  and the checkpoint as read, indexed events by contract and name, the IPFS node (if any), the
  clock and the fresh UUID.
\<close>

record income_world =
  iw_fault :: "nat \<Rightarrow> fault"
  iw_other :: "nat \<Rightarrow> other_op list"
  iw_project :: "project read"
  iw_checkpoint :: "indexer_checkpoint read"
  iw_events :: "string \<Rightarrow> string \<Rightarrow> chain_event list option"
  iw_pinner :: "(byte list \<Rightarrow> string option) option"
  iw_now :: gotime
  iw_uuid :: string
  iw_chain_id :: int
  iw_finality :: u64

definition repo_call :: "income_world \<Rightarrow> (income_state \<Rightarrow> (store_error + 'a) \<times> income_state) \<Rightarrow> (service_error, income_state, 'a) act" where
  "repo_call w f = (\<lambda>s.
     let t = fold run_other (iw_other w (is_tick s)) (s\<lparr>is_tick := Suc (is_tick s)\<rparr>)
     in case iw_fault w (is_tick s) of
          FaultBefore \<Rightarrow> (Inl ErrRepository, t)
        | FaultAfter \<Rightarrow> (Inl ErrRepository, snd (f t))
        | NoFault \<Rightarrow> (case f t of (Inl x, u) \<Rightarrow> (Inl (ErrStore x), u) | (Inr y, u) \<Rightarrow> (Inr y, u)))"

definition list_preps :: "income_world \<Rightarrow> (service_error, income_state, income_preparation list) act" where
  "list_preps w = repo_call w (\<lambda>s. (Inr (ip_list (is_preps s)), s))"

definition list_dists :: "income_world \<Rightarrow> (service_error, income_state, income_distribution list) act" where
  "list_dists w = repo_call w (\<lambda>s. (Inr (di_list (is_dists s)), s))"

definition call_preps :: "income_world \<Rightarrow> (preparation_store \<Rightarrow> (store_error + 'a) \<times> preparation_store)
    \<Rightarrow> (service_error, income_state, 'a) act" where
  "call_preps w f = repo_call w (\<lambda>s. case f (is_preps s) of (r, ps) \<Rightarrow> (r, s\<lparr>is_preps := ps\<rparr>))"

section \<open>Prepare\<close>

record prepare_request =
  pr_record_block :: u64
  pr_total :: string
  pr_claim_deadline :: int

definition min_claim_window :: gotime where
  "min_claim_window = 7 * 24 * 3600 * 10 ^ 9 + 3600 * 10 ^ 9"

definition max_snapshot_bytes :: nat where
  "max_snapshot_bytes = 2 ^ 20"

definition unix_time :: "gotime \<Rightarrow> int" where
  "unix_time t = t div 10 ^ 9"

definition snapshot_key :: "string \<Rightarrow> string \<Rightarrow> string" where
  "snapshot_key root sha = to_lower root @ ''|'' @ to_lower sha"

definition active_income_project :: "income_world \<Rightarrow> service_error + project" where
  "active_income_project w =
     (case iw_project w of
        Missing \<Rightarrow> Inl ErrIncomeUnsupported
      | ReadFailed \<Rightarrow> Inl ErrRepository
      | Found p \<Rightarrow>
          if pj_status p \<noteq> ProjectActive \<or> pj_version p \<noteq> factory_version_v3 \<or>
             ad_income_distributor (pj_addresses p) = [] then Inl ErrIncomeUnsupported
          else Inr p)"

definition parse_total :: "string \<Rightarrow> service_error + int" where
  "parse_total t =
     (case big_set_string t of
        None \<Rightarrow> Inl ErrInvalidRequest
      | Some n \<Rightarrow>
          if n \<le> 0 \<or> (\<exists>c \<in> set t. c \<in> set ''+-_ '') \<or> (length t > 1 \<and> hd t = CHR ''0'') then Inl ErrInvalidRequest
          else if n \<ge> 2 ^ 256 then Inl ErrInvalidRequest
          else Inr n)"

definition check_final :: "income_world \<Rightarrow> prepare_request \<Rightarrow> service_error + unit" where
  "check_final w req =
     (case iw_checkpoint w of
        Missing \<Rightarrow> Inl ErrRecordBlockNotFinal
      | ReadFailed \<Rightarrow> Inl ErrRepository
      | Found cp \<Rightarrow>
          if ck_reconciliation_required cp \<or> ck_last_block cp < iw_finality w \<or>
             pr_record_block req > ck_last_block cp - iw_finality w then Inl ErrRecordBlockNotFinal
          else Inr ())"

fun concat_events :: "(string \<Rightarrow> chain_event list option) \<Rightarrow> string list \<Rightarrow> service_error + chain_event list" where
  "concat_events lister [] = Inr []"
| "concat_events lister (n # ns) =
     (case lister n of
        None \<Rightarrow> Inl ErrRepository
      | Some es \<Rightarrow> (case concat_events lister ns of Inl x \<Rightarrow> Inl x | Inr rest \<Rightarrow> Inr (es @ rest)))"

definition income_input :: "snap_codec \<Rightarrow> income_world \<Rightarrow> project \<Rightarrow> prepare_request \<Rightarrow> int \<Rightarrow> service_error + entitlement_input" where
  "income_input sc w p req tot =
     (let c = sc_addr sc; a = pj_addresses p; canon = (\<lambda>s. ac_hex c (ac_addr c s));
          check = ad_supply_controller a \<noteq> [];
          controller = (\<lambda>n. if check then concat_events (iw_events w (canon (ad_supply_controller a))) [n] else Inr [])
      in case concat_events (iw_events w (canon (ad_token a))) [''Transfer''] of
           Inl x \<Rightarrow> Inl x
         | Inr transfers \<Rightarrow>
             (case concat_events (iw_events w (canon (ad_redemption_escrow a))) redemption_event_names of
                Inl x \<Rightarrow> Inl x
              | Inr redemptions \<Rightarrow>
                  (case controller ''Minted'' of
                     Inl x \<Rightarrow> Inl x
                   | Inr minted \<Rightarrow>
                       (case controller ''Burned'' of
                          Inl x \<Rightarrow> Inl x
                        | Inr burned \<Rightarrow>
                            Inr \<lparr>ei_vault = ac_addr c (ad_vault a), ei_escrow = ac_addr c (ad_redemption_escrow a),
                              ei_record_block = pr_record_block req, ei_total = tot, ei_transfers = transfers,
                              ei_redemption_events = redemptions, ei_redemption_timeout = pj_redemption_timeout p,
                              ei_minted = minted, ei_burned = burned, ei_check_supply = check\<rparr>))))"

definition prepared_params :: "snap_codec \<Rightarrow> income_world \<Rightarrow> project \<Rightarrow> prepare_request \<Rightarrow> int \<Rightarrow> entitlements \<Rightarrow> snapshot_params" where
  "prepared_params sc w p req tot ents =
     (let c = sc_addr sc; a = pj_addresses p
      in \<lparr>sp_chain_id = iw_chain_id w, sp_token = ac_addr c (ad_token a),
          sp_income_distributor = ac_addr c (ad_income_distributor a), sp_quote = ac_addr c (ad_quote_token a),
          sp_record_block = pr_record_block req, sp_total = tot, sp_entitlements = ents\<rparr>)"

definition pin :: "income_world \<Rightarrow> snapshot \<Rightarrow> service_error + unit" where
  "pin w snap =
     (if length (sn_canonical snap) > max_snapshot_bytes then Inl ErrSnapshotTooLarge
      else case iw_pinner w of
        None \<Rightarrow> Inl ErrIPFSUnavailable
      | Some add_raw \<Rightarrow>
          (case add_raw (sn_canonical snap) of
             None \<Rightarrow> Inl ErrIPFSUnavailable
           | Some pinned \<Rightarrow> if pinned \<noteq> sn_cid snap then Inl ErrIPFSUnavailable else Inr ()))"

definition redate_preparation :: "income_world \<Rightarrow> string \<Rightarrow> string \<Rightarrow> int
    \<Rightarrow> (service_error, income_state, income_preparation option) act" where
  "redate_preparation w root sha deadline =
     bindM (list_preps w) (\<lambda>existing.
     case find (\<lambda>e. snapshot_key (ip_merkle_root e) (ip_snapshot_sha256 e) = snapshot_key root sha) existing of
       None \<Rightarrow> ret None
     | Some e \<Rightarrow>
         bindM (call_preps w (ip_set_claim_deadline (ip_id e) deadline)) (\<lambda>_.
         ret (Some (e\<lparr>ip_claim_deadline := deadline\<rparr>))))"

definition new_preparation :: "income_world \<Rightarrow> prepare_request \<Rightarrow> int \<Rightarrow> entitlements \<Rightarrow> snapshot \<Rightarrow> income_preparation" where
  "new_preparation w req tot ents snap =
     \<lparr>ip_id = iw_uuid w, ip_merkle_root = hash_hex (sn_merkle_root snap), ip_total = big_string tot,
      ip_record_block = pr_record_block req, ip_claim_deadline = pr_claim_deadline req,
      ip_snapshot_uri = ''ipfs://'' @ sn_cid snap, ip_cid = sn_cid snap, ip_snapshot_sha256 = hash_hex (sn_sha256 snap),
      ip_eligible_supply = big_string (es_eligible_supply ents), ip_distributed = big_string (es_distributed ents),
      ip_holder_count = length (es_entries ents), ip_snapshot_raw = sn_canonical snap, ip_created_at = iw_now w\<rparr>"

definition store_preparation :: "income_world \<Rightarrow> income_preparation \<Rightarrow> (service_error, income_state, income_preparation) act" where
  "store_preparation w prep =
     (let root = ip_merkle_root prep; sha = ip_snapshot_sha256 prep; deadline = ip_claim_deadline prep
      in bindM (list_dists w) (\<lambda>dists.
         if \<exists>d \<in> set dists. snapshot_key (di_merkle_root d) (di_snapshot_sha256 d) = snapshot_key root sha
         then raise ErrAlreadyDistributed
         else bindM (redate_preparation w root sha deadline) (\<lambda>found.
         case found of
           Some e \<Rightarrow> ret e
         | None \<Rightarrow>
             bindM (tryM (call_preps w (ip_create prep))) (\<lambda>r.
             case r of
               Inr _ \<Rightarrow> ret prep
             | Inl x \<Rightarrow>
                 if x = ErrStore ErrAlreadyExists then
                   bindM (redate_preparation w root sha deadline) (\<lambda>again.
                   case again of Some e \<Rightarrow> ret e | None \<Rightarrow> raise x)
                 else raise x))))"

definition prepare :: "snap_codec \<Rightarrow> income_world \<Rightarrow> prepare_request \<Rightarrow> (service_error, income_state, income_preparation) act" where
  "prepare sc w req =
     bindM (liftE (parse_total (pr_total req))) (\<lambda>tot.
     bindM (guardM (pr_claim_deadline req \<ge> unix_time (iw_now w + min_claim_window)) ErrClaimWindowTooShort) (\<lambda>_.
     bindM (liftE (active_income_project w)) (\<lambda>p.
     bindM (liftE (check_final w req)) (\<lambda>_.
     bindM (liftE (income_input sc w p req tot)) (\<lambda>inp.
     bindM (liftE (map_sum ErrIncome id (compute_entitlements (sc_addr sc) (iw_now w) inp))) (\<lambda>ents.
     bindM (liftE (map_sum ErrIncome id (build_snapshot sc (prepared_params sc w p req tot ents)))) (\<lambda>snap.
     bindM (liftE (pin w snap)) (\<lambda>_.
     store_preparation w (new_preparation w req tot ents snap)))))))))"

section \<open>Listing distributions\<close>

datatype distribution_status = StatusPrepared | StatusActive | StatusExpired | StatusReclaimed

record distribution_view =
  dv_prep :: income_preparation
  dv_dist :: "income_distribution option"
  dv_status :: distribution_status

definition status_of :: "income_distribution option \<Rightarrow> gotime \<Rightarrow> distribution_status" where
  "status_of d now =
     (case d of
        None \<Rightarrow> StatusPrepared
      | Some d \<Rightarrow>
          if di_reclaimed d then StatusReclaimed
          else if unix_time now > di_claim_deadline d then StatusExpired
          else StatusActive)"

definition prep_key :: "income_preparation \<Rightarrow> string" where
  "prep_key p = snapshot_key (ip_merkle_root p) (ip_snapshot_sha256 p)"

definition dist_key :: "income_distribution \<Rightarrow> string" where
  "dist_key d = snapshot_key (di_merkle_root d) (di_snapshot_sha256 d)"

definition view :: "gotime \<Rightarrow> income_preparation \<Rightarrow> income_distribution option \<Rightarrow> distribution_view" where
  "view now p d = \<lparr>dv_prep = p, dv_dist = d, dv_status = status_of d now\<rparr>"

text \<open>\<^verbatim>\<open>byKey\<close>: queues of distributions in creation order; \<^verbatim>\<open>lastPrep\<close>: the last index with a key.\<close>

definition queue :: "(string, income_distribution list) store \<Rightarrow> string \<Rightarrow> income_distribution list" where
  "queue by_key k = (case lookup by_key k of None \<Rightarrow> [] | Some q \<Rightarrow> q)"

definition queues :: "income_distribution list \<Rightarrow> (string, income_distribution list) store" where
  "queues ds = fold (\<lambda>d m. put (dist_key d) (queue m (dist_key d) @ [d]) m) ds []"

fun last_index :: "nat \<Rightarrow> income_preparation list \<Rightarrow> (string, nat) store \<Rightarrow> (string, nat) store" where
  "last_index i [] m = m"
| "last_index i (p # ps) m = last_index (Suc i) ps (put (prep_key p) i m)"

fun match_views ::
  "gotime \<Rightarrow> (string, nat) store \<Rightarrow> nat \<Rightarrow> income_preparation list \<Rightarrow> (string, income_distribution list) store
    \<Rightarrow> distribution_view list" where
  "match_views now last_prep i [] by_key = []"
| "match_views now last_prep i (p # ps) by_key =
     (let k = prep_key p;
          (d, by_key1) = (case queue by_key k of [] \<Rightarrow> (None, by_key) | d # q \<Rightarrow> (Some d, put k q by_key));
          (extras, by_key2) =
            (if lookup last_prep k = Some i
             then (map (\<lambda>x. view now p (Some x)) (queue by_key1 k), put k [] by_key1)
             else ([], by_key1))
      in view now p d # extras @ match_views now last_prep (Suc i) ps by_key2)"

definition live_distributions :: "income_world \<Rightarrow> (service_error, income_state, income_distribution list) act" where
  "live_distributions w =
     (case active_income_project w of
        Inl x \<Rightarrow> if x = ErrIncomeUnsupported then ret [] else raise x
      | Inr p \<Rightarrow> list_dists w)"

definition list_distributions :: "income_world \<Rightarrow> (service_error, income_state, distribution_view list) act" where
  "list_distributions w =
     bindM (list_preps w) (\<lambda>preps.
     bindM (live_distributions w) (\<lambda>dists.
     ret (rev (match_views (iw_now w) (last_index 0 preps []) 0 preps (queues dists)))))"

section \<open>Claims\<close>

datatype claim_status = ClaimClaimable | ClaimClaimed | ClaimExpired

record claim_view =
  cv_dist :: income_distribution
  cv_account :: address
  cv_amount :: int
  cv_proof :: "u256 list"
  cv_status :: claim_status
  cv_claim_tx_hash :: string

definition snapshot_of :: "snap_codec \<Rightarrow> income_world \<Rightarrow> income_preparation \<Rightarrow> (service_error, income_state, parsed_snapshot) act" where
  "snapshot_of sc w p =
     bindM (getM (\<lambda>s. lookup (is_parsed s) (ip_id p))) (\<lambda>cached.
     case cached of
       Some v \<Rightarrow> ret v
     | None \<Rightarrow>
         bindM (repo_call w (\<lambda>s. (ip_get (ip_id p) (is_preps s), s))) (\<lambda>full.
         bindM (liftE (map_sum ErrIncome id (parse_snapshot sc (ip_snapshot_raw full)))) (\<lambda>snap.
         bindM (guardM (equal_fold (ip_merkle_root p) (hash_hex (tree_root (ps_tree snap)))) ErrRootDiffers) (\<lambda>_.
         bindM (modifyM (\<lambda>s. s\<lparr>is_parsed := put (ip_id p) snap (is_parsed s)\<rparr>)) (\<lambda>_.
         ret snap)))))"

definition claim_status_of :: "gotime \<Rightarrow> income_distribution \<Rightarrow> income_claim option \<Rightarrow> claim_status \<times> string" where
  "claim_status_of now d c =
     (case c of
        Some cl \<Rightarrow> (ClaimClaimed, ic_tx_hash cl)
      | None \<Rightarrow> if di_reclaimed d \<or> unix_time now > di_claim_deadline d then (ClaimExpired, []) else (ClaimClaimable, []))"

text \<open>The loop newest first; a snapshot that cannot be read is skipped unless the request was cancelled.\<close>

fun claim_views ::
  "snap_codec \<Rightarrow> income_world \<Rightarrow> bool \<Rightarrow> address \<Rightarrow> (string, income_preparation) store \<Rightarrow> (string, income_claim) store
    \<Rightarrow> income_distribution list \<Rightarrow> (service_error, income_state, claim_view list) act" where
  "claim_views sc w cancelled account by_snapshot claims [] = ret []"
| "claim_views sc w cancelled account by_snapshot claims (d # ds) =
     (case lookup by_snapshot (dist_key d) of
        None \<Rightarrow> claim_views sc w cancelled account by_snapshot claims ds
      | Some prep \<Rightarrow>
          bindM (tryM (snapshot_of sc w prep)) (\<lambda>r.
          case r of
            Inl x \<Rightarrow> if cancelled then raise x else claim_views sc w cancelled account by_snapshot claims ds
          | Inr snap \<Rightarrow>
              (case lookup (ps_entries snap) (to_lower (ac_hex (sc_addr sc) account)) of
                 None \<Rightarrow> claim_views sc w cancelled account by_snapshot claims ds
               | Some (a, amount) \<Rightarrow>
                   bindM (liftE (map_sum (\<lambda>x. ErrIncome (ErrTree x)) id (tree_proof (sc_keccak sc) (ps_tree snap) a amount))) (\<lambda>path.
                   bindM (claim_views sc w cancelled account by_snapshot claims ds) (\<lambda>rest.
                   ret (\<lparr>cv_dist = d, cv_account = a, cv_amount = amount, cv_proof = path,
                          cv_status = fst (claim_status_of (iw_now w) d (lookup claims (di_id d))),
                          cv_claim_tx_hash = snd (claim_status_of (iw_now w) d (lookup claims (di_id d)))\<rparr> # rest))))))"

text \<open>The first preparation listed for a snapshot serves it; of several claims, the last listed.\<close>

definition index_preps :: "income_preparation list \<Rightarrow> (string, income_preparation) store" where
  "index_preps ps = fold (\<lambda>p m. if lookup m (prep_key p) \<noteq> None then m else put (prep_key p) p m) ps []"

definition index_claims :: "income_claim list \<Rightarrow> (string, income_claim) store" where
  "index_claims cs = fold (\<lambda>c m. put (ic_distribution_id c) c m) cs []"

definition claims_for :: "snap_codec \<Rightarrow> income_world \<Rightarrow> bool \<Rightarrow> address \<Rightarrow> (service_error, income_state, claim_view list) act" where
  "claims_for sc w cancelled account =
     bindM (live_distributions w) (\<lambda>dists.
     if dists = [] then ret []
     else bindM (list_preps w) (\<lambda>preps.
     bindM (repo_call w (\<lambda>s. (Inr (ic_list_by_account (ac_hex (sc_addr sc) account) (is_claims s)), s))) (\<lambda>rows.
     claim_views sc w cancelled account (index_preps preps) (index_claims rows) (rev dists))))"

section \<open>Stored preparations are immutable but for their deadline\<close>

definition same_snapshot :: "income_preparation \<Rightarrow> income_preparation \<Rightarrow> bool" where
  "same_snapshot p q \<longleftrightarrow> q = p\<lparr>ip_claim_deadline := ip_claim_deadline q\<rparr>"

definition preps_le :: "preparation_store \<Rightarrow> preparation_store \<Rightarrow> bool" where
  "preps_le st st' \<longleftrightarrow> (\<forall>i p. lookup st i = Some p \<longrightarrow> (\<exists>q. lookup st' i = Some q \<and> same_snapshot p q))"

definition preps_ok :: "preparation_store \<Rightarrow> bool" where
  "preps_ok st \<longleftrightarrow> wf_store ip_id st \<and> (\<forall>i j p q. lookup st i = Some p \<longrightarrow> lookup st j = Some q \<longrightarrow>
     ip_merkle_root p = ip_merkle_root q \<longrightarrow> ip_snapshot_sha256 p = ip_snapshot_sha256 q \<longrightarrow> i = j)"

lemma same_snapshot_refl [simp]: "same_snapshot p p"
  by (simp add: same_snapshot_def)

lemma same_snapshotD:
  assumes "same_snapshot p q"
  shows "ip_id q = ip_id p" "ip_merkle_root q = ip_merkle_root p" "ip_snapshot_sha256 q = ip_snapshot_sha256 p"
    "ip_snapshot_raw q = ip_snapshot_raw p" "prep_key q = prep_key p"
  by (subst assms [unfolded same_snapshot_def], simp add: prep_key_def)+

lemma same_snapshot_trans:
  assumes "same_snapshot p q" and "same_snapshot q r"
  shows "same_snapshot p r"
proof -
  from assms have "q = p\<lparr>ip_claim_deadline := ip_claim_deadline q\<rparr>" and "r = q\<lparr>ip_claim_deadline := ip_claim_deadline r\<rparr>"
    by (simp_all only: same_snapshot_def)
  then have "r = p\<lparr>ip_claim_deadline := ip_claim_deadline r\<rparr>"
    by (metis (no_types) income_preparation.surjective income_preparation.update_convs(5))
  then show ?thesis by (simp only: same_snapshot_def)
qed

lemma preps_le_refl [simp]: "preps_le st st"
  by (auto simp: preps_le_def)

lemma preps_le_trans: "preps_le a b \<Longrightarrow> preps_le b c \<Longrightarrow> preps_le a c"
  unfolding preps_le_def by (meson same_snapshot_trans)

lemma preps_ok_unique:
  "preps_ok st \<Longrightarrow> lookup st i = Some p \<Longrightarrow> lookup st j = Some q \<Longrightarrow>
    ip_merkle_root p = ip_merkle_root q \<Longrightarrow> ip_snapshot_sha256 p = ip_snapshot_sha256 q \<Longrightarrow> i = j"
  unfolding preps_ok_def by blast

lemma preps_ok_put:
  assumes "preps_ok st" and "lookup st (ip_id q) = Some p" and "same_snapshot p q"
  shows "preps_ok (put (ip_id q) q st)" and "preps_le st (put (ip_id q) q st)"
proof -
  note D = same_snapshotD [OF assms(3)]
  have wf: "wf_store ip_id st" using assms(1) by (simp add: preps_ok_def)
  have old: "\<exists>a'. lookup st i = Some a' \<and> ip_merkle_root a' = ip_merkle_root a \<and> ip_snapshot_sha256 a' = ip_snapshot_sha256 a"
    if "lookup (put (ip_id q) q st) i = Some a" for i a
    using that assms(2) D by (auto simp: lookup_put split: if_splits)
  show "preps_ok (put (ip_id q) q st)"
    unfolding preps_ok_def
  proof (intro conjI allI impI)
    show "wf_store ip_id (put (ip_id q) q st)" by (rule wf_store_put [OF wf refl])
    fix i j a b
    assume ab: "lookup (put (ip_id q) q st) i = Some a" "lookup (put (ip_id q) q st) j = Some b"
      "ip_merkle_root a = ip_merkle_root b" "ip_snapshot_sha256 a = ip_snapshot_sha256 b"
    from old [OF ab(1)] old [OF ab(2)] ab(3,4) show "i = j" by (metis preps_ok_unique [OF assms(1)])
  qed
  show "preps_le st (put (ip_id q) q st)"
    using assms(2,3) by (auto simp: preps_le_def lookup_put)
qed

lemma ip_create_ok:
  assumes "preps_ok st"
  shows "preps_ok (snd (ip_create p st)) \<and> preps_le st (snd (ip_create p st))"
proof (cases "lookup st (ip_id p) \<noteq> None \<or>
    (\<exists>v \<in> set (vals st). ip_merkle_root v = ip_merkle_root p \<and> ip_snapshot_sha256 v = ip_snapshot_sha256 p)")
  case True
  then have "snd (ip_create p st) = st" by (cases "lookup st (ip_id p) = None") (simp_all add: ip_create_def)
  with assms show ?thesis by simp
next
  case False
  then have new: "snd (ip_create p st) = put (ip_id p) p st" "lookup st (ip_id p) = None"
    and fresh: "\<forall>v \<in> set (vals st). \<not> (ip_merkle_root v = ip_merkle_root p \<and> ip_snapshot_sha256 v = ip_snapshot_sha256 p)"
    by (auto simp: ip_create_def)
  have wf: "wf_store ip_id st" using assms by (simp add: preps_ok_def)
  have "\<not> (ip_merkle_root v = ip_merkle_root p \<and> ip_snapshot_sha256 v = ip_snapshot_sha256 p)" if "lookup st j = Some v" for j v
    using fresh map_of_SomeD [OF that] by force
  note fresh = this
  have "preps_ok (put (ip_id p) p st)"
    unfolding preps_ok_def
  proof (intro conjI allI impI)
    show "wf_store ip_id (put (ip_id p) p st)" by (rule wf_store_put [OF wf refl])
    fix i j a b
    assume ab: "lookup (put (ip_id p) p st) i = Some a" "lookup (put (ip_id p) p st) j = Some b"
      "ip_merkle_root a = ip_merkle_root b" "ip_snapshot_sha256 a = ip_snapshot_sha256 b"
    show "i = j"
    proof (cases "ip_id p = i \<or> ip_id p = j")
      case True
      with ab fresh [of i a] fresh [of j b] show ?thesis by (simp add: lookup_put split: if_splits)
    next
      case False
      with ab show ?thesis using preps_ok_unique [OF assms, of i a j b] by (simp add: lookup_put)
    qed
  qed
  moreover have "preps_le st (put (ip_id p) p st)" using new(2) by (auto simp: preps_le_def lookup_put)
  ultimately show ?thesis using new(1) by simp
qed

lemma set_deadline_ok:
  assumes "preps_ok st"
  shows "preps_ok (snd (ip_set_claim_deadline i d st)) \<and> preps_le st (snd (ip_set_claim_deadline i d st))"
proof (cases "lookup st i")
  case None
  with assms show ?thesis by (simp add: ip_set_claim_deadline_def)
next
  case (Some p)
  have "ip_id p = i" using assms Some by (auto simp: preps_ok_def intro: wf_store_lookup)
  then show ?thesis
    using preps_ok_put [OF assms, of "p\<lparr>ip_claim_deadline := d\<rparr>" p] Some
    by (simp add: ip_set_claim_deadline_def same_snapshot_def)
qed

text \<open>The rely: whatever the other requests did, \<open>t\<close> may follow \<open>s\<close>.\<close>

definition follows :: "income_state \<Rightarrow> income_state \<Rightarrow> bool" where
  "follows s t \<longleftrightarrow> (preps_ok (is_preps s) \<longrightarrow> preps_ok (is_preps t) \<and> preps_le (is_preps s) (is_preps t)) \<and>
     is_parsed t = is_parsed s"

lemma follows_refl [simp]: "follows s s"
  by (simp add: follows_def)

lemma follows_trans: "follows s t \<Longrightarrow> follows t u \<Longrightarrow> follows s u"
  unfolding follows_def by (metis preps_le_trans)

lemma run_others_follows: "follows s (fold run_other ops s)"
proof (induction ops arbitrary: s)
  case Nil
  then show ?case by simp
next
  case (Cons x ops)
  have "follows s (run_other x s)"
    using ip_create_ok set_deadline_ok by (cases x) (simp_all add: follows_def)
  then show ?case using Cons follows_trans by simp
qed

lemma repo_call_start:
  "follows s (fold run_other (iw_other w (is_tick s)) (s\<lparr>is_tick := Suc (is_tick s)\<rparr>))"
  by (rule follows_trans [OF _ run_others_follows]) (simp add: follows_def)

lemma repo_call_Inr:
  assumes "repo_call w f s = (Inr y, u)"
  shows "\<exists>t. follows s t \<and> f t = (Inr y, u)"
  using assms repo_call_start [of s w]
  by (auto simp: repo_call_def Let_def split: fault.splits prod.splits sum.splits)

lemma repo_call_follows:
  assumes "\<And>t. follows t (snd (f t))"
  shows "follows s (snd (repo_call w f s))"
proof -
  let ?t = "fold run_other (iw_other w (is_tick s)) (s\<lparr>is_tick := Suc (is_tick s)\<rparr>)"
  obtain r u where r: "f ?t = (r, u)" by (cases "f ?t")
  then have "follows ?t u" using assms [of ?t] by simp
  moreover have "snd (repo_call w f s) = ?t \<or> snd (repo_call w f s) = u"
    using r by (cases r; cases "iw_fault w (is_tick s)") (simp_all add: repo_call_def)
  moreover have "follows s ?t" by (rule repo_call_start)
  ultimately show ?thesis using follows_trans by metis
qed

lemma list_preps_ok:
  assumes "list_preps w s = (Inr ps, t)"
  shows "follows s t \<and> ps = ip_list (is_preps t)"
  using repo_call_Inr [OF assms [unfolded list_preps_def]] by auto

lemma list_dists_ok:
  assumes "list_dists w s = (Inr ds, t)"
  shows "follows s t \<and> ds = di_list (is_dists t)"
  using repo_call_Inr [OF assms [unfolded list_dists_def]] by auto

lemma call_preps_ok:
  assumes "call_preps w f s = (Inr y, u)"
  shows "\<exists>t ps. follows s t \<and> f (is_preps t) = (Inr y, ps) \<and> u = t\<lparr>is_preps := ps\<rparr>"
proof -
  from repo_call_Inr [OF assms [unfolded call_preps_def]] obtain t
    where "follows s t" and t: "(case f (is_preps t) of (r, ps) \<Rightarrow> (r, t\<lparr>is_preps := ps\<rparr>)) = (Inr y, u)" by blast
  moreover obtain r ps where "f (is_preps t) = (r, ps)" by (cases "f (is_preps t)")
  ultimately show ?thesis by auto
qed

lemma list_follows: "follows s (snd (list_preps w s))" "follows s (snd (list_dists w s))"
  unfolding list_preps_def list_dists_def by (rule repo_call_follows, simp)+

lemma call_preps_follows:
  assumes "\<And>ps. preps_ok ps \<Longrightarrow> preps_ok (snd (f ps)) \<and> preps_le ps (snd (f ps))"
  shows "follows s (snd (call_preps w f s))"
  unfolding call_preps_def
proof (rule repo_call_follows)
  fix t :: income_state
  obtain r ps where "f (is_preps t) = (r, ps)" by (cases "f (is_preps t)")
  then show "follows t (snd (case f (is_preps t) of (r, ps) \<Rightarrow> (r, t\<lparr>is_preps := ps\<rparr>)))"
    using assms [of "is_preps t"] by (simp add: follows_def)
qed

lemma listed_prep:
  assumes "preps_ok st" and "p \<in> set (ip_list st)"
  shows "\<exists>q. lookup st (ip_id p) = Some q \<and> p = q\<lparr>ip_snapshot_raw := []\<rparr>"
proof -
  from assms(2) obtain q where q: "q \<in> set (vals st)" "p = q\<lparr>ip_snapshot_raw := []\<rparr>" by (auto simp: ip_list_def)
  moreover have "wf_store ip_id st" using assms(1) by (simp add: preps_ok_def)
  ultimately have "lookup st (ip_id q) = Some q" using wf_store_vals [of ip_id st q] by simp
  with q show ?thesis by simp
qed

section \<open>What a successful Prepare stores\<close>

text \<open>\<open>stored st p\<close>: the repository holds \<open>p\<close>, whose raw bytes a listing leaves out.\<close>

definition stored :: "preparation_store \<Rightarrow> income_preparation \<Rightarrow> bool" where
  "stored st p \<longleftrightarrow> (\<exists>q. lookup st (ip_id p) = Some q \<and> p\<lparr>ip_snapshot_raw := []\<rparr> = q\<lparr>ip_snapshot_raw := []\<rparr>)"

lemma redate_sound:
  assumes "redate_preparation w root sha deadline s = (Inr r, u)"
  shows "follows s u \<and> (preps_ok (is_preps s) \<longrightarrow> (\<forall>e. r = Some e \<longrightarrow> stored (is_preps u) e \<and>
    prep_key e = snapshot_key root sha \<and> ip_claim_deadline e = deadline))"
proof -
  let ?P = "\<lambda>e. snapshot_key (ip_merkle_root e) (ip_snapshot_sha256 e) = snapshot_key root sha"
  from assms obtain ps t where ps: "list_preps w s = (Inr ps, t)"
    and rest: "(case find ?P ps of None \<Rightarrow> ret None
      | Some e \<Rightarrow> bindM (call_preps w (ip_set_claim_deadline (ip_id e) deadline)) (\<lambda>_. ret (Some (e\<lparr>ip_claim_deadline := deadline\<rparr>)))) t
        = (Inr r, u)"
    unfolding redate_preparation_def by (elim bindM_InrE)
  note t = list_preps_ok [OF ps]
  show ?thesis
  proof (cases "find ?P ps")
    case None
    with rest t show ?thesis by (auto simp: ret_def)
  next
    case (Some e)
    with rest obtain y where call: "call_preps w (ip_set_claim_deadline (ip_id e) deadline) t = (Inr y, u)"
      and r: "r = Some (e\<lparr>ip_claim_deadline := deadline\<rparr>)" by (auto elim!: bindM_InrE simp: ret_def)
    from call_preps_ok [OF call] obtain v ps' where v: "follows t v"
      "ip_set_claim_deadline (ip_id e) deadline (is_preps v) = (Inr y, ps')" "u = v\<lparr>is_preps := ps'\<rparr>" by blast
    have "follows v u"
      using set_deadline_ok [of "is_preps v" "ip_id e" deadline] v(2,3) by (simp add: follows_def)
    then have su: "follows s u" using t v(1) follows_trans by blast
    have "stored (is_preps u) (e\<lparr>ip_claim_deadline := deadline\<rparr>) \<and> ?P e" if ok: "preps_ok (is_preps s)"
    proof
      show "?P e" using find_SomeD [OF Some] by simp
      have "e \<in> set (ip_list (is_preps t))" using find_SomeD [OF Some] t by simp
      moreover have okt: "preps_ok (is_preps t)" using t ok by (simp add: follows_def)
      ultimately obtain q where q: "lookup (is_preps t) (ip_id e) = Some q" "e = q\<lparr>ip_snapshot_raw := []\<rparr>"
        using listed_prep by blast
      then obtain q' where q': "lookup (is_preps v) (ip_id e) = Some q'" "same_snapshot q q'"
        using v(1) okt unfolding follows_def preps_le_def by blast
      then have "lookup (is_preps u) (ip_id e) = Some (q'\<lparr>ip_claim_deadline := deadline\<rparr>)"
        using v(2,3) by (auto simp: ip_set_claim_deadline_def lookup_put)
      moreover have "q'\<lparr>ip_claim_deadline := deadline\<rparr> = q\<lparr>ip_claim_deadline := deadline\<rparr>"
        by (subst q'(2) [unfolded same_snapshot_def]) simp
      ultimately show "stored (is_preps u) (e\<lparr>ip_claim_deadline := deadline\<rparr>)" using q(2) by (simp add: stored_def)
    qed
    with su r show ?thesis by (auto simp: prep_key_def)
  qed
qed

lemma create_sound:
  assumes "call_preps w (ip_create prep) s = (r, u)"
  shows "follows s u \<and> (preps_ok (is_preps s) \<longrightarrow> r = Inr () \<longrightarrow> stored (is_preps u) prep)"
proof
  show "follows s u" using call_preps_follows [of "ip_create prep" s w] ip_create_ok assms by simp
  show "preps_ok (is_preps s) \<longrightarrow> r = Inr () \<longrightarrow> stored (is_preps u) prep"
  proof (intro impI)
    assume "r = Inr ()"
    with assms obtain t ps where "ip_create prep (is_preps t) = (Inr (), ps)" "u = t\<lparr>is_preps := ps\<rparr>"
      using call_preps_ok [of w "ip_create prep" s "()" u] by blast
    then show "stored (is_preps u) prep"
      by (auto simp: ip_create_def stored_def lookup_put split: if_splits)
  qed
qed

lemma store_preparation_sound:
  assumes "store_preparation w prep s = (Inr r, u)" and "preps_ok (is_preps s)"
  shows "follows s u \<and> stored (is_preps u) r \<and> prep_key r = prep_key prep \<and> ip_claim_deadline r = ip_claim_deadline prep"
proof -
  let ?redate = "redate_preparation w (ip_merkle_root prep) (ip_snapshot_sha256 prep) (ip_claim_deadline prep)"
  from assms(1) obtain ds t found v where ds: "list_dists w s = (Inr ds, t)"
    and first: "?redate t = (Inr found, v)"
    and rest: "(case found of Some e \<Rightarrow> ret e | None \<Rightarrow>
      bindM (tryM (call_preps w (ip_create prep))) (\<lambda>r. case r of Inr _ \<Rightarrow> ret prep
        | Inl x \<Rightarrow> if x = ErrStore ErrAlreadyExists then bindM ?redate (\<lambda>again.
            case again of Some e \<Rightarrow> ret e | None \<Rightarrow> raise x) else raise x)) v = (Inr r, u)"
    unfolding store_preparation_def Let_def
    by (elim bindM_InrE) (auto simp: raise_def elim!: bindM_InrE split: if_splits)
  have st: "follows s t" using list_dists_ok [OF ds] by simp
  note r1 = redate_sound [OF first]
  have sv: "follows s v" using st r1 follows_trans by blast
  have okt: "preps_ok (is_preps t)" and okv: "preps_ok (is_preps v)" using st sv assms(2) by (simp_all add: follows_def)
  show ?thesis
  proof (cases found)
    case (Some e)
    then have "r = e" "u = v" using rest by (simp_all add: ret_def)
    with Some r1 okt sv show ?thesis by (simp add: prep_key_def)
  next
    case None
    obtain c z where c: "call_preps w (ip_create prep) v = (c, z)" by (cases "call_preps w (ip_create prep) v")
    note created = create_sound [OF c]
    have sz: "follows s z" using sv created follows_trans by blast
    then have okz: "preps_ok (is_preps z)" using assms(2) by (simp add: follows_def)
    show ?thesis
    proof (cases c)
      case (Inr y)
      then have "r = prep" "u = z" using rest None c by (simp_all add: bindM_def tryM_def ret_def)
      with Inr created okv sz show ?thesis by simp
    next
      case (Inl x)
      then obtain again where again: "?redate z = (Inr again, u)" and "again = Some r"
        using rest None c by (auto simp: bindM_def tryM_def ret_def raise_def split: if_splits prod.splits sum.splits option.splits)
      moreover have "follows s u" using redate_sound [OF again] sz follows_trans by blast
      ultimately show ?thesis using redate_sound [OF again] okz by (simp add: prep_key_def)
    qed
  qed
qed

lemma parse_total_range: "parse_total t = Inr n \<Longrightarrow> 0 < n \<and> n < 2 ^ 256"
  by (auto simp: parse_total_def split: option.splits if_splits)

lemma check_final_depth:
  assumes "check_final w req = Inr ()"
  shows "\<exists>cp. iw_checkpoint w = Found cp \<and> \<not> ck_reconciliation_required cp \<and>
    unat (pr_record_block req) + unat (iw_finality w) \<le> unat (ck_last_block cp)"
proof -
  from assms obtain cp where cp: "iw_checkpoint w = Found cp" "\<not> ck_reconciliation_required cp"
    "\<not> ck_last_block cp < iw_finality w" "pr_record_block req \<le> ck_last_block cp - iw_finality w"
    by (auto simp: check_final_def not_less split: read.splits if_splits)
  then have "unat (ck_last_block cp - iw_finality w) = unat (ck_last_block cp) - unat (iw_finality w)"
    by (simp add: unat_sub not_less)
  with cp show ?thesis by (auto simp: word_le_nat_alt not_less)
qed

text \<open>
  C14: whatever fails and whatever other requests do in between, a Prepare that succeeds returns a
  preparation that the repository holds under the requested deadline, for the snapshot built from
  the project's indexed history; the total fits a uint256, the record block is final, the deadline
  leaves the minimum window, and the node returned the CID of exactly the snapshot's bytes. No
  stored preparation is lost or changed but for its deadline, and there is still at most one
  preparation of each snapshot.
\<close>

theorem prepare_sound:
  assumes "prepare sc w req s = (Inr r, u)" and "preps_ok (is_preps s)"
  shows "preps_ok (is_preps u) \<and> preps_le (is_preps s) (is_preps u) \<and> stored (is_preps u) r \<and>
    ip_claim_deadline r = pr_claim_deadline req \<and> unix_time (iw_now w + min_claim_window) \<le> pr_claim_deadline req \<and>
    (\<exists>tot p inp ents snap cp add_raw. parse_total (pr_total req) = Inr tot \<and> 0 < tot \<and> tot < 2 ^ 256 \<and>
       iw_checkpoint w = Found cp \<and> \<not> ck_reconciliation_required cp \<and>
       unat (pr_record_block req) + unat (iw_finality w) \<le> unat (ck_last_block cp) \<and>
       active_income_project w = Inr p \<and> income_input sc w p req tot = Inr inp \<and>
       compute_entitlements (sc_addr sc) (iw_now w) inp = Inr ents \<and>
       build_snapshot sc (prepared_params sc w p req tot ents) = Inr snap \<and>
       iw_pinner w = Some add_raw \<and> add_raw (sn_canonical snap) = Some (sn_cid snap) \<and>
       length (sn_canonical snap) \<le> max_snapshot_bytes \<and>
       prep_key r = snapshot_key (hash_hex (sn_merkle_root snap)) (hash_hex (sn_sha256 snap)))"
proof -
  from assms(1) obtain tot p inp ents snap where tot: "parse_total (pr_total req) = Inr tot"
    and window: "unix_time (iw_now w + min_claim_window) \<le> pr_claim_deadline req"
    and p: "active_income_project w = Inr p" and final: "check_final w req = Inr ()"
    and inp: "income_input sc w p req tot = Inr inp"
    and ents: "map_sum ErrIncome id (compute_entitlements (sc_addr sc) (iw_now w) inp) = Inr ents"
    and snap: "map_sum ErrIncome id (build_snapshot sc (prepared_params sc w p req tot ents)) = Inr snap"
    and pin: "pin w snap = Inr ()"
    and store: "store_preparation w (new_preparation w req tot ents snap) s = (Inr r, u)"
    unfolding prepare_def
    by (elim bindM_InrE) (auto simp: liftE_def guardM_def ret_def raise_def split: if_splits)
  have ents': "compute_entitlements (sc_addr sc) (iw_now w) inp = Inr ents"
    using ents by (cases "compute_entitlements (sc_addr sc) (iw_now w) inp") simp_all
  have snap': "build_snapshot sc (prepared_params sc w p req tot ents) = Inr snap"
    using snap by (cases "build_snapshot sc (prepared_params sc w p req tot ents)") simp_all
  obtain add_raw where pinned: "iw_pinner w = Some add_raw" "add_raw (sn_canonical snap) = Some (sn_cid snap)"
    "length (sn_canonical snap) \<le> max_snapshot_bytes"
    using pin by (auto simp: pin_def not_less split: if_splits option.splits)
  note st = store_preparation_sound [OF store assms(2)]
  obtain cp where cp: "iw_checkpoint w = Found cp \<and> \<not> ck_reconciliation_required cp \<and>
      unat (pr_record_block req) + unat (iw_finality w) \<le> unat (ck_last_block cp)"
    using check_final_depth [OF final] by blast
  have "prep_key r = snapshot_key (hash_hex (sn_merkle_root snap)) (hash_hex (sn_sha256 snap))"
    "ip_claim_deadline r = pr_claim_deadline req"
    using st by (simp_all add: prep_key_def new_preparation_def)
  moreover have "preps_ok (is_preps u)" "preps_le (is_preps s) (is_preps u)" using st assms(2) by (simp_all add: follows_def)
  ultimately show ?thesis
    using st window parse_total_range [OF tot] tot p inp ents' snap' pinned cp by blast
qed

section \<open>What List shows\<close>

definition shown :: "distribution_view list \<Rightarrow> income_distribution list" where
  "shown vs = List.map_filter dv_dist vs"

lemma shown_simps [simp]:
  "shown [] = []" "shown (v # vs) = (case dv_dist v of None \<Rightarrow> shown vs | Some d \<Rightarrow> d # shown vs)"
  "shown (vs @ ws) = shown vs @ shown ws"
  by (simp_all add: shown_def List.map_filter_def split: option.split)

lemma view_sel [simp]: "dv_dist (view now p d) = d" "dv_prep (view now p d) = p" "dv_status (view now p d) = status_of d now"
  by (simp_all add: view_def)

lemma shown_views: "shown (map (\<lambda>x. view now p (Some x)) ds) = ds"
  by (induction ds) (simp_all add: view_def)

lemma queue_put: "queue (put k q m) k' = (if k = k' then q else queue m k')"
  by (simp add: queue_def lookup_put)

lemma queue_queues: "queue (queues ds) k = filter (\<lambda>d. dist_key d = k) ds"
proof -
  have "queue (fold (\<lambda>d m. put (dist_key d) (queue m (dist_key d) @ [d]) m) ds m) k =
      queue m k @ filter (\<lambda>d. dist_key d = k) ds" for m
    by (induction ds arbitrary: m) (simp_all add: queue_put)
  then show ?thesis by (simp add: queues_def queue_def)
qed

lemma last_index_other: "k \<notin> prep_key ` set ps \<Longrightarrow> lookup (last_index i ps m) k = lookup m k"
  by (induction ps arbitrary: i m) (auto simp: lookup_put)

lemma last_index_here: "k \<in> prep_key ` set ps \<Longrightarrow> \<exists>j \<ge> i. lookup (last_index i ps m) k = Some j"
proof (induction ps arbitrary: i m)
  case Nil
  then show ?case by simp
next
  case (Cons p ps)
  show ?case
  proof (cases "k \<in> prep_key ` set ps")
    case True
    from Cons.IH [OF this, of "Suc i"] show ?thesis by (auto intro: Suc_leD)
  next
    case False
    with Cons.prems show ?thesis by (auto simp: last_index_other lookup_put)
  qed
qed

lemma last_index_irrelevant: "k \<in> prep_key ` set ps \<Longrightarrow> lookup (last_index i ps m) k = lookup (last_index i ps m') k"
proof (induction ps arbitrary: i m m')
  case Nil
  then show ?case by simp
next
  case (Cons p ps)
  then show ?case by (cases "k \<in> prep_key ` set ps") (auto simp: last_index_other lookup_put)
qed

text \<open>The loop, from any point on: per key it shows what is queued for it, in order.\<close>

lemma match_views_shown:
  assumes "\<And>k. k \<in> prep_key ` set ps \<Longrightarrow> lookup lp k = lookup (last_index i ps []) k"
    and "\<And>k d. d \<in> set (queue q k) \<Longrightarrow> dist_key d = k"
  shows "filter (\<lambda>d. dist_key d = k) (shown (match_views now lp i ps q)) =
    (if k \<in> prep_key ` set ps then queue q k else [])"
  using assms
proof (induction ps arbitrary: i q)
  case Nil
  then show ?case by simp
next
  case (Cons p ps)
  let ?k = "prep_key p"
  obtain d q1 where first: "(case queue q ?k of [] \<Rightarrow> (None, q) | d # r \<Rightarrow> (Some d, put ?k r q)) = (d, q1)"
    by (metis surj_pair)
  have hd: "queue q ?k = (case d of None \<Rightarrow> queue q1 ?k | Some x \<Rightarrow> x # queue q1 ?k)"
    and other: "\<And>k. k \<noteq> ?k \<Longrightarrow> queue q1 k = queue q k" and none: "d = None \<Longrightarrow> queue q ?k = []"
    using first by (auto simp: queue_put split: list.splits)
  have own1: "x \<in> set (queue q1 k) \<Longrightarrow> dist_key x = k" for x k
    using Cons.prems(2) [of x k] hd other [of k] by (cases "k = ?k") (auto split: option.splits)
  have own_d: "d = Some x \<Longrightarrow> dist_key x = ?k" for x using Cons.prems(2) [of x ?k] hd by simp
  define is_last where "is_last \<longleftrightarrow> lookup lp ?k = Some i"
  have last: "is_last \<longleftrightarrow> ?k \<notin> prep_key ` set ps"
  proof (cases "?k \<in> prep_key ` set ps")
    case True
    then obtain j where "Suc i \<le> j" "lookup (last_index (Suc i) ps (put ?k i [])) ?k = Some j"
      using last_index_here by blast
    with True show ?thesis using Cons.prems(1) [of ?k] by (auto simp: is_last_def)
  next
    case False
    then show ?thesis using Cons.prems(1) [of ?k] by (simp add: is_last_def last_index_other)
  qed
  define q2 where "q2 = (if is_last then put ?k [] q1 else q1)"
  have own2: "x \<in> set (queue q2 k) \<Longrightarrow> dist_key x = k" for x k
    using own1 by (auto simp: q2_def queue_put split: if_splits)
  have lp: "lookup lp k = lookup (last_index (Suc i) ps []) k" if "k \<in> prep_key ` set ps" for k
    using Cons.prems(1) [of k] that last_index_irrelevant [OF that, of "Suc i" "put ?k i []" "[]"] by simp
  have IH: "filter (\<lambda>d. dist_key d = k) (shown (match_views now lp (Suc i) ps q2)) =
      (if k \<in> prep_key ` set ps then queue q2 k else [])"
    by (rule Cons.IH) (erule lp, erule own2)
  have run: "match_views now lp i (p # ps) q =
      view now p d # (if is_last then map (\<lambda>x. view now p (Some x)) (queue q1 ?k) else []) @ match_views now lp (Suc i) ps q2"
    using first by (simp add: Let_def is_last_def q2_def)
  have fk: "filter (\<lambda>d. dist_key d = k) (queue q1 ?k) = (if k = ?k then queue q1 ?k else [])" for k
    using own1 by (auto simp: filter_empty_conv intro!: filter_True)
  show ?case
  proof (cases "k = ?k")
    case True
    then show ?thesis
      unfolding run using IH last hd own_d none
      by (cases d; cases is_last) (auto simp: shown_views fk q2_def queue_put)
  next
    case False
    then have "queue q1 k = queue q k" by (rule other)
    with False show ?thesis
      unfolding run using IH last own_d
      by (cases d; cases is_last) (auto simp: shown_views fk q2_def queue_put)
  qed
qed

lemma match_views_origin:
  assumes "\<And>k d. d \<in> set (queue q k) \<Longrightarrow> dist_key d = k"
  shows "(\<forall>v \<in> set (match_views now lp i ps q). dv_prep v \<in> set ps \<and> dv_status v = status_of (dv_dist v) now \<and>
      (case dv_dist v of None \<Rightarrow> True | Some d \<Rightarrow> dist_key d = prep_key (dv_prep v))) \<and>
    set (map dv_prep (match_views now lp i ps q)) = set ps"
  using assms
proof (induction ps arbitrary: i q)
  case Nil
  then show ?case by simp
next
  case (Cons p ps)
  let ?k = "prep_key p"
  obtain d q1 where first: "(case queue q ?k of [] \<Rightarrow> (None, q) | d # r \<Rightarrow> (Some d, put ?k r q)) = (d, q1)"
    by (metis surj_pair)
  have own1: "\<And>x k. x \<in> set (queue q1 k) \<Longrightarrow> dist_key x = k" and own_d: "\<And>x. d = Some x \<Longrightarrow> dist_key x = ?k"
    using first Cons.prems by (auto simp: queue_put split: list.splits if_splits)
  define q2 where "q2 = (if lookup lp ?k = Some i then put ?k [] q1 else q1)"
  have own2: "\<And>x k. x \<in> set (queue q2 k) \<Longrightarrow> dist_key x = k"
    using own1 by (auto simp: q2_def queue_put split: if_splits)
  have run: "match_views now lp i (p # ps) q = view now p d #
      (if lookup lp ?k = Some i then map (\<lambda>x. view now p (Some x)) (queue q1 ?k) else []) @ match_views now lp (Suc i) ps q2"
    using first by (simp add: Let_def q2_def)
  have IH: "(\<forall>v \<in> set (match_views now lp (Suc i) ps q2). dv_prep v \<in> set ps \<and> dv_status v = status_of (dv_dist v) now \<and>
      (case dv_dist v of None \<Rightarrow> True | Some d \<Rightarrow> dist_key d = prep_key (dv_prep v))) \<and>
    set (map dv_prep (match_views now lp (Suc i) ps q2)) = set ps"
    by (rule Cons.IH) (erule own2)
  show ?case
    unfolding run using IH own_d own1 by (auto split: option.split)
qed

text \<open>
  the list of distributions is complete and exact: it shows every preparation; and for every
  snapshot key that some preparation has it shows, newest first, exactly the stored distributions
  of that key, each of them once, with its own status; distributions without a preparation are not
  shown, and while the project is not an active deployment with a distributor no distribution is.
\<close>

theorem list_distributions_exact:
  assumes "list_distributions w s = (Inr vs, u)" and "iw_other w = (\<lambda>_. [])"
  shows "set (map dv_prep vs) = set (ip_list (is_preps s)) \<and>
    (\<forall>v \<in> set vs. dv_status v = status_of (dv_dist v) (iw_now w) \<and>
       (case dv_dist v of None \<Rightarrow> True | Some d \<Rightarrow> dist_key d = prep_key (dv_prep v))) \<and>
    (\<forall>k. filter (\<lambda>d. dist_key d = k) (rev (shown vs)) =
       (if k \<in> prep_key ` set (ip_list (is_preps s)) then
          (case active_income_project w of
             Inl _ \<Rightarrow> []
           | Inr _ \<Rightarrow> filter (\<lambda>d. dist_key d = k) (di_list (is_dists s)))
        else []))"
proof -
  from assms(1) obtain ps ds t where ps: "list_preps w s = (Inr ps, t)" and ds: "live_distributions w t = (Inr ds, u)"
    and vs: "vs = rev (match_views (iw_now w) (last_index 0 ps []) 0 ps (queues ds))"
    unfolding list_distributions_def by (elim bindM_InrE) (auto simp: ret_def)
  have "ps = ip_list (is_preps s) \<and> is_dists t = is_dists s"
    using ps assms(2) by (auto simp: list_preps_def repo_call_def Let_def split: fault.splits)
  moreover have "ds = (case active_income_project w of Inl _ \<Rightarrow> [] | Inr _ \<Rightarrow> di_list (is_dists t))"
    using ds assms(2)
    by (auto simp: live_distributions_def list_dists_def repo_call_def Let_def ret_def raise_def split: fault.splits sum.splits if_splits)
  moreover have shown: "shown vs = rev (shown (match_views (iw_now w) (last_index 0 ps []) 0 ps (queues ds)))"
  proof -
    have "shown (rev xs) = rev (shown xs)" for xs by (induction xs) (auto split: option.split)
    then show ?thesis by (simp add: vs)
  qed
  moreover have own: "d \<in> set (queue (queues ds) k) \<Longrightarrow> dist_key d = k" for d k by (simp add: queue_queues)
  moreover have "filter (\<lambda>d. dist_key d = k) (rev (shown vs)) =
      (if k \<in> prep_key ` set ps then filter (\<lambda>d. dist_key d = k) ds else [])" for k
    unfolding shown rev_rev_ident using own by (subst match_views_shown) (auto simp: queue_queues)
  moreover have "set (map dv_prep vs) = set ps"
    "\<forall>v \<in> set vs. dv_status v = status_of (dv_dist v) (iw_now w) \<and>
       (case dv_dist v of None \<Rightarrow> True | Some d \<Rightarrow> dist_key d = prep_key (dv_prep v))"
    using match_views_origin [of "queues ds" "iw_now w" "last_index 0 ps []" 0 ps] own by (auto simp: vs)
  ultimately show ?thesis by (auto split: sum.splits)
qed

section \<open>What ClaimsFor serves\<close>

definition snapshot_matches :: "snap_codec \<Rightarrow> income_preparation \<Rightarrow> parsed_snapshot \<Rightarrow> bool" where
  "snapshot_matches sc p snap \<longleftrightarrow> parse_snapshot sc (ip_snapshot_raw p) = Inr snap \<and>
     equal_fold (ip_merkle_root p) (hash_hex (tree_root (ps_tree snap)))"

definition service_ok :: "snap_codec \<Rightarrow> income_state \<Rightarrow> bool" where
  "service_ok sc s \<longleftrightarrow> preps_ok (is_preps s) \<and> (\<forall>i snap. lookup (is_parsed s) i = Some snap \<longrightarrow>
     (\<exists>p. lookup (is_preps s) i = Some p \<and> snapshot_matches sc p snap))"

definition listed :: "income_preparation \<Rightarrow> income_state \<Rightarrow> bool" where
  "listed p s \<longleftrightarrow> (\<exists>q. lookup (is_preps s) (ip_id p) = Some q \<and> ip_merkle_root q = ip_merkle_root p)"

lemma service_ok_follows:
  assumes "service_ok sc s" and "follows s t"
  shows "service_ok sc t"
  unfolding service_ok_def
proof (intro conjI allI impI)
  have le: "preps_le (is_preps s) (is_preps t)" and parsed: "is_parsed t = is_parsed s" and "preps_ok (is_preps t)"
    using assms by (simp_all add: service_ok_def follows_def)
  then show "preps_ok (is_preps t)" by simp
  fix i snap assume "lookup (is_parsed t) i = Some snap"
  then obtain p where p: "lookup (is_preps s) i = Some p" "snapshot_matches sc p snap"
    using assms(1) parsed by (auto simp: service_ok_def)
  then obtain q where "lookup (is_preps t) i = Some q" "same_snapshot p q" using le by (auto simp: preps_le_def)
  with p(2) show "\<exists>p. lookup (is_preps t) i = Some p \<and> snapshot_matches sc p snap"
    by (auto simp: snapshot_matches_def same_snapshotD)
qed

lemma listed_follows:
  assumes "listed p s" and "service_ok sc s" and "follows s t"
  shows "listed p t"
proof -
  from assms(1) obtain q where q: "lookup (is_preps s) (ip_id p) = Some q" "ip_merkle_root q = ip_merkle_root p"
    by (auto simp: listed_def)
  then obtain q' where "lookup (is_preps t) (ip_id p) = Some q'" "same_snapshot q q'"
    using assms(2,3) unfolding service_ok_def follows_def preps_le_def by blast
  then show ?thesis using q(2) by (auto simp: listed_def same_snapshotD)
qed

text \<open>A snapshot handed out belongs to a published root: it is parsed from bytes with that root.\<close>

definition served :: "snap_codec \<Rightarrow> income_preparation \<Rightarrow> parsed_snapshot \<Rightarrow> bool" where
  "served sc p snap \<longleftrightarrow> (\<exists>raw. parse_snapshot sc raw = Inr snap) \<and>
     equal_fold (ip_merkle_root p) (hash_hex (tree_root (ps_tree snap)))"

lemma snapshot_of_ok:
  assumes "service_ok sc s" and "listed p s" and "snapshot_of sc w p s = (r, u)"
  shows "service_ok sc u \<and> (\<forall>q. listed q s \<longrightarrow> listed q u) \<and> (\<forall>snap. r = Inr snap \<longrightarrow> served sc p snap)"
proof (cases "lookup (is_parsed s) (ip_id p)")
  case (Some v)
  then have "r = Inr v" "u = s" using assms(3) by (simp_all add: snapshot_of_def bindM_def getM_def ret_def)
  moreover obtain q where q: "lookup (is_preps s) (ip_id p) = Some q" "ip_merkle_root q = ip_merkle_root p"
    using assms(2) by (auto simp: listed_def)
  moreover have "snapshot_matches sc q v" using Some assms(1) q(1) by (fastforce simp: service_ok_def)
  then have "served sc p v" using q(2) by (auto simp: served_def snapshot_matches_def)
  ultimately show ?thesis using assms(1) by simp
next
  case None
  let ?get = "\<lambda>s. (ip_get (ip_id p) (is_preps s), s)"
  obtain g t where g: "repo_call w ?get s = (g, t)" by (cases "repo_call w ?get s")
  have st: "follows s t" using repo_call_follows [of ?get s w] g by simp
  note t = service_ok_follows [OF assms(1) st] listed_follows [OF _ assms(1) st]
  show ?thesis
  proof (cases "\<exists>full snap. g = Inr full \<and> parse_snapshot sc (ip_snapshot_raw full) = Inr snap \<and>
      equal_fold (ip_merkle_root p) (hash_hex (tree_root (ps_tree snap)))")
    case True
    then obtain full snap where gs: "g = Inr full" and snap: "parse_snapshot sc (ip_snapshot_raw full) = Inr snap"
      "equal_fold (ip_merkle_root p) (hash_hex (tree_root (ps_tree snap)))" by blast
    have ru: "r = Inr snap" "u = t\<lparr>is_parsed := put (ip_id p) snap (is_parsed t)\<rparr>"
      using assms(3) None g gs snap
      by (simp_all add: snapshot_of_def bindM_def getM_def ret_def liftE_def guardM_def modifyM_def)
    have full: "lookup (is_preps t) (ip_id p) = Some full"
      using repo_call_Inr [OF g [unfolded gs]] by (auto simp: ip_get_def split: option.splits)
    moreover have "ip_merkle_root full = ip_merkle_root p"
      using t(2) [OF assms(2)] full by (auto simp: listed_def)
    ultimately have "service_ok sc u"
      using t(1) snap unfolding ru(2) by (auto simp: service_ok_def snapshot_matches_def lookup_put)
    with ru snap t(2) show ?thesis by (auto simp: served_def listed_def)
  next
    case False
    then have "u = t \<and> (\<forall>snap. r \<noteq> Inr snap)"
      using assms(3) None g
      by (cases g; cases "parse_snapshot sc (ip_snapshot_raw (projr g))")
        (auto simp: snapshot_of_def bindM_def getM_def ret_def liftE_def guardM_def raise_def modifyM_def)
    with t show ?thesis by simp
  qed
qed

lemma parsed_entry:
  assumes "parse_snapshot sc raw = Inr snap" and "lookup (ps_entries snap) key = Some (a, n)"
  shows "key = to_lower (ac_hex (sc_addr sc) a) \<and> (\<exists>leaves. build_tree (sc_keccak sc) leaves = Inr (ps_tree snap) \<and>
    \<lparr>lf_account = a, lf_amount = Some n\<rparr> \<in> set leaves)"
proof -
  let ?good = "\<lambda>leaves store. \<forall>key a n. lookup store key = Some (a, n) \<longrightarrow>
    key = to_lower (ac_hex (sc_addr sc) a) \<and> \<lparr>lf_account = a, lf_amount = Some n\<rparr> \<in> set leaves"
  have inv: "?good leaves' store'"
    if "parse_entries (sc_addr sc) i es leaves store = Inr (leaves', store')" "?good leaves store" for i es leaves store leaves' store'
    using that
  proof (induction es arbitrary: i leaves store)
    case Nil
    then show ?case by simp
  next
    case (Cons e es)
    from Cons.prems(1) obtain amount where
      rest: "parse_entries (sc_addr sc) (Suc i) es (leaves @ [\<lparr>lf_account = ac_addr (sc_addr sc) (se_account e), lf_amount = Some amount\<rparr>])
        (put (to_lower (ac_hex (sc_addr sc) (ac_addr (sc_addr sc) (se_account e)))) (ac_addr (sc_addr sc) (se_account e), amount) store)
        = Inr (leaves', store')"
      by (auto simp: Let_def split: option.splits if_splits)
    show ?case by (rule Cons.IH [OF rest]) (use Cons.prems(2) in \<open>auto simp: lookup_put\<close>)
  qed
  from assms(1) obtain doc :: snapshot_doc and leaves where "parse_entries (sc_addr sc) 0 (sd_entries doc) [] [] = Inr (leaves, ps_entries snap)"
    "build_tree (sc_keccak sc) leaves = Inr (ps_tree snap)"
    by (auto simp: parse_snapshot_def split: option.splits sum.splits if_splits)
  with inv [of 0 "sd_entries doc" "[]" "[]" leaves "ps_entries snap"] assms(2) show ?thesis by auto
qed

definition claim_good :: "snap_codec \<Rightarrow> address \<Rightarrow> claim_view \<Rightarrow> bool" where
  "claim_good sc account v \<longleftrightarrow> cv_account v = account \<and>
     (\<exists>r. to_lower (di_merkle_root (cv_dist v)) = hash_hex r \<and>
       verify_proof (sc_keccak sc) r (leaf_hash (sc_keccak sc) account (cv_amount v)) (cv_proof v))"

lemma split_at_bar: "x @ c # y = x' @ c # y' \<Longrightarrow> c \<notin> set x \<Longrightarrow> c \<notin> set x' \<Longrightarrow> x = x'"
proof (induction x arbitrary: x')
  case Nil
  then show ?case by (cases x') auto
next
  case (Cons a x)
  then show ?case by (cases x') auto
qed

lemma to_lower_idem: "to_lower (to_lower s) = to_lower s"
  by (simp add: to_lower_def to_lower_char_def Let_def)

lemma claim_served:
  assumes "addr_codec_ok (sc_addr sc)" and "served sc p snap" and "dist_key d = prep_key p"
    and "CHR ''|'' \<notin> set (to_lower (di_merkle_root d))"
    and "lookup (ps_entries snap) (to_lower (ac_hex (sc_addr sc) account)) = Some (a, n)"
    and "tree_proof (sc_keccak sc) (ps_tree snap) a n = Inr path"
  shows "a = account \<and> to_lower (di_merkle_root d) = hash_hex (tree_root (ps_tree snap)) \<and>
    verify_proof (sc_keccak sc) (tree_root (ps_tree snap)) (leaf_hash (sc_keccak sc) account n) path"
proof -
  from assms(2) obtain raw where raw: "parse_snapshot sc raw = Inr snap" by (auto simp: served_def)
  from parsed_entry [OF raw assms(5)] obtain leaves where
    key: "to_lower (ac_hex (sc_addr sc) account) = to_lower (ac_hex (sc_addr sc) a)"
    and leaves: "build_tree (sc_keccak sc) leaves = Inr (ps_tree snap)" "\<lparr>lf_account = a, lf_amount = Some n\<rparr> \<in> set leaves"
    by blast
  have a: "a = account" using assms(1) key by (auto simp: addr_codec_ok_def)
  have root: "to_lower (ip_merkle_root p) = hash_hex (tree_root (ps_tree snap))"
    using assms(2) by (simp add: served_def equal_fold_def to_lower_hash_hex)
  have "to_lower (di_merkle_root d) @ CHR ''|'' # to_lower (di_snapshot_sha256 d) =
      hash_hex (tree_root (ps_tree snap)) @ CHR ''|'' # to_lower (ip_snapshot_sha256 p)"
    using assms(3) root by (simp add: dist_key_def prep_key_def snapshot_key_def)
  then have "to_lower (di_merkle_root d) = hash_hex (tree_root (ps_tree snap))"
    by (rule split_at_bar) (simp_all add: assms(4) hash_hex_chars)
  moreover obtain path' where "tree_proof (sc_keccak sc) (ps_tree snap) a n = Inr path'"
    "verify_proof (sc_keccak sc) (tree_root (ps_tree snap)) (leaf_hash (sc_keccak sc) a n) path'"
    using tree_proof_verifies [OF leaves] by blast
  ultimately show ?thesis using assms(6) a by simp
qed

lemma claim_views_ok:
  assumes "addr_codec_ok (sc_addr sc)" and "service_ok sc s"
    and "\<And>k p. lookup by_snapshot k = Some p \<Longrightarrow> listed p s \<and> prep_key p = k"
    and "\<forall>d \<in> set ds. CHR ''|'' \<notin> set (to_lower (di_merkle_root d))"
    and "claim_views sc w cancelled account by_snapshot claims ds s = (Inr vs, u)"
  shows "service_ok sc u \<and> (\<forall>v \<in> set vs. claim_good sc account v \<and> cv_dist v \<in> set ds)"
  using assms(2-)
proof (induction ds arbitrary: s vs)
  case Nil
  then show ?case by (simp add: ret_def)
next
  case (Cons d ds)
  let ?rest = "claim_views sc w cancelled account by_snapshot claims ds"
  have skip: ?case if "service_ok sc t" "\<And>q. listed q s \<Longrightarrow> listed q t" "?rest t = (Inr vs, u)" for t
    using Cons.IH [OF that(1) _ _ that(3)] Cons.prems(2,3) that(2) by fastforce
  show ?case
  proof (cases "lookup by_snapshot (dist_key d)")
    case None
    with Cons.prems(4) show ?thesis by (intro skip [of s]) (simp_all add: Cons.prems(1))
  next
    case (Some prep)
    have prep: "listed prep s" "prep_key prep = dist_key d" using Cons.prems(2) [OF Some] by simp_all
    obtain r t where r: "snapshot_of sc w prep s = (r, t)" by (cases "snapshot_of sc w prep s")
    have t: "service_ok sc t" "\<And>q. listed q s \<Longrightarrow> listed q t" "\<And>snap. r = Inr snap \<Longrightarrow> served sc prep snap"
      using snapshot_of_ok [OF Cons.prems(1) prep(1) r] by blast+
    show ?thesis
    proof (cases r)
      case (Inl x)
      with Cons.prems(4) Some r have "?rest t = (Inr vs, u)"
        by (simp add: bindM_def tryM_def raise_def split: if_splits)
      with t show ?thesis by (intro skip)
    next
      case (Inr snap)
      show ?thesis
      proof (cases "lookup (ps_entries snap) (to_lower (ac_hex (sc_addr sc) account))")
        case None
        with Cons.prems(4) Some r Inr have "?rest t = (Inr vs, u)" by (simp add: bindM_def tryM_def)
        with t show ?thesis by (intro skip)
      next
        case entry: (Some an)
        obtain a n where an: "an = (a, n)" by (cases an)
        from Cons.prems(4) Some r Inr entry an obtain path rest where
          path: "tree_proof (sc_keccak sc) (ps_tree snap) a n = Inr path" and rest: "?rest t = (Inr rest, u)"
          and vs: "\<exists>st tx. vs = \<lparr>cv_dist = d, cv_account = a, cv_amount = n, cv_proof = path, cv_status = st, cv_claim_tx_hash = tx\<rparr> # rest"
          by (cases "tree_proof (sc_keccak sc) (ps_tree snap) a n")
            (auto simp: bindM_def tryM_def liftE_def ret_def split: prod.splits sum.splits)
        have "CHR ''|'' \<notin> set (to_lower (di_merkle_root d))" using Cons.prems(3) by simp
        note good = claim_served [OF assms(1) t(3) [OF Inr] prep(2) [symmetric] this entry [unfolded an] path]
        have "service_ok sc u \<and> (\<forall>v \<in> set rest. claim_good sc account v \<and> cv_dist v \<in> set ds)"
          using Cons.IH [OF t(1) _ _ rest] Cons.prems(2,3) t(2) by fastforce
        moreover have "claim_good sc account v" if "cv_dist v = d" "cv_account v = a" "cv_amount v = n" "cv_proof v = path" for v
          unfolding claim_good_def using good that by (intro conjI exI [of _ "tree_root (ps_tree snap)"]) simp_all
        ultimately show ?thesis using vs by auto
      qed
    qed
  qed
qed

lemma index_preps_ok:
  "lookup (index_preps ps) k = Some p \<Longrightarrow> p \<in> set ps \<and> prep_key p = k"
proof -
  have "lookup (fold (\<lambda>p m. if lookup m (prep_key p) \<noteq> None then m else put (prep_key p) p m) ps m) k = Some p \<Longrightarrow>
      lookup m k = Some p \<or> p \<in> set ps \<and> prep_key p = k" for m
  proof (induction ps arbitrary: m)
    case Nil
    then show ?case by simp
  next
    case (Cons q ps)
    from Cons.IH [OF Cons.prems [unfolded fold.simps comp_apply]] show ?case
      by (auto simp: lookup_put split: if_splits)
  qed
  from this [of "[]"] show "lookup (index_preps ps) k = Some p \<Longrightarrow> p \<in> set ps \<and> prep_key p = k"
    by (simp add: index_preps_def)
qed

text \<open>
  C15: every claim ClaimsFor serves can be redeemed: it is for the wallet that asked, and its proof
  verifies the leaf of that wallet and amount against the Merkle root recorded on-chain for the
  distribution, whether the snapshot was parsed afresh or cached and whatever other requests do
  meanwhile. Distribution roots are hexadecimal, so they contain no separator bar.
\<close>

theorem claims_proofs_verify:
  assumes "claims_for sc w cancelled account s = (Inr vs, u)" and "service_ok sc s" and "addr_codec_ok (sc_addr sc)"
    and "\<forall>n ds cs. OtherReconcile ds cs \<in> set (iw_other w n) \<longrightarrow> (\<forall>d \<in> set (vals ds). CHR ''|'' \<notin> set (to_lower (di_merkle_root d)))"
    and "\<forall>d \<in> set (vals (is_dists s)). CHR ''|'' \<notin> set (to_lower (di_merkle_root d))"
  shows "service_ok sc u \<and> (\<forall>v \<in> set vs. claim_good sc account v)"
proof -
  let ?P = "\<lambda>s. \<forall>d \<in> set (vals (is_dists s)). CHR ''|'' \<notin> set (to_lower (di_merkle_root d))"
  have others: "?P (fold run_other ops s)" if "?P s" "\<And>ds cs. OtherReconcile ds cs \<in> set ops \<Longrightarrow>
      \<forall>d \<in> set (vals ds). CHR ''|'' \<notin> set (to_lower (di_merkle_root d))" for ops s
    using that
  proof (induction ops arbitrary: s)
    case Nil
    then show ?case by simp
  next
    case (Cons x ops)
    have "?P (run_other x s)" using Cons.prems by (cases x) auto
    then show ?case unfolding fold.simps comp_apply by (rule Cons.IH) (rule Cons.prems(2), erule list.set_intros(2))
  qed
  from assms(1) obtain ds t where ds: "live_distributions w s = (Inr ds, t)"
    and rest: "(if ds = [] then ret [] else bindM (list_preps w) (\<lambda>preps.
      bindM (repo_call w (\<lambda>s. (Inr (ic_list_by_account (ac_hex (sc_addr sc) account) (is_claims s)), s))) (\<lambda>rows.
      claim_views sc w cancelled account (index_preps preps) (index_claims rows) (rev ds)))) t = (Inr vs, u)"
    unfolding claims_for_def by (elim bindM_InrE)
  have t: "follows s t" "\<forall>d \<in> set ds. CHR ''|'' \<notin> set (to_lower (di_merkle_root d))"
  proof -
    have "ds = [] \<and> t = s \<or> list_dists w s = (Inr ds, t)"
      using ds by (auto simp: live_distributions_def ret_def raise_def split: sum.splits if_splits)
    moreover have "\<forall>d \<in> set ds. CHR ''|'' \<notin> set (to_lower (di_merkle_root d))" if "list_dists w s = (Inr ds, t)"
      using that others [of "s\<lparr>is_tick := Suc (is_tick s)\<rparr>" "iw_other w (is_tick s)"] assms(4,5)
      by (auto simp: list_dists_def repo_call_def Let_def di_list_def split: fault.splits)
    ultimately show "follows s t" "\<forall>d \<in> set ds. CHR ''|'' \<notin> set (to_lower (di_merkle_root d))"
      using list_dists_ok by auto
  qed
  note okt = service_ok_follows [OF assms(2) t(1)]
  show ?thesis
  proof (cases "ds = []")
    case True
    with rest okt show ?thesis by (simp add: ret_def)
  next
    case False
    with rest obtain preps v rows z where preps: "list_preps w t = (Inr preps, v)"
      and rows: "repo_call w (\<lambda>s. (Inr (ic_list_by_account (ac_hex (sc_addr sc) account) (is_claims s)), s)) v = (Inr rows, z)"
      and views: "claim_views sc w cancelled account (index_preps preps) (index_claims rows) (rev ds) z = (Inr vs, u)"
      by (auto elim!: bindM_InrE)
    have v: "follows t v" "preps = ip_list (is_preps v)" using list_preps_ok [OF preps] by simp_all
    have vz: "follows v z"
      using repo_call_follows [of "\<lambda>s. (Inr (ic_list_by_account (ac_hex (sc_addr sc) account) (is_claims s)), s)" v w] rows by simp
    note okv = service_ok_follows [OF okt v(1)]
    have "listed p z \<and> prep_key p = k" if "lookup (index_preps preps) k = Some p" for k p
    proof -
      have "p \<in> set (ip_list (is_preps v))" "prep_key p = k" using index_preps_ok [OF that] v(2) by simp_all
      then have "listed p v" using listed_prep okv by (fastforce simp: listed_def service_ok_def)
      then show ?thesis using listed_follows [OF _ okv vz] \<open>prep_key p = k\<close> by simp
    qed
    moreover have "\<forall>d \<in> set (rev ds). CHR ''|'' \<notin> set (to_lower (di_merkle_root d))" using t(2) by simp
    ultimately show ?thesis
      using claim_views_ok [OF assms(3) service_ok_follows [OF okv vz] _ _ views] by blast
  qed
qed

section \<open>Witnesses\<close>

definition demo_world :: income_world where
  "demo_world = \<lparr>iw_fault = (\<lambda>_. NoFault), iw_other = (\<lambda>_. []), iw_project = Found demo_project,
     iw_checkpoint = Found \<lparr>ck_chain_id = 1, ck_address = [], ck_last_block = 20, ck_last_block_hash = [],
       ck_updated_at = 0, ck_reconciliation_required = False, ck_version = 0\<rparr>,
     iw_events = (\<lambda>addr n. Some (if n = ''Transfer'' then ei_transfers demo_income
       else if n = ''Minted'' then ei_minted demo_income else [])),
     iw_pinner = Some (\<lambda>_. Some ''cid''), iw_now = 0, iw_uuid = ''u'', iw_chain_id = 1, iw_finality = 3\<rparr>"

lemma demo_world_sel: "iw_fault demo_world = (\<lambda>_. NoFault)" "iw_other demo_world = (\<lambda>_. [])" "iw_now demo_world = 0"
  by (simp_all add: demo_world_def)

definition demo_state :: income_state where
  "demo_state = \<lparr>is_tick = 0, is_preps = [], is_dists = [], is_claims = [], is_parsed = []\<rparr>"

definition demo_request :: prepare_request where
  "demo_request = \<lparr>pr_record_block = 10, pr_total = ''100'', pr_claim_deadline = 700000\<rparr>"

lemma demo_total: "parse_total ''100'' = Inr 100"
  by (simp add: parse_total_def big_set_string_def scan_nat_def char_digit_def)

lemma demo_addresses: "ac_addr demo_addr_codec (replicate n CHR ''a'') = of_nat n"
  by (simp add: demo_addr_codec_def)

lemma demo_input: "income_input demo_snap_codec demo_world demo_project demo_request 100 = Inr demo_income"
  by (simp add: income_input_def demo_snap_codec_def demo_world_def demo_project_def demo_request_def demo_income_def
      demo_addr_codec_def redemption_event_names_def Let_def)

lemma demo_active: "active_income_project demo_world = Inr demo_project"
  by (simp add: active_income_project_def demo_world_def demo_project_def)

lemma demo_final: "check_final demo_world demo_request = Inr ()"
  by (simp add: check_final_def demo_world_def demo_request_def)

lemma demo_prepared: "prepared_params demo_snap_codec demo_world demo_project demo_request 100 demo_entitlements = demo_params"
  by (simp add: prepared_params_def demo_snap_codec_def demo_world_def demo_project_def demo_request_def demo_params_def
      demo_addr_codec_def Let_def)

lemma demo_prepare: "\<exists>r u. prepare demo_snap_codec demo_world demo_request demo_state = (Inr r, u)"
proof -
  obtain s where s: "build_snapshot demo_snap_codec demo_params = Inr s" using demo_snapshot by blast
  have "sn_canonical s = [123]" "sn_cid s = ''cid''"
    using s by (auto simp: build_snapshot_def demo_snap_codec_def Let_def split: sum.splits if_splits)
  then have "pin demo_world s = Inr ()" by (simp add: pin_def demo_world_def max_snapshot_bytes_def)
  moreover have "unix_time (iw_now demo_world + min_claim_window) \<le> pr_claim_deadline demo_request"
    by (simp add: unix_time_def min_claim_window_def demo_world_def demo_request_def)
  moreover have "compute_entitlements (sc_addr demo_snap_codec) (iw_now demo_world) demo_income = Inr demo_entitlements"
    using demo_computed by (simp add: demo_snap_codec_def demo_world_def)
  moreover have "parse_total (pr_total demo_request) = Inr 100" using demo_total by (simp add: demo_request_def)
  moreover have "\<exists>r u. store_preparation demo_world p demo_state = (Inr r, u)" for p
    by (simp add: store_preparation_def redate_preparation_def list_dists_def list_preps_def call_preps_def repo_call_def
        demo_world_def demo_state_def di_list_def ip_list_def ip_create_def bindM_def tryM_def ret_def Let_def)
  ultimately show ?thesis
    by (simp add: prepare_def bindM_def liftE_def guardM_def ret_def demo_active demo_final demo_input demo_prepared s)
qed

theorem prepare_sound_witness:
  "\<exists>r u. prepare demo_snap_codec demo_world demo_request demo_state = (Inr r, u) \<and>
     stored (is_preps u) r \<and> ip_claim_deadline r = 700000"
proof -
  have "preps_ok (is_preps demo_state)" by (simp add: preps_ok_def demo_state_def)
  then show ?thesis using demo_prepare prepare_sound by (fastforce simp: demo_request_def)
qed

definition demo_dist :: income_distribution where
  "demo_dist = \<lparr>di_id = ''1'', di_merkle_root = hash_hex (leaf_hash demo_keccak 2 100), di_total = ''100'',
     di_record_block = 10, di_claim_deadline = 700000, di_snapshot_uri = [], di_snapshot_sha256 = ''0xs'',
     di_claimed = ''0'', di_reclaimed = False, di_reclaimed_amount = [], di_create_tx_hash = ''0xt'',
     di_created_block = 12, di_created_log_index = 0, di_generation = 1\<rparr>"

definition demo_prep :: income_preparation where
  "demo_prep = \<lparr>ip_id = ''u'', ip_merkle_root = hash_hex (leaf_hash demo_keccak 2 100), ip_total = ''100'',
     ip_record_block = 10, ip_claim_deadline = 700000, ip_snapshot_uri = [], ip_cid = ''cid'', ip_snapshot_sha256 = ''0xs'',
     ip_eligible_supply = ''7'', ip_distributed = ''100'', ip_holder_count = 1, ip_snapshot_raw = [123], ip_created_at = 0\<rparr>"

definition demo_live :: income_state where
  "demo_live = demo_state\<lparr>is_preps := [(''u'', demo_prep)], is_dists := [(''1'', demo_dist)]\<rparr>"

lemma demo_reads:
  "list_dists demo_world (demo_live\<lparr>is_tick := n\<rparr>) = (Inr [demo_dist], demo_live\<lparr>is_tick := Suc n\<rparr>)"
  "list_preps demo_world (demo_live\<lparr>is_tick := n\<rparr>) = (Inr [demo_prep\<lparr>ip_snapshot_raw := []\<rparr>], demo_live\<lparr>is_tick := Suc n\<rparr>)"
  "repo_call demo_world (\<lambda>s. (Inr (ic_list_by_account a (is_claims s)), s)) (demo_live\<lparr>is_tick := n\<rparr>) = (Inr [], demo_live\<lparr>is_tick := Suc n\<rparr>)"
  "repo_call demo_world (\<lambda>s. (ip_get ''u'' (is_preps s), s)) (demo_live\<lparr>is_tick := n\<rparr>) = (Inr demo_prep, demo_live\<lparr>is_tick := Suc n\<rparr>)"
  by (simp_all add: list_dists_def list_preps_def repo_call_def demo_world_sel di_list_def ip_list_def demo_live_def
      demo_state_def ic_list_by_account_def ip_get_def Let_def)

lemma demo_keys: "dist_key demo_dist = prep_key demo_prep" "prep_key (demo_prep\<lparr>ip_snapshot_raw := []\<rparr>) = prep_key demo_prep"
  by (simp_all add: dist_key_def prep_key_def demo_dist_def demo_prep_def)

lemma demo_live_tick: "demo_live = demo_live\<lparr>is_tick := 0\<rparr>"
  by (simp add: demo_live_def demo_state_def)

lemma demo_live_distributions: "live_distributions demo_world demo_live = (Inr [demo_dist], demo_live\<lparr>is_tick := Suc 0\<rparr>)"
  using demo_reads(1) [of 0, folded demo_live_tick] by (simp add: live_distributions_def demo_active)

theorem list_distributions_exact_witness:
  "\<exists>vs u. list_distributions demo_world demo_live = (Inr vs, u) \<and>
     filter (\<lambda>d. dist_key d = dist_key demo_dist) (rev (shown vs)) = [demo_dist]"
proof -
  have "\<exists>vs u. list_distributions demo_world demo_live = (Inr vs, u)"
    using demo_reads(2) [of 0, folded demo_live_tick] demo_reads(1) [of "Suc 0"]
    by (simp add: list_distributions_def live_distributions_def demo_active bindM_def ret_def)
  then obtain vs u where run: "list_distributions demo_world demo_live = (Inr vs, u)" by blast
  have mem: "dist_key demo_dist \<in> prep_key ` set (ip_list (is_preps demo_live))"
    by (simp add: demo_keys) (simp add: demo_live_def ip_list_def demo_keys)
  have stored: "filter (\<lambda>d. dist_key d = dist_key demo_dist) (di_list (is_dists demo_live)) = [demo_dist]"
    by (simp add: demo_live_def di_list_def)
  from list_distributions_exact [OF run demo_world_sel(2)]
  have "filter (\<lambda>d. dist_key d = dist_key demo_dist) (rev (shown vs)) = [demo_dist]"
    by (simp only: demo_active sum.case mem if_True stored)
  with run show ?thesis by blast
qed

lemma demo_parsed:
  "parse_snapshot demo_snap_codec [123] = Inr \<lparr>ps_tree = \<lparr>tr_nodes = [leaf_hash demo_keccak 2 100],
     tr_by_hash = [(leaf_hash demo_keccak 2 100, 0)]\<rparr>, ps_entries = [(''aa'', (2, 100))]\<rparr>"
proof -
  have tree: "build_tree demo_keccak [\<lparr>lf_account = 2, lf_amount = Some 100\<rparr>] =
      Inr \<lparr>tr_nodes = [leaf_hash demo_keccak 2 100], tr_by_hash = [(leaf_hash demo_keccak 2 100, 0)]\<rparr>"
    by (simp add: build_tree_def Let_def)
  have addr: "ac_addr demo_addr_codec ''aa'' = 2" "to_lower (ac_hex demo_addr_codec 2) = ''aa''" "ac_is_hex demo_addr_codec ''aa''"
    by (simp_all add: demo_hex to_lower_def to_lower_char_def) (simp_all add: demo_addr_codec_def)
  show ?thesis
    by (simp add: parse_snapshot_def demo_snap_codec_def demo_doc_def addr tree to_lower_hash_hex tree_root_def)
qed

lemma demo_claims: "\<exists>vs u. claims_for demo_snap_codec demo_world False 2 demo_live = (Inr vs, u)"
proof -
  let ?p = "demo_prep\<lparr>ip_snapshot_raw := []\<rparr>"
  have addr: "to_lower (ac_hex (sc_addr demo_snap_codec) 2) = ''aa''"
    by (simp add: demo_snap_codec_def demo_hex to_lower_def to_lower_char_def)
  have prep: "ip_id ?p = ''u''" "ip_snapshot_raw demo_prep = [123]"
    "equal_fold (ip_merkle_root demo_prep) (hash_hex (leaf_hash demo_keccak 2 100))" by (simp_all add: demo_prep_def)
  have parsed: "is_parsed (demo_live\<lparr>is_tick := n\<rparr>) = []" for n by (simp add: demo_live_def demo_state_def)
  have snap: "\<exists>u. snapshot_of demo_snap_codec demo_world ?p (demo_live\<lparr>is_tick := n\<rparr>) =
      (Inr \<lparr>ps_tree = \<lparr>tr_nodes = [leaf_hash demo_keccak 2 100], tr_by_hash = [(leaf_hash demo_keccak 2 100, 0)]\<rparr>,
         ps_entries = [(''aa'', (2, 100))]\<rparr>, u)" for n
    unfolding snapshot_of_def
    by (simp add: bindM_def getM_def parsed prep(1) demo_reads(4) prep(2) demo_parsed liftE_def guardM_def ret_def
        modifyM_def tree_root_def prep(3))
  have index: "lookup (index_preps [?p]) (dist_key demo_dist) = Some ?p"
    by (simp add: index_preps_def demo_keys)
  obtain u where u: "snapshot_of demo_snap_codec demo_world ?p (demo_live\<lparr>is_tick := Suc (Suc (Suc 0))\<rparr>) =
      (Inr \<lparr>ps_tree = \<lparr>tr_nodes = [leaf_hash demo_keccak 2 100], tr_by_hash = [(leaf_hash demo_keccak 2 100, 0)]\<rparr>,
         ps_entries = [(''aa'', (2, 100))]\<rparr>, u)" using snap by blast
  have k: "sc_keccak demo_snap_codec = demo_keccak" by (simp add: demo_snap_codec_def)
  have "\<exists>vs. claim_views demo_snap_codec demo_world False 2 (index_preps [?p]) (index_claims []) [demo_dist]
      (demo_live\<lparr>is_tick := Suc (Suc (Suc 0))\<rparr>) = (Inr vs, u)"
    by (simp add: index bindM_def tryM_def u addr liftE_def ret_def tree_proof_def k)
  then obtain vs where "claim_views demo_snap_codec demo_world False 2 (index_preps [?p]) (index_claims []) [demo_dist]
      (demo_live\<lparr>is_tick := Suc (Suc (Suc 0))\<rparr>) = (Inr vs, u)" by blast
  with demo_reads(2) [of "Suc 0"] demo_reads(3) [of "ac_hex (sc_addr demo_snap_codec) 2" "Suc (Suc 0)"]
  have "claims_for demo_snap_codec demo_world False 2 demo_live = (Inr vs, u)"
    unfolding claims_for_def bindM_def demo_live_distributions by (simp del: claim_views.simps)
  then show ?thesis by blast
qed

theorem claims_proofs_verify_witness:
  "\<exists>vs u. claims_for demo_snap_codec demo_world False 2 demo_live = (Inr vs, u) \<and>
     service_ok demo_snap_codec u \<and> list_all (claim_good demo_snap_codec 2) vs"
proof -
  obtain vs u where vs: "claims_for demo_snap_codec demo_world False 2 demo_live = (Inr vs, u)" using demo_claims by blast
  have bar: "\<forall>d \<in> set (vals (is_dists demo_live)). CHR ''|'' \<notin> set (to_lower (di_merkle_root d))"
    by (simp add: demo_live_def demo_dist_def to_lower_hash_hex hash_hex_chars)
  have ok: "service_ok demo_snap_codec demo_live"
    by (simp add: service_ok_def preps_ok_def wf_store_def demo_live_def demo_state_def demo_prep_def)
  have others: "\<forall>n ds cs. OtherReconcile ds cs \<in> set (iw_other demo_world n) \<longrightarrow>
      (\<forall>d \<in> set (vals ds). CHR ''|'' \<notin> set (to_lower (di_merkle_root d)))" by (simp add: demo_world_sel)
  show ?thesis
    using claims_proofs_verify [OF vs ok demo_codecs_ok(1) others bar] vs by (auto simp: list_all_iff)
qed

end
