(* ===== verification/IndexerStore.thy ===== *)
theory IndexerStore
  imports ReadModel
begin

text \<open>
  The repositories of the indexer (server/internal/dal/memory: chain_chunk.go, block_hash.go,
  dead_letter.go, indexer_checkpoint.go): retained block hashes, dead letters, the checkpoint,
  and the atomic commit and rewind of a chunk under the checkpoint's version.
\<close>

section \<open>Block hashes\<close>

type_synonym hash_store = "(int, (u64, string) store) store"

definition hashes_of :: "int \<Rightarrow> hash_store \<Rightarrow> (u64, string) store" where
  "hashes_of chain st = (case lookup st chain of None \<Rightarrow> [] | Some m \<Rightarrow> m)"

definition bh_record :: "int \<Rightarrow> u64 \<Rightarrow> string \<Rightarrow> hash_store \<Rightarrow> hash_store" where
  "bh_record chain b h st = put chain (put b h (hashes_of chain st)) st"

definition bh_get :: "int \<Rightarrow> u64 \<Rightarrow> hash_store \<Rightarrow> string option" where
  "bh_get chain b st = lookup (hashes_of chain st) b"

definition bh_prune_before :: "int \<Rightarrow> u64 \<Rightarrow> hash_store \<Rightarrow> hash_store" where
  "bh_prune_before chain keep_from st =
     (case lookup st chain of
        None \<Rightarrow> st
      | Some m \<Rightarrow> put chain (filter (\<lambda>(b, h). \<not> b < keep_from) m) st)"

section \<open>Dead letters\<close>

record dead_letter =
  dl_id :: string
  dl_chain_id :: int
  dl_block_number :: u64
  dl_block_hash :: string
  dl_tx_hash :: string
  dl_log_index :: u64
  dl_event_signature :: string
  dl_error_category :: string
  dl_error_message :: string
  dl_retry_count :: nat
  dl_first_failed_at :: gotime
  dl_last_failed_at :: gotime
  dl_source_data :: "byte list"
  dl_resolved :: bool

type_synonym letter_store = "(string, dead_letter) store"

definition dl_record :: "dead_letter \<Rightarrow> letter_store \<Rightarrow> letter_store" where
  "dl_record e st =
     (case lookup st (dl_id e) of
        None \<Rightarrow> put (dl_id e) e st
      | Some existing \<Rightarrow>
          put (dl_id e) (e\<lparr>dl_first_failed_at := dl_first_failed_at existing,
            dl_retry_count := dl_retry_count existing + 1, dl_resolved := False\<rparr>) st)"

definition dl_get :: "string \<Rightarrow> letter_store \<Rightarrow> dead_letter option" where
  "dl_get i st = lookup st i"

definition dl_list :: "letter_store \<Rightarrow> dead_letter list" where
  "dl_list st = sort_key dl_first_failed_at (vals st)"

definition dl_resolve :: "string \<Rightarrow> letter_store \<Rightarrow> letter_store option" where
  "dl_resolve i st =
     (case lookup st i of None \<Rightarrow> None | Some e \<Rightarrow> Some (put i (e\<lparr>dl_resolved := True\<rparr>) st))"

section \<open>Checkpoints\<close>

type_synonym checkpoint_store = "(string, indexer_checkpoint) store"

definition checkpoint_key :: "int \<Rightarrow> string \<Rightarrow> string" where
  "checkpoint_key chain addr = big_string chain @ '':'' @ addr"

definition ck_get :: "int \<Rightarrow> string \<Rightarrow> checkpoint_store \<Rightarrow> indexer_checkpoint option" where
  "ck_get chain addr st = lookup st (checkpoint_key chain addr)"

definition ck_set :: "indexer_checkpoint \<Rightarrow> checkpoint_store \<Rightarrow> checkpoint_store" where
  "ck_set c st = put (checkpoint_key (ck_chain_id c) (ck_address c)) c st"

section \<open>Atomic chunks\<close>

record index_store =
  xs_events :: event_store
  xs_hashes :: hash_store
  xs_checkpoints :: checkpoint_store

record chunk_commit =
  cc_chain_id :: int
  cc_events :: "chain_event list"
  cc_block_hashes :: "(u64 \<times> string) list"
  cc_prune_before :: "u64 option"
  cc_checkpoint :: indexer_checkpoint
  cc_expected_version :: int

record chunk_rewind =
  cr_chain_id :: int
  cr_addresses :: "string list"
  cr_delete_from :: u64
  cr_checkpoint :: indexer_checkpoint
  cr_expected_version :: int

definition current_version :: "indexer_checkpoint \<Rightarrow> index_store \<Rightarrow> int" where
  "current_version c st =
     (case ck_get (ck_chain_id c) (ck_address c) (xs_checkpoints st) of None \<Rightarrow> 0 | Some cur \<Rightarrow> ck_version cur)"

definition record_hashes :: "int \<Rightarrow> (u64 \<times> string) list \<Rightarrow> hash_store \<Rightarrow> hash_store" where
  "record_hashes chain bhs st = fold (\<lambda>(b, h). bh_record chain b h) bhs st"

definition prune_hashes :: "int \<Rightarrow> u64 option \<Rightarrow> hash_store \<Rightarrow> hash_store" where
  "prune_hashes chain before st = (case before of None \<Rightarrow> st | Some b \<Rightarrow> bh_prune_before chain b st)"

definition delete_events :: "int \<Rightarrow> string list \<Rightarrow> u64 \<Rightarrow> event_store \<Rightarrow> event_store" where
  "delete_events chain addrs b st = fold (\<lambda>a st. snd (ce_delete_from_block chain a b st)) addrs st"

text \<open>The result says whether the chunk was committed; a lost race changes nothing.\<close>

definition commit_chunk_store :: "chunk_commit \<Rightarrow> index_store \<Rightarrow> bool \<times> index_store" where
  "commit_chunk_store c st =
     (if current_version (cc_checkpoint c) st \<noteq> cc_expected_version c then (False, st)
      else (True, st\<lparr>xs_events := fold ce_create (cc_events c) (xs_events st),
          xs_hashes := prune_hashes (cc_chain_id c) (cc_prune_before c)
            (record_hashes (cc_chain_id c) (cc_block_hashes c) (xs_hashes st)),
          xs_checkpoints := ck_set ((cc_checkpoint c)\<lparr>ck_version := cc_expected_version c + 1\<rparr>) (xs_checkpoints st)\<rparr>))"

definition rewind_chunk_store :: "chunk_rewind \<Rightarrow> index_store \<Rightarrow> bool \<times> index_store" where
  "rewind_chunk_store r st =
     (if current_version (cr_checkpoint r) st \<noteq> cr_expected_version r then (False, st)
      else (True, st\<lparr>xs_events := delete_events (cr_chain_id r) (cr_addresses r) (cr_delete_from r) (xs_events st),
          xs_checkpoints := ck_set ((cr_checkpoint r)\<lparr>ck_version := cr_expected_version r + 1\<rparr>) (xs_checkpoints st)\<rparr>))"

section \<open>Store laws\<close>

lemma bh_get_record [store_simps]:
  "bh_get chain b (bh_record chain' b' h st) = (if chain = chain' \<and> b = b' then Some h else bh_get chain b st)"
  by (simp add: bh_get_def bh_record_def hashes_of_def lookup_put)

lemma bh_get_prune:
  "bh_get chain b (bh_prune_before chain k st) = Some h \<Longrightarrow> bh_get chain b st = Some h \<and> k \<le> b"
proof -
  have filtered: "map_of (filter (\<lambda>(b, h). k \<le> b) m) b = (if b < k then None else map_of m b)" for m :: "(u64, string) store"
    by (induction m) (auto simp: not_less)
  assume "bh_get chain b (bh_prune_before chain k st) = Some h"
  then show "bh_get chain b st = Some h \<and> k \<le> b"
    by (cases "lookup st chain")
      (simp_all add: bh_get_def bh_prune_before_def hashes_of_def lookup_put filtered not_less split: if_splits)
qed

lemma ck_get_set [store_simps]:
  "ck_get (ck_chain_id c) (ck_address c) (ck_set c st) = Some c"
  by (simp add: ck_get_def ck_set_def lookup_put)

lemma lookup_delete_from_block:
  assumes "distinct (map fst st)"
  shows "lookup (snd (ce_delete_from_block chain a b st)) k =
    (case lookup st k of None \<Rightarrow> None
     | Some v \<Rightarrow> if ev_chain_id v = chain \<and> ev_address v = a \<and> ev_block_number v \<ge> b then None else Some v)"
proof -
  have "snd (ce_delete_from_block chain a b st) =
      filter (\<lambda>(k, v). \<not> (ev_chain_id v = chain \<and> ev_address v = a \<and> ev_block_number v \<ge> b)) st"
    by (auto simp: ce_delete_from_block_def Let_def intro!: filter_cong)
  then show ?thesis using assms by (simp add: lookup_filter split: option.split)
qed

lemma distinct_delete_from_block:
  "distinct (map fst st) \<Longrightarrow> distinct (map fst (snd (ce_delete_from_block chain a b st)))"
  by (simp add: ce_delete_from_block_def Let_def distinct_keys_filter)

lemma lookup_delete_events:
  "distinct (map fst st) \<Longrightarrow> distinct (map fst (delete_events chain addrs b st)) \<and>
    lookup (delete_events chain addrs b st) k =
    (case lookup st k of None \<Rightarrow> None
     | Some v \<Rightarrow> if ev_chain_id v = chain \<and> ev_address v \<in> set addrs \<and> ev_block_number v \<ge> b then None else Some v)"
  unfolding delete_events_def
proof (induction addrs arbitrary: st)
  case Nil
  then show ?case by (simp split: option.split)
next
  case (Cons a addrs)
  show ?case
    using Cons.IH [OF distinct_delete_from_block [OF Cons.prems]] lookup_delete_from_block [OF Cons.prems]
    by (auto split: option.split)
qed

lemma lookup_create_events:
  "lookup (fold ce_create es st) k = (case map_of (rev (map (\<lambda>e. (ev_key e, e)) es)) k of None \<Rightarrow> lookup st k | Some e \<Rightarrow> Some e)"
  by (induction es arbitrary: st) (auto simp: ce_create_def lookup_put map_add_def split: option.split)

lemma distinct_create_events: "distinct (map fst st) \<Longrightarrow> distinct (map fst (fold ce_create es st))"
  by (induction es arbitrary: st) (auto simp: ce_create_def distinct_update)

section \<open>Version fencing\<close>

text \<open>A writer is a commit or a rewind; both name the checkpoint they replace by its version.\<close>

datatype chunk_write = Commit chunk_commit | Rewind chunk_rewind

fun write_chunk :: "chunk_write \<Rightarrow> index_store \<Rightarrow> bool \<times> index_store" where
  "write_chunk (Commit c) st = commit_chunk_store c st"
| "write_chunk (Rewind r) st = rewind_chunk_store r st"

fun write_target :: "chunk_write \<Rightarrow> int \<times> string" where
  "write_target (Commit c) = (ck_chain_id (cc_checkpoint c), ck_address (cc_checkpoint c))"
| "write_target (Rewind r) = (ck_chain_id (cr_checkpoint r), ck_address (cr_checkpoint r))"

fun write_version :: "chunk_write \<Rightarrow> int" where
  "write_version (Commit c) = cc_expected_version c"
| "write_version (Rewind r) = cr_expected_version r"

definition stored_version :: "int \<times> string \<Rightarrow> index_store \<Rightarrow> int" where
  "stored_version t st = (case ck_get (fst t) (snd t) (xs_checkpoints st) of None \<Rightarrow> 0 | Some cur \<Rightarrow> ck_version cur)"

lemma write_chunk_cases:
  "(stored_version (write_target w) st = write_version w \<and>
     (\<exists>st'. write_chunk w st = (True, st') \<and> stored_version (write_target w) st' = write_version w + 1)) \<or>
   (stored_version (write_target w) st \<noteq> write_version w \<and> write_chunk w st = (False, st))"
proof -
  have "ck_get (ck_chain_id c) (ck_address c) (ck_set (c\<lparr>ck_version := n\<rparr>) m) = Some (c\<lparr>ck_version := n\<rparr>)" for c n m
    using ck_get_set [of "c\<lparr>ck_version := n\<rparr>"] by simp
  then show ?thesis
    by (cases w) (simp_all add: commit_chunk_store_def rewind_chunk_store_def current_version_def stored_version_def)
qed

fun write_all :: "chunk_write list \<Rightarrow> index_store \<Rightarrow> bool list \<times> index_store" where
  "write_all [] st = ([], st)"
| "write_all (w # ws) st =
     (case write_chunk w st of (b, st') \<Rightarrow> (case write_all ws st' of (bs, st'') \<Rightarrow> (b # bs, st'')))"

lemma write_all_stale:
  "\<forall>w \<in> set ws. write_target w = t \<and> write_version w = n \<Longrightarrow> stored_version t st \<noteq> n \<Longrightarrow>
    write_all ws st = (replicate (length ws) False, st)"
proof (induction ws arbitrary: st)
  case Nil
  then show ?case by simp
next
  case (Cons w ws)
  then have "write_chunk w st = (False, st)" using write_chunk_cases [of w st] by auto
  with Cons show ?case by simp
qed

text \<open>
  Commits and rewinds are fenced by the checkpoint's version: among any number of replicas
  that loaded the same version of a checkpoint and then commit a chunk or rewind it, in any order,
  at most the first writes anything; the store after all of them is the store after the first, and
  a writer that comes with a stale version changes nothing.
\<close>

theorem chunk_writes_fenced:
  assumes "\<forall>w \<in> set (w0 # ws). write_target w = t \<and> write_version w = n"
  shows "write_all (w0 # ws) st = (fst (write_chunk w0 st) # replicate (length ws) False, snd (write_chunk w0 st)) \<and>
    (stored_version t st \<noteq> n \<longrightarrow> write_all (w0 # ws) st = (replicate (Suc (length ws)) False, st)) \<and>
    (stored_version t st = n \<longrightarrow> fst (write_chunk w0 st) \<and> stored_version t (snd (write_chunk w0 st)) = n + 1)"
proof -
  have w0: "write_target w0 = t" "write_version w0 = n" using assms by simp_all
  show ?thesis
  proof (cases "stored_version t st = n")
    case True
    then obtain st' where st': "write_chunk w0 st = (True, st')" "stored_version t st' = n + 1"
      using write_chunk_cases [of w0 st] w0 by auto
    with assms have "write_all ws st' = (replicate (length ws) False, st')" by (intro write_all_stale) auto
    with True st' show ?thesis by simp
  next
    case False
    then have w: "write_chunk w0 st = (False, st)" using write_chunk_cases [of w0 st] w0 by auto
    from False assms have "write_all ws st = (replicate (length ws) False, st)" by (intro write_all_stale) auto
    with False w show ?thesis by simp
  qed
qed

definition demo_checkpoint :: "u64 \<Rightarrow> indexer_checkpoint" where
  "demo_checkpoint b = \<lparr>ck_chain_id = 1, ck_address = ''ALL'', ck_last_block = b, ck_last_block_hash = ''0xh'',
     ck_updated_at = 0, ck_reconciliation_required = False, ck_version = 0\<rparr>"

definition demo_writes :: "chunk_write list" where
  "demo_writes = [
     Commit \<lparr>cc_chain_id = 1, cc_events = [], cc_block_hashes = [(7, ''0xh'')], cc_prune_before = None,
       cc_checkpoint = demo_checkpoint 7, cc_expected_version = 0\<rparr>,
     Rewind \<lparr>cr_chain_id = 1, cr_addresses = [''a''], cr_delete_from = 3, cr_checkpoint = demo_checkpoint 2,
       cr_expected_version = 0\<rparr>]"

theorem chunk_writes_fenced_witness:
  "fst (write_all demo_writes \<lparr>xs_events = [], xs_hashes = [], xs_checkpoints = []\<rparr>) = [True, False]"
proof -
  let ?st = "\<lparr>xs_events = [], xs_hashes = [], xs_checkpoints = []\<rparr>"
  have all: "\<forall>w \<in> set (hd demo_writes # tl demo_writes). write_target w = (1, ''ALL'') \<and> write_version w = 0"
    by (simp add: demo_writes_def demo_checkpoint_def)
  have "stored_version (1, ''ALL'') ?st = 0" by (simp add: stored_version_def ck_get_def)
  with chunk_writes_fenced [OF all, of ?st] show ?thesis by (simp add: demo_writes_def)
qed

end
