(* ===== verification/Indexer.thy ===== *)
theory Indexer
  imports IndexerStore Codec
begin

text \<open>
  The chain indexer, server/internal/indexer/indexer.go: scanning a node's logs into chain events
  (Poll), recovery from reorgs (rollback), the operator's reset, and retries of dead letters.

  The node, the log decoder, the JSON form of a log and the checksummed form of an address are
  not part of the repository; they are functions of the environment. Every call out is numbered
  by \<open>xw_tick\<close>: the node's answers depend on that number, a repository call may fail before or
  after it took effect, and before each call other writers may have changed the repositories.
\<close>

section \<open>Logs, errors, configuration\<close>

record source_log =
  lg_address :: address
  lg_topics :: "u256 list"
  lg_data :: "byte list"
  lg_block_number :: u64
  lg_tx_hash :: u256
  lg_block_hash :: u256
  lg_index :: u64
  lg_removed :: bool

text \<open>A failed call to the node: \<^verbatim>\<open>errors.Is(err, context.DeadlineExceeded)\<close>, a \<^verbatim>\<open>net.Error\<close> timeout, and its text.\<close>

record source_error =
  se_deadline :: bool
  se_net_timeout :: bool
  se_text :: string

datatype index_error = ErrReconciliationRequired | ErrVersionConflict | ErrSource | ErrFilterLogs u64 u64 int
  | ErrRepo | ErrDecodeLog string | ErrIncoherent u64 u64 int | ErrResetMoved | ErrNoQueue | ErrNoLetter
  | ErrRetained | ErrFuel

type_synonym event_decoder = "source_log \<Rightarrow> string + string \<times> (string, event_value) store"

record indexer =
  ix_chain_id :: int
  ix_addresses :: "address list"
  ix_decode :: event_decoder
  ix_start_block :: u64
  ix_rollback_window :: u64
  ix_max_history :: u64
  ix_max_auto_reorg_depth :: u64
  ix_max_log_range :: u64
  ix_max_range_retries :: int
  ix_hashes :: bool
  ix_chunks :: bool
  ix_dlq :: bool

datatype indexer_option = WithRollbackWindow u64 | WithBlockHashRepository | WithMaxRetainedHistory u64
  | WithChunkCommitter | WithMaxAutoReorgDepth u64 | WithMaxLogRange u64 | WithMaxRangeRetries int
  | WithDeadLetterQueue

fun apply_option :: "indexer_option \<Rightarrow> indexer \<Rightarrow> indexer" where
  "apply_option (WithRollbackWindow n) ix = ix\<lparr>ix_rollback_window := n\<rparr>"
| "apply_option WithBlockHashRepository ix = ix\<lparr>ix_hashes := True\<rparr>"
| "apply_option (WithMaxRetainedHistory n) ix = ix\<lparr>ix_max_history := n\<rparr>"
| "apply_option WithChunkCommitter ix = ix\<lparr>ix_chunks := True\<rparr>"
| "apply_option (WithMaxAutoReorgDepth n) ix = ix\<lparr>ix_max_auto_reorg_depth := n\<rparr>"
| "apply_option (WithMaxLogRange n) ix = ix\<lparr>ix_max_log_range := n\<rparr>"
| "apply_option (WithMaxRangeRetries n) ix = ix\<lparr>ix_max_range_retries := n\<rparr>"
| "apply_option WithDeadLetterQueue ix = ix\<lparr>ix_dlq := True\<rparr>"

definition default_decode :: event_decoder where
  "default_decode l =
     Inr (case lg_topics l of [] \<Rightarrow> ''unknown'' | t # _ \<Rightarrow> hash_hex t,
          [(''data'', VString (''0x'' @ hex_bytes (lg_data l)))])"

definition default_max_log_range :: u64 where
  "default_max_log_range = 2000"

definition new_indexer :: "int \<Rightarrow> address list \<Rightarrow> u64 \<Rightarrow> event_decoder option \<Rightarrow> indexer_option list \<Rightarrow> indexer" where
  "new_indexer chain addrs start dec opts =
     fold apply_option opts
       \<lparr>ix_chain_id = chain, ix_addresses = addrs, ix_decode = (case dec of None \<Rightarrow> default_decode | Some d \<Rightarrow> d),
        ix_start_block = start, ix_rollback_window = 10, ix_max_history = 256, ix_max_auto_reorg_depth = 100,
        ix_max_log_range = default_max_log_range, ix_max_range_retries = 5,
        ix_hashes = False, ix_chunks = False, ix_dlq = False\<rparr>"

definition all_addresses :: string where
  "all_addresses = ''ALL''"

section \<open>Environment and state\<close>

record index_env =
  xe_head :: "nat \<Rightarrow> u64 option"
  xe_header :: "nat \<Rightarrow> u64 \<Rightarrow> u256 option"
  xe_logs :: "nat \<Rightarrow> u64 \<Rightarrow> u64 \<Rightarrow> address list \<Rightarrow> source_error + source_log list"
  xe_fault :: "nat \<Rightarrow> fault"
  xe_other :: "nat \<Rightarrow> index_store \<times> letter_store \<Rightarrow> index_store \<times> letter_store"
  xe_now :: "nat \<Rightarrow> gotime"
  xe_addr_hex :: "address \<Rightarrow> string"
  xe_marshal :: "source_log \<Rightarrow> byte list option"
  xe_unmarshal :: "byte list \<Rightarrow> source_log option"

record index_world =
  xw_tick :: nat
  xw_store :: index_store
  xw_letters :: letter_store
  xw_slept :: "gotime list"

type_synonym 'a ixm = "(index_error, index_world, 'a) act"

definition meddle :: "index_env \<Rightarrow> index_world \<Rightarrow> index_world" where
  "meddle e w =
     (case xe_other e (xw_tick w) (xw_store w, xw_letters w) of
        (s, l) \<Rightarrow> w\<lparr>xw_tick := Suc (xw_tick w), xw_store := s, xw_letters := l\<rparr>)"

definition source_call :: "index_env \<Rightarrow> (nat \<Rightarrow> 'a option) \<Rightarrow> 'a ixm" where
  "source_call e f = (\<lambda>w. (case f (xw_tick w) of None \<Rightarrow> Inl ErrSource | Some x \<Rightarrow> Inr x, meddle e w))"

definition ix_call :: "index_env \<Rightarrow> (index_world \<Rightarrow> 'a \<times> index_world) \<Rightarrow> 'a ixm" where
  "ix_call e f = (\<lambda>w.
     let w' = meddle e w in
     case xe_fault e (xw_tick w) of
       NoFault \<Rightarrow> (case f w' of (x, u) \<Rightarrow> (Inr x, u))
     | FaultBefore \<Rightarrow> (Inl ErrRepo, w')
     | FaultAfter \<Rightarrow> (Inl ErrRepo, snd (f w')))"

definition ix_read :: "index_env \<Rightarrow> (index_store \<Rightarrow> 'a) \<Rightarrow> 'a ixm" where
  "ix_read e f = ix_call e (\<lambda>w. (f (xw_store w), w))"

definition ix_write :: "index_env \<Rightarrow> (index_store \<Rightarrow> 'a \<times> index_store) \<Rightarrow> 'a ixm" where
  "ix_write e f = ix_call e (\<lambda>w. case f (xw_store w) of (x, s) \<Rightarrow> (x, w\<lparr>xw_store := s\<rparr>))"

definition ix_letters :: "index_env \<Rightarrow> (letter_store \<Rightarrow> 'a \<times> letter_store) \<Rightarrow> 'a ixm" where
  "ix_letters e f = ix_call e (\<lambda>w. case f (xw_letters w) of (x, l) \<Rightarrow> (x, w\<lparr>xw_letters := l\<rparr>))"

definition ix_now :: "index_env \<Rightarrow> gotime ixm" where
  "ix_now e = getM (\<lambda>w. xe_now e (xw_tick w))"

definition ix_sleep :: "gotime \<Rightarrow> index_world \<Rightarrow> index_world" where
  "ix_sleep d w = w\<lparr>xw_slept := xw_slept w @ [d]\<rparr>"

definition header_hash :: "index_env \<Rightarrow> u64 \<Rightarrow> u256 ixm" where
  "header_hash e b = source_call e (\<lambda>t. xe_header e t b)"

text \<open>\<^verbatim>\<open>for b := a; b <= z; b++\<close>, for \<open>z\<close> below the largest 64-bit word.\<close>

definition blocks_between :: "u64 \<Rightarrow> u64 \<Rightarrow> u64 list" where
  "blocks_between a z = map word_of_nat [unat a..<Suc (unat z)]"

section \<open>Scanning a range of blocks\<close>

definition initial_range_backoff :: gotime where
  "initial_range_backoff = 200 * 10 ^ 6"

definition max_range_backoff :: gotime where
  "max_range_backoff = 5 * 10 ^ 9"

definition next_backoff :: "gotime \<Rightarrow> gotime" where
  "next_backoff d = (if d * 2 > max_range_backoff then max_range_backoff else d * 2)"

definition range_needles :: "string list" where
  "range_needles = [''query returned more than'', ''block range'', ''range too large'', ''range is too large'',
     ''too many results'', ''response size exceeded'', ''limit exceeded'', ''exceeds the range'',
     ''more than 10000 results'']"

definition is_range_too_large_error :: "source_error \<Rightarrow> bool" where
  "is_range_too_large_error x = (\<exists>n \<in> set range_needles. contains_string (to_lower (se_text x)) n)"

definition timeout_needles :: "string list" where
  "timeout_needles = [''timeout'', ''timed out'', ''deadline exceeded'', ''context canceled'', ''i/o timeout'']"

definition is_timeout_error :: "source_error \<Rightarrow> bool" where
  "is_timeout_error x =
     (if se_deadline x then True
      else if se_net_timeout x then True
      else \<exists>n \<in> set timeout_needles. contains_string (to_lower (se_text x)) n)"

definition shrunk :: "u64 \<Rightarrow> u64 \<Rightarrow> u64" where
  "shrunk a z = (let span = (z - a + 1) div 2 in a + (if span < 1 then 1 else span) - 1)"

definition filter_logs :: "indexer \<Rightarrow> index_env \<Rightarrow> u64 \<Rightarrow> u64 \<Rightarrow> (source_error + source_log list) ixm" where
  "filter_logs ix e a z = (\<lambda>w. (Inr (xe_logs e (xw_tick w) a z (ix_addresses ix)), meddle e w))"

text \<open>A retry halves the span or counts an attempt against the limit.\<close>

lemma shrunk_decreases: "a < z \<Longrightarrow> unat (shrunk a z - a) < unat (z - a)"
proof -
  assume "a < z"
  define d where "d = z - a"
  have d: "0 < d" using \<open>a < z\<close> by (simp add: d_def word_neq_0_conv [symmetric])
  have "shrunk a z - a = (if (d + 1) div 2 < 1 then 0 else (d + 1) div 2 - 1)"
    by (simp add: shrunk_def d_def Let_def)
  moreover have "unat ((d + 1) div 2 - 1) < unat d" if "\<not> (d + 1) div 2 < 1"
  proof -
    have "unat ((d + 1) div 2 - 1) = unat ((d + 1) div 2) - 1" using that by (intro unat_minus_one) auto
    also have "unat ((d + 1) div 2) = unat (d + 1) div 2" by (simp add: unat_div)
    finally have "unat ((d + 1) div 2 - 1) = unat (d + 1) div 2 - 1" .
    moreover have "unat (d + 1) \<le> Suc (unat d)" by (cases "d = - 1") (simp_all add: unat_Suc)
    moreover have "0 < unat d" using d by (simp add: word_less_nat_alt)
    ultimately show ?thesis by linarith
  qed
  moreover have "0 < unat d" using d by (simp add: word_less_nat_alt)
  ultimately show ?thesis by (simp add: d_def [symmetric])
qed

function scan_chunk :: "indexer \<Rightarrow> index_env \<Rightarrow> int \<Rightarrow> gotime \<Rightarrow> u64 \<Rightarrow> u64 \<Rightarrow> (source_log list \<times> u64) ixm" where
  "scan_chunk ix e attempt backoff a z w =
     (case filter_logs ix e a z w of
        (Inl x, w') \<Rightarrow> (Inl x, w')
      | (Inr (Inr logs), w') \<Rightarrow> (Inr (logs, z), w')
      | (Inr (Inl x), w') \<Rightarrow>
          if (is_range_too_large_error x \<or> is_timeout_error x) \<and> z > a
          then scan_chunk ix e (attempt + 1) backoff a (shrunk a z) w'
          else if attempt \<ge> ix_max_range_retries ix then (Inl (ErrFilterLogs a z attempt), w')
          else scan_chunk ix e (attempt + 1) (next_backoff backoff) a z (ix_sleep backoff w'))"
  by pat_completeness auto

termination
  by (relation "measures [\<lambda>(ix, e, attempt, backoff, a, z, w). unat (z - a),
      \<lambda>(ix, e, attempt, backoff, a, z, w). nat (ix_max_range_retries ix - attempt)]")
    (auto simp: shrunk_decreases)

declare scan_chunk.simps [simp del]

section \<open>Validating and committing a chunk\<close>

text \<open>\<open>None\<close> is \<^verbatim>\<open>ok = false\<close>: a log's block is not the canonical one.\<close>

fun validate_logs :: "index_env \<Rightarrow> source_log list \<Rightarrow> (u64, u256) store
    \<Rightarrow> (source_log list \<times> (u64, u256) store) option ixm" where
  "validate_logs e [] cache = ret (Some ([], cache))"
| "validate_logs e (l # ls) cache =
     (if lg_removed l then validate_logs e ls cache
      else bindM (case lookup cache (lg_block_number l) of
                    Some h \<Rightarrow> ret (h, cache)
                  | None \<Rightarrow> bindM (header_hash e (lg_block_number l)) (\<lambda>h. ret (h, put (lg_block_number l) h cache)))
        (\<lambda>(h, cache).
           if lg_block_hash l \<noteq> h then ret None
           else bindM (validate_logs e ls cache) (\<lambda>r.
             ret (case r of None \<Rightarrow> None | Some (accepted, cache) \<Rightarrow> Some (l # accepted, cache)))))"

definition log_key :: "indexer \<Rightarrow> index_env \<Rightarrow> source_log \<Rightarrow> event_key" where
  "log_key ix e l = (ix_chain_id ix, xe_addr_hex e (lg_address l), hash_hex (lg_tx_hash l), lg_index l)"

definition build_event :: "int \<Rightarrow> index_env \<Rightarrow> source_log \<Rightarrow> string \<Rightarrow> (string, event_value) store \<Rightarrow> gotime \<Rightarrow> chain_event" where
  "build_event chain e l name data now =
     \<lparr>ev_chain_id = chain, ev_address = xe_addr_hex e (lg_address l), ev_tx_hash = hash_hex (lg_tx_hash l),
      ev_log_index = lg_index l, ev_block_number = lg_block_number l, ev_block_hash = hash_hex (lg_block_hash l),
      ev_name = name, ev_data = data, ev_removed = False, ev_indexed_at = now\<rparr>"

definition dead_letter_id :: "int \<Rightarrow> source_log \<Rightarrow> string" where
  "dead_letter_id chain l =
     big_string chain @ '':'' @ hash_hex (lg_tx_hash l) @ '':'' @ big_string (uint (lg_index l))"

definition letter_of :: "indexer \<Rightarrow> index_env \<Rightarrow> source_log \<Rightarrow> string \<Rightarrow> gotime \<Rightarrow> dead_letter" where
  "letter_of ix e l cause now =
     \<lparr>dl_id = dead_letter_id (ix_chain_id ix) l, dl_chain_id = ix_chain_id ix, dl_block_number = lg_block_number l,
      dl_block_hash = hash_hex (lg_block_hash l), dl_tx_hash = hash_hex (lg_tx_hash l), dl_log_index = lg_index l,
      dl_event_signature = (case lg_topics l of [] \<Rightarrow> [] | t # _ \<Rightarrow> hash_hex t),
      dl_error_category = ''decode'', dl_error_message = cause, dl_retry_count = 0,
      dl_first_failed_at = now, dl_last_failed_at = now,
      dl_source_data = (case xe_marshal e l of None \<Rightarrow> [] | Some raw \<Rightarrow> raw), dl_resolved = False\<rparr>"

definition record_dead_letter :: "indexer \<Rightarrow> index_env \<Rightarrow> source_log \<Rightarrow> string \<Rightarrow> unit ixm" where
  "record_dead_letter ix e l cause =
     bindM (ix_now e) (\<lambda>now. ix_letters e (\<lambda>m. ((), dl_record (letter_of ix e l cause now) m)))"

definition handle_decode_failure :: "indexer \<Rightarrow> index_env \<Rightarrow> source_log \<Rightarrow> string \<Rightarrow> unit ixm" where
  "handle_decode_failure ix e l cause =
     (if \<not> ix_dlq ix then raise (ErrDecodeLog cause) else record_dead_letter ix e l cause)"

fun prepare_chunk_events :: "indexer \<Rightarrow> index_env \<Rightarrow> source_log list \<Rightarrow> chain_event list ixm" where
  "prepare_chunk_events ix e [] = ret []"
| "prepare_chunk_events ix e (l # ls) =
     bindM (ix_read e (\<lambda>s. ce_exists (log_key ix e l) (xs_events s))) (\<lambda>exists.
     if exists then prepare_chunk_events ix e ls
     else case ix_decode ix l of
       Inl cause \<Rightarrow> bindM (handle_decode_failure ix e l cause) (\<lambda>_. prepare_chunk_events ix e ls)
     | Inr (name, data) \<Rightarrow>
         bindM (ix_now e) (\<lambda>now.
         bindM (prepare_chunk_events ix e ls) (\<lambda>evs.
         ret (build_event (ix_chain_id ix) e l name data now # evs))))"

definition record_from :: "indexer \<Rightarrow> u64 \<Rightarrow> u64 \<Rightarrow> u64" where
  "record_from ix a current =
     (if current > ix_max_history ix \<and> a < current - ix_max_history ix then current - ix_max_history ix else a)"

definition prune_floor :: "indexer \<Rightarrow> u64 \<Rightarrow> u64 option" where
  "prune_floor ix current = (if current > ix_max_history ix then Some (current - ix_max_history ix) else None)"

fun collect_hashes :: "index_env \<Rightarrow> u64 list \<Rightarrow> (u64, u256) store \<Rightarrow> (u64 \<times> string) list ixm" where
  "collect_hashes e [] cache = ret []"
| "collect_hashes e (b # bs) cache =
     bindM (case lookup cache b of Some h \<Rightarrow> ret h | None \<Rightarrow> header_hash e b) (\<lambda>h.
     bindM (collect_hashes e bs (put b h cache)) (\<lambda>rest. ret ((b, hash_hex h) # rest)))"

definition chunk_hashes :: "indexer \<Rightarrow> index_env \<Rightarrow> u64 \<Rightarrow> u64 \<Rightarrow> u64 \<Rightarrow> (u64, u256) store \<Rightarrow> (u64 \<times> string) list ixm" where
  "chunk_hashes ix e a z current cache =
     (if ix_hashes ix \<or> ix_chunks ix then collect_hashes e (blocks_between (record_from ix a current) z) cache
      else ret [])"

definition new_checkpoint :: "indexer \<Rightarrow> u64 \<Rightarrow> string \<Rightarrow> gotime \<Rightarrow> indexer_checkpoint" where
  "new_checkpoint ix b h now =
     \<lparr>ck_chain_id = ix_chain_id ix, ck_address = all_addresses, ck_last_block = b, ck_last_block_hash = h,
      ck_updated_at = now, ck_reconciliation_required = False, ck_version = 0\<rparr>"

text \<open>Without an atomic committer: one write after the other.\<close>

definition separate_writes :: "indexer \<Rightarrow> index_env \<Rightarrow> chain_event list \<Rightarrow> (u64 \<times> string) list \<Rightarrow> u64 option
    \<Rightarrow> indexer_checkpoint \<Rightarrow> unit ixm" where
  "separate_writes ix e events hashes before newcp =
     bindM (forM events (\<lambda>ev. ix_write e (\<lambda>s. ((), s\<lparr>xs_events := ce_create ev (xs_events s)\<rparr>)))) (\<lambda>_.
     bindM (if \<not> ix_hashes ix then ret () else
       bindM (forM hashes (\<lambda>(b, h). ix_write e (\<lambda>s. ((), s\<lparr>xs_hashes := bh_record (ix_chain_id ix) b h (xs_hashes s)\<rparr>)))) (\<lambda>_.
       case before of
         None \<Rightarrow> ret ()
       | Some b \<Rightarrow> ix_write e (\<lambda>s. ((), s\<lparr>xs_hashes := bh_prune_before (ix_chain_id ix) b (xs_hashes s)\<rparr>)))) (\<lambda>_.
     ix_write e (\<lambda>s. ((), s\<lparr>xs_checkpoints := ck_set newcp (xs_checkpoints s)\<rparr>))))"

text \<open>The checkpoint passed in by reference is returned as it is left.\<close>

definition commit_chunk :: "indexer \<Rightarrow> index_env \<Rightarrow> u64 \<Rightarrow> u64 \<Rightarrow> u64 \<Rightarrow> string \<Rightarrow> source_log list \<Rightarrow> (u64, u256) store
    \<Rightarrow> indexer_checkpoint \<Rightarrow> indexer_checkpoint ixm" where
  "commit_chunk ix e a z current zhash logs cache cp =
     bindM (prepare_chunk_events ix e logs) (\<lambda>events.
     bindM (chunk_hashes ix e a z current cache) (\<lambda>hashes.
     bindM (ix_now e) (\<lambda>now.
     let before = (if ix_hashes ix \<or> ix_chunks ix then prune_floor ix current else None);
         newcp = new_checkpoint ix z zhash now;
         cp' = cp\<lparr>ck_last_block := z, ck_last_block_hash := zhash, ck_updated_at := now\<rparr>
     in if ix_chunks ix then
          bindM (ix_write e (commit_chunk_store
            \<lparr>cc_chain_id = ix_chain_id ix, cc_events = events, cc_block_hashes = hashes, cc_prune_before = before,
             cc_checkpoint = newcp, cc_expected_version = ck_version cp\<rparr>)) (\<lambda>committed.
          if \<not> committed then raise ErrVersionConflict
          else ret (cp'\<lparr>ck_version := ck_version cp + 1\<rparr>))
        else bindM (separate_writes ix e events hashes before newcp) (\<lambda>_. ret cp'))))"

text \<open>One attempt at a chunk; \<open>None\<close> when the snapshot was not coherent and is discarded.\<close>

definition scan_attempt :: "indexer \<Rightarrow> index_env \<Rightarrow> u64 \<Rightarrow> u64 \<Rightarrow> u64 \<Rightarrow> indexer_checkpoint
    \<Rightarrow> (u64 \<times> indexer_checkpoint) option ixm" where
  "scan_attempt ix e a want current cp =
     bindM (header_hash e want) (\<lambda>before.
     bindM (scan_chunk ix e 1 initial_range_backoff a want) (\<lambda>(logs, z).
     bindM (header_hash e z) (\<lambda>after.
     if z = want \<and> after \<noteq> before then ret None
     else bindM (validate_logs e logs [(z, after)]) (\<lambda>r.
       case r of
         None \<Rightarrow> ret None
       | Some (accepted, cache) \<Rightarrow>
           bindM (commit_chunk ix e a z current (hash_hex after) accepted cache cp) (\<lambda>cp'.
           ret (Some (z + 1, cp')))))))"

function scan_and_commit :: "indexer \<Rightarrow> index_env \<Rightarrow> int \<Rightarrow> gotime \<Rightarrow> u64 \<Rightarrow> u64 \<Rightarrow> u64 \<Rightarrow> indexer_checkpoint
    \<Rightarrow> (u64 \<times> indexer_checkpoint) ixm" where
  "scan_and_commit ix e attempt backoff a want current cp w =
     (case scan_attempt ix e a want current cp w of
        (Inl x, w') \<Rightarrow> (Inl x, w')
      | (Inr (Some r), w') \<Rightarrow> (Inr r, w')
      | (Inr None, w') \<Rightarrow>
          if attempt \<ge> ix_max_range_retries ix then (Inl (ErrIncoherent a want attempt), w')
          else scan_and_commit ix e (attempt + 1) (next_backoff backoff) a want current cp (ix_sleep backoff w'))"
  by pat_completeness auto

termination
  by (relation "measure (\<lambda>(ix, e, attempt, backoff, a, want, current, cp, w). nat (ix_max_range_retries ix - attempt))")
    auto

declare scan_and_commit.simps [simp del]

section \<open>Reorg recovery\<close>

definition fixed_window_ancestor :: "indexer \<Rightarrow> index_env \<Rightarrow> u64 \<Rightarrow> (u64 \<times> string) ixm" where
  "fixed_window_ancestor ix e search_from =
     (let back = (if search_from > ix_rollback_window ix then search_from - ix_rollback_window ix else 0);
          to = (if back < ix_start_block ix then ix_start_block ix else back)
      in if to = 0 then ret (0, [])
         else bindM (header_hash e to) (\<lambda>h. ret (to, hash_hex h)))"

text \<open>The loop over candidates: the highest retained hash the node confirms.\<close>

fun search_ancestor :: "indexer \<Rightarrow> index_env \<Rightarrow> u64 list \<Rightarrow> (u64 \<times> string) option ixm" where
  "search_ancestor ix e [] = ret None"
| "search_ancestor ix e (b # bs) =
     bindM (ix_read e (\<lambda>s. bh_get (ix_chain_id ix) b (xs_hashes s))) (\<lambda>retained.
     case retained of
       None \<Rightarrow> search_ancestor ix e bs
     | Some stored \<Rightarrow>
         bindM (header_hash e b) (\<lambda>h.
         if hash_hex h = stored then ret (Some (b, stored)) else search_ancestor ix e bs))"

definition depth_floor :: "indexer \<Rightarrow> indexer_checkpoint \<Rightarrow> u64" where
  "depth_floor ix cp =
     (if ck_last_block cp > ix_max_auto_reorg_depth ix then ck_last_block cp - ix_max_auto_reorg_depth ix else 0)"

definition policy_floor :: "indexer \<Rightarrow> indexer_checkpoint \<Rightarrow> u64" where
  "policy_floor ix cp = (if ix_start_block ix > depth_floor ix cp then ix_start_block ix else depth_floor ix cp)"

text \<open>\<^verbatim>\<open>for candidate := searchFrom; candidate > policyFloor; candidate--\<close>.\<close>

definition candidates :: "u64 \<Rightarrow> u64 \<Rightarrow> u64 list" where
  "candidates floor search_from = (if search_from > floor then rev (blocks_between (floor + 1) search_from) else [])"

definition find_common_ancestor :: "indexer \<Rightarrow> index_env \<Rightarrow> indexer_checkpoint \<Rightarrow> u64 \<Rightarrow> (u64 \<times> string) ixm" where
  "find_common_ancestor ix e cp search_from =
     (if \<not> ix_hashes ix then fixed_window_ancestor ix e search_from
      else bindM (search_ancestor ix e (candidates (policy_floor ix cp) search_from)) (\<lambda>found.
        case found of
          Some r \<Rightarrow> ret r
        | None \<Rightarrow>
            if \<not> ix_start_block ix \<ge> depth_floor ix cp then raise ErrReconciliationRequired
            else let at = (if policy_floor ix cp > search_from then search_from else policy_floor ix cp)
                 in if at = 0 then ret (0, [])
                    else bindM (header_hash e at) (\<lambda>h. ret (at, hash_hex h))))"

definition rewind :: "indexer \<Rightarrow> index_env \<Rightarrow> indexer_checkpoint option \<Rightarrow> indexer_checkpoint \<Rightarrow> u64 \<Rightarrow> indexer_checkpoint ixm" where
  "rewind ix e cp newcp delete_from =
     (let addrs = map (xe_addr_hex e) (ix_addresses ix);
          expected = (case cp of None \<Rightarrow> 0 | Some c \<Rightarrow> ck_version c)
      in if ix_chunks ix then
           bindM (ix_write e (rewind_chunk_store
             \<lparr>cr_chain_id = ix_chain_id ix, cr_addresses = addrs, cr_delete_from = delete_from,
              cr_checkpoint = newcp, cr_expected_version = expected\<rparr>)) (\<lambda>committed.
           if \<not> committed then raise ErrVersionConflict else ret (newcp\<lparr>ck_version := expected + 1\<rparr>))
         else
           bindM (forM addrs (\<lambda>a. ix_write e (\<lambda>s.
             ((), s\<lparr>xs_events := snd (ce_delete_from_block (ix_chain_id ix) a delete_from (xs_events s))\<rparr>)))) (\<lambda>_.
           bindM (ix_write e (\<lambda>s. ((), s\<lparr>xs_checkpoints := ck_set newcp (xs_checkpoints s)\<rparr>))) (\<lambda>_. ret newcp)))"

definition rollback :: "indexer \<Rightarrow> index_env \<Rightarrow> indexer_checkpoint \<Rightarrow> u64 \<Rightarrow> indexer_checkpoint ixm" where
  "rollback ix e cp search_from =
     bindM (tryM (find_common_ancestor ix e cp search_from)) (\<lambda>r.
     case r of
       Inl x \<Rightarrow>
         bindM (if x = ErrReconciliationRequired then
             bindM (ix_now e) (\<lambda>now.
             ix_write e (\<lambda>s. ((), s\<lparr>xs_checkpoints :=
               ck_set (cp\<lparr>ck_reconciliation_required := True, ck_updated_at := now\<rparr>) (xs_checkpoints s)\<rparr>)))
           else ret ()) (\<lambda>_. raise x)
     | Inr (ancestor, ahash) \<Rightarrow>
         bindM (ix_now e) (\<lambda>now.
         rewind ix e (Some cp) (new_checkpoint ix ancestor ahash now) (ancestor + 1)))"

section \<open>Polling\<close>

definition load_checkpoint :: "indexer \<Rightarrow> index_env \<Rightarrow> (indexer_checkpoint \<times> bool) ixm" where
  "load_checkpoint ix e =
     bindM (ix_read e (\<lambda>s. ck_get (ix_chain_id ix) all_addresses (xs_checkpoints s))) (\<lambda>found.
     ret (case found of
            Some cp \<Rightarrow> (cp, True)
          | None \<Rightarrow> (new_checkpoint ix (ix_start_block ix) [] 0, False)))"

definition check_reorg :: "indexer \<Rightarrow> index_env \<Rightarrow> indexer_checkpoint \<Rightarrow> bool \<Rightarrow> u64 \<Rightarrow> (indexer_checkpoint \<times> bool) ixm" where
  "check_reorg ix e cp existed current =
     (if existed \<and> ck_last_block cp > 0 \<and> ck_last_block_hash cp \<noteq> [] then
        if current < ck_last_block cp then bindM (rollback ix e cp current) (\<lambda>cp. ret (cp, True))
        else bindM (header_hash e (ck_last_block cp)) (\<lambda>h.
          if hash_hex h \<noteq> ck_last_block_hash cp
          then bindM (rollback ix e cp (ck_last_block cp)) (\<lambda>cp. ret (cp, True))
          else ret (cp, existed))
      else ret (cp, existed))"

definition chunk_end :: "indexer \<Rightarrow> u64 \<Rightarrow> u64 \<Rightarrow> u64" where
  "chunk_end ix a current =
     (if ix_max_log_range ix > 0 \<and> a + ix_max_log_range ix - 1 < current then a + ix_max_log_range ix - 1 else current)"

fun poll_loop :: "nat \<Rightarrow> indexer \<Rightarrow> index_env \<Rightarrow> u64 \<Rightarrow> u64 \<Rightarrow> indexer_checkpoint \<Rightarrow> unit ixm" where
  "poll_loop 0 ix e a current cp = (if a \<le> current then raise ErrFuel else ret ())"
| "poll_loop (Suc n) ix e a current cp =
     (if a \<le> current then
        bindM (scan_and_commit ix e 1 initial_range_backoff a (chunk_end ix a current) current cp) (\<lambda>(next, cp).
        poll_loop n ix e next current cp)
      else ret ())"

definition poll_scan :: "indexer \<Rightarrow> index_env \<Rightarrow> u64 \<Rightarrow> indexer_checkpoint \<Rightarrow> bool \<Rightarrow> unit ixm" where
  "poll_scan ix e current cp existed =
     (if existed \<and> current \<le> ck_last_block cp then ret ()
      else let a = (if existed then ck_last_block cp + 1 else ix_start_block ix);
               a = (if a > current then current else a)
           in poll_loop (Suc (unat current - unat a)) ix e a current cp)"

definition poll_body :: "indexer \<Rightarrow> index_env \<Rightarrow> unit ixm" where
  "poll_body ix e =
     bindM (load_checkpoint ix e) (\<lambda>(cp, existed).
     if existed \<and> ck_reconciliation_required cp then raise ErrReconciliationRequired
     else bindM (source_call e (xe_head e)) (\<lambda>current.
       bindM (check_reorg ix e cp existed current) (\<lambda>(cp, existed).
       poll_scan ix e current cp existed)))"

text \<open>A lost race for the checkpoint ends the poll cleanly.\<close>

definition poll :: "indexer \<Rightarrow> index_env \<Rightarrow> unit ixm" where
  "poll ix e = (\<lambda>w. case poll_body ix e w of
     (Inl ErrVersionConflict, w') \<Rightarrow> (Inr (), w')
   | r \<Rightarrow> r)"

section \<open>The operator's operations\<close>

definition reset_to_trusted_checkpoint :: "indexer \<Rightarrow> index_env \<Rightarrow> u64 \<Rightarrow> unit ixm" where
  "reset_to_trusted_checkpoint ix e trusted =
     bindM (if trusted > 0 then bindM (header_hash e trusted) (\<lambda>h. ret (hash_hex h)) else ret []) (\<lambda>h.
     bindM (ix_read e (\<lambda>s. ck_get (ix_chain_id ix) all_addresses (xs_checkpoints s))) (\<lambda>cur.
     bindM (ix_now e) (\<lambda>now.
     bindM (tryM (rewind ix e cur (new_checkpoint ix trusted h now) (trusted + 1))) (\<lambda>r.
     case r of
       Inl x \<Rightarrow> raise (if x = ErrVersionConflict then ErrResetMoved else x)
     | Inr _ \<Rightarrow> ret ()))))"

definition orphan_letter :: "dead_letter \<Rightarrow> source_log \<Rightarrow> u256 \<Rightarrow> dead_letter" where
  "orphan_letter d l h = d\<lparr>dl_error_category := ''orphaned'',
     dl_error_message := ''block '' @ big_string (uint (lg_block_number l)) @ '' is no longer canonical (retained hash '' @
       hash_hex (lg_block_hash l) @ '', current '' @ hash_hex h @ ''); dismissed without ingesting'',
     dl_retry_count := 0, dl_first_failed_at := 0, dl_last_failed_at := 0, dl_resolved := False\<rparr>"

definition resolve_letter :: "index_env \<Rightarrow> string \<Rightarrow> unit ixm" where
  "resolve_letter e i =
     bindM (ix_letters e (\<lambda>m. case dl_resolve i m of None \<Rightarrow> (False, m) | Some m' \<Rightarrow> (True, m'))) (\<lambda>found.
     guardM found ErrNoLetter)"

definition ingest_retried :: "indexer \<Rightarrow> index_env \<Rightarrow> source_log \<Rightarrow> string \<Rightarrow> (string, event_value) store \<Rightarrow> unit ixm" where
  "ingest_retried ix e l name data =
     bindM (ix_read e (\<lambda>s. ce_exists (log_key ix e l) (xs_events s))) (\<lambda>exists.
     if exists then ret ()
     else bindM (ix_now e) (\<lambda>now.
       ix_write e (\<lambda>s. ((), s\<lparr>xs_events :=
         ce_create (build_event (ix_chain_id ix) e l name data now) (xs_events s)\<rparr>))))"

definition retry_dead_letter :: "indexer \<Rightarrow> index_env \<Rightarrow> string \<Rightarrow> unit ixm" where
  "retry_dead_letter ix e i =
     (if \<not> ix_dlq ix then raise ErrNoQueue
      else bindM (ix_letters e (\<lambda>m. (dl_get i m, m))) (\<lambda>found.
        case found of
          None \<Rightarrow> raise ErrNoLetter
        | Some d \<Rightarrow>
            (case xe_unmarshal e (dl_source_data d) of
               None \<Rightarrow> raise ErrRetained
             | Some l \<Rightarrow>
                 bindM (header_hash e (lg_block_number l)) (\<lambda>h.
                 if h \<noteq> lg_block_hash l then
                   bindM (ix_letters e (\<lambda>m. ((), dl_record (orphan_letter d l h) m))) (\<lambda>_. resolve_letter e i)
                 else case ix_decode ix l of
                   Inl cause \<Rightarrow> record_dead_letter ix e l cause
                 | Inr (name, data) \<Rightarrow>
                     bindM (ingest_retried ix e l name data) (\<lambda>_. resolve_letter e i)))))"

end
