(* ===== verification/IndexerSpec.thy ===== *)
theory IndexerSpec
  imports Indexer
begin

text \<open>
  What the indexer promises: whatever calls fail, the indexed events of the watched contracts are
  those of one chain, from the start block to the checkpoint, and a successful poll brings them
  to the node's head.
\<close>

section \<open>Chains and what an index of them holds\<close>

record chain =
  ch_hash :: "u64 \<Rightarrow> u256"
  ch_logs :: "u64 \<Rightarrow> source_log list"

text \<open>Logs carry their block's number and hash; transaction hash and log index identify a log of one chain.\<close>

definition chain_ok :: "chain \<Rightarrow> bool" where
  "chain_ok C \<longleftrightarrow>
     (\<forall>b. \<forall>l \<in> set (ch_logs C b). lg_block_number l = b \<and> lg_block_hash l = ch_hash C b \<and> \<not> lg_removed l) \<and>
     (\<forall>b b'. \<forall>l \<in> set (ch_logs C b). \<forall>l' \<in> set (ch_logs C b').
        lg_tx_hash l = lg_tx_hash l' \<longrightarrow> lg_index l = lg_index l' \<longrightarrow> l = l')"

text \<open>A block's hash commits to the whole history behind it.\<close>

definition linked :: "chain \<Rightarrow> chain \<Rightarrow> bool" where
  "linked C D \<longleftrightarrow> (\<forall>b. ch_hash C b = ch_hash D b \<longrightarrow>
     (\<forall>b' \<le> b. ch_hash C b' = ch_hash D b' \<and> ch_logs C b' = ch_logs D b'))"

text \<open>The node may fail at any call; when it answers, it answers from \<open>C\<close>. It may add removed logs, repeat logs, and list them in any order.\<close>

definition serves :: "index_env \<Rightarrow> chain \<Rightarrow> bool" where
  "serves e C \<longleftrightarrow>
     (\<forall>t b h. xe_header e t b = Some h \<longrightarrow> h = ch_hash C b) \<and>
     (\<forall>t a z addrs ls. xe_logs e t a z addrs = Inr ls \<longrightarrow>
        {l \<in> set ls. \<not> lg_removed l} = {l. \<exists>b. a \<le> b \<and> b \<le> z \<and> l \<in> set (ch_logs C b) \<and> lg_address l \<in> set addrs})"

definition quiet :: "index_env \<Rightarrow> bool" where
  "quiet e \<longleftrightarrow> (\<forall>t s. xe_other e t s = s)"

definition watched :: "indexer \<Rightarrow> index_env \<Rightarrow> chain_event \<Rightarrow> bool" where
  "watched ix e v \<longleftrightarrow> ev_chain_id v = ix_chain_id ix \<and> ev_address v \<in> xe_addr_hex e ` set (ix_addresses ix)"

definition undated :: "chain_event \<Rightarrow> chain_event" where
  "undated v = v\<lparr>ev_indexed_at := 0\<rparr>"

definition held :: "event_store \<Rightarrow> chain_event set" where
  "held st = set (vals st)"

definition stored :: "indexer \<Rightarrow> index_env \<Rightarrow> event_store \<Rightarrow> chain_event set" where
  "stored ix e st = {u \<in> undated ` held st. watched ix e u}"

definition event_of :: "indexer \<Rightarrow> index_env \<Rightarrow> source_log \<Rightarrow> chain_event option" where
  "event_of ix e l =
     (if lg_address l \<notin> set (ix_addresses ix) then None
      else case ix_decode ix l of
        Inl _ \<Rightarrow> None
      | Inr (name, data) \<Rightarrow> Some (build_event (ix_chain_id ix) e l name data 0))"

text \<open>The decodable events of the watched contracts in the blocks \<open>b\<close> with \<open>P b\<close>.\<close>

definition events_in :: "indexer \<Rightarrow> index_env \<Rightarrow> chain \<Rightarrow> (u64 \<Rightarrow> bool) \<Rightarrow> chain_event set" where
  "events_in ix e C P = {u. \<exists>b l. P b \<and> l \<in> set (ch_logs C b) \<and> event_of ix e l = Some u}"

text \<open>The store agrees with \<open>C\<close> below block \<open>a\<close>: events, and retained hashes.\<close>

definition consistent :: "indexer \<Rightarrow> index_env \<Rightarrow> chain \<Rightarrow> u64 \<Rightarrow> index_store \<Rightarrow> bool" where
  "consistent ix e C a st \<longleftrightarrow>
     wf_store ev_key (xs_events st) \<and>
     stored ix e (xs_events st) = events_in ix e C (\<lambda>b. ix_start_block ix \<le> b \<and> b < a) \<and>
     (\<forall>b h. bh_get (ix_chain_id ix) b (xs_hashes st) = Some h \<longrightarrow> b < a \<longrightarrow> h = hash_hex (ch_hash C b))"

definition checkpoint_at :: "indexer \<Rightarrow> chain \<Rightarrow> u64 \<Rightarrow> indexer_checkpoint \<Rightarrow> bool" where
  "checkpoint_at ix C n cp \<longleftrightarrow>
     ck_chain_id cp = ix_chain_id ix \<and> ck_address cp = all_addresses \<and> ck_last_block cp = n \<and>
     ck_last_block_hash cp = hash_hex (ch_hash C n) \<and> \<not> ck_reconciliation_required cp \<and>
     ix_start_block ix \<le> n \<and> n < - 1"

definition stored_checkpoint :: "indexer \<Rightarrow> index_store \<Rightarrow> indexer_checkpoint option" where
  "stored_checkpoint ix st = ck_get (ix_chain_id ix) all_addresses (xs_checkpoints st)"

definition indexed :: "indexer \<Rightarrow> index_env \<Rightarrow> chain \<Rightarrow> u64 \<Rightarrow> index_store \<Rightarrow> bool" where
  "indexed ix e C n st \<longleftrightarrow>
     consistent ix e C (n + 1) st \<and> (\<exists>cp. stored_checkpoint ix st = Some cp \<and> checkpoint_at ix C n cp)"

definition fresh_index :: "indexer \<Rightarrow> index_env \<Rightarrow> chain \<Rightarrow> index_store \<Rightarrow> bool" where
  "fresh_index ix e C st \<longleftrightarrow> consistent ix e C (ix_start_block ix) st \<and> stored_checkpoint ix st = None"

definition settled :: "indexer \<Rightarrow> index_env \<Rightarrow> chain \<Rightarrow> index_store \<Rightarrow> bool" where
  "settled ix e C st \<longleftrightarrow> fresh_index ix e C st \<or> (\<exists>n. indexed ix e C n st)"

text \<open>What the poll has in hand: the store below \<open>a\<close>, and a checkpoint with the stored version.\<close>

definition tracked :: "indexer \<Rightarrow> index_env \<Rightarrow> chain \<Rightarrow> u64 \<Rightarrow> indexer_checkpoint \<Rightarrow> index_store \<Rightarrow> bool" where
  "tracked ix e C a cp st \<longleftrightarrow>
     consistent ix e C a st \<and>
     (case stored_checkpoint ix st of
        None \<Rightarrow> ck_version cp = 0 \<and> a = ix_start_block ix
      | Some c \<Rightarrow> ck_version cp = ck_version c \<and> (\<exists>n. a = n + 1 \<and> checkpoint_at ix C n c))"

lemma tracked_settled: "tracked ix e C a cp st \<Longrightarrow> settled ix e C st"
  by (auto simp: tracked_def settled_def fresh_index_def indexed_def split: option.splits)

section \<open>The store under the operations\<close>

lemma ev_key_undated [simp]: "ev_key (undated v) = ev_key v"
  by (simp add: ev_key_def undated_def)

lemma undated_idem [simp]: "undated (undated v) = undated v"
  by (simp add: undated_def)

lemma watched_undated [simp]: "watched ix e (undated v) = watched ix e v"
  by (simp add: watched_def undated_def)

lemma held_lookup: "wf_store ev_key st \<Longrightarrow> v \<in> held st \<longleftrightarrow> lookup st (ev_key v) = Some v"
  by (simp only: held_def wf_store_vals)

lemma wf_create: "wf_store ev_key st \<Longrightarrow> wf_store ev_key (fold ce_create evs st)"
  by (induction evs arbitrary: st) (simp_all add: ce_create_def wf_store_put)

lemma held_create:
  assumes "wf_store ev_key st" and "\<And>v. v \<in> set evs \<Longrightarrow> lookup st (ev_key v) = None"
    and "\<And>v v'. v \<in> set evs \<Longrightarrow> v' \<in> set evs \<Longrightarrow> ev_key v = ev_key v' \<Longrightarrow> undated v = undated v'"
  shows "undated ` held (fold ce_create evs st) = undated ` held st \<union> undated ` set evs"
proof -
  let ?new = "map_of (rev (map (\<lambda>v. (ev_key v, v)) evs))"
  have new: "v \<in> set evs \<and> ev_key v = k" if "?new k = Some v" for k v using map_of_SomeD [OF that] by auto
  have some: "\<exists>v'. ?new (ev_key v) = Some v'" if "v \<in> set evs" for v
    using that by (cases "?new (ev_key v)") (auto simp: map_of_eq_None_iff image_image)
  have val: "v \<in> held (fold ce_create evs st) \<longleftrightarrow>
      (case ?new (ev_key v) of None \<Rightarrow> v \<in> held st | Some v' \<Rightarrow> v' = v)" for v
    unfolding held_lookup [OF wf_create [OF assms(1), of evs]] held_lookup [OF assms(1)] lookup_create_events
    by (simp split: option.split)
  have "undated v \<in> undated ` held st \<union> undated ` set evs" if "v \<in> held (fold ce_create evs st)" for v
  proof (cases "?new (ev_key v)")
    case None
    then have "v \<in> held st" using that val [of v] by simp
    then show ?thesis by blast
  next
    case (Some v')
    then have "v \<in> set evs" using that val [of v] new [OF Some] by simp
    then show ?thesis by blast
  qed
  moreover have "undated v \<in> undated ` held (fold ce_create evs st)" if "v \<in> held st" for v
  proof -
    have "?new (ev_key v) = None"
    proof (cases "?new (ev_key v)")
      case (Some v')
      then have "lookup st (ev_key v) = None" using new [OF Some] assms(2) [of v'] by simp
      then show ?thesis using that held_lookup [OF assms(1)] by simp
    qed
    then show ?thesis using val [of v] that by simp
  qed
  moreover have "undated v \<in> undated ` held (fold ce_create evs st)" if v: "v \<in> set evs" for v
  proof -
    obtain v' where v': "?new (ev_key v) = Some v'" using some [OF v] by blast
    note n = new [OF v']
    have "undated v = undated v'" using assms(3) [OF v] n by simp
    moreover have "v' \<in> held (fold ce_create evs st)" using val [of v'] v' n by simp
    ultimately show ?thesis by simp
  qed
  ultimately show ?thesis by blast
qed

lemma bh_get_record_hashes:
  "bh_get chain b (record_hashes chain hs st) = (case map_of (rev hs) b of None \<Rightarrow> bh_get chain b st | Some h \<Rightarrow> Some h)"
  unfolding record_hashes_def
  by (induction hs arbitrary: st) (auto simp: bh_get_record map_add_def split: option.split)

lemma consistent_agree:
  assumes "\<And>b. b < a \<Longrightarrow> ch_hash C b = ch_hash D b \<and> ch_logs C b = ch_logs D b"
  shows "consistent ix e C a st \<longleftrightarrow> consistent ix e D a st"
proof -
  have "events_in ix e C (\<lambda>b. ix_start_block ix \<le> b \<and> b < a) = events_in ix e D (\<lambda>b. ix_start_block ix \<le> b \<and> b < a)"
    unfolding events_in_def using assms by (simp cong: conj_cong)
  then show ?thesis using assms by (auto simp: consistent_def)
qed

lemma event_of_block: "event_of ix e l = Some u \<Longrightarrow> ev_block_number u = lg_block_number l"
  by (auto simp: event_of_def build_event_def split: if_splits sum.splits prod.splits)

lemma event_of_watched: "event_of ix e l = Some u \<Longrightarrow> watched ix e u"
  by (auto simp: event_of_def build_event_def watched_def split: if_splits sum.splits prod.splits)

lemma event_of_key: "event_of ix e l = Some u \<Longrightarrow> ev_key u = log_key ix e l"
  by (auto simp: event_of_def build_event_def ev_key_def log_key_def split: if_splits sum.splits prod.splits)

lemma event_of_undated: "event_of ix e l = Some u \<Longrightarrow> undated u = u"
  by (auto simp: event_of_def build_event_def undated_def split: if_splits sum.splits prod.splits)

lemma stored_delete:
  assumes "wf_store ev_key st"
  shows "stored ix e (delete_events (ix_chain_id ix) (map (xe_addr_hex e) (ix_addresses ix)) k st) =
      {u \<in> stored ix e st. ev_block_number u < k}"
    and "wf_store ev_key (delete_events (ix_chain_id ix) (map (xe_addr_hex e) (ix_addresses ix)) k st)"
proof -
  let ?st' = "delete_events (ix_chain_id ix) (map (xe_addr_hex e) (ix_addresses ix)) k st"
  have d: "distinct (map fst st)" using assms by (simp add: wf_store_def)
  note lk = lookup_delete_events [OF d, of "ix_chain_id ix" "map (xe_addr_hex e) (ix_addresses ix)" k]
  show wf: "wf_store ev_key ?st'"
    using lk wf_store_lookup [OF assms] by (auto simp: wf_store_alt split: option.splits if_splits)
  have val: "v \<in> held ?st' \<longleftrightarrow> v \<in> held st \<and> \<not> (watched ix e v \<and> ev_block_number v \<ge> k)" for v
    unfolding held_lookup [OF wf] held_lookup [OF assms] using conjunct2 [OF lk, of "ev_key v"]
    by (auto simp: watched_def split: option.splits)
  have block: "ev_block_number (undated v) = ev_block_number v" for v by (simp add: undated_def)
  show "stored ix e ?st' = {u \<in> stored ix e st. ev_block_number u < k}"
    unfolding stored_def by (auto simp: val block not_le)
qed

lemma events_in_or: "events_in ix e C (\<lambda>b. P b \<or> Q b) = events_in ix e C P \<union> events_in ix e C Q"
  by (rule set_eqI) (simp add: events_in_def conj_disj_distribR ex_disj_distrib)

lemma events_in_below:
  "chain_ok C \<Longrightarrow> {u \<in> events_in ix e C P. ev_block_number u < k} = events_in ix e C (\<lambda>b. P b \<and> b < k)"
  by (rule set_eqI) (auto simp: events_in_def chain_ok_def event_of_block)

text \<open>Rewinding to a block up to which the chains agree leaves a store that agrees with the other chain.\<close>

lemma rewind_consistent:
  assumes "consistent ix e C k st" and "chain_ok C" and "j \<le> k"
    and "\<And>b. b < j \<Longrightarrow> ch_hash C b = ch_hash D b \<and> ch_logs C b = ch_logs D b"
  shows "consistent ix e D j (st\<lparr>xs_events := delete_events (ix_chain_id ix) (map (xe_addr_hex e) (ix_addresses ix)) j (xs_events st),
      xs_checkpoints := cks\<rparr>)"
proof -
  have "(\<lambda>b. (ix_start_block ix \<le> b \<and> b < k) \<and> b < j) = (\<lambda>b. ix_start_block ix \<le> b \<and> b < j)" using assms(3) by auto
  then have "consistent ix e C j (st\<lparr>xs_events := delete_events (ix_chain_id ix) (map (xe_addr_hex e) (ix_addresses ix)) j (xs_events st),
      xs_checkpoints := cks\<rparr>)"
    using assms(1,3) by (auto simp: consistent_def stored_delete events_in_below [OF assms(2)])
  then show ?thesis using consistent_agree [of j C D] assms(4) by simp
qed

text \<open>What a chunk adds: the events of its blocks, and the hashes retained for them.\<close>

definition chunk_events_ok :: "indexer \<Rightarrow> index_env \<Rightarrow> chain \<Rightarrow> u64 \<Rightarrow> u64 \<Rightarrow> chain_event list \<Rightarrow> bool" where
  "chunk_events_ok ix e C a z evs \<longleftrightarrow>
     undated ` set evs = events_in ix e C (\<lambda>b. a \<le> b \<and> b \<le> z)"

lemma same_key_same_event:
  assumes "chain_ok C" and "u \<in> events_in ix e C P" and "v \<in> events_in ix e C Q" and "ev_key u = ev_key v"
  shows "u = v"
proof -
  obtain b l b' l' where l: "l \<in> set (ch_logs C b)" "event_of ix e l = Some u"
    and l': "l' \<in> set (ch_logs C b')" "event_of ix e l' = Some v"
    using assms(2,3) by (auto simp: events_in_def)
  have "log_key ix e l = log_key ix e l'" using assms(4) l l' by (simp add: event_of_key)
  then have "lg_tx_hash l = lg_tx_hash l'" "lg_index l = lg_index l'" by (simp_all add: log_key_def)
  then have "l = l'" using assms(1) l l' unfolding chain_ok_def by blast
  then show ?thesis using l l' by simp
qed

lemma events_in_block: "chain_ok C \<Longrightarrow> u \<in> events_in ix e C P \<Longrightarrow> P (ev_block_number u)"
  by (auto simp: events_in_def chain_ok_def dest: event_of_block)

lemma fresh_keys:
  assumes "consistent ix e C a st" and "chain_ok C" and "u \<in> events_in ix e C (\<lambda>b. a \<le> b \<and> b \<le> z)"
  shows "lookup (xs_events st) (ev_key u) = None"
proof (rule ccontr)
  assume "lookup (xs_events st) (ev_key u) \<noteq> None"
  then obtain v where v: "lookup (xs_events st) (ev_key u) = Some v" by blast
  have wf: "wf_store ev_key (xs_events st)" using assms(1) by (simp add: consistent_def)
  have key: "ev_key v = ev_key u" using wf_store_lookup [OF wf v] .
  have "v \<in> held (xs_events st)" using v key by (simp add: held_lookup [OF wf])
  moreover have "watched ix e v"
    using assms(3) key by (auto simp: events_in_def watched_def ev_key_def dest!: event_of_watched)
  ultimately have old: "undated v \<in> events_in ix e C (\<lambda>b. ix_start_block ix \<le> b \<and> b < a)"
    using assms(1) by (auto simp: consistent_def stored_def)
  moreover have "ev_key u = ev_key (undated v)" using key by simp
  ultimately have "undated v = u" using same_key_same_event [OF assms(2)] assms(3) by metis
  then have "u \<in> events_in ix e C (\<lambda>b. ix_start_block ix \<le> b \<and> b < a)" using old by simp
  then have "ev_block_number u < a" using events_in_block [OF assms(2)] by blast
  then show False using events_in_block [OF assms(2,3)] by auto
qed

lemma chunk_stored:
  assumes "consistent ix e C a st" and "chain_ok C" and "ix_start_block ix \<le> a" and "a \<le> z" and "z < - 1"
    and "chunk_events_ok ix e C a z evs"
  shows "stored ix e (fold ce_create evs (xs_events st)) = events_in ix e C (\<lambda>b. ix_start_block ix \<le> b \<and> b < z + 1)"
    and "wf_store ev_key (fold ce_create evs (xs_events st))"
proof -
  have wf: "wf_store ev_key (xs_events st)" using assms(1) by (simp add: consistent_def)
  then show "wf_store ev_key (fold ce_create evs (xs_events st))" by (rule wf_create)
  let ?new = "events_in ix e C (\<lambda>b. a \<le> b \<and> b \<le> z)"
  have new: "undated v \<in> ?new" if "v \<in> set evs" for v using assms(6) that by (auto simp: chunk_events_ok_def)
  have "undated ` held (fold ce_create evs (xs_events st)) = undated ` held (xs_events st) \<union> undated ` set evs"
  proof (rule held_create [OF wf])
    show "lookup (xs_events st) (ev_key v) = None" if "v \<in> set evs" for v
      using fresh_keys [OF assms(1,2) new [OF that]] by simp
    show "undated v = undated v'" if "v \<in> set evs" "v' \<in> set evs" "ev_key v = ev_key v'" for v v'
      by (rule same_key_same_event [OF assms(2) new [OF that(1)] new [OF that(2)]]) (simp add: that(3))
  qed
  moreover have "watched ix e u" if "u \<in> ?new" for u using that by (auto simp: events_in_def dest: event_of_watched)
  ultimately have "stored ix e (fold ce_create evs (xs_events st)) = stored ix e (xs_events st) \<union> ?new"
    using assms(6) unfolding stored_def chunk_events_ok_def by auto
  also have "\<dots> = events_in ix e C (\<lambda>b. ix_start_block ix \<le> b \<and> b < a) \<union> ?new" using assms(1) by (simp add: consistent_def)
  also have "\<dots> = events_in ix e C (\<lambda>b. ix_start_block ix \<le> b \<and> b < z + 1)"
  proof -
    have "z \<noteq> - 1" using assms(5) by auto
    then have "b < z + 1 \<longleftrightarrow> b \<le> z" for b by (simp add: word_less_nat_alt word_le_nat_alt unat_Suc less_Suc_eq_le)
    then have "(ix_start_block ix \<le> b \<and> b < z + 1) \<longleftrightarrow> (ix_start_block ix \<le> b \<and> b < a) \<or> (a \<le> b \<and> b \<le> z)" for b
      using assms(3,4) by (meson dual_order.trans leI le_less_trans less_imp_le)
    then have "events_in ix e C (\<lambda>b. ix_start_block ix \<le> b \<and> b < z + 1) =
        events_in ix e C (\<lambda>b. (ix_start_block ix \<le> b \<and> b < a) \<or> (a \<le> b \<and> b \<le> z))" by simp
    then show ?thesis unfolding events_in_or by simp
  qed
  finally show "stored ix e (fold ce_create evs (xs_events st)) = events_in ix e C (\<lambda>b. ix_start_block ix \<le> b \<and> b < z + 1)" .
qed

lemma set_blocks_between: "set (blocks_between a z) = {b. a \<le> b \<and> b \<le> z}"
proof (intro equalityI subsetI)
  fix b assume "b \<in> set (blocks_between a z)"
  then obtain n where n: "unat a \<le> n" "n \<le> unat z" "b = word_of_nat n" by (auto simp: blocks_between_def)
  have "unat z < 2 ^ LENGTH(64)" by (rule unsigned_less)
  then have "n < 2 ^ LENGTH(64)" using n(2) by (rule le_less_trans [rotated])
  then have "unat b = n" unfolding n(3) by (rule of_nat_inverse [OF refl])
  then show "b \<in> {b. a \<le> b \<and> b \<le> z}" using n by (simp add: word_le_nat_alt)
next
  fix b assume "b \<in> {b. a \<le> b \<and> b \<le> z}"
  then have "unat b \<in> {unat a..<Suc (unat z)}" by (simp add: word_le_nat_alt)
  then have "(word_of_nat (unat b) :: u64) \<in> word_of_nat ` {unat a..<Suc (unat z)}" by (rule imageI)
  then show "b \<in> set (blocks_between a z)" unfolding blocks_between_def set_map set_upt of_nat_unat ucast_id .
qed

definition canonical_hashes :: "chain \<Rightarrow> u64 list \<Rightarrow> (u64 \<times> string) list" where
  "canonical_hashes C bs = map (\<lambda>b. (b, hash_hex (ch_hash C b))) bs"

lemma lookup_canonical:
  "map_of (rev (canonical_hashes C bs)) b = (if b \<in> set bs then Some (hash_hex (ch_hash C b)) else None)"
  unfolding canonical_hashes_def
  by (induction bs) (auto simp: map_add_def split: option.split)

lemma hashes_after_chunk:
  assumes "consistent ix e C a st"
    and "bh_get (ix_chain_id ix) b (prune_hashes (ix_chain_id ix) (prune_floor ix current)
      (record_hashes (ix_chain_id ix) (canonical_hashes C (blocks_between (record_from ix a current) z)) (xs_hashes st))) = Some h"
    and "b \<le> z"
  shows "h = hash_hex (ch_hash C b)"
proof -
  let ?rec = "record_hashes (ix_chain_id ix) (canonical_hashes C (blocks_between (record_from ix a current) z)) (xs_hashes st)"
  have kept: "bh_get (ix_chain_id ix) b ?rec = Some h"
  proof (cases "prune_floor ix current")
    case None
    then show ?thesis using assms(2) by (simp add: prune_hashes_def)
  next
    case (Some k)
    then show ?thesis using bh_get_prune [of "ix_chain_id ix" b k ?rec h] assms(2) by (simp add: prune_hashes_def)
  qed
  have floor: "k \<le> b" if "prune_floor ix current = Some k" for k
    using bh_get_prune [of "ix_chain_id ix" b k ?rec h] assms(2) that by (simp add: prune_hashes_def)
  show ?thesis
  proof (cases "record_from ix a current \<le> b")
    case True
    then show ?thesis using kept assms(3) by (simp add: bh_get_record_hashes lookup_canonical set_blocks_between)
  next
    case False
    then have old: "bh_get (ix_chain_id ix) b (xs_hashes st) = Some h"
      using kept by (simp add: bh_get_record_hashes lookup_canonical set_blocks_between)
    have "record_from ix a current = a \<or> prune_floor ix current = Some (record_from ix a current)"
      by (simp add: record_from_def prune_floor_def)
    then have "b < a" using False floor by auto
    then show ?thesis using assms(1) old by (simp add: consistent_def)
  qed
qed

text \<open>The atomic commit of a chunk of \<open>C\<close> on a store that agrees with \<open>C\<close> below it.\<close>

lemma commit_consistent:
  assumes "tracked ix e C a cp st" and "chain_ok C" and "ix_start_block ix \<le> a" and "a \<le> z" and "z < - 1"
    and "chunk_events_ok ix e C a z evs"
    and c: "c = \<lparr>cc_chain_id = ix_chain_id ix, cc_events = evs,
      cc_block_hashes = canonical_hashes C (blocks_between (record_from ix a current) z),
      cc_prune_before = prune_floor ix current, cc_checkpoint = new_checkpoint ix z (hash_hex (ch_hash C z)) now,
      cc_expected_version = ck_version cp\<rparr>"
  shows "\<exists>st'. commit_chunk_store c st = (True, st') \<and>
    tracked ix e C (z + 1) (cp\<lparr>ck_last_block := z', ck_last_block_hash := zh, ck_updated_at := now', ck_version := ck_version cp + 1\<rparr>) st'"
proof -
  have con: "consistent ix e C a st" using assms(1) by (simp add: tracked_def)
  have version: "current_version (cc_checkpoint c) st = ck_version cp"
    using assms(1) by (simp add: c tracked_def current_version_def new_checkpoint_def stored_checkpoint_def split: option.splits)
  let ?cp = "(new_checkpoint ix z (hash_hex (ch_hash C z)) now)\<lparr>ck_version := ck_version cp + 1\<rparr>"
  let ?st = "st\<lparr>xs_events := fold ce_create evs (xs_events st),
      xs_hashes := prune_hashes (ix_chain_id ix) (prune_floor ix current)
        (record_hashes (ix_chain_id ix) (canonical_hashes C (blocks_between (record_from ix a current) z)) (xs_hashes st)),
      xs_checkpoints := ck_set ?cp (xs_checkpoints st)\<rparr>"
  have run: "commit_chunk_store c st = (True, ?st)"
    using version by (simp add: commit_chunk_store_def c)
  have "z \<noteq> - 1" using assms(5) by auto
  then have below: "b < z + 1 \<longleftrightarrow> b \<le> z" for b by (simp add: word_less_nat_alt word_le_nat_alt unat_Suc less_Suc_eq_le)
  have "consistent ix e C (z + 1) ?st"
    unfolding consistent_def
    using chunk_stored [OF con assms(2-6)] hashes_after_chunk [OF con] by (auto simp: below)
  moreover have "stored_checkpoint ix ?st = Some ?cp"
    using ck_get_set [of ?cp "xs_checkpoints st"] by (simp add: stored_checkpoint_def new_checkpoint_def)
  moreover have "checkpoint_at ix C z ?cp"
    using assms(3-5) by (simp add: checkpoint_at_def new_checkpoint_def)
  ultimately have "tracked ix e C (z + 1) (cp\<lparr>ck_last_block := z', ck_last_block_hash := zh, ck_updated_at := now', ck_version := ck_version cp + 1\<rparr>) ?st"
    by (auto simp: tracked_def new_checkpoint_def)
  with run show ?thesis by blast
qed

section \<open>Reads leave the store alone\<close>

text \<open>Their errors are those of failed calls, never the ones the poll itself reacts to.\<close>

definition plain_error :: "index_error \<Rightarrow> bool" where
  "plain_error x \<longleftrightarrow> x \<noteq> ErrVersionConflict \<and> x \<noteq> ErrFuel \<and> x \<noteq> ErrReconciliationRequired"

definition reads :: "'a ixm \<Rightarrow> bool" where
  "reads m \<longleftrightarrow> (\<forall>w. xw_store (snd (m w)) = xw_store w \<and> (\<forall>x. fst (m w) = Inl x \<longrightarrow> plain_error x))"

lemma readsD: "reads m \<Longrightarrow> m w = (r, w') \<Longrightarrow> xw_store w' = xw_store w \<and> (\<forall>x. r = Inl x \<longrightarrow> plain_error x)"
  unfolding reads_def by (metis fst_conv snd_conv)

lemma readsI:
  "(\<And>w. xw_store (snd (m w)) = xw_store w) \<Longrightarrow> (\<And>w x. fst (m w) = Inl x \<Longrightarrow> plain_error x) \<Longrightarrow> reads m"
  by (simp add: reads_def)

named_theorems read_intros

lemma meddle_store [simp]: "quiet e \<Longrightarrow> xw_store (meddle e w) = xw_store w"
  by (simp add: meddle_def quiet_def)

lemma plain_errors [simp]: "plain_error ErrSource" "plain_error ErrRepo" "plain_error (ErrDecodeLog s)"
  "plain_error (ErrFilterLogs a z n)" "plain_error (ErrIncoherent a z n)"
  by (simp_all add: plain_error_def)

lemma reads_ret [read_intros]: "reads (ret x)"
  by (simp add: reads_def ret_def)

lemma reads_raise [read_intros]: "plain_error x \<Longrightarrow> reads (raise x)"
  by (simp add: reads_def raise_def)

lemma reads_bind [read_intros]:
  assumes "reads m" and "\<And>x. reads (f x)"
  shows "reads (bindM m f)"
  unfolding reads_def
proof
  fix w
  obtain r w' where m: "m w = (r, w')" by (cases "m w")
  note m' = readsD [OF assms(1) m]
  show "xw_store (snd (bindM m f w)) = xw_store w \<and> (\<forall>x. fst (bindM m f w) = Inl x \<longrightarrow> plain_error x)"
  proof (cases r)
    case (Inl x)
    then show ?thesis using m m' by (simp add: bindM_def)
  next
    case (Inr y)
    then show ?thesis using m m' assms(2) [of y] by (simp add: bindM_def reads_def)
  qed
qed

lemma reads_if [read_intros]: "reads m \<Longrightarrow> reads n \<Longrightarrow> reads (if b then m else n)"
  by simp

lemma reads_option [read_intros]: "reads m \<Longrightarrow> (\<And>x. reads (f x)) \<Longrightarrow> reads (case v of None \<Rightarrow> m | Some x \<Rightarrow> f x)"
  by (cases v) auto

lemma reads_sum [read_intros]: "(\<And>x. reads (g x)) \<Longrightarrow> (\<And>x. reads (f x)) \<Longrightarrow> reads (case v of Inl x \<Rightarrow> g x | Inr x \<Rightarrow> f x)"
  by (cases v) auto

lemma reads_prod [read_intros]: "(\<And>a b. reads (f a b)) \<Longrightarrow> reads (case p of (a, b) \<Rightarrow> f a b)"
  by (cases p) auto

lemma reads_now [read_intros]: "reads (ix_now e)"
  by (simp add: reads_def ix_now_def getM_def)

lemma reads_source [read_intros]: "quiet e \<Longrightarrow> reads (source_call e f)"
  by (auto simp: reads_def source_call_def split: option.split)

lemma reads_header [read_intros]: "quiet e \<Longrightarrow> reads (header_hash e b)"
  by (simp add: header_hash_def reads_source)

lemma reads_filter_logs [read_intros]: "quiet e \<Longrightarrow> reads (filter_logs ix e a z)"
  by (simp add: reads_def filter_logs_def)

lemma reads_read [read_intros]: "quiet e \<Longrightarrow> reads (ix_read e f)"
  by (auto simp: reads_def ix_read_def ix_call_def Let_def split: fault.split)

lemma reads_letters [read_intros]: "quiet e \<Longrightarrow> reads (ix_letters e f)"
  by (auto simp: reads_def ix_letters_def ix_call_def Let_def split: fault.split prod.split)

lemma reads_validate [read_intros]: "quiet e \<Longrightarrow> reads (validate_logs e ls cache)"
  by (induction ls arbitrary: cache) (auto intro!: read_intros)

lemma reads_decode_failure [read_intros]: "quiet e \<Longrightarrow> reads (handle_decode_failure ix e l cause)"
  by (auto simp: handle_decode_failure_def record_dead_letter_def intro!: read_intros)

lemma reads_prepare [read_intros]: "quiet e \<Longrightarrow> reads (prepare_chunk_events ix e ls)"
  by (induction ls) (auto intro!: read_intros)

lemma reads_collect [read_intros]: "quiet e \<Longrightarrow> reads (collect_hashes e bs cache)"
  by (induction bs arbitrary: cache) (auto intro!: read_intros)

lemma reads_chunk_hashes [read_intros]: "quiet e \<Longrightarrow> reads (chunk_hashes ix e a z current cache)"
  by (auto simp: chunk_hashes_def intro!: read_intros)

lemma reads_search [read_intros]: "quiet e \<Longrightarrow> reads (search_ancestor ix e bs)"
  by (induction bs) (auto intro!: read_intros)

lemma reads_scan_chunk [read_intros]: "quiet e \<Longrightarrow> reads (scan_chunk ix e attempt backoff a z)"
  unfolding reads_def
proof
  fix w :: index_world
  assume "quiet e"
  then show "xw_store (snd (scan_chunk ix e attempt backoff a z w)) = xw_store w \<and>
      (\<forall>x. fst (scan_chunk ix e attempt backoff a z w) = Inl x \<longrightarrow> plain_error x)"
  proof (induction ix e attempt backoff a z w rule: scan_chunk.induct)
    case (1 ix e attempt backoff a z w)
    then show ?case
      by (subst (1 2) scan_chunk.simps) (auto simp: filter_logs_def ix_sleep_def split: sum.split)
  qed
qed

section \<open>What the calls return on a chain\<close>

lemma header_InrD: "serves e C \<Longrightarrow> header_hash e b w = (Inr h, w') \<Longrightarrow> h = ch_hash C b"
  by (auto simp: serves_def header_hash_def source_call_def split: option.splits)

lemma ix_read_InrD: "quiet e \<Longrightarrow> ix_read e f w = (Inr x, w') \<Longrightarrow> x = f (xw_store w)"
  by (auto simp: ix_read_def ix_call_def Let_def split: fault.splits)

lemma shrunk_bounds:
  assumes "a < z"
  shows "a \<le> shrunk a z \<and> shrunk a z \<le> z"
proof -
  let ?k = "shrunk a z - a"
  have k: "unat ?k \<le> unat z - unat a"
    using shrunk_decreases [OF assms] assms unat_sub [of a z] by (simp add: word_less_nat_alt word_le_nat_alt)
  have "unat z < 2 ^ LENGTH(64)" by (rule unsigned_less)
  moreover have "unat a + unat ?k \<le> unat z" using k assms by (simp add: word_less_nat_alt)
  ultimately have "unat a + unat ?k < 2 ^ LENGTH(64)" by (rule le_less_trans [rotated])
  then have "unat (a + ?k) = unat a + unat ?k" using unat_add_lem by blast
  then have "unat (shrunk a z) = unat a + unat ?k" by simp
  then show ?thesis using k assms by (simp add: word_less_nat_alt word_le_nat_alt)
qed

definition range_of :: "indexer \<Rightarrow> chain \<Rightarrow> u64 \<Rightarrow> u64 \<Rightarrow> source_log set" where
  "range_of ix C a z = {l. \<exists>b. a \<le> b \<and> b \<le> z \<and> l \<in> set (ch_logs C b) \<and> lg_address l \<in> set (ix_addresses ix)}"

lemma scan_chunk_ok:
  assumes "serves e C" and "a \<le> z" and "scan_chunk ix e attempt backoff a z w = (Inr (logs, z'), w')"
  shows "a \<le> z' \<and> z' \<le> z \<and> {l \<in> set logs. \<not> lg_removed l} = range_of ix C a z'"
  using assms
proof (induction ix e attempt backoff a z w rule: scan_chunk.induct)
  case (1 ix e attempt backoff a z w)
  show ?case
  proof (cases "xe_logs e (xw_tick w) a z (ix_addresses ix)")
    case (Inr ls)
    then have "logs = ls" "z' = z" using "1.prems"(3) by (simp_all add: scan_chunk.simps filter_logs_def)
    then show ?thesis using "1.prems"(1,2) Inr unfolding serves_def range_of_def by blast
  next
    case (Inl x)
    have f: "filter_logs ix e a z w = (Inr (Inl x), meddle e w)" using Inl by (simp add: filter_logs_def)
    show ?thesis
    proof (cases "(is_range_too_large_error x \<or> is_timeout_error x) \<and> z > a")
      case True
      then have "scan_chunk ix e (attempt + 1) backoff a (shrunk a z) (meddle e w) = (Inr (logs, z'), w')"
        using "1.prems"(3) f by (subst (asm) scan_chunk.simps) simp
      then have "a \<le> z' \<and> z' \<le> shrunk a z \<and> {l \<in> set logs. \<not> lg_removed l} = range_of ix C a z'"
        using "1.IH"(1) [OF f [symmetric] refl refl True "1.prems"(1)] shrunk_bounds True by blast
      then show ?thesis using shrunk_bounds [of a z] True by auto
    next
      case False
      then have "scan_chunk ix e (attempt + 1) (next_backoff backoff) a z (ix_sleep backoff (meddle e w)) = (Inr (logs, z'), w')"
        and "\<not> attempt \<ge> ix_max_range_retries ix"
        using "1.prems"(3) f by (subst (asm) scan_chunk.simps; auto split: if_splits)+
      then show ?thesis using "1.IH"(2) [OF f [symmetric] refl refl False _ "1.prems"(1,2)] by blast
    qed
  qed
qed

definition cache_ok :: "chain \<Rightarrow> (u64, u256) store \<Rightarrow> bool" where
  "cache_ok C cache \<longleftrightarrow> (\<forall>b h. lookup cache b = Some h \<longrightarrow> h = ch_hash C b)"

lemma cache_ok_put: "cache_ok C cache \<Longrightarrow> h = ch_hash C b \<Longrightarrow> cache_ok C (put b h cache)"
  by (simp add: cache_ok_def lookup_put)

lemma validate_ok:
  assumes "serves e C" and "cache_ok C cache"
    and "\<forall>l \<in> set ls. \<not> lg_removed l \<longrightarrow> lg_block_hash l = ch_hash C (lg_block_number l)"
    and "validate_logs e ls cache w = (Inr r, w')"
  shows "\<exists>cache'. r = Some (filter (\<lambda>l. \<not> lg_removed l) ls, cache') \<and> cache_ok C cache'"
  using assms
proof (induction ls arbitrary: cache w r w')
  case Nil
  then show ?case by (auto simp: ret_def)
next
  case (Cons l ls)
  show ?case
  proof (cases "lg_removed l")
    case True
    then show ?thesis using Cons by simp
  next
    case False
    let ?known = "case lookup cache (lg_block_number l) of
        Some h \<Rightarrow> ret (h, cache)
      | None \<Rightarrow> bindM (header_hash e (lg_block_number l)) (\<lambda>h. ret (h, put (lg_block_number l) h cache))"
    obtain h cache1 w1 where h: "?known w = (Inr (h, cache1), w1)"
      and rest: "(if lg_block_hash l \<noteq> h then ret None
           else bindM (validate_logs e ls cache1) (\<lambda>r.
             ret (case r of None \<Rightarrow> None | Some (accepted, cache) \<Rightarrow> Some (l # accepted, cache)))) w1 = (Inr r, w')"
      using Cons.prems(4) False by (auto elim!: bindM_InrE)
    have known: "h = ch_hash C (lg_block_number l) \<and> cache_ok C cache1"
    proof (cases "lookup cache (lg_block_number l)")
      case None
      then obtain u where "header_hash e (lg_block_number l) w = (Inr h, u)" "cache1 = put (lg_block_number l) h cache"
        using h by (auto elim!: bindM_InrE dest!: ret_InrD)
      then show ?thesis using header_InrD [OF Cons.prems(1)] cache_ok_put [OF Cons.prems(2)] by blast
    next
      case (Some h')
      then show ?thesis using h Cons.prems(2) by (auto simp: cache_ok_def ret_def)
    qed
    moreover have "lg_block_hash l = ch_hash C (lg_block_number l)" using Cons.prems(3) False by simp
    ultimately obtain r1 w2 where v: "validate_logs e ls cache1 w1 = (Inr r1, w2)"
      and r: "r = (case r1 of None \<Rightarrow> None | Some (accepted, cache) \<Rightarrow> Some (l # accepted, cache))"
      using rest by (auto elim!: bindM_InrE dest!: ret_InrD)
    have "\<exists>cache'. r1 = Some (filter (\<lambda>l. \<not> lg_removed l) ls, cache') \<and> cache_ok C cache'"
      by (rule Cons.IH [OF Cons.prems(1) conjunct2 [OF known] _ v]) (use Cons.prems(3) in simp)
    then show ?thesis using r False by auto
  qed
qed

lemma collect_ok:
  "serves e C \<Longrightarrow> cache_ok C cache \<Longrightarrow> collect_hashes e bs cache w = (Inr hs, w') \<Longrightarrow> hs = canonical_hashes C bs"
proof (induction bs arbitrary: cache w hs)
  case Nil
  then show ?case by (simp add: ret_def canonical_hashes_def)
next
  case (Cons b bs)
  obtain h w1 where h: "(case lookup cache b of Some h \<Rightarrow> ret h | None \<Rightarrow> header_hash e b) w = (Inr h, w1)"
    and rest: "bindM (collect_hashes e bs (put b h cache)) (\<lambda>rest. ret ((b, hash_hex h) # rest)) w1 = (Inr hs, w')"
    using Cons.prems(3) unfolding collect_hashes.simps by (rule bindM_InrE) (rule that)
  have hb: "h = ch_hash C b"
    using h header_InrD [OF Cons.prems(1)] Cons.prems(2) by (cases "lookup cache b") (auto simp: cache_ok_def ret_def)
  obtain rest' where rest': "collect_hashes e bs (put b h cache) w1 = (Inr rest', w')" "hs = (b, hash_hex h) # rest'"
    using rest by (auto elim!: bindM_InrE dest!: ret_InrD)
  have "rest' = canonical_hashes C bs" by (rule Cons.IH [OF Cons.prems(1) cache_ok_put [OF Cons.prems(2) hb] rest'(1)])
  then show ?case using rest'(2) hb by (simp add: canonical_hashes_def)
qed

lemma prepare_ok:
  assumes "quiet e" and "\<forall>l \<in> set ls. lg_address l \<in> set (ix_addresses ix) \<and>
      (event_of ix e l \<noteq> None \<longrightarrow> lookup (xs_events (xw_store w)) (log_key ix e l) = None)"
    and "prepare_chunk_events ix e ls w = (Inr evs, w')"
  shows "undated ` set evs = {u. \<exists>l \<in> set ls. event_of ix e l = Some u}"
  using assms
proof (induction ls arbitrary: w evs)
  case Nil
  then show ?case by (auto simp: ret_def)
next
  case (Cons l ls)
  have addr: "lg_address l \<in> set (ix_addresses ix)" using Cons.prems(2) by simp
  obtain b w1 where b: "ix_read e (\<lambda>s. ce_exists (log_key ix e l) (xs_events s)) w = (Inr b, w1)"
    and rest: "(if b then prepare_chunk_events ix e ls
     else case ix_decode ix l of
       Inl cause \<Rightarrow> bindM (handle_decode_failure ix e l cause) (\<lambda>_. prepare_chunk_events ix e ls)
     | Inr (name, data) \<Rightarrow>
         bindM (ix_now e) (\<lambda>now.
         bindM (prepare_chunk_events ix e ls) (\<lambda>evs.
         ret (build_event (ix_chain_id ix) e l name data now # evs)))) w1 = (Inr evs, w')"
    using Cons.prems(3) unfolding prepare_chunk_events.simps by (rule bindM_InrE) (rule that)
  have b_iff: "b = ce_exists (log_key ix e l) (xs_events (xw_store w))" by (rule ix_read_InrD [OF Cons.prems(1) b])
  have s1: "xw_store w1 = xw_store w" using readsD [OF reads_read b] Cons.prems(1) by blast
  have IH: "undated ` set evs' = {u. \<exists>l \<in> set ls. event_of ix e l = Some u}"
    if "prepare_chunk_events ix e ls v = (Inr evs', w')" "xw_store v = xw_store w" for v evs'
    by (rule Cons.IH [OF Cons.prems(1) _ that(1)]) (use Cons.prems(2) that(2) in simp)
  have skip: "undated ` set evs = {u. \<exists>l \<in> set (l # ls). event_of ix e l = Some u}"
    if "prepare_chunk_events ix e ls v = (Inr evs, w')" "xw_store v = xw_store w" "event_of ix e l = None" for v
    using IH [OF that(1,2)] that(3) by auto
  show ?case
  proof (cases "ix_decode ix l")
    case (Inl cause)
    then have none: "event_of ix e l = None" by (simp add: event_of_def)
    show ?thesis
    proof (cases b)
      case True
      then show ?thesis using skip rest s1 none by simp
    next
      case False
      then obtain w2 where "handle_decode_failure ix e l cause w1 = (Inr (), w2)"
        and "prepare_chunk_events ix e ls w2 = (Inr evs, w')"
        using rest Inl by (auto elim!: bindM_InrE)
      then show ?thesis using skip none readsD [OF reads_decode_failure [OF Cons.prems(1)]] s1 by metis
    qed
  next
    case (Inr nd)
    obtain name data where nd: "nd = (name, data)" by (cases nd)
    have some: "event_of ix e l = Some (build_event (ix_chain_id ix) e l name data 0)"
      using addr Inr nd by (simp add: event_of_def)
    then have "\<not> b" using Cons.prems(2) b_iff by (simp add: ce_exists_def)
    then obtain now w2 evs' where now: "ix_now e w1 = (Inr now, w2)"
      and pre: "prepare_chunk_events ix e ls w2 = (Inr evs', w')"
      and evs: "evs = build_event (ix_chain_id ix) e l name data now # evs'"
      using rest Inr nd by (auto elim!: bindM_InrE dest!: ret_InrD)
    have "xw_store w2 = xw_store w" using readsD [OF reads_now now] s1 by simp
    then have "undated ` set evs' = {u. \<exists>l \<in> set ls. event_of ix e l = Some u}" by (rule IH [OF pre])
    moreover have "undated (build_event (ix_chain_id ix) e l name data now) = build_event (ix_chain_id ix) e l name data 0"
      by (simp add: build_event_def undated_def)
    ultimately show ?thesis using some evs by auto
  qed
qed

lemma event_of_address: "event_of ix e l = Some u \<Longrightarrow> lg_address l \<in> set (ix_addresses ix)"
  by (simp add: event_of_def split: if_splits)

lemma range_events:
  "{u. \<exists>l \<in> range_of ix C a z. event_of ix e l = Some u} = events_in ix e C (\<lambda>b. a \<le> b \<and> b \<le> z)"
  by (auto simp: range_of_def events_in_def dest: event_of_address)

lemma prepare_range:
  assumes "quiet e" and "chain_ok C" and "consistent ix e C a (xw_store w)" and "set ls = range_of ix C a z"
    and "prepare_chunk_events ix e ls w = (Inr evs, w')"
  shows "chunk_events_ok ix e C a z evs"
proof -
  have "\<forall>l \<in> set ls. lg_address l \<in> set (ix_addresses ix) \<and>
      (event_of ix e l \<noteq> None \<longrightarrow> lookup (xs_events (xw_store w)) (log_key ix e l) = None)"
  proof
    fix l assume l: "l \<in> set ls"
    have "lookup (xs_events (xw_store w)) (log_key ix e l) = None" if u: "event_of ix e l = Some u" for u
    proof -
      have "u \<in> events_in ix e C (\<lambda>b. a \<le> b \<and> b \<le> z)" using l u assms(4) range_events [of ix C a z e] by blast
      then show ?thesis using fresh_keys [OF assms(3,2)] event_of_key [OF u] by metis
    qed
    then show "lg_address l \<in> set (ix_addresses ix) \<and>
      (event_of ix e l \<noteq> None \<longrightarrow> lookup (xs_events (xw_store w)) (log_key ix e l) = None)"
      using l assms(4) by (auto simp: range_of_def)
  qed
  from prepare_ok [OF assms(1) this assms(5)] show ?thesis
    unfolding chunk_events_ok_def assms(4) [symmetric] using range_events [of ix C a z e] assms(4) by simp
qed

section \<open>The scanning loop on a chain\<close>

text \<open>What a step of the scan may do to a store that agrees with \<open>C\<close> below \<open>a\<close>, up to block \<open>z\<close>.\<close>

definition production :: "indexer \<Rightarrow> bool" where
  "production ix \<longleftrightarrow> ix_hashes ix \<and> ix_chunks ix \<and> 0 < ix_start_block ix"

lemma ix_write_cases:
  assumes "quiet e" and "ix_write e f w = (r, w')"
  shows "(r = Inr (fst (f (xw_store w))) \<and> xw_store w' = snd (f (xw_store w))) \<or>
    (r = Inl ErrRepo \<and> (xw_store w' = xw_store w \<or> xw_store w' = snd (f (xw_store w))))"
  using assms by (cases "xe_fault e (xw_tick w)") (auto simp: ix_write_def ix_call_def Let_def split: prod.splits)

text \<open>A call that failed with the store untouched; otherwise a step that only reads succeeded.\<close>

definition failed :: "index_store \<Rightarrow> index_error + 'a \<Rightarrow> index_world \<Rightarrow> bool" where
  "failed s r w \<longleftrightarrow> xw_store w = s \<and> (\<exists>x. r = Inl x \<and> plain_error x)"

lemma bind_read:
  assumes "bindM m f w = (r, w')" and "reads m" and "xw_store w = s" and "\<not> failed s r w'"
  shows "\<exists>y w1. m w = (Inr y, w1) \<and> xw_store w1 = s \<and> f y w1 = (r, w')"
proof -
  obtain r1 w1 where m: "m w = (r1, w1)" by (cases "m w")
  show ?thesis using assms m readsD [OF assms(2) m] by (cases r1) (auto simp: bindM_def failed_def)
qed

lemma commit_chunk_ok:
  assumes "quiet e" and "production ix" and "chain_ok C" and "serves e C" and "cache_ok C cache"
    and "tracked ix e C a cp (xw_store w)" and "set ls = range_of ix C a z"
    and "ix_start_block ix \<le> a" and "a \<le> z" and "z < - 1"
    and "commit_chunk ix e a z current (hash_hex (ch_hash C z)) ls cache cp w = (r, w')"
    and "\<not> failed (xw_store w) r w'"
  shows "\<exists>cp'. tracked ix e C (z + 1) cp' (xw_store w') \<and> (r = Inr cp' \<or> r = Inl ErrRepo)"
proof -
  obtain evs w1 where p: "prepare_chunk_events ix e ls w = (Inr evs, w1)" and s1: "xw_store w1 = xw_store w"
    and run1: "bindM (chunk_hashes ix e a z current cache) (\<lambda>hashes.
      bindM (ix_now e) (\<lambda>now.
      let before = (if ix_hashes ix \<or> ix_chunks ix then prune_floor ix current else None);
         newcp = new_checkpoint ix z (hash_hex (ch_hash C z)) now;
         cp' = cp\<lparr>ck_last_block := z, ck_last_block_hash := hash_hex (ch_hash C z), ck_updated_at := now\<rparr>
     in if ix_chunks ix then
          bindM (ix_write e (commit_chunk_store
            \<lparr>cc_chain_id = ix_chain_id ix, cc_events = evs, cc_block_hashes = hashes, cc_prune_before = before,
             cc_checkpoint = newcp, cc_expected_version = ck_version cp\<rparr>)) (\<lambda>committed.
          if \<not> committed then raise ErrVersionConflict
          else ret (cp'\<lparr>ck_version := ck_version cp + 1\<rparr>))
        else bindM (separate_writes ix e evs hashes before newcp) (\<lambda>_. ret cp'))) w1 = (r, w')"
    using bind_read [OF assms(11) [unfolded commit_chunk_def] reads_prepare [OF assms(1)] refl assms(12)] by blast
  obtain hs w2 where h: "chunk_hashes ix e a z current cache w1 = (Inr hs, w2)" and s2: "xw_store w2 = xw_store w"
    using bind_read [OF run1 reads_chunk_hashes [OF assms(1)] s1 assms(12)] by blast
  have con: "consistent ix e C a (xw_store w)" using assms(6) by (simp add: tracked_def)
  have evs: "chunk_events_ok ix e C a z evs" by (rule prepare_range [OF assms(1,3) con assms(7) p])
  have hs: "hs = canonical_hashes C (blocks_between (record_from ix a current) z)"
    using h assms(2) collect_ok [OF assms(4,5)] by (simp add: chunk_hashes_def production_def)
  let ?now = "xe_now e (xw_tick w2)"
  let ?c = "\<lparr>cc_chain_id = ix_chain_id ix, cc_events = evs, cc_block_hashes = hs,
    cc_prune_before = prune_floor ix current,
    cc_checkpoint = new_checkpoint ix z (hash_hex (ch_hash C z)) ?now, cc_expected_version = ck_version cp\<rparr>"
  let ?cp = "cp\<lparr>ck_last_block := z, ck_last_block_hash := hash_hex (ch_hash C z), ck_updated_at := ?now,
    ck_version := ck_version cp + 1\<rparr>"
  obtain st' where commit: "commit_chunk_store ?c (xw_store w) = (True, st')" and after: "tracked ix e C (z + 1) ?cp st'"
    using commit_consistent [OF assms(6,3,8-10) evs refl] unfolding hs by blast
  obtain r3 w3 where wr: "ix_write e (commit_chunk_store ?c) w2 = (r3, w3)" by (cases "ix_write e (commit_chunk_store ?c) w2")
  have tail: "(r, w') = (case r3 of Inl x \<Rightarrow> (Inl x, w3)
      | Inr b \<Rightarrow> (if \<not> b then raise ErrVersionConflict else ret ?cp) w3)"
    using run1 h wr assms(2)
    by (simp add: bindM_def ix_now_def getM_def production_def Let_def split: sum.splits)
  show ?thesis
    using ix_write_cases [OF assms(1) wr] tail s2 commit after assms(12) by (auto simp: ret_def failed_def)
qed

lemma scan_attempt_ok:
  assumes "quiet e" and "production ix" and "chain_ok C" and "serves e C"
    and "tracked ix e C a cp (xw_store w)"
    and "ix_start_block ix \<le> a" and "a \<le> z" and "z < - 1"
    and "scan_attempt ix e a z current cp w = (r, w')"
    and "\<not> failed (xw_store w) r w'"
  shows "\<exists>cp' z'. a \<le> z' \<and> z' \<le> z \<and> tracked ix e C (z' + 1) cp' (xw_store w') \<and> (r = Inr (Some (z' + 1, cp')) \<or> r = Inl ErrRepo)"
proof -
  let ?commit = "\<lambda>z' after r. case r of
         None \<Rightarrow> ret None
       | Some (accepted, cache) \<Rightarrow>
           bindM (commit_chunk ix e a z' current (hash_hex after) accepted cache cp) (\<lambda>cp'.
           ret (Some (z' + 1, cp')))"
  obtain before w1 where b: "header_hash e z w = (Inr before, w1)" and s1: "xw_store w1 = xw_store w"
    and run1: "bindM (scan_chunk ix e 1 initial_range_backoff a z) (\<lambda>(logs, z').
      bindM (header_hash e z') (\<lambda>after. if z' = z \<and> after \<noteq> before then ret None
      else bindM (validate_logs e logs [(z', after)]) (?commit z' after))) w1 = (r, w')"
    using bind_read [OF assms(9) [unfolded scan_attempt_def] reads_header [OF assms(1)] refl assms(10)] by blast
  obtain ls z' w2 where sc: "scan_chunk ix e 1 initial_range_backoff a z w1 = (Inr (ls, z'), w2)" and s2: "xw_store w2 = xw_store w"
    and run2: "bindM (header_hash e z') (\<lambda>after. if z' = z \<and> after \<noteq> before then ret None
      else bindM (validate_logs e ls [(z', after)]) (?commit z' after)) w2 = (r, w')"
    using bind_read [OF run1 reads_scan_chunk [OF assms(1)] s1 assms(10)] by auto
  note ok = scan_chunk_ok [OF assms(4,7) sc]
  obtain after w3 where q: "header_hash e z' w2 = (Inr after, w3)" and s3: "xw_store w3 = xw_store w"
    and run3: "(if z' = z \<and> after \<noteq> before then ret None
      else bindM (validate_logs e ls [(z', after)]) (?commit z' after)) w3 = (r, w')"
    using bind_read [OF run2 reads_header [OF assms(1)] s2 assms(10)] by blast
  have after: "after = ch_hash C z'" by (rule header_InrD [OF assms(4) q])
  have "\<not> (z' = z \<and> after \<noteq> before)" using after header_InrD [OF assms(4) b] by simp
  with run3 have run4: "bindM (validate_logs e ls [(z', after)]) (?commit z' after) w3 = (r, w')" by (simp only: if_False)
  obtain acc w4 where v: "validate_logs e ls [(z', after)] w3 = (Inr acc, w4)" and s4: "xw_store w4 = xw_store w"
    and run5: "?commit z' after acc w4 = (r, w')"
    using bind_read [OF run4 reads_validate [OF assms(1)] s3 assms(10)] by blast
  have hashes: "\<forall>l \<in> set ls. \<not> lg_removed l \<longrightarrow> lg_block_hash l = ch_hash C (lg_block_number l)"
  proof (intro ballI impI)
    fix l assume "l \<in> set ls" "\<not> lg_removed l"
    then have "l \<in> range_of ix C a z'" using ok by blast
    then show "lg_block_hash l = ch_hash C (lg_block_number l)" using assms(3) by (auto simp: range_of_def chain_ok_def)
  qed
  have seed: "cache_ok C [(z', after)]" by (simp add: cache_ok_def after)
  obtain cache where acc: "acc = Some (filter (\<lambda>l. \<not> lg_removed l) ls, cache)" and cache: "cache_ok C cache"
    using validate_ok [OF assms(4) seed hashes v] by blast
  let ?ls = "filter (\<lambda>l. \<not> lg_removed l) ls"
  obtain r5 w5 where c: "commit_chunk ix e a z' current (hash_hex (ch_hash C z')) ?ls cache cp w4 = (r5, w5)"
    by (cases "commit_chunk ix e a z' current (hash_hex (ch_hash C z')) ?ls cache cp w4")
  have r: "(r, w') = (case r5 of Inl x \<Rightarrow> (Inl x, w5) | Inr cp' \<Rightarrow> (Inr (Some (z' + 1, cp')), w5))"
    using run5 acc c after by (simp add: bindM_def ret_def split: sum.splits)
  then have "\<not> failed (xw_store w4) r5 w5" using assms(10) s4 by (auto simp: failed_def)
  moreover have "z' < - 1" using ok assms(8) by auto
  ultimately have "\<exists>cp'. tracked ix e C (z' + 1) cp' (xw_store w5) \<and> (r5 = Inr cp' \<or> r5 = Inl ErrRepo)"
    by (intro commit_chunk_ok [OF assms(1-4) cache _ _ assms(6) _ _ c]) (use assms(5) s4 ok in simp_all)
  then obtain cp' where cp': "tracked ix e C (z' + 1) cp' (xw_store w5)" "r5 = Inr cp' \<or> r5 = Inl ErrRepo" by blast
  then have "w' = w5 \<and> (r = Inr (Some (z' + 1, cp')) \<or> r = Inl ErrRepo)" using r by auto
  then show ?thesis using cp'(1) ok by blast
qed

lemma scan_and_commit_ok:
  assumes "quiet e" and "production ix" and "chain_ok C" and "serves e C"
    and "tracked ix e C a cp (xw_store w)"
    and "ix_start_block ix \<le> a" and "a \<le> z" and "z < - 1"
    and "scan_and_commit ix e attempt backoff a z current cp w = (r, w')"
    and "\<not> failed (xw_store w) r w'"
  shows "\<exists>cp' z'. a \<le> z' \<and> z' \<le> z \<and> tracked ix e C (z' + 1) cp' (xw_store w') \<and> (r = Inr (z' + 1, cp') \<or> r = Inl ErrRepo)"
proof -
  obtain r1 w1 where p: "scan_attempt ix e a z current cp w = (r1, w1)" by (cases "scan_attempt ix e a z current cp w")
  have run: "(case r1 of Inl x \<Rightarrow> (Inl x, w1) | Inr (Some x) \<Rightarrow> (Inr x, w1)
      | Inr None \<Rightarrow> if attempt \<ge> ix_max_range_retries ix then (Inl (ErrIncoherent a z attempt), w1)
          else scan_and_commit ix e (attempt + 1) (next_backoff backoff) a z current cp (ix_sleep backoff w1)) = (r, w')"
    using assms(9) p by (subst (asm) scan_and_commit.simps) (simp split: sum.splits option.splits)
  show ?thesis
  proof (cases "failed (xw_store w) r1 w1")
    case True
    then show ?thesis using run assms(10) by (auto simp: failed_def)
  next
    case False
    from scan_attempt_ok [OF assms(1-8) p this] obtain cp' z' where
      ok: "a \<le> z'" "z' \<le> z" "tracked ix e C (z' + 1) cp' (xw_store w1)" and r1: "r1 = Inr (Some (z' + 1, cp')) \<or> r1 = Inl ErrRepo"
      by blast
    have "w' = w1 \<and> (r = Inr (z' + 1, cp') \<or> r = Inl ErrRepo)" using r1 run by auto
    with ok show ?thesis by blast
  qed
qed

lemma le_succ: "z \<noteq> (- 1 :: u64) \<Longrightarrow> b < z + 1 \<longleftrightarrow> b \<le> z"
  by (simp add: word_less_nat_alt word_le_nat_alt unat_Suc less_Suc_eq_le)

lemma chunk_end_bounds:
  assumes "a \<le> current" and "unat current + unat (ix_max_log_range ix) < 2 ^ 64"
  shows "a \<le> chunk_end ix a current \<and> chunk_end ix a current \<le> current"
proof (cases "ix_max_log_range ix > 0 \<and> a + ix_max_log_range ix - 1 < current")
  case True
  let ?m = "ix_max_log_range ix"
  have "unat a + unat ?m < 2 ^ LENGTH(64)" using assms by (simp add: word_le_nat_alt)
  then have "unat (a + ?m) = unat a + unat ?m" using unat_add_lem by blast
  moreover have m: "0 < unat ?m" using True by (simp add: word_less_nat_alt)
  ultimately have "a + ?m \<noteq> 0" by (metis add_gr_0 less_irrefl unat_0)
  then have "unat (a + ?m - 1) = unat a + unat ?m - 1" using \<open>unat (a + ?m) = _\<close> by (simp add: unat_minus_one)
  then have "a \<le> a + ?m - 1" using m by (simp add: word_le_nat_alt)
  then show ?thesis using True by (auto simp: chunk_end_def)
next
  case False
  then show ?thesis using assms(1) by (auto simp: chunk_end_def)
qed

lemma tracked_indexed:
  assumes "tracked ix e C (n + 1) cp st" and "ix_start_block ix \<le> n" and "n < - 1"
  shows "indexed ix e C n st"
proof -
  have "n \<noteq> - 1" using assms(3) by auto
  then have "n < n + 1" by (rule word_succ_gt)
  then show ?thesis using assms(1,2) by (auto simp: tracked_def indexed_def split: option.splits)
qed

definition head_ok :: "indexer \<Rightarrow> u64 \<Rightarrow> bool" where
  "head_ok ix h \<longleftrightarrow> ix_start_block ix \<le> h \<and> h < - 1 \<and> unat h + unat (ix_max_log_range ix) < 2 ^ 64"

lemma poll_loop_ok:
  assumes "quiet e" and "production ix" and "chain_ok C" and "serves e C" and "head_ok ix current"
    and "tracked ix e C a cp (xw_store w)" and "ix_start_block ix \<le> a" and "a \<le> current + 1"
    and "Suc (unat current) \<le> n + unat a"
    and "poll_loop n ix e a current cp w = (r, w')"
  shows "settled ix e C (xw_store w') \<and> (r = Inr () \<longrightarrow> indexed ix e C current (xw_store w')) \<and>
    (\<forall>x. r = Inl x \<longrightarrow> plain_error x)"
  using assms(6-10)
proof (induction n arbitrary: a cp w)
  case 0
  have c: "current \<noteq> - 1" "ix_start_block ix \<le> current" "current < - 1" using assms(5) by (auto simp: head_ok_def)
  have a: "a = current + 1" using 0 by (intro antisym) (simp_all add: word_le_nat_alt unat_Suc [OF c(1)])
  then have "\<not> a \<le> current" using word_succ_gt [OF c(1)] by auto
  then show ?case using 0 a tracked_settled tracked_indexed [OF _ c(2,3)] by (auto simp: ret_def)
next
  case (Suc n)
  have c: "current \<noteq> - 1" "ix_start_block ix \<le> current" "current < - 1"
    "unat current + unat (ix_max_log_range ix) < 2 ^ 64" using assms(5) by (auto simp: head_ok_def)
  show ?case
  proof (cases "a \<le> current")
    case False
    then have "a = current + 1" using Suc.prems(3) le_succ [OF c(1)] by (metis order.order_iff_strict)
    then show ?thesis using False Suc.prems tracked_settled tracked_indexed [OF _ c(2,3)] by (auto simp: ret_def)
  next
    case True
    let ?z = "chunk_end ix a current"
    note z = chunk_end_bounds [OF True c(4)]
    have zmax: "?z < - 1" using z c(3) by auto
    obtain r1 w1 where p: "scan_and_commit ix e 1 initial_range_backoff a ?z current cp w = (r1, w1)"
      by (cases "scan_and_commit ix e 1 initial_range_backoff a ?z current cp w")
    have run: "(case r1 of Inl x \<Rightarrow> (Inl x, w1) | Inr (next, cp') \<Rightarrow> poll_loop n ix e next current cp' w1) = (r, w')"
      using Suc.prems(5) True p by (simp add: bindM_def split: sum.splits prod.splits)
    show ?thesis
    proof (cases "failed (xw_store w) r1 w1")
      case True
      then show ?thesis using run tracked_settled [OF Suc.prems(1)] by (auto simp: failed_def)
    next
      case False
      obtain cp' z' where z': "a \<le> z'" "z' \<le> ?z" and t: "tracked ix e C (z' + 1) cp' (xw_store w1)"
        and r1: "r1 = Inr (z' + 1, cp') \<or> r1 = Inl ErrRepo"
        using scan_and_commit_ok [OF assms(1-4) Suc.prems(1,2) conjunct1 [OF z] zmax p False] by blast
      have max: "z' \<noteq> - 1" using z' zmax by auto
      show ?thesis
      proof (cases "r1 = Inl ErrRepo")
        case True
        then show ?thesis using run tracked_settled [OF t] by auto
      next
        case False
        then have go: "poll_loop n ix e (z' + 1) current cp' w1 = (r, w')" using r1 run by simp
        have "z' \<le> current" using z' z by auto
        show ?thesis
        proof (rule Suc.IH [OF t _ _ _ go])
          show "ix_start_block ix \<le> z' + 1" using Suc.prems(2) z'(1) word_succ_gt [OF max] by auto
          show "z' + 1 \<le> current + 1" using \<open>z' \<le> current\<close> by (simp add: word_le_nat_alt unat_Suc [OF max] unat_Suc [OF c(1)])
          show "Suc (unat current) \<le> n + unat (z' + 1)"
            using Suc.prems(4) z'(1) by (simp add: unat_Suc [OF max] word_le_nat_alt)
        qed
      qed
    qed
  qed
qed

lemma poll_scan_ok:
  assumes "quiet e" and "production ix" and "chain_ok C" and "serves e C" and "head_ok ix current"
    and "tracked ix e C (if existed then ck_last_block cp + 1 else ix_start_block ix) cp (xw_store w)"
    and "existed \<longrightarrow> ix_start_block ix \<le> ck_last_block cp \<and> ck_last_block cp \<le> current"
    and "poll_scan ix e current cp existed w = (r, w')"
  shows "settled ix e C (xw_store w') \<and> (r = Inr () \<longrightarrow> indexed ix e C current (xw_store w')) \<and>
    (\<forall>x. r = Inl x \<longrightarrow> plain_error x)"
proof -
  have c: "ix_start_block ix \<le> current" "current < - 1" "current \<noteq> - 1" using assms(5) by (auto simp: head_ok_def)
  show ?thesis
  proof (cases "existed \<and> current \<le> ck_last_block cp")
    case True
    then have "ck_last_block cp = current" using assms(7) by auto
    then show ?thesis using True assms(6,8) tracked_settled tracked_indexed [OF _ c(1,2)] by (auto simp: poll_scan_def ret_def)
  next
    case False
    let ?a = "if existed then ck_last_block cp + 1 else ix_start_block ix"
    have a: "ix_start_block ix \<le> ?a \<and> ?a \<le> current"
    proof (cases existed)
      case True
      then have "ck_last_block cp < current" using False by auto
      moreover have "ck_last_block cp \<noteq> - 1" using \<open>ck_last_block cp < current\<close> c by auto
      ultimately show ?thesis using assms(7) True word_succ_gt [of "ck_last_block cp"]
        by (auto simp: word_less_nat_alt word_le_nat_alt unat_Suc)
    next
      case False
      then show ?thesis using c by simp
    qed
    then have "\<not> ?a > current" by (simp only: not_less)
    then have "(if ?a > current then current else ?a) = ?a" by (rule if_not_P)
    then have run: "poll_loop (Suc (unat current - unat ?a)) ix e ?a current cp w = (r, w')"
      using assms(8) False by (simp only: poll_scan_def Let_def if_False)
    have fits: "unat ?a \<le> unat current" using conjunct2 [OF a] unfolding word_le_nat_alt .
    show ?thesis
    proof (rule poll_loop_ok [OF assms(1-6) _ _ _ run])
      show "ix_start_block ix \<le> ?a" by (rule conjunct1 [OF a])
      show "?a \<le> current + 1" using conjunct2 [OF a] word_succ_gt [OF c(3)] by (meson le_less_trans less_imp_le)
      show "Suc (unat current) \<le> Suc (unat current - unat ?a) + unat ?a" using fits by linarith
    qed
  qed
qed

section \<open>Reorg recovery on a chain\<close>

lemma search_ok:
  assumes "quiet e" and "serves e D" and "search_ancestor ix e bs w = (Inr (Some (b, h)), w')"
  shows "b \<in> set bs \<and> h = hash_hex (ch_hash D b) \<and> bh_get (ix_chain_id ix) b (xs_hashes (xw_store w)) = Some h"
  using assms(3)
proof (induction bs arbitrary: w)
  case Nil
  then show ?case by (simp add: ret_def)
next
  case (Cons k bs)
  have nf: "\<not> failed (xw_store w) (Inr (Some (b, h)) :: index_error + (u64 \<times> string) option) w'" by (simp add: failed_def)
  obtain got w1 where g: "ix_read e (\<lambda>s. bh_get (ix_chain_id ix) k (xs_hashes s)) w = (Inr got, w1)" and s1: "xw_store w1 = xw_store w"
    and run1: "(case got of None \<Rightarrow> search_ancestor ix e bs
      | Some kept \<Rightarrow> bindM (header_hash e k) (\<lambda>h.
         if hash_hex h = kept then ret (Some (k, kept)) else search_ancestor ix e bs)) w1 = (Inr (Some (b, h)), w')"
    using bind_read [OF Cons.prems [unfolded search_ancestor.simps] reads_read [OF assms(1)] refl nf] by blast
  have got: "got = bh_get (ix_chain_id ix) k (xs_hashes (xw_store w))" by (rule ix_read_InrD [OF assms(1) g])
  show ?case
  proof (cases got)
    case None
    then show ?thesis using Cons.IH [of w1] run1 s1 by simp
  next
    case (Some kept)
    then have "bindM (header_hash e k) (\<lambda>h.
         if hash_hex h = kept then ret (Some (k, kept)) else search_ancestor ix e bs) w1 = (Inr (Some (b, h)), w')"
      using run1 by simp
    from bind_read [OF this reads_header [OF assms(1)] s1 nf] obtain kh w2 where
      q: "header_hash e k w1 = (Inr kh, w2)" and s2: "xw_store w2 = xw_store w"
      and run2: "(if hash_hex kh = kept then ret (Some (k, kept)) else search_ancestor ix e bs) w2 = (Inr (Some (b, h)), w')"
      by blast
    show ?thesis
    proof (cases "hash_hex kh = kept")
      case True
      then show ?thesis using run2 header_InrD [OF assms(2) q] got Some by (auto simp: ret_def)
    next
      case False
      then show ?thesis using Cons.IH [of w2] run2 s2 by simp
    qed
  qed
qed

text \<open>Two chains that share the start block, and a recovery on a store that agrees with the old one.\<close>

definition fork :: "indexer \<Rightarrow> chain \<Rightarrow> chain \<Rightarrow> bool" where
  "fork ix C D \<longleftrightarrow> chain_ok C \<and> chain_ok D \<and> linked C D \<and> ch_hash C (ix_start_block ix) = ch_hash D (ix_start_block ix)"

lemma fork_agree: "fork ix C D \<Longrightarrow> ch_hash C b = ch_hash D b \<Longrightarrow> k \<le> b \<Longrightarrow> ch_hash C k = ch_hash D k \<and> ch_logs C k = ch_logs D k"
  unfolding fork_def linked_def by blast

lemma ancestor_ok:
  assumes "quiet e" and "production ix" and "fork ix C D" and "serves e D"
    and "consistent ix e C (n + 1) (xw_store w)" and "checkpoint_at ix C n cp"
    and "ix_start_block ix \<le> b" and "b \<le> n"
    and "find_common_ancestor ix e cp b w = (r, w')" and "\<not> failed (xw_store w) r w'"
  shows "xw_store w' = xw_store w \<and> (r = Inl ErrReconciliationRequired \<or>
    (\<exists>a. r = Inr (a, hash_hex (ch_hash D a)) \<and> ix_start_block ix \<le> a \<and> a \<le> b \<and> ch_hash C a = ch_hash D a))"
proof -
  have n: "n \<noteq> - 1" "n < - 1" using assms(6) by (auto simp: checkpoint_at_def)
  have start: "0 < ix_start_block ix" using assms(2) by (simp add: production_def)
  let ?at = "if policy_floor ix cp > b then b else policy_floor ix cp"
  have "\<not> \<not> ix_hashes ix" using assms(2) by (simp add: production_def)
  note run0 = assms(9) [unfolded find_common_ancestor_def if_not_P [OF this]]
  obtain found w1 where f: "search_ancestor ix e (candidates (policy_floor ix cp) b) w = (Inr found, w1)" and s1: "xw_store w1 = xw_store w"
    and run1: "(case found of Some r \<Rightarrow> ret r
        | None \<Rightarrow>
            if \<not> ix_start_block ix \<ge> depth_floor ix cp then raise ErrReconciliationRequired
            else let at = ?at in if at = 0 then ret (0, [])
                    else bindM (header_hash e at) (\<lambda>h. ret (at, hash_hex h))) w1 = (r, w')"
    using bind_read [OF run0 reads_search [OF assms(1)] refl assms(10)] by blast
  show ?thesis
  proof (cases found)
    case (Some bh)
    obtain k h where bh: "bh = (k, h)" by (cases bh)
    note ok = search_ok [OF assms(1,4) f [unfolded Some bh]]
    have "policy_floor ix cp \<noteq> - 1 \<or> candidates (policy_floor ix cp) b = []"
      by (metis candidates_def word_order.extremum not_less)
    then have k: "policy_floor ix cp + 1 \<le> k" "k \<le> b" "policy_floor ix cp \<noteq> - 1"
      using ok by (auto simp: candidates_def set_blocks_between split: if_splits)
    have "ix_start_block ix \<le> policy_floor ix cp" by (auto simp: policy_floor_def)
    then have "ix_start_block ix \<le> k" using k word_succ_gt [OF k(3)] by auto
    moreover have "k \<le> n" using k assms(8) by auto
    then have "h = hash_hex (ch_hash C k)" using ok assms(5) le_succ [OF n(1)] unfolding consistent_def by blast
    ultimately show ?thesis using run1 Some bh ok k s1 by (auto simp: ret_def)
  next
    case None
    show ?thesis
    proof (cases "ix_start_block ix \<ge> depth_floor ix cp")
      case False
      then show ?thesis using run1 None s1 by (simp add: raise_def)
    next
      case True
      have at: "?at = ix_start_block ix" using True assms(7) by (auto simp: policy_floor_def)
      have run2: "bindM (header_hash e (ix_start_block ix)) (\<lambda>h. ret (ix_start_block ix, hash_hex h)) w1 = (r, w')"
        using run1 None True word_gt_0 [THEN iffD1, OF start] unfolding at by (simp add: Let_def)
      from bind_read [OF this reads_header [OF assms(1)] s1 assms(10)] obtain h w2 where
        q: "header_hash e (ix_start_block ix) w1 = (Inr h, w2)" "xw_store w2 = xw_store w"
        and "ret (ix_start_block ix, hash_hex h) w2 = (r, w')" by blast
      then show ?thesis using header_InrD [OF assms(4) q(1)] assms(3,7) by (auto simp: ret_def fork_def)
    qed
  qed
qed

definition paused :: "indexer \<Rightarrow> index_store \<Rightarrow> index_store \<Rightarrow> bool" where
  "paused ix st st' \<longleftrightarrow> xs_events st' = xs_events st \<and> xs_hashes st' = xs_hashes st \<and>
     (\<exists>cp. stored_checkpoint ix st' = Some cp \<and> ck_reconciliation_required cp)"

text \<open>Rewinding the store from \<open>C\<close> to the block \<open>a\<close> the chains share.\<close>

lemma rewind_tracked:
  assumes "fork ix C D" and "consistent ix e C (n + 1) st" and "checkpoint_at ix C n cp"
    and "stored_checkpoint ix st = Some cp" and "ix_start_block ix \<le> a" and "a \<le> n" and "ch_hash C a = ch_hash D a"
    and r: "rw = \<lparr>cr_chain_id = ix_chain_id ix, cr_addresses = map (xe_addr_hex e) (ix_addresses ix), cr_delete_from = a + 1,
      cr_checkpoint = new_checkpoint ix a (hash_hex (ch_hash D a)) now, cr_expected_version = ck_version cp\<rparr>"
  shows "\<exists>st'. rewind_chunk_store rw st = (True, st') \<and>
    tracked ix e D (a + 1) ((new_checkpoint ix a (hash_hex (ch_hash D a)) now)\<lparr>ck_version := ck_version cp + 1\<rparr>) st'"
proof -
  let ?cp = "(new_checkpoint ix a (hash_hex (ch_hash D a)) now)\<lparr>ck_version := ck_version cp + 1\<rparr>"
  let ?st = "st\<lparr>xs_events := delete_events (ix_chain_id ix) (map (xe_addr_hex e) (ix_addresses ix)) (a + 1) (xs_events st),
      xs_checkpoints := ck_set ?cp (xs_checkpoints st)\<rparr>"
  have "current_version (cr_checkpoint rw) st = ck_version cp"
    using assms(4) by (simp add: r current_version_def new_checkpoint_def stored_checkpoint_def)
  then have run: "rewind_chunk_store rw st = (True, ?st)" by (simp add: rewind_chunk_store_def r)
  have n: "n \<noteq> - 1" "n < - 1" using assms(3) by (auto simp: checkpoint_at_def)
  then have a: "a \<noteq> - 1" "a < - 1" using assms(6) by auto
  have "consistent ix e D (a + 1) ?st"
  proof (rule rewind_consistent [OF assms(2)])
    show "chain_ok C" using assms(1) by (simp add: fork_def)
    show "a + 1 \<le> n + 1" using assms(6) by (simp add: word_le_nat_alt unat_Suc [OF n(1)] unat_Suc [OF a(1)])
    show "ch_hash C b = ch_hash D b \<and> ch_logs C b = ch_logs D b" if "b < a + 1" for b
      using fork_agree [OF assms(1,7)] that le_succ [OF a(1)] by blast
  qed
  moreover have "stored_checkpoint ix ?st = Some ?cp"
    using ck_get_set [of ?cp "xs_checkpoints st"] by (simp add: stored_checkpoint_def new_checkpoint_def)
  moreover have "checkpoint_at ix D a ?cp" using assms(5) a by (simp add: checkpoint_at_def new_checkpoint_def)
  ultimately have "tracked ix e D (a + 1) ?cp ?st" by (auto simp: tracked_def)
  with run show ?thesis by blast
qed

lemma rollback_ok:
  assumes "quiet e" and "production ix" and "fork ix C D" and "serves e D"
    and "consistent ix e C (n + 1) (xw_store w)" and "checkpoint_at ix C n cp" and "stored_checkpoint ix (xw_store w) = Some cp"
    and "ix_start_block ix \<le> b" and "b \<le> n"
    and "rollback ix e cp b w = (r, w')"
  shows "xw_store w' = xw_store w \<and> (\<exists>x. r = Inl x \<and> (plain_error x \<or> x = ErrReconciliationRequired)) \<or>
    paused ix (xw_store w) (xw_store w') \<and> (r = Inl ErrReconciliationRequired \<or> r = Inl ErrRepo) \<or>
    (\<exists>cp'. tracked ix e D (ck_last_block cp' + 1) cp' (xw_store w') \<and> ix_start_block ix \<le> ck_last_block cp' \<and>
      ck_last_block cp' \<le> b \<and> (r = Inr cp' \<or> r = Inl ErrRepo))"
proof -
  obtain r1 w1 where f: "find_common_ancestor ix e cp b w = (r1, w1)" by (cases "find_common_ancestor ix e cp b w")
  let ?flag = "\<lambda>now s. ((), s\<lparr>xs_checkpoints := ck_set (cp\<lparr>ck_reconciliation_required := True, ck_updated_at := now\<rparr>) (xs_checkpoints s)\<rparr>)"
  have run: "(case r1 of
       Inl x \<Rightarrow>
         bindM (if x = ErrReconciliationRequired then bindM (ix_now e) (\<lambda>now. ix_write e (?flag now)) else ret ()) (\<lambda>_. raise x)
     | Inr (a, h) \<Rightarrow>
         bindM (ix_now e) (\<lambda>now. rewind ix e (Some cp) (new_checkpoint ix a h now) (a + 1))) w1 = (r, w')"
    using assms(10) f by (simp add: rollback_def tryM_def bindM_def split: sum.splits)
  show ?thesis
  proof (cases "failed (xw_store w) r1 w1")
    case True
    then obtain x where "r1 = Inl x" "plain_error x" "xw_store w1 = xw_store w" by (auto simp: failed_def)
    then show ?thesis using run by (auto simp: bindM_def ret_def raise_def plain_error_def)
  next
    case False
    note anc = ancestor_ok [OF assms(1-6,8,9) f False]
    show ?thesis
    proof (cases "r1 = Inl ErrReconciliationRequired")
      case True
      let ?now = "xe_now e (xw_tick w1)"
      obtain r2 w2 where wr: "ix_write e (?flag ?now) w1 = (r2, w2)" by (cases "ix_write e (?flag ?now) w1")
      have r: "w' = w2 \<and> r = (case r2 of Inl x \<Rightarrow> Inl x | Inr _ \<Rightarrow> Inl ErrReconciliationRequired)"
        using run True wr by (auto simp: bindM_def ix_now_def getM_def raise_def split: sum.splits)
      have p: "paused ix (xw_store w) (snd (?flag ?now (xw_store w)))"
        using assms(6) ck_get_set [of "cp\<lparr>ck_reconciliation_required := True, ck_updated_at := ?now\<rparr>" "xs_checkpoints (xw_store w)"]
        by (simp add: paused_def stored_checkpoint_def checkpoint_at_def)
      show ?thesis using ix_write_cases [OF assms(1) wr] r p anc by auto
    next
      case False
      then obtain a where r1: "r1 = Inr (a, hash_hex (ch_hash D a))" and a: "ix_start_block ix \<le> a" "a \<le> b" "ch_hash C a = ch_hash D a"
        and s1: "xw_store w1 = xw_store w" using anc by blast
      let ?now = "xe_now e (xw_tick w1)"
      let ?new = "new_checkpoint ix a (hash_hex (ch_hash D a)) ?now"
      let ?rw = "\<lparr>cr_chain_id = ix_chain_id ix, cr_addresses = map (xe_addr_hex e) (ix_addresses ix), cr_delete_from = a + 1,
        cr_checkpoint = ?new, cr_expected_version = ck_version cp\<rparr>"
      have "a \<le> n" using a(2) assms(9) by auto
      then obtain st' where st': "rewind_chunk_store ?rw (xw_store w) = (True, st')"
        and t: "tracked ix e D (a + 1) (?new\<lparr>ck_version := ck_version cp + 1\<rparr>) st'"
        using rewind_tracked [OF assms(3,5-7) a(1) _ a(3) refl] by blast
      obtain r2 w2 where wr: "ix_write e (rewind_chunk_store ?rw) w1 = (r2, w2)" by (cases "ix_write e (rewind_chunk_store ?rw) w1")
      have r: "(r, w') = (case r2 of Inl x \<Rightarrow> (Inl x, w2)
          | Inr c \<Rightarrow> (if \<not> c then raise ErrVersionConflict else ret (?new\<lparr>ck_version := ck_version cp + 1\<rparr>)) w2)"
        using run r1 wr assms(2) by (simp add: bindM_def ix_now_def getM_def rewind_def Let_def production_def split: sum.splits)
      let ?cp = "?new\<lparr>ck_version := ck_version cp + 1\<rparr>"
      have last: "ck_last_block ?cp = a" by (simp add: new_checkpoint_def)
      have "(xw_store w' = xw_store w \<and> r = Inl ErrRepo) \<or> (xw_store w' = st' \<and> (r = Inr ?cp \<or> r = Inl ErrRepo))"
        using ix_write_cases [OF assms(1) wr] r st' s1 by (auto simp: ret_def)
      then show ?thesis
      proof
        assume "xw_store w' = xw_store w \<and> r = Inl ErrRepo"
        then show ?thesis by simp
      next
        assume "xw_store w' = st' \<and> (r = Inr ?cp \<or> r = Inl ErrRepo)"
        then have "tracked ix e D (ck_last_block ?cp + 1) ?cp (xw_store w') \<and> ix_start_block ix \<le> ck_last_block ?cp \<and>
            ck_last_block ?cp \<le> b \<and> (r = Inr ?cp \<or> r = Inl ErrRepo)" using t a last by simp
        then show ?thesis by blast
      qed
    qed
  qed
qed

section \<open>The poll\<close>

lemma check_reorg_ok:
  assumes "quiet e" and "production ix" and "fork ix C D" and "serves e D" and "head_ok ix current"
    and "consistent ix e C (n + 1) (xw_store w)" and "checkpoint_at ix C n cp" and "stored_checkpoint ix (xw_store w) = Some cp"
    and "check_reorg ix e cp True current w = (r, w')"
  shows "xw_store w' = xw_store w \<and> (\<exists>x. r = Inl x \<and> (plain_error x \<or> x = ErrReconciliationRequired)) \<or>
    paused ix (xw_store w) (xw_store w') \<and> (r = Inl ErrReconciliationRequired \<or> r = Inl ErrRepo) \<or>
    (\<exists>cp'. tracked ix e D (ck_last_block cp' + 1) cp' (xw_store w') \<and> ix_start_block ix \<le> ck_last_block cp' \<and>
      ck_last_block cp' \<le> current \<and> (r = Inr (cp', True) \<or> r = Inl ErrRepo))"
proof -
  have cp: "ck_last_block cp = n" "ck_last_block_hash cp = hash_hex (ch_hash C n)" "ix_start_block ix \<le> n" "n < - 1"
    using assms(7) by (simp_all add: checkpoint_at_def)
  have "0 < n" using cp(3) assms(2) by (auto simp: production_def)
  then have compare: "True \<and> 0 < ck_last_block cp \<and> ck_last_block_hash cp \<noteq> []" using cp by (simp add: hash_hex_def)
  have recover: ?thesis if "ix_start_block ix \<le> b" "b \<le> n" "b \<le> current"
    and run: "bindM (rollback ix e cp b) (\<lambda>cp. ret (cp, True)) v = (r, w')" and v: "xw_store v = xw_store w" for b v
  proof -
    obtain r1 w1 where rb: "rollback ix e cp b v = (r1, w1)" by (cases "rollback ix e cp b v")
    have r: "w' = w1 \<and> r = (case r1 of Inl x \<Rightarrow> Inl x | Inr cp \<Rightarrow> Inr (cp, True))"
      using run rb by (auto simp: bindM_def ret_def split: sum.splits)
    note ok = rollback_ok [OF assms(1-4) _ assms(7) _ that(1,2) rb, unfolded v, OF assms(6,8)]
    from ok consider (stuck) x where "xw_store w1 = xw_store w" "r1 = Inl x" "plain_error x \<or> x = ErrReconciliationRequired"
      | (pause) "paused ix (xw_store w) (xw_store w1)" "r1 = Inl ErrReconciliationRequired \<or> r1 = Inl ErrRepo"
      | (rewound) cp' where "tracked ix e D (ck_last_block cp' + 1) cp' (xw_store w1)" "ix_start_block ix \<le> ck_last_block cp'"
          "ck_last_block cp' \<le> b" "r1 = Inr cp' \<or> r1 = Inl ErrRepo" by blast
    then show ?thesis
    proof cases
      case stuck
      then show ?thesis using r by simp
    next
      case pause
      then show ?thesis using r by auto
    next
      case rewound
      have "ck_last_block cp' \<le> current" using rewound(3) that(3) by auto
      moreover have "r = Inr (cp', True) \<or> r = Inl ErrRepo" using r rewound(4) by auto
      ultimately show ?thesis using rewound(1,2) r by blast
    qed
  qed
  have head: "ix_start_block ix \<le> current" using assms(5) by (simp add: head_ok_def)
  note run = assms(9) [unfolded check_reorg_def if_P [OF compare]]
  show ?thesis
  proof (cases "current < ck_last_block cp")
    case True
    then show ?thesis using recover [OF head _ order_refl _ refl] run cp by auto
  next
    case False
    then have "n \<le> current" using cp by simp
    show ?thesis
    proof (cases "failed (xw_store w) r w'")
      case True
      then show ?thesis by (auto simp: failed_def)
    next
      case nf: False
      obtain h w1 where q: "header_hash e (ck_last_block cp) w = (Inr h, w1)" and s1: "xw_store w1 = xw_store w"
        and run1: "(if hash_hex h \<noteq> ck_last_block_hash cp
          then bindM (rollback ix e cp (ck_last_block cp)) (\<lambda>cp. ret (cp, True)) else ret (cp, True)) w1 = (r, w')"
        using bind_read [OF run [unfolded if_not_P [OF False]] reads_header [OF assms(1)] refl nf] by blast
      have h: "h = ch_hash D n" using header_InrD [OF assms(4) q] cp by simp
      show ?thesis
      proof (cases "ch_hash C n = ch_hash D n")
        case False
        then have "hash_hex h \<noteq> ck_last_block_hash cp" using h cp by simp
        then show ?thesis using recover [OF cp(3) order_refl \<open>n \<le> current\<close> _ s1] run1 cp by simp
      next
        case True
        then have r: "r = Inr (cp, True)" "w' = w1" using run1 h cp by (simp_all add: ret_def)
        have n: "n \<noteq> - 1" using cp by auto
        have "consistent ix e D (n + 1) (xw_store w)"
          using assms(6) consistent_agree [of "n + 1" C D] fork_agree [OF assms(3) True] le_succ [OF n] by blast
        moreover have "checkpoint_at ix D n cp" using assms(7) True by (simp add: checkpoint_at_def)
        ultimately have "tracked ix e D (ck_last_block cp + 1) cp (xw_store w)"
          using assms(8) cp by (auto simp: tracked_def)
        then show ?thesis using r s1 cp \<open>n \<le> current\<close> by auto
      qed
    qed
  qed
qed

lemma check_reorg_fresh: "check_reorg ix e cp False current = ret (cp, False)"
  by (simp add: check_reorg_def)

definition poll_outcome :: "indexer \<Rightarrow> index_env \<Rightarrow> chain \<Rightarrow> index_store \<Rightarrow> index_error + unit \<Rightarrow> index_world \<Rightarrow> bool" where
  "poll_outcome ix e D s r w' \<longleftrightarrow>
     (xw_store w' = s \<or> paused ix s (xw_store w') \<or> settled ix e D (xw_store w')) \<and>
     (r = Inr () \<longrightarrow> (\<exists>t h. xe_head e t = Some h \<and> indexed ix e D h (xw_store w'))) \<and>
     r \<noteq> Inl ErrFuel \<and> r \<noteq> Inl ErrVersionConflict"

lemma poll_outcome_failed: "failed s r w \<Longrightarrow> poll_outcome ix e D s r w"
  by (auto simp: failed_def poll_outcome_def plain_error_def)

lemma poll_body_outcome:
  assumes "production ix" and "quiet e" and "fork ix C D" and "serves e D"
    and heads: "\<forall>t h. xe_head e t = Some h \<longrightarrow> head_ok ix h" and "settled ix e C (xw_store w)"
    and "poll_body ix e w = (r, w')"
  shows "poll_outcome ix e D (xw_store w) r w'"
proof (cases "failed (xw_store w) r w'")
  case True
  then show ?thesis by (rule poll_outcome_failed)
next
  case nf: False
  let ?found = "stored_checkpoint ix (xw_store w)"
  let ?rest = "\<lambda>(cp, existed). if existed \<and> ck_reconciliation_required cp then raise ErrReconciliationRequired
     else bindM (source_call e (xe_head e)) (\<lambda>current.
       bindM (check_reorg ix e cp existed current) (\<lambda>(cp, existed). poll_scan ix e current cp existed))"
  let ?start = "new_checkpoint ix (ix_start_block ix) [] 0"
  have load_reads: "reads (load_checkpoint ix e)" unfolding load_checkpoint_def by (intro read_intros assms(2))
  obtain cp existed w1 where l: "load_checkpoint ix e w = (Inr (cp, existed), w1)" and s1: "xw_store w1 = xw_store w"
    and run1: "?rest (cp, existed) w1 = (r, w')"
    using bind_read [OF assms(7) [unfolded poll_body_def] load_reads refl nf] by auto
  have ce: "(cp, existed) = (case ?found of Some cp \<Rightarrow> (cp, True) | None \<Rightarrow> (?start, False))"
    using l unfolding load_checkpoint_def stored_checkpoint_def
    by (auto elim!: bindM_InrE dest!: ret_InrD ix_read_InrD [OF assms(2)])
  have unflagged: "\<not> (existed \<and> ck_reconciliation_required cp)"
    using assms(6) ce by (auto simp: settled_def fresh_index_def indexed_def checkpoint_at_def)
  have run2: "bindM (source_call e (xe_head e)) (\<lambda>current.
       bindM (check_reorg ix e cp existed current) (\<lambda>(cp, existed). poll_scan ix e current cp existed)) w1 = (r, w')"
    using run1 unfolding prod.case if_not_P [OF unflagged] .
  obtain current w2 where h: "source_call e (xe_head e) w1 = (Inr current, w2)" and s2: "xw_store w2 = xw_store w"
    and run3: "bindM (check_reorg ix e cp existed current) (\<lambda>(cp, existed). poll_scan ix e current cp existed) w2 = (r, w')"
    using bind_read [OF run2 reads_source [OF assms(2)] s1 nf] by blast
  have head: "xe_head e (xw_tick w1) = Some current" using h by (auto simp: source_call_def split: option.splits)
  then have ok: "head_ok ix current" using heads by blast
  have D: "chain_ok D" using assms(3) by (simp add: fork_def)
  have scan: "poll_outcome ix e D (xw_store w) r w'"
    if "tracked ix e D (if ex then ck_last_block c + 1 else ix_start_block ix) c (xw_store v)"
      "ex \<longrightarrow> ix_start_block ix \<le> ck_last_block c \<and> ck_last_block c \<le> current"
      "poll_scan ix e current c ex v = (r, w')" for ex c v
    using poll_scan_ok [OF assms(2,1) D assms(4) ok that] head by (auto simp: poll_outcome_def plain_error_def)
  show ?thesis
  proof (cases ?found)
    case None
    then have fresh: "cp = ?start" "\<not> existed" using ce by simp_all
    have "ch_hash C (ix_start_block ix) = ch_hash D (ix_start_block ix)" using assms(3) by (simp add: fork_def)
    then have "consistent ix e D (ix_start_block ix) (xw_store w)"
      using assms(6) None consistent_agree [of "ix_start_block ix" C D] fork_agree [OF assms(3)]
      by (fastforce simp: settled_def fresh_index_def indexed_def)
    then have "tracked ix e D (ix_start_block ix) cp (xw_store w)" using None fresh by (simp add: tracked_def new_checkpoint_def)
    moreover have "poll_scan ix e current cp False w2 = (r, w')"
      using run3 fresh by (simp add: check_reorg_fresh bindM_def ret_def)
    ultimately show ?thesis using scan [of False cp w2] s2 by simp
  next
    case (Some c)
    then have c: "cp = c" "existed" using ce by simp_all
    obtain n where n: "consistent ix e C (n + 1) (xw_store w)" "checkpoint_at ix C n cp"
      using assms(6) Some c by (auto simp: settled_def fresh_index_def indexed_def)
    obtain r3 w3 where k: "check_reorg ix e cp True current w2 = (r3, w3)" by (cases "check_reorg ix e cp True current w2")
    have r: "(case r3 of Inl x \<Rightarrow> (Inl x, w3) | Inr (cp, existed) \<Rightarrow> poll_scan ix e current cp existed w3) = (r, w')"
      using run3 c k by (simp add: bindM_def split: sum.splits prod.splits)
    note reorg = check_reorg_ok [OF assms(2,1,3,4) ok _ n(2) _ k, unfolded s2, OF n(1) Some [folded c(1)]]
    from reorg consider (stuck) x where "xw_store w3 = xw_store w" "r3 = Inl x" "plain_error x \<or> x = ErrReconciliationRequired"
      | (pause) "paused ix (xw_store w) (xw_store w3)" "r3 = Inl ErrReconciliationRequired \<or> r3 = Inl ErrRepo"
      | (go) cp' where "tracked ix e D (ck_last_block cp' + 1) cp' (xw_store w3)" "ix_start_block ix \<le> ck_last_block cp'"
          "ck_last_block cp' \<le> current" "r3 = Inr (cp', True) \<or> r3 = Inl ErrRepo" by blast
    then show ?thesis
    proof cases
      case stuck
      then show ?thesis using r by (auto simp: poll_outcome_def plain_error_def)
    next
      case pause
      then show ?thesis using r by (auto simp: poll_outcome_def)
    next
      case go
      show ?thesis
      proof (cases "r3 = Inl ErrRepo")
        case True
        then show ?thesis using r tracked_settled [OF go(1)] by (auto simp: poll_outcome_def)
      next
        case False
        then have "poll_scan ix e current cp' True w3 = (r, w')" using r go(4) by simp
        then show ?thesis using scan [of True cp' w3] go by simp
      qed
    qed
  qed
qed

text \<open>
  C1: polling follows the chain. Take the production configuration (hash history and atomic
  chunks), an index that is up to date with a chain C or empty, and a node on a chain D that
  shares C's start block and may fail at any call, while no other writer acts. Whatever calls to
  the node or the repositories fail, before or after they took effect, the poll ends with the
  store as it was, or with unchanged events and the checkpoint flagged for reconciliation, or with
  exactly the decodable events of D from the start block to the new checkpoint and D's block
  hashes; never with events of both chains. A poll that reports success has reached the node's
  head. Its loop needs no more rounds than there are blocks.
\<close>

theorem poll_follows_chain:
  assumes "production ix" and "quiet e" and "fork ix C D" and "serves e D"
    and "\<forall>t h. xe_head e t = Some h \<longrightarrow> head_ok ix h" and "settled ix e C (xw_store w)"
    and "poll ix e w = (r, w')"
  shows "(xw_store w' = xw_store w \<or> paused ix (xw_store w) (xw_store w') \<or> settled ix e D (xw_store w')) \<and>
    (r = Inr () \<longrightarrow> (\<exists>t h. xe_head e t = Some h \<and> indexed ix e D h (xw_store w'))) \<and> r \<noteq> Inl ErrFuel"
proof -
  obtain r1 w1 where b: "poll_body ix e w = (r1, w1)" by (cases "poll_body ix e w")
  note out = poll_body_outcome [OF assms(1-6) b]
  then have "r1 \<noteq> Inl ErrVersionConflict" by (simp add: poll_outcome_def)
  then have "r = r1 \<and> w' = w1" using assms(7) b by (auto simp: poll_def split: sum.splits index_error.splits)
  then show ?thesis using out by (simp add: poll_outcome_def)
qed

text \<open>An index two blocks into a chain, and a node on a fork from block 1 that mined the transaction a block later.\<close>

definition demo_log :: "u64 \<Rightarrow> u256 \<Rightarrow> source_log" where
  "demo_log b h = \<lparr>lg_address = 5, lg_topics = [9], lg_data = [], lg_block_number = b, lg_tx_hash = 7,
     lg_block_hash = h, lg_index = 0, lg_removed = False\<rparr>"

definition old_chain :: chain where
  "old_chain = \<lparr>ch_hash = (\<lambda>b. word_of_nat (unat b)), ch_logs = (\<lambda>b. if b = 2 then [demo_log 2 2] else [])\<rparr>"

definition new_chain :: chain where
  "new_chain = \<lparr>ch_hash = (\<lambda>b. word_of_nat (if b \<le> 1 then unat b else unat b + 2 ^ 64)),
     ch_logs = (\<lambda>b. if b = 3 then [demo_log 3 (word_of_nat (3 + 2 ^ 64))] else [])\<rparr>"

definition demo_indexer :: indexer where
  "demo_indexer = new_indexer 1 [5] 1 None [WithBlockHashRepository, WithChunkCommitter, WithDeadLetterQueue]"

definition demo_node :: index_env where
  "demo_node = \<lparr>xe_head = (\<lambda>t. Some 3), xe_header = (\<lambda>t b. Some (ch_hash new_chain b)),
     xe_logs = (\<lambda>t a z addrs. Inr (if 5 \<in> set addrs \<and> a \<le> 3 \<and> 3 \<le> z then [demo_log 3 (word_of_nat (3 + 2 ^ 64))] else [])),
     xe_fault = (\<lambda>t. NoFault), xe_other = (\<lambda>t s. s), xe_now = int, xe_addr_hex = (\<lambda>a. ''0xa''),
     xe_marshal = (\<lambda>l. None), xe_unmarshal = (\<lambda>b. None)\<rparr>"

definition old_event :: chain_event where
  "old_event = build_event 1 demo_node (demo_log 2 2) (hash_hex 9) [(''data'', VString ''0x'')] 0"

definition demo_index :: index_store where
  "demo_index = \<lparr>xs_events = [(ev_key old_event, old_event)], xs_hashes = [(1, [(1, hash_hex 1), (2, hash_hex 2)])],
     xs_checkpoints = ck_set (new_checkpoint demo_indexer 2 (hash_hex 2) 0) []\<rparr>"

definition demo_index_world :: index_world where
  "demo_index_world = \<lparr>xw_tick = 0, xw_store = demo_index, xw_letters = [], xw_slept = []\<rparr>"

lemma demo_indexer_sel:
  "ix_chain_id demo_indexer = 1" "ix_addresses demo_indexer = [5]" "ix_start_block demo_indexer = 1"
  "ix_decode demo_indexer = default_decode" "ix_max_log_range demo_indexer = 2000" "production demo_indexer"
  "ix_max_auto_reorg_depth demo_indexer = 100" "ix_dlq demo_indexer" "ix_max_range_retries demo_indexer = 5"
  by (simp_all add: demo_indexer_def new_indexer_def production_def default_max_log_range_def)

lemma demo_quiet: "quiet demo_node"
  by (simp add: quiet_def demo_node_def)

lemma demo_hash_inject:
  assumes "m < 2 ^ 65" and "n < 2 ^ 65" and "(word_of_nat m :: u256) = word_of_nat n"
  shows "m = n"
proof -
  have small: "unat (word_of_nat k :: u256) = k" if "k < 2 ^ 65" for k
  proof -
    have "(2 :: nat) ^ 65 \<le> 2 ^ LENGTH(256)" by (rule power_increasing) simp_all
    with that have "k < 2 ^ LENGTH(256)" by (rule less_le_trans)
    then show ?thesis by (rule of_nat_inverse [OF refl])
  qed
  have "unat (word_of_nat m :: u256) = unat (word_of_nat n :: u256)" using assms(3) by (rule arg_cong)
  then show ?thesis unfolding small [OF assms(1)] small [OF assms(2)] .
qed

lemma demo_block_bound: "unat (b :: u64) < 2 ^ 64"
proof -
  have "unat b < 2 ^ LENGTH(64)" by (rule unsigned_less)
  then show ?thesis by simp
qed

lemma demo_agree: "ch_hash old_chain b = ch_hash new_chain b \<longleftrightarrow> b \<le> 1"
proof (cases "b \<le> 1")
  case False
  have "unat b < 2 ^ 65" "unat b + 2 ^ 64 < 2 ^ 65" using demo_block_bound [of b] by simp_all
  then have "(word_of_nat (unat b) :: u256) \<noteq> word_of_nat (unat b + 2 ^ 64)"
    using demo_hash_inject [of "unat b" "unat b + 2 ^ 64"] by auto
  then show ?thesis using False by (simp add: old_chain_def new_chain_def)
qed (simp add: old_chain_def new_chain_def)

lemma demo_fork: "fork demo_indexer old_chain new_chain"
proof -
  have "chain_ok old_chain" "chain_ok new_chain"
    by (auto simp: chain_ok_def old_chain_def new_chain_def demo_log_def word_le_nat_alt)
  moreover have "linked old_chain new_chain"
    unfolding linked_def demo_agree by (auto simp: old_chain_def new_chain_def word_le_nat_alt)
  ultimately show ?thesis by (simp add: fork_def demo_agree demo_indexer_sel)
qed

lemma demo_serves: "serves demo_node new_chain"
  unfolding serves_def
proof (intro conjI allI impI)
  fix t a z addrs ls
  assume "xe_logs demo_node t a z addrs = Inr ls"
  then have "ls = (if 5 \<in> set addrs \<and> a \<le> 3 \<and> 3 \<le> z then [demo_log 3 (word_of_nat (3 + 2 ^ 64))] else [])"
    by (simp add: demo_node_def)
  then show "{l \<in> set ls. \<not> lg_removed l} =
      {l. \<exists>b. a \<le> b \<and> b \<le> z \<and> l \<in> set (ch_logs new_chain b) \<and> lg_address l \<in> set addrs}"
    by (auto simp: new_chain_def demo_log_def split: if_splits)
qed (simp add: demo_node_def)

lemma demo_stored: "stored demo_indexer demo_node (xs_events demo_index) = {old_event}"
proof -
  have "undated old_event = old_event" "watched demo_indexer demo_node old_event"
    by (simp_all add: old_event_def build_event_def undated_def watched_def demo_indexer_sel demo_log_def)
  then show ?thesis by (auto simp: stored_def held_def demo_index_def)
qed

lemma demo_events: "events_in demo_indexer demo_node old_chain (\<lambda>b. 1 \<le> b \<and> b < 3) = {old_event}"
proof -
  have "event_of demo_indexer demo_node (demo_log 2 2) = Some old_event"
    by (simp add: event_of_def demo_indexer_sel demo_log_def default_decode_def old_event_def hex_bytes_def)
  then show ?thesis by (auto simp: events_in_def old_chain_def split: if_splits)
qed

lemma demo_indexed: "indexed demo_indexer demo_node old_chain 2 demo_index"
proof -
  have "wf_store ev_key (xs_events demo_index)" by (simp add: wf_store_def demo_index_def)
  moreover have "h = hash_hex (ch_hash old_chain b)" if "bh_get 1 b (xs_hashes demo_index) = Some h" for b h
    using that by (auto simp: bh_get_def hashes_of_def demo_index_def old_chain_def split: if_splits)
  ultimately have "consistent demo_indexer demo_node old_chain (2 + 1) demo_index"
    using demo_stored demo_events by (simp add: consistent_def demo_indexer_sel)
  moreover have "stored_checkpoint demo_indexer demo_index = Some (new_checkpoint demo_indexer 2 (hash_hex 2) 0)"
    using ck_get_set [of "new_checkpoint demo_indexer 2 (hash_hex 2) 0" "[]"]
    by (simp add: stored_checkpoint_def demo_index_def new_checkpoint_def)
  ultimately show ?thesis
    by (auto simp: indexed_def checkpoint_at_def new_checkpoint_def demo_indexer_sel old_chain_def)
qed

theorem poll_follows_chain_witness:
  "\<exists>r w'. poll demo_indexer demo_node demo_index_world = (r, w') \<and>
    (xw_store w' = demo_index \<or> paused demo_indexer demo_index (xw_store w') \<or> settled demo_indexer demo_node new_chain (xw_store w'))"
proof -
  obtain r w' where run: "poll demo_indexer demo_node demo_index_world = (r, w')"
    by (cases "poll demo_indexer demo_node demo_index_world")
  have "\<forall>t h. xe_head demo_node t = Some h \<longrightarrow> head_ok demo_indexer h"
    by (simp add: demo_node_def head_ok_def demo_indexer_sel)
  moreover have "settled demo_indexer demo_node old_chain (xw_store demo_index_world)"
    using demo_indexed by (auto simp: settled_def demo_index_world_def)
  ultimately show ?thesis
    using poll_follows_chain [OF demo_indexer_sel(6) demo_quiet demo_fork demo_serves _ _ run] run
    by (simp add: demo_index_world_def)
qed

end
