(* ===== verification/IndexerLive.thy ===== *)
theory IndexerLive
  imports IndexerSpec
begin

text \<open>
  The indexer's operations one by one: how long a range scan may take, what a paused index does,
  when a healthy node is caught up with, and what the operator's reset and the retry of a dead
  letter may and may not do.
\<close>

section \<open>Scanning a range\<close>

lemma shrunk_halves:
  assumes "a < z" and "unat (z - a) < 2 ^ Suc k"
  shows "unat (shrunk a z - a) < 2 ^ k"
proof -
  define d where "d = z - a"
  have "shrunk a z - a = (if (d + 1) div 2 < 1 then 0 else (d + 1) div 2 - 1)"
    by (simp add: shrunk_def d_def Let_def)
  moreover have "unat ((d + 1) div 2 - 1) < 2 ^ k" if "\<not> (d + 1) div 2 < 1"
  proof -
    have "unat ((d + 1) div 2 - 1) = unat ((d + 1) div 2) - 1" using that by (intro unat_minus_one) auto
    also have "unat ((d + 1) div 2) = unat (d + 1) div 2" by (simp add: unat_div)
    finally have "unat ((d + 1) div 2 - 1) = unat (d + 1) div 2 - 1" .
    moreover have "unat (d + 1) \<le> Suc (unat d)" by (cases "d = - 1") (simp_all add: unat_Suc)
    then have "unat (d + 1) div 2 \<le> Suc (unat d) div 2" by (rule div_le_mono)
    moreover have "Suc (unat d) div 2 \<le> 2 ^ k" using assms(2) by (simp add: d_def)
    moreover have "0 < (2 :: nat) ^ k" by simp
    ultimately show ?thesis by linarith
  qed
  ultimately show ?thesis by (simp add: d_def)
qed

lemma next_backoff_bounds:
  "initial_range_backoff \<le> d \<Longrightarrow> d \<le> max_range_backoff \<Longrightarrow>
    initial_range_backoff \<le> next_backoff d \<and> next_backoff d \<le> max_range_backoff"
  by (simp add: next_backoff_def initial_range_backoff_def max_range_backoff_def)

lemma tick_meddle [simp]: "xw_tick (meddle e w) = Suc (xw_tick w)"
  by (simp add: meddle_def split: prod.split)

lemma slept_meddle [simp]: "xw_slept (meddle e w) = xw_slept w"
  by (simp add: meddle_def split: prod.split)

lemma ix_sleep_sel [simp]: "xw_tick (ix_sleep d w) = xw_tick w" "xw_slept (ix_sleep d w) = xw_slept w @ [d]"
  by (simp_all add: ix_sleep_def)

definition waits_ok :: "nat \<Rightarrow> index_world \<Rightarrow> index_world \<Rightarrow> bool" where
  "waits_ok n w w' \<longleftrightarrow> (\<exists>ds. xw_slept w' = xw_slept w @ ds \<and> length ds \<le> n \<and>
     (\<forall>d \<in> set ds. initial_range_backoff \<le> d \<and> d \<le> max_range_backoff))"

lemma waits_ok_refl: "xw_slept w' = xw_slept w \<Longrightarrow> waits_ok n w w'"
  by (simp add: waits_ok_def)

lemma waits_ok_mono: "waits_ok n v w' \<Longrightarrow> n \<le> m \<Longrightarrow> xw_slept v = xw_slept w \<Longrightarrow> waits_ok m w w'"
  unfolding waits_ok_def by (metis le_trans)

lemma waits_ok_sleep:
  "waits_ok n (ix_sleep d v) w' \<Longrightarrow> xw_slept v = xw_slept w \<Longrightarrow> initial_range_backoff \<le> d \<Longrightarrow> d \<le> max_range_backoff \<Longrightarrow>
    waits_ok (Suc n) w w'"
  unfolding waits_ok_def by (elim exE) (rule_tac x = "d # ds" in exI, auto)

text \<open>The node's answer for the blocks from \<open>a\<close> to \<open>z'\<close>, given between two ticks.\<close>

definition answered :: "indexer \<Rightarrow> index_env \<Rightarrow> nat \<Rightarrow> nat \<Rightarrow> u64 \<Rightarrow> u64 \<Rightarrow> (source_log list \<times> u64) \<Rightarrow> bool" where
  "answered ix e s t a z = (\<lambda>(logs, z'). a \<le> z' \<and> z' \<le> z \<and>
     (\<exists>i. s \<le> i \<and> i < t \<and> xe_logs e i a z' (ix_addresses ix) = Inr logs))"

lemma answered_mono: "answered ix e s' t a z' x \<Longrightarrow> s \<le> s' \<Longrightarrow> z' \<le> z \<Longrightarrow> answered ix e s t a z x"
proof -
  assume x: "answered ix e s' t a z' x" and le: "s \<le> s'" "z' \<le> z"
  obtain logs k where k: "x = (logs, k)" by (cases x)
  obtain i where "a \<le> k" "k \<le> z'" "s' \<le> i" "i < t" "xe_logs e i a k (ix_addresses ix) = Inr logs"
    using x unfolding answered_def k by auto
  moreover have "k \<le> z" "s \<le> i" using le calculation(2,3) by (auto intro: order_trans)
  ultimately show "answered ix e s t a z x" unfolding answered_def k by auto
qed

lemma scan_chunk_steps:
  assumes "unat (z - a) < 2 ^ k" and "initial_range_backoff \<le> backoff" and "backoff \<le> max_range_backoff"
    and "a \<le> z" and "scan_chunk ix e attempt backoff a z w = (r, w')"
  shows "xw_tick w' \<le> xw_tick w + 1 + k + nat (ix_max_range_retries ix - attempt) \<and>
    waits_ok (nat (ix_max_range_retries ix - attempt)) w w' \<and>
    (\<forall>x. r = Inr x \<longrightarrow> answered ix e (xw_tick w) (xw_tick w') a z x)"
  using assms
proof (induction ix e attempt backoff a z w arbitrary: k rule: scan_chunk.induct)
  case (1 ix e attempt backoff a z w)
  show ?case
  proof (cases "xe_logs e (xw_tick w) a z (ix_addresses ix)")
    case (Inr ls)
    then have "r = Inr (ls, z)" "w' = meddle e w" using "1.prems"(5) by (simp_all add: scan_chunk.simps filter_logs_def)
    then show ?thesis using "1.prems"(4) Inr by (auto simp: waits_ok_refl answered_def intro!: exI [of _ "xw_tick w"])
  next
    case (Inl x)
    have f: "filter_logs ix e a z w = (Inr (Inl x), meddle e w)" using Inl by (simp add: filter_logs_def)
    show ?thesis
    proof (cases "(is_range_too_large_error x \<or> is_timeout_error x) \<and> z > a")
      case True
      then have run: "scan_chunk ix e (attempt + 1) backoff a (shrunk a z) (meddle e w) = (r, w')"
        using "1.prems"(5) f by (subst (asm) scan_chunk.simps) simp
      have "0 < unat (z - a)" using True by (auto simp: word_gt_0 unat_gt_0)
      then obtain j where j: "k = Suc j" using "1.prems"(1) by (cases k) auto
      note IH = "1.IH"(1) [OF f [symmetric] refl refl True shrunk_halves [OF _ "1.prems"(1) [unfolded j]] "1.prems"(2,3) _ run]
      have steps: "xw_tick w' \<le> xw_tick (meddle e w) + 1 + j + nat (ix_max_range_retries ix - (attempt + 1)) \<and>
          waits_ok (nat (ix_max_range_retries ix - (attempt + 1))) (meddle e w) w' \<and>
          (\<forall>x. r = Inr x \<longrightarrow> answered ix e (xw_tick (meddle e w)) (xw_tick w') a (shrunk a z) x)"
        by (rule IH) (use True shrunk_bounds in auto)
      have fewer: "nat (ix_max_range_retries ix - (attempt + 1)) \<le> nat (ix_max_range_retries ix - attempt)" by simp
      show ?thesis
      proof (intro conjI allI impI)
        show "xw_tick w' \<le> xw_tick w + 1 + k + nat (ix_max_range_retries ix - attempt)"
          using conjunct1 [OF steps] fewer unfolding j tick_meddle by linarith
        show "waits_ok (nat (ix_max_range_retries ix - attempt)) w w'"
          by (rule waits_ok_mono [OF conjunct1 [OF conjunct2 [OF steps]] fewer slept_meddle])
        show "answered ix e (xw_tick w) (xw_tick w') a z x" if "r = Inr x" for x
        proof (rule answered_mono)
          show "answered ix e (xw_tick (meddle e w)) (xw_tick w') a (shrunk a z) x" using steps that by blast
        qed (use True shrunk_bounds [of a z] in simp_all)
      qed
    next
      case False
      show ?thesis
      proof (cases "attempt \<ge> ix_max_range_retries ix")
        case True
        then have "r = Inl (ErrFilterLogs a z attempt)" "w' = meddle e w"
          using "1.prems"(5) f False by (subst (asm) scan_chunk.simps; auto)+
        then show ?thesis by (simp add: waits_ok_refl)
      next
        case go: False
        then have run: "scan_chunk ix e (attempt + 1) (next_backoff backoff) a z (ix_sleep backoff (meddle e w)) = (r, w')"
          using "1.prems"(5) f False by (subst (asm) scan_chunk.simps) auto
        have IH: "xw_tick w' \<le> xw_tick (ix_sleep backoff (meddle e w)) + 1 + k + nat (ix_max_range_retries ix - (attempt + 1)) \<and>
            waits_ok (nat (ix_max_range_retries ix - (attempt + 1))) (ix_sleep backoff (meddle e w)) w' \<and>
            (\<forall>x. r = Inr x \<longrightarrow> answered ix e (xw_tick (ix_sleep backoff (meddle e w))) (xw_tick w') a z x)"
          by (rule "1.IH"(2) [OF f [symmetric] refl refl False go "1.prems"(1) _ _ "1.prems"(4) run])
            (use next_backoff_bounds [OF "1.prems"(2,3)] in simp_all)
        have count: "nat (ix_max_range_retries ix - attempt) = Suc (nat (ix_max_range_retries ix - (attempt + 1)))"
          using go by simp
        have "waits_ok (nat (ix_max_range_retries ix - attempt)) w w'"
          unfolding count by (rule waits_ok_sleep [OF conjunct1 [OF conjunct2 [OF IH]] slept_meddle "1.prems"(2,3)])
        then show ?thesis
          using IH count answered_mono [of ix e "Suc (xw_tick w)" "xw_tick w'" a z _ "xw_tick w" z] by simp
      qed
    qed
  qed
qed

text \<open>
  a range scan ends, soon, and returns what the node said. Whatever errors the node gives,
  scanning blocks a to z makes at most 64 requests that shrink the range and as many others as the
  retry limit allows (at least one), waits between 0.2 and 5 seconds fewer times than that, and
  when it succeeds returns the node's own answer for exactly the blocks from a to the upper bound
  it reports, which is not beyond z.
\<close>

theorem scan_chunk_bounded:
  assumes "a \<le> z" and "scan_chunk ix e 1 initial_range_backoff a z w = (r, w')"
  shows "xw_tick w' \<le> xw_tick w + 65 + nat (ix_max_range_retries ix - 1) \<and>
    waits_ok (nat (ix_max_range_retries ix - 1)) w w' \<and>
    (\<forall>x. r = Inr x \<longrightarrow> answered ix e (xw_tick w) (xw_tick w') a z x)"
proof -
  have "unat (z - a) < 2 ^ LENGTH(64)" by (rule unsigned_less)
  then have "unat (z - a) < 2 ^ 64" by simp
  from scan_chunk_steps [OF this _ _ assms] show ?thesis
    by (simp add: initial_range_backoff_def max_range_backoff_def)
qed

definition flaky_node :: index_env where
  "flaky_node = demo_node\<lparr>xe_logs := (\<lambda>t a z addrs.
     if t = 0 then Inl \<lparr>se_deadline = False, se_net_timeout = False, se_text = ''boom''\<rparr> else Inr [])\<rparr>"

theorem scan_chunk_bounded_witness:
  "waits_ok 4 demo_index_world (snd (scan_chunk demo_indexer flaky_node 1 initial_range_backoff 2 9 demo_index_world))"
proof -
  obtain r w' where run: "scan_chunk demo_indexer flaky_node 1 initial_range_backoff 2 9 demo_index_world = (r, w')"
    by (cases "scan_chunk demo_indexer flaky_node 1 initial_range_backoff 2 9 demo_index_world")
  have "(2 :: u64) \<le> 9" by simp
  from scan_chunk_bounded [OF this run] run show ?thesis by (simp add: demo_indexer_sel)
qed

section \<open>A paused index\<close>

text \<open>
  A flagged index stays as it is. While the checkpoint is flagged for reconciliation, a poll
  fails with the error that says so (or because the checkpoint cannot be read), makes that one read
  and no call to the node, whatever the node would answer, and writes nothing itself.
\<close>

theorem paused_poll_inert:
  assumes "stored_checkpoint ix (xw_store (meddle e w)) = Some cp" and "ck_reconciliation_required cp"
  shows "poll ix e w = (Inl (if xe_fault e (xw_tick w) = NoFault then ErrReconciliationRequired else ErrRepo), meddle e w)"
  using assms
  by (cases "xe_fault e (xw_tick w)")
    (simp_all add: poll_def poll_body_def load_checkpoint_def ix_read_def ix_call_def Let_def bindM_def ret_def raise_def
      stored_checkpoint_def)

definition flagged_world :: index_world where
  "flagged_world = demo_index_world\<lparr>xw_store := demo_index\<lparr>xs_checkpoints :=
     ck_set ((new_checkpoint demo_indexer 2 (hash_hex 2) 0)\<lparr>ck_reconciliation_required := True\<rparr>) []\<rparr>\<rparr>"

theorem paused_poll_inert_witness: "fst (poll demo_indexer demo_node flagged_world) = Inl ErrReconciliationRequired"
proof -
  let ?cp = "(new_checkpoint demo_indexer 2 (hash_hex 2) 0)\<lparr>ck_reconciliation_required := True\<rparr>"
  have "stored_checkpoint demo_indexer (xw_store (meddle demo_node flagged_world)) = Some ?cp"
    using ck_get_set [of ?cp "[]"] demo_quiet
    by (simp add: flagged_world_def stored_checkpoint_def new_checkpoint_def)
  from paused_poll_inert [OF this] show ?thesis by (simp add: demo_node_def)
qed

section \<open>The operator's reset\<close>

text \<open>What another writer leaves is a well-formed event store.\<close>

definition orderly :: "index_env \<Rightarrow> bool" where
  "orderly e \<longleftrightarrow> (\<forall>t s. wf_store ev_key (xs_events (fst s)) \<longrightarrow> wf_store ev_key (xs_events (fst (xe_other e t s))))"

lemma meddle_wf: "orderly e \<Longrightarrow> wf_store ev_key (xs_events (xw_store w)) \<Longrightarrow> wf_store ev_key (xs_events (xw_store (meddle e w)))"
  unfolding orderly_def meddle_def by (auto split: prod.split) (metis fst_conv)

definition events_wf :: "index_world \<Rightarrow> bool" where
  "events_wf w \<longleftrightarrow> wf_store ev_key (xs_events (xw_store w))"

lemma keeps_wf_source [triple_intros]: "orderly e \<Longrightarrow> keeps events_wf (source_call e f)"
  by (simp add: keeps_def source_call_def events_wf_def meddle_wf)

lemma keeps_wf_header [triple_intros]: "orderly e \<Longrightarrow> keeps events_wf (header_hash e b)"
  by (simp add: header_hash_def keeps_wf_source)

lemma keeps_wf_read [triple_intros]: "orderly e \<Longrightarrow> keeps events_wf (ix_read e f)"
  by (auto simp: keeps_def ix_read_def ix_call_def Let_def events_wf_def meddle_wf split: fault.split)

lemma ix_write_InrD: "ix_write e f w = (Inr x, w') \<Longrightarrow> f (xw_store (meddle e w)) = (x, xw_store w')"
  by (auto simp: ix_write_def ix_call_def Let_def split: fault.splits prod.splits)

lemma keeps_wf_now [triple_intros]: "keeps events_wf (ix_now e)"
  by (simp add: ix_now_def keeps_get)

lemma reset_leaves:
  assumes "wf_store ev_key st" and "trusted < - 1"
    and "v \<in> held (delete_events (ix_chain_id ix) (map (xe_addr_hex e) (ix_addresses ix)) (trusted + 1) st)" and "watched ix e v"
  shows "ev_block_number v \<le> trusted"
proof -
  have "trusted \<noteq> - 1" using assms(2) by auto
  have "undated v \<in> stored ix e (delete_events (ix_chain_id ix) (map (xe_addr_hex e) (ix_addresses ix)) (trusted + 1) st)"
    using assms(3,4) by (auto simp: stored_def)
  then have "ev_block_number (undated v) < trusted + 1" by (simp add: stored_delete(1) [OF assms(1)])
  then show ?thesis using le_succ [OF \<open>trusted \<noteq> - 1\<close>] by (simp add: undated_def)
qed

lemma ix_write_stale:
  assumes "ix_write e (rewind_chunk_store rw) w = (r, w')" and "current_version (cr_checkpoint rw) (xw_store (meddle e w)) \<noteq> cr_expected_version rw"
  shows "xw_store w' = xw_store (meddle e w) \<and> (r = Inr False \<or> xe_fault e (xw_tick w) \<noteq> NoFault \<and> r = Inl ErrRepo)"
  using assms by (auto simp: ix_write_def ix_call_def rewind_chunk_store_def Let_def split: fault.splits)

text \<open>The last step of a reset: the rewind, under the version of the checkpoint that was read.\<close>

definition reset_write :: "indexer \<Rightarrow> index_env \<Rightarrow> u64 \<Rightarrow> string \<Rightarrow> indexer_checkpoint option \<Rightarrow> unit ixm" where
  "reset_write ix e trusted h cur =
    bindM (ix_now e) (\<lambda>now.
    bindM (tryM (rewind ix e cur (new_checkpoint ix trusted h now) (trusted + 1))) (\<lambda>r.
    case r of
      Inl x \<Rightarrow> raise (if x = ErrVersionConflict then ErrResetMoved else x)
    | Inr _ \<Rightarrow> ret ()))"

lemma reset_write_run:
  assumes "ix_chunks ix" and "cur = ck_get (ix_chain_id ix) all_addresses (xs_checkpoints s)"
    and "reset_write ix e trusted h cur w = (r, w')"
  shows "(r = Inr () \<longrightarrow> stored_version (ix_chain_id ix, all_addresses) (xw_store (meddle e w)) = stored_version (ix_chain_id ix, all_addresses) s \<and>
      (\<exists>now. xw_store w' = (xw_store (meddle e w))\<lparr>
        xs_events := delete_events (ix_chain_id ix) (map (xe_addr_hex e) (ix_addresses ix)) (trusted + 1) (xs_events (xw_store (meddle e w))),
        xs_checkpoints := ck_set ((new_checkpoint ix trusted h now)\<lparr>ck_version := stored_version (ix_chain_id ix, all_addresses) s + 1\<rparr>)
          (xs_checkpoints (xw_store (meddle e w)))\<rparr>)) \<and>
    (stored_version (ix_chain_id ix, all_addresses) (xw_store (meddle e w)) \<noteq> stored_version (ix_chain_id ix, all_addresses) s \<longrightarrow>
      xw_store w' = xw_store (meddle e w) \<and> (r = Inl ErrResetMoved \<or> xe_fault e (xw_tick w) \<noteq> NoFault \<and> r = Inl ErrRepo))"
proof -
  let ?new = "new_checkpoint ix trusted h (xe_now e (xw_tick w))"
  let ?v = "case cur of None \<Rightarrow> 0 | Some c \<Rightarrow> ck_version c"
  let ?rw = "\<lparr>cr_chain_id = ix_chain_id ix, cr_addresses = map (xe_addr_hex e) (ix_addresses ix), cr_delete_from = trusted + 1,
    cr_checkpoint = ?new, cr_expected_version = ?v\<rparr>"
  let ?s = "xw_store (meddle e w)"
  obtain b w3 where wr: "ix_write e (rewind_chunk_store ?rw) w = (b, w3)" by fastforce
  have rw: "rewind ix e cur ?new (trusted + 1) w = (case b of Inl x \<Rightarrow> (Inl x, w3)
      | Inr ok \<Rightarrow> (if ok then Inr (?new\<lparr>ck_version := ?v + 1\<rparr>) else Inl ErrVersionConflict, w3))"
    using assms(1) wr by (simp add: rewind_def Let_def bindM_def ret_def raise_def split: sum.split)
  have run: "(r, w') = (case b of Inl x \<Rightarrow> (Inl (if x = ErrVersionConflict then ErrResetMoved else x), w3)
      | Inr ok \<Rightarrow> (if ok then Inr () else Inl ErrResetMoved, w3))"
    using assms(3) rw
    by (cases b) (auto simp: reset_write_def bindM_def ix_now_def getM_def tryM_def ret_def raise_def split: if_splits)
  have version: "stored_version (ix_chain_id ix, all_addresses) s = ?v"
    "current_version ?new ?s = stored_version (ix_chain_id ix, all_addresses) ?s"
    by (simp_all add: assms(2) stored_version_def current_version_def new_checkpoint_def)
  show ?thesis
  proof (cases "current_version ?new ?s = ?v")
    case True
    then have "b = Inr ok \<Longrightarrow> ok \<and> xw_store w3 = ?s\<lparr>xs_events :=
        delete_events (ix_chain_id ix) (map (xe_addr_hex e) (ix_addresses ix)) (trusted + 1) (xs_events ?s),
        xs_checkpoints := ck_set (?new\<lparr>ck_version := ?v + 1\<rparr>) (xs_checkpoints ?s)\<rparr>" for ok
      using ix_write_InrD [of e "rewind_chunk_store ?rw" w ok w3] wr by (simp add: rewind_chunk_store_def)
    then show ?thesis using run True version by (auto split: sum.splits)
  next
    case False
    then have "xw_store w3 = ?s \<and> (b = Inr False \<or> xe_fault e (xw_tick w) \<noteq> NoFault \<and> b = Inl ErrRepo)"
      using ix_write_stale [OF wr] by simp
    then show ?thesis using run False version by auto
  qed
qed

lemma reset_steps:
  "reset_to_trusted_checkpoint ix e trusted =
    bindM (if trusted > 0 then bindM (header_hash e trusted) (\<lambda>h. ret (hash_hex h)) else ret []) (\<lambda>h.
    bindM (ix_read e (\<lambda>s. ck_get (ix_chain_id ix) all_addresses (xs_checkpoints s))) (\<lambda>cur. reset_write ix e trusted h cur))"
  by (simp add: reset_to_trusted_checkpoint_def reset_write_def)

text \<open>
  C17: a reset is exact and fenced. With the atomic committer, and whatever other writers and faults come
  between its steps: let \<open>seen\<close> be the moment at which it reads the checkpoint and \<open>now\<close> that of its write.
  If it succeeds, the checkpoint at \<open>now\<close> still had the version it was read with, the store is
  that of \<open>now\<close> with the events from the block after the trusted one deleted and the checkpoint at the trusted
  block, unflagged, under the next version, and no event of a watched contract is left above that
  block. If the version moved in between, it fails, as a moved reset unless a call failed, and writes nothing.
\<close>

theorem reset_is_fenced:
  assumes "ix_chunks ix" and "orderly e" and "events_wf w" and "trusted < - 1"
    and "reset_to_trusted_checkpoint ix e trusted w = (r, w')"
    and "seen = meddle e (if trusted > 0 then meddle e w else w)" and "now = meddle e seen"
  shows "(r = Inr () \<longrightarrow>
      stored_version (ix_chain_id ix, all_addresses) (xw_store now) = stored_version (ix_chain_id ix, all_addresses) (xw_store seen) \<and>
      xs_events (xw_store w') = delete_events (ix_chain_id ix) (map (xe_addr_hex e) (ix_addresses ix)) (trusted + 1) (xs_events (xw_store now)) \<and>
      xs_hashes (xw_store w') = xs_hashes (xw_store now) \<and>
      (\<exists>c. stored_checkpoint ix (xw_store w') = Some c \<and> ck_last_block c = trusted \<and> \<not> ck_reconciliation_required c \<and>
        ck_version c = stored_version (ix_chain_id ix, all_addresses) (xw_store seen) + 1) \<and>
      (\<forall>v \<in> held (xs_events (xw_store w')). watched ix e v \<longrightarrow> ev_block_number v \<le> trusted)) \<and>
    (stored_version (ix_chain_id ix, all_addresses) (xw_store now) \<noteq> stored_version (ix_chain_id ix, all_addresses) (xw_store seen) \<longrightarrow>
      r \<in> {Inl ErrSource, Inl ErrRepo, Inl ErrResetMoved} \<and>
      ((\<forall>n. xe_fault e n = NoFault) \<and> (\<forall>n. xe_header e n trusted \<noteq> None) \<longrightarrow> r = Inl ErrResetMoved) \<and>
      xw_store w' \<in> {xw_store (meddle e w), xw_store seen, xw_store now})"
proof -
  let ?T = "(ix_chain_id ix, all_addresses)"
  define start where "start = (if trusted > 0 then meddle e w else w)"
  obtain x where header: "(if trusted > 0 then bindM (header_hash e trusted) (\<lambda>h. ret (hash_hex h)) else ret []) w = (x, start)"
    and x: "x = Inl ErrSource \<and> start = meddle e w \<and> (\<exists>n. xe_header e n trusted = None) \<or> (\<exists>h. x = Inr h)"
    by (cases "trusted > 0"; cases "xe_header e (xw_tick w) trusted")
      (auto simp: start_def header_hash_def source_call_def bindM_def ret_def)
  have seen: "seen = meddle e start" by (simp add: assms(6) start_def)
  show ?thesis
  proof (cases x)
    case (Inl y)
    then have "r = Inl y \<and> w' = start" using assms(5) header by (simp add: reset_steps bindM_def)
    then show ?thesis using x Inl by auto
  next
    case (Inr h)
    obtain c where read: "ix_read e (\<lambda>s. ck_get (ix_chain_id ix) all_addresses (xs_checkpoints s)) start = (c, seen)"
      and c: "c = Inl ErrRepo \<and> xe_fault e (xw_tick start) \<noteq> NoFault \<or> c = Inr (ck_get (ix_chain_id ix) all_addresses (xs_checkpoints (xw_store seen)))"
      by (cases "xe_fault e (xw_tick start)") (simp_all add: ix_read_def ix_call_def seen Let_def)
    show ?thesis
    proof (cases c)
      case (Inl y)
      then have "r = Inl y \<and> w' = seen" using assms(5) header Inr read by (simp add: reset_steps bindM_def)
      then show ?thesis using c Inl by auto
    next
      case cur: (Inr cur)
      then have "reset_write ix e trusted h cur seen = (r, w')" using assms(5) header Inr read by (simp add: reset_steps bindM_def)
      from reset_write_run [OF assms(1) _ this, of "xw_store seen"] c cur
      have good: "r = Inr () \<Longrightarrow> stored_version ?T (xw_store now) = stored_version ?T (xw_store seen)"
        "r = Inr () \<Longrightarrow> \<exists>t. xw_store w' = (xw_store now)\<lparr>
          xs_events := delete_events (ix_chain_id ix) (map (xe_addr_hex e) (ix_addresses ix)) (trusted + 1) (xs_events (xw_store now)),
          xs_checkpoints := ck_set ((new_checkpoint ix trusted h t)\<lparr>ck_version := stored_version ?T (xw_store seen) + 1\<rparr>)
            (xs_checkpoints (xw_store now))\<rparr>"
        and bad: "stored_version ?T (xw_store now) \<noteq> stored_version ?T (xw_store seen) \<Longrightarrow>
          xw_store w' = xw_store now \<and> (r = Inl ErrResetMoved \<or> (\<exists>n. xe_fault e n \<noteq> NoFault) \<and> r = Inl ErrRepo)"
        unfolding assms(7) by auto
      have wf: "wf_store ev_key (xs_events (xw_store now))"
        using assms(3) unfolding assms(6,7) events_wf_def by (auto intro!: meddle_wf assms(2))
      have "ev_block_number v \<le> trusted"
        if "r = Inr ()" "v \<in> held (xs_events (xw_store w'))" "watched ix e v" for v
        using good(2) [OF that(1)] reset_leaves [OF wf assms(4)] that(2,3) by auto
      moreover have "\<exists>c. stored_checkpoint ix (xw_store w') = Some c \<and> ck_last_block c = trusted \<and> \<not> ck_reconciliation_required c \<and>
          ck_version c = stored_version ?T (xw_store seen) + 1" if ok: "r = Inr ()"
      proof -
        obtain t where t: "xs_checkpoints (xw_store w') = ck_set ((new_checkpoint ix trusted h t)\<lparr>ck_version := stored_version ?T (xw_store seen) + 1\<rparr>)
            (xs_checkpoints (xw_store now))" using good(2) [OF ok] by auto
        show ?thesis
          using ck_get_set [of "(new_checkpoint ix trusted h t)\<lparr>ck_version := stored_version ?T (xw_store seen) + 1\<rparr>"]
          by (simp add: stored_checkpoint_def t new_checkpoint_def)
      qed
      ultimately show ?thesis using good bad by auto
    qed
  qed
qed

lemmas run_defs = reset_to_trusted_checkpoint_def rewind_def header_hash_def source_call_def ix_read_def ix_write_def
  ix_call_def ix_now_def monad_defs meddle_def

lemma demo_reset: "\<exists>w'. reset_to_trusted_checkpoint demo_indexer demo_node 1 demo_index_world = (Inr (), w')"
proof -
  let ?cp = "new_checkpoint demo_indexer 2 (hash_hex 2) 0"
  have "ck_get 1 all_addresses (xs_checkpoints demo_index) = Some ?cp"
    using ck_get_set [of ?cp "[]"] by (simp add: demo_index_def new_checkpoint_def demo_indexer_sel)
  moreover have "ix_chunks demo_indexer" using demo_indexer_sel(6) by (simp add: production_def)
  ultimately show ?thesis
    by (simp add: run_defs demo_node_def demo_index_world_def demo_indexer_sel rewind_chunk_store_def current_version_def
        Let_def new_checkpoint_def)
qed

theorem reset_is_fenced_witness:
  "\<exists>w'. reset_to_trusted_checkpoint demo_indexer demo_node 1 demo_index_world = (Inr (), w') \<and>
    (\<forall>v \<in> held (xs_events (xw_store w')). watched demo_indexer demo_node v \<longrightarrow> ev_block_number v \<le> 1) \<and>
    (\<exists>c. stored_checkpoint demo_indexer (xw_store w') = Some c \<and> ck_last_block c = 1)"
proof -
  obtain w' where run: "reset_to_trusted_checkpoint demo_indexer demo_node 1 demo_index_world = (Inr (), w')"
    using demo_reset by blast
  have "ix_chunks demo_indexer" using demo_indexer_sel(6) by (simp add: production_def)
  moreover have "orderly demo_node" by (simp add: orderly_def demo_node_def)
  moreover have "events_wf demo_index_world"
    by (simp add: events_wf_def demo_index_world_def demo_index_def wf_store_def)
  moreover have "(1 :: u64) < - 1" by (simp flip: word_order.not_eq_extremum)
  ultimately show ?thesis using reset_is_fenced [OF _ _ _ _ run refl refl] run by blast
qed

text \<open>
  The operator's command line builds its indexer with the dead-letter queue as its only option
  (\<^verbatim>\<open>buildIndexer\<close>, server/cmd/opsctl/main.go), so its reset takes the unfenced branch: a chunk that a
  running platform commits between the deletion and the new checkpoint stays above the trusted
  block, and the reset still reports success.
\<close>

definition opsctl_indexer :: indexer where
  "opsctl_indexer = new_indexer 1 [5] 1 None [WithDeadLetterQueue]"

definition late_event :: chain_event where
  "late_event = build_event 1 demo_node (demo_log 3 9) ''late'' [] 0"

definition racing_node :: index_env where
  "racing_node = demo_node\<lparr>xe_other := (\<lambda>t s. if t = 3 then
     (snd (commit_chunk_store \<lparr>cc_chain_id = 1, cc_events = [late_event], cc_block_hashes = [], cc_prune_before = None,
        cc_checkpoint = new_checkpoint demo_indexer 3 (hash_hex 9) 0, cc_expected_version = 0\<rparr> (fst s)), snd s)
     else s)\<rparr>"

theorem unfenced_reset_strands_events:
  "\<exists>w'. reset_to_trusted_checkpoint opsctl_indexer racing_node 1 demo_index_world = (Inr (), w') \<and>
    lookup (xs_events (xw_store w')) (ev_key late_event) = Some late_event \<and> watched opsctl_indexer racing_node late_event \<and>
    ev_block_number late_event = 3 \<and> (\<exists>c. stored_checkpoint opsctl_indexer (xw_store w') = Some c \<and> ck_last_block c = 1)"
proof -
  let ?cp = "new_checkpoint demo_indexer 2 (hash_hex 2) 0"
  have cp: "ck_get 1 all_addresses (xs_checkpoints demo_index) = Some ?cp"
    using ck_get_set [of ?cp "[]"] by (simp add: demo_index_def new_checkpoint_def demo_indexer_sel)
  have sel: "ix_chain_id opsctl_indexer = 1" "ix_addresses opsctl_indexer = [5]" "\<not> ix_chunks opsctl_indexer"
    by (simp_all add: opsctl_indexer_def new_indexer_def)
  let ?new = "new_checkpoint opsctl_indexer 1 (hash_hex 1) 2"
  have new: "ck_get 1 all_addresses (ck_set ?new st) = Some ?new" for st
    using ck_get_set [of ?new st] by (simp add: new_checkpoint_def sel)
  have hash: "word_of_nat (unat (1 :: u64)) = (1 :: u256)" by simp
  show ?thesis
    using cp new
    by (simp add: run_defs racing_node_def demo_node_def demo_index_world_def sel demo_indexer_sel commit_chunk_store_def
        current_version_def Let_def new_checkpoint_def new_chain_def late_event_def build_event_def demo_log_def
        ce_create_def watched_def stored_checkpoint_def lookup_put)
qed

section \<open>Retrying a dead letter\<close>

text \<open>Other writers that leave the events alone.\<close>

definition spares_events :: "index_env \<Rightarrow> bool" where
  "spares_events e \<longleftrightarrow> (\<forall>t s. xs_events (fst (xe_other e t s)) = xs_events (fst s))"

abbreviation events_of :: "index_world \<Rightarrow> event_store" where
  "events_of w \<equiv> xs_events (xw_store w)"

lemma meddle_events: "spares_events e \<Longrightarrow> events_of (meddle e w) = events_of w"
  unfolding spares_events_def meddle_def by (auto split: prod.split) (metis fst_conv)

lemma letters_events: "spares_events e \<Longrightarrow> ix_letters e f w = (r, w') \<Longrightarrow> events_of w' = events_of w"
  by (auto simp: ix_letters_def ix_call_def Let_def meddle_events split: fault.splits prod.splits)

lemma header_events: "spares_events e \<Longrightarrow> header_hash e b w = (r, w') \<Longrightarrow> events_of w' = events_of w"
  by (auto simp: header_hash_def source_call_def meddle_events)

lemma read_events: "spares_events e \<Longrightarrow> ix_read e f w = (r, w') \<Longrightarrow> events_of w' = events_of w"
  by (auto simp: ix_read_def ix_call_def Let_def meddle_events split: fault.splits)

lemma write_events:
  "spares_events e \<Longrightarrow> ix_write e (\<lambda>s. ((), s\<lparr>xs_events := g (xs_events s)\<rparr>)) w = (r, w') \<Longrightarrow>
    events_of w' = events_of w \<or> events_of w' = g (events_of w)"
  by (auto simp: ix_write_def ix_call_def Let_def meddle_events split: fault.splits)

lemma bind_cases:
  assumes "bindM m f w = (r, w')"
  shows "(\<exists>x. m w = (Inl x, w') \<and> r = Inl x) \<or> (\<exists>y w1. m w = (Inr y, w1) \<and> f y w1 = (r, w'))"
  using assms by (auto simp: bindM_def split: prod.splits sum.splits)

lemma resolve_events: "spares_events e \<Longrightarrow> resolve_letter e i w = (r, w') \<Longrightarrow> events_of w' = events_of w"
  using bind_cases [of _ _ w r w'] letters_events unfolding resolve_letter_def guardM_def ret_def raise_def
  by (fastforce split: if_splits)

lemma ingest_events:
  assumes "spares_events e" and "ingest_retried ix e l name data w = (r, w')"
  shows "events_of w' = events_of w \<or>
    (\<exists>now. events_of w' = ce_create (build_event (ix_chain_id ix) e l name data now) (events_of w))"
  using bind_cases [OF assms(2) [unfolded ingest_retried_def]]
proof (elim disjE exE conjE)
  fix x assume "ix_read e (\<lambda>s. ce_exists (log_key ix e l) (xs_events s)) w = (Inl x, w')"
  then show ?thesis using read_events [OF assms(1)] by blast
next
  fix found w1
  assume rd: "ix_read e (\<lambda>s. ce_exists (log_key ix e l) (xs_events s)) w = (Inr found, w1)"
    and run: "(if found then ret ()
     else bindM (ix_now e) (\<lambda>now.
       ix_write e (\<lambda>s. ((), s\<lparr>xs_events :=
         ce_create (build_event (ix_chain_id ix) e l name data now) (xs_events s)\<rparr>)))) w1 = (r, w')"
  note ev1 = read_events [OF assms(1) rd]
  show ?thesis
  proof (cases found)
    case True
    then show ?thesis using run ev1 by (simp add: ret_def)
  next
    case False
    then have "ix_write e (\<lambda>s. ((), s\<lparr>xs_events :=
         ce_create (build_event (ix_chain_id ix) e l name data (xe_now e (xw_tick w1))) (xs_events s)\<rparr>)) w1 = (r, w')"
      using run by (simp add: bindM_def ix_now_def getM_def)
    from write_events [OF assms(1) this] ev1 show ?thesis by auto
  qed
qed

text \<open>
  C18: a retried dead letter never brings back an orphan. Whatever fails and whatever happens to
  the other repositories meanwhile, a retry leaves the indexed events as they were, or adds exactly
  one: the decoding of a retained log whose block hash the node confirmed as canonical during this
  very retry.
\<close>

theorem retry_ingests_canonical_only:
  assumes "spares_events e" and "retry_dead_letter ix e i w = (r, w')"
  shows "events_of w' = events_of w \<or>
    (\<exists>l raw name data now t. xe_unmarshal e raw = Some l \<and> xe_header e t (lg_block_number l) = Some (lg_block_hash l) \<and>
      xw_tick w < t \<and> ix_decode ix l = Inr (name, data) \<and>
      events_of w' = ce_create (build_event (ix_chain_id ix) e l name data now) (events_of w))"
proof (cases "ix_dlq ix")
  case False
  then show ?thesis using assms(2) by (auto simp: retry_dead_letter_def raise_def)
next
  case dlq: True
  let ?canonical = "\<lambda>d l h. if h \<noteq> lg_block_hash l then
       bindM (ix_letters e (\<lambda>m. ((), dl_record (orphan_letter d l h) m))) (\<lambda>_. resolve_letter e i)
     else case ix_decode ix l of
       Inl cause \<Rightarrow> record_dead_letter ix e l cause
     | Inr (name, data) \<Rightarrow> bindM (ingest_retried ix e l name data) (\<lambda>_. resolve_letter e i)"
  let ?rest = "\<lambda>found. case found of None \<Rightarrow> raise ErrNoLetter
        | Some d \<Rightarrow> (case xe_unmarshal e (dl_source_data d) of None \<Rightarrow> raise ErrRetained
             | Some l \<Rightarrow> bindM (header_hash e (lg_block_number l)) (?canonical d l))"
  have "bindM (ix_letters e (\<lambda>m. (dl_get i m, m))) ?rest w = (r, w')"
    using assms(2) dlq by (simp add: retry_dead_letter_def)
  from bind_cases [OF this] show ?thesis
  proof (elim disjE exE conjE)
    fix x assume "ix_letters e (\<lambda>m. (dl_get i m, m)) w = (Inl x, w')"
    then show ?thesis using letters_events [OF assms(1)] by blast
  next
    fix found w1
    assume got: "ix_letters e (\<lambda>m. (dl_get i m, m)) w = (Inr found, w1)" and run1: "?rest found w1 = (r, w')"
    have ev1: "events_of w1 = events_of w" by (rule letters_events [OF assms(1) got])
    have t1: "xw_tick w < xw_tick w1"
      using got by (auto simp: ix_letters_def ix_call_def Let_def split: fault.splits prod.splits)
    show ?thesis
    proof (cases "\<exists>d l. found = Some d \<and> xe_unmarshal e (dl_source_data d) = Some l")
      case False
      then show ?thesis using run1 ev1 by (auto simp: raise_def split: option.splits)
    next
      case True
      then obtain d l where d: "found = Some d" "xe_unmarshal e (dl_source_data d) = Some l" by blast
      then have "bindM (header_hash e (lg_block_number l)) (?canonical d l) w1 = (r, w')" using run1 by simp
      from bind_cases [OF this] show ?thesis
      proof (elim disjE exE conjE)
        fix x assume "header_hash e (lg_block_number l) w1 = (Inl x, w')"
        then show ?thesis using header_events [OF assms(1)] ev1 by metis
      next
        fix h w2
        assume q: "header_hash e (lg_block_number l) w1 = (Inr h, w2)" and run2: "?canonical d l h w2 = (r, w')"
        have ev2: "events_of w2 = events_of w" using header_events [OF assms(1) q] ev1 by simp
        have hd: "xe_header e (xw_tick w1) (lg_block_number l) = Some h"
          using q by (auto simp: header_hash_def source_call_def split: option.splits)
        show ?thesis
        proof (cases "h = lg_block_hash l")
          case False
          then have "bindM (ix_letters e (\<lambda>m. ((), dl_record (orphan_letter d l h) m))) (\<lambda>_. resolve_letter e i) w2 = (r, w')"
            using run2 by simp
          from bind_cases [OF this] show ?thesis
            using letters_events [OF assms(1)] resolve_events [OF assms(1)] ev2 by metis
        next
          case True
          show ?thesis
          proof (cases "ix_decode ix l")
            case (Inl cause)
            then have "record_dead_letter ix e l cause w2 = (r, w')" using run2 True by simp
            then have "ix_letters e (\<lambda>m. ((), dl_record (letter_of ix e l cause (xe_now e (xw_tick w2))) m)) w2 = (r, w')"
              by (simp add: record_dead_letter_def bindM_def ix_now_def getM_def)
            from letters_events [OF assms(1) this] ev2 show ?thesis by simp
          next
            case (Inr nd)
            obtain name data where nd: "nd = (name, data)" by (cases nd)
            then have "bindM (ingest_retried ix e l name data) (\<lambda>_. resolve_letter e i) w2 = (r, w')"
              using run2 True Inr by simp
            from bind_cases [OF this] obtain r3 w3 where ing: "ingest_retried ix e l name data w2 = (r3, w3)"
              and ev: "events_of w' = events_of w3"
              using resolve_events [OF assms(1)] by metis
            from ingest_events [OF assms(1) ing] ev ev2 have "events_of w' = events_of w \<or>
                (\<exists>now. events_of w' = ce_create (build_event (ix_chain_id ix) e l name data now) (events_of w))" by simp
            then show ?thesis using d(2) hd True t1 Inr nd by blast
          qed
        qed
      qed
    qed
  qed
qed

definition retry_node :: index_env where
  "retry_node = demo_node\<lparr>xe_unmarshal := (\<lambda>raw. if raw = [1] then Some (demo_log 3 (word_of_nat (3 + 2 ^ 64))) else None)\<rparr>"

definition retry_world :: index_world where
  "retry_world = demo_index_world\<lparr>xw_letters := [(''x'', \<lparr>dl_id = ''x'', dl_chain_id = 1, dl_block_number = 3, dl_block_hash = [],
     dl_tx_hash = [], dl_log_index = 0, dl_event_signature = [], dl_error_category = ''decode'', dl_error_message = [],
     dl_retry_count = 0, dl_first_failed_at = 0, dl_last_failed_at = 0, dl_source_data = [1], dl_resolved = False\<rparr>)]\<rparr>"

theorem retry_ingests_canonical_only_witness:
  "\<exists>r w'. retry_dead_letter demo_indexer retry_node ''x'' retry_world = (r, w') \<and>
    (events_of w' = events_of retry_world \<or> (\<exists>v. events_of w' = ce_create v (events_of retry_world)))"
proof -
  obtain r w' where run: "retry_dead_letter demo_indexer retry_node ''x'' retry_world = (r, w')"
    by (cases "retry_dead_letter demo_indexer retry_node ''x'' retry_world")
  have "spares_events retry_node" by (simp add: spares_events_def retry_node_def demo_node_def)
  from retry_ingests_canonical_only [OF this run] run show ?thesis by blast
qed

section \<open>Catching up with a healthy node\<close>

definition healthy :: "index_env \<Rightarrow> bool" where
  "healthy e \<longleftrightarrow> quiet e \<and> (\<forall>t. xe_fault e t = NoFault) \<and> (\<forall>t. xe_head e t \<noteq> None) \<and>
     (\<forall>t b. xe_header e t b \<noteq> None) \<and> (\<forall>t a z addrs. \<exists>ls. xe_logs e t a z addrs = Inr ls)"

text \<open>The errors an operation can return at all.\<close>

definition raises :: "index_error set \<Rightarrow> 'a ixm \<Rightarrow> bool" where
  "raises X m \<longleftrightarrow> (\<forall>w x. fst (m w) = Inl x \<longrightarrow> x \<in> X)"

lemma raisesD: "raises X m \<Longrightarrow> m w = (Inl x, w') \<Longrightarrow> x \<in> X"
  unfolding raises_def by (metis fst_conv)

lemma raises_none: "raises {} m \<Longrightarrow> m w = (r, w') \<Longrightarrow> \<exists>x. r = Inr x"
  by (cases r) (auto dest: raisesD)

lemma bindM_run: "m w = (Inr x, w') \<Longrightarrow> bindM m f w = f x w'"
  by (simp add: bindM_def)

lemma ret_run: "ret x w = (Inr x, w)"
  by (simp add: ret_def)

named_theorems raises_intros

lemma raises_ret [raises_intros]: "raises X (ret x)"
  by (simp add: raises_def ret_def)

lemma raises_raise [raises_intros]: "x \<in> X \<Longrightarrow> raises X (raise x)"
  by (simp add: raises_def raise_def)

lemma raises_bind [raises_intros]: "raises X m \<Longrightarrow> (\<And>x. raises X (f x)) \<Longrightarrow> raises X (bindM m f)"
proof (unfold raises_def, intro allI impI)
  fix w x
  assume m: "\<forall>w x. fst (m w) = Inl x \<longrightarrow> x \<in> X" and f: "\<And>y. \<forall>w x. fst (f y w) = Inl x \<longrightarrow> x \<in> X"
    and x: "fst (bindM m f w) = Inl x"
  obtain r w1 where r: "m w = (r, w1)" by (cases "m w")
  show "x \<in> X"
  proof (cases r)
    case (Inl y)
    then show ?thesis using r x m [rule_format, of w y] by (simp add: bindM_def)
  next
    case (Inr y)
    then show ?thesis using r x f [rule_format, of y w1 x] by (simp add: bindM_def)
  qed
qed

lemma raises_if [raises_intros]: "raises X m \<Longrightarrow> raises X n \<Longrightarrow> raises X (if b then m else n)"
  by simp

lemma raises_option [raises_intros]: "raises X m \<Longrightarrow> (\<And>x. raises X (f x)) \<Longrightarrow> raises X (case v of None \<Rightarrow> m | Some x \<Rightarrow> f x)"
  by (cases v) auto

lemma raises_sum [raises_intros]: "(\<And>x. raises X (g x)) \<Longrightarrow> (\<And>x. raises X (f x)) \<Longrightarrow> raises X (case v of Inl x \<Rightarrow> g x | Inr x \<Rightarrow> f x)"
  by (cases v) auto

lemma raises_prod [raises_intros]: "(\<And>a b. raises X (f a b)) \<Longrightarrow> raises X (case p of (a, b) \<Rightarrow> f a b)"
  by (cases p) auto

lemma raises_now [raises_intros]: "raises X (ix_now e)"
  by (simp add: raises_def ix_now_def getM_def)

lemma raises_source [raises_intros]: "\<forall>t. f t \<noteq> None \<Longrightarrow> raises X (source_call e f)"
  unfolding raises_def source_call_def by (auto split: option.split) (metis option.distinct(1))

lemma raises_header [raises_intros]: "healthy e \<Longrightarrow> raises X (header_hash e b)"
  unfolding header_hash_def by (rule raises_source) (simp add: healthy_def)

lemma raises_call [raises_intros]: "healthy e \<Longrightarrow> raises X (ix_call e f)"
  by (auto simp: raises_def ix_call_def healthy_def Let_def split: prod.split)

lemma raises_read [raises_intros]: "healthy e \<Longrightarrow> raises X (ix_read e f)"
  unfolding ix_read_def by (rule raises_call)

lemma raises_write [raises_intros]: "healthy e \<Longrightarrow> raises X (ix_write e f)"
  unfolding ix_write_def by (rule raises_call)

lemma raises_letters [raises_intros]: "healthy e \<Longrightarrow> raises X (ix_letters e f)"
  unfolding ix_letters_def by (rule raises_call)

lemma raises_validate [raises_intros]: "healthy e \<Longrightarrow> raises X (validate_logs e ls cache)"
  by (induction ls arbitrary: cache) (auto intro!: raises_intros)

lemma raises_decode_failure [raises_intros]: "healthy e \<Longrightarrow> ix_dlq ix \<Longrightarrow> raises X (handle_decode_failure ix e l cause)"
  by (auto simp: handle_decode_failure_def record_dead_letter_def intro!: raises_intros)

lemma raises_prepare [raises_intros]: "healthy e \<Longrightarrow> ix_dlq ix \<Longrightarrow> raises X (prepare_chunk_events ix e ls)"
  by (induction ls) (auto intro!: raises_intros)

lemma raises_collect [raises_intros]: "healthy e \<Longrightarrow> raises X (collect_hashes e bs cache)"
  by (induction bs arbitrary: cache) (auto intro!: raises_intros)

lemma raises_search [raises_intros]: "healthy e \<Longrightarrow> raises X (search_ancestor ix e bs)"
  by (induction bs) (auto intro!: raises_intros)

lemma raises_scan_chunk [raises_intros]: "healthy e \<Longrightarrow> raises X (scan_chunk ix e attempt backoff a z)"
proof (unfold raises_def, intro allI impI)
  fix w x
  assume e: "healthy e" and x: "fst (scan_chunk ix e attempt backoff a z w) = Inl x"
  obtain ls where "xe_logs e (xw_tick w) a z (ix_addresses ix) = Inr ls" using e unfolding healthy_def by blast
  then show "x \<in> X" using x by (simp add: scan_chunk.simps filter_logs_def)
qed

lemma raises_commit [raises_intros]:
  "healthy e \<Longrightarrow> ix_dlq ix \<Longrightarrow> production ix \<Longrightarrow> raises {ErrVersionConflict} (commit_chunk ix e a z current zh ls cache cp)"
  by (auto simp: commit_chunk_def chunk_hashes_def production_def Let_def intro!: raises_intros)

lemma raises_attempt:
  "healthy e \<Longrightarrow> ix_dlq ix \<Longrightarrow> production ix \<Longrightarrow> raises {ErrVersionConflict} (scan_attempt ix e a z current cp)"
  by (auto simp: scan_attempt_def intro!: raises_intros)

lemma scan_and_commit_succeeds:
  assumes "healthy e" and "ix_dlq ix" and "production ix" and "chain_ok C" and "serves e C"
    and "tracked ix e C a cp (xw_store w)"
    and "ix_start_block ix \<le> a" and "a \<le> z" and "z < - 1"
    and "scan_and_commit ix e attempt backoff a z current cp w = (r, w')"
  shows "\<exists>cp' z'. a \<le> z' \<and> z' \<le> z \<and> tracked ix e C (z' + 1) cp' (xw_store w') \<and> r = Inr (z' + 1, cp')"
proof -
  have q: "quiet e" using assms(1) by (simp add: healthy_def)
  obtain r1 w1 where p: "scan_attempt ix e a z current cp w = (r1, w1)" by (cases "scan_attempt ix e a z current cp w")
  have only: "x = ErrVersionConflict" if "r1 = Inl x" for x
    using raisesD [OF raises_attempt [OF assms(1-3)]] p that by blast
  then have "\<not> failed (xw_store w) r1 w1" by (auto simp: failed_def plain_error_def)
  from scan_attempt_ok [OF q assms(3-9) p this] obtain cp' z' where
    ok: "a \<le> z'" "z' \<le> z" "tracked ix e C (z' + 1) cp' (xw_store w1)" and r1: "r1 = Inr (Some (z' + 1, cp')) \<or> r1 = Inl ErrRepo"
    by blast
  have "r1 = Inr (Some (z' + 1, cp'))" using r1 only [of ErrRepo] by auto
  then have "r = Inr (z' + 1, cp') \<and> w' = w1" using assms(10) p by (subst (asm) scan_and_commit.simps) simp
  with ok show ?thesis by blast
qed

lemma poll_loop_succeeds:
  assumes "healthy e" and "ix_dlq ix" and "production ix" and "chain_ok C" and "serves e C" and "head_ok ix current"
    and "tracked ix e C a cp (xw_store w)" and "ix_start_block ix \<le> a" and "a \<le> current + 1"
    and "Suc (unat current) \<le> n + unat a"
  shows "fst (poll_loop n ix e a current cp w) = Inr ()"
  using assms(7-10)
proof (induction n arbitrary: a cp w)
  case 0
  have c: "current \<noteq> - 1" using assms(6) by (auto simp: head_ok_def)
  have "a = current + 1" using 0 by (intro antisym) (simp_all add: word_le_nat_alt unat_Suc [OF c])
  then have "\<not> a \<le> current" using word_succ_gt [OF c] by auto
  then show ?case by (simp add: ret_def)
next
  case (Suc n)
  have c: "current \<noteq> - 1" "current < - 1" "unat current + unat (ix_max_log_range ix) < 2 ^ 64"
    using assms(6) by (auto simp: head_ok_def)
  show ?case
  proof (cases "a \<le> current")
    case False
    then show ?thesis by (simp add: ret_def)
  next
    case True
    let ?z = "chunk_end ix a current"
    note z = chunk_end_bounds [OF True c(3)]
    have zmax: "?z < - 1" using z c(2) by auto
    obtain r1 w1 where p: "scan_and_commit ix e 1 initial_range_backoff a ?z current cp w = (r1, w1)"
      by (cases "scan_and_commit ix e 1 initial_range_backoff a ?z current cp w")
    obtain cp' z' where z': "a \<le> z'" "z' \<le> ?z" and t: "tracked ix e C (z' + 1) cp' (xw_store w1)" and r1: "r1 = Inr (z' + 1, cp')"
      using scan_and_commit_succeeds [OF assms(1-5) Suc.prems(1,2) conjunct1 [OF z] zmax p] by blast
    have max: "z' \<noteq> - 1" using z' zmax by auto
    have "z' \<le> current" using z' z by auto
    have "fst (poll_loop n ix e (z' + 1) current cp' w1) = Inr ()"
    proof (rule Suc.IH [OF t])
      show "ix_start_block ix \<le> z' + 1" using Suc.prems(2) z'(1) word_succ_gt [OF max] by auto
      show "z' + 1 \<le> current + 1" using \<open>z' \<le> current\<close> by (simp add: word_le_nat_alt unat_Suc [OF max] unat_Suc [OF c(1)])
      show "Suc (unat current) \<le> n + unat (z' + 1)"
        using Suc.prems(4) z'(1) by (simp add: unat_Suc [OF max] word_le_nat_alt)
    qed
    then show ?thesis using True p r1 by (simp add: bindM_def)
  qed
qed

text \<open>The search finds an ancestor if there is one to find.\<close>

lemma search_none:
  assumes "healthy e" and "serves e D" and "search_ancestor ix e bs w = (Inr None, w')" and "b \<in> set bs"
  shows "bh_get (ix_chain_id ix) b (xs_hashes (xw_store w)) \<noteq> Some (hash_hex (ch_hash D b))"
  using assms(3,4)
proof (induction bs arbitrary: w)
  case Nil
  then show ?case by simp
next
  case (Cons k bs)
  have q: "quiet e" using assms(1) by (simp add: healthy_def)
  have nf: "\<not> failed (xw_store w) (Inr None :: index_error + (u64 \<times> string) option) w'" by (simp add: failed_def)
  obtain got w1 where g: "ix_read e (\<lambda>s. bh_get (ix_chain_id ix) k (xs_hashes s)) w = (Inr got, w1)" and s1: "xw_store w1 = xw_store w"
    and run1: "(case got of None \<Rightarrow> search_ancestor ix e bs
      | Some kept \<Rightarrow> bindM (header_hash e k) (\<lambda>h.
         if hash_hex h = kept then ret (Some (k, kept)) else search_ancestor ix e bs)) w1 = (Inr None, w')"
    using bind_read [OF Cons.prems(1) [unfolded search_ancestor.simps] reads_read [OF q] refl nf] by blast
  have got: "got = bh_get (ix_chain_id ix) k (xs_hashes (xw_store w))" by (rule ix_read_InrD [OF q g])
  show ?case
  proof (cases got)
    case None
    then show ?thesis using Cons.IH [of w1] run1 s1 got Cons.prems(2) by auto
  next
    case (Some kept)
    then have "bindM (header_hash e k) (\<lambda>h.
         if hash_hex h = kept then ret (Some (k, kept)) else search_ancestor ix e bs) w1 = (Inr None, w')"
      using run1 by simp
    from bind_read [OF this reads_header [OF q] s1 nf] obtain kh w2 where
      h: "header_hash e k w1 = (Inr kh, w2)" and s2: "xw_store w2 = xw_store w"
      and run2: "(if hash_hex kh = kept then ret (Some (k, kept)) else search_ancestor ix e bs) w2 = (Inr None, w')"
      by blast
    have "hash_hex kh \<noteq> kept" using run2 by (auto simp: ret_def split: if_splits)
    moreover have "kh = ch_hash D k" by (rule header_InrD [OF assms(2) h])
    ultimately show ?thesis using Cons.IH [of w2] run2 s2 got Some Cons.prems(2) by auto
  qed
qed

text \<open>A reorg the policy lets the indexer repair by itself: back to the start block, or to a retained hash the node confirms.\<close>

definition recoverable :: "indexer \<Rightarrow> chain \<Rightarrow> indexer_checkpoint \<Rightarrow> u64 \<Rightarrow> index_store \<Rightarrow> bool" where
  "recoverable ix D cp current st \<longleftrightarrow> depth_floor ix cp \<le> ix_start_block ix \<or>
     (\<exists>b. policy_floor ix cp < b \<and> b \<le> ck_last_block cp \<and> b \<le> current \<and>
       bh_get (ix_chain_id ix) b (xs_hashes st) = Some (hash_hex (ch_hash D b)))"

lemma ancestor_succeeds:
  assumes "healthy e" and "production ix" and "serves e D"
    and "depth_floor ix cp \<le> ix_start_block ix \<or> (\<exists>k. policy_floor ix cp < k \<and> k \<le> b \<and>
      bh_get (ix_chain_id ix) k (xs_hashes (xw_store w)) = Some (hash_hex (ch_hash D k)))"
    and "find_common_ancestor ix e cp b w = (r, w')"
  shows "\<exists>x. r = Inr x"
proof -
  have "\<not> \<not> ix_hashes ix" using assms(2) by (simp add: production_def)
  note run = assms(5) [unfolded find_common_ancestor_def if_not_P [OF this]]
  let ?bs = "candidates (policy_floor ix cp) b"
  let ?rebuild = "if \<not> ix_start_block ix \<ge> depth_floor ix cp then raise ErrReconciliationRequired
      else let at = (if policy_floor ix cp > b then b else policy_floor ix cp)
           in if at = 0 then ret (0, []) else bindM (header_hash e at) (\<lambda>h. ret (at, hash_hex h))"
  obtain r1 w1 where s: "search_ancestor ix e ?bs w = (r1, w1)" by (cases "search_ancestor ix e ?bs w")
  obtain found where r1: "r1 = Inr found"
    using raises_none [OF raises_search [OF assms(1)] s] by blast
  have run1: "(case found of Some r \<Rightarrow> ret r | None \<Rightarrow> ?rebuild) w1 = (r, w')"
    using run s r1 by (simp add: bindM_def)
  show ?thesis
  proof (cases found)
    case (Some x)
    then show ?thesis using run1 by (cases x) (auto simp: ret_def)
  next
    case None
    have "\<not> (policy_floor ix cp < k \<and> k \<le> b \<and>
        bh_get (ix_chain_id ix) k (xs_hashes (xw_store w)) = Some (hash_hex (ch_hash D k)))" for k
    proof
      assume k: "policy_floor ix cp < k \<and> k \<le> b \<and>
        bh_get (ix_chain_id ix) k (xs_hashes (xw_store w)) = Some (hash_hex (ch_hash D k))"
      then have "policy_floor ix cp < b" "policy_floor ix cp + 1 \<le> k" by (auto intro: inc_le)
      then have "k \<in> set ?bs" using k by (simp add: candidates_def set_blocks_between)
      then show False using search_none [OF assms(1,3) s [unfolded r1 None]] k by blast
    qed
    then have floor: "depth_floor ix cp \<le> ix_start_block ix" using assms(4) by blast
    have "?rebuild w1 = (r, w')" using run1 None by simp
    moreover have "raises {} ?rebuild"
      using floor assms(1) by (auto simp: Let_def intro!: raises_intros)
    ultimately show ?thesis using raises_none by blast
  qed
qed

lemma rollback_succeeds:
  assumes "healthy e" and "production ix" and "fork ix C D" and "serves e D"
    and "consistent ix e C (n + 1) (xw_store w)" and "checkpoint_at ix C n cp" and "stored_checkpoint ix (xw_store w) = Some cp"
    and "ix_start_block ix \<le> b" and "b \<le> n"
    and "depth_floor ix cp \<le> ix_start_block ix \<or> (\<exists>k. policy_floor ix cp < k \<and> k \<le> b \<and>
      bh_get (ix_chain_id ix) k (xs_hashes (xw_store w)) = Some (hash_hex (ch_hash D k)))"
    and "rollback ix e cp b w = (r, w')"
  shows "\<exists>cp'. r = Inr cp' \<and> tracked ix e D (ck_last_block cp' + 1) cp' (xw_store w') \<and>
    ix_start_block ix \<le> ck_last_block cp' \<and> ck_last_block cp' \<le> b"
proof -
  have q: "quiet e" using assms(1) by (simp add: healthy_def)
  obtain r1 w1 where f: "find_common_ancestor ix e cp b w = (r1, w1)" by (cases "find_common_ancestor ix e cp b w")
  obtain a h where r1: "r1 = Inr (a, h)" using ancestor_succeeds [OF assms(1,2,4,10) f] by auto
  let ?rewind = "bindM (ix_now e) (\<lambda>now. rewind ix e (Some cp) (new_checkpoint ix a h now) (a + 1))"
  have run: "?rewind w1 = (r, w')" using assms(11) f r1 by (simp add: rollback_def tryM_def bindM_def)
  have only: "raises {ErrVersionConflict} ?rewind"
    using assms(1,2) by (auto simp: rewind_def production_def Let_def intro!: raises_intros)
  have no: "\<not> (\<exists>x. r = Inl x \<and> (plain_error x \<or> x = ErrReconciliationRequired))" "r \<noteq> Inl ErrRepo"
    "r \<noteq> Inl ErrReconciliationRequired"
    using raisesD [OF only] run by (auto simp: plain_error_def)
  show ?thesis using rollback_ok [OF q assms(2-9,11)] no by blast
qed

lemma check_reorg_succeeds:
  assumes "healthy e" and "production ix" and "fork ix C D" and "serves e D" and "head_ok ix current"
    and "consistent ix e C (n + 1) (xw_store w)" and "checkpoint_at ix C n cp" and "stored_checkpoint ix (xw_store w) = Some cp"
    and "recoverable ix D cp current (xw_store w)"
    and "check_reorg ix e cp True current w = (r, w')"
  shows "\<exists>cp'. r = Inr (cp', True)"
proof -
  have q: "quiet e" using assms(1) by (simp add: healthy_def)
  have cp: "ck_last_block cp = n" "ix_start_block ix \<le> n" using assms(7) by (simp_all add: checkpoint_at_def)
  have head: "ix_start_block ix \<le> current" using assms(5) by (simp add: head_ok_def)
  have sure: "\<exists>cp'. bindM (rollback ix e cp b) (\<lambda>cp. ret (cp, True)) v = (Inr (cp', True), snd (rollback ix e cp b v))"
    if "ix_start_block ix \<le> b" "b \<le> n" and "n \<le> b \<or> current \<le> b" and v: "xw_store v = xw_store w" for b v
  proof -
    obtain r1 w1 where rb: "rollback ix e cp b v = (r1, w1)" by (cases "rollback ix e cp b v")
    have "depth_floor ix cp \<le> ix_start_block ix \<or> (\<exists>k. policy_floor ix cp < k \<and> k \<le> b \<and>
      bh_get (ix_chain_id ix) k (xs_hashes (xw_store v)) = Some (hash_hex (ch_hash D k)))"
      using assms(9) that(3) cp v unfolding recoverable_def by (metis order_trans)
    from rollback_succeeds [OF assms(1-4) _ assms(7) _ that(1,2) this rb, unfolded v, OF assms(6,8)]
    show ?thesis using rb by (auto simp: bindM_def ret_def)
  qed
  show ?thesis
  proof (cases "0 < ck_last_block cp \<and> ck_last_block_hash cp \<noteq> []")
    case False
    then show ?thesis using assms(10) by (auto simp: check_reorg_def ret_def)
  next
    case True
    show ?thesis
    proof (cases "current < n")
      case True
      then show ?thesis
        using sure [of current w] head assms(10) \<open>0 < _ \<and> _\<close> cp by (auto simp: check_reorg_def)
    next
      case False
      obtain r1 w1 where h: "header_hash e n w = (r1, w1)" by (cases "header_hash e n w")
      obtain hh where r1: "r1 = Inr hh" using raises_none [OF raises_header [OF assms(1)] h] by blast
      have s1: "xw_store w1 = xw_store w" using readsD [OF reads_header [OF q] h] by simp
      have "(if hash_hex hh \<noteq> ck_last_block_hash cp
          then bindM (rollback ix e cp (ck_last_block cp)) (\<lambda>cp. ret (cp, True)) else ret (cp, True)) w1 = (r, w')"
        using assms(10) True False cp by (simp add: check_reorg_def bindM_run [where m = "header_hash e n", OF h [unfolded r1]])
      then show ?thesis using sure [of n w1] cp s1 by (auto simp: ret_def split: if_splits)
    qed
  qed
qed

lemma poll_scan_succeeds:
  assumes "healthy e" and "ix_dlq ix" and "production ix" and "chain_ok C" and "serves e C" and "head_ok ix current"
    and "tracked ix e C (if existed then ck_last_block cp + 1 else ix_start_block ix) cp (xw_store w)"
    and "existed \<longrightarrow> ix_start_block ix \<le> ck_last_block cp"
  shows "fst (poll_scan ix e current cp existed w) = Inr ()"
proof (cases "existed \<and> current \<le> ck_last_block cp")
  case True
  then show ?thesis by (simp add: poll_scan_def ret_def)
next
  case False
  have c: "ix_start_block ix \<le> current" "current \<noteq> - 1" using assms(6) by (auto simp: head_ok_def)
  let ?a = "if existed then ck_last_block cp + 1 else ix_start_block ix"
  have a: "ix_start_block ix \<le> ?a \<and> ?a \<le> current"
  proof (cases existed)
    case True
    then have "ck_last_block cp < current" using False by auto
    moreover have "ck_last_block cp \<noteq> - 1" using calculation c by auto
    ultimately show ?thesis using assms(8) True word_succ_gt [of "ck_last_block cp"]
      by (auto simp: word_less_nat_alt word_le_nat_alt unat_Suc)
  next
    case False
    then show ?thesis using c by simp
  qed
  then have "\<not> ?a > current" by (simp only: not_less)
  then have at: "(if ?a > current then current else ?a) = ?a" by (rule if_not_P)
  have fits: "unat ?a \<le> unat current" using conjunct2 [OF a] unfolding word_le_nat_alt .
  have "fst (poll_loop (Suc (unat current - unat ?a)) ix e ?a current cp w) = Inr ()"
  proof (rule poll_loop_succeeds [OF assms(1-7) conjunct1 [OF a]])
    show "?a \<le> current + 1" using conjunct2 [OF a] word_succ_gt [OF c(2)] by (meson le_less_trans less_imp_le)
    show "Suc (unat current) \<le> Suc (unat current - unat ?a) + unat ?a" using fits by linarith
  qed
  then show ?thesis using False at by (simp only: poll_scan_def Let_def if_False)
qed

text \<open>
  C2: a healthy node is caught up with. If no call fails, the dead-letter queue is configured, and
  every reorg the poll may meet is one its policy allows it to repair (the start block is within
  the depth limit, or a retained hash above the limit is still canonical), then the poll succeeds
  and the index holds exactly the node's chain up to its head.
\<close>

theorem poll_reaches_head:
  assumes "production ix" and "ix_dlq ix" and "healthy e" and "fork ix C D" and "serves e D"
    and "\<forall>t h. xe_head e t = Some h \<longrightarrow> head_ok ix h" and "settled ix e C (xw_store w)"
    and "\<forall>t h cp. xe_head e t = Some h \<longrightarrow> stored_checkpoint ix (xw_store w) = Some cp \<longrightarrow> recoverable ix D cp h (xw_store w)"
  shows "\<exists>w' t h. poll ix e w = (Inr (), w') \<and> xe_head e t = Some h \<and> indexed ix e D h (xw_store w')"
proof -
  have q: "quiet e" using assms(3) by (simp add: healthy_def)
  have D: "chain_ok D" using assms(4) by (simp add: fork_def)
  let ?s = "xw_store w"
  let ?start = "new_checkpoint ix (ix_start_block ix) [] 0"
  obtain r1 w1 where rd: "ix_read e (stored_checkpoint ix) w = (r1, w1)" by (cases "ix_read e (stored_checkpoint ix) w")
  obtain found where r1: "r1 = Inr found" using raises_none [OF raises_read [OF assms(3)] rd] by blast
  have found: "found = stored_checkpoint ix ?s" using ix_read_InrD [OF q rd [unfolded r1]] .
  have s1: "xw_store w1 = ?s" using readsD [OF reads_read [OF q] rd] by simp
  let ?ce = "case found of Some cp \<Rightarrow> (cp, True) | None \<Rightarrow> (?start, False)"
  obtain cp existed where ce: "?ce = (cp, existed)" by (cases ?ce)
  have load: "load_checkpoint ix e w = (Inr (cp, existed), w1)"
    using rd r1 ce by (simp add: load_checkpoint_def stored_checkpoint_def [abs_def] bindM_def ret_def)
  obtain r2 w2 where hd: "source_call e (xe_head e) w1 = (r2, w2)" by (cases "source_call e (xe_head e) w1")
  have "raises {} (source_call e (xe_head e))" using assms(3) by (intro raises_source) (simp add: healthy_def)
  then obtain current where r2: "r2 = Inr current" using raises_none hd by blast
  have head: "xe_head e (xw_tick w1) = Some current" using hd r2 by (auto simp: source_call_def split: option.splits)
  then have ok: "head_ok ix current" using assms(6) by blast
  have s2: "xw_store w2 = ?s" using readsD [OF reads_source [OF q] hd] s1 by simp
  have "fst (poll_body ix e w) = Inr ()"
  proof (cases found)
    case None
    then have fresh: "cp = ?start" "\<not> existed" using ce by simp_all
    have "ch_hash C (ix_start_block ix) = ch_hash D (ix_start_block ix)" using assms(4) by (simp add: fork_def)
    then have "consistent ix e D (ix_start_block ix) ?s"
      using assms(7) None found consistent_agree [of "ix_start_block ix" C D] fork_agree [OF assms(4)]
      by (fastforce simp: settled_def fresh_index_def indexed_def)
    then have "tracked ix e D (ix_start_block ix) cp (xw_store w2)" using None found fresh s2 by (simp add: tracked_def new_checkpoint_def)
    then have "fst (poll_scan ix e current cp False w2) = Inr ()"
      by (intro poll_scan_succeeds [OF assms(3,2,1) D assms(5) ok]) simp_all
    then show ?thesis
      using fresh
      by (simp add: poll_body_def check_reorg_fresh bindM_run [where m = "load_checkpoint ix e", OF load]
          bindM_run [where m = "source_call e (xe_head e)", OF hd [unfolded r2]] bindM_run [where m = "ret _", OF ret_run])
  next
    case (Some c)
    then have c: "cp = c" "existed" using ce by simp_all
    then have cp: "stored_checkpoint ix ?s = Some cp" using Some found by simp
    obtain n where n: "consistent ix e C (n + 1) ?s" "checkpoint_at ix C n cp"
      using assms(7) cp by (auto simp: settled_def fresh_index_def indexed_def)
    have rec: "recoverable ix D cp current ?s" using assms(8) head cp by blast
    obtain r3 w3 where k: "check_reorg ix e cp True current w2 = (r3, w3)" by (cases "check_reorg ix e cp True current w2")
    obtain cp' where r3: "r3 = Inr (cp', True)"
      using check_reorg_succeeds [OF assms(3,1,4,5) ok _ n(2) _ _ k, unfolded s2, OF n(1) cp rec] by blast
    have t: "tracked ix e D (ck_last_block cp' + 1) cp' (xw_store w3)" "ix_start_block ix \<le> ck_last_block cp'"
      using check_reorg_ok [OF q assms(1,4,5) ok _ n(2) _ k, unfolded s2, OF n(1) cp] r3 by auto
    have "fst (poll_scan ix e current cp' True w3) = Inr ()"
      by (rule poll_scan_succeeds [OF assms(3,2,1) D assms(5) ok]) (use t in simp_all)
    moreover have "\<not> ck_reconciliation_required cp" using n(2) by (simp add: checkpoint_at_def)
    ultimately show ?thesis
      using c(2)
      by (simp add: poll_body_def bindM_run [where m = "load_checkpoint ix e", OF load]
          bindM_run [where m = "source_call e (xe_head e)", OF hd [unfolded r2]]
          bindM_run [where m = "check_reorg ix e cp True current", OF k [unfolded r3]])
  qed
  then obtain w' where body: "poll_body ix e w = (Inr (), w')" by (cases "poll_body ix e w") auto
  then have "poll ix e w = (Inr (), w')" by (simp add: poll_def)
  with poll_body_outcome [OF assms(1) q assms(4-7) body] show ?thesis by (auto simp: poll_outcome_def)
qed

theorem poll_reaches_head_witness:
  "\<exists>w'. poll demo_indexer demo_node demo_index_world = (Inr (), w') \<and> indexed demo_indexer demo_node new_chain 3 (xw_store w')"
proof -
  have "healthy demo_node" by (simp add: healthy_def demo_quiet) (simp add: demo_node_def)
  moreover have "\<forall>t h. xe_head demo_node t = Some h \<longrightarrow> head_ok demo_indexer h"
    by (simp add: demo_node_def head_ok_def demo_indexer_sel)
  moreover have "settled demo_indexer demo_node old_chain (xw_store demo_index_world)"
    using demo_indexed by (auto simp: settled_def demo_index_world_def)
  moreover have "recoverable demo_indexer new_chain cp h (xw_store demo_index_world)"
    if cp: "stored_checkpoint demo_indexer (xw_store demo_index_world) = Some cp" for cp h
  proof -
    have "ck_last_block cp = 2"
      using demo_indexed cp unfolding indexed_def checkpoint_at_def by (auto simp: demo_index_world_def)
    then show ?thesis by (simp add: recoverable_def depth_floor_def demo_indexer_sel)
  qed
  ultimately have "\<exists>w' t h. poll demo_indexer demo_node demo_index_world = (Inr (), w') \<and> xe_head demo_node t = Some h \<and>
      indexed demo_indexer demo_node new_chain h (xw_store w')"
    by (intro poll_reaches_head [OF demo_indexer_sel(6,8) _ demo_fork demo_serves]) blast+
  then show ?thesis by (auto simp: demo_node_def)
qed

section \<open>A reorg behind a shrunk scan\<close>

text \<open>
  When \<^verbatim>\<open>scanChunk\<close> shrinks the range, the boundary hash taken before the scan belongs to another
  block and is not compared, and validation looks only at the logs that came back. If the chain
  reorganises between the shrunk \<^verbatim>\<open>FilterLogs\<close> and the header read that follows it, and the old fork
  had no logs there, the chunk is committed without the new fork's logs but under the new fork's
  hash, so no later poll sees a mismatch.
\<close>

definition reorging_node :: index_env where
  "reorging_node = demo_node\<lparr>xe_header := (\<lambda>t b. Some (if t \<le> 2 then 99 else ch_hash old_chain b)),
     xe_logs := (\<lambda>t a z addrs.
       if t = 1 then Inl \<lparr>se_deadline = True, se_net_timeout = False, se_text = []\<rparr> else Inr [])\<rparr>"

definition empty_world :: index_world where
  "empty_world = \<lparr>xw_tick = 0, xw_store = \<lparr>xs_events = [], xs_hashes = [], xs_checkpoints = []\<rparr>, xw_letters = [], xw_slept = []\<rparr>"

theorem shrunk_scan_misses_reorg:
  "\<exists>cp w'. scan_attempt demo_indexer reorging_node 1 4 4 (new_checkpoint demo_indexer 1 [] 0) empty_world = (Inr (Some (3, cp)), w') \<and>
    (\<exists>c. stored_checkpoint demo_indexer (xw_store w') = Some c \<and> ck_last_block c = 2 \<and>
      ck_last_block_hash c = hash_hex (ch_hash old_chain 2)) \<and>
    demo_log 2 2 \<in> set (ch_logs old_chain 2) \<and> event_of demo_indexer reorging_node (demo_log 2 2) \<noteq> None \<and>
    xs_events (xw_store w') = []"
proof -
  let ?at = "\<lambda>t. empty_world\<lparr>xw_tick := t\<rparr>"
  let ?cp = "new_checkpoint demo_indexer 1 [] 0"
  let ?c = "(new_checkpoint demo_indexer 2 (hash_hex 2) 5)\<lparr>ck_version := 1\<rparr>"
  have sel: "ix_hashes demo_indexer" "ix_chunks demo_indexer" "ix_max_history demo_indexer = 256"
    by (simp_all add: demo_indexer_def new_indexer_def)
  note node = reorging_node_def demo_node_def empty_world_def meddle_def
  have start: "empty_world = ?at 0" by (simp add: empty_world_def)
  have before: "header_hash reorging_node 4 empty_world = (Inr 99, ?at (Suc 0))"
    by (simp add: header_hash_def source_call_def node)
  have scan: "scan_chunk demo_indexer reorging_node 1 initial_range_backoff 1 4 (?at (Suc 0)) = (Inr ([], 2), ?at 3)"
    by (subst scan_chunk.simps, simp add: filter_logs_def node is_timeout_error_def shrunk_def Let_def,
        subst scan_chunk.simps, simp add: filter_logs_def meddle_def)
  have after: "header_hash reorging_node 2 (?at 3) = (Inr 2, ?at 4)"
    by (simp add: header_hash_def source_call_def node old_chain_def)
  have blocks: "blocks_between (record_from demo_indexer 1 4) 2 = [1, 2]"
    by (simp add: blocks_between_def record_from_def sel upt_rec)
  have hashes: "collect_hashes reorging_node [1, 2] [(2, 2)] (?at 4) = (Inr [(1, hash_hex 1), (2, hash_hex 2)], ?at 5)"
    by (simp add: header_hash_def source_call_def node old_chain_def bindM_def ret_def)
  let ?w = "\<lparr>xw_tick = 6, xw_store = \<lparr>xs_events = [], xs_hashes = [(1, [(1, hash_hex 1), (2, hash_hex 2)])],
      xs_checkpoints = ck_set ?c []\<rparr>, xw_letters = [], xw_slept = []\<rparr>"
  have commit: "commit_chunk demo_indexer reorging_node 1 2 4 (hash_hex 2) [] [(2, 2)] ?cp (?at 4) =
      (Inr (?cp\<lparr>ck_last_block := 2, ck_last_block_hash := hash_hex 2, ck_updated_at := 5, ck_version := 1\<rparr>), ?w)"
    by (simp add: commit_chunk_def chunk_hashes_def blocks sel bindM_run [where m = "collect_hashes reorging_node [1, 2] [(2, 2)]", OF hashes]
        bindM_run [where m = "ret _", OF ret_run] Let_def prune_floor_def del: collect_hashes.simps)
      (simp add: node monad_defs ix_now_def ix_write_def ix_call_def Let_def commit_chunk_store_def current_version_def
        new_checkpoint_def demo_indexer_sel ck_get_def record_hashes_def prune_hashes_def bh_record_def hashes_of_def)
  have run: "scan_attempt demo_indexer reorging_node 1 4 4 ?cp empty_world =
      (Inr (Some (3, ?cp\<lparr>ck_last_block := 2, ck_last_block_hash := hash_hex 2, ck_updated_at := 5, ck_version := 1\<rparr>)), ?w)"
    by (simp add: scan_attempt_def bindM_run [where m = "header_hash reorging_node 4", OF before]
        bindM_run [where m = "scan_chunk demo_indexer reorging_node 1 initial_range_backoff 1 4", OF scan]
        bindM_run [where m = "header_hash reorging_node 2", OF after] bindM_run [where m = "ret _", OF ret_run]
        bindM_run [where m = "commit_chunk demo_indexer reorging_node 1 2 4 (hash_hex 2) [] [(2, 2)] ?cp", OF commit] ret_run)
  have cp: "stored_checkpoint demo_indexer (xw_store ?w) = Some ?c"
    using ck_get_set [of ?c "[]"] by (simp add: stored_checkpoint_def new_checkpoint_def demo_indexer_sel)
  have log: "event_of demo_indexer reorging_node (demo_log 2 2) \<noteq> None" "demo_log 2 2 \<in> set (ch_logs old_chain 2)"
    by (simp_all add: event_of_def demo_indexer_sel demo_log_def default_decode_def old_chain_def)
  have "ck_last_block ?c = 2 \<and> ck_last_block_hash ?c = hash_hex (ch_hash old_chain 2)"
    by (simp add: new_checkpoint_def old_chain_def)
  then show ?thesis using run cp log by (intro exI [of _ ?w] exI conjI) (assumption | simp)+
qed

end
