(* ===== verification/Query.thy ===== *)
theory Query
  imports Codec "HOL-Library.Multiset"
begin

text \<open>
  Query strings as server/internal/auth/idempotency.go uses them: \<^verbatim>\<open>url.URL.Query\<close> and
  \<^verbatim>\<open>url.QueryEscape\<close> of the standard library, and \<^verbatim>\<open>canonicalQuery\<close>, which makes parameter
  order irrelevant to an idempotency key. Strings are byte strings, as in Go.
\<close>

section \<open>net/url\<close>

definition hex_value :: "char \<Rightarrow> nat option" where
  "hex_value c =
     (let n = of_char c :: nat in
      if 48 \<le> n \<and> n \<le> 57 then Some (n - 48)
      else if 97 \<le> n \<and> n \<le> 102 then Some (n - 87)
      else if 65 \<le> n \<and> n \<le> 70 then Some (n - 55)
      else None)"

fun query_unescape :: "string \<Rightarrow> string option" where
  "query_unescape [] = Some []"
| "query_unescape (c # s) =
     (if c = CHR ''%'' then
        (case s of
           a # b # t \<Rightarrow>
             (case (hex_value a, hex_value b) of
                (Some x, Some y) \<Rightarrow> map_option (Cons (char_of (16 * x + y))) (query_unescape t)
              | _ \<Rightarrow> None)
         | _ \<Rightarrow> None)
      else map_option (Cons (if c = CHR ''+'' then CHR '' '' else c)) (query_unescape s))"

text \<open>\<^verbatim>\<open>strings.Cut\<close>: the part before the first \<open>sep\<close> and the part after it.\<close>

fun cut_at :: "char \<Rightarrow> string \<Rightarrow> string \<times> string" where
  "cut_at sep [] = ([], [])"
| "cut_at sep (c # s) = (if c = sep then ([], s) else (case cut_at sep s of (a, b) \<Rightarrow> (c # a, b)))"

lemma cut_le: "cut_at sep s = (a, b) \<Longrightarrow> length b \<le> length s"
  by (induction s arbitrary: a b) (auto split: prod.splits if_splits intro: le_SucI)

lemma cut_less: "cut_at sep s = (a, b) \<Longrightarrow> s \<noteq> [] \<Longrightarrow> length b < length s"
  by (cases s) (auto split: prod.splits if_splits dest: cut_le)

text \<open>The parameters of a query in order; malformed ones are skipped, as \<^verbatim>\<open>Query\<close> ignores the error.\<close>

function query_pairs :: "string \<Rightarrow> (string \<times> string) list" where
  "query_pairs q =
     (if q = [] then []
      else (case cut_at (CHR ''&'') q of (param, rest) \<Rightarrow>
        (if CHR '';'' \<in> set param \<or> param = [] then query_pairs rest
         else (case cut_at (CHR ''='') param of (k, v) \<Rightarrow>
           (case (query_unescape k, query_unescape v) of
              (Some k', Some v') \<Rightarrow> (k', v') # query_pairs rest
            | _ \<Rightarrow> query_pairs rest)))))"
  by pat_completeness auto
termination
  by (relation "measure length") (auto dest: cut_less [OF sym])

declare query_pairs.simps [simp del]

definition unreserved :: "char \<Rightarrow> bool" where
  "unreserved c =
     (let n = of_char c :: nat in
      (97 \<le> n \<and> n \<le> 122) \<or> (65 \<le> n \<and> n \<le> 90) \<or> (48 \<le> n \<and> n \<le> 57) \<or>
      c = CHR ''-'' \<or> c = CHR ''_'' \<or> c = CHR ''.'' \<or> c = CHR ''~'')"

definition upper_hex :: "nat \<Rightarrow> char" where
  "upper_hex d = (if d < 10 then char_of (48 + d) else char_of (55 + d))"

definition escape_char :: "char \<Rightarrow> string" where
  "escape_char c =
     (if unreserved c then [c]
      else if c = CHR '' '' then ''+''
      else [CHR ''%'', upper_hex (of_char c div 16), upper_hex (of_char c mod 16)])"

definition query_escape :: "string \<Rightarrow> string" where
  "query_escape s = concat (map escape_char s)"

text \<open>\<^verbatim>\<open>url.Values\<close>: each key with its values in order of appearance.\<close>

type_synonym url_values = "(string, string list) store"

definition add_value :: "string \<times> string \<Rightarrow> url_values \<Rightarrow> url_values" where
  "add_value kv q = (case lookup q (fst kv) of
     None \<Rightarrow> put (fst kv) [snd kv] q | Some vs \<Rightarrow> put (fst kv) (vs @ [snd kv]) q)"

definition url_query :: "string \<Rightarrow> url_values" where
  "url_query raw = fold add_value (query_pairs raw) []"

section \<open>strings and encoding/hex\<close>

text \<open>\<^verbatim>\<open>hex.DecodeString\<close>.\<close>

fun decode_hex :: "string \<Rightarrow> byte list option" where
  "decode_hex [] = Some []"
| "decode_hex [_] = None"
| "decode_hex (a # b # s) =
     (case (hex_value a, hex_value b, decode_hex s) of
        (Some x, Some y, Some bs) \<Rightarrow> Some (word_of_nat (16 * x + y) # bs)
      | _ \<Rightarrow> None)"

definition trim_prefix :: "string \<Rightarrow> string \<Rightarrow> string" where
  "trim_prefix p s = (if take (length p) s = p then drop (length p) s else s)"

text \<open>\<^verbatim>\<open>strings.TrimSpace\<close>, for ASCII text.\<close>

definition is_space :: "char \<Rightarrow> bool" where
  "is_space c \<longleftrightarrow> (of_char c :: nat) \<in> {9, 10, 11, 12, 13, 32}"

definition trim_space :: "string \<Rightarrow> string" where
  "trim_space s = rev (dropWhile is_space (rev (dropWhile is_space s)))"

section \<open>The canonical query\<close>

fun write_pairs :: "url_values \<Rightarrow> string list \<Rightarrow> bool \<Rightarrow> string" where
  "write_pairs q [] first = []"
| "write_pairs q (k # ks) first =
     (if first then [] else ''&'') @ query_escape k @
     concat (map (\<lambda>v. ''='' @ query_escape v) (sort (the (lookup q k)))) @ write_pairs q ks False"

definition canonical_query :: "string \<Rightarrow> string" where
  "canonical_query raw =
     (let q = url_query raw in if q = [] then [] else write_pairs q (sort (map fst q)) True)"

section \<open>Separated lists\<close>

fun join :: "char \<Rightarrow> string list \<Rightarrow> string" where
  "join sep [] = []"
| "join sep [x] = x"
| "join sep (x # y # zs) = x @ sep # join sep (y # zs)"

lemma append_sep_inject:
  "sep \<notin> set a \<Longrightarrow> sep \<notin> set b \<Longrightarrow> a @ sep # r = b @ sep # t \<Longrightarrow> a = b \<and> r = t"
proof (induction a arbitrary: b)
  case Nil
  then show ?case by (cases b) auto
next
  case (Cons x a)
  then show ?case by (cases b) auto
qed

lemma join_inject:
  assumes "\<forall>x \<in> set xs \<union> set ys. sep \<notin> set x" and "xs \<noteq> []" and "ys \<noteq> []" and "join sep xs = join sep ys"
  shows "xs = ys"
  using assms
proof (induction xs arbitrary: ys)
  case Nil
  then show ?case by simp
next
  case (Cons x xs)
  obtain y ys' where ys: "ys = y # ys'" using Cons.prems(3) by (cases ys) auto
  have free: "sep \<notin> set x" "sep \<notin> set y" using Cons.prems(1) by (simp_all add: ys)
  have split: "join sep (z # zs) = (if zs = [] then z else z @ sep # join sep zs)" for z zs
    by (cases zs) simp_all
  have eq: "(if xs = [] then x else x @ sep # join sep xs) = (if ys' = [] then y else y @ sep # join sep ys')"
    using Cons.prems(4) unfolding ys split .
  show ?case
  proof (cases "xs = [] \<or> ys' = []")
    case True
    then show ?thesis using eq free by (auto simp: ys split: if_splits)
  next
    case False
    then have "x @ sep # join sep xs = y @ sep # join sep ys'" using eq by simp
    from append_sep_inject [OF free this] have "x = y" and "join sep xs = join sep ys'" by simp_all
    moreover from this(2) have "xs = ys'" using Cons.prems(1) False by (intro Cons.IH) (simp_all add: ys)
    ultimately show ?thesis by (simp add: ys)
  qed
qed

section \<open>Escaping\<close>

lemma char_digits:
  "(of_char c :: nat) div 16 < 16" "(of_char c :: nat) mod 16 < 16"
  "char_of (16 * ((of_char c :: nat) div 16) + of_char c mod 16) = c"
proof -
  have "(of_char c :: nat) < 256" by simp
  then show "(of_char c :: nat) div 16 < 16" by (simp only: less_mult_imp_div_less)
  have "16 * ((of_char c :: nat) div 16) + of_char c mod 16 = of_char c" by (rule mult_div_mod_eq)
  then show "char_of (16 * ((of_char c :: nat) div 16) + of_char c mod 16) = c" by (simp only: char_of_char)
qed simp

lemma hex_value_upper: "d < 16 \<Longrightarrow> hex_value (upper_hex d) = Some d"
  by (auto simp: hex_value_def upper_hex_def Let_def)

lemma unescape_char: "query_unescape (escape_char c @ t) = map_option (Cons c) (query_unescape t)"
proof (cases "unreserved c")
  case True
  then have "c \<noteq> CHR ''%''" "c \<noteq> CHR ''+''" by (auto simp: unreserved_def)
  then show ?thesis using True by (simp add: escape_char_def)
next
  case False
  then show ?thesis
    by (simp only: escape_char_def append.simps query_unescape.simps list.case hex_value_upper char_digits
        if_False if_True prod.case option.case refl if_cancel split: if_split) simp
qed

lemma unescape_escape: "query_unescape (query_escape s @ t) = map_option ((@) s) (query_unescape t)"
proof (induction s)
  case Nil
  then show ?case by (cases "query_unescape t") (simp_all add: query_escape_def)
next
  case (Cons c s)
  have "query_escape (c # s) @ t = escape_char c @ (query_escape s @ t)" by (simp add: query_escape_def)
  then show ?case unfolding unescape_char Cons by (cases "query_unescape t") (simp_all add: unescape_char Cons)
qed

lemma unescape_escape_id: "query_unescape (query_escape s) = Some s"
  using unescape_escape [of s "[]"] by simp

lemma query_escape_inject [simp]: "query_escape a = query_escape b \<longleftrightarrow> a = b"
  by (metis option.inject unescape_escape_id)

lemma upper_hex_unreserved: "d < 16 \<Longrightarrow> unreserved (upper_hex d)"
proof -
  assume "d < 16"
  then have code: "(of_char (upper_hex d) :: nat) = (if d < 10 then 48 + d else 55 + d)"
    by (simp add: upper_hex_def)
  have "(\<lambda>n :: nat. (65 \<le> n \<and> n \<le> 90) \<or> (48 \<le> n \<and> n \<le> 57)) (of_char (upper_hex d))"
    unfolding code using \<open>d < 16\<close> by auto
  then show "unreserved (upper_hex d)" unfolding unreserved_def Let_def by blast
qed

lemma escape_chars:
  assumes "c \<in> set (query_escape s)"
  shows "unreserved c \<or> c = CHR ''+'' \<or> c = CHR ''%''"
proof -
  obtain d where "c \<in> set (escape_char d)" using assms by (auto simp: query_escape_def)
  then show ?thesis
    by (auto simp: escape_char_def upper_hex_unreserved char_digits split: if_splits)
qed

lemma escape_free [simp]:
  "CHR ''='' \<notin> set (query_escape s)" "CHR ''&'' \<notin> set (query_escape s)" "CHR 0x00 \<notin> set (query_escape s)"
proof -
  have "\<not> unreserved (CHR ''='')" "\<not> unreserved (CHR ''&'')" "\<not> unreserved (CHR 0x00)"
    by (simp_all add: unreserved_def Let_def)
  then show "CHR ''='' \<notin> set (query_escape s)" "CHR ''&'' \<notin> set (query_escape s)" "CHR 0x00 \<notin> set (query_escape s)"
    using escape_chars [of _ s] by fastforce+
qed

section \<open>What the canonical query identifies\<close>

text \<open>The values of one parameter, in order of appearance.\<close>

definition param_values :: "string \<Rightarrow> string \<Rightarrow> string list" where
  "param_values raw k = map snd (filter (\<lambda>kv. fst kv = k) (query_pairs raw))"

definition values_of :: "string \<Rightarrow> (string \<times> string) list \<Rightarrow> string list" where
  "values_of k kvs = map snd (filter (\<lambda>kv. fst kv = k) kvs)"

lemma lookup_fold_add:
  "lookup (fold add_value kvs q) k =
    (if values_of k kvs = [] then lookup q k
     else Some (case_option [] id (lookup q k) @ values_of k kvs))"
proof (induction kvs arbitrary: q)
  case Nil
  then show ?case by (simp add: values_of_def)
next
  case (Cons kv kvs)
  then show ?case
    by (auto simp: add_value_def values_of_def lookup_put split: option.splits)
qed

lemma lookup_url_query:
  "lookup (url_query raw) k = (if param_values raw k = [] then None else Some (param_values raw k))"
  by (simp add: url_query_def lookup_fold_add param_values_def values_of_def)

lemma distinct_fold_add: "distinct (map fst q) \<Longrightarrow> distinct (map fst (fold add_value kvs q))"
  by (induction kvs arbitrary: q) (auto simp: add_value_def distinct_update split: option.splits)

lemma distinct_url_query: "distinct (map fst (url_query raw))"
  by (simp add: url_query_def distinct_fold_add)

lemma url_query_keys: "set (map fst (url_query raw)) = {k. param_values raw k \<noteq> []}"
proof -
  have "k \<in> set (map fst (url_query raw)) \<longleftrightarrow> lookup (url_query raw) k \<noteq> None" for k
    by (simp add: map_of_eq_None_iff)
  then have "k \<in> set (map fst (url_query raw)) \<longleftrightarrow> param_values raw k \<noteq> []" for k
    by (simp only: lookup_url_query) simp
  then show ?thesis by (intro set_eqI) (simp only: mem_Collect_eq)
qed

definition query_entry :: "string \<Rightarrow> string \<Rightarrow> string" where
  "query_entry raw k = join (CHR ''='') (map query_escape (k # sort (param_values raw k)))"

lemma join_Cons: "join sep (x # xs) = x @ concat (map (\<lambda>y. sep # y) xs)"
  by (induction xs arbitrary: x) auto

lemma write_pairs_join:
  "(\<forall>k \<in> set ks. param_values raw k \<noteq> []) \<Longrightarrow>
    write_pairs (url_query raw) ks first =
      (if first \<or> ks = [] then join (CHR ''&'') (map (query_entry raw) ks)
       else CHR ''&'' # join (CHR ''&'') (map (query_entry raw) ks))"
proof (induction ks arbitrary: first)
  case Nil
  then show ?case by simp
next
  case (Cons k ks)
  have entry: "query_entry raw k = query_escape k @ concat (map (\<lambda>v. ''='' @ query_escape v) (sort (the (lookup (url_query raw) k))))"
    using Cons.prems by (simp add: query_entry_def join_Cons lookup_url_query comp_def)
  have rest: "write_pairs (url_query raw) ks False =
      (if ks = [] then [] else CHR ''&'' # join (CHR ''&'') (map (query_entry raw) ks))"
    using Cons.IH [of False] Cons.prems by simp
  show ?case by (simp only: write_pairs.simps rest) (cases ks, simp_all add: entry)
qed

lemma canonical_query_join:
  "canonical_query raw = join (CHR ''&'') (map (query_entry raw) (sort (map fst (url_query raw))))"
proof (cases "url_query raw = []")
  case True
  then show ?thesis by (simp add: canonical_query_def)
next
  case False
  have "\<forall>k \<in> set (sort (map fst (url_query raw))). param_values raw k \<noteq> []"
    using url_query_keys [of raw] by (simp only: set_sort) blast
  from write_pairs_join [OF this, of True] False show ?thesis by (simp add: canonical_query_def Let_def)
qed

lemma query_entry_inject:
  "query_entry a k = query_entry b l \<longleftrightarrow> k = l \<and> sort (param_values a k) = sort (param_values b l)"
proof
  assume "query_entry a k = query_entry b l"
  then have "map query_escape (k # sort (param_values a k)) = map query_escape (l # sort (param_values b l))"
    unfolding query_entry_def by (rule join_inject [rotated 3]) auto
  then show "k = l \<and> sort (param_values a k) = sort (param_values b l)"
    by (auto dest!: map_injective intro: injI)
next
  assume "k = l \<and> sort (param_values a k) = sort (param_values b l)"
  then show "query_entry a k = query_entry b l" unfolding query_entry_def by metis
qed

lemma query_entries_inject:
  "map (query_entry a) ks = map (query_entry b) ls \<Longrightarrow>
    map (\<lambda>k. (k, sort (param_values a k))) ks = map (\<lambda>k. (k, sort (param_values b k))) ls"
proof (induction ks arbitrary: ls)
  case Nil
  then show ?case by simp
next
  case (Cons k ks)
  then obtain l ls' where "ls = l # ls'" by (cases ls) auto
  then have head: "k = l" "sort (param_values a k) = sort (param_values b l)"
    and tail: "map (query_entry a) ks = map (query_entry b) ls'"
    using Cons.prems query_entry_inject [of a k b l] by auto
  show ?case using Cons.IH [OF tail] head by (simp only: \<open>ls = l # ls'\<close> list.map)
qed

lemma query_entry_free: "CHR ''&'' \<notin> set (query_entry raw k)"
  by (auto simp: query_entry_def join_Cons)

lemma sort_eq_mset: "sort xs = sort ys \<longleftrightarrow> mset xs = mset ys"
  by (metis mset_sort properties_for_sort sorted_sort)

text \<open>
  Two raw queries have one canonical form exactly when they give every parameter the same
  values, counted with multiplicity; the order of parameters and the spelling of the escapes
  do not matter.
\<close>

lemma canonical_query_iff:
  "canonical_query a = canonical_query b \<longleftrightarrow> (\<forall>k. mset (param_values a k) = mset (param_values b k))"
proof
  let ?ka = "sort (map fst (url_query a))" and ?kb = "sort (map fst (url_query b))"
  assume eq: "canonical_query a = canonical_query b"
  have nonempty: "join (CHR ''&'') (map (query_entry raw) (sort (map fst (url_query raw)))) = [] \<longleftrightarrow> url_query raw = []" for raw
  proof (cases "url_query raw")
    case Nil
    then show ?thesis by simp
  next
    case (Cons kv q)
    then obtain k ks where ks: "sort (map fst (url_query raw)) = k # ks"
      by (cases "sort (map fst (url_query raw))") (auto dest: arg_cong [where f = length])
    then have "k \<in> set (map fst (url_query raw))" by (metis list.set_intros(1) set_sort)
    then have "param_values raw k \<noteq> []" using url_query_keys by blast
    then have "query_entry raw k \<noteq> []"
      by (cases "sort (param_values raw k)") (auto simp: query_entry_def join_Cons dest: arg_cong [where f = length])
    then show ?thesis using Cons ks by (simp add: join_Cons)
  qed
  have "map (query_entry a) ?ka = map (query_entry b) ?kb"
  proof (cases "url_query a = [] \<or> url_query b = []")
    case True
    then show ?thesis using eq nonempty [of a] nonempty [of b] by (auto simp: canonical_query_join)
  next
    case False
    then show ?thesis
      using eq unfolding canonical_query_join
      by (intro join_inject [rotated 3]) (auto simp: query_entry_free dest: arg_cong [where f = length])
  qed
  then have pairs: "map (\<lambda>k. (k, sort (param_values a k))) ?ka = map (\<lambda>k. (k, sort (param_values b k))) ?kb"
    by (rule query_entries_inject)
  show "\<forall>k. mset (param_values a k) = mset (param_values b k)"
  proof
    fix k
    have "(k, sort (param_values a k)) \<in> set (map (\<lambda>k. (k, sort (param_values b k))) ?kb)" if "param_values a k \<noteq> []"
      using that url_query_keys [of a] unfolding pairs [symmetric] by auto
    moreover have "(k, sort (param_values b k)) \<in> set (map (\<lambda>k. (k, sort (param_values a k))) ?ka)" if "param_values b k \<noteq> []"
      using that url_query_keys [of b] unfolding pairs by auto
    ultimately show "mset (param_values a k) = mset (param_values b k)"
      by (cases "param_values a k = [] \<and> param_values b k = []") (auto simp: sort_eq_mset)
  qed
next
  assume same: "\<forall>k. mset (param_values a k) = mset (param_values b k)"
  then have entry: "query_entry a = query_entry b"
    by (auto simp: query_entry_inject sort_eq_mset)
  have "set (map fst (url_query a)) = set (map fst (url_query b))"
    unfolding url_query_keys using same by (metis mset_zero_iff)
  then have "sort (map fst (url_query a)) = sort (map fst (url_query b))"
    using distinct_url_query by (intro sorted_distinct_set_unique) auto
  then show "canonical_query a = canonical_query b" by (simp add: canonical_query_join entry)
qed

end
