(* ===== verification/Idempotency.thy ===== *)
theory Idempotency
  imports Query TxStore
begin

text \<open>
  Idempotent writes: the middleware of server/internal/auth/idempotency.go over the reservations
  of server/internal/dal/memory/idempotency.go. A request is two atomic segments around the
  handler, \<open>idem_admit\<close> up to the reservation and \<open>idem_settle\<close> after \<^verbatim>\<open>c.Next()\<close>; a run of the
  server interleaves the segments of any number of requests. The clock reading, the random
  bytes and the faults of the store are arguments; SHA-256 is a function of the configuration.
\<close>

section \<open>The reservations\<close>

record idempotency_record =
  id_key :: string
  id_method :: string
  id_path :: string
  id_request_hash :: string
  id_token :: string
  id_response_status :: int
  id_response_body :: "byte list"
  id_created_at :: gotime
  id_expires_at :: gotime

type_synonym idem_store = "(string, idempotency_record) store"

text \<open>\<open>draw\<close> is what \<^verbatim>\<open>rand.Read\<close> put into the 16 bytes, \<open>None\<close> when it failed.\<close>

definition new_fencing_token :: "byte list option \<Rightarrow> store_error + string" where
  "new_fencing_token draw = (case draw of None \<Rightarrow> Inl ErrStoreFault | Some b \<Rightarrow> Inr (hex_bytes b))"

definition idem_get :: "string \<Rightarrow> idem_store \<Rightarrow> store_error + idempotency_record" where
  "idem_get key st = (case lookup st key of None \<Rightarrow> Inl ErrNotFound | Some v \<Rightarrow> Inr v)"

definition idem_reserve ::
  "gotime \<Rightarrow> byte list option \<Rightarrow> string \<Rightarrow> string \<Rightarrow> string \<Rightarrow> string \<Rightarrow> gotime \<Rightarrow> idem_store \<Rightarrow>
    (store_error + idempotency_record option \<times> bool \<times> string) \<times> idem_store" where
  "idem_reserve now draw key method path hash ttl st =
     (let claim =
        (case new_fencing_token draw of
           Inl e \<Rightarrow> (Inl e, st)
         | Inr token \<Rightarrow>
             (Inr (None, True, token),
              put key \<lparr>id_key = key, id_method = method, id_path = path, id_request_hash = hash,
                id_token = token, id_response_status = 0, id_response_body = [],
                id_created_at = now, id_expires_at = now + ttl\<rparr> st))
      in case lookup st key of
           Some existing \<Rightarrow>
             if id_expires_at existing > now then (Inr (Some (existing\<lparr>id_token := []\<rparr>), False, []), st) else claim
         | None \<Rightarrow> claim)"

definition idem_complete ::
  "string \<Rightarrow> string \<Rightarrow> int \<Rightarrow> byte list \<Rightarrow> idem_store \<Rightarrow> (store_error + unit) \<times> idem_store" where
  "idem_complete key token status body st =
     (case lookup st key of
        None \<Rightarrow> (Inl ErrFencingTokenMismatch, st)
      | Some rc \<Rightarrow>
          if id_token rc \<noteq> token then (Inl ErrFencingTokenMismatch, st)
          else (Inr (), put key (rc\<lparr>id_response_status := status, id_response_body := body\<rparr>) st))"

definition idem_release :: "string \<Rightarrow> string \<Rightarrow> idem_store \<Rightarrow> (store_error + unit) \<times> idem_store" where
  "idem_release key token st =
     (case lookup st key of
        None \<Rightarrow> (Inl ErrFencingTokenMismatch, st)
      | Some rc \<Rightarrow>
          if id_token rc \<noteq> token then (Inl ErrFencingTokenMismatch, st)
          else (Inr (), AList.delete key st))"

section \<open>The reservations as a fenced store\<close>

datatype idem_op = Complete int "byte list" | Release_key

record idem_claim =
  cl_draw :: "byte list"
  cl_method :: string
  cl_path :: string
  cl_hash :: string
  cl_ttl :: gotime

definition idem_live :: "gotime \<Rightarrow> idem_store \<Rightarrow> string \<Rightarrow> bool" where
  "idem_live now st key \<longleftrightarrow> (\<exists>r. lookup st key = Some r \<and> id_expires_at r > now)"

definition idem_owner :: "idem_store \<Rightarrow> string \<Rightarrow> string option" where
  "idem_owner st key = map_option id_token (lookup st key)"

definition idem_claim_key :: "gotime \<Rightarrow> string \<Rightarrow> idem_claim \<Rightarrow> idem_store \<Rightarrow> string option \<times> idem_store" where
  "idem_claim_key now key c st =
     (case idem_reserve now (Some (cl_draw c)) key (cl_method c) (cl_path c) (cl_hash c) (cl_ttl c) st of
        (Inr (_, True, token), st') \<Rightarrow> (Some token, st')
      | (_, st') \<Rightarrow> (None, st'))"

definition idem_fresh :: "idem_store \<Rightarrow> string \<Rightarrow> idem_claim \<Rightarrow> bool" where
  "idem_fresh st key c \<longleftrightarrow> idem_owner st key \<noteq> Some (hex_bytes (cl_draw c))"

definition idem_act :: "idem_op \<Rightarrow> gotime \<Rightarrow> string \<Rightarrow> string \<Rightarrow> idem_store \<Rightarrow> bool \<times> idem_store" where
  "idem_act p now key token st =
     (case (case p of Complete status body \<Rightarrow> idem_complete key token status body st
                    | Release_key \<Rightarrow> idem_release key token st) of
        (r, st') \<Rightarrow> (r = Inr (), st'))"

lemmas idem_defs = idem_reserve_def idem_complete_def idem_release_def idem_live_def idem_owner_def
  idem_claim_key_def idem_fresh_def idem_act_def new_fencing_token_def

interpretation idem: fenced_store idem_live idem_owner idem_claim_key idem_fresh idem_act
proof (unfold_locales, goal_cases)
  case (1 now st k a)
  then show ?case by (auto simp: idem_defs)
next
  case (2 now st k a)
  then show ?case by (auto simp: idem_defs lookup_put Let_def split: option.splits)
next
  case (3 st k t p now)
  then show ?case by (cases p) (auto simp: idem_defs split: option.splits)
qed

section \<open>The request\<close>

datatype request_body = NoBody | Unreadable | Body "byte list"

record http_request =
  hr_idempotency_key :: string
  hr_principal :: string
  hr_method :: string
  hr_full_path :: string \<comment> \<open>the route template, empty on an unmatched route\<close>
  hr_path :: string
  hr_raw_query :: string
  hr_body :: request_body

definition max_idempotency_key_bytes :: nat where
  "max_idempotency_key_bytes = 256"

definition hr_route :: "http_request \<Rightarrow> string" where
  "hr_route r = (if hr_full_path r = [] then hr_path r else hr_full_path r)"

definition scoped_key :: "http_request \<Rightarrow> string" where
  "scoped_key r = hr_principal r @ [CHR 0x00] @ hr_method r @ [CHR 0x00] @ hr_route r @ [CHR 0x00] @
     hr_path r @ [CHR 0x00] @ canonical_query (hr_raw_query r) @ [CHR 0x00] @ hr_idempotency_key r"

definition read_body :: "http_request \<Rightarrow> byte list option" where
  "read_body r = (case hr_body r of NoBody \<Rightarrow> Some [] | Unreadable \<Rightarrow> None | Body bs \<Rightarrow> Some bs)"

text \<open>The response of a refused request is its status and the code of its JSON body.\<close>

datatype idem_verdict =
    Refuse int string
  | Replay int "byte list"
  | Run string string \<comment> \<open>the reservation's key and token\<close>

definition reserve_faulty ::
  "fault \<Rightarrow> gotime \<Rightarrow> byte list option \<Rightarrow> string \<Rightarrow> string \<Rightarrow> string \<Rightarrow> string \<Rightarrow> gotime \<Rightarrow> idem_store \<Rightarrow>
    (store_error + idempotency_record option \<times> bool \<times> string) \<times> idem_store" where
  "reserve_faulty f now draw key method path hash ttl st =
     (case f of
        NoFault \<Rightarrow> idem_reserve now draw key method path hash ttl st
      | FaultBefore \<Rightarrow> (Inl ErrStoreFault, st)
      | FaultAfter \<Rightarrow> (Inl ErrStoreFault, snd (idem_reserve now draw key method path hash ttl st)))"

record idem_config =
  ic_sha256 :: "byte list \<Rightarrow> u256"
  ic_ttl :: gotime
  ic_max_cached :: nat

definition request_hash :: "idem_config \<Rightarrow> byte list \<Rightarrow> string" where
  "request_hash cfg body = hex_bytes (hash_bytes (ic_sha256 cfg body))"

definition idem_precheck :: "http_request \<Rightarrow> (int \<times> string) + byte list" where
  "idem_precheck r =
     (if hr_idempotency_key r = [] then Inl (400, ''idempotency_key_required'')
      else if length (hr_idempotency_key r) > max_idempotency_key_bytes then Inl (400, ''idempotency_key_too_long'')
      else case read_body r of
        None \<Rightarrow> Inl (413, ''request_body_too_large'')
      | Some body \<Rightarrow> Inr body)"

text \<open>A reservation that was not won comes with the record that holds it.\<close>

definition idem_answer :: "string \<Rightarrow> string \<Rightarrow> store_error + idempotency_record option \<times> bool \<times> string \<Rightarrow> idem_verdict" where
  "idem_answer key hash res =
     (case res of
        Inl _ \<Rightarrow> Refuse 500 ''internal_error''
      | Inr (existing, reserved, token) \<Rightarrow>
          if reserved then Run key token
          else if id_request_hash (the existing) \<noteq> hash then Refuse 409 ''idempotency_key_reused''
          else if id_response_status (the existing) = 0 then Refuse 409 ''idempotency_key_in_progress''
          else Replay (id_response_status (the existing)) (id_response_body (the existing)))"

definition idem_admit ::
  "idem_config \<Rightarrow> gotime \<Rightarrow> byte list option \<Rightarrow> fault \<Rightarrow> http_request \<Rightarrow> idem_store \<Rightarrow> idem_verdict \<times> idem_store" where
  "idem_admit cfg now draw f r st =
     (case idem_precheck r of
        Inl (status, code) \<Rightarrow> (Refuse status code, st)
      | Inr body \<Rightarrow>
          (let hash = request_hash cfg body in
           case reserve_faulty f now draw (scoped_key r) (hr_method r) (hr_route r) hash (ic_ttl cfg) st of
             (res, st') \<Rightarrow> (idem_answer (scoped_key r) hash res, st')))"

section \<open>The response\<close>

record response_recorder =
  rr_body :: "byte list"
  rr_truncated :: bool
  rr_sent :: "byte list" \<comment> \<open>what the underlying writer was handed\<close>

definition recorder_write :: "nat \<Rightarrow> byte list \<Rightarrow> response_recorder \<Rightarrow> response_recorder" where
  "recorder_write limit b r =
     (let r = (if \<not> rr_truncated r then
                 (if length (rr_body r) + length b > limit then r\<lparr>rr_truncated := True, rr_body := []\<rparr>
                  else r\<lparr>rr_body := rr_body r @ b\<rparr>)
               else r)
      in r\<lparr>rr_sent := rr_sent r @ b\<rparr>)"

definition record_writes :: "nat \<Rightarrow> byte list list \<Rightarrow> response_recorder" where
  "record_writes limit ws = fold (recorder_write limit) ws \<lparr>rr_body = [], rr_truncated = False, rr_sent = []\<rparr>"

definition placeholder :: "nat \<Rightarrow> byte list" where
  "placeholder limit = map of_char
     (''{\"code\":\"idempotent_response_not_cached\",\"message\":\"the request completed successfully; its response exceeded the '' @
      big_string (int limit) @
      ''-byte idempotency cache limit and was not stored for replay, but the side effect was NOT re-executed\"}'')"

definition settle_faulty ::
  "fault \<Rightarrow> (idem_store \<Rightarrow> (store_error + unit) \<times> idem_store) \<Rightarrow> idem_store \<Rightarrow> (store_error + unit) \<times> idem_store" where
  "settle_faulty f m st =
     (case f of NoFault \<Rightarrow> m st | FaultBefore \<Rightarrow> (Inl ErrStoreFault, st) | FaultAfter \<Rightarrow> (Inl ErrStoreFault, snd (m st)))"

text \<open>The phase of a failed call is what \<^verbatim>\<open>logIdempotencyOutboxError\<close> reports.\<close>

definition idem_settle ::
  "idem_config \<Rightarrow> fault \<Rightarrow> string \<Rightarrow> string \<Rightarrow> int \<Rightarrow> byte list list \<Rightarrow> idem_store \<Rightarrow> string option \<times> idem_store" where
  "idem_settle cfg f key token status ws st =
     (let r = record_writes (ic_max_cached cfg) ws;
          report = (\<lambda>phase res. (case res of (Inl _, st') \<Rightarrow> (Some phase, st') | (Inr _, st') \<Rightarrow> (None, st')))
      in if 200 \<le> status \<and> status < 300 then
           (if rr_truncated r
            then report ''complete_oversized''
              (settle_faulty f (idem_complete key token status (placeholder (ic_max_cached cfg))) st)
            else report ''complete'' (settle_faulty f (idem_complete key token status (rr_body r)) st))
         else report ''release'' (settle_faulty f (idem_release key token) st))"

section \<open>Runs of the server\<close>

text \<open>
  The handler of an admitted request returns a status and the byte strings it wrote, or
  panics, which skips the settlement. The log records, in order, every handler started, its
  end, and every replayed answer; \<open>sy_drawn\<close> is every token drawn so far.
\<close>

datatype handler_end = Panicked | Returned int "byte list list"

datatype idem_entry =
    Started nat string string gotime string \<comment> \<open>request, key, hash, time, token\<close>
  | Finished nat int "byte list list"
  | Crashed nat
  | Replayed nat string string int "byte list"

fun entry_id :: "idem_entry \<Rightarrow> nat" where
  "entry_id (Started i _ _ _ _) = i"
| "entry_id (Finished i _ _) = i"
| "entry_id (Crashed i) = i"
| "entry_id (Replayed i _ _ _ _) = i"

record idem_sys =
  sy_store :: idem_store
  sy_open :: "(nat, string \<times> string) store"
  sy_clock :: gotime
  sy_drawn :: "string list"
  sy_log :: "idem_entry list"

definition body_hash :: "idem_config \<Rightarrow> http_request \<Rightarrow> string" where
  "body_hash cfg r = (case read_body r of None \<Rightarrow> [] | Some b \<Rightarrow> request_hash cfg b)"

definition arrive ::
  "idem_config \<Rightarrow> nat \<Rightarrow> gotime \<Rightarrow> byte list option \<Rightarrow> fault \<Rightarrow> http_request \<Rightarrow> idem_sys \<Rightarrow> idem_sys" where
  "arrive cfg i now draw f r s =
     (case idem_admit cfg now draw f r (sy_store s) of (v, st) \<Rightarrow>
        (let s = s\<lparr>sy_store := st, sy_clock := now,
               sy_drawn := (case draw of None \<Rightarrow> [] | Some b \<Rightarrow> [hex_bytes b]) @ sy_drawn s\<rparr>
         in case v of
              Run key token \<Rightarrow> s\<lparr>sy_open := put i (key, token) (sy_open s),
                sy_log := sy_log s @ [Started i key (body_hash cfg r) now token]\<rparr>
            | Replay status body \<Rightarrow> s\<lparr>sy_log := sy_log s @ [Replayed i (scoped_key r) (body_hash cfg r) status body]\<rparr>
            | Refuse _ _ \<Rightarrow> s))"

definition depart :: "idem_config \<Rightarrow> nat \<Rightarrow> fault \<Rightarrow> handler_end \<Rightarrow> idem_sys \<Rightarrow> idem_sys" where
  "depart cfg i f out s =
     (case lookup (sy_open s) i of
        None \<Rightarrow> s
      | Some (key, token) \<Rightarrow>
          (let s = s\<lparr>sy_open := AList.delete i (sy_open s)\<rparr>
           in case out of
                Panicked \<Rightarrow> s\<lparr>sy_log := sy_log s @ [Crashed i]\<rparr>
              | Returned status ws \<Rightarrow>
                  s\<lparr>sy_store := snd (idem_settle cfg f key token status ws (sy_store s)),
                    sy_log := sy_log s @ [Finished i status ws]\<rparr>))"

text \<open>
  Requests have distinct numbers, the clock does not run backwards, and a drawn token repeats
  no earlier one (128 random bits).
\<close>

inductive idem_reach :: "idem_config \<Rightarrow> idem_sys \<Rightarrow> bool" for cfg where
  reach_init: "idem_reach cfg \<lparr>sy_store = [], sy_open = [], sy_clock = now, sy_drawn = [], sy_log = []\<rparr>"
| reach_arrive: "idem_reach cfg s \<Longrightarrow> sy_clock s \<le> now \<Longrightarrow> \<forall>e \<in> set (sy_log s). entry_id e \<noteq> i \<Longrightarrow>
    \<forall>b. draw = Some b \<longrightarrow> hex_bytes b \<notin> set (sy_drawn s) \<Longrightarrow> idem_reach cfg (arrive cfg i now draw f r s)"
| reach_depart: "idem_reach cfg s \<Longrightarrow> idem_reach cfg (depart cfg i f out s)"

section \<open>What a segment does to the reservations\<close>

definition reservation :: "idem_config \<Rightarrow> gotime \<Rightarrow> http_request \<Rightarrow> string \<Rightarrow> idempotency_record" where
  "reservation cfg now r token =
     \<lparr>id_key = scoped_key r, id_method = hr_method r, id_path = hr_route r, id_request_hash = body_hash cfg r,
      id_token = token, id_response_status = 0, id_response_body = [], id_created_at = now,
      id_expires_at = now + ic_ttl cfg\<rparr>"

definition reserved_by :: "idem_config \<Rightarrow> gotime \<Rightarrow> byte list option \<Rightarrow> http_request \<Rightarrow> idem_store \<Rightarrow> string \<Rightarrow> idem_store \<Rightarrow> bool" where
  "reserved_by cfg now draw r st token st' \<longleftrightarrow>
     (\<exists>b. draw = Some b \<and> token = hex_bytes b) \<and> \<not> idem_live now st (scoped_key r) \<and>
     st' = put (scoped_key r) (reservation cfg now r token) st"

lemma idem_reserve_cases:
  assumes "idem_reserve now draw (scoped_key r) (hr_method r) (hr_route r) (body_hash cfg r) (ic_ttl cfg) st = (res, st')"
  obtains
    (live) rc where "lookup st (scoped_key r) = Some rc" "id_expires_at rc > now"
      "res = Inr (Some (rc\<lparr>id_token := []\<rparr>), False, [])" "st' = st"
  | (failed) e where "res = Inl e" "st' = st"
  | (won) token where "res = Inr (None, True, token)" "reserved_by cfg now draw r st token st'"
proof (cases "idem_live now st (scoped_key r)")
  case True
  then obtain rc where rc: "lookup st (scoped_key r) = Some rc" "id_expires_at rc > now" by (auto simp: idem_live_def)
  show thesis using assms by (intro live [OF rc]) (simp_all add: idem_reserve_def rc)
next
  case False
  then have claim: "(res, st') = (case new_fencing_token draw of
      Inl e \<Rightarrow> (Inl e, st)
    | Inr token \<Rightarrow> (Inr (None, True, token), put (scoped_key r) (reservation cfg now r token) st))"
    using assms by (auto simp: idem_reserve_def idem_live_def reservation_def Let_def split: option.splits sum.splits)
  show thesis
  proof (cases draw)
    case None
    then show thesis using claim failed by (simp add: new_fencing_token_def)
  next
    case (Some b)
    then show thesis using claim False won [of "hex_bytes b"] by (simp add: new_fencing_token_def reserved_by_def)
  qed
qed

lemma admit_cases:
  assumes "idem_admit cfg now draw f r st = (v, st')"
  obtains
    (refused) status code where "v = Refuse status code" "st' = st"
  | (stuck) status code token where "v = Refuse status code" "reserved_by cfg now draw r st token st'"
  | (run) token where "v = Run (scoped_key r) token" "reserved_by cfg now draw r st token st'"
  | (replay) rc where "v = Replay (id_response_status rc) (id_response_body rc)" "st' = st"
      "lookup st (scoped_key r) = Some rc" "id_response_status rc \<noteq> 0" "id_request_hash rc = body_hash cfg r"
proof (cases "idem_precheck r")
  case (Inl e)
  then show thesis using assms by (intro refused [of "fst e" "snd e"]) (simp_all add: idem_admit_def split_beta)
next
  case (Inr body)
  then have hash: "request_hash cfg body = body_hash cfg r"
    by (auto simp: idem_precheck_def body_hash_def split: if_splits option.splits)
  obtain res st1 where resv: "idem_reserve now draw (scoped_key r) (hr_method r) (hr_route r) (body_hash cfg r) (ic_ttl cfg) st = (res, st1)"
    by fastforce
  have admit: "v = idem_answer (scoped_key r) (body_hash cfg r) (if f = NoFault then res else Inl ErrStoreFault)"
    "st' = (if f = FaultBefore then st else st1)"
    using assms Inr by (cases f; simp add: idem_admit_def Let_def hash reserve_faulty_def resv)+
  from resv show thesis
  proof (cases rule: idem_reserve_cases)
    case (live rc)
    show thesis
    proof (cases "f = NoFault \<and> id_request_hash rc = body_hash cfg r \<and> id_response_status rc \<noteq> 0")
      case True
      then show thesis using admit live by (intro replay [of rc]) (simp_all add: idem_answer_def)
    next
      case False
      then have "\<exists>status code. v = Refuse status code" using admit live by (cases f) (simp_all add: idem_answer_def)
      then show thesis using admit(2) live(4) refused by auto
    qed
  next
    case failed
    then show thesis using admit by (intro refused) (simp_all add: idem_answer_def)
  next
    case (won token)
    show thesis
    proof (cases f)
      case NoFault
      then show thesis using admit won by (intro run [of token]) (simp_all add: idem_answer_def)
    next
      case FaultBefore
      then show thesis using admit by (intro refused) (simp_all add: idem_answer_def)
    next
      case FaultAfter
      then show thesis using admit won by (intro stuck [of _ _ token]) (simp_all add: idem_answer_def)
    qed
  qed
qed

definition cached_body :: "idem_config \<Rightarrow> byte list list \<Rightarrow> byte list" where
  "cached_body cfg ws =
     (if length (concat ws) \<le> ic_max_cached cfg then concat ws else placeholder (ic_max_cached cfg))"

lemma record_writes_exact:
  "record_writes limit ws =
     \<lparr>rr_body = (if length (concat ws) \<le> limit then concat ws else []),
      rr_truncated = (length (concat ws) > limit), rr_sent = concat ws\<rparr>"
proof (induction ws rule: rev_induct)
  case Nil
  then show ?case by (simp add: record_writes_def)
next
  case (snoc w ws)
  then show ?case by (auto simp: record_writes_def recorder_write_def Let_def)
qed

lemma settle_cases:
  obtains
    (same) "snd (idem_settle cfg f key token status ws st) = st"
  | (completed) rc where "lookup st key = Some rc" "id_token rc = token" "200 \<le> status" "status < 300"
      "snd (idem_settle cfg f key token status ws st) =
        put key (rc\<lparr>id_response_status := status, id_response_body := cached_body cfg ws\<rparr>) st"
  | (released) rc where "lookup st key = Some rc" "id_token rc = token" "\<not> (200 \<le> status \<and> status < 300)"
      "snd (idem_settle cfg f key token status ws st) = AList.delete key st"
proof -
  have snd_report: "snd (case res of (Inl _, st') \<Rightarrow> (Some phase, st') | (Inr _, st') \<Rightarrow> (None, st')) = snd res"
    for res :: "(store_error + unit) \<times> idem_store" and phase :: string
    by (auto split: prod.splits sum.splits)
  have settle: "snd (idem_settle cfg f key token status ws st) =
      (if f = FaultBefore then st
       else if 200 \<le> status \<and> status < 300 then snd (idem_complete key token status (cached_body cfg ws) st)
       else snd (idem_release key token st))"
    by (cases f) (auto simp: idem_settle_def Let_def snd_report record_writes_exact settle_faulty_def cached_body_def)
  show thesis
  proof (cases "f \<noteq> FaultBefore \<and> (\<exists>rc. lookup st key = Some rc \<and> id_token rc = token)")
    case True
    then obtain rc where rc: "lookup st key = Some rc" "id_token rc = token" by blast
    show thesis
    proof (cases "200 \<le> status \<and> status < 300")
      case in_range: True
      show thesis using True in_range by (intro completed [OF rc]) (auto simp: settle idem_complete_def rc)
    next
      case False
      show thesis using True False by (intro released [OF rc]) (auto simp: settle idem_release_def rc)
    qed
  next
    case False
    then show thesis by (intro same) (auto simp: settle idem_complete_def idem_release_def split: option.splits)
  qed
qed

section \<open>Invariants\<close>

definition success :: "int \<Rightarrow> bool" where
  "success status \<longleftrightarrow> 200 \<le> status \<and> status < 300"

definition let_go :: "idem_entry list \<Rightarrow> nat \<Rightarrow> bool" where
  "let_go es i \<longleftrightarrow> (\<exists>status ws. Finished i status ws \<in> set es \<and> \<not> success status)"

definition held :: "idem_config \<Rightarrow> idem_store \<Rightarrow> string \<Rightarrow> string \<Rightarrow> gotime \<Rightarrow> string \<Rightarrow> bool" where
  "held cfg st k h t token \<longleftrightarrow> (\<exists>rc. lookup st k = Some rc \<and> id_token rc = token \<and>
     id_request_hash rc = h \<and> id_expires_at rc = t + ic_ttl cfg)"

text \<open>Tokens: those of the store and of the log were drawn, and each was logged once.\<close>

definition tokens_ok :: "idem_sys \<Rightarrow> bool" where
  "tokens_ok s \<longleftrightarrow>
     (\<forall>i k h t token. Started i k h t token \<in> set (sy_log s) \<longrightarrow> token \<in> set (sy_drawn s)) \<and>
     (\<forall>k rc. lookup (sy_store s) k = Some rc \<longrightarrow> id_token rc \<in> set (sy_drawn s)) \<and>
     (\<forall>i k h t i' k' h' t' token. Started i k h t token \<in> set (sy_log s) \<longrightarrow>
        Started i' k' h' t' token \<in> set (sy_log s) \<longrightarrow> i = i' \<and> k = k')"

definition open_ok :: "idem_sys \<Rightarrow> bool" where
  "open_ok s \<longleftrightarrow> (\<forall>i k token. lookup (sy_open s) i = Some (k, token) \<longrightarrow>
     (\<exists>h t. Started i k h t token \<in> set (sy_log s)))"

text \<open>A started request holds its reservation until it fails or its time is over.\<close>

definition held_ok :: "idem_config \<Rightarrow> idem_sys \<Rightarrow> bool" where
  "held_ok cfg s \<longleftrightarrow> (\<forall>i k h t token. Started i k h t token \<in> set (sy_log s) \<longrightarrow>
     let_go (sy_log s) i \<or> t + ic_ttl cfg \<le> sy_clock s \<or> held cfg (sy_store s) k h t token)"

text \<open>A stored answer is that of a request that succeeded under the same key and hash.\<close>

definition answered :: "idem_config \<Rightarrow> idem_entry list \<Rightarrow> string \<Rightarrow> string \<Rightarrow> int \<Rightarrow> byte list \<Rightarrow> bool" where
  "answered cfg es k h status body \<longleftrightarrow> (\<exists>i t token ws. Started i k h t token \<in> set es \<and>
     Finished i status ws \<in> set es \<and> success status \<and> body = cached_body cfg ws)"

text \<open>A stored record whose token was logged carries the key and the hash of that request.\<close>

definition record_ok :: "idem_sys \<Rightarrow> bool" where
  "record_ok s \<longleftrightarrow> (\<forall>k rc i k' h t. lookup (sy_store s) k = Some rc \<longrightarrow>
     Started i k' h t (id_token rc) \<in> set (sy_log s) \<longrightarrow> k = k' \<and> id_request_hash rc = h)"

definition answers_ok :: "idem_config \<Rightarrow> idem_sys \<Rightarrow> bool" where
  "answers_ok cfg s \<longleftrightarrow> (\<forall>k rc. lookup (sy_store s) k = Some rc \<longrightarrow> id_response_status rc \<noteq> 0 \<longrightarrow>
     answered cfg (sy_log s) k (id_request_hash rc) (id_response_status rc) (id_response_body rc))"

definition idem_inv :: "idem_config \<Rightarrow> idem_sys \<Rightarrow> bool" where
  "idem_inv cfg s \<longleftrightarrow> tokens_ok s \<and> open_ok s \<and> held_ok cfg s \<and> record_ok s \<and> answers_ok cfg s"

lemma let_go_append: "let_go es i \<Longrightarrow> let_go (es @ fs) i"
  by (auto simp: let_go_def)

lemma answered_append: "answered cfg es k h status body \<Longrightarrow> answered cfg (es @ fs) k h status body"
  by (auto simp: answered_def)

lemma drawn_arrive:
  "set (sy_drawn (arrive cfg i now draw f r s)) = set (sy_drawn s) \<union> (case draw of None \<Rightarrow> {} | Some b \<Rightarrow> {hex_bytes b})"
  by (auto simp: arrive_def Let_def split: prod.splits idem_verdict.splits option.splits)

text \<open>The four ways a request is admitted or turned away.\<close>

lemma arrive_cases:
  obtains
    (same) fs where "sy_store (arrive cfg i now draw f r s) = sy_store s"
      "sy_log (arrive cfg i now draw f r s) = sy_log s @ fs" "sy_open (arrive cfg i now draw f r s) = sy_open s"
      "fs = [] \<or> (\<exists>rc. lookup (sy_store s) (scoped_key r) = Some rc \<and> id_response_status rc \<noteq> 0 \<and>
        fs = [Replayed i (scoped_key r) (id_request_hash rc) (id_response_status rc) (id_response_body rc)])"
  | (won) token fs where "reserved_by cfg now draw r (sy_store s) token (sy_store (arrive cfg i now draw f r s))"
      "sy_log (arrive cfg i now draw f r s) = sy_log s @ fs"
      "fs = [] \<and> sy_open (arrive cfg i now draw f r s) = sy_open s \<or>
       fs = [Started i (scoped_key r) (body_hash cfg r) now token] \<and>
       sy_open (arrive cfg i now draw f r s) = put i (scoped_key r, token) (sy_open s)"
proof -
  obtain v st' where admit: "idem_admit cfg now draw f r (sy_store s) = (v, st')" by fastforce
  then show thesis
  proof (cases rule: admit_cases)
    case refused
    then show thesis using admit by (intro same [of "[]"]) (simp_all add: arrive_def Let_def)
  next
    case (stuck status code token)
    then show thesis using admit by (intro won [of token "[]"]) (simp_all add: arrive_def Let_def)
  next
    case (run token)
    then show thesis using admit
      by (intro won [of token "[Started i (scoped_key r) (body_hash cfg r) now token]"]) (simp_all add: arrive_def Let_def)
  next
    case (replay rc)
    then show thesis using admit
      by (intro same [of "[Replayed i (scoped_key r) (id_request_hash rc) (id_response_status rc) (id_response_body rc)]"])
        (simp_all add: arrive_def Let_def)
  qed
qed

lemma sy_clock_arrive: "sy_clock (arrive cfg i now draw f r s) = now"
  by (auto simp: arrive_def Let_def split: prod.splits idem_verdict.splits)

lemma arrive_inv:
  assumes inv: "idem_inv cfg s" and clock: "sy_clock s \<le> now"
    and fresh: "\<forall>b. draw = Some b \<longrightarrow> hex_bytes b \<notin> set (sy_drawn s)"
  shows "idem_inv cfg (arrive cfg i now draw f r s)"
proof -
  let ?s = "arrive cfg i now draw f r s"
  show ?thesis
  proof (cases rule: arrive_cases [of cfg i now draw f r s])
    case (same fs)
    have started: "Started j k h t token \<in> set (sy_log ?s) \<longleftrightarrow> Started j k h t token \<in> set (sy_log s)" for j k h t token
      using same(2,4) by auto
    have "tokens_ok ?s" "record_ok ?s" "open_ok ?s"
      using inv same(1,3) by (auto simp: idem_inv_def tokens_ok_def record_ok_def open_ok_def started drawn_arrive)
    moreover have "held_ok cfg ?s"
      using inv clock same(1,2) unfolding idem_inv_def held_ok_def started sy_clock_arrive
      by (metis let_go_append order_trans)
    moreover have "answers_ok cfg ?s"
      using inv same(1,2) by (auto simp: idem_inv_def answers_ok_def answered_append)
    ultimately show ?thesis by (simp add: idem_inv_def)
  next
    case (won token fs)
    obtain b where b: "draw = Some b" "token = hex_bytes b" and free: "\<not> idem_live now (sy_store s) (scoped_key r)"
      and st: "sy_store ?s = put (scoped_key r) (reservation cfg now r token) (sy_store s)"
      using won(1) by (auto simp: reserved_by_def)
    have new: "token \<notin> set (sy_drawn s)" using fresh b by simp
    have started: "Started j k h t tok \<in> set (sy_log ?s) \<Longrightarrow> Started j k h t tok \<in> set (sy_log s) \<or>
        (j = i \<and> k = scoped_key r \<and> h = body_hash cfg r \<and> t = now \<and> tok = token)" for j k h t tok
      using won(2,3) by auto
    have old: "Started j k h t tok \<in> set (sy_log s) \<Longrightarrow> tok \<noteq> token" for j k h t tok
      using inv new by (auto simp: idem_inv_def tokens_ok_def)
    have drawn: "set (sy_drawn ?s) = insert token (set (sy_drawn s))" by (auto simp: drawn_arrive b)
    have known: "Started j k h t tok \<in> set (sy_log s) \<Longrightarrow> tok \<in> set (sy_drawn s)"
      "lookup (sy_store s) k = Some rc \<Longrightarrow> id_token rc \<in> set (sy_drawn s)"
      "Started j k h t tok \<in> set (sy_log s) \<Longrightarrow> Started j' k' h' t' tok \<in> set (sy_log s) \<Longrightarrow> j = j' \<and> k = k'"
      for j k h t tok rc j' k' h' t'
      using inv unfolding idem_inv_def tokens_ok_def by blast+
    have "tokens_ok ?s"
      unfolding tokens_ok_def drawn
    proof (intro conjI allI impI)
      show "tok \<in> insert token (set (sy_drawn s))" if "Started j k h t tok \<in> set (sy_log ?s)" for j k h t tok
        using started [OF that] known(1) by blast
      show "id_token rc \<in> insert token (set (sy_drawn s))" if "lookup (sy_store ?s) k = Some rc" for k rc
        using that known(2) by (auto simp: st lookup_put reservation_def split: if_splits)
      fix j k h t j' k' h' t' tok
      assume both: "Started j k h t tok \<in> set (sy_log ?s)" "Started j' k' h' t' tok \<in> set (sy_log ?s)"
      show "j = j'" and "k = k'"
        using started [OF both(1)] started [OF both(2)] old known(3) by blast+
    qed
    moreover have "open_ok ?s"
      using inv won(2,3) by (fastforce simp: idem_inv_def open_ok_def lookup_put split: if_splits)
    moreover have "record_ok ?s"
      unfolding record_ok_def
    proof (intro allI impI)
      fix k rc j k' h t
      assume rc: "lookup (sy_store ?s) k = Some rc" and started_rc: "Started j k' h t (id_token rc) \<in> set (sy_log ?s)"
      show "k = k' \<and> id_request_hash rc = h"
      proof (cases "k = scoped_key r")
        case True
        then have "rc = reservation cfg now r token" using rc by (simp add: st lookup_put)
        then have "id_token rc = token" "id_request_hash rc = body_hash cfg r" by (simp_all add: reservation_def)
        then show ?thesis using started [OF started_rc] old True by blast
      next
        case False
        then have "lookup (sy_store s) k = Some rc" using rc by (simp add: st lookup_put)
        moreover from this have "Started j k' h t (id_token rc) \<in> set (sy_log s)"
          using started [OF started_rc] known(2) new by blast
        ultimately show ?thesis using inv unfolding idem_inv_def record_ok_def by blast
      qed
    qed
    moreover have "held_ok cfg ?s"
      unfolding held_ok_def sy_clock_arrive
    proof (intro allI impI)
      fix j k h t tok
      assume "Started j k h t tok \<in> set (sy_log ?s)"
      from started [OF this] show "let_go (sy_log ?s) j \<or> t + ic_ttl cfg \<le> now \<or> held cfg (sy_store ?s) k h t tok"
      proof
        assume "Started j k h t tok \<in> set (sy_log s)"
        then have "let_go (sy_log s) j \<or> t + ic_ttl cfg \<le> sy_clock s \<or> held cfg (sy_store s) k h t tok"
          using inv unfolding idem_inv_def held_ok_def by blast
        moreover have "t + ic_ttl cfg \<le> now \<or> held cfg (sy_store ?s) k h t tok" if "held cfg (sy_store s) k h t tok"
          using that free by (auto simp: held_def st lookup_put idem_live_def split: if_splits)
        ultimately show ?thesis using clock won(2) by (auto dest: let_go_append)
      next
        assume "j = i \<and> k = scoped_key r \<and> h = body_hash cfg r \<and> t = now \<and> tok = token"
        then show ?thesis by (simp add: held_def st lookup_put reservation_def)
      qed
    qed
    moreover have "answers_ok cfg ?s"
      using inv won(2) unfolding idem_inv_def answers_ok_def st lookup_put
      by (auto simp: reservation_def answered_append split: if_splits)
    ultimately show ?thesis by (simp add: idem_inv_def)
  qed
qed

lemma held_ok_step:
  assumes "held_ok cfg s" and "sy_clock s' = sy_clock s"
    and "\<And>j k h t tok. Started j k h t tok \<in> set (sy_log s') \<Longrightarrow> Started j k h t tok \<in> set (sy_log s)"
    and "sy_log s' = sy_log s @ fs"
    and "\<And>j k h t tok. Started j k h t tok \<in> set (sy_log s) \<Longrightarrow> held cfg (sy_store s) k h t tok \<Longrightarrow>
      held cfg (sy_store s') k h t tok \<or> let_go (sy_log s') j"
  shows "held_ok cfg s'"
  unfolding held_ok_def
proof (intro allI impI)
  fix j k h t tok
  assume "Started j k h t tok \<in> set (sy_log s')"
  then have old: "Started j k h t tok \<in> set (sy_log s)" by (rule assms(3))
  then have "let_go (sy_log s) j \<or> t + ic_ttl cfg \<le> sy_clock s \<or> held cfg (sy_store s) k h t tok"
    using assms(1) unfolding held_ok_def by blast
  then show "let_go (sy_log s') j \<or> t + ic_ttl cfg \<le> sy_clock s' \<or> held cfg (sy_store s') k h t tok"
    using assms(2,4) assms(5) [OF old] let_go_append [of "sy_log s" j fs] by auto
qed

lemma depart_inv:
  assumes inv: "idem_inv cfg s"
  shows "idem_inv cfg (depart cfg i f out s)"
proof (cases "lookup (sy_open s) i")
  case None
  then show ?thesis using inv by (simp add: depart_def)
next
  case (Some kt)
  obtain k token where opn: "lookup (sy_open s) i = Some (k, token)" using Some by (cases kt) auto
  let ?s = "depart cfg i f out s"
  have opens: "lookup (sy_open ?s) j = (if j = i then None else lookup (sy_open s) j)" for j
    by (cases out) (auto simp: depart_def opn lookup_delete)
  have other: "sy_clock ?s = sy_clock s" "sy_drawn ?s = sy_drawn s"
    by (cases out; simp add: depart_def opn)+
  obtain e where log: "sy_log ?s = sy_log s @ [e]" "\<And>i k h t tok. e \<noteq> Started i k h t tok"
    and fin: "\<And>status ws. out = Returned status ws \<Longrightarrow> e = Finished i status ws"
    by (cases out) (auto simp: depart_def opn)
  have started: "Started j k h t tok \<in> set (sy_log ?s) \<longleftrightarrow> Started j k h t tok \<in> set (sy_log s)" for j k h t tok
    using log(1) log(2) [symmetric] by auto
  obtain h t where own: "Started i k h t token \<in> set (sy_log s)"
    using inv opn unfolding idem_inv_def open_ok_def by blast
  have opened: "open_ok ?s" using inv by (auto simp: idem_inv_def open_ok_def started opens)
  have unique: "Started j k' h' t' token \<in> set (sy_log s) \<Longrightarrow> j = i \<and> k' = k" for j k' h' t'
    using inv own unfolding idem_inv_def tokens_ok_def by blast
  have cases: "sy_store ?s = sy_store s \<or>
      (\<exists>status ws. out = Returned status ws \<and> sy_store ?s = snd (idem_settle cfg f k token status ws (sy_store s)))"
    by (cases out) (auto simp: depart_def opn)
  show ?thesis
  proof (cases "sy_store ?s = sy_store s")
    case True
    have "held_ok cfg ?s"
      using inv by (intro held_ok_step [where s = s, OF _ other(1) _ log(1)]) (simp_all add: idem_inv_def started True)
    moreover have "tokens_ok ?s" "record_ok ?s" "answers_ok cfg ?s"
      using inv unfolding idem_inv_def tokens_ok_def record_ok_def answers_ok_def started other True
      by (auto simp: log(1) answered_append)
    ultimately show ?thesis using opened by (simp add: idem_inv_def)
  next
    case False
    then obtain status ws where out: "out = Returned status ws"
      and settled: "sy_store ?s = snd (idem_settle cfg f k token status ws (sy_store s))" using cases by blast
    note e = fin [OF out]
    show ?thesis
    proof (cases rule: settle_cases [of cfg f k token status ws "sy_store s"])
      case same
      then show ?thesis using False settled by simp
    next
      case (completed rc)
      have st: "lookup (sy_store ?s) k' = (if k = k' then Some (rc\<lparr>id_response_status := status, id_response_body := cached_body cfg ws\<rparr>)
          else lookup (sy_store s) k')" for k'
        by (simp add: settled completed(5) lookup_put)
      have "tokens_ok ?s"
        using inv completed(1) unfolding idem_inv_def tokens_ok_def started other st by auto
      moreover have "record_ok ?s"
        unfolding record_ok_def started st
      proof (intro allI impI)
        fix k1 rc1 j k2 h2 t2
        assume "(if k = k1 then Some (rc\<lparr>id_response_status := status, id_response_body := cached_body cfg ws\<rparr>)
            else lookup (sy_store s) k1) = Some rc1" and "Started j k2 h2 t2 (id_token rc1) \<in> set (sy_log s)"
        then have "\<exists>rc2. lookup (sy_store s) k1 = Some rc2 \<and> id_token rc2 = id_token rc1 \<and> id_request_hash rc2 = id_request_hash rc1"
          using completed(1) by (auto split: if_splits)
        then show "k1 = k2 \<and> id_request_hash rc1 = h2"
          using inv \<open>Started j k2 h2 t2 (id_token rc1) \<in> set (sy_log s)\<close> unfolding idem_inv_def record_ok_def by metis
      qed
      moreover have "held_ok cfg ?s"
        using inv completed(1)
        by (intro held_ok_step [where s = s, OF _ other(1) _ log(1)]) (auto simp: idem_inv_def started held_def st)
      moreover have "id_request_hash rc = h"
        using inv own completed(1,2) unfolding idem_inv_def record_ok_def by blast
      then have "answered cfg (sy_log ?s) k (id_request_hash rc) status (cached_body cfg ws)"
        using own completed(3,4) unfolding answered_def log(1) e success_def by auto
      then have "answers_ok cfg ?s"
        using inv unfolding idem_inv_def answers_ok_def st by (auto simp: log(1) answered_append)
      ultimately show ?thesis using opened by (simp add: idem_inv_def)
    next
      case (released rc)
      have st: "lookup (sy_store ?s) k' = (if k = k' then None else lookup (sy_store s) k')" for k'
        by (simp add: settled released(4) lookup_delete)
      have "let_go (sy_log ?s) i"
        using released(3) unfolding let_go_def log(1) e success_def by auto
      have "held cfg (sy_store ?s) k' h' t' tok \<or> let_go (sy_log ?s) j"
        if "Started j k' h' t' tok \<in> set (sy_log s)" "held cfg (sy_store s) k' h' t' tok" for j k' h' t' tok
      proof (cases "k' = k")
        case True
        then have "tok = token" using that(2) released(1,2) by (simp add: held_def)
        then show ?thesis using that(1) unique \<open>let_go (sy_log ?s) i\<close> by blast
      next
        case False
        then show ?thesis using that(2) by (simp add: held_def st)
      qed
      then have "held_ok cfg ?s"
        using inv by (intro held_ok_step [where s = s, OF _ other(1) _ log(1)]) (simp_all add: idem_inv_def started)
      moreover have "tokens_ok ?s"
        using inv unfolding idem_inv_def tokens_ok_def started other st by auto
      moreover have "record_ok ?s" "answers_ok cfg ?s"
        using inv unfolding idem_inv_def record_ok_def answers_ok_def started st
        by (simp_all add: log(1) answered_append)
      ultimately show ?thesis using opened by (simp add: idem_inv_def)
    qed
  qed
qed

lemma idem_reach_inv: "idem_reach cfg s \<Longrightarrow> idem_inv cfg s"
proof (induction rule: idem_reach.induct)
  case (reach_init now)
  then show ?case
    by (simp add: idem_inv_def tokens_ok_def open_ok_def held_ok_def record_ok_def answers_ok_def)
qed (auto intro: arrive_inv depart_inv)

section \<open>What the log says\<close>

text \<open>A request is numbered once, so what a started request did comes after its start.\<close>

fun entry_ok :: "idem_config \<Rightarrow> idem_entry list \<Rightarrow> idem_entry \<Rightarrow> bool" where
  "entry_ok cfg es (Started i k h t tok) \<longleftrightarrow> (\<forall>e \<in> set es. entry_id e \<noteq> i) \<and>
     (\<forall>j h' t' tok'. Started j k h' t' tok' \<in> set es \<longrightarrow> let_go es j \<or> t' + ic_ttl cfg \<le> t)"
| "entry_ok cfg es (Replayed i k h status body) \<longleftrightarrow> answered cfg es k h status body"
| "entry_ok cfg es _ \<longleftrightarrow> True"

definition log_ok :: "idem_config \<Rightarrow> idem_entry list \<Rightarrow> bool" where
  "log_ok cfg es \<longleftrightarrow> (\<forall>l1 e l2. es = l1 @ e # l2 \<longrightarrow> entry_ok cfg l1 e)"

lemma log_ok_snoc: "log_ok cfg es \<Longrightarrow> entry_ok cfg es e \<Longrightarrow> log_ok cfg (es @ [e])"
  unfolding log_ok_def
  by (metis butlast.simps(2) butlast_append butlast_snoc last_appendR last_snoc list.distinct(1))

lemma log_okD: "log_ok cfg (l1 @ e # l2) \<Longrightarrow> entry_ok cfg l1 e"
  unfolding log_ok_def by blast

lemma idem_reach_log: "idem_reach cfg s \<Longrightarrow> log_ok cfg (sy_log s)"
proof (induction rule: idem_reach.induct)
  case (reach_init now)
  then show ?case by (simp add: log_ok_def)
next
  case (reach_arrive s now i draw f r)
  note inv = idem_reach_inv [OF reach_arrive.hyps(1)]
  show ?case
  proof (cases rule: arrive_cases [of cfg i now draw f r s])
    case (same fs)
    from same(4) show ?thesis
    proof (elim disjE exE conjE)
      assume "fs = []"
      then show ?thesis using reach_arrive.IH same(2) by simp
    next
      fix rc
      assume rc: "lookup (sy_store s) (scoped_key r) = Some rc" "id_response_status rc \<noteq> 0"
        and fs: "fs = [Replayed i (scoped_key r) (id_request_hash rc) (id_response_status rc) (id_response_body rc)]"
      have "answered cfg (sy_log s) (scoped_key r) (id_request_hash rc) (id_response_status rc) (id_response_body rc)"
        using inv rc unfolding idem_inv_def answers_ok_def by blast
      then show ?thesis using reach_arrive.IH unfolding same(2) fs by (intro log_ok_snoc) simp_all
    qed
  next
    case (won token fs)
    have "\<not> idem_live now (sy_store s) (scoped_key r)" using won(1) by (simp add: reserved_by_def)
    then have dead: "let_go (sy_log s) j \<or> t + ic_ttl cfg \<le> now"
      if "Started j (scoped_key r) h t tok \<in> set (sy_log s)" for j h t tok
    proof -
      have "let_go (sy_log s) j \<or> t + ic_ttl cfg \<le> sy_clock s \<or> held cfg (sy_store s) (scoped_key r) h t tok"
        using inv that unfolding idem_inv_def held_ok_def by blast
      then show ?thesis
        using reach_arrive.hyps(2) \<open>\<not> idem_live now (sy_store s) (scoped_key r)\<close> by (auto simp: held_def idem_live_def)
    qed
    have "entry_ok cfg (sy_log s) (Started i (scoped_key r) (body_hash cfg r) now token)"
      using dead reach_arrive.hyps(3) by auto
    from log_ok_snoc [OF reach_arrive.IH this] show ?thesis
      using won(3) reach_arrive.IH unfolding won(2) by auto
  qed
next
  case (reach_depart s i f out)
  then show ?case
    by (cases "lookup (sy_open s) i"; cases out) (auto simp: depart_def Let_def log_ok_snoc)
qed

text \<open>
  C32: in every interleaving of requests, and whatever the handlers and the store do, a second
  request reaches the handler under a scoped key only after the first one's reservation expired
  or after the first one ended with a status outside 200..299; so within the time to live a
  successful, crashed or still running request is never executed twice.
\<close>

theorem one_execution_per_reservation:
  assumes "idem_reach cfg s"
    and "sy_log s = l1 @ Started i k h t tok # l2 @ Started j k h' t' tok' # l3"
    and "t' < t + ic_ttl cfg"
  shows "\<exists>status ws. Finished i status ws \<in> set l2 \<and> \<not> (200 \<le> status \<and> status < 300)"
proof -
  have log: "log_ok cfg (sy_log s)" using assms(1) by (rule idem_reach_log)
  have "entry_ok cfg (l1 @ Started i k h t tok # l2) (Started j k h' t' tok')"
    using log assms(2) by (intro log_okD [where ?l2.0 = l3]) simp
  then have "let_go (l1 @ Started i k h t tok # l2) i \<or> t + ic_ttl cfg \<le> t'"
    unfolding entry_ok.simps by (metis in_set_conv_decomp)
  moreover have "\<forall>e \<in> set l1. entry_id e \<noteq> i" using log log_okD unfolding assms(2) by fastforce
  ultimately show ?thesis using assms(3) by (auto simp: let_go_def success_def)
qed

definition demo_idem_config :: idem_config where
  "demo_idem_config = \<lparr>ic_sha256 = (\<lambda>bs. word_of_nat (length bs)), ic_ttl = 100, ic_max_cached = 1048576\<rparr>"

definition demo_write :: http_request where
  "demo_write = \<lparr>hr_idempotency_key = ''k1'', hr_principal = ''0xA'', hr_method = ''POST'', hr_full_path = ''/v1/burns'',
     hr_path = ''/v1/burns'', hr_raw_query = [], hr_body = Body [123, 125]\<rparr>"

definition idem_start :: idem_sys where
  "idem_start = \<lparr>sy_store = [], sy_open = [], sy_clock = 0, sy_drawn = [], sy_log = []\<rparr>"

definition demo_run :: "int \<Rightarrow> idem_sys" where
  "demo_run status =
     arrive demo_idem_config 1 5 (Some [2]) NoFault demo_write
       (depart demo_idem_config 0 NoFault (Returned status [[123], [125]])
         (arrive demo_idem_config 0 0 (Some [1]) NoFault demo_write idem_start))"

lemma demo_precheck: "idem_precheck demo_write = Inr [123, 125]"
  by (simp add: idem_precheck_def demo_write_def max_idempotency_key_bytes_def read_body_def)

lemma demo_body: "read_body demo_write = Some [123, 125]"
  by (simp add: read_body_def demo_write_def)

lemma hex_bytes_neq: "hex_bytes [1] \<noteq> hex_bytes [2]"
  using hex_bytes_inject [of "[1]" "[2]"] by auto

lemma demo_reach: "idem_reach demo_idem_config (demo_run status)"
proof -
  let ?s0 = "arrive demo_idem_config 0 0 (Some [1]) NoFault demo_write idem_start"
  let ?s1 = "depart demo_idem_config 0 NoFault (Returned status [[123], [125]]) ?s0"
  have drawn: "sy_drawn ?s0 = [hex_bytes [1]]" and log: "\<forall>e \<in> set (sy_log ?s0). entry_id e = 0"
    by (auto simp: arrive_def idem_start_def Let_def split: prod.splits idem_verdict.splits)
  have "idem_reach demo_idem_config ?s0"
    by (rule reach_arrive) (auto simp: idem_start_def intro: reach_init)
  then have "idem_reach demo_idem_config ?s1" by (rule reach_depart)
  moreover have "sy_drawn ?s1 = [hex_bytes [1]]" "\<forall>e \<in> set (sy_log ?s1). entry_id e = 0" "sy_clock ?s1 \<le> 5"
    using drawn log sy_clock_arrive [of demo_idem_config 0 0 "Some [1]" NoFault demo_write idem_start]
    by (auto simp: depart_def Let_def split: option.splits)
  ultimately show ?thesis
    unfolding demo_run_def using hex_bytes_neq by (intro reach_arrive) auto
qed

abbreviation "demo_key \<equiv> scoped_key demo_write"

lemma demo_first:
  "arrive demo_idem_config 0 0 (Some [1]) NoFault demo_write idem_start =
    \<lparr>sy_store = [(demo_key, reservation demo_idem_config 0 demo_write (hex_bytes [1]))],
     sy_open = [(0, demo_key, hex_bytes [1])], sy_clock = 0, sy_drawn = [hex_bytes [1]],
     sy_log = [Started 0 demo_key (body_hash demo_idem_config demo_write) 0 (hex_bytes [1])]\<rparr>"
  by (simp add: arrive_def idem_start_def idem_admit_def demo_precheck reserve_faulty_def idem_reserve_def
      new_fencing_token_def idem_answer_def reservation_def body_hash_def Let_def demo_body)

theorem one_execution_per_reservation_witness:
  "\<exists>ws. Finished 0 500 ws \<in> set (sy_log (demo_run 500)) \<and>
    (\<exists>tok. Started 1 demo_key (body_hash demo_idem_config demo_write) 5 tok \<in> set (sy_log (demo_run 500)))"
proof -
  let ?h = "body_hash demo_idem_config demo_write"
  have log: "sy_log (demo_run 500) = [] @ Started 0 demo_key ?h 0 (hex_bytes [1]) # [Finished 0 500 [[123], [125]]] @
      Started 1 demo_key ?h 5 (hex_bytes [2]) # []"
    unfolding demo_run_def demo_first
    by (simp add: depart_def idem_settle_def settle_faulty_def idem_release_def reservation_def arrive_def
        idem_admit_def demo_precheck reserve_faulty_def idem_reserve_def new_fencing_token_def idem_answer_def
        body_hash_def demo_body Let_def)
  have "\<exists>status ws. Finished 0 status ws \<in> set [Finished 0 500 [[123], [125 :: byte]]] \<and> \<not> (200 \<le> status \<and> status < 300)"
    by (rule one_execution_per_reservation [OF demo_reach log]) (simp add: demo_idem_config_def)
  then show ?thesis using log by auto
qed

text \<open>
  every answer replayed to a request is the status of an earlier request with the same
  scoped key and the same body hash that ended in 200..299, with the bytes that request's handler
  wrote, or the placeholder where they exceeded the cache limit.
\<close>

theorem replay_is_the_stored_answer:
  assumes "idem_reach cfg s" and "sy_log s = l1 @ Replayed i k h status body # l2"
  shows "\<exists>j t tok ws. Started j k h t tok \<in> set l1 \<and> Finished j status ws \<in> set l1 \<and>
    200 \<le> status \<and> status < 300 \<and>
    body = (if length (concat ws) \<le> ic_max_cached cfg then concat ws else placeholder (ic_max_cached cfg))"
proof -
  have "answered cfg l1 k h status body"
    using log_okD [OF idem_reach_log [OF assms(1), unfolded assms(2)]] by simp
  then show ?thesis unfolding answered_def success_def cached_body_def by blast
qed

theorem replay_is_the_stored_answer_witness:
  "sy_log (demo_run 202) =
     [Started 0 demo_key (body_hash demo_idem_config demo_write) 0 (hex_bytes [1]), Finished 0 202 [[123], [125]],
      Replayed 1 demo_key (body_hash demo_idem_config demo_write) 202 [123, 125]] \<and>
   (\<exists>j t tok ws. Started j demo_key (body_hash demo_idem_config demo_write) t tok \<in> set (sy_log (demo_run 202)) \<and>
     Finished j 202 ws \<in> set (sy_log (demo_run 202)) \<and> concat ws = [123, 125])"
proof -
  let ?h = "body_hash demo_idem_config demo_write"
  have log: "sy_log (demo_run 202) =
      [Started 0 demo_key ?h 0 (hex_bytes [1]), Finished 0 202 [[123], [125]]] @ Replayed 1 demo_key ?h 202 [123, 125] # []"
    unfolding demo_run_def demo_first
    by (simp add: depart_def idem_settle_def settle_faulty_def idem_complete_def reservation_def arrive_def
        record_writes_exact demo_idem_config_def
        idem_admit_def demo_precheck reserve_faulty_def idem_reserve_def idem_answer_def
        body_hash_def demo_body Let_def)
  from replay_is_the_stored_answer [OF demo_reach log] show ?thesis using log by auto
qed

section \<open>Scopes\<close>

lemma canonical_query_free: "CHR 0x00 \<notin> set (canonical_query raw)"
proof -
  have "CHR 0x00 \<notin> set (join sep xs)" if "\<forall>x \<in> set xs. CHR 0x00 \<notin> set x" "sep \<noteq> CHR 0x00" for sep xs
    using that by (cases xs) (auto simp: join_Cons)
  then show ?thesis unfolding canonical_query_join query_entry_def by force
qed

text \<open>
  The scoped key of a request determines its principal, method, route, path and raw key, and
  the values of every query parameter, so a reservation is never shared between callers or
  between targets; only the order of the query parameters is forgotten. Only the decoded path may
  contain a NUL.
\<close>

theorem scoped_key_identifies:
  assumes "CHR 0x00 \<notin> set (hr_principal a @ hr_method a @ hr_route a @ hr_idempotency_key a)"
    and "CHR 0x00 \<notin> set (hr_principal b @ hr_method b @ hr_route b @ hr_idempotency_key b)"
  shows "scoped_key a = scoped_key b \<longleftrightarrow>
    hr_principal a = hr_principal b \<and> hr_method a = hr_method b \<and> hr_route a = hr_route b \<and>
    hr_path a = hr_path b \<and> hr_idempotency_key a = hr_idempotency_key b \<and>
    (\<forall>p. mset (param_values (hr_raw_query a) p) = mset (param_values (hr_raw_query b) p))"
    (is "_ \<longleftrightarrow> ?same")
proof
  have rsplit: "u = v \<and> x = y" if "u @ CHR 0x00 # x = v @ CHR 0x00 # y" "CHR 0x00 \<notin> set x" "CHR 0x00 \<notin> set y" for u v x y :: string
  proof -
    have "rev (u @ CHR 0x00 # x) = rev (v @ CHR 0x00 # y)" using that(1) by (rule arg_cong)
    then have "rev x @ CHR 0x00 # rev u = rev y @ CHR 0x00 # rev v" by simp
    then have "rev x = rev y \<and> rev u = rev v" using that by (intro append_sep_inject) simp_all
    then show ?thesis by simp
  qed
  assume eq: "scoped_key a = scoped_key b"
  then have "hr_principal a = hr_principal b" "hr_method a = hr_method b" "hr_route a = hr_route b"
    and rest: "hr_path a @ CHR 0x00 # canonical_query (hr_raw_query a) @ CHR 0x00 # hr_idempotency_key a =
      hr_path b @ CHR 0x00 # canonical_query (hr_raw_query b) @ CHR 0x00 # hr_idempotency_key b"
  proof -
    let ?r2 = "\<lambda>r. hr_path r @ CHR 0x00 # canonical_query (hr_raw_query r) @ CHR 0x00 # hr_idempotency_key r"
    have free: "CHR 0x00 \<notin> set (hr_principal a)" "CHR 0x00 \<notin> set (hr_principal b)" "CHR 0x00 \<notin> set (hr_method a)"
        "CHR 0x00 \<notin> set (hr_method b)" "CHR 0x00 \<notin> set (hr_route a)" "CHR 0x00 \<notin> set (hr_route b)"
      using assms by simp_all
    have one: "hr_principal a = hr_principal b \<and>
        hr_method a @ CHR 0x00 # hr_route a @ CHR 0x00 # ?r2 a = hr_method b @ CHR 0x00 # hr_route b @ CHR 0x00 # ?r2 b"
      using eq by (intro append_sep_inject [OF free(1,2)]) (simp add: scoped_key_def)
    have two: "hr_method a = hr_method b \<and> hr_route a @ CHR 0x00 # ?r2 a = hr_route b @ CHR 0x00 # ?r2 b"
      by (rule append_sep_inject [OF free(3,4)]) (use one in blast)
    have three: "hr_route a = hr_route b \<and> ?r2 a = ?r2 b"
      by (rule append_sep_inject [OF free(5,6)]) (use two in blast)
    show "hr_principal a = hr_principal b" "hr_method a = hr_method b" "hr_route a = hr_route b" "?r2 a = ?r2 b"
      using one two three by blast+
  qed
  have "hr_path a @ CHR 0x00 # canonical_query (hr_raw_query a) = hr_path b @ CHR 0x00 # canonical_query (hr_raw_query b)"
    and key: "hr_idempotency_key a = hr_idempotency_key b"
    using rsplit [of "hr_path a @ CHR 0x00 # canonical_query (hr_raw_query a)" "hr_idempotency_key a"
        "hr_path b @ CHR 0x00 # canonical_query (hr_raw_query b)" "hr_idempotency_key b"] rest assms by auto
  from rsplit [OF this(1)] have "hr_path a = hr_path b" "canonical_query (hr_raw_query a) = canonical_query (hr_raw_query b)"
    by (auto simp: canonical_query_free)
  then show ?same
    using \<open>hr_principal a = hr_principal b\<close> \<open>hr_method a = hr_method b\<close> \<open>hr_route a = hr_route b\<close> key
    by (simp add: canonical_query_iff)
next
  assume ?same
  then show "scoped_key a = scoped_key b" by (simp add: scoped_key_def flip: canonical_query_iff)
qed

theorem scoped_key_identifies_witness:
  "scoped_key (demo_write\<lparr>hr_raw_query := ''a=1&b=2''\<rparr>) = scoped_key (demo_write\<lparr>hr_raw_query := ''b=2&a=1''\<rparr>) \<and>
   scoped_key (demo_write\<lparr>hr_raw_query := ''a=1''\<rparr>) \<noteq> scoped_key (demo_write\<lparr>hr_raw_query := ''a=2''\<rparr>) \<and>
   scoped_key demo_write \<noteq> scoped_key (demo_write\<lparr>hr_principal := ''0xB''\<rparr>)"
proof -
  have free: "CHR 0x00 \<notin> set (hr_principal r @ hr_method r @ hr_route r @ hr_idempotency_key r)"
    if "r \<in> {demo_write, demo_write\<lparr>hr_raw_query := q\<rparr>, demo_write\<lparr>hr_principal := ''0xB''\<rparr>}" for r q
    using that by (auto simp: demo_write_def hr_route_def)
  have pairs: "query_pairs ''a=1&b=2'' = [(''a'', ''1''), (''b'', ''2'')]" "query_pairs ''b=2&a=1'' = [(''b'', ''2''), (''a'', ''1'')]"
    "query_pairs ''a=1'' = [(''a'', ''1'')]" "query_pairs ''a=2'' = [(''a'', ''2'')]"
    by (simp_all add: query_pairs.simps)
  have "scoped_key (demo_write\<lparr>hr_raw_query := ''a=1&b=2''\<rparr>) = scoped_key (demo_write\<lparr>hr_raw_query := ''b=2&a=1''\<rparr>)"
    by (subst scoped_key_identifies) (use free in \<open>auto simp: param_values_def pairs demo_write_def hr_route_def\<close>)
  moreover have "scoped_key (demo_write\<lparr>hr_raw_query := ''a=1''\<rparr>) \<noteq> scoped_key (demo_write\<lparr>hr_raw_query := ''a=2''\<rparr>)"
    by (subst scoped_key_identifies) (use free in \<open>auto simp: param_values_def pairs demo_write_def hr_route_def\<close>)
  moreover have "scoped_key demo_write \<noteq> scoped_key (demo_write\<lparr>hr_principal := ''0xB''\<rparr>)"
    by (subst scoped_key_identifies) (use free in \<open>auto simp: demo_write_def hr_route_def\<close>)
  ultimately show ?thesis by blast
qed

end
