(* ===== verification/KycStore.thy ===== *)
theory KycStore
  imports Query ReadModel TxStore
begin

text \<open>
  The records of server/internal/dal/models that compliance works on (investors, compliance
  operations, KYC events) and their in-memory repositories under server/internal/dal/memory. The
  event repository carries the two uniqueness constraints of a delivery and, per address, the
  claim of the newest decision.
\<close>

section \<open>Records\<close>

datatype compliance_status = ComplianceUnknown | ComplianceAllowed | ComplianceBlocked

record investor =
  iv_address :: string
  iv_status :: compliance_status
  iv_valid_until :: int
  iv_ownership_verified :: bool
  iv_created_at :: gotime
  iv_updated_at :: gotime

record compliance_operation =
  co_id :: string
  co_address :: string
  co_status :: compliance_status
  co_valid_until :: int
  co_tx_hash :: string
  co_caller :: string
  co_created_at :: gotime

datatype kyc_apply_status = KycClaiming | KycAccepted | KycApplying | KycApplied | KycSuperseded
  | KycFailed | KycRecorded

record kyc_event =
  ke_id :: string
  ke_address :: string
  ke_status :: string
  ke_provider :: string
  ke_event_id :: string
  ke_outcome :: string
  ke_apply_status :: kyc_apply_status
  ke_valid_until :: int
  ke_tx_id :: string
  ke_occurred_at :: gotime
  ke_received_at :: gotime
  ke_payload_hash :: string

definition kyc_event_id_key :: "string \<Rightarrow> string \<Rightarrow> string" where
  "kyc_event_id_key provider i = provider @ ''|'' @ i"

abbreviation ke_key :: "kyc_event \<Rightarrow> string" where
  "ke_key e \<equiv> kyc_event_id_key (ke_provider e) (ke_event_id e)"

section \<open>Investors and operations\<close>

type_synonym investor_store = "(string, investor) store"

definition iv_get :: "string \<Rightarrow> investor_store \<Rightarrow> store_error + investor" where
  "iv_get a st = (case lookup st a of None \<Rightarrow> Inl ErrNotFound | Some v \<Rightarrow> Inr v)"

definition iv_list :: "investor_store \<Rightarrow> investor list" where
  "iv_list st = sort_key iv_address (vals st)"

definition iv_upsert :: "investor \<Rightarrow> investor_store \<Rightarrow> investor_store" where
  "iv_upsert v st = put (iv_address v) v st"

text \<open>\<^verbatim>\<open>ListPage\<close>: the cursor is the last address of the page before, empty at the start.\<close>

definition iv_list_page :: "string \<Rightarrow> int \<Rightarrow> investor_store \<Rightarrow> investor list \<times> string" where
  "iv_list_page cursor limit st =
     (let sorted = iv_list st;
          start = (if cursor = [] then 0 else length (takeWhile (\<lambda>v. \<not> iv_address v > cursor) sorted));
          stop = int start + limit;
          stop = (if limit \<le> 0 \<or> stop > int (length sorted) then length sorted else nat stop);
          page = take (stop - start) (drop start sorted)
      in (page, if stop < length sorted then iv_address (List.last page) else []))"

definition op_create :: "compliance_operation \<Rightarrow> compliance_operation list \<Rightarrow> compliance_operation list" where
  "op_create c ops = ops @ [c]"

definition op_list :: "compliance_operation list \<Rightarrow> compliance_operation list" where
  "op_list ops = ops"

section \<open>KYC events\<close>

record claim_state =
  cs_occurred_at :: gotime
  cs_event_key :: string

record kyc_repo =
  kr_by_id :: "(string, kyc_event) store"
  kr_by_hash :: "(string, bool) store"
  kr_by_event_id :: "(string, bool) store"
  kr_claims :: "(string, claim_state) store"

definition new_kyc_repo :: kyc_repo where
  "new_kyc_repo = \<lparr>kr_by_id = [], kr_by_hash = [], kr_by_event_id = [], kr_claims = []\<rparr>"

text \<open>Reading a Go map of booleans: false for a missing key.\<close>

definition flagged :: "(string, bool) store \<Rightarrow> string \<Rightarrow> bool" where
  "flagged m k = (case lookup m k of None \<Rightarrow> False | Some b \<Rightarrow> b)"

definition kr_exists :: "string \<Rightarrow> kyc_repo \<Rightarrow> bool" where
  "kr_exists hash r = flagged (kr_by_hash r) hash"

definition kr_create :: "kyc_event \<Rightarrow> kyc_repo \<Rightarrow> (store_error + unit) \<times> kyc_repo" where
  "kr_create e r =
     (if flagged (kr_by_hash r) (ke_payload_hash e) then (Inl ErrAlreadyExists, r)
      else let key = kyc_event_id_key (ke_provider e) (ke_event_id e) in
        if flagged (kr_by_event_id r) key then (Inl ErrAlreadyExists, r)
        else (Inr (), r\<lparr>kr_by_id := put (ke_id e) e (kr_by_id r),
               kr_by_hash := put (ke_payload_hash e) True (kr_by_hash r),
               kr_by_event_id := put key True (kr_by_event_id r)\<rparr>))"

definition kr_list :: "kyc_repo \<Rightarrow> kyc_event list" where
  "kr_list r = sort_key ke_received_at (vals (kr_by_id r))"

definition kr_update :: "kyc_event \<Rightarrow> kyc_repo \<Rightarrow> (store_error + unit) \<times> kyc_repo" where
  "kr_update e r =
     (case lookup (kr_by_id r) (ke_id e) of
        None \<Rightarrow> (Inl ErrNotFound, r)
      | Some _ \<Rightarrow> (Inr (), r\<lparr>kr_by_id := put (ke_id e) e (kr_by_id r)\<rparr>))"

definition kr_list_applied_with_tx :: "kyc_repo \<Rightarrow> kyc_event list" where
  "kr_list_applied_with_tx r = filter (\<lambda>v. ke_apply_status v = KycApplied \<and> ke_tx_id v \<noteq> []) (kr_list r)"

definition kr_list_pending :: "kyc_repo \<Rightarrow> kyc_event list" where
  "kr_list_pending r = sort_key ke_occurred_at
     (filter (\<lambda>v. ke_apply_status v \<in> {KycClaiming, KycAccepted, KycApplying}) (vals (kr_by_id r)))"

definition claim_is_newer :: "gotime \<Rightarrow> string \<Rightarrow> gotime \<Rightarrow> string \<Rightarrow> bool" where
  "claim_is_newer at k cur_at cur_key =
     (if at > cur_at then True else if at < cur_at then False else k > cur_key)"

definition kr_claim_latest :: "string \<Rightarrow> gotime \<Rightarrow> string \<Rightarrow> kyc_repo \<Rightarrow> bool \<times> kyc_repo" where
  "kr_claim_latest a at k r =
     (let claim = (True, r\<lparr>kr_claims := put a \<lparr>cs_occurred_at = at, cs_event_key = k\<rparr> (kr_claims r)\<rparr>)
      in case lookup (kr_claims r) a of
           Some cur \<Rightarrow> if \<not> claim_is_newer at k (cs_occurred_at cur) (cs_event_key cur) then (False, r) else claim
         | None \<Rightarrow> claim)"

definition kr_current_claim :: "string \<Rightarrow> kyc_repo \<Rightarrow> store_error + string" where
  "kr_current_claim a r = (case lookup (kr_claims r) a of None \<Rightarrow> Inl ErrNotFound | Some c \<Rightarrow> Inr (cs_event_key c))"

section \<open>The order of decisions\<close>

text \<open>Decisions are ordered by (occurredAt, key); a claim holds the greatest pair that claimed it.\<close>

definition claim_pair :: "claim_state \<Rightarrow> gotime \<times> string" where
  "claim_pair c = (cs_occurred_at c, cs_event_key c)"

abbreviation ke_pair :: "kyc_event \<Rightarrow> gotime \<times> string" where
  "ke_pair e \<equiv> (ke_occurred_at e, ke_key e)"

lemma claim_is_newer_iff: "claim_is_newer at k cur_at cur_key \<longleftrightarrow> (cur_at, cur_key) < (at, k)"
  by (auto simp: claim_is_newer_def less_prod_def')

definition held_claim :: "kyc_repo \<Rightarrow> string \<Rightarrow> (gotime \<times> string) option" where
  "held_claim r a = map_option claim_pair (lookup (kr_claims r) a)"

lemma kr_claim_latest_run:
  "kr_claim_latest a at k r = (b, r') \<Longrightarrow>
    kr_by_id r' = kr_by_id r \<and> kr_by_hash r' = kr_by_hash r \<and> kr_by_event_id r' = kr_by_event_id r \<and>
    (b \<longleftrightarrow> (\<forall>c. held_claim r a = Some c \<longrightarrow> c < (at, k))) \<and>
    held_claim r' = (if b then (held_claim r)(a \<mapsto> (at, k)) else held_claim r)"
  by (auto simp: kr_claim_latest_def held_claim_def claim_is_newer_iff claim_pair_def lookup_put Let_def fun_eq_iff
      split: option.splits if_splits)

lemma kr_current_claim_iff:
  "kr_current_claim a r = Inr k \<longleftrightarrow> (\<exists>at. held_claim r a = Some (at, k))"
  by (auto simp: kr_current_claim_def held_claim_def claim_pair_def split: option.splits)

lemma flagged_put [store_simps]: "flagged (put k v m) k' = (if k = k' then v else flagged m k')"
  by (simp add: flagged_def lookup_put)

end
