(* ===== verification/Guard.thy ===== *)
theory Guard
  imports KycStore
begin

text \<open>
  The screening of approvals: server/internal/compliance/sanctions.go (the operator's list) and
  guard.go (the list and the cap on allowed wallets), and the environment in which the
  compliance services run. Every repository call may fail before or after it took effect and
  other goroutines act before it; the node, the transaction manager, address codecs and the
  clock are parameters. The guard's mutex has no state of its own.
\<close>

section \<open>The environment\<close>

record set_status_call =
  sc_idempotency_key :: string
  sc_account :: string
  sc_status :: compliance_status
  sc_valid_until :: u64

text \<open>\<open>kw_sent\<close> is a history variable: each call handed to the transaction manager, with the
  events and claims as they were at that moment.\<close>

record kyc_world =
  kw_tick :: nat
  kw_repo :: kyc_repo
  kw_investors :: investor_store
  kw_ops :: "compliance_operation list"
  kw_txs :: tx_store
  kw_sent :: "(set_status_call \<times> kyc_repo) list"
  kw_alerts :: "(string \<times> string) list" \<comment> \<open>kind and address\<close>

datatype kyc_error = KycStoreError store_error | KycRepoFault | KycSubmit
  | KycSanctioned | KycHolderCapReached
  | KycInvalidSignature | KycInvalidPayload | KycReplayed | KycUnsupportedStatus | KycMissingProvider
  | KycMissingEventId | KycInvalidAddress | KycMissingOccurredAt | KycStale
  | KycNegativeValidUntil | KycValidUntilHorizon | KycOwnershipNotVerified

type_synonym 'a kym = "(kyc_error, kyc_world, 'a) act"

record kyc_env =
  kx_fault :: "nat \<Rightarrow> fault"
  kx_other :: "nat \<Rightarrow> kyc_world \<Rightarrow> kyc_world"
  kx_now :: "nat \<Rightarrow> gotime"
  kx_uuid :: "nat \<Rightarrow> string"
  kx_is_hex_address :: "string \<Rightarrow> bool"
  kx_checksum :: "string \<Rightarrow> string"
  kx_sha256 :: "byte list \<Rightarrow> u256"
  kx_submit :: "nat \<Rightarrow> set_status_call \<Rightarrow> tx_store \<Rightarrow> string option \<times> tx_store"

definition kyc_others :: "kyc_env \<Rightarrow> kyc_world \<Rightarrow> kyc_world" where
  "kyc_others e w = (kx_other e (kw_tick w) w)\<lparr>kw_tick := Suc (kw_tick w)\<rparr>"

definition kyc_call :: "kyc_env \<Rightarrow> (kyc_world \<Rightarrow> (store_error + 'a) \<times> kyc_world) \<Rightarrow> 'a kym" where
  "kyc_call e f = (\<lambda>w.
     let u = kyc_others e w in
     case kx_fault e (kw_tick w) of
       NoFault \<Rightarrow> (case f u of (Inl x, v) \<Rightarrow> (Inl (KycStoreError x), v) | (Inr y, v) \<Rightarrow> (Inr y, v))
     | FaultBefore \<Rightarrow> (Inl KycRepoFault, u)
     | FaultAfter \<Rightarrow> (Inl KycRepoFault, snd (f u)))"

definition kyc_read :: "kyc_env \<Rightarrow> (kyc_world \<Rightarrow> 'a) \<Rightarrow> 'a kym" where
  "kyc_read e f = kyc_call e (\<lambda>w. (Inr (f w), w))"

definition kyc_get :: "kyc_env \<Rightarrow> (kyc_world \<Rightarrow> store_error + 'a) \<Rightarrow> 'a kym" where
  "kyc_get e f = kyc_call e (\<lambda>w. (f w, w))"

definition kyc_write :: "kyc_env \<Rightarrow> (kyc_repo \<Rightarrow> (store_error + 'a) \<times> kyc_repo) \<Rightarrow> 'a kym" where
  "kyc_write e f = kyc_call e (\<lambda>w. case f (kw_repo w) of (r, p) \<Rightarrow> (r, w\<lparr>kw_repo := p\<rparr>))"

definition kyc_now :: "kyc_env \<Rightarrow> gotime kym" where
  "kyc_now e = getM (\<lambda>w. kx_now e (kw_tick w))"

text \<open>\<^verbatim>\<open>x, err := m\<close>, where \<^verbatim>\<open>ErrNotFound\<close> is handled apart from other errors.\<close>

definition or_not_found :: "'a kym \<Rightarrow> 'a option kym" where
  "or_not_found m = (\<lambda>w. case m w of
     (Inl (KycStoreError ErrNotFound), v) \<Rightarrow> (Inr None, v)
   | (Inl x, v) \<Rightarrow> (Inl x, v)
   | (Inr y, v) \<Rightarrow> (Inr (Some y), v))"

fun foldM :: "('a \<Rightarrow> 'b \<Rightarrow> ('e, 's, 'b) act) \<Rightarrow> 'a list \<Rightarrow> 'b \<Rightarrow> ('e, 's, 'b) act" where
  "foldM f [] b = ret b"
| "foldM f (x # xs) b = bindM (f x b) (\<lambda>b. foldM f xs b)"

section \<open>The sanctions list\<close>

text \<open>\<^verbatim>\<open>bufio.Scanner\<close> over lines: the lines before the first one of 64 KiB or more, and whether it met one.\<close>

fun scan_lines :: "string \<Rightarrow> string \<Rightarrow> string list \<times> bool" where
  "scan_lines line [] = (if line = [] then ([], False) else if length line \<ge> 65536 then ([], True) else ([rev line], False))"
| "scan_lines line (c # s) =
     (if c = CHR 0x0A then
        (if length line \<ge> 65536 then ([], True)
         else case scan_lines [] s of (ls, long) \<Rightarrow> (rev line # ls, long))
      else scan_lines (c # line) s)"

fun parse_lines :: "(string \<Rightarrow> bool) \<Rightarrow> nat \<Rightarrow> string list \<Rightarrow> string list \<Rightarrow> nat + string list" where
  "parse_lines is_hex n [] out = Inr out"
| "parse_lines is_hex n (l # ls) out =
     (let line = trim_space l in
      if line = [] \<or> hd line = CHR ''#'' then parse_lines is_hex (n + 1) ls out
      else if take 2 (to_lower line) \<noteq> ''0x'' \<or> \<not> is_hex line then Inl n
      else parse_lines is_hex (n + 1) ls (List.insert (to_lower line) out))"

text \<open>An error is the number of the offending line, or 0 for a line that is too long.\<close>

definition parse_sanctions_list :: "(string \<Rightarrow> bool) \<Rightarrow> string \<Rightarrow> nat + string list" where
  "parse_sanctions_list is_hex text =
     (case scan_lines [] text of (ls, long) \<Rightarrow>
        (case parse_lines is_hex 1 ls [] of
           Inl n \<Rightarrow> Inl n
         | Inr out \<Rightarrow> if long then Inl 0 else Inr out))"

record sanctions_list =
  sl_path :: string
  sl_set :: "string list"
  sl_mtime :: "gotime option" \<comment> \<open>\<open>None\<close> is the zero time of a list not loaded yet\<close>

definition new_sanctions_list :: "string \<Rightarrow> sanctions_list option" where
  "new_sanctions_list path = (if path = [] then None else Some \<lparr>sl_path = path, sl_set = [], sl_mtime = None\<rparr>)"

datatype reload_error = SlStat | SlRead | SlRejected nat

text \<open>\<open>stat\<close> and \<open>content\<close> are what the file system answers, \<open>None\<close> for an error.\<close>

definition sl_reload ::
  "(string \<Rightarrow> bool) \<Rightarrow> gotime option \<Rightarrow> string option \<Rightarrow> sanctions_list option \<Rightarrow>
    (reload_error + bool) \<times> sanctions_list option" where
  "sl_reload is_hex stat content sl =
     (case sl of
        None \<Rightarrow> (Inr False, None)
      | Some l \<Rightarrow>
          (case stat of
             None \<Rightarrow> (Inl SlStat, Some l)
           | Some mtime \<Rightarrow>
               (if Some mtime = sl_mtime l then (Inr False, Some l)
                else let l = l\<lparr>sl_mtime := Some mtime\<rparr> in
                  (case content of
                     None \<Rightarrow> (Inl SlRead, Some l)
                   | Some text \<Rightarrow>
                       (case parse_sanctions_list is_hex text of
                          Inl n \<Rightarrow> (Inl (SlRejected n), Some l)
                        | Inr st \<Rightarrow> (Inr True, Some (l\<lparr>sl_set := st\<rparr>)))))))"

definition sl_contains :: "sanctions_list option \<Rightarrow> string \<Rightarrow> bool" where
  "sl_contains sl a = (case sl of None \<Rightarrow> False | Some l \<Rightarrow> to_lower a \<in> set (sl_set l))"

section \<open>The guard\<close>

definition in_flight_window :: gotime where
  "in_flight_window = 3600 * 10 ^ 9"

record guard =
  gd_max_wallets :: int
  gd_excluded :: "string list"
  gd_sanctions :: "sanctions_list option"

definition is_excluded :: "guard \<Rightarrow> string \<Rightarrow> bool" where
  "is_excluded g a \<longleftrightarrow> (\<exists>x \<in> set (gd_excluded g). x \<noteq> [] \<and> equal_fold x a)"

definition unix_sec :: "gotime \<Rightarrow> int" where
  "unix_sec t = t div 10 ^ 9"

definition counts_allowed :: "guard \<Rightarrow> gotime \<Rightarrow> investor \<Rightarrow> bool" where
  "counts_allowed g now v \<longleftrightarrow> iv_status v = ComplianceAllowed \<and>
     (iv_valid_until v = 0 \<or> iv_valid_until v \<ge> unix_sec now) \<and> \<not> is_excluded g (iv_address v)"

definition allowed_wallets :: "kyc_env \<Rightarrow> guard \<Rightarrow> gotime \<Rightarrow> string list kym" where
  "allowed_wallets e g now =
     bindM (kyc_read e (\<lambda>w. iv_list (kw_investors w))) (\<lambda>vs.
     ret (map iv_address (filter (counts_allowed g now) vs)))"

definition sanctioned_allowed :: "kyc_env \<Rightarrow> guard \<Rightarrow> gotime \<Rightarrow> string list kym" where
  "sanctioned_allowed e g now =
     bindM (allowed_wallets e g now) (\<lambda>as. ret (filter (sl_contains (gd_sanctions g)) as))"

definition live_status :: "tx_status \<Rightarrow> bool" where
  "live_status s \<longleftrightarrow> s \<in> {TxPending, TxMined, TxConfirmed, TxBroadcastUnknown}"

definition in_flight :: "kyc_env \<Rightarrow> guard \<Rightarrow> gotime \<Rightarrow> string \<times> string \<Rightarrow> string list \<Rightarrow> string list kym" where
  "in_flight e g now at seen =
     (case at of (a, i) \<Rightarrow>
       if is_excluded g a then ret seen
       else if to_lower a \<in> set seen then ret seen
       else bindM (or_not_found (kyc_get e (\<lambda>w. tx_get i (kw_txs w)))) (\<lambda>found.
         case found of
           None \<Rightarrow> ret seen
         | Some tx \<Rightarrow>
             (if live_status (tx_stat tx) \<and> now - tx_submitted_at tx \<le> in_flight_window
              then ret (List.insert (to_lower a) seen) else ret seen)))"

definition counts_event :: "kyc_event \<Rightarrow> bool" where
  "counts_event v \<longleftrightarrow> ke_outcome v = ''Allowed'' \<and> ke_tx_id v \<noteq> [] \<and>
     (ke_apply_status v = KycApplying \<or> ke_apply_status v = KycApplied)"

definition counted_wallets :: "kyc_env \<Rightarrow> guard \<Rightarrow> gotime \<Rightarrow> string list kym" where
  "counted_wallets e g now =
     bindM (allowed_wallets e g now) (\<lambda>as.
     bindM (kyc_read e (\<lambda>w. op_list (kw_ops w))) (\<lambda>ops.
     bindM (foldM (in_flight e g now)
       (map (\<lambda>c. (co_address c, co_id c)) (filter (\<lambda>c. co_status c = ComplianceAllowed) ops))
       (remdups (map to_lower as))) (\<lambda>seen.
     bindM (kyc_read e (\<lambda>w. kr_list (kw_repo w))) (\<lambda>evs.
     foldM (in_flight e g now) (map (\<lambda>v. (ke_address v, ke_tx_id v)) (filter counts_event evs)) seen))))"

definition check_allow :: "kyc_env \<Rightarrow> guard \<Rightarrow> string \<Rightarrow> gotime \<Rightarrow> unit kym" where
  "check_allow e g a now =
     (if sl_contains (gd_sanctions g) a then raise KycSanctioned
      else if gd_max_wallets g \<le> 0 \<or> is_excluded g a then ret ()
      else bindM (counted_wallets e g now) (\<lambda>seen.
        if to_lower a \<in> set seen then ret ()
        else if int (length seen) \<ge> gd_max_wallets g then raise KycHolderCapReached
        else ret ()))"


section \<open>What the guard decides\<close>

definition kyc_quiet :: "kyc_env \<Rightarrow> bool" where
  "kyc_quiet e \<longleftrightarrow> (\<forall>n. kx_fault e n = NoFault \<and> (\<forall>w. kx_other e n w = w))"

text \<open>A status still on its way: its transaction is live and was submitted within the window.\<close>

definition on_its_way :: "gotime \<Rightarrow> tx_store \<Rightarrow> string \<Rightarrow> bool" where
  "on_its_way now txs i \<longleftrightarrow>
     (case tx_get i txs of
        Inl _ \<Rightarrow> False
      | Inr tx \<Rightarrow> live_status (tx_stat tx) \<and> now - tx_submitted_at tx \<le> in_flight_window)"

text \<open>The wallets of a list of pending statuses, each an address and its transaction.\<close>

definition flying :: "guard \<Rightarrow> gotime \<Rightarrow> tx_store \<Rightarrow> (string \<times> string) set \<Rightarrow> string set" where
  "flying g now txs S = to_lower ` {a. \<exists>i. (a, i) \<in> S \<and> \<not> is_excluded g a \<and> on_its_way now txs i}"

definition counted :: "guard \<Rightarrow> gotime \<Rightarrow> kyc_world \<Rightarrow> string set" where
  "counted g now w =
     to_lower ` iv_address ` {v \<in> set (iv_list (kw_investors w)). counts_allowed g now v} \<union>
     flying g now (kw_txs w) ((\<lambda>c. (co_address c, co_id c)) ` {c \<in> set (kw_ops w). co_status c = ComplianceAllowed}) \<union>
     flying g now (kw_txs w) ((\<lambda>v. (ke_address v, ke_tx_id v)) ` {v \<in> set (kr_list (kw_repo w)). counts_event v})"

lemma flying_empty [simp]: "flying g now txs {} = {}"
  by (simp add: flying_def)

lemma flying_insert: "flying g now txs (insert x S) = flying g now txs {x} \<union> flying g now txs S"
  by (auto simp: flying_def)

text \<open>\<open>leaves e m P w\<close>: run from \<open>w\<close>, only time passes, and the result satisfies \<open>P\<close>.\<close>

definition leaves :: "'a kym \<Rightarrow> ('a \<Rightarrow> bool) \<Rightarrow> kyc_world \<Rightarrow> bool" where
  "leaves m P w \<longleftrightarrow> (\<exists>y t. m w = (Inr y, w\<lparr>kw_tick := t\<rparr>) \<and> P y)"

lemma leaves_ret: "P y \<Longrightarrow> leaves (ret y) P w"
  by (auto simp: leaves_def ret_def intro!: exI [of _ "kw_tick w"])

lemma leaves_read: "kyc_quiet e \<Longrightarrow> P (f (w\<lparr>kw_tick := Suc (kw_tick w)\<rparr>)) \<Longrightarrow> leaves (kyc_read e f) P w"
  by (auto simp: leaves_def kyc_read_def kyc_call_def kyc_quiet_def kyc_others_def Let_def)

lemma leaves_bind:
  assumes "leaves m P w" and "\<And>y t. P y \<Longrightarrow> leaves (f y) Q (w\<lparr>kw_tick := t\<rparr>)"
  shows "leaves (bindM m f) Q w"
proof -
  obtain y t where "m w = (Inr y, w\<lparr>kw_tick := t\<rparr>)" "P y" using assms(1) by (auto simp: leaves_def)
  then show ?thesis using assms(2) [of y t] by (simp add: leaves_def bindM_def)
qed

lemma leaves_weaken: "leaves m P w \<Longrightarrow> (\<And>y. P y \<Longrightarrow> Q y) \<Longrightarrow> leaves m Q w"
  by (auto simp: leaves_def)

lemma leaves_in_flight:
  assumes "kyc_quiet e" and "distinct acc"
  shows "leaves (in_flight e g now x acc) (\<lambda>acc'. distinct acc' \<and> set acc' = set acc \<union> flying g now (kw_txs w) {x}) w"
proof -
  obtain a i where x: "x = (a, i)" by fastforce
  show ?thesis
  proof (cases "is_excluded g a \<or> to_lower a \<in> set acc")
    case True
    then show ?thesis by (auto simp: x in_flight_def flying_def assms intro!: leaves_ret)
  next
    case False
    have get: "or_not_found (kyc_get e (\<lambda>w. tx_get i (kw_txs w))) w =
        (Inr (case tx_get i (kw_txs w) of Inl _ \<Rightarrow> None | Inr tx \<Rightarrow> Some tx), w\<lparr>kw_tick := Suc (kw_tick w)\<rparr>)"
      using assms(1)
      by (auto simp: or_not_found_def kyc_get_def kyc_call_def kyc_quiet_def kyc_others_def Let_def tx_get_def split: option.splits)
    show ?thesis
      using False assms(2)
      by (auto simp: x in_flight_def leaves_def bindM_def get ret_def on_its_way_def flying_def split: sum.split)
  qed
qed

lemma leaves_fold:
  assumes "kyc_quiet e" and "distinct acc"
  shows "leaves (foldM (in_flight e g now) xs acc) (\<lambda>acc'. distinct acc' \<and> set acc' = set acc \<union> flying g now (kw_txs w) (set xs)) w"
  using assms(2)
proof (induction xs arbitrary: acc w)
  case (Cons x xs)
  show ?case
    unfolding foldM.simps
  proof (rule leaves_bind [OF leaves_in_flight [OF assms(1) Cons.prems]])
    fix acc' t
    assume acc': "distinct acc' \<and> set acc' = set acc \<union> flying g now (kw_txs w) {x}"
    have "leaves (foldM (in_flight e g now) xs acc') (\<lambda>acc''. distinct acc'' \<and>
        set acc'' = set acc' \<union> flying g now (kw_txs w) (set xs)) (w\<lparr>kw_tick := t\<rparr>)"
      using Cons.IH [of acc' "w\<lparr>kw_tick := t\<rparr>"] acc' by simp
    then show "leaves (foldM (in_flight e g now) xs acc') (\<lambda>acc''. distinct acc'' \<and>
        set acc'' = set acc \<union> flying g now (kw_txs w) (set (x # xs))) (w\<lparr>kw_tick := t\<rparr>)"
      using acc' by (simp add: flying_insert [of g now _ x "set xs"] Un_assoc)
  qed
qed (simp add: leaves_ret)

lemma leaves_counted:
  assumes "kyc_quiet e"
  shows "leaves (counted_wallets e g now) (\<lambda>acc. distinct acc \<and> set acc = counted g now w) w"
  unfolding counted_wallets_def allowed_wallets_def
proof (rule leaves_bind [OF leaves_bind [OF leaves_read [OF assms, where P = "\<lambda>vs. vs = iv_list (kw_investors w)"] leaves_ret]])
  fix as t
  assume "as = map iv_address (filter (counts_allowed g now) (iv_list (kw_investors w)))"
  then have as: "set (remdups (map to_lower as)) = to_lower ` iv_address ` {v \<in> set (iv_list (kw_investors w)). counts_allowed g now v}"
    by auto
  show "leaves (bindM (kyc_read e (\<lambda>w. op_list (kw_ops w))) (\<lambda>ops.
      bindM (foldM (in_flight e g now) (map (\<lambda>c. (co_address c, co_id c)) (filter (\<lambda>c. co_status c = ComplianceAllowed) ops))
        (remdups (map to_lower as))) (\<lambda>seen.
      bindM (kyc_read e (\<lambda>w. kr_list (kw_repo w))) (\<lambda>evs.
      foldM (in_flight e g now) (map (\<lambda>v. (ke_address v, ke_tx_id v)) (filter counts_event evs)) seen))))
    (\<lambda>acc. distinct acc \<and> set acc = counted g now w) (w\<lparr>kw_tick := t\<rparr>)"
    by (rule leaves_bind [OF leaves_read [OF assms, where P = "\<lambda>ops. ops = kw_ops w"]], simp add: op_list_def,
        rule leaves_bind [OF leaves_fold [OF assms distinct_remdups]],
        rule leaves_bind [OF leaves_read [OF assms, where P = "\<lambda>evs. evs = kr_list (kw_repo w)"]], simp,
        rule leaves_weaken [OF leaves_fold [OF assms]]) (auto simp: counted_def as simp del: set_remdups)
qed simp_all


section \<open>Properties\<close>

lemma check_allow_run:
  assumes "kyc_quiet e"
  shows "fst (check_allow e g a now w) =
    (if sl_contains (gd_sanctions g) a then Inl KycSanctioned
     else if gd_max_wallets g \<le> 0 \<or> is_excluded g a \<or> to_lower a \<in> counted g now w \<or>
       int (card (counted g now w)) < gd_max_wallets g then Inr ()
     else Inl KycHolderCapReached)"
proof -
  obtain acc t where acc: "counted_wallets e g now w = (Inr acc, w\<lparr>kw_tick := t\<rparr>)" "distinct acc" "set acc = counted g now w"
    using leaves_counted [OF assms] unfolding leaves_def by blast
  have "length acc = card (counted g now w)" using distinct_card [OF acc(2)] acc(3) by simp
  then show ?thesis
    using acc(3) by (auto simp: check_allow_def bindM_def acc(1) ret_def raise_def)
qed

text \<open>A quiet environment: one replica, no faults, every address well formed.\<close>

definition demo_kyc :: kyc_env where
  "demo_kyc = \<lparr>kx_fault = \<lambda>_. NoFault, kx_other = \<lambda>_ w. w, kx_now = \<lambda>_. 10 ^ 18,
     kx_uuid = \<lambda>n. replicate n CHR ''u'', kx_is_hex_address = \<lambda>_. True, kx_checksum = \<lambda>a. a,
     kx_sha256 = \<lambda>bs. word_of_nat (length bs), kx_submit = \<lambda>_ c txs. (Some (sc_idempotency_key c), txs)\<rparr>"

definition demo_world :: kyc_world where
  "demo_world = \<lparr>kw_tick = 0, kw_repo = new_kyc_repo, kw_investors = [], kw_ops = [], kw_txs = [], kw_sent = [], kw_alerts = []\<rparr>"

lemma demo_kyc_quiet: "kyc_quiet demo_kyc"
  by (simp add: kyc_quiet_def demo_kyc_def)

text \<open>
  C36: The verdict of the guard, over one state of the repositories. A listed wallet is refused;
  otherwise it is let through exactly when no cap is set, it is exempt, it is already counted, or
  fewer wallets than the cap are counted, where a wallet counts that is Allowed and unexpired or
  whose Allowed status was submitted within the hour and is still live.
\<close>

theorem check_allow_exact:
  assumes "kyc_quiet e"
  shows "fst (check_allow e g a now w) =
    (if sl_contains (gd_sanctions g) a then Inl KycSanctioned
     else if gd_max_wallets g \<le> 0 \<or> is_excluded g a \<or> to_lower a \<in> counted g now w \<or>
       int (card (counted g now w)) < gd_max_wallets g then Inr ()
     else Inl KycHolderCapReached)"
  by (rule check_allow_run [OF assms])

corollary check_allow_exact_witness:
  "fst (check_allow demo_kyc \<lparr>gd_max_wallets = 1, gd_excluded = [], gd_sanctions = None\<rparr> ''a'' 0 demo_world) = Inr ()"
  unfolding check_allow_exact [OF demo_kyc_quiet]
  by (simp add: sl_contains_def counted_def demo_world_def new_kyc_repo_def iv_list_def kr_list_def)

lemma flying_finite: "finite S \<Longrightarrow> finite (flying g now txs S)"
  unfolding flying_def by (rule finite_imageI, rule finite_subset [OF _ finite_imageI [of S fst]]) force

lemma counted_finite: "finite (counted g now w)"
  unfolding counted_def by (intro finite_UnI finite_imageI flying_finite) simp_all

text \<open>Letting one more wallet through keeps the number of counted wallets at the cap or below.\<close>

corollary admitted_within_cap:
  assumes "kyc_quiet e" and "fst (check_allow e g a now w) = Inr ()" and "0 < gd_max_wallets g" and "\<not> is_excluded g a"
    and "int (card (counted g now w)) \<le> gd_max_wallets g"
  shows "int (card (insert (to_lower a) (counted g now w))) \<le> gd_max_wallets g"
proof (cases "to_lower a \<in> counted g now w")
  case False
  then have "int (card (counted g now w)) < gd_max_wallets g"
    using assms(2-4) unfolding check_allow_run [OF assms(1)] by (auto split: if_splits)
  then show ?thesis using False by (simp add: counted_finite)
qed (simp add: insert_absorb assms(5))

section \<open>The list in force\<close>

text \<open>An address is on the list when a line, trimmed and not a comment, spells it in any case.\<close>

definition lists_line :: "string \<Rightarrow> string \<Rightarrow> bool" where
  "lists_line a l \<longleftrightarrow> trim_space l \<noteq> [] \<and> hd (trim_space l) \<noteq> CHR ''#'' \<and> to_lower (trim_space l) = a"

lemma parse_lines_set:
  "parse_lines is_hex n ls out = Inr out' \<Longrightarrow> set out' = set out \<union> {a. \<exists>l \<in> set ls. lists_line a l}"
  by (induction is_hex n ls out rule: parse_lines.induct) (auto simp: Let_def lists_line_def split: if_splits)

lemma parse_sanctions_set:
  "parse_sanctions_list is_hex text = Inr out \<Longrightarrow> set out = {a. \<exists>l \<in> set (fst (scan_lines [] text)). lists_line a l}"
  by (auto simp: parse_sanctions_list_def dest!: parse_lines_set split: prod.splits sum.splits if_splits)

text \<open>
  Reloading the sanctions list. Whatever fails, a wallet that was refused stays refused and no
  other becomes so; a reload that succeeds lists exactly the lines of the new file.
\<close>

theorem reload_exact:
  assumes "sl_reload is_hex stat content sl = (res, sl')"
  shows "case res of
    Inr True \<Rightarrow> \<exists>text. content = Some text \<and>
      (\<forall>a. sl_contains sl' a \<longleftrightarrow> (\<exists>l \<in> set (fst (scan_lines [] text)). lists_line (to_lower a) l))
  | _ \<Rightarrow> \<forall>a. sl_contains sl' a = sl_contains sl a"
proof (cases sl)
  case (Some l)
  show ?thesis
  proof (cases "stat = None \<or> stat = sl_mtime l")
    case True
    then show ?thesis using assms by (auto simp: sl_reload_def Some split: option.splits)
  next
    case False
    then obtain m where m: "stat = Some m" "Some m \<noteq> sl_mtime l" by auto
    show ?thesis
    proof (cases content)
      case None
      then show ?thesis using assms by (auto simp: sl_reload_def Some m sl_contains_def)
    next
      case new: (Some body)
      show ?thesis
        using assms parse_sanctions_set [of is_hex body]
        by (cases "parse_sanctions_list is_hex body")
          (auto simp: sl_reload_def Some m new sl_contains_def Let_def)
    qed
  qed
next
  case None
  then show ?thesis using assms by (auto simp: sl_reload_def)
qed

corollary reload_exact_witness:
  "\<exists>sl. sl_reload (\<lambda>_. True) (Some 1) (Some ''0x1'') (new_sanctions_list ''f'') = (Inr True, sl) \<and> sl_contains sl ''0X1''"
proof -
  have low: "to_lower ''0x1'' = ''0x1''" "to_lower ''0X1'' = ''0x1''"
    by (simp_all add: to_lower_def to_lower_char_def Let_def, code_simp+)
  have line: "trim_space ''0x1'' = ''0x1''" by (simp add: trim_space_def is_space_def)
  obtain sl' where run: "sl_reload (\<lambda>_. True) (Some 1) (Some ''0x1'') (new_sanctions_list ''f'') = (Inr True, sl')"
    by (simp add: sl_reload_def new_sanctions_list_def parse_sanctions_list_def line low)
  have "lists_line (to_lower ''0X1'') ''0x1''" by (simp add: lists_line_def line low)
  then have "sl_contains sl' ''0X1''" using reload_exact [OF run] by simp
  then show ?thesis using run by blast
qed

end
