(* ===== verification/Webhook.thy ===== *)
theory Webhook
  imports Guard
begin

text \<open>
  Inbound decisions: server/internal/compliance/webhook.go. \<open>process_decision\<close> validates an
  authenticated decision, stores it as Claiming and settles its claim to the address with
  \<open>finalize_claim\<close>, which the reconciler repeats after a crash. \<open>kyc_inv\<close> is what every caller
  keeps of the event repository, \<open>kyc_grows\<close> what it may rely on of the others.
\<close>

section \<open>Payloads\<close>

record webhook_payload =
  wp_event_id :: string
  wp_address :: string
  wp_provider :: string
  wp_status :: string
  wp_occurred_at :: int
  wp_valid_until :: int

definition max_webhook_age :: gotime where
  "max_webhook_age = 24 * 3600 * 10 ^ 9"

definition max_webhook_clock_skew_ahead :: gotime where
  "max_webhook_clock_skew_ahead = 5 * 60 * 10 ^ 9"

definition max_valid_until_horizon :: gotime where
  "max_valid_until_horizon = 100 * 365 * 24 * 3600 * 10 ^ 9"

text \<open>\<^verbatim>\<open>time.Unix(sec, 0)\<close>: the seconds since year 1 are kept in an int64, which can wrap.\<close>

definition unix_to_internal :: int where
  "unix_to_internal = 62135596800"

definition go_unix :: "int \<Rightarrow> gotime" where
  "go_unix sec = (wrap64 (sec + unix_to_internal) - unix_to_internal) * 10 ^ 9"

text \<open>\<open>hmac\<close> is HMAC-SHA256, of a secret and a message.\<close>

definition verify_hmac :: "(string \<Rightarrow> byte list \<Rightarrow> byte list) \<Rightarrow> byte list \<Rightarrow> string \<Rightarrow> string \<Rightarrow> bool" where
  "verify_hmac hmac payload signature_hex secret =
     (if secret = [] then False
      else case decode_hex (trim_prefix ''0x'' signature_hex) of
        None \<Rightarrow> False
      | Some given \<Rightarrow> hmac secret payload = given)"

section \<open>Claims\<close>

definition with_apply :: "kyc_apply_status \<Rightarrow> kyc_event \<Rightarrow> kyc_event" where
  "with_apply s v = v\<lparr>ke_apply_status := s\<rparr>"

definition settled_status :: "bool \<Rightarrow> kyc_event \<Rightarrow> kyc_apply_status" where
  "settled_status holds v =
     (if holds then (if ke_outcome v = ''Pending'' then KycRecorded else KycAccepted) else KycSuperseded)"

definition finalize_claim :: "kyc_env \<Rightarrow> kyc_event \<Rightarrow> bool kym" where
  "finalize_claim e v =
     (let event_key = kyc_event_id_key (ke_provider v) (ke_event_id v) in
      bindM (kyc_write e (\<lambda>r. case kr_claim_latest (ke_address v) (ke_occurred_at v) event_key r of (b, r) \<Rightarrow> (Inr b, r))) (\<lambda>won.
      bindM (if won then ret True
             else bindM (or_not_found (kyc_get e (\<lambda>w. kr_current_claim (ke_address v) (kw_repo w)))) (\<lambda>current.
               ret (current = Some event_key))) (\<lambda>holds.
      bindM (kyc_write e (kr_update (with_apply (settled_status holds v) v))) (\<lambda>_. ret holds))))"

section \<open>ProcessDecision\<close>

definition known_status :: "string \<Rightarrow> bool" where
  "known_status s \<longleftrightarrow> s = ''Allowed'' \<or> s = ''Blocked'' \<or> s = ''Pending''"

definition check_payload :: "kyc_env \<Rightarrow> webhook_payload \<Rightarrow> unit kym" where
  "check_payload e wp =
     bindM (guardM (known_status (wp_status wp)) KycUnsupportedStatus) (\<lambda>_.
     bindM (guardM (wp_provider wp \<noteq> []) KycMissingProvider) (\<lambda>_.
     bindM (guardM (wp_event_id wp \<noteq> []) KycMissingEventId) (\<lambda>_.
     guardM (kx_is_hex_address e (wp_address wp)) KycInvalidAddress)))"

definition check_times :: "gotime \<Rightarrow> webhook_payload \<Rightarrow> unit kym" where
  "check_times now wp =
     bindM (guardM (wp_occurred_at wp > 0) KycMissingOccurredAt) (\<lambda>_.
     bindM (guardM (\<not> go_unix (wp_occurred_at wp) > now + max_webhook_clock_skew_ahead) KycStale) (\<lambda>_.
     bindM (guardM (\<not> now - go_unix (wp_occurred_at wp) > max_webhook_age) KycStale) (\<lambda>_.
     bindM (guardM (\<not> wp_valid_until wp < 0) KycNegativeValidUntil) (\<lambda>_.
     guardM (\<not> (wp_valid_until wp > 0 \<and> go_unix (wp_valid_until wp) > now + max_valid_until_horizon))
       KycValidUntilHorizon))))"

definition check_ownership :: "kyc_env \<Rightarrow> string \<Rightarrow> unit kym" where
  "check_ownership e a =
     bindM (or_not_found (kyc_get e (\<lambda>w. iv_get a (kw_investors w)))) (\<lambda>found.
     case found of
       None \<Rightarrow> raise KycOwnershipNotVerified
     | Some v \<Rightarrow> guardM (iv_ownership_verified v) KycOwnershipNotVerified)"

definition event_of :: "gotime \<Rightarrow> string \<Rightarrow> string \<Rightarrow> webhook_payload \<Rightarrow> kyc_event" where
  "event_of now i hash wp =
     \<lparr>ke_id = i, ke_address = wp_address wp, ke_status = wp_status wp, ke_provider = wp_provider wp,
      ke_event_id = wp_event_id wp, ke_outcome = wp_status wp, ke_apply_status = KycClaiming,
      ke_valid_until = wp_valid_until wp, ke_tx_id = [], ke_occurred_at = go_unix (wp_occurred_at wp),
      ke_received_at = now, ke_payload_hash = hash\<rparr>"

text \<open>\<^verbatim>\<open>events.Create\<close>, whose \<^verbatim>\<open>ErrAlreadyExists\<close> is reported as a replay.\<close>

definition create_event :: "kyc_env \<Rightarrow> kyc_event \<Rightarrow> unit kym" where
  "create_event e v = (\<lambda>w. case kyc_write e (kr_create v) w of
     (Inl (KycStoreError ErrAlreadyExists), u) \<Rightarrow> (Inl KycReplayed, u)
   | (r, u) \<Rightarrow> (r, u))"

definition settle_decision :: "kyc_env \<Rightarrow> kyc_event \<Rightarrow> webhook_payload \<Rightarrow> webhook_payload kym" where
  "settle_decision e v wp =
     bindM (finalize_claim e v) (\<lambda>holds.
     if holds then ret wp
     else bindM (tryM (kyc_get e (\<lambda>w. kr_current_claim (wp_address wp) (kw_repo w)))) (\<lambda>current.
       if current = Inr (kyc_event_id_key (wp_provider wp) (wp_event_id wp)) then raise KycReplayed
       else raise KycStale))"

definition payload_hash :: "kyc_env \<Rightarrow> byte list \<Rightarrow> string" where
  "payload_hash e raw = hex_bytes (hash_bytes (kx_sha256 e raw))"

definition store_decision :: "kyc_env \<Rightarrow> gotime \<Rightarrow> string \<Rightarrow> webhook_payload \<Rightarrow> webhook_payload kym" where
  "store_decision e now hash wp =
     bindM (getM (\<lambda>w. kx_uuid e (kw_tick w))) (\<lambda>i.
     bindM (create_event e (event_of now i hash wp)) (\<lambda>_.
     settle_decision e (event_of now i hash wp) wp))"

definition process_decision :: "kyc_env \<Rightarrow> byte list \<Rightarrow> webhook_payload \<Rightarrow> bool \<Rightarrow> webhook_payload kym" where
  "process_decision e raw wp allow_manual_override =
     (let hash = payload_hash e raw in
      bindM (kyc_read e (\<lambda>w. kr_exists hash (kw_repo w))) (\<lambda>seen.
      bindM (guardM (\<not> seen) KycReplayed) (\<lambda>_.
      bindM (check_payload e wp) (\<lambda>_.
      (let wp = wp\<lparr>wp_address := kx_checksum e (wp_address wp)\<rparr> in
       bindM (kyc_now e) (\<lambda>now.
       bindM (check_times now wp) (\<lambda>_.
       bindM (if allow_manual_override then ret () else check_ownership e (wp_address wp)) (\<lambda>_.
       store_decision e now hash wp))))))))"

definition process_webhook ::
  "kyc_env \<Rightarrow> (string \<Rightarrow> byte list \<Rightarrow> byte list) \<Rightarrow> (byte list \<Rightarrow> webhook_payload option) \<Rightarrow> string \<Rightarrow>
    byte list \<Rightarrow> string \<Rightarrow> bool \<Rightarrow> webhook_payload kym" where
  "process_webhook e hmac unmarshal secret payload signature_hex allow_manual_override =
     (if \<not> verify_hmac hmac payload signature_hex secret then raise KycInvalidSignature
      else case unmarshal payload of
        None \<Rightarrow> raise KycInvalidPayload
      | Some wp \<Rightarrow> process_decision e payload wp allow_manual_override)"

text \<open>server/internal/api/compliance.go: a monitoring hit on an Allowed wallet queues a block of its own.\<close>

definition monitoring_suffix :: string where
  "monitoring_suffix = '':monitoring-block''"

definition record_monitoring_block :: "kyc_env \<Rightarrow> byte list \<Rightarrow> webhook_payload \<Rightarrow> unit kym" where
  "record_monitoring_block e body hit =
     (let block = hit\<lparr>wp_event_id := wp_event_id hit @ monitoring_suffix, wp_status := ''Blocked'', wp_valid_until := 0\<rparr>
      in bindM (process_decision e (body @ map of_char monitoring_suffix) block True) (\<lambda>_. ret ()))"

text \<open>The block sorts after the hit it answers, whose time it carries.\<close>

lemma monitoring_block_newer:
  "claim_is_newer at (kyc_event_id_key provider (i @ monitoring_suffix)) at (kyc_event_id_key provider i)"
proof -
  have "xs < xs @ c # ys" for xs ys :: string and c by (induction xs) simp_all
  then have "provider @ ''|'' @ i < (provider @ ''|'' @ i) @ monitoring_suffix" unfolding monitoring_suffix_def by blast
  then show ?thesis by (simp add: claim_is_newer_iff kyc_event_id_key_def)
qed

section \<open>What every caller keeps\<close>

text \<open>An update of an event changes its status and its transaction only.\<close>

definition same_delivery :: "kyc_event \<Rightarrow> kyc_event \<Rightarrow> bool" where
  "same_delivery v u \<longleftrightarrow> ke_id u = ke_id v \<and> ke_address u = ke_address v \<and> ke_status u = ke_status v \<and>
     ke_provider u = ke_provider v \<and> ke_event_id u = ke_event_id v \<and> ke_outcome u = ke_outcome v \<and>
     ke_valid_until u = ke_valid_until v \<and> ke_occurred_at u = ke_occurred_at v \<and>
     ke_received_at u = ke_received_at v \<and> ke_payload_hash u = ke_payload_hash v"

definition event_at :: "kyc_repo \<Rightarrow> kyc_event \<Rightarrow> bool" where
  "event_at r v \<longleftrightarrow> lookup (kr_by_id r) (ke_id v) = Some v"

text \<open>The repository holds this delivery, whatever became of it.\<close>

definition has_delivery :: "kyc_event \<Rightarrow> kyc_repo \<Rightarrow> bool" where
  "has_delivery v r \<longleftrightarrow> (\<exists>u. lookup (kr_by_id r) (ke_id v) = Some u \<and> same_delivery v u)"

definition claimed :: "kyc_event \<Rightarrow> kyc_repo \<Rightarrow> bool" where
  "claimed v r \<longleftrightarrow> (\<exists>c. held_claim r (ke_address v) = Some c \<and> ke_pair v \<le> c)"

definition kyc_inv :: "kyc_repo \<Rightarrow> bool" where
  "kyc_inv r \<longleftrightarrow> wf_store ke_id (kr_by_id r) \<and>
     (\<forall>i v. lookup (kr_by_id r) i = Some v \<longrightarrow>
        flagged (kr_by_hash r) (ke_payload_hash v) \<and> flagged (kr_by_event_id r) (ke_key v)) \<and>
     (\<forall>i v j u. lookup (kr_by_id r) i = Some v \<longrightarrow> lookup (kr_by_id r) j = Some u \<longrightarrow> ke_key v = ke_key u \<longrightarrow> i = j) \<and>
     (\<forall>a c. held_claim r a = Some c \<longrightarrow> (\<exists>i v. lookup (kr_by_id r) i = Some v \<and> ke_address v = a \<and> ke_pair v = c)) \<and>
     (\<forall>i v. lookup (kr_by_id r) i = Some v \<longrightarrow> ke_apply_status v \<noteq> KycClaiming \<longrightarrow> claimed v r)"

definition kyc_grows :: "kyc_repo \<Rightarrow> kyc_repo \<Rightarrow> bool" where
  "kyc_grows r r' \<longleftrightarrow>
     (\<forall>h. flagged (kr_by_hash r) h \<longrightarrow> flagged (kr_by_hash r') h) \<and>
     (\<forall>k. flagged (kr_by_event_id r) k \<longrightarrow> flagged (kr_by_event_id r') k) \<and>
     (\<forall>a c. held_claim r a = Some c \<longrightarrow> (\<exists>c'. held_claim r' a = Some c' \<and> c \<le> c')) \<and>
     (\<forall>i v. lookup (kr_by_id r) i = Some v \<longrightarrow> (\<exists>u. lookup (kr_by_id r') i = Some u \<and> same_delivery v u \<and>
        (ke_apply_status v \<noteq> KycClaiming \<longrightarrow> ke_apply_status u \<noteq> KycClaiming)))"

lemma kyc_inv_origin:
  "kyc_inv r \<Longrightarrow> held_claim r a = Some c \<Longrightarrow> \<exists>i v. lookup (kr_by_id r) i = Some v \<and> ke_address v = a \<and> ke_pair v = c"
  unfolding kyc_inv_def by blast

lemma kyc_inv_claimed:
  "kyc_inv r \<Longrightarrow> lookup (kr_by_id r) i = Some v \<Longrightarrow> ke_apply_status v \<noteq> KycClaiming \<Longrightarrow> claimed v r"
  unfolding kyc_inv_def by blast

lemma kyc_inv_key:
  "kyc_inv r \<Longrightarrow> lookup (kr_by_id r) i = Some v \<Longrightarrow> lookup (kr_by_id r) j = Some u \<Longrightarrow> ke_key v = ke_key u \<Longrightarrow> i = j"
  unfolding kyc_inv_def by blast

lemma kyc_inv_flags:
  "kyc_inv r \<Longrightarrow> lookup (kr_by_id r) i = Some v \<Longrightarrow>
    flagged (kr_by_hash r) (ke_payload_hash v) \<and> flagged (kr_by_event_id r) (ke_key v)"
  unfolding kyc_inv_def by blast

lemma kyc_inv_wf: "kyc_inv r \<Longrightarrow> wf_store ke_id (kr_by_id r)"
  unfolding kyc_inv_def by blast

lemma kyc_inv_id: "kyc_inv r \<Longrightarrow> lookup (kr_by_id r) i = Some v \<Longrightarrow> ke_id v = i"
  by (rule wf_store_lookup [OF kyc_inv_wf])

lemma same_delivery_refl [simp]: "same_delivery v v"
  by (simp add: same_delivery_def)

lemma same_delivery_fields:
  assumes "same_delivery v u"
  shows "ke_id u = ke_id v" "ke_address u = ke_address v" "ke_provider u = ke_provider v"
    "ke_event_id u = ke_event_id v" "ke_outcome u = ke_outcome v" "ke_occurred_at u = ke_occurred_at v"
    "ke_payload_hash u = ke_payload_hash v" "ke_valid_until u = ke_valid_until v" "ke_received_at u = ke_received_at v"
    "ke_status u = ke_status v"
  using assms by (simp_all add: same_delivery_def)

lemma same_delivery_trans: "same_delivery v u \<Longrightarrow> same_delivery u t \<Longrightarrow> same_delivery v t"
  by (simp add: same_delivery_def)

lemma same_delivery_sym: "same_delivery v u \<Longrightarrow> same_delivery u v"
  by (simp add: same_delivery_def)

lemma same_delivery_updates [simp]:
  "same_delivery v (with_apply s v)" "same_delivery v (v\<lparr>ke_tx_id := i, ke_apply_status := s\<rparr>)"
  "same_delivery v (v\<lparr>ke_apply_status := s, ke_tx_id := i\<rparr>)"
  by (simp_all add: same_delivery_def with_apply_def)

lemma kyc_grows_refl [simp]: "kyc_grows r r"
  by (auto simp: kyc_grows_def)

lemma kyc_grows_trans: "kyc_grows r s \<Longrightarrow> kyc_grows s t \<Longrightarrow> kyc_grows r t"
  unfolding kyc_grows_def by (meson order_trans same_delivery_trans)

lemma has_delivery_grows: "has_delivery v r \<Longrightarrow> kyc_grows r r' \<Longrightarrow> has_delivery v r'"
  unfolding has_delivery_def kyc_grows_def by (meson same_delivery_trans)

lemma claimed_grows: "claimed v r \<Longrightarrow> kyc_grows r r' \<Longrightarrow> claimed v r'"
  unfolding claimed_def kyc_grows_def by (meson order_trans)

lemma claimed_same: "same_delivery v u \<Longrightarrow> claimed u r = claimed v r"
  by (simp add: claimed_def same_delivery_fields)

lemma kr_create_step:
  assumes "kyc_inv r" and "lookup (kr_by_id r) (ke_id v) = None" and "ke_apply_status v = KycClaiming"
    and "kr_create v r = (x, r')"
  shows "kyc_inv r'" and "kyc_grows r r'" and "x = Inr () \<Longrightarrow> has_delivery v r'"
    and "x = Inr () \<Longrightarrow> \<not> flagged (kr_by_hash r) (ke_payload_hash v) \<and> \<not> flagged (kr_by_event_id r) (ke_key v)"
    and "x = Inr () \<Longrightarrow> flagged (kr_by_hash r') (ke_payload_hash v) \<and> flagged (kr_by_event_id r') (ke_key v)"
    and "kr_by_id r' = kr_by_id r \<or> kr_by_id r' = put (ke_id v) v (kr_by_id r)"
proof -
  have cases: "(x \<noteq> Inr () \<and> r' = r) \<or>
      (x = Inr () \<and> \<not> flagged (kr_by_hash r) (ke_payload_hash v) \<and> \<not> flagged (kr_by_event_id r) (ke_key v) \<and>
       r' = r\<lparr>kr_by_id := put (ke_id v) v (kr_by_id r), kr_by_hash := put (ke_payload_hash v) True (kr_by_hash r),
              kr_by_event_id := put (ke_key v) True (kr_by_event_id r)\<rparr>)"
    using assms(4) by (auto simp: kr_create_def Let_def split: if_splits)
  have held: "held_claim r' = held_claim r" using cases by (auto simp: held_claim_def fun_eq_iff)
  have at: "lookup (kr_by_id r') j = Some w \<Longrightarrow> lookup (kr_by_id r) j = Some w \<or> (x = Inr () \<and> j = ke_id v \<and> w = v)" for j w
    using cases by (auto simp: lookup_put split: if_splits)
  have flags: "flagged (kr_by_hash r) h \<Longrightarrow> flagged (kr_by_hash r') h"
    "flagged (kr_by_event_id r) k \<Longrightarrow> flagged (kr_by_event_id r') k" for h k
    using cases by (auto simp: flagged_put)
  have keep: "lookup (kr_by_id r) j = Some w \<Longrightarrow> lookup (kr_by_id r') j = Some w" for j w
    using cases assms(2) by (auto simp: lookup_put)
  show "kyc_grows r r'"
    unfolding kyc_grows_def held using flags keep by fastforce
  show new: "\<not> flagged (kr_by_hash r) (ke_payload_hash v) \<and> \<not> flagged (kr_by_event_id r) (ke_key v)" if "x = Inr ()"
    using cases that by blast
  show marked: "flagged (kr_by_hash r') (ke_payload_hash v) \<and> flagged (kr_by_event_id r') (ke_key v)" if "x = Inr ()"
    using cases that by (auto simp: flagged_put)
  show "has_delivery v r'" if "x = Inr ()"
    using cases that by (auto simp: has_delivery_def lookup_put)
  show "kr_by_id r' = kr_by_id r \<or> kr_by_id r' = put (ke_id v) v (kr_by_id r)" using cases by auto
  have old: "flagged (kr_by_hash r) (ke_payload_hash w) \<and> flagged (kr_by_event_id r) (ke_key w)" if "lookup (kr_by_id r) j = Some w" for j w
    using assms(1) that unfolding kyc_inv_def by blast
  have "flagged (kr_by_hash r') (ke_payload_hash w) \<and> flagged (kr_by_event_id r') (ke_key w)" if "lookup (kr_by_id r') j = Some w" for j w
    using at [OF that] old flags marked by blast
  moreover have "j = k" if w: "lookup (kr_by_id r') j = Some w" "lookup (kr_by_id r') k = Some u" "ke_key w = ke_key u" for j k w u
  proof -
    have "lookup (kr_by_id r) j = Some w \<Longrightarrow> lookup (kr_by_id r) k = Some u \<Longrightarrow> j = k"
      using assms(1) w(3) unfolding kyc_inv_def by blast
    moreover have "False" if "x = Inr ()" "lookup (kr_by_id r) i = Some t" "ke_key t = ke_key v" for i t
      using new [OF that(1)] old [OF that(2)] that(3) by simp
    ultimately show ?thesis using at [OF w(1)] at [OF w(2)] w(3) by metis
  qed
  moreover have "\<exists>i w. lookup (kr_by_id r') i = Some w \<and> ke_address w = a \<and> ke_pair w = c" if "held_claim r a = Some c" for a c
    using kyc_inv_origin [OF assms(1) that] keep by blast
  moreover have "claimed w r'" if w: "lookup (kr_by_id r') j = Some w" "ke_apply_status w \<noteq> KycClaiming" for j w
  proof -
    have "lookup (kr_by_id r) j = Some w" using at [OF w(1)] w(2) assms(3) by blast
    then show ?thesis using assms(1) w(2) unfolding kyc_inv_def by (auto simp: claimed_def held)
  qed
  moreover have "wf_store ke_id (kr_by_id r')" using cases assms(1) by (auto simp: kyc_inv_def wf_store_put)
  ultimately show "kyc_inv r'" unfolding kyc_inv_def held by blast
qed

lemma kr_claim_step:
  assumes "kyc_inv r" and "has_delivery v r" and "kr_claim_latest (ke_address v) (ke_occurred_at v) (ke_key v) r = (b, r')"
  shows "kyc_inv r'" and "kyc_grows r r'" and "claimed v r'" and "kr_by_id r' = kr_by_id r"
proof -
  note run = kr_claim_latest_run [OF assms(3)]
  show ids: "kr_by_id r' = kr_by_id r" using run by simp
  have "held_claim r' = (if b then (held_claim r)(ke_address v \<mapsto> ke_pair v) else held_claim r)" using run by blast
  then have held: "held_claim r' a = (if b \<and> a = ke_address v then Some (ke_pair v) else held_claim r a)" for a
    by (cases b) auto
  have lost: "\<exists>c. held_claim r (ke_address v) = Some c \<and> ke_pair v \<le> c" if "\<not> b"
    using run that by (auto simp: not_less)
  show claimed: "claimed v r'"
    using lost by (cases b) (auto simp: claimed_def held)
  show grows: "kyc_grows r r'"
    using run by (auto simp: kyc_grows_def held less_imp_le)
  obtain u where u: "lookup (kr_by_id r) (ke_id v) = Some u" "same_delivery v u" using assms(2) by (auto simp: has_delivery_def)
  have "\<exists>i w. lookup (kr_by_id r) i = Some w \<and> ke_address w = a \<and> ke_pair w = c" if "held_claim r' a = Some c" for a c
  proof (cases "b \<and> a = ke_address v")
    case True
    have "ke_address u = ke_address v" "ke_pair u = ke_pair v" using same_delivery_fields [OF u(2)] by simp_all
    moreover have "c = ke_pair v" using that True by (simp add: held)
    ultimately show ?thesis using u(1) True by blast
  next
    case False
    then have "held_claim r a = Some c" using that by (auto simp: held split: if_splits)
    then show ?thesis by (rule kyc_inv_origin [OF assms(1)])
  qed
  moreover have "claimed w r'" if "lookup (kr_by_id r) i = Some w" "ke_apply_status w \<noteq> KycClaiming" for i w
    using that assms(1) claimed_grows [OF _ grows] unfolding kyc_inv_def by blast
  ultimately show "kyc_inv r'" using assms(1) run unfolding kyc_inv_def by auto
qed

lemma kr_update_step:
  assumes "kyc_inv r" and "has_delivery v r" and "same_delivery v u" and "ke_apply_status u \<noteq> KycClaiming"
    and "claimed v r" and "kr_update u r = (x, r')"
  shows "kyc_inv r'" and "kyc_grows r r'" and "x = Inr ()" and "event_at r' u" and "kr_by_id r' = put (ke_id v) u (kr_by_id r)"
    and "held_claim r' = held_claim r"
proof -
  obtain t where t: "lookup (kr_by_id r) (ke_id v) = Some t" "same_delivery v t" using assms(2) by (auto simp: has_delivery_def)
  have tu: "same_delivery t u" using t(2) assms(3) same_delivery_sym same_delivery_trans by blast
  have i: "ke_id u = ke_id v" using same_delivery_fields [OF assms(3)] by simp
  have r': "r' = r\<lparr>kr_by_id := put (ke_id v) u (kr_by_id r)\<rparr>" and x: "x = Inr ()"
    using assms(6) t(1) by (auto simp: kr_update_def i)
  show "x = Inr ()" by (rule x)
  show held: "held_claim r' = held_claim r" by (simp add: r' held_claim_def fun_eq_iff)
  show "event_at r' u" by (simp add: r' event_at_def i lookup_put)
  show "kr_by_id r' = put (ke_id v) u (kr_by_id r)" by (simp add: r')
  have at: "lookup (kr_by_id r') j = (if j = ke_id v then Some u else lookup (kr_by_id r) j)" for j
    by (simp add: r' lookup_put)
  show "kyc_grows r r'"
    using tu t(1) assms(4) unfolding kyc_grows_def held at by (auto simp: r')
  have old: "\<exists>t. lookup (kr_by_id r) j = Some t \<and> same_delivery w t" if w: "lookup (kr_by_id r') j = Some w" for j w
    using w t(1) same_delivery_sym [OF tu] by (auto simp: at split: if_splits)
  have "flagged (kr_by_hash r) (ke_payload_hash w) \<and> flagged (kr_by_event_id r) (ke_key w)"
    if w: "lookup (kr_by_id r') j = Some w" for j w
  proof -
    obtain t' where t': "lookup (kr_by_id r) j = Some t'" "same_delivery w t'" using old [OF w] by blast
    show ?thesis using assms(1) t'(1) same_delivery_fields [OF t'(2)] unfolding kyc_inv_def by metis
  qed
  moreover have "j = k" if two: "lookup (kr_by_id r') j = Some w" "lookup (kr_by_id r') k = Some w'" "ke_key w = ke_key w'" for j k w w'
  proof -
    obtain t1 t2 where t12: "lookup (kr_by_id r) j = Some t1" "same_delivery w t1" "lookup (kr_by_id r) k = Some t2" "same_delivery w' t2"
      using old [OF two(1)] old [OF two(2)] by blast
    then have "ke_key t1 = ke_key t2" using two(3) same_delivery_fields [OF t12(2)] same_delivery_fields [OF t12(4)] by simp
    then show ?thesis using assms(1) t12(1,3) unfolding kyc_inv_def by blast
  qed
  moreover have "\<exists>j w. lookup (kr_by_id r') j = Some w \<and> ke_address w = a \<and> ke_pair w = c" if h: "held_claim r a = Some c" for a c
  proof -
    obtain j w where w: "lookup (kr_by_id r) j = Some w" "ke_address w = a" "ke_pair w = c"
      using kyc_inv_origin [OF assms(1) h] by blast
    show ?thesis
    proof (cases "j = ke_id v")
      case True
      then have "w = t" using w(1) t(1) by simp
      then show ?thesis using w(2,3) same_delivery_fields [OF tu] True
        by (intro exI [of _ "ke_id v"] exI [of _ u]) (simp add: at)
    next
      case False
      then show ?thesis using w by (intro exI [of _ j] exI [of _ w]) (simp add: at)
    qed
  qed
  moreover have "claimed w r'" if "lookup (kr_by_id r') j = Some w" "ke_apply_status w \<noteq> KycClaiming" for j w
  proof (cases "j = ke_id v")
    case True
    then have "w = u" using that(1) by (simp add: at)
    then show ?thesis using assms(5) claimed_same [OF assms(3)] by (simp add: claimed_def held)
  next
    case False
    then show ?thesis using that assms(1) unfolding kyc_inv_def at by (auto simp: claimed_def held)
  qed
  moreover have "wf_store ke_id (kr_by_id r')" using assms(1) i by (simp add: r' kyc_inv_def wf_store_put)
  ultimately show "kyc_inv r'" unfolding kyc_inv_def held by (simp add: r')
qed

section \<open>Interference\<close>

text \<open>
  \<open>kyc_rely\<close>: whatever the other goroutines and replicas do, they keep \<open>kyc_inv\<close>, only let the
  repository grow, and draw none of this process' UUIDs. The calls below guarantee the same.
\<close>

definition unused_ids :: "kyc_env \<Rightarrow> nat \<Rightarrow> kyc_repo \<Rightarrow> bool" where
  "unused_ids e t r \<longleftrightarrow> (\<forall>n \<ge> t. lookup (kr_by_id r) (kx_uuid e n) = None)"

definition kyc_ok :: "kyc_env \<Rightarrow> kyc_world \<Rightarrow> bool" where
  "kyc_ok e w \<longleftrightarrow> kyc_inv (kw_repo w) \<and> unused_ids e (kw_tick w) (kw_repo w)"

definition kyc_rely :: "kyc_env \<Rightarrow> bool" where
  "kyc_rely e \<longleftrightarrow> inj (kx_uuid e) \<and>
     (\<forall>w. kyc_ok e w \<longrightarrow>
        kyc_inv (kw_repo (kx_other e (kw_tick w) w)) \<and>
        kyc_grows (kw_repo w) (kw_repo (kx_other e (kw_tick w) w)) \<and>
        unused_ids e (kw_tick w) (kw_repo (kx_other e (kw_tick w) w)))"

definition upward :: "(kyc_repo \<Rightarrow> bool) \<Rightarrow> bool" where
  "upward P \<longleftrightarrow> (\<forall>r r'. P r \<longrightarrow> kyc_grows r r' \<longrightarrow> P r')"

definition kyc_triple :: "kyc_env \<Rightarrow> (kyc_repo \<Rightarrow> bool) \<Rightarrow> 'a kym \<Rightarrow> ('a \<Rightarrow> kyc_repo \<Rightarrow> bool) \<Rightarrow> bool" where
  "kyc_triple e P m Q \<longleftrightarrow> (\<forall>w. kyc_ok e w \<and> P (kw_repo w) \<longrightarrow>
     kyc_ok e (snd (m w)) \<and> kyc_grows (kw_repo w) (kw_repo (snd (m w))) \<and>
     (\<forall>y. fst (m w) = Inr y \<longrightarrow> Q y (kw_repo (snd (m w)))))"

lemma kyc_tripleD:
  assumes "kyc_triple e P m Q" and "kyc_ok e w" and "P (kw_repo w)" and "m w = (r, w')"
  shows "kyc_ok e w'" and "kyc_grows (kw_repo w) (kw_repo w')" and "r = Inr y \<Longrightarrow> Q y (kw_repo w')"
  using assms by (auto simp: kyc_triple_def)

lemma upwardD: "upward P \<Longrightarrow> P r \<Longrightarrow> kyc_grows r r' \<Longrightarrow> P r'"
  by (auto simp: upward_def)

lemma upward_conj [triple_intros]: "upward P \<Longrightarrow> upward Q \<Longrightarrow> upward (\<lambda>r. P r \<and> Q r)"
  by (auto simp: upward_def)

lemma upward_const [triple_intros]: "upward (\<lambda>_. b)"
  by (simp add: upward_def)

lemma upward_has_delivery [triple_intros]: "upward (has_delivery v)"
  by (auto simp: upward_def intro: has_delivery_grows)

lemma upward_claimed [triple_intros]: "upward (claimed v)"
  by (auto simp: upward_def intro: claimed_grows)

lemma upward_grows [triple_intros]: "upward (kyc_grows r0)"
  by (auto simp: upward_def intro: kyc_grows_trans)

lemma kyc_triple_conseq:
  "kyc_triple e P m Q \<Longrightarrow> (\<And>r. P' r \<Longrightarrow> P r) \<Longrightarrow> (\<And>y r. Q y r \<Longrightarrow> Q' y r) \<Longrightarrow> kyc_triple e P' m Q'"
  by (auto simp: kyc_triple_def)

lemma kyc_triple_ret: "(\<And>r. P r \<Longrightarrow> Q x r) \<Longrightarrow> kyc_triple e P (ret x) Q"
  by (simp add: kyc_triple_def ret_def)

lemma kyc_triple_raise: "kyc_triple e P (raise x) Q"
  by (simp add: kyc_triple_def raise_def)

lemma kyc_triple_guard: "kyc_triple e P (guardM b x) (\<lambda>_ _. b)"
  by (simp add: kyc_triple_def guardM_def ret_def raise_def)

lemma kyc_triple_getM: "kyc_triple e P (getM f) (\<lambda>_ _. True)"
  by (simp add: kyc_triple_def getM_def)

lemma kyc_triple_bind:
  assumes "kyc_triple e P m Q" and "upward P" and "\<And>y. kyc_triple e (\<lambda>r. P r \<and> Q y r) (f y) R"
  shows "kyc_triple e P (bindM m f) R"
  unfolding kyc_triple_def
proof (intro allI impI)
  fix w assume w: "kyc_ok e w \<and> P (kw_repo w)"
  obtain r u where m: "m w = (r, u)" by (cases "m w")
  have u: "kyc_ok e u" "kyc_grows (kw_repo w) (kw_repo u)" "\<And>y. r = Inr y \<Longrightarrow> Q y (kw_repo u)"
    using kyc_tripleD [OF assms(1) _ _ m] w by blast+
  have "P (kw_repo u)" using upwardD [OF assms(2)] w u(2) by blast
  then show "kyc_ok e (snd (bindM m f w)) \<and> kyc_grows (kw_repo w) (kw_repo (snd (bindM m f w))) \<and>
      (\<forall>y. fst (bindM m f w) = Inr y \<longrightarrow> R y (kw_repo (snd (bindM m f w))))"
    using u assms(3) by (cases r) (auto simp: bindM_def m kyc_triple_def intro: kyc_grows_trans)
qed

lemma kyc_triple_try:
  "kyc_triple e P m Q \<Longrightarrow> kyc_triple e P (tryM m) (\<lambda>x r. case x of Inl _ \<Rightarrow> True | Inr y \<Rightarrow> Q y r)"
  by (auto simp: kyc_triple_def tryM_def split: prod.splits sum.splits)

lemma kyc_triple_or_not_found:
  assumes "kyc_triple e P m Q"
  shows "kyc_triple e P (or_not_found m) (\<lambda>x r. case x of None \<Rightarrow> True | Some y \<Rightarrow> Q y r)"
  unfolding kyc_triple_def
proof (intro allI impI)
  fix w assume w: "kyc_ok e w \<and> P (kw_repo w)"
  obtain r u where m: "m w = (r, u)" by (cases "m w")
  have "kyc_ok e u" "kyc_grows (kw_repo w) (kw_repo u)" "\<And>y. r = Inr y \<Longrightarrow> Q y (kw_repo u)"
    using kyc_tripleD [OF assms _ _ m] w by blast+
  then show "kyc_ok e (snd (or_not_found m w)) \<and> kyc_grows (kw_repo w) (kw_repo (snd (or_not_found m w))) \<and>
      (\<forall>y. fst (or_not_found m w) = Inr y \<longrightarrow> (case y of None \<Rightarrow> True | Some y \<Rightarrow> Q y (kw_repo (snd (or_not_found m w)))))"
    by (auto simp: or_not_found_def m split: sum.splits kyc_error.splits store_error.splits)
qed

lemma kyc_triple_if:
  "(b \<Longrightarrow> kyc_triple e P m Q) \<Longrightarrow> (\<not> b \<Longrightarrow> kyc_triple e P n Q) \<Longrightarrow> kyc_triple e P (if b then m else n) Q"
  by simp

text \<open>The others, then the operation: what holds after a call.\<close>

lemma kyc_others_ok:
  assumes "kyc_rely e" and "kyc_ok e w"
  shows "kyc_ok e (kyc_others e w)" and "kyc_grows (kw_repo w) (kw_repo (kyc_others e w))"
    and "lookup (kr_by_id (kw_repo (kyc_others e w))) (kx_uuid e (kw_tick w)) = None"
  using assms by (auto simp: kyc_rely_def kyc_ok_def kyc_others_def unused_ids_def)

lemma kyc_triple_call:
  assumes "kyc_rely e" and "upward P"
    and "\<And>w x w'. kyc_ok e w \<Longrightarrow> P (kw_repo w) \<Longrightarrow> f w = (x, w') \<Longrightarrow>
      kyc_ok e w' \<and> kyc_grows (kw_repo w) (kw_repo w') \<and> (\<forall>y. x = Inr y \<longrightarrow> Q y (kw_repo w'))"
  shows "kyc_triple e P (kyc_call e f) Q"
  unfolding kyc_triple_def
proof (intro allI impI)
  fix w assume w: "kyc_ok e w \<and> P (kw_repo w)"
  let ?u = "kyc_others e w"
  have u: "kyc_ok e ?u" "kyc_grows (kw_repo w) (kw_repo ?u)" using kyc_others_ok assms(1) w by blast+
  then have "P (kw_repo ?u)" using upwardD [OF assms(2)] w by blast
  moreover obtain x w' where f: "f ?u = (x, w')" by (cases "f ?u")
  ultimately have w': "kyc_ok e w'" "kyc_grows (kw_repo ?u) (kw_repo w')" "\<forall>y. x = Inr y \<longrightarrow> Q y (kw_repo w')"
    using assms(3) [OF u(1) _ f] by blast+
  have "kyc_grows (kw_repo w) (kw_repo w')" using u(2) w'(2) by (rule kyc_grows_trans)
  then show "kyc_ok e (snd (kyc_call e f w)) \<and> kyc_grows (kw_repo w) (kw_repo (snd (kyc_call e f w))) \<and>
      (\<forall>y. fst (kyc_call e f w) = Inr y \<longrightarrow> Q y (kw_repo (snd (kyc_call e f w))))"
    using u w'(1,3) by (cases "kx_fault e (kw_tick w)"; cases x) (simp_all add: kyc_call_def Let_def f)
qed

lemma kyc_triple_read:
  "kyc_rely e \<Longrightarrow> upward P \<Longrightarrow> (\<And>w. kyc_ok e w \<Longrightarrow> P (kw_repo w) \<Longrightarrow> Q (f w) (kw_repo w)) \<Longrightarrow>
    kyc_triple e P (kyc_read e f) Q"
  unfolding kyc_read_def by (rule kyc_triple_call) auto

lemma kyc_triple_get:
  "kyc_rely e \<Longrightarrow> upward P \<Longrightarrow> (\<And>w y. kyc_ok e w \<Longrightarrow> P (kw_repo w) \<Longrightarrow> f w = Inr y \<Longrightarrow> Q y (kw_repo w)) \<Longrightarrow>
    kyc_triple e P (kyc_get e f) Q"
  unfolding kyc_get_def by (rule kyc_triple_call) auto

text \<open>A write that stores no new event.\<close>

lemma kyc_triple_write:
  assumes "kyc_rely e" and "upward P"
    and "\<And>r x r'. kyc_inv r \<Longrightarrow> P r \<Longrightarrow> f r = (x, r') \<Longrightarrow> kyc_inv r' \<and> kyc_grows r r' \<and>
      (\<forall>i. lookup (kr_by_id r) i = None \<longrightarrow> lookup (kr_by_id r') i = None) \<and> (\<forall>y. x = Inr y \<longrightarrow> Q y r')"
  shows "kyc_triple e P (kyc_write e f) Q"
  unfolding kyc_write_def
proof (rule kyc_triple_call [OF assms(1,2)], goal_cases)
  case (1 w x w')
  obtain y r' where f: "f (kw_repo w) = (y, r')" by fastforce
  then show ?case
    using assms(3) [OF _ 1(2) f] 1(1,3) by (auto simp: kyc_ok_def unused_ids_def)
qed

section \<open>The claim of a delivery\<close>

definition settled :: "kyc_event \<Rightarrow> kyc_repo \<Rightarrow> bool" where
  "settled v r \<longleftrightarrow> (\<exists>u. lookup (kr_by_id r) (ke_id v) = Some u \<and> same_delivery v u \<and> ke_apply_status u \<noteq> KycClaiming)"

lemma upward_settled [triple_intros]: "upward (settled v)"
  unfolding upward_def settled_def kyc_grows_def by (meson same_delivery_trans)

lemma triple_claim_latest:
  assumes "kyc_rely e"
  shows "kyc_triple e (has_delivery v)
    (kyc_write e (\<lambda>r. case kr_claim_latest (ke_address v) (ke_occurred_at v) (ke_key v) r of (b, r) \<Rightarrow> (Inr b, r)))
    (\<lambda>_. claimed v)"
proof (rule kyc_triple_write [OF assms upward_has_delivery])
  fix r x r'
  assume r: "kyc_inv r" "has_delivery v r"
    and run: "(case kr_claim_latest (ke_address v) (ke_occurred_at v) (ke_key v) r of (b, r) \<Rightarrow> (Inr b, r)) = (x, r')"
  obtain b where "kr_claim_latest (ke_address v) (ke_occurred_at v) (ke_key v) r = (b, r')"
    using run by (auto split: prod.splits)
  from kr_claim_step [OF r this] show "kyc_inv r' \<and> kyc_grows r r' \<and>
      (\<forall>i. lookup (kr_by_id r) i = None \<longrightarrow> lookup (kr_by_id r') i = None) \<and> (\<forall>y. x = Inr y \<longrightarrow> claimed v r')"
    by simp
qed

lemma triple_update_event:
  assumes "kyc_rely e" and "same_delivery v u" and "ke_apply_status u \<noteq> KycClaiming"
  shows "kyc_triple e (\<lambda>r. has_delivery v r \<and> claimed v r) (kyc_write e (kr_update u)) (\<lambda>_. settled v)"
proof (rule kyc_triple_write [OF assms(1)])
  show "upward (\<lambda>r. has_delivery v r \<and> claimed v r)" by (intro triple_intros)
next
  fix r x and r' :: kyc_repo
  assume r: "kyc_inv r" "has_delivery v r \<and> claimed v r" and run: "kr_update u r = (x, r')"
  note step = kr_update_step [OF r(1) conjunct1 [OF r(2)] assms(2,3) conjunct2 [OF r(2)] run]
  obtain t where "lookup (kr_by_id r) (ke_id v) = Some t" using r(2) by (auto simp: has_delivery_def)
  moreover have "ke_id u = ke_id v" using same_delivery_fields [OF assms(2)] by simp
  ultimately show "kyc_inv r' \<and> kyc_grows r r' \<and>
      (\<forall>i. lookup (kr_by_id r) i = None \<longrightarrow> lookup (kr_by_id r') i = None) \<and> (\<forall>y. x = Inr y \<longrightarrow> settled v r')"
    using step assms(2,3) by (auto simp: lookup_put settled_def)
qed

lemma triple_finalize_claim:
  assumes "kyc_rely e"
  shows "kyc_triple e (has_delivery v) (finalize_claim e v) (\<lambda>_ r. claimed v r \<and> settled v r)"
  unfolding finalize_claim_def Let_def
proof (rule kyc_triple_bind [OF triple_claim_latest [OF assms] upward_has_delivery])
  fix won
  let ?P = "\<lambda>r. has_delivery v r \<and> claimed v r"
  have up: "upward ?P" by (intro triple_intros)
  have status: "ke_apply_status (with_apply (settled_status holds v) v) \<noteq> KycClaiming" for holds
    by (simp add: with_apply_def settled_status_def)
  have look: "kyc_triple e ?P (if won then ret True
      else bindM (or_not_found (kyc_get e (\<lambda>w. kr_current_claim (ke_address v) (kw_repo w))))
        (\<lambda>current. ret (current = Some (ke_key v)))) (\<lambda>_ _. True)"
    by (intro kyc_triple_if kyc_triple_ret kyc_triple_bind [OF kyc_triple_or_not_found
          [OF kyc_triple_get [OF assms up, where Q = "\<lambda>_ _. True"]] up]) simp_all
  show "kyc_triple e ?P
    (bindM (if won then ret True
      else bindM (or_not_found (kyc_get e (\<lambda>w. kr_current_claim (ke_address v) (kw_repo w))))
        (\<lambda>current. ret (current = Some (ke_key v))))
     (\<lambda>holds. bindM (kyc_write e (kr_update (with_apply (settled_status holds v) v))) (\<lambda>_. ret holds)))
    (\<lambda>_ r. claimed v r \<and> settled v r)"
  proof (rule kyc_triple_bind [OF look up], simp only: simp_thms)
    fix holds
    show "kyc_triple e ?P (bindM (kyc_write e (kr_update (with_apply (settled_status holds v) v))) (\<lambda>_. ret holds))
        (\<lambda>_ r. claimed v r \<and> settled v r)"
      by (rule kyc_triple_bind [OF triple_update_event [OF assms _ status] up])
        (auto intro: kyc_triple_ret)
  qed
qed

section \<open>What a processed decision leaves\<close>

definition unseen :: "kyc_event \<Rightarrow> kyc_repo \<Rightarrow> bool" where
  "unseen v r \<longleftrightarrow> \<not> flagged (kr_by_hash r) (ke_payload_hash v) \<and> \<not> flagged (kr_by_event_id r) (ke_key v)"

definition seen :: "kyc_event \<Rightarrow> kyc_repo \<Rightarrow> bool" where
  "seen v r \<longleftrightarrow> flagged (kr_by_hash r) (ke_payload_hash v) \<and> flagged (kr_by_event_id r) (ke_key v)"

lemma unseen_down: "unseen v r' \<Longrightarrow> kyc_grows r r' \<Longrightarrow> unseen v r"
  unfolding unseen_def kyc_grows_def by blast

lemma upward_seen [triple_intros]: "upward (seen v)"
  unfolding upward_def seen_def kyc_grows_def by blast

lemma create_event_run:
  assumes "kyc_rely e" and "kyc_ok e w" and "ke_id v = kx_uuid e (kw_tick w)" and "ke_apply_status v = KycClaiming"
    and "create_event e v w = (x, w')"
  shows "kyc_ok e w'" and "kyc_grows (kw_repo w) (kw_repo w')"
    and "x = Inr () \<Longrightarrow> has_delivery v (kw_repo w') \<and> seen v (kw_repo w') \<and> unseen v (kw_repo w)"
proof -
  let ?u = "kyc_others e w"
  have u: "kyc_ok e ?u" "kyc_grows (kw_repo w) (kw_repo ?u)" "lookup (kr_by_id (kw_repo ?u)) (ke_id v) = None"
    using kyc_others_ok [OF assms(1,2)] assms(3) by auto
  obtain y r' where create: "kr_create v (kw_repo ?u) = (y, r')" by (cases "kr_create v (kw_repo ?u)")
  have inv: "kyc_inv (kw_repo ?u)" using u(1) by (simp add: kyc_ok_def)
  note step = kr_create_step [OF inv u(3) assms(4) create]
  have kyc_uuid_apart: "kx_uuid e n \<noteq> ke_id v" if "n \<ge> kw_tick ?u" for n
  proof -
    have "n \<noteq> kw_tick w" using that by (simp add: kyc_others_def)
    moreover have "inj (kx_uuid e)" using assms(1) by (simp add: kyc_rely_def)
    ultimately show ?thesis using assms(3) by (auto dest: injD)
  qed
  have later: "kyc_ok e (?u\<lparr>kw_repo := r'\<rparr>)"
  proof -
    have "lookup (kr_by_id r') (kx_uuid e n) = None" if "n \<ge> kw_tick ?u" for n
    proof -
      have "lookup (kr_by_id (kw_repo ?u)) (kx_uuid e n) = None" using u(1) that by (simp add: kyc_ok_def unused_ids_def)
      then show ?thesis using step(6) not_sym [OF kyc_uuid_apart [OF that]] by (elim disjE) (simp_all add: lookup_put)
    qed
    then show ?thesis using step(1) by (simp add: kyc_ok_def unused_ids_def)
  qed
  have w': "w' = ?u \<or> (w' = ?u\<lparr>kw_repo := r'\<rparr> \<and> (x = Inr () \<longrightarrow> y = Inr ()))" and ok: "x = Inr () \<Longrightarrow> w' = ?u\<lparr>kw_repo := r'\<rparr>"
    using assms(5)
    by (auto simp: create_event_def kyc_write_def kyc_call_def Let_def create
        split: fault.splits sum.splits kyc_error.splits store_error.splits)
  show "kyc_ok e w'" using w' later u(1) by auto
  show "kyc_grows (kw_repo w) (kw_repo w')" using w' u(2) step(2) kyc_grows_trans by auto
  show "has_delivery v (kw_repo w') \<and> seen v (kw_repo w') \<and> unseen v (kw_repo w)" if x: "x = Inr ()"
  proof -
    have "y = Inr ()" and w'': "w' = ?u\<lparr>kw_repo := r'\<rparr>"
      using assms(5) x
      by (auto simp: create_event_def kyc_write_def kyc_call_def Let_def create
          split: fault.splits sum.splits kyc_error.splits store_error.splits)
    have "unseen v (kw_repo ?u)" using step(4) \<open>y = Inr ()\<close> by (simp add: unseen_def)
    then show ?thesis
      using step(3,5) \<open>y = Inr ()\<close> w'' unseen_down [OF _ u(2)] by (auto simp: seen_def)
  qed
qed

lemma triple_draw_create:
  assumes "kyc_rely e" and "upward P" and "\<And>i. ke_id (mk i) = i \<and> ke_apply_status (mk i) = KycClaiming"
    and "\<And>i. kyc_triple e (\<lambda>r. P r \<and> has_delivery (mk i) r \<and> seen (mk i) r \<and> (\<exists>r0. P r0 \<and> unseen (mk i) r0)) (k i) R"
  shows "kyc_triple e P (bindM (getM (\<lambda>w. kx_uuid e (kw_tick w))) (\<lambda>i. bindM (create_event e (mk i)) (\<lambda>_. k i))) R"
  unfolding kyc_triple_def
proof (intro allI impI)
  fix w assume w: "kyc_ok e w \<and> P (kw_repo w)"
  let ?i = "kx_uuid e (kw_tick w)"
  obtain x u where c: "create_event e (mk ?i) w = (x, u)" by (cases "create_event e (mk ?i) w")
  have run: "bindM (getM (\<lambda>w. kx_uuid e (kw_tick w))) (\<lambda>i. bindM (create_event e (mk i)) (\<lambda>_. k i)) w =
      (case x of Inl e \<Rightarrow> (Inl e, u) | Inr _ \<Rightarrow> k ?i u)"
    by (simp add: bindM_def getM_def c)
  note step = create_event_run [OF assms(1) conjunct1 [OF w] _ _ c]
  have u: "kyc_ok e u" "kyc_grows (kw_repo w) (kw_repo u)" using step assms(3) by auto
  have "P (kw_repo u)" using upwardD [OF assms(2)] w u(2) by blast
  moreover have "has_delivery (mk ?i) (kw_repo u) \<and> seen (mk ?i) (kw_repo u) \<and> unseen (mk ?i) (kw_repo w)" if "x = Inr ()"
    using step(3) assms(3) that by auto
  ultimately have "kyc_ok e (snd (k ?i u)) \<and> kyc_grows (kw_repo u) (kw_repo (snd (k ?i u))) \<and>
      (\<forall>y. fst (k ?i u) = Inr y \<longrightarrow> R y (kw_repo (snd (k ?i u))))" if "x = Inr ()"
    using assms(4) [of ?i] u(1) w that unfolding kyc_triple_def by blast
  then show "kyc_ok e (snd (bindM (getM (\<lambda>w. kx_uuid e (kw_tick w))) (\<lambda>i. bindM (create_event e (mk i)) (\<lambda>_. k i)) w)) \<and>
      kyc_grows (kw_repo w) (kw_repo (snd (bindM (getM (\<lambda>w. kx_uuid e (kw_tick w))) (\<lambda>i. bindM (create_event e (mk i)) (\<lambda>_. k i)) w))) \<and>
      (\<forall>y. fst (bindM (getM (\<lambda>w. kx_uuid e (kw_tick w))) (\<lambda>i. bindM (create_event e (mk i)) (\<lambda>_. k i)) w) = Inr y \<longrightarrow>
        R y (kw_repo (snd (bindM (getM (\<lambda>w. kx_uuid e (kw_tick w))) (\<lambda>i. bindM (create_event e (mk i)) (\<lambda>_. k i)) w))))"
    using u unfolding run by (cases x) (auto intro: kyc_grows_trans)
qed

text \<open>The time checks, as one condition.\<close>

definition times_ok :: "gotime \<Rightarrow> webhook_payload \<Rightarrow> bool" where
  "times_ok now wp \<longleftrightarrow> 0 < wp_occurred_at wp \<and>
     go_unix (wp_occurred_at wp) \<le> now + 5 * 60 * 10 ^ 9 \<and>
     now - go_unix (wp_occurred_at wp) \<le> 24 * 3600 * 10 ^ 9 \<and>
     0 \<le> wp_valid_until wp \<and>
     (wp_valid_until wp > 0 \<longrightarrow> go_unix (wp_valid_until wp) \<le> now + 100 * 365 * 24 * 3600 * 10 ^ 9)"

lemmas webhook_windows = max_webhook_clock_skew_ahead_def max_webhook_age_def max_valid_until_horizon_def

lemma check_times_run: "check_times now wp w = (Inr (), w') \<Longrightarrow> times_ok now wp \<and> w' = w"
  by (auto simp: check_times_def times_ok_def webhook_windows guardM_def bindM_def ret_def raise_def split: if_splits)

lemma check_payload_run:
  "check_payload e wp w = (Inr (), w') \<Longrightarrow>
    known_status (wp_status wp) \<and> wp_provider wp \<noteq> [] \<and> wp_event_id wp \<noteq> [] \<and> kx_is_hex_address e (wp_address wp) \<and> w' = w"
  by (auto simp: check_payload_def guardM_def bindM_def ret_def raise_def split: if_splits)

lemma pure_triple:
  assumes "\<And>w x w'. m w = (x, w') \<Longrightarrow> w' = w" and "\<And>w y w'. m w = (Inr y, w') \<Longrightarrow> F y"
  shows "kyc_triple e P m (\<lambda>y _. F y)"
  unfolding kyc_triple_def using assms by (metis kyc_grows_refl prod.collapse)

lemma triple_check_times: "kyc_triple e P (check_times now wp) (\<lambda>_ _. times_ok now wp)"
  by (rule pure_triple)
    (auto simp: check_times_def guardM_def bindM_def ret_def raise_def times_ok_def webhook_windows split: if_splits)

lemma triple_check_payload:
  "kyc_triple e P (check_payload e wp) (\<lambda>_ _. known_status (wp_status wp) \<and> wp_provider wp \<noteq> [] \<and>
     wp_event_id wp \<noteq> [] \<and> kx_is_hex_address e (wp_address wp))"
  by (rule pure_triple)
    (auto simp: check_payload_def guardM_def bindM_def ret_def raise_def split: if_splits)

lemma triple_check_ownership:
  assumes "kyc_rely e" and "upward P"
  shows "kyc_triple e P (check_ownership e a) (\<lambda>_ _. True)"
  unfolding check_ownership_def
  by (rule kyc_triple_bind [OF kyc_triple_or_not_found [OF kyc_triple_get [OF assms, where Q = "\<lambda>_ _. True"]] assms(2)])
    (auto split: option.split intro: kyc_triple_raise kyc_triple_conseq [OF kyc_triple_guard])

definition accepted :: "kyc_env \<Rightarrow> kyc_repo \<Rightarrow> byte list \<Rightarrow> webhook_payload \<Rightarrow> webhook_payload \<Rightarrow> kyc_repo \<Rightarrow> bool" where
  "accepted e r0 raw wp wp' r \<longleftrightarrow>
     wp' = wp\<lparr>wp_address := kx_checksum e (wp_address wp)\<rparr> \<and> known_status (wp_status wp) \<and>
     wp_provider wp \<noteq> [] \<and> wp_event_id wp \<noteq> [] \<and> kx_is_hex_address e (wp_address wp) \<and>
     (\<exists>now i. times_ok now wp \<and>
        (let v = event_of now i (payload_hash e raw) wp' in
           unseen v r0 \<and> seen v r \<and> claimed v r \<and> settled v r))"

lemma times_ok_address [simp]: "times_ok now (wp\<lparr>wp_address := a\<rparr>) = times_ok now wp"
  by (simp add: times_ok_def)

lemma triple_settle_decision:
  assumes "kyc_rely e" and "upward P" and "\<And>r. P r \<Longrightarrow> has_delivery v r"
  shows "kyc_triple e P (settle_decision e v wp) (\<lambda>y r. y = wp \<and> claimed v r \<and> settled v r)"
  unfolding settle_decision_def
proof -
  have claim: "kyc_triple e P (finalize_claim e v) (\<lambda>_ r. claimed v r \<and> settled v r)"
    by (rule kyc_triple_conseq [OF triple_finalize_claim [OF assms(1)]]) (auto intro: assms(3))
  show "kyc_triple e P (bindM (finalize_claim e v) (\<lambda>holds.
      if holds then ret wp
      else bindM (tryM (kyc_get e (\<lambda>w. kr_current_claim (wp_address wp) (kw_repo w)))) (\<lambda>current.
        if current = Inr (kyc_event_id_key (wp_provider wp) (wp_event_id wp)) then raise KycReplayed else raise KycStale)))
      (\<lambda>y r. y = wp \<and> claimed v r \<and> settled v r)"
  proof (rule kyc_triple_bind [OF claim assms(2)])
  fix holds
  let ?P = "\<lambda>r. P r \<and> claimed v r \<and> settled v r"
  have up: "upward ?P" using assms(2) by (intro triple_intros)
  show "kyc_triple e ?P
      (if holds then ret wp
       else bindM (tryM (kyc_get e (\<lambda>w. kr_current_claim (wp_address wp) (kw_repo w)))) (\<lambda>current.
         if current = Inr (kyc_event_id_key (wp_provider wp) (wp_event_id wp)) then raise KycReplayed else raise KycStale))
      (\<lambda>y r. y = wp \<and> claimed v r \<and> settled v r)"
    by (intro kyc_triple_if kyc_triple_ret kyc_triple_raise
        kyc_triple_bind [OF kyc_triple_try [OF kyc_triple_get [OF assms(1) up, where Q = "\<lambda>_ _. True"]] up]) auto
  qed
qed

lemma kyc_triple_frame:
  "kyc_triple e P m Q \<Longrightarrow> upward P \<Longrightarrow> kyc_triple e P m (\<lambda>y r. P r \<and> Q y r)"
  unfolding kyc_triple_def by (blast dest: upwardD)

definition stored_decision :: "gotime \<Rightarrow> string \<Rightarrow> kyc_repo \<Rightarrow> webhook_payload \<Rightarrow> kyc_repo \<Rightarrow> bool" where
  "stored_decision now hash r0 wp r \<longleftrightarrow> (\<exists>i. let v = event_of now i hash wp in
     unseen v r0 \<and> seen v r \<and> claimed v r \<and> settled v r)"

lemma triple_store_decision:
  assumes rely: "kyc_rely e"
  shows "kyc_triple e (kyc_grows r0) (store_decision e now hash wp) (\<lambda>y r. y = wp \<and> stored_decision now hash r0 wp r)"
  unfolding store_decision_def
proof (rule triple_draw_create [OF rely upward_grows])
  show "ke_id (event_of now i hash wp) = i \<and> ke_apply_status (event_of now i hash wp) = KycClaiming" for i
    by (simp add: event_of_def)
next
  fix i
  let ?v = "event_of now i hash wp"
  let ?P = "\<lambda>r. kyc_grows r0 r \<and> has_delivery ?v r \<and> seen ?v r \<and> (\<exists>r1. kyc_grows r0 r1 \<and> unseen ?v r1)"
  have up: "upward ?P" by (intro triple_intros)
  have "kyc_triple e ?P (settle_decision e ?v wp) (\<lambda>y r. y = wp \<and> claimed ?v r \<and> settled ?v r)"
    by (rule triple_settle_decision [OF rely up]) blast
  from kyc_triple_frame [OF this up]
  show "kyc_triple e ?P (settle_decision e ?v wp) (\<lambda>y r. y = wp \<and> stored_decision now hash r0 wp r)"
    by (rule kyc_triple_conseq) (auto simp: stored_decision_def Let_def intro: unseen_down)
qed

lemma triple_process_decision:
  assumes rely: "kyc_rely e"
  shows "kyc_triple e (kyc_grows r0) (process_decision e raw wp ov) (accepted e r0 raw wp)"
proof -
  let ?wp = "wp\<lparr>wp_address := kx_checksum e (wp_address wp)\<rparr>"
  let ?good = "known_status (wp_status wp) \<and> wp_provider wp \<noteq> [] \<and> wp_event_id wp \<noteq> [] \<and> kx_is_hex_address e (wp_address wp)"
  have store: "kyc_triple e (\<lambda>r. (((kyc_grows r0 r \<and> ?good) \<and> True) \<and> times_ok now ?wp) \<and> True)
      (store_decision e now (payload_hash e raw) ?wp) (accepted e r0 raw wp)" for now
  proof -
    have up: "upward (\<lambda>r. kyc_grows r0 r \<and> ?good \<and> times_ok now wp)" by (intro triple_intros)
    have "kyc_triple e (\<lambda>r. kyc_grows r0 r \<and> ?good \<and> times_ok now wp) (store_decision e now (payload_hash e raw) ?wp)
        (\<lambda>y r. y = ?wp \<and> stored_decision now (payload_hash e raw) r0 ?wp r)"
      by (rule kyc_triple_conseq [OF triple_store_decision [OF rely]]) simp_all
    from kyc_triple_frame [OF this up] show ?thesis
      by (rule kyc_triple_conseq) (auto simp: accepted_def stored_decision_def Let_def)
  qed
  have owner: "kyc_triple e P (if ov then ret () else check_ownership e a) (\<lambda>_ _. True)" if "upward P" for P a
    by (intro kyc_triple_if kyc_triple_ret triple_check_ownership [OF rely that] TrueI)
  have checked: "kyc_triple e (\<lambda>r. kyc_grows r0 r \<and> ?good)
      (bindM (kyc_now e) (\<lambda>now. bindM (check_times now ?wp) (\<lambda>_.
       bindM (if ov then ret () else check_ownership e (wp_address ?wp)) (\<lambda>_.
       store_decision e now (payload_hash e raw) ?wp)))) (accepted e r0 raw wp)"
    unfolding kyc_now_def
    by (rule kyc_triple_bind [OF kyc_triple_getM], intro triple_intros,
        rule kyc_triple_bind [OF triple_check_times], intro triple_intros,
        rule kyc_triple_bind [OF owner], intro triple_intros, intro triple_intros, rule store)
  have start: "kyc_triple e (kyc_grows r0) (kyc_read e (\<lambda>w. kr_exists (payload_hash e raw) (kw_repo w))) (\<lambda>_ _. True)"
    by (rule kyc_triple_read [OF rely upward_grows]) simp
  show ?thesis
    unfolding process_decision_def Let_def
    by (rule kyc_triple_bind [OF start upward_grows],
        rule kyc_triple_bind [OF kyc_triple_conseq [OF kyc_triple_guard, where Q' = "\<lambda>_ _. True"]], simp, simp, intro triple_intros,
        rule kyc_triple_bind [OF triple_check_payload], intro triple_intros,
        rule kyc_triple_conseq [OF checked], auto)
qed


lemma process_decision_run:
  assumes "kyc_rely e" and "kyc_ok e w" and "process_decision e raw wp ov w = (x, w')"
  shows "kyc_ok e w'" and "kyc_grows (kw_repo w) (kw_repo w')"
    and "x = Inr y \<Longrightarrow> accepted e (kw_repo w) raw wp y (kw_repo w')"
  using kyc_tripleD [OF triple_process_decision [OF assms(1), of "kw_repo w" raw wp ov] assms(2) _ assms(3)] by simp_all

section \<open>A run\<close>

definition demo_payload :: webhook_payload where
  "demo_payload = \<lparr>wp_event_id = ''1'', wp_address = ''a'', wp_provider = ''p'', wp_status = ''Allowed'',
     wp_occurred_at = 10 ^ 9, wp_valid_until = 0\<rparr>"

lemma demo_kyc_rely: "kyc_rely demo_kyc"
proof -
  have "inj (\<lambda>n. replicate n CHR ''u'')" by (rule injI) (metis length_replicate)
  then show ?thesis by (simp add: kyc_rely_def demo_kyc_def kyc_ok_def)
qed

lemma demo_world_ok: "kyc_ok demo_kyc demo_world"
  by (simp add: kyc_ok_def demo_world_def kyc_inv_def new_kyc_repo_def unused_ids_def wf_store_def held_claim_def)

definition demo_taken :: kyc_world where
  "demo_taken = snd (process_decision demo_kyc [] demo_payload True demo_world)"

lemma demo_taken: "process_decision demo_kyc [] demo_payload True demo_world = (Inr demo_payload, demo_taken)"
proof -
  have "fst (process_decision demo_kyc [] demo_payload True demo_world) = Inr demo_payload" by code_simp
  then show ?thesis by (simp add: demo_taken_def prod_eq_iff)
qed

lemma demo_taken_ok: "kyc_ok demo_kyc demo_taken"
  by (rule process_decision_run(1) [OF demo_kyc_rely demo_world_ok demo_taken])

section \<open>Properties\<close>

text \<open>
  A decision is taken once. After \<open>process_decision\<close> succeeded, and whatever the other
  replicas did before and since, a later decision with the same raw payload, or with the same
  provider and event id, does not succeed, on this replica or on another.
\<close>

theorem decision_taken_once:
  assumes "kyc_rely e" and "kyc_ok e w" and "process_decision e raw wp ov w = (Inr y, w1)"
    and "kyc_grows (kw_repo w1) (kw_repo w2)"
    and "kyc_rely e'" and "kyc_ok e' w2" and "kx_sha256 e' = kx_sha256 e"
    and "raw' = raw \<or> (wp_provider wp' = wp_provider wp \<and> wp_event_id wp' = wp_event_id wp)"
  shows "fst (process_decision e' raw' wp' ov' w2) \<noteq> Inr y'"
proof
  assume second: "fst (process_decision e' raw' wp' ov' w2) = Inr y'"
  obtain x w3 where run: "process_decision e' raw' wp' ov' w2 = (x, w3)" by fastforce
  have "x = Inr y'" using second run by simp
  from process_decision_run(3) [OF assms(5,6) run this] obtain now' i' where
    fresh: "unseen (event_of now' i' (payload_hash e' raw') (wp'\<lparr>wp_address := kx_checksum e' (wp_address wp')\<rparr>)) (kw_repo w2)"
    unfolding accepted_def Let_def by blast
  from process_decision_run(3) [OF assms(1-3) refl] obtain now i where
    old: "seen (event_of now i (payload_hash e raw) (wp\<lparr>wp_address := kx_checksum e (wp_address wp)\<rparr>)) (kw_repo w1)"
    unfolding accepted_def Let_def by blast
  from old have "seen (event_of now i (payload_hash e raw) (wp\<lparr>wp_address := kx_checksum e (wp_address wp)\<rparr>)) (kw_repo w2)"
    by (rule upwardD [OF upward_seen _ assms(4)])
  with fresh assms(7,8) show False
    by (auto simp: seen_def unseen_def event_of_def payload_hash_def)
qed

corollary decision_taken_once_witness:
  "fst (process_decision demo_kyc [] demo_payload False demo_taken) \<noteq> Inr demo_payload"
  by (rule decision_taken_once [OF demo_kyc_rely demo_world_ok demo_taken kyc_grows_refl demo_kyc_rely demo_taken_ok refl]) simp

text \<open>The states that the two reads of a decision see: the first, and that of the ownership check.\<close>

lemma process_decision_steps:
  assumes "process_decision e raw wp ov w = (Inr y, w')"
  shows "known_status (wp_status wp) \<and> wp_provider wp \<noteq> [] \<and> wp_event_id wp \<noteq> [] \<and> kx_is_hex_address e (wp_address wp) \<and>
    times_ok (kx_now e (Suc (kw_tick w))) wp \<and> \<not> kr_exists (payload_hash e raw) (kw_repo (kyc_others e w)) \<and>
    (\<not> ov \<longrightarrow> (\<exists>v. lookup (kw_investors (kyc_others e (kyc_others e w))) (kx_checksum e (wp_address wp)) = Some v \<and> iv_ownership_verified v)) \<and>
    store_decision e (kx_now e (Suc (kw_tick w))) (payload_hash e raw) (wp\<lparr>wp_address := kx_checksum e (wp_address wp)\<rparr>)
      (if ov then kyc_others e w else kyc_others e (kyc_others e w)) = (Inr y, w')"
proof -
  let ?wp = "wp\<lparr>wp_address := kx_checksum e (wp_address wp)\<rparr>" and ?u = "kyc_others e w" and ?now = "kx_now e (Suc (kw_tick w))"
  have tick: "kw_tick ?u = Suc (kw_tick w)" by (simp add: kyc_others_def)
  obtain seen where seen: "kyc_read e (\<lambda>w. kr_exists (payload_hash e raw) (kw_repo w)) w = (Inr seen, ?u)" "seen = kr_exists (payload_hash e raw) (kw_repo ?u)"
    using assms by (cases "kx_fault e (kw_tick w)") (auto simp: process_decision_def Let_def bindM_def kyc_read_def kyc_call_def)
  have new: "\<not> seen" using assms seen(1) by (cases seen) (simp_all add: process_decision_def Let_def bindM_def guardM_def raise_def)
  have good: "known_status (wp_status wp) \<and> wp_provider wp \<noteq> [] \<and> wp_event_id wp \<noteq> [] \<and> kx_is_hex_address e (wp_address wp)"
    using assms seen(1) new
    by (auto simp: process_decision_def Let_def bindM_def guardM_def raise_def ret_def check_payload_def split: if_splits)
  have payload: "check_payload e wp ?u = (Inr (), ?u)" using good by (simp add: check_payload_def bindM_def guardM_def ret_def)
  have times: "times_ok ?now wp"
    using assms seen(1) new payload tick
    by (auto simp: process_decision_def Let_def bindM_def guardM_def raise_def ret_def kyc_now_def getM_def check_times_def times_ok_def webhook_windows split: if_splits)
  have "check_times ?now ?wp ?u = (Inr (), ?u)" using times by (auto simp: check_times_def times_ok_def webhook_windows bindM_def guardM_def ret_def)
  have rest: "bindM (if ov then ret () else check_ownership e (wp_address ?wp)) (\<lambda>_. store_decision e ?now (payload_hash e raw) ?wp) ?u = (Inr y, w')"
  proof -
    have "kyc_now e ?u = (Inr ?now, ?u)" by (simp add: kyc_now_def getM_def tick)
    then show ?thesis
      using assms seen(1) new payload \<open>check_times ?now ?wp ?u = (Inr (), ?u)\<close>
      by (simp add: process_decision_def Let_def bindM_def guardM_def ret_def)
  qed
  show ?thesis
  proof (cases ov)
    case True
    then show ?thesis using good times new seen(2) rest by (simp add: bindM_def ret_def)
  next
    case False
    then obtain u where own: "check_ownership e (wp_address ?wp) ?u = (Inr (), u)"
      and store: "store_decision e ?now (payload_hash e raw) ?wp u = (Inr y, w')"
      using rest by (auto elim: bindM_InrE)
    have "u = kyc_others e ?u \<and> (\<exists>v. lookup (kw_investors (kyc_others e ?u)) (wp_address ?wp) = Some v \<and> iv_ownership_verified v)"
      using own
      by (cases "kx_fault e (kw_tick ?u)"; cases "lookup (kw_investors (kyc_others e ?u)) (wp_address ?wp)")
        (auto simp: check_ownership_def bindM_def or_not_found_def kyc_get_def kyc_call_def iv_get_def guardM_def raise_def ret_def Let_def
          split: if_splits)
    then show ?thesis using good times new seen(2) store False by simp
  qed
qed

text \<open>
  C33: What a success means. The payload passed every check: its fields; its times against the one
  reading of the clock; without the manual override, a verified owner of the wallet in the store of investors
  that the check reads. The delivery was new, and the repository now holds it, no longer Claiming, while the
  claim of its address is held by it or by a newer decision; this whatever faults and other
  replicas did.
\<close>

theorem decision_sound:
  assumes "kyc_rely e" and "kyc_ok e w" and "process_decision e raw wp ov w = (Inr y, w')"
    and "now = kx_now e (Suc (kw_tick w))"
  shows "wp_status wp \<in> {''Allowed'', ''Blocked'', ''Pending''} \<and> wp_provider wp \<noteq> [] \<and> wp_event_id wp \<noteq> [] \<and> kx_is_hex_address e (wp_address wp) \<and>
    y = wp\<lparr>wp_address := kx_checksum e (wp_address wp)\<rparr> \<and> times_ok now wp \<and>
    (\<not> ov \<longrightarrow> (\<exists>v. lookup (kw_investors (kyc_others e (kyc_others e w))) (wp_address y) = Some v \<and> iv_ownership_verified v)) \<and>
    (\<exists>i. let v = event_of now i (payload_hash e raw) y in
        \<not> kr_exists (ke_payload_hash v) (kw_repo w) \<and> kr_exists (ke_payload_hash v) (kw_repo w') \<and>
        (\<exists>u. lookup (kr_by_id (kw_repo w')) i = Some u \<and> same_delivery v u \<and> ke_apply_status u \<noteq> KycClaiming) \<and>
        (\<exists>c. held_claim (kw_repo w') (wp_address y) = Some c \<and> ke_pair v \<le> c))"
proof -
  let ?wp = "wp\<lparr>wp_address := kx_checksum e (wp_address wp)\<rparr>"
  let ?u = "if ov then kyc_others e w else kyc_others e (kyc_others e w)"
  note steps = process_decision_steps [OF assms(3), folded assms(4)]
  note u1 = kyc_others_ok(1,2) [OF assms(1,2)]
  have u: "kyc_ok e ?u" "kyc_grows (kw_repo w) (kw_repo ?u)"
    using u1 kyc_others_ok(1,2) [OF assms(1) u1(1)] kyc_grows_trans by (auto split: if_splits)
  have store: "store_decision e now (payload_hash e raw) ?wp ?u = (Inr y, w')" using steps by blast
  have y: "y = ?wp" and "stored_decision now (payload_hash e raw) (kw_repo w) ?wp (kw_repo w')"
    using kyc_tripleD(3) [OF triple_store_decision [OF assms(1), of "kw_repo w"] u(1) _ store] u(2) by simp_all
  then obtain i where v: "unseen (event_of now i (payload_hash e raw) y) (kw_repo w)" "seen (event_of now i (payload_hash e raw) y) (kw_repo w')"
      "claimed (event_of now i (payload_hash e raw) y) (kw_repo w')" "settled (event_of now i (payload_hash e raw) y) (kw_repo w')"
    unfolding stored_decision_def Let_def by blast
  have "wp_status wp \<in> {''Allowed'', ''Blocked'', ''Pending''}" using steps by (auto simp: known_status_def)
  then show ?thesis
    using steps y
    by (intro conjI exI [of _ i])
      (use v in \<open>auto simp: Let_def unseen_def seen_def settled_def claimed_def kr_exists_def event_of_def\<close>)
qed

text \<open>A decision on a wallet whose ownership was verified.\<close>

definition demo_owned_world :: kyc_world where
  "demo_owned_world = demo_world\<lparr>kw_investors := [(''a'', \<lparr>iv_address = ''a'', iv_status = ComplianceUnknown, iv_valid_until = 0,
     iv_ownership_verified = True, iv_created_at = 0, iv_updated_at = 0\<rparr>)]\<rparr>"

corollary decision_sound_witness:
  "\<exists>w' u. process_decision demo_kyc [] demo_payload False demo_owned_world = (Inr demo_payload, w') \<and>
    kyc_rely demo_kyc \<and> kyc_ok demo_kyc demo_owned_world \<and>
    u \<in> set (vals (kr_by_id (kw_repo w'))) \<and> ke_event_id u = ''1'' \<and> ke_apply_status u \<noteq> KycClaiming"
proof -
  have ok: "kyc_ok demo_kyc demo_owned_world"
    using demo_world_ok by (simp add: kyc_ok_def demo_owned_world_def)
  have "fst (process_decision demo_kyc [] demo_payload False demo_owned_world) = Inr demo_payload" by code_simp
  then obtain w' where run: "process_decision demo_kyc [] demo_payload False demo_owned_world = (Inr demo_payload, w')"
    by (cases "process_decision demo_kyc [] demo_payload False demo_owned_world") simp
  note sound = decision_sound [OF demo_kyc_rely ok run refl]
  then obtain i u where u: "lookup (kr_by_id (kw_repo w')) i = Some u" "same_delivery (event_of (kx_now demo_kyc (Suc (kw_tick demo_owned_world))) i
      (payload_hash demo_kyc []) demo_payload) u" "ke_apply_status u \<noteq> KycClaiming"
    unfolding Let_def by blast
  have "kyc_inv (kw_repo w')" using process_decision_run(1) [OF demo_kyc_rely ok run] by (simp add: kyc_ok_def)
  then have "u \<in> set (vals (kr_by_id (kw_repo w')))"
    using u(1) kyc_inv_id [of "kw_repo w'" i u] by (simp only: wf_store_vals [OF kyc_inv_wf])
  moreover have "ke_event_id u = ''1''" using same_delivery_fields(4) [OF u(2)] by (simp add: event_of_def demo_payload_def)
  ultimately show ?thesis using run demo_kyc_rely ok u(3) by blast
qed

text \<open>
  The horizon of \<^verbatim>\<open>validUntil\<close> has a hole: seconds close to the largest int64 wrap to a time before
  year 1 in \<^verbatim>\<open>time.Unix\<close>, so they pass the check, while a value one century ahead does not.
\<close>

lemma go_unix_exact: "0 \<le> s \<Longrightarrow> s < 2 ^ 63 - unix_to_internal \<Longrightarrow> go_unix s = s * 10 ^ 9"
  by (simp add: go_unix_def wrap64_def unix_to_internal_def)

lemma go_unix_wraps: "2 ^ 63 - unix_to_internal \<le> s \<Longrightarrow> s < 2 ^ 63 \<Longrightarrow> go_unix s < 0"
proof -
  assume s: "2 ^ 63 - unix_to_internal \<le> s" "s < 2 ^ 63"
  have "(s + unix_to_internal + 2 ^ 63) mod 2 ^ 64 = (s + unix_to_internal + 2 ^ 63 - 2 ^ 64) mod 2 ^ 64"
    by (simp only: minus_mod_self2)
  also have "\<dots> = s + unix_to_internal + 2 ^ 63 - 2 ^ 64"
    using s by (intro mod_pos_pos_trivial) (simp_all add: unix_to_internal_def)
  finally show ?thesis using s by (simp add: go_unix_def wrap64_def)
qed

theorem valid_until_beyond_horizon_accepted:
  assumes "2 ^ 63 - unix_to_internal \<le> wp_valid_until wp" and "wp_valid_until wp < 2 ^ 63" and "0 \<le> now"
    and "times_ok now (wp\<lparr>wp_valid_until := 0\<rparr>)"
  shows "check_times now wp w = (Inr (), w)"
  using go_unix_wraps [OF assms(1,2)] assms
  by (simp add: check_times_def times_ok_def webhook_windows guardM_def bindM_def ret_def unix_to_internal_def)

corollary valid_until_beyond_horizon_witness:
  "check_times (10 ^ 18) (demo_payload\<lparr>wp_valid_until := 2 ^ 63 - 1\<rparr>) demo_world = (Inr (), demo_world)"
  by (rule valid_until_beyond_horizon_accepted)
    (simp_all add: demo_payload_def times_ok_def unix_to_internal_def go_unix_def wrap64_def
      webhook_windows)

end
