(* ===== verification/KycRelay.thy ===== *)
theory KycRelay
  imports Webhook
begin

text \<open>
  The relay of stored decisions to the chain: server/internal/compliance/reconciler.go and
  status.go. A pass finishes interrupted claims, supersedes decisions that lost their address,
  submits accepted ones and follows their transactions.
\<close>

section \<open>Submitting a status\<close>

definition status_from_string :: "string \<Rightarrow> compliance_status option" where
  "status_from_string s =
     (if s = ''Unknown'' then Some ComplianceUnknown
      else if s = ''Allowed'' then Some ComplianceAllowed
      else if s = ''Blocked'' then Some ComplianceBlocked
      else None)"

definition set_status :: "kyc_env \<Rightarrow> set_status_call \<Rightarrow> string kym" where
  "set_status e c = (\<lambda>w.
     let u = kyc_others e w in
     case kx_submit e (kw_tick w) c (kw_txs u) of (res, txs) \<Rightarrow>
       (case res of None \<Rightarrow> Inl KycSubmit | Some i \<Rightarrow> Inr i,
        u\<lparr>kw_txs := txs, kw_sent := kw_sent u @ [(c, kw_repo u)]\<rparr>))"

section \<open>The reconciler\<close>

record webhook_reconciler =
  wr_status :: bool \<comment> \<open>a status service is configured\<close>
  wr_guard :: "guard option"

definition refusal_alert :: "kyc_error \<Rightarrow> string" where
  "refusal_alert x =
     (case x of
        KycHolderCapReached \<Rightarrow> ''holder_cap_reached''
      | KycSanctioned \<Rightarrow> ''sanctions_list_match''
      | _ \<Rightarrow> [])"

definition raise_alert :: "string \<Rightarrow> string \<Rightarrow> unit kym" where
  "raise_alert kind a = modifyM (\<lambda>w. w\<lparr>kw_alerts := kw_alerts w @ [(kind, a)]\<rparr>)"

definition update_event :: "kyc_env \<Rightarrow> kyc_event \<Rightarrow> unit kym" where
  "update_event e v = kyc_write e (kr_update v)"

definition relay_key :: "kyc_event \<Rightarrow> string" where
  "relay_key v = ''kyc-status:'' @ kyc_event_id_key (ke_provider v) (ke_event_id v)"

definition relay_call :: "kyc_event \<Rightarrow> compliance_status \<Rightarrow> set_status_call" where
  "relay_call v s = \<lparr>sc_idempotency_key = relay_key v, sc_account = ke_address v, sc_status = s,
     sc_valid_until = word_of_int (ke_valid_until v)\<rparr>"

definition relay :: "kyc_env \<Rightarrow> kyc_event \<Rightarrow> compliance_status \<Rightarrow> unit kym" where
  "relay e v s =
     bindM (set_status e (relay_call v s)) (\<lambda>i.
     update_event e (v\<lparr>ke_tx_id := i, ke_apply_status := KycApplying\<rparr>))"

definition refuse_event :: "kyc_env \<Rightarrow> kyc_event \<Rightarrow> string \<Rightarrow> unit kym" where
  "refuse_event e v kind =
     bindM (update_event e (with_apply KycFailed v)) (\<lambda>_. raise_alert kind (ke_address v))"

definition submit_event :: "kyc_env \<Rightarrow> webhook_reconciler \<Rightarrow> kyc_event \<Rightarrow> unit kym" where
  "submit_event e wr v =
     (if \<not> wr_status wr then ret ()
      else case status_from_string (ke_outcome v) of
        None \<Rightarrow> update_event e (with_apply KycFailed v)
      | Some s \<Rightarrow>
          (case wr_guard wr of
             None \<Rightarrow> relay e v s
           | Some g \<Rightarrow>
               (if ke_outcome v \<noteq> ''Allowed'' then relay e v s
                else bindM (kyc_now e) (\<lambda>now.
                  bindM (tryM (check_allow e g (ke_address v) now)) (\<lambda>r.
                  case r of
                    Inr _ \<Rightarrow> relay e v s
                  | Inl x \<Rightarrow> if refusal_alert x = [] then raise x else refuse_event e v (refusal_alert x))))))"

definition check_submitted :: "kyc_env \<Rightarrow> kyc_event \<Rightarrow> unit kym" where
  "check_submitted e v =
     (if ke_tx_id v = [] then update_event e (with_apply KycAccepted v)
      else bindM (kyc_get e (\<lambda>w. tx_get (ke_tx_id v) (kw_txs w))) (\<lambda>tx.
        case tx_stat tx of
          TxConfirmed \<Rightarrow> update_event e (with_apply KycApplied v)
        | TxReverted \<Rightarrow> update_event e (with_apply KycFailed v)
        | TxFailed \<Rightarrow> update_event e (v\<lparr>ke_apply_status := KycAccepted, ke_tx_id := []\<rparr>)
        | TxReorged \<Rightarrow> update_event e (v\<lparr>ke_apply_status := KycAccepted, ke_tx_id := []\<rparr>)
        | _ \<Rightarrow> ret ()))"

definition reconcile_event :: "kyc_env \<Rightarrow> webhook_reconciler \<Rightarrow> kyc_event \<Rightarrow> unit kym" where
  "reconcile_event e wr v =
     (if ke_apply_status v = KycClaiming then bindM (finalize_claim e v) (\<lambda>_. ret ())
      else bindM (or_not_found (kyc_get e (\<lambda>w. kr_current_claim (ke_address v) (kw_repo w)))) (\<lambda>current.
        if current \<noteq> None \<and> current \<noteq> Some (kyc_event_id_key (ke_provider v) (ke_event_id v))
        then update_event e (with_apply KycSuperseded v)
        else case ke_apply_status v of
          KycAccepted \<Rightarrow> submit_event e wr v
        | KycApplying \<Rightarrow> check_submitted e v
        | _ \<Rightarrow> ret ()))"

text \<open>A batch: the error of one event does not stop the others.\<close>

fun each_event :: "(kyc_event \<Rightarrow> unit kym) \<Rightarrow> kyc_event list \<Rightarrow> kyc_error list kym" where
  "each_event f [] = ret []"
| "each_event f (v # vs) =
     bindM (tryM (f v)) (\<lambda>r.
     bindM (each_event f vs) (\<lambda>errs.
     ret ((case r of Inl x \<Rightarrow> [x] | Inr _ \<Rightarrow> []) @ errs)))"

definition reopen_event :: "kyc_env \<Rightarrow> kyc_event \<Rightarrow> unit kym" where
  "reopen_event e v =
     bindM (kyc_get e (\<lambda>w. tx_get (ke_tx_id v) (kw_txs w))) (\<lambda>tx.
     if tx_stat tx \<noteq> TxReorged then ret ()
     else update_event e (v\<lparr>ke_apply_status := KycAccepted, ke_tx_id := []\<rparr>))"

definition reopen_reorged_applied :: "kyc_env \<Rightarrow> kyc_error list kym" where
  "reopen_reorged_applied e =
     bindM (kyc_read e (\<lambda>w. kr_list_applied_with_tx (kw_repo w))) (\<lambda>all.
     each_event (reopen_event e) all)"

definition reconcile_events :: "kyc_env \<Rightarrow> webhook_reconciler \<Rightarrow> kyc_error list kym" where
  "reconcile_events e wr =
     bindM (kyc_read e (\<lambda>w. kr_list_pending (kw_repo w))) (\<lambda>pending.
     bindM (each_event (reconcile_event e wr) pending) (\<lambda>errs.
     bindM (tryM (reopen_reorged_applied e)) (\<lambda>r.
     ret (errs @ (case r of Inl x \<Rightarrow> [x] | Inr errs' \<Rightarrow> errs')))))"


section \<open>The relay under interference\<close>

definition tracked :: "kyc_event \<Rightarrow> kyc_repo \<Rightarrow> bool" where
  "tracked v r \<longleftrightarrow> has_delivery v r \<and> (ke_apply_status v \<noteq> KycClaiming \<longrightarrow> claimed v r)"

lemma upward_tracked [triple_intros]: "upward (tracked v)"
  unfolding upward_def tracked_def using has_delivery_grows claimed_grows by blast

lemma stored_tracked: "kyc_inv r \<Longrightarrow> lookup (kr_by_id r) i = Some v \<Longrightarrow> tracked v r"
  using kyc_inv_id [of r i v] by (auto simp: tracked_def has_delivery_def intro: kyc_inv_claimed)

abbreviation runs :: "kyc_env \<Rightarrow> (kyc_repo \<Rightarrow> bool) \<Rightarrow> 'a kym \<Rightarrow> bool" where
  "runs e P m \<equiv> kyc_triple e P m (\<lambda>_ _. True)"

lemma runs_bind: "runs e P m \<Longrightarrow> upward P \<Longrightarrow> (\<And>y. runs e P (f y)) \<Longrightarrow> runs e P (bindM m f)"
  by (rule kyc_triple_bind [where Q = "\<lambda>_ _. True"]) simp_all

lemma runs_ret: "runs e P (ret x)"
  by (simp add: kyc_triple_def ret_def)

lemma runs_raise: "runs e P (raise x)"
  by (simp add: kyc_triple_def raise_def)

lemma runs_getM: "runs e P (getM f)"
  by (simp add: kyc_triple_def getM_def)

lemma with_apply_status [simp]: "ke_apply_status (with_apply s v) = s"
  by (simp add: with_apply_def)

lemma runs_try: "runs e P m \<Longrightarrow> runs e P (tryM m)"
  using kyc_triple_try [of e P m "\<lambda>_ _. True"] by (simp add: kyc_triple_def)

lemma runs_or_not_found: "runs e P m \<Longrightarrow> runs e P (or_not_found m)"
  using kyc_triple_or_not_found [of e P m "\<lambda>_ _. True"] by (simp add: kyc_triple_def)

lemma runs_get: "kyc_rely e \<Longrightarrow> upward P \<Longrightarrow> runs e P (kyc_get e f)"
  by (rule kyc_triple_get) simp_all

lemma runs_read: "kyc_rely e \<Longrightarrow> upward P \<Longrightarrow> runs e P (kyc_read e f)"
  by (rule kyc_triple_read) simp_all

lemma runs_now: "runs e P (kyc_now e)"
  unfolding kyc_now_def by (rule runs_getM)

lemma runs_alert: "runs e P (raise_alert kind a)"
  by (simp add: kyc_triple_def raise_alert_def modifyM_def kyc_ok_def)

lemma runs_weaken: "runs e P m \<Longrightarrow> (\<And>r. P' r \<Longrightarrow> P r) \<Longrightarrow> runs e P' m"
  by (auto simp: kyc_triple_def)

lemmas runs_intros = runs_ret runs_raise runs_now runs_alert runs_get runs_read runs_try runs_or_not_found runs_bind

lemma runs_set_status: "kyc_rely e \<Longrightarrow> runs e P (set_status e c)"
  using kyc_others_ok by (auto simp: kyc_triple_def set_status_def Let_def kyc_ok_def split: prod.splits)

lemma runs_update:
  assumes "kyc_rely e" and "same_delivery v u" and "ke_apply_status u \<noteq> KycClaiming" and "ke_apply_status v \<noteq> KycClaiming"
  shows "runs e (tracked v) (update_event e u)"
  unfolding update_event_def
  by (rule kyc_triple_conseq [OF triple_update_event [OF assms(1-3)]]) (simp_all add: tracked_def assms(4))

lemma runs_fold:
  "upward P \<Longrightarrow> (\<And>x b. runs e P (f x b)) \<Longrightarrow> runs e P (foldM f xs b)"
  by (induction xs arbitrary: b) (auto intro: runs_bind runs_ret)

lemma runs_in_flight: "kyc_rely e \<Longrightarrow> upward P \<Longrightarrow> runs e P (in_flight e g now at found)"
  unfolding in_flight_def by (auto split: prod.split option.split intro!: runs_intros)

lemma runs_check_allow: "kyc_rely e \<Longrightarrow> upward P \<Longrightarrow> runs e P (check_allow e g a now)"
  unfolding check_allow_def counted_wallets_def allowed_wallets_def
  by (auto intro!: runs_intros runs_fold runs_in_flight)

lemma runs_relay:
  assumes "kyc_rely e" and "ke_apply_status v \<noteq> KycClaiming"
  shows "runs e (tracked v) (relay e v s)"
  unfolding relay_def
  by (rule runs_bind [OF runs_set_status upward_tracked runs_update]) (simp_all add: assms)

lemma runs_submit:
  assumes "kyc_rely e" and "ke_apply_status v \<noteq> KycClaiming"
  shows "runs e (tracked v) (submit_event e wr v)"
  unfolding submit_event_def refuse_event_def
  by (auto split: option.split sum.split simp: assms
      intro!: runs_relay [OF assms] runs_update runs_intros runs_check_allow upward_tracked)

lemma runs_check_submitted:
  assumes "kyc_rely e" and "ke_apply_status v \<noteq> KycClaiming"
  shows "runs e (tracked v) (check_submitted e v)"
  unfolding check_submitted_def
  by (auto split: tx_status.split simp: assms
      intro!: runs_update runs_intros upward_tracked)

lemma runs_finalize:
  assumes "kyc_rely e"
  shows "runs e (tracked v) (bindM (finalize_claim e v) (\<lambda>_. ret ()))"
proof (rule runs_bind [OF _ upward_tracked runs_ret])
  show "runs e (tracked v) (finalize_claim e v)"
    by (rule kyc_triple_conseq [OF triple_finalize_claim [OF assms]]) (simp_all add: tracked_def)
qed

lemma runs_reconcile_event:
  assumes "kyc_rely e"
  shows "runs e (tracked v) (reconcile_event e wr v)"
  unfolding reconcile_event_def
  by (auto split: kyc_apply_status.split simp: assms
      intro!: runs_finalize runs_update runs_submit runs_check_submitted runs_intros upward_tracked)

lemma runs_reopen_event:
  assumes "kyc_rely e" and "ke_apply_status v \<noteq> KycClaiming"
  shows "runs e (tracked v) (reopen_event e v)"
  unfolding reopen_event_def
  by (auto simp: assms intro!: runs_update runs_intros upward_tracked)

definition all_tracked :: "kyc_event list \<Rightarrow> kyc_repo \<Rightarrow> bool" where
  "all_tracked vs r \<longleftrightarrow> (\<forall>v \<in> set vs. tracked v r)"

lemma upward_all_tracked [triple_intros]: "upward (all_tracked vs)"
  using upward_tracked unfolding upward_def all_tracked_def by blast

lemma runs_each:
  assumes "\<And>v. v \<in> set vs \<Longrightarrow> runs e (tracked v) (f v)"
  shows "runs e (all_tracked vs) (each_event f vs)"
  using assms
proof (induction vs)
  case (Cons v vs)
  have "runs e (all_tracked (v # vs)) (tryM (f v))"
    by (rule runs_weaken [OF runs_try [OF Cons.prems]]) (simp_all add: all_tracked_def)
  moreover have "runs e (all_tracked (v # vs)) (each_event f vs)"
    by (rule runs_weaken [OF Cons.IH]) (use Cons.prems in \<open>auto simp: all_tracked_def\<close>)
  ultimately show ?case by (auto intro!: runs_bind upward_all_tracked runs_ret)
qed (simp add: runs_ret)

lemma vals_tracked: "kyc_inv r \<Longrightarrow> v \<in> set (vals (kr_by_id r)) \<Longrightarrow> tracked v r"
  by (rule stored_tracked) (simp_all only: wf_store_vals [OF kyc_inv_wf])

lemma list_tracked:
  assumes "kyc_inv r"
  shows "all_tracked (kr_list_pending r) r" and "all_tracked (kr_list_applied_with_tx r) r"
  using vals_tracked [OF assms]
  by (simp_all add: all_tracked_def kr_list_pending_def kr_list_applied_with_tx_def kr_list_def del: set_map)

lemma runs_reopen:
  assumes "kyc_rely e"
  shows "runs e (\<lambda>_. True) (reopen_reorged_applied e)"
  unfolding reopen_reorged_applied_def
proof (rule kyc_triple_bind [OF kyc_triple_read [OF assms upward_const]])
  show "all_tracked (kr_list_applied_with_tx (kw_repo w)) (kw_repo w) \<and>
      (\<forall>v \<in> set (kr_list_applied_with_tx (kw_repo w)). ke_apply_status v = KycApplied)" if "kyc_ok e w" for w
    using that list_tracked(2) by (simp add: kyc_ok_def) (simp add: kr_list_applied_with_tx_def)
next
  fix vs
  show "runs e (\<lambda>r. True \<and> all_tracked vs r \<and> (\<forall>v \<in> set vs. ke_apply_status v = KycApplied)) (each_event (reopen_event e) vs)"
  proof (cases "\<forall>v \<in> set vs. ke_apply_status v = KycApplied")
    case True
    have "runs e (all_tracked vs) (each_event (reopen_event e) vs)"
      using True by (intro runs_each runs_reopen_event [OF assms]) simp
    then show ?thesis by (rule runs_weaken) simp
  qed (auto simp: kyc_triple_def)
qed (rule upward_const)

lemma runs_reconcile:
  assumes "kyc_rely e"
  shows "runs e (\<lambda>_. True) (reconcile_events e wr)"
  unfolding reconcile_events_def
proof (rule kyc_triple_bind [OF kyc_triple_read [OF assms upward_const]])
  show "all_tracked (kr_list_pending (kw_repo w)) (kw_repo w)" if "kyc_ok e w" for w
    using that list_tracked(1) by (simp add: kyc_ok_def)
next
  fix vs
  have "runs e (all_tracked vs) (each_event (reconcile_event e wr) vs)"
    by (intro runs_each runs_reconcile_event [OF assms])
  moreover have "runs e (all_tracked vs) (tryM (reopen_reorged_applied e))"
    by (rule runs_weaken [OF runs_try [OF runs_reopen [OF assms]]]) simp
  ultimately have "runs e (all_tracked vs) (bindM (each_event (reconcile_event e wr) vs) (\<lambda>errs.
      bindM (tryM (reopen_reorged_applied e)) (\<lambda>r. ret (errs @ (case r of Inl x \<Rightarrow> [x] | Inr errs' \<Rightarrow> errs')))))"
    by (intro runs_bind upward_all_tracked runs_ret)
  then show "runs e (\<lambda>r. True \<and> all_tracked vs r) (bindM (each_event (reconcile_event e wr) vs) (\<lambda>errs.
      bindM (tryM (reopen_reorged_applied e)) (\<lambda>r. ret (errs @ (case r of Inl x \<Rightarrow> [x] | Inr errs' \<Rightarrow> errs')))))"
    by (rule runs_weaken) simp
qed (rule upward_const)

section \<open>What is sent\<close>

text \<open>
  \<open>newest c r\<close>: the call relays the delivery that holds the claim of its account, with the status that
  this delivery decided and its validity (an int64 as a uint64), and every other delivery of that
  account whose claim is settled is older.
\<close>

definition carries :: "set_status_call \<Rightarrow> kyc_event \<Rightarrow> bool" where
  "carries c v \<longleftrightarrow> ke_address v = sc_account c \<and> relay_key v = sc_idempotency_key c \<and>
     (ke_outcome v, sc_status c) \<in> {(''Allowed'', ComplianceAllowed), (''Blocked'', ComplianceBlocked), (''Unknown'', ComplianceUnknown)} \<and>
     uint (sc_valid_until c) = ke_valid_until v mod 2 ^ 64"

definition newest :: "set_status_call \<Rightarrow> kyc_repo \<Rightarrow> bool" where
  "newest c r \<longleftrightarrow> (\<exists>i v. lookup (kr_by_id r) i = Some v \<and> carries c v \<and>
     held_claim r (sc_account c) = Some (ke_pair v) \<and>
     (\<forall>j u. lookup (kr_by_id r) j = Some u \<longrightarrow> ke_address u = sc_account c \<longrightarrow> ke_apply_status u \<noteq> KycClaiming \<longrightarrow> ke_pair u \<le> ke_pair v))"

text \<open>No other goroutine writes events or sends statuses between the steps of the pass.\<close>

definition kyc_alone :: "kyc_env \<Rightarrow> bool" where
  "kyc_alone e \<longleftrightarrow> (\<forall>n w. kw_repo (kx_other e n w) = kw_repo w \<and> kw_sent (kx_other e n w) = kw_sent w)"

definition silent :: "'a kym \<Rightarrow> bool" where
  "silent m \<longleftrightarrow> (\<forall>w. kw_sent (snd (m w)) = kw_sent w)"

definition still :: "'a kym \<Rightarrow> bool" where
  "still m \<longleftrightarrow> (\<forall>w. kw_sent (snd (m w)) = kw_sent w \<and> kw_repo (snd (m w)) = kw_repo w)"

lemma still_bind: "still m \<Longrightarrow> (\<And>y. still (f y)) \<Longrightarrow> still (bindM m f)"
  by (auto simp: still_def bindM_def split: prod.split sum.split) (metis snd_conv)+

lemma still_ret: "still (ret x)"
  by (simp add: still_def ret_def)

lemma still_raise: "still (raise x)"
  by (simp add: still_def raise_def)

lemma still_now: "still (kyc_now e)"
  by (simp add: still_def kyc_now_def getM_def)

lemma still_try: "still m \<Longrightarrow> still (tryM m)"
  by (auto simp: still_def tryM_def split: prod.split sum.split) (metis snd_conv)+

lemma still_or_not_found: "still m \<Longrightarrow> still (or_not_found m)"
  by (auto simp: still_def or_not_found_def split: prod.split sum.split kyc_error.split store_error.split) (metis snd_conv)+

lemma still_get: "kyc_alone e \<Longrightarrow> still (kyc_get e f)"
  by (simp add: still_def kyc_get_def kyc_call_def kyc_others_def kyc_alone_def Let_def split: fault.split sum.split)

lemma still_read: "kyc_alone e \<Longrightarrow> still (kyc_read e f)"
  by (simp add: still_def kyc_read_def kyc_call_def kyc_others_def kyc_alone_def Let_def split: fault.split sum.split)

lemmas still_intros = still_ret still_raise still_now still_get still_read still_try still_or_not_found still_bind

lemma still_fold: "(\<And>x b. still (f x b)) \<Longrightarrow> still (foldM f xs b)"
  by (induction xs arbitrary: b) (auto intro: still_bind still_ret)

lemma still_in_flight: "kyc_alone e \<Longrightarrow> still (in_flight e g now at found)"
  unfolding in_flight_def by (auto split: prod.split option.split intro!: still_intros)

lemma still_check_allow: "kyc_alone e \<Longrightarrow> still (check_allow e g a now)"
  unfolding check_allow_def counted_wallets_def allowed_wallets_def
  by (auto intro!: still_intros still_fold still_in_flight)

lemma silent_still: "still m \<Longrightarrow> silent m"
  by (simp add: still_def silent_def)

lemma silent_bind: "silent m \<Longrightarrow> (\<And>y. silent (f y)) \<Longrightarrow> silent (bindM m f)"
  by (auto simp: silent_def bindM_def split: prod.split sum.split) (metis snd_conv)+

lemma silent_ret: "silent (ret x)"
  by (rule silent_still [OF still_ret])

lemma silent_write: "kyc_alone e \<Longrightarrow> silent (kyc_write e f)"
  by (auto simp: silent_def kyc_write_def kyc_call_def kyc_others_def kyc_alone_def Let_def
      split: fault.split sum.split prod.split) 

lemma silent_try: "silent m \<Longrightarrow> silent (tryM m)"
  by (auto simp: silent_def tryM_def split: prod.split sum.split) (metis snd_conv)+

lemma silent_alert: "silent (raise_alert k a)"
  by (simp add: silent_def raise_alert_def modifyM_def)

lemma silent_update: "kyc_alone e \<Longrightarrow> silent (update_event e v)"
  unfolding update_event_def by (rule silent_write)

lemma silent_finalize: "kyc_alone e \<Longrightarrow> silent (finalize_claim e v)"
  unfolding finalize_claim_def Let_def
  by (auto intro!: silent_bind silent_write silent_still [OF still_intros(1)]
      silent_still [OF still_or_not_found [OF still_get]])


lemma relayed_newest:
  assumes "kyc_inv r" and "tracked v r" and "held_claim r (ke_address v) = Some p"
    and "kr_current_claim (ke_address v) r = Inr (ke_key v)" and "status_from_string (ke_outcome v) = Some s"
  shows "newest (relay_call v s) r"
proof -
  have p: "snd p = ke_key v"
    using assms(3,4) by (auto simp: kr_current_claim_iff)
  obtain i u where u: "lookup (kr_by_id r) i = Some u" "ke_address u = ke_address v" "ke_pair u = p"
    using kyc_inv_origin [OF assms(1,3)] by blast
  obtain t where t: "lookup (kr_by_id r) (ke_id v) = Some t" "same_delivery v t"
    using assms(2) by (auto simp: tracked_def has_delivery_def)
  have "ke_key u = ke_key t" using p u(3) same_delivery_fields [OF t(2)] by auto
  then have "i = ke_id v" by (rule kyc_inv_key [OF assms(1) u(1) t(1)])
  then have "p = ke_pair v" using u t same_delivery_fields [OF t(2)] by auto
  moreover have "ke_pair w \<le> p"
    if "lookup (kr_by_id r) j = Some w" "ke_address w = ke_address v" "ke_apply_status w \<noteq> KycClaiming" for j w
    using kyc_inv_claimed [OF assms(1) that(1,3)] assms(3) that(2) by (auto simp: claimed_def)
  ultimately have best: "held_claim r (ke_address v) = Some (ke_pair v)"
      "\<forall>j w. lookup (kr_by_id r) j = Some w \<longrightarrow> ke_address w = ke_address v \<longrightarrow> ke_apply_status w \<noteq> KycClaiming \<longrightarrow> ke_pair w \<le> ke_pair v"
    using assms(3) by (simp_all del: less_eq_prod_simp)
  have same: "ke_pair t = ke_pair v" and carries: "carries (relay_call v s) t"
    using same_delivery_fields [OF t(2)] assms(5)
    by (auto simp: relay_key_def carries_def relay_call_def status_from_string_def uint_word_of_int split: if_splits)
  have account: "sc_account (relay_call v s) = ke_address v" by (simp add: relay_call_def)
  show ?thesis
    unfolding newest_def account
    by (intro exI [of _ "ke_id v"] exI [of _ t] conjI t(1) carries) (unfold same, rule best(1), rule best(2))
qed

definition sends :: "set_status_call set \<Rightarrow> kyc_repo \<Rightarrow> kyc_world \<Rightarrow> kyc_world \<Rightarrow> bool" where
  "sends C r w w' \<longleftrightarrow> (\<exists>more. kw_sent w' = kw_sent w @ more \<and> set more \<subseteq> C \<times> {r})"

lemma sends_silent: "silent m \<Longrightarrow> sends C r w (snd (m w))"
  by (simp add: silent_def sends_def)

lemma sends_still_bind:
  assumes "still m" and "\<And>y u. kw_repo u = r \<Longrightarrow> sends C r u (snd (f y u))" and "kw_repo w = r"
  shows "sends C r w (snd (bindM m f w))"
proof -
  obtain x u where m: "m w = (x, u)" by (cases "m w")
  have u: "kw_sent u = kw_sent w" "kw_repo u = r"
    using assms(1,3) m unfolding still_def by (metis snd_conv)+
  show ?thesis
    using u assms(2) [OF u(2)] by (cases x) (simp_all add: bindM_def m sends_def)
qed

text \<open>The calls that relay a delivery.\<close>

definition relays :: "kyc_event \<Rightarrow> set_status_call set" where
  "relays v = {relay_call v s |s. status_from_string (ke_outcome v) = Some s}"

lemma sends_relay:
  assumes "kyc_alone e" and "kw_repo w = r" and "status_from_string (ke_outcome v) = Some s"
  shows "sends (relays v) r w (snd (relay e v s w))"
proof -
  obtain x u where c: "set_status e (relay_call v s) w = (x, u)" by fastforce
  have u: "kw_sent u = kw_sent w @ [(relay_call v s, r)]"
    using c assms by (auto simp: set_status_def kyc_others_def kyc_alone_def Let_def split: prod.splits)
  have "kw_sent (snd (relay e v s w)) = kw_sent u"
    using silent_update [OF assms(1)] by (cases x) (simp_all add: relay_def bindM_def c silent_def)
  then show ?thesis using assms(3) by (auto simp: sends_def u relays_def)
qed

lemma sends_submit:
  assumes "kyc_alone e" and "kw_repo w = r"
  shows "sends (relays v) r w (snd (submit_event e wr v w))"
proof -
  note relay = sends_relay [OF assms(1)]
  have quiet: "silent (ret ())" "silent (update_event e u)" "silent (refuse_event e u k)" "silent (raise x :: unit kym)" for u k x
    unfolding refuse_event_def
    by (auto intro!: silent_bind silent_update silent_alert silent_ret silent_still [OF still_raise] assms(1))
  have guarded: "status_from_string (ke_outcome v) = Some s \<Longrightarrow> sends (relays v) r w
      (snd (bindM (kyc_now e) (\<lambda>now. bindM (tryM (check_allow e g (ke_address v) now)) (\<lambda>r.
        case r of Inr _ \<Rightarrow> relay e v s
        | Inl x \<Rightarrow> if refusal_alert x = [] then raise x else refuse_event e v (refusal_alert x))) w))" for g s
  proof (rule sends_still_bind [OF still_now _ assms(2)])
    fix now and u :: kyc_world assume s: "status_from_string (ke_outcome v) = Some s" and u: "kw_repo u = r"
    show "sends (relays v) r u (snd (bindM (tryM (check_allow e g (ke_address v) now)) (\<lambda>r.
        case r of Inr _ \<Rightarrow> relay e v s
        | Inl x \<Rightarrow> if refusal_alert x = [] then raise x else refuse_event e v (refusal_alert x)) u))"
      by (rule sends_still_bind [OF still_try [OF still_check_allow [OF assms(1)]] _ u])
        (auto split: sum.split intro: relay s sends_silent quiet)
  qed
  show ?thesis
    unfolding submit_event_def
    by (auto split: option.split intro: relay guarded assms(2) sends_silent quiet)
qed

lemma sends_reconcile_event:
  assumes "kyc_rely e" and "kyc_alone e" and "kyc_ok e w" and "tracked v (kw_repo w)"
  shows "\<exists>more. kw_sent (snd (reconcile_event e wr v w)) = kw_sent w @ more \<and> (\<forall>(c, r) \<in> set more. newest c r)"
proof -
  let ?r = "kw_repo w"
  have inv: "kyc_inv ?r" using assms(3) by (simp add: kyc_ok_def)
  have quietly: "\<exists>more. kw_sent (snd (m w)) = kw_sent w @ more \<and> (\<forall>(c, r) \<in> set more. newest c r)" if "silent m" for m :: "unit kym"
    using that by (simp add: silent_def)
  show ?thesis
  proof (cases "ke_apply_status v = KycClaiming")
    case True
    then show ?thesis
      unfolding reconcile_event_def
      by (auto intro!: quietly silent_bind silent_finalize silent_ret assms(2))
  next
    case False
    let ?get = "or_not_found (kyc_get e (\<lambda>w. kr_current_claim (ke_address v) (kw_repo w)))"
    obtain x u where get: "?get w = (x, u)" by fastforce
    have u: "kw_sent u = kw_sent w" "kw_repo u = ?r"
      using still_or_not_found [OF still_get [OF assms(2)]] get unfolding still_def by (metis snd_conv)+
    have x: "x = Inr (Some k) \<Longrightarrow> kr_current_claim (ke_address v) ?r = Inr k" "x = Inr None \<Longrightarrow> kr_current_claim (ke_address v) ?r = Inl ErrNotFound" for k
      using get assms(2)
      by (auto simp: or_not_found_def kyc_get_def kyc_call_def kyc_others_def kyc_alone_def Let_def
          split: prod.splits sum.splits fault.splits kyc_error.splits store_error.splits)
    obtain p where p: "held_claim ?r (ke_address v) = Some p" "ke_pair v \<le> p"
      using assms(4) False by (auto simp: tracked_def claimed_def)
    have "x \<noteq> Inr None" using x(2) p(1) kr_current_claim_iff [of "ke_address v" ?r "snd p"] by (cases p) auto
    then consider (err) y where "x = Inl y" | (won) "x = Inr (Some (ke_key v))" | (lost) k where "x = Inr (Some k)" "k \<noteq> ke_key v"
      by (cases x) auto
    then show ?thesis
    proof cases
      case err
      then show ?thesis using False by (simp add: reconcile_event_def bindM_def get u(1))
    next
      case lost
      then have "snd (reconcile_event e wr v w) = snd (update_event e (with_apply KycSuperseded v) u)"
        using False by (simp add: reconcile_event_def bindM_def get)
      then show ?thesis using silent_update [OF assms(2)] by (simp add: silent_def u(1))
    next
      case won
      then have run: "snd (reconcile_event e wr v w) = snd ((case ke_apply_status v of
          KycAccepted \<Rightarrow> submit_event e wr v | KycApplying \<Rightarrow> check_submitted e v | _ \<Rightarrow> ret ()) u)"
        using False by (simp add: reconcile_event_def bindM_def get)
      have check: "silent (check_submitted e v)"
        unfolding check_submitted_def
        by (auto split: tx_status.split intro!: silent_update silent_bind silent_still [OF still_get] silent_ret assms(2))
      have "sends (relays v) ?r u (snd ((case ke_apply_status v of
          KycAccepted \<Rightarrow> submit_event e wr v | KycApplying \<Rightarrow> check_submitted e v | _ \<Rightarrow> ret ()) u))"
        by (auto split: kyc_apply_status.split intro: sends_submit [OF assms(2) u(2)] sends_silent check silent_ret)
      then obtain more where more: "kw_sent (snd (reconcile_event e wr v w)) = kw_sent w @ more" "set more \<subseteq> relays v \<times> {?r}"
        unfolding sends_def run u(1) by blast
      have "newest c ?r" if "c \<in> relays v" for c
        using that relayed_newest [OF inv assms(4) p(1) x(1) [OF won]] by (auto simp: relays_def)
      then show ?thesis using more by (intro exI [of _ more]) auto
    qed
  qed
qed


lemma sent_each:
  assumes "kyc_ok e w" and "all_tracked vs (kw_repo w)"
    and "\<And>v. v \<in> set vs \<Longrightarrow> runs e (tracked v) (f v)"
    and "\<And>v w. v \<in> set vs \<Longrightarrow> kyc_ok e w \<Longrightarrow> tracked v (kw_repo w) \<Longrightarrow>
      \<exists>more. kw_sent (snd (f v w)) = kw_sent w @ more \<and> (\<forall>(c, r) \<in> set more. newest c r)"
  shows "\<exists>more. kw_sent (snd (each_event f vs w)) = kw_sent w @ more \<and> (\<forall>(c, r) \<in> set more. newest c r)"
  using assms
proof (induction vs arbitrary: w)
  case Nil
  then show ?case by (simp add: ret_def)
next
  case (Cons v vs)
  obtain x u where f: "f v w = (x, u)" by fastforce
  have v: "tracked v (kw_repo w)" and vs: "all_tracked vs (kw_repo w)" using Cons.prems(2) by (simp_all add: all_tracked_def)
  have u: "kyc_ok e u" "kyc_grows (kw_repo w) (kw_repo u)"
    using kyc_tripleD [OF Cons.prems(3) Cons.prems(1) v f] by simp_all
  obtain m1 where m1: "kw_sent u = kw_sent w @ m1" "\<forall>(c, r) \<in> set m1. newest c r"
    using Cons.prems(4) [OF _ Cons.prems(1) v] f by fastforce
  obtain m2 where m2: "kw_sent (snd (each_event f vs u)) = kw_sent u @ m2" "\<forall>(c, r) \<in> set m2. newest c r"
    using Cons.IH [OF u(1) upwardD [OF upward_all_tracked vs u(2)]] Cons.prems(3,4) by fastforce
  have "snd (each_event f (v # vs) w) = snd (each_event f vs u)"
    by (simp add: bindM_def tryM_def f ret_def split: prod.split sum.split)
  then show ?case
    using m1 m2 by (intro exI [of _ "m1 @ m2"]) auto
qed

lemma silent_reopen:
  assumes "kyc_alone e"
  shows "silent (reopen_reorged_applied e)"
proof -
  have one: "silent (reopen_event e v)" for v
    unfolding reopen_event_def by (auto intro!: silent_bind silent_update silent_still [OF still_get] silent_ret assms)
  have "silent (each_event (reopen_event e) vs)" for vs
    by (induction vs) (auto intro!: silent_bind silent_try silent_ret one)
  then show ?thesis
    unfolding reopen_reorged_applied_def by (auto intro!: silent_bind silent_still [OF still_read] assms)
qed

section \<open>Progress\<close>

text \<open>\<open>yields\<close>: the steps return a result, and what holds then.\<close>

definition kyc_no_faults :: "kyc_env \<Rightarrow> bool" where
  "kyc_no_faults e \<longleftrightarrow> (\<forall>n. kx_fault e n = NoFault)"

definition yields :: "kyc_env \<Rightarrow> (kyc_repo \<Rightarrow> bool) \<Rightarrow> 'a kym \<Rightarrow> ('a \<Rightarrow> kyc_repo \<Rightarrow> bool) \<Rightarrow> bool" where
  "yields e P m Q \<longleftrightarrow> kyc_triple e P m Q \<and> (\<forall>w. kyc_ok e w \<longrightarrow> P (kw_repo w) \<longrightarrow> (\<exists>y. fst (m w) = Inr y))"

lemma yields_triple: "yields e P m Q \<Longrightarrow> kyc_triple e P m Q"
  by (simp add: yields_def)

lemma yields_bind:
  assumes "yields e P m Q" and "upward P" and "\<And>y. yields e (\<lambda>r. P r \<and> Q y r) (f y) R"
  shows "yields e P (bindM m f) R"
  unfolding yields_def
proof (intro conjI allI impI)
  show "kyc_triple e P (bindM m f) R"
    by (rule kyc_triple_bind [OF yields_triple [OF assms(1)] assms(2) yields_triple [OF assms(3)]])
  fix w assume w: "kyc_ok e w" "P (kw_repo w)"
  obtain y where "fst (m w) = Inr y" using assms(1) w by (auto simp: yields_def)
  then obtain u where m: "m w = (Inr y, u)" by (cases "m w") auto
  note u = kyc_tripleD [OF yields_triple [OF assms(1)] w m]
  have "P (kw_repo u) \<and> Q y (kw_repo u)" using upwardD [OF assms(2) w(2) u(2)] u(3) by simp
  then show "\<exists>z. fst (bindM m f w) = Inr z"
    using assms(3) [of y] u(1) by (simp add: yields_def bindM_def m)
qed

lemma yields_ret: "(\<And>r. P r \<Longrightarrow> Q x r) \<Longrightarrow> yields e P (ret x) Q"
  by (simp add: yields_def kyc_triple_ret) (simp add: ret_def)

lemma yields_write:
  assumes "kyc_no_faults e" and "kyc_triple e P (kyc_write e f) Q" and "kyc_rely e" and "upward P"
    and "\<And>r. kyc_inv r \<Longrightarrow> P r \<Longrightarrow> \<exists>y. fst (f r) = Inr y"
  shows "yields e P (kyc_write e f) Q"
  unfolding yields_def
proof (intro conjI allI impI assms(2))
  fix w assume w: "kyc_ok e w" "P (kw_repo w)"
  note u = kyc_others_ok(1,2) [OF assms(3) w(1)]
  have "\<exists>y. fst (f (kw_repo (kyc_others e w))) = Inr y"
    using assms(5) upwardD [OF assms(4) w(2) u(2)] u(1) by (simp add: kyc_ok_def)
  then show "\<exists>y. fst (kyc_write e f w) = Inr y"
    using assms(1) by (auto simp: kyc_write_def kyc_call_def kyc_no_faults_def Let_def split: prod.splits)
qed

lemma yields_finalize:
  assumes "kyc_rely e" and "kyc_no_faults e"
  shows "yields e (has_delivery v) (finalize_claim e v) (\<lambda>_. settled v)"
  unfolding finalize_claim_def Let_def
proof (rule yields_bind [OF yields_write [OF assms(2) triple_claim_latest [OF assms(1)] assms(1) upward_has_delivery] upward_has_delivery])
  show "\<exists>y. fst (case kr_claim_latest (ke_address v) (ke_occurred_at v) (ke_key v) r of (b, r) \<Rightarrow> (Inr b, r)) = Inr y" for r
    by (simp split: prod.split)
next
  fix won
  let ?P = "\<lambda>r. has_delivery v r \<and> claimed v r"
  let ?look = "if won then ret True
      else bindM (or_not_found (kyc_get e (\<lambda>w. kr_current_claim (ke_address v) (kw_repo w))))
        (\<lambda>current. ret (current = Some (ke_key v)))"
  have up: "upward ?P" by (intro triple_intros)
  have nf: "kx_fault e n = NoFault" for n using assms(2) by (simp add: kyc_no_faults_def)
  have "yields e ?P ?look (\<lambda>_ _. True)"
    unfolding yields_def
  proof (intro conjI allI impI)
    show "runs e ?P ?look" by (auto intro!: runs_intros assms(1) up)
    show "\<exists>y. fst (?look w) = Inr y" for w
      by (auto simp: bindM_def ret_def or_not_found_def kyc_get_def kyc_call_def nf kr_current_claim_def Let_def
          split: option.split)
  qed
  then show "yields e ?P (bindM ?look
     (\<lambda>holds. bindM (kyc_write e (kr_update (with_apply (settled_status holds v) v))) (\<lambda>_. ret holds))) (\<lambda>_. settled v)"
  proof (rule yields_bind [OF _ up], simp only: simp_thms)
    fix holds
    let ?u = "with_apply (settled_status holds v) v"
    have status: "ke_apply_status ?u \<noteq> KycClaiming" by (simp add: settled_status_def)
    have update: "yields e ?P (kyc_write e (kr_update ?u)) (\<lambda>_. settled v)"
    proof (rule yields_write [OF assms(2) triple_update_event [OF assms(1) _ status] assms(1) up])
      show "\<exists>y. fst (kr_update ?u r) = Inr y" if "?P r" for r
        using that by (auto simp: kr_update_def has_delivery_def with_apply_def)
    qed simp
    show "yields e ?P (bindM (kyc_write e (kr_update ?u)) (\<lambda>_. ret holds)) (\<lambda>_. settled v)"
      by (rule yields_bind [OF update up yields_ret]) simp
  qed
qed

lemma settles_event:
  assumes "kyc_rely e" and "kyc_no_faults e" and "ke_apply_status v = KycClaiming"
  shows "kyc_triple e (tracked v) (tryM (reconcile_event e wr v)) (\<lambda>_. settled v)"
  unfolding kyc_triple_def
proof (intro allI impI)
  fix w assume w: "kyc_ok e w \<and> tracked v (kw_repo w)"
  have run: "reconcile_event e wr v = bindM (finalize_claim e v) (\<lambda>_. ret ())" by (simp add: reconcile_event_def assms(3))
  have "yields e (has_delivery v) (reconcile_event e wr v) (\<lambda>_. settled v)"
    unfolding run by (rule yields_bind [OF yields_finalize [OF assms(1,2)] upward_has_delivery yields_ret]) simp
  moreover have "has_delivery v (kw_repo w)" using w by (simp add: tracked_def)
  ultimately show "kyc_ok e (snd (tryM (reconcile_event e wr v) w)) \<and>
      kyc_grows (kw_repo w) (kw_repo (snd (tryM (reconcile_event e wr v) w))) \<and>
      (\<forall>y. fst (tryM (reconcile_event e wr v) w) = Inr y \<longrightarrow> settled v (kw_repo (snd (tryM (reconcile_event e wr v) w))))"
    using w unfolding yields_def kyc_triple_def tryM_def by (auto split: prod.split)
qed

lemma settles_each:
  assumes "kyc_rely e" and "kyc_no_faults e"
  shows "kyc_triple e (all_tracked vs) (each_event (reconcile_event e wr) vs)
    (\<lambda>_ r. \<forall>v \<in> set vs. ke_apply_status v = KycClaiming \<longrightarrow> settled v r)"
proof (induction vs)
  case Nil
  then show ?case by (simp add: kyc_triple_ret)
next
  case (Cons v vs)
  have up: "upward (all_tracked (v # vs))" by (rule upward_all_tracked)
  have first: "kyc_triple e (all_tracked (v # vs)) (tryM (reconcile_event e wr v))
      (\<lambda>_ r. ke_apply_status v = KycClaiming \<longrightarrow> settled v r)"
  proof (cases "ke_apply_status v = KycClaiming")
    case True
    show ?thesis by (rule kyc_triple_conseq [OF settles_event [OF assms True]]) (simp_all add: all_tracked_def)
  next
    case False
    have "runs e (all_tracked (v # vs)) (tryM (reconcile_event e wr v))"
      by (rule runs_weaken [OF runs_try [OF runs_reconcile_event [OF assms(1)]]]) (simp add: all_tracked_def)
    then show ?thesis using False by simp
  qed
  let ?P = "\<lambda>r. all_tracked (v # vs) r \<and> (ke_apply_status v = KycClaiming \<longrightarrow> settled v r)"
  have up2: "upward ?P" using up upward_settled [of v] unfolding upward_def by blast
  have rest: "kyc_triple e ?P (each_event (reconcile_event e wr) vs) (\<lambda>_ r. ?P r \<and>
      (\<forall>v \<in> set vs. ke_apply_status v = KycClaiming \<longrightarrow> settled v r))"
    by (rule kyc_triple_frame [OF kyc_triple_conseq [OF Cons.IH] up2]) (simp_all add: all_tracked_def)
  show ?case
    unfolding each_event.simps
    by (rule kyc_triple_bind [OF first up], rule kyc_triple_bind [OF rest up2]) (auto intro: kyc_triple_ret)
qed

lemma each_event_returns: "\<exists>errs. fst (each_event f vs w) = Inr errs"
proof (induction vs arbitrary: w)
  case (Cons v vs)
  obtain x u where f: "f v w = (x, u)" by fastforce
  obtain errs where "fst (each_event f vs u) = Inr errs" using Cons.IH by blast
  then obtain u2 where "each_event f vs u = (Inr errs, u2)" by (cases "each_event f vs u") auto
  then show ?case by (simp add: bindM_def tryM_def f ret_def)
qed (simp add: ret_def)

section \<open>Properties\<close>

text \<open>
  A pass of the reconciler keeps the invariant of the event repository and takes nothing back:
  no delivery is lost, no claim gets older and no settled delivery becomes Claiming again. This
  holds whatever calls fail and whatever other replicas do within the same rules.
\<close>

theorem reconcile_keeps_invariant:
  assumes "kyc_rely e" and "kyc_ok e w"
  shows "kyc_ok e (snd (reconcile_events e wr w)) \<and> kyc_grows (kw_repo w) (kw_repo (snd (reconcile_events e wr w)))"
  using runs_reconcile [OF assms(1)] assms(2) by (simp add: kyc_triple_def)

definition demo_relay :: webhook_reconciler where
  "demo_relay = \<lparr>wr_status = True, wr_guard = None\<rparr>"

corollary reconcile_keeps_invariant_witness:
  "kyc_ok demo_kyc (snd (reconcile_events demo_kyc demo_relay demo_taken))"
  using reconcile_keeps_invariant [OF demo_kyc_rely demo_taken_ok] by simp

text \<open>
  C35: While the repositories answer, one pass settles every interrupted delivery: whatever is
  stored when the pass starts is Accepted, Recorded, Superseded or further when it ends, even
  though other replicas act in between.
\<close>

theorem reconcile_settles_deliveries:
  assumes "kyc_rely e" and "kyc_no_faults e" and "kyc_ok e w" and "lookup (kr_by_id (kw_repo w)) i = Some v"
  shows "\<exists>u. lookup (kr_by_id (kw_repo (snd (reconcile_events e wr w)))) i = Some u \<and> same_delivery v u \<and>
    ke_apply_status u \<noteq> KycClaiming"
proof -
  let ?u = "kyc_others e w"
  let ?vs = "kr_list_pending (kw_repo ?u)"
  have nf: "kx_fault e n = NoFault" for n using assms(2) by (simp add: kyc_no_faults_def)
  have list: "kyc_read e (\<lambda>w. kr_list_pending (kw_repo w)) w = (Inr ?vs, ?u)"
    by (simp add: kyc_read_def kyc_call_def nf Let_def)
  note u = kyc_others_ok(1,2) [OF assms(1,3)]
  have inv: "kyc_inv (kw_repo ?u)" using u(1) by (simp add: kyc_ok_def)
  obtain t where t: "lookup (kr_by_id (kw_repo ?u)) i = Some t" "same_delivery v t"
    using u(2) assms(4) unfolding kyc_grows_def by blast
  obtain errs u2 where each: "each_event (reconcile_event e wr) ?vs ?u = (Inr errs, u2)"
    using each_event_returns [of "reconcile_event e wr" ?vs ?u] by (cases "each_event (reconcile_event e wr) ?vs ?u") auto
  note u2 = kyc_tripleD [OF settles_each [OF assms(1,2)] u(1) list_tracked(1) [OF inv] each]
  obtain x u3 where reopen: "reopen_reorged_applied e u2 = (x, u3)" by fastforce
  have u3: "kyc_grows (kw_repo u2) (kw_repo u3)" using kyc_tripleD(2) [OF runs_reopen [OF assms(1)] u2(1) _ reopen] by simp
  have final: "snd (reconcile_events e wr w) = u3"
    by (simp add: reconcile_events_def bindM_def list each tryM_def reopen ret_def)
  show ?thesis
  proof (cases "ke_apply_status t = KycClaiming")
    case True
    have "t \<in> set (vals (kr_by_id (kw_repo ?u)))"
      using t(1) kyc_inv_id [OF inv t(1)] by (simp only: wf_store_vals [OF kyc_inv_wf [OF inv]])
    then have "t \<in> set ?vs" using True by (simp add: kr_list_pending_def del: set_map)
    then have "settled t (kw_repo u3)" using u2(3) True upwardD [OF upward_settled _ u3] by blast
    then show ?thesis
      using kyc_inv_id [OF inv t(1)] same_delivery_trans [OF t(2)] by (auto simp: settled_def final)
  next
    case False
    obtain t3 where "lookup (kr_by_id (kw_repo u3)) i = Some t3" "same_delivery t t3" "ke_apply_status t3 \<noteq> KycClaiming"
      using kyc_grows_trans [OF u2(2) u3] t(1) False unfolding kyc_grows_def by blast
    then show ?thesis using same_delivery_trans [OF t(2)] by (auto simp: final)
  qed
qed

text \<open>A replica stored a delivery and crashed before it claimed the address.\<close>

definition demo_crashed :: kyc_world where
  "demo_crashed = snd (create_event demo_kyc (event_of 0 [] ''h'' demo_payload) demo_world)"

corollary reconcile_settles_deliveries_witness:
  "\<exists>u. lookup (kr_by_id (kw_repo (snd (reconcile_events demo_kyc demo_relay demo_crashed)))) [] = Some u \<and>
    ke_apply_status u \<noteq> KycClaiming"
proof -
  have start: "ke_id (event_of 0 [] ''h'' demo_payload) = kx_uuid demo_kyc (kw_tick demo_world)"
      "ke_apply_status (event_of 0 [] ''h'' demo_payload) = KycClaiming"
    by (simp_all add: event_of_def demo_kyc_def demo_world_def)
  obtain x where run: "create_event demo_kyc (event_of 0 [] ''h'' demo_payload) demo_world = (x, demo_crashed)"
    by (simp add: demo_crashed_def prod_eq_iff)
  have ok: "kyc_ok demo_kyc demo_crashed" by (rule create_event_run(1) [OF demo_kyc_rely demo_world_ok start run])
  have at: "lookup (kr_by_id (kw_repo demo_crashed)) [] = Some (event_of 0 [] ''h'' demo_payload)" by code_simp
  have "kyc_no_faults demo_kyc" by (simp add: kyc_no_faults_def demo_kyc_def)
  from reconcile_settles_deliveries [OF demo_kyc_rely this ok at] show ?thesis by blast
qed

text \<open>
  C34: While no other process writes events between the steps of a pass, every status that the pass
  hands to the transaction manager is the one decided by the delivery holding the claim of its account,
  for that account, with the delivery's validity and key, and no settled delivery of that account is newer.
\<close>

theorem relay_sends_newest:
  assumes "kyc_rely e" and "kyc_alone e" and "kyc_ok e w"
    and "(c, r) \<in> set (drop (length (kw_sent w)) (kw_sent (snd (reconcile_events e wr w))))"
  shows "newest c r"
proof -
  let ?list = "kyc_read e (\<lambda>w. kr_list_pending (kw_repo w))"
  obtain x u where list: "?list w = (x, u)" by fastforce
  have u: "kw_sent u = kw_sent w" "kw_repo u = kw_repo w"
    using still_read [OF assms(2)] list unfolding still_def by (metis snd_conv)+
  have ok: "kyc_ok e u" using kyc_tripleD [OF runs_read [OF assms(1) upward_const] assms(3) _ list, of True] by simp
  show ?thesis
  proof (cases x)
    case (Inl err)
    then have "kw_sent (snd (reconcile_events e wr w)) = kw_sent w" by (simp add: reconcile_events_def bindM_def list u(1))
    then show ?thesis using assms(4) by simp
  next
    case (Inr vs)
    then have "vs = kr_list_pending (kw_repo u)"
      using list assms(2)
      by (auto simp: kyc_read_def kyc_call_def kyc_others_def kyc_alone_def Let_def split: fault.splits)
    then have "all_tracked vs (kw_repo u)" using ok list_tracked(1) by (simp add: kyc_ok_def)
    then obtain more where more: "kw_sent (snd (each_event (reconcile_event e wr) vs u)) = kw_sent u @ more" "\<forall>(c, r) \<in> set more. newest c r"
      using sent_each [OF ok, where f = "reconcile_event e wr"] runs_reconcile_event [OF assms(1)]
        sends_reconcile_event [OF assms(1,2)] by blast
    obtain y v where each: "each_event (reconcile_event e wr) vs u = (y, v)" by fastforce
    have "kw_sent (snd (reconcile_events e wr w)) = kw_sent v"
      using silent_reopen [OF assms(2)]
      by (simp add: reconcile_events_def bindM_def list Inr each tryM_def ret_def silent_def split: sum.split prod.split)
        (metis snd_conv)
    then show ?thesis using assms(4) more each u(1) by auto
  qed
qed


lemma demo_kyc_alone: "kyc_alone demo_kyc"
  by (simp add: kyc_alone_def demo_kyc_def)

corollary relay_sends_newest_witness:
  "\<exists>c r. (c, r) \<in> set (kw_sent (snd (reconcile_events demo_kyc demo_relay demo_taken))) \<and> newest c r \<and>
    sc_status c = ComplianceAllowed \<and> sc_account c = ''a''"
proof -
  have "kw_sent demo_taken = []" and "kw_sent (snd (reconcile_events demo_kyc demo_relay demo_taken)) \<noteq> []" by code_simp+
  then obtain c r more where sent: "kw_sent (snd (reconcile_events demo_kyc demo_relay demo_taken)) = (c, r) # more"
    by (cases "kw_sent (snd (reconcile_events demo_kyc demo_relay demo_taken))") auto
  have "sc_status (fst (hd (kw_sent (snd (reconcile_events demo_kyc demo_relay demo_taken))))) = ComplianceAllowed"
    "sc_account (fst (hd (kw_sent (snd (reconcile_events demo_kyc demo_relay demo_taken))))) = ''a''" by code_simp+
  then have head: "sc_status c = ComplianceAllowed" "sc_account c = ''a''" by (simp_all add: sent)
  have "(c, r) \<in> set (drop (length (kw_sent demo_taken)) (kw_sent (snd (reconcile_events demo_kyc demo_relay demo_taken))))"
    by (simp add: sent \<open>kw_sent demo_taken = []\<close>)
  from relay_sends_newest [OF demo_kyc_rely demo_kyc_alone demo_taken_ok this] show ?thesis
    using head by (intro exI [of _ c] exI [of _ r]) (simp add: sent)
qed

text \<open>
  Without that assumption an older status can follow a newer one. Between the claim check of this
  pass and its submission, another replica stores a newer Blocked decision of the same account,
  claims it and relays it; this pass then still submits the superseded Allowed.
\<close>

definition demo_blocked :: kyc_event where
  "demo_blocked = (event_of (10 ^ 18) ''v'' ''h'' (demo_payload\<lparr>wp_event_id := ''2'', wp_status := ''Blocked'',
     wp_occurred_at := 10 ^ 9 + 1\<rparr>))\<lparr>ke_apply_status := KycAccepted\<rparr>"

definition other_replica :: "nat \<Rightarrow> kyc_world \<Rightarrow> kyc_world" where
  "other_replica n w =
     (if n = 6
      then w\<lparr>kw_repo := snd (kr_claim_latest ''a'' (ke_occurred_at demo_blocked) ''p|2'' (snd (kr_create demo_blocked (kw_repo w)))),
             kw_sent := kw_sent w @ [(relay_call demo_blocked ComplianceBlocked, kw_repo w)]\<rparr>
      else w)"

definition demo_race :: kyc_env where
  "demo_race = demo_kyc\<lparr>kx_other := other_replica\<rparr>"

theorem relay_order_not_kept:
  "map (\<lambda>c. sc_status (fst c)) (kw_sent (snd (reconcile_events demo_race demo_relay demo_taken))) =
     [ComplianceBlocked, ComplianceAllowed]"
  by code_simp

text \<open>
  A decision whose transaction was replaced is never seen as applied. Replaced is a final status
  of a transaction, the event keeps pointing at it, every pass leaves it Applying, and the guard
  does not count its wallet, although the replacement carries the same call.
\<close>

theorem replaced_stays_applying:
  assumes "kyc_quiet e" and "lookup (kw_txs w) (ke_tx_id v) = Some t" and "tx_stat t = TxReplaced" and "ke_tx_id v \<noteq> []"
  shows "check_submitted e v w = (Inr (), w\<lparr>kw_tick := Suc (kw_tick w)\<rparr>) \<and> \<not> on_its_way now (kw_txs w) (ke_tx_id v)"
  using assms
  by (simp add: check_submitted_def bindM_def kyc_get_def kyc_call_def kyc_quiet_def kyc_others_def Let_def tx_get_def ret_def
      on_its_way_def live_status_def)

end
