(* ===== verification/Eip712.thy ===== *)
theory Eip712
  imports Merkle
begin

text \<open>
  Attestation digests and signature recovery: server/internal/eip712/eip712.go. Keccak-256 and the
  recovery of a public key are parameters. A digest binds its attestation: two attestations with
  one digest are equal, or Keccak-256 collides on the byte strings that were hashed.
\<close>

section \<open>Words of the encoding\<close>

record eip_domain =
  dm_name :: string
  dm_version :: string
  dm_chain_id :: "int option" \<comment> \<open>a \<^verbatim>\<open>*big.Int\<close>, \<open>None\<close> for nil\<close>
  dm_contract :: address

record mint_attestation =
  ma_auditor :: address
  ma_profile_digest :: u256
  ma_record_key :: u256
  ma_metadata_digest :: u256
  ma_amount :: "int option"
  ma_nonce :: "int option"
  ma_valid_until :: u64
  ma_vault :: address

record burn_attestation =
  ba_auditor :: address
  ba_profile_digest :: u256
  ba_operation_id :: u256
  ba_metadata_digest :: u256
  ba_amount :: "int option"
  ba_nonce :: "int option"
  ba_valid_until :: u64
  ba_vault :: address

definition str_bytes :: "string \<Rightarrow> byte list" where
  "str_bytes s = map of_char s"

definition domain_type_string :: string where
  "domain_type_string = ''EIP712Domain(string name,string version,uint256 chainId,address verifyingContract)''"

definition mint_type_string :: string where
  "mint_type_string = ''MintAttestation(address auditor,bytes32 profileDigest,bytes32 recordKey,bytes32 metadataDigest,uint256 amount,uint256 nonce,uint64 validUntil,address vault)''"

definition burn_type_string :: string where
  "burn_type_string = ''BurnAttestation(address auditor,bytes32 profileDigest,bytes32 operationId,bytes32 metadataDigest,uint256 amount,uint256 nonce,uint64 validUntil,address vault)''"

text \<open>\<open>None\<close> is the panic of \<^verbatim>\<open>w[32-len(b):]\<close> for more than 32 bytes.\<close>

definition word32 :: "byte list \<Rightarrow> byte list option" where
  "word32 b = (if length b > 32 then None else Some (left_pad 32 b))"

definition address_word :: "address \<Rightarrow> byte list option" where
  "address_word a = word32 (address_bytes a)"

definition bytes32_word :: "u256 \<Rightarrow> byte list option" where
  "bytes32_word h = Some (hash_bytes h)"

text \<open>\<^verbatim>\<open>big.Int.Bytes\<close> are those of the absolute value; nil counts as zero.\<close>

definition big_value :: "int option \<Rightarrow> int" where
  "big_value n = (case n of None \<Rightarrow> 0 | Some i \<Rightarrow> i)"

definition uint_word :: "int option \<Rightarrow> byte list option" where
  "uint_word n = word32 (nat_bytes (nat \<bar>big_value n\<bar>))"

definition uint64_word :: "u64 \<Rightarrow> byte list option" where
  "uint64_word n = word32 (nat_bytes (unat n))"

text \<open>Appending the words in order; a panic of one ends the call.\<close>

fun append_words :: "byte list option list \<Rightarrow> byte list option" where
  "append_words [] = Some []"
| "append_words (None # ws) = None"
| "append_words (Some w # ws) = (case append_words ws of None \<Rightarrow> None | Some b \<Rightarrow> Some (w @ b))"

section \<open>Digests\<close>

definition domain_bytes :: "keccak \<Rightarrow> eip_domain \<Rightarrow> byte list option" where
  "domain_bytes K d = append_words
     [Some (hash_bytes (K (str_bytes domain_type_string))), Some (hash_bytes (K (str_bytes (dm_name d)))),
      Some (hash_bytes (K (str_bytes (dm_version d)))), uint_word (dm_chain_id d), address_word (dm_contract d)]"

definition domain_separator :: "keccak \<Rightarrow> eip_domain \<Rightarrow> u256 option" where
  "domain_separator K d = map_option K (domain_bytes K d)"

definition mint_bytes :: "keccak \<Rightarrow> mint_attestation \<Rightarrow> byte list option" where
  "mint_bytes K m = append_words
     [Some (hash_bytes (K (str_bytes mint_type_string))), address_word (ma_auditor m), bytes32_word (ma_profile_digest m),
      bytes32_word (ma_record_key m), bytes32_word (ma_metadata_digest m), uint_word (ma_amount m),
      uint_word (ma_nonce m), uint64_word (ma_valid_until m), address_word (ma_vault m)]"

definition hash_mint_attestation :: "keccak \<Rightarrow> mint_attestation \<Rightarrow> u256 option" where
  "hash_mint_attestation K m = map_option K (mint_bytes K m)"

definition burn_bytes :: "keccak \<Rightarrow> burn_attestation \<Rightarrow> byte list option" where
  "burn_bytes K b = append_words
     [Some (hash_bytes (K (str_bytes burn_type_string))), address_word (ba_auditor b), bytes32_word (ba_profile_digest b),
      bytes32_word (ba_operation_id b), bytes32_word (ba_metadata_digest b), uint_word (ba_amount b),
      uint_word (ba_nonce b), uint64_word (ba_valid_until b), address_word (ba_vault b)]"

definition hash_burn_attestation :: "keccak \<Rightarrow> burn_attestation \<Rightarrow> u256 option" where
  "hash_burn_attestation K b = map_option K (burn_bytes K b)"

definition digest_bytes :: "u256 \<Rightarrow> u256 \<Rightarrow> byte list" where
  "digest_bytes s h = [0x19, 0x01] @ hash_bytes s @ hash_bytes h"

definition eip_digest :: "keccak \<Rightarrow> u256 \<Rightarrow> u256 \<Rightarrow> u256" where
  "eip_digest K s h = K (digest_bytes s h)"

definition mint_digest :: "keccak \<Rightarrow> eip_domain \<Rightarrow> mint_attestation \<Rightarrow> u256 option" where
  "mint_digest K d m =
     (case (domain_separator K d, hash_mint_attestation K m) of
        (Some s, Some h) \<Rightarrow> Some (eip_digest K s h)
      | _ \<Rightarrow> None)"

definition burn_digest :: "keccak \<Rightarrow> eip_domain \<Rightarrow> burn_attestation \<Rightarrow> u256 option" where
  "burn_digest K d b =
     (case (domain_separator K d, hash_burn_attestation K b) of
        (Some s, Some h) \<Rightarrow> Some (eip_digest K s h)
      | _ \<Rightarrow> None)"

section \<open>Signatures\<close>

datatype recover_error = BadSignatureLength | BadRecoveryId | RecoveryFailed

text \<open>\<open>ecrecover\<close> is \<^verbatim>\<open>crypto.SigToPub\<close> followed by \<^verbatim>\<open>crypto.PubkeyToAddress\<close>.\<close>

type_synonym ecrecover = "u256 \<Rightarrow> byte list \<Rightarrow> address option"

definition normal_v :: "byte \<Rightarrow> byte" where
  "normal_v v = (if v \<ge> 27 then v - 27 else v)"

definition recover_signer :: "ecrecover \<Rightarrow> u256 \<Rightarrow> byte list \<Rightarrow> recover_error + address" where
  "recover_signer R digest signature =
     (if length signature \<noteq> 65 then Inl BadSignatureLength
      else let sig = signature[64 := normal_v (signature ! 64)] in
        if sig ! 64 \<noteq> 0 \<and> sig ! 64 \<noteq> 1 then Inl BadRecoveryId
        else case R digest sig of None \<Rightarrow> Inl RecoveryFailed | Some a \<Rightarrow> Inr a)"

text \<open>Both spellings of the recovery id recover the same signer.\<close>

lemma recover_signer_v27:
  assumes "length signature = 65" and "v < 2"
  shows "recover_signer R digest (signature[64 := v + 27]) = recover_signer R digest (signature[64 := v])"
proof -
  have "v = 0 \<or> v = 1"
  proof -
    have "unat v < 2" using assms(2) by (simp add: word_less_nat_alt)
    then have "unat v = unat (0 :: byte) \<or> unat v = unat (1 :: byte)" by (simp add: less_2_cases_iff)
    then show ?thesis by (simp only: word_unat_eq_iff)
  qed
  moreover have "normal_v 27 = 0" "normal_v 28 = 1" "normal_v 0 = 0" "normal_v 1 = 1"
    by (simp_all add: normal_v_def word_le_nat_alt)
  ultimately show ?thesis using assms(1) by (auto simp: recover_signer_def)
qed

section \<open>The encoding is injective\<close>

lemma append_words_inject:
  assumes "append_words ws = Some b" and "append_words vs = Some b" and "length ws = length vs"
    and "\<And>w. Some w \<in> set ws \<union> set vs \<Longrightarrow> length w = 32"
  shows "ws = vs"
  using assms(3) assms(1,2,4)
proof (induction ws vs arbitrary: b rule: list_induct2)
  case (Cons x xs y ys)
  obtain w c where x: "x = Some w" "append_words xs = Some c" "b = w @ c"
    using Cons.prems(1) by (cases x) (auto split: option.splits)
  obtain v d where y: "y = Some v" "append_words ys = Some d" "b = v @ d"
    using Cons.prems(2) by (cases y) (auto split: option.splits)
  have "length w = length v" using Cons.prems(3) [of w] Cons.prems(3) [of v] x(1) y(1) by simp
  then have "w = v" "c = d" using x(3) y(3) by simp_all
  then show ?case using Cons.IH [OF x(2)] y(1,2) x(1) Cons.prems(3) by simp
qed simp

lemma length_word32: "word32 b = Some w \<Longrightarrow> length w = 32"
  by (auto simp: word32_def left_pad_def split: if_splits)

lemma nat_bytes_bound: "length (nat_bytes n) \<le> k \<Longrightarrow> n < 256 ^ k"
proof (induction k arbitrary: n)
  case 0
  then show ?case by (cases "n = 0") (simp_all add: nat_bytes.simps [of n])
next
  case (Suc k)
  show ?case
  proof (cases "n = 0")
    case False
    then have "length (nat_bytes (n div 256)) \<le> k" using Suc.prems by (simp add: nat_bytes.simps [of n])
    then have "n div 256 < 256 ^ k" by (rule Suc.IH)
    then show ?thesis by (simp add: div_less_iff_less_mult mult.commute)
  qed simp
qed

lemma word32_nat_inject:
  assumes "word32 (nat_bytes n) = Some w" and "word32 (nat_bytes m) = Some w"
  shows "n = m"
proof -
  have bound: "n < 256 ^ 32" "m < 256 ^ 32"
    by (rule nat_bytes_bound, use assms in \<open>simp add: word32_def split: if_splits\<close>)+
  then have "be_bytes 32 n = w" "be_bytes 32 m = w"
    using assms left_pad_nat_bytes [OF bound(1)] left_pad_nat_bytes [OF bound(2)] by (auto simp: word32_def split: if_splits)
  then show ?thesis using be_bytes_inject [OF bound] by simp
qed

lemma address_bytes_inject: "address_bytes a = address_bytes b \<Longrightarrow> a = b"
proof -
  assume eq: "address_bytes a = address_bytes b"
  have "unat x < 256 ^ 20" for x :: address
  proof -
    have "unat x < 2 ^ LENGTH(160)" by (rule unsigned_less)
    then show ?thesis by simp
  qed
  then have "unat a = unat b" using eq unfolding address_bytes_def by (blast intro: be_bytes_inject)
  then show "a = b" by (simp add: word_unat_eq_iff)
qed

lemma address_word_inject: "address_word a = address_word b \<longleftrightarrow> a = b"
  using address_bytes_inject by (auto simp: address_word_def word32_def address_bytes_def left_pad_def)

lemma uint_word_inject:
  "uint_word n = uint_word m \<Longrightarrow> uint_word n \<noteq> None \<Longrightarrow> \<bar>big_value n\<bar> = \<bar>big_value m\<bar>"
  unfolding uint_word_def using word32_nat_inject by fastforce

lemma uint64_word_inject: "uint64_word a = uint64_word b \<Longrightarrow> uint64_word a \<noteq> None \<Longrightarrow> a = b"
  unfolding uint64_word_def using word32_nat_inject by (fastforce simp: word_unat_eq_iff)

lemma word_lengths:
  "address_word a = Some w \<Longrightarrow> length w = 32" "bytes32_word h = Some w \<Longrightarrow> length w = 32"
  "uint_word n = Some w \<Longrightarrow> length w = 32" "uint64_word k = Some w \<Longrightarrow> length w = 32"
  by (auto simp: address_word_def bytes32_word_def uint_word_def uint64_word_def dest: length_word32)

lemma append_words_some: "append_words ws = Some b \<Longrightarrow> x \<in> set ws \<Longrightarrow> \<exists>w. x = Some w"
  by (induction ws arbitrary: b rule: append_words.induct) (auto split: option.splits)

lemma str_bytes_inject [simp]: "str_bytes s = str_bytes t \<longleftrightarrow> s = t"
proof -
  have "inj (of_char :: char \<Rightarrow> byte)"
  proof (rule injI)
    fix c d :: char assume "(of_char c :: byte) = of_char d"
    then have "unat (word_of_nat (of_char c) :: byte) = unat (word_of_nat (of_char d) :: byte)" by (simp add: of_nat_of_char)
    then have "(of_char c :: nat) = of_char d"
      using nat_of_char_less_256 [of c] nat_of_char_less_256 [of d] by (simp add: unat_of_nat)
    then show "c = d" by (simp only: of_char_eq_iff)
  qed
  then show ?thesis by (simp add: str_bytes_def)
qed

definition same_domain :: "eip_domain \<Rightarrow> eip_domain \<Rightarrow> bool" where
  "same_domain d d' \<longleftrightarrow> dm_name d = dm_name d' \<and> dm_version d = dm_version d' \<and>
     \<bar>big_value (dm_chain_id d)\<bar> = \<bar>big_value (dm_chain_id d')\<bar> \<and> dm_contract d = dm_contract d'"

definition same_mint :: "mint_attestation \<Rightarrow> mint_attestation \<Rightarrow> bool" where
  "same_mint m m' \<longleftrightarrow> ma_auditor m = ma_auditor m' \<and> ma_profile_digest m = ma_profile_digest m' \<and>
     ma_record_key m = ma_record_key m' \<and> ma_metadata_digest m = ma_metadata_digest m' \<and>
     \<bar>big_value (ma_amount m)\<bar> = \<bar>big_value (ma_amount m')\<bar> \<and> \<bar>big_value (ma_nonce m)\<bar> = \<bar>big_value (ma_nonce m')\<bar> \<and>
     ma_valid_until m = ma_valid_until m' \<and> ma_vault m = ma_vault m'"

lemma encoded_words:
  assumes "append_words ws = Some b" and "append_words vs = Some b" and "length ws = length vs"
    and "\<forall>x \<in> set ws \<union> set vs. \<forall>w. x = Some w \<longrightarrow> length w = 32"
  shows "ws = vs \<and> (\<forall>x \<in> set ws. x \<noteq> None)"
  using append_words_inject [OF assms(1-3)] assms(4) append_words_some [OF assms(1)] by blast

lemma mint_bytes_inject:
  assumes "mint_bytes K m = Some b" and "mint_bytes K m' = Some b"
  shows "same_mint m m'"
proof -
  have words: "[Some (hash_bytes (K (str_bytes mint_type_string))), address_word (ma_auditor m), bytes32_word (ma_profile_digest m),
      bytes32_word (ma_record_key m), bytes32_word (ma_metadata_digest m), uint_word (ma_amount m),
      uint_word (ma_nonce m), uint64_word (ma_valid_until m), address_word (ma_vault m)] =
     [Some (hash_bytes (K (str_bytes mint_type_string))), address_word (ma_auditor m'), bytes32_word (ma_profile_digest m'),
      bytes32_word (ma_record_key m'), bytes32_word (ma_metadata_digest m'), uint_word (ma_amount m'),
      uint_word (ma_nonce m'), uint64_word (ma_valid_until m'), address_word (ma_vault m')] \<and>
     (\<forall>x \<in> {uint_word (ma_amount m), uint_word (ma_nonce m), uint64_word (ma_valid_until m)}. x \<noteq> None)"
    using encoded_words [OF assms [unfolded mint_bytes_def]] by (auto dest: word_lengths)
  then show ?thesis
    by (auto simp: same_mint_def address_word_inject bytes32_word_def intro!: uint_word_inject uint64_word_inject)
qed

lemma domain_bytes_inject:
  assumes "domain_bytes K d = Some b" and "domain_bytes K d' = Some b"
    and "inj_on K {str_bytes (dm_name d), str_bytes (dm_version d), str_bytes (dm_name d'), str_bytes (dm_version d')}"
  shows "same_domain d d'"
proof -
  have "[Some (hash_bytes (K (str_bytes domain_type_string))), Some (hash_bytes (K (str_bytes (dm_name d)))),
      Some (hash_bytes (K (str_bytes (dm_version d)))), uint_word (dm_chain_id d), address_word (dm_contract d)] =
     [Some (hash_bytes (K (str_bytes domain_type_string))), Some (hash_bytes (K (str_bytes (dm_name d')))),
      Some (hash_bytes (K (str_bytes (dm_version d')))), uint_word (dm_chain_id d'), address_word (dm_contract d')] \<and>
     (\<forall>x \<in> {uint_word (dm_chain_id d)}. x \<noteq> None)"
    using encoded_words [OF assms(1,2) [unfolded domain_bytes_def]] by (auto dest: word_lengths)
  then have words: "K (str_bytes (dm_name d)) = K (str_bytes (dm_name d'))" "K (str_bytes (dm_version d)) = K (str_bytes (dm_version d'))"
      "uint_word (dm_chain_id d) = uint_word (dm_chain_id d')" "uint_word (dm_chain_id d) \<noteq> None" "dm_contract d = dm_contract d'"
    by (simp_all add: address_word_inject del: not_None_eq) (elim conjE, simp del: not_None_eq)
  have "\<bar>big_value (dm_chain_id d)\<bar> = \<bar>big_value (dm_chain_id d')\<bar>" by (rule uint_word_inject [OF words(3,4)])
  moreover have "dm_name d = dm_name d'" "dm_version d = dm_version d'"
    using inj_onD [OF assms(3) words(1)] inj_onD [OF assms(3) words(2)] by simp_all
  ultimately show ?thesis using words(5) unfolding same_domain_def by blast
qed

lemma digest_bytes_inject: "digest_bytes s h = digest_bytes s' h' \<Longrightarrow> s = s' \<and> h = h'"
  by (simp add: digest_bytes_def)

text \<open>The byte strings that are hashed on the way to a digest.\<close>

definition domain_inputs :: "keccak \<Rightarrow> eip_domain \<Rightarrow> byte list set" where
  "domain_inputs K d = {str_bytes domain_type_string, str_bytes (dm_name d), str_bytes (dm_version d)} \<union> set_option (domain_bytes K d)"

definition mint_inputs :: "keccak \<Rightarrow> eip_domain \<Rightarrow> mint_attestation \<Rightarrow> byte list set" where
  "mint_inputs K d m = domain_inputs K d \<union> {str_bytes mint_type_string} \<union> set_option (mint_bytes K m) \<union>
     {digest_bytes s h | s h. domain_separator K d = Some s \<and> hash_mint_attestation K m = Some h}"

definition burn_inputs :: "keccak \<Rightarrow> eip_domain \<Rightarrow> burn_attestation \<Rightarrow> byte list set" where
  "burn_inputs K d b = domain_inputs K d \<union> {str_bytes burn_type_string} \<union> set_option (burn_bytes K b) \<union>
     {digest_bytes s h | s h. domain_separator K d = Some s \<and> hash_burn_attestation K b = Some h}"

lemma mint_digest_some:
  assumes "mint_digest K d m = Some x"
  obtains bd bm where "domain_bytes K d = Some bd" "mint_bytes K m = Some bm" "x = K (digest_bytes (K bd) (K bm))"
    and "{bd, bm, digest_bytes (K bd) (K bm), str_bytes mint_type_string, str_bytes (dm_name d), str_bytes (dm_version d)} \<subseteq> mint_inputs K d m"
  using assms
  by (auto simp: mint_digest_def domain_separator_def hash_mint_attestation_def eip_digest_def mint_inputs_def domain_inputs_def
      split: option.splits)

lemma burn_digest_some:
  assumes "burn_digest K d b = Some x"
  obtains bd bb where "domain_bytes K d = Some bd" "burn_bytes K b = Some bb" "x = K (digest_bytes (K bd) (K bb))"
    and "{bd, bb, digest_bytes (K bd) (K bb), str_bytes burn_type_string, str_bytes (dm_name d), str_bytes (dm_version d)} \<subseteq> burn_inputs K d b"
  using assms
  by (auto simp: burn_digest_def domain_separator_def hash_burn_attestation_def eip_digest_def burn_inputs_def domain_inputs_def
      split: option.splits)

section \<open>Properties\<close>

text \<open>
  C40: A mint digest binds its domain and its attestation: if Keccak-256 does not collide on the
  byte strings that were hashed, equal digests have equal fields. Amount, nonce and chain id are
  bound up to sign only, which the contract's unsigned types do not have.
\<close>

theorem mint_digest_binds:
  assumes "mint_digest K d m = Some x" and "mint_digest K d' m' = Some x"
    and "inj_on K (mint_inputs K d m \<union> mint_inputs K d' m')"
  shows "same_domain d d' \<and> same_mint m m'"
proof -
  obtain bd bm where a: "domain_bytes K d = Some bd" "mint_bytes K m = Some bm" "x = K (digest_bytes (K bd) (K bm))"
    and ina: "{bd, bm, digest_bytes (K bd) (K bm), str_bytes mint_type_string, str_bytes (dm_name d), str_bytes (dm_version d)} \<subseteq> mint_inputs K d m"
    using mint_digest_some [OF assms(1)] by blast
  obtain bd' bm' where b: "domain_bytes K d' = Some bd'" "mint_bytes K m' = Some bm'" "x = K (digest_bytes (K bd') (K bm'))"
    and inb: "{bd', bm', digest_bytes (K bd') (K bm'), str_bytes mint_type_string, str_bytes (dm_name d'), str_bytes (dm_version d')} \<subseteq> mint_inputs K d' m'"
    using mint_digest_some [OF assms(2)] by blast
  have inj: "K p = K q \<Longrightarrow> p = q" if "p \<in> mint_inputs K d m" "q \<in> mint_inputs K d' m'" for p q
    using assms(3) that unfolding inj_on_def by blast
  have "digest_bytes (K bd) (K bm) = digest_bytes (K bd') (K bm')"
    by (rule inj) (use ina inb a(3) b(3) in auto)
  then have "K bd = K bd'" "K bm = K bm'" by (auto dest: digest_bytes_inject)
  then have "bd = bd'" "bm = bm'" using inj ina inb by auto
  moreover have "inj_on K {str_bytes (dm_name d), str_bytes (dm_version d), str_bytes (dm_name d'), str_bytes (dm_version d')}"
    by (rule inj_on_subset [OF assms(3)]) (use ina inb in blast)
  ultimately show ?thesis using domain_bytes_inject a b mint_bytes_inject by blast
qed

text \<open>A hash that is injective on strings of distinct lengths, enough for one attestation.\<close>

definition demo_length_hash :: keccak where
  "demo_length_hash bs = word_of_nat (length bs)"

lemma inj_on_length_hash:
  assumes "inj_on length S" and "\<And>b. b \<in> S \<Longrightarrow> length b < 1000"
  shows "inj_on demo_length_hash S"
proof (rule inj_onI)
  fix a b assume ab: "a \<in> S" "b \<in> S" "demo_length_hash a = demo_length_hash b"
  have "unat (word_of_nat (length c) :: u256) = length c" if "c \<in> S" for c
    using assms(2) [OF that] by (simp add: unat_of_nat)
  then have "length a = length b" using ab by (metis demo_length_hash_def)
  then show "a = b" using assms(1) ab(1,2) by (simp add: inj_on_def)
qed

definition demo_domain :: eip_domain where
  "demo_domain = \<lparr>dm_name = ''R'', dm_version = ''12'', dm_chain_id = Some 1, dm_contract = 7\<rparr>"

definition demo_mint :: mint_attestation where
  "demo_mint = \<lparr>ma_auditor = 1, ma_profile_digest = 2, ma_record_key = 3, ma_metadata_digest = 4, ma_amount = Some 1000,
     ma_nonce = None, ma_valid_until = 9, ma_vault = 5\<rparr>"

lemma demo_mint_encodes:
  "\<exists>bd bm. domain_bytes demo_length_hash demo_domain = Some bd \<and> length bd = 160 \<and>
    mint_bytes demo_length_hash demo_mint = Some bm \<and> length bm = 288"
proof -
  have w: "\<exists>w. word32 (nat_bytes n) = Some w \<and> length w = 32" if "n < 65536" for n
  proof -
    have "length (nat_bytes n) \<le> 32"
      using that by (subst nat_bytes.simps, subst nat_bytes.simps, subst nat_bytes.simps) simp
    then show ?thesis by (simp add: word32_def left_pad_def)
  qed
  have u: "\<exists>w. uint_word (Some 1) = Some w \<and> length w = 32" "\<exists>w. uint_word (Some 1000) = Some w \<and> length w = 32"
      "\<exists>w. uint_word None = Some w \<and> length w = 32" "\<exists>w. uint64_word 9 = Some w \<and> length w = 32"
    by (simp_all add: uint_word_def uint64_word_def big_value_def w)
  have a: "\<exists>w. address_word x = Some w \<and> length w = 32" for x
    by (simp add: address_word_def word32_def address_bytes_def left_pad_def)
  show ?thesis
    using u a [of 7] a [of 1] a [of 5]
    by (auto simp: domain_bytes_def mint_bytes_def demo_domain_def demo_mint_def bytes32_word_def)
qed

corollary mint_digest_binds_witness:
  "\<exists>x. mint_digest demo_length_hash demo_domain demo_mint = Some x \<and> same_domain demo_domain demo_domain \<and> same_mint demo_mint demo_mint"
proof -
  obtain bd bm where enc: "domain_bytes demo_length_hash demo_domain = Some bd" "length bd = 160"
      "mint_bytes demo_length_hash demo_mint = Some bm" "length bm = 288"
    using demo_mint_encodes by blast
  obtain x where x: "mint_digest demo_length_hash demo_domain demo_mint = Some x"
    by (simp add: mint_digest_def domain_separator_def hash_mint_attestation_def enc)
  let ?K = demo_length_hash
  let ?all = "{str_bytes domain_type_string, str_bytes (dm_name demo_domain), str_bytes (dm_version demo_domain),
    str_bytes mint_type_string, bd, bm, digest_bytes (?K bd) (?K bm)}"
  have inputs: "mint_inputs ?K demo_domain demo_mint \<union> mint_inputs ?K demo_domain demo_mint = ?all"
    by (auto simp: mint_inputs_def domain_inputs_def enc domain_separator_def hash_mint_attestation_def)
  have lengths: "length (str_bytes domain_type_string) = 82" "length (str_bytes (dm_name demo_domain)) = 1"
      "length (str_bytes (dm_version demo_domain)) = 2" "length (str_bytes mint_type_string) = 156"
      "length (digest_bytes (?K bd) (?K bm)) = 66"
    by (simp_all add: str_bytes_def domain_type_string_def mint_type_string_def demo_domain_def digest_bytes_def)
  have "inj_on length ?all"
    unfolding inj_on_def by (intro ballI) (elim insertE emptyE; simp only: lengths enc; simp)
  moreover have "length b < 1000" if "b \<in> ?all" for b
    using that by (elim insertE emptyE) (simp_all add: lengths enc)
  ultimately have "inj_on ?K ?all" by (rule inj_on_length_hash)
  then have "inj_on ?K (mint_inputs ?K demo_domain demo_mint \<union> mint_inputs ?K demo_domain demo_mint)" unfolding inputs .
  from mint_digest_binds [OF x x this] show ?thesis using x by blast
qed

text \<open>A mint attestation is never a burn attestation, whatever the domains.\<close>

theorem mint_digest_not_burn:
  assumes "mint_digest K d m = Some x" and "inj_on K (mint_inputs K d m \<union> burn_inputs K d' b)"
  shows "burn_digest K d' b \<noteq> Some x"
proof
  assume burn: "burn_digest K d' b = Some x"
  obtain bd bm where a: "mint_bytes K m = Some bm" "x = K (digest_bytes (K bd) (K bm))"
    and ina: "{bm, digest_bytes (K bd) (K bm), str_bytes mint_type_string} \<subseteq> mint_inputs K d m"
    using mint_digest_some [OF assms(1)] by (metis insert_subset)
  obtain bd' bb where b: "burn_bytes K b = Some bb" "x = K (digest_bytes (K bd') (K bb))"
    and inb: "{bb, digest_bytes (K bd') (K bb), str_bytes burn_type_string} \<subseteq> burn_inputs K d' b"
    using burn_digest_some [OF burn] by (metis insert_subset)
  have inj: "K p = K q \<Longrightarrow> p = q" if "p \<in> mint_inputs K d m" "q \<in> burn_inputs K d' b" for p q
    using assms(2) that unfolding inj_on_def by blast
  have "digest_bytes (K bd) (K bm) = digest_bytes (K bd') (K bb)"
    by (rule inj) (use ina inb a(2) b(2) in auto)
  then have "K bm = K bb" by (auto dest: digest_bytes_inject)
  then have "bm = bb" using inj ina inb by auto
  have "take 32 bm = hash_bytes (K (str_bytes mint_type_string))" "take 32 bb = hash_bytes (K (str_bytes burn_type_string))"
    using a(1) b(1) by (auto simp: mint_bytes_def burn_bytes_def split: option.splits)
  then have "K (str_bytes mint_type_string) = K (str_bytes burn_type_string)" using \<open>bm = bb\<close> by simp
  then have "str_bytes mint_type_string = str_bytes burn_type_string" using inj ina inb by blast
  then show False by (simp add: mint_type_string_def burn_type_string_def)
qed

end
