(* ===== verification/AuditLog.thy ===== *)
theory AuditLog
  imports Stores
begin

text \<open>
  The audit trail: entries as server/internal/auditlog/auditlog.go builds them, over the memory
  repository server/internal/dal/memory/audit_log.go.
\<close>

datatype meta_value = MetaString string | MetaBool bool | MetaUint u64

type_synonym metadata = "(string, meta_value) store"

record audit_entry =
  ae_id :: string
  ae_category :: string
  ae_actor :: string
  ae_action :: string
  ae_target :: string
  ae_metadata :: metadata
  ae_created_at :: gotime

definition al_append :: "audit_entry \<Rightarrow> audit_entry list \<Rightarrow> audit_entry list" where
  "al_append v l = l @ [v]"

text \<open>The loop of \<^verbatim>\<open>List\<close>, over the entries from the last one; \<open>limit \<le> 0\<close> is no limit.\<close>

fun al_scan :: "string \<Rightarrow> int \<Rightarrow> audit_entry list \<Rightarrow> audit_entry list \<Rightarrow> audit_entry list" where
  "al_scan category limit [] acc = acc"
| "al_scan category limit (v # vs) acc =
     (if category \<noteq> [] \<and> ae_category v \<noteq> category then al_scan category limit vs acc
      else let acc = acc @ [v] in
        if limit > 0 \<and> int (length acc) \<ge> limit then acc else al_scan category limit vs acc)"

definition al_list :: "string \<Rightarrow> int \<Rightarrow> audit_entry list \<Rightarrow> audit_entry list" where
  "al_list category limit l = al_scan category limit (rev l) []"

section \<open>Entries\<close>

definition audit_record :: "string \<Rightarrow> gotime \<Rightarrow> string \<Rightarrow> string \<Rightarrow> string \<Rightarrow> string \<Rightarrow> metadata \<Rightarrow> audit_entry" where
  "audit_record i now category actor action target m =
     \<lparr>ae_id = i, ae_category = category, ae_actor = actor, ae_action = action, ae_target = target, ae_metadata = m,
      ae_created_at = now\<rparr>"

definition audit_intent :: "string \<Rightarrow> gotime \<Rightarrow> string \<Rightarrow> string \<Rightarrow> string \<Rightarrow> string \<Rightarrow> metadata \<Rightarrow> audit_entry" where
  "audit_intent i now category actor action target m =
     audit_record i now category actor action target (put ''phase'' (MetaString ''intent'') m)"

definition audit_result ::
  "string \<Rightarrow> gotime \<Rightarrow> string \<Rightarrow> string \<Rightarrow> string \<Rightarrow> string \<Rightarrow> string \<Rightarrow> bool \<Rightarrow> metadata \<Rightarrow> audit_entry" where
  "audit_result i now intent_id category actor action target ok m =
     audit_record i now category actor action target
       (put ''ok'' (MetaBool ok) (put ''intentId'' (MetaString intent_id) (put ''phase'' (MetaString ''result'') m)))"

section \<open>What a listing shows\<close>

definition in_category :: "string \<Rightarrow> audit_entry \<Rightarrow> bool" where
  "in_category category v \<longleftrightarrow> category = [] \<or> ae_category v = category"

lemma al_scan_exact:
  assumes "limit > 0 \<longrightarrow> int (length acc) < limit"
  shows "al_scan category limit vs acc =
    acc @ (let fs = filter (in_category category) vs in if limit > 0 then take (nat limit - length acc) fs else fs)"
  using assms
proof (induction vs arbitrary: acc)
  case (Cons v vs)
  show ?case
  proof (cases "in_category category v")
    case True
    show ?thesis
    proof (cases "limit > 0 \<and> int (length (acc @ [v])) \<ge> limit")
      case True2: True
      then have "nat limit - length acc = Suc 0" using Cons.prems by auto
      then show ?thesis using True True2 by (auto simp: in_category_def Let_def)
    next
      case False
      then have step: "al_scan category limit (v # vs) acc = al_scan category limit vs (acc @ [v])"
        using True by (auto simp: in_category_def Let_def)
      have "nat limit - length acc = Suc (nat limit - Suc (length acc))" if "limit > 0" using False that by auto
      then show ?thesis
        using Cons.IH [of "acc @ [v]"] False True unfolding step by (auto simp: Let_def)
    qed
  next
    case False
    then show ?thesis using Cons by (auto simp: in_category_def Let_def)
  qed
qed simp

text \<open>
  The newest entries of the category first, and of them no more than asked for.
\<close>

lemma al_list_exact:
  "al_list category limit l =
    (let fs = filter (in_category category) (rev l) in if limit > 0 then take (nat limit) fs else fs)"
  by (simp add: al_list_def al_scan_exact Let_def)

end
