(* ===== verification/Challenge.thy ===== *)
theory Challenge
  imports Eip712 KycStore AuditLog
begin

text \<open>
  Proofs of wallet ownership: server/internal/compliance/challenge.go and
  server/internal/auth/admin_challenge.go over the memory repositories wallet_challenge.go,
  admin_challenge.go and wallet_session.go, and the sessions of server/internal/auth/session.go.
  Both kinds of challenge are consumed once by a compare-and-set, the contract \<open>single_use\<close>.
\<close>

section \<open>The contract\<close>

text \<open>\<open>spent k st\<close>: the challenge \<open>k\<close> can no longer be consumed, because it was or because it is gone.\<close>

locale single_use =
  fixes spent :: "'k \<Rightarrow> 'st \<Rightarrow> bool"
    and mark :: "'k \<Rightarrow> 'st \<Rightarrow> (store_error + unit) \<times> 'st"
  assumes mark_unspent: "mark k st = (Inr (), st') \<Longrightarrow> \<not> spent k st"
    and mark_spends: "mark k st = (Inr (), st') \<Longrightarrow> spent k st'"
    and mark_keeps: "spent j st \<Longrightarrow> spent j (snd (mark k st))"
begin

lemma spent_refused: "spent k st \<Longrightarrow> fst (mark k st) \<noteq> Inr ()"
  using mark_unspent by (metis prod.collapse)

text \<open>Of any sequence of attempts, between which others keep spent what is spent, one succeeds at most.\<close>

lemma one_success:
  assumes "mark k st = (Inr (), st')" and "\<And>f s. f \<in> set others \<Longrightarrow> spent k s \<Longrightarrow> spent k (f s)"
  shows "fst (mark k (fold (\<lambda>f s. snd (mark k (f s))) others st')) \<noteq> Inr ()"
proof -
  have "spent k (fold (\<lambda>f s. snd (mark k (f s))) others s)" if "spent k s" for s
    using assms(2) that by (induction others arbitrary: s) (auto intro: mark_keeps)
  then show ?thesis using mark_spends [OF assms(1)] by (intro spent_refused)
qed

end

section \<open>Repositories\<close>

record wallet_challenge =
  wc_id :: string
  wc_address :: string
  wc_nonce :: string
  wc_message :: string
  wc_expires_at :: gotime
  wc_used :: bool
  wc_created_at :: gotime

type_synonym wallet_challenges = "(string, wallet_challenge) store"

definition wc_create :: "wallet_challenge \<Rightarrow> wallet_challenges \<Rightarrow> (store_error + unit) \<times> wallet_challenges" where
  "wc_create c st = (if lookup st (wc_id c) \<noteq> None then (Inl ErrAlreadyExists, st) else (Inr (), put (wc_id c) c st))"

definition wc_get :: "string \<Rightarrow> wallet_challenges \<Rightarrow> store_error + wallet_challenge" where
  "wc_get i st = (case lookup st i of None \<Rightarrow> Inl ErrNotFound | Some c \<Rightarrow> Inr c)"

definition wc_mark_used :: "string \<Rightarrow> wallet_challenges \<Rightarrow> (store_error + unit) \<times> wallet_challenges" where
  "wc_mark_used i st =
     (case lookup st i of
        None \<Rightarrow> (Inl ErrNotFound, st)
      | Some c \<Rightarrow> if wc_used c then (Inl ErrAlreadyExists, st) else (Inr (), put i (c\<lparr>wc_used := True\<rparr>) st))"

definition wc_count_active :: "string \<Rightarrow> gotime \<Rightarrow> wallet_challenges \<Rightarrow> nat" where
  "wc_count_active a now st =
     length (filter (\<lambda>c. wc_address c = a \<and> \<not> wc_used c \<and> wc_expires_at c > now) (vals st))"

record admin_challenge =
  ac_nonce :: string
  ac_address :: string
  ac_message :: string
  ac_expires_at :: gotime
  ac_used :: bool
  ac_created_at :: gotime

type_synonym admin_challenges = "(string, admin_challenge) store"

definition ac_insert :: "admin_challenge \<Rightarrow> admin_challenges \<Rightarrow> admin_challenges" where
  "ac_insert c st = put (ac_nonce c) c st"

definition ac_get :: "gotime \<Rightarrow> string \<Rightarrow> admin_challenges \<Rightarrow> (store_error + admin_challenge) \<times> admin_challenges" where
  "ac_get now n st =
     (case lookup st n of
        None \<Rightarrow> (Inl ErrNotFound, st)
      | Some c \<Rightarrow> if now > ac_expires_at c then (Inl ErrNotFound, AList.delete n st) else (Inr c, st))"

definition ac_mark_used :: "string \<Rightarrow> admin_challenges \<Rightarrow> (store_error + unit) \<times> admin_challenges" where
  "ac_mark_used n st =
     (case lookup st n of
        None \<Rightarrow> (Inl ErrNotFound, st)
      | Some c \<Rightarrow> if ac_used c then (Inl ErrAlreadyExists, st) else (Inr (), put n (c\<lparr>ac_used := True\<rparr>) st))"

record wallet_session =
  ws_token :: string
  ws_address :: string
  ws_expires_at :: gotime

type_synonym wallet_sessions = "(string, wallet_session) store"

definition ws_create :: "wallet_session \<Rightarrow> wallet_sessions \<Rightarrow> wallet_sessions" where
  "ws_create s st = put (ws_token s) s st"

definition ws_get :: "gotime \<Rightarrow> string \<Rightarrow> wallet_sessions \<Rightarrow> (store_error + wallet_session) \<times> wallet_sessions" where
  "ws_get now t st =
     (case lookup st t of
        None \<Rightarrow> (Inl ErrNotFound, st)
      | Some s \<Rightarrow> if now > ws_expires_at s then (Inl ErrNotFound, AList.delete t st) else (Inr s, st))"

definition ws_delete :: "string \<Rightarrow> wallet_sessions \<Rightarrow> wallet_sessions" where
  "ws_delete t st = AList.delete t st"

text \<open>Both challenge repositories meet the contract.\<close>

definition wc_spent :: "string \<Rightarrow> wallet_challenges \<Rightarrow> bool" where
  "wc_spent i st \<longleftrightarrow> (case lookup st i of None \<Rightarrow> True | Some c \<Rightarrow> wc_used c)"

definition ac_spent :: "string \<Rightarrow> admin_challenges \<Rightarrow> bool" where
  "ac_spent n st \<longleftrightarrow> (case lookup st n of None \<Rightarrow> True | Some c \<Rightarrow> ac_used c)"

interpretation wallet: single_use wc_spent wc_mark_used
  by unfold_locales (auto simp: wc_spent_def wc_mark_used_def lookup_put split: option.splits if_splits)

interpretation admin: single_use ac_spent ac_mark_used
  by unfold_locales (auto simp: ac_spent_def ac_mark_used_def lookup_put split: option.splits if_splits)

text \<open>Expiry only spends more.\<close>

lemma ac_get_keeps: "ac_spent j st \<Longrightarrow> ac_spent j (snd (ac_get now n st))"
  by (auto simp: ac_get_def ac_spent_def delete_conv' split: option.splits)

section \<open>The environment\<close>

record auth_world =
  aw_tick :: nat
  aw_wallets :: wallet_challenges
  aw_admins :: admin_challenges
  aw_sessions :: wallet_sessions
  aw_investors :: investor_store
  aw_events :: event_store
  aw_audit :: "audit_entry list"

datatype auth_error = AuthStoreError store_error | AuthRepoFault | AuthRandom | AuthInvalidAddress
  | ChallengeUsed | ChallengeExpired | AddressMismatch | TooManyActiveChallenges | SignatureRecovery recover_error

type_synonym 'a aum = "(auth_error, auth_world, 'a) act"

text \<open>
  \<open>ax_rand\<close> is \<^verbatim>\<open>crypto/rand\<close>, \<open>None\<close> for an error; \<open>ax_text_hash\<close> is go-ethereum's \<^verbatim>\<open>accounts.TextHash\<close>.
\<close>

record auth_env =
  ax_fault :: "nat \<Rightarrow> fault"
  ax_other :: "nat \<Rightarrow> auth_world \<Rightarrow> auth_world"
  ax_now :: "nat \<Rightarrow> gotime"
  ax_rand :: "nat \<Rightarrow> nat \<Rightarrow> byte list option"
  ax_is_hex_address :: "string \<Rightarrow> bool"
  ax_to_address :: "string \<Rightarrow> address"
  ax_hex :: "address \<Rightarrow> string"
  ax_text_hash :: "string \<Rightarrow> u256"
  ax_recover :: ecrecover
  ax_rfc3339 :: "gotime \<Rightarrow> string"
  ax_sha256 :: "byte list \<Rightarrow> u256"
  ax_uuid :: "nat \<Rightarrow> string"

definition auth_others :: "auth_env \<Rightarrow> auth_world \<Rightarrow> auth_world" where
  "auth_others e w = (ax_other e (aw_tick w) w)\<lparr>aw_tick := Suc (aw_tick w)\<rparr>"

definition auth_call :: "auth_env \<Rightarrow> (auth_world \<Rightarrow> (store_error + 'a) \<times> auth_world) \<Rightarrow> 'a aum" where
  "auth_call e f = (\<lambda>w.
     let u = auth_others e w in
     case ax_fault e (aw_tick w) of
       NoFault \<Rightarrow> (case f u of (Inl x, v) \<Rightarrow> (Inl (AuthStoreError x), v) | (Inr y, v) \<Rightarrow> (Inr y, v))
     | FaultBefore \<Rightarrow> (Inl AuthRepoFault, u)
     | FaultAfter \<Rightarrow> (Inl AuthRepoFault, snd (f u)))"

definition auth_get :: "auth_env \<Rightarrow> (auth_world \<Rightarrow> store_error + 'a) \<Rightarrow> 'a aum" where
  "auth_get e f = auth_call e (\<lambda>w. (f w, w))"

definition on_wallets :: "(wallet_challenges \<Rightarrow> (store_error + 'a) \<times> wallet_challenges) \<Rightarrow> auth_world \<Rightarrow> (store_error + 'a) \<times> auth_world" where
  "on_wallets f w = (case f (aw_wallets w) of (r, st) \<Rightarrow> (r, w\<lparr>aw_wallets := st\<rparr>))"

definition on_admins :: "(admin_challenges \<Rightarrow> (store_error + 'a) \<times> admin_challenges) \<Rightarrow> auth_world \<Rightarrow> (store_error + 'a) \<times> auth_world" where
  "on_admins f w = (case f (aw_admins w) of (r, st) \<Rightarrow> (r, w\<lparr>aw_admins := st\<rparr>))"

definition on_sessions :: "(wallet_sessions \<Rightarrow> (store_error + 'a) \<times> wallet_sessions) \<Rightarrow> auth_world \<Rightarrow> (store_error + 'a) \<times> auth_world" where
  "on_sessions f w = (case f (aw_sessions w) of (r, st) \<Rightarrow> (r, w\<lparr>aw_sessions := st\<rparr>))"

definition auth_now :: "auth_env \<Rightarrow> gotime aum" where
  "auth_now e = getM (\<lambda>w. ax_now e (aw_tick w))"

definition rand_hex :: "auth_env \<Rightarrow> nat \<Rightarrow> string aum" where
  "rand_hex e n = (\<lambda>w. case ax_rand e n (aw_tick w) of None \<Rightarrow> (Inl AuthRandom, w) | Some bs \<Rightarrow> (Inr (hex_bytes bs), w))"

text \<open>\<^verbatim>\<open>common.HexToAddress(s).Hex()\<close>.\<close>

definition normalized :: "auth_env \<Rightarrow> string \<Rightarrow> string" where
  "normalized e s = ax_hex e (ax_to_address e s)"

text \<open>\<^verbatim>\<open>errors.Is(err, ErrAlreadyExists)\<close> and \<^verbatim>\<open>errors.Is(err, ErrNotFound)\<close>, mapped to another error.\<close>

definition map_error :: "store_error \<Rightarrow> auth_error \<Rightarrow> 'a aum \<Rightarrow> 'a aum" where
  "map_error x y m = (\<lambda>w. case m w of (Inl z, v) \<Rightarrow> (Inl (if z = AuthStoreError x then y else z), v) | (Inr r, v) \<Rightarrow> (Inr r, v))"

section \<open>Wallet challenges\<close>

record challenge_service =
  cs_ttl :: gotime
  cs_domain :: string
  cs_max_active :: int

definition challenge_message :: "auth_env \<Rightarrow> challenge_service \<Rightarrow> string \<Rightarrow> string \<Rightarrow> gotime \<Rightarrow> gotime \<Rightarrow> string" where
  "challenge_message e s a nonce now expires =
     cs_domain s @ '' wants you to prove ownership of this wallet.'' @ [CHR 0x0A] @ ''Address: '' @ a @ [CHR 0x0A] @
     ''Nonce: '' @ nonce @ [CHR 0x0A] @ ''Issued At: '' @ ax_rfc3339 e now @ [CHR 0x0A] @
     ''Expires At: '' @ ax_rfc3339 e expires"

definition check_active :: "auth_env \<Rightarrow> challenge_service \<Rightarrow> string \<Rightarrow> unit aum" where
  "check_active e s a =
     (if cs_max_active s > 0
      then bindM (auth_now e) (\<lambda>now.
        bindM (auth_get e (\<lambda>w. Inr (wc_count_active (normalized e a) now (aw_wallets w)))) (\<lambda>active.
        guardM (\<not> int active \<ge> cs_max_active s) TooManyActiveChallenges))
      else ret ())"

definition challenge_create :: "auth_env \<Rightarrow> challenge_service \<Rightarrow> string \<Rightarrow> wallet_challenge aum" where
  "challenge_create e s a =
     bindM (guardM (ax_is_hex_address e a) AuthInvalidAddress) (\<lambda>_.
     bindM (check_active e s a) (\<lambda>_.
     bindM (rand_hex e 16) (\<lambda>nonce.
     bindM (auth_now e) (\<lambda>now.
     let c = \<lparr>wc_id = nonce, wc_address = normalized e a, wc_nonce = nonce,
       wc_message = challenge_message e s (normalized e a) nonce now (now + cs_ttl s),
       wc_expires_at = now + cs_ttl s, wc_used = False, wc_created_at = now\<rparr>
     in bindM (auth_call e (on_wallets (wc_create c))) (\<lambda>_. ret c)))))"

definition recover_text :: "auth_env \<Rightarrow> string \<Rightarrow> byte list \<Rightarrow> address aum" where
  "recover_text e message signature =
     (case recover_signer (ax_recover e) (ax_text_hash e message) signature of
        Inl x \<Rightarrow> raise (SignatureRecovery x)
      | Inr a \<Rightarrow> ret a)"

definition challenge_verify :: "auth_env \<Rightarrow> string \<Rightarrow> byte list \<Rightarrow> address aum" where
  "challenge_verify e nonce signature =
     bindM (auth_get e (\<lambda>w. wc_get nonce (aw_wallets w))) (\<lambda>c.
     bindM (guardM (\<not> wc_used c) ChallengeUsed) (\<lambda>_.
     bindM (auth_now e) (\<lambda>now.
     bindM (guardM (\<not> now > wc_expires_at c) ChallengeExpired) (\<lambda>_.
     bindM (recover_text e (wc_message c) signature) (\<lambda>recovered.
     bindM (guardM (equal_fold (ax_hex e recovered) (wc_address c)) AddressMismatch) (\<lambda>_.
     bindM (map_error ErrAlreadyExists ChallengeUsed (auth_call e (on_wallets (wc_mark_used (wc_id c))))) (\<lambda>_.
     ret recovered)))))))"

section \<open>Admin challenges\<close>

record admin_challenge_service =
  as_ttl :: gotime
  as_domain :: string

definition admin_message :: "auth_env \<Rightarrow> admin_challenge_service \<Rightarrow> string \<Rightarrow> string \<Rightarrow> gotime \<Rightarrow> gotime \<Rightarrow> string" where
  "admin_message e s a nonce now expires =
     as_domain s @ '' admin login.'' @ [CHR 0x0A] @ ''Sign this message to authenticate as the platform admin.'' @ [CHR 0x0A] @
     ''Address: '' @ a @ [CHR 0x0A] @ ''Nonce: '' @ nonce @ [CHR 0x0A] @ ''Issued At: '' @ ax_rfc3339 e now @ [CHR 0x0A] @
     ''Expires At: '' @ ax_rfc3339 e expires"

definition admin_create :: "auth_env \<Rightarrow> admin_challenge_service \<Rightarrow> string \<Rightarrow> (string \<times> string \<times> gotime) aum" where
  "admin_create e s a =
     bindM (guardM (ax_is_hex_address e a) AuthInvalidAddress) (\<lambda>_.
     bindM (rand_hex e 16) (\<lambda>nonce.
     bindM (auth_now e) (\<lambda>now.
     let expires = now + as_ttl s;
         message = admin_message e s (normalized e a) nonce now expires;
         c = \<lparr>ac_nonce = nonce, ac_address = normalized e a, ac_message = message, ac_expires_at = expires,
           ac_used = False, ac_created_at = now\<rparr>
     in bindM (auth_call e (on_admins (\<lambda>st. (Inr (), ac_insert c st)))) (\<lambda>_. ret (nonce, message, expires)))))"

text \<open>The repository reads the clock itself when it looks a challenge up.\<close>

definition admin_verify :: "auth_env \<Rightarrow> string \<Rightarrow> string \<Rightarrow> byte list \<Rightarrow> address aum" where
  "admin_verify e a nonce signature =
     bindM (guardM (ax_is_hex_address e a) AuthInvalidAddress) (\<lambda>_.
     bindM (map_error ErrNotFound ChallengeExpired (auth_call e (\<lambda>w. on_admins (ac_get (ax_now e (aw_tick w)) nonce) w))) (\<lambda>c.
     bindM (guardM (ac_address c = normalized e a) AddressMismatch) (\<lambda>_.
     bindM (guardM (\<not> ac_used c) ChallengeUsed) (\<lambda>_.
     bindM (recover_text e (ac_message c) signature) (\<lambda>recovered.
     bindM (guardM (equal_fold (ax_hex e recovered) (ac_address c)) AddressMismatch) (\<lambda>_.
     bindM (map_error ErrAlreadyExists ChallengeUsed (auth_call e (on_admins (ac_mark_used nonce)))) (\<lambda>_.
     ret recovered)))))))"

section \<open>Sessions\<close>

definition hash_session_token :: "auth_env \<Rightarrow> string \<Rightarrow> string" where
  "hash_session_token e token = hex_bytes (hash_bytes (ax_sha256 e (str_bytes token)))"

definition session_issue :: "auth_env \<Rightarrow> gotime \<Rightarrow> string \<Rightarrow> (string \<times> gotime) aum" where
  "session_issue e ttl a =
     bindM (rand_hex e 32) (\<lambda>token.
     bindM (auth_now e) (\<lambda>now.
     let expires = now + ttl
     in bindM (auth_call e (on_sessions (\<lambda>st. (Inr (), ws_create
          \<lparr>ws_token = hash_session_token e token, ws_address = a, ws_expires_at = expires\<rparr> st)))) (\<lambda>_.
        ret (token, expires))))"

definition session_validate :: "auth_env \<Rightarrow> string \<Rightarrow> string option aum" where
  "session_validate e token =
     bindM (tryM (auth_call e (\<lambda>w. on_sessions (ws_get (ax_now e (aw_tick w)) (hash_session_token e token)) w))) (\<lambda>r.
     ret (case r of Inl _ \<Rightarrow> None | Inr s \<Rightarrow> Some (ws_address s)))"


section \<open>Runs\<close>

lemma auth_call_success:
  "auth_call e f w = (Inr y, v) \<Longrightarrow> f (auth_others e w) = (Inr y, v)"
  by (auto simp: auth_call_def Let_def split: fault.splits prod.splits sum.splits)

lemma map_error_success: "map_error x z m w = (Inr y, v) \<Longrightarrow> m w = (Inr y, v)"
  by (auto simp: map_error_def split: prod.splits sum.splits)

lemma guard_success: "guardM b x w = (Inr y, v) \<Longrightarrow> b \<and> v = w"
  by (auto simp: guardM_def ret_def raise_def split: if_splits)

lemma recover_text_success:
  "recover_text e message signature w = (Inr a, v) \<Longrightarrow>
    recover_signer (ax_recover e) (ax_text_hash e message) signature = Inr a \<and> v = w"
  by (auto simp: recover_text_def ret_def raise_def split: sum.splits)

lemma challenge_verify_run:
  assumes "challenge_verify e nonce signature w = (Inr a, w')"
  obtains c where "lookup (aw_wallets (auth_others e w)) nonce = Some c" "\<not> wc_used c"
    "ax_now e (Suc (aw_tick w)) \<le> wc_expires_at c"
    "recover_signer (ax_recover e) (ax_text_hash e (wc_message c)) signature = Inr a"
    "equal_fold (ax_hex e a) (wc_address c)"
    "wc_mark_used (wc_id c) (aw_wallets (auth_others e (auth_others e w))) = (Inr (), aw_wallets w')"
proof -
  from assms show thesis
    unfolding challenge_verify_def
  proof (elim bindM_InrE)
    fix c u1 x2 u2 now u3 x4 u4 b u5 x6 u6 x7 u7
    assume run: "auth_get e (\<lambda>w. wc_get nonce (aw_wallets w)) w = (Inr c, u1)" "guardM (\<not> wc_used c) ChallengeUsed u1 = (Inr x2, u2)"
      "auth_now e u2 = (Inr now, u3)" "guardM (\<not> now > wc_expires_at c) ChallengeExpired u3 = (Inr x4, u4)"
      "recover_text e (wc_message c) signature u4 = (Inr b, u5)" "guardM (equal_fold (ax_hex e b) (wc_address c)) AddressMismatch u5 = (Inr x6, u6)"
      "map_error ErrAlreadyExists ChallengeUsed (auth_call e (on_wallets (wc_mark_used (wc_id c)))) u6 = (Inr x7, u7)"
      "ret b u7 = (Inr a, w')"
    have get: "wc_get nonce (aw_wallets (auth_others e w)) = Inr c" "u1 = auth_others e w"
      using auth_call_success [OF run(1) [unfolded auth_get_def]] by auto
    note steps = guard_success [OF run(2)] guard_success [OF run(4)] recover_text_success [OF run(5)] guard_success [OF run(6)]
    have now: "u3 = u2" "now = ax_now e (aw_tick u2)" using run(3) by (auto simp: auth_now_def getM_def)
    have mark: "on_wallets (wc_mark_used (wc_id c)) (auth_others e u6) = (Inr (), w')"
      using auth_call_success [OF map_error_success [OF run(7)]] run(8) by (simp add: ret_def)
    have u6: "u6 = auth_others e w" using get(2) steps now(1) by simp
    show thesis
    proof (rule that [of c])
      show "lookup (aw_wallets (auth_others e w)) nonce = Some c" using get(1) by (simp add: wc_get_def split: option.splits)
      show "ax_now e (Suc (aw_tick w)) \<le> wc_expires_at c"
        using steps now get(2) by (simp add: auth_others_def)
      show "wc_mark_used (wc_id c) (aw_wallets (auth_others e (auth_others e w))) = (Inr (), aw_wallets w')"
        using mark u6 by (auto simp: on_wallets_def split: prod.splits)
    qed (use steps run(8) in \<open>simp_all add: ret_def\<close>)
  qed
qed

lemma admin_verify_run:
  assumes "admin_verify e addr nonce signature w = (Inr a, w')"
  obtains c where "lookup (aw_admins (auth_others e w)) nonce = Some c" "\<not> ac_used c"
    "ax_now e (Suc (aw_tick w)) \<le> ac_expires_at c" "ac_address c = normalized e addr"
    "recover_signer (ax_recover e) (ax_text_hash e (ac_message c)) signature = Inr a"
    "equal_fold (ax_hex e a) (ac_address c)"
    "ac_mark_used nonce (aw_admins (auth_others e (auth_others e w))) = (Inr (), aw_admins w')"
proof -
  from assms show thesis
    unfolding admin_verify_def
  proof (elim bindM_InrE)
    fix x0 u0 c u1 x2 u2 x3 u3 b u5 x6 u6 x7 u7
    assume run: "guardM (ax_is_hex_address e addr) AuthInvalidAddress w = (Inr x0, u0)"
      "map_error ErrNotFound ChallengeExpired (auth_call e (\<lambda>w. on_admins (ac_get (ax_now e (aw_tick w)) nonce) w)) u0 = (Inr c, u1)"
      "guardM (ac_address c = normalized e addr) AddressMismatch u1 = (Inr x2, u2)" "guardM (\<not> ac_used c) ChallengeUsed u2 = (Inr x3, u3)"
      "recover_text e (ac_message c) signature u3 = (Inr b, u5)" "guardM (equal_fold (ax_hex e b) (ac_address c)) AddressMismatch u5 = (Inr x6, u6)"
      "map_error ErrAlreadyExists ChallengeUsed (auth_call e (on_admins (ac_mark_used nonce))) u6 = (Inr x7, u7)"
      "ret b u7 = (Inr a, w')"
    note steps = guard_success [OF run(1)] guard_success [OF run(3)] guard_success [OF run(4)] recover_text_success [OF run(5)] guard_success [OF run(6)]
    have "on_admins (ac_get (ax_now e (aw_tick (auth_others e w))) nonce) (auth_others e w) = (Inr c, u1)"
      using auth_call_success [OF map_error_success [OF run(2)]] steps by simp
    then have get: "lookup (aw_admins (auth_others e w)) nonce = Some c" "ax_now e (Suc (aw_tick w)) \<le> ac_expires_at c"
        "u1 = auth_others e w"
      by (auto simp: on_admins_def ac_get_def auth_others_def split: prod.splits option.splits if_splits)
    have mark: "on_admins (ac_mark_used nonce) (auth_others e u6) = (Inr (), w')"
      using auth_call_success [OF map_error_success [OF run(7)]] run(8) by (simp add: ret_def)
    have u6: "u6 = auth_others e w" using get(3) steps by simp
    show thesis
    proof (rule that [of c])
      show "ac_mark_used nonce (aw_admins (auth_others e (auth_others e w))) = (Inr (), aw_admins w')"
        using mark u6 by (auto simp: on_admins_def split: prod.splits)
    qed (use get steps run(8) in \<open>simp_all add: ret_def\<close>)
  qed
qed


section \<open>Properties\<close>

text \<open>
  Whatever the others do, a spent challenge stays spent: they consume and expire challenges and
  create new ones, under nonces of their own.
\<close>

definition wallets_ok :: "auth_world \<Rightarrow> bool" where
  "wallets_ok w \<longleftrightarrow> wf_store wc_id (aw_wallets w)"

definition wallet_rely :: "auth_env \<Rightarrow> string \<Rightarrow> bool" where
  "wallet_rely e k \<longleftrightarrow> (\<forall>n w. wallets_ok w \<longrightarrow> wallets_ok (ax_other e n w) \<and>
     (wc_spent k (aw_wallets w) \<longrightarrow> wc_spent k (aw_wallets (ax_other e n w))))"

definition admin_rely :: "auth_env \<Rightarrow> string \<Rightarrow> bool" where
  "admin_rely e k \<longleftrightarrow> (\<forall>n w. ac_spent k (aw_admins w) \<longrightarrow> ac_spent k (aw_admins (ax_other e n w)))"

lemma wallet_rely_others:
  assumes "wallet_rely e k" and "wallets_ok w"
  shows "wallets_ok (auth_others e w)" and "wc_spent k (aw_wallets w) \<Longrightarrow> wc_spent k (aw_wallets (auth_others e w))"
  using assms by (auto simp: wallet_rely_def auth_others_def wallets_ok_def)

lemma admin_rely_others:
  "admin_rely e k \<Longrightarrow> ac_spent k (aw_admins w) \<Longrightarrow> ac_spent k (aw_admins (auth_others e w))"
  by (auto simp: admin_rely_def auth_others_def)

text \<open>One process, one wallet, whose signature is any that has 65 bytes.\<close>

definition demo_auth :: auth_env where
  "demo_auth = \<lparr>ax_fault = \<lambda>_. NoFault, ax_other = \<lambda>_ w. w, ax_now = \<lambda>n. int n, ax_rand = \<lambda>k _. Some (replicate k 1),
     ax_is_hex_address = \<lambda>_. True, ax_to_address = \<lambda>_. 7, ax_hex = \<lambda>_. ''a'', ax_text_hash = \<lambda>_. 0,
     ax_recover = \<lambda>_ _. Some 7, ax_rfc3339 = \<lambda>_. ''t'', ax_sha256 = \<lambda>bs. word_of_nat (length bs),
     ax_uuid = \<lambda>n. replicate n CHR ''u''\<rparr>"

definition demo_auth_world :: auth_world where
  "demo_auth_world = \<lparr>aw_tick = 0,
     aw_wallets = [(''n'', \<lparr>wc_id = ''n'', wc_address = ''a'', wc_nonce = ''n'', wc_message = ''m'', wc_expires_at = 9, wc_used = False, wc_created_at = 0\<rparr>)],
     aw_admins = [(''n'', \<lparr>ac_nonce = ''n'', ac_address = ''a'', ac_message = ''m'', ac_expires_at = 9, ac_used = False, ac_created_at = 0\<rparr>)],
     aw_sessions = [], aw_investors = [], aw_events = [], aw_audit = []\<rparr>"

definition demo_signature :: "byte list" where
  "demo_signature = replicate 65 0"

lemma demo_auth_relies: "wallet_rely demo_auth k" "admin_rely demo_auth k"
  by (simp_all add: wallet_rely_def admin_rely_def demo_auth_def)

lemma demo_signature_recovers: "recover_signer (ax_recover demo_auth) h demo_signature = Inr 7"
  by (simp add: recover_signer_def demo_signature_def normal_v_def demo_auth_def nth_replicate word_le_nat_alt)

lemma demo_wallet_verified: "\<exists>w. challenge_verify demo_auth ''n'' demo_signature demo_auth_world = (Inr 7, w) \<and> wallets_ok w"
  by (simp add: challenge_verify_def recover_text_def demo_signature_recovers)
    (simp add: demo_auth_def demo_auth_world_def monad_defs auth_get_def auth_call_def auth_others_def Let_def wc_get_def auth_now_def
      on_wallets_def wc_mark_used_def map_error_def wallets_ok_def wf_store_def)

lemma demo_admin_verified: "\<exists>w. admin_verify demo_auth ''0xa'' ''n'' demo_signature demo_auth_world = (Inr 7, w)"
  by (simp add: admin_verify_def recover_text_def demo_signature_recovers)
    (simp add: demo_auth_def demo_auth_world_def monad_defs auth_call_def auth_others_def Let_def ac_get_def
      on_admins_def ac_mark_used_def map_error_def normalized_def)

text \<open>
  C37: A wallet challenge proves one ownership. A verification succeeds only for a signature over
  the stored message, unexpired when the clock is read, by the wallet the message names; and
  once it has, no verification of that nonce succeeds again, in this process or another, however
  their steps interleave.
\<close>

theorem challenge_single_use:
  assumes "wallet_rely e nonce" and "wallets_ok w" and "challenge_verify e nonce signature w = (Inr a, w1)"
    and "wc_spent nonce (aw_wallets w1) \<Longrightarrow> wc_spent nonce (aw_wallets w2)"
    and "wallet_rely e' nonce" and "wallets_ok w2"
  shows "(\<exists>c. lookup (aw_wallets (auth_others e w)) nonce = Some c \<and> ax_now e (Suc (aw_tick w)) \<le> wc_expires_at c \<and>
      recover_signer (ax_recover e) (ax_text_hash e (wc_message c)) signature = Inr a \<and> equal_fold (ax_hex e a) (wc_address c)) \<and>
    fst (challenge_verify e' nonce signature' w2) \<noteq> Inr a'"
proof -
  obtain c where c: "lookup (aw_wallets (auth_others e w)) nonce = Some c" "ax_now e (Suc (aw_tick w)) \<le> wc_expires_at c"
      "recover_signer (ax_recover e) (ax_text_hash e (wc_message c)) signature = Inr a" "equal_fold (ax_hex e a) (wc_address c)"
    and mark: "wc_mark_used (wc_id c) (aw_wallets (auth_others e (auth_others e w))) = (Inr (), aw_wallets w1)"
    using challenge_verify_run [OF assms(3)] by blast
  have id: "wc_id d = nonce" if "lookup (aw_wallets (auth_others e w)) nonce = Some d" "wallet_rely e nonce" "wallets_ok w" for e w d
    using wallet_rely_others(1) [OF that(2,3)] wf_store_lookup [OF _ that(1)] by (simp add: wallets_ok_def)
  have spent: "wc_spent nonce (aw_wallets w2)"
    using wallet.mark_spends [OF mark] id [OF c(1) assms(1,2)] assms(4) by simp
  have "fst (challenge_verify e' nonce signature' w2) \<noteq> Inr a'"
  proof
    assume again: "fst (challenge_verify e' nonce signature' w2) = Inr a'"
    then obtain w3 where run: "challenge_verify e' nonce signature' w2 = (Inr a', w3)"
      by (cases "challenge_verify e' nonce signature' w2") simp
    obtain d where d: "lookup (aw_wallets (auth_others e' w2)) nonce = Some d"
      and mark2: "wc_mark_used (wc_id d) (aw_wallets (auth_others e' (auth_others e' w2))) = (Inr (), aw_wallets w3)"
      using challenge_verify_run [OF run] by blast
    have "wc_spent nonce (aw_wallets (auth_others e' (auth_others e' w2)))"
      using wallet_rely_others [OF assms(5)] assms(6) spent by blast
    then show False using wallet.mark_unspent [OF mark2] id [OF d assms(5,6)] by simp
  qed
  then show ?thesis using c by blast
qed

corollary challenge_single_use_witness:
  "\<exists>w. challenge_verify demo_auth ''n'' demo_signature demo_auth_world = (Inr 7, w) \<and>
    fst (challenge_verify demo_auth ''n'' demo_signature w) \<noteq> Inr 7"
proof -
  obtain w where w: "challenge_verify demo_auth ''n'' demo_signature demo_auth_world = (Inr 7, w)" "wallets_ok w"
    using demo_wallet_verified by blast
  have "wallets_ok demo_auth_world" by (simp add: wallets_ok_def demo_auth_world_def wf_store_def)
  from challenge_single_use [OF demo_auth_relies(1) this w(1) _ demo_auth_relies(1) w(2)] w(1) show ?thesis by blast
qed

text \<open>
  An admin login is one signature. A login succeeds only with an unexpired challenge issued
  to the address that asks, signed by that address, and once it has, its nonce admits no other.
\<close>

theorem admin_single_use:
  assumes "admin_rely e nonce" and "admin_verify e addr nonce signature w = (Inr a, w1)"
    and "ac_spent nonce (aw_admins w1) \<Longrightarrow> ac_spent nonce (aw_admins w2)" and "admin_rely e' nonce"
  shows "(\<exists>c. lookup (aw_admins (auth_others e w)) nonce = Some c \<and> ax_now e (Suc (aw_tick w)) \<le> ac_expires_at c \<and>
      ac_address c = normalized e addr \<and> equal_fold (ax_hex e a) (normalized e addr) \<and>
      recover_signer (ax_recover e) (ax_text_hash e (ac_message c)) signature = Inr a) \<and>
    fst (admin_verify e' addr' nonce signature' w2) \<noteq> Inr a'"
proof -
  obtain c where c: "lookup (aw_admins (auth_others e w)) nonce = Some c" "ax_now e (Suc (aw_tick w)) \<le> ac_expires_at c"
      "ac_address c = normalized e addr" "equal_fold (ax_hex e a) (ac_address c)"
      "recover_signer (ax_recover e) (ax_text_hash e (ac_message c)) signature = Inr a"
    and mark: "ac_mark_used nonce (aw_admins (auth_others e (auth_others e w))) = (Inr (), aw_admins w1)"
    using admin_verify_run [OF assms(2)] by blast
  have "ac_spent nonce (aw_admins w2)" using admin.mark_spends [OF mark] by (rule assms(3))
  then have spent: "ac_spent nonce (aw_admins (auth_others e' (auth_others e' w2)))"
    using admin_rely_others [OF assms(4)] by blast
  have "fst (admin_verify e' addr' nonce signature' w2) \<noteq> Inr a'"
  proof
    assume "fst (admin_verify e' addr' nonce signature' w2) = Inr a'"
    then obtain w3 where run: "admin_verify e' addr' nonce signature' w2 = (Inr a', w3)"
      by (cases "admin_verify e' addr' nonce signature' w2") simp
    have "ac_mark_used nonce (aw_admins (auth_others e' (auth_others e' w2))) = (Inr (), aw_admins w3)"
      using admin_verify_run [OF run] by blast
    then show False using admin.mark_unspent spent by blast
  qed
  then show ?thesis using c by auto
qed

corollary admin_single_use_witness:
  "\<exists>w. admin_verify demo_auth ''0xa'' ''n'' demo_signature demo_auth_world = (Inr 7, w) \<and>
    fst (admin_verify demo_auth ''0xa'' ''n'' demo_signature w) \<noteq> Inr 7"
proof -
  obtain w where w: "admin_verify demo_auth ''0xa'' ''n'' demo_signature demo_auth_world = (Inr 7, w)"
    using demo_admin_verified by blast
  from admin_single_use [OF demo_auth_relies(2) w _ demo_auth_relies(2)] w show ?thesis by blast
qed

text \<open>A session answers for its wallet until it expires, and not at all after.\<close>

lemma session_validate_run:
  assumes "\<And>n. ax_fault e n = NoFault" and "\<And>n w. ax_other e n w = w"
    and "lookup (aw_sessions w) (hash_session_token e token) = Some s"
  shows "fst (session_validate e token w) =
    Inr (if ax_now e (Suc (aw_tick w)) > ws_expires_at s then None else Some (ws_address s))"
  using assms
  by (simp add: session_validate_def monad_defs auth_call_def auth_others_def Let_def on_sessions_def ws_get_def)

end
