(* ===== verification/Ownership.thy ===== *)
theory Ownership
  imports Challenge
begin

text \<open>
  Investors: server/internal/compliance/challenge.go records a proved ownership and
  server/internal/compliance/projector.go rebuilds the statuses from the indexed StatusChanged
  events. Both write the same rows, each meaning to keep the other's fields.
\<close>

section \<open>Recording ownership\<close>

text \<open>\<^verbatim>\<open>x, err := m\<close> with \<^verbatim>\<open>ErrNotFound\<close> apart from the other errors.\<close>

definition found :: "'a aum \<Rightarrow> 'a option aum" where
  "found m = bindM (tryM m) (\<lambda>r.
     case r of
       Inr y \<Rightarrow> ret (Some y)
     | Inl x \<Rightarrow> if x = AuthStoreError ErrNotFound then ret None else raise x)"

definition upsert_investor :: "auth_env \<Rightarrow> investor \<Rightarrow> unit aum" where
  "upsert_investor e v = auth_call e (\<lambda>w. (Inr (), w\<lparr>aw_investors := iv_upsert v (aw_investors w)\<rparr>))"

definition get_investor :: "auth_env \<Rightarrow> string \<Rightarrow> investor option aum" where
  "get_investor e a = found (auth_get e (\<lambda>w. iv_get a (aw_investors w)))"

definition new_investor :: "string \<Rightarrow> gotime \<Rightarrow> investor" where
  "new_investor a now = \<lparr>iv_address = a, iv_status = ComplianceUnknown, iv_valid_until = 0, iv_ownership_verified = False,
     iv_created_at = now, iv_updated_at = 0\<rparr>"

definition record_ownership :: "auth_env \<Rightarrow> string \<Rightarrow> investor aum" where
  "record_ownership e a =
     bindM (auth_now e) (\<lambda>now.
     bindM (get_investor e a) (\<lambda>r.
     let v = (case r of Some v \<Rightarrow> v | None \<Rightarrow> new_investor a now)\<lparr>iv_ownership_verified := True, iv_updated_at := now\<rparr>
     in bindM (upsert_investor e v) (\<lambda>_. ret v)))"

definition verify_ownership :: "auth_env \<Rightarrow> string \<Rightarrow> string \<Rightarrow> byte list \<Rightarrow> investor aum" where
  "verify_ownership e a nonce signature =
     bindM (challenge_verify e nonce signature) (\<lambda>recovered.
     bindM (guardM (equal_fold (ax_hex e recovered) a) AddressMismatch) (\<lambda>_.
     record_ownership e (ax_hex e recovered)))"

section \<open>Statuses from events\<close>

definition status_names :: "byte \<Rightarrow> compliance_status option" where
  "status_names n =
     (if n = 0 then Some ComplianceUnknown
      else if n = 1 then Some ComplianceAllowed
      else if n = 2 then Some ComplianceBlocked
      else None)"

definition in_byte :: "int \<Rightarrow> byte" where
  "in_byte n = (if n < 0 \<or> n > 255 then 0 else word_of_int n)"

definition to_uint8 :: "event_value \<Rightarrow> byte" where
  "to_uint8 v =
     (case v of
        VUint8 b \<Rightarrow> b
      | VInt32 n \<Rightarrow> in_byte n
      | VInt n \<Rightarrow> in_byte n
      | VInt64 n \<Rightarrow> in_byte n
      | VUint64 n \<Rightarrow> if n > 255 then 0 else in_byte (uint n)
      | VFloat64 n \<Rightarrow> if n < 0 \<or> n > 255 then 0 else in_byte n
      | _ \<Rightarrow> 0)"

text \<open>The \<^verbatim>\<open>toInt64\<close> of this package, which parses no strings.\<close>

definition status_int64 :: "event_value \<Rightarrow> int" where
  "status_int64 v =
     (case v of
        VUint64 n \<Rightarrow> wrap64 (uint n)
      | VInt64 n \<Rightarrow> n
      | VInt32 n \<Rightarrow> n
      | VInt n \<Rightarrow> n
      | VFloat64 n \<Rightarrow> wrap64 n
      | _ \<Rightarrow> 0)"

record chain_status =
  ch_status :: compliance_status
  ch_valid_until :: int

definition event_status :: "chain_event \<Rightarrow> chain_status" where
  "event_status v =
     \<lparr>ch_status = (case status_names (to_uint8 (ev_field v ''newStatus'')) of None \<Rightarrow> ComplianceUnknown | Some s \<Rightarrow> s),
      ch_valid_until = status_int64 (ev_field v ''newValidUntil'')\<rparr>"

definition status_step :: "chain_event \<Rightarrow> (string, chain_status) store \<Rightarrow> (string, chain_status) store" where
  "status_step v states =
     (if ev_name v \<noteq> ''StatusChanged'' then states
      else let account = str_field v ''account'' in
        if account = [] then states else put account (event_status v) states)"

definition build_statuses :: "chain_event list \<Rightarrow> (string, chain_status) store" where
  "build_statuses events = fold status_step (replay_order events) []"

section \<open>Rebuilding the investors\<close>

definition apply_status :: "auth_env \<Rightarrow> gotime \<Rightarrow> string \<times> chain_status \<Rightarrow> unit aum" where
  "apply_status e now p =
     (case p of (account, s) \<Rightarrow>
        bindM (get_investor e account) (\<lambda>existing.
        upsert_investor e
          \<lparr>iv_address = account, iv_status = ch_status s, iv_valid_until = ch_valid_until s,
           iv_ownership_verified = (case existing of None \<Rightarrow> False | Some v \<Rightarrow> iv_ownership_verified v),
           iv_created_at = (case existing of None \<Rightarrow> now | Some v \<Rightarrow> iv_created_at v), iv_updated_at = now\<rparr>))"

definition reset_status :: "auth_env \<Rightarrow> gotime \<Rightarrow> (string, chain_status) store \<Rightarrow> investor \<Rightarrow> unit aum" where
  "reset_status e now states v =
     (if lookup states (iv_address v) \<noteq> None then ret ()
      else if iv_status v = ComplianceUnknown \<and> iv_valid_until v = 0 then ret ()
      else upsert_investor e (v\<lparr>iv_status := ComplianceUnknown, iv_valid_until := 0, iv_updated_at := now\<rparr>))"

text \<open>\<open>ord\<close> is the order in which one iteration of the Go map happens to go.\<close>

definition reconcile_investors ::
  "auth_env \<Rightarrow> int \<Rightarrow> string \<Rightarrow> ((string, chain_status) store \<Rightarrow> (string \<times> chain_status) list) \<Rightarrow> unit aum" where
  "reconcile_investors e chain addr ord =
     bindM (auth_get e (\<lambda>w. Inr (ce_list_by_name chain addr ''StatusChanged'' (aw_events w)))) (\<lambda>events.
     let states = build_statuses events
     in bindM (auth_now e) (\<lambda>now.
        bindM (forM (ord states) (apply_status e now)) (\<lambda>_.
        bindM (auth_get e (\<lambda>w. Inr (iv_list (aw_investors w)))) (\<lambda>all.
        forM all (reset_status e now states)))))"

section \<open>What a rebuild leaves\<close>

definition status_events :: "string \<Rightarrow> chain_event list \<Rightarrow> chain_event list" where
  "status_events a es = filter (\<lambda>v. ev_name v = ''StatusChanged'' \<and> str_field v ''account'' = a) (replay_order es)"

lemma build_statuses_last:
  "lookup (build_statuses es) a =
    (if a = [] \<or> status_events a es = [] then None else Some (event_status (last (status_events a es))))"
proof -
  have "lookup (fold status_step vs st) a =
    (let fs = filter (\<lambda>v. ev_name v = ''StatusChanged'' \<and> str_field v ''account'' = a) vs
     in if a = [] \<or> fs = [] then lookup st a else Some (event_status (last fs)))" for vs st
    by (induction vs arbitrary: st) (auto simp: status_step_def lookup_put Let_def split: if_splits)
  then show ?thesis by (simp add: build_statuses_def status_events_def Let_def)
qed

text \<open>A process alone, without faults.\<close>

definition auth_quiet :: "auth_env \<Rightarrow> bool" where
  "auth_quiet e \<longleftrightarrow> (\<forall>n. ax_fault e n = NoFault \<and> (\<forall>w. ax_other e n w = w))"

lemma quiet_upsert:
  "auth_quiet e \<Longrightarrow> upsert_investor e v w =
    (Inr (), w\<lparr>aw_tick := Suc (aw_tick w), aw_investors := iv_upsert v (aw_investors w)\<rparr>)"
  by (simp add: upsert_investor_def auth_call_def auth_others_def auth_quiet_def Let_def)

lemma quiet_get:
  "auth_quiet e \<Longrightarrow> get_investor e a w = (Inr (lookup (aw_investors w) a), w\<lparr>aw_tick := Suc (aw_tick w)\<rparr>)"
  by (simp add: get_investor_def found_def auth_get_def auth_call_def auth_others_def auth_quiet_def Let_def iv_get_def monad_defs
      split: option.split)

definition rebuilt :: "gotime \<Rightarrow> string \<Rightarrow> chain_status \<Rightarrow> investor option \<Rightarrow> investor" where
  "rebuilt now a s old =
     \<lparr>iv_address = a, iv_status = ch_status s, iv_valid_until = ch_valid_until s,
      iv_ownership_verified = (case old of None \<Rightarrow> False | Some v \<Rightarrow> iv_ownership_verified v),
      iv_created_at = (case old of None \<Rightarrow> now | Some v \<Rightarrow> iv_created_at v), iv_updated_at = now\<rparr>"

lemma quiet_apply:
  assumes "auth_quiet e"
  shows "apply_status e now (a, s) w = (Inr (), w\<lparr>aw_tick := Suc (Suc (aw_tick w)),
    aw_investors := put a (rebuilt now a s (lookup (aw_investors w) a)) (aw_investors w)\<rparr>)"
  using assms by (simp add: apply_status_def bindM_def quiet_get quiet_upsert iv_upsert_def rebuilt_def)

lemma quiet_applies:
  assumes "auth_quiet e" and "distinct (map fst ps)"
  shows "\<exists>t st. forM ps (apply_status e now) w = (Inr (), w\<lparr>aw_tick := t, aw_investors := st\<rparr>) \<and>
    (\<forall>a. lookup st a = (case map_of ps a of None \<Rightarrow> lookup (aw_investors w) a
       | Some s \<Rightarrow> Some (rebuilt now a s (lookup (aw_investors w) a)))) \<and>
    (wf_store iv_address (aw_investors w) \<longrightarrow> wf_store iv_address st)"
  using assms(2)
proof (induction ps arbitrary: w)
  case Nil
  show ?case by (intro exI [of _ "aw_tick w"] exI [of _ "aw_investors w"]) (simp add: ret_def)
next
  case (Cons p ps)
  obtain a s where p: "p = (a, s)" by fastforce
  let ?w = "w\<lparr>aw_tick := Suc (Suc (aw_tick w)), aw_investors := put a (rebuilt now a s (lookup (aw_investors w) a)) (aw_investors w)\<rparr>"
  obtain t st where run: "forM ps (apply_status e now) ?w = (Inr (), ?w\<lparr>aw_tick := t, aw_investors := st\<rparr>)"
    and st: "\<forall>b. lookup st b = (case map_of ps b of None \<Rightarrow> lookup (aw_investors ?w) b
       | Some s \<Rightarrow> Some (rebuilt now b s (lookup (aw_investors ?w) b)))"
    and wf: "wf_store iv_address (aw_investors ?w) \<longrightarrow> wf_store iv_address st"
    using Cons by fastforce
  have "map_of ps a = None" using Cons.prems by (auto simp: p map_of_eq_None_iff)
  then have "\<forall>b. lookup st b = (case map_of (p # ps) b of None \<Rightarrow> lookup (aw_investors w) b
       | Some s \<Rightarrow> Some (rebuilt now b s (lookup (aw_investors w) b)))"
    using st by (auto simp: p lookup_put split: option.splits)
  moreover have "wf_store iv_address (aw_investors w) \<longrightarrow> wf_store iv_address st"
    using wf by (simp add: wf_store_put rebuilt_def)
  ultimately show ?case
    using run by (intro exI [of _ t] exI [of _ st]) (simp add: bindM_def quiet_apply [OF assms(1)] p)
qed


definition reset_row :: "gotime \<Rightarrow> investor \<Rightarrow> investor" where
  "reset_row now v =
     (if iv_status v = ComplianceUnknown \<and> iv_valid_until v = 0 then v
      else v\<lparr>iv_status := ComplianceUnknown, iv_valid_until := 0, iv_updated_at := now\<rparr>)"

lemma quiet_resets:
  assumes "auth_quiet e" and "distinct (map iv_address vs)"
    and "\<And>v. v \<in> set vs \<Longrightarrow> lookup (aw_investors w) (iv_address v) = Some v"
  shows "\<exists>t st. forM vs (reset_status e now states) w = (Inr (), w\<lparr>aw_tick := t, aw_investors := st\<rparr>) \<and>
    (\<forall>a. lookup st a = (if a \<in> iv_address ` set vs \<and> lookup states a = None
       then map_option (reset_row now) (lookup (aw_investors w) a) else lookup (aw_investors w) a))"
  using assms(2,3)
proof (induction vs arbitrary: w)
  case Nil
  show ?case by (intro exI [of _ "aw_tick w"] exI [of _ "aw_investors w"]) (simp add: ret_def)
next
  case (Cons v vs)
  obtain t1 st1 where first: "reset_status e now states v w = (Inr (), w\<lparr>aw_tick := t1, aw_investors := st1\<rparr>)"
    and st1: "\<forall>a. lookup st1 a = (if a = iv_address v \<and> lookup states a = None
       then map_option (reset_row now) (lookup (aw_investors w) a) else lookup (aw_investors w) a)"
  proof (cases "lookup states (iv_address v) = None \<and> reset_row now v \<noteq> v")
    case True
    have "\<forall>a. lookup (iv_upsert (reset_row now v) (aw_investors w)) a = (if a = iv_address v \<and> lookup states a = None
       then map_option (reset_row now) (lookup (aw_investors w) a) else lookup (aw_investors w) a)"
      using True Cons.prems(2) by (auto simp: iv_upsert_def lookup_put reset_row_def)
    moreover have "reset_status e now states v w =
        (Inr (), w\<lparr>aw_tick := Suc (aw_tick w), aw_investors := iv_upsert (reset_row now v) (aw_investors w)\<rparr>)"
      using True quiet_upsert [OF assms(1)] by (auto simp: reset_status_def reset_row_def)
    ultimately show thesis by (intro that)
  next
    case False
    have "reset_status e now states v w = (Inr (), w\<lparr>aw_tick := aw_tick w, aw_investors := aw_investors w\<rparr>) \<or>
      lookup states (iv_address v) = None \<and>
      reset_status e now states v w = (Inr (), w\<lparr>aw_tick := Suc (aw_tick w), aw_investors := iv_upsert v (aw_investors w)\<rparr>)"
      using False quiet_upsert [OF assms(1)] by (auto simp: reset_status_def reset_row_def ret_def split: if_splits)
    then show thesis
    proof (elim disjE conjE)
      assume "reset_status e now states v w = (Inr (), w\<lparr>aw_tick := aw_tick w, aw_investors := aw_investors w\<rparr>)"
      then show thesis
        using False Cons.prems(2) by (intro that [of "aw_investors w" "aw_tick w"]) auto
    next
      assume "lookup states (iv_address v) = None"
        "reset_status e now states v w = (Inr (), w\<lparr>aw_tick := Suc (aw_tick w), aw_investors := iv_upsert v (aw_investors w)\<rparr>)"
      then show thesis
        using False Cons.prems(2) by (intro that) (auto simp: iv_upsert_def lookup_put)
    qed
  qed
  let ?w = "w\<lparr>aw_tick := t1, aw_investors := st1\<rparr>"
  have "lookup (aw_investors ?w) (iv_address u) = Some u" if "u \<in> set vs" for u
  proof -
    have "iv_address u \<in> iv_address ` set vs" using that by (rule imageI)
    then have "iv_address u \<noteq> iv_address v" using Cons.prems(1) by auto
    then show ?thesis using st1 Cons.prems(2) that by simp
  qed
  then obtain t st where run: "forM vs (reset_status e now states) ?w = (Inr (), ?w\<lparr>aw_tick := t, aw_investors := st\<rparr>)"
    and st: "\<forall>a. lookup st a = (if a \<in> iv_address ` set vs \<and> lookup states a = None
       then map_option (reset_row now) (lookup (aw_investors ?w) a) else lookup (aw_investors ?w) a)"
    using Cons.IH [of ?w] Cons.prems(1) by auto
  have "iv_address v \<notin> iv_address ` set vs" using Cons.prems(1) by auto
  then have "\<forall>a. lookup st a = (if a \<in> iv_address ` set (v # vs) \<and> lookup states a = None
       then map_option (reset_row now) (lookup (aw_investors w) a) else lookup (aw_investors w) a)"
    using st st1 by auto
  then show ?case
    using run by (intro exI [of _ t] exI [of _ st]) (simp add: bindM_def first)
qed

section \<open>Properties\<close>

text \<open>
  C39: Rebuilding the investors, over one state of the repositories and whatever order the map is
  iterated in: an account with StatusChanged events gets the status and validity of its last one
  in chain order, an account whose events are gone is reset to Unknown, and every proved ownership
  is kept.
\<close>

theorem reconcile_investors_exact:
  fixes e :: auth_env and w :: auth_world and chain :: int and addr :: string
  assumes "auth_quiet e" and "wf_store iv_address (aw_investors w)"
    and "\<And>st. distinct (map fst st) \<Longrightarrow> distinct (map fst (ord st)) \<and> set (ord st) = set st"
  defines "es \<equiv> ce_list_by_name chain addr ''StatusChanged'' (aw_events w)" and "now \<equiv> ax_now e (Suc (aw_tick w))"
  shows "\<exists>w'. reconcile_investors e chain addr ord w = (Inr (), w') \<and>
    (\<forall>a. lookup (aw_investors w') a =
      (if a \<noteq> [] \<and> status_events a es \<noteq> []
       then Some (rebuilt now a (event_status (last (status_events a es))) (lookup (aw_investors w) a))
       else map_option (reset_row now) (lookup (aw_investors w) a)))"
proof -
  let ?states = "build_statuses es"
  have "distinct (map fst (fold status_step vs st))" if "distinct (map fst st)" for vs and st :: "(string, chain_status) store"
    using that by (induction vs arbitrary: st) (auto simp: status_step_def Let_def distinct_update)
  then have dist: "distinct (map fst ?states)" by (simp add: build_statuses_def)
  then have ord: "distinct (map fst (ord ?states))" "set (ord ?states) = set ?states" using assms(3) by blast+
  have same: "map_of (ord ?states) = map_of ?states" using ord dist by (intro map_of_eqI) auto
  let ?w = "w\<lparr>aw_tick := Suc (aw_tick w)\<rparr>"
  obtain t st where run: "forM (ord ?states) (apply_status e now) ?w = (Inr (), ?w\<lparr>aw_tick := t, aw_investors := st\<rparr>)"
    and st0: "\<forall>a. lookup st a = (case map_of (ord ?states) a of None \<Rightarrow> lookup (aw_investors ?w) a
       | Some s \<Rightarrow> Some (rebuilt now a s (lookup (aw_investors ?w) a)))"
    and wf0: "wf_store iv_address (aw_investors ?w) \<longrightarrow> wf_store iv_address st"
    using quiet_applies [OF assms(1) ord(1)] by blast
  have wf: "wf_store iv_address st" using wf0 assms(2) by simp
  have st: "\<forall>a. lookup st a = (case lookup ?states a of None \<Rightarrow> lookup (aw_investors w) a
       | Some s \<Rightarrow> Some (rebuilt now a s (lookup (aw_investors w) a)))" using st0 by (simp add: same split: option.split)
  let ?v = "?w\<lparr>aw_tick := Suc t, aw_investors := st\<rparr>"
  have vals: "v \<in> set (iv_list st) \<longleftrightarrow> lookup st (iv_address v) = Some v" for v
    unfolding iv_list_def set_sort by (rule wf_store_vals [OF wf])
  have "distinct (map iv_address (iv_list st))"
  proof -
    have "map iv_address (vals st) = map fst st" using wf by (auto simp: wf_store_def)
    then have "distinct (map iv_address (vals st))" using wf unfolding wf_store_def by (simp only:)
    then show ?thesis by (simp add: iv_list_def distinct_map inj_on_def) metis
  qed
  from quiet_resets [OF assms(1) this, of ?v now ?states] vals
  obtain t' st' where resets: "forM (iv_list st) (reset_status e now ?states) ?v = (Inr (), ?v\<lparr>aw_tick := t', aw_investors := st'\<rparr>)"
    and st': "\<forall>a. lookup st' a = (if a \<in> iv_address ` set (iv_list st) \<and> lookup ?states a = None
       then map_option (reset_row now) (lookup st a) else lookup st a)"
    by auto
  have member: "a \<in> iv_address ` set (iv_list st) \<longleftrightarrow> lookup st a \<noteq> None" for a
  proof
    assume "lookup st a \<noteq> None"
    then obtain v where v: "lookup st a = Some v" by auto
    then have "iv_address v = a" using wf_store_lookup [OF wf] by simp
    then show "a \<in> iv_address ` set (iv_list st)" using vals [of v] v by force
  qed (use vals in auto)
  have v: "w\<lparr>aw_investors := st, aw_tick := Suc t\<rparr> = w\<lparr>aw_tick := Suc t, aw_investors := st\<rparr>"
    by (rule auth_world.equality) simp_all
  have "reconcile_investors e chain addr ord w = (Inr (), ?v\<lparr>aw_tick := t', aw_investors := st'\<rparr>)"
    using assms(1) run resets
    by (simp add: reconcile_investors_def bindM_def auth_get_def auth_call_def auth_others_def auth_quiet_def Let_def auth_now_def
        getM_def es_def now_def v)
  moreover have "\<forall>a. lookup st' a = (if a \<noteq> [] \<and> status_events a es \<noteq> []
       then Some (rebuilt now a (event_status (last (status_events a es))) (lookup (aw_investors w) a))
       else map_option (reset_row now) (lookup (aw_investors w) a))"
    using st' st member build_statuses_last [of es] by (auto split: option.splits)
  ultimately show ?thesis by auto
qed


text \<open>An investor whose events a reorganisation has removed.\<close>

definition demo_investor :: investor where
  "demo_investor = \<lparr>iv_address = ''a'', iv_status = ComplianceAllowed, iv_valid_until = 5, iv_ownership_verified = True,
     iv_created_at = 0, iv_updated_at = 0\<rparr>"

corollary reconcile_investors_exact_witness:
  "\<exists>w'. reconcile_investors demo_auth 1 ''r'' (\<lambda>st. st) (demo_auth_world\<lparr>aw_investors := [(''a'', demo_investor)]\<rparr>) = (Inr (), w') \<and>
    lookup (aw_investors w') ''a'' = Some (reset_row 1 demo_investor)"
proof -
  let ?w = "demo_auth_world\<lparr>aw_investors := [(''a'', demo_investor)]\<rparr>"
  have quiet: "auth_quiet demo_auth" by (simp add: auth_quiet_def demo_auth_def)
  have wf: "wf_store iv_address (aw_investors ?w)" by (simp add: wf_store_def demo_investor_def)
  have es: "ce_list_by_name 1 ''r'' ''StatusChanged'' (aw_events ?w) = []" by (simp add: demo_auth_world_def ce_list_by_name_def)
  have now: "ax_now demo_auth (Suc (aw_tick ?w)) = 1" by (simp add: demo_auth_def demo_auth_world_def)
  from reconcile_investors_exact [OF quiet wf, where ord = "\<lambda>st. st" and chain = 1 and addr = "''r''"]
  obtain w' where "reconcile_investors demo_auth 1 ''r'' (\<lambda>st. st) ?w = (Inr (), w')"
      "\<forall>a. lookup (aw_investors w') a = map_option (reset_row 1) (lookup (aw_investors ?w) a)"
    unfolding es now by (auto simp: status_events_def replay_order_def)
  then show ?thesis by (intro exI [of _ w']) simp
qed

text \<open>
  The two writers are not isolated from each other. A wallet that proves its ownership between
  the look-up and the write of a rebuild loses the proof: the rebuild writes back the row it
  read, and the challenge is spent.
\<close>

definition demo_status :: chain_status where
  "demo_status = \<lparr>ch_status = ComplianceAllowed, ch_valid_until = 0\<rparr>"

definition proves_meanwhile :: auth_env where
  "proves_meanwhile = demo_auth\<lparr>ax_other := \<lambda>n w. if n = 1
     then (snd (verify_ownership demo_auth ''a'' ''n'' demo_signature w))\<lparr>aw_tick := aw_tick w\<rparr> else w\<rparr>"

lemma demo_proof_taken:
  "\<exists>v w. verify_ownership demo_auth ''a'' ''n'' demo_signature (demo_auth_world\<lparr>aw_tick := 1\<rparr>) = (Inr v, w) \<and>
    iv_ownership_verified v \<and> wc_spent ''n'' (aw_wallets w) \<and> lookup (aw_investors w) ''a'' = Some v"
  by (simp add: verify_ownership_def challenge_verify_def recover_text_def demo_signature_recovers)
    (simp add: demo_auth_def demo_auth_world_def monad_defs auth_get_def auth_call_def auth_others_def Let_def wc_get_def auth_now_def
      on_wallets_def wc_mark_used_def map_error_def record_ownership_def get_investor_def found_def iv_get_def upsert_investor_def
      iv_upsert_def new_investor_def wc_spent_def)

theorem ownership_proof_lost:
  "\<exists>w v. apply_status proves_meanwhile 0 (''a'', demo_status) demo_auth_world = (Inr (), w) \<and>
    lookup (aw_investors w) ''a'' = Some v \<and> \<not> iv_ownership_verified v \<and> wc_spent ''n'' (aw_wallets w)"
proof -
  obtain v w where proof_run: "verify_ownership demo_auth ''a'' ''n'' demo_signature (demo_auth_world\<lparr>aw_tick := 1\<rparr>) = (Inr v, w)"
      "wc_spent ''n'' (aw_wallets w)"
    using demo_proof_taken by blast
  have get: "get_investor proves_meanwhile ''a'' demo_auth_world = (Inr None, demo_auth_world\<lparr>aw_tick := 1\<rparr>)"
    by (simp add: get_investor_def found_def auth_get_def auth_call_def auth_others_def proves_meanwhile_def demo_auth_def
        demo_auth_world_def iv_get_def monad_defs Let_def)
  have others: "auth_others proves_meanwhile (demo_auth_world\<lparr>aw_tick := 1\<rparr>) = w\<lparr>aw_tick := 2\<rparr>"
    by (simp add: auth_others_def proves_meanwhile_def proof_run [unfolded One_nat_def] numeral_2_eq_2)
  have quiet: "ax_fault proves_meanwhile n = NoFault" for n by (simp add: proves_meanwhile_def demo_auth_def)
  show ?thesis
    using proof_run(2)
    by (simp add: apply_status_def bindM_def get upsert_investor_def auth_call_def others [unfolded One_nat_def] quiet Let_def
        iv_upsert_def lookup_put)
qed

end
