(* ===== verification/Auth.thy ===== *)
theory Auth
  imports Challenge
begin

text \<open>
  Admin access: tokens and roles (server/internal/auth/jwt.go, bearer.go, rbac.go), the login
  handlers (server/internal/api/auth.go) and the configuration check of the admin address
  (server/internal/config/config.go). The JWT library signs and verifies tokens; \<open>jwt_law\<close> states
  what is relied on of it.
\<close>

section \<open>Tokens\<close>

definition admin_jwt_role :: string where
  "admin_jwt_role = ''admin''"

text \<open>Dates are whole seconds, as \<^verbatim>\<open>jwt.NewNumericDate\<close> truncates them.\<close>

record admin_claims =
  jc_role :: string
  jc_subject :: string
  jc_issued_at :: int
  jc_expires_at :: int

text \<open>
  \<open>jx_sign\<close> is HS256 signing with a secret; \<open>jx_parse\<close>, at a moment, is parsing with that
  algorithm, a valid signature and a required, unexpired \<^verbatim>\<open>exp\<close>.
\<close>

record jwt_library =
  jx_sign :: "byte list \<Rightarrow> admin_claims \<Rightarrow> string option"
  jx_parse :: "byte list \<Rightarrow> gotime \<Rightarrow> string \<Rightarrow> admin_claims option"

datatype jwt_error = JwtNoSecret | JwtSigning | JwtInvalid | JwtRole | JwtNoSubject

definition numeric_date :: "gotime \<Rightarrow> int" where
  "numeric_date t = t div 10 ^ 9"

definition issue_admin_jwt :: "jwt_library \<Rightarrow> byte list \<Rightarrow> string \<Rightarrow> gotime \<Rightarrow> gotime \<Rightarrow> jwt_error + string \<times> gotime" where
  "issue_admin_jwt J secret a ttl now =
     (if secret = [] then Inl JwtNoSecret
      else let expires = now + ttl in
        case jx_sign J secret \<lparr>jc_role = admin_jwt_role, jc_subject = a, jc_issued_at = numeric_date now,
            jc_expires_at = numeric_date expires\<rparr> of
          None \<Rightarrow> Inl JwtSigning
        | Some t \<Rightarrow> Inr (t, expires))"

definition parse_admin_jwt :: "jwt_library \<Rightarrow> byte list \<Rightarrow> gotime \<Rightarrow> string \<Rightarrow> jwt_error + string" where
  "parse_admin_jwt J secret now token =
     (if secret = [] then Inl JwtNoSecret
      else case jx_parse J secret now token of
        None \<Rightarrow> Inl JwtInvalid
      | Some c \<Rightarrow>
          if jc_role c \<noteq> admin_jwt_role then Inl JwtRole
          else if jc_subject c = [] then Inl JwtNoSubject
          else Inr (jc_subject c))"

definition bearer_prefix :: string where
  "bearer_prefix = ''Bearer ''"

definition bearer_token :: "string \<Rightarrow> string" where
  "bearer_token h =
     (if length h > length bearer_prefix \<and> equal_fold (take (length bearer_prefix) h) bearer_prefix
      then trim_space (drop (length bearer_prefix) h) else [])"

definition principal_digest :: "(byte list \<Rightarrow> u256) \<Rightarrow> string \<Rightarrow> string" where
  "principal_digest sha256 s = hex_bytes (hash_bytes (sha256 (str_bytes s)))"

section \<open>Roles\<close>

datatype role = RoleAdmin | RoleReadOnly

definition anonymous_principal :: string where
  "anonymous_principal = ''anonymous''"

text \<open>What \<^verbatim>\<open>Authenticate\<close> records for a request with this Authorization header, empty for none.\<close>

definition authenticate :: "jwt_library \<Rightarrow> byte list \<Rightarrow> string \<Rightarrow> gotime \<Rightarrow> string \<Rightarrow> role \<times> string" where
  "authenticate J secret admin now header =
     (if secret \<noteq> [] \<and> admin \<noteq> [] \<and> bearer_token header \<noteq> []
      then case parse_admin_jwt J secret now (bearer_token header) of
          Inl _ \<Rightarrow> (RoleReadOnly, anonymous_principal)
        | Inr a \<Rightarrow> if equal_fold a admin then (RoleAdmin, a) else (RoleReadOnly, anonymous_principal)
      else (RoleReadOnly, anonymous_principal))"

definition principal_from_context :: "string option \<Rightarrow> string" where
  "principal_from_context v =
     (case v of None \<Rightarrow> anonymous_principal | Some s \<Rightarrow> if s = [] then anonymous_principal else s)"

text \<open>\<open>None\<close> is a request on which \<^verbatim>\<open>Authenticate\<close> did not run; its role is the empty string.\<close>

definition require_role :: "role set \<Rightarrow> role option \<Rightarrow> bool" where
  "require_role allowed r = (case r of None \<Rightarrow> False | Some x \<Rightarrow> x \<in> allowed)"

definition role_from_context :: "role option \<Rightarrow> role" where
  "role_from_context r = (case r of None \<Rightarrow> RoleReadOnly | Some x \<Rightarrow> x)"

section \<open>Logging in\<close>

record login_config =
  lc_challenges :: "admin_challenge_service option"
  lc_secret :: "byte list"
  lc_admin :: string
  lc_ttl :: gotime
  lc_audit :: bool
  lc_jwt :: jwt_library

datatype api_error = ApiNotImplemented | ApiBadRequest | ApiUnauthorized | ApiInternal

type_synonym 'a apm = "(api_error, auth_world, 'a) act"

definition audit_append :: "auth_env \<Rightarrow> (string \<Rightarrow> gotime \<Rightarrow> audit_entry) \<Rightarrow> unit aum" where
  "audit_append e v = auth_call e (\<lambda>w. (Inr (), w\<lparr>aw_audit := al_append (v (ax_uuid e (aw_tick w)) (ax_now e (aw_tick w))) (aw_audit w)\<rparr>))"

text \<open>\<^verbatim>\<open>App.recordAudit\<close>: a failure is logged and ignored.\<close>

definition record_audit :: "auth_env \<Rightarrow> login_config \<Rightarrow> string \<Rightarrow> string \<Rightarrow> string \<Rightarrow> string \<Rightarrow> metadata \<Rightarrow> unit apm" where
  "record_audit e cfg category actor action target m =
     (if \<not> lc_audit cfg then ret ()
      else bindM (tryM (audit_append e (\<lambda>i now. audit_record i now category actor action target m))) (\<lambda>_. ret ()))"

text \<open>Request bodies after JSON decoding; \<open>None\<close> is a body that does not decode.\<close>

definition create_auth_challenge :: "auth_env \<Rightarrow> login_config \<Rightarrow> string option \<Rightarrow> (string \<times> string \<times> string \<times> gotime) apm" where
  "create_auth_challenge e cfg body =
     (case lc_challenges cfg of
        None \<Rightarrow> raise ApiNotImplemented
      | Some s \<Rightarrow>
          (case body of
             None \<Rightarrow> raise ApiBadRequest
           | Some a \<Rightarrow>
               if a = [] then raise ApiBadRequest
               else bindM (tryM (admin_create e s a)) (\<lambda>r.
                 case r of
                   Inl _ \<Rightarrow> raise ApiBadRequest
                 | Inr (nonce, message, expires) \<Rightarrow> ret (normalized e a, nonce, message, numeric_date expires))))"

record auth_session =
  au_token :: string
  au_expires_at :: int
  au_role :: string
  au_address :: string

definition start_session :: "auth_env \<Rightarrow> login_config \<Rightarrow> auth_session apm" where
  "start_session e cfg =
     (let admin = normalized e (lc_admin cfg) in
      bindM (getM (\<lambda>w. ax_now e (aw_tick w))) (\<lambda>now.
      case issue_admin_jwt (lc_jwt cfg) (lc_secret cfg) admin (lc_ttl cfg) now of
        Inl _ \<Rightarrow> raise ApiInternal
      | Inr (token, expires) \<Rightarrow>
          bindM (record_audit e cfg ''auth'' admin ''auth.login'' admin []) (\<lambda>_.
          ret \<lparr>au_token = token, au_expires_at = numeric_date expires, au_role = ''admin'', au_address = admin\<rparr>)))"

definition create_session :: "auth_env \<Rightarrow> login_config \<Rightarrow> (string \<times> string \<times> string) option \<Rightarrow> auth_session apm" where
  "create_session e cfg body =
     (if lc_challenges cfg = None \<or> lc_secret cfg = [] \<or> lc_admin cfg = [] then raise ApiNotImplemented
      else case body of
        None \<Rightarrow> raise ApiBadRequest
      | Some (a, nonce, signature) \<Rightarrow>
          if a = [] \<or> nonce = [] \<or> signature = [] then raise ApiBadRequest
          else (case decode_hex (trim_prefix ''0x'' signature) of
            None \<Rightarrow> raise ApiBadRequest
          | Some sig \<Rightarrow>
              bindM (tryM (admin_verify e a nonce sig)) (\<lambda>r.
              case r of
                Inl _ \<Rightarrow> raise ApiUnauthorized
              | Inr recovered \<Rightarrow>
                  if \<not> equal_fold (ax_hex e recovered) (normalized e (lc_admin cfg)) then raise ApiUnauthorized
                  else start_session e cfg)))"

section \<open>The configured address\<close>

definition hex_char :: "char \<Rightarrow> bool" where
  "hex_char c \<longleftrightarrow> (CHR ''0'' \<le> c \<and> c \<le> CHR ''9'') \<or> (CHR ''a'' \<le> c \<and> c \<le> CHR ''f'') \<or> (CHR ''A'' \<le> c \<and> c \<le> CHR ''F'')"

definition config_hex_address :: "string \<Rightarrow> bool" where
  "config_hex_address s \<longleftrightarrow>
     length s = 42 \<and> s ! 0 = CHR ''0'' \<and> (s ! 1 = CHR ''x'' \<or> s ! 1 = CHR ''X'') \<and> (\<forall>c \<in> set (drop 2 s). hex_char c)"

section \<open>Properties\<close>

text \<open>
  What is relied on of the libraries: an address is printed with its own digits in some case, and
  a signed token, of claims whose texts are ASCII, is parsed back, with the same secret, until its expiry,
  and has no blanks.
\<close>

definition ascii_text :: "string \<Rightarrow> bool" where
  "ascii_text s \<longleftrightarrow> (\<forall>c \<in> set s. of_char c < (0x80 :: nat))"

definition hex_law :: "auth_env \<Rightarrow> string \<Rightarrow> bool" where
  "hex_law e s \<longleftrightarrow> (config_hex_address s \<longrightarrow> equal_fold (normalized e s) s)"

definition jwt_law :: "jwt_library \<Rightarrow> bool" where
  "jwt_law J \<longleftrightarrow> (\<forall>k c t. jx_sign J k c = Some t \<longrightarrow> t \<noteq> [] \<and> trim_space t = t \<and>
     (\<forall>now. ascii_text (jc_role c) \<and> ascii_text (jc_subject c) \<and> now < jc_expires_at c * 10 ^ 9 \<longrightarrow> jx_parse J k now t = Some c))"

lemma hex_address_ascii:
  assumes "config_hex_address s"
  shows "ascii_text s"
proof -
  obtain a b t where "s = a # b # t" using assms by (auto simp: config_hex_address_def length_Suc_conv numeral_eq_Suc)
  moreover have "of_char c < (0x80 :: nat)" if "hex_char c" for c
    using that by (auto simp: hex_char_def less_eq_char_def)
  ultimately show ?thesis using assms by (auto simp: config_hex_address_def ascii_text_def)
qed

lemma ascii_text_fold: "equal_fold s t \<Longrightarrow> ascii_text t \<Longrightarrow> ascii_text s"
proof -
  have low: "of_char (to_lower_char c) < (0x80 :: nat) \<longleftrightarrow> of_char c < (0x80 :: nat)" for c
    by (auto simp: to_lower_char_def Let_def)
  assume "equal_fold s t" and t: "ascii_text t"
  then have eq: "map to_lower_char s = map to_lower_char t" by (simp only: equal_fold_def to_lower_def)
  have "of_char c < (0x80 :: nat)" if "c \<in> set s" for c
  proof -
    have "to_lower_char c \<in> set (map to_lower_char s)" using that by simp
    then obtain d where d: "d \<in> set t" "to_lower_char c = to_lower_char d" unfolding eq by auto
    then have "of_char d < (0x80 :: nat)" using t by (simp add: ascii_text_def)
    then show ?thesis using low [of c] low [of d] unfolding d(2) by blast
  qed
  then show "ascii_text s" by (simp add: ascii_text_def)
qed

lemma bearer_token_prefix: "t \<noteq> [] \<Longrightarrow> bearer_token (bearer_prefix @ t) = trim_space t"
  by (simp add: bearer_token_def)

lemma record_audit_returns: "fst (record_audit e cfg category actor action target m w) = Inr ()"
  by (auto simp: record_audit_def bindM_def tryM_def ret_def split: prod.split)

lemma start_session_run:
  assumes "start_session e cfg w = (Inr s, w')"
  shows "au_address s = normalized e (lc_admin cfg) \<and>
    (\<exists>now. jx_sign (lc_jwt cfg) (lc_secret cfg) \<lparr>jc_role = admin_jwt_role, jc_subject = au_address s,
      jc_issued_at = now, jc_expires_at = au_expires_at s\<rparr> = Some (au_token s))"
  using assms
  by (auto simp: start_session_def Let_def bindM_def getM_def issue_admin_jwt_def raise_def ret_def
      split: if_splits option.splits prod.splits sum.splits)

lemma create_session_run:
  assumes "create_session e cfg (Some (a, nonce, signature)) w = (Inr s, w')"
  obtains sig signer u where "decode_hex (trim_prefix ''0x'' signature) = Some sig"
    "admin_verify e a nonce sig w = (Inr signer, u)" "equal_fold (ax_hex e signer) (normalized e (lc_admin cfg))"
    "start_session e cfg u = (Inr s, w')" "lc_secret cfg \<noteq> []" "lc_admin cfg \<noteq> []"
  using assms
  by (auto simp: create_session_def bindM_def tryM_def raise_def split: if_splits option.splits prod.splits sum.splits)

text \<open>
  C38: A login is the configured admin's, and it works. \<open>create_session\<close> answers with a token only
  when an unexpired challenge was signed by the wallet that the configuration names; the token,
  presented as a bearer credential at any time before its expiry, gives the admin role, under
  whatever case the configuration spells the address.
\<close>

theorem login_grants_admin:
  assumes "create_session e cfg (Some (a, nonce, signature)) w = (Inr s, w')"
    and "config_hex_address (lc_admin cfg)" and "hex_law e (lc_admin cfg)" and "jwt_law (lc_jwt cfg)"
    and "now < au_expires_at s * 10 ^ 9"
  shows "(\<exists>c sig signer. lookup (aw_admins (auth_others e w)) nonce = Some c \<and> decode_hex (trim_prefix ''0x'' signature) = Some sig \<and>
      recover_signer (ax_recover e) (ax_text_hash e (ac_message c)) sig = Inr signer \<and>
      equal_fold (ax_hex e signer) (lc_admin cfg)) \<and>
    (case authenticate (lc_jwt cfg) (lc_secret cfg) (lc_admin cfg) now (bearer_prefix @ au_token s) of
       (r, who) \<Rightarrow> require_role {RoleAdmin} (Some r) \<and> who = au_address s)"
proof -
  from create_session_run [OF assms(1)] obtain sig signer u where
    run: "decode_hex (trim_prefix ''0x'' signature) = Some sig" "admin_verify e a nonce sig w = (Inr signer, u)"
      "equal_fold (ax_hex e signer) (normalized e (lc_admin cfg))" "start_session e cfg u = (Inr s, w')"
      "lc_secret cfg \<noteq> []" "lc_admin cfg \<noteq> []" by metis
  have admin: "equal_fold (normalized e (lc_admin cfg)) (lc_admin cfg)" using assms(2,3) by (simp add: hex_law_def)
  obtain c where c: "lookup (aw_admins (auth_others e w)) nonce = Some c"
      "recover_signer (ax_recover e) (ax_text_hash e (ac_message c)) sig = Inr signer"
    using admin_verify_run [OF run(2)] by blast
  have signer: "equal_fold (ax_hex e signer) (lc_admin cfg)" by (rule equal_fold_trans [OF run(3) admin])
  obtain issued where sign: "jx_sign (lc_jwt cfg) (lc_secret cfg) \<lparr>jc_role = admin_jwt_role, jc_subject = au_address s,
      jc_issued_at = issued, jc_expires_at = au_expires_at s\<rparr> = Some (au_token s)" and address: "au_address s = normalized e (lc_admin cfg)"
    using start_session_run [OF run(4)] by blast
  have ascii: "ascii_text admin_jwt_role" "ascii_text (au_address s)"
    using ascii_text_fold [OF admin hex_address_ascii [OF assms(2)]] by (simp_all add: address admin_jwt_role_def ascii_text_def)
  have token: "au_token s \<noteq> []" "trim_space (au_token s) = au_token s"
      "jx_parse (lc_jwt cfg) (lc_secret cfg) now (au_token s) = Some \<lparr>jc_role = admin_jwt_role, jc_subject = au_address s,
        jc_issued_at = issued, jc_expires_at = au_expires_at s\<rparr>"
    using assms(4,5) sign ascii unfolding jwt_law_def by auto
  have "au_address s \<noteq> []"
    using admin run(6) by (auto simp: address equal_fold_def to_lower_def)
  then have "parse_admin_jwt (lc_jwt cfg) (lc_secret cfg) now (au_token s) = Inr (au_address s)"
    using run(5) by (simp add: parse_admin_jwt_def token(3))
  then have "authenticate (lc_jwt cfg) (lc_secret cfg) (lc_admin cfg) now (bearer_prefix @ au_token s) = (RoleAdmin, au_address s)"
    using run(5,6) token(1,2) admin by (simp add: authenticate_def bearer_token_prefix address)
  then show ?thesis using c run(1) signer by (auto simp: require_role_def)
qed

text \<open>A deployment with one admin and a library that knows one token.\<close>

definition demo_admin :: string where
  "demo_admin = ''0X'' @ replicate 40 CHR ''a''"

definition demo_claims :: admin_claims where
  "demo_claims = \<lparr>jc_role = admin_jwt_role, jc_subject = demo_admin, jc_issued_at = 0, jc_expires_at = 10\<rparr>"

definition demo_login :: login_config where
  "demo_login = \<lparr>lc_challenges = Some \<lparr>as_ttl = 9, as_domain = []\<rparr>, lc_secret = [1], lc_admin = demo_admin, lc_ttl = 10 * 10 ^ 9,
     lc_audit = True, lc_jwt = \<lparr>jx_sign = \<lambda>_ c. if c = demo_claims then Some ''t'' else None,
       jx_parse = \<lambda>_ now t. if now < 10 * 10 ^ 9 then Some demo_claims else None\<rparr>\<rparr>"

definition demo_login_env :: auth_env where
  "demo_login_env = demo_auth\<lparr>ax_hex := \<lambda>_. demo_admin\<rparr>"

definition demo_login_world :: auth_world where
  "demo_login_world = demo_auth_world\<lparr>aw_admins := [(''n'', \<lparr>ac_nonce = ''n'', ac_address = demo_admin, ac_message = ''m'',
     ac_expires_at = 9, ac_used = False, ac_created_at = 0\<rparr>)]\<rparr>"

lemma decode_zeros: "decode_hex (concat (replicate n ''00'')) = Some (replicate n 0)"
  by (induction n) (simp_all add: hex_value_def)

lemma demo_login_verified: "\<exists>w. admin_verify demo_login_env ''0xa'' ''n'' demo_signature demo_login_world = (Inr 7, w) \<and> aw_tick w = 2"
proof -
  have "recover_signer (ax_recover demo_login_env) h demo_signature = Inr 7" for h
    using demo_signature_recovers by (simp add: demo_login_env_def)
  then show ?thesis
    by (simp add: admin_verify_def recover_text_def)
      (simp add: demo_login_env_def demo_auth_def demo_login_world_def demo_auth_world_def monad_defs auth_call_def auth_others_def
        Let_def ac_get_def on_admins_def ac_mark_used_def map_error_def normalized_def)
qed

corollary login_grants_admin_witness:
  "\<exists>s w. create_session demo_login_env demo_login (Some (''0xa'', ''n'', ''0x'' @ concat (replicate 65 ''00''))) demo_login_world = (Inr s, w) \<and>
    fst (authenticate (lc_jwt demo_login) [1] demo_admin 0 (bearer_prefix @ au_token s)) = RoleAdmin"
proof -
  let ?body = "Some (''0xa'', ''n'', ''0x'' @ concat (replicate 65 ''00''))"
  obtain u where verify: "admin_verify demo_login_env ''0xa'' ''n'' demo_signature demo_login_world = (Inr 7, u)" "aw_tick u = 2"
    using demo_login_verified by blast
  have normal: "normalized demo_login_env a = demo_admin" "ax_hex demo_login_env b = demo_admin" for a b
    by (simp_all add: normalized_def demo_login_env_def)
  have sign: "issue_admin_jwt (lc_jwt demo_login) (lc_secret demo_login) demo_admin (lc_ttl demo_login) 2 = Inr (''t'', 10 * 10 ^ 9 + 2)"
    by (simp add: issue_admin_jwt_def demo_login_def demo_claims_def numeric_date_def)
  have start: "\<exists>w. start_session demo_login_env demo_login u =
      (Inr \<lparr>au_token = ''t'', au_expires_at = 10, au_role = ''admin'', au_address = demo_admin\<rparr>, w)"
  proof -
    have now: "ax_now demo_login_env (aw_tick u) = 2" by (simp add: verify(2) demo_login_env_def demo_auth_def)
    have admin: "lc_admin demo_login = demo_admin" by (simp add: demo_login_def)
    obtain v where audit: "record_audit demo_login_env demo_login ''auth'' demo_admin ''auth.login'' demo_admin [] u = (Inr (), v)"
      using record_audit_returns by (metis prod.collapse)
    show ?thesis
      by (simp add: start_session_def Let_def bindM_def getM_def now normal sign audit ret_def numeric_date_def admin)
  qed
  then obtain w where start: "start_session demo_login_env demo_login u =
      (Inr \<lparr>au_token = ''t'', au_expires_at = 10, au_role = ''admin'', au_address = demo_admin\<rparr>, w)" by blast
  have conf: "\<exists>c. lc_challenges demo_login = Some c" "lc_secret demo_login \<noteq> []" "lc_admin demo_login \<noteq> []"
    by (simp_all add: demo_login_def demo_admin_def)
  have sig: "decode_hex (trim_prefix ''0x'' (''0x'' @ concat (replicate 65 ''00''))) = Some demo_signature"
    by (simp only: trim_prefix_def demo_signature_def) (simp add: decode_zeros)
  have run: "create_session demo_login_env demo_login ?body demo_login_world =
      (Inr \<lparr>au_token = ''t'', au_expires_at = 10, au_role = ''admin'', au_address = demo_admin\<rparr>, w)"
    using conf by (auto simp: create_session_def sig [unfolded append_Cons append_Nil] bindM_def tryM_def verify(1) normal start)
  have hex: "config_hex_address (lc_admin demo_login)"
    by (simp add: config_hex_address_def demo_login_def demo_admin_def hex_char_def)
  have laws: "hex_law demo_login_env (lc_admin demo_login)" "jwt_law (lc_jwt demo_login)"
    by (simp_all add: hex_law_def normal demo_login_def jwt_law_def demo_claims_def trim_space_def is_space_def)
  from login_grants_admin [OF run hex laws, of 0] run show ?thesis
    by (auto simp: require_role_def demo_login_def split: prod.splits)
qed

text \<open>
  Without a token that the library accepts, for the admin role and the configured address, a
  request stays read-only, whatever its header.
\<close>

lemma admin_role_needs_token:
  assumes "authenticate J secret admin now header = (RoleAdmin, who)"
  shows "\<exists>c. jx_parse J secret now (bearer_token header) = Some c \<and> jc_role c = admin_jwt_role \<and>
    jc_subject c = who \<and> equal_fold who admin \<and> who \<noteq> [] \<and> secret \<noteq> []"
  using assms
  by (auto simp: authenticate_def parse_admin_jwt_def split: if_splits sum.splits option.splits)

end
