(* ===== verification/Utf8.thy ===== *)
theory Utf8
  imports Prelude
begin

text \<open>
  Text as Go's unicode/utf8 and unicode/utf16 read and write it: a Go string is its list of bytes
  (HOL characters), a rune a natural number. On valid UTF-8, decoding and encoding are inverse,
  and comparing UTF-16 code units is a strict total order.
\<close>

section \<open>UTF-8\<close>

type_synonym rune = nat

definition rune_error :: rune where
  "rune_error = 0xFFFD"

definition surrogate :: "rune \<Rightarrow> bool" where
  "surrogate r \<longleftrightarrow> 0xD800 \<le> r \<and> r < 0xE000"

definition scalar :: "rune \<Rightarrow> bool" where
  "scalar r \<longleftrightarrow> r < 0x110000 \<and> \<not> surrogate r"

definition byte_between :: "nat \<Rightarrow> nat \<Rightarrow> char \<Rightarrow> bool" where
  "byte_between lo hi c \<longleftrightarrow> lo \<le> of_char c \<and> of_char c \<le> (hi :: nat)"

definition cont_bits :: "char \<Rightarrow> nat" where
  "cont_bits c = of_char c - 0x80"

text \<open>\<^verbatim>\<open>utf8.DecodeRuneInString\<close>: the first rune and its size; \<open>(rune_error, 1)\<close> at an invalid byte.\<close>

definition decode_rune :: "string \<Rightarrow> rune \<times> nat" where
  "decode_rune s =
    (case s of [] \<Rightarrow> (rune_error, 0)
     | c # cs \<Rightarrow>
       let b = of_char c :: nat in
       if b < 0x80 then (b, 1)
       else if b < 0xC2 then (rune_error, 1)
       else if b < 0xE0 then
         (case cs of c1 # _ \<Rightarrow>
            if byte_between 0x80 0xBF c1 then ((b - 0xC0) * 64 + cont_bits c1, 2) else (rune_error, 1)
          | _ \<Rightarrow> (rune_error, 1))
       else if b < 0xF0 then
         (case cs of c1 # c2 # _ \<Rightarrow>
            if byte_between (if b = 0xE0 then 0xA0 else 0x80) (if b = 0xED then 0x9F else 0xBF) c1 \<and> byte_between 0x80 0xBF c2
            then (((b - 0xE0) * 64 + cont_bits c1) * 64 + cont_bits c2, 3) else (rune_error, 1)
          | _ \<Rightarrow> (rune_error, 1))
       else if b < 0xF5 then
         (case cs of c1 # c2 # c3 # _ \<Rightarrow>
            if byte_between (if b = 0xF0 then 0x90 else 0x80) (if b = 0xF4 then 0x8F else 0xBF) c1 \<and>
               byte_between 0x80 0xBF c2 \<and> byte_between 0x80 0xBF c3
            then ((((b - 0xF0) * 64 + cont_bits c1) * 64 + cont_bits c2) * 64 + cont_bits c3, 4) else (rune_error, 1)
          | _ \<Rightarrow> (rune_error, 1))
       else (rune_error, 1))"

text \<open>\<^verbatim>\<open>Buffer.WriteRune\<close>: surrogates and values beyond U+10FFFF are written as U+FFFD.\<close>

definition encode_rune :: "rune \<Rightarrow> string" where
  "encode_rune r0 =
    (let r = if scalar r0 then r0 else rune_error in
     if r < 0x80 then [char_of r]
     else if r < 0x800 then [char_of (0xC0 + r div 64), char_of (0x80 + r mod 64)]
     else if r < 0x10000 then
       [char_of (0xE0 + r div 4096), char_of (0x80 + r div 64 mod 64), char_of (0x80 + r mod 64)]
     else
       [char_of (0xF0 + r div 262144), char_of (0x80 + r div 4096 mod 64), char_of (0x80 + r div 64 mod 64),
        char_of (0x80 + r mod 64)])"

text \<open>\<^verbatim>\<open>for _, r := range s\<close> and \<^verbatim>\<open>[]rune(s)\<close>.\<close>

fun runes :: "string \<Rightarrow> rune list" where
  "runes [] = []"
| "runes (c # cs) = fst (decode_rune (c # cs)) # runes (drop (snd (decode_rune (c # cs)) - 1) cs)"

fun utf8_valid :: "string \<Rightarrow> bool" where
  "utf8_valid [] = True"
| "utf8_valid (c # cs) =
    (decode_rune (c # cs) \<noteq> (rune_error, 1) \<and> utf8_valid (drop (snd (decode_rune (c # cs)) - 1) cs))"

definition write_runes :: "rune list \<Rightarrow> string" where
  "write_runes rs = concat (map encode_rune rs)"

lemma write_runes_simps [simp]:
  "write_runes [] = []" "write_runes (r # rs) = encode_rune r @ write_runes rs"
  "write_runes (rs @ rs') = write_runes rs @ write_runes rs'"
  by (simp_all add: write_runes_def)

lemma of_char_char_of: "n < 256 \<Longrightarrow> of_char (char_of (n :: nat)) = n"
  by simp

lemma base64_split:
  fixes r :: nat
  shows "(r div 4096 * 64 + r div 64 mod 64) * 64 + r mod 64 = r"
    and "((r div 262144 * 64 + r div 4096 mod 64) * 64 + r div 64 mod 64) * 64 + r mod 64 = r"
proof -
  have a: "r div 4096 = r div 64 div 64" "r div 262144 = r div 64 div 64 div 64" by (simp_all flip: div_mult2_eq)
  show "(r div 4096 * 64 + r div 64 mod 64) * 64 + r mod 64 = r"
    unfolding a by (simp only: div_mult_mod_eq)
  show "((r div 262144 * 64 + r div 4096 mod 64) * 64 + r div 64 mod 64) * 64 + r mod 64 = r"
    unfolding a by (simp only: div_mult_mod_eq)
qed

lemma base64_join:
  fixes a z :: nat
  assumes "z < 64"
  shows "(a * 64 + z) div 64 = a" and "(a * 64 + z) mod 64 = z"
  using assms by simp_all

lemma mod64_le: "(a :: nat) mod 64 \<le> 63"
  using mod_less_divisor [of 64 a] by linarith

lemma div64_div64:
  fixes r :: nat
  shows "r div 4096 = r div 64 div 64" and "r div 262144 = r div 64 div 64 div 64"
  by (simp_all flip: div_mult2_eq)

lemma decode_encode_rune:
  assumes "scalar r"
  shows "decode_rune (encode_rune r @ t) = (r, length (encode_rune r))"
proof -
  consider "r < 0x80" | "0x80 \<le> r" "r < 0x800" | "0x800 \<le> r" "r < 0x10000" | "0x10000 \<le> r" "r < 0x110000"
    using assms unfolding scalar_def by linarith
  then show ?thesis
  proof cases
    case 1
    then show ?thesis using assms by (simp add: encode_rune_def decode_rune_def of_char_char_of)
  next
    case 2
    then have "r div 64 < 32" "\<not> r div 64 < 2" "r mod 64 < 64" "64 * (r div 64) + r mod 64 = r" by auto
    then show ?thesis using assms 2
      by (auto simp: encode_rune_def decode_rune_def of_char_char_of byte_between_def cont_bits_def Let_def mult.commute)
  next
    case 3
    then have b: "r div 4096 < 16" "r div 64 mod 64 < 64" "r mod 64 < 64" "(r div 4096 * 64 + r div 64 mod 64) * 64 + r mod 64 = r"
      using base64_split(1) [of r] by auto
    have "r div 4096 = 0 \<Longrightarrow> 32 \<le> r div 64 mod 64" using 3 by auto
    moreover have "r div 4096 = 13 \<Longrightarrow> r div 64 mod 64 < 32"
    proof -
      assume "r div 4096 = 13"
      with b(4) have "r = 53248 + r div 64 mod 64 * 64 + r mod 64" by simp
      with assms b(2,3) show "r div 64 mod 64 < 32" unfolding scalar_def surrogate_def by linarith
    qed
    ultimately show ?thesis using assms 3 b
      by (auto simp: encode_rune_def decode_rune_def of_char_char_of byte_between_def cont_bits_def Let_def)
  next
    case 4
    then have b: "r div 262144 < 5" "r div 4096 mod 64 < 64" "r div 64 mod 64 < 64" "r mod 64 < 64"
        "((r div 262144 * 64 + r div 4096 mod 64) * 64 + r div 64 mod 64) * 64 + r mod 64 = r"
      using base64_split(2) [of r] by auto
    have "r div 262144 = 0 \<Longrightarrow> 16 \<le> r div 4096 mod 64" using 4 by auto
    moreover have "r div 262144 = 4 \<Longrightarrow> r div 4096 mod 64 < 16"
    proof -
      assume "r div 262144 = 4"
      then have "r = ((256 + r div 4096 mod 64) * 64 + r div 64 mod 64) * 64 + r mod 64" using b(5) by simp
      moreover have "q < 16" if "r = ((256 + q) * 64 + u) * 64 + v" for q u v :: nat using 4 that by auto
      ultimately show "r div 4096 mod 64 < 16" by blast
    qed
    ultimately show ?thesis using assms 4 b
      by (auto simp: encode_rune_def decode_rune_def of_char_char_of byte_between_def cont_bits_def Let_def mod64_le)
  qed
qed

lemma decode_valid:
  assumes "decode_rune s = (r, n)" and "s \<noteq> []" and "(r, n) \<noteq> (rune_error, 1)"
  shows "scalar r \<and> encode_rune r = take n s \<and> 1 \<le> n \<and> n \<le> length s"
proof -
  obtain c cs where s: "s = c # cs" using assms(2) by (cases s) auto
  define b :: nat where "b = of_char c"
  have c: "char_of b = c" by (simp add: b_def)
  consider "b < 0x80" | "0xC2 \<le> b" "b < 0xE0" | "0xE0 \<le> b" "b < 0xF0" | "0xF0 \<le> b" "b < 0xF5"
    | "\<not> b < 0x80 \<and> b < 0xC2" | "\<not> b < 0xF5" by linarith
  then show ?thesis
  proof cases
    case 1
    then show ?thesis using assms s c
      by (auto simp: decode_rune_def Let_def b_def [symmetric] encode_rune_def scalar_def surrogate_def)
  next
    case 2
    then obtain c1 t where cs: "cs = c1 # t" "byte_between 0x80 0xBF c1" "n = 2" "r = (b - 0xC0) * 64 + cont_bits c1"
      using assms s
      by (auto simp: decode_rune_def Let_def b_def [symmetric] split: list.splits if_splits)
    define d :: nat where "d = of_char c1"
    have d: "char_of d = c1" "0x80 \<le> d" "d \<le> 0xBF" using cs(2) by (simp_all add: d_def byte_between_def)
    define x where "x = b - 0xC0"
    define y where "y = d - 0x80"
    have xy: "b = 0xC0 + x" "d = 0x80 + y" "2 \<le> x" "x < 32" "y < 64" using d 2 unfolding x_def y_def by auto
    have "r = x * 64 + y" using cs(4) by (simp add: cont_bits_def d_def [symmetric] x_def y_def)
    then have r: "r div 64 = b - 0xC0" "r mod 64 = d - 0x80" "0x80 \<le> r" "r < 0x800" using xy by simp_all
    then show ?thesis using 2 cs(1,3) s c d
      by (auto simp: encode_rune_def scalar_def surrogate_def)
  next
    case 3
    then obtain c1 c2 t where cs: "cs = c1 # c2 # t" "byte_between (if b = 0xE0 then 0xA0 else 0x80) (if b = 0xED then 0x9F else 0xBF) c1"
        "byte_between 0x80 0xBF c2" "n = 3" "r = ((b - 0xE0) * 64 + cont_bits c1) * 64 + cont_bits c2"
      using assms s
      by (auto simp: decode_rune_def Let_def b_def [symmetric] split: list.splits if_splits)
    define d where "d = (of_char c1 :: nat)"
    define e where "e = (of_char c2 :: nat)"
    have d: "char_of d = c1" "char_of e = c2" "0x80 \<le> d" "d \<le> 0xBF" "0x80 \<le> e" "e \<le> 0xBF" "b = 0xE0 \<Longrightarrow> 0xA0 \<le> d" "b = 0xED \<Longrightarrow> d \<le> 0x9F"
      using cs(2,3) by (auto simp: d_def e_def byte_between_def split: if_splits)
    define x where "x = b - 0xE0"
    define y where "y = d - 0x80"
    define z where "z = e - 0x80"
    have xyz: "b = 0xE0 + x" "d = 0x80 + y" "e = 0x80 + z" "x < 16" "y < 64" "z < 64" "x = 0 \<Longrightarrow> 32 \<le> y"
      using 3 d unfolding x_def y_def z_def by auto
    have y32: "x = 13 \<Longrightarrow> y < 32" using d(8) xyz(1,2) by simp
    have r: "r = (x * 64 + y) * 64 + z"
      using cs(5) by (simp add: cont_bits_def d_def [symmetric] e_def [symmetric] x_def y_def z_def)
    have q: "r mod 64 = z" "r div 64 mod 64 = y" "r div 4096 = x"
      unfolding div64_div64(1) r by (simp_all only: base64_join xyz)
    have bounds: "0x800 \<le> r" "r < 0x10000" "\<not> surrogate r"
    proof -
      have "x = 0 \<or> 1 \<le> x" by auto
      then show "0x800 \<le> r" using r xyz by auto
      show "r < 0x10000" using r xyz by auto
      have "x \<le> 12 \<or> x = 13 \<or> 14 \<le> x" by auto
      then show "\<not> surrogate r" using r xyz y32 unfolding surrogate_def by auto
    qed
    then show ?thesis using cs(1,4) s c d(1,2) q xyz(1-3)
      by (simp add: encode_rune_def scalar_def)
  next
    case 4
    then obtain c1 c2 c3 t where cs: "cs = c1 # c2 # c3 # t" "byte_between (if b = 0xF0 then 0x90 else 0x80) (if b = 0xF4 then 0x8F else 0xBF) c1"
        "byte_between 0x80 0xBF c2" "byte_between 0x80 0xBF c3" "n = 4"
        "r = (((b - 0xF0) * 64 + cont_bits c1) * 64 + cont_bits c2) * 64 + cont_bits c3"
      using assms s
      by (auto simp: decode_rune_def Let_def b_def [symmetric] split: list.splits if_splits)
    define d where "d = (of_char c1 :: nat)"
    define e where "e = (of_char c2 :: nat)"
    define f where "f = (of_char c3 :: nat)"
    have d: "char_of d = c1" "char_of e = c2" "char_of f = c3" "0x80 \<le> d" "d \<le> 0xBF" "0x80 \<le> e" "e \<le> 0xBF" "0x80 \<le> f" "f \<le> 0xBF"
        "b = 0xF0 \<Longrightarrow> 0x90 \<le> d" "b = 0xF4 \<Longrightarrow> d \<le> 0x8F"
      using cs(2-4) by (auto simp: d_def e_def f_def byte_between_def split: if_splits)
    define x where "x = b - 0xF0"
    define y where "y = d - 0x80"
    define z where "z = e - 0x80"
    define w where "w = f - 0x80"
    have xyz: "b = 0xF0 + x" "d = 0x80 + y" "e = 0x80 + z" "f = 0x80 + w" "x < 5" "y < 64" "z < 64" "w < 64"
        "x = 0 \<Longrightarrow> 16 \<le> y"
      using 4 d unfolding x_def y_def z_def w_def by auto
    have y16: "x = 4 \<Longrightarrow> y < 16" using d(11) xyz(1,2) by simp
    have r: "r = ((x * 64 + y) * 64 + z) * 64 + w"
      using cs(6) by (simp add: cont_bits_def d_def [symmetric] e_def [symmetric] f_def [symmetric] x_def y_def z_def w_def)
    have q: "r mod 64 = w" "r div 64 mod 64 = z" "r div 4096 mod 64 = y" "r div 262144 = x"
      unfolding div64_div64 r by (simp_all only: base64_join xyz)
    have bounds: "0x10000 \<le> r" "r < 0x110000" "\<not> surrogate r"
    proof -
      have "x = 0 \<or> 1 \<le> x" by auto
      then show low: "0x10000 \<le> r" using r xyz by auto
      have "x \<le> 3 \<or> x = 4" using xyz by auto
      then show "r < 0x110000" using r xyz y16 by auto
      show "\<not> surrogate r" using low by (simp add: surrogate_def)
    qed
    then show ?thesis using cs(1,5) s c d(1-3) q xyz(1-4)
      by (simp add: encode_rune_def scalar_def)
  next
    case 5
    then show ?thesis using assms s by (simp add: decode_rune_def Let_def b_def [symmetric])
  next
    case 6
    then show ?thesis using assms s by (simp add: decode_rune_def Let_def b_def [symmetric])
  qed
qed

lemma encode_rune_ne: "\<exists>c cs. encode_rune r = c # cs"
  by (simp add: encode_rune_def Let_def)

text \<open>Decoding what was encoded, and encoding what was decoded.\<close>

lemma runes_write:
  assumes "\<forall>r \<in> set rs. scalar r"
  shows "runes (write_runes rs) = rs" and "utf8_valid (write_runes rs)"
proof -
  have "runes (write_runes rs) = rs \<and> utf8_valid (write_runes rs)"
    using assms
  proof (induction rs)
    case Nil
    then show ?case by simp
  next
    case (Cons r rs)
    obtain c cs where c: "encode_rune r = c # cs" using encode_rune_ne by blast
    have d: "decode_rune (c # cs @ write_runes rs) = (r, Suc (length cs))"
      using decode_encode_rune [of r "write_runes rs"] Cons.prems by (simp add: c)
    have "(r, Suc (length cs)) \<noteq> (rune_error, 1)"
    proof
      assume "(r, Suc (length cs)) = (rune_error, 1)"
      then have "length (encode_rune rune_error) = 1" using c by (cases "r = rune_error") auto
      then show False by (simp add: encode_rune_def Let_def scalar_def surrogate_def rune_error_def)
    qed
    then show ?case using Cons c d by simp
  qed
  then show "runes (write_runes rs) = rs" and "utf8_valid (write_runes rs)" by simp_all
qed

lemma write_runes_runes:
  assumes "utf8_valid s"
  shows "write_runes (runes s) = s" and "\<forall>r \<in> set (runes s). scalar r"
proof -
  have "write_runes (runes s) = s \<and> (\<forall>r \<in> set (runes s). scalar r)"
    using assms
  proof (induction s rule: runes.induct)
    case 1
    then show ?case by simp
  next
    case (2 c cs)
    obtain r n where d: "decode_rune (c # cs) = (r, n)" by fastforce
    have v: "scalar r" "encode_rune r = take n (c # cs)" "1 \<le> n" "n \<le> length (c # cs)"
      using decode_valid [OF d] 2(2) d by auto
    then have "encode_rune r @ drop (n - 1) cs = c # cs"
      using append_take_drop_id [of n "c # cs"] by (cases n) auto
    then show ?case using 2 d v(1) by auto
  qed
  then show "write_runes (runes s) = s" and "\<forall>r \<in> set (runes s). scalar r" by simp_all
qed

lemma utf8_valid_iff: "utf8_valid s \<longleftrightarrow> (\<exists>rs. (\<forall>r \<in> set rs. scalar r) \<and> s = write_runes rs)"
  using runes_write write_runes_runes by metis

lemma utf8_valid_append [simp, intro]: "utf8_valid s \<Longrightarrow> utf8_valid t \<Longrightarrow> utf8_valid (s @ t)"
  unfolding utf8_valid_iff by (metis set_append Un_iff write_runes_simps(3))

lemma runes_append: "utf8_valid s \<Longrightarrow> utf8_valid t \<Longrightarrow> runes (s @ t) = runes s @ runes t"
  using write_runes_runes [of s] write_runes_runes [of t] runes_write(1) [of "runes s @ runes t"] by auto

lemma runes_inj: "utf8_valid s \<Longrightarrow> utf8_valid t \<Longrightarrow> runes s = runes t \<Longrightarrow> s = t"
  by (metis write_runes_runes(1))

definition ascii :: "string \<Rightarrow> bool" where
  "ascii s \<longleftrightarrow> (\<forall>c \<in> set s. of_char c < (0x80 :: nat))"

lemma ascii_simps [simp]:
  "ascii []" "ascii (c # s) \<longleftrightarrow> of_char c < (0x80 :: nat) \<and> ascii s" "ascii (s @ t) \<longleftrightarrow> ascii s \<and> ascii t"
  by (auto simp: ascii_def)

lemma decode_ascii: "of_char c < (0x80 :: nat) \<Longrightarrow> decode_rune (c # cs) = (of_char c, 1)"
  by (simp add: decode_rune_def Let_def)

lemma ascii_valid: "ascii s \<Longrightarrow> utf8_valid s"
  by (induction s) (simp_all add: decode_ascii rune_error_def)

lemma runes_ascii: "ascii s \<Longrightarrow> runes s = map of_char s"
  by (induction s) (simp_all add: decode_ascii)

section \<open>UTF-16\<close>

text \<open>\<^verbatim>\<open>utf16.Encode\<close>: one unit, or a surrogate pair.\<close>

definition utf16_units :: "rune \<Rightarrow> nat list" where
  "utf16_units r =
    (if \<not> scalar r then [rune_error]
     else if r < 0x10000 then [r]
     else [0xD800 + (r - 0x10000) div 1024, 0xDC00 + (r - 0x10000) mod 1024])"

definition utf16 :: "string \<Rightarrow> nat list" where
  "utf16 s = concat (map utf16_units (runes s))"

lemma utf16_pair:
  assumes "0x10000 \<le> r" and "r < 0x110000"
  shows "surrogate (0xD800 + (r - 0x10000) div 1024)"
    and "r = 0x10000 + (r - 0x10000) div 1024 * 1024 + (r - 0x10000) mod 1024"
proof -
  have "(r - 0x10000) div 1024 < 1024" using assms by (simp add: less_mult_imp_div_less)
  then show "surrogate (0xD800 + (r - 0x10000) div 1024)" by (simp add: surrogate_def)
  have "(r - 0x10000) div 1024 * 1024 + (r - 0x10000) mod 1024 = r - 0x10000" by (rule div_mult_mod_eq)
  then show "r = 0x10000 + (r - 0x10000) div 1024 * 1024 + (r - 0x10000) mod 1024" using assms by linarith
qed

lemma utf16_units_inj:
  assumes "scalar r" and "scalar r'" and "utf16_units r @ us = utf16_units r' @ us'"
  shows "r = r' \<and> us = us'"
proof -
  have bmp: "\<not> surrogate r" "\<not> surrogate r'" "r < 0x110000" "r' < 0x110000" using assms(1,2) by (simp_all add: scalar_def)
  consider "r < 0x10000" "r' < 0x10000" | "r < 0x10000" "0x10000 \<le> r'" | "0x10000 \<le> r" "r' < 0x10000"
    | "0x10000 \<le> r" "0x10000 \<le> r'" by linarith
  then show ?thesis
  proof cases
    case 1
    then show ?thesis using assms by (simp add: utf16_units_def)
  next
    case 2
    then have "r = 0xD800 + (r' - 0x10000) div 1024" using assms by (simp add: utf16_units_def)
    then show ?thesis using bmp(1) utf16_pair(1) [OF 2(2) bmp(4)] by simp
  next
    case 3
    then have "r' = 0xD800 + (r - 0x10000) div 1024" using assms by (simp add: utf16_units_def)
    then show ?thesis using bmp(2) utf16_pair(1) [OF 3(1) bmp(3)] by simp
  next
    case 4
    then have "(r - 0x10000) div 1024 = (r' - 0x10000) div 1024" "(r - 0x10000) mod 1024 = (r' - 0x10000) mod 1024" "us = us'"
      using assms by (simp_all add: utf16_units_def)
    then show ?thesis using utf16_pair(2) [OF 4(1) bmp(3)] utf16_pair(2) [OF 4(2) bmp(4)] by simp
  qed
qed

lemma utf16_list_inj:
  "\<forall>r \<in> set rs. scalar r \<Longrightarrow> \<forall>r \<in> set rs'. scalar r \<Longrightarrow>
    concat (map utf16_units rs) = concat (map utf16_units rs') \<Longrightarrow> rs = rs'"
proof (induction rs arbitrary: rs')
  case Nil
  then show ?case by (cases rs') (simp_all add: utf16_units_def split: if_splits)
next
  case (Cons r rs)
  then obtain r' rs1 where rs': "rs' = r' # rs1" by (cases rs') (simp_all add: utf16_units_def split: if_splits)
  have "r = r' \<and> concat (map utf16_units rs) = concat (map utf16_units rs1)"
    using Cons.prems unfolding rs' by (intro utf16_units_inj) simp_all
  then show ?case using Cons.IH [of rs1] Cons.prems unfolding rs' by simp
qed

lemma utf16_inj:
  assumes "utf8_valid s" and "utf8_valid t" and "utf16 s = utf16 t"
  shows "s = t"
  using utf16_list_inj [OF write_runes_runes(2) [OF assms(1)] write_runes_runes(2) [OF assms(2)]] assms(3)
    runes_inj [OF assms(1,2)] unfolding utf16_def by blast

lemma ascii_prefix [simp]: "ascii s \<Longrightarrow> utf8_valid (s @ t) \<longleftrightarrow> utf8_valid t"
  by (induction s) (simp_all add: decode_ascii rune_error_def)

lemma utf8_tail: "of_char c < (0x80 :: nat) \<Longrightarrow> utf8_valid (c # cs) \<longleftrightarrow> utf8_valid cs"
  using ascii_prefix [of "[c]" cs] by simp

lemma utf8_encode_rune: "utf8_valid (encode_rune r)"
proof -
  have "encode_rune r = write_runes [if scalar r then r else rune_error]"
    by (cases "scalar r") (simp_all add: encode_rune_def scalar_def [of rune_error] surrogate_def [of rune_error] rune_error_def)
  moreover have "scalar rune_error" by (simp add: scalar_def surrogate_def rune_error_def)
  then have "scalar (if scalar r then r else rune_error)" by simp
  ultimately show ?thesis using runes_write(2) [of "[if scalar r then r else rune_error]"] by simp
qed

lemma encode_rune_high:
  assumes "encode_rune r = c # cs" and "(0x80 :: nat) \<le> of_char c"
  shows "\<forall>b \<in> set (encode_rune r). (0x80 :: nat) \<le> of_char b"
proof -
  have h: "(0x80 :: nat) \<le> of_char (char_of (0x80 + a mod 64))" for a :: nat
    using mod64_le [of a] by (simp add: of_char_char_of)
  show ?thesis
    using assms h unfolding encode_rune_def Let_def by (auto split: if_splits)
qed

text \<open>The first rune of valid text, as the bytes that encode it.\<close>

lemma utf8_first:
  assumes "utf8_valid (c # cs)"
  obtains r rest where "scalar r" "c # cs = encode_rune r @ rest" "utf8_valid rest"
proof -
  obtain rs where rs: "\<forall>r \<in> set rs. scalar r" "c # cs = write_runes rs"
    using assms unfolding utf8_valid_iff by blast
  then obtain r rs' where "rs = r # rs'" by (cases rs) auto
  then show thesis using that [of r "write_runes rs'"] rs runes_write(2) by auto
qed

declare utf8_valid.simps(2) [simp del] runes.simps(2) [simp del]

end
