(* ===== verification/Json.thy ===== *)
theory Json
  imports Utf8 Decimal
begin

text \<open>
  JSON documents and the token stream of encoding/json's \<^verbatim>\<open>Decoder\<close> (\<^verbatim>\<open>Token\<close> and \<^verbatim>\<open>More\<close>, with
  \<^verbatim>\<open>UseNumber\<close>), on which the signer's parser and the server's limit check are built. The decoder
  reads valid UTF-8, where unquoting a raw character copies its bytes.
\<close>

section \<open>Documents\<close>

text \<open>
  The values of signer/internal/canonical: an \<^verbatim>\<open>*Object\<close> is its keys in the order they were
  parsed, each with its value; a \<^verbatim>\<open>json.Number\<close> is its literal.
\<close>

datatype json = JNull | JBool bool | JNum string | JStr string | JArr "json list" | JObj "(string \<times> json) list"

datatype token = TDelim char | TNull | TBool bool | TNum string | TStr string

fun toks :: "json \<Rightarrow> token list" and toks_elems :: "json list \<Rightarrow> token list" and
  toks_members :: "(string \<times> json) list \<Rightarrow> token list" where
  "toks JNull = [TNull]"
| "toks (JBool b) = [TBool b]"
| "toks (JNum n) = [TNum n]"
| "toks (JStr s) = [TStr s]"
| "toks (JArr vs) = TDelim (CHR ''['') # toks_elems vs @ [TDelim (CHR '']'')]"
| "toks (JObj kvs) = TDelim (CHR ''{'') # toks_members kvs @ [TDelim (CHR ''}'')]"
| "toks_elems [] = []"
| "toks_elems (v # vs) = toks v @ toks_elems vs"
| "toks_members [] = []"
| "toks_members ((k, v) # kvs) = TStr k # toks v @ toks_members kvs"

section \<open>Literals\<close>

definition json_space :: "char \<Rightarrow> bool" where
  "json_space c \<longleftrightarrow> c = CHR '' '' \<or> c = CHR 0x09 \<or> c = CHR 0x0A \<or> c = CHR 0x0D"

definition is_digit :: "char \<Rightarrow> bool" where
  "is_digit c \<longleftrightarrow> 48 \<le> (of_char c :: nat) \<and> of_char c \<le> (57 :: nat)"

text \<open>The scanner's number grammar, each part the longest that matches.\<close>

definition scan_int :: "string \<Rightarrow> (string \<times> string) option" where
  "scan_int s =
    (case s of [] \<Rightarrow> None
     | c # cs \<Rightarrow> if c = CHR ''0'' then Some ([c], cs)
                 else if is_digit c then Some (takeWhile is_digit s, dropWhile is_digit s)
                 else None)"

definition scan_some_digits :: "string \<Rightarrow> (string \<times> string) option" where
  "scan_some_digits s = (if takeWhile is_digit s = [] then None else Some (takeWhile is_digit s, dropWhile is_digit s))"

definition scan_frac :: "string \<Rightarrow> (string \<times> string) option" where
  "scan_frac s =
    (case s of [] \<Rightarrow> Some ([], [])
     | c # cs \<Rightarrow> if c = CHR ''.'' then map_option (\<lambda>(d, r). (c # d, r)) (scan_some_digits cs) else Some ([], s))"

definition scan_exp :: "string \<Rightarrow> (string \<times> string) option" where
  "scan_exp s =
    (case s of [] \<Rightarrow> Some ([], [])
     | c # cs \<Rightarrow>
       if c = CHR ''e'' \<or> c = CHR ''E'' then
         (case cs of [] \<Rightarrow> None
          | g # ds \<Rightarrow> if g = CHR ''+'' \<or> g = CHR ''-''
              then map_option (\<lambda>(d, r). (c # g # d, r)) (scan_some_digits ds)
              else map_option (\<lambda>(d, r). (c # d, r)) (scan_some_digits cs))
       else Some ([], s))"

definition scan_magnitude :: "string \<Rightarrow> (string \<times> string) option" where
  "scan_magnitude s =
    (case scan_int s of None \<Rightarrow> None
     | Some (i, s2) \<Rightarrow> (case scan_frac s2 of None \<Rightarrow> None
       | Some (f, s3) \<Rightarrow> (case scan_exp s3 of None \<Rightarrow> None | Some (e, s4) \<Rightarrow> Some (i @ f @ e, s4))))"

definition scan_number :: "string \<Rightarrow> (string \<times> string) option" where
  "scan_number s =
    (case s of [] \<Rightarrow> None
     | c # cs \<Rightarrow> if c = CHR ''-'' then map_option (\<lambda>(l, r). (c # l, r)) (scan_magnitude cs) else scan_magnitude s)"

text \<open>Strings, read and unquoted after the opening quote.\<close>

definition hex_val :: "char \<Rightarrow> nat option" where
  "hex_val c =
    (let n = of_char c :: nat in
     if 48 \<le> n \<and> n \<le> 57 then Some (n - 48)
     else if 97 \<le> n \<and> n \<le> 102 then Some (n - 87)
     else if 65 \<le> n \<and> n \<le> 70 then Some (n - 55)
     else None)"

definition hex4 :: "char \<Rightarrow> char \<Rightarrow> char \<Rightarrow> char \<Rightarrow> nat option" where
  "hex4 a b c d =
    (case (hex_val a, hex_val b, hex_val c, hex_val d) of
       (Some w, Some x, Some y, Some z) \<Rightarrow> Some (((w * 16 + x) * 16 + y) * 16 + z)
     | _ \<Rightarrow> None)"

text \<open>\<^verbatim>\<open>utf16.DecodeRune\<close>\<close>

definition pair_rune :: "rune \<Rightarrow> rune \<Rightarrow> rune" where
  "pair_rune r1 r2 =
    (if 0xD800 \<le> r1 \<and> r1 < 0xDC00 \<and> 0xDC00 \<le> r2 \<and> r2 < 0xE000
     then (r1 - 0xD800) * 1024 + (r2 - 0xDC00) + 0x10000 else rune_error)"

definition simple_escape :: "char \<Rightarrow> char option" where
  "simple_escape e =
    (if e = CHR 0x22 \<or> e = CHR 0x5C \<or> e = CHR ''/'' then Some e
     else if e = CHR ''b'' then Some (CHR 0x08)
     else if e = CHR ''f'' then Some (CHR 0x0C)
     else if e = CHR ''n'' then Some (CHR 0x0A)
     else if e = CHR ''r'' then Some (CHR 0x0D)
     else if e = CHR ''t'' then Some (CHR 0x09)
     else None)"

text \<open>The rune of \<open>\uXXXX\<close> and what follows it: a surrogate takes its partner, if one follows.\<close>

fun unicode_escape :: "string \<Rightarrow> (rune \<times> string) option" where
  "unicode_escape (a # b # c # d # rest) =
    (case hex4 a b c d of None \<Rightarrow> None
     | Some r \<Rightarrow>
       if surrogate r then
         (case rest of e # u # a' # b' # c' # d' # rest' \<Rightarrow>
            if e = CHR 0x5C \<and> u = CHR ''u'' then
              (case hex4 a' b' c' d' of None \<Rightarrow> Some (rune_error, rest)
               | Some r' \<Rightarrow> if pair_rune r r' \<noteq> rune_error then Some (pair_rune r r', rest') else Some (rune_error, rest))
            else Some (rune_error, rest)
          | _ \<Rightarrow> Some (rune_error, rest))
       else Some (r, rest))"
| "unicode_escape _ = None"

lemma unicode_escape_shorter: "unicode_escape s = Some (r, t) \<Longrightarrow> length t < length s"
  by (cases s rule: unicode_escape.cases) (auto split: option.splits if_splits list.splits)

function scan_string :: "string \<Rightarrow> (string \<times> string) option" where
  "scan_string s =
    (case s of [] \<Rightarrow> None
     | c # cs \<Rightarrow>
       if c = CHR 0x22 then Some ([], cs)
       else if c = CHR 0x5C then
         (case cs of [] \<Rightarrow> None
          | e # ds \<Rightarrow>
            if e = CHR ''u'' then
              (case unicode_escape ds of None \<Rightarrow> None
               | Some (r, rest) \<Rightarrow> map_option (\<lambda>(t, u). (encode_rune r @ t, u)) (scan_string rest))
            else (case simple_escape e of None \<Rightarrow> None
               | Some x \<Rightarrow> map_option (\<lambda>(t, u). (x # t, u)) (scan_string ds)))
       else if of_char c < (0x20 :: nat) then None
       else map_option (\<lambda>(t, u). (c # t, u)) (scan_string cs))"
  by pat_completeness auto
termination
  by (relation "measure length") (auto dest: unicode_escape_shorter)

declare scan_string.simps [simp del]

lemma scan_string_Nil [simp]: "scan_string [] = None"
  by (simp add: scan_string.simps)

definition strip_prefix :: "string \<Rightarrow> string \<Rightarrow> string option" where
  "strip_prefix p s = (if take (length p) s = p then Some (drop (length p) s) else None)"

text \<open>A scalar value that starts with the character \<open>c\<close>.\<close>

definition scan_scalar :: "char \<Rightarrow> string \<Rightarrow> (token \<times> string) option" where
  "scan_scalar c cs =
    (if c = CHR 0x22 then map_option (\<lambda>(t, r). (TStr t, r)) (scan_string cs)
     else if c = CHR ''t'' then map_option (\<lambda>r. (TBool True, r)) (strip_prefix ''rue'' cs)
     else if c = CHR ''f'' then map_option (\<lambda>r. (TBool False, r)) (strip_prefix ''alse'' cs)
     else if c = CHR ''n'' then map_option (\<lambda>r. (TNull, r)) (strip_prefix ''ull'' cs)
     else map_option (\<lambda>(l, r). (TNum l, r)) (scan_number (c # cs)))"

section \<open>The decoder\<close>

datatype token_state = TopValue | ArrayStart | ArrayValue | ArrayComma
  | ObjectStart | ObjectKey | ObjectColon | ObjectValue | ObjectComma

record decoder =
  dk_input :: string
  dk_state :: token_state
  dk_stack :: "token_state list"

datatype token_error = TokEOF | TokSyntax

definition new_decoder :: "string \<Rightarrow> decoder" where
  "new_decoder s = \<lparr>dk_input = s, dk_state = TopValue, dk_stack = []\<rparr>"

definition value_allowed :: "token_state \<Rightarrow> bool" where
  "value_allowed st \<longleftrightarrow> st = TopValue \<or> st = ArrayStart \<or> st = ArrayValue \<or> st = ObjectValue"

definition value_end :: "token_state \<Rightarrow> token_state" where
  "value_end st =
    (if st = ArrayStart \<or> st = ArrayValue then ArrayComma
     else if st = ObjectValue then ObjectComma
     else st)"

text \<open>Closing a container returns to the state saved when it was opened.\<close>

definition pop_state :: "char \<Rightarrow> string \<Rightarrow> token_state list \<Rightarrow> token_error + token \<times> decoder" where
  "pop_state c cs stk =
    (case stk of [] \<Rightarrow> Inl TokSyntax
     | st # stk' \<Rightarrow> Inr (TDelim c, \<lparr>dk_input = cs, dk_state = value_end st, dk_stack = stk'\<rparr>))"

fun scan_token :: "token_state \<Rightarrow> token_state list \<Rightarrow> string \<Rightarrow> token_error + token \<times> decoder" where
  "scan_token st stk [] = Inl TokEOF"
| "scan_token st stk (c # cs) =
    (if json_space c then scan_token st stk cs
     else if c = CHR ''['' then
       (if value_allowed st then Inr (TDelim c, \<lparr>dk_input = cs, dk_state = ArrayStart, dk_stack = st # stk\<rparr>) else Inl TokSyntax)
     else if c = CHR '']'' then
       (if st = ArrayStart \<or> st = ArrayComma then pop_state c cs stk else Inl TokSyntax)
     else if c = CHR ''{'' then
       (if value_allowed st then Inr (TDelim c, \<lparr>dk_input = cs, dk_state = ObjectStart, dk_stack = st # stk\<rparr>) else Inl TokSyntax)
     else if c = CHR ''}'' then
       (if st = ObjectStart \<or> st = ObjectComma then pop_state c cs stk else Inl TokSyntax)
     else if c = CHR '':'' then
       (if st = ObjectColon then scan_token ObjectValue stk cs else Inl TokSyntax)
     else if c = CHR '','' then
       (if st = ArrayComma then scan_token ArrayValue stk cs
        else if st = ObjectComma then scan_token ObjectKey stk cs else Inl TokSyntax)
     else if c = CHR 0x22 \<and> (st = ObjectStart \<or> st = ObjectKey) then
       (case scan_string cs of None \<Rightarrow> Inl TokSyntax
        | Some (t, r) \<Rightarrow> Inr (TStr t, \<lparr>dk_input = r, dk_state = ObjectColon, dk_stack = stk\<rparr>))
     else if value_allowed st then
       (case scan_scalar c cs of None \<Rightarrow> Inl TokSyntax
        | Some (t, r) \<Rightarrow> Inr (t, \<lparr>dk_input = r, dk_state = value_end st, dk_stack = stk\<rparr>))
     else Inl TokSyntax)"

definition next_token :: "decoder \<Rightarrow> token_error + token \<times> decoder" where
  "next_token d = scan_token (dk_state d) (dk_stack d) (dk_input d)"

definition has_more :: "decoder \<Rightarrow> bool" where
  "has_more d = (case dropWhile json_space (dk_input d) of [] \<Rightarrow> False | c # _ \<Rightarrow> c \<noteq> CHR '']'' \<and> c \<noteq> CHR ''}'')"

section \<open>Facts of the decoder\<close>

fun reads :: "decoder \<Rightarrow> token list \<Rightarrow> decoder \<Rightarrow> bool" where
  "reads d [] d' \<longleftrightarrow> d' = d"
| "reads d (t # ts) d' \<longleftrightarrow> (\<exists>d1. next_token d = Inr (t, d1) \<and> reads d1 ts d')"

lemma reads_append: "reads d (ts @ us) d' \<longleftrightarrow> (\<exists>d1. reads d ts d1 \<and> reads d1 us d')"
  by (induction ts arbitrary: d) auto

lemma reads_det: "reads d ts d1 \<Longrightarrow> reads d ts d2 \<Longrightarrow> d1 = d2"
  by (induction ts arbitrary: d) auto

definition closing :: "token \<Rightarrow> bool" where
  "closing t \<longleftrightarrow> t = TDelim (CHR '']'') \<or> t = TDelim (CHR ''}'')"

text \<open>The state after a value, by the state before it.\<close>

definition value_position :: "token_state \<Rightarrow> bool" where
  "value_position st \<longleftrightarrow> st \<noteq> ObjectStart \<and> st \<noteq> ObjectKey \<and> st \<noteq> ObjectComma"

definition after_value :: "token_state \<Rightarrow> token_state" where
  "after_value st =
    (if st = ArrayStart \<or> st = ArrayValue \<or> st = ArrayComma then ArrayComma
     else if st = ObjectColon \<or> st = ObjectValue then ObjectComma
     else st)"

lemma after_value_simps [simp]:
  "after_value TopValue = TopValue" "after_value ArrayStart = ArrayComma" "after_value ArrayValue = ArrayComma"
  "after_value ArrayComma = ArrayComma" "after_value ObjectColon = ObjectComma" "after_value ObjectValue = ObjectComma"
  by (simp_all add: after_value_def)

lemma value_position_simps [simp]:
  "value_position TopValue" "value_position ArrayStart" "value_position ArrayValue" "value_position ArrayComma"
  "value_position ObjectColon" "value_position ObjectValue" "\<not> value_position ObjectStart" "\<not> value_position ObjectKey"
  "\<not> value_position ObjectComma"
  by (simp_all add: value_position_def)

lemma value_end_simps [simp]:
  "value_end TopValue = TopValue" "value_end ArrayStart = ArrayComma" "value_end ArrayValue = ArrayComma"
  "value_end ObjectValue = ObjectComma"
  by (simp_all add: value_end_def)

lemma scan_number_split: "scan_number s = Some (l, r) \<Longrightarrow> s = l @ r \<and> l \<noteq> []"
proof -
  have d: "s = l @ r \<and> l \<noteq> []" if "scan_some_digits s = Some (l, r)" for s l r
    using that by (auto simp: scan_some_digits_def split: if_splits)
  have i: "s = l @ r \<and> l \<noteq> []" if "scan_int s = Some (l, r)" for s l r
    using that by (auto simp: scan_int_def split: list.splits if_splits)
  have f: "s = l @ r" if "scan_frac s = Some (l, r)" for s l r
    using that d by (auto simp: scan_frac_def split: list.splits if_splits)
  have e: "s = l @ r" if "scan_exp s = Some (l, r)" for s l r
    using that d by (fastforce simp: scan_exp_def split: list.splits if_splits)
  have m: "s = l @ r \<and> l \<noteq> []" if "scan_magnitude s = Some (l, r)" for s l r
    using that i f e by (fastforce simp: scan_magnitude_def split: option.splits)
  show "s = l @ r \<and> l \<noteq> []" if "scan_number s = Some (l, r)"
    using that m by (fastforce simp: scan_number_def split: list.splits if_splits)
qed

lemma scan_string_cases:
  assumes "scan_string s = Some (t, r)"
  obtains (close) "s = CHR 0x22 # r" "t = []"
  | (unicode) ds x rest t' where "s = CHR 0x5C # CHR ''u'' # ds" "unicode_escape ds = Some (x, rest)"
      "scan_string rest = Some (t', r)" "t = encode_rune x @ t'"
  | (simple) e ds x t' where "s = CHR 0x5C # e # ds" "e \<noteq> CHR ''u''" "simple_escape e = Some x"
      "scan_string ds = Some (t', r)" "t = x # t'"
  | (plain) c cs t' where "s = c # cs" "c \<noteq> CHR 0x22" "c \<noteq> CHR 0x5C" "\<not> of_char c < (0x20 :: nat)"
      "scan_string cs = Some (t', r)" "t = c # t'"
proof (cases s)
  case Nil
  then show thesis using assms by (simp add: scan_string.simps [of s])
next
  case (Cons c cs)
  note eq = assms [unfolded Cons, unfolded scan_string.simps [of "c # cs"] list.case]
  consider "c = CHR 0x22" | "c = CHR 0x5C" | "c \<noteq> CHR 0x22" "c \<noteq> CHR 0x5C" by blast
  then show thesis
  proof cases
    case 1
    then show thesis using eq close Cons by simp
  next
    case 2
    then obtain e ds where cs: "cs = e # ds" using eq by (cases cs) simp_all
    show thesis
    proof (cases "e = CHR ''u''")
      case True
      obtain x rest where u: "unicode_escape ds = Some (x, rest)" using eq 2 cs True by (cases "unicode_escape ds") auto
      then obtain t' where "scan_string rest = Some (t', r)" "t = encode_rune x @ t'" using eq 2 cs True by auto
      then show thesis using unicode u Cons 2 cs True by blast
    next
      case False
      obtain x where x: "simple_escape e = Some x" using eq 2 cs False by (cases "simple_escape e") auto
      then obtain t' where "scan_string ds = Some (t', r)" "t = x # t'" using eq 2 cs False by auto
      then show thesis using simple x Cons 2 cs False by blast
    qed
  next
    case 3
    then have "\<not> of_char c < (0x20 :: nat)" using eq by (auto split: if_splits)
    moreover obtain t' where "scan_string cs = Some (t', r)" "t = c # t'" using eq 3 calculation by auto
    ultimately show thesis using plain Cons 3 by blast
  qed
qed

lemma scan_string_shorter: "scan_string s = Some (t, r) \<Longrightarrow> length r < length s"
proof (induction s arbitrary: t r rule: length_induct)
  case (1 s)
  from "1.prems" show ?case
  proof (cases rule: scan_string_cases)
    case (unicode ds x rest t')
    then have "length r < length rest" using "1.IH" unicode_escape_shorter by fastforce
    then show ?thesis using unicode unicode_escape_shorter by fastforce
  next
    case (simple e ds x t')
    then have "length r < length ds" using "1.IH" by simp
    then show ?thesis using simple by simp
  next
    case (plain c cs t')
    then have "length r < length cs" using "1.IH" by simp
    then show ?thesis using plain by simp
  qed simp
qed

lemma scan_scalar_shorter: "scan_scalar c cs = Some (t, r) \<Longrightarrow> length r \<le> length cs"
proof -
  have p: "length r \<le> length cs" if "strip_prefix p cs = Some r" for p
    using that by (auto simp: strip_prefix_def split: if_splits)
  have n: "length r \<le> length cs" if "scan_number (c # cs) = Some (l, r)" for l
    using scan_number_split [OF that] by (cases l) auto
  have s: "length r \<le> length cs" if "scan_string cs = Some (u, r)" for u
    using scan_string_shorter [OF that] by simp
  show "scan_scalar c cs = Some (t, r) \<Longrightarrow> length r \<le> length cs"
    using p n s by (auto simp: scan_scalar_def split: if_splits)
qed

lemma scan_token_cases:
  assumes "scan_token st stk s = Inr (t, d)"
  obtains (space) c cs where "s = c # cs" "json_space c" "scan_token st stk cs = Inr (t, d)"
  | (colon) cs where "s = CHR '':'' # cs" "st = ObjectColon" "scan_token ObjectValue stk cs = Inr (t, d)"
  | (array_comma) cs where "s = CHR '','' # cs" "st = ArrayComma" "scan_token ArrayValue stk cs = Inr (t, d)"
  | (object_comma) cs where "s = CHR '','' # cs" "st = ObjectComma" "scan_token ObjectKey stk cs = Inr (t, d)"
  | (open_array) cs where "s = CHR ''['' # cs" "value_allowed st" "t = TDelim (CHR ''['')"
      "d = \<lparr>dk_input = cs, dk_state = ArrayStart, dk_stack = st # stk\<rparr>"
  | (open_object) cs where "s = CHR ''{'' # cs" "value_allowed st" "t = TDelim (CHR ''{'')"
      "d = \<lparr>dk_input = cs, dk_state = ObjectStart, dk_stack = st # stk\<rparr>"
  | (close_array) cs st' stk' where "s = CHR '']'' # cs" "st = ArrayStart \<or> st = ArrayComma" "stk = st' # stk'"
      "t = TDelim (CHR '']'')" "d = \<lparr>dk_input = cs, dk_state = value_end st', dk_stack = stk'\<rparr>"
  | (close_object) cs st' stk' where "s = CHR ''}'' # cs" "st = ObjectStart \<or> st = ObjectComma" "stk = st' # stk'"
      "t = TDelim (CHR ''}'')" "d = \<lparr>dk_input = cs, dk_state = value_end st', dk_stack = stk'\<rparr>"
  | (key) cs k r where "s = CHR 0x22 # cs" "st = ObjectStart \<or> st = ObjectKey" "scan_string cs = Some (k, r)" "t = TStr k"
      "d = \<lparr>dk_input = r, dk_state = ObjectColon, dk_stack = stk\<rparr>"
  | (scalar) c cs r where "s = c # cs" "\<not> json_space c" "c \<notin> set ''[]{}:,''" "value_allowed st" "scan_scalar c cs = Some (t, r)"
      "d = \<lparr>dk_input = r, dk_state = value_end st, dk_stack = stk\<rparr>"
proof (cases s)
  case Nil
  then show thesis using assms by simp
next
  case (Cons c cs)
  note eq = assms [unfolded Cons scan_token.simps]
  show thesis
  proof (cases "json_space c")
    case True
    then show thesis using eq space Cons by simp
  next
    case sp: False
    have distinct: "\<not> json_space (CHR 0x22)" by (simp add: json_space_def)
    consider "c = CHR ''[''" | "c = CHR '']''" | "c = CHR ''{''" | "c = CHR ''}''" | "c = CHR '':''" | "c = CHR '',''"
      | "c \<notin> set ''[]{}:,''" by auto
    then show thesis
    proof cases
      case 1
      then show thesis using eq sp open_array Cons by (simp split: if_splits)
    next
      case 2
      then show thesis using eq sp close_array Cons by (simp add: pop_state_def split: if_splits list.splits)
    next
      case 3
      then show thesis using eq sp open_object Cons by (simp split: if_splits)
    next
      case 4
      then show thesis using eq sp close_object Cons by (simp add: pop_state_def split: if_splits list.splits)
    next
      case 5
      then show thesis using eq sp colon Cons by (simp split: if_splits)
    next
      case 6
      then show thesis using eq sp array_comma object_comma Cons by (simp split: if_splits)
    next
      case 7
      then have no: "c \<noteq> CHR ''[''" "c \<noteq> CHR '']''" "c \<noteq> CHR ''{''" "c \<noteq> CHR ''}''" "c \<noteq> CHR '':''" "c \<noteq> CHR '',''" by simp_all
      note eq' = eq [unfolded if_not_P [OF sp] no [THEN if_not_P]]
      show thesis
      proof (cases "c = CHR 0x22 \<and> (st = ObjectStart \<or> st = ObjectKey)")
        case True
        then show thesis using eq' key Cons by (auto split: option.splits)
      next
        case False
        then show thesis using eq' scalar Cons sp 7 by (auto split: option.splits if_splits)
      qed
    qed
  qed
qed

lemma scan_token_shorter: "scan_token st stk s = Inr (t, d) \<Longrightarrow> length (dk_input d) < length s"
proof (induction s arbitrary: st)
  case (Cons a s)
  from Cons.prems show ?case
    by (cases rule: scan_token_cases)
      (auto dest: Cons.IH scan_string_shorter scan_scalar_shorter intro: less_SucI le_imp_less_Suc)
qed simp

lemma next_token_shorter: "next_token d = Inr (t, d') \<Longrightarrow> length (dk_input d') < length (dk_input d)"
  unfolding next_token_def by (rule scan_token_shorter)

text \<open>
  What a token says of the state: closing tokens end a container and are what \<^verbatim>\<open>More\<close> stops at;
  in a value position an opening token enters a container and a scalar ends the value; in a key
  position a token is a key.
\<close>

lemma scan_scalar_no_delim: "scan_scalar c cs \<noteq> Some (TDelim x, r)"
  by (auto simp: scan_scalar_def)

lemma closing_state:
  "scan_token st stk s = Inr (t, d) \<Longrightarrow> closing t \<Longrightarrow> st = ArrayStart \<or> st = ArrayComma \<or> st = ObjectStart \<or> st = ObjectComma"
  by (induction s arbitrary: st) (simp, erule scan_token_cases, auto simp: closing_def value_allowed_def scan_scalar_no_delim)

lemma scan_token_more:
  assumes "scan_token st stk s = Inr (t, d)"
  shows "(case dropWhile json_space s of [] \<Rightarrow> False | c # _ \<Rightarrow> c \<noteq> CHR '']'' \<and> c \<noteq> CHR ''}'') \<longleftrightarrow> \<not> closing t"
  using assms
proof (induction s)
  case (Cons a s)
  from Cons.prems show ?case
  proof (cases rule: scan_token_cases)
    case (colon cs)
    then show ?thesis using closing_state by (fastforce simp: json_space_def)
  next
    case (array_comma cs)
    then show ?thesis using closing_state by (fastforce simp: json_space_def)
  next
    case (object_comma cs)
    then show ?thesis using closing_state by (fastforce simp: json_space_def)
  next
    case (scalar c cs r)
    then show ?thesis by (auto simp: closing_def scan_scalar_no_delim)
  qed (use Cons.IH in \<open>auto simp: json_space_def closing_def\<close>)
qed simp

lemma has_more_closing: "next_token d = Inr (t, d') \<Longrightarrow> has_more d \<longleftrightarrow> \<not> closing t"
  unfolding next_token_def has_more_def by (rule scan_token_more)

text \<open>The saved state of a container that was opened in a value position.\<close>

lemma scan_token_value:
  assumes "scan_token st stk s = Inr (t, d)" and "value_position st" and "\<not> closing t"
  shows "(t = TDelim (CHR ''['') \<longrightarrow> dk_state d = ArrayStart \<and> (\<exists>st'. dk_stack d = st' # stk \<and> value_end st' = after_value st)) \<and>
    (t = TDelim (CHR ''{'') \<longrightarrow> dk_state d = ObjectStart \<and> (\<exists>st'. dk_stack d = st' # stk \<and> value_end st' = after_value st)) \<and>
    ((\<exists>c. t = TDelim c) \<longrightarrow> t = TDelim (CHR ''['') \<or> t = TDelim (CHR ''{'')) \<and>
    ((\<nexists>c. t = TDelim c) \<longrightarrow> dk_state d = after_value st \<and> dk_stack d = stk)"
  using assms
proof (induction s arbitrary: st)
  case (Cons a s)
  from Cons.prems(1) show ?case
  proof (cases rule: scan_token_cases)
    case (space c cs)
    then show ?thesis using Cons.IH [of st] Cons.prems by simp
  next
    case (colon cs)
    then show ?thesis using Cons.IH [of ObjectValue] Cons.prems by simp
  next
    case (array_comma cs)
    then show ?thesis using Cons.IH [of ArrayValue] Cons.prems by simp
  next
    case (scalar c cs r)
    then show ?thesis using Cons.prems by (auto simp: scan_scalar_no_delim value_allowed_def)
  qed (use Cons.prems in \<open>auto simp: closing_def value_allowed_def\<close>)
qed simp

lemma scan_token_key:
  assumes "scan_token st stk s = Inr (t, d)" and "st = ObjectStart \<or> st = ObjectKey \<or> st = ObjectComma" and "\<not> closing t"
  shows "\<exists>k. t = TStr k \<and> dk_state d = ObjectColon \<and> dk_stack d = stk"
  using assms
proof (induction s arbitrary: st)
  case (Cons a s)
  from Cons.prems(1) show ?case
  proof (cases rule: scan_token_cases)
    case (space c cs)
    then show ?thesis using Cons.IH [of st] Cons.prems by simp
  next
    case (object_comma cs)
    then show ?thesis using Cons.IH [of ObjectKey] Cons.prems by simp
  qed (use Cons.prems in \<open>auto simp: closing_def value_allowed_def\<close>)
qed simp

lemma scan_token_close:
  assumes "scan_token st stk s = Inr (t, d)" and "closing t"
  shows "(st = ArrayStart \<or> st = ArrayComma \<longrightarrow> t = TDelim (CHR '']'')) \<and> (st = ObjectStart \<or> st = ObjectComma \<longrightarrow> t = TDelim (CHR ''}'')) \<and>
    (\<exists>st'. stk = st' # dk_stack d \<and> dk_state d = value_end st')"
  using assms
proof (induction s arbitrary: st)
  case (Cons a s)
  from Cons.prems(1) show ?case
  proof (cases rule: scan_token_cases)
    case (space c cs)
    then show ?thesis using Cons.IH [of st] Cons.prems by simp
  next
    case (colon cs)
    then show ?thesis using Cons.IH [of ObjectValue] Cons.prems by simp
  next
    case (array_comma cs)
    then show ?thesis using closing_state [OF array_comma(3) Cons.prems(2)] by simp
  next
    case (object_comma cs)
    then show ?thesis using closing_state [OF object_comma(3) Cons.prems(2)] by simp
  qed (use Cons.prems in \<open>auto simp: closing_def scan_scalar_no_delim\<close>)
qed simp

lemma token_value:
  assumes "next_token d = Inr (t, d')" and "value_position (dk_state d)" and "\<not> closing t"
  shows "t = TDelim (CHR ''['') \<Longrightarrow> dk_state d' = ArrayStart \<and> (\<exists>st. dk_stack d' = st # dk_stack d \<and> value_end st = after_value (dk_state d))"
    and "t = TDelim (CHR ''{'') \<Longrightarrow> dk_state d' = ObjectStart \<and> (\<exists>st. dk_stack d' = st # dk_stack d \<and> value_end st = after_value (dk_state d))"
    and "t = TDelim c \<Longrightarrow> c = CHR ''['' \<or> c = CHR ''{''"
    and "(\<And>c. t \<noteq> TDelim c) \<Longrightarrow> dk_state d' = after_value (dk_state d) \<and> dk_stack d' = dk_stack d"
  using scan_token_value [OF assms(1) [unfolded next_token_def] assms(2,3)] by auto

lemma token_key:
  assumes "next_token d = Inr (t, d')" and "dk_state d = ObjectStart \<or> dk_state d = ObjectKey \<or> dk_state d = ObjectComma" and "\<not> closing t"
  shows "\<exists>k. t = TStr k \<and> dk_state d' = ObjectColon \<and> dk_stack d' = dk_stack d"
  by (rule scan_token_key [OF assms(1) [unfolded next_token_def] assms(2,3)])

lemma token_close:
  assumes "next_token d = Inr (t, d')" and "closing t"
  shows "dk_state d = ArrayStart \<or> dk_state d = ArrayComma \<Longrightarrow> t = TDelim (CHR '']'')"
    and "dk_state d = ObjectStart \<or> dk_state d = ObjectComma \<Longrightarrow> t = TDelim (CHR ''}'')"
    and "\<exists>st. dk_stack d = st # dk_stack d' \<and> dk_state d' = value_end st"
  using scan_token_close [OF assms(1) [unfolded next_token_def] assms(2)] by auto

lemma token_closing_state:
  "next_token d = Inr (t, d') \<Longrightarrow> closing t \<Longrightarrow>
    dk_state d = ArrayStart \<or> dk_state d = ArrayComma \<or> dk_state d = ObjectStart \<or> dk_state d = ObjectComma"
  unfolding next_token_def by (rule closing_state)

section \<open>Well-formed tokens\<close>

definition number_literal :: "string \<Rightarrow> bool" where
  "number_literal l \<longleftrightarrow> scan_number l = Some (l, [])"

definition token_ok :: "token \<Rightarrow> bool" where
  "token_ok t = (case t of TNum n \<Rightarrow> number_literal n | TStr s \<Rightarrow> utf8_valid s | _ \<Rightarrow> True)"

definition no_digit :: "string \<Rightarrow> bool" where
  "no_digit u \<longleftrightarrow> u = [] \<or> \<not> is_digit (hd u)"

definition num_end :: "string \<Rightarrow> bool" where
  "num_end u \<longleftrightarrow> u = [] \<or> \<not> is_digit (hd u) \<and> hd u \<noteq> CHR ''.'' \<and> hd u \<noteq> CHR ''e'' \<and> hd u \<noteq> CHR ''E''"

lemma digits_again:
  assumes "no_digit u"
  shows "takeWhile is_digit (takeWhile is_digit s @ u) = takeWhile is_digit s"
    and "dropWhile is_digit (takeWhile is_digit s @ u) = u"
proof -
  have all: "\<forall>x \<in> set (takeWhile is_digit s). is_digit x" by (blast dest: set_takeWhileD)
  have none: "takeWhile is_digit u = []" "dropWhile is_digit u = u" using assms by (cases u; simp add: no_digit_def)+
  show "takeWhile is_digit (takeWhile is_digit s @ u) = takeWhile is_digit s"
    by (subst takeWhile_append2) (use all none in auto)
  show "dropWhile is_digit (takeWhile is_digit s @ u) = u"
    by (subst dropWhile_append2) (use all none in auto)
qed

lemma some_digits_again:
  "scan_some_digits s = Some (d, r) \<Longrightarrow> no_digit u \<Longrightarrow> scan_some_digits (d @ u) = Some (d, u)"
  by (auto simp: scan_some_digits_def digits_again split: if_splits)

lemma some_digits_hd: "scan_some_digits s = Some (d, r) \<Longrightarrow> \<exists>c cs. d = c # cs \<and> is_digit c"
  by (cases s) (auto simp: scan_some_digits_def split: if_splits)

lemma scan_int_again: "scan_int s = Some (i, r) \<Longrightarrow> no_digit u \<Longrightarrow> scan_int (i @ u) = Some (i, u)"
proof -
  assume s: "scan_int s = Some (i, r)" and u: "no_digit u"
  then obtain c cs where c: "s = c # cs" by (auto simp: scan_int_def split: list.splits)
  show ?thesis
  proof (cases "c = CHR ''0''")
    case True
    then have "i = ''0''" using s c by (simp add: scan_int_def)
    then show ?thesis by (simp add: scan_int_def)
  next
    case False
    then have d: "is_digit c" "i = takeWhile is_digit s" using s c by (auto simp: scan_int_def split: if_splits)
    then obtain j where i: "i = c # j" using c by simp
    then have "takeWhile is_digit (c # j @ u) = i" "dropWhile is_digit (c # j @ u) = u"
      using digits_again [OF u, of s] d(2) by simp_all
    then show ?thesis using False d(1) by (simp only: scan_int_def i append_Cons list.case if_False if_True)
  qed
qed

lemma scan_frac_again:
  assumes "scan_frac s = Some (f, r)" and "no_digit u" and "u = [] \<or> hd u \<noteq> CHR ''.''"
  shows "scan_frac (f @ u) = Some (f, u)"
proof (cases "f = []")
  case True
  then show ?thesis using assms(3) by (cases u) (simp_all add: scan_frac_def)
next
  case False
  then obtain cs d where "f = CHR ''.'' # d" "scan_some_digits cs = Some (d, r)"
    using assms(1) by (auto simp: scan_frac_def split: list.splits if_splits)
  then show ?thesis using some_digits_again [OF _ assms(2)] by (auto simp: scan_frac_def)
qed

lemma scan_exp_again:
  assumes "scan_exp s = Some (e, r)" and "num_end u"
  shows "scan_exp (e @ u) = Some (e, u)"
proof (cases "e = []")
  case True
  then show ?thesis using assms(2) by (cases u) (simp_all add: scan_exp_def num_end_def)
next
  case False
  have nd: "no_digit u" using assms(2) by (auto simp: num_end_def no_digit_def)
  from False assms(1) obtain x cs where s: "s = x # cs" "x = CHR ''e'' \<or> x = CHR ''E''"
    by (auto simp: scan_exp_def split: list.splits if_splits)
  then obtain g ds where cs: "cs = g # ds" using assms(1) by (cases cs) (auto simp: scan_exp_def)
  show ?thesis
  proof (cases "g = CHR ''+'' \<or> g = CHR ''-''")
    case True
    then obtain d where "scan_some_digits ds = Some (d, r)" "e = x # g # d"
      using assms(1) s cs by (auto simp: scan_exp_def)
    then show ?thesis using True s(2) some_digits_again [OF _ nd] by (auto simp: scan_exp_def)
  next
    case sign: False
    then obtain d where d: "scan_some_digits cs = Some (d, r)" "e = x # d"
      using assms(1) s cs by (auto simp: scan_exp_def)
    then obtain h hs where "d = h # hs" "is_digit h" using some_digits_hd by blast
    moreover have "h \<noteq> CHR ''+''" "h \<noteq> CHR ''-''" using calculation by (auto simp: is_digit_def)
    ultimately show ?thesis using d s(2) some_digits_again [OF d(1) nd] by (simp add: scan_exp_def)
  qed
qed

lemma scan_frac_hd: "scan_frac s = Some (f, r) \<Longrightarrow> f = [] \<or> hd f = CHR ''.''"
  by (auto simp: scan_frac_def split: list.splits if_splits)

lemma scan_exp_hd: "scan_exp s = Some (e, r) \<Longrightarrow> e = [] \<or> hd e = CHR ''e'' \<or> hd e = CHR ''E''"
  by (auto simp: scan_exp_def split: list.splits if_splits)

text \<open>A number ends at the first character that cannot continue it.\<close>

lemma scan_magnitude_again:
  assumes "scan_magnitude s = Some (l, r)" and "num_end u"
  shows "scan_magnitude (l @ u) = Some (l, u)"
proof -
  obtain i s2 f s3 e where i: "scan_int s = Some (i, s2)" and f: "scan_frac s2 = Some (f, s3)"
    and e: "scan_exp s3 = Some (e, r)" and l: "l = i @ f @ e"
    using assms(1) by (auto simp: scan_magnitude_def split: option.splits)
  have eu: "no_digit (e @ u) \<and> (e @ u = [] \<or> hd (e @ u) \<noteq> CHR ''.'')"
    using scan_exp_hd [OF e] assms(2) by (cases e) (auto simp: no_digit_def num_end_def is_digit_def)
  have fu: "no_digit (f @ e @ u)"
    using scan_frac_hd [OF f] eu by (cases f) (auto simp: no_digit_def is_digit_def)
  show ?thesis
    using scan_int_again [OF i fu] scan_frac_again [OF f] eu scan_exp_again [OF e assms(2)]
    by (simp add: scan_magnitude_def l)
qed

lemma scan_int_hd: "scan_int s = Some (i, r) \<Longrightarrow> \<exists>c cs. i = c # cs \<and> is_digit c"
proof -
  have "is_digit (CHR ''0'')" by (simp add: is_digit_def)
  then show "scan_int s = Some (i, r) \<Longrightarrow> \<exists>c cs. i = c # cs \<and> is_digit c"
    by (cases s) (auto simp: scan_int_def split: if_splits)
qed

lemma scan_magnitude_hd: "scan_magnitude s = Some (l, r) \<Longrightarrow> \<exists>c cs. l = c # cs \<and> is_digit c"
  using scan_int_hd by (fastforce simp: scan_magnitude_def split: option.splits)

lemma scan_number_again:
  assumes "scan_number s = Some (l, r)" and "num_end u"
  shows "scan_number (l @ u) = Some (l, u)"
proof -
  obtain c cs where s: "s = c # cs" using assms(1) by (cases s) (auto simp: scan_number_def)
  show ?thesis
  proof (cases "c = CHR ''-''")
    case True
    then obtain m where "scan_magnitude cs = Some (m, r)" "l = c # m" using assms(1) s by (auto simp: scan_number_def)
    then show ?thesis using True scan_magnitude_again [OF _ assms(2)] by (simp add: scan_number_def)
  next
    case False
    then have m: "scan_magnitude s = Some (l, r)" using assms(1) s by (simp add: scan_number_def)
    then obtain h hs where "l = h # hs" "is_digit h" using scan_magnitude_hd by blast
    moreover have "h \<noteq> CHR ''-''" using calculation by (auto simp: is_digit_def)
    ultimately show ?thesis using scan_magnitude_again [OF m assms(2)] by (simp add: scan_number_def)
  qed
qed

lemma scan_number_literal: "scan_number s = Some (l, r) \<Longrightarrow> number_literal l"
  using scan_number_again [of s l r "[]"] by (simp add: number_literal_def num_end_def)

lemma scan_number_ascii: "scan_number s = Some (l, r) \<Longrightarrow> ascii l"
proof -
  have d: "ascii (takeWhile is_digit s)" for s
    by (induction s) (simp_all add: is_digit_def)
  have sd: "ascii l" if "scan_some_digits s = Some (l, r)" for s l r
    using that d by (auto simp: scan_some_digits_def split: if_splits)
  have i: "ascii l" if "scan_int s = Some (l, r)" for s l r
    using that d [of s] by (auto simp: scan_int_def split: list.splits if_splits)
  have f: "ascii l" if "scan_frac s = Some (l, r)" for s l r
    using that sd by (auto simp: scan_frac_def split: list.splits if_splits)
  have e: "ascii l" if "scan_exp s = Some (l, r)" for s l r
    using that sd by (fastforce simp: scan_exp_def split: list.splits if_splits)
  have m: "ascii l" if "scan_magnitude s = Some (l, r)" for s l r
    using that i f e by (auto simp: scan_magnitude_def split: option.splits)
  show "scan_number s = Some (l, r) \<Longrightarrow> ascii l"
    using m by (auto simp: scan_number_def split: list.splits if_splits)
qed

lemma scan_string_high:
  "\<forall>b \<in> set hs. (0x80 :: nat) \<le> of_char b \<Longrightarrow>
    scan_string (hs @ rest) = map_option (\<lambda>(t, u). (hs @ t, u)) (scan_string rest)"
proof (induction hs)
  case Nil
  then show ?case by (cases "scan_string rest") auto
next
  case (Cons h hs)
  then have h: "(0x80 :: nat) \<le> of_char h" by simp
  then have "h \<noteq> CHR 0x22" "h \<noteq> CHR 0x5C" "\<not> of_char h < (0x20 :: nat)" by auto
  then have "scan_string (h # hs @ rest) = map_option (\<lambda>(t, u). (h # t, u)) (scan_string (hs @ rest))"
    by (subst scan_string.simps) simp
  then show ?case using Cons by (cases "scan_string rest") auto
qed

lemma hex_val_ascii: "hex_val c = Some n \<Longrightarrow> of_char c < (0x80 :: nat)"
  by (auto simp: hex_val_def Let_def split: if_splits)

lemma hex4_ascii: "hex4 a b c d = Some n \<Longrightarrow> ascii [a, b, c, d]"
  by (auto simp: hex4_def split: option.splits dest: hex_val_ascii)

lemma unicode_escape_valid:
  assumes "unicode_escape ds = Some (x, rest)" and "utf8_valid ds"
  shows "utf8_valid rest"
proof (cases ds rule: unicode_escape.cases)
  case (1 a b c d r0)
  from assms 1 obtain r where r: "hex4 a b c d = Some r" by (auto split: option.splits)
  have v0: "utf8_valid r0" using assms(2) ascii_prefix [OF hex4_ascii [OF r], of r0] 1 by simp
  show ?thesis
  proof (cases "rest = r0")
    case False
    then obtain a' b' c' d' r' where r0: "r0 = CHR 0x5C # CHR ''u'' # a' # b' # c' # d' # rest" "hex4 a' b' c' d' = Some r'"
      using assms(1) 1 r by (auto split: if_splits list.splits option.splits)
    have "ascii [CHR 0x5C, CHR ''u'', a', b', c', d']" using hex4_ascii [OF r0(2)] by simp
    from ascii_prefix [OF this, of rest] show ?thesis using v0 r0(1) by simp
  qed (use v0 in simp)
qed (use assms in auto)

lemma simple_escape_ascii: "simple_escape e = Some x \<Longrightarrow> of_char e < (0x80 :: nat) \<and> of_char x < (0x80 :: nat)"
  by (auto simp: simple_escape_def split: if_splits)

lemma scan_string_valid:
  "scan_string s = Some (t, r) \<Longrightarrow> utf8_valid s \<Longrightarrow> utf8_valid t \<and> utf8_valid r"
proof (induction s arbitrary: t r rule: length_induct)
  case (1 s)
  from "1.prems"(1) show ?case
  proof (cases rule: scan_string_cases)
    case close
    then show ?thesis using "1.prems"(2) by (simp add: utf8_tail)
  next
    case (unicode ds x rest t')
    have "utf8_valid ds" using "1.prems"(2) unfolding unicode(1) by (simp add: utf8_tail)
    then have "utf8_valid rest" by (rule unicode_escape_valid [OF unicode(2)])
    moreover have "length rest < length s" using unicode_escape_shorter [OF unicode(2)] unicode(1) by simp
    ultimately have "utf8_valid t' \<and> utf8_valid r" using "1.IH" unicode(3) by blast
    then show ?thesis using unicode(4) utf8_encode_rune by simp
  next
    case (simple e ds x t')
    have "utf8_valid ds" using "1.prems"(2) simple_escape_ascii [OF simple(3)] unfolding simple(1) by (simp add: utf8_tail)
    moreover have "length ds < length s" using simple(1) by simp
    ultimately have "utf8_valid t' \<and> utf8_valid r" using "1.IH" simple(4) by blast
    then show ?thesis using simple(5) simple_escape_ascii [OF simple(3)] by (simp add: utf8_tail)
  next
    case (plain c cs t')
    show ?thesis
    proof (cases "of_char c < (0x80 :: nat)")
      case True
      then have "utf8_valid cs" using "1.prems"(2) plain(1) by (simp add: utf8_tail)
      moreover have "length cs < length s" using plain(1) by simp
      ultimately have "utf8_valid t' \<and> utf8_valid r" using "1.IH" plain(5) by blast
      then show ?thesis using plain(6) True by (simp add: utf8_tail)
    next
      case False
      obtain x rest where x: "c # cs = encode_rune x @ rest" "utf8_valid rest"
        using utf8_first "1.prems"(2) plain(1) by metis
      obtain h hs where h: "encode_rune x = h # hs" using encode_rune_ne by blast
      then have high: "\<forall>b \<in> set (encode_rune x). (0x80 :: nat) \<le> of_char b"
        using encode_rune_high [OF h] x(1) False by simp
      obtain t2 where t2: "scan_string rest = Some (t2, r)" "t = encode_rune x @ t2"
        using scan_string_high [OF high, of rest] "1.prems"(1) plain(1) x(1) by auto
      have "length rest < length s" using plain(1) x(1) h by (metis append_Cons length_Cons length_append le_add2 less_Suc_eq_le)
      then have "utf8_valid t2 \<and> utf8_valid r" using "1.IH" t2(1) x(2) by blast
      then show ?thesis using t2(2) utf8_encode_rune by simp
    qed
  qed
qed

lemma strip_prefix_valid: "strip_prefix p s = Some r \<Longrightarrow> ascii p \<Longrightarrow> utf8_valid s \<Longrightarrow> utf8_valid r"
proof -
  assume "strip_prefix p s = Some r" and a: "ascii p" "utf8_valid s"
  then have "s = p @ r" by (metis append_take_drop_id option.distinct(1) option.inject strip_prefix_def)
  then show ?thesis using a by simp
qed

lemma scan_scalar_ok:
  assumes "scan_scalar c cs = Some (t, r)" and "utf8_valid (c # cs)"
  shows "token_ok t \<and> utf8_valid r"
proof -
  consider (str) u where "scan_string cs = Some (u, r)" "c = CHR 0x22" "t = TStr u"
    | (lit) p where "strip_prefix p cs = Some r" "ascii (c # p)" "token_ok t"
    | (num) l where "scan_number (c # cs) = Some (l, r)" "t = TNum l"
    using assms(1) by (auto simp: scan_scalar_def token_ok_def split: if_splits)
  then show ?thesis
  proof cases
    case str
    then show ?thesis using scan_string_valid [OF str(1)] assms(2) by (simp add: utf8_tail token_ok_def)
  next
    case lit
    have "utf8_valid cs" using lit(2) assms(2) by (simp add: utf8_tail)
    then show ?thesis using strip_prefix_valid [OF lit(1)] lit(2,3) by simp
  next
    case num
    then show ?thesis
      using scan_number_literal [OF num(1)] scan_number_split [OF num(1)] scan_number_ascii [OF num(1)] assms(2)
      by (simp add: token_ok_def)
  qed
qed

lemma scan_token_ok: "scan_token st stk s = Inr (t, d) \<Longrightarrow> utf8_valid s \<Longrightarrow> token_ok t \<and> utf8_valid (dk_input d)"
proof (induction s arbitrary: st)
  case (Cons a s)
  have sp: "utf8_valid cs" if "json_space c" "utf8_valid (c # cs)" for c cs
    using that by (auto simp: json_space_def utf8_tail)
  from Cons.prems(1) show ?case
  proof (cases rule: scan_token_cases)
    case (space c cs)
    then show ?thesis using Cons sp [of c cs] by simp
  next
    case (key cs k r)
    then show ?thesis using scan_string_valid [OF key(3)] Cons.prems(2) by (simp add: utf8_tail token_ok_def)
  next
    case (scalar c cs r)
    then show ?thesis using scan_scalar_ok [OF scalar(5)] Cons.prems(2) by simp
  qed (use Cons in \<open>simp_all add: utf8_tail token_ok_def\<close>)
qed simp

lemma next_token_ok: "next_token d = Inr (t, d') \<Longrightarrow> utf8_valid (dk_input d) \<Longrightarrow> token_ok t \<and> utf8_valid (dk_input d')"
  unfolding next_token_def by (rule scan_token_ok)

lemma reads_ok: "reads d ts d' \<Longrightarrow> utf8_valid (dk_input d) \<Longrightarrow> list_all token_ok ts \<and> utf8_valid (dk_input d')"
  by (induction ts arbitrary: d) (auto dest: next_token_ok)

text \<open>A document made of well-formed tokens.\<close>

fun json_ok :: "json \<Rightarrow> bool" where
  "json_ok (JNum n) \<longleftrightarrow> number_literal n"
| "json_ok (JStr s) \<longleftrightarrow> utf8_valid s"
| "json_ok (JArr vs) \<longleftrightarrow> (\<forall>v \<in> set vs. json_ok v)"
| "json_ok (JObj kvs) \<longleftrightarrow> (\<forall>kv \<in> set kvs. utf8_valid (fst kv) \<and> json_ok (snd kv))"
| "json_ok _ \<longleftrightarrow> True"

lemma toks_ok:
  "list_all token_ok (toks v) \<longleftrightarrow> json_ok v"
  "list_all token_ok (toks_elems vs) \<longleftrightarrow> (\<forall>v \<in> set vs. json_ok v)"
  "list_all token_ok (toks_members kvs) \<longleftrightarrow> (\<forall>kv \<in> set kvs. utf8_valid (fst kv) \<and> json_ok (snd kv))"
  by (induction v and vs and kvs rule: toks_toks_elems_toks_members.induct) (auto simp: token_ok_def)

end
