(* ===== verification/Canonical.thy ===== *)
theory Canonical
  imports Json
begin

text \<open>
  The signer's document parser, signer/internal/canonical/canonical.go up to \<^verbatim>\<open>checkSafeInteger\<close>:
  the recursive descent over the decoder's tokens under the document limits. It accepts exactly
  the texts whose token stream is that of a document within the limits, and returns that document.
\<close>

section \<open>Limits\<close>

text \<open>Zero means unbounded, except that the depth always has a hard ceiling.\<close>

record limits =
  lm_max_bytes :: int
  lm_max_depth :: int
  lm_max_string_len :: int
  lm_max_array_len :: int
  lm_max_object_keys :: int
  lm_safe_integers :: bool

definition no_limits :: limits where
  "no_limits = \<lparr>lm_max_bytes = 0, lm_max_depth = 0, lm_max_string_len = 0, lm_max_array_len = 0,
     lm_max_object_keys = 0, lm_safe_integers = False\<rparr>"

definition default_limits :: limits where
  "default_limits = \<lparr>lm_max_bytes = 1048576, lm_max_depth = 32, lm_max_string_len = 32768,
     lm_max_array_len = 4096, lm_max_object_keys = 4096, lm_safe_integers = True\<rparr>"

datatype canon_error =
    DocumentTooBig | NotUtf8 | TrailingData "token_error option" | TooDeep | BadToken token_error | UnexpectedToken token
  | StringTooLong | KeyTooLong | NotAKey token | TooManyKeys | DuplicateKey string | ArrayTooLong
  | BadInteger string | UnsafeInteger string | OutOfFuel | FloatRange string

section \<open>Parsing\<close>

definition hard_max_depth :: int where
  "hard_max_depth = 512"

definition too_deep :: "limits \<Rightarrow> nat \<Rightarrow> bool" where
  "too_deep lim depth \<longleftrightarrow>
    int depth > hard_max_depth \<or> lm_max_depth lim > 0 \<and> int depth > lm_max_depth lim"

definition exceeds :: "int \<Rightarrow> nat \<Rightarrow> bool" where
  "exceeds bound n \<longleftrightarrow> bound > 0 \<and> int n > bound"

definition max_safe_integer :: int where
  "max_safe_integer = 2 ^ 53 - 1"

definition has_fraction :: "string \<Rightarrow> bool" where
  "has_fraction s \<longleftrightarrow> (\<exists>c \<in> set s. c = CHR ''.'' \<or> c = CHR ''e'' \<or> c = CHR ''E'')"

definition check_safe_integer :: "string \<Rightarrow> canon_error option" where
  "check_safe_integer s =
    (if has_fraction s then None
     else case big_set_string s of None \<Rightarrow> Some (BadInteger s)
       | Some i \<Rightarrow> if \<bar>i\<bar> > max_safe_integer then Some (UnsafeInteger s) else None)"

text \<open>\<^verbatim>\<open>Object.set\<close>\<close>

definition obj_set :: "(string \<times> json) list \<Rightarrow> string \<Rightarrow> json \<Rightarrow> canon_error + (string \<times> json) list" where
  "obj_set obj k v = (if map_of obj k \<noteq> None then Inl (DuplicateKey k) else Inr (obj @ [(k, v)]))"

text \<open>
  \<^verbatim>\<open>parseValue\<close> with \<^verbatim>\<open>parseTokenValue\<close>, \<^verbatim>\<open>parseArray\<close> and \<^verbatim>\<open>parseObject\<close>, whose loops are the
  recursions with an accumulator. The recursion is bounded by fuel: every value consumes at least
  a byte, and \<open>parse_fuel\<close> below shows that twice the input's length is enough.
\<close>

fun parse_value :: "nat \<Rightarrow> limits \<Rightarrow> nat \<Rightarrow> decoder \<Rightarrow> canon_error + json \<times> decoder" and
  parse_array :: "nat \<Rightarrow> limits \<Rightarrow> nat \<Rightarrow> json list \<Rightarrow> decoder \<Rightarrow> canon_error + json \<times> decoder" and
  parse_object :: "nat \<Rightarrow> limits \<Rightarrow> nat \<Rightarrow> (string \<times> json) list \<Rightarrow> decoder \<Rightarrow> canon_error + json \<times> decoder" where
  "parse_value 0 lim depth d = Inl OutOfFuel"
| "parse_value (Suc n) lim depth d =
    (if too_deep lim depth then Inl TooDeep
     else case next_token d of Inl e \<Rightarrow> Inl (BadToken e)
     | Inr (t, d1) \<Rightarrow>
       (case t of
          TDelim c \<Rightarrow>
            if c = CHR ''{'' then parse_object n lim depth [] d1
            else if c = CHR ''['' then parse_array n lim depth [] d1
            else Inl (UnexpectedToken t)
        | TNull \<Rightarrow> Inr (JNull, d1)
        | TBool b \<Rightarrow> Inr (JBool b, d1)
        | TNum l \<Rightarrow>
            (if lm_safe_integers lim then
               (case check_safe_integer l of Some e \<Rightarrow> Inl e | None \<Rightarrow> Inr (JNum l, d1))
             else Inr (JNum l, d1))
        | TStr s \<Rightarrow>
            if exceeds (lm_max_string_len lim) (length s) then Inl StringTooLong else Inr (JStr s, d1)))"
| "parse_array 0 lim depth arr d = Inl OutOfFuel"
| "parse_array (Suc n) lim depth arr d =
    (if has_more d then
       if lm_max_array_len lim > 0 \<and> int (length arr) \<ge> lm_max_array_len lim then Inl ArrayTooLong
       else case parse_value n lim (Suc depth) d of Inl e \<Rightarrow> Inl e
         | Inr (v, d1) \<Rightarrow> parse_array n lim depth (arr @ [v]) d1
     else case next_token d of Inl e \<Rightarrow> Inl (BadToken e) | Inr (_, d1) \<Rightarrow> Inr (JArr arr, d1))"
| "parse_object 0 lim depth obj d = Inl OutOfFuel"
| "parse_object (Suc n) lim depth obj d =
    (if has_more d then
       if lm_max_object_keys lim > 0 \<and> int (length obj) \<ge> lm_max_object_keys lim then Inl TooManyKeys
       else case next_token d of Inl e \<Rightarrow> Inl (BadToken e)
         | Inr (t, d1) \<Rightarrow>
           (case t of
              TStr k \<Rightarrow>
                if exceeds (lm_max_string_len lim) (length k) then Inl KeyTooLong
                else (case parse_value n lim (Suc depth) d1 of Inl e \<Rightarrow> Inl e
                  | Inr (v, d2) \<Rightarrow>
                    (case obj_set obj k v of Inl e \<Rightarrow> Inl e | Inr obj' \<Rightarrow> parse_object n lim depth obj' d2))
            | _ \<Rightarrow> Inl (NotAKey t))
     else case next_token d of Inl e \<Rightarrow> Inl (BadToken e) | Inr (_, d1) \<Rightarrow> Inr (JObj obj, d1))"

definition parse_fuel :: "decoder \<Rightarrow> nat" where
  "parse_fuel d = Suc (2 * length (dk_input d))"

definition parse_with_limits :: "string \<Rightarrow> limits \<Rightarrow> canon_error + json" where
  "parse_with_limits inp lim =
    (if lm_max_bytes lim > 0 \<and> int (length inp) > lm_max_bytes lim then Inl DocumentTooBig
     else if \<not> utf8_valid inp then Inl NotUtf8
     else
       let d = new_decoder inp in
       case parse_value (parse_fuel d) lim 0 d of Inl e \<Rightarrow> Inl e
       | Inr (v, d1) \<Rightarrow>
         (case next_token d1 of
            Inl TokEOF \<Rightarrow> Inr v
          | Inl e \<Rightarrow> Inl (TrailingData (Some e))
          | Inr _ \<Rightarrow> Inl (TrailingData None)))"

definition parse :: "string \<Rightarrow> canon_error + json" where
  "parse inp = parse_with_limits inp no_limits"

section \<open>The fuel is enough\<close>

lemma parse_shorter:
  "parse_value n lim k d = Inr (v, d') \<Longrightarrow> length (dk_input d') < length (dk_input d)"
  "parse_array n lim k arr d = Inr (v, d') \<Longrightarrow> length (dk_input d') < length (dk_input d)"
  "parse_object n lim k obj d = Inr (v, d') \<Longrightarrow> length (dk_input d') < length (dk_input d)"
proof (induction n lim k d and n lim k arr d and n lim k obj d arbitrary: v d' and v d' and v d' rule: parse_value_parse_array_parse_object.induct)
  case (2 n lim depth d)
  then show ?case
    by (fastforce split: if_splits sum.splits prod.splits token.splits option.splits dest: next_token_shorter)
next
  case (4 n lim depth arr d)
  then show ?case
    by (fastforce split: if_splits sum.splits prod.splits dest: next_token_shorter)
next
  case (6 n lim depth obj d)
  then show ?case
    by (fastforce split: if_splits sum.splits prod.splits token.splits dest: next_token_shorter)
qed simp_all

lemma parse_enough:
  "2 * length (dk_input d) < n \<Longrightarrow> parse_value n lim k d \<noteq> Inl OutOfFuel"
  "Suc (2 * length (dk_input d)) < n \<Longrightarrow> parse_array n lim k arr d \<noteq> Inl OutOfFuel"
  "Suc (2 * length (dk_input d)) < n \<Longrightarrow> parse_object n lim k obj d \<noteq> Inl OutOfFuel"
proof (induction n lim k d and n lim k arr d and n lim k obj d rule: parse_value_parse_array_parse_object.induct)
  case (2 n lim k d)
  have cs: "check_safe_integer l \<noteq> Some OutOfFuel" for l
    by (simp add: check_safe_integer_def split: option.splits)
  have less: "Suc (2 * length (dk_input d1)) < n" if "next_token d = Inr (t, d1)" for t d1
    using next_token_shorter [OF that] 2(3) by simp
  show ?case using 2(1,2) less cs
    by (auto split: sum.splits prod.splits token.splits option.splits)
next
  case (4 n lim k arr d)
  have less: "Suc (2 * length (dk_input d1)) < n" if "parse_value n lim (Suc k) d = Inr (v, d1)" for v d1
    using parse_shorter(1) [OF that] 4(3) by simp
  show ?case using 4 less by (auto split: sum.splits prod.splits)
next
  case (6 n lim k obj d)
  show ?case
  proof
    assume run: "parse_object (Suc n) lim k obj d = Inl OutOfFuel"
    then have True: "has_more d" and room: "\<not> (lm_max_object_keys lim > 0 \<and> int (length obj) \<ge> lm_max_object_keys lim)"
      by (auto split: if_splits sum.splits)
    obtain t d1 where t: "next_token d = Inr (t, d1)" using run True room by (auto split: sum.splits)
    obtain key where key: "t = TStr key" using run True room t by (cases t) simp_all
    have short: "\<not> exceeds (lm_max_string_len lim) (length key)" using run True room t key by (auto split: if_splits)
    have len: "Suc (2 * length (dk_input d1)) < n" using next_token_shorter [OF t] 6(3) by simp
    show False
    proof (cases "parse_value n lim (Suc k) d1")
      case (Inl e)
      then have "e = OutOfFuel" using run True room t key short by simp
      then show False using 6(1) [OF True room t refl key short] len Inl by simp
    next
      case (Inr p)
      obtain v d2 where p: "p = (v, d2)" by fastforce
      obtain obj' where obj': "obj_set obj key v = Inr obj'"
        using run True room t key short Inr p by (cases "obj_set obj key v") (auto simp: obj_set_def split: if_splits)
      have "parse_object n lim k obj' d2 = Inl OutOfFuel" using run True room t key short Inr p obj' by simp
      moreover have "length (dk_input d2) < length (dk_input d1)" using parse_shorter(1) Inr p by blast
      ultimately show False using 6(2) [OF True room t refl key short Inr [unfolded p] refl obj'] len by simp
    qed
  qed
qed simp_all

section \<open>Documents within the limits\<close>

fun fits :: "limits \<Rightarrow> nat \<Rightarrow> json \<Rightarrow> bool" where
  "fits lim k (JNum l) \<longleftrightarrow> \<not> too_deep lim k \<and> (lm_safe_integers lim \<longrightarrow> check_safe_integer l = None)"
| "fits lim k (JStr s) \<longleftrightarrow> \<not> too_deep lim k \<and> \<not> exceeds (lm_max_string_len lim) (length s)"
| "fits lim k (JArr vs) \<longleftrightarrow> \<not> too_deep lim k \<and> \<not> exceeds (lm_max_array_len lim) (length vs) \<and> (\<forall>v \<in> set vs. fits lim (Suc k) v)"
| "fits lim k (JObj kvs) \<longleftrightarrow> \<not> too_deep lim k \<and> \<not> exceeds (lm_max_object_keys lim) (length kvs) \<and> distinct (map fst kvs) \<and>
    (\<forall>kv \<in> set kvs. \<not> exceeds (lm_max_string_len lim) (length (fst kv)) \<and> fits lim (Suc k) (snd kv))"
| "fits lim k v \<longleftrightarrow> \<not> too_deep lim k"

lemma fits_shallow: "fits lim k v \<Longrightarrow> \<not> too_deep lim k"
  by (cases v) auto

lemma toks_cons: "\<exists>t ts. toks v = t # ts \<and> \<not> closing t"
  by (cases v) (auto simp: closing_def)

lemma obj_set_Inr: "obj_set obj k v = Inr obj' \<longleftrightarrow> obj' = obj @ [(k, v)] \<and> k \<notin> fst ` set obj"
  by (auto simp: obj_set_def map_of_eq_None_iff)

lemma parse_sound:
  "parse_value n lim k d = Inr (v, d') \<Longrightarrow> value_position (dk_state d) \<Longrightarrow>
    \<not> closing (case next_token d of Inr (t, _) \<Rightarrow> t | _ \<Rightarrow> TNull) \<Longrightarrow>
    reads d (toks v) d' \<and> dk_stack d' = dk_stack d \<and> dk_state d' = after_value (dk_state d) \<and> fits lim k v"
  "parse_array n lim k arr d = Inr (v, d') \<Longrightarrow> dk_state d = ArrayStart \<or> dk_state d = ArrayComma \<Longrightarrow>
    \<not> exceeds (lm_max_array_len lim) (length arr) \<Longrightarrow>
    \<exists>vs st. v = JArr (arr @ vs) \<and> reads d (toks_elems vs @ [TDelim (CHR '']'')]) d' \<and> dk_stack d = st # dk_stack d' \<and>
      dk_state d' = value_end st \<and> (\<forall>v \<in> set vs. fits lim (Suc k) v) \<and> \<not> exceeds (lm_max_array_len lim) (length (arr @ vs))"
  "parse_object n lim k obj d = Inr (v, d') \<Longrightarrow> dk_state d = ObjectStart \<or> dk_state d = ObjectComma \<Longrightarrow>
    distinct (map fst obj) \<and> \<not> exceeds (lm_max_object_keys lim) (length obj) \<Longrightarrow>
    \<exists>kvs st. v = JObj (obj @ kvs) \<and> reads d (toks_members kvs @ [TDelim (CHR ''}'')]) d' \<and> dk_stack d = st # dk_stack d' \<and>
      dk_state d' = value_end st \<and> distinct (map fst (obj @ kvs)) \<and> \<not> exceeds (lm_max_object_keys lim) (length (obj @ kvs)) \<and>
      (\<forall>kv \<in> set kvs. \<not> exceeds (lm_max_string_len lim) (length (fst kv)) \<and> fits lim (Suc k) (snd kv))"
proof (induction n lim k d and n lim k arr d and n lim k obj d arbitrary: v d' and v d' and v d' rule: parse_value_parse_array_parse_object.induct)
  case (2 n lim k d)
  have deep: "\<not> too_deep lim k" using 2(3) by (auto split: if_splits)
  obtain t d1 where t: "next_token d = Inr (t, d1)" using 2(3) deep by (auto split: sum.splits)
  have nc: "\<not> closing t" using 2(5) t by simp
  note val = token_value [OF t 2(4) nc]
  note run = 2(3) [unfolded parse_value.simps if_not_P [OF deep] t sum.case prod.case]
  show ?case
  proof (cases t)
    case (TDelim c)
    then consider "c = CHR ''{''" | "c = CHR ''[''" using val(3) by blast
    then show ?thesis
    proof cases
      case 1
      then obtain st' where st: "dk_state d1 = ObjectStart" "dk_stack d1 = st' # dk_stack d" "value_end st' = after_value (dk_state d)"
        using val TDelim by auto
      have "parse_object n lim k [] d1 = Inr (v, d')" using run TDelim 1 by simp
      from 2(1) [OF deep t refl TDelim 1 this] show ?thesis using st t deep TDelim 1 by (auto simp: exceeds_def)
    next
      case 2
      then obtain st' where st: "dk_state d1 = ArrayStart" "dk_stack d1 = st' # dk_stack d" "value_end st' = after_value (dk_state d)"
        using val TDelim by auto
      have "parse_array n lim k [] d1 = Inr (v, d')" using run TDelim 2 by simp
      moreover have "c \<noteq> CHR ''{''" using 2 by simp
      ultimately show ?thesis using "2.IH"(2) [OF deep t refl TDelim _ 2] st t deep TDelim 2 by (auto simp: exceeds_def)
    qed
  qed (use run val t deep in \<open>auto split: if_splits option.splits\<close>)
next
  case (4 n lim k arr d)
  show ?case
  proof (cases "has_more d")
    case True
    then obtain w d1 where w: "parse_value n lim (Suc k) d = Inr (w, d1)" and rest: "parse_array n lim k (arr @ [w]) d1 = Inr (v, d')"
      and room: "\<not> (lm_max_array_len lim > 0 \<and> int (length arr) \<ge> lm_max_array_len lim)"
      using 4(3) by (auto split: if_splits sum.splits)
    have "\<not> closing (case next_token d of Inr (t, _) \<Rightarrow> t | _ \<Rightarrow> TNull)"
      using has_more_closing [of d] True by (auto simp: closing_def split: sum.splits)
    then have r: "reads d (toks w) d1 \<and> dk_stack d1 = dk_stack d \<and> dk_state d1 = ArrayComma \<and> fits lim (Suc k) w"
      using 4(1) [OF True room w] 4(4) by auto
    have "\<not> exceeds (lm_max_array_len lim) (length (arr @ [w]))" using room by (auto simp: exceeds_def)
    with 4(2) [OF True room w refl rest] r obtain vs st where
      "v = JArr ((arr @ [w]) @ vs)" "reads d1 (toks_elems vs @ [TDelim (CHR '']'')]) d'" "dk_stack d1 = st # dk_stack d'"
      "dk_state d' = value_end st" "\<forall>v \<in> set vs. fits lim (Suc k) v" "\<not> exceeds (lm_max_array_len lim) (length ((arr @ [w]) @ vs))"
      by blast
    then show ?thesis using r by (intro exI [of _ "w # vs"] exI [of _ st]) (auto simp: reads_append)
  next
    case False
    then obtain t where t: "next_token d = Inr (t, d')" "v = JArr arr" using 4(3) by (auto split: sum.splits)
    then have c: "closing t" using has_more_closing False by blast
    show ?thesis using token_close [OF t(1) c] 4(4,5) t by (intro exI [of _ "[]"]) auto
  qed
next
  case (6 n lim k obj d)
  show ?case
  proof (cases "has_more d")
    case True
    then obtain t d1 where t: "next_token d = Inr (t, d1)"
      and room: "\<not> (lm_max_object_keys lim > 0 \<and> int (length obj) \<ge> lm_max_object_keys lim)"
      using 6(3) by (auto split: if_splits sum.splits)
    have "\<not> closing t" using has_more_closing [OF t] True by simp
    then obtain key where key: "t = TStr key" "dk_state d1 = ObjectColon" "dk_stack d1 = dk_stack d"
      using token_key [OF t] 6(4) by auto
    obtain w d2 obj' where short: "\<not> exceeds (lm_max_string_len lim) (length key)" and w: "parse_value n lim (Suc k) d1 = Inr (w, d2)"
      and set: "obj_set obj key w = Inr obj'" and rest: "parse_object n lim k obj' d2 = Inr (v, d')"
      using 6(3) True room t key by (auto split: if_splits sum.splits)
    have "\<not> closing (case next_token d1 of Inr (t, _) \<Rightarrow> t | _ \<Rightarrow> TNull)"
      using token_closing_state [of d1] key(2) by (auto split: sum.splits) (auto simp: closing_def)
    then have r: "reads d1 (toks w) d2 \<and> dk_stack d2 = dk_stack d \<and> dk_state d2 = ObjectComma \<and> fits lim (Suc k) w"
      using 6(1) [OF True room t refl key(1) short w] key by auto
    have obj': "obj' = obj @ [(key, w)]" "key \<notin> fst ` set obj" using set by (simp_all add: obj_set_Inr)
    have "distinct (map fst obj') \<and> \<not> exceeds (lm_max_object_keys lim) (length obj')"
      using obj' 6(5) room by (auto simp: exceeds_def)
    with 6(2) [OF True room t refl key(1) short w refl set rest] r obtain kvs st where
      "v = JObj (obj' @ kvs)" "reads d2 (toks_members kvs @ [TDelim (CHR ''}'')]) d'" "dk_stack d2 = st # dk_stack d'"
      "dk_state d' = value_end st" "distinct (map fst (obj' @ kvs))" "\<not> exceeds (lm_max_object_keys lim) (length (obj' @ kvs))"
      "\<forall>kv \<in> set kvs. \<not> exceeds (lm_max_string_len lim) (length (fst kv)) \<and> fits lim (Suc k) (snd kv)"
      by blast
    then show ?thesis using r t key(1) short
      by (intro exI [of _ "(key, w) # kvs"] exI [of _ st]) (auto simp: reads_append obj')
  next
    case False
    then obtain t where t: "next_token d = Inr (t, d')" "v = JObj obj" using 6(3) by (auto split: sum.splits)
    then have c: "closing t" using has_more_closing False by blast
    show ?thesis using token_close [OF t(1) c] 6(4,5) t by (intro exI [of _ "[]"]) auto
  qed
qed simp_all

lemma reads_toks_more: "reads d (toks v @ ts) d' \<Longrightarrow> has_more d"
  using toks_cons [of v] by (auto dest: has_more_closing)

lemma reads_toks_first: "reads d (toks v) d' \<Longrightarrow> \<not> closing (case next_token d of Inr (t, _) \<Rightarrow> t | _ \<Rightarrow> TNull)"
  using toks_cons [of v] by auto

lemma reads_shorter: "reads d ts d' \<Longrightarrow> length (dk_input d') \<le> length (dk_input d)"
  by (induction ts arbitrary: d) (auto dest!: next_token_shorter intro: order.trans less_imp_le)

lemma close_array: "closing (TDelim (CHR '']''))" "closing (TDelim (CHR ''}''))"
  by (simp_all add: closing_def)

lemma parse_complete:
  "reads d (toks v) d' \<Longrightarrow> value_position (dk_state d) \<Longrightarrow> fits lim k v \<Longrightarrow> 2 * length (dk_input d) < n \<Longrightarrow>
    parse_value n lim k d = Inr (v, d')"
  "reads d (toks_elems vs @ [TDelim (CHR '']'')]) d' \<Longrightarrow> dk_state d = ArrayStart \<or> dk_state d = ArrayComma \<Longrightarrow>
    \<forall>v \<in> set vs. fits lim (Suc k) v \<Longrightarrow> \<not> exceeds (lm_max_array_len lim) (length (arr @ vs)) \<Longrightarrow>
    Suc (2 * length (dk_input d)) < n \<Longrightarrow> parse_array n lim k arr d = Inr (JArr (arr @ vs), d')"
  "reads d (toks_members kvs @ [TDelim (CHR ''}'')]) d' \<Longrightarrow> dk_state d = ObjectStart \<or> dk_state d = ObjectComma \<Longrightarrow>
    \<forall>kv \<in> set kvs. \<not> exceeds (lm_max_string_len lim) (length (fst kv)) \<and> fits lim (Suc k) (snd kv) \<Longrightarrow>
    distinct (map fst (obj @ kvs)) \<Longrightarrow> \<not> exceeds (lm_max_object_keys lim) (length (obj @ kvs)) \<Longrightarrow>
    Suc (2 * length (dk_input d)) < n \<Longrightarrow> parse_object n lim k obj d = Inr (JObj (obj @ kvs), d')"
proof (induction v and vs and kvs arbitrary: n k d d' and n k d d' arr and n k d d' obj rule: toks_toks_elems_toks_members.induct)
  case (5 vs)
  obtain m where n: "n = Suc m" using 5(5) by (cases n) auto
  obtain d1 where d1: "next_token d = Inr (TDelim (CHR ''[''), d1)" and rest: "reads d1 (toks_elems vs @ [TDelim (CHR '']'')]) d'"
    using 5(2) by auto
  have "dk_state d1 = ArrayStart" using token_value(1) [OF d1 5(3)] by (simp add: closing_def)
  moreover have "Suc (2 * length (dk_input d1)) < m" using next_token_shorter [OF d1] 5(5) n by simp
  ultimately have "parse_array m lim k [] d1 = Inr (JArr ([] @ vs), d')" using 5(1) [OF rest] 5(4) by simp
  then show ?case using d1 5(4) n by simp
next
  case (6 kvs)
  obtain m where n: "n = Suc m" using 6(5) by (cases n) auto
  obtain d1 where d1: "next_token d = Inr (TDelim (CHR ''{''), d1)" and rest: "reads d1 (toks_members kvs @ [TDelim (CHR ''}'')]) d'"
    using 6(2) by auto
  have "dk_state d1 = ObjectStart" using token_value(2) [OF d1 6(3)] by (simp add: closing_def)
  moreover have "Suc (2 * length (dk_input d1)) < m" using next_token_shorter [OF d1] 6(5) n by simp
  ultimately have "parse_object m lim k [] d1 = Inr (JObj ([] @ kvs), d')" using 6(1) [OF rest] 6(4) by simp
  then show ?case using d1 6(4) n by simp
next
  case 7
  obtain m where n: "n = Suc m" using 7(5) by (cases n) auto
  have t: "next_token d = Inr (TDelim (CHR '']''), d')" using 7(1) by simp
  then have "\<not> has_more d" using has_more_closing close_array(1) by blast
  then show ?case using t n by simp
next
  case (8 v vs)
  obtain m where n: "n = Suc m" using 8(7) by (cases n) auto
  obtain d1 where v: "reads d (toks v) d1" and rest: "reads d1 (toks_elems vs @ [TDelim (CHR '']'')]) d'"
    using 8(3) by (auto simp: reads_append)
  have more: "has_more d" using 8(3) reads_toks_more by simp
  have val: "parse_value m lim (Suc k) d = Inr (v, d1)" using 8(1) [OF v] 8(4,5,7) n by auto
  have st: "dk_state d1 = ArrayComma" using parse_sound(1) [OF val _ reads_toks_first [OF v]] 8(4) by auto
  have "Suc (2 * length (dk_input d1)) < m" using parse_shorter(1) [OF val] 8(7) n by simp
  then have "parse_array m lim k (arr @ [v]) d1 = Inr (JArr ((arr @ [v]) @ vs), d')"
    using 8(2) [OF rest] st 8(5,6) by simp
  moreover have "\<not> (lm_max_array_len lim > 0 \<and> int (length arr) \<ge> lm_max_array_len lim)"
    using 8(6) by (auto simp: exceeds_def)
  ultimately show ?case using more val n by simp
next
  case 9
  obtain m where n: "n = Suc m" using 9(6) by (cases n) auto
  have t: "next_token d = Inr (TDelim (CHR ''}''), d')" using 9(1) by simp
  then have "\<not> has_more d" using has_more_closing close_array(2) by blast
  then show ?case using t n by simp
next
  case (10 key v kvs)
  obtain m where n: "n = Suc m" using 10(8) by (cases n) auto
  obtain d1 d2 where t: "next_token d = Inr (TStr key, d1)" and v: "reads d1 (toks v) d2"
    and rest: "reads d2 (toks_members kvs @ [TDelim (CHR ''}'')]) d'"
    using 10(3) by (auto simp: reads_append)
  have nc: "\<not> closing (TStr key)" by (simp add: closing_def)
  have more: "has_more d" using has_more_closing [OF t] nc by simp
  have st1: "dk_state d1 = ObjectColon" using token_key [OF t _ nc] 10(4) by auto
  have len1: "length (dk_input d1) < length (dk_input d)" by (rule next_token_shorter [OF t])
  have val: "parse_value m lim (Suc k) d1 = Inr (v, d2)" using 10(1) [OF v] st1 10(5,8) n len1 by simp
  have st: "dk_state d2 = ObjectComma" using parse_sound(1) [OF val _ reads_toks_first [OF v]] st1 by simp
  have "Suc (2 * length (dk_input d2)) < m" using parse_shorter(1) [OF val] 10(8) n len1 by simp
  then have "parse_object m lim k (obj @ [(key, v)]) d2 = Inr (JObj ((obj @ [(key, v)]) @ kvs), d')"
    using 10(2) [OF rest] st 10(5-7) by simp
  moreover have "\<not> (lm_max_object_keys lim > 0 \<and> int (length obj) \<ge> lm_max_object_keys lim)"
    using 10(7) by (auto simp: exceeds_def)
  moreover have "obj_set obj key v = Inr (obj @ [(key, v)])" using 10(6) by (auto simp: obj_set_Inr)
  ultimately show ?case using more t val n 10(5) by simp
next
  case (3 l)
  then show ?case by (cases n) auto
qed (case_tac n; auto)+

section \<open>What the parser accepts\<close>

text \<open>The whole token stream of a text is that of one document.\<close>

definition document :: "string \<Rightarrow> json \<Rightarrow> bool" where
  "document inp v \<longleftrightarrow> (\<exists>d. reads (new_decoder inp) (toks v) d \<and> next_token d = Inl TokEOF)"

definition within_size :: "limits \<Rightarrow> string \<Rightarrow> bool" where
  "within_size lim inp \<longleftrightarrow> \<not> (lm_max_bytes lim > 0 \<and> int (length inp) > lm_max_bytes lim)"

lemma new_decoder_simps [simp]:
  "dk_state (new_decoder inp) = TopValue" "dk_stack (new_decoder inp) = []" "dk_input (new_decoder inp) = inp"
  by (simp_all add: new_decoder_def)

lemma parse_document:
  "parse_with_limits inp lim = Inr v \<longleftrightarrow> within_size lim inp \<and> utf8_valid inp \<and> document inp v \<and> fits lim 0 v"
proof
  let ?d = "new_decoder inp"
  assume run: "parse_with_limits inp lim = Inr v"
  then obtain d1 where p: "parse_value (parse_fuel ?d) lim 0 ?d = Inr (v, d1)" and eof: "next_token d1 = Inl TokEOF"
    by (auto simp: parse_with_limits_def Let_def split: if_splits sum.splits token_error.splits)
  have "\<not> closing (case next_token ?d of Inr (t, _) \<Rightarrow> t | _ \<Rightarrow> TNull)"
    using token_closing_state [of ?d] by (auto split: sum.splits) (auto simp: closing_def)
  then have "reads ?d (toks v) d1 \<and> fits lim 0 v" using parse_sound(1) [OF p] by simp
  then show "within_size lim inp \<and> utf8_valid inp \<and> document inp v \<and> fits lim 0 v"
    using run eof unfolding document_def within_size_def by (auto simp: parse_with_limits_def split: if_splits)
next
  let ?d = "new_decoder inp"
  assume a: "within_size lim inp \<and> utf8_valid inp \<and> document inp v \<and> fits lim 0 v"
  then obtain d1 where d1: "reads ?d (toks v) d1" "next_token d1 = Inl TokEOF" unfolding document_def by blast
  have "parse_value (parse_fuel ?d) lim 0 ?d = Inr (v, d1)"
    by (rule parse_complete(1) [OF d1(1)]) (use a in \<open>simp_all add: parse_fuel_def\<close>)
  then show "parse_with_limits inp lim = Inr v"
    using a d1(2) unfolding within_size_def by (simp add: parse_with_limits_def Let_def)
qed

lemma parse_json_ok: "parse_with_limits inp lim = Inr v \<Longrightarrow> json_ok v"
  using parse_document reads_ok toks_ok(1) unfolding document_def by (metis new_decoder_simps(3))

section \<open>The acceptance property\<close>

text \<open>
  C24: \<^verbatim>\<open>ParseWithLimits\<close> accepts exactly the texts within the size limit that are valid UTF-8 and whose
  tokens are those of one document within every limit, with no key twice in an object; it returns
  that document, and all its strings are valid UTF-8. The bound on the recursion is never what stops it.
\<close>

theorem parse_exact:
  "(parse_with_limits inp lim = Inr v \<longleftrightarrow>
     within_size lim inp \<and> utf8_valid inp \<and> document inp v \<and> json_ok v \<and> fits lim 0 v) \<and>
   parse_with_limits inp lim \<noteq> Inl OutOfFuel"
proof
  show "parse_with_limits inp lim = Inr v \<longleftrightarrow>
     within_size lim inp \<and> utf8_valid inp \<and> document inp v \<and> json_ok v \<and> fits lim 0 v"
    using parse_document parse_json_ok by blast
  have "parse_value (parse_fuel (new_decoder inp)) lim 0 (new_decoder inp) \<noteq> Inl OutOfFuel"
    by (rule parse_enough) (simp add: parse_fuel_def)
  then show "parse_with_limits inp lim \<noteq> Inl OutOfFuel"
    by (auto simp: parse_with_limits_def Let_def split: sum.splits token_error.splits)
qed

end
