(* ===== verification/AuditLimits.thy ===== *)
theory AuditLimits
  imports Canonical
begin

text \<open>
  The server's document check, server/internal/auditpkg/limits.go and \<^verbatim>\<open>CheckLimits\<close> of canonical.go:
  an iterative walk over the decoder's tokens with a stack of open containers. On a JSON document
  it accepts what the signer's recursive parser accepts under its default limits, save one depth.
\<close>

section \<open>The walk\<close>

record container =
  ct_is_object :: bool
  ct_count :: int
  ct_awaiting :: bool \<comment> \<open>a key has been read and its value is pending\<close>

record limit_walk =
  lw_depth :: int
  lw_stack :: "container list" \<comment> \<open>innermost first\<close>

datatype limit_error = EmptyDocument | LimitBytes | LimitUtf8 | LimitSyntax token_error | LimitDepth | LimitString
  | LimitKeys | LimitArray | LimitInteger canon_error

definition max_document_bytes :: int where "max_document_bytes = 1048576"
definition max_object_depth :: int where "max_object_depth = 32"
definition max_string_length :: int where "max_string_length = 32768"
definition max_array_length :: int where "max_array_length = 4096"
definition max_object_keys :: int where "max_object_keys = 4096"

text \<open>\<^verbatim>\<open>recordElement\<close>: a scalar or a closed container is counted in its parent; a scalar may be a key.\<close>

definition record_element :: "bool \<Rightarrow> limit_walk \<Rightarrow> limit_error + limit_walk" where
  "record_element leaf w =
    (case lw_stack w of [] \<Rightarrow> Inr w
     | inner # stk \<Rightarrow>
       if ct_is_object inner \<and> leaf \<and> \<not> ct_awaiting inner then Inr (w\<lparr>lw_stack := inner\<lparr>ct_awaiting := True\<rparr> # stk\<rparr>)
       else
         let inner' = inner\<lparr>ct_awaiting := (if ct_is_object inner then False else ct_awaiting inner), ct_count := ct_count inner + 1\<rparr> in
         if ct_is_object inner \<and> ct_count inner' > max_object_keys then Inl LimitKeys
         else if \<not> ct_is_object inner \<and> ct_count inner' > max_array_length then Inl LimitArray
         else Inr (w\<lparr>lw_stack := inner' # stk\<rparr>))"

text \<open>\<^verbatim>\<open>limitDecoder.handle\<close>\<close>

definition handle_token :: "token \<Rightarrow> limit_walk \<Rightarrow> limit_error + limit_walk" where
  "handle_token t w =
    (case t of
       TDelim c \<Rightarrow>
         if c = CHR ''{'' \<or> c = CHR ''['' then
           let depth = lw_depth w + 1 in
           if depth > max_object_depth then Inl LimitDepth
           else Inr (w\<lparr>lw_depth := depth, lw_stack := \<lparr>ct_is_object = (c = CHR ''{''), ct_count = 0, ct_awaiting = False\<rparr> # lw_stack w\<rparr>)
         else
           record_element False (if lw_depth w > 0 then w\<lparr>lw_depth := lw_depth w - 1, lw_stack := tl (lw_stack w)\<rparr> else w)
     | TStr s \<Rightarrow> if int (length s) > max_string_length then Inl LimitString else record_element True w
     | TNum n \<Rightarrow> (case check_safe_integer n of Some e \<Rightarrow> Inl (LimitInteger e) | None \<Rightarrow> record_element True w)
     | _ \<Rightarrow> record_element True w)"

text \<open>\<^verbatim>\<open>limitDecoder.walk\<close>, which takes the end of the input as success wherever it comes.\<close>

function walk_tokens :: "decoder \<Rightarrow> limit_walk \<Rightarrow> limit_error + unit" where
  "walk_tokens d w =
    (case next_token d of
       Inl TokEOF \<Rightarrow> Inr ()
     | Inl e \<Rightarrow> Inl (LimitSyntax e)
     | Inr (t, d') \<Rightarrow> (case handle_token t w of Inl e \<Rightarrow> Inl e | Inr w' \<Rightarrow> walk_tokens d' w'))"
  by pat_completeness auto
termination
  by (relation "measure (\<lambda>(d, _). length (dk_input d))") (auto dest: next_token_shorter)

declare walk_tokens.simps [simp del]

definition check_limits :: "string \<Rightarrow> limit_error + unit" where
  "check_limits raw =
    (if raw = [] then Inl EmptyDocument
     else if int (length raw) > max_document_bytes then Inl LimitBytes
     else if \<not> utf8_valid raw then Inl LimitUtf8
     else walk_tokens (new_decoder raw) \<lparr>lw_depth = 0, lw_stack = []\<rparr>)"

section \<open>The walk over a document\<close>

fun handle_all :: "token list \<Rightarrow> limit_walk \<Rightarrow> limit_error + limit_walk" where
  "handle_all [] w = Inr w"
| "handle_all (t # ts) w = (case handle_token t w of Inl e \<Rightarrow> Inl e | Inr w' \<Rightarrow> handle_all ts w')"

lemma handle_all_append:
  "handle_all (ts @ us) w = (case handle_all ts w of Inl e \<Rightarrow> Inl e | Inr w' \<Rightarrow> handle_all us w')"
  by (induction ts arbitrary: w) (auto split: sum.splits)

lemma walk_reads:
  "reads d ts d' \<Longrightarrow> walk_tokens d w = (case handle_all ts w of Inl e \<Rightarrow> Inl e | Inr w' \<Rightarrow> walk_tokens d' w')"
proof (induction ts arbitrary: d w)
  case (Cons t ts)
  then obtain d1 where "next_token d = Inr (t, d1)" "reads d1 ts d'" by auto
  then show ?case using Cons.IH by (subst walk_tokens.simps) (auto split: sum.splits)
qed simp

text \<open>The limits the walk imposes on a document under \<open>k\<close> open containers.\<close>

fun walk_fits :: "nat \<Rightarrow> json \<Rightarrow> bool" where
  "walk_fits k (JNum l) \<longleftrightarrow> check_safe_integer l = None"
| "walk_fits k (JStr s) \<longleftrightarrow> int (length s) \<le> max_string_length"
| "walk_fits k (JArr vs) \<longleftrightarrow> int k < max_object_depth \<and> int (length vs) \<le> max_array_length \<and> (\<forall>v \<in> set vs. walk_fits (Suc k) v)"
| "walk_fits k (JObj kvs) \<longleftrightarrow> int k < max_object_depth \<and> int (length kvs) \<le> max_object_keys \<and>
    (\<forall>kv \<in> set kvs. int (length (fst kv)) \<le> max_string_length \<and> walk_fits (Suc k) (snd kv))"
| "walk_fits k _ \<longleftrightarrow> True"

text \<open>Where a value is expected: at the top, in an array, or after a key.\<close>

definition ready :: "limit_walk \<Rightarrow> bool" where
  "ready w \<longleftrightarrow> (case lw_stack w of [] \<Rightarrow> True | inner # _ \<Rightarrow> ct_is_object inner \<longrightarrow> ct_awaiting inner)"

lemma ready_leaf: "ready w \<Longrightarrow> record_element True w = record_element False w"
  by (auto simp: ready_def record_element_def split: list.splits)

lemma handle_all_Inr:
  "handle_all (ts @ us) w = Inr w' \<longleftrightarrow> (\<exists>w1. handle_all ts w = Inr w1 \<and> handle_all us w1 = Inr w')"
  by (auto simp: handle_all_append split: sum.splits)

lemma handle_all_step:
  assumes "\<And>x. handle_token t w = Inr x \<longleftrightarrow> P \<and> x = y"
  shows "handle_all (t # ts) w = Inr w' \<longleftrightarrow> P \<and> handle_all ts y = Inr w'"
proof (cases P)
  case True
  then have "handle_token t w = Inr y" using assms by blast
  then show ?thesis using True by simp
next
  case False
  then obtain e where "handle_token t w = Inl e" using assms by (cases "handle_token t w") auto
  then show ?thesis using False by simp
qed

definition open_walk :: "bool \<Rightarrow> int \<Rightarrow> bool \<Rightarrow> container list \<Rightarrow> limit_walk" where
  "open_walk obj count awaiting stk =
    \<lparr>lw_depth = int (Suc (length stk)), lw_stack = \<lparr>ct_is_object = obj, ct_count = count, ct_awaiting = awaiting\<rparr> # stk\<rparr>"

lemma record_open:
  "record_element False (open_walk False c False stk) = Inr w \<longleftrightarrow> c + 1 \<le> max_array_length \<and> w = open_walk False (c + 1) False stk"
  "record_element False (open_walk True c True stk) = Inr w \<longleftrightarrow> c + 1 \<le> max_object_keys \<and> w = open_walk True (c + 1) False stk"
  "ready (open_walk False c False stk)" "ready (open_walk True c True stk)"
  by (auto simp: record_element_def open_walk_def ready_def Let_def)

lemma handle_key:
  "handle_token (TStr k) (open_walk True c False stk) = Inr w \<longleftrightarrow>
    int (length k) \<le> max_string_length \<and> w = open_walk True c True stk"
  by (auto simp: handle_token_def record_element_def open_walk_def)

lemma handle_open:
  assumes "lw_depth w = int (length (lw_stack w))" and "c = CHR ''{'' \<or> c = CHR ''[''"
  shows "handle_token (TDelim c) w = Inr w' \<longleftrightarrow>
    int (length (lw_stack w)) < max_object_depth \<and> w' = open_walk (c = CHR ''{'') 0 False (lw_stack w)"
  using assms by (auto simp: handle_token_def open_walk_def Let_def intro!: limit_walk.equality)

lemma handle_all_open:
  assumes "lw_depth w = int (length (lw_stack w))" and "c = CHR ''{'' \<or> c = CHR ''[''"
  shows "handle_all (TDelim c # ts) w = Inr w' \<longleftrightarrow>
    int (length (lw_stack w)) < max_object_depth \<and> handle_all ts (open_walk (c = CHR ''{'') 0 False (lw_stack w)) = Inr w'"
  by (rule handle_all_step [OF handle_open [OF assms]])

lemma handle_close:
  assumes "lw_depth w = int (length (lw_stack w))" and "c = CHR ''}'' \<or> c = CHR '']''"
  shows "handle_token (TDelim c) (open_walk obj n aw (lw_stack w)) = record_element False w"
proof -
  have "(open_walk obj n aw (lw_stack w))\<lparr>lw_depth := lw_depth (open_walk obj n aw (lw_stack w)) - 1,
      lw_stack := tl (lw_stack (open_walk obj n aw (lw_stack w)))\<rparr> = w"
    using assms(1) by (intro limit_walk.equality) (simp_all add: open_walk_def)
  moreover have "lw_depth (open_walk obj n aw (lw_stack w)) > 0" by (simp add: open_walk_def)
  ultimately show ?thesis using assms(2) by (auto simp: handle_token_def)
qed

lemma handle_document:
  "ready w \<Longrightarrow> lw_depth w = int (length (lw_stack w)) \<Longrightarrow>
    handle_all (toks v) w = Inr w' \<longleftrightarrow> walk_fits (length (lw_stack w)) v \<and> record_element False w = Inr w'"
  "c + int (length vs) \<ge> 0 \<Longrightarrow> handle_all (toks_elems vs) (open_walk False c False stk) = Inr w' \<longleftrightarrow>
    (\<forall>v \<in> set vs. walk_fits (Suc (length stk)) v) \<and> (vs \<noteq> [] \<longrightarrow> c + int (length vs) \<le> max_array_length) \<and>
    w' = open_walk False (c + int (length vs)) False stk"
  "handle_all (toks_members kvs) (open_walk True c False stk) = Inr w' \<longleftrightarrow>
    (\<forall>kv \<in> set kvs. int (length (fst kv)) \<le> max_string_length \<and> walk_fits (Suc (length stk)) (snd kv)) \<and>
    (kvs \<noteq> [] \<longrightarrow> c + int (length kvs) \<le> max_object_keys) \<and> w' = open_walk True (c + int (length kvs)) False stk"
proof (induction v and vs and kvs arbitrary: w w' and c stk w' and c stk w' rule: toks_toks_elems_toks_members.induct)
  case (5 vs)
  have "handle_all (toks (JArr vs)) w = Inr w' \<longleftrightarrow>
    int (length (lw_stack w)) < max_object_depth \<and>
    (\<exists>w1. handle_all (toks_elems vs) (open_walk False 0 False (lw_stack w)) = Inr w1 \<and> handle_token (TDelim (CHR '']'')) w1 = Inr w')"
    using handle_all_open [OF 5(3), of "CHR ''[''"] by (auto simp: handle_all_Inr simp del: handle_all.simps(2)) (auto split: sum.splits)
  also have "\<dots> \<longleftrightarrow> walk_fits (length (lw_stack w)) (JArr vs) \<and> record_element False w = Inr w'"
    using 5(1) [of 0 "lw_stack w"] handle_close [OF 5(3), of "CHR '']''"] by (auto simp: max_array_length_def)
  finally show ?case .
next
  case (6 kvs)
  have "handle_all (toks (JObj kvs)) w = Inr w' \<longleftrightarrow>
    int (length (lw_stack w)) < max_object_depth \<and>
    (\<exists>w1. handle_all (toks_members kvs) (open_walk True 0 False (lw_stack w)) = Inr w1 \<and> handle_token (TDelim (CHR ''}'')) w1 = Inr w')"
    using handle_all_open [OF 6(3), of "CHR ''{''"] by (auto simp: handle_all_Inr simp del: handle_all.simps(2)) (auto split: sum.splits)
  also have "\<dots> \<longleftrightarrow> walk_fits (length (lw_stack w)) (JObj kvs) \<and> record_element False w = Inr w'"
    using 6(1) [of 0 "lw_stack w"] handle_close [OF 6(3), of "CHR ''}''"] by (auto simp: max_object_keys_def)
  finally show ?case .
next
  case (8 v vs)
  have "handle_all (toks v) (open_walk False c False stk) = Inr w1 \<longleftrightarrow>
    walk_fits (Suc (length stk)) v \<and> c + 1 \<le> max_array_length \<and> w1 = open_walk False (c + 1) False stk" for w1
    using 8(1) [of "open_walk False c False stk" w1] record_open by (simp add: open_walk_def)
  then show ?case using 8(2) [of "c + 1" stk w'] 8(3) by (auto simp: handle_all_Inr add.assoc)
next
  case (10 k v kvs)
  have key: "handle_all (TStr k # ts) (open_walk True c False stk) = Inr w1 \<longleftrightarrow>
    int (length k) \<le> max_string_length \<and> handle_all ts (open_walk True c True stk) = Inr w1" for ts w1
    by (rule handle_all_step [OF handle_key])
  have val: "handle_all (toks v) (open_walk True c True stk) = Inr w1 \<longleftrightarrow>
    walk_fits (Suc (length stk)) v \<and> c + 1 \<le> max_object_keys \<and> w1 = open_walk True (c + 1) False stk" for w1
    using 10(1) [of "open_walk True c True stk" w1] record_open by (simp add: open_walk_def)
  have "handle_all (toks_members ((k, v) # kvs)) (open_walk True c False stk) = Inr w' \<longleftrightarrow>
    int (length k) \<le> max_string_length \<and> walk_fits (Suc (length stk)) v \<and> c + 1 \<le> max_object_keys \<and>
    handle_all (toks_members kvs) (open_walk True (c + 1) False stk) = Inr w'"
    by (auto simp: key val handle_all_Inr simp del: handle_all.simps(2))
  then show ?case using 10(2) [of "c + 1" stk w'] by (auto simp: add.assoc)
qed (auto simp: handle_token_def ready_leaf split: sum.splits option.splits)

section \<open>Server and signer agree\<close>

text \<open>Keys are unique in every object, which the server leaves to the JCS library.\<close>

fun keys_distinct :: "json \<Rightarrow> bool" where
  "keys_distinct (JArr vs) \<longleftrightarrow> (\<forall>v \<in> set vs. keys_distinct v)"
| "keys_distinct (JObj kvs) \<longleftrightarrow> distinct (map fst kvs) \<and> (\<forall>kv \<in> set kvs. keys_distinct (snd kv))"
| "keys_distinct _ \<longleftrightarrow> True"

text \<open>No container lies under \<open>n\<close> others or more.\<close>

fun nested_within :: "nat \<Rightarrow> json \<Rightarrow> bool" where
  "nested_within n (JArr vs) \<longleftrightarrow> n \<noteq> 0 \<and> (\<forall>v \<in> set vs. nested_within (n - 1) v)"
| "nested_within n (JObj kvs) \<longleftrightarrow> n \<noteq> 0 \<and> (\<forall>kv \<in> set kvs. nested_within (n - 1) (snd kv))"
| "nested_within n _ \<longleftrightarrow> True"

lemma check_limits_document:
  assumes "document raw v"
  shows "check_limits raw = Inr () \<longleftrightarrow> int (length raw) \<le> max_document_bytes \<and> utf8_valid raw \<and> walk_fits 0 v"
proof -
  obtain d where d: "reads (new_decoder raw) (toks v) d" "next_token d = Inl TokEOF" using assms unfolding document_def by blast
  have ne: "raw \<noteq> []" using d(1) by (cases v) (auto simp: next_token_def)
  let ?w = "\<lparr>lw_depth = 0, lw_stack = []\<rparr>"
  have eof: "walk_tokens d w = Inr ()" for w by (subst walk_tokens.simps) (simp add: d(2))
  have "handle_all (toks v) ?w = Inr w' \<longleftrightarrow> walk_fits 0 v \<and> w' = ?w" for w'
    using handle_document(1) [of ?w v w'] by (auto simp: ready_def record_element_def)
  then have "walk_tokens (new_decoder raw) ?w = Inr () \<longleftrightarrow> walk_fits 0 v"
    unfolding walk_reads [OF d(1)] eof by (cases "handle_all (toks v) ?w") auto
  then show ?thesis using ne by (auto simp: check_limits_def)
qed

lemma default_deep: "\<not> too_deep default_limits k \<longleftrightarrow> k \<le> 32"
  by (auto simp: too_deep_def default_limits_def hard_max_depth_def)

lemma default_simps [simp]:
  "lm_max_string_len default_limits = 32768" "lm_max_array_len default_limits = 4096"
  "lm_max_object_keys default_limits = 4096" "lm_safe_integers default_limits"
  by (simp_all add: default_limits_def)

lemmas limit_consts = max_document_bytes_def max_object_depth_def max_string_length_def max_array_length_def max_object_keys_def

lemma walk_fits_iff:
  "k \<le> 32 \<Longrightarrow> walk_fits k v \<and> keys_distinct v \<longleftrightarrow> fits default_limits k v \<and> nested_within (32 - k) v"
proof (induction v arbitrary: k rule: keys_distinct.induct)
  case (1 vs)
  show ?case
  proof (cases "k = 32")
    case False
    then have "(\<forall>v \<in> set vs. walk_fits (Suc k) v \<and> keys_distinct v) \<longleftrightarrow>
        (\<forall>v \<in> set vs. fits default_limits (Suc k) v \<and> nested_within (32 - Suc k) v)"
      using 1 by (intro ball_cong refl) simp
    moreover have "32 - k - 1 = 32 - Suc k" by simp
    ultimately show ?thesis using False 1(2) by (auto simp: default_deep limit_consts exceeds_def)
  qed (simp add: limit_consts)
next
  case (2 kvs)
  show ?case
  proof (cases "k = 32")
    case False
    then have "(\<forall>kv \<in> set kvs. walk_fits (Suc k) (snd kv) \<and> keys_distinct (snd kv)) \<longleftrightarrow>
        (\<forall>kv \<in> set kvs. fits default_limits (Suc k) (snd kv) \<and> nested_within (32 - Suc k) (snd kv))"
      using 2 by (intro ball_cong refl) simp
    moreover have "32 - k - 1 = 32 - Suc k" by simp
    ultimately show ?thesis using False 2(2) by (auto simp: default_deep limit_consts exceeds_def)
  qed (simp add: limit_consts)
qed (auto simp: default_deep limit_consts exceeds_def)

text \<open>
  C26: the server's limit check and the signer's parser agree. For a text that is one JSON document
  with distinct keys, \<^verbatim>\<open>auditpkg.CheckLimits\<close> succeeds exactly when \<^verbatim>\<open>canonical.ParseWithLimits\<close> with
  \<^verbatim>\<open>DefaultLimits\<close> returns the document and no container lies under 32 others.
\<close>

theorem limits_agree:
  assumes "document raw v" and "keys_distinct v"
  shows "check_limits raw = Inr () \<longleftrightarrow> parse_with_limits raw default_limits = Inr v \<and> nested_within 32 v"
proof -
  have "within_size default_limits raw \<longleftrightarrow> int (length raw) \<le> max_document_bytes"
    by (auto simp: within_size_def default_limits_def limit_consts)
  then show ?thesis
    unfolding check_limits_document [OF assms(1)] parse_document using assms walk_fits_iff [of 0 v] by auto
qed

text \<open>The nesting on which they differ: 33 brackets, the innermost array empty.\<close>

fun nest :: "nat \<Rightarrow> json" where
  "nest 0 = JArr []"
| "nest (Suc n) = JArr [nest n]"

definition brackets :: "nat \<Rightarrow> string" where
  "brackets n = replicate (Suc n) (CHR ''['') @ replicate (Suc n) (CHR '']'')"

lemma reads_nest:
  "value_allowed st \<Longrightarrow>
    reads \<lparr>dk_input = replicate (Suc n) (CHR ''['') @ replicate (Suc n) (CHR '']'') @ u, dk_state = st, dk_stack = stk\<rparr>
      (toks (nest n)) \<lparr>dk_input = u, dk_state = value_end st, dk_stack = stk\<rparr>"
proof (induction n arbitrary: st stk u)
  case 0
  then show ?case by (simp add: next_token_def json_space_def pop_state_def)
next
  case (Suc n)
  have split: "replicate (Suc (Suc n)) (CHR '']'') @ u = replicate (Suc n) (CHR '']'') @ CHR '']'' # u"
    by (simp add: replicate_app_Cons_same)
  have "reads \<lparr>dk_input = replicate (Suc n) (CHR ''['') @ replicate (Suc n) (CHR '']'') @ CHR '']'' # u, dk_state = ArrayStart, dk_stack = st # stk\<rparr>
      (toks (nest n)) \<lparr>dk_input = CHR '']'' # u, dk_state = ArrayComma, dk_stack = st # stk\<rparr>"
    using Suc.IH [of ArrayStart "CHR '']'' # u" "st # stk"] by (simp add: value_allowed_def)
  moreover have "next_token \<lparr>dk_input = CHR '']'' # u, dk_state = ArrayComma, dk_stack = st # stk\<rparr> =
      Inr (TDelim (CHR '']''), \<lparr>dk_input = u, dk_state = value_end st, dk_stack = stk\<rparr>)"
    by (simp add: next_token_def json_space_def pop_state_def)
  moreover have "next_token \<lparr>dk_input = replicate (Suc (Suc n)) (CHR ''['') @ w, dk_state = st, dk_stack = stk\<rparr> =
      Inr (TDelim (CHR ''[''), \<lparr>dk_input = replicate (Suc n) (CHR ''['') @ w, dk_state = ArrayStart, dk_stack = st # stk\<rparr>)" for w
    using Suc.prems by (simp add: next_token_def json_space_def)
  ultimately show ?case unfolding split by (auto simp: reads_append)
qed

lemma brackets_document: "document (brackets n) (nest n)"
proof -
  have "reads (new_decoder (brackets n)) (toks (nest n)) \<lparr>dk_input = [], dk_state = TopValue, dk_stack = []\<rparr>"
    using reads_nest [of TopValue n "[]" "[]"] by (simp add: brackets_def new_decoder_def value_allowed_def)
  then show ?thesis unfolding document_def by (intro exI conjI, assumption) (simp add: next_token_def)
qed

lemma nest_facts:
  "fits default_limits k (nest n) \<longleftrightarrow> k + n \<le> 32" "nested_within m (nest n) \<longleftrightarrow> n < m" "keys_distinct (nest n)"
proof -
  show "fits default_limits k (nest n) \<longleftrightarrow> k + n \<le> 32" by (induction n arbitrary: k) (auto simp: default_deep exceeds_def)
  show "nested_within m (nest n) \<longleftrightarrow> n < m"
  proof (induction n arbitrary: m)
    case (Suc n)
    then show ?case by (cases m) simp_all
  qed simp
  show "keys_distinct (nest n)" by (induction n) auto
qed

lemma brackets_parse: "n \<le> 32 \<Longrightarrow> parse_with_limits (brackets n) default_limits = Inr (nest n)"
proof -
  assume n: "n \<le> 32"
  have "length (brackets n) = 2 * Suc n" by (simp add: brackets_def)
  then have "within_size default_limits (brackets n)" using n by (simp add: within_size_def default_limits_def)
  moreover have "utf8_valid (brackets n)" by (rule ascii_valid) (auto simp: ascii_def brackets_def simp del: replicate_Suc)
  moreover have "fits default_limits 0 (nest n)" using n nest_facts(1) by simp
  ultimately show ?thesis using brackets_document [of n] unfolding parse_document by blast
qed

corollary limits_agree_witness: "check_limits (brackets 31) = Inr ()"
proof -
  have "nested_within 32 (nest 31)" using nest_facts(2) [of 32 31] by simp
  then show ?thesis using limits_agree [OF brackets_document nest_facts(3), of 31] brackets_parse [of 31] by simp
qed

lemma empty_container_at_depth_33:
  "parse_with_limits (brackets 32) default_limits = Inr (nest 32) \<and> check_limits (brackets 32) \<noteq> Inr ()"
proof -
  have "parse_with_limits (brackets 32) default_limits = Inr (nest 32)" by (rule brackets_parse) simp
  moreover have "\<not> walk_fits 0 (nest 32)"
    using walk_fits_iff [of 0 "nest 32"] nest_facts(2) [of 32 32] nest_facts(3) [of 32] by simp
  ultimately show ?thesis using check_limits_document [OF brackets_document] by blast
qed

end
