(* ===== verification/Jcs.thy ===== *)
theory Jcs
  imports Canonical "HOL-Library.Multiset"
begin

text \<open>
  Canonical serialization, signer/internal/canonical/canonical.go from \<^verbatim>\<open>Canonicalize\<close> on: keys in
  UTF-16 order, minimal escaping and ECMAScript number layout. Correctly rounded float64 conversion
  (strconv) is a parameter. The canonical bytes parse rb to the canonical form of the document,
  so they are a fixed point and identify that form.
\<close>

section \<open>Numbers\<close>

text \<open>
  An exact decimal \<open>(m, e)\<close> is \<open>m * 10 ^ e\<close>; normalised, \<open>m\<close> has no trailing zero and zero is
  \<open>(0, 0)\<close>. What \<^verbatim>\<open>ParseFloat\<close> makes of a literal depends on its exact value only.
\<close>

function dec_norm :: "int \<times> int \<Rightarrow> int \<times> int" where
  "dec_norm (m, e) = (if m = 0 then (0, 0) else if m mod 10 = 0 then dec_norm (m div 10, e + 1) else (m, e))"
  by pat_completeness auto
termination
  by (relation "measure (\<lambda>(m, _). nat \<bar>m\<bar>)") auto

declare dec_norm.simps [simp del]

definition digits_nat :: "string \<Rightarrow> nat" where
  "digits_nat ds = foldl (\<lambda>a c. 10 * a + (of_char c - 48)) 0 ds"

definition exp_value :: "string \<Rightarrow> int" where
  "exp_value e =
    (case e of _ # g # ds \<Rightarrow>
       if g = CHR ''-'' then - int (digits_nat ds)
       else if g = CHR ''+'' then int (digits_nat ds)
       else int (digits_nat (g # ds))
     | _ \<Rightarrow> 0)"

definition magnitude_decimal :: "string \<Rightarrow> int \<times> int" where
  "magnitude_decimal s =
    (case scan_int s of None \<Rightarrow> (0, 0)
     | Some (i, s2) \<Rightarrow> (case scan_frac s2 of None \<Rightarrow> (0, 0)
       | Some (f, s3) \<Rightarrow> (case scan_exp s3 of None \<Rightarrow> (0, 0)
         | Some (e, _) \<Rightarrow> (int (digits_nat (i @ tl f)), exp_value e - int (length (tl f))))))"

definition literal_decimal :: "string \<Rightarrow> int \<times> int" where
  "literal_decimal l =
    (case l of c # cs \<Rightarrow>
       if c = CHR ''-'' then (case magnitude_decimal cs of (m, e) \<Rightarrow> (- m, e)) else magnitude_decimal l
     | [] \<Rightarrow> (0, 0))"

text \<open>
  float64 as the code uses it: rounding of an exact decimal (\<open>None\<close> out of range), and the
  shortest digits that read rb as the magnitude, with the decimal exponent of the first one, as
  \<^verbatim>\<open>FormatFloat(x, 'e', -1, 64)\<close> prints them.
\<close>

record 'f float_ops =
  fo_round :: "int \<times> int \<Rightarrow> 'f option"
  fo_finite :: "'f \<Rightarrow> bool"
  fo_zero :: "'f \<Rightarrow> bool"
  fo_negative :: "'f \<Rightarrow> bool"
  fo_shortest :: "'f \<Rightarrow> string \<times> int"

definition parse_float :: "'f float_ops \<Rightarrow> string \<Rightarrow> 'f option" where
  "parse_float F l = fo_round F (dec_norm (literal_decimal l))"

definition shortest_decimal :: "'f float_ops \<Rightarrow> 'f \<Rightarrow> int \<times> int" where
  "shortest_decimal F f =
    (case fo_shortest F f of (ds, e) \<Rightarrow>
      ((if fo_negative F f then - int (digits_nat ds) else int (digits_nat ds)), e + 1 - int (length ds)))"

text \<open>What strconv documents: the shortest digits are digits without a leading zero and read back.\<close>

definition float_law :: "'f float_ops \<Rightarrow> bool" where
  "float_law F \<longleftrightarrow> (\<forall>p f. fo_round F p = Some f \<longrightarrow>
    fo_finite F f \<and>
    (if fo_zero F f then fo_round F (0, 0) = Some f
     else (case fo_shortest F f of (ds, e) \<Rightarrow>
        ds \<noteq> [] \<and> (\<forall>c \<in> set ds. is_digit c) \<and> hd ds \<noteq> CHR ''0'') \<and>
       fo_round F (dec_norm (shortest_decimal F f)) = Some f))"

text \<open>\<^verbatim>\<open>formatNumber\<close>: the four layouts of ECMA-262 Number::toString.\<close>

definition layout :: "string \<Rightarrow> int \<Rightarrow> string" where
  "layout digits exp =
    (let k = int (length digits); n = exp + 1 in
     if k \<le> n \<and> n \<le> 21 then digits @ replicate (nat (n - k)) (CHR ''0'')
     else if 0 < n \<and> n \<le> 21 then take (nat n) digits @ ''.'' @ drop (nat n) digits
     else if -6 < n \<and> n \<le> 0 then ''0.'' @ replicate (nat (- n)) (CHR ''0'') @ digits
     else [hd digits] @ (if k > 1 then CHR ''.'' # tl digits else []) @ ''e'' @
       (if n - 1 \<ge> 0 then ''+'' else ''-'') @ nat_digits (nat \<bar>n - 1\<bar>))"

definition format_number :: "'f float_ops \<Rightarrow> 'f \<Rightarrow> string option" where
  "format_number F f =
    (if \<not> fo_finite F f then None
     else if fo_zero F f then Some ''0''
     else case fo_shortest F f of (ds, e) \<Rightarrow>
       Some (if fo_negative F f then CHR ''-'' # layout ds e else layout ds e))"

definition number_text :: "'f float_ops \<Rightarrow> string \<Rightarrow> canon_error + string" where
  "number_text F l =
    (case parse_float F l of None \<Rightarrow> Inl (FloatRange l)
     | Some f \<Rightarrow> (case format_number F f of None \<Rightarrow> Inl (FloatRange l) | Some t \<Rightarrow> Inr t))"

section \<open>Strings\<close>

definition hex_lower :: "nat \<Rightarrow> char" where
  "hex_lower n = (if n < 10 then char_of (48 + n) else char_of (87 + n))"

definition escape_rune :: "rune \<Rightarrow> string" where
  "escape_rune r =
    (if r = 0x22 then [CHR 0x5C, CHR 0x22]
     else if r = 0x5C then [CHR 0x5C, CHR 0x5C]
     else if r = 0x08 then [CHR 0x5C, CHR ''b'']
     else if r = 0x0C then [CHR 0x5C, CHR ''f'']
     else if r = 0x0A then [CHR 0x5C, CHR ''n'']
     else if r = 0x0D then [CHR 0x5C, CHR ''r'']
     else if r = 0x09 then [CHR 0x5C, CHR ''t'']
     else if r < 0x20 then [CHR 0x5C, CHR ''u'', CHR ''0'', CHR ''0'', hex_lower (r div 16), hex_lower (r mod 16)]
     else encode_rune r)"

definition write_string :: "string \<Rightarrow> string" where
  "write_string s = CHR 0x22 # concat (map escape_rune (runes s)) @ [CHR 0x22]"

text \<open>\<^verbatim>\<open>utf16Less\<close>: the loop over the common length, then the lengths.\<close>

fun units_less :: "nat list \<Rightarrow> nat list \<Rightarrow> bool" where
  "units_less (x # xs) (y # ys) = (if x \<noteq> y then x < y else units_less xs ys)"
| "units_less xs ys = (length xs < length ys)"

definition utf16_less :: "string \<Rightarrow> string \<Rightarrow> bool" where
  "utf16_less a b = units_less (utf16 a) (utf16 b)"

lemma units_less_iff: "units_less xs ys \<longleftrightarrow> xs < ys"
proof (induction xs arbitrary: ys)
  case Nil
  then show ?case by (cases ys) simp_all
next
  case (Cons x xs)
  then show ?case by (cases ys) auto
qed

lemma utf16_less_iff: "utf16_less a b \<longleftrightarrow> utf16 a < utf16 b"
  by (simp add: utf16_less_def units_less_iff)

section \<open>Marshal\<close>

text \<open>The parts of a container, separated by commas; the first failing part is the error.\<close>

fun join_parts :: "(canon_error + string) list \<Rightarrow> canon_error + string" where
  "join_parts [] = Inr []"
| "join_parts (Inl e # ps) = Inl e"
| "join_parts [Inr b] = Inr b"
| "join_parts (Inr b # ps) = (case join_parts ps of Inl e \<Rightarrow> Inl e | Inr bs \<Rightarrow> Inr (b @ CHR '','' # bs))"

definition enclose :: "char \<Rightarrow> char \<Rightarrow> canon_error + string \<Rightarrow> canon_error + string" where
  "enclose a z p = (case p of Inl e \<Rightarrow> Inl e | Inr b \<Rightarrow> Inr (a # b @ [z]))"

definition member_part :: "string \<times> (canon_error + string) \<Rightarrow> canon_error + string" where
  "member_part m = (case snd m of Inl e \<Rightarrow> Inl e | Inr b \<Rightarrow> Inr (write_string (fst m) @ CHR '':'' # b))"

text \<open>\<^verbatim>\<open>sort.Slice\<close> by \<^verbatim>\<open>utf16Less\<close>; the keys of an object are distinct, so its instability does not show.\<close>

definition sort_members :: "(string \<times> 'a) list \<Rightarrow> (string \<times> 'a) list" where
  "sort_members ms = sort_key (\<lambda>m. utf16 (fst m)) ms"

fun write_value :: "'f float_ops \<Rightarrow> json \<Rightarrow> canon_error + string" where
  "write_value F JNull = Inr ''null''"
| "write_value F (JBool b) = Inr (if b then ''true'' else ''false'')"
| "write_value F (JNum l) = number_text F l"
| "write_value F (JStr s) = Inr (write_string s)"
| "write_value F (JArr vs) = enclose (CHR ''['') (CHR '']'') (join_parts (map (write_value F) vs))"
| "write_value F (JObj kvs) = enclose (CHR ''{'') (CHR ''}'')
     (join_parts (map member_part (sort_members (map (\<lambda>kv. (fst kv, write_value F (snd kv))) kvs))))"

definition marshal :: "'f float_ops \<Rightarrow> json \<Rightarrow> canon_error + string" where
  "marshal F v = write_value F v"

definition canonicalize :: "'f float_ops \<Rightarrow> string \<Rightarrow> canon_error + string" where
  "canonicalize F inp = (case parse inp of Inl e \<Rightarrow> Inl e | Inr v \<Rightarrow> marshal F v)"

section \<open>The number layout denotes the number\<close>

lemma dec_norm_times10: "dec_norm (m * 10, e) = dec_norm (m, e + 1)"
  by (subst dec_norm.simps) (simp add: dec_norm.simps [of 0])

lemma dec_norm_shift: "dec_norm (m * 10 ^ j, e) = dec_norm (m, e + int j)"
proof (induction j arbitrary: e)
  case (Suc j)
  have "dec_norm (m * 10 ^ Suc j, e) = dec_norm (m * 10 ^ j * 10, e)" by (simp add: mult.commute mult.left_commute)
  then show ?case using Suc [of "e + 1"] by (simp only: dec_norm_times10) (simp add: add.commute add.left_commute)
qed simp

lemma digits_nat_append: "digits_nat (xs @ ys) = digits_nat xs * 10 ^ length ys + digits_nat ys"
proof -
  have "foldl (\<lambda>a c. 10 * a + g c) a ys = a * 10 ^ length ys + foldl (\<lambda>a c. 10 * a + g c) 0 ys" for g :: "char \<Rightarrow> nat" and a
  proof (induction ys arbitrary: a)
    case (Cons y ys)
    have steps: "foldl (\<lambda>a c. 10 * a + g c) (10 * a + g y) ys = (10 * a + g y) * 10 ^ length ys + foldl (\<lambda>a c. 10 * a + g c) 0 ys"
      "foldl (\<lambda>a c. 10 * a + g c) (g y) ys = g y * 10 ^ length ys + foldl (\<lambda>a c. 10 * a + g c) 0 ys"
      by (rule Cons)+
    show ?case by (simp only: foldl_Cons mult_0_right add_0 steps list.size power_Suc) (simp add: algebra_simps)
  qed simp
  then show ?thesis unfolding digits_nat_def foldl_append by this
qed

lemma digits_nat_zeros [simp]: "digits_nat (replicate j (CHR ''0'')) = 0"
  by (induction j) (simp_all add: digits_nat_def)

lemma nat_digits_digit: "c \<in> set (nat_digits n) \<Longrightarrow> is_digit c"
proof (induction n rule: nat_digits.induct)
  case (1 n)
  have d: "is_digit (digit_char m)" if "m < 10" for m using that by (simp add: is_digit_def digit_char_def)
  show ?case using 1 d by (subst (asm) (2) nat_digits.simps) (auto split: if_splits)
qed

lemma digits_nat_nat_digits: "digits_nat (nat_digits n) = n"
proof (induction n rule: nat_digits.induct)
  case (1 n)
  have d: "digits_nat [digit_char m] = m" if "m < 10" for m
    using that by (simp add: digits_nat_def digit_char_def)
  show ?case
  proof (cases "n < 10")
    case True
    then show ?thesis using d by (simp add: nat_digits.simps)
  next
    case False
    then show ?thesis using 1 d by (subst nat_digits.simps) (simp add: digits_nat_append)
  qed
qed

definition all_digits :: "string \<Rightarrow> bool" where
  "all_digits s \<longleftrightarrow> s \<noteq> [] \<and> (\<forall>c \<in> set s. is_digit c)"

definition int_part :: "string \<Rightarrow> bool" where
  "int_part i \<longleftrightarrow> i = ''0'' \<or> all_digits i \<and> hd i \<noteq> CHR ''0''"

definition frac_part :: "string \<Rightarrow> bool" where
  "frac_part f \<longleftrightarrow> f = [] \<or> (\<exists>d. f = CHR ''.'' # d \<and> all_digits d)"

definition exp_part :: "string \<Rightarrow> bool" where
  "exp_part x \<longleftrightarrow> x = [] \<or> (\<exists>g d. x = CHR ''e'' # g # d \<and> (g = CHR ''+'' \<or> g = CHR ''-'') \<and> all_digits d)"

lemma take_digits:
  assumes "\<forall>c \<in> set s. is_digit c" and "no_digit u"
  shows "takeWhile is_digit (s @ u) = s" and "dropWhile is_digit (s @ u) = u"
proof -
  have u: "takeWhile is_digit u = []" "dropWhile is_digit u = u" using assms(2) by (cases u; simp add: no_digit_def)+
  show "takeWhile is_digit (s @ u) = s" by (subst takeWhile_append2) (use assms(1) u in auto)
  show "dropWhile is_digit (s @ u) = u" by (subst dropWhile_append2) (use assms(1) u in auto)
qed

lemma scan_int_part:
  assumes "int_part i" and "no_digit u"
  shows "scan_int (i @ u) = Some (i, u)"
proof (cases "i = ''0''")
  case True
  then show ?thesis by (simp add: scan_int_def)
next
  case False
  then have i: "all_digits i" "hd i \<noteq> CHR ''0''" using assms(1) by (simp_all add: int_part_def)
  then obtain c j where c: "i = c # j" by (cases i) (simp_all add: all_digits_def)
  have "takeWhile is_digit (c # j @ u) = i" "dropWhile is_digit (c # j @ u) = u"
    using take_digits [of i u] i(1) assms(2) c by (simp_all add: all_digits_def)
  then show ?thesis using i c by (simp add: scan_int_def all_digits_def)
qed

lemma scan_digits_part: "all_digits d \<Longrightarrow> no_digit u \<Longrightarrow> scan_some_digits (d @ u) = Some (d, u)"
  using take_digits [of d u] by (simp add: all_digits_def scan_some_digits_def)

lemma scan_frac_part:
  assumes "frac_part f" and "no_digit u" and "u = [] \<or> hd u \<noteq> CHR ''.''"
  shows "scan_frac (f @ u) = Some (f, u)"
proof (cases "f = []")
  case True
  then show ?thesis using assms(3) by (cases u) (simp_all add: scan_frac_def)
next
  case False
  then show ?thesis using assms(1) scan_digits_part [OF _ assms(2)] by (auto simp: frac_part_def scan_frac_def)
qed

lemma scan_exp_part:
  assumes "exp_part x" and "num_end u"
  shows "scan_exp (x @ u) = Some (x, u)"
proof (cases "x = []")
  case True
  then show ?thesis using assms(2) by (cases u) (simp_all add: scan_exp_def num_end_def)
next
  case False
  have "no_digit u" using assms(2) by (auto simp: num_end_def no_digit_def)
  from scan_digits_part [OF _ this] show ?thesis using False assms(1) by (auto simp: exp_part_def scan_exp_def)
qed

lemma scan_parts:
  assumes "int_part i" and "frac_part f" and "exp_part x" and "num_end u"
  shows "scan_magnitude (i @ f @ x @ u) = Some (i @ f @ x, u)"
    and "magnitude_decimal (i @ f @ x) = (int (digits_nat (i @ tl f)), exp_value x - int (length (tl f)))"
proof -
  have tail: "no_digit (x @ w) \<and> (x @ w = [] \<or> hd (x @ w) \<noteq> CHR ''.'') \<and> no_digit (f @ x @ w)" if "num_end w" for w
    using assms(2,3) that by (cases w) (auto simp: exp_part_def frac_part_def no_digit_def num_end_def is_digit_def)
  have scans: "scan_int (i @ f @ x @ w) = Some (i, f @ x @ w)" "scan_frac (f @ x @ w) = Some (f, x @ w)"
    "scan_exp (x @ w) = Some (x, w)" if "num_end w" for w
    using scan_int_part [OF assms(1)] scan_frac_part [OF assms(2)] scan_exp_part [OF assms(3) that] tail [OF that] by blast+
  show "scan_magnitude (i @ f @ x @ u) = Some (i @ f @ x, u)" using scans [OF assms(4)] by (simp add: scan_magnitude_def)
  show "magnitude_decimal (i @ f @ x) = (int (digits_nat (i @ tl f)), exp_value x - int (length (tl f)))"
    using scans [of "[]"] by (simp add: magnitude_decimal_def num_end_def)
qed

lemma digits_sub: "\<forall>c \<in> set ds. is_digit c \<Longrightarrow> set xs \<subseteq> set ds \<Longrightarrow> xs \<noteq> [] \<Longrightarrow> all_digits xs"
  by (auto simp: all_digits_def)

lemma zero_digit: "is_digit (CHR ''0'')"
  by (simp add: is_digit_def)

text \<open>Every layout splits into an integer, a fraction and an exponent that denote the digits.\<close>

lemma layout_parts:
  assumes "all_digits ds" and "hd ds \<noteq> CHR ''0''"
  obtains i f x where "layout ds e = i @ f @ x" "int_part i" "frac_part f" "exp_part x"
    "dec_norm (int (digits_nat (i @ tl f)), exp_value x - int (length (tl f))) = dec_norm (int (digits_nat ds), e + 1 - int (length ds))"
proof -
  let ?k = "int (length ds)"
  let ?n = "e + 1"
  have digits: "\<forall>c \<in> set ds. is_digit c" "ds \<noteq> []" using assms(1) by (simp_all add: all_digits_def)
  consider (big) "?k \<le> ?n" "?n \<le> 21" | (mid) "\<not> ?k \<le> ?n" "0 < ?n" "?n \<le> 21" | (small) "-6 < ?n" "?n \<le> 0"
    | (sci) "\<not> (?k \<le> ?n \<and> ?n \<le> 21)" "\<not> (0 < ?n \<and> ?n \<le> 21)" "\<not> (-6 < ?n \<and> ?n \<le> 0)" by linarith
  then show thesis
  proof cases
    case big
    let ?z = "replicate (nat (?n - ?k)) (CHR ''0'')"
    have "int_part (ds @ ?z)" using assms zero_digit by (auto simp: int_part_def all_digits_def)
    moreover have "dec_norm (int (digits_nat (ds @ ?z)), 0) = dec_norm (int (digits_nat ds), ?n - ?k)"
      using big dec_norm_shift [of "int (digits_nat ds)" "nat (?n - ?k)" 0] by (simp add: digits_nat_append)
    ultimately show thesis using that [of "ds @ ?z" "[]" "[]"] big
      by (simp add: layout_def Let_def frac_part_def exp_part_def exp_value_def)
  next
    case mid
    let ?i = "take (nat ?n) ds" and ?d = "drop (nat ?n) ds"
    have ne: "?i \<noteq> []" "?d \<noteq> []" using mid digits(2) by auto
    have "int_part ?i" using assms(2) digits digits_sub [OF digits(1) set_take_subset ne(1)] ne(1)
      by (simp add: int_part_def)
    moreover have "frac_part (CHR ''.'' # ?d)" using digits_sub [OF digits(1) set_drop_subset ne(2)] by (simp add: frac_part_def)
    moreover have "?n \<le> ?k" using mid by simp
    then have "int (length ?d) = ?k - ?n" using mid by simp
    ultimately show thesis using that [of ?i "CHR ''.'' # ?d" "[]"] mid
      by (simp add: layout_def Let_def exp_part_def exp_value_def)
  next
    case small
    let ?d = "replicate (nat (- ?n)) (CHR ''0'') @ ds"
    have "all_digits ?d" using digits zero_digit by (auto simp: all_digits_def)
    then have "frac_part (CHR ''.'' # ?d)" by (simp add: frac_part_def)
    moreover have "digits_nat (''0'' @ ?d) = digits_nat ds"
      using digits_nat_append [of "''0'' @ replicate (nat (- ?n)) (CHR ''0'')" ds] digits_nat_zeros [of "Suc (nat (- ?n))"]
      by simp
    moreover have "\<not> ?k \<le> ?n" using small digits(2) by (cases ds) auto
    ultimately show thesis using that [of "''0''" "CHR ''.'' # ?d" "[]"] small
      by (simp add: layout_def Let_def int_part_def exp_part_def exp_value_def add.commute)
  next
    case sci
    let ?f = "if ?k > 1 then CHR ''.'' # tl ds else []"
    let ?x = "''e'' @ (if ?n - 1 \<ge> 0 then ''+'' else ''-'') @ nat_digits (nat \<bar>?n - 1\<bar>)"
    have i: "int_part [hd ds]" using assms(2) digits by (simp add: int_part_def all_digits_def)
    have "tl ds \<noteq> []" if "?k > 1" using that by (cases ds) auto
    moreover have "set (tl ds) \<subseteq> set ds" by (cases ds) auto
    ultimately have f: "frac_part ?f" using digits_sub [OF digits(1)] by (auto simp: frac_part_def)
    have "all_digits (nat_digits (nat \<bar>?n - 1\<bar>))" using nat_digits_digit by (auto simp: all_digits_def)
    then have x: "exp_part ?x" by (auto simp: exp_part_def)
    have "exp_value ?x = ?n - 1" by (simp add: exp_value_def digits_nat_nat_digits)
    moreover have "[hd ds] @ tl ?f = ds" using digits(2) by (cases ds) auto
    moreover have "int (length (tl ?f)) = ?k - 1" using digits(2) by (cases ds) auto
    ultimately have v: "(int (digits_nat ([hd ds] @ tl ?f)), exp_value ?x - int (length (tl ?f))) = (int (digits_nat ds), ?n - ?k)"
      by (simp only: prod.inject) simp
    have "layout ds e = [hd ds] @ ?f @ ?x" unfolding layout_def Let_def by (simp only: sci if_False)
    then show thesis using that i f x v by metis
  qed
qed

lemma layout_scan:
  assumes "all_digits ds" and "hd ds \<noteq> CHR ''0''"
  shows "num_end u \<Longrightarrow> scan_magnitude (layout ds e @ u) = Some (layout ds e, u)"
    and "dec_norm (magnitude_decimal (layout ds e)) = dec_norm (int (digits_nat ds), e + 1 - int (length ds))"
    and "\<exists>c cs. layout ds e = c # cs \<and> is_digit c"
proof -
  obtain i f x where l: "layout ds e = i @ f @ x" and p: "int_part i" "frac_part f" "exp_part x"
    and v: "dec_norm (int (digits_nat (i @ tl f)), exp_value x - int (length (tl f))) = dec_norm (int (digits_nat ds), e + 1 - int (length ds))"
    using layout_parts [OF assms] by blast
  show "num_end u \<Longrightarrow> scan_magnitude (layout ds e @ u) = Some (layout ds e, u)"
    using scan_parts(1) [OF p] by (simp add: l)
  show "dec_norm (magnitude_decimal (layout ds e)) = dec_norm (int (digits_nat ds), e + 1 - int (length ds))"
    using scan_parts(2) [OF p, of "[]"] v by (simp add: l num_end_def)
  show "\<exists>c cs. layout ds e = c # cs \<and> is_digit c"
    using p(1) zero_digit by (cases i) (auto simp: l int_part_def all_digits_def)
qed

section \<open>Formatted numbers are literals of the same number\<close>

lemma float_law_digits:
  assumes "float_law F" and "fo_round F p = Some f" and "\<not> fo_zero F f" and "fo_shortest F f = (ds, e)"
  shows "all_digits ds" and "hd ds \<noteq> CHR ''0''" and "fo_finite F f" and "fo_round F (dec_norm (shortest_decimal F f)) = Some f"
proof -
  have "fo_finite F f \<and> (ds \<noteq> [] \<and> (\<forall>c \<in> set ds. is_digit c) \<and> hd ds \<noteq> CHR ''0'') \<and> fo_round F (dec_norm (shortest_decimal F f)) = Some f"
    using assms(1) [unfolded float_law_def, rule_format, OF assms(2)] assms(3,4) by simp
  then show "all_digits ds" and "hd ds \<noteq> CHR ''0''" and "fo_finite F f" and "fo_round F (dec_norm (shortest_decimal F f)) = Some f"
    by (simp_all add: all_digits_def)
qed

lemma dec_norm_neg: "dec_norm (- m, e) = (case dec_norm (m, e) of (m', e') \<Rightarrow> (- m', e'))"
proof (induction "(m, e)" arbitrary: m e rule: dec_norm.induct)
  case (1 m e)
  show ?case
  proof (cases "m = 0")
    case True
    then show ?thesis by (simp add: dec_norm.simps [of 0])
  next
    case nz: False
    show ?thesis
    proof (cases "m mod 10 = 0")
      case True
      then obtain q where q: "m = 10 * q" by (auto simp: mod_eq_0_iff_dvd)
      then have d: "(- m) mod 10 = 0" "(- m) div 10 = - (m div 10)" by simp_all
      have "dec_norm (- m, e) = dec_norm (- (m div 10), e + 1)"
        by (subst dec_norm.simps) (simp only: d nz neg_equal_0_iff_equal if_False if_True simp_thms)
      also have "\<dots> = (case dec_norm (m div 10, e + 1) of (m', e') \<Rightarrow> (- m', e'))" by (rule 1 [OF nz True])
      also have "dec_norm (m div 10, e + 1) = dec_norm (m, e)" by (subst (2) dec_norm.simps) (simp only: True nz if_False if_True simp_thms)
      finally show ?thesis .
    next
      case False
      then have "(- m) mod 10 \<noteq> 0" by presburger
      then show ?thesis using nz False by (subst (1 2) dec_norm.simps) simp
    qed
  qed
qed

lemma format_number_literal:
  assumes "float_law F" and "fo_round F p = Some f" and "format_number F f = Some t"
  shows "num_end u \<Longrightarrow> scan_number (t @ u) = Some (t, u)"
    and "parse_float F t = Some f"
    and "\<exists>c cs. t = c # cs \<and> (is_digit c \<or> c = CHR ''-'')"
proof -
  have all: "(num_end u \<longrightarrow> scan_number (t @ u) = Some (t, u)) \<and> parse_float F t = Some f \<and>
      (\<exists>c cs. t = c # cs \<and> (is_digit c \<or> c = CHR ''-''))" for u
  proof (cases "fo_zero F f")
    case True
    then have t: "t = ''0''" using assms(3) by (auto simp: format_number_def split: if_splits)
    have "fo_round F (0, 0) = Some f"
      using assms(1) [unfolded float_law_def, rule_format, OF assms(2)] True by simp
    moreover have "literal_decimal ''0'' = (0, 0)"
      by (simp add: literal_decimal_def magnitude_decimal_def scan_int_def scan_frac_def scan_exp_def exp_value_def digits_nat_def)
    ultimately have "parse_float F t = Some f" by (simp add: parse_float_def t dec_norm.simps)
    moreover have "scan_number (t @ u) = Some (t, u)" if "num_end u"
      using scan_parts(1) [of "''0''" "[]" "[]" u] that
      by (simp add: t scan_number_def int_part_def frac_part_def exp_part_def)
    ultimately show ?thesis using zero_digit t by blast
  next
    case False
    obtain ds e where ds: "fo_shortest F f = (ds, e)" by fastforce
    note law = float_law_digits [OF assms(1,2) False ds]
    have t: "t = (if fo_negative F f then CHR ''-'' # layout ds e else layout ds e)"
      using assms(3) False law(3) ds by (simp add: format_number_def)
    obtain c cs where c: "layout ds e = c # cs" "is_digit c" using layout_scan(3) [OF law(1,2)] by blast
    then have nm: "c \<noteq> CHR ''-''" by (auto simp: is_digit_def)
    have sc: "scan_number (t @ u) = Some (t, u)" if "num_end u"
    proof (cases "fo_negative F f")
      case True
      then show ?thesis using layout_scan(1) [OF law(1,2) that] t by (simp add: scan_number_def)
    next
      case False
      then show ?thesis using layout_scan(1) [OF law(1,2) that, of e] t nm unfolding c(1) by (simp add: scan_number_def)
    qed
    obtain m x where mx: "magnitude_decimal (layout ds e) = (m, x)" by fastforce
    have norm: "dec_norm (m, x) = dec_norm (int (digits_nat ds), e + 1 - int (length ds))"
      using layout_scan(2) [OF law(1,2), of e] by (simp add: mx)
    have "dec_norm (literal_decimal t) = dec_norm (shortest_decimal F f)"
    proof (cases "fo_negative F f")
      case True
      then have "literal_decimal t = (- m, x)" using t mx by (simp add: literal_decimal_def)
      then show ?thesis using True norm ds by (simp add: shortest_decimal_def dec_norm_neg)
    next
      case neg: False
      then have "literal_decimal t = (m, x)" using t mx c(1) nm by (simp add: literal_decimal_def)
      then show ?thesis using neg norm ds by (simp add: shortest_decimal_def)
    qed
    then have "parse_float F t = Some f" using law(4) by (simp add: parse_float_def)
    then show ?thesis using sc t c by auto
  qed
  show "num_end u \<Longrightarrow> scan_number (t @ u) = Some (t, u)" "parse_float F t = Some f"
    "\<exists>c cs. t = c # cs \<and> (is_digit c \<or> c = CHR ''-'')"
    using all [of u] by simp_all
qed

lemma number_text_run:
  assumes "number_text F l = Inr t"
  obtains f where "parse_float F l = Some f" "format_number F f = Some t"
  using assms by (auto simp: number_text_def split: option.splits)

lemma number_text_again:
  assumes "float_law F" and "number_text F l = Inr t"
  shows "number_text F t = Inr t"
proof -
  obtain f where f: "parse_float F l = Some f" "format_number F f = Some t" by (rule number_text_run [OF assms(2)])
  have "parse_float F t = Some f" using format_number_literal(2) [OF assms(1) _ f(2)] f(1) by (auto simp: parse_float_def)
  then show ?thesis using f(2) by (simp add: number_text_def)
qed

lemma number_text_scan:
  assumes "float_law F" and "number_text F l = Inr t" and "num_end u"
  shows "scan_number (t @ u) = Some (t, u)" and "\<exists>c cs. t = c # cs \<and> (is_digit c \<or> c = CHR ''-'')"
proof -
  obtain f where f: "parse_float F l = Some f" "format_number F f = Some t" by (rule number_text_run [OF assms(2)])
  then show "scan_number (t @ u) = Some (t, u)" and "\<exists>c cs. t = c # cs \<and> (is_digit c \<or> c = CHR ''-'')"
    using format_number_literal [OF assms(1) _ f(2)] assms(3) by (auto simp: parse_float_def)
qed

section \<open>Written strings read back\<close>

lemma hex_val_lower: "n < 16 \<Longrightarrow> hex_val (hex_lower n) = Some n"
  by (auto simp: hex_val_def hex_lower_def Let_def)

lemma scan_string_plain:
  assumes "(0x20 :: nat) \<le> of_char c" and "c \<noteq> CHR 0x22" and "c \<noteq> CHR 0x5C"
  shows "scan_string (c # cs) = map_option (\<lambda>(t, u). (c # t, u)) (scan_string cs)"
  using assms by (subst scan_string.simps) simp

lemma scan_escape:
  "simple_escape e = Some x \<Longrightarrow> e \<noteq> CHR ''u'' \<Longrightarrow>
    scan_string (CHR 0x5C # e # cs) = map_option (\<lambda>(t, u). (x # t, u)) (scan_string cs)"
  by (subst scan_string.simps) simp

lemma escape_rune_chars:
  "char_of (0x22 :: nat) = CHR 0x22" "char_of (0x5C :: nat) = CHR 0x5C" "char_of (0x08 :: nat) = CHR 0x08"
  "char_of (0x0C :: nat) = CHR 0x0C" "char_of (0x0A :: nat) = CHR 0x0A" "char_of (0x0D :: nat) = CHR 0x0D"
  "char_of (0x09 :: nat) = CHR 0x09"
  by code_simp+

lemma scan_escape_rune:
  assumes "scalar r" and "scan_string rest = Some (t, u)"
  shows "scan_string (escape_rune r @ rest) = Some (encode_rune r @ t, u)"
proof -
  have enc: "encode_rune n = [char_of n]" if "n < 0x80" for n
    using that by (simp add: encode_rune_def scalar_def surrogate_def)
  consider "r = 0x22" | "r = 0x5C" | "r = 0x08" | "r = 0x0C" | "r = 0x0A" | "r = 0x0D" | "r = 0x09"
    | (ctl) "r < 0x20" "r \<notin> {0x08, 0x0C, 0x0A, 0x0D, 0x09}" | (plain) "0x20 \<le> r" "r < 0x80" "r \<noteq> 0x22" "r \<noteq> 0x5C" | (high) "0x80 \<le> r"
    by fastforce
  then show ?thesis
  proof cases
    case ctl
    have h: "hex4 (CHR ''0'') (CHR ''0'') (hex_lower (r div 16)) (hex_lower (r mod 16)) = Some r"
      using ctl hex_val_lower [of "r div 16"] hex_val_lower [of "r mod 16"] hex_val_lower [of 0]
      by (simp add: hex4_def hex_lower_def [of 0] hex_val_def [of "CHR ''0''"])
    then have "unicode_escape (CHR ''0'' # CHR ''0'' # hex_lower (r div 16) # hex_lower (r mod 16) # rest) = Some (r, rest)"
      using ctl by (simp add: surrogate_def)
    then show ?thesis using assms ctl by (subst scan_string.simps) (simp add: escape_rune_def)
  next
    case plain
    then have e: "encode_rune r = [char_of r]" using enc by simp
    have "char_of r \<noteq> CHR 0x22" "char_of r \<noteq> CHR 0x5C"
      using plain by (auto dest!: arg_cong [of _ _ "of_char :: char \<Rightarrow> nat"] simp: of_char_char_of)
    then have "scan_string (char_of r # rest) = Some (char_of r # t, u)"
      using assms(2) plain scan_string_plain [of "char_of r" rest] by (simp add: of_char_char_of)
    then show ?thesis using plain e by (simp add: escape_rune_def)
  next
    case high
    obtain c cs where c: "encode_rune r = c # cs" using encode_rune_ne by blast
    have "\<not> of_char c < (0x80 :: nat)"
    proof
      assume "of_char c < (0x80 :: nat)"
      then have "decode_rune (encode_rune r @ []) = (of_char c, 1)" using c decode_ascii by simp
      then show False using decode_encode_rune [OF assms(1), of "[]"] high \<open>of_char c < (0x80 :: nat)\<close> by simp
    qed
    then show ?thesis using scan_string_high [OF encode_rune_high [OF c], of rest] assms(2) high by (simp add: escape_rune_def)
  qed (use assms scan_escape [of _ _ rest] enc escape_rune_chars in \<open>simp_all add: escape_rune_def simple_escape_def\<close>)
qed

lemma scan_written:
  assumes "utf8_valid s"
  shows "scan_string (concat (map escape_rune (runes s)) @ CHR 0x22 # rest) = Some (s, rest)"
proof -
  have "scan_string (concat (map escape_rune rs) @ CHR 0x22 # rest) = Some (write_runes rs, rest)" if "\<forall>r \<in> set rs. scalar r" for rs
    using that
  proof (induction rs)
    case Nil
    then show ?case by (subst scan_string.simps) simp
  next
    case (Cons r rs)
    then show ?case using scan_escape_rune [of r "concat (map escape_rune rs) @ CHR 0x22 # rest"] by simp
  qed
  then show ?thesis using write_runes_runes [OF assms] by metis
qed

section \<open>The canonical form\<close>

text \<open>What the bytes stand for: numbers in ECMAScript layout, members in UTF-16 order.\<close>

fun canon :: "'f float_ops \<Rightarrow> json \<Rightarrow> json" where
  "canon F (JNum l) = JNum (case number_text F l of Inl _ \<Rightarrow> l | Inr t \<Rightarrow> t)"
| "canon F (JArr vs) = JArr (map (canon F) vs)"
| "canon F (JObj kvs) = JObj (sort_members (map (\<lambda>kv. (fst kv, canon F (snd kv))) kvs))"
| "canon F v = v"

lemma insort_key_map: "insort_key f (g x) (map g xs) = map g (insort_key (\<lambda>x. f (g x)) x xs)"
  by (induction xs) simp_all

lemma sort_key_map: "sort_key f (map g xs) = map g (sort_key (\<lambda>x. f (g x)) xs)"
  by (induction xs) (simp_all add: insort_key_map)

lemma sort_members_map:
  "sort_members (map (\<lambda>kv. (fst kv, g (snd kv))) kvs) = map (\<lambda>kv. (fst kv, g (snd kv))) (sort_members kvs)"
  by (simp add: sort_members_def sort_key_map comp_def)

lemma set_sort_members [simp]: "set (sort_members ms) = set ms" "length (sort_members ms) = length ms"
  by (simp_all add: sort_members_def)

lemma next_simps:
  "value_allowed st \<Longrightarrow> next_token \<lparr>dk_input = CHR ''['' # cs, dk_state = st, dk_stack = stk\<rparr> =
    Inr (TDelim (CHR ''[''), \<lparr>dk_input = cs, dk_state = ArrayStart, dk_stack = st # stk\<rparr>)"
  "value_allowed st \<Longrightarrow> next_token \<lparr>dk_input = CHR ''{'' # cs, dk_state = st, dk_stack = stk\<rparr> =
    Inr (TDelim (CHR ''{''), \<lparr>dk_input = cs, dk_state = ObjectStart, dk_stack = st # stk\<rparr>)"
  "st = ArrayStart \<or> st = ArrayComma \<Longrightarrow> next_token \<lparr>dk_input = CHR '']'' # cs, dk_state = st, dk_stack = st' # stk\<rparr> =
    Inr (TDelim (CHR '']''), \<lparr>dk_input = cs, dk_state = value_end st', dk_stack = stk\<rparr>)"
  "st = ObjectStart \<or> st = ObjectComma \<Longrightarrow> next_token \<lparr>dk_input = CHR ''}'' # cs, dk_state = st, dk_stack = st' # stk\<rparr> =
    Inr (TDelim (CHR ''}''), \<lparr>dk_input = cs, dk_state = value_end st', dk_stack = stk\<rparr>)"
  "next_token \<lparr>dk_input = CHR '','' # cs, dk_state = ArrayComma, dk_stack = stk\<rparr> =
    next_token \<lparr>dk_input = cs, dk_state = ArrayValue, dk_stack = stk\<rparr>"
  "next_token \<lparr>dk_input = CHR '','' # cs, dk_state = ObjectComma, dk_stack = stk\<rparr> =
    next_token \<lparr>dk_input = cs, dk_state = ObjectKey, dk_stack = stk\<rparr>"
  "next_token \<lparr>dk_input = CHR '':'' # cs, dk_state = ObjectColon, dk_stack = stk\<rparr> =
    next_token \<lparr>dk_input = cs, dk_state = ObjectValue, dk_stack = stk\<rparr>"
  by (auto simp: next_token_def json_space_def pop_state_def)

lemma reads_same_next: "next_token d1 = next_token d2 \<Longrightarrow> ts \<noteq> [] \<Longrightarrow> reads d1 ts d' \<longleftrightarrow> reads d2 ts d'"
  by (cases ts) simp_all

lemma next_key:
  assumes "utf8_valid k" and "st = ObjectStart \<or> st = ObjectKey"
  shows "next_token \<lparr>dk_input = write_string k @ cs, dk_state = st, dk_stack = stk\<rparr> =
    Inr (TStr k, \<lparr>dk_input = cs, dk_state = ObjectColon, dk_stack = stk\<rparr>)"
  using scan_written [OF assms(1), of cs] assms(2) by (auto simp: next_token_def json_space_def write_string_def)

lemma next_scalar:
  assumes "value_allowed st" and "\<not> json_space c" and "c \<notin> set ''[]{}:,''" and "scan_scalar c cs = Some (t, rest)"
  shows "next_token \<lparr>dk_input = c # cs, dk_state = st, dk_stack = stk\<rparr> =
    Inr (t, \<lparr>dk_input = rest, dk_state = value_end st, dk_stack = stk\<rparr>)"
proof -
  have "\<not> (st = ObjectStart \<or> st = ObjectKey)" using assms(1) by (auto simp: value_allowed_def)
  then show ?thesis using assms by (simp add: next_token_def)
qed

definition reads_back :: "'f float_ops \<Rightarrow> json \<Rightarrow> bool" where
  "reads_back F v \<longleftrightarrow> (\<forall>b st stk rest. write_value F v = Inr b \<and> value_allowed st \<and> num_end rest \<longrightarrow>
    reads \<lparr>dk_input = b @ rest, dk_state = st, dk_stack = stk\<rparr> (toks (canon F v)) \<lparr>dk_input = rest, dk_state = value_end st, dk_stack = stk\<rparr>)"

lemma reads_backD:
  "reads_back F v \<Longrightarrow> write_value F v = Inr b \<Longrightarrow> value_allowed st \<Longrightarrow> num_end rest \<Longrightarrow>
    reads \<lparr>dk_input = b @ rest, dk_state = st, dk_stack = stk\<rparr> (toks (canon F v)) \<lparr>dk_input = rest, dk_state = value_end st, dk_stack = stk\<rparr>"
  unfolding reads_back_def by blast

lemma num_end_delim: "num_end (CHR '','' # u)" "num_end (CHR '']'' # u)" "num_end (CHR ''}'' # u)"
  by (simp_all add: num_end_def is_digit_def)

lemma toks_ne: "toks v \<noteq> []"
  by (cases v) simp_all

lemma join_parts_cons:
  assumes "join_parts (p # ps) = Inr bs"
  obtains (last) "ps = []" "p = Inr bs" | (more) b q qs bs' where "ps = q # qs" "p = Inr b" "join_parts ps = Inr bs'" "bs = b @ CHR '','' # bs'"
  using assms by (cases p; cases ps) (auto split: sum.splits)

lemma reads_elems:
  assumes "\<forall>v \<in> set vs. reads_back F v" and "vs \<noteq> []" and "join_parts (map (write_value F) vs) = Inr bs"
    and "st = ArrayStart \<or> st = ArrayValue"
  shows "reads \<lparr>dk_input = bs @ CHR '']'' # rest, dk_state = st, dk_stack = st0 # stk\<rparr>
    (toks_elems (map (canon F) vs) @ [TDelim (CHR '']'')]) \<lparr>dk_input = rest, dk_state = value_end st0, dk_stack = stk\<rparr>"
  using assms
proof (induction vs arbitrary: bs st)
  case (Cons v vs)
  have va: "value_allowed st" "value_end st = ArrayComma" using Cons.prems(4) by (auto simp: value_allowed_def)
  have rb: "reads_back F v" using Cons.prems(1) by simp
  from Cons.prems(3) have "join_parts (write_value F v # map (write_value F) vs) = Inr bs" by simp
  then show ?case
  proof (cases rule: join_parts_cons)
    case last
    have "reads \<lparr>dk_input = bs @ CHR '']'' # rest, dk_state = st, dk_stack = st0 # stk\<rparr> (toks (canon F v))
      \<lparr>dk_input = CHR '']'' # rest, dk_state = ArrayComma, dk_stack = st0 # stk\<rparr>"
      using reads_backD [OF rb last(2) va(1) num_end_delim(2)] va(2) by simp
    then show ?thesis using last(1) by (auto simp: reads_append next_simps)
  next
    case (more b q qs bs')
    have one: "reads \<lparr>dk_input = b @ CHR '','' # bs' @ CHR '']'' # rest, dk_state = st, dk_stack = st0 # stk\<rparr> (toks (canon F v))
      \<lparr>dk_input = CHR '','' # bs' @ CHR '']'' # rest, dk_state = ArrayComma, dk_stack = st0 # stk\<rparr>"
      using reads_backD [OF rb more(2) va(1) num_end_delim(1)] va(2) by simp
    have "vs \<noteq> []" using more(1) by auto
    then have "reads \<lparr>dk_input = bs' @ CHR '']'' # rest, dk_state = ArrayValue, dk_stack = st0 # stk\<rparr>
        (toks_elems (map (canon F) vs) @ [TDelim (CHR '']'')]) \<lparr>dk_input = rest, dk_state = value_end st0, dk_stack = stk\<rparr>"
      using Cons.IH [OF _ _ more(3)] Cons.prems(1) by simp
    then have "reads \<lparr>dk_input = CHR '','' # bs' @ CHR '']'' # rest, dk_state = ArrayComma, dk_stack = st0 # stk\<rparr>
        (toks_elems (map (canon F) vs) @ [TDelim (CHR '']'')]) \<lparr>dk_input = rest, dk_state = value_end st0, dk_stack = stk\<rparr>"
      using reads_same_next [OF next_simps(5)] by blast
    then show ?thesis using one more(4) by (auto simp: reads_append)
  qed
qed simp

definition write_member :: "'f float_ops \<Rightarrow> string \<times> json \<Rightarrow> canon_error + string" where
  "write_member F kv = member_part (fst kv, write_value F (snd kv))"

lemma write_member_run:
  assumes "write_member F kv = Inr b"
  obtains c where "write_value F (snd kv) = Inr c" "b = write_string (fst kv) @ CHR '':'' # c"
  using assms by (auto simp: write_member_def member_part_def split: sum.splits)

lemma reads_member:
  assumes "reads_back F (snd kv)" and "utf8_valid (fst kv)" and "write_member F kv = Inr b" and "st = ObjectStart \<or> st = ObjectKey" and "num_end rest"
  shows "reads \<lparr>dk_input = b @ rest, dk_state = st, dk_stack = stk\<rparr> (TStr (fst kv) # toks (canon F (snd kv)))
    \<lparr>dk_input = rest, dk_state = ObjectComma, dk_stack = stk\<rparr>"
proof -
  obtain c where c: "write_value F (snd kv) = Inr c" "b = write_string (fst kv) @ CHR '':'' # c" by (rule write_member_run [OF assms(3)])
  have "reads \<lparr>dk_input = c @ rest, dk_state = ObjectValue, dk_stack = stk\<rparr> (toks (canon F (snd kv)))
      \<lparr>dk_input = rest, dk_state = ObjectComma, dk_stack = stk\<rparr>"
    using reads_backD [OF assms(1) c(1) _ assms(5), of ObjectValue stk] by (simp add: value_allowed_def)
  then have "reads \<lparr>dk_input = CHR '':'' # c @ rest, dk_state = ObjectColon, dk_stack = stk\<rparr> (toks (canon F (snd kv)))
      \<lparr>dk_input = rest, dk_state = ObjectComma, dk_stack = stk\<rparr>"
    using reads_same_next [OF next_simps(7) toks_ne] by blast
  then show ?thesis using next_key [OF assms(2,4), of "CHR '':'' # c @ rest" stk] c(2) by simp
qed

lemma reads_members:
  assumes "\<forall>kv \<in> set ms. reads_back F (snd kv) \<and> utf8_valid (fst kv)" and "ms \<noteq> []" and "join_parts (map (write_member F) ms) = Inr bs"
    and "st = ObjectStart \<or> st = ObjectKey"
  shows "reads \<lparr>dk_input = bs @ CHR ''}'' # rest, dk_state = st, dk_stack = st0 # stk\<rparr>
    (toks_members (map (\<lambda>kv. (fst kv, canon F (snd kv))) ms) @ [TDelim (CHR ''}'')]) \<lparr>dk_input = rest, dk_state = value_end st0, dk_stack = stk\<rparr>"
  using assms
proof (induction ms arbitrary: bs st)
  case (Cons kv ms)
  have rb: "reads_back F (snd kv)" "utf8_valid (fst kv)" using Cons.prems(1) by simp_all
  note one = reads_member [OF rb _ Cons.prems(4)]
  from Cons.prems(3) have "join_parts (write_member F kv # map (write_member F) ms) = Inr bs" by simp
  then show ?case
  proof (cases rule: join_parts_cons)
    case last
    then show ?thesis using one [OF last(2) num_end_delim(3), of rest "st0 # stk"]
      by (auto simp: reads_append) (intro exI conjI, assumption, simp add: next_simps)
  next
    case (more b q qs bs')
    have "ms \<noteq> []" using more(1) by auto
    then have "reads \<lparr>dk_input = bs' @ CHR ''}'' # rest, dk_state = ObjectKey, dk_stack = st0 # stk\<rparr>
        (toks_members (map (\<lambda>kv. (fst kv, canon F (snd kv))) ms) @ [TDelim (CHR ''}'')]) \<lparr>dk_input = rest, dk_state = value_end st0, dk_stack = stk\<rparr>"
      using Cons.IH [OF _ _ more(3)] Cons.prems(1) by simp
    then have "reads \<lparr>dk_input = CHR '','' # bs' @ CHR ''}'' # rest, dk_state = ObjectComma, dk_stack = st0 # stk\<rparr>
        (toks_members (map (\<lambda>kv. (fst kv, canon F (snd kv))) ms) @ [TDelim (CHR ''}'')]) \<lparr>dk_input = rest, dk_state = value_end st0, dk_stack = stk\<rparr>"
      using reads_same_next [OF next_simps(6)] by blast
    then show ?thesis using one [OF more(2) num_end_delim(1), of "bs' @ CHR ''}'' # rest" "st0 # stk"] more(4)
      by (auto simp: reads_append)
  qed
qed simp

lemma write_reads_back:
  assumes "float_law F" and "json_ok v"
  shows "reads_back F v"
  using assms(2)
proof (induction v rule: json_ok.induct)
  case (1 l)
  show ?case unfolding reads_back_def
  proof (intro allI impI)
    fix b st stk rest
    assume a: "write_value F (JNum l) = Inr b \<and> value_allowed st \<and> num_end rest"
    then have t: "number_text F l = Inr b" by simp
    obtain c cs where c: "b = c # cs" "is_digit c \<or> c = CHR ''-''" using number_text_scan(2) [OF assms(1) t] a by blast
    have sc: "scan_number (b @ rest) = Some (b, rest)" using number_text_scan(1) [OF assms(1) t] a by blast
    have no: "c \<noteq> CHR 0x22" "c \<noteq> CHR ''t''" "c \<noteq> CHR ''f''" "c \<noteq> CHR ''n''" "\<not> json_space c" "c \<notin> set ''[]{}:,''"
      using c(2) by (auto simp: is_digit_def json_space_def)
    then have "scan_scalar c (cs @ rest) = Some (TNum b, rest)" using sc c(1) by (simp add: scan_scalar_def)
    then show "reads \<lparr>dk_input = b @ rest, dk_state = st, dk_stack = stk\<rparr> (toks (canon F (JNum l)))
        \<lparr>dk_input = rest, dk_state = value_end st, dk_stack = stk\<rparr>"
      using next_scalar [OF _ no(5,6), of st "cs @ rest"] a c(1) t by simp
  qed
next
  case (2 s)
  show ?case unfolding reads_back_def
  proof (intro allI impI)
    fix b st stk rest
    assume a: "write_value F (JStr s) = Inr b \<and> value_allowed st \<and> num_end rest"
    have "scan_scalar (CHR 0x22) (concat (map escape_rune (runes s)) @ CHR 0x22 # rest) = Some (TStr s, rest)"
      using scan_written [of s rest] 2 by (simp add: scan_scalar_def)
    then show "reads \<lparr>dk_input = b @ rest, dk_state = st, dk_stack = stk\<rparr> (toks (canon F (JStr s)))
        \<lparr>dk_input = rest, dk_state = value_end st, dk_stack = stk\<rparr>"
      using next_scalar [of st "CHR 0x22"] a by (auto simp: write_string_def json_space_def)
  qed
next
  case (3 vs)
  then have ok: "\<forall>v \<in> set vs. reads_back F v" by simp
  show ?case unfolding reads_back_def
  proof (intro allI impI)
    fix b st stk rest
    assume a: "write_value F (JArr vs) = Inr b \<and> value_allowed st \<and> num_end rest"
    then obtain bs where bs: "join_parts (map (write_value F) vs) = Inr bs" "b = CHR ''['' # bs @ [CHR '']'']"
      by (auto simp: enclose_def split: sum.splits)
    show "reads \<lparr>dk_input = b @ rest, dk_state = st, dk_stack = stk\<rparr> (toks (canon F (JArr vs)))
        \<lparr>dk_input = rest, dk_state = value_end st, dk_stack = stk\<rparr>"
    proof (cases "vs = []")
      case True
      then show ?thesis using a bs by (simp add: next_simps)
    next
      case False
      then show ?thesis using reads_elems [OF ok False bs(1), of ArrayStart rest st stk] a bs(2) by (simp add: next_simps)
    qed
  qed
next
  case (4 kvs)
  then have ok: "\<forall>kv \<in> set (sort_members kvs). reads_back F (snd kv) \<and> utf8_valid (fst kv)" by simp
  show ?case unfolding reads_back_def
  proof (intro allI impI)
    fix b st stk rest
    assume a: "write_value F (JObj kvs) = Inr b \<and> value_allowed st \<and> num_end rest"
    have parts: "map member_part (sort_members (map (\<lambda>kv. (fst kv, write_value F (snd kv))) kvs)) = map (write_member F) (sort_members kvs)"
      by (simp add: sort_members_map write_member_def)
    from a obtain bs where bs: "join_parts (map (write_member F) (sort_members kvs)) = Inr bs" "b = CHR ''{'' # bs @ [CHR ''}'']"
      by (auto simp: enclose_def parts split: sum.splits)
    show "reads \<lparr>dk_input = b @ rest, dk_state = st, dk_stack = stk\<rparr> (toks (canon F (JObj kvs)))
        \<lparr>dk_input = rest, dk_state = value_end st, dk_stack = stk\<rparr>"
    proof (cases "kvs = []")
      case True
      then show ?thesis using a bs by (simp add: next_simps sort_members_def)
    next
      case False
      then have "sort_members kvs \<noteq> []" using set_sort_members(2) [of kvs] by fastforce
      then show ?thesis using reads_members [OF ok _ bs(1), of ObjectStart rest st stk] a bs(2)
        by (simp add: next_simps sort_members_map)
    qed
  qed
qed (auto simp: reads_back_def next_scalar scan_scalar_def strip_prefix_def json_space_def)

section \<open>Canonical bytes\<close>

lemma join_parts_all: "join_parts ps = Inr bs \<Longrightarrow> \<forall>p \<in> set ps. \<exists>b. p = Inr b"
proof (induction ps arbitrary: bs)
  case (Cons p ps)
  from Cons.prems show ?case by (cases rule: join_parts_cons) (use Cons.IH in auto)
qed simp

lemma join_parts_valid: "join_parts ps = Inr bs \<Longrightarrow> \<forall>b. Inr b \<in> set ps \<longrightarrow> utf8_valid b \<Longrightarrow> utf8_valid bs"
proof (induction ps arbitrary: bs)
  case (Cons p ps)
  from Cons.prems(1) show ?case
  proof (cases rule: join_parts_cons)
    case (more b q qs bs')
    then have "utf8_valid b" "utf8_valid bs'" using Cons.IH [OF more(3)] Cons.prems(2) by auto
    then show ?thesis using more(4) by (simp add: utf8_tail)
  qed (use Cons.prems in auto)
qed simp

lemma hex_lower_ascii: "n < 16 \<Longrightarrow> of_char (hex_lower n) < (0x80 :: nat)"
  by (simp add: hex_lower_def of_char_char_of)

lemma write_string_valid: "utf8_valid (write_string s)"
proof -
  have e: "utf8_valid (escape_rune r)" for r
  proof (cases "r < 0x20")
    case True
    then show ?thesis using hex_lower_ascii [of "r div 16"] hex_lower_ascii [of "r mod 16"]
      by (auto simp: escape_rune_def utf8_tail)
  next
    case False
    then show ?thesis using utf8_encode_rune by (auto simp: escape_rune_def utf8_tail)
  qed
  have "utf8_valid (concat (map escape_rune rs))" for rs by (induction rs) (use e in auto)
  then show ?thesis by (simp add: write_string_def utf8_tail)
qed

lemma write_value_valid: "float_law F \<Longrightarrow> write_value F v = Inr b \<Longrightarrow> utf8_valid b"
proof (induction F v arbitrary: b rule: write_value.induct)
  case (3 F l)
  then have t: "number_text F l = Inr b" by simp
  have "ascii b" using number_text_scan(1) [OF 3(1) t, of "[]"] scan_number_ascii by (auto simp: num_end_def)
  then show ?case by (rule ascii_valid)
next
  case (5 F vs)
  then obtain bs where bs: "join_parts (map (write_value F) vs) = Inr bs" "b = CHR ''['' # bs @ [CHR '']'']"
    by (auto simp: enclose_def split: sum.splits)
  have "utf8_valid bs" by (rule join_parts_valid [OF bs(1)]) (use 5 in force)
  then show ?case using bs(2) by (simp add: utf8_tail)
next
  case (6 F kvs)
  have parts: "map member_part (sort_members (map (\<lambda>kv. (fst kv, write_value F (snd kv))) kvs)) = map (write_member F) (sort_members kvs)"
    by (simp add: sort_members_map write_member_def)
  from 6(3) obtain bs where bs: "join_parts (map (write_member F) (sort_members kvs)) = Inr bs" "b = CHR ''{'' # bs @ [CHR ''}'']"
    by (auto simp: enclose_def parts split: sum.splits)
  have "utf8_valid bs"
  proof (rule join_parts_valid [OF bs(1)], intro allI impI)
    fix p
    assume "Inr p \<in> set (map (write_member F) (sort_members kvs))"
    then obtain kv where kv: "kv \<in> set kvs" "write_member F kv = Inr p" by auto
    obtain c where c: "write_value F (snd kv) = Inr c" "p = write_string (fst kv) @ CHR '':'' # c" by (rule write_member_run [OF kv(2)])
    have "utf8_valid c" using 6(1) [OF kv(1) 6(2) c(1)] .
    then show "utf8_valid p" using c(2) write_string_valid by (simp add: utf8_tail)
  qed
  then show ?case using bs(2) by (simp add: utf8_tail)
qed (auto simp: utf8_tail write_string_valid split: if_splits)

lemma canon_fits: "fits no_limits k (canon F v) \<longleftrightarrow> fits no_limits k v"
proof (induction v arbitrary: k rule: json_ok.induct)
  case (4 kvs)
  have "distinct (map fst (sort_members (map (\<lambda>kv. (fst kv, canon F (snd kv))) kvs))) \<longleftrightarrow> distinct (map fst kvs)"
  proof -
    have "mset (map fst (sort_members (map (\<lambda>kv. (fst kv, canon F (snd kv))) kvs))) = mset (map fst kvs)"
      by (simp add: sort_members_def image_mset.compositionality comp_def)
    then show ?thesis by (rule mset_eq_imp_distinct_iff)
  qed
  then show ?case using 4 by (auto simp: exceeds_def no_limits_def)
qed (auto simp: no_limits_def exceeds_def)

lemma write_value_canon: "float_law F \<Longrightarrow> write_value F v = Inr b \<Longrightarrow> write_value F (canon F v) = Inr b"
proof (induction F v arbitrary: b rule: write_value.induct)
  case (3 F l)
  then show ?case using number_text_again [of F l b] by simp
next
  case (5 F vs)
  then obtain bs where bs: "join_parts (map (write_value F) vs) = Inr bs" by (auto simp: enclose_def split: sum.splits)
  have "write_value F (canon F v) = write_value F v" if v: "v \<in> set vs" for v
  proof -
    have "\<exists>c. write_value F v = Inr c" using join_parts_all [OF bs] v by simp
    then obtain c where c: "write_value F v = Inr c" by blast
    show ?thesis using 5(1) [OF v 5(2) c] c by simp
  qed
  then have "map (write_value F) (map (canon F) vs) = map (write_value F) vs" by simp
  then show ?case using 5 by (simp del: map_map)
next
  case (6 F kvs)
  have parts: "map member_part (sort_members (map (\<lambda>kv. (fst kv, write_value F (snd kv))) ms)) = map (write_member F) (sort_members ms)" for ms
    by (simp add: sort_members_map write_member_def)
  from 6(3) obtain bs where bs: "join_parts (map (write_member F) (sort_members kvs)) = Inr bs"
    by (auto simp: enclose_def parts split: sum.splits)
  have eq: "write_value F (canon F (snd kv)) = write_value F (snd kv)" if "kv \<in> set kvs" for kv
  proof -
    have "\<exists>p. write_member F kv = Inr p" using join_parts_all [OF bs] that by simp
    then obtain p where "write_member F kv = Inr p" by blast
    then obtain c where c: "write_value F (snd kv) = Inr c" by (rule write_member_run)
    then show ?thesis using 6(1) [OF that 6(2) c] by simp
  qed
  let ?ms = "sort_members (map (\<lambda>kv. (fst kv, canon F (snd kv))) kvs)"
  have "sort_members ?ms = ?ms" by (simp add: sort_members_def sort_key_id_if_sorted)
  then have "map (write_member F) (sort_members ?ms) = map (write_member F) (sort_members kvs)"
    using eq by (simp add: sort_members_map write_member_def)
  then show ?case using 6(3) by (simp add: parts)
qed simp_all

lemma canon_reads:
  assumes "float_law F" and "json_ok v" and "marshal F v = Inr b"
  shows "utf8_valid b" and "document b (canon F v)"
proof -
  show "utf8_valid b" using write_value_valid [OF assms(1)] assms(3) by (simp add: marshal_def)
  have "value_allowed TopValue" "num_end []" by (simp_all add: value_allowed_def num_end_def)
  from reads_backD [OF write_reads_back [OF assms(1,2)] assms(3) [unfolded marshal_def] this]
  have "reads \<lparr>dk_input = b @ [], dk_state = TopValue, dk_stack = []\<rparr> (toks (canon F v))
      \<lparr>dk_input = [], dk_state = value_end TopValue, dk_stack = []\<rparr>" .
  then show "document b (canon F v)" unfolding document_def new_decoder_def
    by (intro exI conjI) (simp, simp add: next_token_def)
qed

text \<open>Parsing canonical bytes under any limits that the canonical form fits.\<close>

lemma parse_canon:
  assumes "float_law F" and "json_ok v" and "marshal F v = Inr b" and "fits lim 0 (canon F v)" and "within_size lim b"
  shows "parse_with_limits b lim = Inr (canon F v)"
  using canon_reads [OF assms(1-3)] assms(4,5) by (simp add: parse_document)

lemma parse_marshal:
  assumes "float_law F" and "json_ok v" and "fits no_limits 0 v" and "marshal F v = Inr b"
  shows "parse b = Inr (canon F v)"
  unfolding parse_def
  by (rule parse_canon [OF assms(1,2,4)]) (use assms(3) canon_fits in \<open>auto simp: within_size_def no_limits_def\<close>)

lemma canonicalize_run:
  assumes "canonicalize F inp = Inr b"
  obtains v where "parse inp = Inr v" "marshal F v = Inr b" "json_ok v" "fits no_limits 0 v"
  using assms parse_json_ok unfolding canonicalize_def parse_def
  by (auto simp: parse_document split: sum.splits)

text \<open>
  C25: canonical bytes are a fixed point and identify the document. Canonicalizing what
  \<^verbatim>\<open>Canonicalize\<close> returned gives it again; it is valid UTF-8 and parses to the canonical form (numbers
  in ECMAScript layout, members in UTF-16 order) of the parsed input; and two inputs have the
  same canonical bytes exactly when their documents have the same canonical form.
\<close>

theorem canonicalize_fixpoint:
  assumes "float_law F" and "canonicalize F inp = Inr b" and "canonicalize F inp' = Inr b'"
  shows "canonicalize F b = Inr b \<and> utf8_valid b \<and>
    (\<exists>v v'. parse inp = Inr v \<and> parse inp' = Inr v' \<and> parse b = Inr (canon F v) \<and> (b = b' \<longleftrightarrow> canon F v = canon F v'))"
proof -
  obtain v where v: "parse inp = Inr v" "marshal F v = Inr b" "json_ok v" "fits no_limits 0 v"
    by (rule canonicalize_run [OF assms(2)])
  obtain v' where v': "parse inp' = Inr v'" "marshal F v' = Inr b'" "json_ok v'" "fits no_limits 0 v'"
    by (rule canonicalize_run [OF assms(3)])
  note p = parse_marshal [OF assms(1) v(3,4,2)] and p' = parse_marshal [OF assms(1) v'(3,4,2)]
  have again: "marshal F (canon F v) = Inr b" "marshal F (canon F v') = Inr b'"
    using write_value_canon [OF assms(1)] v(2) v'(2) by (simp_all add: marshal_def)
  have "canonicalize F b = Inr b" using p again by (simp add: canonicalize_def)
  moreover have "b = b' \<longleftrightarrow> canon F v = canon F v'"
  proof
    show "canon F v = canon F v'" if "b = b'" using p p' that by simp
    show "b = b'" if "canon F v = canon F v'" using again that by simp
  qed
  ultimately show ?thesis using v(1) v'(1) p canon_reads(1) [OF assms(1) v(3,2)] by blast
qed

text \<open>Exact decimals: a conversion that satisfies the law.\<close>

definition exact_floats :: "(int \<times> int) float_ops" where
  "exact_floats = \<lparr>fo_round = \<lambda>p. Some (dec_norm p), fo_finite = \<lambda>_. True, fo_zero = \<lambda>f. fst f = 0,
     fo_negative = \<lambda>f. fst f < 0,
     fo_shortest = \<lambda>f. (nat_digits (nat \<bar>fst f\<bar>), snd f + int (length (nat_digits (nat \<bar>fst f\<bar>))) - 1)\<rparr>"

lemma dec_norm_idem: "dec_norm (dec_norm p) = dec_norm p"
proof (induction p rule: dec_norm.induct)
  case (1 m e)
  show ?case
  proof (cases "m = 0")
    case True
    then show ?thesis by (simp add: dec_norm.simps [of 0])
  next
    case nz: False
    show ?thesis
    proof (cases "m mod 10 = 0")
      case True
      have "dec_norm (m, e) = dec_norm (m div 10, e + 1)" by (subst dec_norm.simps) (simp only: nz True if_False if_True simp_thms)
      then show ?thesis using 1 [OF nz True] by simp
    next
      case False
      then have "dec_norm (m, e) = (m, e)" by (subst dec_norm.simps) (simp only: nz False if_False simp_thms)
      then show ?thesis by simp
    qed
  qed
qed

lemma nat_digits_no_zero: "n > 0 \<Longrightarrow> hd (nat_digits n) \<noteq> CHR ''0''"
proof (induction n rule: nat_digits.induct)
  case (1 n)
  have d: "digit_char m \<noteq> CHR ''0''" if "0 < m" "m < 10" for m
  proof
    assume "digit_char m = CHR ''0''"
    then have "char_digit (CHR ''0'') = Some m" using char_digit_digit_char [OF that(2)] by simp
    then show False using that(1) by (simp add: char_digit_def Let_def)
  qed
  show ?case using 1 d by (subst nat_digits.simps) (auto simp: hd_append)
qed

lemma exact_floats_law: "float_law exact_floats"
  unfolding float_law_def
proof (intro allI impI)
  fix p f
  assume "fo_round exact_floats p = Some f"
  then have f: "f = dec_norm p" by (simp add: exact_floats_def)
  obtain m e where me: "f = (m, e)" by fastforce
  have idem: "dec_norm f = f" using dec_norm_idem f by simp
  show "fo_finite exact_floats f \<and>
    (if fo_zero exact_floats f then fo_round exact_floats (0, 0) = Some f
     else (case fo_shortest exact_floats f of (ds, e) \<Rightarrow> ds \<noteq> [] \<and> (\<forall>c \<in> set ds. is_digit c) \<and> hd ds \<noteq> CHR ''0'') \<and>
       fo_round exact_floats (dec_norm (shortest_decimal exact_floats f)) = Some f)"
  proof (cases "m = 0")
    case True
    then have "f = (0, 0)" using idem me by (simp add: dec_norm.simps [of 0])
    then show ?thesis by (simp add: exact_floats_def dec_norm.simps [of 0])
  next
    case False
    have "shortest_decimal exact_floats f = f"
      by (simp add: shortest_decimal_def exact_floats_def me digits_nat_nat_digits)
    then show ?thesis using False me idem nat_digits_digit nat_digits_no_zero [of "nat \<bar>m\<bar>"]
      by (simp add: exact_floats_def)
  qed
qed

lemma scan_string_quote: "scan_string (CHR 0x22 # cs) = Some ([], cs)"
  by (subst scan_string.simps) simp

lemma scan_string_unicode:
  "unicode_escape ds = Some (r, rest) \<Longrightarrow>
    scan_string (CHR 0x5C # CHR ''u'' # ds) = map_option (\<lambda>(t, u). (encode_rune r @ t, u)) (scan_string rest)"
  by (subst scan_string.simps) simp

lemmas scan_string_steps = scan_string_quote scan_string_plain scan_string_unicode

lemma demo_chars:
  "char_of (49 :: nat) = CHR ''1''" "char_of (53 :: nat) = CHR ''5''" "char_of (65 :: nat) = CHR ''A''"
  "char_of (97 :: nat) = CHR ''a''" "char_of (98 :: nat) = CHR ''b''"
  by code_simp+

text \<open>\<^verbatim>\<open>{"b":1.50, "a":[true,"\u0041"]}\<close> and its canonical bytes.\<close>

definition demo_text :: string where
  "demo_text = ''{'' @ [CHR 0x22] @ ''b'' @ [CHR 0x22] @ '':1.50, '' @ [CHR 0x22] @ ''a'' @ [CHR 0x22] @ '':[true,'' @ [CHR 0x22, CHR 0x5C] @ ''u0041'' @ [CHR 0x22] @ '']}''"

definition demo_bytes :: string where
  "demo_bytes = ''{'' @ [CHR 0x22] @ ''a'' @ [CHR 0x22] @ '':[true,'' @ [CHR 0x22] @ ''A'' @ [CHR 0x22] @ ''],'' @ [CHR 0x22] @ ''b'' @ [CHR 0x22] @ '':1.5}''"

definition demo_doc :: json where
  "demo_doc = JObj [(''b'', JNum ''1.50''), (''a'', JArr [JBool True, JStr ''A''])]"

lemma demo_doc_reads: "reads (new_decoder demo_text) (toks demo_doc) \<lparr>dk_input = [], dk_state = TopValue, dk_stack = []\<rparr>"
  by (simp add: demo_text_def demo_doc_def new_decoder_def next_token_def json_space_def value_allowed_def value_end_def
    scan_scalar_def strip_prefix_def pop_state_def scan_string_steps hex4_def hex_val_def surrogate_def encode_rune_def scalar_def
    scan_number_def scan_magnitude_def scan_int_def scan_frac_def scan_exp_def scan_some_digits_def is_digit_def escape_rune_chars demo_chars)

lemma demo_parse: "parse demo_text = Inr demo_doc"
proof -
  have "document demo_text demo_doc" unfolding document_def by (intro exI conjI, rule demo_doc_reads) (simp add: next_token_def)
  moreover have "utf8_valid demo_text" by (rule ascii_valid) (simp add: demo_text_def)
  moreover have "fits no_limits 0 demo_doc" by (simp add: demo_doc_def no_limits_def too_deep_def hard_max_depth_def exceeds_def)
  ultimately show ?thesis unfolding parse_def parse_document by (simp add: within_size_def no_limits_def)
qed

lemma demo_number: "number_text exact_floats ''1.50'' = Inr ''1.5''"
  by (simp add: number_text_def parse_float_def literal_decimal_def magnitude_decimal_def scan_int_def scan_frac_def scan_exp_def
    scan_some_digits_def is_digit_def exp_value_def digits_nat_def exact_floats_def dec_norm.simps format_number_def layout_def Let_def
    nat_digits.simps digit_char_def demo_chars)

lemma demo_marshal: "marshal exact_floats demo_doc = Inr demo_bytes"
  by (simp add: marshal_def demo_doc_def demo_bytes_def demo_number enclose_def member_part_def sort_members_def utf16_def utf16_units_def runes_ascii
   write_string_def escape_rune_def scalar_def surrogate_def encode_rune_def demo_chars)

lemma demo_canonical: "canonicalize exact_floats demo_text = Inr demo_bytes"
  by (simp add: canonicalize_def demo_parse demo_marshal)

corollary canonicalize_fixpoint_witness:
  "canonicalize exact_floats demo_text = Inr demo_bytes \<and> canonicalize exact_floats demo_bytes = Inr demo_bytes"
  using canonicalize_fixpoint [OF exact_floats_law demo_canonical demo_canonical] demo_canonical by blast

text \<open>
  An unpaired surrogate escape is read as U+FFFD, not rejected: documents that differ only in one
  share their canonical bytes. RFC 8785 asks for an error.
\<close>

definition lone_surrogate :: "char \<Rightarrow> string" where
  "lone_surrogate c = [CHR 0x22, CHR 0x5C] @ ''ud80'' @ [c, CHR 0x22]"

lemma lone_surrogate_parse:
  assumes "hex_val c = Some n" and "n < 16"
  shows "parse (lone_surrogate c) = Inr (JStr (encode_rune rune_error))"
proof -
  have h: "hex4 (CHR ''d'') (CHR ''8'') (CHR ''0'') c = Some (0xD800 + n)" using assms(1) by (simp add: hex4_def hex_val_def [of "CHR ''d''"] hex_val_def [of "CHR ''8''"] hex_val_def [of "CHR ''0''"])
  then have u: "unicode_escape (CHR ''d'' # CHR ''8'' # CHR ''0'' # c # [CHR 0x22]) = Some (rune_error, [CHR 0x22])"
    using assms(2) by (simp add: surrogate_def)
  have "reads (new_decoder (lone_surrogate c)) (toks (JStr (encode_rune rune_error))) \<lparr>dk_input = [], dk_state = TopValue, dk_stack = []\<rparr>"
    by (simp add: lone_surrogate_def new_decoder_def next_token_def json_space_def value_allowed_def value_end_def scan_scalar_def
      scan_string_unicode [OF u] scan_string_quote)
  then have "document (lone_surrogate c) (JStr (encode_rune rune_error))" unfolding document_def
    by (intro exI conjI, assumption) (simp add: next_token_def)
  moreover have "utf8_valid (lone_surrogate c)" by (rule ascii_valid) (simp add: lone_surrogate_def hex_val_ascii [OF assms(1)])
  ultimately show ?thesis unfolding parse_def parse_document
    by (simp add: within_size_def no_limits_def too_deep_def hard_max_depth_def exceeds_def)
qed

lemma lone_surrogates_collapse:
  "canonicalize F (lone_surrogate (CHR ''0'')) = canonicalize F (lone_surrogate (CHR ''1'')) \<and>
   canonicalize F (lone_surrogate (CHR ''0'')) = Inr (write_string (encode_rune rune_error))"
proof -
  have "hex_val (CHR ''0'') = Some 0" "hex_val (CHR ''1'') = Some 1" by (simp_all add: hex_val_def)
  then show ?thesis using lone_surrogate_parse by (simp add: canonicalize_def marshal_def)
qed

end
