(* ===== verification/GoStrings.thy ===== *)
theory GoStrings
  imports Utf8 Query "HOL-Library.Sublist"
begin

text \<open>
  Functions of Go's strings, bytes, strconv and encoding/json packages that the signer uses on text:
  splitting and trimming, \<^verbatim>\<open>Atoi\<close>, text split into runes and invalid bytes, and the string literals
  that \<^verbatim>\<open>json.Marshal\<close> writes.
\<close>

section \<open>Splitting and trimming\<close>

text \<open>\<^verbatim>\<open>strings.Split\<close> at one character\<close>

fun split_on :: "char \<Rightarrow> string \<Rightarrow> string list" where
  "split_on c [] = [[]]"
| "split_on c (x # xs) =
    (case split_on c xs of [] \<Rightarrow> [[x]] | p # ps \<Rightarrow> if x = c then [] # p # ps else (x # p) # ps)"

lemma decode_hex_bytes: "decode_hex (hex_bytes bs) = Some bs"
proof (induction bs)
  case (Cons b bs)
  have d: "hex_value (hex_digit d) = Some d" if "d < 16" for d
    using that by (auto simp: hex_digit_def hex_value_def)
  have "unat b < 256" using unsigned_less [of b] by simp
  then have "hex_value (hex_digit (unat b div 16)) = Some (unat b div 16)" "hex_value (hex_digit (unat b mod 16)) = Some (unat b mod 16)"
    by (simp_all add: d)
  then show ?case using Cons by (simp add: hex_bytes_def)
qed (simp add: hex_bytes_def)

text \<open>\<^verbatim>\<open>strings.HasSuffix\<close>\<close>

definition has_suffix :: "string \<Rightarrow> string \<Rightarrow> bool" where
  "has_suffix t s = suffix t s"

text \<open>\<^verbatim>\<open>bytes.TrimRight\<close> with one character as the cutset\<close>

definition trim_right :: "char \<Rightarrow> string \<Rightarrow> string" where
  "trim_right c s = rev (dropWhile (\<lambda>x. x = c) (rev s))"

lemma split_on_ne [simp]: "split_on c s \<noteq> []"
  by (cases s) (auto split: list.splits)

lemma split_on_free: "c \<notin> set s \<Longrightarrow> split_on c s = [s]"
  by (induction s) auto

lemma split_on_append: "c \<notin> set s \<Longrightarrow> split_on c (s @ c # t) = s # split_on c t"
proof (induction s)
  case Nil
  show ?case using split_on_ne [of c t] by (cases "split_on c t") auto
qed auto

text \<open>A file of lines, each with its newline, reads back as those lines.\<close>

definition newline :: char where
  "newline = CHR 0x0A"

definition file_of :: "string list \<Rightarrow> string" where
  "file_of ls = concat (map (\<lambda>l. l @ [newline]) ls)"

definition plain_line :: "string \<Rightarrow> bool" where
  "plain_line l \<longleftrightarrow> l \<noteq> [] \<and> newline \<notin> set l"

lemma file_of_simps [simp]:
  "file_of [] = []" "file_of (l # ls) = l @ newline # file_of ls" "file_of (ls @ ls') = file_of ls @ file_of ls'"
  by (simp_all add: file_of_def)

lemma trim_file_of:
  assumes "\<forall>l \<in> set (ls @ [l]). plain_line l"
  shows "trim_right newline (file_of (ls @ [l])) = file_of ls @ l"
proof -
  obtain l' c where l: "l = l' @ [c]" and c: "c \<noteq> newline"
    using assms by (cases l rule: rev_cases) (auto simp: plain_line_def)
  show ?thesis unfolding trim_right_def using c by (simp add: l)
qed

lemma split_file_of:
  "\<forall>l \<in> set (ls @ [l]). plain_line l \<Longrightarrow> split_on newline (file_of ls @ l) = ls @ [l]"
  by (induction ls) (auto simp: split_on_free split_on_append plain_line_def)

section \<open>Numbers\<close>

text \<open>\<^verbatim>\<open>strconv.Atoi\<close> for the 64-bit \<^verbatim>\<open>int\<close>\<close>

definition atoi :: "string \<Rightarrow> int option" where
  "atoi s =
    (case big_set_string s of Some i \<Rightarrow> if - (2 ^ 63) \<le> i \<and> i < 2 ^ 63 then Some i else None | None \<Rightarrow> None)"

section \<open>Runes and invalid bytes\<close>

datatype piece = Rune rune | Bad char

fun pieces :: "string \<Rightarrow> piece list" where
  "pieces [] = []"
| "pieces (c # cs) =
    (let r = decode_rune (c # cs) in
     (if r = (rune_error, 1) then Bad c else Rune (fst r)) # pieces (drop (snd r - 1) cs))"

fun piece_rune :: "piece \<Rightarrow> rune" where
  "piece_rune (Rune r) = r"
| "piece_rune (Bad c) = rune_error"

lemma runes_pieces: "runes s = map piece_rune (pieces s)"
  by (induction s rule: pieces.induct) (auto simp: Let_def runes.simps(2))

lemma pieces_valid: "utf8_valid s \<Longrightarrow> pieces s = map Rune (runes s)"
  by (induction s rule: pieces.induct) (auto simp: Let_def runes.simps(2) utf8_valid.simps(2))

lemma pieces_bytes: "\<forall>c. Bad c \<in> set (pieces s) \<longrightarrow> c \<in> set s"
proof (induction s rule: pieces.induct)
  case (2 c cs)
  then show ?case by (auto simp: Let_def dest: in_set_dropD)
qed simp

text \<open>What a round trip through JSON makes of a string: invalid bytes become U+FFFD.\<close>

definition coerce :: "string \<Rightarrow> string" where
  "coerce s = write_runes (runes s)"

lemma coerce_valid: "utf8_valid s \<Longrightarrow> coerce s = s"
  by (simp add: coerce_def write_runes_runes(1))

section \<open>String literals of encoding/json\<close>

definition hex_lower_digit :: "nat \<Rightarrow> char" where
  "hex_lower_digit n = (if n < 10 then char_of (48 + n) else char_of (87 + n))"

definition unicode_literal :: "nat \<Rightarrow> string" where
  "unicode_literal r = [CHR 0x5C, CHR ''u'', hex_lower_digit (r div 4096 mod 16), hex_lower_digit (r div 256 mod 16),
     hex_lower_digit (r div 16 mod 16), hex_lower_digit (r mod 16)]"

fun quote_piece :: "piece \<Rightarrow> string" where
  "quote_piece (Bad c) = unicode_literal rune_error"
| "quote_piece (Rune r) =
    (if r = 0x5C \<or> r = 0x22 then [CHR 0x5C, char_of r]
     else if r = 8 then [CHR 0x5C, CHR ''b''] else if r = 12 then [CHR 0x5C, CHR ''f'']
     else if r = 10 then [CHR 0x5C, CHR ''n''] else if r = 13 then [CHR 0x5C, CHR ''r'']
     else if r = 9 then [CHR 0x5C, CHR ''t'']
     else if r < 0x20 \<or> r = 0x3C \<or> r = 0x3E \<or> r = 0x26 \<or> r = 0x2028 \<or> r = 0x2029 then unicode_literal r
     else encode_rune r)"

definition go_quote :: "string \<Rightarrow> string" where
  "go_quote s = CHR 0x22 # concat (map quote_piece (pieces s)) @ [CHR 0x22]"

lemma hex_lower_digit_graphic: "n < 16 \<Longrightarrow> (48 :: nat) \<le> of_char (hex_lower_digit n)"
  by (auto simp: hex_lower_digit_def)

lemma unicode_literal_no_newline: "newline \<notin> set (unicode_literal r)"
proof -
  have "hex_lower_digit n \<noteq> newline" if "n < 16" for n
    using hex_lower_digit_graphic [OF that] by (auto simp: newline_def)
  moreover have "r div 4096 mod 16 < 16" "r div 256 mod 16 < 16" "r div 16 mod 16 < 16" "r mod 16 < 16" by simp_all
  moreover have "CHR 0x5C \<noteq> newline" "CHR ''u'' \<noteq> newline" by (simp_all add: newline_def)
  ultimately show ?thesis unfolding unicode_literal_def by (metis insert_iff list.set(1) list.set(2) empty_iff)
qed

lemma encode_rune_no_newline:
  assumes "0x20 \<le> r"
  shows "newline \<notin> set (encode_rune r)"
proof -
  define q where "q = (if scalar r then r else rune_error)"
  have q: "scalar q" "0x20 \<le> q" "encode_rune r = encode_rune q"
    using assms by (auto simp: q_def encode_rune_def) (auto simp: scalar_def surrogate_def rune_error_def)
  obtain c cs where e: "encode_rune q = c # cs" using encode_rune_ne by blast
  show ?thesis
  proof (cases "(0x80 :: nat) \<le> of_char c")
    case True
    then show ?thesis using encode_rune_high [OF e] q(3) by (auto simp: newline_def)
  next
    case False
    have "decode_rune (c # cs) = (q, length (c # cs))" using decode_encode_rune [OF q(1), of "[]"] e by simp
    then have "of_char c = q" "cs = []" using decode_ascii [of c cs] False by auto
    then show ?thesis using q e by (auto simp: newline_def)
  qed
qed

lemma quote_piece_no_newline: "newline \<notin> set (quote_piece p)"
proof (cases p)
  case (Bad c)
  then show ?thesis by (simp add: unicode_literal_no_newline)
next
  case (Rune r)
  have "char_of (0x5C :: nat) \<noteq> newline" "char_of (0x22 :: nat) \<noteq> newline" by code_simp+
  moreover have "newline \<notin> set [CHR 0x5C, CHR ''b'']" "newline \<notin> set [CHR 0x5C, CHR ''f'']" "newline \<notin> set [CHR 0x5C, CHR ''n'']"
    "newline \<notin> set [CHR 0x5C, CHR ''r'']" "newline \<notin> set [CHR 0x5C, CHR ''t'']" "newline \<noteq> CHR 0x5C"
    by (simp_all add: newline_def)
  ultimately show ?thesis unfolding Rune
    using encode_rune_no_newline [of r] unicode_literal_no_newline [of r] by auto
qed

lemma go_quote_no_newline: "newline \<notin> set (go_quote s)"
  unfolding go_quote_def using quote_piece_no_newline by (auto simp: newline_def)

end
