(* ===== verification/JsonSchema.thy ===== *)
theory JsonSchema
  imports Jcs GoStrings
begin

text \<open>
  The signer's compiler and validator of asset schemas, signer/internal/jsonschema/schema.go. A schema
  document is compiled by a bounded recursion that follows references, and the compiled node then
  validates instances without it; \<open>compiled_validates\<close> shows that the two together are the reading of the
  document keyword by keyword. Error messages are constructors, without the paths they print.
\<close>

section \<open>Parameters\<close>

text \<open>
  \<^verbatim>\<open>big.Float\<close> (64-bit mantissa) and \<^verbatim>\<open>regexp\<close> are used through these operations: parsing, the sign
  of \<^verbatim>\<open>Cmp\<close>, whether \<^verbatim>\<open>Int\<close> is exact, compiling and matching a pattern.
\<close>

record ('f, 'b, 'r) schema_env =
  se_floats :: "'f float_ops"
  se_big :: "string \<Rightarrow> 'b option"
  se_cmp :: "'b \<Rightarrow> 'b \<Rightarrow> int"
  se_exact_int :: "'b \<Rightarrow> bool"
  se_regexp :: "string \<Rightarrow> 'r option"
  se_match :: "'r \<Rightarrow> string \<Rightarrow> bool"

section \<open>Compiled schemas\<close>

datatype ('b, 'r) schema = Schema
  (sc_types: "string list")
  (sc_properties: "(string \<times> ('b, 'r) schema) list")
  (sc_required: "string list")
  (sc_additional: "('b, 'r) schema option")
  (sc_additional_false: bool)
  (sc_items: "('b, 'r) schema option")
  (sc_enum: "json list")
  (sc_const: "json option")
  (sc_min_length: "int option")
  (sc_max_length: "int option")
  (sc_pattern: "'r option")
  (sc_minimum: "'b option")
  (sc_maximum: "'b option")
  (sc_excl_minimum: "'b option")
  (sc_excl_maximum: "'b option")
  (sc_min_items: "int option")
  (sc_max_items: "int option")
  (sc_unique: bool)

datatype schema_error = SchemaTooDeep | SchemaTooWide | NotASchemaObject | KeywordNotPermitted string
  | RefSiblings | RefNotString | RefNotLocal string | RefCycle string
  | SegmentNotFound string | SegmentNotIndex string | SegmentIntoScalar string
  | TypeNotString | EmptyTypes | UnknownType string | DuplicateType string
  | NotAnObject string | NotAnArray string | NotStrings string | NotBoolOrSchema | NotABool string
  | NotAnInteger string | NegativeInteger string | NotANumber string | BadNumber string string
  | PatternNotString | BadPattern string | SchemaParse canon_error

definition max_schema_depth :: nat where "max_schema_depth = 100"
definition max_schema_nodes :: int where "max_schema_nodes = 10000"

definition allowed_keywords :: "string list" where
  "allowed_keywords =
    [''$schema'', ''$id'', ''$comment'', ''$defs'', ''title'', ''description'', ''default'', ''examples'',
     ''deprecated'', ''readOnly'', ''writeOnly'', ''$ref'',
     ''type'', ''properties'', ''required'', ''additionalProperties'', ''items'', ''enum'', ''const'',
     ''minLength'', ''maxLength'', ''pattern'', ''minimum'', ''maximum'', ''exclusiveMinimum'', ''exclusiveMaximum'',
     ''minItems'', ''maxItems'', ''uniqueItems'']"

definition type_names :: "string list" where
  "type_names = [''object'', ''array'', ''string'', ''integer'', ''number'', ''boolean'', ''null'']"

section \<open>References\<close>

text \<open>\<^verbatim>\<open>strings.ReplaceAll(tok, "~d", with)\<close>\<close>

fun replace_tilde :: "char \<Rightarrow> char \<Rightarrow> string \<Rightarrow> string" where
  "replace_tilde d w (a # b # s) =
    (if a = CHR ''~'' \<and> b = d then w # replace_tilde d w s else a # replace_tilde d w (b # s))"
| "replace_tilde d w s = s"

definition unescape_segment :: "string \<Rightarrow> string" where
  "unescape_segment tok = replace_tilde (CHR ''0'') (CHR ''~'') (replace_tilde (CHR ''1'') (CHR ''/'') tok)"

fun descend :: "json \<Rightarrow> string list \<Rightarrow> schema_error + json" where
  "descend cur [] = Inr cur"
| "descend cur (seg # segs) =
    (let tok = unescape_segment seg in
     case cur of
       JObj kvs \<Rightarrow> (case map_of kvs tok of None \<Rightarrow> Inl (SegmentNotFound tok) | Some v \<Rightarrow> descend v segs)
     | JArr vs \<Rightarrow>
        (case atoi tok of None \<Rightarrow> Inl (SegmentNotIndex tok)
         | Some i \<Rightarrow> if i < 0 \<or> i \<ge> int (length vs) then Inl (SegmentNotIndex tok) else descend (vs ! nat i) segs)
     | _ \<Rightarrow> Inl (SegmentIntoScalar tok))"

definition resolve_pointer :: "json \<Rightarrow> string \<Rightarrow> schema_error + json" where
  "resolve_pointer root ref =
    (if ref = ''#'' then Inr root else descend root (split_on (CHR ''/'') (trim_prefix ''#/'' ref)))"

section \<open>Compiling the keywords of a node\<close>

type_synonym members = "(string \<times> json) list"

type_synonym ('b, 'r) compile = "(schema_error, int, ('b, 'r) schema) act"

fun as_strings :: "schema_error \<Rightarrow> json list \<Rightarrow> schema_error + string list" where
  "as_strings e [] = Inr []"
| "as_strings e (JStr s # vs) = (case as_strings e vs of Inl x \<Rightarrow> Inl x | Inr ss \<Rightarrow> Inr (s # ss))"
| "as_strings e (_ # vs) = Inl e"

fun check_types :: "string list \<Rightarrow> string list \<Rightarrow> schema_error + unit" where
  "check_types seen [] = Inr ()"
| "check_types seen (t # ts) =
    (if t \<notin> set type_names then Inl (UnknownType t)
     else if t \<in> set seen then Inl (DuplicateType t)
     else check_types (t # seen) ts)"

definition type_list :: "json \<Rightarrow> schema_error + string list" where
  "type_list tv =
    (case tv of JStr t \<Rightarrow> Inr [t]
     | JArr vs \<Rightarrow> if vs = [] then Inl EmptyTypes else as_strings TypeNotString vs
     | _ \<Rightarrow> Inl TypeNotString)"

definition compile_types :: "members \<Rightarrow> schema_error + string list" where
  "compile_types kvs =
    (case map_of kvs ''type'' of None \<Rightarrow> Inr []
     | Some tv \<Rightarrow>
       (case type_list tv of Inl e \<Rightarrow> Inl e
        | Inr ts \<Rightarrow> (case check_types [] ts of Inl e \<Rightarrow> Inl e | Inr _ \<Rightarrow> Inr ts)))"

definition compile_required :: "members \<Rightarrow> schema_error + string list" where
  "compile_required kvs =
    (case map_of kvs ''required'' of None \<Rightarrow> Inr []
     | Some (JArr vs) \<Rightarrow> as_strings (NotStrings ''required'') vs
     | Some _ \<Rightarrow> Inl (NotAnArray ''required''))"

definition compile_enum :: "members \<Rightarrow> schema_error + json list" where
  "compile_enum kvs =
    (case map_of kvs ''enum'' of None \<Rightarrow> Inr [] | Some (JArr vs) \<Rightarrow> Inr vs | Some _ \<Rightarrow> Inl (NotAnArray ''enum''))"

definition require_non_neg_int :: "string \<Rightarrow> json \<Rightarrow> schema_error + int" where
  "require_non_neg_int kw v =
    (case v of JNum l \<Rightarrow>
       (case atoi l of None \<Rightarrow> Inl (NegativeInteger kw) | Some n \<Rightarrow> if n < 0 then Inl (NegativeInteger kw) else Inr n)
     | _ \<Rightarrow> Inl (NotAnInteger kw))"

definition require_number :: "('f, 'b, 'r) schema_env \<Rightarrow> string \<Rightarrow> json \<Rightarrow> schema_error + 'b" where
  "require_number E kw v =
    (case v of JNum l \<Rightarrow> (case se_big E l of None \<Rightarrow> Inl (BadNumber kw l) | Some f \<Rightarrow> Inr f)
     | _ \<Rightarrow> Inl (NotANumber kw))"

text \<open>An optional keyword: absent, or what the given function makes of its value.\<close>

definition keyword :: "members \<Rightarrow> string \<Rightarrow> (json \<Rightarrow> schema_error + 'a) \<Rightarrow> schema_error + 'a option" where
  "keyword kvs kw f =
    (case map_of kvs kw of None \<Rightarrow> Inr None | Some v \<Rightarrow> (case f v of Inl e \<Rightarrow> Inl e | Inr x \<Rightarrow> Inr (Some x)))"

definition compile_int :: "members \<Rightarrow> string \<Rightarrow> schema_error + int option" where
  "compile_int kvs kw = keyword kvs kw (require_non_neg_int kw)"

definition compile_number :: "('f, 'b, 'r) schema_env \<Rightarrow> members \<Rightarrow> string \<Rightarrow> schema_error + 'b option" where
  "compile_number E kvs kw = keyword kvs kw (require_number E kw)"

definition compile_pattern :: "('f, 'b, 'r) schema_env \<Rightarrow> members \<Rightarrow> schema_error + 'r option" where
  "compile_pattern E kvs =
    keyword kvs ''pattern'' (\<lambda>v. case v of
       JStr p \<Rightarrow> (case se_regexp E p of None \<Rightarrow> Inl (BadPattern p) | Some r \<Rightarrow> Inr r)
     | _ \<Rightarrow> Inl PatternNotString)"

definition compile_unique :: "members \<Rightarrow> schema_error + bool" where
  "compile_unique kvs =
    (case map_of kvs ''uniqueItems'' of None \<Rightarrow> Inr False | Some (JBool b) \<Rightarrow> Inr b | Some _ \<Rightarrow> Inl (NotABool ''uniqueItems''))"

section \<open>Compiling a node\<close>

text \<open>
  \<^verbatim>\<open>compiler.compile\<close>. Its state is the node count; the set of references being followed is an
  argument, because the entry is deleted again when the call returns. The recursion is on what
  remains of the depth: \<^verbatim>\<open>depth > maxSchemaDepth\<close> is no depth left. \<open>sub\<close> is the recursive call.
\<close>

definition count_node :: "(schema_error, int, unit) act" where
  "count_node n = (if n + 1 > max_schema_nodes then Inl SchemaTooWide else Inr (), n + 1)"

fun compile_members :: "(json \<Rightarrow> ('b, 'r) compile) \<Rightarrow> members \<Rightarrow> (schema_error, int, (string \<times> ('b, 'r) schema) list) act" where
  "compile_members sub [] = ret []"
| "compile_members sub (kv # kvs) =
    bindM (sub (snd kv)) (\<lambda>s. bindM (compile_members sub kvs) (\<lambda>rest. ret ((fst kv, s) # rest)))"

definition compile_container ::
    "(json \<Rightarrow> ('b, 'r) compile) \<Rightarrow> members \<Rightarrow> string \<Rightarrow> (schema_error, int, (string \<times> ('b, 'r) schema) list) act" where
  "compile_container sub kvs kw =
    (case map_of kvs kw of None \<Rightarrow> ret []
     | Some (JObj ms) \<Rightarrow> compile_members sub ms
     | Some _ \<Rightarrow> raise (NotAnObject kw))"

definition compile_additional ::
    "(json \<Rightarrow> ('b, 'r) compile) \<Rightarrow> members \<Rightarrow> (schema_error, int, ('b, 'r) schema option \<times> bool) act" where
  "compile_additional sub kvs =
    (case map_of kvs ''additionalProperties'' of None \<Rightarrow> ret (None, False)
     | Some (JBool b) \<Rightarrow> ret (None, \<not> b)
     | Some (JObj ms) \<Rightarrow> bindM (sub (JObj ms)) (\<lambda>s. ret (Some s, False))
     | Some _ \<Rightarrow> raise NotBoolOrSchema)"

definition compile_items :: "(json \<Rightarrow> ('b, 'r) compile) \<Rightarrow> members \<Rightarrow> (schema_error, int, ('b, 'r) schema option) act" where
  "compile_items sub kvs =
    (case map_of kvs ''items'' of None \<Rightarrow> ret None | Some v \<Rightarrow> bindM (sub v) (\<lambda>s. ret (Some s)))"

definition compile_node ::
    "('f, 'b, 'r) schema_env \<Rightarrow> (json \<Rightarrow> ('b, 'r) compile) \<Rightarrow> members \<Rightarrow> ('b, 'r) compile" where
  "compile_node E sub kvs =
    bindM (liftE (compile_types kvs)) (\<lambda>types.
    bindM (compile_container sub kvs ''$defs'') (\<lambda>_.
    bindM (compile_container sub kvs ''properties'') (\<lambda>props.
    bindM (liftE (compile_required kvs)) (\<lambda>req.
    bindM (compile_additional sub kvs) (\<lambda>add.
    bindM (compile_items sub kvs) (\<lambda>items.
    bindM (liftE (compile_enum kvs)) (\<lambda>enum.
    bindM (liftE (compile_int kvs ''minLength'')) (\<lambda>minlen.
    bindM (liftE (compile_int kvs ''maxLength'')) (\<lambda>maxlen.
    bindM (liftE (compile_pattern E kvs)) (\<lambda>pat.
    bindM (liftE (compile_number E kvs ''minimum'')) (\<lambda>mn.
    bindM (liftE (compile_number E kvs ''maximum'')) (\<lambda>mx.
    bindM (liftE (compile_number E kvs ''exclusiveMinimum'')) (\<lambda>xmn.
    bindM (liftE (compile_number E kvs ''exclusiveMaximum'')) (\<lambda>xmx.
    bindM (liftE (compile_int kvs ''minItems'')) (\<lambda>minit.
    bindM (liftE (compile_int kvs ''maxItems'')) (\<lambda>maxit.
    bindM (liftE (compile_unique kvs)) (\<lambda>uniq.
    ret (Schema types props req (fst add) (snd add) items enum (map_of kvs ''const'')
           minlen maxlen pat mn mx xmn xmx minit maxit uniq))))))))))))))))))"

definition compile_ref ::
    "(string list \<Rightarrow> json \<Rightarrow> ('b, 'r) compile) \<Rightarrow> json \<Rightarrow> string list \<Rightarrow> members \<Rightarrow> json \<Rightarrow> ('b, 'r) compile" where
  "compile_ref sub root visiting kvs rv =
    (if length kvs \<noteq> 1 then raise RefSiblings
     else case rv of
       JStr ref \<Rightarrow>
         if \<not> prefix ''#/'' ref \<and> ref \<noteq> ''#'' then raise (RefNotLocal ref)
         else if ref \<in> set visiting then raise (RefCycle ref)
         else bindM (liftE (resolve_pointer root ref)) (\<lambda>target. sub (ref # visiting) target)
     | _ \<Rightarrow> raise RefNotString)"

definition compile_object ::
    "('f, 'b, 'r) schema_env \<Rightarrow> (string list \<Rightarrow> json \<Rightarrow> ('b, 'r) compile) \<Rightarrow> json \<Rightarrow> string list \<Rightarrow> json \<Rightarrow> ('b, 'r) compile" where
  "compile_object E sub root visiting v =
    (case v of
       JObj kvs \<Rightarrow>
         (case find (\<lambda>k. k \<notin> set allowed_keywords) (map fst kvs) of
            Some k \<Rightarrow> raise (KeywordNotPermitted k)
          | None \<Rightarrow>
            (case map_of kvs ''$ref'' of
               Some rv \<Rightarrow> compile_ref sub root visiting kvs rv
             | None \<Rightarrow> compile_node E (sub visiting) kvs))
     | _ \<Rightarrow> raise NotASchemaObject)"

primrec compile_at ::
    "nat \<Rightarrow> ('f, 'b, 'r) schema_env \<Rightarrow> json \<Rightarrow> string list \<Rightarrow> json \<Rightarrow> ('b, 'r) compile" where
  "compile_at 0 E root visiting v = raise SchemaTooDeep"
| "compile_at (Suc left) E root visiting v =
    bindM count_node (\<lambda>_. compile_object E (compile_at left E root) root visiting v)"

definition compile_schema :: "('f, 'b, 'r) schema_env \<Rightarrow> json \<Rightarrow> schema_error + ('b, 'r) schema" where
  "compile_schema E root = fst (compile_at (Suc max_schema_depth) E root [] root 0)"

definition compile_bytes :: "('f, 'b, 'r) schema_env \<Rightarrow> string \<Rightarrow> schema_error + ('b, 'r) schema" where
  "compile_bytes E raw =
    (case parse_with_limits raw default_limits of Inl e \<Rightarrow> Inl (SchemaParse e) | Inr v \<Rightarrow> compile_schema E v)"

section \<open>Validation\<close>

datatype invalid = TypeMismatch string | ConstMismatch | NotInEnum | TooShort | TooLong | NoMatch
  | BadNumberLiteral | BelowMinimum | AboveMaximum | NotAboveMinimum | NotBelowMaximum
  | TooFewItems | TooManyItems | NotMarshalable canon_error | NotUnique | MissingProperty string | ExtraProperty string
  | InstanceParse canon_error

definition is_integer_literal :: "('f, 'b, 'r) schema_env \<Rightarrow> string \<Rightarrow> bool" where
  "is_integer_literal E s =
    (if has_fraction s then (case se_big E s of None \<Rightarrow> False | Some f \<Rightarrow> se_exact_int E f) else True)"

fun type_of :: "('f, 'b, 'r) schema_env \<Rightarrow> json \<Rightarrow> string" where
  "type_of E JNull = ''null''"
| "type_of E (JBool _) = ''boolean''"
| "type_of E (JNum l) = (if is_integer_literal E l then ''integer'' else ''number'')"
| "type_of E (JStr _) = ''string''"
| "type_of E (JArr _) = ''array''"
| "type_of E (JObj _) = ''object''"

definition values_equal :: "('f, 'b, 'r) schema_env \<Rightarrow> json \<Rightarrow> json \<Rightarrow> bool" where
  "values_equal E a b =
    (case (marshal (se_floats E) a, marshal (se_floats E) b) of (Inr x, Inr y) \<Rightarrow> x = y | _ \<Rightarrow> False)"

definition type_matches :: "('f, 'b, 'r) schema_env \<Rightarrow> string list \<Rightarrow> json \<Rightarrow> bool" where
  "type_matches E types v =
    list_ex (\<lambda>t. t = type_of E v \<or> t = ''number'' \<and> type_of E v = ''integer'') types"

definition check_value :: "('f, 'b, 'r) schema_env \<Rightarrow> ('b, 'r) schema \<Rightarrow> json \<Rightarrow> invalid option" where
  "check_value E s v =
    (if sc_types s \<noteq> [] \<and> \<not> type_matches E (sc_types s) v then Some (TypeMismatch (type_of E v))
     else if (case sc_const s of None \<Rightarrow> False | Some c \<Rightarrow> \<not> values_equal E v c) then Some ConstMismatch
     else if sc_enum s \<noteq> [] \<and> \<not> list_ex (values_equal E v) (sc_enum s) then Some NotInEnum
     else None)"

definition below :: "int \<Rightarrow> int option \<Rightarrow> bool" where
  "below n bound = (case bound of None \<Rightarrow> False | Some b \<Rightarrow> n < b)"

definition above :: "int \<Rightarrow> int option \<Rightarrow> bool" where
  "above n bound = (case bound of None \<Rightarrow> False | Some b \<Rightarrow> n > b)"

definition validate_string :: "('f, 'b, 'r) schema_env \<Rightarrow> ('b, 'r) schema \<Rightarrow> string \<Rightarrow> invalid option" where
  "validate_string E s str =
    (let n = int (length (runes str)) in
     if below n (sc_min_length s) then Some TooShort
     else if above n (sc_max_length s) then Some TooLong
     else if (case sc_pattern s of None \<Rightarrow> False | Some r \<Rightarrow> \<not> se_match E r str) then Some NoMatch
     else None)"

definition cmp_fails :: "('f, 'b, 'r) schema_env \<Rightarrow> 'b \<Rightarrow> 'b option \<Rightarrow> (int \<Rightarrow> bool) \<Rightarrow> bool" where
  "cmp_fails E f bound bad = (case bound of None \<Rightarrow> False | Some b \<Rightarrow> bad (se_cmp E f b))"

definition validate_number :: "('f, 'b, 'r) schema_env \<Rightarrow> ('b, 'r) schema \<Rightarrow> string \<Rightarrow> invalid option" where
  "validate_number E s num =
    (case se_big E num of None \<Rightarrow> Some BadNumberLiteral
     | Some f \<Rightarrow>
       if cmp_fails E f (sc_minimum s) (\<lambda>c. c < 0) then Some BelowMinimum
       else if cmp_fails E f (sc_maximum s) (\<lambda>c. c > 0) then Some AboveMaximum
       else if cmp_fails E f (sc_excl_minimum s) (\<lambda>c. c \<le> 0) then Some NotAboveMinimum
       else if cmp_fails E f (sc_excl_maximum s) (\<lambda>c. c \<ge> 0) then Some NotBelowMaximum
       else None)"

fun unique_items :: "('f, 'b, 'r) schema_env \<Rightarrow> string list \<Rightarrow> json list \<Rightarrow> invalid option" where
  "unique_items E seen [] = None"
| "unique_items E seen (v # vs) =
    (case marshal (se_floats E) v of Inl e \<Rightarrow> Some (NotMarshalable e)
     | Inr b \<Rightarrow> if b \<in> set seen then Some NotUnique else unique_items E (b # seen) vs)"

definition array_bounds :: "('f, 'b, 'r) schema_env \<Rightarrow> ('b, 'r) schema \<Rightarrow> json list \<Rightarrow> invalid option" where
  "array_bounds E s vs =
    (if below (int (length vs)) (sc_min_items s) then Some TooFewItems
     else if above (int (length vs)) (sc_max_items s) then Some TooManyItems
     else if sc_unique s then unique_items E [] vs else None)"

definition missing_property :: "('b, 'r) schema \<Rightarrow> members \<Rightarrow> invalid option" where
  "missing_property s kvs =
    (case find (\<lambda>k. map_of kvs k = None) (sc_required s) of None \<Rightarrow> None | Some k \<Rightarrow> Some (MissingProperty k))"

text \<open>The schema that a property of an object must satisfy: none, a schema, or an error.\<close>

definition property_schema :: "('b, 'r) schema \<Rightarrow> string \<Rightarrow> invalid + ('b, 'r) schema option" where
  "property_schema s k =
    (case map_of (sc_properties s) k of Some p \<Rightarrow> Inr (Some p)
     | None \<Rightarrow> if sc_additional_false s then Inl (ExtraProperty k) else Inr (sc_additional s))"

fun validate_at :: "('f, 'b, 'r) schema_env \<Rightarrow> ('b, 'r) schema \<Rightarrow> json \<Rightarrow> invalid option" and
  validate_items :: "('f, 'b, 'r) schema_env \<Rightarrow> ('b, 'r) schema \<Rightarrow> json list \<Rightarrow> invalid option" and
  validate_members :: "('f, 'b, 'r) schema_env \<Rightarrow> ('b, 'r) schema \<Rightarrow> (string \<times> json) list \<Rightarrow> invalid option" where
  "validate_at E s (JStr str) =
    (case check_value E s (JStr str) of Some e \<Rightarrow> Some e | None \<Rightarrow> validate_string E s str)"
| "validate_at E s (JNum l) =
    (case check_value E s (JNum l) of Some e \<Rightarrow> Some e | None \<Rightarrow> validate_number E s l)"
| "validate_at E s (JArr vs) =
    (case check_value E s (JArr vs) of Some e \<Rightarrow> Some e
     | None \<Rightarrow> (case array_bounds E s vs of Some e \<Rightarrow> Some e
       | None \<Rightarrow> (case sc_items s of None \<Rightarrow> None | Some it \<Rightarrow> validate_items E it vs)))"
| "validate_at E s (JObj kvs) =
    (case check_value E s (JObj kvs) of Some e \<Rightarrow> Some e
     | None \<Rightarrow> (case missing_property s kvs of Some e \<Rightarrow> Some e | None \<Rightarrow> validate_members E s kvs))"
| "validate_at E s v = check_value E s v"
| "validate_items E it [] = None"
| "validate_items E it (v # vs) = (case validate_at E it v of Some e \<Rightarrow> Some e | None \<Rightarrow> validate_items E it vs)"
| "validate_members E s [] = None"
| "validate_members E s ((k, v) # kvs) =
    (case property_schema s k of
       Inl e \<Rightarrow> Some e
     | Inr None \<Rightarrow> validate_members E s kvs
     | Inr (Some p) \<Rightarrow> (case validate_at E p v of Some e \<Rightarrow> Some e | None \<Rightarrow> validate_members E s kvs))"

definition validate_bytes :: "('f, 'b, 'r) schema_env \<Rightarrow> ('b, 'r) schema \<Rightarrow> string \<Rightarrow> invalid option" where
  "validate_bytes E s data =
    (case parse_with_limits data default_limits of Inl e \<Rightarrow> Some (InstanceParse e) | Inr v \<Rightarrow> validate_at E s v)"

section \<open>The reading of a schema document\<close>

text \<open>
  What an instance must satisfy, keyword by keyword, read off the document itself: references are
  followed, an empty \<^verbatim>\<open>enum\<close> asserts nothing, and equality is that of canonical bytes.
\<close>

definition same_value :: "('f, 'b, 'r) schema_env \<Rightarrow> json \<Rightarrow> json \<Rightarrow> bool" where
  "same_value E a c \<longleftrightarrow> (\<exists>bs. marshal (se_floats E) a = Inr bs \<and> marshal (se_floats E) c = Inr bs)"

definition names_type :: "json \<Rightarrow> string \<Rightarrow> bool" where
  "names_type c t \<longleftrightarrow> c = JStr t \<or> (\<exists>vs. c = JArr vs \<and> JStr t \<in> set vs)"

fun has_type :: "('f, 'b, 'r) schema_env \<Rightarrow> string \<Rightarrow> json \<Rightarrow> bool" where
  "has_type E t (JNum l) \<longleftrightarrow> t = ''number'' \<or> t = ''integer'' \<and> is_integer_literal E l"
| "has_type E t x \<longleftrightarrow> t = type_of E x"

definition int_bound :: "members \<Rightarrow> string \<Rightarrow> (int \<Rightarrow> bool) \<Rightarrow> bool" where
  "int_bound kvs kw P \<longleftrightarrow> (\<forall>l n. map_of kvs kw = Some (JNum l) \<longrightarrow> atoi l = Some n \<longrightarrow> P n)"

definition number_bound :: "('f, 'b, 'r) schema_env \<Rightarrow> members \<Rightarrow> string \<Rightarrow> ('b \<Rightarrow> bool) \<Rightarrow> bool" where
  "number_bound E kvs kw P \<longleftrightarrow> (\<forall>l f. map_of kvs kw = Some (JNum l) \<longrightarrow> se_big E l = Some f \<longrightarrow> P f)"

definition value_ok :: "('f, 'b, 'r) schema_env \<Rightarrow> members \<Rightarrow> json \<Rightarrow> bool" where
  "value_ok E kvs x \<longleftrightarrow>
    (\<forall>c. map_of kvs ''type'' = Some c \<longrightarrow> (\<exists>t. names_type c t \<and> has_type E t x)) \<and>
    (\<forall>c. map_of kvs ''const'' = Some c \<longrightarrow> same_value E x c) \<and>
    (\<forall>es. map_of kvs ''enum'' = Some (JArr es) \<longrightarrow> es \<noteq> [] \<longrightarrow> (\<exists>e \<in> set es. same_value E x e))"

definition string_ok :: "('f, 'b, 'r) schema_env \<Rightarrow> members \<Rightarrow> string \<Rightarrow> bool" where
  "string_ok E kvs str \<longleftrightarrow>
    int_bound kvs ''minLength'' (\<lambda>n. n \<le> int (length (runes str))) \<and>
    int_bound kvs ''maxLength'' (\<lambda>n. int (length (runes str)) \<le> n) \<and>
    (\<forall>p r. map_of kvs ''pattern'' = Some (JStr p) \<longrightarrow> se_regexp E p = Some r \<longrightarrow> se_match E r str)"

definition number_ok :: "('f, 'b, 'r) schema_env \<Rightarrow> members \<Rightarrow> string \<Rightarrow> bool" where
  "number_ok E kvs l \<longleftrightarrow>
    (\<exists>f. se_big E l = Some f \<and>
      number_bound E kvs ''minimum'' (\<lambda>b. se_cmp E f b \<ge> 0) \<and> number_bound E kvs ''maximum'' (\<lambda>b. se_cmp E f b \<le> 0) \<and>
      number_bound E kvs ''exclusiveMinimum'' (\<lambda>b. se_cmp E f b > 0) \<and>
      number_bound E kvs ''exclusiveMaximum'' (\<lambda>b. se_cmp E f b < 0))"

definition array_ok :: "('f, 'b, 'r) schema_env \<Rightarrow> members \<Rightarrow> json list \<Rightarrow> bool" where
  "array_ok E kvs vs \<longleftrightarrow>
    int_bound kvs ''minItems'' (\<lambda>n. n \<le> int (length vs)) \<and> int_bound kvs ''maxItems'' (\<lambda>n. int (length vs) \<le> n) \<and>
    (map_of kvs ''uniqueItems'' = Some (JBool True) \<longrightarrow>
      (\<exists>bs. map (marshal (se_floats E)) vs = map Inr bs \<and> distinct bs))"

definition required_ok :: "members \<Rightarrow> members \<Rightarrow> bool" where
  "required_ok kvs ms \<longleftrightarrow>
    (\<forall>vs k. map_of kvs ''required'' = Some (JArr vs) \<longrightarrow> JStr k \<in> set vs \<longrightarrow> map_of ms k \<noteq> None)"

definition named_property :: "members \<Rightarrow> string \<Rightarrow> json option" where
  "named_property kvs k = (case map_of kvs ''properties'' of Some (JObj ps) \<Rightarrow> map_of ps k | _ \<Rightarrow> None)"

inductive satisfies :: "('f, 'b, 'r) schema_env \<Rightarrow> json \<Rightarrow> json \<Rightarrow> json \<Rightarrow> bool" for E root where
  by_ref: "map_of kvs ''$ref'' = Some (JStr r) \<Longrightarrow> resolve_pointer root r = Inr t \<Longrightarrow> satisfies E root t x \<Longrightarrow>
    satisfies E root (JObj kvs) x"
| by_keywords: "map_of kvs ''$ref'' = None \<Longrightarrow> value_ok E kvs x \<Longrightarrow>
    \<forall>str. x = JStr str \<longrightarrow> string_ok E kvs str \<Longrightarrow>
    \<forall>l. x = JNum l \<longrightarrow> number_ok E kvs l \<Longrightarrow>
    \<forall>vs. x = JArr vs \<longrightarrow> array_ok E kvs vs \<and> (\<forall>it v. map_of kvs ''items'' = Some it \<longrightarrow> v \<in> set vs \<longrightarrow> satisfies E root it v) \<Longrightarrow>
    \<forall>ms. x = JObj ms \<longrightarrow> required_ok kvs ms \<and>
      (\<forall>k v. (k, v) \<in> set ms \<longrightarrow>
        (\<forall>p. named_property kvs k = Some p \<longrightarrow> satisfies E root p v) \<and>
        (named_property kvs k = None \<longrightarrow> map_of kvs ''additionalProperties'' \<noteq> Some (JBool False) \<and>
          (\<forall>a. map_of kvs ''additionalProperties'' = Some (JObj a) \<longrightarrow> satisfies E root (JObj a) v))) \<Longrightarrow>
    satisfies E root (JObj kvs) x"

inductive_cases satisfiesE: "satisfies E root (JObj kvs) x"

lemma satisfies_ref:
  "map_of kvs ''$ref'' = Some (JStr r) \<Longrightarrow> resolve_pointer root r = Inr t \<Longrightarrow>
    satisfies E root (JObj kvs) x \<longleftrightarrow> satisfies E root t x"
  by (auto elim: satisfiesE intro: by_ref)

lemma satisfies_string:
  "map_of kvs ''$ref'' = None \<Longrightarrow> satisfies E root (JObj kvs) (JStr str) \<longleftrightarrow> value_ok E kvs (JStr str) \<and> string_ok E kvs str"
  by (auto elim: satisfiesE intro: by_keywords)

lemma satisfies_number:
  "map_of kvs ''$ref'' = None \<Longrightarrow> satisfies E root (JObj kvs) (JNum l) \<longleftrightarrow> value_ok E kvs (JNum l) \<and> number_ok E kvs l"
  by (auto elim: satisfiesE intro: by_keywords)

lemma satisfies_array:
  "map_of kvs ''$ref'' = None \<Longrightarrow> satisfies E root (JObj kvs) (JArr vs) \<longleftrightarrow>
    value_ok E kvs (JArr vs) \<and> array_ok E kvs vs \<and>
    (\<forall>it v. map_of kvs ''items'' = Some it \<longrightarrow> v \<in> set vs \<longrightarrow> satisfies E root it v)"
  by (auto elim: satisfiesE intro: by_keywords)

lemma satisfies_object:
  "map_of kvs ''$ref'' = None \<Longrightarrow> satisfies E root (JObj kvs) (JObj ms) \<longleftrightarrow>
    value_ok E kvs (JObj ms) \<and> required_ok kvs ms \<and>
    (\<forall>k v. (k, v) \<in> set ms \<longrightarrow>
        (\<forall>p. named_property kvs k = Some p \<longrightarrow> satisfies E root p v) \<and>
        (named_property kvs k = None \<longrightarrow> map_of kvs ''additionalProperties'' \<noteq> Some (JBool False) \<and>
          (\<forall>a. map_of kvs ''additionalProperties'' = Some (JObj a) \<longrightarrow> satisfies E root (JObj a) v)))"
  by (auto elim: satisfiesE intro: by_keywords)

lemma satisfies_atom:
  "map_of kvs ''$ref'' = None \<Longrightarrow> satisfies E root (JObj kvs) JNull \<longleftrightarrow> value_ok E kvs JNull"
  "map_of kvs ''$ref'' = None \<Longrightarrow> satisfies E root (JObj kvs) (JBool b) \<longleftrightarrow> value_ok E kvs (JBool b)"
  by (auto elim: satisfiesE intro: by_keywords)

section \<open>What compiling a node keeps of it\<close>

lemma map_JStr [simp]: "map JStr a = map JStr b \<longleftrightarrow> a = b"
  by (rule inj_map_eq_map) (simp add: inj_def)

lemma as_strings_map [simp]: "as_strings e (map JStr ss) = Inr ss"
  by (induction ss) auto

lemma as_strings_Inr: "as_strings e vs = Inr ss \<longleftrightarrow> vs = map JStr ss"
proof
  show "vs = map JStr ss" if "as_strings e vs = Inr ss" using that
    by (induction e vs arbitrary: ss rule: as_strings.induct) (auto split: sum.splits)
qed simp

lemma compile_types_ok:
  assumes "compile_types kvs = Inr ts" and "map_of kvs ''type'' = Some c"
  shows "ts \<noteq> [] \<and> (\<forall>t. t \<in> set ts \<longleftrightarrow> names_type c t)"
  using assms by (cases c) (auto simp: compile_types_def type_list_def names_type_def as_strings_Inr split: sum.splits if_splits)

lemma compile_types_none: "map_of kvs ''type'' = None \<Longrightarrow> compile_types kvs = Inr ts \<Longrightarrow> ts = []"
  by (simp add: compile_types_def)

lemma values_equal_iff: "values_equal E a c \<longleftrightarrow> same_value E a c"
  by (auto simp: values_equal_def same_value_def split: sum.splits)

lemma compile_int_bound:
  assumes "compile_int kvs kw = Inr b"
  shows "\<not> below n b \<longleftrightarrow> int_bound kvs kw (\<lambda>m. m \<le> n)" and "\<not> above n b \<longleftrightarrow> int_bound kvs kw (\<lambda>m. n \<le> m)"
  using assms by (auto simp: compile_int_def keyword_def require_non_neg_int_def below_def above_def int_bound_def
      split: option.splits json.splits sum.splits if_splits)

lemma compile_number_bound:
  assumes "compile_number E kvs kw = Inr b"
  shows "\<not> cmp_fails E f b bad \<longleftrightarrow> number_bound E kvs kw (\<lambda>m. \<not> bad (se_cmp E f m))"
  using assms by (auto simp: compile_number_def keyword_def require_number_def cmp_fails_def number_bound_def
      split: option.splits json.splits sum.splits if_splits)

lemma compile_pattern_ok:
  assumes "compile_pattern E kvs = Inr p"
  shows "(case p of None \<Rightarrow> False | Some r \<Rightarrow> \<not> se_match E r str) \<longleftrightarrow>
    \<not> (\<forall>q r. map_of kvs ''pattern'' = Some (JStr q) \<longrightarrow> se_regexp E q = Some r \<longrightarrow> se_match E r str)"
  using assms by (auto simp: compile_pattern_def keyword_def split: option.splits json.splits sum.splits)

text \<open>The fields of a compiled node.\<close>

definition compiled_from ::
    "('f, 'b, 'r) schema_env \<Rightarrow> (json \<Rightarrow> ('b, 'r) compile) \<Rightarrow> members \<Rightarrow> ('b, 'r) schema \<Rightarrow> bool" where
  "compiled_from E sub kvs s \<longleftrightarrow>
    compile_types kvs = Inr (sc_types s) \<and>
    (\<exists>n n'. compile_container sub kvs ''properties'' n = (Inr (sc_properties s), n')) \<and>
    compile_required kvs = Inr (sc_required s) \<and>
    (\<exists>n n'. compile_additional sub kvs n = (Inr (sc_additional s, sc_additional_false s), n')) \<and>
    (\<exists>n n'. compile_items sub kvs n = (Inr (sc_items s), n')) \<and>
    compile_enum kvs = Inr (sc_enum s) \<and> sc_const s = map_of kvs ''const'' \<and>
    compile_int kvs ''minLength'' = Inr (sc_min_length s) \<and> compile_int kvs ''maxLength'' = Inr (sc_max_length s) \<and>
    compile_pattern E kvs = Inr (sc_pattern s) \<and>
    compile_number E kvs ''minimum'' = Inr (sc_minimum s) \<and> compile_number E kvs ''maximum'' = Inr (sc_maximum s) \<and>
    compile_number E kvs ''exclusiveMinimum'' = Inr (sc_excl_minimum s) \<and>
    compile_number E kvs ''exclusiveMaximum'' = Inr (sc_excl_maximum s) \<and>
    compile_int kvs ''minItems'' = Inr (sc_min_items s) \<and> compile_int kvs ''maxItems'' = Inr (sc_max_items s) \<and>
    compile_unique kvs = Inr (sc_unique s)"

lemma liftE_InrD: "liftE r n = (Inr x, n') \<Longrightarrow> r = Inr x"
  by (simp add: liftE_def)

lemma compile_node_fields: "compile_node E sub kvs n = (Inr s, n') \<Longrightarrow> compiled_from E sub kvs s"
  unfolding compile_node_def
  by (elim bindM_InrE) (fastforce simp: compiled_from_def dest!: liftE_InrD ret_InrD)

lemma compile_members_lookup:
  assumes "compile_members sub kvs n = (Inr ss, n')"
  shows "case map_of ss k of None \<Rightarrow> map_of kvs k = None
    | Some s \<Rightarrow> \<exists>v m m'. map_of kvs k = Some v \<and> sub v m = (Inr s, m')"
  using assms
proof (induction kvs arbitrary: n ss n')
  case Nil
  then show ?case by (simp add: ret_def)
next
  case (Cons kv kvs)
  from Cons.prems obtain s n1 ss' where s: "sub (snd kv) n = (Inr s, n1)" "compile_members sub kvs n1 = (Inr ss', n')"
    "ss = (fst kv, s) # ss'"
    by (auto elim!: bindM_InrE dest!: ret_InrD)
  show ?case using Cons.IH [OF s(2)] s(1,3) by (cases kv) (auto split: option.splits)
qed

lemma compile_properties_lookup:
  assumes "compile_container sub kvs ''properties'' n = (Inr ss, n')"
  shows "case map_of ss k of None \<Rightarrow> named_property kvs k = None
    | Some s \<Rightarrow> \<exists>v m m'. named_property kvs k = Some v \<and> sub v m = (Inr s, m')"
proof (cases "map_of kvs ''properties''")
  case None
  then show ?thesis using assms by (simp add: compile_container_def ret_def named_property_def)
next
  case (Some v)
  then obtain ms where v: "v = JObj ms" "compile_members sub ms n = (Inr ss, n')"
    using assms by (cases v) (simp_all add: compile_container_def raise_def)
  show ?thesis using compile_members_lookup [OF v(2), of k] Some v(1) by (simp add: named_property_def split: option.splits)
qed

lemma compile_additional_cases:
  assumes "compile_additional sub kvs n = (Inr (a, f), n')"
  shows "f \<longleftrightarrow> map_of kvs ''additionalProperties'' = Some (JBool False)"
    and "case a of None \<Rightarrow> \<nexists>ms. map_of kvs ''additionalProperties'' = Some (JObj ms)
      | Some s \<Rightarrow> \<exists>ms m m'. map_of kvs ''additionalProperties'' = Some (JObj ms) \<and> sub (JObj ms) m = (Inr s, m')"
  using assms by (auto simp: compile_additional_def ret_def raise_def bindM_def split: option.splits json.splits sum.splits prod.splits)

lemma compile_items_cases:
  assumes "compile_items sub kvs n = (Inr i, n')"
  shows "case i of None \<Rightarrow> map_of kvs ''items'' = None
    | Some s \<Rightarrow> \<exists>v m m'. map_of kvs ''items'' = Some v \<and> sub v m = (Inr s, m')"
  using assms by (auto simp: compile_items_def ret_def bindM_def split: option.splits sum.splits prod.splits)

section \<open>Validation, check by check\<close>

lemma first_error [simp]: "(case a of None \<Rightarrow> b | Some e \<Rightarrow> Some e) = None \<longleftrightarrow> a = None \<and> b = None"
  by (simp split: option.splits)

lemma validate_items_None: "validate_items E it vs = None \<longleftrightarrow> (\<forall>v \<in> set vs. validate_at E it v = None)"
  by (induction vs) (auto split: option.splits)

lemma validate_members_None:
  "validate_members E s kvs = None \<longleftrightarrow>
    (\<forall>(k, v) \<in> set kvs. case property_schema s k of Inl _ \<Rightarrow> False | Inr None \<Rightarrow> True | Inr (Some p) \<Rightarrow> validate_at E p v = None)"
  by (induction kvs) (auto split: option.splits sum.splits)

lemma type_matches_iff: "type_matches E ts x \<longleftrightarrow> (\<exists>t \<in> set ts. has_type E t x)"
  by (cases x) (auto simp: type_matches_def list_ex_iff)

lemma check_value_None:
  assumes "compiled_from E sub kvs s"
  shows "check_value E s x = None \<longleftrightarrow> value_ok E kvs x"
proof -
  have t: "(sc_types s \<noteq> [] \<and> \<not> type_matches E (sc_types s) x) \<longleftrightarrow>
      \<not> (\<forall>c. map_of kvs ''type'' = Some c \<longrightarrow> (\<exists>t. names_type c t \<and> has_type E t x))"
  proof (cases "map_of kvs ''type''")
    case None
    then show ?thesis using compile_types_none assms by (auto simp: compiled_from_def)
  next
    case (Some c)
    then show ?thesis using compile_types_ok [of kvs "sc_types s" c] assms by (auto simp: compiled_from_def type_matches_iff)
  qed
  have c: "sc_const s = map_of kvs ''const''" using assms by (simp add: compiled_from_def)
  have e: "(sc_enum s \<noteq> [] \<and> \<not> list_ex (values_equal E x) (sc_enum s)) \<longleftrightarrow>
      \<not> (\<forall>es. map_of kvs ''enum'' = Some (JArr es) \<longrightarrow> es \<noteq> [] \<longrightarrow> (\<exists>e \<in> set es. same_value E x e))"
    using assms by (auto simp: compiled_from_def compile_enum_def list_ex_iff values_equal_iff split: option.splits json.splits)
  show ?thesis unfolding check_value_def t e value_ok_def c
    by (auto simp: values_equal_iff split: option.splits)
qed

lemma unique_items_None:
  "unique_items E seen vs = None \<longleftrightarrow>
    (\<exists>bs. map (marshal (se_floats E)) vs = map Inr bs \<and> distinct bs \<and> set bs \<inter> set seen = {})"
proof (induction vs arbitrary: seen)
  case (Cons v vs)
  show ?case
  proof (cases "marshal (se_floats E) v")
    case (Inr b)
    have "(\<exists>bs. map (marshal (se_floats E)) (v # vs) = map Inr bs \<and> distinct bs \<and> set bs \<inter> set seen = {}) \<longleftrightarrow>
        (\<exists>bs. map (marshal (se_floats E)) vs = map Inr bs \<and> distinct (b # bs) \<and> set (b # bs) \<inter> set seen = {})"
      using Inr by (auto simp: Cons_eq_map_conv)
    then show ?thesis using Inr Cons.IH [of "b # seen"] by auto
  qed auto
qed simp

lemma array_bounds_None:
  assumes "compiled_from E sub kvs s"
  shows "array_bounds E s vs = None \<longleftrightarrow> array_ok E kvs vs"
proof -
  have i: "compile_int kvs ''minItems'' = Inr (sc_min_items s)" "compile_int kvs ''maxItems'' = Inr (sc_max_items s)"
    and u: "compile_unique kvs = Inr (sc_unique s)"
    using assms by (auto simp: compiled_from_def)
  have "sc_unique s \<longleftrightarrow> map_of kvs ''uniqueItems'' = Some (JBool True)"
    using u by (auto simp: compile_unique_def split: option.splits json.splits)
  then show ?thesis
    unfolding array_bounds_def array_ok_def compile_int_bound(1) [OF i(1), symmetric] compile_int_bound(2) [OF i(2), symmetric]
    by (auto simp: unique_items_None)
qed

lemma validate_string_None:
  assumes "compiled_from E sub kvs s"
  shows "validate_string E s str = None \<longleftrightarrow> string_ok E kvs str"
proof -
  have i: "compile_int kvs ''minLength'' = Inr (sc_min_length s)" "compile_int kvs ''maxLength'' = Inr (sc_max_length s)"
    and p: "compile_pattern E kvs = Inr (sc_pattern s)"
    using assms by (auto simp: compiled_from_def)
  show ?thesis
    unfolding validate_string_def string_ok_def Let_def compile_pattern_ok [OF p]
      compile_int_bound(1) [OF i(1), symmetric] compile_int_bound(2) [OF i(2), symmetric]
    by (simp only: if_split_eq1 option.distinct) blast
qed

lemma validate_number_None:
  assumes "compiled_from E sub kvs s"
  shows "validate_number E s l = None \<longleftrightarrow> number_ok E kvs l"
proof (cases "se_big E l")
  case None
  then show ?thesis by (simp add: validate_number_def number_ok_def)
next
  case (Some f)
  have b: "compile_number E kvs ''minimum'' = Inr (sc_minimum s)" "compile_number E kvs ''maximum'' = Inr (sc_maximum s)"
    "compile_number E kvs ''exclusiveMinimum'' = Inr (sc_excl_minimum s)"
    "compile_number E kvs ''exclusiveMaximum'' = Inr (sc_excl_maximum s)"
    using assms by (auto simp: compiled_from_def)
  show ?thesis
    using Some compile_number_bound [OF b(1), of f "\<lambda>c. c < 0"] compile_number_bound [OF b(2), of f "\<lambda>c. c > 0"]
      compile_number_bound [OF b(3), of f "\<lambda>c. c \<le> 0"] compile_number_bound [OF b(4), of f "\<lambda>c. c \<ge> 0"]
    by (simp add: validate_number_def number_ok_def not_less not_le split: if_splits) blast
qed

lemma missing_property_None:
  assumes "compiled_from E sub kvs s"
  shows "missing_property s ms = None \<longleftrightarrow> required_ok kvs ms"
proof -
  have "compile_required kvs = Inr (sc_required s)" using assms by (simp add: compiled_from_def)
  then have "k \<in> set (sc_required s) \<longleftrightarrow> (\<exists>vs. map_of kvs ''required'' = Some (JArr vs) \<and> JStr k \<in> set vs)" for k
    by (auto simp: compile_required_def as_strings_Inr split: option.splits json.splits)
  then have "(\<forall>k \<in> set (sc_required s). map_of ms k \<noteq> None) \<longleftrightarrow> required_ok kvs ms"
    by (auto simp: required_ok_def)
  moreover have "missing_property s ms = None \<longleftrightarrow> (\<forall>k \<in> set (sc_required s). map_of ms k \<noteq> None)"
    unfolding missing_property_def using find_None_iff [of "\<lambda>k. map_of ms k = None" "sc_required s"]
    by (cases "find (\<lambda>k. map_of ms k = None) (sc_required s)") auto
  ultimately show ?thesis by simp
qed

section \<open>Compiled validation is the reading of the document\<close>

text \<open>What the recursive calls guarantee.\<close>

definition sub_reads ::
    "('f, 'b, 'r) schema_env \<Rightarrow> json \<Rightarrow> (json \<Rightarrow> ('b, 'r) compile) \<Rightarrow> bool" where
  "sub_reads E root sub \<longleftrightarrow>
    (\<forall>v n s n'. sub v n = (Inr s, n') \<longrightarrow> (\<forall>x. validate_at E s x = None \<longleftrightarrow> satisfies E root v x))"

lemma sub_readsD:
  "sub_reads E root sub \<Longrightarrow> sub v n = (Inr s, n') \<Longrightarrow> validate_at E s x = None \<longleftrightarrow> satisfies E root v x"
  unfolding sub_reads_def by blast

lemma node_reads:
  assumes c: "compiled_from E sub kvs s" and r: "sub_reads E root sub" and noref: "map_of kvs ''$ref'' = None"
  shows "validate_at E s x = None \<longleftrightarrow> satisfies E root (JObj kvs) x"
proof (cases x)
  case (JArr vs)
  obtain n n' where i: "compile_items sub kvs n = (Inr (sc_items s), n')" using c by (auto simp: compiled_from_def)
  have "(case sc_items s of None \<Rightarrow> None | Some it \<Rightarrow> validate_items E it vs) = None \<longleftrightarrow>
      (\<forall>it v. map_of kvs ''items'' = Some it \<longrightarrow> v \<in> set vs \<longrightarrow> satisfies E root it v)"
    using compile_items_cases [OF i] by (cases "sc_items s") (auto simp: validate_items_None sub_readsD [OF r])
  then show ?thesis unfolding JArr satisfies_array [OF noref]
    by (simp only: validate_at.simps first_error check_value_None [OF c] array_bounds_None [OF c])
next
  case (JObj ms)
  obtain n n' where p: "compile_container sub kvs ''properties'' n = (Inr (sc_properties s), n')"
    using c by (auto simp: compiled_from_def)
  obtain m m' where a: "compile_additional sub kvs m = (Inr (sc_additional s, sc_additional_false s), m')"
    using c by (auto simp: compiled_from_def)
  have "(case property_schema s k of Inl _ \<Rightarrow> False | Inr None \<Rightarrow> True | Inr (Some p) \<Rightarrow> validate_at E p v = None) \<longleftrightarrow>
      (\<forall>p. named_property kvs k = Some p \<longrightarrow> satisfies E root p v) \<and>
        (named_property kvs k = None \<longrightarrow> map_of kvs ''additionalProperties'' \<noteq> Some (JBool False) \<and>
          (\<forall>a. map_of kvs ''additionalProperties'' = Some (JObj a) \<longrightarrow> satisfies E root (JObj a) v))" for k v
  proof (cases "map_of (sc_properties s) k")
    case (Some sp)
    then show ?thesis using compile_properties_lookup [OF p, of k] by (auto simp: property_schema_def sub_readsD [OF r])
  next
    case None
    have np: "named_property kvs k = None" using compile_properties_lookup [OF p, of k] None by simp
    show ?thesis
    proof (cases "sc_additional s")
      case (Some sa)
      then obtain as q q' where "map_of kvs ''additionalProperties'' = Some (JObj as)" "sub (JObj as) q = (Inr sa, q')"
        using compile_additional_cases(2) [OF a] by auto
      then show ?thesis using None np Some compile_additional_cases(1) [OF a]
        by (auto simp: property_schema_def sub_readsD [OF r])
    next
      case no: None
      then show ?thesis using None np compile_additional_cases [OF a] by (auto simp: property_schema_def)
    qed
  qed
  then have "validate_members E s ms = None \<longleftrightarrow> (\<forall>k v. (k, v) \<in> set ms \<longrightarrow>
      (\<forall>p. named_property kvs k = Some p \<longrightarrow> satisfies E root p v) \<and>
        (named_property kvs k = None \<longrightarrow> map_of kvs ''additionalProperties'' \<noteq> Some (JBool False) \<and>
          (\<forall>a. map_of kvs ''additionalProperties'' = Some (JObj a) \<longrightarrow> satisfies E root (JObj a) v)))"
    unfolding validate_members_None by blast
  then show ?thesis unfolding JObj satisfies_object [OF noref]
    by (simp only: validate_at.simps first_error check_value_None [OF c] missing_property_None [OF c])
qed (use noref c in \<open>auto simp: satisfies_atom satisfies_string satisfies_number check_value_None validate_string_None
      validate_number_None split: option.splits\<close>)

lemma compile_at_reads: "sub_reads E root (compile_at left E root visiting)"
proof (induction left arbitrary: visiting)
  case 0
  show ?case by (simp add: sub_reads_def raise_def)
next
  case (Suc left)
  show ?case unfolding sub_reads_def
  proof (intro allI impI)
    fix v n s n' x
    assume "compile_at (Suc left) E root visiting v n = (Inr s, n')"
    then obtain n1 where run: "compile_object E (compile_at left E root) root visiting v n1 = (Inr s, n')"
      by (auto elim: bindM_InrE)
    then obtain kvs where v: "v = JObj kvs" by (cases v) (simp_all add: compile_object_def raise_def)
    note run = run [unfolded compile_object_def v json.case]
    have kw: "find (\<lambda>k. k \<notin> set allowed_keywords) (map fst kvs) = None" using run by (auto simp: raise_def split: option.splits)
    show "validate_at E s x = None \<longleftrightarrow> satisfies E root v x"
    proof (cases "map_of kvs ''$ref''")
      case None
      then have "compile_node E (compile_at left E root visiting) kvs n1 = (Inr s, n')" using run kw by simp
      then show ?thesis using node_reads [OF compile_node_fields Suc.IH None] v by simp
    next
      case (Some rv)
      then have ref: "compile_ref (compile_at left E root) root visiting kvs rv n1 = (Inr s, n')" using run kw by simp
      then obtain r where r: "rv = JStr r" by (cases rv) (auto simp: compile_ref_def raise_def split: if_splits)
      then obtain t n2 where t: "resolve_pointer root r = Inr t" "compile_at left E root (r # visiting) t n2 = (Inr s, n')"
        using ref by (auto simp: compile_ref_def raise_def split: if_splits elim!: bindM_InrE dest!: liftE_InrD)
      then show ?thesis using Suc.IH [of "r # visiting"] satisfies_ref [of kvs r root t E x] Some r v
        by (auto simp: sub_reads_def)
    qed
  qed
qed

text \<open>
  C27: a compiled schema validates exactly the instances that satisfy the schema document: references
  followed wherever they point, every keyword asserted, nothing else. The compiled form needs the
  document no more, and compiling bounds the depth, so validation always ends.
\<close>

theorem compiled_validates:
  assumes "compile_schema E root = Inr s"
  shows "validate_at E s x = None \<longleftrightarrow> satisfies E root root x"
proof -
  obtain n' where "compile_at (Suc max_schema_depth) E root [] root 0 = (Inr s, n')"
    using assms by (cases "compile_at (Suc max_schema_depth) E root [] root 0") (simp add: compile_schema_def)
  then show ?thesis using compile_at_reads unfolding sub_reads_def by blast
qed

section \<open>A concrete schema\<close>

definition demo_env :: "(int \<times> int, int, string) schema_env" where
  "demo_env = \<lparr>se_floats = exact_floats, se_big = big_set_string, se_cmp = (\<lambda>a b. a - b), se_exact_int = (\<lambda>_. True),
     se_regexp = Some, se_match = prefix\<rparr>"

definition demo_schema_doc :: json where
  "demo_schema_doc = JObj [(''type'', JStr ''object''),
     (''$defs'', JObj [(''name'', JObj [(''type'', JStr ''string''), (''minLength'', JNum ''2'')])]),
     (''properties'', JObj [(''n'', JObj [(''$ref'', JStr ''#/$defs/name'')])]),
     (''required'', JArr [JStr ''n'']), (''additionalProperties'', JBool False)]"

definition demo_name_schema :: "(int, string) schema" where
  "demo_name_schema = Schema [''string''] [] [] None False None [] None (Some 2) None None None None None None None None False"

definition demo_compiled :: "(int, string) schema" where
  "demo_compiled = Schema [''object''] [(''n'', demo_name_schema)] [''n''] None True None [] None
     None None None None None None None None None False"

lemma demo_compiles: "compile_schema demo_env demo_schema_doc = Inr demo_compiled"
  by code_simp

corollary compiled_validates_witness:
  "satisfies demo_env demo_schema_doc demo_schema_doc (JObj [(''n'', JStr ''ab'')]) \<and>
   \<not> satisfies demo_env demo_schema_doc demo_schema_doc (JObj [(''n'', JStr ''a'')]) \<and>
   \<not> satisfies demo_env demo_schema_doc demo_schema_doc (JObj [])"
proof -
  have "runes ''ab'' = [97, 98]" "runes ''a'' = [97]"
    by (simp_all add: runes_ascii ascii_def)
  then have "validate_at demo_env demo_compiled (JObj [(''n'', JStr ''ab'')]) = None"
    "validate_at demo_env demo_compiled (JObj [(''n'', JStr ''a'')]) \<noteq> None"
    "validate_at demo_env demo_compiled (JObj []) \<noteq> None"
    by (simp_all add: demo_compiled_def demo_name_schema_def check_value_def type_matches_def missing_property_def
        property_schema_def validate_string_def below_def above_def)
  then show ?thesis unfolding compiled_validates [OF demo_compiles] by simp
qed

end
