(* ===== verification/SchemaGuard.thy ===== *)
theory SchemaGuard
  imports JsonSchema
begin

text \<open>
  The server's check of asset schemas, server/internal/assets/schema_guard.go, run before the schema
  library compiles them. It must agree with the signer (docs/spec/profile-schema-dialect.md): what the
  signer compiles without nesting deeper than 32 the guard accepts. On one shape of cycle, however,
  the guard never returns.
\<close>

section \<open>The guard\<close>

datatype guard_error = GuardNotObject | GuardKeyword string | GuardRefSiblings | GuardRefNotLocal
  | GuardRefCycle string | GuardRefChain | GuardUnresolved string
  | GuardType | GuardRequired | GuardProperties | GuardDefs

definition allowed_validation_keywords :: "string list" where
  "allowed_validation_keywords =
    [''type'', ''properties'', ''required'', ''additionalProperties'', ''items'', ''$ref'', ''enum'', ''const'',
     ''minLength'', ''maxLength'', ''pattern'', ''minimum'', ''maximum'', ''exclusiveMinimum'', ''exclusiveMaximum'',
     ''minItems'', ''maxItems'', ''uniqueItems'']"

definition allowed_annotation_keywords :: "string list" where
  "allowed_annotation_keywords =
    [''title'', ''description'', ''default'', ''examples'', ''$comment'', ''$defs'', ''$id'', ''$schema'',
     ''deprecated'', ''readOnly'', ''writeOnly'']"

definition allowed_type_values :: "string list" where
  "allowed_type_values = [''object'', ''array'', ''string'', ''integer'', ''number'', ''boolean'', ''null'']"

definition max_ref_depth :: nat where "max_ref_depth = 32"

fun guard_descend :: "json \<Rightarrow> string list \<Rightarrow> guard_error + json" where
  "guard_descend cur [] = Inr cur"
| "guard_descend cur (seg # segs) =
    (let tok = unescape_segment seg in
     case cur of
       JObj kvs \<Rightarrow> (case map_of kvs tok of None \<Rightarrow> Inl (GuardUnresolved tok) | Some v \<Rightarrow> guard_descend v segs)
     | _ \<Rightarrow> Inl (GuardUnresolved tok))"

definition guard_resolve :: "json \<Rightarrow> string \<Rightarrow> guard_error + json" where
  "guard_resolve root ref =
    (if ref = ''#'' then Inr root else guard_descend root (split_on (CHR ''/'') (trim_prefix ''#/'' ref)))"

fun check_type_items :: "string list \<Rightarrow> json list \<Rightarrow> guard_error + unit" where
  "check_type_items seen [] = Inr ()"
| "check_type_items seen (v # vs) =
    (case v of
       JStr s \<Rightarrow>
         if s \<notin> set allowed_type_values \<or> s \<in> set seen then Inl GuardType else check_type_items (s # seen) vs
     | _ \<Rightarrow> Inl GuardType)"

definition validate_type_value :: "json \<Rightarrow> guard_error + unit" where
  "validate_type_value v =
    (case v of
       JStr t \<Rightarrow> if t \<in> set allowed_type_values then Inr () else Inl GuardType
     | JArr vs \<Rightarrow> if vs = [] then Inl GuardType else check_type_items [] vs
     | _ \<Rightarrow> Inl GuardType)"

text \<open>
  \<^verbatim>\<open>walkSchema\<close> with \<^verbatim>\<open>walkRef\<close>, whose recursion nothing bounds: \<open>None\<close> means that it has not ended
  within the fuel. \<open>sub\<close> is the recursive call; the order of a map's keys is that of the list.
\<close>

type_synonym outcome = "(guard_error + unit) option"

definition and_then :: "outcome \<Rightarrow> outcome \<Rightarrow> outcome" where
  "and_then a b = (case a of None \<Rightarrow> None | Some (Inl e) \<Rightarrow> Some (Inl e) | Some (Inr _) \<Rightarrow> b)"

fun walk_members :: "(json \<Rightarrow> outcome) \<Rightarrow> members \<Rightarrow> outcome" where
  "walk_members sub [] = Some (Inr ())"
| "walk_members sub (kv # kvs) = and_then (sub (snd kv)) (walk_members sub kvs)"

definition walk_ref :: "(json \<Rightarrow> string list \<Rightarrow> outcome) \<Rightarrow> json \<Rightarrow> string \<Rightarrow> string list \<Rightarrow> outcome" where
  "walk_ref sub root ref chain =
    (if ref \<in> set chain then Some (Inl (GuardRefCycle ref))
     else if length chain \<ge> max_ref_depth then Some (Inl GuardRefChain)
     else case guard_resolve root ref of Inl e \<Rightarrow> Some (Inl e) | Inr target \<Rightarrow> sub target (ref # chain))"

definition guard_type :: "members \<Rightarrow> outcome" where
  "guard_type kvs = (case map_of kvs ''type'' of None \<Rightarrow> Some (Inr ()) | Some v \<Rightarrow> Some (validate_type_value v))"

fun is_string :: "json \<Rightarrow> bool" where
  "is_string (JStr _) = True"
| "is_string _ = False"

definition guard_required :: "members \<Rightarrow> outcome" where
  "guard_required kvs =
    (case map_of kvs ''required'' of None \<Rightarrow> Some (Inr ())
     | Some (JArr vs) \<Rightarrow> if list_all is_string vs then Some (Inr ()) else Some (Inl GuardRequired)
     | Some _ \<Rightarrow> Some (Inl GuardRequired))"

definition guard_container :: "guard_error \<Rightarrow> (json \<Rightarrow> outcome) \<Rightarrow> members \<Rightarrow> string \<Rightarrow> outcome" where
  "guard_container e sub kvs kw =
    (case map_of kvs kw of None \<Rightarrow> Some (Inr ()) | Some (JObj ms) \<Rightarrow> walk_members sub ms | Some _ \<Rightarrow> Some (Inl e))"

definition guard_additional :: "(json \<Rightarrow> outcome) \<Rightarrow> members \<Rightarrow> outcome" where
  "guard_additional sub kvs =
    (case map_of kvs ''additionalProperties'' of None \<Rightarrow> Some (Inr ()) | Some (JBool _) \<Rightarrow> Some (Inr ()) | Some v \<Rightarrow> sub v)"

definition guard_items :: "(json \<Rightarrow> outcome) \<Rightarrow> members \<Rightarrow> outcome" where
  "guard_items sub kvs = (case map_of kvs ''items'' of None \<Rightarrow> Some (Inr ()) | Some v \<Rightarrow> sub v)"

definition guard_object :: "(json \<Rightarrow> string list \<Rightarrow> outcome) \<Rightarrow> json \<Rightarrow> json \<Rightarrow> string list \<Rightarrow> outcome" where
  "guard_object sub root node chain =
    (case node of
       JObj kvs \<Rightarrow>
         (case find (\<lambda>k. k \<notin> set allowed_validation_keywords \<and> k \<notin> set allowed_annotation_keywords) (map fst kvs) of
            Some k \<Rightarrow> Some (Inl (GuardKeyword k))
          | None \<Rightarrow>
            (case map_of kvs ''$ref'' of
               Some rv \<Rightarrow>
                 if length kvs \<noteq> 1 then Some (Inl GuardRefSiblings)
                 else (case rv of
                    JStr ref \<Rightarrow> if ref = ''#'' \<or> prefix ''#/'' ref then walk_ref sub root ref chain else Some (Inl GuardRefNotLocal)
                  | _ \<Rightarrow> Some (Inl GuardRefNotLocal))
             | None \<Rightarrow>
               and_then (guard_type kvs)
               (and_then (guard_required kvs)
               (and_then (guard_container GuardProperties (\<lambda>v. sub v chain) kvs ''properties'')
               (and_then (guard_additional (\<lambda>v. sub v chain) kvs)
               (and_then (guard_items (\<lambda>v. sub v chain) kvs)
                 (guard_container GuardDefs (\<lambda>v. sub v []) kvs ''$defs'')))))))
     | _ \<Rightarrow> Some (Inl GuardNotObject))"

primrec walk_schema :: "nat \<Rightarrow> json \<Rightarrow> json \<Rightarrow> string list \<Rightarrow> outcome" where
  "walk_schema 0 root node chain = None"
| "walk_schema (Suc n) root node chain = guard_object (walk_schema n root) root node chain"

definition guard_asset_schema :: "nat \<Rightarrow> json \<Rightarrow> outcome" where
  "guard_asset_schema n root = walk_schema n root root []"

section \<open>More fuel changes nothing\<close>

definition refines :: "outcome \<Rightarrow> outcome \<Rightarrow> bool" where
  "refines a b \<longleftrightarrow> a = None \<or> a = b"

lemma and_then_mono: "refines a a' \<Longrightarrow> refines b b' \<Longrightarrow> refines (and_then a b) (and_then a' b')"
  by (auto simp: refines_def and_then_def split: option.splits sum.splits)

lemma refines_refl [simp]: "refines a a"
  by (simp add: refines_def)

lemma walk_members_mono: "(\<And>v. refines (sub v) (sub' v)) \<Longrightarrow> refines (walk_members sub kvs) (walk_members sub' kvs)"
  by (induction kvs) (auto intro: and_then_mono)

lemma guard_object_mono:
  assumes "\<And>v c. refines (sub v c) (sub' v c)"
  shows "refines (guard_object sub root node chain) (guard_object sub' root node chain)"
proof -
  have "refines (guard_container e (\<lambda>v. sub v c) kvs kw) (guard_container e (\<lambda>v. sub' v c) kvs kw)" for e c kvs kw
    using assms by (auto simp: guard_container_def walk_members_mono split: option.splits json.splits)
  moreover have "refines (guard_additional (\<lambda>v. sub v c) kvs) (guard_additional (\<lambda>v. sub' v c) kvs)"
    "refines (guard_items (\<lambda>v. sub v c) kvs) (guard_items (\<lambda>v. sub' v c) kvs)" for c kvs
    using assms by (auto simp: guard_additional_def guard_items_def split: option.splits json.splits)
  moreover have "refines (walk_ref sub root ref c) (walk_ref sub' root ref c)" for ref c
    using assms by (auto simp: walk_ref_def split: sum.splits)
  ultimately show ?thesis
    unfolding guard_object_def by (auto intro!: and_then_mono split: json.splits option.splits)
qed

lemma walk_schema_Suc: "refines (walk_schema n root node chain) (walk_schema (Suc n) root node chain)"
proof (induction n arbitrary: node chain)
  case 0
  show ?case by (simp add: refines_def)
next
  case (Suc n)
  then have "refines (guard_object (walk_schema n root) root node chain) (guard_object (walk_schema (Suc n) root) root node chain)"
    by (rule guard_object_mono)
  then show ?case by (simp only: walk_schema.simps(2))
qed

lemma walk_schema_more: "walk_schema n root node chain = Some r \<Longrightarrow> n \<le> m \<Longrightarrow> walk_schema m root node chain = Some r"
proof (induction m)
  case (Suc m)
  then show ?case using walk_schema_Suc [of m root node chain] by (cases "n = Suc m") (auto simp: refines_def)
qed simp

section \<open>What the signer compiles the guard accepts\<close>

text \<open>The references written anywhere in a document.\<close>

fun all_refs :: "json \<Rightarrow> string set" where
  "all_refs (JObj kvs) = (case map_of kvs ''$ref'' of Some (JStr r) \<Rightarrow> {r} | _ \<Rightarrow> {}) \<union> (\<Union>kv \<in> set kvs. all_refs (snd kv))"
| "all_refs (JArr vs) = (\<Union>v \<in> set vs. all_refs v)"
| "all_refs _ = {}"

lemma all_refs_member: "map_of kvs k = Some v \<Longrightarrow> all_refs v \<subseteq> all_refs (JObj kvs)"
  by (auto dest!: map_of_SomeD)

lemma all_refs_descend: "descend cur segs = Inr t \<Longrightarrow> all_refs t \<subseteq> all_refs cur"
proof (induction cur segs rule: descend.induct)
  case (2 cur seg segs)
  show ?case
  proof (cases cur)
    case (JObj kvs)
    then obtain v where v: "map_of kvs (unescape_segment seg) = Some v" "descend v segs = Inr t"
      using 2(3) by (auto simp: Let_def split: option.splits)
    then show ?thesis using 2(2) [OF refl JObj v] all_refs_member [OF v(1)] JObj by blast
  next
    case (JArr vs)
    then obtain i where i: "atoi (unescape_segment seg) = Some i" "\<not> (i < 0 \<or> i \<ge> int (length vs))" "descend (vs ! nat i) segs = Inr t"
      using 2(3) by (auto simp: Let_def split: option.splits if_splits)
    have "vs ! nat i \<in> set vs" using i(2) by (auto intro!: nth_mem)
    then show ?thesis using 2(1) [OF refl JArr i(1,2,3)] JArr by auto
  qed (use 2(3) in simp_all)
qed simp

lemma all_refs_resolve: "resolve_pointer root r = Inr t \<Longrightarrow> all_refs t \<subseteq> all_refs root"
  by (auto simp: resolve_pointer_def split: if_splits dest: all_refs_descend)

text \<open>No reference goes through an array, where the guard does not follow it.\<close>

definition refs_through_objects :: "json \<Rightarrow> bool" where
  "refs_through_objects root \<longleftrightarrow>
    (\<forall>r \<in> all_refs root. \<forall>t. resolve_pointer root r = Inr t \<longrightarrow> guard_resolve root r = Inr t)"

lemma same_keywords: "k \<in> set allowed_keywords \<longleftrightarrow> k \<in> set allowed_validation_keywords \<or> k \<in> set allowed_annotation_keywords"
  unfolding allowed_keywords_def allowed_validation_keywords_def allowed_annotation_keywords_def by auto

lemma same_types: "allowed_type_values = type_names"
  by (simp add: allowed_type_values_def type_names_def)

lemma check_types_guard: "check_types seen ts = Inr () \<Longrightarrow> check_type_items seen (map JStr ts) = Inr ()"
  by (induction seen ts rule: check_types.induct) (auto simp: same_types split: if_splits)

lemma type_value_guard:
  assumes "type_list v = Inr ts" and "check_types [] ts = Inr ()"
  shows "validate_type_value v = Inr ()"
  using assms check_types_guard [of "[]" ts]
  by (cases v) (auto simp: type_list_def validate_type_value_def as_strings_Inr same_types split: if_splits)

lemma types_guard: "compile_types kvs = Inr ts \<Longrightarrow> guard_type kvs = Some (Inr ())"
  by (auto simp: compile_types_def guard_type_def type_value_guard split: option.splits sum.splits)

lemma required_guard: "compile_required kvs = Inr ss \<Longrightarrow> guard_required kvs = Some (Inr ())"
  by (auto simp: compile_required_def guard_required_def as_strings_Inr list_all_iff split: option.splits json.splits)

lemma members_guard:
  assumes "compile_members sub kvs n = (Inr ss, n')"
    and "\<And>v m s m'. v \<in> snd ` set kvs \<Longrightarrow> sub v m = (Inr s, m') \<Longrightarrow> g v = Some (Inr ())"
  shows "walk_members g kvs = Some (Inr ())"
  using assms
proof (induction kvs arbitrary: n ss)
  case (Cons kv kvs)
  from Cons.prems(1) obtain s n1 ss' where s: "sub (snd kv) n = (Inr s, n1)" "compile_members sub kvs n1 = (Inr ss', n')"
    by (auto elim!: bindM_InrE dest!: ret_InrD)
  have "g (snd kv) = Some (Inr ())" by (rule Cons.prems(2) [OF _ s(1)]) simp
  moreover have "walk_members g kvs = Some (Inr ())" by (rule Cons.IH [OF s(2)]) (rule Cons.prems(2), auto)
  ultimately show ?case by (simp add: and_then_def)
qed simp

lemma container_guard:
  assumes "compile_container sub kvs kw n = (Inr ss, n')"
    and "\<And>v m s m'. all_refs v \<subseteq> all_refs (JObj kvs) \<Longrightarrow> sub v m = (Inr s, m') \<Longrightarrow> g v = Some (Inr ())"
  shows "guard_container e g kvs kw = Some (Inr ())"
proof (cases "map_of kvs kw")
  case None
  then show ?thesis by (simp add: guard_container_def)
next
  case (Some c)
  then obtain ms where c: "c = JObj ms" "compile_members sub ms n = (Inr ss, n')"
    using assms(1) by (cases c) (simp_all add: compile_container_def raise_def)
  have sub: "all_refs v \<subseteq> all_refs (JObj kvs)" if "v \<in> snd ` set ms" for v
  proof -
    have "all_refs v \<subseteq> all_refs (JObj ms)" using that by auto
    also have "\<dots> \<subseteq> all_refs (JObj kvs)" by (rule all_refs_member [OF Some [unfolded c]])
    finally show ?thesis .
  qed
  have "walk_members g ms = Some (Inr ())" by (rule members_guard [OF c(2)]) (rule assms(2) [OF sub])
  then show ?thesis using Some c by (simp add: guard_container_def)
qed

lemma defs_compiled:
  assumes "compile_node E sub kvs n = (Inr s, n')"
  obtains m ss m' where "compile_container sub kvs ''$defs'' m = (Inr ss, m')"
  using assms unfolding compile_node_def by (elim bindM_InrE) blast

lemma additional_guard:
  assumes "compile_additional sub kvs n = (Inr a, n')"
    and "\<And>v m s m'. all_refs v \<subseteq> all_refs (JObj kvs) \<Longrightarrow> sub v m = (Inr s, m') \<Longrightarrow> g v = Some (Inr ())"
  shows "guard_additional g kvs = Some (Inr ())"
proof (cases "map_of kvs ''additionalProperties''")
  case (Some c)
  show ?thesis
  proof (cases c)
    case (JObj ms)
    then obtain s m' where "sub c n = (Inr s, m')"
      using assms(1) Some by (auto simp: compile_additional_def elim!: bindM_InrE)
    then show ?thesis using assms(2) all_refs_member [OF Some] Some JObj by (simp add: guard_additional_def)
  qed (use Some assms(1) in \<open>simp_all add: guard_additional_def compile_additional_def raise_def\<close>)
qed (simp add: guard_additional_def)

lemma items_guard:
  assumes "compile_items sub kvs n = (Inr i, n')"
    and "\<And>v m s m'. all_refs v \<subseteq> all_refs (JObj kvs) \<Longrightarrow> sub v m = (Inr s, m') \<Longrightarrow> g v = Some (Inr ())"
  shows "guard_items g kvs = Some (Inr ())"
proof (cases "map_of kvs ''items''")
  case (Some c)
  then obtain s m' where "sub c n = (Inr s, m')" using assms(1) by (auto simp: compile_items_def elim!: bindM_InrE)
  then show ?thesis using assms(2) all_refs_member [OF Some] Some by (simp add: guard_items_def)
qed (simp add: guard_items_def)

lemma compile_walk:
  assumes "refs_through_objects root"
  shows "compile_at left E root visiting v n = (Inr s, n') \<Longrightarrow> set chain \<subseteq> set visiting \<Longrightarrow>
    length chain + left \<le> Suc max_ref_depth \<Longrightarrow> all_refs v \<subseteq> all_refs root \<Longrightarrow>
    walk_schema left root v chain = Some (Inr ())"
proof (induction left arbitrary: visiting v n s n' chain)
  case 0
  then show ?case by (simp add: raise_def)
next
  case (Suc left)
  obtain n1 where run: "compile_object E (compile_at left E root) root visiting v n1 = (Inr s, n')"
    using Suc.prems(1) by (auto elim: bindM_InrE)
  then obtain kvs where v: "v = JObj kvs" by (cases v) (simp_all add: compile_object_def raise_def)
  note run = run [unfolded compile_object_def v json.case]
  have kw: "find (\<lambda>k. k \<notin> set allowed_keywords) (map fst kvs) = None" using run by (auto simp: raise_def split: option.splits)
  then have kw': "find (\<lambda>k. k \<notin> set allowed_validation_keywords \<and> k \<notin> set allowed_annotation_keywords) (map fst kvs) = None"
    by (auto simp: find_None_iff same_keywords)
  show ?case
  proof (cases "map_of kvs ''$ref''")
    case (Some rv)
    then have ref: "compile_ref (compile_at left E root) root visiting kvs rv n1 = (Inr s, n')" using run kw by simp
    then obtain r where r: "rv = JStr r" by (cases rv) (auto simp: compile_ref_def raise_def split: if_splits)
    obtain t n2 where t: "length kvs = 1" "r = ''#'' \<or> prefix ''#/'' r" "r \<notin> set visiting"
      "resolve_pointer root r = Inr t" "compile_at left E root (r # visiting) t n2 = (Inr s, n')"
      using ref r by (auto simp: compile_ref_def raise_def split: if_splits elim!: bindM_InrE dest!: liftE_InrD)
    have pos: "0 < left" using t(5) by (cases left) (simp_all add: raise_def)
    have "r \<in> all_refs v" using Some r v by simp
    then have "guard_resolve root r = Inr t" using assms t(4) Suc.prems(4) unfolding refs_through_objects_def by blast
    moreover have "walk_schema left root t (r # chain) = Some (Inr ())"
      using Suc.IH [OF t(5), of "r # chain"] Suc.prems(2,3) all_refs_resolve [OF t(4)] by auto
    moreover have "r \<notin> set chain" "length chain < max_ref_depth" using t(3) Suc.prems(2,3) pos by auto
    ultimately have "walk_ref (walk_schema left root) root r chain = Some (Inr ())" by (simp add: walk_ref_def)
    then show ?thesis using Some r v t(1,2) kw' by (auto simp: guard_object_def)
  next
    case None
    then have node: "compile_node E (compile_at left E root visiting) kvs n1 = (Inr s, n')" using run kw by simp
    note c = compile_node_fields [OF node, unfolded compiled_from_def]
    have sub: "walk_schema left root w c = Some (Inr ())"
      if "all_refs w \<subseteq> all_refs (JObj kvs)" "compile_at left E root visiting w m = (Inr s', m')" "c = chain \<or> c = []" for w m s' m' c
    proof (rule Suc.IH [OF that(2)])
      show "set c \<subseteq> set visiting" "length c + left \<le> Suc max_ref_depth" using that(3) Suc.prems(2,3) by auto
      show "all_refs w \<subseteq> all_refs root" using that(1) Suc.prems(4) v by blast
    qed
    obtain m ss m' where defs: "compile_container (compile_at left E root visiting) kvs ''$defs'' m = (Inr ss, m')"
      by (rule defs_compiled [OF node])
    have "guard_container GuardDefs (\<lambda>v. walk_schema left root v []) kvs ''$defs'' = Some (Inr ())"
      by (rule container_guard [OF defs]) (rule sub, assumption+, simp)
    moreover have "guard_container GuardProperties (\<lambda>v. walk_schema left root v chain) kvs ''properties'' = Some (Inr ())"
      using c container_guard sub by (metis (no_types, lifting))
    moreover have "guard_additional (\<lambda>v. walk_schema left root v chain) kvs = Some (Inr ())"
      using c additional_guard sub by (metis (no_types, lifting))
    moreover have "guard_items (\<lambda>v. walk_schema left root v chain) kvs = Some (Inr ())"
      using c items_guard sub by (metis (no_types, lifting))
    moreover have "guard_type kvs = Some (Inr ())" "guard_required kvs = Some (Inr ())"
      using c types_guard required_guard by blast+
    ultimately show ?thesis using None v kw' by (simp add: guard_object_def and_then_def)
  qed
qed

text \<open>
  C28: an asset schema that the signer compiles without exceeding a depth of 32 in nesting and
  references together, with no reference through an array, passes the server's guard: the guard's
  recursion ends, and it ends accepting.
\<close>

theorem guard_follows_signer:
  assumes "compile_at (Suc max_ref_depth) E root [] root 0 = (Inr s, nodes)" and "refs_through_objects root"
    and "Suc max_ref_depth \<le> n"
  shows "guard_asset_schema n root = Some (Inr ())"
  unfolding guard_asset_schema_def
  by (rule walk_schema_more [OF compile_walk [OF assms(2,1)] assms(3)]) simp_all

corollary guard_follows_signer_witness:
  "guard_asset_schema 40 demo_schema_doc = Some (Inr ())"
proof (rule guard_follows_signer [of demo_env demo_schema_doc demo_compiled 4])
  show "compile_at (Suc max_ref_depth) demo_env demo_schema_doc [] demo_schema_doc 0 = (Inr demo_compiled, 4)"
    by code_simp
  have "resolve_pointer demo_schema_doc ''#/$defs/name'' = Inr (JObj [(''type'', JStr ''string''), (''minLength'', JNum ''2'')])"
    and "guard_resolve demo_schema_doc ''#/$defs/name'' = Inr (JObj [(''type'', JStr ''string''), (''minLength'', JNum ''2'')])"
    by code_simp+
  moreover have "all_refs demo_schema_doc = {''#/$defs/name''}" by (simp add: demo_schema_doc_def)
  ultimately show "refs_through_objects demo_schema_doc" by (simp add: refs_through_objects_def)
qed (simp add: max_ref_depth_def)

section \<open>A cycle through the definitions\<close>

definition cyclic_defs :: json where
  "cyclic_defs = JObj [(''$defs'', JObj [(''a'', JObj [(''$ref'', JStr ''#'')])])]"

lemma cyclic_defs_unfold:
  "walk_schema (Suc (Suc n)) cyclic_defs cyclic_defs chain = walk_schema n cyclic_defs cyclic_defs [''#'']"
  (is "?l = ?r")
proof -
  have "?l = and_then (guard_object (walk_schema n cyclic_defs) cyclic_defs (JObj [(''$ref'', JStr ''#'')]) []) (Some (Inr ()))"
    unfolding walk_schema.simps
    by (subst guard_object_def) (simp add: cyclic_defs_def allowed_validation_keywords_def allowed_annotation_keywords_def
        guard_type_def guard_required_def guard_container_def guard_additional_def guard_items_def and_then_def)
  also have "guard_object (walk_schema n cyclic_defs) cyclic_defs (JObj [(''$ref'', JStr ''#'')]) [] = ?r"
    by (simp add: guard_object_def allowed_validation_keywords_def walk_ref_def max_ref_depth_def guard_resolve_def)
  finally show ?thesis by (auto simp: and_then_def split: option.splits sum.splits)
qed

lemma cyclic_defs_diverges: "walk_schema n cyclic_defs cyclic_defs chain = None"
proof (induction n arbitrary: chain rule: less_induct)
  case (less n)
  consider "n = 0" | "n = 1" | m where "n = Suc (Suc m)" by (metis One_nat_def not0_implies_Suc)
  then show ?case
  proof cases
    case 2
    then show ?thesis by (simp add: guard_object_def cyclic_defs_def allowed_validation_keywords_def allowed_annotation_keywords_def
        guard_type_def guard_required_def guard_container_def guard_additional_def guard_items_def and_then_def)
  next
    case 3
    then show ?thesis using less [of m] by (simp only: cyclic_defs_unfold)
  qed simp
qed

lemma cyclic_defs_compile: "fst (compile_at (Suc (Suc (Suc (Suc n)))) E cyclic_defs [] cyclic_defs 0) = Inl (RefCycle ''#'')"
  by (simp add: count_node_def max_schema_nodes_def cyclic_defs_def compile_object_def allowed_keywords_def compile_node_def
      compile_types_def compile_container_def compile_ref_def resolve_pointer_def monad_defs)

text \<open>
  C29: the guard starts each \<^verbatim>\<open>$defs\<close> entry with an empty chain of references, so a definition that
  refers to the whole document is a cycle it does not see: on \<^verbatim>\<open>{"$defs":{"a":{"$ref":"#"}}}\<close> its
  recursion never ends (in Go, the stack overflows and the process dies), while the signer rejects
  the document as cyclic.
\<close>

theorem guard_cycle_never_ends:
  "(\<forall>n. guard_asset_schema n cyclic_defs = None) \<and> compile_schema E cyclic_defs = Inl (RefCycle ''#'')"
proof
  show "\<forall>n. guard_asset_schema n cyclic_defs = None" by (simp add: guard_asset_schema_def cyclic_defs_diverges)
  have "Suc max_schema_depth = Suc (Suc (Suc (Suc 97)))" by (simp add: max_schema_depth_def)
  then show "compile_schema E cyclic_defs = Inl (RefCycle ''#'')"
    unfolding compile_schema_def by (simp only: cyclic_defs_compile)
qed

end
