(* ===== verification/Envelope.thy ===== *)
theory Envelope
  imports JsonSchema
begin

text \<open>
  The documents an auditor reviews: signer/internal/textsafe/textsafe.go, profile/profile.go and
  metadata/metadata.go. Unicode's tables of printable and space characters, \<^verbatim>\<open>time.Parse\<close> and SHA-256
  are parameters; the JSON parser, the schema compiler and the canonical form are those of Canonical,
  JsonSchema and Jcs.
\<close>

section \<open>Checks in sequence\<close>

definition andE :: "'e + 'a \<Rightarrow> ('a \<Rightarrow> 'e + 'b) \<Rightarrow> 'e + 'b" where
  "andE x f = (case x of Inl e \<Rightarrow> Inl e | Inr a \<Rightarrow> f a)"

definition needE :: "bool \<Rightarrow> 'e \<Rightarrow> 'e + unit" where
  "needE b e = (if b then Inr () else Inl e)"

lemma andE_Inr: "andE x f = Inr b \<longleftrightarrow> (\<exists>a. x = Inr a \<and> f a = Inr b)"
  by (auto simp: andE_def split: sum.splits)

lemma needE_Inr [simp]: "needE b e = Inr u \<longleftrightarrow> b"
  by (simp add: needE_def)

section \<open>Printable text\<close>

record text_env =
  tn_print :: "rune \<Rightarrow> bool" \<comment> \<open>\<^verbatim>\<open>unicode.IsPrint\<close>\<close>
  tn_space :: "rune \<Rightarrow> bool" \<comment> \<open>\<^verbatim>\<open>unicode.IsSpace\<close>\<close>
  tn_time :: "string \<Rightarrow> gotime option" \<comment> \<open>\<^verbatim>\<open>time.Parse\<close> of RFC 3339\<close>
  tn_date :: "string \<Rightarrow> bool" \<comment> \<open>a date that \<^verbatim>\<open>time.Parse\<close> reads and formats back\<close>
  tn_sha :: "string \<Rightarrow> byte list"

definition printable_rune :: "text_env \<Rightarrow> rune \<Rightarrow> bool" where
  "printable_rune T r = (if r < 0x20 \<or> r = 0x7F \<or> (0x80 \<le> r \<and> r \<le> 0x9F) then False else tn_print T r)"

fun printable_piece :: "text_env \<Rightarrow> piece \<Rightarrow> bool" where
  "printable_piece T (Bad c) = False"
| "printable_piece T (Rune r) = printable_rune T r"

definition is_printable :: "text_env \<Rightarrow> string \<Rightarrow> bool" where
  "is_printable T s = list_all (printable_piece T) (pieces s)"

text \<open>The verbs \<^verbatim>\<open>%02x\<close> and \<^verbatim>\<open>%04x\<close>\<close>

fun hex_nat :: "nat \<Rightarrow> nat \<Rightarrow> string" where
  "hex_nat 0 n = (if n = 0 then [] else hex_nat 0 (n div 16) @ [hex_lower (n mod 16)])"
| "hex_nat (Suc w) n = hex_nat w (n div 16) @ [hex_lower (n mod 16)]"

fun sanitize_piece :: "text_env \<Rightarrow> piece \<Rightarrow> string" where
  "sanitize_piece T (Bad c) = [CHR 0x5C, CHR ''x''] @ hex_nat 2 (of_char c)"
| "sanitize_piece T (Rune r) =
    (if printable_rune T r then encode_rune r
     else if r \<le> 0xFF then [CHR 0x5C, CHR ''x''] @ hex_nat 2 r
     else [CHR 0x5C, CHR ''u''] @ hex_nat 4 r)"

definition sanitize_for_terminal :: "text_env \<Rightarrow> string \<Rightarrow> string" where
  "sanitize_for_terminal T s = (if is_printable T s then s else concat (map (sanitize_piece T) (pieces s)))"

section \<open>Reading members\<close>

datatype doc_error = DocSyntax canon_error | DocNotObject string | DocMissing string | DocExtra string string
  | DocNotString string | DocBounds string | DocNotPrintable string | DocBad string | DocSchema schema_error
  | DocMarshal canon_error

definition hex_digit_char :: "char \<Rightarrow> bool" where
  "hex_digit_char c \<longleftrightarrow> (CHR ''0'' \<le> c \<and> c \<le> CHR ''9'') \<or> (CHR ''a'' \<le> c \<and> c \<le> CHR ''f'') \<or> (CHR ''A'' \<le> c \<and> c \<le> CHR ''F'')"

definition digit_char_ok :: "char \<Rightarrow> bool" where
  "digit_char_ok c \<longleftrightarrow> CHR ''0'' \<le> c \<and> c \<le> CHR ''9''"

definition upper_char :: "char \<Rightarrow> bool" where
  "upper_char c \<longleftrightarrow> CHR ''A'' \<le> c \<and> c \<le> CHR ''Z''"

definition lower_char :: "char \<Rightarrow> bool" where
  "lower_char c \<longleftrightarrow> CHR ''a'' \<le> c \<and> c \<le> CHR ''z''"

definition uuid_pattern :: "string \<Rightarrow> bool" where
  "uuid_pattern s \<longleftrightarrow> map length (split_on (CHR ''-'') s) = [8, 4, 4, 4, 12] \<and>
     list_all (list_all hex_digit_char) (split_on (CHR ''-'') s)"

definition sha256_text :: "string \<Rightarrow> bool" where
  "sha256_text s \<longleftrightarrow> length s = 64 \<and> list_all (\<lambda>c. hex_digit_char c \<and> \<not> upper_char c) s"

text \<open>The members of an object: what is required, and nothing that is not allowed.\<close>

definition object_members :: "string \<Rightarrow> json \<Rightarrow> doc_error + members" where
  "object_members name v = (case v of JObj kvs \<Rightarrow> Inr kvs | _ \<Rightarrow> Inl (DocNotObject name))"

definition check_required :: "string list \<Rightarrow> members \<Rightarrow> doc_error + unit" where
  "check_required required kvs =
    (case find (\<lambda>k. map_of kvs k = None) required of Some k \<Rightarrow> Inl (DocMissing k) | None \<Rightarrow> Inr ())"

definition check_allowed :: "string \<Rightarrow> string list \<Rightarrow> members \<Rightarrow> doc_error + unit" where
  "check_allowed name allowed kvs =
    (case find (\<lambda>k. k \<notin> set allowed) (map fst kvs) of Some k \<Rightarrow> Inl (DocExtra name k) | None \<Rightarrow> Inr ())"

definition string_member :: "string \<Rightarrow> string \<Rightarrow> members \<Rightarrow> doc_error + string" where
  "string_member name key kvs = (case map_of kvs key of Some (JStr s) \<Rightarrow> Inr s | _ \<Rightarrow> Inl (DocNotString name))"

text \<open>A string that passes a test\<close>

definition tested_member :: "string \<Rightarrow> string \<Rightarrow> (string \<Rightarrow> bool) \<Rightarrow> members \<Rightarrow> doc_error + string" where
  "tested_member name key test kvs =
    andE (string_member name key kvs) (\<lambda>s. andE (needE (test s) (DocBad name)) (\<lambda>_. Inr s))"

definition bounded_string :: "text_env \<Rightarrow> string \<Rightarrow> string \<Rightarrow> nat \<Rightarrow> nat \<Rightarrow> members \<Rightarrow> doc_error + string" where
  "bounded_string T name key lo hi kvs =
    andE (string_member name key kvs) (\<lambda>s.
    andE (needE (lo \<le> length (runes s) \<and> length (runes s) \<le> hi) (DocBounds name)) (\<lambda>_.
    andE (needE (is_printable T s) (DocNotPrintable name)) (\<lambda>_. Inr s)))"

text \<open>A non-empty printable string\<close>

definition shown_string :: "text_env \<Rightarrow> string \<Rightarrow> string \<Rightarrow> members \<Rightarrow> doc_error + string" where
  "shown_string T name key kvs =
    andE (tested_member name key (\<lambda>s. s \<noteq> []) kvs) (\<lambda>s.
    andE (needE (is_printable T s) (DocNotPrintable name)) (\<lambda>_. Inr s))"

section \<open>Profiles: the legal descriptor\<close>

record doc_ref =
  dr_uri :: string
  dr_sha256 :: string

record rating =
  rt_provider :: string
  rt_grade :: string
  rt_ref :: doc_ref

record legal =
  lg_wrapper :: string
  lg_lei :: string
  lg_rights :: string
  lg_terms :: "doc_ref option"
  lg_maturity :: string
  lg_rating :: "rating option"

definition lei_pattern :: "string \<Rightarrow> bool" where
  "lei_pattern s \<longleftrightarrow> length s = 20 \<and> list_all (\<lambda>c. upper_char c \<or> digit_char_ok c) (take 18 s) \<and> list_all digit_char_ok (drop 18 s)"

definition lei_digits :: "string \<Rightarrow> string" where
  "lei_digits s = concat (map (\<lambda>c. if c \<ge> CHR ''A'' then nat_digits (of_char c - 65 + 10) else [c]) s)"

definition valid_lei :: "string \<Rightarrow> bool" where
  "valid_lei s = (if \<not> lei_pattern s then False
     else case big_set_string (lei_digits s) of None \<Rightarrow> False | Some n \<Rightarrow> n mod 97 = 1)"

definition legal_object :: "string \<Rightarrow> string list \<Rightarrow> json \<Rightarrow> doc_error + members" where
  "legal_object name allowed v =
    andE (object_members name v) (\<lambda>kvs. andE (check_allowed name allowed kvs) (\<lambda>_. Inr kvs))"

definition legal_string :: "text_env \<Rightarrow> string \<Rightarrow> string \<Rightarrow> nat \<Rightarrow> nat \<Rightarrow> bool \<Rightarrow> members \<Rightarrow> doc_error + string" where
  "legal_string T name key lo hi required kvs =
    (if map_of kvs key = None then (if required then Inl (DocMissing (name @ ''.'' @ key)) else Inr [])
     else bounded_string T (name @ ''.'' @ key) key lo hi kvs)"

definition parse_doc_ref :: "text_env \<Rightarrow> string \<Rightarrow> members \<Rightarrow> doc_error + doc_ref" where
  "parse_doc_ref T name kvs =
    andE (legal_string T name ''uri'' 1 2048 True kvs) (\<lambda>uri.
    andE (needE (\<not> list_ex (tn_space T) (runes uri)) (DocBad (name @ ''.uri''))) (\<lambda>_.
    andE (legal_string T name ''sha256'' 64 64 True kvs) (\<lambda>sum.
    andE (needE (sha256_text sum) (DocBad (name @ ''.sha256''))) (\<lambda>_.
      Inr \<lparr>dr_uri = uri, dr_sha256 = sum\<rparr>))))"

text \<open>An optional member that is an object\<close>

definition optional_object :: "members \<Rightarrow> string \<Rightarrow> (json \<Rightarrow> doc_error + 'a) \<Rightarrow> doc_error + 'a option" where
  "optional_object kvs key f =
    (case map_of kvs key of None \<Rightarrow> Inr None | Some v \<Rightarrow> andE (f v) (\<lambda>x. Inr (Some x)))"

definition parse_rating :: "text_env \<Rightarrow> json \<Rightarrow> doc_error + rating" where
  "parse_rating T v =
    andE (legal_object ''legal.rating'' [''provider'', ''grade'', ''uri'', ''sha256''] v) (\<lambda>ro.
    andE (legal_string T ''legal.rating'' ''provider'' 1 128 True ro) (\<lambda>provider.
    andE (legal_string T ''legal.rating'' ''grade'' 1 32 False ro) (\<lambda>grade.
    andE (parse_doc_ref T ''legal.rating'' ro) (\<lambda>ref.
      Inr \<lparr>rt_provider = provider, rt_grade = grade, rt_ref = ref\<rparr>))))"

definition parse_terms :: "text_env \<Rightarrow> json \<Rightarrow> doc_error + doc_ref" where
  "parse_terms T v =
    andE (legal_object ''legal.redemptionTerms'' [''uri'', ''sha256''] v) (\<lambda>ro. parse_doc_ref T ''legal.redemptionTerms'' ro)"

definition parse_legal :: "text_env \<Rightarrow> json \<Rightarrow> doc_error + legal" where
  "parse_legal T v =
    andE (legal_object ''legal'' [''wrapper'', ''issuerLei'', ''holderRights'', ''redemptionTerms'', ''maturityDate'', ''rating''] v) (\<lambda>kvs.
    andE (legal_string T ''legal'' ''wrapper'' 1 32 True kvs) (\<lambda>wrapper.
    andE (needE (wrapper \<in> {''share'', ''entitlement'', ''certificate'', ''claim''}) (DocBad ''legal.wrapper'')) (\<lambda>_.
    andE (legal_string T ''legal'' ''issuerLei'' 1 64 False kvs) (\<lambda>lei.
    andE (needE (map_of kvs ''issuerLei'' = None \<or> valid_lei lei) (DocBad ''legal.issuerLei'')) (\<lambda>_.
    andE (legal_string T ''legal'' ''holderRights'' 1 2048 False kvs) (\<lambda>rights.
    andE (optional_object kvs ''redemptionTerms'' (parse_terms T)) (\<lambda>terms.
    andE (legal_string T ''legal'' ''maturityDate'' 1 64 False kvs) (\<lambda>maturity.
    andE (needE (map_of kvs ''maturityDate'' = None \<or> tn_date T maturity) (DocBad ''legal.maturityDate'')) (\<lambda>_.
    andE (optional_object kvs ''rating'' (parse_rating T)) (\<lambda>rating.
      Inr \<lparr>lg_wrapper = wrapper, lg_lei = lei, lg_rights = rights, lg_terms = terms, lg_maturity = maturity,
           lg_rating = rating\<rparr>))))))))))"

section \<open>Profiles\<close>

record display_field =
  df_label :: string
  df_pointer :: string

record ('b, 'r) profile =
  pf_version :: string
  pf_project_id :: string
  pf_asset_type :: string
  pf_token_unit :: string
  pf_token_decimals :: int
  pf_record_label :: string
  pf_display :: "display_field list"
  pf_legal :: "legal option"
  pf_schema :: "('b, 'r) schema"
  pf_canonical :: string
  pf_digest :: "byte list"

definition parse_display_field :: "text_env \<Rightarrow> json \<Rightarrow> doc_error + display_field" where
  "parse_display_field T v =
    andE (object_members ''displayFields'' v) (\<lambda>kvs.
    andE (check_allowed ''displayFields'' [''label'', ''pointer''] kvs) (\<lambda>_.
    andE (check_required [''label'', ''pointer''] kvs) (\<lambda>_.
    andE (shown_string T ''displayFields.label'' ''label'' kvs) (\<lambda>label.
    andE (tested_member ''displayFields.pointer'' ''pointer'' (\<lambda>s. s \<noteq> [] \<and> hd s = CHR ''/'') kvs) (\<lambda>pointer.
      Inr \<lparr>df_label = label, df_pointer = pointer\<rparr>)))))"

fun parse_each :: "(json \<Rightarrow> doc_error + 'a) \<Rightarrow> json list \<Rightarrow> doc_error + 'a list" where
  "parse_each f [] = Inr []"
| "parse_each f (v # vs) = andE (f v) (\<lambda>x. andE (parse_each f vs) (\<lambda>xs. Inr (x # xs)))"

text \<open>An optional array of objects\<close>

definition optional_array :: "string \<Rightarrow> (json \<Rightarrow> doc_error + 'a) \<Rightarrow> members \<Rightarrow> doc_error + 'a list" where
  "optional_array key f kvs =
    (case map_of kvs key of None \<Rightarrow> Inr [] | Some (JArr vs) \<Rightarrow> parse_each f vs | Some _ \<Rightarrow> Inl (DocBad key))"

definition token_decimals :: "members \<Rightarrow> doc_error + int" where
  "token_decimals kvs =
    (case map_of kvs ''tokenDecimals'' of
       Some (JNum l) \<Rightarrow>
         (case atoi l of None \<Rightarrow> Inl (DocBad ''tokenDecimals'')
          | Some td \<Rightarrow> if td < 0 \<or> td > 36 then Inl (DocBad ''tokenDecimals'') else Inr td)
     | _ \<Rightarrow> Inl (DocBad ''tokenDecimals''))"

text \<open>\<^verbatim>\<open>canonical.ParseWithLimits\<close> with the default limits, and \<^verbatim>\<open>canonical.Marshal\<close>\<close>

definition read_document :: "string \<Rightarrow> doc_error + json" where
  "read_document raw = (case parse_with_limits raw default_limits of Inl e \<Rightarrow> Inl (DocSyntax e) | Inr v \<Rightarrow> Inr v)"

definition canonical_document :: "'f float_ops \<Rightarrow> json \<Rightarrow> doc_error + string" where
  "canonical_document F v = (case marshal F v of Inl e \<Rightarrow> Inl (DocMarshal e) | Inr b \<Rightarrow> Inr b)"

definition asset_schema :: "('f, 'b, 'r) schema_env \<Rightarrow> members \<Rightarrow> doc_error + ('b, 'r) schema" where
  "asset_schema E kvs =
    (case map_of kvs ''assetSchema'' of
       Some (JObj ms) \<Rightarrow> (case compile_schema E (JObj ms) of Inl e \<Rightarrow> Inl (DocSchema e) | Inr s \<Rightarrow> Inr s)
     | _ \<Rightarrow> Inl (DocNotObject ''assetSchema''))"

definition validate_profile :: "('f, 'b, 'r) schema_env \<Rightarrow> text_env \<Rightarrow> string \<Rightarrow> doc_error + ('b, 'r) profile" where
  "validate_profile E T raw =
    andE (read_document raw) (\<lambda>v.
    andE (object_members ''profile'' v) (\<lambda>kvs.
    andE (check_required [''profileVersion'', ''projectId'', ''assetType'', ''tokenUnit'', ''tokenDecimals'', ''recordIdLabel'', ''assetSchema''] kvs) (\<lambda>_.
    andE (check_allowed ''profile'' [''profileVersion'', ''projectId'', ''assetType'', ''tokenUnit'', ''tokenDecimals'', ''recordIdLabel'',
      ''displayFields'', ''legal'', ''assetSchema''] kvs) (\<lambda>_.
    andE (tested_member ''profileVersion'' ''profileVersion'' (\<lambda>s. s = ''1.0'') kvs) (\<lambda>version.
    andE (tested_member ''projectId'' ''projectId'' uuid_pattern kvs) (\<lambda>project.
    andE (bounded_string T ''assetType'' ''assetType'' 1 128 kvs) (\<lambda>asset_type.
    andE (bounded_string T ''tokenUnit'' ''tokenUnit'' 1 64 kvs) (\<lambda>token_unit.
    andE (token_decimals kvs) (\<lambda>decimals.
    andE (bounded_string T ''recordIdLabel'' ''recordIdLabel'' 1 128 kvs) (\<lambda>label.
    andE (optional_array ''displayFields'' (parse_display_field T) kvs) (\<lambda>display.
    andE (optional_object kvs ''legal'' (parse_legal T)) (\<lambda>legal.
    andE (asset_schema E kvs) (\<lambda>schema.
    andE (canonical_document (se_floats E) v) (\<lambda>bytes.
      Inr \<lparr>pf_version = version, pf_project_id = project, pf_asset_type = asset_type, pf_token_unit = token_unit,
           pf_token_decimals = decimals, pf_record_label = label, pf_display = display, pf_legal = legal, pf_schema = schema,
           pf_canonical = bytes, pf_digest = tn_sha T bytes\<rparr>))))))))))))))"

definition validate_asset :: "('f, 'b, 'r) schema_env \<Rightarrow> ('b, 'r) profile \<Rightarrow> json \<Rightarrow> invalid option" where
  "validate_asset E p asset = validate_at E (pf_schema p) asset"

section \<open>Metadata\<close>

record proof_entry =
  pe_type :: string
  pe_sha256 :: string
  pe_uri :: string

record metadata_doc =
  md_version :: string
  md_project_id :: string
  md_record_id :: string
  md_asset :: json
  md_amount :: string
  md_unit :: string
  md_proofs :: "proof_entry list"
  md_created_at :: string
  md_canonical :: string
  md_digest :: "byte list"

definition record_id_pattern :: "string \<Rightarrow> bool" where
  "record_id_pattern s \<longleftrightarrow> 1 \<le> length s \<and> length s \<le> 128 \<and>
     list_all (\<lambda>c. upper_char c \<or> lower_char c \<or> digit_char_ok c \<or> c \<in> set ''._:-'') s"

definition amount_pattern :: "string \<Rightarrow> bool" where
  "amount_pattern s \<longleftrightarrow> s \<noteq> [] \<and> list_all digit_char_ok s"

definition positive_uint256 :: "string \<Rightarrow> bool" where
  "positive_uint256 s = (case big_set_string s of None \<Rightarrow> False | Some i \<Rightarrow> 0 < i \<and> i \<le> 2 ^ 256 - 1)"

definition parse_proof :: "text_env \<Rightarrow> json \<Rightarrow> doc_error + proof_entry" where
  "parse_proof T v =
    andE (object_members ''proofs'' v) (\<lambda>kvs.
    andE (check_allowed ''proofs'' [''type'', ''sha256'', ''uri''] kvs) (\<lambda>_.
    andE (check_required [''type'', ''sha256''] kvs) (\<lambda>_.
    andE (shown_string T ''proofs.type'' ''type'' kvs) (\<lambda>ty.
    andE (tested_member ''proofs.sha256'' ''sha256'' sha256_text kvs) (\<lambda>sha.
    andE (if map_of kvs ''uri'' = None then Inr [] else string_member ''proofs.uri'' ''uri'' kvs) (\<lambda>uri.
      Inr \<lparr>pe_type = ty, pe_sha256 = sha, pe_uri = uri\<rparr>))))))"

definition parse_issuance :: "text_env \<Rightarrow> members \<Rightarrow> doc_error + string \<times> string" where
  "parse_issuance T kvs =
    andE (case map_of kvs ''issuance'' of Some v \<Rightarrow> object_members ''issuance'' v | None \<Rightarrow> Inl (DocNotObject ''issuance'')) (\<lambda>iss.
    andE (check_allowed ''issuance'' [''amount'', ''unit''] iss) (\<lambda>_.
    andE (check_required [''amount''] iss) (\<lambda>_.
    andE (tested_member ''issuance.amount'' ''amount'' amount_pattern iss) (\<lambda>amount.
    andE (needE (positive_uint256 amount) (DocBad ''issuance.amount'')) (\<lambda>_.
    andE (check_required [''unit''] iss) (\<lambda>_.
    andE (shown_string T ''issuance.unit'' ''unit'' iss) (\<lambda>unit.
      Inr (amount, unit))))))))"

definition validate_metadata :: "'f float_ops \<Rightarrow> text_env \<Rightarrow> string \<Rightarrow> doc_error + metadata_doc" where
  "validate_metadata F T raw =
    andE (read_document raw) (\<lambda>v.
    andE (object_members ''metadata'' v) (\<lambda>kvs.
    andE (check_required [''platformVersion'', ''projectId'', ''recordId'', ''asset'', ''issuance'', ''createdAt''] kvs) (\<lambda>_.
    andE (check_allowed ''metadata'' [''platformVersion'', ''projectId'', ''recordId'', ''asset'', ''issuance'', ''proofs'', ''createdAt''] kvs) (\<lambda>_.
    andE (tested_member ''platformVersion'' ''platformVersion'' (\<lambda>s. s = ''1.0'') kvs) (\<lambda>version.
    andE (tested_member ''projectId'' ''projectId'' uuid_pattern kvs) (\<lambda>project.
    andE (tested_member ''recordId'' ''recordId'' record_id_pattern kvs) (\<lambda>rid.
    andE (case map_of kvs ''asset'' of Some (JObj ms) \<Rightarrow> Inr (JObj ms) | _ \<Rightarrow> Inl (DocNotObject ''asset'')) (\<lambda>asset.
    andE (parse_issuance T kvs) (\<lambda>issuance.
    andE (optional_array ''proofs'' (parse_proof T) kvs) (\<lambda>proofs.
    andE (tested_member ''createdAt'' ''createdAt'' (\<lambda>s. tn_time T s \<noteq> None) kvs) (\<lambda>created.
    andE (canonical_document F v) (\<lambda>bytes.
      Inr \<lparr>md_version = version, md_project_id = project, md_record_id = rid, md_asset = asset, md_amount = fst issuance,
           md_unit = snd issuance, md_proofs = proofs, md_created_at = created, md_canonical = bytes,
           md_digest = tn_sha T bytes\<rparr>))))))))))))"

section \<open>Nothing unprintable reaches the terminal\<close>

lemma pieces_scalar: "Rune r \<in> set (pieces s) \<Longrightarrow> scalar r"
proof (induction s rule: pieces.induct)
  case (2 c cs)
  show ?case
  proof (cases "decode_rune (c # cs) = (rune_error, 1) \<or> Rune r \<in> set (pieces (drop (snd (decode_rune (c # cs)) - 1) cs))")
    case True
    then show ?thesis using 2 by (auto simp: Let_def)
  next
    case False
    then have "r = fst (decode_rune (c # cs))" using 2(2) by (auto simp: Let_def)
    then show ?thesis using decode_valid [of "c # cs" r "snd (decode_rune (c # cs))"] False by simp
  qed
qed simp

definition plain_ascii :: "string \<Rightarrow> bool" where
  "plain_ascii s \<longleftrightarrow> (\<forall>c \<in> set s. 0x20 \<le> (of_char c :: nat) \<and> of_char c < (0x7F :: nat))"

lemma plain_ascii_simps [simp]:
  "plain_ascii []" "plain_ascii (c # s) \<longleftrightarrow> 0x20 \<le> (of_char c :: nat) \<and> of_char c < (0x7F :: nat) \<and> plain_ascii s"
  "plain_ascii (s @ t) \<longleftrightarrow> plain_ascii s \<and> plain_ascii t"
  by (auto simp: plain_ascii_def)

lemma hex_nat_plain: "plain_ascii (hex_nat w n)"
proof (induction w n rule: hex_nat.induct)
  case (1 n)
  then show ?case by (cases "n = 0") (auto simp: hex_lower_def)
next
  case (2 w n)
  then show ?case by (auto simp: hex_lower_def)
qed

text \<open>Text that is made of printable runes.\<close>

definition made_printable :: "text_env \<Rightarrow> string \<Rightarrow> bool" where
  "made_printable T s \<longleftrightarrow> (\<exists>rs. s = write_runes rs \<and> (\<forall>r \<in> set rs. scalar r \<and> printable_rune T r))"

lemma made_printable_append: "made_printable T s \<Longrightarrow> made_printable T t \<Longrightarrow> made_printable T (s @ t)"
proof -
  assume "made_printable T s" "made_printable T t"
  then obtain rs qs where "s = write_runes rs" "\<forall>r \<in> set rs. scalar r \<and> printable_rune T r"
    and "t = write_runes qs" "\<forall>r \<in> set qs. scalar r \<and> printable_rune T r" by (auto simp: made_printable_def)
  then have "s @ t = write_runes (rs @ qs)" "\<forall>r \<in> set (rs @ qs). scalar r \<and> printable_rune T r" by auto
  then show "made_printable T (s @ t)" unfolding made_printable_def by blast
qed

lemma made_printable_plain:
  assumes "\<forall>r. 0x20 \<le> r \<and> r < 0x7F \<longrightarrow> tn_print T r" and "plain_ascii s"
  shows "made_printable T s"
proof -
  have a: "ascii s" using assms(2) by (auto simp: ascii_def plain_ascii_def)
  have "s = write_runes (map of_char s)"
    using write_runes_runes(1) [OF ascii_valid [OF a]] runes_ascii [OF a] by simp
  moreover have "\<forall>r \<in> set (map of_char s). scalar r \<and> printable_rune T r"
    using assms by (auto simp: plain_ascii_def scalar_def surrogate_def printable_rune_def)
  ultimately show ?thesis unfolding made_printable_def by blast
qed

lemma made_printable_is: "made_printable T s \<Longrightarrow> is_printable T s"
proof -
  assume "made_printable T s"
  then obtain rs where rs: "s = write_runes rs" "\<forall>r \<in> set rs. scalar r \<and> printable_rune T r" by (auto simp: made_printable_def)
  then have "pieces s = map Rune rs" using runes_write [of rs] pieces_valid [of s] by simp
  then show "is_printable T s" using rs(2) by (simp add: is_printable_def list_all_iff)
qed

text \<open>
  Nothing a package contains can control the auditor's terminal. What \<^verbatim>\<open>SanitizeForTerminal\<close>
  returns is valid text of printable characters, whatever bytes it was given; printable text it leaves
  alone, and so applying it again changes nothing.
\<close>

theorem sanitized_printable:
  assumes "\<forall>r. 0x20 \<le> r \<and> r < 0x7F \<longrightarrow> tn_print T r"
  shows "is_printable T (sanitize_for_terminal T s) \<and>
    sanitize_for_terminal T (sanitize_for_terminal T s) = sanitize_for_terminal T s"
proof -
  have piece: "made_printable T (sanitize_piece T p)" if "p \<in> set (pieces s)" for p
  proof (cases p)
    case (Bad c)
    then show ?thesis using made_printable_plain [OF assms] hex_nat_plain by simp
  next
    case (Rune r)
    show ?thesis
    proof (cases "printable_rune T r")
      case True
      then have "sanitize_piece T p = write_runes [r]" "\<forall>q \<in> set [r]. scalar q \<and> printable_rune T q"
        using Rune pieces_scalar that by auto
      then show ?thesis unfolding made_printable_def by blast
    next
      case False
      then show ?thesis using Rune made_printable_plain [OF assms] hex_nat_plain by simp
    qed
  qed
  have "made_printable T (concat (map (sanitize_piece T) ps))" if "set ps \<subseteq> set (pieces s)" for ps
    using that
  proof (induction ps)
    case Nil
    show ?case by (rule made_printable_plain [OF assms]) simp
  next
    case (Cons p ps)
    then show ?case using made_printable_append piece by simp
  qed
  then have "is_printable T (concat (map (sanitize_piece T) (pieces s)))" by (intro made_printable_is) blast
  then show ?thesis by (simp add: sanitize_for_terminal_def)
qed

definition demo_text_env :: text_env where
  "demo_text_env = \<lparr>tn_print = (\<lambda>r. 0x20 \<le> r), tn_space = (\<lambda>r. r = 0x20), tn_time = (\<lambda>s. Some 0), tn_date = (\<lambda>s. True),
     tn_sha = (\<lambda>_. replicate 32 0)\<rparr>"

corollary sanitized_printable_witness:
  "sanitize_for_terminal demo_text_env [CHR 0x1B, CHR ''['', CHR ''J''] = CHR 0x5C # ''x1b[J'' \<and>
   is_printable demo_text_env (CHR 0x5C # ''x1b[J'')"
proof -
  have p: "pieces [CHR 0x1B, CHR ''['', CHR ''J''] = [Rune 0x1B, Rune 0x5B, Rune 0x4A]"
    by (subst pieces_valid) (simp_all add: ascii_valid runes_ascii)
  have c: "char_of (49 :: nat) = CHR ''1''" "char_of (98 :: nat) = CHR ''b''" "char_of (91 :: nat) = CHR ''[''" "char_of (74 :: nat) = CHR ''J''"
    by code_simp+
  have e: "sanitize_piece demo_text_env (Rune 0x1B) = CHR 0x5C # ''x1b''" "sanitize_piece demo_text_env (Rune 0x5B) = ''[''"
    "sanitize_piece demo_text_env (Rune 0x4A) = ''J''" "\<not> printable_piece demo_text_env (Rune 0x1B)"
    by (simp_all add: printable_rune_def demo_text_env_def encode_rune_def scalar_def surrogate_def numeral_2_eq_2 hex_lower_def c)
  have r: "sanitize_for_terminal demo_text_env [CHR 0x1B, CHR ''['', CHR ''J''] = CHR 0x5C # ''x1b[J''"
    unfolding sanitize_for_terminal_def is_printable_def p using e by (simp del: sanitize_piece.simps)
  have "\<forall>r. 0x20 \<le> r \<and> r < 0x7F \<longrightarrow> tn_print demo_text_env r" by (simp add: demo_text_env_def)
  from sanitized_printable [OF this, of "[CHR 0x1B, CHR ''['', CHR ''J'']"] show ?thesis unfolding r by blast
qed

end
