(* ===== verification/SignerDigest.thy ===== *)
theory SignerDigest
  imports Eip712
begin

text \<open>
  The signer's own attestation digests, signer/internal/attestation/attestation.go, and the Safe
  message hashes and combined owner signatures of safe.go. The signer computes the digests apart from
  the server, with checks instead of panics; \<open>signer_digest_agrees\<close> shows that the two agree.
\<close>

section \<open>Digests\<close>

record sg_domain =
  sd_chain_id :: "int option" \<comment> \<open>a \<^verbatim>\<open>*big.Int\<close>, \<open>None\<close> for nil\<close>
  sd_contract :: address

datatype attest_error = ChainNotPositive | ChainTooBig | NilValue | NegativeValue | ValueTooBig
  | NoSignatures | BadOwnerSignature address | SigningFailed | SignatureLength | RecoverFailed

definition sg_domain_name :: string where "sg_domain_name = ''RWA-Supply-Attestation''"
definition sg_domain_version :: string where "sg_domain_version = ''1''"

text \<open>\<^verbatim>\<open>common.LeftPadBytes(v.Bytes(), 32)\<close>; more than 32 bytes are left alone.\<close>

definition padded_int :: "int \<Rightarrow> byte list" where
  "padded_int i = left_pad 32 (nat_bytes (nat \<bar>i\<bar>))"

definition padded_address :: "address \<Rightarrow> byte list" where
  "padded_address a = left_pad 32 (address_bytes a)"

definition encode_uint256 :: "int option \<Rightarrow> attest_error + byte list" where
  "encode_uint256 v =
    (case v of None \<Rightarrow> Inl NilValue
     | Some i \<Rightarrow> if i < 0 then Inl NegativeValue else if i \<ge> 2 ^ 256 then Inl ValueTooBig else Inr (padded_int i))"

definition sg_separator :: "keccak \<Rightarrow> sg_domain \<Rightarrow> attest_error + u256" where
  "sg_separator K d =
    (case sd_chain_id d of None \<Rightarrow> Inl ChainNotPositive
     | Some c \<Rightarrow>
       if c \<le> 0 then Inl ChainNotPositive else if c \<ge> 2 ^ 256 then Inl ChainTooBig
       else Inr (K (hash_bytes (K (str_bytes domain_type_string)) @ hash_bytes (K (str_bytes sg_domain_name)) @
         hash_bytes (K (str_bytes sg_domain_version)) @ padded_int c @ padded_address (sd_contract d))))"

definition sg_mint_struct :: "keccak \<Rightarrow> mint_attestation \<Rightarrow> attest_error + u256" where
  "sg_mint_struct K m =
    (case encode_uint256 (ma_amount m) of Inl e \<Rightarrow> Inl e
     | Inr amount \<Rightarrow>
       (case encode_uint256 (ma_nonce m) of Inl e \<Rightarrow> Inl e
        | Inr nonce \<Rightarrow>
          Inr (K (hash_bytes (K (str_bytes mint_type_string)) @ padded_address (ma_auditor m) @ hash_bytes (ma_profile_digest m) @
            hash_bytes (ma_record_key m) @ hash_bytes (ma_metadata_digest m) @ amount @ nonce @
            padded_int (uint (ma_valid_until m)) @ padded_address (ma_vault m)))))"

definition sg_burn_struct :: "keccak \<Rightarrow> burn_attestation \<Rightarrow> attest_error + u256" where
  "sg_burn_struct K b =
    (case encode_uint256 (ba_amount b) of Inl e \<Rightarrow> Inl e
     | Inr amount \<Rightarrow>
       (case encode_uint256 (ba_nonce b) of Inl e \<Rightarrow> Inl e
        | Inr nonce \<Rightarrow>
          Inr (K (hash_bytes (K (str_bytes burn_type_string)) @ padded_address (ba_auditor b) @ hash_bytes (ba_profile_digest b) @
            hash_bytes (ba_operation_id b) @ hash_bytes (ba_metadata_digest b) @ amount @ nonce @
            padded_int (uint (ba_valid_until b)) @ padded_address (ba_vault b)))))"

definition sg_digest :: "keccak \<Rightarrow> u256 \<Rightarrow> u256 \<Rightarrow> u256" where
  "sg_digest K separator struct = K ([0x19, 0x01] @ hash_bytes separator @ hash_bytes struct)"

definition sg_mint_digest :: "keccak \<Rightarrow> sg_domain \<Rightarrow> mint_attestation \<Rightarrow> attest_error + u256" where
  "sg_mint_digest K d m =
    (case sg_separator K d of Inl e \<Rightarrow> Inl e
     | Inr s \<Rightarrow> (case sg_mint_struct K m of Inl e \<Rightarrow> Inl e | Inr h \<Rightarrow> Inr (sg_digest K s h)))"

definition sg_burn_digest :: "keccak \<Rightarrow> sg_domain \<Rightarrow> burn_attestation \<Rightarrow> attest_error + u256" where
  "sg_burn_digest K d b =
    (case sg_separator K d of Inl e \<Rightarrow> Inl e
     | Inr s \<Rightarrow> (case sg_burn_struct K b of Inl e \<Rightarrow> Inl e | Inr h \<Rightarrow> Inr (sg_digest K s h)))"

definition record_key :: "keccak \<Rightarrow> string \<Rightarrow> u256" where
  "record_key K rid = K (str_bytes rid)"

section \<open>Signatures\<close>

text \<open>\<open>sign\<close> is \<^verbatim>\<open>crypto.Sign\<close>: 65 bytes with a recovery id of 0 or 1 at the end.\<close>

type_synonym 'k ecsign = "u256 \<Rightarrow> 'k \<Rightarrow> byte list option"

definition sg_sign :: "'k ecsign \<Rightarrow> u256 \<Rightarrow> 'k \<Rightarrow> attest_error + byte list" where
  "sg_sign sign digest key =
    (case sign digest key of None \<Rightarrow> Inl SigningFailed | Some sig \<Rightarrow> Inr (sig[64 := sig ! 64 + 27]))"

definition sg_recover :: "ecrecover \<Rightarrow> u256 \<Rightarrow> byte list \<Rightarrow> attest_error + address" where
  "sg_recover R digest sig =
    (if length sig \<noteq> 65 then Inl SignatureLength
     else case R digest (sig[64 := normal_v (sig ! 64)]) of None \<Rightarrow> Inl RecoverFailed | Some a \<Rightarrow> Inr a)"

section \<open>Safe\<close>

definition safe_domain_type_string :: string where
  "safe_domain_type_string = ''EIP712Domain(uint256 chainId,address verifyingContract)''"

definition safe_message_type_string :: string where
  "safe_message_type_string = ''SafeMessage(bytes message)''"

definition safe_domain_separator :: "keccak \<Rightarrow> int option \<Rightarrow> address \<Rightarrow> attest_error + u256" where
  "safe_domain_separator K chain safe =
    (case chain of None \<Rightarrow> Inl ChainNotPositive
     | Some c \<Rightarrow>
       if c \<le> 0 then Inl ChainNotPositive
       else (case encode_uint256 chain of Inl e \<Rightarrow> Inl e
        | Inr w \<Rightarrow> Inr (K (hash_bytes (K (str_bytes safe_domain_type_string)) @ w @ padded_address safe))))"

definition safe_message_hash :: "keccak \<Rightarrow> int option \<Rightarrow> address \<Rightarrow> u256 \<Rightarrow> attest_error + u256" where
  "safe_message_hash K chain safe digest =
    (case safe_domain_separator K chain safe of Inl e \<Rightarrow> Inl e
     | Inr s \<Rightarrow> Inr (sg_digest K s (K (hash_bytes (K (str_bytes safe_message_type_string)) @ hash_bytes (K (hash_bytes digest))))))"

text \<open>\<^verbatim>\<open>CombineSafeSignatures\<close>: the map's owners are sorted by their bytes, which is their number.\<close>

fun join_signatures :: "(address, byte list) store \<Rightarrow> address list \<Rightarrow> attest_error + byte list" where
  "join_signatures sigs [] = Inr []"
| "join_signatures sigs (owner # owners) =
    (let sig = (case lookup sigs owner of None \<Rightarrow> [] | Some s \<Rightarrow> s) in
     if length sig \<noteq> 65 \<or> (sig ! 64 \<noteq> 27 \<and> sig ! 64 \<noteq> 28) then Inl (BadOwnerSignature owner)
     else case join_signatures sigs owners of Inl e \<Rightarrow> Inl e | Inr rest \<Rightarrow> Inr (sig @ rest))"

definition combine_safe_signatures :: "(address, byte list) store \<Rightarrow> attest_error + byte list" where
  "combine_safe_signatures sigs =
    (if sigs = [] then Inl NoSignatures else join_signatures sigs (sort (map fst sigs)))"

section \<open>The signer and the server compute the same digest\<close>

text \<open>The server's domain for the signer's: the name and version of the attestation domain are fixed.\<close>

definition server_domain :: "sg_domain \<Rightarrow> eip_domain" where
  "server_domain d =
    \<lparr>dm_name = sg_domain_name, dm_version = sg_domain_version, dm_chain_id = sd_chain_id d, dm_contract = sd_contract d\<rparr>"

definition uint256 :: "int option \<Rightarrow> bool" where
  "uint256 v \<longleftrightarrow> (\<exists>i. v = Some i \<and> 0 \<le> i \<and> i < 2 ^ 256)"

definition chain_ok :: "int option \<Rightarrow> bool" where
  "chain_ok v \<longleftrightarrow> (\<exists>i. v = Some i \<and> 0 < i \<and> i < 2 ^ 256)"

lemma nat_bytes_length:
  assumes "n < 256 ^ k"
  shows "length (nat_bytes n) \<le> k"
  using assms
proof (induction k arbitrary: n)
  case 0
  then show ?case by (simp add: nat_bytes.simps [of 0])
next
  case (Suc k)
  show ?case
  proof (cases "n = 0")
    case False
    have "n div 256 < 256 ^ k" using Suc.prems by (simp add: div_less_iff_less_mult mult.commute)
    then show ?thesis using Suc.IH False by (subst nat_bytes.simps) simp
  next
    case True
    then show ?thesis by (subst nat_bytes.simps) simp
  qed
qed

lemma uint_word_padded:
  assumes "0 \<le> i" and "i < 2 ^ 256"
  shows "uint_word (Some i) = Some (padded_int i)"
proof -
  have "nat \<bar>i\<bar> < 256 ^ 32"
  proof -
    have "(2 :: int) ^ 256 = 256 ^ 32" by simp
    then have "i < int (256 ^ 32)" using assms(2) by simp
    then show ?thesis using assms(1) by linarith
  qed
  then have "length (nat_bytes (nat \<bar>i\<bar>)) \<le> 32" by (rule nat_bytes_length)
  then show ?thesis by (simp add: uint_word_def word32_def padded_int_def big_value_def)
qed

lemma address_word_padded: "address_word a = Some (padded_address a)"
  by (simp add: address_word_def word32_def address_bytes_def padded_address_def)

lemma uint64_word_padded: "uint64_word n = Some (padded_int (uint n))"
proof -
  have "nat \<bar>uint n\<bar> = unat n" by simp
  moreover have "unat n < 256 ^ 8" using unsigned_less [of n] by simp
  then have "length (nat_bytes (unat n)) \<le> 8" by (rule nat_bytes_length)
  ultimately show ?thesis by (simp add: uint64_word_def word32_def padded_int_def)
qed

lemma encode_uint256_Inr: "encode_uint256 v = Inr w \<longleftrightarrow> uint256 v \<and> uint_word v = Some w"
  using uint_word_padded by (cases v) (auto simp: encode_uint256_def uint256_def)

lemma sg_separator_Inr: "sg_separator K d = Inr s \<longleftrightarrow> chain_ok (sd_chain_id d) \<and> domain_separator K (server_domain d) = Some s"
proof (cases "chain_ok (sd_chain_id d)")
  case True
  then obtain c where c: "sd_chain_id d = Some c" "0 < c" "c < 2 ^ 256" by (auto simp: chain_ok_def)
  then have w: "uint_word (Some c) = Some (padded_int c)" by (intro uint_word_padded) simp_all
  show ?thesis using True c w
    by (simp add: sg_separator_def domain_separator_def domain_bytes_def server_domain_def address_word_padded)
next
  case False
  then have "sg_separator K d \<noteq> Inr s" by (cases "sd_chain_id d") (auto simp: sg_separator_def chain_ok_def not_le not_less)
  then show ?thesis using False by simp
qed

lemma sg_mint_struct_Inr:
  "sg_mint_struct K m = Inr h \<longleftrightarrow> uint256 (ma_amount m) \<and> uint256 (ma_nonce m) \<and> hash_mint_attestation K m = Some h"
proof (cases "uint256 (ma_amount m) \<and> uint256 (ma_nonce m)")
  case True
  then obtain a n where an: "ma_amount m = Some a" "0 \<le> a" "a < 2 ^ 256" "ma_nonce m = Some n" "0 \<le> n" "n < 2 ^ 256"
    by (auto simp: uint256_def)
  then have "encode_uint256 (ma_amount m) = Inr (padded_int a)" "encode_uint256 (ma_nonce m) = Inr (padded_int n)"
    by (simp_all add: encode_uint256_def)
  moreover have "uint_word (ma_amount m) = Some (padded_int a)" "uint_word (ma_nonce m) = Some (padded_int n)"
    using an uint_word_padded by simp_all
  ultimately show ?thesis using True
    by (simp add: sg_mint_struct_def hash_mint_attestation_def mint_bytes_def address_word_padded uint64_word_padded bytes32_word_def)
next
  case False
  then show ?thesis using encode_uint256_Inr by (auto simp: sg_mint_struct_def split: sum.splits)
qed

lemma sg_burn_struct_Inr:
  "sg_burn_struct K b = Inr h \<longleftrightarrow> uint256 (ba_amount b) \<and> uint256 (ba_nonce b) \<and> hash_burn_attestation K b = Some h"
proof (cases "uint256 (ba_amount b) \<and> uint256 (ba_nonce b)")
  case True
  then obtain a n where an: "ba_amount b = Some a" "0 \<le> a" "a < 2 ^ 256" "ba_nonce b = Some n" "0 \<le> n" "n < 2 ^ 256"
    by (auto simp: uint256_def)
  then have "encode_uint256 (ba_amount b) = Inr (padded_int a)" "encode_uint256 (ba_nonce b) = Inr (padded_int n)"
    by (simp_all add: encode_uint256_def)
  moreover have "uint_word (ba_amount b) = Some (padded_int a)" "uint_word (ba_nonce b) = Some (padded_int n)"
    using an uint_word_padded by simp_all
  ultimately show ?thesis using True
    by (simp add: sg_burn_struct_def hash_burn_attestation_def burn_bytes_def address_word_padded uint64_word_padded bytes32_word_def)
next
  case False
  then show ?thesis using encode_uint256_Inr by (auto simp: sg_burn_struct_def split: sum.splits)
qed

lemma sg_digest_eip: "sg_digest K s h = eip_digest K s h"
  by (simp add: sg_digest_def eip_digest_def digest_bytes_def)

text \<open>
  C23: the signer and the server compute the same attestation digests. The signer's mint digest is
  defined exactly for a positive chain id and for amount and nonce within uint256, and then it is the
  digest the server computes for the same fields under the fixed domain; likewise for burns.
\<close>

theorem signer_digest_agrees:
  "(sg_mint_digest K d m = Inr x \<longleftrightarrow>
     chain_ok (sd_chain_id d) \<and> uint256 (ma_amount m) \<and> uint256 (ma_nonce m) \<and> mint_digest K (server_domain d) m = Some x) \<and>
   (sg_burn_digest K d b = Inr x \<longleftrightarrow>
     chain_ok (sd_chain_id d) \<and> uint256 (ba_amount b) \<and> uint256 (ba_nonce b) \<and> burn_digest K (server_domain d) b = Some x)"
proof
  have "sg_mint_digest K d m = Inr x \<longleftrightarrow> (\<exists>s h. sg_separator K d = Inr s \<and> sg_mint_struct K m = Inr h \<and> x = eip_digest K s h)"
    by (auto simp: sg_mint_digest_def sg_digest_eip split: sum.splits)
  moreover have "mint_digest K (server_domain d) m = Some x \<longleftrightarrow>
      (\<exists>s h. domain_separator K (server_domain d) = Some s \<and> hash_mint_attestation K m = Some h \<and> x = eip_digest K s h)"
    by (auto simp: mint_digest_def split: option.splits)
  ultimately show "sg_mint_digest K d m = Inr x \<longleftrightarrow>
     chain_ok (sd_chain_id d) \<and> uint256 (ma_amount m) \<and> uint256 (ma_nonce m) \<and> mint_digest K (server_domain d) m = Some x"
    unfolding sg_separator_Inr sg_mint_struct_Inr by blast
  have "sg_burn_digest K d b = Inr x \<longleftrightarrow> (\<exists>s h. sg_separator K d = Inr s \<and> sg_burn_struct K b = Inr h \<and> x = eip_digest K s h)"
    by (auto simp: sg_burn_digest_def sg_digest_eip split: sum.splits)
  moreover have "burn_digest K (server_domain d) b = Some x \<longleftrightarrow>
      (\<exists>s h. domain_separator K (server_domain d) = Some s \<and> hash_burn_attestation K b = Some h \<and> x = eip_digest K s h)"
    by (auto simp: burn_digest_def split: option.splits)
  ultimately show "sg_burn_digest K d b = Inr x \<longleftrightarrow>
     chain_ok (sd_chain_id d) \<and> uint256 (ba_amount b) \<and> uint256 (ba_nonce b) \<and> burn_digest K (server_domain d) b = Some x"
    unfolding sg_separator_Inr sg_burn_struct_Inr by blast
qed

section \<open>What combined signatures are\<close>

lemma join_signatures_Inr:
  assumes "join_signatures sigs owners = Inr bs"
  shows "\<exists>ss. bs = concat ss \<and> length ss = length owners \<and>
    (\<forall>i < length owners. length (ss ! i) = 65 \<and> (ss ! i ! 64 = 27 \<or> ss ! i ! 64 = 28) \<and>
      (lookup sigs (owners ! i) = Some (ss ! i) \<or> lookup sigs (owners ! i) = None \<and> ss ! i = []))"
  using assms
proof (induction owners arbitrary: bs)
  case (Cons owner owners)
  define sig where "sig = (case lookup sigs owner of None \<Rightarrow> [] | Some s \<Rightarrow> s)"
  obtain rest where r: "length sig = 65" "sig ! 64 = 27 \<or> sig ! 64 = 28" "join_signatures sigs owners = Inr rest" "bs = sig @ rest"
    using Cons.prems by (auto simp: sig_def Let_def split: if_splits sum.splits)
  obtain ss where ss: "rest = concat ss" "length ss = length owners"
    "\<forall>i < length owners. length (ss ! i) = 65 \<and> (ss ! i ! 64 = 27 \<or> ss ! i ! 64 = 28) \<and>
      (lookup sigs (owners ! i) = Some (ss ! i) \<or> lookup sigs (owners ! i) = None \<and> ss ! i = [])"
    using Cons.IH [OF r(3)] by blast
  have "lookup sigs owner = Some sig \<or> lookup sigs owner = None \<and> sig = []" by (auto simp: sig_def split: option.splits)
  then show ?case using r ss by (intro exI [of _ "sig # ss"]) (auto simp: less_Suc_eq_0_disj)
qed simp

text \<open>Owners in strictly ascending order, each with its own 65 bytes and a plain recovery id.\<close>

lemma combined_in_order:
  assumes "combine_safe_signatures sigs = Inr bs" and "distinct (map fst sigs)"
  shows "\<exists>owners ss. sorted owners \<and> distinct owners \<and> set owners = fst ` set sigs \<and> length owners = length sigs \<and>
    length ss = length owners \<and> bs = concat ss \<and>
    (\<forall>i < length owners. lookup sigs (owners ! i) = Some (ss ! i) \<and> length (ss ! i) = 65 \<and> (ss ! i ! 64 = 27 \<or> ss ! i ! 64 = 28))"
proof -
  have j: "join_signatures sigs (sort (map fst sigs)) = Inr bs" using assms(1) by (simp add: combine_safe_signatures_def split: if_splits)
  obtain ss where ss: "bs = concat ss" "length ss = length (sort (map fst sigs))"
    "\<forall>i < length (sort (map fst sigs)). length (ss ! i) = 65 \<and> (ss ! i ! 64 = 27 \<or> ss ! i ! 64 = 28) \<and>
      (lookup sigs (sort (map fst sigs) ! i) = Some (ss ! i) \<or> lookup sigs (sort (map fst sigs) ! i) = None \<and> ss ! i = [])"
    using join_signatures_Inr [OF j] by blast
  show ?thesis
    by (intro exI [of _ "sort (map fst sigs)"] exI [of _ ss]) (use ss assms(2) in force)
qed

end
