(* ===== verification/SignPolicy.thy ===== *)
theory SignPolicy
  imports Envelope SignerDigest
begin

text \<open>
  The other documents of the signer: the auditor's policy (signer/internal/policy/policy.go), the
  typed data of an attestation (cmd/signer/typeddata.go), and the results it writes
  (signer/internal/output/output.go). Decoding of JSON into structs, floats and go-ethereum's
  conversions of addresses and hashes are parameters.
\<close>

section \<open>Addresses in text\<close>

record addr_env =
  ad_is_hex :: "string \<Rightarrow> bool" \<comment> \<open>\<^verbatim>\<open>common.IsHexAddress\<close>\<close>
  ad_parse :: "string \<Rightarrow> address" \<comment> \<open>\<^verbatim>\<open>common.HexToAddress\<close>\<close>
  ad_hex :: "address \<Rightarrow> string" \<comment> \<open>\<^verbatim>\<open>Address.Hex\<close>\<close>
  ad_from_hex :: "string \<Rightarrow> byte list" \<comment> \<open>\<^verbatim>\<open>common.FromHex\<close>\<close>
  ad_hash :: "string \<Rightarrow> u256" \<comment> \<open>\<^verbatim>\<open>common.HexToHash\<close>\<close>

text \<open>\<^verbatim>\<open>0x\<close> and a number of hexadecimal digits\<close>

definition prefixed_hex :: "nat \<Rightarrow> string \<Rightarrow> bool" where
  "prefixed_hex n s \<longleftrightarrow> prefix ''0x'' s \<and> length (drop 2 s) = n \<and> list_all hex_digit_char (drop 2 s)"

section \<open>The policy\<close>

record safe =
  sf_owners :: "address list"
  sf_threshold :: int

record policy =
  pl_chain_id :: string
  pl_controller :: string
  pl_vault :: string
  pl_auditor :: string
  pl_project_id :: string
  pl_profile_digest :: string
  pl_lifetime :: gotime
  pl_safe :: "safe option"

record 'h policy_file =
  fl_chain_id :: string
  fl_controller :: string
  fl_vault :: string
  fl_auditor :: string
  fl_project_id :: string
  fl_profile_digest :: string
  fl_hours :: 'h
  fl_safe :: "(string list \<times> int) option"

record 'h policy_env =
  pv_decode :: "string \<Rightarrow> 'h policy_file option" \<comment> \<open>the strict decoder\<close>
  pv_more :: "string \<Rightarrow> bool"
  pv_negative :: "'h \<Rightarrow> bool"
  pv_positive :: "'h \<Rightarrow> bool"
  pv_duration :: "'h \<Rightarrow> gotime"

datatype policy_error = PolicyRead | PolicySyntax | PolicyTrailing | PolicyMissing string | PolicyChain | PolicyHours
  | PolicySafeAuditor | PolicyOwnerText string | PolicyOwner address | PolicyNoOwners | PolicyThreshold

definition default_lifetime :: gotime where "default_lifetime = 30 * 24 * 3600 * 10 ^ 9"

definition is_owner :: "safe \<Rightarrow> address \<Rightarrow> bool" where
  "is_owner s a = list_ex (\<lambda>o'. o' = a) (sf_owners s)"

text \<open>\<^verbatim>\<open>strings.TrimSpace(s) == ""\<close>\<close>

definition blank :: "text_env \<Rightarrow> string \<Rightarrow> bool" where
  "blank T s = list_all (\<lambda>p. case p of Rune r \<Rightarrow> tn_space T r | Bad c \<Rightarrow> False) (pieces s)"

definition required_fields :: "'h policy_file \<Rightarrow> (string \<times> string) list" where
  "required_fields f =
    [(''chainId'', fl_chain_id f), (''controller'', fl_controller f), (''vault'', fl_vault f), (''auditor'', fl_auditor f),
     (''projectId'', fl_project_id f), (''profileDigest'', fl_profile_digest f)]"

fun load_owners :: "addr_env \<Rightarrow> address list \<Rightarrow> string list \<Rightarrow> policy_error + address list" where
  "load_owners A owners [] = Inr owners"
| "load_owners A owners (raw # raws) =
    (if \<not> ad_is_hex A raw then Inl (PolicyOwnerText raw)
     else let owner = ad_parse A raw in
       if owner = 0 \<or> owner \<in> set owners then Inl (PolicyOwner owner) else load_owners A (owners @ [owner]) raws)"

definition load_safe :: "addr_env \<Rightarrow> 'h policy_file \<Rightarrow> policy_error + safe option" where
  "load_safe A f =
    (case fl_safe f of None \<Rightarrow> Inr None
     | Some (raws, threshold) \<Rightarrow>
       if \<not> ad_is_hex A (fl_auditor f) then Inl PolicySafeAuditor
       else andE (load_owners A [] raws) (\<lambda>owners.
         if owners = [] then Inl PolicyNoOwners
         else if threshold < 1 \<or> threshold > int (length owners) then Inl PolicyThreshold
         else Inr (Some \<lparr>sf_owners = owners, sf_threshold = threshold\<rparr>)))"

definition load_policy :: "'h policy_env \<Rightarrow> text_env \<Rightarrow> addr_env \<Rightarrow> string option \<Rightarrow> policy_error + policy" where
  "load_policy P T A file =
    (case file of None \<Rightarrow> Inl PolicyRead
     | Some raw \<Rightarrow>
       (case pv_decode P raw of None \<Rightarrow> Inl PolicySyntax
        | Some f \<Rightarrow>
          andE (needE (\<not> pv_more P raw) PolicyTrailing) (\<lambda>_.
          andE (case find (\<lambda>(n, v). blank T v) (required_fields f) of Some (n, v) \<Rightarrow> Inl (PolicyMissing n) | None \<Rightarrow> Inr ()) (\<lambda>_.
          andE (needE (big_set_string (fl_chain_id f) \<noteq> None) PolicyChain) (\<lambda>_.
          andE (needE (\<not> pv_negative P (fl_hours f)) PolicyHours) (\<lambda>_.
          andE (load_safe A f) (\<lambda>safe.
            Inr \<lparr>pl_chain_id = fl_chain_id f, pl_controller = fl_controller f, pl_vault = fl_vault f, pl_auditor = fl_auditor f,
                 pl_project_id = fl_project_id f, pl_profile_digest = fl_profile_digest f,
                 pl_lifetime = (if pv_positive P (fl_hours f) then pv_duration P (fl_hours f) else default_lifetime),
                 pl_safe = safe\<rparr>)))))))"

section \<open>Typed data\<close>

record typed_data =
  td_primary_type :: string
  td_name :: string
  td_version :: string
  td_chain_id :: string
  td_contract :: string
  td_auditor :: string
  td_profile_digest :: string
  td_record_id :: string
  td_record_key :: string
  td_operation_id :: string
  td_metadata_digest :: string
  td_amount :: string
  td_nonce :: string
  td_valid_until :: u64
  td_vault :: string

datatype typed_error = TypedSyntax | TypedTrailing | TypedPrimaryType | TypedName | TypedVersion | TypedChain
  | TypedHex string | TypedDecimal string | TypedMissing string | TypedForeign string

record typed_env =
  tv_decode :: "string \<Rightarrow> typed_data option"
  tv_more :: "string \<Rightarrow> bool"

definition mint_type :: string where "mint_type = ''MintAttestation''"
definition burn_type :: string where "burn_type = ''BurnAttestation''"

definition check_typed_ids :: "typed_data \<Rightarrow> typed_error + unit" where
  "check_typed_ids td =
    (if td_primary_type td = mint_type then
       (if td_record_id td = [] then Inl (TypedMissing ''recordId'')
        else if \<not> prefixed_hex 64 (td_record_key td) then Inl (TypedHex ''recordKey'')
        else if td_operation_id td \<noteq> [] then Inl (TypedForeign ''operationId'')
        else Inr ())
     else if td_primary_type td = burn_type then
       (if \<not> prefixed_hex 64 (td_operation_id td) then Inl (TypedHex ''operationId'')
        else if td_record_id td \<noteq> [] \<or> td_record_key td \<noteq> [] then Inl (TypedForeign ''recordId'')
        else Inr ())
     else Inr ())"

definition parse_typed_data :: "typed_env \<Rightarrow> string \<Rightarrow> typed_error + typed_data" where
  "parse_typed_data V raw =
    (case tv_decode V raw of None \<Rightarrow> Inl TypedSyntax
     | Some td \<Rightarrow>
       andE (needE (\<not> tv_more V raw) TypedTrailing) (\<lambda>_.
       andE (needE (td_primary_type td = mint_type \<or> td_primary_type td = burn_type) TypedPrimaryType) (\<lambda>_.
       andE (needE (td_name td = sg_domain_name) TypedName) (\<lambda>_.
       andE (needE (td_version td = sg_domain_version) TypedVersion) (\<lambda>_.
       andE (needE (big_set_string (td_chain_id td) \<noteq> None) TypedChain) (\<lambda>_.
       andE (needE (prefixed_hex 40 (td_contract td)) (TypedHex ''verifyingContract'')) (\<lambda>_.
       andE (needE (prefixed_hex 40 (td_auditor td)) (TypedHex ''auditor'')) (\<lambda>_.
       andE (needE (prefixed_hex 64 (td_profile_digest td)) (TypedHex ''profileDigest'')) (\<lambda>_.
       andE (needE (prefixed_hex 64 (td_metadata_digest td)) (TypedHex ''metadataDigest'')) (\<lambda>_.
       andE (needE (amount_pattern (td_amount td)) (TypedDecimal ''amount'')) (\<lambda>_.
       andE (needE (amount_pattern (td_nonce td)) (TypedDecimal ''nonce'')) (\<lambda>_.
       andE (needE (prefixed_hex 40 (td_vault td)) (TypedHex ''vault'')) (\<lambda>_.
       andE (check_typed_ids td) (\<lambda>_. Inr td))))))))))))))"

text \<open>\<^verbatim>\<open>hexToHash32\<close>: at most 32 bytes, right-aligned; more would be a panic.\<close>

definition hex_to_hash32 :: "addr_env \<Rightarrow> string \<Rightarrow> u256" where
  "hex_to_hash32 A s = of_nat (foldl (\<lambda>n b. n * 256 + unat b) 0 (ad_from_hex A s))"

definition typed_domain :: "addr_env \<Rightarrow> typed_data \<Rightarrow> sg_domain" where
  "typed_domain A td = \<lparr>sd_chain_id = big_set_string (td_chain_id td), sd_contract = ad_parse A (td_contract td)\<rparr>"

definition typed_mint :: "addr_env \<Rightarrow> typed_data \<Rightarrow> mint_attestation" where
  "typed_mint A td =
    \<lparr>ma_auditor = ad_parse A (td_auditor td), ma_profile_digest = hex_to_hash32 A (td_profile_digest td),
     ma_record_key = hex_to_hash32 A (td_record_key td), ma_metadata_digest = hex_to_hash32 A (td_metadata_digest td),
     ma_amount = big_set_string (td_amount td), ma_nonce = big_set_string (td_nonce td),
     ma_valid_until = td_valid_until td, ma_vault = ad_parse A (td_vault td)\<rparr>"

definition typed_burn :: "addr_env \<Rightarrow> typed_data \<Rightarrow> burn_attestation" where
  "typed_burn A td =
    \<lparr>ba_auditor = ad_parse A (td_auditor td), ba_profile_digest = hex_to_hash32 A (td_profile_digest td),
     ba_operation_id = hex_to_hash32 A (td_operation_id td), ba_metadata_digest = hex_to_hash32 A (td_metadata_digest td),
     ba_amount = big_set_string (td_amount td), ba_nonce = big_set_string (td_nonce td),
     ba_valid_until = td_valid_until td, ba_vault = ad_parse A (td_vault td)\<rparr>"

section \<open>Results and shares\<close>

record signed_result =
  rs_version :: string
  rs_auditor :: string
  rs_primary_type :: string
  rs_digest :: string
  rs_signature :: string
  rs_signed_at :: string

record signature_share =
  sh_version :: string
  sh_safe :: string
  sh_chain_id :: string
  sh_owner :: string
  sh_primary_type :: string
  sh_digest :: string
  sh_message_hash :: string
  sh_signature :: string
  sh_signed_at :: string

datatype output_error = OutputVersion | OutputAddress | OutputChain | OutputPrimaryType | OutputDigest | OutputSignature
  | OutputSignedAt | OutputRead | OutputSyntax | OutputTrailing

definition chain_id_pattern :: "string \<Rightarrow> bool" where
  "chain_id_pattern s \<longleftrightarrow> s \<noteq> [] \<and> hd s \<noteq> CHR ''0'' \<and> list_all digit_char_ok s"

definition result_signature_pattern :: "string \<Rightarrow> bool" where
  "result_signature_pattern s \<longleftrightarrow> prefix ''0x'' s \<and> drop 2 s \<noteq> [] \<and> length (drop 2 s) mod 130 = 0 \<and> list_all hex_digit_char (drop 2 s)"

definition validate_result :: "text_env \<Rightarrow> signed_result \<Rightarrow> output_error + unit" where
  "validate_result T r =
    andE (needE (rs_version r = ''1.0'') OutputVersion) (\<lambda>_.
    andE (needE (prefixed_hex 40 (rs_auditor r)) OutputAddress) (\<lambda>_.
    andE (needE (rs_primary_type r = mint_type \<or> rs_primary_type r = burn_type) OutputPrimaryType) (\<lambda>_.
    andE (needE (prefixed_hex 64 (rs_digest r)) OutputDigest) (\<lambda>_.
    andE (needE (result_signature_pattern (rs_signature r)) OutputSignature) (\<lambda>_.
      needE (tn_time T (rs_signed_at r) \<noteq> None) OutputSignedAt)))))"

definition validate_share :: "text_env \<Rightarrow> signature_share \<Rightarrow> output_error + unit" where
  "validate_share T s =
    andE (needE (sh_version s = ''1.0'') OutputVersion) (\<lambda>_.
    andE (needE (prefixed_hex 40 (sh_safe s) \<and> prefixed_hex 40 (sh_owner s)) OutputAddress) (\<lambda>_.
    andE (needE (chain_id_pattern (sh_chain_id s)) OutputChain) (\<lambda>_.
    andE (needE (sh_primary_type s = mint_type \<or> sh_primary_type s = burn_type) OutputPrimaryType) (\<lambda>_.
    andE (needE (prefixed_hex 64 (sh_digest s) \<and> prefixed_hex 64 (sh_message_hash s)) OutputDigest) (\<lambda>_.
    andE (needE (prefixed_hex 130 (sh_signature s)) OutputSignature) (\<lambda>_.
      needE (tn_time T (sh_signed_at s) \<noteq> None) OutputSignedAt))))))"

definition new_result :: "text_env \<Rightarrow> string \<Rightarrow> string \<Rightarrow> string \<Rightarrow> string \<Rightarrow> string \<Rightarrow> output_error + signed_result" where
  "new_result T now auditor primary_type digest signature =
    (let r = \<lparr>rs_version = ''1.0'', rs_auditor = auditor, rs_primary_type = primary_type, rs_digest = digest,
       rs_signature = signature, rs_signed_at = now\<rparr> in
     andE (validate_result T r) (\<lambda>_. Inr r))"

definition new_share ::
    "text_env \<Rightarrow> string \<Rightarrow> string \<Rightarrow> string \<Rightarrow> string \<Rightarrow> string \<Rightarrow> string \<Rightarrow> string \<Rightarrow> string \<Rightarrow> output_error + signature_share" where
  "new_share T now safe_text chain owner primary_type digest message_hash signature =
    (let s = \<lparr>sh_version = ''1.0'', sh_safe = safe_text, sh_chain_id = chain, sh_owner = owner, sh_primary_type = primary_type,
       sh_digest = digest, sh_message_hash = message_hash, sh_signature = signature, sh_signed_at = now\<rparr> in
     andE (validate_share T s) (\<lambda>_. Inr s))"

record share_env =
  sv_decode :: "string \<Rightarrow> signature_share option"
  sv_more :: "string \<Rightarrow> bool"

definition read_share :: "share_env \<Rightarrow> text_env \<Rightarrow> string option \<Rightarrow> output_error + signature_share" where
  "read_share S T file =
    (case file of None \<Rightarrow> Inl OutputRead
     | Some raw \<Rightarrow>
       (case sv_decode S raw of None \<Rightarrow> Inl OutputSyntax
        | Some s \<Rightarrow> andE (needE (\<not> sv_more S raw) OutputTrailing) (\<lambda>_. andE (validate_share T s) (\<lambda>_. Inr s))))"

section \<open>What a loaded policy says\<close>

lemma load_owners_Inr:
  "load_owners A owners raws = Inr owners' \<Longrightarrow> distinct owners \<Longrightarrow> 0 \<notin> set owners \<Longrightarrow> distinct owners' \<and> 0 \<notin> set owners'"
  by (induction A owners raws rule: load_owners.induct) (auto simp: Let_def split: if_splits)

text \<open>
  A policy that names a Safe is usable: its owners are distinct addresses, none of them zero, and its
  threshold lies between one and their number; the deployment values are all present.
\<close>

theorem loaded_policy_sound:
  assumes "load_policy P T A (Some raw) = Inr p"
  shows "(\<forall>v \<in> {pl_chain_id p, pl_controller p, pl_vault p, pl_auditor p, pl_project_id p, pl_profile_digest p}. \<not> blank T v) \<and>
    big_set_string (pl_chain_id p) \<noteq> None \<and>
    (case pl_safe p of None \<Rightarrow> True
     | Some s \<Rightarrow> distinct (sf_owners s) \<and> 0 \<notin> set (sf_owners s) \<and> 1 \<le> sf_threshold s \<and> sf_threshold s \<le> int (length (sf_owners s)) \<and>
       ad_is_hex A (pl_auditor p))"
proof -
  obtain f s where f: "pv_decode P raw = Some f" "find (\<lambda>(n, v). blank T v) (required_fields f) = None"
    "big_set_string (fl_chain_id f) \<noteq> None" "load_safe A f = Inr s"
    and p: "pl_chain_id p = fl_chain_id f" "pl_controller p = fl_controller f" "pl_vault p = fl_vault f" "pl_auditor p = fl_auditor f"
      "pl_project_id p = fl_project_id f" "pl_profile_digest p = fl_profile_digest f" "pl_safe p = s"
    using assms by (auto simp: load_policy_def andE_Inr split: option.splits)
  have "\<forall>(n, v) \<in> set (required_fields f). \<not> blank T v" using f(2) by (auto simp: find_None_iff)
  then have "\<forall>v \<in> {pl_chain_id p, pl_controller p, pl_vault p, pl_auditor p, pl_project_id p, pl_profile_digest p}. \<not> blank T v"
    by (simp add: required_fields_def p)
  moreover have "distinct (sf_owners x) \<and> 0 \<notin> set (sf_owners x) \<and> 1 \<le> sf_threshold x \<and> sf_threshold x \<le> int (length (sf_owners x)) \<and>
      ad_is_hex A (pl_auditor p)" if "s = Some x" for x
    using f(4) that load_owners_Inr [of A "[]"] p(4) by (auto simp: load_safe_def andE_Inr split: option.splits if_splits)
  ultimately show ?thesis using f(3) p(1,7) by (auto split: option.splits)
qed

end
