(* ===== verification/RwaPackage.thy ===== *)
theory RwaPackage
  imports GoStrings
begin

text \<open>
  Reading .rwa packages, signer/internal/package/rwapkg.go: extraction of the archive under limits, the
  manifest's rules, and the comparison of the extracted files with the manifest. The zip reader, the
  JSON decoding of the manifest's struct and SHA-256 are parameters.
\<close>

section \<open>Lexical paths\<close>

fun join_with :: "char \<Rightarrow> string list \<Rightarrow> string" where
  "join_with c [] = []"
| "join_with c [s] = s"
| "join_with c (s # t # ss) = s @ c # join_with c (t # ss)"

text \<open>\<^verbatim>\<open>path.Clean\<close>\<close>

definition clean_push :: "bool \<Rightarrow> string list \<Rightarrow> string \<Rightarrow> string list" where
  "clean_push rooted out seg =
    (if seg = [] \<or> seg = ''.'' then out
     else if seg = ''..'' then
       (if out \<noteq> [] \<and> last out \<noteq> ''..'' then butlast out else if rooted then out else out @ [seg])
     else out @ [seg])"

definition path_clean :: "string \<Rightarrow> string" where
  "path_clean p =
    (let rooted = prefix ''/'' p;
         out = foldl (clean_push rooted) [] (split_on (CHR ''/'') p) in
     if rooted then CHR ''/'' # join_with (CHR ''/'') out
     else if out = [] then ''.'' else join_with (CHR ''/'') out)"

section \<open>Extraction\<close>

record pkg_options =
  po_max_files :: int
  po_max_single :: int
  po_max_total :: int

definition default_options :: pkg_options where
  "default_options = \<lparr>po_max_files = 256, po_max_single = 67108864, po_max_total = 268435456\<rparr>"

text \<open>
  An archive entry as the zip reader shows it. Its content is the bytes that decompress, and whether
  reading past them or closing fails; \<open>None\<close> when it cannot be opened.
\<close>

record zip_content =
  zc_data :: string
  zc_error :: bool
  zc_close_error :: bool

record zip_entry =
  ze_name :: string
  ze_mode :: "32 word"
  ze_external :: "32 word"
  ze_method :: nat
  ze_content :: "zip_content option"

datatype pkg_error = NotAZip | NoEntries | TooManyEntries | Backslash string | AbsoluteName string | Traversal string
  | SymlinkEntry string | DuplicateEntry string | BadMethod string | EntryOpenFailed string | EntryReadFailed string
  | EntryCloseFailed string | SizeLimit string
  | BadManifest | TrailingManifest | PackageVersion | PrimaryType | ManifestProfileDigest | ManifestMetadataDigest
  | BadPath nat | BadSha nat | BadSize nat | NoMime nat | DuplicatePath nat | ForeignPath nat | MissingMandatory string
  | MissingFile string | SizeMismatch string | HashDiffers string | Undeclared string

definition zip_store :: nat where "zip_store = 0"
definition zip_deflate :: nat where "zip_deflate = 8"

definition is_symlink :: "zip_entry \<Rightarrow> bool" where
  "is_symlink f \<longleftrightarrow>
    Bit_Operations.and (ze_mode f) 0xF000 = 0xA000 \<or> Bit_Operations.and (drop_bit 16 (ze_external f)) 0xF000 = 0xA000"

text \<open>\<^verbatim>\<open>io.ReadAll(io.LimitReader(rc, n))\<close>\<close>

definition read_limited :: "zip_content \<Rightarrow> nat \<Rightarrow> string option" where
  "read_limited c n =
    (if n \<le> length (zc_data c) then Some (take n (zc_data c)) else if zc_error c then None else Some (zc_data c))"

type_synonym pkg_files = "(string, string) store"

definition check_name :: "string \<Rightarrow> pkg_error option" where
  "check_name name =
    (if CHR 0x5C \<in> set name then Some (Backslash name)
     else if name = [] \<or> prefix ''/'' name then Some (AbsoluteName name)
     else let cleaned = path_clean name in
       if cleaned \<noteq> name \<or> cleaned = ''..'' \<or> prefix ''../'' cleaned \<or> prefix ''/'' cleaned then Some (Traversal name)
       else None)"

text \<open>One entry: \<open>Inr None\<close> skips it.\<close>

definition extract_entry :: "pkg_options \<Rightarrow> int \<Rightarrow> pkg_files \<Rightarrow> zip_entry \<Rightarrow> pkg_error + (string \<times> string) option" where
  "extract_entry opts remaining files f =
    (case check_name (ze_name f) of Some e \<Rightarrow> Inl e
     | None \<Rightarrow>
       if has_suffix ''/'' (ze_name f) then Inr None
       else if is_symlink f then Inl (SymlinkEntry (ze_name f))
       else if lookup files (path_clean (ze_name f)) \<noteq> None then Inl (DuplicateEntry (ze_name f))
       else if ze_method f \<noteq> zip_store \<and> ze_method f \<noteq> zip_deflate then Inl (BadMethod (ze_name f))
       else
         let cap = max 0 (min remaining (po_max_single opts)) in
         (case ze_content f of None \<Rightarrow> Inl (EntryOpenFailed (ze_name f))
          | Some c \<Rightarrow>
            (case read_limited c (nat (cap + 1)) of None \<Rightarrow> Inl (EntryReadFailed (ze_name f))
             | Some data \<Rightarrow>
               if zc_close_error c then Inl (EntryCloseFailed (ze_name f))
               else if int (length data) > cap then Inl (SizeLimit (ze_name f))
               else Inr (Some (path_clean (ze_name f), data)))))"

fun extract_entries :: "pkg_options \<Rightarrow> int \<Rightarrow> pkg_files \<Rightarrow> zip_entry list \<Rightarrow> pkg_error + pkg_files" where
  "extract_entries opts remaining files [] = Inr files"
| "extract_entries opts remaining files (f # fs) =
    (case extract_entry opts remaining files f of Inl e \<Rightarrow> Inl e
     | Inr None \<Rightarrow> extract_entries opts remaining files fs
     | Inr (Some (name, data)) \<Rightarrow> extract_entries opts (remaining - int (length data)) (put name data files) fs)"

definition extract_package :: "(string \<Rightarrow> zip_entry list option) \<Rightarrow> pkg_options \<Rightarrow> string \<Rightarrow> pkg_error + pkg_files" where
  "extract_package unzip opts bytes =
    (case unzip bytes of None \<Rightarrow> Inl NotAZip
     | Some entries \<Rightarrow>
       if entries = [] then Inl NoEntries
       else if int (length entries) > po_max_files opts then Inl TooManyEntries
       else extract_entries opts (po_max_total opts) [] entries)"

section \<open>The manifest\<close>

record manifest_file =
  mf_path :: string
  mf_sha256 :: string
  mf_size :: int
  mf_mime :: string

record manifest =
  mn_version :: string
  mn_primary_type :: string
  mn_profile_digest :: string
  mn_metadata_digest :: string
  mn_files :: "manifest_file list"

text \<open>The decoder's answers (\<open>None\<close>: error or unknown field; whether more follows), and SHA-256.\<close>

record pkg_env =
  pe_manifest :: "string \<Rightarrow> manifest option"
  pe_trailing :: "string \<Rightarrow> bool"
  pe_sha :: "string \<Rightarrow> byte list"

definition path_char :: "char \<Rightarrow> bool" where
  "path_char c \<longleftrightarrow> (CHR ''A'' \<le> c \<and> c \<le> CHR ''Z'') \<or> (CHR ''a'' \<le> c \<and> c \<le> CHR ''z'') \<or> (CHR ''0'' \<le> c \<and> c \<le> CHR ''9'') \<or>
     c = CHR ''.'' \<or> c = CHR ''_'' \<or> c = CHR ''/'' \<or> c = CHR ''-''"

definition path_pattern :: "string \<Rightarrow> bool" where
  "path_pattern s \<longleftrightarrow> 1 \<le> length s \<and> length s \<le> 255 \<and> list_all path_char s"

definition lower_hex_char :: "char \<Rightarrow> bool" where
  "lower_hex_char c \<longleftrightarrow> (CHR ''0'' \<le> c \<and> c \<le> CHR ''9'') \<or> (CHR ''a'' \<le> c \<and> c \<le> CHR ''f'')"

definition sha256_pattern :: "string \<Rightarrow> bool" where
  "sha256_pattern s \<longleftrightarrow> length s = 64 \<and> list_all lower_hex_char s"

definition hex_digest_pattern :: "string \<Rightarrow> bool" where
  "hex_digest_pattern s \<longleftrightarrow> prefix ''0x'' s \<and> sha256_pattern (drop 2 s)"

definition mandatory_files :: "string list" where
  "mandatory_files = [''profile.json'', ''metadata.json'', ''typed-data.json'']"

definition proofs_prefix :: string where "proofs_prefix = ''proofs/''"

fun check_manifest_files :: "nat \<Rightarrow> string list \<Rightarrow> manifest_file list \<Rightarrow> pkg_error option" where
  "check_manifest_files i seen [] = None"
| "check_manifest_files i seen (f # fs) =
    (if \<not> path_pattern (mf_path f) then Some (BadPath i)
     else if \<not> sha256_pattern (mf_sha256 f) then Some (BadSha i)
     else if mf_size f < 0 \<or> mf_size f > 104857600 then Some (BadSize i)
     else if mf_mime f = [] then Some (NoMime i)
     else if mf_path f \<in> set seen then Some (DuplicatePath i)
     else if mf_path f \<notin> set mandatory_files \<and> \<not> prefix proofs_prefix (mf_path f) then Some (ForeignPath i)
     else check_manifest_files (Suc i) (mf_path f # seen) fs)"

definition parse_manifest :: "pkg_env \<Rightarrow> string \<Rightarrow> pkg_error + manifest" where
  "parse_manifest E raw =
    (case pe_manifest E raw of None \<Rightarrow> Inl BadManifest
     | Some m \<Rightarrow>
       if pe_trailing E raw then Inl TrailingManifest
       else if mn_version m \<noteq> ''1.0'' then Inl PackageVersion
       else if mn_primary_type m \<noteq> ''MintAttestation'' \<and> mn_primary_type m \<noteq> ''BurnAttestation'' then Inl PrimaryType
       else if \<not> hex_digest_pattern (mn_profile_digest m) then Inl ManifestProfileDigest
       else if \<not> hex_digest_pattern (mn_metadata_digest m) then Inl ManifestMetadataDigest
       else (case check_manifest_files 0 [] (mn_files m) of Some e \<Rightarrow> Inl e
        | None \<Rightarrow>
          (case find (\<lambda>p. p \<notin> mf_path ` set (mn_files m)) mandatory_files of
             Some p \<Rightarrow> Inl (MissingMandatory p) | None \<Rightarrow> Inr m)))"

fun verify_declared :: "pkg_env \<Rightarrow> pkg_files \<Rightarrow> manifest_file list \<Rightarrow> pkg_error option" where
  "verify_declared E files [] = None"
| "verify_declared E files (f # fs) =
    (case lookup files (mf_path f) of None \<Rightarrow> Some (MissingFile (mf_path f))
     | Some data \<Rightarrow>
       if int (length data) \<noteq> mf_size f then Some (SizeMismatch (mf_path f))
       else if hex_bytes (pe_sha E data) \<noteq> mf_sha256 f then Some (HashDiffers (mf_path f))
       else verify_declared E files fs)"

definition verify_files :: "pkg_env \<Rightarrow> manifest \<Rightarrow> pkg_files \<Rightarrow> pkg_error option" where
  "verify_files E m files =
    (case verify_declared E files (mn_files m) of Some e \<Rightarrow> Some e
     | None \<Rightarrow>
       (case find (\<lambda>p. p \<notin> mf_path ` set (mn_files m)) (map fst files) of
          Some p \<Rightarrow> Some (Undeclared p) | None \<Rightarrow> None))"

section \<open>Clean names do not leave the directory\<close>

lemma split_on_segments: "seg \<in> set (split_on c s) \<Longrightarrow> c \<notin> set seg"
  by (induction s arbitrary: seg) (auto split: list.splits if_splits)

lemma split_join: "ss \<noteq> [] \<Longrightarrow> \<forall>s \<in> set ss. c \<notin> set s \<Longrightarrow> split_on c (join_with c ss) = ss"
  by (induction c ss rule: join_with.induct) (auto simp: split_on_free split_on_append)

definition clean_out :: "string list \<Rightarrow> bool" where
  "clean_out out \<longleftrightarrow> (\<forall>s \<in> set out. s \<noteq> [] \<and> s \<noteq> ''.'' \<and> CHR ''/'' \<notin> set s) \<and>
     (\<exists>k ds. out = replicate k ''..'' @ ds \<and> ''..'' \<notin> set ds)"

lemma clean_outI:
  "out = replicate k ''..'' @ ds \<Longrightarrow> ''..'' \<notin> set ds \<Longrightarrow>
    (\<And>s. s \<in> set out \<Longrightarrow> s \<noteq> [] \<and> s \<noteq> ''.'' \<and> CHR ''/'' \<notin> set s) \<Longrightarrow> clean_out out"
  unfolding clean_out_def by blast

lemma clean_push_out:
  assumes "clean_out out" and "CHR ''/'' \<notin> set seg"
  shows "clean_out (clean_push rooted out seg)"
proof -
  obtain k ds where out: "out = replicate k ''..'' @ ds" "''..'' \<notin> set ds"
    and segs: "\<forall>s \<in> set out. s \<noteq> [] \<and> s \<noteq> ''.'' \<and> CHR ''/'' \<notin> set s"
    using assms(1) by (auto simp: clean_out_def)
  consider "seg = [] \<or> seg = ''.''" | "seg = ''..''" "out \<noteq> []" "last out \<noteq> ''..''"
    | "seg = ''..''" "out = [] \<or> last out = ''..''" | "seg \<noteq> []" "seg \<noteq> ''.''" "seg \<noteq> ''..''" by blast
  then show ?thesis
  proof cases
    case 1
    then show ?thesis using assms(1) by (simp add: clean_push_def)
  next
    case 2
    then have "ds \<noteq> []" using out(1) by (cases k) (auto simp: last_append split: if_splits)
    then have "butlast out = replicate k ''..'' @ butlast ds" using out(1) by (simp add: butlast_append)
    moreover have "''..'' \<notin> set (butlast ds)" using out(2) by (rule contrapos_nn) (rule in_set_butlastD)
    ultimately have "clean_out (butlast out)" by (rule clean_outI) (rule bspec [OF segs], rule in_set_butlastD)
    then show ?thesis using 2 by (simp add: clean_push_def)
  next
    case 3
    have "ds = []"
    proof (cases ds rule: rev_cases)
      case (snoc ys y)
      then show ?thesis using out 3(2) by simp
    qed
    then have all: "out @ [seg] = replicate (Suc k) ''..'' @ []" using out(1) 3(1) by (simp add: replicate_append_same)
    have each: "s \<noteq> [] \<and> s \<noteq> ''.'' \<and> CHR ''/'' \<notin> set s" if "s \<in> set (out @ [seg])" for s
      using that segs 3(1) by (cases "s \<in> set out") simp_all
    have "clean_out (out @ [seg])" by (rule clean_outI [OF all _ each]) simp_all
    then show ?thesis using 3 assms(1) by (cases "out = []"; cases rooted) (simp_all add: clean_push_def)
  next
    case 4
    have "out @ [seg] = replicate k ''..'' @ (ds @ [seg])" "''..'' \<notin> set (ds @ [seg])" using out 4 by auto
    moreover have "s \<noteq> [] \<and> s \<noteq> ''.'' \<and> CHR ''/'' \<notin> set s" if "s \<in> set (out @ [seg])" for s
      using that segs 4 assms(2) by (cases "s \<in> set out") simp_all
    ultimately have "clean_out (out @ [seg])" by (intro clean_outI [where ds = "ds @ [seg]"]) simp_all
    then show ?thesis using 4 by (simp add: clean_push_def)
  qed
qed

lemma clean_foldl: "clean_out out \<Longrightarrow> \<forall>s \<in> set segs. CHR ''/'' \<notin> set s \<Longrightarrow> clean_out (foldl (clean_push rooted) out segs)"
  by (induction segs arbitrary: out) (auto intro: clean_push_out)

text \<open>A name that stays below the directory it is written to.\<close>

definition safe_name :: "string \<Rightarrow> bool" where
  "safe_name n \<longleftrightarrow> CHR 0x5C \<notin> set n \<and>
     (n = ''.'' \<or> (\<forall>seg \<in> set (split_on (CHR ''/'') n). seg \<noteq> [] \<and> seg \<noteq> ''.'' \<and> seg \<noteq> ''..''))"

lemma check_name_safe:
  assumes "check_name name = None"
  shows "safe_name name \<and> path_clean name = name"
proof -
  have n: "CHR 0x5C \<notin> set name" "name \<noteq> []" "\<not> prefix ''/'' name" "path_clean name = name"
    "name \<noteq> ''..''" "\<not> prefix ''../'' name"
    using assms by (auto simp: check_name_def Let_def split: if_splits)
  define out where "out = foldl (clean_push False) [] (split_on (CHR ''/'') name)"
  have clean: "clean_out out"
    unfolding out_def by (rule clean_foldl) (auto simp: clean_out_def dest: split_on_segments)
  have name: "name = (if out = [] then ''.'' else join_with (CHR ''/'') out)"
    using n(3,4) unfolding path_clean_def out_def Let_def by (simp split: if_splits)
  show ?thesis
  proof (cases "out = []")
    case True
    then show ?thesis using n name by (simp add: safe_name_def)
  next
    case False
    obtain k ds where ds: "out = replicate k ''..'' @ ds" "''..'' \<notin> set ds" using clean by (auto simp: clean_out_def)
    have split: "split_on (CHR ''/'') name = out" using split_join [OF False] clean name False by (simp add: clean_out_def)
    have "k = 0"
    proof (rule ccontr)
      assume "k \<noteq> 0"
      then obtain rest where "out = ''..'' # rest" using ds(1) by (cases k) auto
      then have "name = ''..'' \<or> prefix ''../'' name" using name by (cases rest) auto
      then show False using n by blast
    qed
    then show ?thesis using n split ds clean by (auto simp: safe_name_def clean_out_def)
  qed
qed

lemma extract_entry_some:
  assumes "extract_entry opts remaining files f = Inr (Some (name, data))"
  shows "safe_name name \<and> name = ze_name f \<and> lookup files name = None \<and> \<not> is_symlink f \<and>
    int (length data) \<le> max 0 (min remaining (po_max_single opts))"
proof -
  have n: "check_name (ze_name f) = None" using assms by (auto simp: extract_entry_def split: option.splits)
  show ?thesis
    using assms check_name_safe [OF n] n by (auto simp: extract_entry_def Let_def split: if_splits option.splits)
qed

lemma extract_entries_ok:
  assumes "extract_entries opts remaining files fs = Inr files'"
    and "distinct (map fst files)" and "\<forall>(n, d) \<in> set files. safe_name n \<and> int (length d) \<le> max 0 (po_max_single opts)"
    and "sum_list (map (\<lambda>(n, d). int (length d)) files) + remaining = most" and "0 \<le> remaining"
  shows "distinct (map fst files') \<and> (\<forall>(n, d) \<in> set files'. safe_name n \<and> int (length d) \<le> max 0 (po_max_single opts)) \<and>
    sum_list (map (\<lambda>(n, d). int (length d)) files') \<le> most \<and> set (map fst files') \<subseteq> set (map fst files) \<union> ze_name ` set fs"
  using assms
proof (induction fs arbitrary: files remaining)
  case (Cons f fs)
  show ?case
  proof (cases "extract_entry opts remaining files f")
    case (Inr r)
    show ?thesis
    proof (cases r)
      case None
      then show ?thesis using Cons.IH [of remaining files] Cons.prems Inr by auto
    next
      case (Some nd)
      obtain name data where nd: "nd = (name, data)" by fastforce
      note e = extract_entry_some [OF Inr [unfolded Some nd]]
      have fresh: "name \<notin> fst ` set files" using e [THEN conjunct2, THEN conjunct2, THEN conjunct1] by (simp add: map_of_eq_None_iff)
      have bound: "int (length data) \<le> max 0 (po_max_single opts)" "int (length data) \<le> remaining"
        and name: "safe_name name" "ze_name f = name"
        using e Cons.prems(5) by auto
      have new: "put name data files = files @ [(name, data)]"
      proof -
        show ?thesis using fresh by (induction files) auto
      qed
      have "extract_entries opts (remaining - int (length data)) (files @ [(name, data)]) fs = Inr files'"
        using Cons.prems(1) Inr Some nd new by simp
      then show ?thesis
        using fresh Cons.IH [of "remaining - int (length data)" "files @ [(name, data)]"] Cons.prems(2-5) bound name by auto
    qed
  qed (use Cons.prems in simp)
qed auto

text \<open>
  C21: what extraction returns is safe to handle. No name leaves the directory, by an absolute path,
  a parent segment or a backslash; names are distinct and those of the archive's entries; each file and all
  of them together stay within the limits, by the bytes read and not by what headers declare.
\<close>

theorem extraction_safe:
  assumes "extract_package unzip opts bytes = Inr files" and "0 \<le> po_max_single opts" and "0 \<le> po_max_total opts"
  shows "distinct (map fst files) \<and> (\<forall>(n, d) \<in> set files. safe_name n \<and> int (length d) \<le> po_max_single opts) \<and>
    sum_list (map (\<lambda>(n, d). int (length d)) files) \<le> po_max_total opts \<and>
    (\<exists>entries. unzip bytes = Some entries \<and> int (length entries) \<le> po_max_files opts \<and> fst ` set files \<subseteq> ze_name ` set entries)"
proof -
  obtain entries where e: "unzip bytes = Some entries" "int (length entries) \<le> po_max_files opts"
    "extract_entries opts (po_max_total opts) [] entries = Inr files"
    using assms(1) by (auto simp: extract_package_def split: option.splits if_splits)
  from extract_entries_ok [OF e(3), of "po_max_total opts"] assms(2,3) e(1,2) show ?thesis by auto
qed

definition demo_entry :: zip_entry where
  "demo_entry = \<lparr>ze_name = ''proofs/a'', ze_mode = 0, ze_external = 0, ze_method = 8,
     ze_content = Some \<lparr>zc_data = ''abc'', zc_error = False, zc_close_error = False\<rparr>\<rparr>"

corollary extraction_safe_witness:
  "extract_package (\<lambda>_. Some [demo_entry]) default_options ''z'' = Inr [(''proofs/a'', ''abc'')] \<and> safe_name ''proofs/a''"
proof -
  have "check_name ''proofs/a'' = None"
    by (simp add: check_name_def path_clean_def clean_push_def Let_def)
  then have run: "extract_package (\<lambda>_. Some [demo_entry]) default_options ''z'' = Inr [(''proofs/a'', ''abc'')]"
    by (simp add: extract_package_def default_options_def extract_entry_def demo_entry_def has_suffix_def suffix_def is_symlink_def
        zip_store_def zip_deflate_def read_limited_def path_clean_def clean_push_def Let_def)
  have "\<forall>(n, d) \<in> set [(''proofs/a'', ''abc'')]. safe_name n"
    using extraction_safe [OF run] by (simp only: default_options_def) force
  then have "safe_name ''proofs/a''" by simp
  then show ?thesis using run by blast
qed

section \<open>Verified packages\<close>

lemma check_manifest_files_None:
  "check_manifest_files i seen fs = None \<Longrightarrow>
    (\<forall>f \<in> set fs. path_pattern (mf_path f) \<and> sha256_pattern (mf_sha256 f) \<and> 0 \<le> mf_size f \<and> mf_size f \<le> 104857600 \<and>
      (mf_path f \<in> set mandatory_files \<or> prefix proofs_prefix (mf_path f))) \<and>
    distinct (map mf_path fs) \<and> set (map mf_path fs) \<inter> set seen = {}"
  by (induction i seen fs rule: check_manifest_files.induct) (auto split: if_splits)

lemma verify_declared_None:
  "verify_declared E files fs = None \<longleftrightarrow>
    (\<forall>f \<in> set fs. \<exists>data. lookup files (mf_path f) = Some data \<and> int (length data) = mf_size f \<and> hex_bytes (pe_sha E data) = mf_sha256 f)"
  by (induction fs) (auto split: option.splits if_splits)

text \<open>
  C22: a verified package is exactly its manifest. If the manifest parses and the extracted files verify
  against it, the files are those declared, no more and no fewer, each with the declared size and
  SHA-256; they include the three documents, and every other file lies under proofs/.
\<close>

theorem verified_package_exact:
  assumes "parse_manifest E raw = Inr m" and "verify_files E m files = None"
  shows "fst ` set files = mf_path ` set (mn_files m) \<and> distinct (map mf_path (mn_files m)) \<and>
    set mandatory_files \<subseteq> fst ` set files \<and> (\<forall>p \<in> fst ` set files. p \<in> set mandatory_files \<or> prefix proofs_prefix p) \<and>
    (\<forall>f \<in> set (mn_files m). \<exists>data. lookup files (mf_path f) = Some data \<and> int (length data) = mf_size f \<and>
      hex_bytes (pe_sha E data) = mf_sha256 f)"
proof -
  have checked: "check_manifest_files 0 [] (mn_files m) = None" and
    mandatory: "find (\<lambda>p. p \<notin> mf_path ` set (mn_files m)) mandatory_files = None"
    using assms(1) by (auto simp: parse_manifest_def split: option.splits if_splits)
  have declared: "verify_declared E files (mn_files m) = None" and
    extra: "find (\<lambda>p. p \<notin> mf_path ` set (mn_files m)) (map fst files) = None"
    using assms(2) by (auto simp: verify_files_def split: option.splits)
  have sub: "fst ` set files \<subseteq> mf_path ` set (mn_files m)" using extra by (auto simp: find_None_iff)
  have "p \<in> fst ` set files" if "p \<in> mf_path ` set (mn_files m)" for p
    using declared that unfolding verify_declared_None by (metis imageE map_of_SomeD image_eqI fst_conv)
  then have eq: "fst ` set files = mf_path ` set (mn_files m)" using sub by blast
  moreover have "set mandatory_files \<subseteq> mf_path ` set (mn_files m)" using mandatory by (auto simp: find_None_iff)
  moreover have "\<forall>p \<in> mf_path ` set (mn_files m). p \<in> set mandatory_files \<or> prefix proofs_prefix p"
    and "distinct (map mf_path (mn_files m))"
    using check_manifest_files_None [OF checked] by auto
  ultimately show ?thesis using declared unfolding verify_declared_None by simp
qed

definition demo_manifest_file :: "string \<Rightarrow> manifest_file" where
  "demo_manifest_file p = \<lparr>mf_path = p, mf_sha256 = replicate 64 (CHR ''0''), mf_size = 1, mf_mime = ''m''\<rparr>"

definition demo_manifest :: manifest where
  "demo_manifest = \<lparr>mn_version = ''1.0'', mn_primary_type = ''MintAttestation'', mn_profile_digest = ''0x'' @ replicate 64 (CHR ''0''),
     mn_metadata_digest = ''0x'' @ replicate 64 (CHR ''0''), mn_files = map demo_manifest_file mandatory_files\<rparr>"

definition demo_pkg_env :: pkg_env where
  "demo_pkg_env = \<lparr>pe_manifest = (\<lambda>_. Some demo_manifest), pe_trailing = (\<lambda>_. False), pe_sha = (\<lambda>_. replicate 32 0)\<rparr>"

corollary verified_package_exact_witness:
  "parse_manifest demo_pkg_env [] = Inr demo_manifest \<and> verify_files demo_pkg_env demo_manifest (map (\<lambda>p. (p, ''d'')) mandatory_files) = None \<and>
   distinct (map mf_path (mn_files demo_manifest))"
proof -
  have zeros: "hex_bytes (replicate 32 0) = replicate 64 (CHR ''0'')" by code_simp
  have m: "parse_manifest demo_pkg_env [] = Inr demo_manifest" by code_simp
  have v: "verify_files demo_pkg_env demo_manifest (map (\<lambda>p. (p, ''d'')) mandatory_files) = None"
    by (simp add: verify_files_def demo_pkg_env_def demo_manifest_def mandatory_files_def demo_manifest_file_def zeros)
  show ?thesis using verified_package_exact [OF m v] m v by blast
qed

end
