(* ===== verification/SignerLog.thy ===== *)
theory SignerLog
  imports GoStrings
begin

text \<open>
  The signer's audit log and unlock throttle, signer/internal/keystore/auditlog.go and throttle.go:
  a file of hash-chained JSON lines, a second file of anchors, appending with every way a write can
  fail, and verification against the latest anchor. An append runs under the lock of
  \<^verbatim>\<open>acquireAuditLock\<close>, so it is one step on the two files. Verification takes no lock; it is modelled
  on files that do not change while it reads them. The throttle's operations are those of a state file that
  can be written; what the program does when it cannot is in theory SignerMain.
\<close>

section \<open>Events and their lines\<close>

text \<open>A \<^verbatim>\<open>map[string]string\<close> is the list of its members in the order of their keys, as \<^verbatim>\<open>json.Marshal\<close> writes them.\<close>

record audit_event =
  ev_seq :: int
  ev_time :: string
  ev_event :: string
  ev_fields :: "(string \<times> string) list"
  ev_prev :: string
  ev_hash :: string

record anchor_entry =
  an_seq :: int
  an_hash :: string
  an_time :: string

definition json_key :: "string \<Rightarrow> string" where
  "json_key k = CHR 0x22 # k @ [CHR 0x22, CHR '':'']"

fun json_members :: "(string \<times> string) list \<Rightarrow> string" where
  "json_members [] = []"
| "json_members [(k, v)] = go_quote k @ CHR '':'' # go_quote v"
| "json_members ((k, v) # kvs) = go_quote k @ CHR '':'' # go_quote v @ CHR '','' # json_members kvs"

text \<open>\<^verbatim>\<open>json.Marshal\<close> of the two structs\<close>

definition event_line :: "audit_event \<Rightarrow> string" where
  "event_line e =
    CHR ''{'' # json_key ''seq'' @ big_string (ev_seq e) @ CHR '','' # json_key ''time'' @ go_quote (ev_time e) @
    CHR '','' # json_key ''event'' @ go_quote (ev_event e) @
    (if ev_fields e = [] then [] else CHR '','' # json_key ''fields'' @ CHR ''{'' # json_members (ev_fields e) @ [CHR ''}'']) @
    CHR '','' # json_key ''prevHash'' @ go_quote (ev_prev e) @ CHR '','' # json_key ''hash'' @ go_quote (ev_hash e) @ [CHR ''}'']"

definition anchor_line :: "anchor_entry \<Rightarrow> string" where
  "anchor_line a =
    CHR ''{'' # json_key ''seq'' @ big_string (an_seq a) @ CHR '','' # json_key ''hash'' @ go_quote (an_hash a) @
    CHR '','' # json_key ''time'' @ go_quote (an_time a) @ [CHR ''}'']"

text \<open>Parameters: \<^verbatim>\<open>json.Unmarshal\<close> into the two structs, and SHA-256 in hexadecimal.\<close>

record log_env =
  le_event :: "string \<Rightarrow> audit_event option"
  le_anchor :: "string \<Rightarrow> anchor_entry option"
  le_sha :: "string \<Rightarrow> string"

definition unhashed :: "audit_event \<Rightarrow> audit_event" where
  "unhashed e = e\<lparr>ev_hash := []\<rparr>"

definition hash_event :: "log_env \<Rightarrow> audit_event \<Rightarrow> string" where
  "hash_event C e = le_sha C (event_line (unhashed e))"

section \<open>The two files\<close>

record log_files =
  kf_main :: "string option" \<comment> \<open>\<open>None\<close>: the file does not exist\<close>
  kf_anchor :: "string option"

datatype log_error = LockFailed | ReadFailed | BadLine nat | BrokenLink nat | OutOfOrder nat | HashMismatch nat
  | MainWriteFailed | AnchorWriteFailed | AnchorCorrupted | Truncated int int | BadAnchoredLine int | Rewritten int | IndexPanic int

definition read_lines :: "string option \<Rightarrow> string list" where
  "read_lines file =
    (case file of None \<Rightarrow> []
     | Some data \<Rightarrow> let d = trim_right newline data in if d = [] then [] else split_on newline d)"

text \<open>\<^verbatim>\<open>verifyChain\<close>; \<open>i\<close> is the line's number.\<close>

fun chain_from :: "log_env \<Rightarrow> nat \<Rightarrow> int \<Rightarrow> string \<Rightarrow> string list \<Rightarrow> log_error + int \<times> string" where
  "chain_from C i seq prev [] = Inr (seq, prev)"
| "chain_from C i seq prev (line # ls) =
    (case le_event C line of None \<Rightarrow> Inl (BadLine i)
     | Some e \<Rightarrow>
       if ev_prev e \<noteq> prev then Inl (BrokenLink i)
       else if ev_seq e \<noteq> seq + 1 then Inl (OutOfOrder i)
       else if ev_hash e \<noteq> hash_event C e then Inl (HashMismatch i)
       else chain_from C (Suc i) (ev_seq e) (ev_hash e) ls)"

definition verify_chain :: "log_env \<Rightarrow> string list \<Rightarrow> log_error + int \<times> string" where
  "verify_chain C ls = chain_from C 1 0 [] ls"

text \<open>
  How an append ends: done, not opened, cut off after some bytes, or written but not synced. The
  caller is told of every outcome but the first.
\<close>

datatype write_outcome = WriteOk | OpenFails | WriteFails nat | SyncFails

definition append_durable :: "write_outcome \<Rightarrow> string \<Rightarrow> string option \<Rightarrow> bool \<times> string option" where
  "append_durable w line file =
    (let old = (case file of None \<Rightarrow> [] | Some d \<Rightarrow> d) in
     case w of
       WriteOk \<Rightarrow> (True, Some (old @ line))
     | OpenFails \<Rightarrow> (False, file)
     | WriteFails n \<Rightarrow> (False, Some (old @ take n line))
     | SyncFails \<Rightarrow> (False, Some (old @ line)))"

record log_faults =
  lx_lock :: bool \<comment> \<open>the lock was not acquired\<close>
  lx_read :: bool \<comment> \<open>the main log could not be read\<close>
  lx_main :: write_outcome
  lx_anchor :: write_outcome

definition no_log_faults :: log_faults where
  "no_log_faults = \<lparr>lx_lock = False, lx_read = False, lx_main = WriteOk, lx_anchor = WriteOk\<rparr>"

definition new_event :: "log_env \<Rightarrow> int \<Rightarrow> string \<Rightarrow> string \<Rightarrow> string \<Rightarrow> (string \<times> string) list \<Rightarrow> audit_event" where
  "new_event C seq prev now event attrs =
    (let e = \<lparr>ev_seq = seq + 1, ev_time = now, ev_event = event, ev_fields = attrs, ev_prev = prev, ev_hash = []\<rparr> in
     e\<lparr>ev_hash := hash_event C e\<rparr>)"

definition anchor_of :: "audit_event \<Rightarrow> anchor_entry" where
  "anchor_of e = \<lparr>an_seq = ev_seq e, an_hash = ev_hash e, an_time = ev_time e\<rparr>"

text \<open>\<^verbatim>\<open>AppendAuditEventTo\<close>\<close>

definition append_audit_event ::
    "log_env \<Rightarrow> log_faults \<Rightarrow> string \<Rightarrow> string \<Rightarrow> (string \<times> string) list \<Rightarrow> log_files \<Rightarrow> log_error option \<times> log_files" where
  "append_audit_event C F now event attrs files =
    (if lx_lock F then (Some LockFailed, files)
     else if lx_read F then (Some ReadFailed, files)
     else case verify_chain C (read_lines (kf_main files)) of
       Inl err \<Rightarrow> (Some err, files)
     | Inr (seq, hash) \<Rightarrow>
       let e = new_event C seq hash now event attrs in
       let (ok, main) = append_durable (lx_main F) (event_line e @ [newline]) (kf_main files) in
       if \<not> ok then (Some MainWriteFailed, files\<lparr>kf_main := main\<rparr>)
       else
         let (ok', anchor) = append_durable (lx_anchor F) (anchor_line (anchor_of e) @ [newline]) (kf_anchor files) in
         (if ok' then None else Some AnchorWriteFailed, files\<lparr>kf_main := main, kf_anchor := anchor\<rparr>))"

text \<open>\<^verbatim>\<open>VerifyAuditLog\<close> and \<^verbatim>\<open>VerifyAuditLogAnchored\<close>; \<open>None\<close> is success.\<close>

definition verify_audit_log :: "log_env \<Rightarrow> log_files \<Rightarrow> log_error option" where
  "verify_audit_log C files = (case verify_chain C (read_lines (kf_main files)) of Inl e \<Rightarrow> Some e | Inr _ \<Rightarrow> None)"

definition check_anchor :: "log_env \<Rightarrow> anchor_entry \<Rightarrow> string list \<Rightarrow> log_error option" where
  "check_anchor C a ls =
    (if int (length ls) < an_seq a then Some (Truncated (int (length ls)) (an_seq a))
     else if an_seq a - 1 < 0 then Some (IndexPanic (an_seq a - 1))
     else case le_event C (ls ! nat (an_seq a - 1)) of
       None \<Rightarrow> Some (BadAnchoredLine (an_seq a))
     | Some e \<Rightarrow> if ev_hash e \<noteq> an_hash a then Some (Rewritten (an_seq a)) else None)"

definition verify_audit_log_anchored :: "log_env \<Rightarrow> log_files \<Rightarrow> log_error option" where
  "verify_audit_log_anchored C files =
    (case verify_audit_log C files of Some e \<Rightarrow> Some e
     | None \<Rightarrow>
       let as = read_lines (kf_anchor files) in
       if as = [] then None
       else (case le_anchor C (last as) of
         None \<Rightarrow> Some AnchorCorrupted
       | Some a \<Rightarrow> check_anchor C a (read_lines (kf_main files))))"

section \<open>Verified logs as lists of events\<close>

fun chained :: "log_env \<Rightarrow> int \<Rightarrow> string \<Rightarrow> audit_event list \<Rightarrow> bool" where
  "chained C seq prev [] \<longleftrightarrow> True"
| "chained C seq prev (e # es) \<longleftrightarrow>
    ev_prev e = prev \<and> ev_seq e = seq + 1 \<and> ev_hash e = hash_event C e \<and> chained C (ev_seq e) (ev_hash e) es"

definition last_hash :: "string \<Rightarrow> audit_event list \<Rightarrow> string" where
  "last_hash prev es = (if es = [] then prev else ev_hash (last es))"

lemma chained_append:
  "chained C seq prev (es @ fs) \<longleftrightarrow> chained C seq prev es \<and> chained C (seq + int (length es)) (last_hash prev es) fs"
proof (induction es arbitrary: seq prev)
  case (Cons e es)
  have "last_hash (ev_hash e) es = last_hash prev (e # es)" by (simp add: last_hash_def)
  then show ?case using Cons by (auto simp: algebra_simps)
qed (simp add: last_hash_def)

lemma chain_from_chained:
  "chain_from C i seq prev ls = Inr (n, h) \<longleftrightarrow>
    (\<exists>es. map (le_event C) ls = map Some es \<and> chained C seq prev es \<and> n = seq + int (length es) \<and> h = last_hash prev es)"
proof (induction ls arbitrary: i seq prev)
  case Nil
  show ?case by (auto simp: last_hash_def)
next
  case (Cons line ls)
  show ?case
  proof (cases "le_event C line")
    case (Some e)
    have "(\<exists>es. map (le_event C) (line # ls) = map Some es \<and> chained C seq prev es \<and> n = seq + int (length es) \<and> h = last_hash prev es) \<longleftrightarrow>
      (\<exists>es. map (le_event C) ls = map Some es \<and> chained C seq prev (e # es) \<and> n = seq + int (length (e # es)) \<and> h = last_hash prev (e # es))"
      using Some by (auto simp: Cons_eq_map_conv)
    moreover have "last_hash prev (e # es) = last_hash (ev_hash e) es" for es by (simp add: last_hash_def)
    ultimately show ?thesis using Some Cons.IH [of "Suc i" "ev_seq e" "ev_hash e"] by (auto simp: algebra_simps)
  qed (auto simp: Cons_eq_map_conv)
qed

lemma verify_chain_chained:
  "verify_chain C ls = Inr (n, h) \<longleftrightarrow>
    (\<exists>es. map (le_event C) ls = map Some es \<and> chained C 0 [] es \<and> n = int (length es) \<and> h = last_hash [] es)"
  unfolding verify_chain_def chain_from_chained by simp

lemma verified_log:
  assumes "verify_audit_log C files = None"
  obtains es where "map (le_event C) (read_lines (kf_main files)) = map Some es" "chained C 0 [] es"
  using assms verify_chain_chained by (auto simp: verify_audit_log_def split: sum.splits)

section \<open>Tampering is found\<close>

text \<open>What is hashed on the way to a chain's hashes.\<close>

definition hashed_lines :: "audit_event list \<Rightarrow> string set" where
  "hashed_lines es = (\<lambda>e. event_line (unhashed e)) ` set es"

definition reads_back :: "log_env \<Rightarrow> audit_event list \<Rightarrow> bool" where
  "reads_back C es \<longleftrightarrow> (\<forall>e \<in> set es. le_event C (event_line (unhashed e)) = Some (unhashed e))"

lemma unhashed_eq: "unhashed e = unhashed e' \<Longrightarrow> ev_hash e = ev_hash e' \<Longrightarrow> e = (e' :: audit_event)"
  by (cases e, cases e') (simp add: unhashed_def)

text \<open>Two chains of the same length that end in the same hash are the same chain.\<close>

lemma chained_unique:
  assumes "length es = length fs" and "chained C 0 [] es" and "chained C 0 [] fs" and "last_hash [] es = last_hash [] fs"
    and "inj_on (le_sha C) (hashed_lines es \<union> hashed_lines fs)" and "reads_back C es" and "reads_back C fs"
  shows "es = fs"
  using assms
proof (induction es arbitrary: fs rule: rev_induct)
  case (snoc e es)
  obtain gs f where fs: "fs = gs @ [f]" "length gs = length es"
    using snoc.prems(1) by (cases fs rule: rev_cases) auto
  have e: "ev_hash e = hash_event C e" "ev_prev e = last_hash [] es"
    and f: "ev_hash f = hash_event C f" "ev_prev f = last_hash [] gs"
    using snoc.prems(2,3) fs by (auto simp: chained_append)
  have h: "ev_hash e = ev_hash f" using snoc.prems(4) fs by (simp add: last_hash_def)
  have "event_line (unhashed e) = event_line (unhashed f)"
  proof (rule inj_onD [OF snoc.prems(5)])
    show "le_sha C (event_line (unhashed e)) = le_sha C (event_line (unhashed f))"
      using h e(1) f(1) by (simp only: hash_event_def)
  qed (simp_all add: hashed_lines_def fs)
  moreover have "le_event C (event_line (unhashed e)) = Some (unhashed e)" "le_event C (event_line (unhashed f)) = Some (unhashed f)"
    using snoc.prems(6,7) fs by (auto simp: reads_back_def)
  ultimately have u: "unhashed e = unhashed f" by (metis option.inject)
  then have ef: "e = f" by (rule unhashed_eq) (rule h)
  have "es = gs"
  proof (rule snoc.IH)
    show "length es = length gs" using fs by simp
    show "chained C 0 [] es" "chained C 0 [] gs" using snoc.prems(2,3) fs by (auto simp: chained_append)
    show "last_hash [] es = last_hash [] gs" using e(2) f(2) ef by simp
    show "inj_on (le_sha C) (hashed_lines es \<union> hashed_lines gs)"
      by (rule inj_on_subset [OF snoc.prems(5)]) (auto simp: hashed_lines_def fs)
    show "reads_back C es" "reads_back C gs" using snoc.prems(6,7) fs by (auto simp: reads_back_def)
  qed
  then show ?case using ef fs by simp
qed simp

lemma check_anchor_None:
  assumes "check_anchor C a ls = None"
  obtains e where "0 < an_seq a" "an_seq a \<le> int (length ls)" "le_event C (ls ! nat (an_seq a - 1)) = Some e" "ev_hash e = an_hash a"
  using assms by (auto simp: check_anchor_def split: if_splits option.splits)

text \<open>
  C19: the anchor seals the log's history. If the anchored verification passes and the latest anchor
  was taken of a history of events, the log still begins with exactly these events: none was changed,
  removed, reordered or inserted among them, unless SHA-256 collides on the lines hashed.
\<close>

theorem anchored_history_intact:
  assumes "verify_audit_log_anchored C files = None"
    and "read_lines (kf_anchor files) \<noteq> []" and "le_anchor C (last (read_lines (kf_anchor files))) = Some a"
    and "an_seq a = int (length es)" and "an_hash a = last_hash [] es" and "chained C 0 [] es"
    and "map (le_event C) (read_lines (kf_main files)) = map Some now"
    and "inj_on (le_sha C) (hashed_lines es \<union> hashed_lines now)" and "reads_back C es" and "reads_back C now"
  shows "take (length es) now = es"
proof -
  have ok: "verify_audit_log C files = None" and anchor: "check_anchor C a (read_lines (kf_main files)) = None"
    using assms(1-3) by (auto simp: verify_audit_log_anchored_def Let_def split: option.splits)
  obtain fs where fs: "map (le_event C) (read_lines (kf_main files)) = map Some fs" "chained C 0 [] fs"
    using verified_log [OF ok] .
  have "fs = now"
    by (rule map_injective [of Some]) (use fs(1) assms(7) in simp_all)
  then have now: "chained C 0 [] now" using fs(2) by simp
  have len: "length (read_lines (kf_main files)) = length now" using assms(7) by (metis length_map)
  obtain e where e: "0 < an_seq a" "an_seq a \<le> int (length now)"
    "le_event C (read_lines (kf_main files) ! nat (an_seq a - 1)) = Some e" "ev_hash e = an_hash a"
    using check_anchor_None [OF anchor] len by metis
  define k where "k = length es"
  have k: "0 < k" "k \<le> length now" "nat (an_seq a - 1) = k - 1" using e(1,2) assms(4) by (simp_all add: k_def)
  have "map (le_event C) (read_lines (kf_main files)) ! (k - 1) = map Some now ! (k - 1)" using assms(7) by simp
  then have at: "now ! (k - 1) = e" using e(3) k len by simp
  have "last (take k now) = now ! (k - 1)" using k by (subst last_conv_nth) auto
  then have "last_hash [] (take k now) = ev_hash e" using k at by (auto simp: last_hash_def)
  moreover have "last_hash [] es = ev_hash e" using e(4) assms(5) by simp
  moreover have "chained C 0 [] (take k now @ drop k now)" using now by simp
  then have "chained C 0 [] (take k now)" unfolding chained_append by blast
  ultimately have "es = take k now"
  proof -
    assume a: "last_hash [] (take k now) = ev_hash e" "last_hash [] es = ev_hash e" "chained C 0 [] (take k now)"
    show ?thesis
    proof (rule chained_unique [OF _ assms(6) a(3)])
      show "length es = length (take k now)" using k by (simp add: k_def)
      show "last_hash [] es = last_hash [] (take k now)" using a by simp
      show "inj_on (le_sha C) (hashed_lines es \<union> hashed_lines (take k now))"
        by (rule inj_on_subset [OF assms(8)]) (auto simp: hashed_lines_def dest: in_set_takeD)
      show "reads_back C es" by (rule assms(9))
      show "reads_back C (take k now)" using assms(10) by (auto simp: reads_back_def dest: in_set_takeD)
    qed
  qed
  then show ?thesis by (simp add: k_def)
qed

section \<open>Appending\<close>

lemma json_members_no_newline: "newline \<notin> set (json_members kvs)"
  by (induction kvs rule: json_members.induct) (auto simp: go_quote_no_newline newline_def [symmetric], auto simp: newline_def)

lemma big_string_no_newline: "newline \<notin> set (big_string i)"
proof -
  have d: "newline \<notin> set (nat_digits n)" for n
  proof (induction n rule: nat_digits.induct)
    case (1 n)
    have "newline \<noteq> digit_char m" if "m < 10" for m
    proof
      assume "newline = digit_char m"
      then have "char_digit newline = Some m" using char_digit_digit_char [OF that] by simp
      then show False by (simp add: newline_def char_digit_def)
    qed
    then show ?case using 1 by (subst nat_digits.simps) auto
  qed
  then show ?thesis by (auto simp: big_string_def newline_def)
qed

lemma event_line_plain: "plain_line (event_line e)"
proof -
  have "newline \<notin> set [CHR ''{'', CHR '','', CHR ''}'']" by (simp add: newline_def)
  moreover have "newline \<notin> set (json_key ''seq'')" "newline \<notin> set (json_key ''time'')" "newline \<notin> set (json_key ''event'')"
    "newline \<notin> set (json_key ''fields'')" "newline \<notin> set (json_key ''prevHash'')" "newline \<notin> set (json_key ''hash'')"
    by (simp_all add: json_key_def newline_def)
  ultimately show ?thesis
    using go_quote_no_newline json_members_no_newline big_string_no_newline by (auto simp: plain_line_def event_line_def)
qed

lemma anchor_line_plain: "plain_line (anchor_line a)"
proof -
  have "newline \<notin> set [CHR ''{'', CHR '','', CHR ''}'']" by (simp add: newline_def)
  moreover have "newline \<notin> set (json_key ''seq'')" "newline \<notin> set (json_key ''time'')" "newline \<notin> set (json_key ''hash'')"
    by (simp_all add: json_key_def newline_def)
  ultimately show ?thesis using go_quote_no_newline big_string_no_newline by (auto simp: plain_line_def anchor_line_def)
qed

lemma read_lines_file_of:
  assumes "\<forall>l \<in> set ls. plain_line l"
  shows "read_lines (Some (file_of ls)) = ls"
proof (cases ls rule: rev_cases)
  case Nil
  then show ?thesis by (simp add: read_lines_def trim_right_def)
next
  case (snoc ls' l)
  then have "file_of ls' @ l \<noteq> []" using assms by (auto simp: plain_line_def)
  then show ?thesis using assms snoc trim_file_of [of ls' l] split_file_of [of ls' l] by (simp add: read_lines_def)
qed

text \<open>A file that an interrupted append has not damaged: absent, or whole lines.\<close>

definition whole :: "string option \<Rightarrow> string list \<Rightarrow> bool" where
  "whole file ls \<longleftrightarrow> (\<forall>l \<in> set ls. plain_line l) \<and> (file = Some (file_of ls) \<or> file = None \<and> ls = [])"

lemma whole_lines: "whole file ls \<Longrightarrow> read_lines file = ls"
  unfolding whole_def using read_lines_file_of by (auto simp: read_lines_def)

lemma whole_append: "whole file ls \<Longrightarrow> plain_line l \<Longrightarrow> append_durable WriteOk (l @ [newline]) file = (True, Some (file_of (ls @ [l])))"
  by (auto simp: whole_def append_durable_def)

lemma new_event_simps [simp]:
  "ev_seq (new_event C n h now event attrs) = n + 1" "ev_prev (new_event C n h now event attrs) = h"
  "ev_event (new_event C n h now event attrs) = event" "ev_fields (new_event C n h now event attrs) = attrs"
  "ev_time (new_event C n h now event attrs) = now"
  by (simp_all add: new_event_def Let_def)

lemma new_event_hash: "ev_hash (new_event C n h now event attrs) = hash_event C (new_event C n h now event attrs)"
  by (simp add: new_event_def Let_def hash_event_def unhashed_def)

lemma append_durable_prefix:
  assumes "append_durable w line file = (ok, file')"
  shows "\<exists>p. prefix p line \<and> (file' = file \<and> p = [] \<or> file' = Some ((case file of None \<Rightarrow> [] | Some d \<Rightarrow> d) @ p)) \<and>
    (ok \<longrightarrow> p = line)"
proof (cases w)
  case WriteOk
  then show ?thesis using assms by (auto simp: append_durable_def Let_def)
next
  case OpenFails
  then show ?thesis using assms by (intro exI [of _ "[]"]) (auto simp: append_durable_def Let_def)
next
  case (WriteFails n)
  then show ?thesis using assms take_is_prefix [of n line] by (auto simp: append_durable_def Let_def)
next
  case SyncFails
  then show ?thesis using assms by (auto simp: append_durable_def Let_def)
qed

text \<open>
  C20: appending to an undamaged, verified log. Success leaves both files whole, with one more event
  as asked for and its anchor, and the anchored verification passes. However the writes fail, the
  main log is what it was followed by a part of the one new line, so no recorded event is lost.
\<close>

theorem append_keeps_log:
  assumes "whole (kf_main files) ls" and "whole (kf_anchor files) as" and "verify_chain C ls = Inr (n, h)"
    and "append_audit_event C F now event attrs files = (res, files')"
    and "le_event C (event_line (new_event C n h now event attrs)) = Some (new_event C n h now event attrs)"
    and "le_anchor C (anchor_line (anchor_of (new_event C n h now event attrs))) = Some (anchor_of (new_event C n h now event attrs))"
  shows "case res of
      None \<Rightarrow> kf_main files' = Some (file_of (ls @ [event_line (new_event C n h now event attrs)])) \<and>
        kf_anchor files' = Some (file_of (as @ [anchor_line (anchor_of (new_event C n h now event attrs))])) \<and>
        verify_audit_log_anchored C files' = None
    | Some _ \<Rightarrow> \<exists>p. prefix p (event_line (new_event C n h now event attrs) @ [newline]) \<and>
        (kf_main files' = kf_main files \<or> kf_main files' = Some (file_of ls @ p))"
proof -
  define e where "e = new_event C n h now event attrs"
  have lines: "read_lines (kf_main files) = ls" by (rule whole_lines [OF assms(1)])
  have old: "(case kf_main files of None \<Rightarrow> [] | Some d \<Rightarrow> d) = file_of ls" using assms(1) by (auto simp: whole_def)
  show ?thesis
  proof (cases res)
    case None
    then have w: "lx_main F = WriteOk" "lx_anchor F = WriteOk"
      using assms(3,4) lines
      by (auto simp: append_audit_event_def append_durable_def Let_def split: if_splits sum.splits write_outcome.splits)
    then have main: "kf_main files' = Some (file_of (ls @ [event_line e]))"
      and anchor: "kf_anchor files' = Some (file_of (as @ [anchor_line (anchor_of e)]))"
      using assms(3,4) None lines whole_append [OF assms(1) event_line_plain, of e] whole_append [OF assms(2) anchor_line_plain, of "anchor_of e"]
      by (auto simp: append_audit_event_def e_def Let_def split: if_splits)
    have plain: "\<forall>l \<in> set (ls @ [event_line e]). plain_line l" "\<forall>l \<in> set (as @ [anchor_line (anchor_of e)]). plain_line l"
      using assms(1,2) event_line_plain anchor_line_plain by (auto simp: whole_def)
    have rl: "read_lines (kf_main files') = ls @ [event_line e]" "read_lines (kf_anchor files') = as @ [anchor_line (anchor_of e)]"
      unfolding main anchor by (rule read_lines_file_of [OF plain(1)], rule read_lines_file_of [OF plain(2)])
    obtain es where es: "map (le_event C) ls = map Some es" "chained C 0 [] es" "n = int (length es)" "h = last_hash [] es"
      using assms(3) unfolding verify_chain_chained by blast
    have "chained C 0 [] (es @ [e])" using es new_event_hash [of C n h now event attrs] by (simp add: chained_append e_def)
    then have "verify_chain C (ls @ [event_line e]) = Inr (n + 1, ev_hash e)"
      unfolding verify_chain_chained using es assms(5) by (intro exI [of _ "es @ [e]"]) (simp add: last_hash_def e_def)
    moreover have "length ls = length es" using es(1) by (metis length_map)
    then have "check_anchor C (anchor_of e) (ls @ [event_line e]) = None"
      using assms(5) es(3) by (simp add: check_anchor_def anchor_of_def nth_append e_def)
    ultimately have "verify_audit_log_anchored C files' = None"
      using assms(6) by (simp add: verify_audit_log_anchored_def verify_audit_log_def rl e_def)
    then show ?thesis using None main anchor by (simp add: e_def)
  next
    case (Some err)
    obtain ok1 main where m: "append_durable (lx_main F) (event_line e @ [newline]) (kf_main files) = (ok1, main)" by fastforce
    obtain p where p: "prefix p (event_line e @ [newline])" "main = kf_main files \<or> main = Some (file_of ls @ p)"
      using append_durable_prefix [OF m] old by auto
    have "kf_main files' = kf_main files \<or> kf_main files' = main"
      using assms(3,4) lines m
      by (auto simp: append_audit_event_def e_def Let_def split: if_splits bool.splits prod.splits)
    then show ?thesis using Some p by (auto simp: e_def)
  qed
qed

section \<open>What breaks a log\<close>

text \<open>
  \<^verbatim>\<open>json.Marshal\<close> writes an invalid byte as the escape of U+FFFD but the character U+FFFD itself raw,
  so an event with an invalid byte in a string does not hash to the same value after it was read back.
  An unlock failure of a keystore whose path is not valid UTF-8 records such an event, after which
  the log never verifies again: every later append and every signature is refused.
\<close>

definition invalid_event :: audit_event where
  "invalid_event = \<lparr>ev_seq = 1, ev_time = [], ev_event = ''unlock_failure'',
     ev_fields = [(''reason'', [CHR 0xFF])], ev_prev = [], ev_hash = []\<rparr>"

definition coerced_event :: "string \<Rightarrow> audit_event" where
  "coerced_event h = \<lparr>ev_seq = 1, ev_time = [], ev_event = ''unlock_failure'',
     ev_fields = [(''reason'', coerce [CHR 0xFF])], ev_prev = [], ev_hash = h\<rparr>"

lemma replacement_bytes: "encode_rune rune_error = [CHR 0xEF, CHR 0xBF, CHR 0xBD]"
proof -
  have "char_of (0xEF :: nat) = CHR 0xEF" "char_of (0xBF :: nat) = CHR 0xBF" "char_of (0xBD :: nat) = CHR 0xBD" by code_simp+
  then show ?thesis by (simp add: encode_rune_def scalar_def surrogate_def rune_error_def)
qed

lemma coerce_invalid: "coerce [CHR 0xFF] = [CHR 0xEF, CHR 0xBF, CHR 0xBD]"
  by (simp add: coerce_def runes.simps(2) decode_rune_def write_runes_def replacement_bytes)

lemma quote_invalid: "go_quote [CHR 0xFF] = CHR 0x22 # unicode_literal rune_error @ [CHR 0x22]"
  by (simp add: go_quote_def decode_rune_def Let_def)

lemma quote_replacement: "go_quote [CHR 0xEF, CHR 0xBF, CHR 0xBD] = [CHR 0x22, CHR 0xEF, CHR 0xBF, CHR 0xBD, CHR 0x22]"
proof -
  have d: "decode_rune [CHR 0xEF, CHR 0xBF, CHR 0xBD] = (0xFFFD, 3)"
    by (simp add: decode_rune_def Let_def byte_between_def cont_bits_def)
  then show ?thesis using replacement_bytes by (simp add: go_quote_def d Let_def rune_error_def)
qed

lemma invalid_line_differs: "event_line invalid_event \<noteq> event_line (unhashed (coerced_event h))"
  by (simp add: event_line_def invalid_event_def coerced_event_def unhashed_def coerce_invalid quote_invalid quote_replacement
      unicode_literal_def)

lemma invalid_byte_breaks_log:
  assumes "append_audit_event C no_log_faults [] ''unlock_failure'' [(''reason'', [CHR 0xFF])] \<lparr>kf_main = None, kf_anchor = None\<rparr> = (res, files)"
    and "le_event C (event_line (invalid_event\<lparr>ev_hash := hash_event C invalid_event\<rparr>)) = Some (coerced_event (hash_event C invalid_event))"
    and "inj_on (le_sha C) {event_line invalid_event, event_line (unhashed (coerced_event (hash_event C invalid_event)))}"
  shows "res = None \<and> verify_audit_log C files = Some (HashMismatch 1)"
proof -
  define e where "e = invalid_event\<lparr>ev_hash := hash_event C invalid_event\<rparr>"
  have e: "new_event C 0 [] [] ''unlock_failure'' [(''reason'', [CHR 0xFF])] = e"
    by (simp add: new_event_def e_def invalid_event_def Let_def)
  have empty: "read_lines None = []" by (simp add: read_lines_def)
  have run: "res = None \<and> kf_main files = Some (file_of [event_line e])"
    using assms(1) by (auto simp: append_audit_event_def no_log_faults_def empty verify_chain_def append_durable_def e Let_def)
  have lines: "read_lines (kf_main files) = [event_line e]"
    using run read_lines_file_of [of "[event_line e]"] event_line_plain by auto
  have "hash_event C (coerced_event (hash_event C invalid_event)) \<noteq> hash_event C invalid_event"
  proof
    assume "hash_event C (coerced_event (hash_event C invalid_event)) = hash_event C invalid_event"
    then have "le_sha C (event_line invalid_event) = le_sha C (event_line (unhashed (coerced_event (hash_event C invalid_event))))"
      by (simp add: hash_event_def unhashed_def invalid_event_def)
    from inj_onD [OF assms(3) this] show False using invalid_line_differs by blast
  qed
  then have "verify_chain C [event_line e] = Inl (HashMismatch 1)"
    using assms(2) by (simp add: verify_chain_def e_def coerced_event_def)
  then show ?thesis using run lines by (simp add: verify_audit_log_def)
qed

text \<open>
  An anchor line without a sequence number, \<^verbatim>\<open>{}\<close>, is read as number 0: the verification then
  indexes the main log at -1 and panics instead of reporting a corrupted anchor.
\<close>

lemma anchor_zero_panics:
  assumes "verify_audit_log C files = None" and "read_lines (kf_anchor files) = [line]"
    and "le_anchor C line = Some \<lparr>an_seq = 0, an_hash = [], an_time = []\<rparr>"
  shows "verify_audit_log_anchored C files = Some (IndexPanic (- 1))"
  using assms by (simp add: verify_audit_log_anchored_def check_anchor_def)

text \<open>
  A last line that lost only its newline still verifies, and the next append writes its event on the
  same line: the append reports success on a log that no longer verifies.
\<close>

lemma append_glues_lines:
  assumes "plain_line l" and "verify_chain C [l] = Inr (n, h)" and "le_event C (l @ event_line (new_event C n h now event attrs)) = None"
    and "append_audit_event C no_log_faults now event attrs \<lparr>kf_main = Some l, kf_anchor = None\<rparr> = (res, files)"
  shows "res = None \<and> verify_audit_log C files = Some (BadLine 1)"
proof -
  have nl: "newline \<notin> set l" "l \<noteq> []" using assms(1) by (auto simp: plain_line_def)
  obtain l' c where l: "l = l' @ [c]" by (cases l rule: rev_cases) (use nl in auto)
  have "c \<noteq> newline" using nl l by auto
  then have "trim_right newline l = l" by (simp add: trim_right_def l)
  then have rl: "read_lines (Some l) = [l]" using nl by (simp add: read_lines_def split_on_free)
  let ?e = "event_line (new_event C n h now event attrs)"
  have run: "res = None \<and> kf_main files = Some (file_of [l @ ?e])"
    using assms(2,4) by (auto simp: append_audit_event_def no_log_faults_def rl append_durable_def Let_def)
  have "plain_line (l @ ?e)" using nl event_line_plain [of "new_event C n h now event attrs"] by (auto simp: plain_line_def)
  then have "read_lines (kf_main files) = [l @ ?e]" using run read_lines_file_of [of "[l @ ?e]"] by auto
  then show ?thesis using run assms(3) by (simp add: verify_audit_log_def verify_chain_def)
qed

section \<open>Unlock throttle\<close>

text \<open>The state file: absent or unreadable, malformed, or a state. Times are nanoseconds.\<close>

record throttle_state =
  ts_failures :: int
  ts_locked_until :: int \<comment> \<open>Unix seconds\<close>

datatype throttle_file = NoThrottle | BadThrottle | Throttle throttle_state

definition throttle_free_attempts :: int where "throttle_free_attempts = 3"
definition throttle_base :: gotime where "throttle_base = 5 * 10 ^ 9"
definition throttle_max :: gotime where "throttle_max = 3600 * 10 ^ 9"
definition throttle_max_shift :: int where "throttle_max_shift = 20"

definition clock_seconds :: "gotime \<Rightarrow> int" where
  "clock_seconds t = t div 10 ^ 9"

definition int64_wrap :: "int \<Rightarrow> int" where
  "int64_wrap i = (i + 2 ^ 63) mod 2 ^ 64 - 2 ^ 63"

definition load_throttle_state :: "gotime \<Rightarrow> throttle_file \<Rightarrow> throttle_state" where
  "load_throttle_state now f =
    (case f of
       NoThrottle \<Rightarrow> \<lparr>ts_failures = 0, ts_locked_until = 0\<rparr>
     | BadThrottle \<Rightarrow> \<lparr>ts_failures = throttle_free_attempts + 1, ts_locked_until = clock_seconds (now + throttle_base)\<rparr>
     | Throttle s \<Rightarrow> s)"

text \<open>Whether an unlock may be attempted\<close>

definition check_throttle :: "gotime \<Rightarrow> throttle_file \<Rightarrow> bool" where
  "check_throttle now f =
    (let s = load_throttle_state now f in \<not> (ts_locked_until s > 0 \<and> now < ts_locked_until s * 10 ^ 9))"

definition backoff_of :: "int \<Rightarrow> gotime" where
  "backoff_of failures =
    (let shift = min (failures - throttle_free_attempts - 1) throttle_max_shift;
         backoff = throttle_base * 2 ^ nat shift in
     if backoff \<le> 0 \<or> backoff > throttle_max then throttle_max else backoff)"

definition record_unlock_failure :: "gotime \<Rightarrow> throttle_file \<Rightarrow> throttle_file" where
  "record_unlock_failure now f =
    (let s = load_throttle_state now f;
         failures = int64_wrap (ts_failures s + 1) in
     Throttle (if failures > throttle_free_attempts
       then s\<lparr>ts_failures := failures, ts_locked_until := clock_seconds (now + backoff_of failures)\<rparr>
       else s\<lparr>ts_failures := failures\<rparr>))"

definition record_unlock_success :: "throttle_file \<Rightarrow> throttle_file" where
  "record_unlock_success f = NoThrottle"

text \<open>The state after failures at the given times, latest first.\<close>

fun after_failures :: "gotime list \<Rightarrow> throttle_file" where
  "after_failures [] = NoThrottle"
| "after_failures (t # ts) = record_unlock_failure t (after_failures ts)"

lemma backoff_bounds: "throttle_base \<le> backoff_of n \<and> backoff_of n \<le> throttle_max"
proof -
  have "throttle_base * 1 \<le> throttle_base * 2 ^ nat s" for s
    by (rule mult_left_mono) (simp_all add: throttle_base_def)
  then show ?thesis by (auto simp: backoff_of_def Let_def throttle_base_def throttle_max_def)
qed

lemma after_failures_count:
  assumes "int (length ts) < 2 ^ 63"
  shows "\<exists>s. load_throttle_state now (after_failures ts) = s \<and> ts_failures s = int (length ts) \<and>
    (\<forall>t us. ts = t # us \<longrightarrow> int (length ts) > throttle_free_attempts \<longrightarrow>
      ts_locked_until s = clock_seconds (t + backoff_of (int (length ts))))"
  using assms
proof (induction ts arbitrary: now)
  case Nil
  show ?case by (simp add: load_throttle_state_def)
next
  case (Cons t ts)
  then have c: "ts_failures (load_throttle_state t (after_failures ts)) = int (length ts)" by auto
  have "int64_wrap (int (length ts) + 1) = int (length ts) + 1"
    using Cons.prems by (simp add: int64_wrap_def)
  then have "ts_failures (load_throttle_state now (after_failures (t # ts))) = int (length (t # ts)) \<and>
      (int (length (t # ts)) > throttle_free_attempts \<longrightarrow>
        ts_locked_until (load_throttle_state now (after_failures (t # ts))) = clock_seconds (t + backoff_of (int (length (t # ts)))))"
    using c by (simp add: record_unlock_failure_def load_throttle_state_def [of now] Let_def algebra_simps)
  then show ?case by auto
qed

lemma after_failures_free: "length ts \<le> 3 \<Longrightarrow> ts_locked_until (load_throttle_state now (after_failures ts)) = 0"
proof (induction ts arbitrary: now)
  case (Cons t ts)
  then have "ts_failures (load_throttle_state t (after_failures ts)) = int (length ts)"
    using after_failures_count [of ts t] by auto
  moreover have "int64_wrap (int (length ts) + 1) = int (length ts) + 1" using Cons.prems by (simp add: int64_wrap_def)
  ultimately show ?case
    using Cons by (simp add: record_unlock_failure_def load_throttle_state_def [of now] Let_def throttle_free_attempts_def)
qed (simp add: load_throttle_state_def)

text \<open>Five seconds, doubled with every failure beyond the fourth, and at most an hour.\<close>

lemma backoff_doubles:
  assumes "3 < n"
  shows "backoff_of (int n) = min (3600 * 10 ^ 9) (5 * 10 ^ 9 * 2 ^ (n - 4))"
proof (cases "n - 4 \<le> 20")
  case True
  then have "nat (min (int n - 3 - 1) 20) = n - 4" using assms by simp
  moreover have "0 < (5 :: int) * 10 ^ 9 * 2 ^ (n - 4)" by simp
  ultimately show ?thesis
    by (simp add: backoff_of_def Let_def throttle_free_attempts_def throttle_max_shift_def throttle_base_def throttle_max_def min_def)
next
  case False
  then have "nat (min (int n - 3 - 1) 20) = 20" by simp
  then have "backoff_of (int n) = 3600 * 10 ^ 9"
    by (simp add: backoff_of_def Let_def throttle_free_attempts_def throttle_max_shift_def throttle_base_def throttle_max_def)
  moreover have "(2 :: int) ^ 20 \<le> 2 ^ (n - 4)" using False by (intro power_increasing) simp_all
  ultimately show ?thesis by simp
qed



section \<open>A concrete log\<close>

text \<open>A hash of the length, enough for lines of distinct lengths, and parsers that know the lines.\<close>

definition demo_sha :: "string \<Rightarrow> string" where
  "demo_sha s = big_string (int (length s))"

definition demo_event :: audit_event where
  "demo_event = \<lparr>ev_seq = 1, ev_time = ''t'', ev_event = ''signed'', ev_fields = [], ev_prev = [],
     ev_hash = demo_sha (event_line \<lparr>ev_seq = 1, ev_time = ''t'', ev_event = ''signed'', ev_fields = [], ev_prev = [], ev_hash = []\<rparr>)\<rparr>"

definition demo_log_env :: log_env where
  "demo_log_env = \<lparr>le_event = (\<lambda>l. if l = event_line demo_event then Some demo_event
       else if l = event_line (unhashed demo_event) then Some (unhashed demo_event) else None),
     le_anchor = (\<lambda>l. if l = anchor_line (anchor_of demo_event) then Some (anchor_of demo_event) else None), le_sha = demo_sha\<rparr>"

lemma demo_new_event: "new_event demo_log_env 0 [] ''t'' ''signed'' [] = demo_event"
  by (simp add: new_event_def demo_event_def hash_event_def unhashed_def demo_log_env_def Let_def)

lemma demo_event_read: "le_event demo_log_env (event_line demo_event) = Some demo_event"
  by (simp add: demo_log_env_def)

lemma big_string_ne: "big_string i \<noteq> []"
  by (auto simp: big_string_def)

lemma demo_unhashed_read: "le_event demo_log_env (event_line (unhashed demo_event)) = Some (unhashed demo_event)"
proof -
  have "go_quote (ev_hash demo_event) \<noteq> go_quote []"
  proof -
    have "pieces s \<noteq> []" if "s \<noteq> []" for s using that by (cases s) (simp_all add: Let_def)
    moreover have "encode_rune r \<noteq> []" for r using encode_rune_ne [of r] by auto
    then have "quote_piece p \<noteq> []" for p by (cases p) (auto simp: unicode_literal_def)
    moreover have "ev_hash demo_event \<noteq> []" by (simp add: demo_event_def demo_sha_def big_string_ne)
    ultimately show ?thesis by (simp add: go_quote_def)
  qed
  then have "event_line (unhashed demo_event) \<noteq> event_line demo_event"
    by (auto simp: event_line_def unhashed_def)
  then show ?thesis by (simp add: demo_log_env_def)
qed

definition demo_log :: log_files where
  "demo_log = \<lparr>kf_main = Some (file_of [event_line demo_event]), kf_anchor = Some (file_of [anchor_line (anchor_of demo_event)])\<rparr>"

corollary append_keeps_log_witness:
  "append_audit_event demo_log_env no_log_faults ''t'' ''signed'' [] \<lparr>kf_main = None, kf_anchor = None\<rparr> = (None, demo_log) \<and>
   verify_audit_log_anchored demo_log_env demo_log = None"
proof -
  have run: "append_audit_event demo_log_env no_log_faults ''t'' ''signed'' [] \<lparr>kf_main = None, kf_anchor = None\<rparr> = (None, demo_log)"
    by (simp add: append_audit_event_def no_log_faults_def read_lines_def verify_chain_def append_durable_def demo_new_event demo_log_def Let_def)
  have "whole (kf_main \<lparr>kf_main = None, kf_anchor = None\<rparr>) []" "whole (kf_anchor \<lparr>kf_main = None, kf_anchor = None\<rparr>) []"
    by (simp_all add: whole_def)
  from append_keeps_log [OF this, of demo_log_env 0 "[]", OF _ run]
  show ?thesis using run demo_event_read
    by (simp add: verify_chain_def demo_new_event) (simp add: demo_log_env_def)
qed

corollary anchored_history_intact_witness:
  "verify_audit_log_anchored demo_log_env demo_log = None \<and>
   map (le_event demo_log_env) (read_lines (kf_main demo_log)) = [Some demo_event] \<and> take 1 [demo_event] = [demo_event]"
proof -
  have rl: "read_lines (kf_main demo_log) = [event_line demo_event]" "read_lines (kf_anchor demo_log) = [anchor_line (anchor_of demo_event)]"
    using event_line_plain anchor_line_plain read_lines_file_of [of "[event_line demo_event]"]
      read_lines_file_of [of "[anchor_line (anchor_of demo_event)]"] by (simp_all add: demo_log_def)
  have now: "map (le_event demo_log_env) (read_lines (kf_main demo_log)) = map Some [demo_event]"
    using demo_event_read by (simp add: rl)
  have link: "chained demo_log_env 0 [] [demo_event]"
    by (simp add: demo_event_def hash_event_def unhashed_def demo_log_env_def)
  have a: "le_anchor demo_log_env (anchor_line (anchor_of demo_event)) = Some (anchor_of demo_event)"
    by (simp add: demo_log_env_def)
  have s: "ev_seq demo_event = 1" "ev_prev demo_event = []" by (simp_all add: demo_event_def)
  have ok: "verify_audit_log_anchored demo_log_env demo_log = None"
    using link a demo_event_read
    by (simp add: verify_audit_log_anchored_def verify_audit_log_def verify_chain_def rl check_anchor_def anchor_of_def s)
  then have "take (length [demo_event]) [demo_event] = [demo_event]"
  proof (rule anchored_history_intact)
    show "reads_back demo_log_env [demo_event]" "reads_back demo_log_env [demo_event]"
      using demo_unhashed_read by (simp_all add: reads_back_def)
    show "chained demo_log_env 0 [] [demo_event]" by (rule link)
    show "an_seq (anchor_of demo_event) = int (length [demo_event])" "an_hash (anchor_of demo_event) = last_hash [] [demo_event]"
      by (simp_all add: anchor_of_def s last_hash_def)
    show "inj_on (le_sha demo_log_env) (hashed_lines [demo_event] \<union> hashed_lines [demo_event])" by (simp add: hashed_lines_def)
    show "map (le_event demo_log_env) (read_lines (kf_main demo_log)) = map Some [demo_event]" by (rule now)
  qed (simp_all add: rl a)
  then show ?thesis using ok now by simp
qed

end
