(* ===== verification/KeyFile.thy ===== *)
theory KeyFile
  imports GoStrings
begin

text \<open>
  The signer's encrypted key files, signer/internal/keystore: the password policy (policy.go), the
  limits on key derivation of foreign V3 files (kdf.go), the native Argon2id/AES-256-GCM format
  (native.go) and loading (keystore.go). The cryptography, the JSON codec of the structs and the
  decryption of V3 files are parameters.
\<close>

section \<open>Passwords\<close>

definition min_password_length :: nat where "min_password_length = 12"

definition common_weak_passwords :: "string list" where
  "common_weak_passwords =
    [''password'', ''passw0rd1234'', ''correct horse battery staple'', ''12345678901234567890'',
     ''qwertyuiopasdfghjkl'', ''changeme123456'', ''letmein123456'']"

definition low_entropy :: "string \<Rightarrow> bool" where
  "low_entropy password \<longleftrightarrow> length (remdups (runes password)) < 6"

datatype key_error = PasswordTooShort | WeakPassword | LowEntropyPassword | NoRandomness | CipherFailed
  | NotNative | BadCipher | BadKdf | WeakKdf | ExcessiveKdf | BadHex | BadLength | WrongPassword | BadScalar
  | AddressMismatch | RecoveredPanic | KdfNotPowerOfTwo | UnsupportedKdf | BadHeader | StatFailed | OpenPermissions
  | FileTooBig | ReadKeyFailed | V3Failed

text \<open>\<open>lower\<close> is \<^verbatim>\<open>strings.ToLower\<close>; \<open>None\<close> is acceptance.\<close>

definition validate_password :: "(string \<Rightarrow> string) \<Rightarrow> string \<Rightarrow> key_error option" where
  "validate_password lower password =
    (if length password < min_password_length then Some PasswordTooShort
     else if lower password \<in> set common_weak_passwords then Some WeakPassword
     else if low_entropy password then Some LowEntropyPassword
     else None)"

section \<open>Native key files\<close>

definition native_format :: string where "native_format = ''rwa-argon2id-v1''"

definition min_argon2_time :: "32 word" where "min_argon2_time = 3"
definition min_argon2_memory :: "32 word" where "min_argon2_memory = 65536"
definition min_argon2_threads :: "8 word" where "min_argon2_threads = 4"
definition max_argon2_time :: "32 word" where "max_argon2_time = 100"
definition max_argon2_memory :: "32 word" where "max_argon2_memory = 2097152"
definition max_argon2_threads :: "8 word" where "max_argon2_threads = 64"
definition argon2_salt_len :: nat where "argon2_salt_len = 16"
definition gcm_nonce_size :: nat where "gcm_nonce_size = 12"
definition expected_ciphertext_len :: nat where "expected_ciphertext_len = 32 + 16"

record native_kdf_params =
  nk_time :: "32 word"
  nk_memory :: "32 word"
  nk_threads :: "8 word"
  nk_salt :: string

record native_key_file =
  nf_format :: string
  nf_address :: string
  nf_cipher :: string
  nf_ciphertext :: string
  nf_nonce :: string
  nf_kdf :: string
  nf_params :: native_kdf_params

text \<open>\<open>None\<close> of \<open>ke_argon2\<close> is a panic, of the cipher an error; a private key is of type \<open>'k\<close>.\<close>

record 'k key_env =
  ke_lower :: "string \<Rightarrow> string"
  ke_marshal :: "native_key_file \<Rightarrow> string"
  ke_unmarshal :: "string \<Rightarrow> native_key_file option"
  ke_format :: "string \<Rightarrow> string option"
  ke_argon2 :: "string \<Rightarrow> byte list \<Rightarrow> 32 word \<Rightarrow> 32 word \<Rightarrow> 8 word \<Rightarrow> byte list option"
  ke_seal :: "byte list \<Rightarrow> byte list \<Rightarrow> byte list \<Rightarrow> byte list option"
  ke_open :: "byte list \<Rightarrow> byte list \<Rightarrow> byte list \<Rightarrow> byte list option"
  ke_scalar :: "'k \<Rightarrow> byte list"
  ke_to_key :: "byte list \<Rightarrow> 'k option"
  ke_address :: "'k \<Rightarrow> address"
  ke_hex :: "address \<Rightarrow> string"
  ke_parse_address :: "string \<Rightarrow> address"
  ke_v3_header :: "string \<Rightarrow> (string \<times> string) option"
  ke_scrypt_params :: "string \<Rightarrow> (int \<times> int \<times> int) option"
  ke_pbkdf2_params :: "string \<Rightarrow> int option"
  ke_decrypt_v3 :: "string \<Rightarrow> string \<Rightarrow> (key_error + 'k) option"

text \<open>\<^verbatim>\<open>CreateNative\<close>; the salt and the nonce are what the random source returned, \<open>None\<close> its failure.\<close>

definition create_native :: "'k key_env \<Rightarrow> byte list option \<Rightarrow> byte list option \<Rightarrow> 'k \<Rightarrow> string \<Rightarrow> key_error + string" where
  "create_native E salt nonce priv password =
    (case validate_password (ke_lower E) password of Some e \<Rightarrow> Inl e
     | None \<Rightarrow>
       (case salt of None \<Rightarrow> Inl NoRandomness
        | Some s \<Rightarrow>
          (case ke_argon2 E password s min_argon2_time min_argon2_memory min_argon2_threads of None \<Rightarrow> Inl RecoveredPanic
           | Some key \<Rightarrow>
             (case nonce of None \<Rightarrow> Inl NoRandomness
              | Some n \<Rightarrow>
                (case ke_seal E key n (ke_scalar E priv) of None \<Rightarrow> Inl CipherFailed
                 | Some ct \<Rightarrow> Inr (ke_marshal E
                     \<lparr>nf_format = native_format, nf_address = ke_hex E (ke_address E priv), nf_cipher = ''aes-256-gcm'',
                      nf_ciphertext = hex_bytes ct, nf_nonce = hex_bytes n, nf_kdf = ''argon2id'',
                      nf_params = \<lparr>nk_time = min_argon2_time, nk_memory = min_argon2_memory,
                        nk_threads = min_argon2_threads, nk_salt = hex_bytes s\<rparr>\<rparr> @ [newline]))))))"

definition is_native_format :: "'k key_env \<Rightarrow> string \<Rightarrow> bool" where
  "is_native_format E json = (case ke_format E json of None \<Rightarrow> False | Some f \<Rightarrow> f = native_format)"

definition kdf_too_weak :: "native_kdf_params \<Rightarrow> bool" where
  "kdf_too_weak p \<longleftrightarrow> nk_time p < min_argon2_time \<or> nk_memory p < min_argon2_memory \<or> nk_threads p < min_argon2_threads"

definition kdf_excessive :: "native_kdf_params \<Rightarrow> bool" where
  "kdf_excessive p \<longleftrightarrow> nk_time p > max_argon2_time \<or> nk_memory p > max_argon2_memory \<or> nk_threads p > max_argon2_threads"

text \<open>Hex text of an exact number of bytes\<close>

definition exact_hex :: "nat \<Rightarrow> string \<Rightarrow> key_error + byte list" where
  "exact_hex n s =
    (case decode_hex s of None \<Rightarrow> Inl BadHex | Some bs \<Rightarrow> if length bs \<noteq> n then Inl BadLength else Inr bs)"

text \<open>\<^verbatim>\<open>decryptNativeRecovered\<close>: a panic of the derivation is an error.\<close>

definition decrypt_native ::
    "'k key_env \<Rightarrow> string \<Rightarrow> byte list \<Rightarrow> byte list \<Rightarrow> byte list \<Rightarrow> native_kdf_params \<Rightarrow> string \<Rightarrow> key_error + 'k \<times> address" where
  "decrypt_native E password salt nonce ct p declared =
    (case ke_argon2 E password salt (nk_time p) (nk_memory p) (nk_threads p) of None \<Rightarrow> Inl RecoveredPanic
     | Some key \<Rightarrow>
       (case ke_open E key nonce ct of None \<Rightarrow> Inl WrongPassword
        | Some plain \<Rightarrow>
          (case ke_to_key E plain of None \<Rightarrow> Inl BadScalar
           | Some priv \<Rightarrow>
             if ke_address E priv \<noteq> ke_parse_address E declared then Inl AddressMismatch else Inr (priv, ke_address E priv))))"

definition load_native :: "'k key_env \<Rightarrow> string \<Rightarrow> string \<Rightarrow> key_error + 'k \<times> address" where
  "load_native E json password =
    (case ke_unmarshal E json of None \<Rightarrow> Inl NotNative
     | Some f \<Rightarrow>
       if nf_cipher f \<noteq> ''aes-256-gcm'' then Inl BadCipher
       else if nf_kdf f \<noteq> ''argon2id'' then Inl BadKdf
       else if kdf_too_weak (nf_params f) then Inl WeakKdf
       else if kdf_excessive (nf_params f) then Inl ExcessiveKdf
       else (case exact_hex argon2_salt_len (nk_salt (nf_params f)) of Inl e \<Rightarrow> Inl e
        | Inr salt \<Rightarrow>
          (case exact_hex gcm_nonce_size (nf_nonce f) of Inl e \<Rightarrow> Inl e
           | Inr nonce \<Rightarrow>
             (case exact_hex expected_ciphertext_len (nf_ciphertext f) of Inl e \<Rightarrow> Inl e
              | Inr ct \<Rightarrow> decrypt_native E password salt nonce ct (nf_params f) (nf_address f)))))"

section \<open>V3 key files\<close>

definition min_scrypt_n :: int where "min_scrypt_n = 131072"
definition min_scrypt_r :: int where "min_scrypt_r = 8"
definition min_scrypt_p :: int where "min_scrypt_p = 1"
definition max_scrypt_n :: int where "max_scrypt_n = 4194304"
definition max_scrypt_r :: int where "max_scrypt_r = 64"
definition max_scrypt_p :: int where "max_scrypt_p = 16"
definition max_scrypt_memory :: int where "max_scrypt_memory = 1073741824"
definition min_pbkdf2_iterations :: int where "min_pbkdf2_iterations = 600000"
definition max_pbkdf2_iterations :: int where "max_pbkdf2_iterations = 10000000"

text \<open>\<^verbatim>\<open>p.N&(p.N-1) != 0\<close>, and the product of the two at most 64-bit factors without overflow.\<close>

definition check_scrypt :: "int \<Rightarrow> int \<Rightarrow> int \<Rightarrow> key_error option" where
  "check_scrypt n r p =
    (if n < min_scrypt_n \<or> r < min_scrypt_r \<or> p < min_scrypt_p then Some WeakKdf
     else if Bit_Operations.and n (n - 1) \<noteq> 0 then Some KdfNotPowerOfTwo
     else if n > max_scrypt_n \<or> r > max_scrypt_r \<or> p > max_scrypt_p then Some ExcessiveKdf
     else if n * r * 128 > max_scrypt_memory then Some ExcessiveKdf
     else None)"

definition check_v3_kdf_strength :: "'k key_env \<Rightarrow> string \<Rightarrow> key_error option" where
  "check_v3_kdf_strength E json =
    (case ke_v3_header E json of None \<Rightarrow> Some BadHeader
     | Some (kdf, params) \<Rightarrow>
       if kdf = ''scrypt'' then
         (case ke_scrypt_params E params of None \<Rightarrow> Some BadHeader | Some (n, r, p) \<Rightarrow> check_scrypt n r p)
       else if kdf = ''pbkdf2'' then
         (case ke_pbkdf2_params E params of None \<Rightarrow> Some BadHeader
          | Some c \<Rightarrow>
            if c < min_pbkdf2_iterations then Some WeakKdf
            else if c > max_pbkdf2_iterations then Some ExcessiveKdf else None)
       else Some UnsupportedKdf)"

section \<open>Loading\<close>

definition max_keystore_file_bytes :: int where "max_keystore_file_bytes = 1048576"

text \<open>What the file system answers: permission bits and size, then the bytes.\<close>

record key_file_answers =
  kx_stat :: "(nat \<times> int) option"
  kx_read :: "string option"

definition load_key :: "'k key_env \<Rightarrow> key_file_answers \<Rightarrow> string \<Rightarrow> key_error + 'k \<times> address" where
  "load_key E A password =
    (case kx_stat A of None \<Rightarrow> Inl StatFailed
     | Some (mode, len) \<Rightarrow>
       if Bit_Operations.and mode 63 \<noteq> 0 then Inl OpenPermissions
       else if len > max_keystore_file_bytes then Inl FileTooBig
       else (case kx_read A of None \<Rightarrow> Inl ReadKeyFailed
        | Some json \<Rightarrow>
          if int (length json) > max_keystore_file_bytes then Inl FileTooBig
          else if is_native_format E json then load_native E json password
          else (case check_v3_kdf_strength E json of Some e \<Rightarrow> Inl e
           | None \<Rightarrow>
             (case ke_decrypt_v3 E json password of None \<Rightarrow> Inl RecoveredPanic
              | Some (Inl e) \<Rightarrow> Inl V3Failed
              | Some (Inr priv) \<Rightarrow> Inr (priv, ke_address E priv)))))"

section \<open>Properties\<close>

text \<open>A file whose texts are ASCII; of other texts the JSON codec replaces bytes that are not UTF-8.\<close>

definition ascii_file :: "native_key_file \<Rightarrow> bool" where
  "ascii_file f \<longleftrightarrow> list_all ascii [nf_format f, nf_address f, nf_cipher f, nf_ciphertext f, nf_nonce f, nf_kdf f, nk_salt (nf_params f)]"

lemma ascii_hex_bytes [simp]: "ascii (hex_bytes bs)"
proof -
  have "of_char (hex_digit d) < (0x80 :: nat)" if "d < 16" for d using that by (simp add: hex_digit_def)
  moreover have "unat (b :: byte) div 16 < 16" for b using unsigned_less [of b] by (simp add: div_less_iff_less_mult)
  ultimately show ?thesis by (auto simp: ascii_def hex_bytes_def)
qed

text \<open>
  What is relied on: the JSON codec reads back a file of ASCII texts that it wrote, the authenticated cipher opens what it
  sealed and adds 16 bytes, a key's scalar has 32 bytes and gives the key, an address its hex.
\<close>

definition key_law :: "'k key_env \<Rightarrow> bool" where
  "key_law E \<longleftrightarrow>
    (\<forall>f. ascii_file f \<longrightarrow> ke_unmarshal E (ke_marshal E f @ [newline]) = Some f \<and> ke_format E (ke_marshal E f @ [newline]) = Some (nf_format f)) \<and>
    (\<forall>k n p c. ke_seal E k n p = Some c \<longrightarrow> ke_open E k n c = Some p \<and> length c = length p + 16) \<and>
    (\<forall>x. length (ke_scalar E x) = 32 \<and> ke_to_key E (ke_scalar E x) = Some x \<and>
      ke_parse_address E (ke_hex E (ke_address E x)) = ke_address E x \<and> ascii (ke_hex E (ke_address E x)))"

lemma min_within: "\<not> kdf_too_weak p" "\<not> kdf_excessive p"
  if "nk_time p = min_argon2_time" "nk_memory p = min_argon2_memory" "nk_threads p = min_argon2_threads"
  using that by (simp_all add: kdf_too_weak_def kdf_excessive_def min_argon2_time_def min_argon2_memory_def min_argon2_threads_def
      max_argon2_time_def max_argon2_memory_def max_argon2_threads_def word_less_nat_alt)

text \<open>
  C31: a key file that was created opens with its password. Whatever salt and nonce of the right length
  the random source gave, loading the created file, owner-only and within the size limit, with the
  same password returns the same key and its address.
\<close>

theorem created_key_loads:
  assumes "key_law E" and "create_native E (Some salt) (Some nonce) priv password = Inr json"
    and "length salt = argon2_salt_len" and "length nonce = gcm_nonce_size"
    and "int (length json) \<le> max_keystore_file_bytes"
  shows "load_key E \<lparr>kx_stat = Some (384, int (length json)), kx_read = Some json\<rparr> password = Inr (priv, ke_address E priv)"
proof -
  define f where "f ct = \<lparr>nf_format = native_format, nf_address = ke_hex E (ke_address E priv), nf_cipher = ''aes-256-gcm'',
      nf_ciphertext = hex_bytes ct, nf_nonce = hex_bytes nonce, nf_kdf = ''argon2id'',
      nf_params = \<lparr>nk_time = min_argon2_time, nk_memory = min_argon2_memory, nk_threads = min_argon2_threads, nk_salt = hex_bytes salt\<rparr>\<rparr>"
    for ct
  obtain key ct where run: "ke_argon2 E password salt min_argon2_time min_argon2_memory min_argon2_threads = Some key"
    "ke_seal E key nonce (ke_scalar E priv) = Some ct" "json = ke_marshal E (f ct) @ [newline]"
    using assms(2) unfolding f_def by (auto simp: create_native_def split: option.splits)
  have "ascii_file (f ct)" using assms(1) by (simp add: ascii_file_def f_def key_law_def native_format_def)
  then have law: "ke_unmarshal E json = Some (f ct)" "ke_format E json = Some native_format"
    "ke_open E key nonce ct = Some (ke_scalar E priv)" "length ct = expected_ciphertext_len"
    "ke_to_key E (ke_scalar E priv) = Some priv" "ke_parse_address E (ke_hex E (ke_address E priv)) = ke_address E priv"
    using assms(1) run unfolding key_law_def by (auto simp: f_def expected_ciphertext_len_def)
  have weak: "\<not> kdf_too_weak (nf_params (f ct))" "\<not> kdf_excessive (nf_params (f ct))"
    by (rule min_within; simp add: f_def)+
  have "load_native E json password = decrypt_native E password salt nonce ct (nf_params (f ct)) (nf_address (f ct))"
    using law weak assms(3,4) by (simp add: load_native_def exact_hex_def decode_hex_bytes) (simp add: f_def exact_hex_def decode_hex_bytes)
  also have "\<dots> = Inr (priv, ke_address E priv)" using run(1) law by (simp add: decrypt_native_def f_def)
  finally have "load_native E json password = Inr (priv, ke_address E priv)" .
  moreover have "Bit_Operations.and (384 :: nat) 63 = 0" by code_simp
  ultimately show ?thesis using assms(5) law(2) by (simp add: load_key_def is_native_format_def)
qed

text \<open>
  Derivation parameters outside the limits are refused before any derivation: the result does not
  depend on the key derivation or the cipher.
\<close>

lemma load_native_bounded:
  assumes "ke_unmarshal E json = Some f" and "kdf_too_weak (nf_params f) \<or> kdf_excessive (nf_params f)"
  shows "\<exists>e. \<forall>kdf op. load_native (E\<lparr>ke_argon2 := kdf, ke_open := op\<rparr>) json password = Inl e"
  using assms by (auto simp: load_native_def)

lemma load_native_address:
  assumes "load_native E json password = Inr (priv, a)"
  shows "\<exists>f. ke_unmarshal E json = Some f \<and> a = ke_address E priv \<and> ke_parse_address E (nf_address f) = a"
  using assms by (auto simp: load_native_def decrypt_native_def split: option.splits if_splits sum.splits)

text \<open>Scrypt work that passes the check is bounded in memory, and its cost is a power of two.\<close>

lemma scrypt_bounded:
  assumes "check_scrypt n r p = None"
  shows "0 < n \<and> 0 < r \<and> 0 < p \<and> 128 * n * r \<le> 2 ^ 30 \<and> p \<le> 16"
  using assms by (auto simp: check_scrypt_def min_scrypt_n_def min_scrypt_r_def min_scrypt_p_def max_scrypt_p_def
      max_scrypt_memory_def split: if_splits)

section \<open>A concrete instance\<close>

text \<open>Strings are written after their length in unary; keys are their 32 bytes; the cipher appends 16 bytes.\<close>

definition enc_str :: "string \<Rightarrow> string" where
  "enc_str s = replicate (length s) (CHR ''1'') @ CHR ''0'' # s"

definition dec_str :: "string \<Rightarrow> string \<times> string" where
  "dec_str s = (let n = length (takeWhile (\<lambda>c. c = CHR ''1'') s); r = drop (Suc n) s in (take n r, drop n r))"

lemma dec_enc_str [simp]: "dec_str (enc_str s @ t) = (s, t)"
proof -
  have t: "takeWhile (\<lambda>c. c = CHR ''1'') (replicate n (CHR ''1'') @ CHR ''0'' # u) = replicate n (CHR ''1'')" for n u
    by (induction n) auto
  show ?thesis by (simp add: dec_str_def enc_str_def t)
qed

definition enc_word :: "'a::len word \<Rightarrow> string" where
  "enc_word w = enc_str (big_string (uint w))"

definition dec_word :: "string \<Rightarrow> 'a::len word \<times> string" where
  "dec_word s = (case dec_str s of (x, t) \<Rightarrow> (word_of_int (case big_set_string x of None \<Rightarrow> 0 | Some i \<Rightarrow> i), t))"

lemma dec_enc_word [simp]: "dec_word (enc_word w @ t) = (w, t)"
  by (simp add: dec_word_def enc_word_def)

definition demo_marshal_file :: "native_key_file \<Rightarrow> string" where
  "demo_marshal_file f = enc_str (nf_format f) @ enc_str (nf_address f) @ enc_str (nf_cipher f) @ enc_str (nf_ciphertext f) @
     enc_str (nf_nonce f) @ enc_str (nf_kdf f) @ enc_word (nk_time (nf_params f)) @ enc_word (nk_memory (nf_params f)) @
     enc_word (nk_threads (nf_params f)) @ enc_str (nk_salt (nf_params f))"

definition demo_unmarshal_file :: "string \<Rightarrow> native_key_file option" where
  "demo_unmarshal_file s =
    (let (format, s) = dec_str s; (address, s) = dec_str s; (cipher, s) = dec_str s; (ct, s) = dec_str s; (nonce, s) = dec_str s;
         (kdf, s) = dec_str s; (tm, s) = dec_word s; (mem, s) = dec_word s; (thr, s) = dec_word s; (salt, s) = dec_str s in
     Some \<lparr>nf_format = format, nf_address = address, nf_cipher = cipher, nf_ciphertext = ct, nf_nonce = nonce, nf_kdf = kdf,
       nf_params = \<lparr>nk_time = tm, nk_memory = mem, nk_threads = thr, nk_salt = salt\<rparr>\<rparr>)"

definition demo_key_env :: "unit key_env" where
  "demo_key_env = \<lparr>ke_lower = to_lower, ke_marshal = demo_marshal_file, ke_unmarshal = demo_unmarshal_file,
     ke_format = (\<lambda>s. Some (fst (dec_str s))), ke_argon2 = (\<lambda>_ s _ _ _. Some s),
     ke_seal = (\<lambda>_ _ p. Some (p @ replicate 16 0)), ke_open = (\<lambda>_ _ c. Some (take (length c - 16) c)),
     ke_scalar = (\<lambda>_. replicate 32 7), ke_to_key = (\<lambda>_. Some ()),
     ke_address = (\<lambda>_. 5), ke_hex = (\<lambda>_. ''0x5''), ke_parse_address = (\<lambda>_. 5), ke_v3_header = (\<lambda>_. None),
     ke_scrypt_params = (\<lambda>_. None), ke_pbkdf2_params = (\<lambda>_. None), ke_decrypt_v3 = (\<lambda>_ _. None)\<rparr>"

lemma demo_key_law: "key_law demo_key_env"
  by (simp add: key_law_def demo_key_env_def demo_marshal_file_def demo_unmarshal_file_def)

lemma length_enc_str: "length (enc_str s) = 2 * length s + 1"
  by (simp add: enc_str_def)

lemma length_nat_digits: "n < 10 ^ Suc k \<Longrightarrow> length (nat_digits n) \<le> Suc k"
proof (induction k arbitrary: n)
  case 0
  then show ?case by (simp add: nat_digits.simps [of n])
next
  case (Suc k)
  show ?case
  proof (cases "n < 10")
    case False
    have "n div 10 < 10 ^ Suc k" using Suc.prems by (simp add: div_less_iff_less_mult mult.commute)
    then show ?thesis using Suc.IH False by (subst nat_digits.simps) simp
  qed (simp add: nat_digits.simps [of n])
qed

lemma length_enc_word:
  assumes "unat w < 10 ^ 7"
  shows "length (enc_word w) \<le> 15"
proof -
  have "length (big_string (uint w)) \<le> 7"
    using length_nat_digits [of "unat w" 6] assms by (simp add: big_string_def)
  then show ?thesis by (simp add: enc_word_def length_enc_str)
qed

lemma length_hex_bytes: "length (hex_bytes bs) = 2 * length bs"
  by (induction bs) (simp_all add: hex_bytes_def)

corollary created_key_loads_witness:
  "\<exists>json. create_native demo_key_env (Some (replicate 16 1)) (Some (replicate 12 2)) () ''abcdefghijkl'' = Inr json \<and>
    load_key demo_key_env \<lparr>kx_stat = Some (384, int (length json)), kx_read = Some json\<rparr> ''abcdefghijkl'' = Inr ((), 5)"
proof -
  have ok: "validate_password to_lower ''abcdefghijkl'' = None"
    by (simp add: validate_password_def min_password_length_def common_weak_passwords_def low_entropy_def runes_ascii
        to_lower_def to_lower_char_def Let_def)
  obtain json where json: "create_native demo_key_env (Some (replicate 16 1)) (Some (replicate 12 2)) () ''abcdefghijkl'' = Inr json"
    "json = demo_marshal_file \<lparr>nf_format = native_format, nf_address = ''0x5'', nf_cipher = ''aes-256-gcm'',
        nf_ciphertext = hex_bytes (replicate 32 7 @ replicate 16 0), nf_nonce = hex_bytes (replicate 12 2), nf_kdf = ''argon2id'',
        nf_params = \<lparr>nk_time = min_argon2_time, nk_memory = min_argon2_memory, nk_threads = min_argon2_threads,
          nk_salt = hex_bytes (replicate 16 1)\<rparr>\<rparr> @ [newline]"
    using ok by (simp add: create_native_def demo_key_env_def)
  have "length (enc_word min_argon2_time) \<le> 15" "length (enc_word min_argon2_memory) \<le> 15" "length (enc_word min_argon2_threads) \<le> 15"
    by (rule length_enc_word, simp add: min_argon2_time_def min_argon2_memory_def min_argon2_threads_def)+
  then have "length json \<le> 1000"
    by (simp add: json(2) demo_marshal_file_def length_enc_str length_hex_bytes native_format_def)
  then have "int (length json) \<le> max_keystore_file_bytes" by (simp add: max_keystore_file_bytes_def)
  from created_key_loads [OF demo_key_law json(1) _ _ this] show ?thesis
    using json(1) by (simp add: argon2_salt_len_def gcm_nonce_size_def) (simp add: demo_key_env_def)
qed

end
