(* ===== verification/SignerMain.thy ===== *)
theory SignerMain
  imports SignPolicy RwaPackage SignerLog KeyFile
begin

text \<open>
  The signing program, signer/cmd/signer/main.go: \<^verbatim>\<open>runSign\<close> with every check that binds a package to
  the auditor's policy, the confirmation, the unlocking of the key under the audit log and the
  throttle, and \<^verbatim>\<open>runCombine\<close>, which joins the shares of a Safe's owners. Terminal output, flag parsing and
  the review screen are left out; what the operating system answers is the environment. Of the
  devices of internal/hardware, which are stubs, only the refusals remain.
\<close>

section \<open>Environment and state\<close>

record sign_flags =
  sg_keystore :: string
  sg_password :: string
  sg_password_file :: string
  sg_hardware :: string
  sg_policy_path :: string
  sg_yes :: bool
  sg_unsafe :: bool

datatype written_file = WroteResult signed_result | WroteShare signature_share

record sign_world =
  gw_logs :: log_files
  gw_throttle :: throttle_file
  gw_tick :: nat
  gw_written :: "written_file list"

text \<open>
  What the calls answer, by a counter of calls where it can differ from call to call. Before each use of the
  keystore's files other processes may have changed them (\<open>g_others\<close>).
\<close>

record ('f, 'b, 'r, 'h, 'k) sign_env =
  g_schema :: "('f, 'b, 'r) schema_env"
  g_text :: text_env
  g_addr :: addr_env
  g_policy :: "'h policy_env"
  g_typed :: typed_env
  g_share :: share_env
  g_pkg :: pkg_env
  g_unzip :: "string \<Rightarrow> zip_entry list option"
  g_keccak :: keccak
  g_sign :: "'k ecsign"
  g_recover :: ecrecover
  g_log :: log_env
  g_key :: "'k key_env"
  g_read_file :: "string \<Rightarrow> string option"
  g_package :: "int option \<times> string option"
  g_confirm :: "bool option"
  g_password_stat :: "nat option"
  g_prompt :: "string option"
  g_error_text :: "key_error \<Rightarrow> string"
  g_now :: "nat \<Rightarrow> gotime"
  g_stamp :: "nat \<Rightarrow> string"
  g_logs_readable :: "nat \<Rightarrow> bool"
  g_faults :: "nat \<Rightarrow> log_faults"
  g_throttle_ok :: "nat \<Rightarrow> bool"
  g_key_file :: "nat \<Rightarrow> key_file_answers"
  g_write_ok :: "nat \<Rightarrow> bool"
  g_others :: "nat \<Rightarrow> log_files \<times> throttle_file \<Rightarrow> log_files \<times> throttle_file"

datatype sign_error = FlagMissing string | YesNeedsUnsafe | PolicyFailed policy_error | PackageUnread
  | PackageBad pkg_error | PackageLacks string | ProfileBad doc_error | MetadataBad doc_error | AssetBad invalid
  | TypedBad typed_error | Mismatch string | CreatedUnparsed | Expired | LifetimeExceeded | DigestFailed attest_error
  | ConfirmFailed | NotConfirmed | HardwareUnsupported | HardwareUnknown | LogsUnread | LogBroken log_error | LockedOut
  | PasswordFailed | KeyFailed key_error | AuditFailed string | SigningKeyNotOwner | SigningKeyNotAuditor
  | OutputBad output_error | WriteFailed | NoSafe | NoShares | ShareMismatch string | TooFewShares

type_synonym 'a sgm = "(sign_error, sign_world, 'a) act"

definition lift_error :: "('e \<Rightarrow> sign_error) \<Rightarrow> 'e + 'a \<Rightarrow> sign_error + 'a" where
  "lift_error f r = (case r of Inl e \<Rightarrow> Inl (f e) | Inr a \<Rightarrow> Inr a)"

definition tick :: "nat sgm" where
  "tick w = (Inr (gw_tick w), w\<lparr>gw_tick := Suc (gw_tick w)\<rparr>)"

text \<open>A call on the keystore's files\<close>

definition file_call :: "('f, 'b, 'r, 'h, 'k) sign_env \<Rightarrow> nat sgm" where
  "file_call E w =
    (case g_others E (gw_tick w) (gw_logs w, gw_throttle w) of
       (logs, throttle) \<Rightarrow> (Inr (gw_tick w), w\<lparr>gw_logs := logs, gw_throttle := throttle, gw_tick := Suc (gw_tick w)\<rparr>))"

definition append_event :: "('f, 'b, 'r, 'h, 'k) sign_env \<Rightarrow> string \<Rightarrow> (string \<times> string) list \<Rightarrow> log_error option sgm" where
  "append_event E event attrs =
    bindM (file_call E) (\<lambda>n w.
      case append_audit_event (g_log E) (g_faults E n) (g_stamp E n) event attrs (gw_logs w) of
        (r, logs) \<Rightarrow> (Inr r, w\<lparr>gw_logs := logs\<rparr>))"

section \<open>Reading the package\<close>

definition check_flags :: "sign_flags \<Rightarrow> sign_error + unit" where
  "check_flags f =
    andE (needE (\<not> (sg_hardware f = [] \<and> sg_keystore f = [])) (FlagMissing ''keystore'')) (\<lambda>_.
    andE (needE (sg_policy_path f \<noteq> []) (FlagMissing ''policy'')) (\<lambda>_.
      needE (\<not> (sg_yes f \<and> \<not> sg_unsafe f)) YesNeedsUnsafe))"

definition max_compressed_size :: int where "max_compressed_size = 67108864"

text \<open>\<^verbatim>\<open>ReadPackageFile\<close>: the size that \<^verbatim>\<open>Stat\<close> reports (\<open>None\<close>: the file does not open), then the bytes.\<close>

definition read_package_file :: "int option \<times> string option \<Rightarrow> int \<Rightarrow> string option" where
  "read_package_file file limit =
    (case file of (Some len, Some data) \<Rightarrow> if len > limit \<or> int (length data) > limit then None else Some data | _ \<Rightarrow> None)"

definition manifest_name :: string where "manifest_name = ''manifest.json''"

definition payload :: "pkg_files \<Rightarrow> pkg_files" where
  "payload files = filter (\<lambda>e. fst e \<noteq> manifest_name) files"

definition package_file :: "string \<Rightarrow> pkg_files \<Rightarrow> sign_error + string" where
  "package_file name files = (case lookup files name of None \<Rightarrow> Inl (PackageLacks name) | Some d \<Rightarrow> Inr d)"

definition open_package :: "('f, 'b, 'r, 'h, 'k) sign_env \<Rightarrow> string \<Rightarrow> sign_error + manifest \<times> pkg_files" where
  "open_package E bytes =
    andE (lift_error PackageBad (extract_package (g_unzip E) default_options bytes)) (\<lambda>files.
    andE (package_file manifest_name files) (\<lambda>raw.
    andE (lift_error PackageBad (parse_manifest (g_pkg E) raw)) (\<lambda>m.
      (case verify_files (g_pkg E) m (payload files) of Some e \<Rightarrow> Inl (PackageBad e) | None \<Rightarrow> Inr (m, files)))))"

section \<open>Binding the documents to each other and to the policy\<close>

definition sha_hex :: "byte list \<Rightarrow> string" where
  "sha_hex bs = ''0x'' @ hex_bytes bs"

definition same_text :: "string \<Rightarrow> bool \<Rightarrow> sign_error + unit" where
  "same_text what b = needE b (Mismatch what)"

definition check_documents ::
    "policy \<Rightarrow> manifest \<Rightarrow> ('b, 'r) profile \<Rightarrow> metadata_doc \<Rightarrow> sign_error + unit" where
  "check_documents pol m prof meta =
    andE (same_text ''metadata projectId'' (md_project_id meta = pf_project_id prof)) (\<lambda>_.
    andE (same_text ''issuance unit'' (md_unit meta = pf_token_unit prof)) (\<lambda>_.
    andE (same_text ''policy projectId'' (pl_project_id pol = pf_project_id prof)) (\<lambda>_.
    andE (same_text ''policy profileDigest'' (equal_fold (pl_profile_digest pol) (sha_hex (pf_digest prof)))) (\<lambda>_.
    andE (same_text ''manifest profileDigest'' (equal_fold (sha_hex (pf_digest prof)) (mn_profile_digest m))) (\<lambda>_.
      same_text ''manifest metadataDigest'' (equal_fold (sha_hex (md_digest meta)) (mn_metadata_digest m)))))))"

text \<open>The amounts, and a mint's record: both decimal texts were checked, so reading them again cannot fail.\<close>

definition check_amounts :: "keccak \<Rightarrow> metadata_doc \<Rightarrow> typed_data \<Rightarrow> sign_error + unit" where
  "check_amounts K meta td =
    (case (big_set_string (md_amount meta), big_set_string (td_amount td)) of
       (Some a, Some b) \<Rightarrow>
         andE (same_text ''amount'' (a = b)) (\<lambda>_.
           if td_primary_type td = mint_type then
             andE (same_text ''recordId'' (td_record_id td = md_record_id meta)) (\<lambda>_.
               same_text ''recordKey'' (hash_hex (record_key K (md_record_id meta)) = to_lower (td_record_key td)))
           else Inr ())
     | _ \<Rightarrow> Inl (Mismatch ''amount''))"

definition check_typed ::
    "('f, 'b, 'r, 'h, 'k) sign_env \<Rightarrow> policy \<Rightarrow> manifest \<Rightarrow> ('b, 'r) profile \<Rightarrow> metadata_doc \<Rightarrow> typed_data \<Rightarrow> sign_error + unit" where
  "check_typed E pol m prof meta td =
    andE (same_text ''primaryType'' (td_primary_type td = mn_primary_type m)) (\<lambda>_.
    andE (same_text ''message.profileDigest'' (equal_fold (td_profile_digest td) (sha_hex (pf_digest prof)))) (\<lambda>_.
    andE (same_text ''message.metadataDigest'' (equal_fold (td_metadata_digest td) (sha_hex (md_digest meta)))) (\<lambda>_.
    andE (check_amounts (g_keccak E) meta td) (\<lambda>_.
    andE (same_text ''chainId'' (pl_chain_id pol = td_chain_id td)) (\<lambda>_.
    andE (same_text ''controller'' (equal_fold (pl_controller pol) (td_contract td))) (\<lambda>_.
    andE (same_text ''vault'' (equal_fold (pl_vault pol) (td_vault td))) (\<lambda>_.
      same_text ''auditor'' (equal_fold (pl_auditor pol) (td_auditor td)))))))))"

text \<open>\<^verbatim>\<open>time.Unix\<close> keeps seconds since the year 1 in 64 bits, which wrap.\<close>

definition unix_instant :: "int \<Rightarrow> gotime" where
  "unix_instant s = (int64_wrap (s + 62135596800) - 62135596800) * 10 ^ 9"

definition check_expiry :: "text_env \<Rightarrow> policy \<Rightarrow> metadata_doc \<Rightarrow> typed_data \<Rightarrow> gotime \<Rightarrow> sign_error + unit" where
  "check_expiry T pol meta td now =
    (case tn_time T (md_created_at meta) of None \<Rightarrow> Inl CreatedUnparsed
     | Some created \<Rightarrow>
       let valid_until = unix_instant (sint (td_valid_until td)) in
       andE (needE (valid_until > now) Expired) (\<lambda>_.
         let latest = (if created + pl_lifetime pol < now + pl_lifetime pol then created + pl_lifetime pol else now + pl_lifetime pol) in
         needE (\<not> valid_until > latest) LifetimeExceeded))"

definition attestation_digest :: "keccak \<Rightarrow> addr_env \<Rightarrow> typed_data \<Rightarrow> sign_error + u256" where
  "attestation_digest K A td =
    lift_error DigestFailed
      (if td_primary_type td = mint_type then sg_mint_digest K (typed_domain A td) (typed_mint A td)
       else if td_primary_type td = burn_type then sg_burn_digest K (typed_domain A td) (typed_burn A td)
       else Inr 0)"

text \<open>Safe owners sign the Safe's message hash of the digest.\<close>

definition hash_to_sign :: "keccak \<Rightarrow> addr_env \<Rightarrow> policy \<Rightarrow> typed_data \<Rightarrow> u256 \<Rightarrow> sign_error + u256" where
  "hash_to_sign K A pol td digest =
    (case pl_safe pol of None \<Rightarrow> Inr digest
     | Some _ \<Rightarrow> lift_error DigestFailed (safe_message_hash K (sd_chain_id (typed_domain A td)) (ad_parse A (td_auditor td)) digest))"

section \<open>Signing\<close>

definition trim_newlines :: "string \<Rightarrow> string" where
  "trim_newlines s = rev (dropWhile (\<lambda>c. c = newline \<or> c = CHR 0x0D) (rev s))"

definition get_password :: "('f, 'b, 'r, 'h, 'k) sign_env \<Rightarrow> sign_flags \<Rightarrow> sign_error + string" where
  "get_password E f =
    andE (if sg_password f = [] \<and> sg_password_file f \<noteq> [] then
            (case g_password_stat E of None \<Rightarrow> Inl PasswordFailed
             | Some mode \<Rightarrow>
               if Bit_Operations.and mode 63 \<noteq> 0 then Inl PasswordFailed
               else (case g_read_file E (sg_password_file f) of None \<Rightarrow> Inl PasswordFailed | Some d \<Rightarrow> Inr (trim_newlines d)))
          else Inr (sg_password f)) (\<lambda>pw.
      if pw \<noteq> [] then Inr pw else (case g_prompt E of None \<Rightarrow> Inl PasswordFailed | Some p \<Rightarrow> Inr p))"

definition open_hardware :: "string \<Rightarrow> sign_error" where
  "open_hardware kind =
    (if kind \<in> {''ledger'', ''trezor'', ''yubikey'', ''hsm''} then HardwareUnsupported else HardwareUnknown)"

text \<open>A step of the audit trail that failed stops the signing, unless test mode allows it.\<close>

definition audited :: "sign_flags \<Rightarrow> string \<Rightarrow> bool \<Rightarrow> unit sgm" where
  "audited f what ok = guardM (ok \<or> sg_unsafe f) (AuditFailed what)"

definition check_logs :: "('f, 'b, 'r, 'h, 'k) sign_env \<Rightarrow> unit sgm" where
  "check_logs E =
    bindM (file_call E) (\<lambda>n w.
      if \<not> g_logs_readable E n then (Inl LogsUnread, w)
      else case verify_audit_log_anchored (g_log E) (gw_logs w) of Some e \<Rightarrow> (Inl (LogBroken e), w) | None \<Rightarrow> (Inr (), w))"

definition check_lockout :: "('f, 'b, 'r, 'h, 'k) sign_env \<Rightarrow> unit sgm" where
  "check_lockout E =
    bindM (file_call E) (\<lambda>n w. if check_throttle (g_now E n) (gw_throttle w) then (Inr (), w) else (Inl LockedOut, w))"

definition unlock_failed :: "('f, 'b, 'r, 'h, 'k) sign_env \<Rightarrow> key_error \<Rightarrow> 'a sgm" where
  "unlock_failed E err =
    bindM (file_call E) (\<lambda>n.
    bindM (modifyM (\<lambda>w. if g_throttle_ok E n then w\<lparr>gw_throttle := record_unlock_failure (g_now E n) (gw_throttle w)\<rparr> else w)) (\<lambda>_.
    bindM (append_event E ''unlock_failure'' [(''reason'', g_error_text E err)]) (\<lambda>_. raise (KeyFailed err))))"

definition clear_throttle :: "('f, 'b, 'r, 'h, 'k) sign_env \<Rightarrow> bool sgm" where
  "clear_throttle E =
    bindM (file_call E) (\<lambda>n w.
      if g_throttle_ok E n then (Inr True, w\<lparr>gw_throttle := record_unlock_success (gw_throttle w)\<rparr>) else (Inr False, w))"

text \<open>Once the key is loaded: each step of the bookkeeping, then the signature and its record.\<close>

definition sign_unlocked :: "('f, 'b, 'r, 'h, 'k) sign_env \<Rightarrow> sign_flags \<Rightarrow> u256 \<Rightarrow> 'k \<Rightarrow> address \<Rightarrow> (byte list \<times> address) sgm" where
  "sign_unlocked E f digest priv addr =
    bindM (clear_throttle E) (\<lambda>ok.
    bindM (audited f ''throttle-clear'' ok) (\<lambda>_.
    bindM (append_event E ''unlock_success'' [(''address'', ad_hex (g_addr E) addr)]) (\<lambda>r.
    bindM (audited f ''unlock-success'' (r = None)) (\<lambda>_.
    bindM (liftE (lift_error DigestFailed (sg_sign (g_sign E) digest priv))) (\<lambda>sig.
    bindM (append_event E ''signed'' [(''address'', ad_hex (g_addr E) addr), (''digest'', hash_hex digest)]) (\<lambda>r'.
    bindM (audited f ''signed'' (r' = None)) (\<lambda>_.
      ret (sig, addr))))))))"

definition sign_digest :: "('f, 'b, 'r, 'h, 'k) sign_env \<Rightarrow> sign_flags \<Rightarrow> u256 \<Rightarrow> (byte list \<times> address) sgm" where
  "sign_digest E f digest =
    (if sg_hardware f \<noteq> [] then raise (open_hardware (sg_hardware f))
     else
       bindM (check_logs E) (\<lambda>_.
       bindM (check_lockout E) (\<lambda>_.
       bindM (liftE (get_password E f)) (\<lambda>password.
       bindM tick (\<lambda>n.
         (case load_key (g_key E) (g_key_file E n) password of
            Inl err \<Rightarrow> unlock_failed E err
          | Inr (priv, addr) \<Rightarrow> sign_unlocked E f digest priv addr))))))"

section \<open>Writing the result\<close>

text \<open>\<^verbatim>\<open>big.Int.String\<close> of the domain's chain\<close>

definition chain_text :: "addr_env \<Rightarrow> typed_data \<Rightarrow> string" where
  "chain_text A td = (case sd_chain_id (typed_domain A td) of None \<Rightarrow> ''<nil>'' | Some c \<Rightarrow> big_string c)"

definition write_out :: "('f, 'b, 'r, 'h, 'k) sign_env \<Rightarrow> written_file \<Rightarrow> unit sgm" where
  "write_out E file =
    bindM tick (\<lambda>n w. if g_write_ok E n then (Inr (), w\<lparr>gw_written := gw_written w @ [file]\<rparr>) else (Inl WriteFailed, w))"

definition write_result :: "('f, 'b, 'r, 'h, 'k) sign_env \<Rightarrow> sign_error + signed_result \<Rightarrow> unit sgm" where
  "write_result E r =
    bindM (liftE r) (\<lambda>x. bindM (liftE (lift_error OutputBad (validate_result (g_text E) x))) (\<lambda>_. write_out E (WroteResult x)))"

definition write_share :: "('f, 'b, 'r, 'h, 'k) sign_env \<Rightarrow> sign_error + signature_share \<Rightarrow> unit sgm" where
  "write_share E r =
    bindM (liftE r) (\<lambda>x. bindM (liftE (lift_error OutputBad (validate_share (g_text E) x))) (\<lambda>_. write_out E (WroteShare x)))"

definition finish :: "('f, 'b, 'r, 'h, 'k) sign_env \<Rightarrow> policy \<Rightarrow> typed_data \<Rightarrow> u256 \<Rightarrow> u256 \<Rightarrow> byte list \<Rightarrow> address \<Rightarrow> unit sgm" where
  "finish E pol td digest hash sig addr =
    (let auditor = ad_parse (g_addr E) (td_auditor td) in
     bindM tick (\<lambda>n.
       (case pl_safe pol of
          Some s \<Rightarrow>
            bindM (guardM (is_owner s addr) SigningKeyNotOwner) (\<lambda>_.
            write_share E (lift_error OutputBad (new_share (g_text E) (g_stamp E n) (ad_hex (g_addr E) auditor) (chain_text (g_addr E) td)
              (ad_hex (g_addr E) addr) (td_primary_type td) (hash_hex digest) (hash_hex hash) (sha_hex sig))))
        | None \<Rightarrow>
            bindM (guardM (addr = auditor) SigningKeyNotAuditor) (\<lambda>_.
            write_result E (lift_error OutputBad (new_result (g_text E) (g_stamp E n) (ad_hex (g_addr E) addr) (td_primary_type td)
              (hash_hex digest) (sha_hex sig)))))))"

definition confirmed :: "('f, 'b, 'r, 'h, 'k) sign_env \<Rightarrow> sign_flags \<Rightarrow> sign_error + unit" where
  "confirmed E f =
    (if sg_yes f then Inr ()
     else case g_confirm E of None \<Rightarrow> Inl ConfirmFailed | Some b \<Rightarrow> needE b NotConfirmed)"

text \<open>The checks of \<^verbatim>\<open>runSign\<close> up to the clock, and what they hand to the rest.\<close>

record ('b, 'r) review =
  rv_policy :: policy
  rv_manifest :: manifest
  rv_profile :: "('b, 'r) profile"
  rv_metadata :: metadata_doc
  rv_typed :: typed_data

definition review_package :: "('f, 'b, 'r, 'h, 'k) sign_env \<Rightarrow> sign_flags \<Rightarrow> sign_error + ('b, 'r) review" where
  "review_package E f =
    andE (check_flags f) (\<lambda>_.
    andE (lift_error PolicyFailed (load_policy (g_policy E) (g_text E) (g_addr E) (g_read_file E (sg_policy_path f)))) (\<lambda>pol.
    andE (case read_package_file (g_package E) max_compressed_size of None \<Rightarrow> Inl PackageUnread | Some b \<Rightarrow> Inr b) (\<lambda>bytes.
    andE (open_package E bytes) (\<lambda>(m, files).
    andE (package_file ''profile.json'' files) (\<lambda>profile_raw.
    andE (lift_error ProfileBad (validate_profile (g_schema E) (g_text E) profile_raw)) (\<lambda>prof.
    andE (package_file ''metadata.json'' files) (\<lambda>metadata_raw.
    andE (lift_error MetadataBad (validate_metadata (se_floats (g_schema E)) (g_text E) metadata_raw)) (\<lambda>meta.
    andE (case validate_asset (g_schema E) prof (md_asset meta) of Some e \<Rightarrow> Inl (AssetBad e) | None \<Rightarrow> Inr ()) (\<lambda>_.
    andE (check_documents pol m prof meta) (\<lambda>_.
    andE (package_file ''typed-data.json'' files) (\<lambda>typed_raw.
    andE (lift_error TypedBad (parse_typed_data (g_typed E) typed_raw)) (\<lambda>td.
    andE (check_typed E pol m prof meta td) (\<lambda>_.
      Inr \<lparr>rv_policy = pol, rv_manifest = m, rv_profile = prof, rv_metadata = meta, rv_typed = td\<rparr>)))))))))))))"

definition run_sign :: "('f, 'b, 'r, 'h, 'k) sign_env \<Rightarrow> sign_flags \<Rightarrow> unit sgm" where
  "run_sign E f =
    bindM (liftE (review_package E f)) (\<lambda>r.
    bindM tick (\<lambda>n.
    bindM (liftE (check_expiry (g_text E) (rv_policy r) (rv_metadata r) (rv_typed r) (g_now E n))) (\<lambda>_.
    bindM (liftE (attestation_digest (g_keccak E) (g_addr E) (rv_typed r))) (\<lambda>digest.
    bindM (liftE (hash_to_sign (g_keccak E) (g_addr E) (rv_policy r) (rv_typed r) digest)) (\<lambda>hash.
    bindM (liftE (confirmed E f)) (\<lambda>_.
    bindM (sign_digest E f hash) (\<lambda>(sig, addr).
      finish E (rv_policy r) (rv_typed r) digest hash sig addr)))))))"

section \<open>Combining shares\<close>

text \<open>One share: \<open>first\<close> is the first share read, with which all must agree.\<close>

definition check_share ::
    "('f, 'b, 'r, 'h, 'k) sign_env \<Rightarrow> policy \<Rightarrow> safe \<Rightarrow> string \<Rightarrow> signature_share \<Rightarrow> signature_share \<Rightarrow>
     (address, byte list) store \<Rightarrow> sign_error + (address, byte list) store" where
  "check_share E pol s path first share sigs =
    (let A = g_addr E; safe = ad_parse A (pl_auditor pol) in
     andE (needE (ad_parse A (sh_safe share) = safe \<and> sh_chain_id share = pl_chain_id pol) (ShareMismatch path)) (\<lambda>_.
     andE (needE (sh_primary_type share = sh_primary_type first \<and> equal_fold (sh_digest share) (sh_digest first)) (ShareMismatch path)) (\<lambda>_.
     andE (lift_error DigestFailed (safe_message_hash (g_keccak E) (big_set_string (pl_chain_id pol)) safe (ad_hash A (sh_digest share)))) (\<lambda>hash.
     andE (needE (equal_fold (sh_message_hash share) (hash_hex hash)) (ShareMismatch path)) (\<lambda>_.
     andE (Inr (case decode_hex (trim_prefix ''0x'' (sh_signature share)) of None \<Rightarrow> [] | Some bs \<Rightarrow> bs)) (\<lambda>sig.
     andE (lift_error DigestFailed (sg_recover (g_recover E) hash sig)) (\<lambda>signer.
     andE (needE (signer = ad_parse A (sh_owner share)) (ShareMismatch path)) (\<lambda>_.
     andE (needE (is_owner s signer) (ShareMismatch path)) (\<lambda>_.
     andE (needE (lookup sigs signer = None) (ShareMismatch path)) (\<lambda>_.
       Inr (put signer sig sigs)))))))))))"

fun check_shares ::
    "('f, 'b, 'r, 'h, 'k) sign_env \<Rightarrow> policy \<Rightarrow> safe \<Rightarrow> signature_share option \<Rightarrow> (address, byte list) store \<Rightarrow> string list \<Rightarrow>
     sign_error + signature_share option \<times> (address, byte list) store" where
  "check_shares E pol s first sigs [] = Inr (first, sigs)"
| "check_shares E pol s first sigs (path # paths) =
    andE (lift_error OutputBad (read_share (g_share E) (g_text E) (g_read_file E path))) (\<lambda>share.
      let f = (case first of None \<Rightarrow> share | Some x \<Rightarrow> x) in
      andE (check_share E pol s path f share sigs) (\<lambda>sigs'. check_shares E pol s (Some f) sigs' paths))"

definition combined_shares :: "('f, 'b, 'r, 'h, 'k) sign_env \<Rightarrow> string \<Rightarrow> string list \<Rightarrow> sign_error + policy \<times> signature_share \<times> byte list" where
  "combined_shares E policy_path paths =
    andE (needE (policy_path \<noteq> []) (FlagMissing ''policy'')) (\<lambda>_.
    andE (needE (paths \<noteq> []) NoShares) (\<lambda>_.
    andE (lift_error PolicyFailed (load_policy (g_policy E) (g_text E) (g_addr E) (g_read_file E policy_path))) (\<lambda>pol.
      (case pl_safe pol of None \<Rightarrow> Inl NoSafe
       | Some s \<Rightarrow>
         andE (check_shares E pol s None [] paths) (\<lambda>(first, sigs).
         andE (needE (\<not> int (length sigs) < sf_threshold s) TooFewShares) (\<lambda>_.
         andE (lift_error DigestFailed (combine_safe_signatures sigs)) (\<lambda>bytes.
           (case first of None \<Rightarrow> Inl NoShares | Some x \<Rightarrow> Inr (pol, x, bytes)))))))))"

definition run_combine :: "('f, 'b, 'r, 'h, 'k) sign_env \<Rightarrow> string \<Rightarrow> string list \<Rightarrow> unit sgm" where
  "run_combine E policy_path paths =
    bindM (liftE (combined_shares E policy_path paths)) (\<lambda>(pol, first, bytes).
    bindM tick (\<lambda>n.
      write_result E (lift_error OutputBad (new_result (g_text E) (g_stamp E n)
        (ad_hex (g_addr E) (ad_parse (g_addr E) (pl_auditor pol))) (sh_primary_type first) (sh_digest first) (sha_hex bytes)))))"

end
