(* ===== verification/SignerRun.thy ===== *)
theory SignerRun
  imports SignerMain
begin

text \<open>
  What a run of the signing program guarantees: it signs only the terms that the policy and the verified
  documents agree on, only with consent and the right key and leaving its record, and shares are
  combined only into a signature that satisfies the Safe. The last sections run it on a concrete package.
\<close>

section \<open>Running the checks\<close>

lemma lift_error_Inr [simp]: "lift_error f r = Inr a \<longleftrightarrow> r = Inr a"
  by (auto simp: lift_error_def split: sum.splits)

lemma bind_Inr: "bindM m f w = (Inr b, w') \<longleftrightarrow> (\<exists>a u. m w = (Inr a, u) \<and> f a u = (Inr b, w'))"
  by (auto simp: bindM_def split: prod.splits sum.splits)

lemma liftE_run [simp]: "liftE r w = (Inr a, u) \<longleftrightarrow> r = Inr a \<and> u = w"
  by (auto simp: liftE_def)

lemma guard_run [simp]: "guardM b e w = (Inr a, u) \<longleftrightarrow> b \<and> u = w"
  by (auto simp: guardM_def ret_def raise_def)

lemma tick_run [simp]: "tick w = (Inr n, u) \<longleftrightarrow> n = gw_tick w \<and> u = w\<lparr>gw_tick := Suc (gw_tick w)\<rparr>"
  by (auto simp: tick_def)

text \<open>What was reviewed: documents of a package that verified against its manifest, each valid, under a loaded policy.\<close>

definition reviewed :: "('f, 'b, 'r, 'h, 'k) sign_env \<Rightarrow> sign_flags \<Rightarrow> ('b, 'r) review \<Rightarrow> bool" where
  "reviewed E f r \<longleftrightarrow>
    load_policy (g_policy E) (g_text E) (g_addr E) (g_read_file E (sg_policy_path f)) = Inr (rv_policy r) \<and>
    (\<exists>bytes files profile_raw metadata_raw typed_raw.
      read_package_file (g_package E) max_compressed_size = Some bytes \<and> open_package E bytes = Inr (rv_manifest r, files) \<and>
      lookup files ''profile.json'' = Some profile_raw \<and>
      validate_profile (g_schema E) (g_text E) profile_raw = Inr (rv_profile r) \<and>
      lookup files ''metadata.json'' = Some metadata_raw \<and>
      validate_metadata (se_floats (g_schema E)) (g_text E) metadata_raw = Inr (rv_metadata r) \<and>
      validate_asset (g_schema E) (rv_profile r) (md_asset (rv_metadata r)) = None \<and>
      lookup files ''typed-data.json'' = Some typed_raw \<and> parse_typed_data (g_typed E) typed_raw = Inr (rv_typed r))"

lemma package_file_Inr [simp]: "package_file name files = Inr d \<longleftrightarrow> lookup files name = Some d"
  by (simp add: package_file_def split: option.splits)

lemma review_package_run:
  assumes "review_package E f = Inr r"
  shows "check_flags f = Inr () \<and> reviewed E f r \<and>
    check_documents (rv_policy r) (rv_manifest r) (rv_profile r) (rv_metadata r) = Inr () \<and>
    check_typed E (rv_policy r) (rv_manifest r) (rv_profile r) (rv_metadata r) (rv_typed r) = Inr ()"
proof -
  obtain pol bytes m files praw prof mraw meta traw td where
    "check_flags f = Inr ()" "load_policy (g_policy E) (g_text E) (g_addr E) (g_read_file E (sg_policy_path f)) = Inr pol"
    "read_package_file (g_package E) max_compressed_size = Some bytes" "open_package E bytes = Inr (m, files)"
    "lookup files ''profile.json'' = Some praw" "validate_profile (g_schema E) (g_text E) praw = Inr prof"
    "lookup files ''metadata.json'' = Some mraw" "validate_metadata (se_floats (g_schema E)) (g_text E) mraw = Inr meta"
    "validate_asset (g_schema E) prof (md_asset meta) = None" "check_documents pol m prof meta = Inr ()"
    "lookup files ''typed-data.json'' = Some traw" "parse_typed_data (g_typed E) traw = Inr td"
    "check_typed E pol m prof meta td = Inr ()"
    "r = \<lparr>rv_policy = pol, rv_manifest = m, rv_profile = prof, rv_metadata = meta, rv_typed = td\<rparr>"
    using assms by (auto simp: review_package_def andE_Inr split: option.splits prod.splits)
  then show ?thesis unfolding reviewed_def by auto
qed

lemma run_sign_run:
  assumes "run_sign E f w = (Inr (), w')"
  obtains r digest hash sig addr u where "review_package E f = Inr r"
    and "check_expiry (g_text E) (rv_policy r) (rv_metadata r) (rv_typed r) (g_now E (gw_tick w)) = Inr ()"
    and "attestation_digest (g_keccak E) (g_addr E) (rv_typed r) = Inr digest"
    and "hash_to_sign (g_keccak E) (g_addr E) (rv_policy r) (rv_typed r) digest = Inr hash" and "confirmed E f = Inr ()"
    and "sign_digest E f hash (w\<lparr>gw_tick := Suc (gw_tick w)\<rparr>) = (Inr (sig, addr), u)"
    and "finish E (rv_policy r) (rv_typed r) digest hash sig addr u = (Inr (), w')"
  using assms unfolding run_sign_def by (auto simp: bind_Inr split: prod.splits)

section \<open>Hashes in text\<close>

definition bytes_word :: "byte list \<Rightarrow> u256" where
  "bytes_word bs = of_nat (foldl (\<lambda>n b. n * 256 + unat b) 0 bs)"

lemma foldl_be_bytes: "foldl (\<lambda>n b. n * 256 + unat b) 0 (be_bytes k v) = v mod 256 ^ k"
proof (induction k arbitrary: v)
  case (Suc k)
  have "unat (word_of_nat (v mod 256) :: byte) = v mod 256" by (simp add: unat_of_nat)
  then show ?case using Suc [of "v div 256"] by (simp add: mod_mult2_eq)
qed simp

lemma bytes_word_hash [simp]: "bytes_word (hash_bytes h) = h"
proof -
  have "unat h < 256 ^ 32" using unsigned_less [of h] by simp
  then show ?thesis unfolding bytes_word_def hash_bytes_def foldl_be_bytes by simp
qed

lemma decode_hex_lower: "decode_hex (to_lower s) = decode_hex s"
proof -
  have "hex_value (to_lower_char c) = hex_value c" for c
    by (auto simp: hex_value_def to_lower_char_def Let_def)
  then show ?thesis
    by (induction s rule: decode_hex.induct) (simp_all add: to_lower_def)
qed

text \<open>What is relied on of go-ethereum: addresses and hashes do not depend on the case of their text, and hex is decoded.\<close>

definition addr_law :: "addr_env \<Rightarrow> bool" where
  "addr_law A \<longleftrightarrow> (\<forall>s t. equal_fold s t \<longrightarrow> ad_parse A s = ad_parse A t) \<and>
     (\<forall>s bs. prefixed_hex 64 s \<longrightarrow> decode_hex (drop 2 s) = Some bs \<longrightarrow> ad_from_hex A s = bs) \<and>
     (\<forall>s t. equal_fold s t \<longrightarrow> ad_hash A s = ad_hash A t)"

lemma hex_text_word:
  assumes "addr_law A" and "prefixed_hex 64 s" and "to_lower s = ''0x'' @ hex_bytes bs"
  shows "hex_to_hash32 A s = bytes_word bs"
proof -
  have "to_lower (drop 2 s) = hex_bytes bs" using assms(3) by (simp add: to_lower_def flip: drop_map)
  then have "decode_hex (drop 2 s) = Some bs" using decode_hex_lower [of "drop 2 s"] decode_hex_bytes [of bs] by simp
  then show ?thesis using assms(1,2) by (simp add: addr_law_def hex_to_hash32_def bytes_word_def)
qed

lemma to_lower_sha_hex: "to_lower (sha_hex bs) = sha_hex bs"
  using to_lower_hex_bytes [of bs] by (simp add: sha_hex_def to_lower_def to_lower_char_def)

lemma digest_text_word:
  assumes "addr_law A" and "prefixed_hex 64 s" and "equal_fold s (sha_hex bs)"
  shows "hex_to_hash32 A s = bytes_word bs"
  using assms to_lower_sha_hex [of bs] by (intro hex_text_word) (simp_all add: equal_fold_def sha_hex_def)

section \<open>What is signed is what the policy and the documents say\<close>

lemma sg_mint_run: "sg_mint_digest K d m = Inr x \<Longrightarrow> mint_digest K (server_domain d) m = Some x"
  by (auto simp: sg_mint_digest_def mint_digest_def sg_separator_Inr sg_mint_struct_Inr sg_digest_eip split: sum.splits)

lemma sg_burn_run: "sg_burn_digest K d b = Inr x \<Longrightarrow> burn_digest K (server_domain d) b = Some x"
  by (auto simp: sg_burn_digest_def burn_digest_def sg_separator_Inr sg_burn_struct_Inr sg_digest_eip split: sum.splits)

definition policy_domain :: "addr_env \<Rightarrow> policy \<Rightarrow> sg_domain" where
  "policy_domain A pol = \<lparr>sd_chain_id = big_set_string (pl_chain_id pol), sd_contract = ad_parse A (pl_controller pol)\<rparr>"

text \<open>The attestations whose terms are those of the policy, the profile and the metadata.\<close>

definition mint_agreed :: "keccak \<Rightarrow> addr_env \<Rightarrow> policy \<Rightarrow> ('b, 'r) profile \<Rightarrow> metadata_doc \<Rightarrow> mint_attestation \<Rightarrow> bool" where
  "mint_agreed K A pol prof meta m \<longleftrightarrow>
    ma_auditor m = ad_parse A (pl_auditor pol) \<and> ma_vault m = ad_parse A (pl_vault pol) \<and>
    ma_profile_digest m = bytes_word (pf_digest prof) \<and> ma_metadata_digest m = bytes_word (md_digest meta) \<and>
    ma_amount m = big_set_string (md_amount meta) \<and> ma_record_key m = record_key K (md_record_id meta)"

definition burn_agreed :: "addr_env \<Rightarrow> policy \<Rightarrow> ('b, 'r) profile \<Rightarrow> metadata_doc \<Rightarrow> burn_attestation \<Rightarrow> bool" where
  "burn_agreed A pol prof meta b \<longleftrightarrow>
    ba_auditor b = ad_parse A (pl_auditor pol) \<and> ba_vault b = ad_parse A (pl_vault pol) \<and>
    ba_profile_digest b = bytes_word (pf_digest prof) \<and> ba_metadata_digest b = bytes_word (md_digest meta) \<and>
    ba_amount b = big_set_string (md_amount meta)"

text \<open>Until when, in seconds: after now, and within the policy's lifetime of now and of the metadata.\<close>

definition in_time :: "text_env \<Rightarrow> policy \<Rightarrow> metadata_doc \<Rightarrow> gotime \<Rightarrow> u64 \<Rightarrow> bool" where
  "in_time T pol meta now until \<longleftrightarrow>
    (\<exists>created. tn_time T (md_created_at meta) = Some created \<and> now < uint until * 10 ^ 9 \<and>
      uint until * 10 ^ 9 \<le> now + pl_lifetime pol \<and> uint until * 10 ^ 9 \<le> created + pl_lifetime pol)"

definition agreed_digest ::
    "keccak \<Rightarrow> text_env \<Rightarrow> addr_env \<Rightarrow> policy \<Rightarrow> ('b, 'r) profile \<Rightarrow> metadata_doc \<Rightarrow> gotime \<Rightarrow> u256 \<Rightarrow> bool" where
  "agreed_digest K T A pol prof meta now digest \<longleftrightarrow>
    (\<exists>m. mint_digest K (server_domain (policy_domain A pol)) m = Some digest \<and> mint_agreed K A pol prof meta m \<and>
       in_time T pol meta now (ma_valid_until m)) \<or>
    (\<exists>b. burn_digest K (server_domain (policy_domain A pol)) b = Some digest \<and> burn_agreed A pol prof meta b \<and>
       in_time T pol meta now (ba_valid_until b))"

lemma unix_time_future:
  fixes w :: u64
  assumes "0 \<le> now" and "now < unix_instant (sint w)"
  shows "unix_instant (sint w) = uint w * 10 ^ 9"
proof -
  have range: "- (2 ^ 63) \<le> sint w" "sint w < 2 ^ 63" using sint_range_size [of w] by (simp_all add: word_size)
  have pos: "0 < int64_wrap (sint w + 62135596800) - 62135596800" using assms by (simp add: unix_instant_def zero_less_mult_iff)
  have exact: "int64_wrap (sint w + 62135596800) = sint w + 62135596800"
  proof (cases "sint w + 62135596800 < 2 ^ 63")
    case True
    then show ?thesis using range by (simp add: int64_wrap_def)
  next
    case False
    define y where "y = sint w + 62135596800 - 2 ^ 63"
    have "0 \<le> y" "y < 2 ^ 64" using False range by (simp_all add: y_def)
    then have "(y + 2 ^ 64) mod 2 ^ 64 = y" by simp
    moreover have "sint w + 62135596800 + 2 ^ 63 = y + 2 ^ 64" by (simp add: y_def)
    ultimately have "int64_wrap (sint w + 62135596800) = y - 2 ^ 63" by (simp only: int64_wrap_def)
    then have "int64_wrap (sint w + 62135596800) = sint w + 62135596800 - 2 ^ 64" by (simp add: y_def)
    then show ?thesis using pos range by (simp add: int64_wrap_def)
  qed
  then have "0 < sint w" using pos by simp
  then have "sint w = uint w"
    using range uint_sint [of w] by (simp add: take_bit_eq_mod)
  then show ?thesis using exact by (simp add: unix_instant_def)
qed

lemma parse_typed_run:
  assumes "parse_typed_data V raw = Inr td"
  shows "(td_primary_type td = mint_type \<or> td_primary_type td = burn_type) \<and> prefixed_hex 64 (td_profile_digest td) \<and>
    prefixed_hex 64 (td_metadata_digest td) \<and> (td_primary_type td = mint_type \<longrightarrow> prefixed_hex 64 (td_record_key td))"
  using assms by (auto simp: parse_typed_data_def andE_Inr check_typed_ids_def split: option.splits if_splits)

lemma check_typed_run:
  assumes "check_typed E pol m prof meta td = Inr ()"
  shows "equal_fold (td_profile_digest td) (sha_hex (pf_digest prof)) \<and> equal_fold (td_metadata_digest td) (sha_hex (md_digest meta)) \<and>
    check_amounts (g_keccak E) meta td = Inr () \<and> pl_chain_id pol = td_chain_id td \<and> equal_fold (pl_controller pol) (td_contract td) \<and>
    equal_fold (pl_vault pol) (td_vault td) \<and> equal_fold (pl_auditor pol) (td_auditor td)"
  using assms by (auto simp: check_typed_def andE_Inr same_text_def split: option.splits)

lemma check_amounts_run:
  assumes "check_amounts K meta td = Inr ()"
  shows "big_set_string (td_amount td) = big_set_string (md_amount meta) \<and>
    (td_primary_type td = mint_type \<longrightarrow> to_lower (td_record_key td) = hash_hex (record_key K (md_record_id meta)))"
  using assms by (auto simp: check_amounts_def andE_Inr same_text_def split: option.splits if_splits)

lemma check_expiry_run:
  assumes "check_expiry T pol meta td now = Inr ()" and "0 \<le> now"
  shows "in_time T pol meta now (td_valid_until td)"
proof -
  obtain created where c: "tn_time T (md_created_at meta) = Some created" "now < unix_instant (sint (td_valid_until td))"
    "unix_instant (sint (td_valid_until td)) \<le> created + pl_lifetime pol" "unix_instant (sint (td_valid_until td)) \<le> now + pl_lifetime pol"
    using assms(1) by (auto simp: check_expiry_def andE_Inr Let_def split: option.splits if_splits)
  then show ?thesis using unix_time_future [OF assms(2) c(2)] by (auto simp: in_time_def)
qed

lemma digest_agreed:
  assumes law: "addr_law A" and "parse_typed_data V raw = Inr td" and "check_typed E pol m prof meta td = Inr ()"
    and "check_expiry T pol meta td now = Inr ()" and "0 \<le> now" and digest: "attestation_digest (g_keccak E) A td = Inr digest"
  shows "agreed_digest (g_keccak E) T A pol prof meta now digest"
proof -
  note t = parse_typed_run [OF assms(2)] and c = check_typed_run [OF assms(3)]
  note a = check_amounts_run [OF c [THEN conjunct2, THEN conjunct2, THEN conjunct1]]
  note time = check_expiry_run [OF assms(4,5)]
  have dom: "typed_domain A td = policy_domain A pol"
    using c law by (auto simp: typed_domain_def policy_domain_def addr_law_def)
  have words: "hex_to_hash32 A (td_profile_digest td) = bytes_word (pf_digest prof)"
    "hex_to_hash32 A (td_metadata_digest td) = bytes_word (md_digest meta)"
    using t c by (intro digest_text_word [OF law]; simp)+
  have addrs: "ad_parse A (td_auditor td) = ad_parse A (pl_auditor pol)" "ad_parse A (td_vault td) = ad_parse A (pl_vault pol)"
    using c law unfolding addr_law_def by metis+
  show ?thesis
  proof (cases "td_primary_type td = mint_type")
    case True
    have "hex_to_hash32 A (td_record_key td) = bytes_word (hash_bytes (record_key (g_keccak E) (md_record_id meta)))"
      using t a True by (intro hex_text_word [OF law]) (simp_all add: hash_hex_def)
    then have "mint_agreed (g_keccak E) A pol prof meta (typed_mint A td)"
      using words addrs a by (simp add: mint_agreed_def typed_mint_def)
    moreover have "mint_digest (g_keccak E) (server_domain (policy_domain A pol)) (typed_mint A td) = Some digest"
      using digest True by (auto simp: attestation_digest_def dom intro!: sg_mint_run)
    moreover have "ma_valid_until (typed_mint A td) = td_valid_until td" by (simp add: typed_mint_def)
    ultimately show ?thesis using time unfolding agreed_digest_def by metis
  next
    case False
    have "burn_agreed A pol prof meta (typed_burn A td)"
      using words addrs a by (simp add: burn_agreed_def typed_burn_def)
    moreover have "burn_digest (g_keccak E) (server_domain (policy_domain A pol)) (typed_burn A td) = Some digest"
      using digest False t by (auto simp: attestation_digest_def dom intro!: sg_burn_run)
    moreover have "ba_valid_until (typed_burn A td) = td_valid_until td" by (simp add: typed_burn_def)
    ultimately show ?thesis using time unfolding agreed_digest_def by metis
  qed
qed

section \<open>What a run leaves\<close>

fun written_digest :: "written_file \<Rightarrow> string" where
  "written_digest (WroteResult r) = rs_digest r"
| "written_digest (WroteShare s) = sh_digest s"

fun written_signature :: "written_file \<Rightarrow> string" where
  "written_signature (WroteResult r) = rs_signature r"
| "written_signature (WroteShare s) = sh_signature s"

text \<open>Actions that write no result\<close>

definition unwritten :: "'a sgm \<Rightarrow> bool" where
  "unwritten m \<longleftrightarrow> (\<forall>w. gw_written (snd (m w)) = gw_written w)"

lemma unwrittenD: "unwritten m \<Longrightarrow> m w = (r, u) \<Longrightarrow> gw_written u = gw_written w"
  unfolding unwritten_def by (metis snd_conv)

lemma unwritten_bind: "unwritten m \<Longrightarrow> (\<And>x. unwritten (f x)) \<Longrightarrow> unwritten (bindM m f)"
  unfolding unwritten_def bindM_def by (simp split: prod.splits sum.splits) (metis snd_conv)

lemma unwritten_plain [simp, intro]:
  "unwritten (ret x)" "unwritten (raise e)" "unwritten (liftE r)" "unwritten (guardM b e)" "unwritten tick"
  by (simp_all add: unwritten_def ret_def raise_def liftE_def guardM_def tick_def)

lemma unwritten_files [simp, intro]: "unwritten (file_call E)"
  by (simp add: unwritten_def file_call_def split: prod.splits)

lemma unwritten_append [simp, intro]: "unwritten (append_event E event attrs)"
  unfolding append_event_def by (intro unwritten_bind unwritten_files) (simp add: unwritten_def split: prod.splits)

lemma unwritten_steps [simp, intro]:
  "unwritten (check_logs E)" "unwritten (check_lockout E)" "unwritten (clear_throttle E)" "unwritten (unlock_failed E err)"
  "unwritten (audited f what ok)"
  unfolding check_logs_def check_lockout_def clear_throttle_def unlock_failed_def audited_def
  by (intro unwritten_bind unwritten_files unwritten_append unwritten_plain; simp add: unwritten_def modifyM_def split: option.splits)+

lemma unwritten_unlocked: "unwritten (sign_unlocked E f digest priv addr)"
  unfolding sign_unlocked_def by (intro unwritten_bind unwritten_steps unwritten_append unwritten_plain)

lemma unwritten_sign_digest: "unwritten (sign_digest E f digest)"
proof -
  have "unwritten (case load_key (g_key E) (g_key_file E n) pw of Inl err \<Rightarrow> unlock_failed E err
      | Inr (priv, addr) \<Rightarrow> sign_unlocked E f digest priv addr)" for n pw
    by (auto simp: unwritten_unlocked split: sum.splits)
  then have "unwritten (bindM (check_logs E) (\<lambda>_. bindM (check_lockout E) (\<lambda>_. bindM (liftE (get_password E f)) (\<lambda>pw.
      bindM tick (\<lambda>n. case load_key (g_key E) (g_key_file E n) pw of Inl err \<Rightarrow> unlock_failed E err
        | Inr (priv, addr) \<Rightarrow> sign_unlocked E f digest priv addr)))))"
    by (intro unwritten_bind unwritten_steps unwritten_plain)
  then show ?thesis by (simp add: sign_digest_def)
qed

lemma validated_result: "new_result T now a p d sg = Inr x \<Longrightarrow> rs_digest x = d \<and> rs_signature x = sg"
  by (auto simp: new_result_def Let_def andE_Inr)

lemma validated_share: "new_share T now sf c ow p d h sg = Inr x \<Longrightarrow> sh_digest x = d \<and> sh_signature x = sg"
  by (auto simp: new_share_def Let_def andE_Inr)

lemma write_out_run:
  "write_out E file w = (Inr (), w') \<Longrightarrow> gw_written w' = gw_written w @ [file] \<and> gw_logs w' = gw_logs w"
  by (auto simp: write_out_def bind_Inr split: if_splits)

lemma finish_run:
  assumes "finish E pol td digest hash sig addr w = (Inr (), w')"
  shows "(\<exists>x. gw_written w' = gw_written w @ [x] \<and> written_digest x = hash_hex digest \<and> written_signature x = sha_hex sig) \<and>
    gw_logs w' = gw_logs w \<and>
    (case pl_safe pol of None \<Rightarrow> addr = ad_parse (g_addr E) (td_auditor td) | Some s \<Rightarrow> is_owner s addr)"
proof (cases "pl_safe pol")
  case None
  then obtain r u where "addr = ad_parse (g_addr E) (td_auditor td)" "write_out E (WroteResult r) u = (Inr (), w')"
    "gw_written u = gw_written w" "gw_logs u = gw_logs w" "rs_digest r = hash_hex digest" "rs_signature r = sha_hex sig"
    using assms by (auto simp: finish_def Let_def bind_Inr write_result_def dest!: validated_result)
  then show ?thesis using None write_out_run [of E "WroteResult r" u w'] by auto
next
  case (Some s)
  then obtain r u where "is_owner s addr" "write_out E (WroteShare r) u = (Inr (), w')"
    "gw_written u = gw_written w" "gw_logs u = gw_logs w" "sh_digest r = hash_hex digest" "sh_signature r = sha_hex sig"
    using assms by (auto simp: finish_def Let_def bind_Inr write_share_def dest!: validated_share)
  then show ?thesis using Some write_out_run [of E "WroteShare r" u w'] by auto
qed

text \<open>
  The signer signs only what the auditor's policy and the verified documents say. A run that succeeds
  wrote one file, for the digest that the server computes of an attestation on the policy's chain and
  controller: its auditor and vault are the policy's, its digests those of the canonical profile and metadata
  in the package, its amount the metadata's, a mint's key that of the metadata's record; its
  deadline is ahead and within the policy's lifetime of now and of the metadata. The policy names this profile
  and project.
\<close>

theorem signed_is_agreed:
  assumes "run_sign E f w = (Inr (), w')" and "addr_law (g_addr E)" and "0 \<le> g_now E (gw_tick w)"
  shows "\<exists>r digest x. reviewed E f r \<and>
    agreed_digest (g_keccak E) (g_text E) (g_addr E) (rv_policy r) (rv_profile r) (rv_metadata r) (g_now E (gw_tick w)) digest \<and>
    equal_fold (pl_profile_digest (rv_policy r)) (sha_hex (pf_digest (rv_profile r))) \<and>
    pl_project_id (rv_policy r) = pf_project_id (rv_profile r) \<and> md_project_id (rv_metadata r) = pf_project_id (rv_profile r) \<and>
    gw_written w' = gw_written w @ [x] \<and> written_digest x = hash_hex digest"
proof -
  obtain r digest hash sig addr u where run: "review_package E f = Inr r"
    "check_expiry (g_text E) (rv_policy r) (rv_metadata r) (rv_typed r) (g_now E (gw_tick w)) = Inr ()"
    "attestation_digest (g_keccak E) (g_addr E) (rv_typed r) = Inr digest"
    "sign_digest E f hash (w\<lparr>gw_tick := Suc (gw_tick w)\<rparr>) = (Inr (sig, addr), u)"
    "finish E (rv_policy r) (rv_typed r) digest hash sig addr u = (Inr (), w')"
    by (rule run_sign_run [OF assms(1)])
  note rev = review_package_run [OF run(1)]
  obtain raw where "parse_typed_data (g_typed E) raw = Inr (rv_typed r)" using rev by (auto simp: reviewed_def)
  then have "agreed_digest (g_keccak E) (g_text E) (g_addr E) (rv_policy r) (rv_profile r) (rv_metadata r) (g_now E (gw_tick w)) digest"
    using rev run(2,3) assms(2,3) by (intro digest_agreed [where m = "rv_manifest r"]) simp_all
  moreover have "gw_written u = gw_written w" using unwrittenD [OF unwritten_sign_digest run(4)] by simp
  moreover have "equal_fold (pl_profile_digest (rv_policy r)) (sha_hex (pf_digest (rv_profile r)))"
    "pl_project_id (rv_policy r) = pf_project_id (rv_profile r)" "md_project_id (rv_metadata r) = pf_project_id (rv_profile r)"
    using rev by (auto simp: check_documents_def andE_Inr same_text_def)
  ultimately show ?thesis using finish_run [OF run(5)] rev by metis
qed

section \<open>Consent, the key and the record\<close>

text \<open>Actions that leave the written files alone when they fail\<close>

definition clean_failure :: "'a sgm \<Rightarrow> bool" where
  "clean_failure m \<longleftrightarrow> (\<forall>w e u. m w = (Inl e, u) \<longrightarrow> gw_written u = gw_written w)"

lemma clean_bind:
  assumes "unwritten m" and "\<And>x. clean_failure (f x)"
  shows "clean_failure (bindM m f)"
  unfolding clean_failure_def
proof (intro allI impI)
  fix w e u
  assume run: "bindM m f w = (Inl e, u)"
  obtain r t where m: "m w = (r, t)" by fastforce
  show "gw_written u = gw_written w"
  proof (cases r)
    case (Inl x)
    then show ?thesis using run m unwrittenD [OF assms(1) m] by (simp add: bindM_def)
  next
    case (Inr x)
    then have "f x t = (Inl e, u)" using run m by (simp add: bindM_def)
    then show ?thesis using assms(2) unwrittenD [OF assms(1) m] unfolding clean_failure_def by metis
  qed
qed

lemma clean_unwritten: "unwritten m \<Longrightarrow> clean_failure m"
  unfolding clean_failure_def using unwrittenD by blast

lemma clean_write_out: "clean_failure (write_out E file)"
  by (auto simp: clean_failure_def write_out_def bindM_def tick_def split: if_splits)

lemma clean_finish: "clean_failure (finish E pol td digest hash sig addr)"
  unfolding finish_def Let_def write_result_def write_share_def
  by (intro clean_bind unwritten_plain) (auto intro!: clean_bind clean_write_out split: option.splits)

lemma clean_run_sign: "clean_failure (run_sign E f)"
  unfolding run_sign_def
  by (intro clean_bind unwritten_plain unwritten_sign_digest) (auto intro: clean_finish split: prod.splits)

lemma append_audit_event_ok:
  "append_audit_event C F t event attrs files = (None, logs) \<Longrightarrow>
    \<exists>n h. kf_main logs = Some ((case kf_main files of None \<Rightarrow> [] | Some d \<Rightarrow> d) @ event_line (new_event C n h t event attrs) @ [newline])"
  by (auto simp: append_audit_event_def append_durable_def Let_def split: if_splits sum.splits write_outcome.splits prod.splits) blast

lemma append_event_run:
  assumes "append_event E event attrs w = (Inr None, u)"
  shows "\<exists>old e. kf_main (gw_logs u) = Some (old @ event_line e @ [newline]) \<and> ev_event e = event \<and> ev_fields e = attrs \<and>
    ev_hash e = hash_event (g_log E) e"
proof -
  obtain n v where call: "file_call E w = (Inr n, v)"
    and rest: "(case append_audit_event (g_log E) (g_faults E n) (g_stamp E n) event attrs (gw_logs v) of
      (r, logs) \<Rightarrow> (Inr r, v\<lparr>gw_logs := logs\<rparr>)) = (Inr None :: sign_error + log_error option, u)"
    using assms unfolding append_event_def bind_Inr by blast
  have "append_audit_event (g_log E) (g_faults E n) (g_stamp E n) event attrs (gw_logs v) = (None, gw_logs u)"
    using rest by (cases "append_audit_event (g_log E) (g_faults E n) (g_stamp E n) event attrs (gw_logs v)") auto
  then obtain seq h where "kf_main (gw_logs u) = Some ((case kf_main (gw_logs v) of None \<Rightarrow> [] | Some d \<Rightarrow> d) @
       event_line (new_event (g_log E) seq h (g_stamp E n) event attrs) @ [newline])"
    using append_audit_event_ok by blast
  then show ?thesis using new_event_hash [of "g_log E"] new_event_simps by metis
qed

lemma sign_digest_run:
  assumes "sign_digest E f digest w = (Inr (sig, addr), u)"
  shows "(\<exists>priv pw n. load_key (g_key E) (g_key_file E n) pw = Inr (priv, addr) \<and> sg_sign (g_sign E) digest priv = Inr sig) \<and>
    (\<not> sg_unsafe f \<longrightarrow> (\<exists>v. append_event E ''signed'' [(''address'', ad_hex (g_addr E) addr), (''digest'', hash_hex digest)] v = (Inr None, u)))"
proof -
  obtain pw n v where load: "(case load_key (g_key E) (g_key_file E n) pw of Inl err \<Rightarrow> unlock_failed E err
      | Inr (priv, addr) \<Rightarrow> sign_unlocked E f digest priv addr) v = (Inr (sig, addr), u)"
    using assms unfolding sign_digest_def by (auto simp: bind_Inr raise_def split: if_splits)
  have failed: "unlock_failed E err v \<noteq> (Inr x, u)" for err and x :: "byte list \<times> address"
    by (auto simp: unlock_failed_def bind_Inr raise_def)
  obtain priv addr' where key: "load_key (g_key E) (g_key_file E n) pw = Inr (priv, addr')"
    using load failed by (cases "load_key (g_key E) (g_key_file E n) pw") auto
  then show ?thesis using load by (auto simp: sign_unlocked_def bind_Inr audited_def ret_def)
qed

text \<open>
  No signature without consent, the right key and a record. A run that succeeds was confirmed, or
  had both flags that skip it; the signature is by a loaded key whose address is the policy's auditor, or an owner
  of its Safe; and unless test mode was asked for, the log ends with the event of this very signature.
  A run that fails leaves no result.
\<close>

theorem signature_needs_consent_and_record:
  assumes "run_sign E f w = (res, w')" and "addr_law (g_addr E)"
  shows "case res of
      Inl _ \<Rightarrow> gw_written w' = gw_written w
    | Inr _ \<Rightarrow> (if sg_yes f then sg_unsafe f else g_confirm E = Some True) \<and>
        (\<exists>r hash sig priv addr pw n x. reviewed E f r \<and>
          load_key (g_key E) (g_key_file E n) pw = Inr (priv, addr) \<and> sg_sign (g_sign E) hash priv = Inr sig \<and>
          (case pl_safe (rv_policy r) of None \<Rightarrow> addr = ad_parse (g_addr E) (pl_auditor (rv_policy r)) | Some s \<Rightarrow> addr \<in> set (sf_owners s)) \<and>
          gw_written w' = gw_written w @ [x] \<and> written_signature x = sha_hex sig \<and>
          (\<not> sg_unsafe f \<longrightarrow> (\<exists>old e. kf_main (gw_logs w') = Some (old @ event_line e @ [newline]) \<and> ev_event e = ''signed'' \<and>
             ev_fields e = [(''address'', ad_hex (g_addr E) addr), (''digest'', hash_hex hash)] \<and> ev_hash e = hash_event (g_log E) e)))"
proof (cases res)
  case (Inl e)
  then show ?thesis using clean_run_sign [of E f] assms(1) by (auto simp: clean_failure_def)
next
  case (Inr x)
  then have "run_sign E f w = (Inr (), w')" using assms(1) by simp
  then obtain r digest hash sig addr u where run: "review_package E f = Inr r" "confirmed E f = Inr ()"
    "sign_digest E f hash (w\<lparr>gw_tick := Suc (gw_tick w)\<rparr>) = (Inr (sig, addr), u)"
    "finish E (rv_policy r) (rv_typed r) digest hash sig addr u = (Inr (), w')"
    by (rule run_sign_run)
  note rev = review_package_run [OF run(1)] and fin = finish_run [OF run(4)] and sd = sign_digest_run [OF run(3)]
  have consent: "if sg_yes f then sg_unsafe f else g_confirm E = Some True"
    using rev run(2) by (auto simp: confirmed_def check_flags_def andE_Inr split: option.splits if_splits)
  have "equal_fold (pl_auditor (rv_policy r)) (td_auditor (rv_typed r))" using rev check_typed_run by blast
  then have auditor: "ad_parse (g_addr E) (td_auditor (rv_typed r)) = ad_parse (g_addr E) (pl_auditor (rv_policy r))"
    using assms(2) unfolding addr_law_def by metis
  have signer: "case pl_safe (rv_policy r) of None \<Rightarrow> addr = ad_parse (g_addr E) (pl_auditor (rv_policy r)) | Some s \<Rightarrow> addr \<in> set (sf_owners s)"
    using fin auditor by (auto simp: is_owner_def list_ex_iff split: option.splits)
  have logged: "\<exists>old e. kf_main (gw_logs w') = Some (old @ event_line e @ [newline]) \<and> ev_event e = ''signed'' \<and>
      ev_fields e = [(''address'', ad_hex (g_addr E) addr), (''digest'', hash_hex hash)] \<and> ev_hash e = hash_event (g_log E) e"
    if "\<not> sg_unsafe f" using sd that append_event_run fin by metis
  have "gw_written u = gw_written w" using unwrittenD [OF unwritten_sign_digest run(3)] by simp
  then obtain y where y: "gw_written w' = gw_written w @ [y]" "written_signature y = sha_hex sig" using fin by metis
  obtain priv pw n where key: "load_key (g_key E) (g_key_file E n) pw = Inr (priv, addr)" "sg_sign (g_sign E) hash priv = Inr sig"
    using sd by blast
  have rv: "reviewed E f r" using rev by blast
  show ?thesis unfolding Inr sum.case using consent rv key signer y logged by blast
qed

section \<open>Combined signatures\<close>

text \<open>The hash that a share of the text of a digest signs.\<close>

definition share_hash :: "('f, 'b, 'r, 'h, 'k) sign_env \<Rightarrow> policy \<Rightarrow> string \<Rightarrow> attest_error + u256" where
  "share_hash E pol text =
    safe_message_hash (g_keccak E) (big_set_string (pl_chain_id pol)) (ad_parse (g_addr E) (pl_auditor pol)) (ad_hash (g_addr E) text)"

definition shares_ok :: "('f, 'b, 'r, 'h, 'k) sign_env \<Rightarrow> policy \<Rightarrow> safe \<Rightarrow> signature_share option \<Rightarrow> (address, byte list) store \<Rightarrow> bool" where
  "shares_ok E pol s first sigs \<longleftrightarrow> distinct (map fst sigs) \<and>
    (\<forall>ow sig. lookup sigs ow = Some sig \<longrightarrow> ow \<in> set (sf_owners s) \<and>
      (\<exists>f hash. first = Some f \<and> share_hash E pol (sh_digest f) = Inr hash \<and> sg_recover (g_recover E) hash sig = Inr ow))"

lemma check_share_ok:
  assumes "check_share E pol s path f share sigs = Inr sigs'" and "addr_law (g_addr E)"
    and "shares_ok E pol s first sigs" and "first = None \<longrightarrow> sigs = []" and "first \<noteq> None \<longrightarrow> first = Some f"
  shows "shares_ok E pol s (Some f) sigs'"
proof -
  obtain hash sig signer where c: "equal_fold (sh_digest share) (sh_digest f)" "share_hash E pol (sh_digest share) = Inr hash"
    "sg_recover (g_recover E) hash sig = Inr signer" "is_owner s signer" "lookup sigs signer = None" "sigs' = put signer sig sigs"
    using assms(1) [unfolded check_share_def Let_def andE_Inr needE_Inr lift_error_Inr sum.inject, folded share_hash_def]
    by (elim exE conjE) (rule that, assumption+, simp)
  have "share_hash E pol (sh_digest f) = Inr hash"
    using c(1,2) assms(2) unfolding share_hash_def addr_law_def by metis
  moreover have "signer \<in> set (sf_owners s)" using c(4) by (auto simp: is_owner_def list_ex_iff)
  moreover have "shares_ok E pol s (Some f) sigs" using assms(3-5) by (cases first) (auto simp: shares_ok_def)
  ultimately show ?thesis using c(3) unfolding shares_ok_def c(6) by (auto simp: lookup_put distinct_update)
qed

lemma check_shares_ok:
  assumes "check_shares E pol s first sigs paths = Inr (first', sigs')" and "addr_law (g_addr E)"
    and "shares_ok E pol s first sigs" and "first = None \<longrightarrow> sigs = []"
  shows "shares_ok E pol s first' sigs'"
  using assms
proof (induction paths arbitrary: first sigs)
  case (Cons path paths)
  obtain share sigs1 where run: "check_share E pol s path (case first of None \<Rightarrow> share | Some x \<Rightarrow> x) share sigs = Inr sigs1"
    "check_shares E pol s (Some (case first of None \<Rightarrow> share | Some x \<Rightarrow> x)) sigs1 paths = Inr (first', sigs')"
    using Cons.prems(1) by (auto simp: andE_Inr Let_def)
  have "shares_ok E pol s (Some (case first of None \<Rightarrow> share | Some x \<Rightarrow> x)) sigs1"
    using Cons.prems(3,4) by (intro check_share_ok [OF run(1) Cons.prems(2)]) (auto split: option.splits)
  then show ?case by (intro Cons.IH [OF run(2) Cons.prems(2)]) simp_all
qed simp

text \<open>
  A combined signature satisfies the Safe. Joining shares succeeds only if it writes the signatures, in
  strictly ascending order of their owners, of at least the policy's threshold of its owners, each
  65 bytes with a plain recovery id that recovers to its owner from the Safe's message hash of the
  digest written with them.
\<close>

theorem combined_signature_valid:
  assumes "run_combine E policy_path paths w = (Inr (), w')" and "addr_law (g_addr E)"
  shows "\<exists>pol s r hash owners ss. load_policy (g_policy E) (g_text E) (g_addr E) (g_read_file E policy_path) = Inr pol \<and>
    pl_safe pol = Some s \<and> gw_written w' = gw_written w @ [WroteResult r] \<and> share_hash E pol (rs_digest r) = Inr hash \<and>
    rs_signature r = sha_hex (concat ss) \<and> length ss = length owners \<and> sf_threshold s \<le> int (length owners) \<and>
    sorted owners \<and> distinct owners \<and> set owners \<subseteq> set (sf_owners s) \<and>
    (\<forall>i < length owners. length (ss ! i) = 65 \<and> (ss ! i ! 64 = 27 \<or> ss ! i ! 64 = 28) \<and>
      sg_recover (g_recover E) hash (ss ! i) = Inr (owners ! i))"
proof -
  obtain pol f bytes s sigs where run: "load_policy (g_policy E) (g_text E) (g_addr E) (g_read_file E policy_path) = Inr pol"
    "pl_safe pol = Some s" "check_shares E pol s None [] paths = Inr (Some f, sigs)" "sf_threshold s \<le> int (length sigs)"
    "combine_safe_signatures sigs = Inr bytes"
    and out: "bindM tick (\<lambda>n. write_result E (lift_error OutputBad (new_result (g_text E) (g_stamp E n)
        (ad_hex (g_addr E) (ad_parse (g_addr E) (pl_auditor pol))) (sh_primary_type f) (sh_digest f) (sha_hex bytes)))) w = (Inr (), w')"
    using assms(1) by (auto simp: run_combine_def combined_shares_def bind_Inr andE_Inr not_less split: option.splits prod.splits)
  obtain r u where r: "write_out E (WroteResult r) u = (Inr (), w')" "gw_written u = gw_written w" "rs_digest r = sh_digest f"
    "rs_signature r = sha_hex bytes"
    using out by (auto simp: bind_Inr write_result_def dest!: validated_result)
  have ok: "shares_ok E pol s (Some f) sigs" using check_shares_ok [OF run(3) assms(2)] by (simp add: shares_ok_def)
  then obtain owners ss where o: "sorted owners" "distinct owners" "set owners = fst ` set sigs" "length owners = length sigs"
    "length ss = length owners" "bytes = concat ss"
    "\<forall>i < length owners. lookup sigs (owners ! i) = Some (ss ! i) \<and> length (ss ! i) = 65 \<and> (ss ! i ! 64 = 27 \<or> ss ! i ! 64 = 28)"
    using combined_in_order [OF run(5)] by (auto simp: shares_ok_def)
  have "sigs \<noteq> []" using run(5) by (auto simp: combine_safe_signatures_def)
  then have "0 < length owners" using o(4) by simp
  then have "lookup sigs (owners ! 0) = Some (ss ! 0)" using o(7) by blast
  then obtain hash where hash: "share_hash E pol (sh_digest f) = Inr hash" using ok unfolding shares_ok_def by blast
  have each: "owners ! i \<in> set (sf_owners s) \<and> sg_recover (g_recover E) hash (ss ! i) = Inr (owners ! i)" if "i < length owners" for i
  proof -
    have "lookup sigs (owners ! i) = Some (ss ! i)" using o(7) that by blast
    then obtain g h where "owners ! i \<in> set (sf_owners s)" "Some f = Some g" "share_hash E pol (sh_digest g) = Inr h"
      "sg_recover (g_recover E) h (ss ! i) = Inr (owners ! i)" using ok unfolding shares_ok_def by blast
    then show ?thesis using hash by simp
  qed
  then have "set owners \<subseteq> set (sf_owners s)" by (auto simp: in_set_conv_nth)
  then show ?thesis using run(1,2,4) write_out_run [OF r(1)] r(2-4) o hash each by metis
qed

section \<open>Writing and reading plain documents\<close>

definition plain_char :: "char \<Rightarrow> bool" where
  "plain_char c \<longleftrightarrow> (let n = (of_char c :: nat) in 0x20 \<le> n \<and> n < 0x7F \<and> n \<noteq> 0x22 \<and> n \<noteq> 0x5C)"

abbreviation plain_text :: "string \<Rightarrow> bool" where
  "plain_text \<equiv> list_all plain_char"

lemma plain_charD: "plain_char c \<Longrightarrow> of_char c < (0x80 :: nat) \<and> escape_rune (of_char c) = [c] \<and> printable_rune demo_text_env (of_char c)"
  by (simp add: plain_char_def Let_def escape_rune_def encode_rune_def scalar_def surrogate_def printable_rune_def demo_text_env_def)

lemma plain_text_ascii: "plain_text s \<Longrightarrow> ascii s"
  using plain_charD by (induction s) simp_all

lemma write_string_plain: "plain_text s \<Longrightarrow> write_string s = CHR 0x22 # s @ [CHR 0x22]"
proof -
  assume p: "plain_text s"
  then have "concat (map escape_rune (map of_char s)) = s"
    using plain_charD by (induction s) (simp_all del: map_map)
  then show ?thesis using runes_ascii [OF plain_text_ascii [OF p]] by (simp add: write_string_def)
qed

lemma printable_plain: "plain_text s \<Longrightarrow> is_printable demo_text_env s"
proof -
  assume p: "plain_text s"
  then have "pieces s = map Rune (map of_char s)"
    using pieces_valid [OF ascii_valid [OF plain_text_ascii]] runes_ascii [OF plain_text_ascii] by simp
  moreover have "list_all (printable_piece demo_text_env) (map Rune (map of_char s))"
    using p plain_charD by (induction s) (simp_all del: map_map)
  ultimately show ?thesis by (simp add: is_printable_def)
qed

lemma bounded_plain:
  assumes "map_of kvs key = Some (JStr s)" and "plain_text s" and "lo \<le> length s" and "length s \<le> hi"
  shows "bounded_string demo_text_env name key lo hi kvs = Inr s"
  using assms printable_plain [OF assms(2)] runes_ascii [OF plain_text_ascii [OF assms(2)]]
  by (simp add: bounded_string_def string_member_def andE_def needE_def)

lemma shown_plain:
  assumes "map_of kvs key = Some (JStr s)" and "plain_text s" and "s \<noteq> []"
  shows "shown_string demo_text_env name key kvs = Inr s"
  using assms printable_plain [OF assms(2)]
  by (simp add: shown_string_def tested_member_def string_member_def andE_def needE_def)

lemma sort_plain:
  assumes "sorted (map (\<lambda>m. map of_char (fst m) :: nat list) ms)" and "\<forall>m \<in> set ms. ascii (fst m)"
  shows "sort_members ms = ms"
proof -
  have "utf16 k = map of_char k" if "ascii k" for k
  proof -
    have "utf16_units (of_char c) = [of_char c]" if "of_char c < (0x80 :: nat)" for c
      using that by (simp add: utf16_units_def scalar_def surrogate_def)
    then have "concat (map utf16_units (map of_char k)) = map of_char k" using \<open>ascii k\<close>
      by (induction k) (simp_all del: map_map)
    then show ?thesis using runes_ascii [OF that] by (simp add: utf16_def)
  qed
  then have "map (\<lambda>m. utf16 (fst m)) ms = map (\<lambda>m. map of_char (fst m)) ms" using assms(2) by simp
  then have "sorted (map (\<lambda>m. utf16 (fst m)) ms)" using assms(1) by (simp only:)
  then show ?thesis by (simp add: sort_members_def sort_key_id_if_sorted)
qed

section \<open>A package\<close>

definition demo_project_id :: string where "demo_project_id = ''00000000-0000-0000-0000-000000000000''"

definition demo_profile_doc :: json where
  "demo_profile_doc = JObj [(''assetSchema'', JObj [(''type'', JStr ''object'')]), (''assetType'', JStr ''bond''),
     (''profileVersion'', JStr ''1.0''), (''projectId'', JStr demo_project_id), (''recordIdLabel'', JStr ''isin''),
     (''tokenDecimals'', JNum ''0''), (''tokenUnit'', JStr ''unit'')]"

definition demo_metadata_doc :: json where
  "demo_metadata_doc = JObj [(''asset'', JObj []), (''createdAt'', JStr ''now''),
     (''issuance'', JObj [(''amount'', JStr ''7''), (''unit'', JStr ''unit'')]), (''platformVersion'', JStr ''1.0''),
     (''projectId'', JStr demo_project_id), (''recordId'', JStr ''R1'')]"

definition demo_bytes_of :: "json \<Rightarrow> string" where
  "demo_bytes_of v = (case marshal exact_floats v of Inl e \<Rightarrow> [] | Inr b \<Rightarrow> b)"

lemma demo_zero: "number_text exact_floats ''0'' = Inr ''0''"
  by (simp add: number_text_def parse_float_def literal_decimal_def magnitude_decimal_def scan_int_def scan_frac_def scan_exp_def
    scan_some_digits_def is_digit_def exp_value_def digits_nat_def exact_floats_def dec_norm.simps format_number_def)

lemma demo_marshals:
  "\<exists>b. marshal exact_floats demo_profile_doc = Inr b \<and> length b \<le> 1000"
  "\<exists>b. marshal exact_floats demo_metadata_doc = Inr b \<and> length b \<le> 1000"
  by (simp_all add: marshal_def demo_profile_doc_def demo_metadata_doc_def demo_zero enclose_def member_part_def sort_plain
    write_string_plain demo_project_id_def plain_char_def Let_def)

lemma demo_documents_read:
  assumes "\<exists>b. marshal exact_floats v = Inr b \<and> length b \<le> 1000" and "json_ok v" and "canon exact_floats v = v"
    and "fits default_limits 0 v"
  shows "read_document (demo_bytes_of v) = Inr v" and "canonical_document exact_floats v = Inr (demo_bytes_of v)"
    and "length (demo_bytes_of v) \<le> 1000"
proof -
  obtain b where b: "marshal exact_floats v = Inr b" "length b \<le> 1000" using assms(1) by blast
  then have eq: "demo_bytes_of v = b" by (simp add: demo_bytes_of_def)
  have "within_size default_limits b" using b(2) by (simp add: within_size_def default_limits_def)
  then have "parse_with_limits b default_limits = Inr v"
    using parse_canon [OF exact_floats_law assms(2) b(1), of default_limits] assms(3,4) by simp
  then show "read_document (demo_bytes_of v) = Inr v" by (simp add: read_document_def eq)
  show "canonical_document exact_floats v = Inr (demo_bytes_of v)" by (simp add: canonical_document_def b(1) eq)
  show "length (demo_bytes_of v) \<le> 1000" using b(2) eq by simp
qed

lemma demo_canons: "canon exact_floats demo_profile_doc = demo_profile_doc" "canon exact_floats demo_metadata_doc = demo_metadata_doc"
  by (simp_all add: demo_profile_doc_def demo_metadata_doc_def demo_zero sort_plain)

lemma demo_literal: "check_safe_integer ''0'' = None" "number_literal ''0''"
  by (code_simp, simp add: number_literal_def scan_number_def scan_magnitude_def scan_int_def scan_frac_def scan_exp_def)

lemma demo_fit: "fits default_limits 0 demo_profile_doc" "fits default_limits 0 demo_metadata_doc"
  by (simp_all add: demo_profile_doc_def demo_metadata_doc_def default_limits_def too_deep_def hard_max_depth_def exceeds_def
    demo_project_id_def demo_literal)

lemma demo_run_ok: "json_ok demo_profile_doc" "json_ok demo_metadata_doc"
  by (simp_all add: demo_profile_doc_def demo_metadata_doc_def demo_project_id_def ascii_valid demo_literal)

lemmas demo_profile_reads = demo_documents_read [OF demo_marshals(1) demo_run_ok(1) demo_canons(1) demo_fit(1)]
lemmas demo_metadata_reads = demo_documents_read [OF demo_marshals(2) demo_run_ok(2) demo_canons(2) demo_fit(2)]

lemma demo_patterns: "uuid_pattern demo_project_id" "record_id_pattern ''R1''" "amount_pattern ''7''" "positive_uint256 ''7''"
  by code_simp+

definition demo_profile :: "(int, string) profile" where
  "demo_profile = \<lparr>pf_version = ''1.0'', pf_project_id = demo_project_id, pf_asset_type = ''bond'', pf_token_unit = ''unit'',
     pf_token_decimals = 0, pf_record_label = ''isin'', pf_display = [], pf_legal = None,
     pf_schema = (case compile_schema demo_env (JObj [(''type'', JStr ''object'')]) of Inr c \<Rightarrow> c | Inl e \<Rightarrow> undefined),
     pf_canonical = demo_bytes_of demo_profile_doc, pf_digest = replicate 32 0\<rparr>"

definition demo_metadata :: metadata_doc where
  "demo_metadata = \<lparr>md_version = ''1.0'', md_project_id = demo_project_id, md_record_id = ''R1'', md_asset = JObj [], md_amount = ''7'',
     md_unit = ''unit'', md_proofs = [], md_created_at = ''now'', md_canonical = demo_bytes_of demo_metadata_doc,
     md_digest = replicate 32 0\<rparr>"

lemma demo_asset_schema:
  "\<exists>c. compile_schema demo_env (JObj [(''type'', JStr ''object'')]) = Inr c \<and> validate_at demo_env c (JObj []) = None"
proof -
  have "compile_schema demo_env (JObj [(''type'', JStr ''object'')]) =
      Inr (Schema [''object''] [] [] None False None [] None None None None None None None None None None False)"
    by code_simp
  then show ?thesis by (simp add: check_value_def type_matches_def missing_property_def)
qed

lemma demo_float_ops [simp]: "se_floats demo_env = exact_floats"
  by (simp add: demo_env_def)

lemma demo_text_ops [simp]: "tn_sha demo_text_env s = replicate 32 0" "tn_time demo_text_env s = Some 0"
  by (simp_all add: demo_text_env_def)

lemma demo_profile_valid: "validate_profile demo_env demo_text_env (demo_bytes_of demo_profile_doc) = Inr demo_profile"
proof -
  obtain c where c: "compile_schema demo_env (JObj [(''type'', JStr ''object'')]) = Inr c" using demo_asset_schema by blast
  have z: "atoi ''0'' = Some 0" by code_simp
  obtain kvs where kvs: "demo_profile_doc = JObj kvs" "kvs = [(''assetSchema'', JObj [(''type'', JStr ''object'')]), (''assetType'', JStr ''bond''),
     (''profileVersion'', JStr ''1.0''), (''projectId'', JStr demo_project_id), (''recordIdLabel'', JStr ''isin''),
     (''tokenDecimals'', JNum ''0''), (''tokenUnit'', JStr ''unit'')]" by (simp add: demo_profile_doc_def)
  have b: "bounded_string demo_text_env ''assetType'' ''assetType'' 1 128 kvs = Inr ''bond''"
    "bounded_string demo_text_env ''tokenUnit'' ''tokenUnit'' 1 64 kvs = Inr ''unit''"
    "bounded_string demo_text_env ''recordIdLabel'' ''recordIdLabel'' 1 128 kvs = Inr ''isin''"
    by (rule bounded_plain; simp add: kvs plain_char_def)+
  have t: "tested_member ''profileVersion'' ''profileVersion'' (\<lambda>s. s = ''1.0'') kvs = Inr ''1.0''"
    "tested_member ''projectId'' ''projectId'' uuid_pattern kvs = Inr demo_project_id"
    by (simp_all add: kvs tested_member_def string_member_def andE_def needE_def demo_patterns)
  have d: "token_decimals kvs = Inr 0" by (simp add: kvs token_decimals_def z)
  have r: "optional_array ''displayFields'' (parse_display_field demo_text_env) kvs = Inr []"
    "optional_object kvs ''legal'' (parse_legal demo_text_env) = Inr None" "asset_schema demo_env kvs = Inr c"
    by (simp_all add: kvs optional_array_def optional_object_def asset_schema_def c)
  have k: "check_required [''profileVersion'', ''projectId'', ''assetType'', ''tokenUnit'', ''tokenDecimals'', ''recordIdLabel'', ''assetSchema''] kvs = Inr ()"
    "check_allowed ''profile'' [''profileVersion'', ''projectId'', ''assetType'', ''tokenUnit'', ''tokenDecimals'', ''recordIdLabel'',
      ''displayFields'', ''legal'', ''assetSchema''] kvs = Inr ()"
    by (simp_all add: kvs check_required_def check_allowed_def)
  show ?thesis
    unfolding validate_profile_def demo_float_ops demo_profile_reads(1)
    by (simp add: andE_def object_members_def kvs(1) k t b d r demo_profile_reads(2) [unfolded kvs(1)] demo_profile_def c
      del: One_nat_def)
qed

lemma demo_metadata_valid: "validate_metadata exact_floats demo_text_env (demo_bytes_of demo_metadata_doc) = Inr demo_metadata"
proof -
  obtain kvs where kvs: "demo_metadata_doc = JObj kvs" "kvs = [(''asset'', JObj []), (''createdAt'', JStr ''now''),
     (''issuance'', JObj [(''amount'', JStr ''7''), (''unit'', JStr ''unit'')]), (''platformVersion'', JStr ''1.0''),
     (''projectId'', JStr demo_project_id), (''recordId'', JStr ''R1'')]" by (simp add: demo_metadata_doc_def)
  have t: "tested_member ''platformVersion'' ''platformVersion'' (\<lambda>s. s = ''1.0'') kvs = Inr ''1.0''"
    "tested_member ''projectId'' ''projectId'' uuid_pattern kvs = Inr demo_project_id"
    "tested_member ''recordId'' ''recordId'' record_id_pattern kvs = Inr ''R1''"
    "tested_member ''createdAt'' ''createdAt'' (\<lambda>s. True) kvs = Inr ''now''"
    by (simp_all add: kvs tested_member_def string_member_def andE_def needE_def demo_patterns)
  have i: "parse_issuance demo_text_env kvs = Inr (''7'', ''unit'')"
  proof -
    let ?iss = "[(''amount'', JStr ''7''), (''unit'', JStr ''unit'')]"
    have "shown_string demo_text_env ''issuance.unit'' ''unit'' ?iss = Inr ''unit''" by (rule shown_plain) (simp_all add: plain_char_def)
    moreover have "tested_member ''issuance.amount'' ''amount'' amount_pattern ?iss = Inr ''7''"
      by (simp add: tested_member_def string_member_def andE_def needE_def demo_patterns)
    ultimately show ?thesis
      by (simp add: kvs parse_issuance_def andE_def needE_def demo_patterns object_members_def check_required_def check_allowed_def)
  qed
  have k: "check_required [''platformVersion'', ''projectId'', ''recordId'', ''asset'', ''issuance'', ''createdAt''] kvs = Inr ()"
    "check_allowed ''metadata'' [''platformVersion'', ''projectId'', ''recordId'', ''asset'', ''issuance'', ''proofs'', ''createdAt''] kvs = Inr ()"
    "map_of kvs ''asset'' = Some (JObj [])" "optional_array ''proofs'' (parse_proof demo_text_env) kvs = Inr []"
    by (simp_all add: kvs check_required_def check_allowed_def optional_array_def)
  show ?thesis
    unfolding validate_metadata_def demo_metadata_reads(1)
    by (simp add: andE_def object_members_def kvs(1) k t i demo_metadata_reads(2) [unfolded kvs(1)] demo_metadata_def del: One_nat_def)
qed

section \<open>A run on it\<close>

definition demo_zeros :: string where "demo_zeros = replicate 64 (CHR ''0'')"
definition demo_hash :: string where "demo_hash = ''0x'' @ demo_zeros"
definition demo_address :: string where "demo_address = ''0x'' @ replicate 40 (CHR ''0'')"

definition demo_addr_env :: addr_env where
  "demo_addr_env = \<lparr>ad_is_hex = (\<lambda>_. True), ad_parse = (\<lambda>_. 5), ad_hex = (\<lambda>_. demo_address),
     ad_from_hex = (\<lambda>s. case decode_hex (drop 2 s) of None \<Rightarrow> [] | Some bs \<Rightarrow> bs), ad_hash = (\<lambda>_. 0)\<rparr>"

lemma demo_addr_law: "addr_law demo_addr_env"
  by (simp add: addr_law_def demo_addr_env_def)

definition demo_policy_env :: "(string list \<times> int) option \<Rightarrow> int policy_env" where
  "demo_policy_env safe = \<lparr>pv_decode = (\<lambda>_. Some \<lparr>fl_chain_id = ''1'', fl_controller = demo_address, fl_vault = demo_address,
       fl_auditor = demo_address, fl_project_id = demo_project_id, fl_profile_digest = demo_hash, fl_hours = 0, fl_safe = safe\<rparr>),
     pv_more = (\<lambda>_. False), pv_negative = (\<lambda>h. h < 0), pv_positive = (\<lambda>h. 0 < h), pv_duration = (\<lambda>h. h * 3600 * 10 ^ 9)\<rparr>"

definition demo_typed :: typed_data where
  "demo_typed = \<lparr>td_primary_type = mint_type, td_name = sg_domain_name, td_version = sg_domain_version, td_chain_id = ''1'',
     td_contract = demo_address, td_auditor = demo_address, td_profile_digest = demo_hash, td_record_id = ''R1'',
     td_record_key = demo_hash, td_operation_id = [], td_metadata_digest = demo_hash, td_amount = ''7'', td_nonce = ''0'',
     td_valid_until = 100, td_vault = demo_address\<rparr>"

definition demo_package_files :: "(string \<times> string) list" where
  "demo_package_files = [(''manifest.json'', []), (''profile.json'', demo_bytes_of demo_profile_doc),
     (''metadata.json'', demo_bytes_of demo_metadata_doc), (''typed-data.json'', [])]"

definition demo_file_entry :: "string \<times> string \<Rightarrow> zip_entry" where
  "demo_file_entry e = \<lparr>ze_name = fst e, ze_mode = 0, ze_external = 0, ze_method = 0,
     ze_content = Some \<lparr>zc_data = snd e, zc_error = False, zc_close_error = False\<rparr>\<rparr>"

definition demo_package_manifest :: manifest where
  "demo_package_manifest = \<lparr>mn_version = ''1.0'', mn_primary_type = ''MintAttestation'', mn_profile_digest = demo_hash,
     mn_metadata_digest = demo_hash,
     mn_files = map (\<lambda>e. \<lparr>mf_path = fst e, mf_sha256 = demo_zeros, mf_size = int (length (snd e)), mf_mime = ''m''\<rparr>) (tl demo_package_files)\<rparr>"

definition demo_signer_pkg :: pkg_env where
  "demo_signer_pkg = \<lparr>pe_manifest = (\<lambda>_. Some demo_package_manifest), pe_trailing = (\<lambda>_. False), pe_sha = (\<lambda>_. replicate 32 0)\<rparr>"

definition demo_signer_log :: log_env where
  "demo_signer_log = \<lparr>le_event = (\<lambda>_. Some \<lparr>ev_seq = 1, ev_time = [], ev_event = [], ev_fields = [], ev_prev = [], ev_hash = ''h''\<rparr>),
     le_anchor = (\<lambda>_. None), le_sha = (\<lambda>_. ''h'')\<rparr>"

definition demo_signer_key :: "unit key_env" where
  "demo_signer_key = \<lparr>ke_lower = id, ke_marshal = (\<lambda>_. []), ke_unmarshal = (\<lambda>_. None), ke_format = (\<lambda>_. None),
     ke_argon2 = (\<lambda>_ _ _ _ _. None), ke_seal = (\<lambda>_ _ _. None), ke_open = (\<lambda>_ _ _. None), ke_scalar = (\<lambda>_. []),
     ke_to_key = (\<lambda>_. None), ke_address = (\<lambda>_. 5), ke_hex = (\<lambda>_. []), ke_parse_address = (\<lambda>_. 5),
     ke_v3_header = (\<lambda>_. Some (''pbkdf2'', [])), ke_scrypt_params = (\<lambda>_. None), ke_pbkdf2_params = (\<lambda>_. Some 600000),
     ke_decrypt_v3 = (\<lambda>_ _. Some (Inr ()))\<rparr>"

definition demo_share :: signature_share where
  "demo_share = \<lparr>sh_version = ''1.0'', sh_safe = demo_address, sh_chain_id = ''1'', sh_owner = demo_address, sh_primary_type = mint_type,
     sh_digest = demo_hash, sh_message_hash = demo_hash, sh_signature = sha_hex (replicate 64 0 @ [27]), sh_signed_at = ''now''\<rparr>"

text \<open>An environment in which nothing fails and no other process interferes, for a policy with or without a Safe.\<close>

definition demo_sign_env :: "(string list \<times> int) option \<Rightarrow> (int \<times> int, int, string, int, unit) sign_env" where
  "demo_sign_env safe = \<lparr>g_schema = demo_env, g_text = demo_text_env, g_addr = demo_addr_env, g_policy = demo_policy_env safe,
     g_typed = \<lparr>tv_decode = (\<lambda>_. Some demo_typed), tv_more = (\<lambda>_. False)\<rparr>,
     g_share = \<lparr>sv_decode = (\<lambda>_. Some demo_share), sv_more = (\<lambda>_. False)\<rparr>, g_pkg = demo_signer_pkg,
     g_unzip = (\<lambda>_. Some (map demo_file_entry demo_package_files)), g_keccak = (\<lambda>_. 0), g_sign = (\<lambda>_ _. Some (replicate 65 0)),
     g_recover = (\<lambda>_ _. Some 5), g_log = demo_signer_log, g_key = demo_signer_key, g_read_file = (\<lambda>_. Some []),
     g_package = (Some 1, Some ''z''), g_confirm = Some True, g_password_stat = None, g_prompt = None, g_error_text = (\<lambda>_. []),
     g_now = (\<lambda>_. 0), g_stamp = (\<lambda>_. ''now''), g_logs_readable = (\<lambda>_. True), g_faults = (\<lambda>_. no_log_faults),
     g_throttle_ok = (\<lambda>_. True), g_key_file = (\<lambda>_. \<lparr>kx_stat = Some (384, 2), kx_read = Some ''{}''\<rparr>), g_write_ok = (\<lambda>_. True),
     g_others = (\<lambda>_. id)\<rparr>"

definition demo_flags :: sign_flags where
  "demo_flags = \<lparr>sg_keystore = ''k'', sg_password = ''pw'', sg_password_file = [], sg_hardware = [], sg_policy_path = ''p'',
     sg_yes = False, sg_unsafe = False\<rparr>"

definition demo_sign_world :: sign_world where
  "demo_sign_world = \<lparr>gw_logs = \<lparr>kf_main = None, kf_anchor = None\<rparr>, gw_throttle = NoThrottle, gw_tick = 0, gw_written = []\<rparr>"

text \<open>The policy\<close>

definition demo_policy :: "safe option \<Rightarrow> policy" where
  "demo_policy safe = \<lparr>pl_chain_id = ''1'', pl_controller = demo_address, pl_vault = demo_address, pl_auditor = demo_address,
     pl_project_id = demo_project_id, pl_profile_digest = demo_hash, pl_lifetime = default_lifetime, pl_safe = safe\<rparr>"

lemma blank_plain: "\<not> blank demo_text_env (c # s)" if "plain_text (c # s)" and "of_char c \<noteq> (0x20 :: nat)"
proof -
  have "pieces (c # s) = map Rune (map of_char (c # s))"
    using pieces_valid [OF ascii_valid [OF plain_text_ascii [OF that(1)]]] runes_ascii [OF plain_text_ascii [OF that(1)]] by simp
  then show ?thesis using that(2) by (simp add: blank_def demo_text_env_def del: pieces.simps)
qed

lemma demo_blank: "\<not> blank demo_text_env ''1''" "\<not> blank demo_text_env demo_address" "\<not> blank demo_text_env demo_project_id"
  "\<not> blank demo_text_env demo_hash"
  unfolding demo_address_def demo_project_id_def demo_hash_def demo_zeros_def append.simps
  by (rule blank_plain; simp add: plain_char_def list_all_iff)+

lemma demo_policy_loads:
  "load_policy (demo_policy_env None) demo_text_env demo_addr_env (Some []) = Inr (demo_policy None)"
  "load_policy (demo_policy_env (Some ([''a''], 1))) demo_text_env demo_addr_env (Some []) =
    Inr (demo_policy (Some \<lparr>sf_owners = [5], sf_threshold = 1\<rparr>))"
proof -
  have n: "big_set_string ''1'' = Some 1" by code_simp
  have a: "ad_is_hex demo_addr_env s" "ad_parse demo_addr_env s = 5" for s by (simp_all add: demo_addr_env_def)
  show "load_policy (demo_policy_env None) demo_text_env demo_addr_env (Some []) = Inr (demo_policy None)"
    "load_policy (demo_policy_env (Some ([''a''], 1))) demo_text_env demo_addr_env (Some []) =
      Inr (demo_policy (Some \<lparr>sf_owners = [5], sf_threshold = 1\<rparr>))"
    by (simp_all add: load_policy_def demo_policy_env_def required_fields_def demo_blank andE_def needE_def n load_safe_def a demo_policy_def)
qed

text \<open>The package\<close>

lemma demo_hash_text: "hex_bytes (replicate 32 0) = demo_zeros" "hash_hex 0 = demo_hash" "sha_hex (replicate 32 0) = demo_hash"
  "to_lower demo_hash = demo_hash" "prefixed_hex 64 demo_hash" "prefixed_hex 40 demo_address"
  by code_simp+

lemma demo_names: "check_name ''manifest.json'' = None" "check_name ''profile.json'' = None" "check_name ''metadata.json'' = None"
  "check_name ''typed-data.json'' = None" "path_clean ''manifest.json'' = ''manifest.json''"
  "path_clean ''profile.json'' = ''profile.json''" "path_clean ''metadata.json'' = ''metadata.json''"
  "path_clean ''typed-data.json'' = ''typed-data.json''"
  by code_simp+

lemma demo_extract: "extract_package (\<lambda>_. Some (map demo_file_entry demo_package_files)) default_options ''z'' = Inr demo_package_files"
  using demo_profile_reads(3) demo_metadata_reads(3)
  by (simp add: extract_package_def default_options_def extract_entry_def demo_file_entry_def demo_package_files_def demo_names
    has_suffix_def suffix_def is_symlink_def zip_store_def read_limited_def Let_def)

lemma demo_manifest_parses: "parse_manifest demo_signer_pkg [] = Inr demo_package_manifest"
proof -
  have p: "hex_digest_pattern demo_hash" "sha256_pattern demo_zeros" "path_pattern ''profile.json''" "path_pattern ''metadata.json''"
    "path_pattern ''typed-data.json''" by code_simp+
  then show ?thesis using demo_profile_reads(3) demo_metadata_reads(3)
    by (simp add: parse_manifest_def demo_signer_pkg_def demo_package_manifest_def demo_package_files_def mandatory_files_def)
qed

lemma demo_opens: "open_package (demo_sign_env safe) ''z'' = Inr (demo_package_manifest, demo_package_files)"
proof -
  have v: "verify_files demo_signer_pkg demo_package_manifest (payload demo_package_files) = None"
    by (simp add: verify_files_def demo_signer_pkg_def demo_package_manifest_def demo_package_files_def payload_def manifest_name_def
      demo_hash_text)
  have m: "package_file manifest_name demo_package_files = Inr []"
    by (simp add: package_file_def manifest_name_def demo_package_files_def)
  show ?thesis
    by (simp add: open_package_def demo_sign_env_def demo_extract demo_manifest_parses lift_error_def andE_def v m del: package_file_Inr)
qed

lemma demo_typed_parses: "parse_typed_data (g_typed (demo_sign_env safe)) raw = Inr demo_typed"
proof -
  have n: "big_set_string ''1'' \<noteq> None" "amount_pattern ''7''" "amount_pattern ''0''" by code_simp+
  show ?thesis
    by (simp add: parse_typed_data_def demo_sign_env_def demo_typed_def andE_def needE_def n demo_hash_text check_typed_ids_def)
qed

definition demo_review :: "(int, string) review" where
  "demo_review = \<lparr>rv_policy = demo_policy None, rv_manifest = demo_package_manifest, rv_profile = demo_profile,
     rv_metadata = demo_metadata, rv_typed = demo_typed\<rparr>"

lemma demo_checks:
  "check_documents (demo_policy None) demo_package_manifest demo_profile demo_metadata = Inr ()"
  "check_typed (demo_sign_env None) (demo_policy None) demo_package_manifest demo_profile demo_metadata demo_typed = Inr ()"
  "validate_asset demo_env demo_profile (JObj []) = None"
proof -
  show "check_documents (demo_policy None) demo_package_manifest demo_profile demo_metadata = Inr ()"
    by (simp add: check_documents_def same_text_def andE_def needE_def demo_policy_def demo_package_manifest_def demo_profile_def
      demo_metadata_def equal_fold_def demo_hash_text)
  have n: "big_set_string ''1'' = Some 1" "big_set_string ''7'' = Some 7" by code_simp+
  have "check_amounts (\<lambda>_. 0) demo_metadata demo_typed = Inr ()"
    by (simp add: check_amounts_def same_text_def andE_def needE_def demo_metadata_def demo_typed_def n record_key_def demo_hash_text)
  then show "check_typed (demo_sign_env None) (demo_policy None) demo_package_manifest demo_profile demo_metadata demo_typed = Inr ()"
    by (simp add: check_typed_def same_text_def andE_def needE_def demo_policy_def demo_package_manifest_def demo_profile_def
      demo_metadata_def demo_typed_def equal_fold_def demo_hash_text demo_sign_env_def n mint_type_def)
  show "validate_asset demo_env demo_profile (JObj []) = None"
    using demo_asset_schema by (auto simp: validate_asset_def demo_profile_def)
qed

lemma demo_reviewed: "review_package (demo_sign_env None) demo_flags = Inr demo_review"
proof -
  have f: "check_flags demo_flags = Inr ()" by (simp add: check_flags_def demo_flags_def andE_def needE_def)
  have files: "package_file ''profile.json'' demo_package_files = Inr (demo_bytes_of demo_profile_doc)"
    "package_file ''metadata.json'' demo_package_files = Inr (demo_bytes_of demo_metadata_doc)"
    "package_file ''typed-data.json'' demo_package_files = Inr []"
    by (simp_all add: package_file_def demo_package_files_def)
  have e: "g_policy (demo_sign_env None) = demo_policy_env None" "g_text (demo_sign_env None) = demo_text_env"
    "g_addr (demo_sign_env None) = demo_addr_env" "g_read_file (demo_sign_env None) s = Some []" "g_schema (demo_sign_env None) = demo_env"
    "read_package_file (g_package (demo_sign_env None)) max_compressed_size = Some ''z''" for s
    by (simp_all add: demo_sign_env_def read_package_file_def max_compressed_size_def)
  have m: "md_asset demo_metadata = JObj []" by (simp add: demo_metadata_def)
  show ?thesis
    by (simp add: review_package_def andE_def f e lift_error_def demo_policy_loads demo_opens files demo_profile_valid demo_metadata_valid
      demo_checks m demo_typed_parses demo_review_def del: package_file_Inr)
qed

text \<open>Signing\<close>

definition demo_key_signature :: "byte list" where "demo_key_signature = replicate 64 0 @ [27]"

lemma demo_digests:
  "attestation_digest (\<lambda>_. 0) demo_addr_env demo_typed = Inr 0"
  "hash_to_sign (\<lambda>_. 0) demo_addr_env (demo_policy None) demo_typed 0 = Inr 0"
  "check_expiry demo_text_env (demo_policy None) demo_metadata demo_typed 0 = Inr ()"
  "sg_sign (\<lambda>_ _. Some (replicate 65 0)) 0 () = Inr demo_key_signature"
proof -
  have n: "big_set_string ''1'' = Some 1" "big_set_string ''7'' = Some 7" "big_set_string ''0'' = Some 0" by code_simp+
  show "attestation_digest (\<lambda>_. 0) demo_addr_env demo_typed = Inr 0"
    by (simp add: attestation_digest_def lift_error_def demo_typed_def typed_domain_def typed_mint_def n sg_mint_digest_def sg_separator_def
      sg_mint_struct_def encode_uint256_def sg_digest_def)
  show "hash_to_sign (\<lambda>_. 0) demo_addr_env (demo_policy None) demo_typed 0 = Inr 0"
    by (simp add: hash_to_sign_def demo_policy_def)
  have "unix_instant (sint (100 :: u64)) = 100 * 10 ^ 9" by code_simp
  then show "check_expiry demo_text_env (demo_policy None) demo_metadata demo_typed 0 = Inr ()"
    by (simp add: check_expiry_def demo_typed_def demo_policy_def default_lifetime_def andE_def needE_def Let_def)
  show "sg_sign (\<lambda>_ _. Some (replicate 65 0)) 0 () = Inr demo_key_signature"
    unfolding demo_key_signature_def by code_simp
qed

lemma demo_key: "load_key demo_signer_key \<lparr>kx_stat = Some (384, 2), kx_read = Some ''{}''\<rparr> pw = Inr ((), 5)"
proof -
  have m: "Bit_Operations.and (384 :: nat) 63 = 0" by code_simp
  show ?thesis
    by (simp add: load_key_def m max_keystore_file_bytes_def is_native_format_def demo_signer_key_def check_v3_kdf_strength_def
      min_pbkdf2_iterations_def max_pbkdf2_iterations_def)
qed

definition demo_result :: signed_result where
  "demo_result = \<lparr>rs_version = ''1.0'', rs_auditor = demo_address, rs_primary_type = mint_type, rs_digest = demo_hash,
     rs_signature = sha_hex demo_key_signature, rs_signed_at = ''now''\<rparr>"

lemma demo_result_ok:
  "validate_result demo_text_env demo_result = Inr ()"
  "new_result demo_text_env ''now'' demo_address mint_type demo_hash (sha_hex demo_key_signature) = Inr demo_result"
proof -
  have "result_signature_pattern (sha_hex demo_key_signature)" by code_simp
  then show ok: "validate_result demo_text_env demo_result = Inr ()"
    by (simp add: validate_result_def demo_result_def andE_def needE_def demo_hash_text)
  then show "new_result demo_text_env ''now'' demo_address mint_type demo_hash (sha_hex demo_key_signature) = Inr demo_result"
    by (simp add: new_result_def Let_def demo_result_def andE_def)
qed

lemma demo_write: "gw_written w = [] \<Longrightarrow>
    \<exists>v. write_result (demo_sign_env safe) (Inr demo_result) w = (Inr (), v)"
  by (simp add: write_result_def write_out_def bindM_def tick_def liftE_def demo_sign_env_def demo_result_ok lift_error_def)

lemma demo_append:
  assumes "kf_main files = None \<or> (\<exists>e. kf_main files = Some (event_line e @ [newline]))"
  shows "\<exists>logs. append_audit_event demo_signer_log no_log_faults t event attrs files = (None, logs) \<and>
    (kf_main files = None \<longrightarrow> (\<exists>e. kf_main logs = Some (event_line e @ [newline])))"
proof -
  have "\<exists>n h. verify_chain demo_signer_log (read_lines (kf_main files)) = Inr (n, h)"
    using assms
  proof
    assume "kf_main files = None"
    then show ?thesis by (simp add: read_lines_def verify_chain_def)
  next
    assume "\<exists>e. kf_main files = Some (event_line e @ [newline])"
    then obtain e where "kf_main files = Some (file_of [event_line e])" by auto
    then have "read_lines (kf_main files) = [event_line e]" using read_lines_file_of [of "[event_line e]"] event_line_plain by simp
    then show ?thesis by (simp add: verify_chain_def demo_signer_log_def hash_event_def)
  qed
  then obtain n h where "verify_chain demo_signer_log (read_lines (kf_main files)) = Inr (n, h)" by blast
  then show ?thesis
    by (intro exI [of _ "snd (append_audit_event demo_signer_log no_log_faults t event attrs files)"])
      (auto simp: append_audit_event_def no_log_faults_def append_durable_def Let_def)
qed

lemma demo_append_event:
  assumes "kf_main (gw_logs w) = None \<or> (\<exists>e. kf_main (gw_logs w) = Some (event_line e @ [newline]))"
  shows "\<exists>u. append_event (demo_sign_env safe) event attrs w = (Inr None, u) \<and>
    (kf_main (gw_logs w) = None \<longrightarrow> (\<exists>e. kf_main (gw_logs u) = Some (event_line e @ [newline])))"
proof -
  obtain logs where "append_audit_event demo_signer_log no_log_faults ''now'' event attrs (gw_logs w) = (None, logs)"
    "kf_main (gw_logs w) = None \<longrightarrow> (\<exists>e. kf_main logs = Some (event_line e @ [newline]))"
    using demo_append [OF assms] by blast
  then show ?thesis by (simp add: append_event_def bindM_def file_call_def demo_sign_env_def)
qed

lemma demo_signs: "\<exists>u. sign_digest (demo_sign_env None) demo_flags 0 (demo_sign_world\<lparr>gw_tick := 1\<rparr>) = (Inr (demo_key_signature, 5), u)"
proof -
  let ?E = "demo_sign_env None"
  have logs: "check_logs ?E (demo_sign_world\<lparr>gw_tick := 1\<rparr>) = (Inr (), demo_sign_world\<lparr>gw_tick := 2\<rparr>)"
    by (simp add: check_logs_def bindM_def file_call_def demo_sign_env_def demo_sign_world_def verify_audit_log_anchored_def verify_audit_log_def
      verify_chain_def read_lines_def)
  have lock: "check_lockout ?E (demo_sign_world\<lparr>gw_tick := 2\<rparr>) = (Inr (), demo_sign_world\<lparr>gw_tick := 3\<rparr>)"
    by (simp add: check_lockout_def bindM_def file_call_def demo_sign_env_def demo_sign_world_def check_throttle_def load_throttle_state_def Let_def)
  have pw: "get_password ?E demo_flags = Inr ''pw''" by (simp add: get_password_def demo_flags_def andE_def)
  have clear: "clear_throttle ?E (demo_sign_world\<lparr>gw_tick := 4\<rparr>) = (Inr True, demo_sign_world\<lparr>gw_tick := 5\<rparr>)"
    by (simp add: clear_throttle_def bindM_def file_call_def demo_sign_env_def demo_sign_world_def record_unlock_success_def)
  obtain u1 e1 where u1: "append_event ?E ''unlock_success'' [(''address'', ad_hex (g_addr ?E) 5)] (demo_sign_world\<lparr>gw_tick := 5\<rparr>) = (Inr None, u1)"
    "kf_main (gw_logs u1) = Some (event_line e1 @ [newline])"
    using demo_append_event [of "demo_sign_world\<lparr>gw_tick := 5\<rparr>" None] by (fastforce simp: demo_sign_world_def)
  then obtain u2 where u2: "append_event ?E ''signed'' [(''address'', ad_hex (g_addr ?E) 5), (''digest'', hash_hex 0)] u1 = (Inr None, u2)"
    using demo_append_event [of u1] by blast
  have sg: "sg_sign (g_sign ?E) 0 () = Inr demo_key_signature" and key: "load_key (g_key ?E) (g_key_file ?E n) s = Inr ((), 5)" for n s
    using demo_digests(4) demo_key by (simp_all add: demo_sign_env_def)
  have "sign_unlocked ?E demo_flags 0 () 5 (demo_sign_world\<lparr>gw_tick := 4\<rparr>) = (Inr (demo_key_signature, 5), u2)"
    using u1(1) u2 sg clear by (auto simp: sign_unlocked_def bind_Inr audited_def ret_def)
  moreover have "sg_hardware demo_flags = []" by (simp add: demo_flags_def)
  moreover have "tick (demo_sign_world\<lparr>gw_tick := 3\<rparr>) = (Inr 3, demo_sign_world\<lparr>gw_tick := 4\<rparr>)" by (simp add: tick_def)
  ultimately have "sign_digest ?E demo_flags 0 (demo_sign_world\<lparr>gw_tick := 1\<rparr>) = (Inr (demo_key_signature, 5), u2)"
    by (simp only: sign_digest_def if_False simp_thms bindM_def logs lock pw key prod.case sum.case liftE_def)
  then show ?thesis by blast
qed

lemma demo_signed: "\<exists>u. run_sign (demo_sign_env None) demo_flags demo_sign_world = (Inr (), u)"
proof -
  let ?E = "demo_sign_env None"
  obtain u where u: "sign_digest ?E demo_flags 0 (demo_sign_world\<lparr>gw_tick := 1\<rparr>) = (Inr (demo_key_signature, 5), u)" using demo_signs by blast
  have e: "g_text ?E = demo_text_env" "g_addr ?E = demo_addr_env" "g_keccak ?E = (\<lambda>_. 0)" "g_now ?E n = 0" "g_stamp ?E n = ''now''"
    "g_write_ok ?E n" for n
    by (simp_all add: demo_sign_env_def)
  have r: "rv_policy demo_review = demo_policy None" "rv_metadata demo_review = demo_metadata" "rv_typed demo_review = demo_typed"
    by (simp_all add: demo_review_def)
  have a: "ad_parse demo_addr_env s = 5" "ad_hex demo_addr_env x = demo_address" for s x by (simp_all add: demo_addr_env_def)
  have c: "confirmed ?E demo_flags = Inr ()" by (simp add: confirmed_def demo_flags_def demo_sign_env_def needE_def)
  have p: "pl_safe (demo_policy None) = None" "td_primary_type demo_typed = mint_type" by (simp_all add: demo_policy_def demo_typed_def)
  have w: "gw_written u = []" using unwrittenD [OF unwritten_sign_digest u] by (simp add: demo_sign_world_def)
  have "\<exists>v. finish ?E (demo_policy None) demo_typed 0 0 demo_key_signature 5 u = (Inr (), v)"
    using demo_write [of "u\<lparr>gw_tick := Suc (gw_tick u)\<rparr>" None] w
    by (simp add: finish_def bindM_def tick_def p e a guardM_def ret_def demo_hash_text demo_result_ok(2) lift_error_def [of _ "Inr demo_result"])
  then show ?thesis
    by (simp add: run_sign_def bind_Inr demo_reviewed e r demo_digests c) (use u in \<open>auto simp: demo_sign_world_def\<close>)
qed

section \<open>Combining one share\<close>

lemma demo_combines: "\<exists>u. run_combine (demo_sign_env (Some ([''a''], 1))) ''p'' [''s''] demo_sign_world = (Inr (), u)"
proof -
  let ?E = "demo_sign_env (Some ([''a''], 1))" and ?s = "\<lparr>sf_owners = [5], sf_threshold = 1\<rparr>"
  have e: "g_text ?E = demo_text_env" "g_addr ?E = demo_addr_env" "g_keccak ?E = (\<lambda>_. 0)" "g_stamp ?E n = ''now''"
    "g_policy ?E = demo_policy_env (Some ([''a''], 1))" "g_read_file ?E f = Some []" "g_recover ?E = (\<lambda>_ _. Some 5)" for n f
    by (simp_all add: demo_sign_env_def)
  have a: "ad_parse demo_addr_env t = 5" "ad_hex demo_addr_env x = demo_address" "ad_hash demo_addr_env t = 0" for t x
    by (simp_all add: demo_addr_env_def)
  have n: "big_set_string ''1'' = Some 1" "decode_hex (trim_prefix ''0x'' (sha_hex demo_key_signature)) = Some demo_key_signature"
    "prefixed_hex 130 (sha_hex demo_key_signature)" "chain_id_pattern ''1''" "combine_safe_signatures [(5, demo_key_signature)] = Inr demo_key_signature"
    "sg_recover (\<lambda>_ _. Some 5) 0 demo_key_signature = Inr 5" by code_simp+
  have h: "safe_message_hash (\<lambda>_. 0) (Some 1) 5 0 = Inr 0"
    by (simp add: safe_message_hash_def safe_domain_separator_def encode_uint256_def sg_digest_def)
  have "validate_share demo_text_env demo_share = Inr ()"
    by (simp add: validate_share_def demo_share_def andE_def needE_def demo_hash_text n demo_key_signature_def [symmetric])
  then have r: "read_share (g_share ?E) demo_text_env (Some []) = Inr demo_share"
    by (simp add: read_share_def demo_sign_env_def andE_def needE_def)
  have c: "check_share ?E (demo_policy (Some ?s)) ?s path demo_share demo_share [] = Inr [(5, demo_key_signature)]" for path
    by (simp add: check_share_def Let_def e a h lift_error_def andE_def needE_def demo_share_def demo_policy_def n equal_fold_def demo_hash_text
      is_owner_def demo_key_signature_def [symmetric])
  have p: "pl_safe (demo_policy (Some ?s)) = Some ?s" "sh_primary_type demo_share = mint_type" "sh_digest demo_share = demo_hash"
    by (simp_all add: demo_policy_def demo_share_def)
  have "combined_shares ?E ''p'' [''s''] = Inr (demo_policy (Some ?s), demo_share, demo_key_signature)"
    by (simp add: combined_shares_def e demo_policy_loads lift_error_def andE_def needE_def p r c n)
  then show ?thesis using demo_write [of "demo_sign_world\<lparr>gw_tick := 1\<rparr>" "Some ([''a''], 1)"]
    by (simp add: run_combine_def bindM_def liftE_def tick_def e a p demo_result_ok(2) lift_error_def [of _ "Inr demo_result"] demo_sign_world_def)
qed

corollary signed_is_agreed_witness:
  "\<exists>w' x. run_sign (demo_sign_env None) demo_flags demo_sign_world = (Inr (), w') \<and> addr_law demo_addr_env \<and>
    gw_written w' = [x] \<and> written_digest x = demo_hash"
proof -
  let ?E = "demo_sign_env None"
  obtain w' where run: "run_sign ?E demo_flags demo_sign_world = (Inr (), w')" using demo_signed by blast
  have e: "g_addr ?E = demo_addr_env" "g_now ?E n = 0" "g_text ?E = demo_text_env" "g_keccak ?E = (\<lambda>_. 0)" for n
    by (simp_all add: demo_sign_env_def)
  have w: "gw_written demo_sign_world = []" by (simp add: demo_sign_world_def)
  obtain r digest x where x: "reviewed ?E demo_flags r" "gw_written w' = [x]" "written_digest x = hash_hex digest"
    "agreed_digest (\<lambda>_. 0) demo_text_env demo_addr_env (rv_policy r) (rv_profile r) (rv_metadata r) 0 digest"
    using signed_is_agreed [OF run, unfolded e, OF demo_addr_law] w by auto
  have "digest = 0" using x(4) by (auto simp: agreed_digest_def mint_digest_def burn_digest_def eip_digest_def split: option.splits)
  then show ?thesis using run demo_addr_law x by (auto simp: demo_hash_text)
qed

corollary signature_needs_consent_and_record_witness:
  "\<exists>w' x old e. run_sign (demo_sign_env None) demo_flags demo_sign_world = (Inr (), w') \<and> addr_law demo_addr_env \<and>
    gw_written w' = [x] \<and> kf_main (gw_logs w') = Some (old @ event_line e @ [newline]) \<and> ev_event e = ''signed''"
proof -
  let ?E = "demo_sign_env None"
  obtain w' where run: "run_sign ?E demo_flags demo_sign_world = (Inr (), w')" using demo_signed by blast
  have e: "g_addr ?E = demo_addr_env" by (simp add: demo_sign_env_def)
  have w: "gw_written demo_sign_world = []" "\<not> sg_unsafe demo_flags" by (simp_all add: demo_sign_world_def demo_flags_def)
  from signature_needs_consent_and_record [OF run, unfolded e, OF demo_addr_law] w run demo_addr_law show ?thesis by auto
qed

corollary combined_signature_valid_witness:
  "\<exists>w' r. run_combine (demo_sign_env (Some ([''a''], 1))) ''p'' [''s''] demo_sign_world = (Inr (), w') \<and> addr_law demo_addr_env \<and>
    gw_written w' = [WroteResult r] \<and> (\<exists>ss. rs_signature r = sha_hex (concat ss) \<and> ss \<noteq> [])"
proof -
  let ?E = "demo_sign_env (Some ([''a''], 1))"
  obtain w' where run: "run_combine ?E ''p'' [''s''] demo_sign_world = (Inr (), w')" using demo_combines by blast
  have e: "g_addr ?E = demo_addr_env" "g_policy ?E = demo_policy_env (Some ([''a''], 1))" "g_text ?E = demo_text_env" "g_read_file ?E f = Some []" for f
    by (simp_all add: demo_sign_env_def)
  obtain pol s r and owners :: "address list" and ss where x: "load_policy (demo_policy_env (Some ([''a''], 1))) demo_text_env demo_addr_env (Some []) = Inr pol"
    "pl_safe pol = Some s" "gw_written w' = gw_written demo_sign_world @ [WroteResult r]" "rs_signature r = sha_hex (concat ss)"
    "length ss = length owners" "sf_threshold s \<le> int (length owners)"
    using combined_signature_valid [OF run, unfolded e, OF demo_addr_law] by (elim exE conjE) (rule that)
  have "sf_threshold s = 1" using x(1,2) by (auto simp: demo_policy_loads demo_policy_def)
  then have "ss \<noteq> []" using x(5,6) by auto
  then show ?thesis using run demo_addr_law x(3,4) by (auto simp: demo_sign_world_def)
qed

end
