(* ===== verification/Spec2Isabelle.thy ===== *)
theory Spec2Isabelle
  imports Keyset TxRefresh Sales IncomeService IndexerLive Idempotency KycRelay Ownership Auth
    AuditLimits SchemaGuard SignerRun
begin

text \<open>
  A verification development of a platform for tokenised real-world assets. Contracts on an EVM
  chain hold the assets; the Go programs under src/server and src/signer index the chain, project
  its events into read models, send the platform's transactions, split income among holders,
  guard all of that with compliance and authentication checks, and let auditors sign
  attestations offline. The theories model the Go code as it is written: a struct is a record, an
  enumeration a datatype, a uint64 a 64-bit word, a \<^verbatim>\<open>big.Int\<close> an int, a Go string its bytes, a Go
  map an association list whose order stands for the order of iteration, and a function returning an
  error an action of the state-and-error monad of theory Prelude, or a sum.

  \<^bold>\<open>Parts and theories.\<close>

  \<^item> Shared: Prelude (monad, Hoare triples, keyed stores), Decimal, Codec, Query, Utf8, Json and
    GoStrings (numbers, hex, escapes, UTF-8, JSON tokens and text functions as Go's standard library
    reads and writes them), Stores (the contracts that several repositories share, as locales:
    \<open>versioned_store\<close> for compare-and-set updates, \<open>generation_store\<close> for the rebuild of a read model,
    \<open>fenced_store\<close> for reservations fenced by a token; each is interpreted in the theory of every
    component that provides it; \<open>single_use\<close> of Challenge is the contract of challenges).
  \<^item> Transactions (server/internal/blockchain/txmanager.go with dal/memory/transaction.go and
    dal/memory/nonce_lease.go): TxStore, NonceLease, TxEnv (the node, the codecs and the clock as
    parameters), TxFees, TxManager (\<^verbatim>\<open>Submit\<close>), TxReplace (\<^verbatim>\<open>Replace\<close>), TxRefresh
    (\<^verbatim>\<open>RefreshStatuses\<close>). A transaction is persisted before it is broadcast, nonces are never
    reused while a record is live, a replacement outbids its original, a refresh moves every
    record along the status graph only.
  \<^item> Lists and cursors (dal/repository/keyset.go): Keyset.
  \<^item> Indexer (server/internal/indexer/indexer.go and the repositories it writes): IndexerStore (the
    atomic chunk commit and rewind), Indexer (all operations), IndexerSpec (the refinement: the
    index is a prefix of the node's chain), IndexerLive (progress, termination, the operator's
    reset, retried dead letters).
  \<^item> Read models rebuilt from the indexed events: ReadModel (the event repository), Redemption,
    Sales, IncomeModel, Ownership (wallet ownership and investor statuses).
  \<^item> Income (server/internal/income): Merkle (the tree and its proofs), Income (entitlements from
    the replayed transfers, the snapshot document), IncomeService (\<^verbatim>\<open>Prepare\<close>, \<^verbatim>\<open>List\<close>,
    \<^verbatim>\<open>ClaimsFor\<close>); Project is the project document they read.
  \<^item> Requests (server/internal/auth, api/auth.go): Idempotency (admission, recording and replay of
    writes under an idempotency key), Challenge (wallet and admin challenges), Auth (admin login,
    tokens, roles, sessions), AuditLog (the trail of privileged writes), Eip712 (attestation digests).
  \<^item> Compliance (server/internal/compliance): KycStore (the event repository and its claims), Webhook
    (a provider's decision), KycRelay (the reconciler that puts statuses on chain), Guard (sanctions
    and investor limits).
  \<^item> Documents: Canonical and Jcs (signer/internal/canonical: parsing under limits and RFC 8785
    writing), AuditLimits (server/internal/auditpkg: the same limits by a token walk), JsonSchema
    (signer/internal/jsonschema), SchemaGuard (server/internal/assets/schema_guard.go).
  \<^item> Signer (src/signer/internal): SignerLog (keystore/auditlog.go and throttle.go), KeyFile
    (keystore/native.go, kdf.go, policy.go, keystore.go), SignerDigest (attestation), RwaPackage
    (package/rwapkg.go), Envelope (textsafe, profile, metadata), SignPolicy (policy, output and
    cmd/signer/typeddata.go), SignerMain (cmd/signer/main.go: \<^verbatim>\<open>runSign\<close>, \<^verbatim>\<open>runCombine\<close>) and SignerRun,
    what its runs guarantee: it signs only what the policy and the documents agree on
    (\<open>signed_is_agreed\<close>), never without consent, the right key and a record
    (\<open>signature_needs_consent_and_record\<close>), and joins shares only into a signature that satisfies
    the Safe (\<open>combined_signature_valid\<close>).

  The indexer writes chain events and the checkpoint; the projectors read the events and
  rewrite their collections; the income service reads events, checkpoint and project and pins a
  snapshot; the webhook stores decisions that the relay submits through the transaction manager,
  which the HTTP handlers call too. Server and signer share no code: where both implement a
  format (digests, limits, schemas), a theorem relates the two.

  \<^bold>\<open>Failures and concurrency.\<close> A call to a repository or to a remote service may fail before or
  after it took effect (\<open>fault\<close>), and before each call other goroutines and replicas may have
  changed the stores: both are functions of the environment, indexed by a counter of calls, so
  a theorem about every environment is one about every schedule. What a mutex excludes is a
  hypothesis on the interference. A write to one of the signer's files may stop after any byte.

  \<^bold>\<open>Loops, fuel and bounds.\<close> Loops over lists are structural. The halving loop of
  \<^verbatim>\<open>scanChunk\<close> terminates by the measure of its range (\<open>scan_chunk_bounded\<close> bounds the
  requests), the token walks by the input's length. The chunk loop of \<^verbatim>\<open>Poll\<close> takes as fuel one more
  than the distance from its start to the node's head, which each committed chunk lowers by at least
  one block; \<open>poll_reaches_head\<close> shows that it reaches the head. The JSON parser's fuel is twice the
  input's length and one, which \<open>parse_exact\<close> shows is never used up. Schema compilation recurses
  through the depths the code allows, 101, and so needs no fuel of its own. The schema guard is the one recursion that
  does not always end: it takes fuel, \<open>None\<close> means that the fuel ran out, \<open>guard_follows_signer\<close> gives
  enough for schemas the signer compiles, and \<open>guard_cycle_never_ends\<close> a schema for which none is.
  Machine words keep their width; where a counter could wrap (nonces, lease tokens, failures) the
  theorem states the bound it needs.

  \<^bold>\<open>What the lemmas show.\<close> Each component theory has its invariant or specification, the behaviour
  of every operation, and its properties: safety under any failures and interference (the transaction
  manager, webhook, relay, idempotency), refinement of the chain or the contract (IndexerSpec,
  Redemption), exactness of results (read models, guard, documents, schemas), round trips
  (snapshots, canonical JSON, key files), and progress when nothing fails.

  \<^bold>\<open>What modelling showed.\<close> The operator's reset runs without the atomic committer, so a
  concurrent commit leaves its events above the trusted block (\<open>unfenced_reset_strands_events\<close>
  of IndexerLive); after a range scan was shrunk, a reorg between two requests goes unnoticed
  (\<open>shrunk_scan_misses_reorg\<close>); a rebuild of the investors and an ownership proof overwrite each
  other (\<open>ownership_proof_lost\<close>); the relay never leaves the state Applying after a fee bump
  (\<open>replaced_stays_applying\<close>) and is not ordered across replicas (\<open>relay_order_not_kept\<close>); the
  horizon of a decision's expiry wraps (\<open>valid_until_beyond_horizon_accepted\<close>); a cyclic
  definition sends the schema guard into an endless recursion; lone surrogates canonicalize alike
  (\<open>lone_surrogates_collapse\<close>); invalid UTF-8, a damaged line end and a zero anchor break the signer's
  log (\<open>invalid_byte_breaks_log\<close>, \<open>append_glues_lines\<close>, \<open>anchor_zero_panics\<close>); some comments do not hold.

  \<^bold>\<open>Not modelled.\<close> The HTTP layer (routing, DTOs, JSON), MongoDB (the memory repositories
  implement the same interface), ABI bindings and log decoders (go-ethereum's ABI codec does the
  work), IPFS and KMS clients, configuration, command-line programs and wiring, metrics, the asset
  and project services, KYC provider formats, the signer's
  prompts, review screen and keystore commands, and the cryptographic primitives, which are parameters where a component needs them.
\<close>

end
